(* ===== verification/Kit_Prelude.thy ===== *)
theory Kit_Prelude
  imports Main "HOL-Library.Word"
begin

text \<open>
  Shared ground of the development: the types of the model, the loop combinators the C loops are
  translated to, the bit-level lemmas on \<open>nat\<close> and \<open>32 word\<close> used by every component, and
  the order in which the block loops of \<open>kitTruth.c\<close> visit the words of a table.
\<close>

unbundle bit_operations_syntax

named_theorems tt_simps \<open>bit-level rules for truth tables and minterm indices\<close>

type_synonym u32 = "32 word"
type_synonym truth = "u32 list"

section \<open>Loops\<close>

text \<open>
  \<open>for_up lo hi\<close> is \<open>for (i = lo; i < hi; i++)\<close>, \<open>for_down n\<close> is
  \<open>for (w = n-1; w >= 0; w--)\<close>, \<open>for_stride n d\<close> is \<open>for (k = 0; k < n; k += d)\<close>. The body
  takes the index and the state.
\<close>

definition for_up :: "nat \<Rightarrow> nat \<Rightarrow> (nat \<Rightarrow> 's \<Rightarrow> 's) \<Rightarrow> 's \<Rightarrow> 's" where
  "for_up lo hi f s = fold f [lo..<hi] s"

definition for_down :: "nat \<Rightarrow> (nat \<Rightarrow> 's \<Rightarrow> 's) \<Rightarrow> 's \<Rightarrow> 's" where
  "for_down n f s = fold f (rev [0..<n]) s"

definition stride :: "nat \<Rightarrow> nat \<Rightarrow> nat list" where
  "stride n d = map (\<lambda>j. j * d) [0..<(n + d - 1) div d]"

definition for_stride :: "nat \<Rightarrow> nat \<Rightarrow> (nat \<Rightarrow> 's \<Rightarrow> 's) \<Rightarrow> 's \<Rightarrow> 's" where
  "for_stride n d f s = fold f (stride n d) s"

lemma for_up_0 [simp]: "for_up lo lo f s = s"
  by (simp add: for_up_def)

lemma for_up_Suc: "lo \<le> hi \<Longrightarrow> for_up lo (Suc hi) f s = f hi (for_up lo hi f s)"
  by (simp add: for_up_def)

lemma for_up_invar:
  assumes "P lo s" and "lo \<le> hi"
    and step: "\<And>i s. lo \<le> i \<Longrightarrow> i < hi \<Longrightarrow> P i s \<Longrightarrow> P (Suc i) (f i s)"
  shows "P hi (for_up lo hi f s)"
  using \<open>lo \<le> hi\<close> step
proof (induction hi rule: dec_induct)
  case base
  with assms(1) show ?case by simp
next
  case (step n)
  then have "P n (for_up lo n f s)" by simp
  with step show ?case by (simp add: for_up_Suc)
qed

lemma fold_keeps:
  assumes "I s" and "\<And>x s. x \<in> set xs \<Longrightarrow> I s \<Longrightarrow> I (f x s)"
  shows "I (fold f xs s)"
  using assms by (induction xs arbitrary: s) auto

lemma length_fold_keeps:
  assumes "\<And>x p. length (f x p) = length p"
  shows "length (fold f xs p) = length p"
  using assms by (induction xs arbitrary: p) auto

text \<open>
  A loop that assigns each cell of an array once, from that cell's old value and anything that
  does not change: the order of the indices does not matter.
\<close>

lemma nth_fold_assign:
  assumes "distinct xs" and "\<forall>i \<in> set xs. i < length p"
  shows "fold (\<lambda>i p. p[i := g i (p ! i)]) xs p ! j =
    (if j \<in> set xs then g j (p ! j) else p ! j)"
  using assms
proof (induction xs arbitrary: p)
  case Nil
  then show ?case by simp
next
  case (Cons x xs)
  have "fold (\<lambda>i p. p[i := g i (p ! i)]) xs (p[x := g x (p ! x)]) ! j =
      (if j \<in> set xs then g j (p[x := g x (p ! x)] ! j) else p[x := g x (p ! x)] ! j)"
    by (rule Cons.IH) (use Cons.prems in auto)
  with Cons.prems show ?case
    by (auto simp: nth_list_update)
qed

lemma nth_for_up_assign:
  assumes "n \<le> length p"
  shows "for_up 0 n (\<lambda>i p. p[i := g i (p ! i)]) p ! j = (if j < n then g j (p ! j) else p ! j)"
  unfolding for_up_def by (subst nth_fold_assign) (use assms in auto)

lemma nth_for_down_assign:
  assumes "n \<le> length p"
  shows "for_down n (\<lambda>i p. p[i := g i (p ! i)]) p ! j = (if j < n then g j (p ! j) else p ! j)"
  unfolding for_down_def by (subst nth_fold_assign) (use assms in auto)

lemma length_for_up_assign [simp]:
  "length (for_up lo hi (\<lambda>i p. p[i := g i p]) p) = length p"
  unfolding for_up_def by (rule length_fold_keeps) simp

lemma length_for_down_assign [simp]:
  "length (for_down n (\<lambda>i p. p[i := g i p]) p) = length p"
  unfolding for_down_def by (rule length_fold_keeps) simp


text \<open>A loop that writes a fixed value per target cell: repeated targets do no harm.\<close>

lemma nth_fold_const:
  assumes "\<forall>t \<in> set ts. t < length p"
  shows "fold (\<lambda>t p. p[t := c t]) ts p ! j = (if j \<in> set ts then c j else p ! j)"
  using assms by (induction ts arbitrary: p) (auto simp: nth_list_update)

lemma length_fold_const [simp]: "length (fold (\<lambda>t p. p[t := c t]) ts p) = length p"
  by (rule length_fold_keeps) simp

lemma for_up_fold: "for_up 0 n f = fold f [0..<n]"
  by (rule ext) (simp add: for_up_def)

lemma fold_nested:
  "fold (\<lambda>k. fold (\<lambda>i. f (h k i)) (g k)) ks p = fold f (concat (map (\<lambda>k. map (h k) (g k)) ks)) p"
  by (induction ks arbitrary: p) (simp_all add: fold_map comp_def)

lemma stride_dvd:
  assumes "d dvd n" and "0 < d"
  shows "stride n d = map (\<lambda>j. j * d) [0..<n div d]"
proof -
  obtain q where n: "n = d * q" using assms(1) by (elim dvdE)
  have "(n + d - 1) div d = ((d - 1) + q * d) div d"
    using assms(2) n by (simp add: algebra_simps)
  also have "\<dots> = n div d"
    using assms(2) n by (subst div_mult_self1) simp_all
  finally have "(n + d - 1) div d = n div d" .
  then show ?thesis by (simp add: stride_def)
qed

section \<open>Block loops\<close>

text \<open>
  The loops over words of \<open>kitTruth.c\<close> for a variable \<open>v\<close> with \<open>5 <= v\<close> go through blocks of
  \<open>2*Step\<close> words (\<open>Step = 1 << (v-5)\<close>) and pair word \<open>k+i\<close> with word \<open>k+Step+i\<close>.
  \<open>block_idx\<close> lists the lower word of every pair in the order of the loop.
\<close>

definition block_idx :: "nat \<Rightarrow> nat \<Rightarrow> nat \<Rightarrow> nat list" where
  "block_idx n d s = concat (map (\<lambda>k. map ((+) k) [0..<s]) (map (\<lambda>j. j * d) [0..<n div d]))"

lemma block_idx_Suc:
  "0 < d \<Longrightarrow> block_idx (Suc q * d) d s = block_idx (q * d) d s @ map ((+) (q * d)) [0..<s]"
  by (simp add: block_idx_def div_add1_eq)

lemma block_idx_props:
  assumes "0 < d" and "s \<le> d"
  shows "set (block_idx (q * d) d s) = {w. w < q * d \<and> w mod d < s} \<and> distinct (block_idx (q * d) d s)"
proof (induction q)
  case 0
  then show ?case by (simp add: block_idx_def)
next
  case (Suc q)
  have new: "set (map ((+) (q * d)) [0..<s]) = {w. q * d \<le> w \<and> w < Suc q * d \<and> w mod d < s}" (is "?l = ?r")
  proof (intro set_eqI iffI)
    fix w assume "w \<in> ?l"
    then obtain i where "w = q * d + i" "i < s" by (auto intro: that [of "w - q * d"])
    then show "w \<in> ?r" using assms by simp
  next
    fix w assume w: "w \<in> ?r"
    define i where "i = w - q * d"
    have "w = q * d + i" and "i < d" using w by (auto simp: i_def)
    moreover have "i < s" using w calculation by simp
    ultimately show "w \<in> ?l" by simp
  qed
  have "set (block_idx (Suc q * d) d s) = {w. w < q * d \<and> w mod d < s} \<union> set (map ((+) (q * d)) [0..<s])"
    using Suc assms(1) by (simp add: block_idx_Suc del: set_map mult_Suc)
  moreover have "w < Suc q * d \<longleftrightarrow> w < q * d \<or> (q * d \<le> w \<and> w < Suc q * d)" for w
    by (cases "w < q * d") (simp_all add: trans_less_add2)
  ultimately have "set (block_idx (Suc q * d) d s) = {w. w < Suc q * d \<and> w mod d < s}"
    unfolding new by blast
  moreover have "distinct (block_idx (Suc q * d) d s)"
  proof -
    have "set (block_idx (q * d) d s) \<inter> set (map ((+) (q * d)) [0..<s]) = {}"
      using Suc unfolding new by (blast dest: leD)
    moreover have "distinct (map ((+) (q * d)) [0..<s])"
      by (simp add: distinct_map)
    ultimately show ?thesis
      unfolding block_idx_Suc [OF assms(1)] distinct_append using Suc by blast
  qed
  ultimately show ?case by blast
qed

lemma set_block_idx:
  assumes "d dvd n" and "0 < d" and "s \<le> d"
  shows "set (block_idx n d s) = {w. w < n \<and> w mod d < s}"
  using assms block_idx_props [of d s "n div d"] by simp

lemma distinct_block_idx:
  assumes "d dvd n" and "0 < d" and "s \<le> d"
  shows "distinct (block_idx n d s)"
  using assms block_idx_props [of d s "n div d"] by simp

lemma for_stride_block:
  assumes "d dvd n" and "0 < d"
  shows "for_stride n d (\<lambda>k. for_up 0 s (\<lambda>i. f (k + i))) p = fold f (block_idx n d s) p"
  unfolding for_stride_def stride_dvd [OF assms] for_up_fold block_idx_def by (rule fold_nested)

lemma stride_block_all:
  assumes "d dvd n" and "0 < d"
  shows "list_all (\<lambda>k. list_all (\<lambda>i. P (k + i)) [0..<s]) (stride n d) \<longleftrightarrow>
    (\<forall>j \<in> set (block_idx n d s). P j)"
  unfolding stride_dvd [OF assms] block_idx_def by (auto simp only: list_all_iff set_concat set_map image_image)

lemma block_upper:
  fixes s :: nat
  assumes "0 < s" and "2 * s dvd n" and "w < n" and "w mod (2 * s) < s"
  shows "w + s < n"
proof -
  obtain q where q: "n = 2 * s * q" using assms(2) by (elim dvdE)
  have "w div (2 * s) < q" using assms(1,3) q by (simp add: less_mult_imp_div_less mult.commute)
  then have "2 * s * Suc (w div (2 * s)) \<le> n" unfolding q by (intro mult_le_mono2) simp
  moreover have "2 * s * (w div (2 * s)) + w mod (2 * s) = w" by (rule mult_div_mod_eq)
  moreover have "2 * s * Suc (w div (2 * s)) = 2 * s * (w div (2 * s)) + 2 * s" by simp
  ultimately show ?thesis using assms(4) by linarith
qed

lemma block_lower:
  fixes s :: nat
  assumes "0 < s" and "\<not> w mod (2 * s) < s"
  shows "s \<le> w \<and> (w - s) mod (2 * s) < s"
proof -
  define r where "r = w mod (2 * s)"
  have w: "2 * s * (w div (2 * s)) + r = w" unfolding r_def by (rule mult_div_mod_eq)
  have r: "s \<le> r" "r < 2 * s" using assms mod_less_divisor [of "2 * s" w] by (auto simp: r_def)
  have "w - s = (r - s) + w div (2 * s) * (2 * s)"
    using r(1) w by (simp add: algebra_simps)
  then have "(w - s) mod (2 * s) = (r - s) mod (2 * s)" by simp
  also have "\<dots> = r - s" using r by (intro mod_less) linarith
  finally show ?thesis using r w by linarith
qed

end
