(* ===== verification/Kit_Bits.thy ===== *)
theory Kit_Bits
  imports Kit_Prelude
begin

text \<open>
  The meaning of truth tables. A table is an array of 32-bit words; bit \<open>m mod 32\<close> of word
  \<open>m div 32\<close> is the value of the function at minterm \<open>m\<close>, and bit \<open>v\<close> of \<open>m\<close> is the value
  of variable \<open>v\<close> there. Changing variable \<open>v\<close> of the minterm moves inside a word for
  \<open>v < 5\<close> and between words otherwise: the lemmas here say how.
\<close>

definition tt_bit :: "truth \<Rightarrow> nat \<Rightarrow> bool" where
  "tt_bit p m = bit (p ! (m div 32)) (m mod 32)"

section \<open>Setting bits of minterm indices\<close>

lemma nat_set_bit_clear: "\<not> bit n v \<Longrightarrow> set_bit v (n::nat) = n + 2 ^ v"
  by (simp add: set_bit_eq)

lemma nat_unset_bit_set: "bit n v \<Longrightarrow> unset_bit v (n::nat) = n - 2 ^ v"
proof -
  assume "bit n v"
  then have "set_bit v (unset_bit v n) = n"
    by (intro bit_eqI) (auto simp: bit_simps)
  then have "unset_bit v n + 2 ^ v = n"
    by (simp add: nat_set_bit_clear bit_simps)
  then show ?thesis by linarith
qed

lemma nat_bit_le: "bit (n::nat) v \<Longrightarrow> 2 ^ v \<le> n"
proof -
  assume "bit n v"
  then have "set_bit v (unset_bit v n) = n"
    by (intro bit_eqI) (auto simp: bit_simps)
  then have "unset_bit v n + 2 ^ v = n"
    by (simp add: nat_set_bit_clear bit_simps)
  then show ?thesis by linarith
qed

lemma nat_set_bit_same [simp]: "bit n v \<Longrightarrow> set_bit v (n::nat) = n"
  by (rule bit_eqI) (auto simp: bit_simps)

lemma nat_unset_bit_same [simp]: "\<not> bit n v \<Longrightarrow> unset_bit v (n::nat) = n"
  by (rule bit_eqI) (auto simp: bit_simps)

lemma nat_flip_bit: "flip_bit v (n::nat) = (if bit n v then unset_bit v n else set_bit v n)"
  by (rule bit_eqI) (auto simp: bit_simps)

lemma nat_less_pow2_iff_bits: "(n::nat) < 2 ^ k \<longleftrightarrow> (\<forall>i \<ge> k. \<not> bit n i)"
proof
  assume "n < 2 ^ k"
  then have "\<not> 2 ^ i \<le> n" if "k \<le> i" for i
    using power_increasing [OF that, of "2::nat"] by linarith
  then show "\<forall>i \<ge> k. \<not> bit n i" using nat_bit_le by blast
next
  assume "\<forall>i \<ge> k. \<not> bit n i"
  then have "take_bit k n = n"
    by (intro bit_eqI) (metis bit_take_bit_iff not_less)
  then show "n < 2 ^ k" by (simp add: take_bit_nat_eq_self_iff)
qed

lemma nat_set_bit_less: "v < k \<Longrightarrow> n < 2 ^ k \<Longrightarrow> set_bit v (n::nat) < 2 ^ k"
  by (auto simp: nat_less_pow2_iff_bits bit_simps)

lemma nat_unset_bit_less: "n < 2 ^ k \<Longrightarrow> unset_bit v (n::nat) < 2 ^ k"
  by (auto simp: nat_less_pow2_iff_bits bit_simps)

lemma nat_flip_bit_less: "v < k \<Longrightarrow> n < 2 ^ k \<Longrightarrow> flip_bit v (n::nat) < 2 ^ k"
  by (auto simp: nat_less_pow2_iff_bits bit_simps)

lemma nat_bit_mod: "bit (n::nat) v \<longleftrightarrow> \<not> n mod (2 * 2 ^ v) < 2 ^ v"
proof -
  have "n mod (2 * 2 ^ v) = take_bit (Suc v) n" by (simp add: take_bit_eq_mod)
  then show ?thesis
    by (auto simp: nat_less_pow2_iff_bits bit_take_bit_iff less_Suc_eq dest: le_antisym)
qed

text \<open>The word index and the bit index of a minterm after a change of variable \<open>v\<close>.\<close>

lemma div32: "(m::nat) div 32 = drop_bit 5 m"
  by (simp add: drop_bit_eq_div)

lemma mod32: "(m::nat) mod 32 = take_bit 5 m"
  by (simp add: take_bit_eq_mod)

lemma minterm_high:
  fixes m :: nat
  assumes "5 \<le> v"
  shows "unset_bit v m div 32 = unset_bit (v - 5) (m div 32)" "unset_bit v m mod 32 = m mod 32"
    "set_bit v m div 32 = set_bit (v - 5) (m div 32)" "set_bit v m mod 32 = m mod 32"
    "flip_bit v m div 32 = flip_bit (v - 5) (m div 32)" "flip_bit v m mod 32 = m mod 32"
  unfolding div32 mod32 by (rule bit_eqI, use assms in \<open>auto simp: bit_simps\<close>)+

lemma minterm_high_bit: "5 \<le> v \<Longrightarrow> bit (m div 32) (v - 5) = bit m v" for m :: nat
  unfolding div32 mod32 by (simp add: bit_simps)

lemma minterm_low:
  fixes m :: nat
  assumes "v < 5"
  shows "unset_bit v m div 32 = m div 32" "unset_bit v m mod 32 = unset_bit v (m mod 32)"
    "set_bit v m div 32 = m div 32" "set_bit v m mod 32 = set_bit v (m mod 32)"
    "flip_bit v m div 32 = m div 32" "flip_bit v m mod 32 = flip_bit v (m mod 32)"
  unfolding div32 mod32 by (rule bit_eqI, use assms in \<open>auto simp: bit_simps\<close>)+

lemma minterm_low_bit: "v < 5 \<Longrightarrow> bit (m mod 32) v = bit m v" for m :: nat
  unfolding div32 mod32 by (simp add: bit_simps)

section \<open>The elementary masks\<close>

text \<open>
  \<open>hi_mask v\<close> has a one at the positions whose bit \<open>v\<close> is set (the elementary truth table of
  variable \<open>v\<close>), \<open>lo_mask v\<close> at the others. \<open>kitTruth.c\<close> writes these constants out in every
  function; the model does too, and the lemmas reduce them to these names.
\<close>

definition lo_mask :: "nat \<Rightarrow> u32" where
  "lo_mask v = [0x55555555, 0x33333333, 0x0F0F0F0F, 0x00FF00FF, 0x0000FFFF] ! v"

definition hi_mask :: "nat \<Rightarrow> u32" where
  "hi_mask v = [0xAAAAAAAA, 0xCCCCCCCC, 0xF0F0F0F0, 0xFF00FF00, 0xFFFF0000] ! v"

lemma less_32_cases: "n < (32::nat) \<longleftrightarrow> n \<in> set [0..<32]"
  by simp

lemma less_5_cases: "v < (5::nat) \<Longrightarrow> v = 0 \<or> v = 1 \<or> v = 2 \<or> v = 3 \<or> v = 4"
  by auto

lemma masks_table:
  "list_all (\<lambda>v. list_all (\<lambda>n. bit (lo_mask v) n = (\<not> bit n v) \<and> bit (hi_mask v) n = bit n v) [0..<32]) [0..<5]"
  by code_simp

lemma bit_lo_mask [tt_simps]: "v < 5 \<Longrightarrow> bit (lo_mask v) n \<longleftrightarrow> n < 32 \<and> \<not> bit n v"
  using masks_table bit_imp_le_length [of "lo_mask v" n] by (auto simp: list_all_iff)

lemma bit_hi_mask [tt_simps]: "v < 5 \<Longrightarrow> bit (hi_mask v) n \<longleftrightarrow> n < 32 \<and> bit n v"
  using masks_table bit_imp_le_length [of "hi_mask v" n] by (auto simp: list_all_iff)

end
