(* ===== verification/Kit_Word.thy ===== *)
theory Kit_Word
  imports Kit_Bits
begin

text \<open>
  The inline operations of \<open>kit.h\<close> on one word and on whole tables (\<open>Kit_WordFindFirstBit\<close>
  to \<open>Kit_TruthIthVar\<close>). An output array is an argument and the result; a predicate that returns
  0 from inside its loop is a \<open>list_all\<close> over the loop's indices. The word-wise writers read and
  write position \<open>w\<close> only, so calling them with an input as the output array (as
  \<open>Kit_TruthNot( p, p, n )\<close> does) is the same as passing that array twice.
\<close>

section \<open>Operations on one word\<close>

definition Kit_WordFindFirstBit :: "u32 \<Rightarrow> int" where
  "Kit_WordFindFirstBit uWord =
     (case find (\<lambda>i. uWord AND push_bit i 1 \<noteq> 0) [0..<32] of Some i \<Rightarrow> int i | None \<Rightarrow> -1)"

definition Kit_WordHasOneBit :: "u32 \<Rightarrow> bool" where
  "Kit_WordHasOneBit uWord \<longleftrightarrow> uWord AND (uWord - 1) = 0"

definition Kit_WordCountOnes :: "u32 \<Rightarrow> nat" where
  "Kit_WordCountOnes uWord =
    (let uWord = (uWord AND 0x55555555) + (drop_bit 1 uWord AND 0x55555555);
         uWord = (uWord AND 0x33333333) + (drop_bit 2 uWord AND 0x33333333);
         uWord = (uWord AND 0x0F0F0F0F) + (drop_bit 4 uWord AND 0x0F0F0F0F);
         uWord = (uWord AND 0x00FF00FF) + (drop_bit 8 uWord AND 0x00FF00FF)
     in unat ((uWord AND 0x0000FFFF) + drop_bit 16 uWord))"

text \<open>The reference: the number of set bits.\<close>

definition word_ones :: "u32 \<Rightarrow> nat" where
  "word_ones x = card {i. i < 32 \<and> bit x i}"

text \<open>
  A number as digits in base \<open>2 ^ w\<close>, least significant first. One step of the bit-parallel count
  adds neighbouring digits.
\<close>

fun val :: "nat \<Rightarrow> nat list \<Rightarrow> nat" where
  "val w [] = 0"
| "val w (d # ds) = d + 2 ^ w * val w ds"

fun pairsums :: "nat list \<Rightarrow> nat list" where
  "pairsums (a # b # ds) = (a + b) # pairsums ds"
| "pairsums ds = ds"

fun alt_mask :: "nat \<Rightarrow> nat \<Rightarrow> nat" where
  "alt_mask w 0 = 0"
| "alt_mask w (Suc n) = (2 ^ w - 1) + 2 ^ (2 * w) * alt_mask w n"

lemma alt_mask_unfold: "0 < n \<Longrightarrow> alt_mask w n = (2 ^ w - 1) + 2 ^ (2 * w) * alt_mask w (n - 1)"
  by (cases n) simp_all

lemma add_shift_or: "a < 2 ^ k \<Longrightarrow> a + 2 ^ k * r = a OR push_bit k (r::nat)"
proof -
  assume a: "a < 2 ^ k"
  have "a + push_bit k r = a OR push_bit k r"
    by (rule disjunctive_add) (use a in \<open>auto simp: bit_simps nat_less_pow2_iff_bits not_le\<close>)
  then show ?thesis by (simp add: push_bit_eq_mult mult.commute)
qed

lemma and_split:
  assumes "a < 2 ^ k" and "m < 2 ^ k"
  shows "(a + 2 ^ k * r) AND (m + 2 ^ k * (q::nat)) = (a AND m) + 2 ^ k * (r AND q)"
proof -
  have "a AND m < 2 ^ k" using assms by (auto simp: nat_less_pow2_iff_bits bit_simps)
  then show ?thesis
    using assms
    by (simp add: add_shift_or)
      (rule bit_eqI, auto simp: bit_simps nat_less_pow2_iff_bits dest: not_le_imp_less)
qed

lemma val_bound: "\<forall>d \<in> set ds. d < 2 ^ w \<Longrightarrow> val w ds < 2 ^ (w * length ds)"
proof (induction ds)
  case Nil
  then show ?case by simp
next
  case (Cons d ds)
  then have "d + 2 ^ w * val w ds < 2 ^ w + 2 ^ w * val w ds" by simp
  also have "\<dots> = 2 ^ w * Suc (val w ds)" by simp
  also have "\<dots> \<le> 2 ^ w * 2 ^ (w * length ds)" using Cons by (intro mult_le_mono2) auto
  finally show ?case by (simp add: power_add)
qed

lemma sum_pairsums: "sum_list (pairsums ds) = sum_list ds"
  by (induction ds rule: pairsums.induct) auto

lemma pairsums_bound: "\<forall>d \<in> set ds. d \<le> b \<Longrightarrow> \<forall>d \<in> set (pairsums ds). d \<le> 2 * b"
  by (induction ds rule: pairsums.induct) auto

lemma length_pairsums: "even (length ds) \<Longrightarrow> length (pairsums ds) = length ds div 2"
  by (induction ds rule: pairsums.induct) auto

lemma and_mask_low: "a < 2 ^ w \<Longrightarrow> (a + 2 ^ w * b) AND (2 ^ w - 1) = (a::nat)"
  unfolding mask_eq_exp_minus_1 [symmetric] take_bit_eq_mask [symmetric]
  by (simp add: take_bit_eq_mod)

lemma swar_step:
  assumes "length ds = 2 * n" and "\<forall>d \<in> set ds. d < 2 ^ w"
  shows "(val w ds AND alt_mask w n) + (drop_bit w (val w ds) AND alt_mask w n) = val (2 * w) (pairsums ds)"
  using assms
proof (induction n arbitrary: ds)
  case 0
  then show ?case by simp
next
  case (Suc n)
  then obtain a b ds' where ds: "ds = a # b # ds'" "length ds' = 2 * n"
    by (auto simp: length_Suc_conv)
  define V where "V = val w ds'"
  define M where "M = alt_mask w n"
  have ab: "a < 2 ^ w" "b < 2 ^ w" using Suc.prems ds by auto
  have lt: "x + 2 ^ w * y < 2 ^ (2 * w)" if "x < 2 ^ w" "y < 2 ^ w" for x y :: nat
  proof -
    have "x + 2 ^ w * y < 2 ^ w * Suc y" using that(1) by simp
    also have "\<dots> \<le> 2 ^ w * 2 ^ w" using that(2) by (intro mult_le_mono2) simp
    finally show ?thesis by (simp add: mult_2 power_add)
  qed
  have m: "(2 ^ w - 1 :: nat) < 2 ^ (2 * w)"
    using power_increasing [of w "2 * w" "2::nat"] zero_less_power [of "2::nat" w] by linarith
  have v: "val w ds = (a + 2 ^ w * b) + 2 ^ (2 * w) * V"
    by (simp add: ds V_def algebra_simps power_mult power2_eq_square)
  have d: "drop_bit w (val w ds) = (b + 2 ^ w * (V mod 2 ^ w)) + 2 ^ (2 * w) * drop_bit w V"
  proof -
    have "drop_bit w (val w ds) = b + 2 ^ w * V"
      using ab(1) by (simp add: ds V_def drop_bit_eq_div)
    also have "2 ^ w * V = 2 ^ w * (V mod 2 ^ w + 2 ^ w * (V div 2 ^ w))" by simp
    also have "\<dots> = 2 ^ w * (V mod 2 ^ w) + 2 ^ (2 * w) * drop_bit w V"
      by (simp only: distrib_left drop_bit_eq_div mult.assoc [symmetric] mult_2 power_add)
    finally show ?thesis by simp
  qed
  have "val w ds AND alt_mask w (Suc n) = a + 2 ^ (2 * w) * (V AND M)"
    unfolding v M_def alt_mask.simps using ab m lt by (subst and_split) (simp_all add: and_mask_low [unfolded One_nat_def])
  moreover have "drop_bit w (val w ds) AND alt_mask w (Suc n) = b + 2 ^ (2 * w) * (drop_bit w V AND M)"
    unfolding d M_def alt_mask.simps using ab m lt by (subst and_split) (simp_all add: and_mask_low [unfolded One_nat_def])
  moreover have "(V AND M) + (drop_bit w V AND M) = val (2 * w) (pairsums ds')"
    unfolding V_def M_def by (rule Suc.IH) (use Suc.prems ds in auto)
  ultimately show ?case
    using distrib_left [of "2 ^ (2 * w)" "V AND M" "drop_bit w V AND M"] by (simp add: ds)
qed

lemma val_bits: "val 1 (map (\<lambda>i. of_bool (bit x i)) [k..<k + n]) = take_bit n (drop_bit k x)"
  for x :: nat
proof (induction n arbitrary: k)
  case 0
  then show ?case by simp
next
  case (Suc n)
  have "val 1 (map (\<lambda>i. of_bool (bit x i)) [k..<k + Suc n]) =
      of_bool (bit x k) + 2 * val 1 (map (\<lambda>i. of_bool (bit x i)) [Suc k..<Suc k + n])"
    by (simp add: upt_conv_Cons del: upt_Suc)
  also have "\<dots> = of_bool (bit x k) + 2 * take_bit n (drop_bit (Suc k) x)"
    by (simp only: Suc.IH)
  also have "\<dots> = take_bit (Suc n) (drop_bit k x)"
    by (simp add: take_bit_Suc drop_bit_Suc drop_bit_half bit_iff_odd_drop_bit mod2_eq_if)
  finally show ?case .
qed

lemma unat_swar_step:
  fixes u :: u32
  assumes "unat u = val w ds" and "length ds = 2 * n" and "\<forall>d \<in> set ds. d \<le> b" and "b < 2 ^ w"
    and "2 * b < 2 ^ (2 * w)" and "w * length ds = 32" and "unat m = alt_mask w n"
  shows "unat ((u AND m) + (drop_bit w u AND m)) = val (2 * w) (pairsums ds)"
proof -
  have "val w ds < 2 ^ (w * length ds)"
    by (rule val_bound) (use assms in fastforce)
  then have "take_bit 32 (val w ds) = val w ds"
    unfolding assms(6) by (simp add: take_bit_nat_eq_self)
  then have "unat (u AND m) + unat (drop_bit w u AND m) =
      (val w ds AND alt_mask w n) + (drop_bit w (val w ds) AND alt_mask w n)"
    using assms(1,7) by (simp add: unsigned_and_eq unsigned_drop_bit_eq)
  also have "\<dots> = val (2 * w) (pairsums ds)"
    by (rule swar_step) (use assms in fastforce)+
  finally have "unat (u AND m) + unat (drop_bit w u AND m) = val (2 * w) (pairsums ds)" .
  moreover have "val (2 * w) (pairsums ds) < 2 ^ (2 * w * length (pairsums ds))"
    by (rule val_bound) (use assms pairsums_bound [of ds b] in fastforce)
  moreover have "2 * w * length (pairsums ds) = 32"
    using assms by (simp add: length_pairsums)
  ultimately show ?thesis
    by (simp add: unat_add_lem [THEN iffD1])
qed

lemma card_filter_upt: "card {i. i < n \<and> P i} = sum_list (map (\<lambda>i. of_bool (P i)) [0..<n])"
proof -
  have count: "sum_list (map (\<lambda>i. of_bool (P i)) xs) = length (filter P xs)" for xs
    by (induction xs) auto
  have "card (set (filter P [0..<n])) = length (filter P [0..<n])" by (rule distinct_card) simp
  moreover have "set (filter P [0..<n]) = {i. i < n \<and> P i}" by auto
  ultimately show ?thesis by (simp add: count)
qed

lemma Kit_WordCountOnes_popcount: "Kit_WordCountOnes x = word_ones x"
proof -
  define ds where "ds = map (\<lambda>i. of_bool (bit x i) :: nat) [0..<32]"
  define u1 where "u1 = (x AND 0x55555555) + (drop_bit 1 x AND 0x55555555)"
  define u2 where "u2 = (u1 AND 0x33333333) + (drop_bit 2 u1 AND 0x33333333)"
  define u3 where "u3 = (u2 AND 0x0F0F0F0F) + (drop_bit 4 u2 AND 0x0F0F0F0F)"
  define u4 where "u4 = (u3 AND 0x00FF00FF) + (drop_bit 8 u3 AND 0x00FF00FF)"
  let ?p = "pairsums"
  have x: "unat x = val 1 ds"
  proof -
    have "val 1 ds = val 1 (map (\<lambda>i. of_bool (bit (unat x) i)) [0..<0 + 32])"
      by (simp add: ds_def bit_unsigned_iff [where 'a = nat])
    also have "\<dots> = take_bit 32 (unat x)" by (subst val_bits) simp
    also have "\<dots> = unat x"
    proof -
      have "unat x < 2 ^ LENGTH(32)" by (rule unsigned_less)
      then show ?thesis by (simp add: take_bit_nat_eq_self)
    qed
    finally show ?thesis ..
  qed
  have m: "unat (0x55555555 :: u32) = alt_mask 1 16" "unat (0x33333333 :: u32) = alt_mask 2 8"
    "unat (0x0F0F0F0F :: u32) = alt_mask 4 4" "unat (0x00FF00FF :: u32) = alt_mask 8 2"
    "unat (0x0000FFFF :: u32) = alt_mask 16 1"
    by (simp_all add: alt_mask_unfold)
  have len: "length ds = 32" by (simp add: ds_def)
  note bnd = pairsums_bound
  have b0: "\<forall>d \<in> set ds. d \<le> 1" by (auto simp: ds_def)
  have b1: "\<forall>d \<in> set (?p ds). d \<le> 2" using bnd [OF b0] by simp
  have b2: "\<forall>d \<in> set (?p (?p ds)). d \<le> 4" using bnd [OF b1] by simp
  have b3: "\<forall>d \<in> set (?p (?p (?p ds))). d \<le> 8" using bnd [OF b2] by simp
  have b4: "\<forall>d \<in> set (?p (?p (?p (?p ds)))). d \<le> 16" using bnd [OF b3] by simp
  have u1: "unat u1 = val 2 (?p ds)"
    unfolding u1_def using unat_swar_step [OF x _ b0, of 16 "0x55555555"] m(1) by (simp add: len)
  have u2: "unat u2 = val 4 (?p (?p ds))"
    unfolding u2_def using unat_swar_step [OF u1 _ b1, of 8 "0x33333333"] m(2)
    by (simp add: len length_pairsums)
  have u3: "unat u3 = val 8 (?p (?p (?p ds)))"
    unfolding u3_def using unat_swar_step [OF u2 _ b2, of 4 "0x0F0F0F0F"] m(3)
    by (simp add: len length_pairsums)
  have u4: "unat u4 = val 16 (?p (?p (?p (?p ds))))"
    unfolding u4_def using unat_swar_step [OF u3 _ b3, of 2 "0x00FF00FF"] m(4)
    by (simp add: len length_pairsums)
  have "unat ((u4 AND 0x0000FFFF) + (drop_bit 16 u4 AND 0x0000FFFF)) = val 32 (?p (?p (?p (?p (?p ds)))))"
    using unat_swar_step [OF u4 _ b4, of 1 "0x0000FFFF"] m(5)
    by (simp add: len length_pairsums)
  moreover have "drop_bit 16 u4 AND 0x0000FFFF = drop_bit 16 u4"
  proof -
    have m16: "(0x0000FFFF :: u32) = mask 16" by (simp add: mask_eq_exp_minus_1)
    show ?thesis
      unfolding m16 take_bit_eq_mask [symmetric]
      by (rule bit_word_eqI) (auto simp: bit_simps dest: bit_imp_le_length)
  qed
  moreover have "val 32 l = sum_list l" if "length l = 1" for l
    using that by (cases l) auto
  ultimately have "unat ((u4 AND 0x0000FFFF) + drop_bit 16 u4) = sum_list ds"
    by (simp add: len length_pairsums sum_pairsums)
  then show ?thesis
    by (simp add: Kit_WordCountOnes_def Let_def u1_def u2_def u3_def u4_def word_ones_def
        card_filter_upt ds_def del: upt_Suc)
qed

section \<open>Sizes\<close>

definition Kit_TruthWordNum :: "nat \<Rightarrow> nat" where
  "Kit_TruthWordNum nVars = (if nVars \<le> 5 then 1 else 2 ^ (nVars - 5))"

definition Kit_TruthSetBit :: "truth \<Rightarrow> nat \<Rightarrow> truth" where
  "Kit_TruthSetBit p Bit = p[Bit div 32 := p ! (Bit div 32) OR push_bit (Bit mod 32) 1]"

definition Kit_TruthXorBit :: "truth \<Rightarrow> nat \<Rightarrow> truth" where
  "Kit_TruthXorBit p Bit = p[Bit div 32 := p ! (Bit div 32) XOR push_bit (Bit mod 32) 1]"

definition Kit_TruthHasBit :: "truth \<Rightarrow> nat \<Rightarrow> bool" where
  "Kit_TruthHasBit p Bit \<longleftrightarrow> p ! (Bit div 32) AND push_bit (Bit mod 32) 1 > 0"

text \<open>A table of \<open>n\<close> variables has exactly \<open>Kit_TruthWordNum n\<close> words.\<close>

definition tt_wf :: "nat \<Rightarrow> truth \<Rightarrow> bool" where
  "tt_wf n p \<longleftrightarrow> length p = Kit_TruthWordNum n"

definition tt_size :: "nat \<Rightarrow> nat" where
  "tt_size n = 32 * Kit_TruthWordNum n"

text \<open>
  The minterms of \<open>n\<close> variables below \<open>2 ^ n\<close>; for \<open>n < 5\<close> the word also holds the positions
  above, and the word-wise operations act on all of them.
\<close>

section \<open>Queries on whole tables\<close>

definition Kit_TruthCountOnes :: "truth \<Rightarrow> nat \<Rightarrow> nat" where
  "Kit_TruthCountOnes pIn nVars =
     for_down (Kit_TruthWordNum nVars) (\<lambda>w Counter. Counter + Kit_WordCountOnes (pIn ! w)) 0"

definition Kit_TruthFindFirstBit :: "truth \<Rightarrow> nat \<Rightarrow> int" where
  "Kit_TruthFindFirstBit pIn nVars =
     (case find (\<lambda>w. pIn ! w \<noteq> 0) [0..<Kit_TruthWordNum nVars] of
        Some w \<Rightarrow> 32 * int w + Kit_WordFindFirstBit (pIn ! w)
      | None \<Rightarrow> -1)"

definition Kit_TruthFindFirstZero :: "truth \<Rightarrow> nat \<Rightarrow> int" where
  "Kit_TruthFindFirstZero pIn nVars =
     (case find (\<lambda>w. NOT (pIn ! w) \<noteq> 0) [0..<Kit_TruthWordNum nVars] of
        Some w \<Rightarrow> 32 * int w + Kit_WordFindFirstBit (NOT (pIn ! w))
      | None \<Rightarrow> -1)"

abbreviation all_words :: "nat \<Rightarrow> (nat \<Rightarrow> bool) \<Rightarrow> bool" where
  "all_words nVars P \<equiv> list_all P (rev [0..<Kit_TruthWordNum nVars])"

definition Kit_TruthIsEqual :: "truth \<Rightarrow> truth \<Rightarrow> nat \<Rightarrow> bool" where
  "Kit_TruthIsEqual pIn0 pIn1 nVars \<longleftrightarrow> all_words nVars (\<lambda>w. pIn0 ! w = pIn1 ! w)"

definition Kit_TruthIsEqualWithCare :: "truth \<Rightarrow> truth \<Rightarrow> truth \<Rightarrow> nat \<Rightarrow> bool" where
  "Kit_TruthIsEqualWithCare pIn0 pIn1 pCare nVars \<longleftrightarrow>
     all_words nVars (\<lambda>w. pIn0 ! w AND pCare ! w = pIn1 ! w AND pCare ! w)"

definition Kit_TruthIsOpposite :: "truth \<Rightarrow> truth \<Rightarrow> nat \<Rightarrow> bool" where
  "Kit_TruthIsOpposite pIn0 pIn1 nVars \<longleftrightarrow> all_words nVars (\<lambda>w. pIn0 ! w = NOT (pIn1 ! w))"

definition Kit_TruthIsEqualWithPhase :: "truth \<Rightarrow> truth \<Rightarrow> nat \<Rightarrow> bool" where
  "Kit_TruthIsEqualWithPhase pIn0 pIn1 nVars \<longleftrightarrow>
     (if pIn0 ! 0 AND 1 = pIn1 ! 0 AND 1 then all_words nVars (\<lambda>w. pIn0 ! w = pIn1 ! w)
      else all_words nVars (\<lambda>w. pIn0 ! w = NOT (pIn1 ! w)))"

definition Kit_TruthIsConst0 :: "truth \<Rightarrow> nat \<Rightarrow> bool" where
  "Kit_TruthIsConst0 pIn nVars \<longleftrightarrow> all_words nVars (\<lambda>w. pIn ! w = 0)"

definition Kit_TruthIsConst1 :: "truth \<Rightarrow> nat \<Rightarrow> bool" where
  "Kit_TruthIsConst1 pIn nVars \<longleftrightarrow> all_words nVars (\<lambda>w. pIn ! w = NOT 0)"

definition Kit_TruthIsImply :: "truth \<Rightarrow> truth \<Rightarrow> nat \<Rightarrow> bool" where
  "Kit_TruthIsImply pIn1 pIn2 nVars \<longleftrightarrow> all_words nVars (\<lambda>w. pIn1 ! w AND NOT (pIn2 ! w) = 0)"

definition Kit_TruthIsDisjoint :: "truth \<Rightarrow> truth \<Rightarrow> nat \<Rightarrow> bool" where
  "Kit_TruthIsDisjoint pIn1 pIn2 nVars \<longleftrightarrow> all_words nVars (\<lambda>w. pIn1 ! w AND pIn2 ! w = 0)"

definition Kit_TruthIsDisjoint3 :: "truth \<Rightarrow> truth \<Rightarrow> truth \<Rightarrow> nat \<Rightarrow> bool" where
  "Kit_TruthIsDisjoint3 pIn1 pIn2 pIn3 nVars \<longleftrightarrow>
     all_words nVars (\<lambda>w. pIn1 ! w AND pIn2 ! w AND pIn3 ! w = 0)"

section \<open>Writers of whole tables\<close>

definition Kit_TruthCopy :: "truth \<Rightarrow> truth \<Rightarrow> nat \<Rightarrow> truth" where
  "Kit_TruthCopy pOut pIn nVars =
     for_down (Kit_TruthWordNum nVars) (\<lambda>w pOut. pOut[w := pIn ! w]) pOut"

definition Kit_TruthClear :: "truth \<Rightarrow> nat \<Rightarrow> truth" where
  "Kit_TruthClear pOut nVars =
     for_down (Kit_TruthWordNum nVars) (\<lambda>w pOut. pOut[w := 0]) pOut"

definition Kit_TruthFill :: "truth \<Rightarrow> nat \<Rightarrow> truth" where
  "Kit_TruthFill pOut nVars =
     for_down (Kit_TruthWordNum nVars) (\<lambda>w pOut. pOut[w := NOT 0]) pOut"

definition Kit_TruthNot :: "truth \<Rightarrow> truth \<Rightarrow> nat \<Rightarrow> truth" where
  "Kit_TruthNot pOut pIn nVars =
     for_down (Kit_TruthWordNum nVars) (\<lambda>w pOut. pOut[w := NOT (pIn ! w)]) pOut"

definition Kit_TruthAnd :: "truth \<Rightarrow> truth \<Rightarrow> truth \<Rightarrow> nat \<Rightarrow> truth" where
  "Kit_TruthAnd pOut pIn0 pIn1 nVars =
     for_down (Kit_TruthWordNum nVars) (\<lambda>w pOut. pOut[w := pIn0 ! w AND pIn1 ! w]) pOut"

definition Kit_TruthOr :: "truth \<Rightarrow> truth \<Rightarrow> truth \<Rightarrow> nat \<Rightarrow> truth" where
  "Kit_TruthOr pOut pIn0 pIn1 nVars =
     for_down (Kit_TruthWordNum nVars) (\<lambda>w pOut. pOut[w := pIn0 ! w OR pIn1 ! w]) pOut"

definition Kit_TruthXor :: "truth \<Rightarrow> truth \<Rightarrow> truth \<Rightarrow> nat \<Rightarrow> truth" where
  "Kit_TruthXor pOut pIn0 pIn1 nVars =
     for_down (Kit_TruthWordNum nVars) (\<lambda>w pOut. pOut[w := pIn0 ! w XOR pIn1 ! w]) pOut"

definition Kit_TruthSharp :: "truth \<Rightarrow> truth \<Rightarrow> truth \<Rightarrow> nat \<Rightarrow> truth" where
  "Kit_TruthSharp pOut pIn0 pIn1 nVars =
     for_down (Kit_TruthWordNum nVars) (\<lambda>w pOut. pOut[w := pIn0 ! w AND NOT (pIn1 ! w)]) pOut"

definition Kit_TruthNand :: "truth \<Rightarrow> truth \<Rightarrow> truth \<Rightarrow> nat \<Rightarrow> truth" where
  "Kit_TruthNand pOut pIn0 pIn1 nVars =
     for_down (Kit_TruthWordNum nVars) (\<lambda>w pOut. pOut[w := NOT (pIn0 ! w AND pIn1 ! w)]) pOut"

definition Kit_TruthMux :: "truth \<Rightarrow> truth \<Rightarrow> truth \<Rightarrow> truth \<Rightarrow> nat \<Rightarrow> truth" where
  "Kit_TruthMux pOut pIn0 pIn1 pCtrl nVars =
     for_down (Kit_TruthWordNum nVars) (\<lambda>w pOut. pOut[w := (pIn0 ! w AND NOT (pCtrl ! w)) OR (pIn1 ! w AND pCtrl ! w)]) pOut"

definition Kit_TruthAndPhase :: "truth \<Rightarrow> truth \<Rightarrow> truth \<Rightarrow> nat \<Rightarrow> bool \<Rightarrow> bool \<Rightarrow> truth" where
  "Kit_TruthAndPhase pOut pIn0 pIn1 nVars fCompl0 fCompl1 =
     (if fCompl0 \<and> fCompl1 then
        for_down (Kit_TruthWordNum nVars) (\<lambda>w pOut. pOut[w := NOT (pIn0 ! w OR pIn1 ! w)]) pOut
      else if fCompl0 \<and> \<not> fCompl1 then
        for_down (Kit_TruthWordNum nVars) (\<lambda>w pOut. pOut[w := NOT (pIn0 ! w) AND pIn1 ! w]) pOut
      else if \<not> fCompl0 \<and> fCompl1 then
        for_down (Kit_TruthWordNum nVars) (\<lambda>w pOut. pOut[w := pIn0 ! w AND NOT (pIn1 ! w)]) pOut
      else 
        for_down (Kit_TruthWordNum nVars) (\<lambda>w pOut. pOut[w := pIn0 ! w AND pIn1 ! w]) pOut)"

definition Kit_TruthOrPhase :: "truth \<Rightarrow> truth \<Rightarrow> truth \<Rightarrow> nat \<Rightarrow> bool \<Rightarrow> bool \<Rightarrow> truth" where
  "Kit_TruthOrPhase pOut pIn0 pIn1 nVars fCompl0 fCompl1 =
     (if fCompl0 \<and> fCompl1 then
        for_down (Kit_TruthWordNum nVars) (\<lambda>w pOut. pOut[w := NOT (pIn0 ! w AND pIn1 ! w)]) pOut
      else if fCompl0 \<and> \<not> fCompl1 then
        for_down (Kit_TruthWordNum nVars) (\<lambda>w pOut. pOut[w := NOT (pIn0 ! w) OR pIn1 ! w]) pOut
      else if \<not> fCompl0 \<and> fCompl1 then
        for_down (Kit_TruthWordNum nVars) (\<lambda>w pOut. pOut[w := pIn0 ! w OR NOT (pIn1 ! w)]) pOut
      else 
        for_down (Kit_TruthWordNum nVars) (\<lambda>w pOut. pOut[w := pIn0 ! w OR pIn1 ! w]) pOut)"

definition Kit_TruthMuxPhase :: "truth \<Rightarrow> truth \<Rightarrow> truth \<Rightarrow> truth \<Rightarrow> nat \<Rightarrow> bool \<Rightarrow> truth" where
  "Kit_TruthMuxPhase pOut pIn0 pIn1 pCtrl nVars fComp0 =
     (if fComp0 then
        for_down (Kit_TruthWordNum nVars)
          (\<lambda>w pOut. pOut[w := (NOT (pIn0 ! w) AND NOT (pCtrl ! w)) OR (pIn1 ! w AND pCtrl ! w)]) pOut
      else
        for_down (Kit_TruthWordNum nVars)
          (\<lambda>w pOut. pOut[w := (pIn0 ! w AND NOT (pCtrl ! w)) OR (pIn1 ! w AND pCtrl ! w)]) pOut)"

definition Kit_TruthIthVar :: "truth \<Rightarrow> nat \<Rightarrow> nat \<Rightarrow> truth" where
  "Kit_TruthIthVar pTruth nVars iVar =
    (let Masks = [0xAAAAAAAA, 0xCCCCCCCC, 0xF0F0F0F0, 0xFF00FF00, 0xFFFF0000];
         nWords = (if nVars \<le> 5 then 1 else 2 ^ (nVars - 5))
     in if iVar < 5 then for_up 0 nWords (\<lambda>k pTruth. pTruth[k := Masks ! iVar]) pTruth
        else for_up 0 nWords
          (\<lambda>k pTruth. if k AND push_bit (iVar - 5) 1 \<noteq> 0 then pTruth[k := NOT 0] else pTruth[k := 0]) pTruth)"

section \<open>What the operations mean, bit by bit\<close>

lemma word_num_pos [simp]: "0 < Kit_TruthWordNum n"
  by (simp add: Kit_TruthWordNum_def)

lemma tt_size_eq: "tt_size n = (if n \<le> 5 then 32 else 2 ^ n)"
proof (cases "n \<le> 5")
  case False
  then have "(2::nat) ^ n = 2 ^ 5 * 2 ^ (n - 5)" by (simp only: power_add [symmetric]) simp
  with False show ?thesis by (simp add: tt_size_def Kit_TruthWordNum_def)
qed (simp add: tt_size_def Kit_TruthWordNum_def)

lemma tt_size_pow2: "tt_size n = 2 ^ max n 5"
  by (auto simp: tt_size_eq max_def)

lemma tt_index [simp]: "m < tt_size n \<Longrightarrow> m div 32 < Kit_TruthWordNum n"
  by (simp add: tt_size_def less_mult_imp_div_less mult.commute)

lemma tt_index_make: "w < Kit_TruthWordNum n \<Longrightarrow> b < 32 \<Longrightarrow> 32 * w + b < tt_size n"
proof -
  assume "w < Kit_TruthWordNum n" "b < 32"
  then have "32 * w + b < 32 * Suc w" and "32 * Suc w \<le> tt_size n" by (auto simp: tt_size_def)
  then show ?thesis by simp
qed

lemma tt_unset_less [simp]: "m < tt_size n \<Longrightarrow> unset_bit v m < tt_size n"
  by (simp add: tt_size_pow2 nat_unset_bit_less)

lemma tt_set_less [simp]: "v < n \<Longrightarrow> m < tt_size n \<Longrightarrow> set_bit v m < tt_size n"
  by (simp add: tt_size_pow2 nat_set_bit_less)

lemma tt_flip_less [simp]: "v < n \<Longrightarrow> m < tt_size n \<Longrightarrow> flip_bit v m < tt_size n"
  by (simp add: tt_size_pow2 nat_flip_bit_less)

lemma tt_bit_at: "b < 32 \<Longrightarrow> tt_bit p (32 * w + b) = bit (p ! w) b"
  by (simp add: tt_bit_def)

lemma words_bits:
  "(\<forall>w < Kit_TruthWordNum n. f w = g w) \<longleftrightarrow>
   (\<forall>m < tt_size n. bit (f (m div 32)) (m mod 32) = bit (g (m div 32) :: u32) (m mod 32))"
proof
  assume *: "\<forall>m < tt_size n. bit (f (m div 32)) (m mod 32) = bit (g (m div 32)) (m mod 32)"
  show "\<forall>w < Kit_TruthWordNum n. f w = g w"
  proof (intro allI impI bit_word_eqI)
    fix w b assume "w < Kit_TruthWordNum n" "b < LENGTH(32)"
    then show "bit (f w) b = bit (g w) b"
      using * [rule_format, of "32 * w + b"] tt_index_make [of w n b] by simp
  qed
qed simp

lemma all_words_bits:
  "all_words n (\<lambda>w. f w = g w) \<longleftrightarrow>
   (\<forall>m < tt_size n. bit (f (m div 32)) (m mod 32) = bit (g (m div 32) :: u32) (m mod 32))"
  using words_bits [of n f g] by (simp add: list_all_iff Ball_def)

lemma tt_eqI:
  assumes "tt_wf n p" and "tt_wf n q" and "\<And>m. m < tt_size n \<Longrightarrow> tt_bit p m = tt_bit q m"
  shows "p = q"
proof (rule nth_equalityI)
  show "length p = length q" using assms by (simp add: tt_wf_def)
  fix w assume "w < length p"
  then have "w < Kit_TruthWordNum n" using assms(1) by (simp add: tt_wf_def)
  moreover have "\<forall>w < Kit_TruthWordNum n. p ! w = q ! w"
    using assms(3) by (simp add: words_bits tt_bit_def)
  ultimately show "p ! w = q ! w" by simp
qed

lemma tt_bit_writer:
  assumes "tt_wf n p" and "m < tt_size n"
  shows "tt_bit (for_down (Kit_TruthWordNum n) (\<lambda>w p. p[w := g w]) p) m = bit (g (m div 32)) (m mod 32)"
  using assms nth_for_down_assign [of "Kit_TruthWordNum n" p "\<lambda>w _. g w" "m div 32"]
  by (simp add: tt_bit_def tt_wf_def)

lemma tt_bit_loop:
  assumes "tt_wf n p" and "m < tt_size n"
  shows "tt_bit (for_up 0 (Kit_TruthWordNum n) (\<lambda>w p. p[w := g w (p ! w)]) p) m =
    bit (g (m div 32) (p ! (m div 32))) (m mod 32)"
  using assms nth_for_up_assign [of "Kit_TruthWordNum n" p g "m div 32"]
  by (simp add: tt_bit_def tt_wf_def)

lemma tt_wf_Copy [simp]: "tt_wf k (Kit_TruthCopy pOut pIn n) = tt_wf k pOut"
  by (simp add: tt_wf_def Kit_TruthCopy_def)

lemma tt_bit_Copy [tt_simps]:
  "tt_wf n pOut \<Longrightarrow> m < tt_size n \<Longrightarrow> tt_bit (Kit_TruthCopy pOut pIn n) m = tt_bit pIn m"
  by (auto simp: Kit_TruthCopy_def tt_bit_writer, auto simp: tt_bit_def bit_simps)

lemma tt_wf_Clear [simp]: "tt_wf k (Kit_TruthClear pOut n) = tt_wf k pOut"
  by (simp add: tt_wf_def Kit_TruthClear_def)

lemma tt_bit_Clear [tt_simps]:
  "tt_wf n pOut \<Longrightarrow> m < tt_size n \<Longrightarrow> tt_bit (Kit_TruthClear pOut n) m = False"
  by (simp add: Kit_TruthClear_def tt_bit_writer)

lemma tt_wf_Fill [simp]: "tt_wf k (Kit_TruthFill pOut n) = tt_wf k pOut"
  by (simp add: tt_wf_def Kit_TruthFill_def)

lemma tt_bit_Fill [tt_simps]:
  "tt_wf n pOut \<Longrightarrow> m < tt_size n \<Longrightarrow> tt_bit (Kit_TruthFill pOut n) m = True"
  by (simp add: Kit_TruthFill_def tt_bit_writer)

lemma tt_wf_Not [simp]: "tt_wf k (Kit_TruthNot pOut pIn n) = tt_wf k pOut"
  by (simp add: tt_wf_def Kit_TruthNot_def)

lemma tt_bit_Not [tt_simps]:
  "tt_wf n pOut \<Longrightarrow> m < tt_size n \<Longrightarrow> tt_bit (Kit_TruthNot pOut pIn n) m = (\<not> tt_bit pIn m)"
  by (auto simp: Kit_TruthNot_def tt_bit_writer, auto simp: tt_bit_def bit_simps)

lemma tt_wf_And [simp]: "tt_wf k (Kit_TruthAnd pOut pIn0 pIn1 n) = tt_wf k pOut"
  by (simp add: tt_wf_def Kit_TruthAnd_def)

lemma tt_bit_And [tt_simps]:
  "tt_wf n pOut \<Longrightarrow> m < tt_size n \<Longrightarrow> tt_bit (Kit_TruthAnd pOut pIn0 pIn1 n) m = (tt_bit pIn0 m \<and> tt_bit pIn1 m)"
  by (auto simp: Kit_TruthAnd_def tt_bit_writer, auto simp: tt_bit_def bit_simps)

lemma tt_wf_Or [simp]: "tt_wf k (Kit_TruthOr pOut pIn0 pIn1 n) = tt_wf k pOut"
  by (simp add: tt_wf_def Kit_TruthOr_def)

lemma tt_bit_Or [tt_simps]:
  "tt_wf n pOut \<Longrightarrow> m < tt_size n \<Longrightarrow> tt_bit (Kit_TruthOr pOut pIn0 pIn1 n) m = (tt_bit pIn0 m \<or> tt_bit pIn1 m)"
  by (auto simp: Kit_TruthOr_def tt_bit_writer, auto simp: tt_bit_def bit_simps)

lemma tt_wf_Xor [simp]: "tt_wf k (Kit_TruthXor pOut pIn0 pIn1 n) = tt_wf k pOut"
  by (simp add: tt_wf_def Kit_TruthXor_def)

lemma tt_bit_Xor [tt_simps]:
  "tt_wf n pOut \<Longrightarrow> m < tt_size n \<Longrightarrow> tt_bit (Kit_TruthXor pOut pIn0 pIn1 n) m = (tt_bit pIn0 m \<noteq> tt_bit pIn1 m)"
  by (auto simp: Kit_TruthXor_def tt_bit_writer, auto simp: tt_bit_def bit_simps)

lemma tt_wf_Sharp [simp]: "tt_wf k (Kit_TruthSharp pOut pIn0 pIn1 n) = tt_wf k pOut"
  by (simp add: tt_wf_def Kit_TruthSharp_def)

lemma tt_bit_Sharp [tt_simps]:
  "tt_wf n pOut \<Longrightarrow> m < tt_size n \<Longrightarrow> tt_bit (Kit_TruthSharp pOut pIn0 pIn1 n) m = (tt_bit pIn0 m \<and> \<not> tt_bit pIn1 m)"
  by (auto simp: Kit_TruthSharp_def tt_bit_writer, auto simp: tt_bit_def bit_simps)

lemma tt_wf_Nand [simp]: "tt_wf k (Kit_TruthNand pOut pIn0 pIn1 n) = tt_wf k pOut"
  by (simp add: tt_wf_def Kit_TruthNand_def)

lemma tt_bit_Nand [tt_simps]:
  "tt_wf n pOut \<Longrightarrow> m < tt_size n \<Longrightarrow> tt_bit (Kit_TruthNand pOut pIn0 pIn1 n) m = (\<not> (tt_bit pIn0 m \<and> tt_bit pIn1 m))"
  by (auto simp: Kit_TruthNand_def tt_bit_writer, auto simp: tt_bit_def bit_simps)

lemma tt_wf_Mux [simp]: "tt_wf k (Kit_TruthMux pOut pIn0 pIn1 pCtrl n) = tt_wf k pOut"
  by (simp add: tt_wf_def Kit_TruthMux_def)

lemma tt_bit_Mux [tt_simps]:
  "tt_wf n pOut \<Longrightarrow> m < tt_size n \<Longrightarrow> tt_bit (Kit_TruthMux pOut pIn0 pIn1 pCtrl n) m = (if tt_bit pCtrl m then tt_bit pIn1 m else tt_bit pIn0 m)"
  by (auto simp: Kit_TruthMux_def tt_bit_writer, auto simp: tt_bit_def bit_simps)

lemma tt_wf_AndPhase [simp]: "tt_wf k (Kit_TruthAndPhase pOut pIn0 pIn1 n c0 c1) = tt_wf k pOut"
  by (simp add: tt_wf_def Kit_TruthAndPhase_def)

lemma tt_bit_AndPhase [tt_simps]:
  "tt_wf n pOut \<Longrightarrow> m < tt_size n \<Longrightarrow> tt_bit (Kit_TruthAndPhase pOut pIn0 pIn1 n c0 c1) m = ((tt_bit pIn0 m \<noteq> c0) \<and> (tt_bit pIn1 m \<noteq> c1))"
  by (auto simp: Kit_TruthAndPhase_def tt_bit_writer, auto simp: tt_bit_def bit_simps)

lemma tt_wf_OrPhase [simp]: "tt_wf k (Kit_TruthOrPhase pOut pIn0 pIn1 n c0 c1) = tt_wf k pOut"
  by (simp add: tt_wf_def Kit_TruthOrPhase_def)

lemma tt_bit_OrPhase [tt_simps]:
  "tt_wf n pOut \<Longrightarrow> m < tt_size n \<Longrightarrow> tt_bit (Kit_TruthOrPhase pOut pIn0 pIn1 n c0 c1) m = ((tt_bit pIn0 m \<noteq> c0) \<or> (tt_bit pIn1 m \<noteq> c1))"
  by (auto simp: Kit_TruthOrPhase_def tt_bit_writer, auto simp: tt_bit_def bit_simps)

lemma tt_wf_MuxPhase [simp]: "tt_wf k (Kit_TruthMuxPhase pOut pIn0 pIn1 pCtrl n c) = tt_wf k pOut"
  by (simp add: tt_wf_def Kit_TruthMuxPhase_def)

lemma tt_bit_MuxPhase [tt_simps]:
  "tt_wf n pOut \<Longrightarrow> m < tt_size n \<Longrightarrow> tt_bit (Kit_TruthMuxPhase pOut pIn0 pIn1 pCtrl n c) m = (if tt_bit pCtrl m then tt_bit pIn1 m else tt_bit pIn0 m \<noteq> c)"
  by (auto simp: Kit_TruthMuxPhase_def tt_bit_writer, auto simp: tt_bit_def bit_simps)

lemma mod_32_less [simp]: "m mod 32 < (32::nat)"
  by simp

lemma Kit_TruthIsEqual_iff:
  "Kit_TruthIsEqual p q n \<longleftrightarrow> (\<forall>m < tt_size n. tt_bit p m = tt_bit q m)"
  unfolding Kit_TruthIsEqual_def all_words_bits by (simp add: tt_bit_def)

lemma Kit_TruthIsOpposite_iff:
  "Kit_TruthIsOpposite p q n \<longleftrightarrow> (\<forall>m < tt_size n. tt_bit p m \<noteq> tt_bit q m)"
  unfolding Kit_TruthIsOpposite_def all_words_bits by (simp add: tt_bit_def bit_simps)

lemma Kit_TruthIsEqualWithCare_iff:
  "Kit_TruthIsEqualWithCare p q c n \<longleftrightarrow>
    (\<forall>m < tt_size n. tt_bit c m \<longrightarrow> tt_bit p m = tt_bit q m)"
  unfolding Kit_TruthIsEqualWithCare_def all_words_bits by (auto simp: tt_bit_def bit_simps)

lemma Kit_TruthIsConst0_iff: "Kit_TruthIsConst0 p n \<longleftrightarrow> (\<forall>m < tt_size n. \<not> tt_bit p m)"
  unfolding Kit_TruthIsConst0_def all_words_bits by (simp add: tt_bit_def)

lemma Kit_TruthIsConst1_iff: "Kit_TruthIsConst1 p n \<longleftrightarrow> (\<forall>m < tt_size n. tt_bit p m)"
  unfolding Kit_TruthIsConst1_def all_words_bits by (simp add: tt_bit_def bit_simps)

lemma Kit_TruthIsImply_iff:
  "Kit_TruthIsImply p q n \<longleftrightarrow> (\<forall>m < tt_size n. tt_bit p m \<longrightarrow> tt_bit q m)"
  unfolding Kit_TruthIsImply_def all_words_bits by (auto simp: tt_bit_def bit_simps)

lemma Kit_TruthIsDisjoint_iff:
  "Kit_TruthIsDisjoint p q n \<longleftrightarrow> (\<forall>m < tt_size n. \<not> (tt_bit p m \<and> tt_bit q m))"
  unfolding Kit_TruthIsDisjoint_def all_words_bits by (auto simp: tt_bit_def bit_simps)

lemma Kit_TruthIsDisjoint3_iff:
  "Kit_TruthIsDisjoint3 p q r n \<longleftrightarrow>
    (\<forall>m < tt_size n. \<not> (tt_bit p m \<and> tt_bit q m \<and> tt_bit r m))"
  unfolding Kit_TruthIsDisjoint3_def all_words_bits by (auto simp: tt_bit_def bit_simps)

lemma Kit_TruthIsEqualWithPhase_iff:
  "Kit_TruthIsEqualWithPhase p q n \<longleftrightarrow>
    (\<exists>c. \<forall>m < tt_size n. tt_bit p m = (tt_bit q m \<noteq> c))"
proof -
  have and1: "x AND 1 = y AND 1 \<longleftrightarrow> bit x 0 = bit y 0" for x y :: u32
    by (simp add: and_one_eq bit_0 mod2_eq_if)
  have 0: "0 < tt_size n" by (simp add: tt_size_eq)
  have t0: "tt_bit p 0 = bit (p ! 0) 0" "tt_bit q 0 = bit (q ! 0) 0" by (simp_all add: tt_bit_def)
  have eq: "all_words n (\<lambda>w. p ! w = q ! w) \<longleftrightarrow> (\<forall>m < tt_size n. tt_bit p m = tt_bit q m)"
    unfolding all_words_bits by (simp add: tt_bit_def)
  have op: "all_words n (\<lambda>w. p ! w = NOT (q ! w)) \<longleftrightarrow> (\<forall>m < tt_size n. tt_bit p m \<noteq> tt_bit q m)"
    unfolding all_words_bits by (simp add: tt_bit_def bit_simps)
  show ?thesis
  proof (cases "bit (p ! 0) 0 = bit (q ! 0) 0")
    case True
    then have "Kit_TruthIsEqualWithPhase p q n \<longleftrightarrow> (\<forall>m < tt_size n. tt_bit p m = tt_bit q m)"
      unfolding Kit_TruthIsEqualWithPhase_def and1 eq op by simp
    then show ?thesis using 0 t0 True by (metis (full_types))
  next
    case False
    then have "Kit_TruthIsEqualWithPhase p q n \<longleftrightarrow> (\<forall>m < tt_size n. tt_bit p m \<noteq> tt_bit q m)"
      unfolding Kit_TruthIsEqualWithPhase_def and1 eq op by simp
    then show ?thesis using 0 t0 False by (metis (full_types))
  qed
qed

lemma tt_wf_IthVar [simp]: "tt_wf k (Kit_TruthIthVar pOut n v) = tt_wf k pOut"
proof -
  have "length (for_up 0 N (\<lambda>k p. if P k then p[k := x] else p[k := y]) pOut) = length pOut"
    for N P and x y :: u32
    unfolding for_up_def by (rule length_fold_keeps) simp
  then show ?thesis by (simp add: tt_wf_def Kit_TruthIthVar_def Let_def)
qed

lemma tt_bit_IthVar [tt_simps]:
  assumes "tt_wf n pOut" and "m < tt_size n"
  shows "tt_bit (Kit_TruthIthVar pOut n v) m = bit m v"
proof -
  have n: "(if n \<le> 5 then 1 else 2 ^ (n - 5)) = Kit_TruthWordNum n"
    by (simp add: Kit_TruthWordNum_def)
  have odd: "(k AND push_bit i 1 \<noteq> 0) = bit k i" for k i :: nat
    by (simp add: bit_iff_and_push_bit_not_eq_0)
  show ?thesis
  proof (cases "v < 5")
    case True
    have "Kit_TruthIthVar pOut n v = for_up 0 (Kit_TruthWordNum n) (\<lambda>k p. p[k := hi_mask v]) pOut"
      using True by (simp add: Kit_TruthIthVar_def n Let_def hi_mask_def)
    then show ?thesis
      using True assms tt_bit_loop [of n pOut m "\<lambda>_ _. hi_mask v"]
      by (simp add: bit_hi_mask minterm_low_bit)
  next
    case False
    have "Kit_TruthIthVar pOut n v =
        for_up 0 (Kit_TruthWordNum n) (\<lambda>k p. p[k := if bit k (v - 5) then NOT 0 else 0]) pOut"
      using False unfolding Kit_TruthIthVar_def n Let_def odd
      by (auto intro!: arg_cong [where f = "\<lambda>f. for_up 0 _ f _"])
    then show ?thesis
      using False assms tt_bit_loop [of n pOut m "\<lambda>k _. if bit k (v - 5) then NOT 0 else 0"]
      by (simp add: minterm_high_bit not_less)
  qed
qed

end
