(* ===== verification/Kit_Var.thy ===== *)
theory Kit_Var
  imports Kit_Word
begin

text \<open>
  What the operations of \<open>kitTruth.c\<close> on one variable share: the contract of the loops over
  pairs of words for a variable \<open>5 <= v\<close> (locale \<open>pair_loop\<close>), and the shifts with the elementary
  masks for a variable \<open>v < 5\<close>.
\<close>

section \<open>Loops over pairs of words\<close>

text \<open>
  The contract of a loop over pairs: the body at lower word \<open>j\<close> writes words \<open>j\<close> and
  \<open>j + Step\<close> only, from their old values. The result of the whole loop is then given word by
  word. Every in-place or out-of-place operation of \<open>kitTruth.c\<close> on a variable \<open>5 <= v\<close> that
  writes a table is an instance.
\<close>

locale pair_loop =
  fixes body :: "nat \<Rightarrow> nat \<Rightarrow> truth \<Rightarrow> truth"
    and lo hi :: "nat \<Rightarrow> nat \<Rightarrow> u32 \<Rightarrow> u32 \<Rightarrow> u32"
  assumes body_pair: "0 < s \<Longrightarrow> j + s < length p \<Longrightarrow>
    body s j p = p[j := lo s j (p ! j) (p ! (j + s)), j + s := hi s j (p ! j) (p ! (j + s))]"
begin

lemma fold_length:
  assumes "0 < s" and "\<forall>j \<in> set xs. j + s < length p"
  shows "length (fold (body s) xs p) = length p"
  using assms by (induction xs arbitrary: p) (auto simp: body_pair)

lemma fold_nth:
  assumes "0 < s" and "distinct xs" and "\<forall>j \<in> set xs. j + s < length p"
    and "\<forall>j \<in> set xs. j + s \<notin> set xs"
  shows "fold (body s) xs p ! w =
    (if w \<in> set xs then lo s w (p ! w) (p ! (w + s))
     else if s \<le> w \<and> w - s \<in> set xs then hi s (w - s) (p ! (w - s)) (p ! w)
     else p ! w)"
  using assms
proof (induction xs arbitrary: p)
  case Nil
  then show ?case by simp
next
  case (Cons x xs)
  define q where "q = p[x := lo s x (p ! x) (p ! (x + s)), x + s := hi s x (p ! x) (p ! (x + s))]"
  have b: "body s x p = q" using Cons.prems by (simp add: q_def body_pair)
  have ih: "fold (body s) xs q ! w =
    (if w \<in> set xs then lo s w (q ! w) (q ! (w + s))
     else if s \<le> w \<and> w - s \<in> set xs then hi s (w - s) (q ! (w - s)) (q ! w)
     else q ! w)"
    by (rule Cons.IH) (use Cons.prems in \<open>auto simp: q_def\<close>)
  have other: "q ! u = p ! u" if "u \<noteq> x" "u \<noteq> x + s" for u
    using that by (simp add: q_def)
  consider (x) "w = x" | (xs) "w = x + s" | (o) "w \<noteq> x" "w \<noteq> x + s" by blast
  then show ?case
  proof cases
    case x
    then have "w \<notin> set xs" and n: "\<not> (s \<le> w \<and> w - s \<in> set xs)"
      using Cons.prems by auto
    then have "fold (body s) xs q ! w = q ! w" using ih by (simp only: if_False)
    with x b show ?thesis using Cons.prems by (simp add: q_def)
  next
    case xs
    then have "w \<notin> set xs" "w - s \<notin> set xs" "w \<noteq> x" using Cons.prems by auto
    then have "fold (body s) xs q ! w = q ! w" using ih by simp
    with xs b \<open>w \<noteq> x\<close> show ?thesis using Cons.prems by (simp add: q_def)
  next
    case o
    have "w + s \<noteq> x" if "w \<in> set xs" using that Cons.prems by auto
    moreover have "w - s \<noteq> x" "w - s \<noteq> x + s" if "s \<le> w" "w - s \<in> set xs"
      using that o Cons.prems by auto
    ultimately show ?thesis
      using o ih b by (auto simp: other)
  qed
qed

lemma loop_nth:
  assumes "0 < s" and "2 * s dvd length p" and "w < length p"
  shows "for_stride (length p) (2 * s) (\<lambda>k. for_up 0 s (\<lambda>i. body s (k + i))) p ! w =
    (if w mod (2 * s) < s then lo s w (p ! w) (p ! (w + s))
     else hi s (w - s) (p ! (w - s)) (p ! w))"
proof -
  have set: "set (block_idx (length p) (2 * s) s) = {w. w < length p \<and> w mod (2 * s) < s}"
    by (rule set_block_idx) (use assms in auto)
  have up: "w + s < length p \<and> \<not> (w + s) mod (2 * s) < s" if "w < length p" "w mod (2 * s) < s" for w
    using that block_upper [OF assms(1,2)] by (simp add: mod_add_left_eq [symmetric, of w])
  have "fold (body s) (block_idx (length p) (2 * s) s) p ! w =
    (if w \<in> set (block_idx (length p) (2 * s) s) then lo s w (p ! w) (p ! (w + s))
     else if s \<le> w \<and> w - s \<in> set (block_idx (length p) (2 * s) s) then hi s (w - s) (p ! (w - s)) (p ! w)
     else p ! w)"
    by (rule fold_nth) (use assms set up in \<open>auto intro!: distinct_block_idx\<close>)
  then show ?thesis
    using assms block_lower [OF assms(1), of w] by (auto simp: for_stride_block set)
qed

lemma loop_length:
  assumes "0 < s" and "2 * s dvd length p"
  shows "length (for_stride (length p) (2 * s) (\<lambda>k. for_up 0 s (\<lambda>i. body s (k + i))) p) = length p"
proof -
  have "\<forall>j \<in> set (block_idx (length p) (2 * s) s). j + s < length p"
    using assms by (simp add: set_block_idx block_upper)
  then show ?thesis
    using assms by (simp add: for_stride_block fold_length)
qed

lemma loop_bit:
  assumes v: "5 \<le> v" "v < n" and "tt_wf n p" and "m < tt_size n"
  shows "tt_bit (for_stride (Kit_TruthWordNum n) (2 * 2 ^ (v - 5))
      (\<lambda>k. for_up 0 (2 ^ (v - 5)) (\<lambda>i. body (2 ^ (v - 5)) (k + i))) p) m =
    (let s = 2 ^ (v - 5); w0 = unset_bit v m div 32; w1 = set_bit v m div 32 in
      if bit m v then bit (hi s w0 (p ! w0) (p ! w1)) (m mod 32)
      else bit (lo s w0 (p ! w0) (p ! w1)) (m mod 32))"
proof -
  let ?s = "2 ^ (v - 5) :: nat" and ?w = "m div 32"
  have len: "length p = Kit_TruthWordNum n" using assms by (simp add: tt_wf_def)
  have w: "?w < length p" using assms by (simp add: len)
  have dvd: "2 * ?s dvd length p"
    unfolding len using v by (simp add: Kit_TruthWordNum_def le_imp_power_dvd flip: power_Suc)
  have b: "\<not> ?w mod (2 * ?s) < ?s \<longleftrightarrow> bit m v"
    using nat_bit_mod [of ?w "v - 5"] minterm_high_bit [OF v(1), of m] by simp
  have idx: "unset_bit v m div 32 = unset_bit (v - 5) ?w" "set_bit v m div 32 = set_bit (v - 5) ?w"
    using minterm_high [OF v(1)] by simp_all
  note loop_nth [of ?s p ?w, OF _ dvd w, unfolded len]
  then show ?thesis
    using b minterm_high_bit [OF v(1), of m] unfolding idx
    by (cases "bit m v") (simp_all add: tt_bit_def Let_def nat_unset_bit_set nat_set_bit_clear)
qed

lemma loop_wf:
  assumes "5 \<le> v" "v < n" and "tt_wf n p"
  shows "tt_wf n (for_stride (Kit_TruthWordNum n) (2 * 2 ^ (v - 5))
      (\<lambda>k. for_up 0 (2 ^ (v - 5)) (\<lambda>i. body (2 ^ (v - 5)) (k + i))) p)"
proof -
  have len: "length p = Kit_TruthWordNum n" using assms by (simp add: tt_wf_def)
  have "2 * 2 ^ (v - 5) dvd length p"
    unfolding len using assms(1,2) by (simp add: Kit_TruthWordNum_def le_imp_power_dvd flip: power_Suc)
  then show ?thesis using loop_length [of "2 ^ (v - 5)" p] by (simp add: tt_wf_def len)
qed

end

section \<open>Operations inside a word\<close>

text \<open>For a variable \<open>v < 5\<close> the partner of a bit lies in the same word, \<open>2 ^ v\<close> places away.\<close>

lemma bit_shl_lo [tt_simps]:
  assumes "v < 5" and "b < 32"
  shows "bit (push_bit (2 ^ v) (x AND lo_mask v)) b \<longleftrightarrow> bit b v \<and> bit (x::u32) (unset_bit v b)"
proof (cases "bit b v")
  case True
  have "unset_bit v b < 32" using assms nat_unset_bit_less [of b 5 v] by simp
  then show ?thesis
    using True assms nat_bit_le [OF True]
    by (auto simp: bit_simps bit_lo_mask nat_unset_bit_set [symmetric])
next
  case False
  have "bit (b - 2 ^ v) v" if "2 ^ v \<le> b"
  proof (rule ccontr)
    assume "\<not> bit (b - 2 ^ v) v"
    then have "set_bit v (b - 2 ^ v) = b" using that by (simp add: nat_set_bit_clear)
    with False show False by (metis bit_set_bit_iff possible_bit_nat)
  qed
  then show ?thesis using False assms by (auto simp: bit_simps bit_lo_mask)
qed

lemma bit_shr_hi [tt_simps]:
  assumes "v < 5" and "b < 32"
  shows "bit (drop_bit (2 ^ v) (x AND hi_mask v)) b \<longleftrightarrow> \<not> bit b v \<and> bit (x::u32) (set_bit v b)"
proof (cases "bit b v")
  case False
  have "set_bit v b < 32" using assms nat_set_bit_less [of v 5 b] by simp
  then show ?thesis
    using False assms
    by (auto simp: bit_simps bit_hi_mask nat_set_bit_clear [symmetric] add.commute [of "2 ^ v"])
next
  case True
  have "\<not> bit (2 ^ v + b) v"
  proof
    assume "bit (2 ^ v + b) v"
    then have "unset_bit v (2 ^ v + b) = b" by (simp add: nat_unset_bit_set)
    with True show False by (metis bit_unset_bit_iff)
  qed
  then show ?thesis using True assms by (auto simp: bit_simps bit_hi_mask)
qed

lemmas word_var_simps = bit_and_iff bit_or_iff bit_xor_iff bit_shl_lo bit_shr_hi bit_lo_mask bit_hi_mask
  mod_32_less minterm_low_bit

lemmas bool_simps = simp_thms if_True if_False conj_commute disj_commute
lemmas index_simps = nat_flip_bit nat_unset_bit_same nat_set_bit_same

lemma tt_bit_low:
  assumes "v < 5"
  shows "tt_bit p (unset_bit v m) = bit (p ! (m div 32)) (unset_bit v (m mod 32))"
    "tt_bit p (set_bit v m) = bit (p ! (m div 32)) (set_bit v (m mod 32))"
    "tt_bit p (flip_bit v m) = bit (p ! (m div 32)) (flip_bit v (m mod 32))"
  using assms by (simp_all add: tt_bit_def minterm_low)

lemma tt_bit_high:
  assumes "5 \<le> v"
  shows "tt_bit p (unset_bit v m) = bit (p ! (unset_bit v m div 32)) (m mod 32)"
    "tt_bit p (set_bit v m) = bit (p ! (set_bit v m div 32)) (m mod 32)"
    "tt_bit p (flip_bit v m) = bit (p ! (flip_bit v m div 32)) (m mod 32)"
  using assms by (simp_all add: tt_bit_def minterm_high)

lemma tt_bit_flip: "tt_bit p (flip_bit v m) =
    (if bit m v then tt_bit p (unset_bit v m) else tt_bit p (set_bit v m))"
  by (simp add: nat_flip_bit)

lemma upper_word: "5 \<le> v \<Longrightarrow> unset_bit v m div 32 + 2 ^ (v - 5) = set_bit v m div 32" for m :: nat
  by (simp add: minterm_high, cases "bit (m div 32) (v - 5)")
    (simp_all add: nat_unset_bit_set nat_set_bit_clear nat_bit_le)

end
