(* ===== verification/Kit_Truth.thy ===== *)
theory Kit_Truth
  imports Kit_Var
begin

text \<open>
  The operations of \<open>kitTruth.c\<close> on one variable that write a table: cofactors, quantifiers,
  multiplexers, change of phase. Every definition has the six cases of the C \<open>switch\<close> with its
  constants; the pointers that advance by \<open>2*Step\<close> per block are the block offset \<open>k\<close>.
\<close>

section \<open>Cofactors\<close>

definition Kit_TruthCofactor0 :: "truth \<Rightarrow> nat \<Rightarrow> nat \<Rightarrow> truth" where
  "Kit_TruthCofactor0 pTruth nVars iVar =
    (let nWords = Kit_TruthWordNum nVars in
     if iVar = 0 then
       for_up 0 nWords (\<lambda>i pTruth. pTruth[i := (pTruth ! i AND 0x55555555) OR push_bit 1 (pTruth ! i AND 0x55555555)]) pTruth
     else if iVar = 1 then
       for_up 0 nWords (\<lambda>i pTruth. pTruth[i := (pTruth ! i AND 0x33333333) OR push_bit 2 (pTruth ! i AND 0x33333333)]) pTruth
     else if iVar = 2 then
       for_up 0 nWords (\<lambda>i pTruth. pTruth[i := (pTruth ! i AND 0x0F0F0F0F) OR push_bit 4 (pTruth ! i AND 0x0F0F0F0F)]) pTruth
     else if iVar = 3 then
       for_up 0 nWords (\<lambda>i pTruth. pTruth[i := (pTruth ! i AND 0x00FF00FF) OR push_bit 8 (pTruth ! i AND 0x00FF00FF)]) pTruth
     else if iVar = 4 then
       for_up 0 nWords (\<lambda>i pTruth. pTruth[i := (pTruth ! i AND 0x0000FFFF) OR push_bit 16 (pTruth ! i AND 0x0000FFFF)]) pTruth
     else let Step = 2 ^ (iVar - 5) in
       for_stride nWords (2 * Step) (\<lambda>k. for_up 0 Step (\<lambda>i pTruth.
         pTruth[k + i + Step := pTruth ! (k + i)])) pTruth)"

definition Kit_TruthCofactor1 :: "truth \<Rightarrow> nat \<Rightarrow> nat \<Rightarrow> truth" where
  "Kit_TruthCofactor1 pTruth nVars iVar =
    (let nWords = Kit_TruthWordNum nVars in
     if iVar = 0 then
       for_up 0 nWords (\<lambda>i pTruth. pTruth[i := (pTruth ! i AND 0xAAAAAAAA) OR drop_bit 1 (pTruth ! i AND 0xAAAAAAAA)]) pTruth
     else if iVar = 1 then
       for_up 0 nWords (\<lambda>i pTruth. pTruth[i := (pTruth ! i AND 0xCCCCCCCC) OR drop_bit 2 (pTruth ! i AND 0xCCCCCCCC)]) pTruth
     else if iVar = 2 then
       for_up 0 nWords (\<lambda>i pTruth. pTruth[i := (pTruth ! i AND 0xF0F0F0F0) OR drop_bit 4 (pTruth ! i AND 0xF0F0F0F0)]) pTruth
     else if iVar = 3 then
       for_up 0 nWords (\<lambda>i pTruth. pTruth[i := (pTruth ! i AND 0xFF00FF00) OR drop_bit 8 (pTruth ! i AND 0xFF00FF00)]) pTruth
     else if iVar = 4 then
       for_up 0 nWords (\<lambda>i pTruth. pTruth[i := (pTruth ! i AND 0xFFFF0000) OR drop_bit 16 (pTruth ! i AND 0xFFFF0000)]) pTruth
     else let Step = 2 ^ (iVar - 5) in
       for_stride nWords (2 * Step) (\<lambda>k. for_up 0 Step (\<lambda>i pTruth.
         pTruth[k + i := pTruth ! (k + i + Step)])) pTruth)"

definition Kit_TruthCofactor0New :: "truth \<Rightarrow> truth \<Rightarrow> nat \<Rightarrow> nat \<Rightarrow> truth" where
  "Kit_TruthCofactor0New pOut pIn nVars iVar =
    (let nWords = Kit_TruthWordNum nVars in
     if iVar = 0 then
       for_up 0 nWords (\<lambda>i pOut. pOut[i := (pIn ! i AND 0x55555555) OR push_bit 1 (pIn ! i AND 0x55555555)]) pOut
     else if iVar = 1 then
       for_up 0 nWords (\<lambda>i pOut. pOut[i := (pIn ! i AND 0x33333333) OR push_bit 2 (pIn ! i AND 0x33333333)]) pOut
     else if iVar = 2 then
       for_up 0 nWords (\<lambda>i pOut. pOut[i := (pIn ! i AND 0x0F0F0F0F) OR push_bit 4 (pIn ! i AND 0x0F0F0F0F)]) pOut
     else if iVar = 3 then
       for_up 0 nWords (\<lambda>i pOut. pOut[i := (pIn ! i AND 0x00FF00FF) OR push_bit 8 (pIn ! i AND 0x00FF00FF)]) pOut
     else if iVar = 4 then
       for_up 0 nWords (\<lambda>i pOut. pOut[i := (pIn ! i AND 0x0000FFFF) OR push_bit 16 (pIn ! i AND 0x0000FFFF)]) pOut
     else let Step = 2 ^ (iVar - 5) in
       for_stride nWords (2 * Step) (\<lambda>k. for_up 0 Step (\<lambda>i pOut.
         let pOut = pOut[k + i + Step := pIn ! (k + i)] in pOut[k + i := pOut ! (k + i + Step)])) pOut)"

definition Kit_TruthCofactor1New :: "truth \<Rightarrow> truth \<Rightarrow> nat \<Rightarrow> nat \<Rightarrow> truth" where
  "Kit_TruthCofactor1New pOut pIn nVars iVar =
    (let nWords = Kit_TruthWordNum nVars in
     if iVar = 0 then
       for_up 0 nWords (\<lambda>i pOut. pOut[i := (pIn ! i AND 0xAAAAAAAA) OR drop_bit 1 (pIn ! i AND 0xAAAAAAAA)]) pOut
     else if iVar = 1 then
       for_up 0 nWords (\<lambda>i pOut. pOut[i := (pIn ! i AND 0xCCCCCCCC) OR drop_bit 2 (pIn ! i AND 0xCCCCCCCC)]) pOut
     else if iVar = 2 then
       for_up 0 nWords (\<lambda>i pOut. pOut[i := (pIn ! i AND 0xF0F0F0F0) OR drop_bit 4 (pIn ! i AND 0xF0F0F0F0)]) pOut
     else if iVar = 3 then
       for_up 0 nWords (\<lambda>i pOut. pOut[i := (pIn ! i AND 0xFF00FF00) OR drop_bit 8 (pIn ! i AND 0xFF00FF00)]) pOut
     else if iVar = 4 then
       for_up 0 nWords (\<lambda>i pOut. pOut[i := (pIn ! i AND 0xFFFF0000) OR drop_bit 16 (pIn ! i AND 0xFFFF0000)]) pOut
     else let Step = 2 ^ (iVar - 5) in
       for_stride nWords (2 * Step) (\<lambda>k. for_up 0 Step (\<lambda>i pOut.
         let pOut = pOut[k + i + Step := pIn ! (k + i + Step)] in pOut[k + i := pOut ! (k + i + Step)])) pOut)"

section \<open>Quantifiers and Boolean difference\<close>

definition Kit_TruthExist :: "truth \<Rightarrow> nat \<Rightarrow> nat \<Rightarrow> truth" where
  "Kit_TruthExist pTruth nVars iVar =
    (let nWords = Kit_TruthWordNum nVars in
     if iVar = 0 then
       for_up 0 nWords (\<lambda>i pTruth. pTruth[i := pTruth ! i OR (drop_bit 1 (pTruth ! i AND 0xAAAAAAAA) OR push_bit 1 (pTruth ! i AND 0x55555555))]) pTruth
     else if iVar = 1 then
       for_up 0 nWords (\<lambda>i pTruth. pTruth[i := pTruth ! i OR (drop_bit 2 (pTruth ! i AND 0xCCCCCCCC) OR push_bit 2 (pTruth ! i AND 0x33333333))]) pTruth
     else if iVar = 2 then
       for_up 0 nWords (\<lambda>i pTruth. pTruth[i := pTruth ! i OR (drop_bit 4 (pTruth ! i AND 0xF0F0F0F0) OR push_bit 4 (pTruth ! i AND 0x0F0F0F0F))]) pTruth
     else if iVar = 3 then
       for_up 0 nWords (\<lambda>i pTruth. pTruth[i := pTruth ! i OR (drop_bit 8 (pTruth ! i AND 0xFF00FF00) OR push_bit 8 (pTruth ! i AND 0x00FF00FF))]) pTruth
     else if iVar = 4 then
       for_up 0 nWords (\<lambda>i pTruth. pTruth[i := pTruth ! i OR (drop_bit 16 (pTruth ! i AND 0xFFFF0000) OR push_bit 16 (pTruth ! i AND 0x0000FFFF))]) pTruth
     else let Step = 2 ^ (iVar - 5) in
       for_stride nWords (2 * Step) (\<lambda>k. for_up 0 Step (\<lambda>i pTruth.
         let pTruth = pTruth[k + i := pTruth ! (k + i) OR pTruth ! (k + i + Step)] in
         pTruth[k + i + Step := pTruth ! (k + i)])) pTruth)"

definition Kit_TruthForall :: "truth \<Rightarrow> nat \<Rightarrow> nat \<Rightarrow> truth" where
  "Kit_TruthForall pTruth nVars iVar =
    (let nWords = Kit_TruthWordNum nVars in
     if iVar = 0 then
       for_up 0 nWords (\<lambda>i pTruth. pTruth[i := pTruth ! i AND (drop_bit 1 (pTruth ! i AND 0xAAAAAAAA) OR push_bit 1 (pTruth ! i AND 0x55555555))]) pTruth
     else if iVar = 1 then
       for_up 0 nWords (\<lambda>i pTruth. pTruth[i := pTruth ! i AND (drop_bit 2 (pTruth ! i AND 0xCCCCCCCC) OR push_bit 2 (pTruth ! i AND 0x33333333))]) pTruth
     else if iVar = 2 then
       for_up 0 nWords (\<lambda>i pTruth. pTruth[i := pTruth ! i AND (drop_bit 4 (pTruth ! i AND 0xF0F0F0F0) OR push_bit 4 (pTruth ! i AND 0x0F0F0F0F))]) pTruth
     else if iVar = 3 then
       for_up 0 nWords (\<lambda>i pTruth. pTruth[i := pTruth ! i AND (drop_bit 8 (pTruth ! i AND 0xFF00FF00) OR push_bit 8 (pTruth ! i AND 0x00FF00FF))]) pTruth
     else if iVar = 4 then
       for_up 0 nWords (\<lambda>i pTruth. pTruth[i := pTruth ! i AND (drop_bit 16 (pTruth ! i AND 0xFFFF0000) OR push_bit 16 (pTruth ! i AND 0x0000FFFF))]) pTruth
     else let Step = 2 ^ (iVar - 5) in
       for_stride nWords (2 * Step) (\<lambda>k. for_up 0 Step (\<lambda>i pTruth.
         let pTruth = pTruth[k + i := pTruth ! (k + i) AND pTruth ! (k + i + Step)] in
         pTruth[k + i + Step := pTruth ! (k + i)])) pTruth)"

definition Kit_TruthExistNew :: "truth \<Rightarrow> truth \<Rightarrow> nat \<Rightarrow> nat \<Rightarrow> truth" where
  "Kit_TruthExistNew pRes pTruth nVars iVar =
    (let nWords = Kit_TruthWordNum nVars in
     if iVar = 0 then
       for_up 0 nWords (\<lambda>i pRes. pRes[i := pTruth ! i OR drop_bit 1 (pTruth ! i AND 0xAAAAAAAA) OR push_bit 1 (pTruth ! i AND 0x55555555)]) pRes
     else if iVar = 1 then
       for_up 0 nWords (\<lambda>i pRes. pRes[i := pTruth ! i OR drop_bit 2 (pTruth ! i AND 0xCCCCCCCC) OR push_bit 2 (pTruth ! i AND 0x33333333)]) pRes
     else if iVar = 2 then
       for_up 0 nWords (\<lambda>i pRes. pRes[i := pTruth ! i OR drop_bit 4 (pTruth ! i AND 0xF0F0F0F0) OR push_bit 4 (pTruth ! i AND 0x0F0F0F0F)]) pRes
     else if iVar = 3 then
       for_up 0 nWords (\<lambda>i pRes. pRes[i := pTruth ! i OR drop_bit 8 (pTruth ! i AND 0xFF00FF00) OR push_bit 8 (pTruth ! i AND 0x00FF00FF)]) pRes
     else if iVar = 4 then
       for_up 0 nWords (\<lambda>i pRes. pRes[i := pTruth ! i OR drop_bit 16 (pTruth ! i AND 0xFFFF0000) OR push_bit 16 (pTruth ! i AND 0x0000FFFF)]) pRes
     else let Step = 2 ^ (iVar - 5) in
       for_stride nWords (2 * Step) (\<lambda>k. for_up 0 Step (\<lambda>i pRes.
         let pRes = pRes[k + i := pTruth ! (k + i) OR pTruth ! (k + i + Step)] in
         pRes[k + i + Step := pRes ! (k + i)])) pRes)"

definition Kit_TruthForallNew :: "truth \<Rightarrow> truth \<Rightarrow> nat \<Rightarrow> nat \<Rightarrow> truth" where
  "Kit_TruthForallNew pRes pTruth nVars iVar =
    (let nWords = Kit_TruthWordNum nVars in
     if iVar = 0 then
       for_up 0 nWords (\<lambda>i pRes. pRes[i := pTruth ! i AND (drop_bit 1 (pTruth ! i AND 0xAAAAAAAA) OR push_bit 1 (pTruth ! i AND 0x55555555))]) pRes
     else if iVar = 1 then
       for_up 0 nWords (\<lambda>i pRes. pRes[i := pTruth ! i AND (drop_bit 2 (pTruth ! i AND 0xCCCCCCCC) OR push_bit 2 (pTruth ! i AND 0x33333333))]) pRes
     else if iVar = 2 then
       for_up 0 nWords (\<lambda>i pRes. pRes[i := pTruth ! i AND (drop_bit 4 (pTruth ! i AND 0xF0F0F0F0) OR push_bit 4 (pTruth ! i AND 0x0F0F0F0F))]) pRes
     else if iVar = 3 then
       for_up 0 nWords (\<lambda>i pRes. pRes[i := pTruth ! i AND (drop_bit 8 (pTruth ! i AND 0xFF00FF00) OR push_bit 8 (pTruth ! i AND 0x00FF00FF))]) pRes
     else if iVar = 4 then
       for_up 0 nWords (\<lambda>i pRes. pRes[i := pTruth ! i AND (drop_bit 16 (pTruth ! i AND 0xFFFF0000) OR push_bit 16 (pTruth ! i AND 0x0000FFFF))]) pRes
     else let Step = 2 ^ (iVar - 5) in
       for_stride nWords (2 * Step) (\<lambda>k. for_up 0 Step (\<lambda>i pRes.
         let pRes = pRes[k + i := pTruth ! (k + i) AND pTruth ! (k + i + Step)] in
         pRes[k + i + Step := pRes ! (k + i)])) pRes)"

definition Kit_TruthUniqueNew :: "truth \<Rightarrow> truth \<Rightarrow> nat \<Rightarrow> nat \<Rightarrow> truth" where
  "Kit_TruthUniqueNew pRes pTruth nVars iVar =
    (let nWords = Kit_TruthWordNum nVars in
     if iVar = 0 then
       for_up 0 nWords (\<lambda>i pRes. pRes[i := pTruth ! i XOR (drop_bit 1 (pTruth ! i AND 0xAAAAAAAA) OR push_bit 1 (pTruth ! i AND 0x55555555))]) pRes
     else if iVar = 1 then
       for_up 0 nWords (\<lambda>i pRes. pRes[i := pTruth ! i XOR (drop_bit 2 (pTruth ! i AND 0xCCCCCCCC) OR push_bit 2 (pTruth ! i AND 0x33333333))]) pRes
     else if iVar = 2 then
       for_up 0 nWords (\<lambda>i pRes. pRes[i := pTruth ! i XOR (drop_bit 4 (pTruth ! i AND 0xF0F0F0F0) OR push_bit 4 (pTruth ! i AND 0x0F0F0F0F))]) pRes
     else if iVar = 3 then
       for_up 0 nWords (\<lambda>i pRes. pRes[i := pTruth ! i XOR (drop_bit 8 (pTruth ! i AND 0xFF00FF00) OR push_bit 8 (pTruth ! i AND 0x00FF00FF))]) pRes
     else if iVar = 4 then
       for_up 0 nWords (\<lambda>i pRes. pRes[i := pTruth ! i XOR (drop_bit 16 (pTruth ! i AND 0xFFFF0000) OR push_bit 16 (pTruth ! i AND 0x0000FFFF))]) pRes
     else let Step = 2 ^ (iVar - 5) in
       for_stride nWords (2 * Step) (\<lambda>k. for_up 0 Step (\<lambda>i pRes.
         let pRes = pRes[k + i := pTruth ! (k + i) XOR pTruth ! (k + i + Step)] in
         pRes[k + i + Step := pRes ! (k + i)])) pRes)"

section \<open>Multiplexers and change of phase\<close>

definition Kit_TruthMuxVar :: "truth \<Rightarrow> truth \<Rightarrow> truth \<Rightarrow> nat \<Rightarrow> nat \<Rightarrow> truth" where
  "Kit_TruthMuxVar pOut pCof0 pCof1 nVars iVar =
    (let nWords = Kit_TruthWordNum nVars in
     if iVar = 0 then
       for_up 0 nWords (\<lambda>i pOut. pOut[i := (pCof0 ! i AND 0x55555555) OR (pCof1 ! i AND 0xAAAAAAAA)]) pOut
     else if iVar = 1 then
       for_up 0 nWords (\<lambda>i pOut. pOut[i := (pCof0 ! i AND 0x33333333) OR (pCof1 ! i AND 0xCCCCCCCC)]) pOut
     else if iVar = 2 then
       for_up 0 nWords (\<lambda>i pOut. pOut[i := (pCof0 ! i AND 0x0F0F0F0F) OR (pCof1 ! i AND 0xF0F0F0F0)]) pOut
     else if iVar = 3 then
       for_up 0 nWords (\<lambda>i pOut. pOut[i := (pCof0 ! i AND 0x00FF00FF) OR (pCof1 ! i AND 0xFF00FF00)]) pOut
     else if iVar = 4 then
       for_up 0 nWords (\<lambda>i pOut. pOut[i := (pCof0 ! i AND 0x0000FFFF) OR (pCof1 ! i AND 0xFFFF0000)]) pOut
     else let Step = 2 ^ (iVar - 5) in
       for_stride nWords (2 * Step) (\<lambda>k. for_up 0 Step (\<lambda>i pOut.
         let pOut = pOut[k + i := pCof0 ! (k + i)] in
         pOut[k + i + Step := pCof1 ! (k + i + Step)])) pOut)"

definition Kit_TruthMuxVarPhase :: "truth \<Rightarrow> truth \<Rightarrow> truth \<Rightarrow> nat \<Rightarrow> nat \<Rightarrow> bool \<Rightarrow> truth" where
  "Kit_TruthMuxVarPhase pOut pCof0 pCof1 nVars iVar fCompl0 =
    (if \<not> fCompl0 then Kit_TruthMuxVar pOut pCof0 pCof1 nVars iVar else
     let nWords = Kit_TruthWordNum nVars in
     if iVar = 0 then
       for_up 0 nWords (\<lambda>i pOut. pOut[i := (NOT (pCof0 ! i) AND 0x55555555) OR (pCof1 ! i AND 0xAAAAAAAA)]) pOut
     else if iVar = 1 then
       for_up 0 nWords (\<lambda>i pOut. pOut[i := (NOT (pCof0 ! i) AND 0x33333333) OR (pCof1 ! i AND 0xCCCCCCCC)]) pOut
     else if iVar = 2 then
       for_up 0 nWords (\<lambda>i pOut. pOut[i := (NOT (pCof0 ! i) AND 0x0F0F0F0F) OR (pCof1 ! i AND 0xF0F0F0F0)]) pOut
     else if iVar = 3 then
       for_up 0 nWords (\<lambda>i pOut. pOut[i := (NOT (pCof0 ! i) AND 0x00FF00FF) OR (pCof1 ! i AND 0xFF00FF00)]) pOut
     else if iVar = 4 then
       for_up 0 nWords (\<lambda>i pOut. pOut[i := (NOT (pCof0 ! i) AND 0x0000FFFF) OR (pCof1 ! i AND 0xFFFF0000)]) pOut
     else let Step = 2 ^ (iVar - 5) in
       for_stride nWords (2 * Step) (\<lambda>k. for_up 0 Step (\<lambda>i pOut.
         let pOut = pOut[k + i := NOT (pCof0 ! (k + i))] in
         pOut[k + i + Step := pCof1 ! (k + i + Step)])) pOut)"

definition Kit_TruthChangePhase :: "truth \<Rightarrow> nat \<Rightarrow> nat \<Rightarrow> truth" where
  "Kit_TruthChangePhase pTruth nVars iVar =
    (let nWords = Kit_TruthWordNum nVars in
     if iVar = 0 then
       for_up 0 nWords (\<lambda>i pTruth. pTruth[i := push_bit 1 (pTruth ! i AND 0x55555555) OR drop_bit 1 (pTruth ! i AND 0xAAAAAAAA)]) pTruth
     else if iVar = 1 then
       for_up 0 nWords (\<lambda>i pTruth. pTruth[i := push_bit 2 (pTruth ! i AND 0x33333333) OR drop_bit 2 (pTruth ! i AND 0xCCCCCCCC)]) pTruth
     else if iVar = 2 then
       for_up 0 nWords (\<lambda>i pTruth. pTruth[i := push_bit 4 (pTruth ! i AND 0x0F0F0F0F) OR drop_bit 4 (pTruth ! i AND 0xF0F0F0F0)]) pTruth
     else if iVar = 3 then
       for_up 0 nWords (\<lambda>i pTruth. pTruth[i := push_bit 8 (pTruth ! i AND 0x00FF00FF) OR drop_bit 8 (pTruth ! i AND 0xFF00FF00)]) pTruth
     else if iVar = 4 then
       for_up 0 nWords (\<lambda>i pTruth. pTruth[i := push_bit 16 (pTruth ! i AND 0x0000FFFF) OR drop_bit 16 (pTruth ! i AND 0xFFFF0000)]) pTruth
     else let Step = 2 ^ (iVar - 5) in
       for_stride nWords (2 * Step) (\<lambda>k. for_up 0 Step (\<lambda>i pTruth.
         let Temp = pTruth ! (k + i); pTruth = pTruth[k + i := pTruth ! (k + i + Step)] in
         pTruth[k + i + Step := Temp])) pTruth)"

section \<open>What they compute\<close>

text \<open>
  The values of \<open>Kit_Var.pair_loop\<close> for each operation: what the lower and the upper word of a
  pair become, from the two words of the written array.
\<close>

interpretation Cofactor0_loop: pair_loop "\<lambda>s j p. p[j + s := p ! j]" "\<lambda>s j x y. x" "\<lambda>s j x y. x"
  by unfold_locales (simp add: Let_def list_update_swap)

interpretation Cofactor1_loop: pair_loop "\<lambda>s j p. p[j := p ! (j + s)]" "\<lambda>s j x y. y" "\<lambda>s j x y. y"
  by unfold_locales (metis list_update_id nat_neq_iff less_add_same_cancel1 nth_list_update_neq)

interpretation Cofactor0New_loop: pair_loop "\<lambda>s j p. let p = p[j + s := q ! j] in p[j := p ! (j + s)]" "\<lambda>s j x y. q ! j" "\<lambda>s j x y. q ! j" for q
  by unfold_locales (simp add: Let_def list_update_swap)

interpretation Cofactor1New_loop: pair_loop "\<lambda>s j p. let p = p[j + s := q ! (j + s)] in p[j := p ! (j + s)]" "\<lambda>s j x y. q ! (j + s)" "\<lambda>s j x y. q ! (j + s)" for q
  by unfold_locales (simp add: Let_def list_update_swap)

interpretation Exist_loop: pair_loop "\<lambda>s j p. let p = p[j := p ! j OR p ! (j + s)] in p[j + s := p ! j]" "\<lambda>s j x y. x OR y" "\<lambda>s j x y. x OR y"
  by unfold_locales (simp add: Let_def list_update_swap)

interpretation Forall_loop: pair_loop "\<lambda>s j p. let p = p[j := p ! j AND p ! (j + s)] in p[j + s := p ! j]" "\<lambda>s j x y. x AND y" "\<lambda>s j x y. x AND y"
  by unfold_locales (simp add: Let_def list_update_swap)

interpretation ExistNew_loop: pair_loop "\<lambda>s j p. let p = p[j := q ! j OR q ! (j + s)] in p[j + s := p ! j]" "\<lambda>s j x y. q ! j OR q ! (j + s)" "\<lambda>s j x y. q ! j OR q ! (j + s)" for q
  by unfold_locales (simp add: Let_def list_update_swap)

interpretation ForallNew_loop: pair_loop "\<lambda>s j p. let p = p[j := q ! j AND q ! (j + s)] in p[j + s := p ! j]" "\<lambda>s j x y. q ! j AND q ! (j + s)" "\<lambda>s j x y. q ! j AND q ! (j + s)" for q
  by unfold_locales (simp add: Let_def list_update_swap)

interpretation UniqueNew_loop: pair_loop "\<lambda>s j p. let p = p[j := q ! j XOR q ! (j + s)] in p[j + s := p ! j]" "\<lambda>s j x y. q ! j XOR q ! (j + s)" "\<lambda>s j x y. q ! j XOR q ! (j + s)" for q
  by unfold_locales (simp add: Let_def list_update_swap)

interpretation MuxVar_loop: pair_loop "\<lambda>s j p. let p = p[j := q ! j] in p[j + s := r ! (j + s)]" "\<lambda>s j x y. q ! j" "\<lambda>s j x y. r ! (j + s)" for q r
  by unfold_locales (simp add: Let_def list_update_swap)

interpretation ChangePhase_loop: pair_loop "\<lambda>s j p. let t = p ! j; p = p[j := p ! (j + s)] in p[j + s := t]" "\<lambda>s j x y. y" "\<lambda>s j x y. x"
  by unfold_locales (simp add: Let_def list_update_swap)

lemma Kit_TruthCofactor0_low:
  "v < 5 \<Longrightarrow> Kit_TruthCofactor0 p n v = for_up 0 (Kit_TruthWordNum n) (\<lambda>i p. p[i := (p ! i AND lo_mask v) OR push_bit (2 ^ v) (p ! i AND lo_mask v)]) p"
  by (drule less_5_cases, elim disjE) (simp_all add: Kit_TruthCofactor0_def lo_mask_def hi_mask_def)

lemma Kit_TruthCofactor0_high:
  "5 \<le> v \<Longrightarrow> Kit_TruthCofactor0 p n v = for_stride (Kit_TruthWordNum n) (2 * 2 ^ (v - 5))
     (\<lambda>k. for_up 0 (2 ^ (v - 5)) (\<lambda>i p. p[k + i + 2 ^ (v - 5) := p ! (k + i)])) p"
  by (simp add: Kit_TruthCofactor0_def Let_def)

lemma tt_wf_Cofactor0 [simp]: "tt_wf n p \<Longrightarrow> v < n \<Longrightarrow> tt_wf n (Kit_TruthCofactor0 p n v)"
  using Cofactor0_loop.loop_wf [of v n p] by (cases "v < 5") (simp_all add: Kit_TruthCofactor0_low Kit_TruthCofactor0_high tt_wf_def)

lemma tt_bit_Cofactor0 [tt_simps]:
  assumes "tt_wf n p" and "v < n" and "m < tt_size n"
  shows "tt_bit (Kit_TruthCofactor0 p n v) m = tt_bit p (unset_bit v m)"
proof (cases "v < 5")
  case True
  show ?thesis
    unfolding Kit_TruthCofactor0_low [OF True] tt_bit_loop [OF assms(1,3),
        where g = "\<lambda>i x. (x AND lo_mask v) OR push_bit (2 ^ v) (x AND lo_mask v)"]
    using True
    by (cases "bit m v") (simp_all only: word_var_simps tt_bit_low tt_bit_def [of _ m] index_simps bool_simps)
next
  case False
  then have v: "5 \<le> v" by simp
  show ?thesis
    unfolding Kit_TruthCofactor0_high [OF v] Cofactor0_loop.loop_bit [OF v assms(2,1,3)]
    by (simp add: Let_def tt_bit_high [OF v] upper_word [OF v] tt_bit_flip bit_simps)
qed

lemma Kit_TruthCofactor1_low:
  "v < 5 \<Longrightarrow> Kit_TruthCofactor1 p n v = for_up 0 (Kit_TruthWordNum n) (\<lambda>i p. p[i := (p ! i AND hi_mask v) OR drop_bit (2 ^ v) (p ! i AND hi_mask v)]) p"
  by (drule less_5_cases, elim disjE) (simp_all add: Kit_TruthCofactor1_def lo_mask_def hi_mask_def)

lemma Kit_TruthCofactor1_high:
  "5 \<le> v \<Longrightarrow> Kit_TruthCofactor1 p n v = for_stride (Kit_TruthWordNum n) (2 * 2 ^ (v - 5))
     (\<lambda>k. for_up 0 (2 ^ (v - 5)) (\<lambda>i p. p[k + i := p ! (k + i + 2 ^ (v - 5))])) p"
  by (simp add: Kit_TruthCofactor1_def Let_def)

lemma tt_wf_Cofactor1 [simp]: "tt_wf n p \<Longrightarrow> v < n \<Longrightarrow> tt_wf n (Kit_TruthCofactor1 p n v)"
  using Cofactor1_loop.loop_wf [of v n p] by (cases "v < 5") (simp_all add: Kit_TruthCofactor1_low Kit_TruthCofactor1_high tt_wf_def)

lemma tt_bit_Cofactor1 [tt_simps]:
  assumes "tt_wf n p" and "v < n" and "m < tt_size n"
  shows "tt_bit (Kit_TruthCofactor1 p n v) m = tt_bit p (set_bit v m)"
proof (cases "v < 5")
  case True
  show ?thesis
    unfolding Kit_TruthCofactor1_low [OF True] tt_bit_loop [OF assms(1,3),
        where g = "\<lambda>i x. (x AND hi_mask v) OR drop_bit (2 ^ v) (x AND hi_mask v)"]
    using True
    by (cases "bit m v") (simp_all only: word_var_simps tt_bit_low tt_bit_def [of _ m] index_simps bool_simps)
next
  case False
  then have v: "5 \<le> v" by simp
  show ?thesis
    unfolding Kit_TruthCofactor1_high [OF v] Cofactor1_loop.loop_bit [OF v assms(2,1,3)]
    by (simp add: Let_def tt_bit_high [OF v] upper_word [OF v] tt_bit_flip bit_simps)
qed

lemma Kit_TruthCofactor0New_low:
  "v < 5 \<Longrightarrow> Kit_TruthCofactor0New p q n v = for_up 0 (Kit_TruthWordNum n) (\<lambda>i p. p[i := (q ! i AND lo_mask v) OR push_bit (2 ^ v) (q ! i AND lo_mask v)]) p"
  by (drule less_5_cases, elim disjE) (simp_all add: Kit_TruthCofactor0New_def lo_mask_def hi_mask_def)

lemma Kit_TruthCofactor0New_high:
  "5 \<le> v \<Longrightarrow> Kit_TruthCofactor0New p q n v = for_stride (Kit_TruthWordNum n) (2 * 2 ^ (v - 5))
     (\<lambda>k. for_up 0 (2 ^ (v - 5)) (\<lambda>i p. let p = p[k + i + 2 ^ (v - 5) := q ! (k + i)] in p[k + i := p ! (k + i + 2 ^ (v - 5))])) p"
  by (simp add: Kit_TruthCofactor0New_def Let_def)

lemma tt_wf_Cofactor0New [simp]: "tt_wf n p \<Longrightarrow> v < n \<Longrightarrow> tt_wf n (Kit_TruthCofactor0New p q n v)"
  using Cofactor0New_loop.loop_wf [of v n p] by (cases "v < 5") (simp_all add: Kit_TruthCofactor0New_low Kit_TruthCofactor0New_high tt_wf_def)

lemma tt_bit_Cofactor0New [tt_simps]:
  assumes "tt_wf n p" and "v < n" and "m < tt_size n"
  shows "tt_bit (Kit_TruthCofactor0New p q n v) m = tt_bit q (unset_bit v m)"
proof (cases "v < 5")
  case True
  show ?thesis
    unfolding Kit_TruthCofactor0New_low [OF True] tt_bit_loop [OF assms(1,3),
        where g = "\<lambda>i x. (q ! i AND lo_mask v) OR push_bit (2 ^ v) (q ! i AND lo_mask v)"]
    using True
    by (cases "bit m v") (simp_all only: word_var_simps tt_bit_low tt_bit_def [of _ m] index_simps bool_simps)
next
  case False
  then have v: "5 \<le> v" by simp
  show ?thesis
    unfolding Kit_TruthCofactor0New_high [OF v] Cofactor0New_loop.loop_bit [OF v assms(2,1,3)]
    by (simp add: Let_def tt_bit_high [OF v] upper_word [OF v] tt_bit_flip bit_simps)
qed

lemma Kit_TruthCofactor1New_low:
  "v < 5 \<Longrightarrow> Kit_TruthCofactor1New p q n v = for_up 0 (Kit_TruthWordNum n) (\<lambda>i p. p[i := (q ! i AND hi_mask v) OR drop_bit (2 ^ v) (q ! i AND hi_mask v)]) p"
  by (drule less_5_cases, elim disjE) (simp_all add: Kit_TruthCofactor1New_def lo_mask_def hi_mask_def)

lemma Kit_TruthCofactor1New_high:
  "5 \<le> v \<Longrightarrow> Kit_TruthCofactor1New p q n v = for_stride (Kit_TruthWordNum n) (2 * 2 ^ (v - 5))
     (\<lambda>k. for_up 0 (2 ^ (v - 5)) (\<lambda>i p. let p = p[k + i + 2 ^ (v - 5) := q ! (k + i + 2 ^ (v - 5))] in p[k + i := p ! (k + i + 2 ^ (v - 5))])) p"
  by (simp add: Kit_TruthCofactor1New_def Let_def)

lemma tt_wf_Cofactor1New [simp]: "tt_wf n p \<Longrightarrow> v < n \<Longrightarrow> tt_wf n (Kit_TruthCofactor1New p q n v)"
  using Cofactor1New_loop.loop_wf [of v n p] by (cases "v < 5") (simp_all add: Kit_TruthCofactor1New_low Kit_TruthCofactor1New_high tt_wf_def)

lemma tt_bit_Cofactor1New [tt_simps]:
  assumes "tt_wf n p" and "v < n" and "m < tt_size n"
  shows "tt_bit (Kit_TruthCofactor1New p q n v) m = tt_bit q (set_bit v m)"
proof (cases "v < 5")
  case True
  show ?thesis
    unfolding Kit_TruthCofactor1New_low [OF True] tt_bit_loop [OF assms(1,3),
        where g = "\<lambda>i x. (q ! i AND hi_mask v) OR drop_bit (2 ^ v) (q ! i AND hi_mask v)"]
    using True
    by (cases "bit m v") (simp_all only: word_var_simps tt_bit_low tt_bit_def [of _ m] index_simps bool_simps)
next
  case False
  then have v: "5 \<le> v" by simp
  show ?thesis
    unfolding Kit_TruthCofactor1New_high [OF v] Cofactor1New_loop.loop_bit [OF v assms(2,1,3)]
    by (simp add: Let_def tt_bit_high [OF v] upper_word [OF v] tt_bit_flip bit_simps)
qed

lemma Kit_TruthExist_low:
  "v < 5 \<Longrightarrow> Kit_TruthExist p n v = for_up 0 (Kit_TruthWordNum n) (\<lambda>i p. p[i := p ! i OR (drop_bit (2 ^ v) (p ! i AND hi_mask v) OR push_bit (2 ^ v) (p ! i AND lo_mask v))]) p"
  by (drule less_5_cases, elim disjE) (simp_all add: Kit_TruthExist_def lo_mask_def hi_mask_def)

lemma Kit_TruthExist_high:
  "5 \<le> v \<Longrightarrow> Kit_TruthExist p n v = for_stride (Kit_TruthWordNum n) (2 * 2 ^ (v - 5))
     (\<lambda>k. for_up 0 (2 ^ (v - 5)) (\<lambda>i p. let p = p[k + i := p ! (k + i) OR p ! (k + i + 2 ^ (v - 5))] in p[k + i + 2 ^ (v - 5) := p ! (k + i)])) p"
  by (simp add: Kit_TruthExist_def Let_def)

lemma tt_wf_Exist [simp]: "tt_wf n p \<Longrightarrow> v < n \<Longrightarrow> tt_wf n (Kit_TruthExist p n v)"
  using Exist_loop.loop_wf [of v n p] by (cases "v < 5") (simp_all add: Kit_TruthExist_low Kit_TruthExist_high tt_wf_def)

lemma tt_bit_Exist [tt_simps]:
  assumes "tt_wf n p" and "v < n" and "m < tt_size n"
  shows "tt_bit (Kit_TruthExist p n v) m = (tt_bit p (unset_bit v m) \<or> tt_bit p (set_bit v m))"
proof (cases "v < 5")
  case True
  show ?thesis
    unfolding Kit_TruthExist_low [OF True] tt_bit_loop [OF assms(1,3),
        where g = "\<lambda>i x. x OR (drop_bit (2 ^ v) (x AND hi_mask v) OR push_bit (2 ^ v) (x AND lo_mask v))"]
    using True
    by (cases "bit m v") (simp_all only: word_var_simps tt_bit_low tt_bit_def [of _ m] index_simps bool_simps)
next
  case False
  then have v: "5 \<le> v" by simp
  show ?thesis
    unfolding Kit_TruthExist_high [OF v] Exist_loop.loop_bit [OF v assms(2,1,3)]
    by (simp add: Let_def tt_bit_high [OF v] upper_word [OF v] tt_bit_flip bit_simps)
qed

lemma Kit_TruthForall_low:
  "v < 5 \<Longrightarrow> Kit_TruthForall p n v = for_up 0 (Kit_TruthWordNum n) (\<lambda>i p. p[i := p ! i AND (drop_bit (2 ^ v) (p ! i AND hi_mask v) OR push_bit (2 ^ v) (p ! i AND lo_mask v))]) p"
  by (drule less_5_cases, elim disjE) (simp_all add: Kit_TruthForall_def lo_mask_def hi_mask_def)

lemma Kit_TruthForall_high:
  "5 \<le> v \<Longrightarrow> Kit_TruthForall p n v = for_stride (Kit_TruthWordNum n) (2 * 2 ^ (v - 5))
     (\<lambda>k. for_up 0 (2 ^ (v - 5)) (\<lambda>i p. let p = p[k + i := p ! (k + i) AND p ! (k + i + 2 ^ (v - 5))] in p[k + i + 2 ^ (v - 5) := p ! (k + i)])) p"
  by (simp add: Kit_TruthForall_def Let_def)

lemma tt_wf_Forall [simp]: "tt_wf n p \<Longrightarrow> v < n \<Longrightarrow> tt_wf n (Kit_TruthForall p n v)"
  using Forall_loop.loop_wf [of v n p] by (cases "v < 5") (simp_all add: Kit_TruthForall_low Kit_TruthForall_high tt_wf_def)

lemma tt_bit_Forall [tt_simps]:
  assumes "tt_wf n p" and "v < n" and "m < tt_size n"
  shows "tt_bit (Kit_TruthForall p n v) m = (tt_bit p (unset_bit v m) \<and> tt_bit p (set_bit v m))"
proof (cases "v < 5")
  case True
  show ?thesis
    unfolding Kit_TruthForall_low [OF True] tt_bit_loop [OF assms(1,3),
        where g = "\<lambda>i x. x AND (drop_bit (2 ^ v) (x AND hi_mask v) OR push_bit (2 ^ v) (x AND lo_mask v))"]
    using True
    by (cases "bit m v") (simp_all only: word_var_simps tt_bit_low tt_bit_def [of _ m] index_simps bool_simps)
next
  case False
  then have v: "5 \<le> v" by simp
  show ?thesis
    unfolding Kit_TruthForall_high [OF v] Forall_loop.loop_bit [OF v assms(2,1,3)]
    by (simp add: Let_def tt_bit_high [OF v] upper_word [OF v] tt_bit_flip bit_simps)
qed

lemma Kit_TruthExistNew_low:
  "v < 5 \<Longrightarrow> Kit_TruthExistNew p q n v = for_up 0 (Kit_TruthWordNum n) (\<lambda>i p. p[i := q ! i OR drop_bit (2 ^ v) (q ! i AND hi_mask v) OR push_bit (2 ^ v) (q ! i AND lo_mask v)]) p"
  by (drule less_5_cases, elim disjE) (simp_all add: Kit_TruthExistNew_def lo_mask_def hi_mask_def)

lemma Kit_TruthExistNew_high:
  "5 \<le> v \<Longrightarrow> Kit_TruthExistNew p q n v = for_stride (Kit_TruthWordNum n) (2 * 2 ^ (v - 5))
     (\<lambda>k. for_up 0 (2 ^ (v - 5)) (\<lambda>i p. let p = p[k + i := q ! (k + i) OR q ! (k + i + 2 ^ (v - 5))] in p[k + i + 2 ^ (v - 5) := p ! (k + i)])) p"
  by (simp add: Kit_TruthExistNew_def Let_def)

lemma tt_wf_ExistNew [simp]: "tt_wf n p \<Longrightarrow> v < n \<Longrightarrow> tt_wf n (Kit_TruthExistNew p q n v)"
  using ExistNew_loop.loop_wf [of v n p] by (cases "v < 5") (simp_all add: Kit_TruthExistNew_low Kit_TruthExistNew_high tt_wf_def)

lemma tt_bit_ExistNew [tt_simps]:
  assumes "tt_wf n p" and "v < n" and "m < tt_size n"
  shows "tt_bit (Kit_TruthExistNew p q n v) m = (tt_bit q (unset_bit v m) \<or> tt_bit q (set_bit v m))"
proof (cases "v < 5")
  case True
  show ?thesis
    unfolding Kit_TruthExistNew_low [OF True] tt_bit_loop [OF assms(1,3),
        where g = "\<lambda>i x. q ! i OR drop_bit (2 ^ v) (q ! i AND hi_mask v) OR push_bit (2 ^ v) (q ! i AND lo_mask v)"]
    using True
    by (cases "bit m v") (simp_all only: word_var_simps tt_bit_low tt_bit_def [of _ m] index_simps bool_simps)
next
  case False
  then have v: "5 \<le> v" by simp
  show ?thesis
    unfolding Kit_TruthExistNew_high [OF v] ExistNew_loop.loop_bit [OF v assms(2,1,3)]
    by (simp add: Let_def tt_bit_high [OF v] upper_word [OF v] tt_bit_flip bit_simps)
qed

lemma Kit_TruthForallNew_low:
  "v < 5 \<Longrightarrow> Kit_TruthForallNew p q n v = for_up 0 (Kit_TruthWordNum n) (\<lambda>i p. p[i := q ! i AND (drop_bit (2 ^ v) (q ! i AND hi_mask v) OR push_bit (2 ^ v) (q ! i AND lo_mask v))]) p"
  by (drule less_5_cases, elim disjE) (simp_all add: Kit_TruthForallNew_def lo_mask_def hi_mask_def)

lemma Kit_TruthForallNew_high:
  "5 \<le> v \<Longrightarrow> Kit_TruthForallNew p q n v = for_stride (Kit_TruthWordNum n) (2 * 2 ^ (v - 5))
     (\<lambda>k. for_up 0 (2 ^ (v - 5)) (\<lambda>i p. let p = p[k + i := q ! (k + i) AND q ! (k + i + 2 ^ (v - 5))] in p[k + i + 2 ^ (v - 5) := p ! (k + i)])) p"
  by (simp add: Kit_TruthForallNew_def Let_def)

lemma tt_wf_ForallNew [simp]: "tt_wf n p \<Longrightarrow> v < n \<Longrightarrow> tt_wf n (Kit_TruthForallNew p q n v)"
  using ForallNew_loop.loop_wf [of v n p] by (cases "v < 5") (simp_all add: Kit_TruthForallNew_low Kit_TruthForallNew_high tt_wf_def)

lemma tt_bit_ForallNew [tt_simps]:
  assumes "tt_wf n p" and "v < n" and "m < tt_size n"
  shows "tt_bit (Kit_TruthForallNew p q n v) m = (tt_bit q (unset_bit v m) \<and> tt_bit q (set_bit v m))"
proof (cases "v < 5")
  case True
  show ?thesis
    unfolding Kit_TruthForallNew_low [OF True] tt_bit_loop [OF assms(1,3),
        where g = "\<lambda>i x. q ! i AND (drop_bit (2 ^ v) (q ! i AND hi_mask v) OR push_bit (2 ^ v) (q ! i AND lo_mask v))"]
    using True
    by (cases "bit m v") (simp_all only: word_var_simps tt_bit_low tt_bit_def [of _ m] index_simps bool_simps)
next
  case False
  then have v: "5 \<le> v" by simp
  show ?thesis
    unfolding Kit_TruthForallNew_high [OF v] ForallNew_loop.loop_bit [OF v assms(2,1,3)]
    by (simp add: Let_def tt_bit_high [OF v] upper_word [OF v] tt_bit_flip bit_simps)
qed

lemma Kit_TruthUniqueNew_low:
  "v < 5 \<Longrightarrow> Kit_TruthUniqueNew p q n v = for_up 0 (Kit_TruthWordNum n) (\<lambda>i p. p[i := q ! i XOR (drop_bit (2 ^ v) (q ! i AND hi_mask v) OR push_bit (2 ^ v) (q ! i AND lo_mask v))]) p"
  by (drule less_5_cases, elim disjE) (simp_all add: Kit_TruthUniqueNew_def lo_mask_def hi_mask_def)

lemma Kit_TruthUniqueNew_high:
  "5 \<le> v \<Longrightarrow> Kit_TruthUniqueNew p q n v = for_stride (Kit_TruthWordNum n) (2 * 2 ^ (v - 5))
     (\<lambda>k. for_up 0 (2 ^ (v - 5)) (\<lambda>i p. let p = p[k + i := q ! (k + i) XOR q ! (k + i + 2 ^ (v - 5))] in p[k + i + 2 ^ (v - 5) := p ! (k + i)])) p"
  by (simp add: Kit_TruthUniqueNew_def Let_def)

lemma tt_wf_UniqueNew [simp]: "tt_wf n p \<Longrightarrow> v < n \<Longrightarrow> tt_wf n (Kit_TruthUniqueNew p q n v)"
  using UniqueNew_loop.loop_wf [of v n p] by (cases "v < 5") (simp_all add: Kit_TruthUniqueNew_low Kit_TruthUniqueNew_high tt_wf_def)

lemma tt_bit_UniqueNew [tt_simps]:
  assumes "tt_wf n p" and "v < n" and "m < tt_size n"
  shows "tt_bit (Kit_TruthUniqueNew p q n v) m = (tt_bit q (unset_bit v m) \<noteq> tt_bit q (set_bit v m))"
proof (cases "v < 5")
  case True
  show ?thesis
    unfolding Kit_TruthUniqueNew_low [OF True] tt_bit_loop [OF assms(1,3),
        where g = "\<lambda>i x. q ! i XOR (drop_bit (2 ^ v) (q ! i AND hi_mask v) OR push_bit (2 ^ v) (q ! i AND lo_mask v))"]
    using True
    by (cases "bit m v") (simp_all only: word_var_simps tt_bit_low tt_bit_def [of _ m] index_simps bool_simps, blast)
next
  case False
  then have v: "5 \<le> v" by simp
  show ?thesis
    unfolding Kit_TruthUniqueNew_high [OF v] UniqueNew_loop.loop_bit [OF v assms(2,1,3)]
    by (simp add: Let_def tt_bit_high [OF v] upper_word [OF v] tt_bit_flip bit_simps)
qed

lemma Kit_TruthMuxVar_low:
  "v < 5 \<Longrightarrow> Kit_TruthMuxVar p q r n v = for_up 0 (Kit_TruthWordNum n) (\<lambda>i p. p[i := (q ! i AND lo_mask v) OR (r ! i AND hi_mask v)]) p"
  by (drule less_5_cases, elim disjE) (simp_all add: Kit_TruthMuxVar_def lo_mask_def hi_mask_def)

lemma Kit_TruthMuxVar_high:
  "5 \<le> v \<Longrightarrow> Kit_TruthMuxVar p q r n v = for_stride (Kit_TruthWordNum n) (2 * 2 ^ (v - 5))
     (\<lambda>k. for_up 0 (2 ^ (v - 5)) (\<lambda>i p. let p = p[k + i := q ! (k + i)] in p[k + i + 2 ^ (v - 5) := r ! (k + i + 2 ^ (v - 5))])) p"
  by (simp add: Kit_TruthMuxVar_def Let_def)

lemma tt_wf_MuxVar [simp]: "tt_wf n p \<Longrightarrow> v < n \<Longrightarrow> tt_wf n (Kit_TruthMuxVar p q r n v)"
  using MuxVar_loop.loop_wf [of v n p] by (cases "v < 5") (simp_all add: Kit_TruthMuxVar_low Kit_TruthMuxVar_high tt_wf_def)

lemma tt_bit_MuxVar [tt_simps]:
  assumes "tt_wf n p" and "v < n" and "m < tt_size n"
  shows "tt_bit (Kit_TruthMuxVar p q r n v) m = (if bit m v then tt_bit r m else tt_bit q m)"
proof (cases "v < 5")
  case True
  show ?thesis
    unfolding Kit_TruthMuxVar_low [OF True] tt_bit_loop [OF assms(1,3),
        where g = "\<lambda>i x. (q ! i AND lo_mask v) OR (r ! i AND hi_mask v)"]
    using True
    by (cases "bit m v") (simp_all only: word_var_simps tt_bit_low tt_bit_def [of _ m] index_simps bool_simps)
next
  case False
  then have v: "5 \<le> v" by simp
  show ?thesis
    unfolding Kit_TruthMuxVar_high [OF v] MuxVar_loop.loop_bit [OF v assms(2,1,3)]
    by (simp add: tt_bit_def [of _ m] Let_def tt_bit_high [OF v] upper_word [OF v] tt_bit_flip bit_simps)
qed

lemma Kit_TruthChangePhase_low:
  "v < 5 \<Longrightarrow> Kit_TruthChangePhase p n v = for_up 0 (Kit_TruthWordNum n) (\<lambda>i p. p[i := push_bit (2 ^ v) (p ! i AND lo_mask v) OR drop_bit (2 ^ v) (p ! i AND hi_mask v)]) p"
  by (drule less_5_cases, elim disjE) (simp_all add: Kit_TruthChangePhase_def lo_mask_def hi_mask_def)

lemma Kit_TruthChangePhase_high:
  "5 \<le> v \<Longrightarrow> Kit_TruthChangePhase p n v = for_stride (Kit_TruthWordNum n) (2 * 2 ^ (v - 5))
     (\<lambda>k. for_up 0 (2 ^ (v - 5)) (\<lambda>i p. let t = p ! (k + i); p = p[k + i := p ! (k + i + 2 ^ (v - 5))] in p[k + i + 2 ^ (v - 5) := t])) p"
  by (simp add: Kit_TruthChangePhase_def Let_def)

lemma tt_wf_ChangePhase [simp]: "tt_wf n p \<Longrightarrow> v < n \<Longrightarrow> tt_wf n (Kit_TruthChangePhase p n v)"
  using ChangePhase_loop.loop_wf [of v n p] by (cases "v < 5") (simp_all add: Kit_TruthChangePhase_low Kit_TruthChangePhase_high tt_wf_def)

lemma tt_bit_ChangePhase [tt_simps]:
  assumes "tt_wf n p" and "v < n" and "m < tt_size n"
  shows "tt_bit (Kit_TruthChangePhase p n v) m = tt_bit p (flip_bit v m)"
proof (cases "v < 5")
  case True
  show ?thesis
    unfolding Kit_TruthChangePhase_low [OF True] tt_bit_loop [OF assms(1,3),
        where g = "\<lambda>i x. push_bit (2 ^ v) (x AND lo_mask v) OR drop_bit (2 ^ v) (x AND hi_mask v)"]
    using True
    by (cases "bit m v") (simp_all only: word_var_simps tt_bit_low tt_bit_def [of _ m] index_simps bool_simps)
next
  case False
  then have v: "5 \<le> v" by simp
  show ?thesis
    unfolding Kit_TruthChangePhase_high [OF v] ChangePhase_loop.loop_bit [OF v assms(2,1,3)]
    by (simp add: Let_def tt_bit_high [OF v] upper_word [OF v] tt_bit_flip bit_simps)
qed

text \<open>The variant with a complemented first cofactor.\<close>

interpretation MuxVarPhase_loop: pair_loop "\<lambda>s j p. let p = p[j := NOT (q ! j)] in p[j + s := r ! (j + s)]"
    "\<lambda>s j x y. NOT (q ! j)" "\<lambda>s j x y. r ! (j + s)" for q r
  by unfold_locales (simp add: Let_def)

lemma Kit_TruthMuxVarPhase_low:
  "v < 5 \<Longrightarrow> Kit_TruthMuxVarPhase p q r n v True = for_up 0 (Kit_TruthWordNum n)
     (\<lambda>i p. p[i := (NOT (q ! i) AND lo_mask v) OR (r ! i AND hi_mask v)]) p"
  by (drule less_5_cases, elim disjE) (simp_all add: Kit_TruthMuxVarPhase_def lo_mask_def hi_mask_def)

lemma Kit_TruthMuxVarPhase_high:
  "5 \<le> v \<Longrightarrow> Kit_TruthMuxVarPhase p q r n v True = for_stride (Kit_TruthWordNum n) (2 * 2 ^ (v - 5))
     (\<lambda>k. for_up 0 (2 ^ (v - 5)) (\<lambda>i p. let p = p[k + i := NOT (q ! (k + i))] in
       p[k + i + 2 ^ (v - 5) := r ! (k + i + 2 ^ (v - 5))])) p"
  by (simp add: Kit_TruthMuxVarPhase_def Let_def)

lemma tt_wf_MuxVarPhase [simp]: "tt_wf n p \<Longrightarrow> v < n \<Longrightarrow> tt_wf n (Kit_TruthMuxVarPhase p q r n v c)"
  using MuxVarPhase_loop.loop_wf [of v n p]
  by (cases "v < 5"; cases c)
    (simp_all add: Kit_TruthMuxVarPhase_low Kit_TruthMuxVarPhase_high tt_wf_def Kit_TruthMuxVarPhase_def [of _ _ _ _ _ False]
      tt_wf_MuxVar [unfolded tt_wf_def])

lemma tt_bit_MuxVarPhase [tt_simps]:
  assumes "tt_wf n p" and "v < n" and "m < tt_size n"
  shows "tt_bit (Kit_TruthMuxVarPhase p q r n v c) m = (if bit m v then tt_bit r m else tt_bit q m \<noteq> c)"
proof (cases c)
  case False
  then show ?thesis using tt_bit_MuxVar [OF assms] by (simp add: Kit_TruthMuxVarPhase_def)
next
  case c: True
  show ?thesis
  proof (cases "v < 5")
    case True
    have "bit (NOT (q ! (m div 32))) (m mod 32) = (\<not> bit (q ! (m div 32)) (m mod 32))"
      by (simp add: bit_simps)
    then show ?thesis
      unfolding eqTrueI [OF c] Kit_TruthMuxVarPhase_low [OF True] tt_bit_loop [OF assms(1,3),
          where g = "\<lambda>i x. (NOT (q ! i) AND lo_mask v) OR (r ! i AND hi_mask v)"]
      using True
      by (cases "bit m v") (simp_all only: word_var_simps tt_bit_low tt_bit_def [of _ m] index_simps bool_simps)
  next
    case False
    then have v: "5 \<le> v" by simp
    show ?thesis
      unfolding eqTrueI [OF c] Kit_TruthMuxVarPhase_high [OF v] MuxVarPhase_loop.loop_bit [OF v assms(2,1,3)]
      by (simp add: tt_bit_def [of _ m] Let_def tt_bit_high [OF v] upper_word [OF v] bit_simps)
  qed
qed

end
