(* ===== verification/Kit_Support.thy ===== *)
theory Kit_Support
  imports Kit_Truth
begin

text \<open>
  Support, vacuous variables, quantification of variable sets and symmetry
  (\<open>Kit_TruthVarInSupport\<close> to \<open>Kit_TruthBestCofVar\<close> of \<open>kitTruth.c\<close>). A loop that returns from
  its middle is a \<open>list_ex\<close> or \<open>list_all\<close> over the indices in the order of the loop. The support mask of the
  code is an \<open>int\<close>; the model's word agrees with it up to variable 30, and the shift by 31, which is
  undefined for an \<open>int\<close>, would need a table of more than \<open>2 ^ 31\<close> bits.
\<close>

section \<open>Support\<close>

definition Kit_TruthVarInSupport :: "truth \<Rightarrow> nat \<Rightarrow> nat \<Rightarrow> bool" where
  "Kit_TruthVarInSupport pTruth nVars iVar =
    (let nWords = Kit_TruthWordNum nVars in
     if iVar = 0 then
       list_ex (\<lambda>i. pTruth ! i AND 0x55555555 \<noteq> drop_bit 1 (pTruth ! i AND 0xAAAAAAAA)) [0..<nWords]
     else if iVar = 1 then
       list_ex (\<lambda>i. pTruth ! i AND 0x33333333 \<noteq> drop_bit 2 (pTruth ! i AND 0xCCCCCCCC)) [0..<nWords]
     else if iVar = 2 then
       list_ex (\<lambda>i. pTruth ! i AND 0x0F0F0F0F \<noteq> drop_bit 4 (pTruth ! i AND 0xF0F0F0F0)) [0..<nWords]
     else if iVar = 3 then
       list_ex (\<lambda>i. pTruth ! i AND 0x00FF00FF \<noteq> drop_bit 8 (pTruth ! i AND 0xFF00FF00)) [0..<nWords]
     else if iVar = 4 then
       list_ex (\<lambda>i. pTruth ! i AND 0x0000FFFF \<noteq> drop_bit 16 (pTruth ! i AND 0xFFFF0000)) [0..<nWords]
     else let Step = 2 ^ (iVar - 5) in
       list_ex (\<lambda>k. list_ex (\<lambda>i. pTruth ! (k + i) \<noteq> pTruth ! (k + i + Step)) [0..<Step])
         (stride nWords (2 * Step)))"

definition Kit_TruthSupportSize :: "truth \<Rightarrow> nat \<Rightarrow> nat" where
  "Kit_TruthSupportSize pTruth nVars =
     for_up 0 nVars (\<lambda>i Counter. Counter + of_bool (Kit_TruthVarInSupport pTruth nVars i)) 0"

definition Kit_TruthSupport :: "truth \<Rightarrow> nat \<Rightarrow> u32" where
  "Kit_TruthSupport pTruth nVars =
     for_up 0 nVars (\<lambda>i Support.
       if Kit_TruthVarInSupport pTruth nVars i then Support OR push_bit i 1 else Support) 0"

definition Kit_TruthVarIsVacuous :: "truth \<Rightarrow> truth \<Rightarrow> nat \<Rightarrow> nat \<Rightarrow> bool" where
  "Kit_TruthVarIsVacuous pOnset pOffset nVars iVar =
    (let nWords = Kit_TruthWordNum nVars in
     if iVar = 0 then
       list_all (\<lambda>i. ((pOnset ! i AND drop_bit 1 (pOffset ! i)) OR (pOffset ! i AND drop_bit 1 (pOnset ! i))) AND 0x55555555 = 0)
         [0..<nWords]
     else if iVar = 1 then
       list_all (\<lambda>i. ((pOnset ! i AND drop_bit 2 (pOffset ! i)) OR (pOffset ! i AND drop_bit 2 (pOnset ! i))) AND 0x33333333 = 0)
         [0..<nWords]
     else if iVar = 2 then
       list_all (\<lambda>i. ((pOnset ! i AND drop_bit 4 (pOffset ! i)) OR (pOffset ! i AND drop_bit 4 (pOnset ! i))) AND 0x0F0F0F0F = 0)
         [0..<nWords]
     else if iVar = 3 then
       list_all (\<lambda>i. ((pOnset ! i AND drop_bit 8 (pOffset ! i)) OR (pOffset ! i AND drop_bit 8 (pOnset ! i))) AND 0x00FF00FF = 0)
         [0..<nWords]
     else if iVar = 4 then
       list_all (\<lambda>i. ((pOnset ! i AND drop_bit 16 (pOffset ! i)) OR (pOffset ! i AND drop_bit 16 (pOnset ! i))) AND 0x0000FFFF = 0)
         [0..<nWords]
     else let Step = 2 ^ (iVar - 5) in
       list_all (\<lambda>k. list_all (\<lambda>i.
           (pOnset ! (k + i) AND pOffset ! (k + i + Step)) OR (pOffset ! (k + i) AND pOnset ! (k + i + Step)) = 0)
         [0..<Step]) (stride nWords (2 * Step)))"

definition Kit_TruthExistSet :: "truth \<Rightarrow> truth \<Rightarrow> nat \<Rightarrow> u32 \<Rightarrow> truth" where
  "Kit_TruthExistSet pRes pTruth nVars uMask =
    (let pRes = Kit_TruthCopy pRes pTruth nVars in
     for_up 0 nVars (\<lambda>v pRes.
       if uMask AND push_bit v 1 \<noteq> 0 then Kit_TruthExist pRes nVars v else pRes) pRes)"

definition Kit_TruthForallSet :: "truth \<Rightarrow> truth \<Rightarrow> nat \<Rightarrow> u32 \<Rightarrow> truth" where
  "Kit_TruthForallSet pRes pTruth nVars uMask =
    (let pRes = Kit_TruthCopy pRes pTruth nVars in
     for_up 0 nVars (\<lambda>v pRes.
       if uMask AND push_bit v 1 \<noteq> 0 then Kit_TruthForall pRes nVars v else pRes) pRes)"

section \<open>Symmetry\<close>

text \<open>
  The scratch arrays \<open>pCof0\<close> and \<open>pCof1\<close> (\<open>uTemp0\<close>, \<open>uTemp1\<close> when the caller passes NULL)
  are overwritten before they are read; the result carries their final contents.
\<close>

definition Kit_TruthVarsSymm :: "truth \<Rightarrow> nat \<Rightarrow> nat \<Rightarrow> nat \<Rightarrow> truth \<Rightarrow> truth \<Rightarrow> bool \<times> truth \<times> truth" where
  "Kit_TruthVarsSymm pTruth nVars iVar0 iVar1 pCof0 pCof1 =
    (let pCof0 = Kit_TruthCopy pCof0 pTruth nVars;
         pCof0 = Kit_TruthCofactor0 pCof0 nVars iVar0;
         pCof0 = Kit_TruthCofactor1 pCof0 nVars iVar1;
         pCof1 = Kit_TruthCopy pCof1 pTruth nVars;
         pCof1 = Kit_TruthCofactor1 pCof1 nVars iVar0;
         pCof1 = Kit_TruthCofactor0 pCof1 nVars iVar1
     in (Kit_TruthIsEqual pCof0 pCof1 nVars, pCof0, pCof1))"

definition Kit_TruthVarsAntiSymm :: "truth \<Rightarrow> nat \<Rightarrow> nat \<Rightarrow> nat \<Rightarrow> truth \<Rightarrow> truth \<Rightarrow> bool \<times> truth \<times> truth" where
  "Kit_TruthVarsAntiSymm pTruth nVars iVar0 iVar1 pCof0 pCof1 =
    (let pCof0 = Kit_TruthCopy pCof0 pTruth nVars;
         pCof0 = Kit_TruthCofactor0 pCof0 nVars iVar0;
         pCof0 = Kit_TruthCofactor0 pCof0 nVars iVar1;
         pCof1 = Kit_TruthCopy pCof1 pTruth nVars;
         pCof1 = Kit_TruthCofactor1 pCof1 nVars iVar0;
         pCof1 = Kit_TruthCofactor1 pCof1 nVars iVar1
     in (Kit_TruthIsEqual pCof0 pCof1 nVars, pCof0, pCof1))"

section \<open>What they decide\<close>

text \<open>The function of a table depends on variable \<open>v\<close>.\<close>

definition depends :: "nat \<Rightarrow> truth \<Rightarrow> nat \<Rightarrow> bool" where
  "depends n p v \<longleftrightarrow> (\<exists>m < tt_size n. tt_bit p (unset_bit v m) \<noteq> tt_bit p (set_bit v m))"

lemma stride_dvd_words:
  assumes "5 \<le> v" and "v < n"
  shows "2 * 2 ^ (v - 5) dvd Kit_TruthWordNum n"
  using assms by (simp add: Kit_TruthWordNum_def le_imp_power_dvd flip: power_Suc)

lemma lower_words:
  assumes v: "5 \<le> v" "v < n"
  shows "set (block_idx (Kit_TruthWordNum n) (2 * 2 ^ (v - 5)) (2 ^ (v - 5))) =
    {w. w < Kit_TruthWordNum n \<and> \<not> bit w (v - 5)}"
  using stride_dvd_words [OF v] by (subst set_block_idx) (auto simp: nat_bit_mod)

lemma block_words_bits:
  assumes v: "5 \<le> v" "v < n"
  shows "(\<forall>j \<in> set (block_idx (Kit_TruthWordNum n) (2 * 2 ^ (v - 5)) (2 ^ (v - 5))). f j = (g j :: u32)) \<longleftrightarrow>
    (\<forall>m < tt_size n. bit (f (unset_bit v m div 32)) (m mod 32) = bit (g (unset_bit v m div 32)) (m mod 32))"
    (is "?l \<longleftrightarrow> ?r")
proof
  assume ?l
  show ?r
  proof (intro allI impI)
    fix m assume "m < tt_size n"
    then have "unset_bit v m div 32 < Kit_TruthWordNum n" by simp
    moreover have "\<not> bit (unset_bit v m div 32) (v - 5)"
      using v by (simp add: minterm_high_bit bit_simps)
    ultimately have "unset_bit v m div 32 \<in> set (block_idx (Kit_TruthWordNum n) (2 * 2 ^ (v - 5)) (2 ^ (v - 5)))"
      using lower_words [OF v] by blast
    with \<open>?l\<close> show "bit (f (unset_bit v m div 32)) (m mod 32) = bit (g (unset_bit v m div 32)) (m mod 32)"
      by simp
  qed
next
  assume ?r
  show ?l
  proof (intro ballI bit_word_eqI)
    fix j b assume "j \<in> set (block_idx (Kit_TruthWordNum n) (2 * 2 ^ (v - 5)) (2 ^ (v - 5)))"
      and b: "b < LENGTH(32)"
    then have j: "j < Kit_TruthWordNum n" "\<not> bit j (v - 5)" using lower_words [OF v] by auto
    define m where "m = 32 * j + b"
    have m: "m < tt_size n" "m div 32 = j" "m mod 32 = b"
      using b tt_index_make [OF j(1), of b] by (simp_all add: m_def)
    have "unset_bit v m div 32 = j"
      using j m v by (simp add: minterm_high)
    with m \<open>?r\<close> show "bit (f j) b = bit (g j) b" by fastforce
  qed
qed

lemma bit_shr [tt_simps]:
  "\<not> bit b v \<Longrightarrow> bit (drop_bit (2 ^ v) x) b = bit (x::u32) (set_bit v b)"
  by (simp add: bit_simps nat_set_bit_clear add.commute)

lemma Kit_TruthVarInSupport_low:
  "v < 5 \<Longrightarrow> \<not> Kit_TruthVarInSupport p n v \<longleftrightarrow>
    (\<forall>w < Kit_TruthWordNum n. p ! w AND lo_mask v = drop_bit (2 ^ v) (p ! w AND hi_mask v))"
  by (drule less_5_cases, elim disjE)
    (simp_all add: Kit_TruthVarInSupport_def lo_mask_def hi_mask_def list_ex_iff Ball_def)

lemma Kit_TruthVarInSupport_high:
  assumes v: "5 \<le> v" "v < n"
  shows "\<not> Kit_TruthVarInSupport p n v \<longleftrightarrow>
    (\<forall>j \<in> set (block_idx (Kit_TruthWordNum n) (2 * 2 ^ (v - 5)) (2 ^ (v - 5))). p ! j = p ! (j + 2 ^ (v - 5)))"
  using stride_block_all [OF stride_dvd_words [OF v], of "\<lambda>j. p ! j = p ! (j + 2 ^ (v - 5))"] v
  by (simp add: Kit_TruthVarInSupport_def Let_def list_ex_iff list_all_iff)

lemma VarInSupport_iff:
  assumes "v < n"
  shows "Kit_TruthVarInSupport p n v \<longleftrightarrow> depends n p v"
proof (cases "v < 5")
  case True
  have "\<not> Kit_TruthVarInSupport p n v \<longleftrightarrow>
    (\<forall>m < tt_size n. (\<not> bit m v \<and> tt_bit p m) = (\<not> bit m v \<and> tt_bit p (set_bit v m)))"
    unfolding Kit_TruthVarInSupport_low [OF True] words_bits
    using True by (simp only: word_var_simps tt_bit_low simp_thms) (simp only: tt_bit_def conj_commute)
  also have "\<dots> \<longleftrightarrow> \<not> depends n p v"
  proof
    assume *: "\<forall>m < tt_size n. (\<not> bit m v \<and> tt_bit p m) = (\<not> bit m v \<and> tt_bit p (set_bit v m))"
    have "tt_bit p (unset_bit v m) = tt_bit p (set_bit v m)" if "m < tt_size n" for m
    proof -
      have "set_bit v (unset_bit v m) = set_bit v m" "\<not> bit (unset_bit v m) v"
        by (rule bit_eqI) (auto simp: bit_simps)
      with * [rule_format, of "unset_bit v m"] that show ?thesis by simp
    qed
    then show "\<not> depends n p v" by (simp add: depends_def)
  next
    assume "\<not> depends n p v"
    then show "\<forall>m < tt_size n. (\<not> bit m v \<and> tt_bit p m) = (\<not> bit m v \<and> tt_bit p (set_bit v m))"
      by (fastforce simp: depends_def)
  qed
  finally show ?thesis by blast
next
  case False
  then have v: "5 \<le> v" by simp
  have "\<not> Kit_TruthVarInSupport p n v \<longleftrightarrow> \<not> depends n p v"
    unfolding Kit_TruthVarInSupport_high [OF v assms] block_words_bits [OF v assms] depends_def
    by (simp add: tt_bit_high [OF v] upper_word [OF v])
  then show ?thesis by blast
qed

lemma Kit_TruthVarIsVacuous_low:
  "v < 5 \<Longrightarrow> Kit_TruthVarIsVacuous p q n v \<longleftrightarrow> (\<forall>w < Kit_TruthWordNum n.
    ((p ! w AND drop_bit (2 ^ v) (q ! w)) OR (q ! w AND drop_bit (2 ^ v) (p ! w))) AND lo_mask v = 0)"
  by (drule less_5_cases, elim disjE)
    (simp_all add: Kit_TruthVarIsVacuous_def lo_mask_def list_all_iff Ball_def)

lemma Kit_TruthVarIsVacuous_high:
  assumes v: "5 \<le> v" "v < n"
  shows "Kit_TruthVarIsVacuous p q n v \<longleftrightarrow>
    (\<forall>j \<in> set (block_idx (Kit_TruthWordNum n) (2 * 2 ^ (v - 5)) (2 ^ (v - 5))).
      (p ! j AND q ! (j + 2 ^ (v - 5))) OR (q ! j AND p ! (j + 2 ^ (v - 5))) = 0)"
  using stride_block_all [OF stride_dvd_words [OF v],
      of "\<lambda>j. (p ! j AND q ! (j + 2 ^ (v - 5))) OR (q ! j AND p ! (j + 2 ^ (v - 5))) = 0"] v
  by (simp add: Kit_TruthVarIsVacuous_def Let_def)

lemma unset_set_index: "set_bit v (unset_bit v m) = set_bit v (m::nat)"
  by (rule bit_eqI) (auto simp: bit_simps)

lemma all_lower_minterms:
  "(\<forall>m < tt_size n. \<not> bit m v \<longrightarrow> P m (set_bit v m)) \<longleftrightarrow>
   (\<forall>m < tt_size n. P (unset_bit v m) (set_bit v m))"
proof
  assume *: "\<forall>m < tt_size n. \<not> bit m v \<longrightarrow> P m (set_bit v m)"
  show "\<forall>m < tt_size n. P (unset_bit v m) (set_bit v m)"
  proof (intro allI impI)
    fix m assume "m < tt_size n"
    with * [rule_format, of "unset_bit v m"] show "P (unset_bit v m) (set_bit v m)"
      by (simp add: unset_set_index bit_simps)
  qed
next
  assume *: "\<forall>m < tt_size n. P (unset_bit v m) (set_bit v m)"
  show "\<forall>m < tt_size n. \<not> bit m v \<longrightarrow> P m (set_bit v m)"
  proof (intro allI impI)
    fix m assume "m < tt_size n" "\<not> bit m v"
    with * [rule_format, of m] show "P m (set_bit v m)" by simp
  qed
qed

lemma VarIsVacuous_iff:
  assumes "v < n"
  shows "Kit_TruthVarIsVacuous p q n v \<longleftrightarrow>
    (\<forall>m < tt_size n. \<not> (tt_bit p (unset_bit v m) \<and> tt_bit q (set_bit v m)) \<and>
      \<not> (tt_bit q (unset_bit v m) \<and> tt_bit p (set_bit v m)))"
proof (cases "v < 5")
  case True
  have shr: "\<not> bit m v \<Longrightarrow> bit (drop_bit (2 ^ v) (x::u32)) (m mod 32) = bit x (set_bit v (m mod 32))" for m x
    using True by (simp add: bit_shr minterm_low_bit)
  have bits: "bit (((p ! (m div 32) AND drop_bit (2 ^ v) (q ! (m div 32))) OR
        (q ! (m div 32) AND drop_bit (2 ^ v) (p ! (m div 32)))) AND lo_mask v) (m mod 32) \<longleftrightarrow>
      \<not> bit m v \<and> (tt_bit p m \<and> tt_bit q (set_bit v m) \<or> tt_bit q m \<and> tt_bit p (set_bit v m))" for m
    unfolding tt_bit_low [OF True] tt_bit_def [of _ m]
    using True by (cases "bit m v") (simp_all only: word_var_simps shr simp_thms)
  have "Kit_TruthVarIsVacuous p q n v \<longleftrightarrow>
    (\<forall>m < tt_size n. \<not> bit m v \<longrightarrow> \<not> (tt_bit p m \<and> tt_bit q (set_bit v m)) \<and>
      \<not> (tt_bit q m \<and> tt_bit p (set_bit v m)))"
    unfolding Kit_TruthVarIsVacuous_low [OF True] words_bits bits by auto
  then show ?thesis
    using all_lower_minterms [of n v "\<lambda>a b. \<not> (tt_bit p a \<and> tt_bit q b) \<and> \<not> (tt_bit q a \<and> tt_bit p b)"]
    by simp
next
  case False
  then have v: "5 \<le> v" by simp
  show ?thesis
    unfolding Kit_TruthVarIsVacuous_high [OF v assms] block_words_bits [OF v assms]
    by (auto simp: tt_bit_high [OF v] upper_word [OF v] bit_simps)
qed

lemma Kit_TruthSupportSize_card: "Kit_TruthSupportSize p n = card {v. v < n \<and> depends n p v}"
proof -
  have "for_up 0 k (\<lambda>i Counter. Counter + of_bool (Kit_TruthVarInSupport p n i)) 0 =
      sum_list (map (\<lambda>i. of_bool (Kit_TruthVarInSupport p n i) :: nat) [0..<k])" for k
    by (induction k) (simp_all add: for_up_Suc)
  moreover have "map (\<lambda>i. of_bool (Kit_TruthVarInSupport p n i)) [0..<n] =
      map (\<lambda>i. of_bool (depends n p i) :: nat) [0..<n]"
    by (simp add: VarInSupport_iff)
  ultimately show ?thesis
    unfolding Kit_TruthSupportSize_def card_filter_upt by (simp only:)
qed

lemma bit_push1: "i < 32 \<Longrightarrow> bit (push_bit i 1 :: u32) v \<longleftrightarrow> v = i"
  by (auto simp: bit_exp_iff)

lemma bit_Kit_TruthSupport:
  assumes "n \<le> 32"
  shows "bit (Kit_TruthSupport p n) v \<longleftrightarrow> v < n \<and> depends n p v"
proof -
  let ?f = "\<lambda>i Support. if Kit_TruthVarInSupport p n i then Support OR push_bit i 1 else Support :: u32"
  have "\<forall>v. bit (for_up 0 n ?f 0) v \<longleftrightarrow> v < n \<and> depends n p v"
  proof (rule for_up_invar [where P = "\<lambda>k S. \<forall>v. bit S v \<longleftrightarrow> v < k \<and> depends n p v"])
    fix i and S :: u32 assume "i < n" and S: "\<forall>v. bit S v \<longleftrightarrow> v < i \<and> depends n p v"
    show "\<forall>v. bit (?f i S) v \<longleftrightarrow> v < Suc i \<and> depends n p v"
    proof
      fix v
      have "bit (push_bit i 1 :: u32) v \<longleftrightarrow> v = i"
        using \<open>i < n\<close> assms by (intro bit_push1) simp
      then show "bit (?f i S) v \<longleftrightarrow> v < Suc i \<and> depends n p v"
        using S \<open>i < n\<close> by (cases "v = i") (simp_all add: VarInSupport_iff bit_or_iff less_Suc_eq)
    qed
  qed simp_all
  then show ?thesis by (simp add: Kit_TruthSupport_def)
qed

text \<open>Two minterms agree outside a set of variables.\<close>

definition agree_off :: "nat set \<Rightarrow> nat \<Rightarrow> nat \<Rightarrow> bool" where
  "agree_off V m m' \<longleftrightarrow> (\<forall>v. v \<notin> V \<longrightarrow> bit m v = bit m' v)"

lemma agree_off_insert:
  "agree_off (insert i V) m m' \<longleftrightarrow> agree_off V (unset_bit i m) m' \<or> agree_off V (set_bit i m) m'"
  (is "?l \<longleftrightarrow> ?r")
proof
  assume ?l
  then show ?r
    by (cases "bit m' i") (auto simp: agree_off_def bit_simps)
next
  assume ?r
  then show ?l by (auto simp: agree_off_def bit_simps)
qed

lemma agree_off_empty [simp]: "agree_off {} m m' \<longleftrightarrow> m = m'"
  by (auto simp: agree_off_def intro: bit_eqI)

lemma mask_test: "(uMask AND push_bit v 1 \<noteq> 0) = bit (uMask :: u32) v"
  by (simp add: bit_iff_and_push_bit_not_eq_0)

lemma set_step: "{v. v < Suc i \<and> Q v} = (if Q i then insert i {v. v < i \<and> Q v} else {v. v < i \<and> Q v})"
  by (auto simp: less_Suc_eq)

lemma ExistSet_loop:
  assumes wf: "tt_wf n p" and k: "k \<le> n"
  shows "tt_wf n (for_up 0 k (\<lambda>v r. if bit uMask v then Kit_TruthExist r n v else r) p) \<and>
    (\<forall>m < tt_size n. tt_bit (for_up 0 k (\<lambda>v r. if bit uMask v then Kit_TruthExist r n v else r) p) m \<longleftrightarrow>
      (\<exists>m' < tt_size n. agree_off {v. v < k \<and> bit (uMask::u32) v} m m' \<and> tt_bit p m'))"
  using k
proof (induction k)
  case 0
  then show ?case using wf by simp
next
  case (Suc k)
  let ?r = "for_up 0 k (\<lambda>v r. if bit uMask v then Kit_TruthExist r n v else r) p"
  from Suc have wf: "tt_wf n ?r" and k: "k < n"
    and ih: "\<And>m. m < tt_size n \<Longrightarrow> tt_bit ?r m \<longleftrightarrow>
      (\<exists>m' < tt_size n. agree_off {v. v < k \<and> bit uMask v} m m' \<and> tt_bit p m')" by auto
  show ?case
    using wf k by (auto simp: for_up_Suc tt_bit_Exist ih set_step agree_off_insert)
qed

lemma ForallSet_loop:
  assumes wf: "tt_wf n p" and k: "k \<le> n"
  shows "tt_wf n (for_up 0 k (\<lambda>v r. if bit uMask v then Kit_TruthForall r n v else r) p) \<and>
    (\<forall>m < tt_size n. tt_bit (for_up 0 k (\<lambda>v r. if bit uMask v then Kit_TruthForall r n v else r) p) m \<longleftrightarrow>
      (\<forall>m' < tt_size n. agree_off {v. v < k \<and> bit (uMask::u32) v} m m' \<longrightarrow> tt_bit p m'))"
  using k
proof (induction k)
  case 0
  then show ?case using wf by simp
next
  case (Suc k)
  let ?r = "for_up 0 k (\<lambda>v r. if bit uMask v then Kit_TruthForall r n v else r) p"
  from Suc have wf: "tt_wf n ?r" and k: "k < n"
    and ih: "\<And>m. m < tt_size n \<Longrightarrow> tt_bit ?r m \<longleftrightarrow>
      (\<forall>m' < tt_size n. agree_off {v. v < k \<and> bit uMask v} m m' \<longrightarrow> tt_bit p m')" by auto
  show ?case
    using wf k by (auto simp: for_up_Suc tt_bit_Forall ih set_step agree_off_insert)
qed

lemma tt_bit_ExistSet:
  assumes "tt_wf n pRes" and "m < tt_size n"
  shows "tt_bit (Kit_TruthExistSet pRes p n uMask) m \<longleftrightarrow>
    (\<exists>m' < tt_size n. agree_off {v. v < n \<and> bit uMask v} m m' \<and> tt_bit p m')"
proof -
  have "tt_wf n (Kit_TruthCopy pRes p n)" using assms(1) by simp
  from ExistSet_loop [OF this, of n uMask] assms show ?thesis
    unfolding Kit_TruthExistSet_def mask_test Let_def by (simp add: tt_bit_Copy cong: conj_cong)
qed

lemma tt_bit_ForallSet:
  assumes "tt_wf n pRes" and "m < tt_size n"
  shows "tt_bit (Kit_TruthForallSet pRes p n uMask) m \<longleftrightarrow>
    (\<forall>m' < tt_size n. agree_off {v. v < n \<and> bit uMask v} m m' \<longrightarrow> tt_bit p m')"
proof -
  have "tt_wf n (Kit_TruthCopy pRes p n)" using assms(1) by simp
  from ForallSet_loop [OF this, of n uMask] assms show ?thesis
    unfolding Kit_TruthForallSet_def mask_test Let_def by (simp add: tt_bit_Copy cong: conj_cong)
qed

lemma VarsSymm_iff:
  assumes "tt_wf n c0" "tt_wf n c1" "i < n" "j < n"
  shows "fst (Kit_TruthVarsSymm p n i j c0 c1) \<longleftrightarrow>
    (\<forall>m < tt_size n. tt_bit p (unset_bit i (set_bit j m)) = tt_bit p (set_bit i (unset_bit j m)))"
  using assms
  by (simp add: Kit_TruthVarsSymm_def Let_def Kit_TruthIsEqual_iff tt_bit_Cofactor0 tt_bit_Cofactor1 tt_bit_Copy)

lemma VarsAntiSymm_iff:
  assumes "tt_wf n c0" "tt_wf n c1" "i < n" "j < n"
  shows "fst (Kit_TruthVarsAntiSymm p n i j c0 c1) \<longleftrightarrow>
    (\<forall>m < tt_size n. tt_bit p (unset_bit i (unset_bit j m)) = tt_bit p (set_bit i (set_bit j m)))"
  using assms
  by (simp add: Kit_TruthVarsAntiSymm_def Let_def Kit_TruthIsEqual_iff tt_bit_Cofactor0 tt_bit_Cofactor1 tt_bit_Copy)

section \<open>Choice of a cofactoring variable\<close>

text \<open>
  \<open>Kit_TruthMinCofSuppOverlap\<close>: the loop over \<open>i\<close> with its \<open>break\<close> is \<open>min_overlap_loop\<close>; its
  scratch array \<open>uCofactor\<close> is rewritten from the table before each use. The result is \<open>ValueMin\<close>
  and the value stored through \<open>pVarMin\<close>.
\<close>

definition cof_supports :: "truth \<Rightarrow> nat \<Rightarrow> nat \<Rightarrow> u32 \<times> u32" where
  "cof_supports pTruth nVars i =
    (let uCofactor = Kit_TruthCopy (replicate (Kit_TruthWordNum nVars) 0) pTruth nVars;
         uSupp0 = Kit_TruthSupport (Kit_TruthCofactor0 uCofactor nVars i) nVars;
         uSupp1 = Kit_TruthSupport (Kit_TruthCofactor1 uCofactor nVars i) nVars
     in (uSupp0, uSupp1))"

fun min_overlap_loop :: "truth \<Rightarrow> nat \<Rightarrow> nat list \<Rightarrow> nat \<times> int \<Rightarrow> nat \<times> int" where
  "min_overlap_loop pTruth nVars [] (ValueMin, VarMin) = (ValueMin, VarMin)"
| "min_overlap_loop pTruth nVars (i # is) (ValueMin, VarMin) =
    (let (uSupp0, uSupp1) = cof_supports pTruth nVars i;
         nVars0 = Kit_WordCountOnes uSupp0;
         nVars1 = Kit_WordCountOnes uSupp1;
         ValueCur = Kit_WordCountOnes (uSupp0 AND uSupp1);
         (ValueMin, VarMin) =
           (if ValueMin > ValueCur \<and> nVars0 \<le> 5 \<and> nVars1 \<le> 5 then (ValueCur, int i)
            else (ValueMin, VarMin))
     in if ValueMin = 0 then (ValueMin, VarMin)
        else min_overlap_loop pTruth nVars is (ValueMin, VarMin))"

definition Kit_TruthMinCofSuppOverlap :: "truth \<Rightarrow> nat \<Rightarrow> nat \<times> int" where
  "Kit_TruthMinCofSuppOverlap pTruth nVars = min_overlap_loop pTruth nVars [0..<nVars] (32, -1)"

definition KIT_INFINITY :: int where
  "KIT_INFINITY = 100000000"

text \<open>One iteration of the loop of \<open>Kit_TruthBestCofVar\<close>, on \<open>iBestVar\<close>, \<open>nSuppSizeMin\<close> and the two arrays.\<close>

definition best_cof_step :: "truth \<Rightarrow> nat \<Rightarrow> nat \<Rightarrow> int \<times> int \<times> truth \<times> truth \<Rightarrow> int \<times> int \<times> truth \<times> truth" where
  "best_cof_step pTruth nVars i = (\<lambda>(iBestVar, nSuppSizeMin, pCof0, pCof1).
     let pCof0 = Kit_TruthCofactor0New pCof0 pTruth nVars i;
         pCof1 = Kit_TruthCofactor1New pCof1 pTruth nVars i;
         nSuppSizeCur0 = int (Kit_TruthSupportSize pCof0 nVars);
         nSuppSizeCur1 = int (Kit_TruthSupportSize pCof1 nVars);
         nSuppSizeCur = nSuppSizeCur0 + nSuppSizeCur1
     in if nSuppSizeMin > nSuppSizeCur then (int i, nSuppSizeCur, pCof0, pCof1)
        else (iBestVar, nSuppSizeMin, pCof0, pCof1))"

definition Kit_TruthBestCofVar :: "truth \<Rightarrow> nat \<Rightarrow> truth \<Rightarrow> truth \<Rightarrow> int \<times> truth \<times> truth" where
  "Kit_TruthBestCofVar pTruth nVars pCof0 pCof1 =
    (if Kit_TruthIsConst0 pTruth nVars \<or> Kit_TruthIsConst1 pTruth nVars then (-1, pCof0, pCof1)
     else
       let (iBestVar, nSuppSizeMin, pCof0, pCof1) =
         for_up 0 nVars (best_cof_step pTruth nVars) (-1, KIT_INFINITY, pCof0, pCof1);
           pCof0 = Kit_TruthCofactor0New pCof0 pTruth nVars (nat iBestVar);
           pCof1 = Kit_TruthCofactor1New pCof1 pTruth nVars (nat iBestVar)
       in (iBestVar, pCof0, pCof1))"

lemma New_eq_inplace:
  assumes "tt_wf n p" "tt_wf n q" "v < n"
  shows "Kit_TruthCofactor0New p q n v = Kit_TruthCofactor0 q n v"
    "Kit_TruthCofactor1New p q n v = Kit_TruthCofactor1 q n v"
    "Kit_TruthExistNew p q n v = Kit_TruthExist q n v"
    "Kit_TruthForallNew p q n v = Kit_TruthForall q n v"
  using assms by (auto intro!: tt_eqI [of n] simp: tt_simps)

definition cof_cost :: "truth \<Rightarrow> nat \<Rightarrow> nat \<Rightarrow> nat" where
  "cof_cost p n i =
    Kit_TruthSupportSize (Kit_TruthCofactor0 p n i) n + Kit_TruthSupportSize (Kit_TruthCofactor1 p n i) n"

lemma cof_cost_bound: "cof_cost p n i \<le> 2 * n"
proof -
  have "card {v. v < n \<and> P v} \<le> n" for P
    using card_mono [of "{..<n}" "{v. v < n \<and> P v}"] by auto
  then show ?thesis
    unfolding cof_cost_def Kit_TruthSupportSize_card by (metis add_mono mult_2)
qed

definition best_inv :: "truth \<Rightarrow> nat \<Rightarrow> nat \<Rightarrow> int \<times> int \<times> truth \<times> truth \<Rightarrow> bool" where
  "best_inv p n k st \<longleftrightarrow> (case st of (b, mn, c0, c1) \<Rightarrow>
     tt_wf n c0 \<and> tt_wf n c1 \<and> (k = 0 \<longrightarrow> mn = KIT_INFINITY) \<and>
     (0 < k \<longrightarrow> 0 \<le> b \<and> b < int k \<and> mn = int (cof_cost p n (nat b)) \<and>
       (\<forall>i < k. mn \<le> int (cof_cost p n i))))"

lemma BestCofVar_loop:
  assumes wf: "tt_wf n p" "tt_wf n c0" "tt_wf n c1" and n: "2 * int n < KIT_INFINITY"
  shows "best_inv p n n (for_up 0 n (best_cof_step p n) (-1, KIT_INFINITY, c0, c1))"
proof (rule for_up_invar [where P = "best_inv p n"])
  show "best_inv p n 0 (- 1, KIT_INFINITY, c0, c1)" using wf by (simp add: best_inv_def)
next
  fix k st assume k: "k < n" and inv: "best_inv p n k st"
  obtain b mn c0 c1 where st: "st = (b, mn, c0, c1)" by (cases st)
  have cost: "int (Kit_TruthSupportSize (Kit_TruthCofactor0 p n i) n) +
      int (Kit_TruthSupportSize (Kit_TruthCofactor1 p n i) n) = int (cof_cost p n i)" for i
    by (simp add: cof_cost_def)
  have "int (cof_cost p n k) < KIT_INFINITY"
    using cof_cost_bound [of p n k] n by linarith
  then show "best_inv p n (Suc k) (best_cof_step p n k st)"
    using inv wf k
    by (cases "k = 0") (auto simp: best_inv_def best_cof_step_def st New_eq_inplace cost Let_def less_Suc_eq)
qed simp

lemma Kit_TruthBestCofVar_minimal:
  assumes wf: "tt_wf n p" "tt_wf n c0" "tt_wf n c1" and n: "0 < n" "2 * int n < KIT_INFINITY"
    and nc: "\<not> Kit_TruthIsConst0 p n" "\<not> Kit_TruthIsConst1 p n"
  shows "\<exists>i < n. Kit_TruthBestCofVar p n c0 c1 =
      (int i, Kit_TruthCofactor0 p n i, Kit_TruthCofactor1 p n i) \<and>
    (\<forall>j < n. cof_cost p n i \<le> cof_cost p n j)"
proof -
  obtain b mn d0 d1 where loop:
    "for_up 0 n (best_cof_step p n) (-1, KIT_INFINITY, c0, c1) = (b, mn, d0, d1)"
    by (rule prod_cases4)
  have inv: "best_inv p n n (b, mn, d0, d1)" using BestCofVar_loop [OF wf n(2)] loop by simp
  then have b: "0 \<le> b" "nat b < n" and d: "tt_wf n d0" "tt_wf n d1"
    and mn: "\<forall>i < n. cof_cost p n (nat b) \<le> cof_cost p n i"
    using n(1) by (auto simp: best_inv_def)
  have "Kit_TruthBestCofVar p n c0 c1 =
      (int (nat b), Kit_TruthCofactor0 p n (nat b), Kit_TruthCofactor1 p n (nat b))"
    using nc b d wf by (simp add: Kit_TruthBestCofVar_def loop New_eq_inplace)
  with b mn show ?thesis by blast
qed

end
