(* ===== verification/Kit_Swap.thy ===== *)
theory Kit_Swap
  imports Kit_Support
begin

text \<open>
  Reordering of variables: \<open>Kit_TruthSwapAdjacentVars\<close> and its older copy, and the three
  operations built on it (\<open>Kit_TruthStretch\<close>, \<open>Kit_TruthShrink\<close>, \<open>Kit_TruthPermute\<close>).
\<close>

section \<open>Swapping two adjacent variables\<close>

definition PMasks :: "u32 list list" where
  "PMasks = [
     [0x99999999, 0x22222222, 0x44444444],
     [0xC3C3C3C3, 0x0C0C0C0C, 0x30303030],
     [0xF00FF00F, 0x00F000F0, 0x0F000F00],
     [0xFF0000FF, 0x0000FF00, 0x00FF0000]]"

definition Kit_TruthSwapAdjacentVars :: "truth \<Rightarrow> truth \<Rightarrow> nat \<Rightarrow> nat \<Rightarrow> truth" where
  "Kit_TruthSwapAdjacentVars pOut pIn nVars iVar =
    (let nWords = Kit_TruthWordNum nVars in
     if iVar < 4 then
       let Shift = 2 ^ iVar in
       for_up 0 nWords (\<lambda>i pOut. pOut[i :=
         (pIn ! i AND PMasks ! iVar ! 0) OR push_bit Shift (pIn ! i AND PMasks ! iVar ! 1)
           OR drop_bit Shift (pIn ! i AND PMasks ! iVar ! 2)]) pOut
     else if iVar > 4 then
       let Step = 2 ^ (iVar - 5) in
       for_stride nWords (4 * Step) (\<lambda>k pOut.
         let pOut = for_up 0 Step (\<lambda>i pOut. pOut[k + i := pIn ! (k + i)]) pOut;
             pOut = for_up 0 Step (\<lambda>i pOut. pOut[k + Step + i := pIn ! (k + 2 * Step + i)]) pOut;
             pOut = for_up 0 Step (\<lambda>i pOut. pOut[k + 2 * Step + i := pIn ! (k + Step + i)]) pOut;
             pOut = for_up 0 Step (\<lambda>i pOut. pOut[k + 3 * Step + i := pIn ! (k + 3 * Step + i)]) pOut
         in pOut) pOut
     else
       for_stride nWords 2 (\<lambda>i pOut.
         let pOut = pOut[i := (pIn ! i AND 0x0000FFFF) OR push_bit 16 (pIn ! (i + 1) AND 0x0000FFFF)]
         in pOut[i + 1 := (pIn ! (i + 1) AND 0xFFFF0000) OR drop_bit 16 (pIn ! i AND 0xFFFF0000)]) pOut)"

definition Kit_TruthSwapAdjacentVars2 :: "truth \<Rightarrow> truth \<Rightarrow> nat \<Rightarrow> nat \<Rightarrow> truth" where
  "Kit_TruthSwapAdjacentVars2 pIn pOut nVars Start =
    (let nWords = (if nVars \<le> 5 then 1 else 2 ^ (nVars - 5)) in
     if Start = 0 then
       for_up 0 nWords (\<lambda>i pOut. pOut[i := (pIn ! i AND 0x99999999) OR push_bit 1 (pIn ! i AND 0x22222222) OR drop_bit 1 (pIn ! i AND 0x44444444)]) pOut
     else if Start = 1 then
       for_up 0 nWords (\<lambda>i pOut. pOut[i := (pIn ! i AND 0xC3C3C3C3) OR push_bit 2 (pIn ! i AND 0x0C0C0C0C) OR drop_bit 2 (pIn ! i AND 0x30303030)]) pOut
     else if Start = 2 then
       for_up 0 nWords (\<lambda>i pOut. pOut[i := (pIn ! i AND 0xF00FF00F) OR push_bit 4 (pIn ! i AND 0x00F000F0) OR drop_bit 4 (pIn ! i AND 0x0F000F00)]) pOut
     else if Start = 3 then
       for_up 0 nWords (\<lambda>i pOut. pOut[i := (pIn ! i AND 0xFF0000FF) OR push_bit 8 (pIn ! i AND 0x0000FF00) OR drop_bit 8 (pIn ! i AND 0x00FF0000)]) pOut
     else if Start = 4 then
       for_stride nWords 2 (\<lambda>i pOut.
         let pOut = pOut[i := (pIn ! i AND 0x0000FFFF) OR push_bit 16 (pIn ! (i + 1) AND 0x0000FFFF)]
         in pOut[i + 1 := (pIn ! (i + 1) AND 0xFFFF0000) OR drop_bit 16 (pIn ! i AND 0xFFFF0000)]) pOut
     else
       let Step = 2 ^ (Start - 5) in
       for_stride nWords (4 * Step) (\<lambda>k pOut.
         let pOut = for_up 0 Step (\<lambda>i pOut. pOut[k + i := pIn ! (k + i)]) pOut;
             pOut = for_up 0 Step (\<lambda>i pOut. pOut[k + Step + i := pIn ! (k + 2 * Step + i)]) pOut;
             pOut = for_up 0 Step (\<lambda>i pOut. pOut[k + 2 * Step + i := pIn ! (k + Step + i)]) pOut;
             pOut = for_up 0 Step (\<lambda>i pOut. pOut[k + 3 * Step + i := pIn ! (k + 3 * Step + i)]) pOut
         in pOut) pOut)"

text \<open>The reference: a minterm index with bits \<open>u\<close> and \<open>u + 1\<close> exchanged.\<close>

definition swap_adj :: "nat \<Rightarrow> nat \<Rightarrow> nat" where
  "swap_adj u m = (if bit m u = bit m (Suc u) then m else flip_bit u (flip_bit (Suc u) m))"

definition tr :: "nat \<Rightarrow> nat \<Rightarrow> nat" where
  "tr u i = (if i = u then Suc u else if i = Suc u then u else i)"

lemma tr_tr [simp]: "tr u (tr u i) = i"
  by (simp add: tr_def)

lemma bit_swap_adj: "bit (swap_adj u m) i = bit m (tr u i)"
  by (auto simp: swap_adj_def tr_def bit_simps)

lemma swap_adj_less: "Suc u < k \<Longrightarrow> m < 2 ^ k \<Longrightarrow> swap_adj u m < 2 ^ k"
  by (auto simp: nat_less_pow2_iff_bits bit_swap_adj tr_def)

lemma swap_adj_tt_less [simp]: "Suc u < n \<Longrightarrow> m < tt_size n \<Longrightarrow> swap_adj u m < tt_size n"
  by (simp add: tt_size_pow2 swap_adj_less)

lemma Swap2_eq: "Kit_TruthSwapAdjacentVars2 p q n v = Kit_TruthSwapAdjacentVars q p n v"
proof -
  have "v = 0 \<or> v = 1 \<or> v = 2 \<or> v = 3 \<or> v = 4 \<or> 4 < v" by auto
  then show ?thesis
    by (elim disjE) (simp_all add: Kit_TruthSwapAdjacentVars_def Kit_TruthSwapAdjacentVars2_def
        Kit_TruthWordNum_def PMasks_def)
qed

lemma swap_table:
  "list_all (\<lambda>v. list_all (\<lambda>b.
     (2 ^ v \<le> b \<and> bit (PMasks ! v ! 1) (b - 2 ^ v)) = (\<not> bit b v \<and> bit b (Suc v)) \<and>
     bit (PMasks ! v ! 0) b = (bit b v = bit b (Suc v)) \<and>
     bit (PMasks ! v ! 2) (2 ^ v + b) = (bit b v \<and> \<not> bit b (Suc v)) \<and>
     (if bit b v = bit b (Suc v) then swap_adj v b = b
      else if bit b v then swap_adj v b = 2 ^ v + b else swap_adj v b = b - 2 ^ v)) [0..<32]) [0..<4]"
  by code_simp

lemma bit_swap_word:
  assumes "v < 4" and "b < 32"
  shows "bit ((x AND PMasks ! v ! 0) OR push_bit (2 ^ v) (x AND PMasks ! v ! 1)
    OR drop_bit (2 ^ v) (x AND PMasks ! v ! 2)) b = bit (x::u32) (swap_adj v b)"
proof -
  have t: "(2 ^ v \<le> b \<and> bit (PMasks ! v ! 1) (b - 2 ^ v)) = (\<not> bit b v \<and> bit b (Suc v))"
    "bit (PMasks ! v ! 0) b = (bit b v = bit b (Suc v))"
    "bit (PMasks ! v ! 2) (2 ^ v + b) = (bit b v \<and> \<not> bit b (Suc v))"
    "if bit b v = bit b (Suc v) then swap_adj v b = b
      else if bit b v then swap_adj v b = 2 ^ v + b else swap_adj v b = b - 2 ^ v"
    using swap_table assms by (simp_all only: list_all_iff set_upt) (auto dest!: bspec)
  have "bit ((x AND PMasks ! v ! 0) OR push_bit (2 ^ v) (x AND PMasks ! v ! 1)
      OR drop_bit (2 ^ v) (x AND PMasks ! v ! 2)) b \<longleftrightarrow>
    bit x b \<and> bit (PMasks ! v ! 0) b \<or>
    (bit x (b - 2 ^ v) \<and> 2 ^ v \<le> b \<and> bit (PMasks ! v ! 1) (b - 2 ^ v)) \<or>
    bit x (2 ^ v + b) \<and> bit (PMasks ! v ! 2) (2 ^ v + b)"
    using assms(2) by (auto simp only: bit_or_iff bit_and_iff bit_push_bit_iff bit_drop_bit_eq possible_bit_def comp_def)
      (simp_all)
  then show ?thesis unfolding t(1-3) using t(4) by (auto split: if_splits)
qed

lemma swap_adj_low:
  assumes "v < 4"
  shows "swap_adj v m div 32 = m div 32" "swap_adj v m mod 32 = swap_adj v (m mod 32)"
  unfolding div32 mod32 by (rule bit_eqI, use assms in \<open>auto simp: bit_simps bit_swap_adj tr_def\<close>)+

lemma swap_adj_high:
  assumes "4 < v"
  shows "swap_adj v m div 32 = swap_adj (v - 5) (m div 32)" "swap_adj v m mod 32 = m mod 32"
  unfolding div32 mod32 by (rule bit_eqI, use assms in \<open>auto simp: bit_simps bit_swap_adj tr_def\<close>)+

lemma Swap_low:
  assumes "v < 4" "tt_wf n p" "m < tt_size n"
  shows "tt_bit (Kit_TruthSwapAdjacentVars p q n v) m = tt_bit q (swap_adj v m)"
proof -
  have "tt_bit (Kit_TruthSwapAdjacentVars p q n v) m =
    bit ((q ! (m div 32) AND PMasks ! v ! 0) OR push_bit (2 ^ v) (q ! (m div 32) AND PMasks ! v ! 1)
      OR drop_bit (2 ^ v) (q ! (m div 32) AND PMasks ! v ! 2)) (m mod 32)"
    using assms tt_bit_loop [OF assms(2,3), of "\<lambda>i _. (q ! i AND PMasks ! v ! 0)
      OR push_bit (2 ^ v) (q ! i AND PMasks ! v ! 1) OR drop_bit (2 ^ v) (q ! i AND PMasks ! v ! 2)"]
    by (simp add: Kit_TruthSwapAdjacentVars_def Let_def)
  then show ?thesis
    using bit_swap_word [OF assms(1), of "m mod 32" "q ! (m div 32)"]
    by (simp add: tt_bit_def swap_adj_low [OF assms(1)])
qed

text \<open>For the variable pair 4 and 5 the halves of neighbouring words change places.\<close>

interpretation Swap4_loop: pair_loop
  "\<lambda>s j p. let p = p[j := (q ! j AND lo_mask 4) OR push_bit 16 (q ! (j + s) AND lo_mask 4)]
     in p[j + s := (q ! (j + s) AND hi_mask 4) OR drop_bit 16 (q ! j AND hi_mask 4)]"
  "\<lambda>s j x y. (q ! j AND lo_mask 4) OR push_bit 16 (q ! (j + s) AND lo_mask 4)"
  "\<lambda>s j x y. (q ! (j + s) AND hi_mask 4) OR drop_bit 16 (q ! j AND hi_mask 4)" for q
  by unfold_locales simp

lemma for_up_one: "for_up 0 (Suc 0) f = f 0"
  by (rule ext) (simp add: for_up_def)

lemma Swap4_eq: "Kit_TruthSwapAdjacentVars p q n 4 =
  for_stride (Kit_TruthWordNum n) (2 * 2 ^ (5 - 5)) (\<lambda>k. for_up 0 (2 ^ (5 - 5)) (\<lambda>i p.
    let p = p[k + i := (q ! (k + i) AND lo_mask 4) OR push_bit 16 (q ! (k + i + 2 ^ (5 - 5)) AND lo_mask 4)]
     in p[k + i + 2 ^ (5 - 5) := (q ! (k + i + 2 ^ (5 - 5)) AND hi_mask 4) OR drop_bit 16 (q ! (k + i) AND hi_mask 4)])) p"
  by (simp add: Kit_TruthSwapAdjacentVars_def Let_def lo_mask_def hi_mask_def for_up_one)

lemma tt_wf_Swap4: "5 < n \<Longrightarrow> tt_wf n p \<Longrightarrow> tt_wf n (Kit_TruthSwapAdjacentVars p q n 4)"
  unfolding Swap4_eq by (rule Swap4_loop.loop_wf) simp_all

lemma Swap_4:
  assumes "5 < n" "tt_wf n p" "m < tt_size n"
  shows "tt_bit (Kit_TruthSwapAdjacentVars p q n 4) m = tt_bit q (swap_adj 4 m)"
proof -
  have sh: "push_bit 16 = push_bit (2 ^ 4)" "drop_bit 16 = drop_bit (2 ^ 4)" by simp_all
  have u: "unset_bit 5 m div 32 + 2 ^ (5 - 5) = set_bit 5 m div 32" by (rule upper_word) simp
  have "tt_bit (Kit_TruthSwapAdjacentVars p q n 4) m =
    (if bit m 5 then if bit m 4 then bit (q ! (set_bit 5 m div 32)) (m mod 32)
       else bit (q ! (unset_bit 5 m div 32)) (set_bit 4 (m mod 32))
     else if bit m 4 then bit (q ! (set_bit 5 m div 32)) (unset_bit 4 (m mod 32))
       else bit (q ! (unset_bit 5 m div 32)) (m mod 32))"
    unfolding Swap4_eq Swap4_loop.loop_bit [OF order_refl assms] unfolding Let_def u unfolding sh
    by (simp only: word_var_simps) simp
  moreover have "swap_adj 4 m = (if bit m 5 then if bit m 4 then set_bit 5 m else set_bit 4 (unset_bit 5 m)
      else if bit m 4 then unset_bit 4 (set_bit 5 m) else unset_bit 5 m)"
    by (rule bit_eqI) (auto simp: bit_swap_adj tr_def bit_simps)
  ultimately show ?thesis
    by (simp add: tt_bit_def minterm_high minterm_low)
qed

text \<open>For two variables above 4 the middle quarters of every group of words change places.\<close>

definition quarters :: "nat \<Rightarrow> nat \<Rightarrow> nat list" where
  "quarters s k = map (\<lambda>i. k + i) [0..<s] @ map (\<lambda>i. k + s + i) [0..<s] @
     map (\<lambda>i. k + 2 * s + i) [0..<s] @ map (\<lambda>i. k + 3 * s + i) [0..<s]"

lemma set_quarters: "set (quarters s k) = {k..<k + 4 * s}"
proof -
  have img: "(\<lambda>i. a + i) ` {0..<s} = {a..<a + s}" for a
    by (simp add: add.commute)
  show ?thesis
    unfolding quarters_def set_append set_map set_upt img by auto
qed

lemma set_quarter_targets:
  assumes "4 * s dvd N" and "0 < s"
  shows "set (concat (map (quarters s) (stride N (4 * s)))) = {..<N}"
proof -
  have "set (concat (map (quarters s) (stride N (4 * s)))) = set (block_idx N (4 * s) (4 * s))"
    using assms by (simp add: block_idx_def stride_dvd set_quarters image_image add.commute)
  then show ?thesis using assms by (auto simp: set_block_idx)
qed

lemma swap_adj_shift:
  assumes "i < 2 ^ u"
  shows "swap_adj u (i + 2 ^ u * y) = i + 2 ^ u * swap_adj 0 y"
  unfolding add_shift_or [OF assms]
  by (rule bit_eqI) (use assms in \<open>auto simp: bit_simps bit_swap_adj tr_def nat_less_pow2_iff_bits\<close>)

lemma swap_adj_0:
  "swap_adj 0 (4 * j) = 4 * j" "swap_adj 0 (4 * j + 1) = 4 * j + 2"
  "swap_adj 0 (4 * j + 2) = 4 * j + 1" "swap_adj 0 (4 * j + 3) = 4 * j + 3"
proof -
  have "odd ((4 * j + 3) div 2)" by presburger
  then show "swap_adj 0 (4 * j) = 4 * j" "swap_adj 0 (4 * j + 1) = 4 * j + 2"
    "swap_adj 0 (4 * j + 2) = 4 * j + 1" "swap_adj 0 (4 * j + 3) = 4 * j + 3"
    by (simp_all add: swap_adj_def nat_flip_bit nat_set_bit_clear nat_unset_bit_set bit_0 bit_Suc)
qed

lemma swap_adj_quarter:
  assumes k: "k = j * (4 * 2 ^ u)" and i: "i < 2 ^ u"
  shows "swap_adj u (k + i) = k + i" "swap_adj u (k + 2 ^ u + i) = k + 2 * 2 ^ u + i"
    "swap_adj u (k + 2 * 2 ^ u + i) = k + 2 ^ u + i" "swap_adj u (k + 3 * 2 ^ u + i) = k + 3 * 2 ^ u + i"
  using swap_adj_shift [OF i, of "4 * j"] swap_adj_shift [OF i, of "4 * j + 1"]
    swap_adj_shift [OF i, of "4 * j + 2"] swap_adj_shift [OF i, of "4 * j + 3"]
  unfolding swap_adj_0 k by (simp_all add: algebra_simps)

lemma quarter_body:
  assumes k: "k = j * (4 * 2 ^ u)"
  shows "for_up 0 (2 ^ u) (\<lambda>i p. p[k + 3 * 2 ^ u + i := q ! (k + 3 * 2 ^ u + i)])
      (for_up 0 (2 ^ u) (\<lambda>i p. p[k + 2 * 2 ^ u + i := q ! (k + 2 ^ u + i)])
      (for_up 0 (2 ^ u) (\<lambda>i p. p[k + 2 ^ u + i := q ! (k + 2 * 2 ^ u + i)])
      (for_up 0 (2 ^ u) (\<lambda>i p. p[k + i := q ! (k + i)]) p))) =
    fold (\<lambda>t p. p[t := q ! swap_adj u t]) (quarters (2 ^ u) k) p"
proof -
  have part: "for_up 0 (2 ^ u) (\<lambda>i p. p[a + i := q ! (b + i)]) p =
      fold (\<lambda>t p. p[t := q ! swap_adj u t]) (map (\<lambda>i. a + i) [0..<2 ^ u]) p"
    if "\<And>i. i < 2 ^ u \<Longrightarrow> swap_adj u (a + i) = b + i" for a b p
    using that unfolding for_up_def fold_map by (intro fold_cong) auto
  show ?thesis
    unfolding quarters_def fold_append comp_def
    by (subst part, use swap_adj_quarter [OF k] in simp)+ simp
qed

lemma quarter_dvd:
  assumes "4 < v" "Suc v < n"
  shows "4 * 2 ^ (v - 5) dvd Kit_TruthWordNum n"
proof -
  have "2 + (v - 5) = v - 3" using assms by simp
  then have "(4::nat) * 2 ^ (v - 5) = 2 ^ (v - 3)"
    by (metis power_add power2_eq_square mult_2 numeral_Bit0)
  then show ?thesis using assms by (simp add: Kit_TruthWordNum_def le_imp_power_dvd)
qed

lemma Swap_high:
  assumes v: "4 < v" "Suc v < n"
  shows "Kit_TruthSwapAdjacentVars p q n v =
    fold (\<lambda>t p. p[t := q ! swap_adj (v - 5) t])
      (concat (map (quarters (2 ^ (v - 5))) (stride (Kit_TruthWordNum n) (4 * 2 ^ (v - 5))))) p"
proof -
  have nest: "fold (\<lambda>k. fold f (g k)) ks p = fold f (concat (map g ks)) p"
    for f :: "nat \<Rightarrow> truth \<Rightarrow> truth" and g and ks :: "nat list" and p
    by (induction ks arbitrary: p) simp_all
  have stride: "\<exists>j. k = j * (4 * 2 ^ (v - 5))"
    if "k \<in> set (stride (Kit_TruthWordNum n) (4 * 2 ^ (v - 5)))" for k
    using that by (auto simp: stride_def)
  show ?thesis
    unfolding Kit_TruthSwapAdjacentVars_def Let_def nest [symmetric] for_stride_def
    using v by simp (intro fold_cong ext, auto dest!: stride simp only: quarter_body [OF refl])
qed

lemma tt_wf_Swap [simp]:
  assumes "tt_wf n p" "Suc v < n"
  shows "tt_wf n (Kit_TruthSwapAdjacentVars p q n v)"
proof -
  consider "v < 4" | "v = 4" | "4 < v" by linarith
  then show ?thesis
  proof cases
    case 1
    then show ?thesis using assms by (simp add: Kit_TruthSwapAdjacentVars_def tt_wf_def Let_def)
  next
    case 2
    then show ?thesis using assms by (simp add: tt_wf_Swap4)
  next
    case 3
    then show ?thesis using assms by (simp add: Swap_high tt_wf_def)
  qed
qed

lemma tt_bit_Swap [tt_simps]:
  assumes "tt_wf n p" "Suc v < n" "m < tt_size n"
  shows "tt_bit (Kit_TruthSwapAdjacentVars p q n v) m = tt_bit q (swap_adj v m)"
proof -
  consider "v < 4" | "v = 4" | "4 < v" by linarith
  then show ?thesis
  proof cases
    case 1
    then show ?thesis using assms by (simp add: Swap_low)
  next
    case 2
    then show ?thesis using assms by (simp add: Swap_4)
  next
    case 3
    let ?ts = "concat (map (quarters (2 ^ (v - 5))) (stride (Kit_TruthWordNum n) (4 * 2 ^ (v - 5))))"
    have "4 * 2 ^ (v - 5) dvd Kit_TruthWordNum n" using 3 assms(2) by (rule quarter_dvd)
    then have ts: "set ?ts = {..<Kit_TruthWordNum n}" by (rule set_quarter_targets) simp
    then have "fold (\<lambda>t p. p[t := q ! swap_adj (v - 5) t]) ?ts p ! (m div 32) = q ! swap_adj (v - 5) (m div 32)"
      using assms by (subst nth_fold_const) (auto simp: tt_wf_def)
    then show ?thesis
      using 3 assms by (simp add: Swap_high tt_bit_def swap_adj_high)
  qed
qed

end
