(* ===== verification/Kit_Permute.thy ===== *)
theory Kit_Permute
  imports Kit_Swap "HOL-Library.While_Combinator" "HOL-Library.Multiset"
begin

text \<open>
  The operations of \<open>kitTruth.c\<close> that move variables by sequences of adjacent swaps:
  \<open>Kit_TruthStretch\<close>, \<open>Kit_TruthShrink\<close> and \<open>Kit_TruthPermute\<close>. The two arrays trade places after
  every swap (\<open>pTemp = pIn; pIn = pOut; pOut = pTemp\<close>), and the parity of \<open>Counter\<close> tells at the
  end which of the caller's arrays holds the result.
\<close>

section \<open>The model\<close>

text \<open>The two pointers, by the arrays they point to, and the number of swaps so far.\<close>

record swap_state =
  sw_out :: truth
  sw_in :: truth
  sw_Counter :: nat

definition swap_vars :: "nat \<Rightarrow> nat \<Rightarrow> swap_state \<Rightarrow> swap_state" where
  "swap_vars nVars k s =
    \<lparr>sw_out = sw_in s, sw_in = Kit_TruthSwapAdjacentVars (sw_out s) (sw_in s) nVars k,
     sw_Counter = sw_Counter s + 1\<rparr>"

text \<open>
  The last lines of the three functions: copy when \<open>fReturnIn ^ !(Counter \& 1)\<close>, then read the
  arrays back under the names the caller has for them.
\<close>

definition return_tables :: "nat \<Rightarrow> bool \<Rightarrow> swap_state \<Rightarrow> truth \<times> truth" where
  "return_tables nVars fReturnIn s =
    (let out = (if fReturnIn \<noteq> even (sw_Counter s) then Kit_TruthCopy (sw_out s) (sw_in s) nVars
                else sw_out s)
     in if even (sw_Counter s) then (out, sw_in s) else (sw_in s, out))"

definition Kit_TruthStretch :: "truth \<Rightarrow> truth \<Rightarrow> nat \<Rightarrow> nat \<Rightarrow> u32 \<Rightarrow> bool \<Rightarrow> truth \<times> truth" where
  "Kit_TruthStretch pOut pIn nVars nVarsAll Phase fReturnIn =
    (let (s, Var) = for_down nVarsAll (\<lambda>i (s, Var).
           if Phase AND push_bit i 1 \<noteq> 0
           then (for_up (nat Var) i (swap_vars nVarsAll) s, Var - 1) else (s, Var))
         (\<lparr>sw_out = pOut, sw_in = pIn, sw_Counter = 0\<rparr>, int nVars - 1)
     in return_tables nVarsAll fReturnIn s)"

definition Kit_TruthShrink :: "truth \<Rightarrow> truth \<Rightarrow> nat \<Rightarrow> nat \<Rightarrow> u32 \<Rightarrow> bool \<Rightarrow> truth \<times> truth" where
  "Kit_TruthShrink pOut pIn nVars nVarsAll Phase fReturnIn =
    (let (s, Var) = for_up 0 nVarsAll (\<lambda>i (s, Var).
           if Phase AND push_bit i 1 \<noteq> 0
           then (fold (swap_vars nVarsAll) (rev [Var..<i]) s, Var + 1) else (s, Var))
         (\<lparr>sw_out = pOut, sw_in = pIn, sw_Counter = 0\<rparr>, 0)
     in return_tables nVarsAll fReturnIn s)"

text \<open>
  \<open>Kit_TruthPermute\<close>: one pass of the bubble sort over \<open>pPerm\<close>, and the \<open>do \<dots> while ( fChange )\<close>
  around it. The result also has the caller's \<open>pPerm\<close>, which the function sorts in place.
\<close>

definition permute_pass :: "nat \<Rightarrow> swap_state \<times> int list \<Rightarrow> (swap_state \<times> int list) \<times> bool" where
  "permute_pass nVars st =
    for_up 0 (nVars - 1) (\<lambda>i ((s, pPerm), fChange).
      if pPerm ! i \<le> pPerm ! (i + 1) then ((s, pPerm), fChange)
      else ((swap_vars nVars i s, pPerm[i := pPerm ! (i + 1), i + 1 := pPerm ! i]), True)) (st, False)"

definition Kit_TruthPermute :: "truth \<Rightarrow> truth \<Rightarrow> nat \<Rightarrow> int list \<Rightarrow> bool \<Rightarrow> ((truth \<times> truth) \<times> int list) option" where
  "Kit_TruthPermute pOut pIn nVars pPerm fReturnIn =
    (case while_option snd (\<lambda>(st, fChange). permute_pass nVars st)
        (permute_pass nVars (\<lparr>sw_out = pOut, sw_in = pIn, sw_Counter = 0\<rparr>, pPerm)) of
       None \<Rightarrow> None
     | Some ((s, pPerm), fChange) \<Rightarrow> Some (return_tables nVars fReturnIn s, pPerm))"

section \<open>Moving variables\<close>

text \<open>
  \<open>moved n \<tau> p q\<close>: table \<open>q\<close> is table \<open>p\<close> with variable \<open>i\<close> moved to position \<open>\<tau> i\<close>. The minterm of
  \<open>p\<close> that belongs to minterm \<open>m\<close> of \<open>q\<close> is \<open>remap n \<tau> m\<close>.
\<close>

definition moved :: "nat \<Rightarrow> (nat \<Rightarrow> nat) \<Rightarrow> truth \<Rightarrow> truth \<Rightarrow> bool" where
  "moved n \<tau> p q \<longleftrightarrow>
    (\<forall>m < tt_size n. \<forall>m'. (\<forall>i. bit m' i = bit m (\<tau> i)) \<longrightarrow> tt_bit q m = tt_bit p m')"

definition remap :: "nat \<Rightarrow> (nat \<Rightarrow> nat) \<Rightarrow> nat \<Rightarrow> nat" where
  "remap n \<tau> m = horner_sum of_bool 2 (map (\<lambda>i. bit m (\<tau> i)) [0..<max n 5])"

definition keeps_high :: "nat \<Rightarrow> (nat \<Rightarrow> nat) \<Rightarrow> bool" where
  "keeps_high n \<tau> \<longleftrightarrow> (\<forall>i \<ge> n. \<tau> i = i)"

lemma tt_high_bit: "m < tt_size n \<Longrightarrow> \<not> i < max n 5 \<Longrightarrow> \<not> bit m i"
  unfolding tt_size_pow2 nat_less_pow2_iff_bits by (metis not_less)

lemma bit_remap: "bit (remap n \<tau> m) i \<longleftrightarrow> i < max n 5 \<and> bit m (\<tau> i)"
  by (auto simp: remap_def bit_horner_sum_bit_iff)

lemma remap_less: "remap n \<tau> m < tt_size n"
  by (auto simp: tt_size_pow2 nat_less_pow2_iff_bits bit_remap)

lemma moved_remap:
  assumes "moved n \<tau> p q" and "keeps_high n \<tau>" and "m < tt_size n"
  shows "tt_bit q m = tt_bit p (remap n \<tau> m)"
proof -
  have "bit (remap n \<tau> m) i = bit m (\<tau> i)" for i
  proof (cases "i < max n 5")
    case False
    then show ?thesis
      using assms(2,3) tt_high_bit [of m n i] by (simp add: bit_remap keeps_high_def)
  qed (simp add: bit_remap)
  with assms show ?thesis by (simp add: moved_def)
qed

lemma moved_id: "moved n id p p"
proof -
  have "m' = m" if "\<forall>i. bit m' i = bit m i" for m m' :: nat
    using that by (intro bit_eqI) simp
  then show ?thesis by (auto simp: moved_def)
qed

lemma moved_Swap:
  assumes "moved n \<tau> p q" and "tt_wf n r" and "Suc k < n"
  shows "moved n (tr k \<circ> \<tau>) p (Kit_TruthSwapAdjacentVars r q n k)"
  unfolding moved_def
proof (intro allI impI)
  fix m m' :: nat assume m: "m < tt_size n" and "\<forall>i. bit m' i = bit m ((tr k \<circ> \<tau>) i)"
  then have "\<forall>i. bit m' i = bit (swap_adj k m) (\<tau> i)" by (simp add: bit_swap_adj)
  with assms m show "tt_bit (Kit_TruthSwapAdjacentVars r q n k) m = tt_bit p m'"
    by (simp add: tt_bit_Swap moved_def)
qed

text \<open>The invariant of the loops: both arrays have the right size and \<open>pIn\<close> holds the moved table.\<close>

definition sw_inv :: "nat \<Rightarrow> truth \<Rightarrow> (nat \<Rightarrow> nat) \<Rightarrow> swap_state \<Rightarrow> bool" where
  "sw_inv n p \<tau> s \<longleftrightarrow> tt_wf n (sw_out s) \<and> tt_wf n (sw_in s) \<and> moved n \<tau> p (sw_in s) \<and> keeps_high n \<tau>"

lemma sw_inv_init: "tt_wf n pOut \<Longrightarrow> tt_wf n pIn \<Longrightarrow>
    sw_inv n pIn id \<lparr>sw_out = pOut, sw_in = pIn, sw_Counter = 0\<rparr>"
  by (simp add: sw_inv_def moved_id keeps_high_def)

lemma sw_inv_swap: "sw_inv n p \<tau> s \<Longrightarrow> Suc k < n \<Longrightarrow> sw_inv n p (tr k \<circ> \<tau>) (swap_vars n k s)"
  by (auto simp: sw_inv_def swap_vars_def moved_Swap keeps_high_def tr_def)

lemma sw_inv_swaps:
  assumes "sw_inv n p \<tau> s" and "\<forall>k \<in> set ks. Suc k < n"
  shows "sw_inv n p (fold tr ks \<circ> \<tau>) (fold (swap_vars n) ks s)"
  using assms
proof (induction ks arbitrary: \<tau> s)
  case (Cons k ks)
  then have "sw_inv n p (fold tr ks \<circ> (tr k \<circ> \<tau>)) (fold (swap_vars n) ks (swap_vars n k s))"
    by (intro Cons.IH sw_inv_swap) auto
  then show ?case by (simp add: comp_def)
qed (simp only: fold.simps id_comp id_apply)

text \<open>Where the result is, and that the other array still has the right size.\<close>

lemma return_tables_spec:
  assumes "sw_inv n p \<tau> s" and "return_tables n fReturnIn s = (out, inn)" and "m < tt_size n"
  shows "tt_wf n out \<and> tt_wf n inn \<and> tt_bit (if fReturnIn then inn else out) m = tt_bit p (remap n \<tau> m)"
proof -
  have "tt_bit (sw_in s) m = tt_bit p (remap n \<tau> m)"
    using assms by (intro moved_remap) (simp_all add: sw_inv_def)
  with assms show ?thesis
    by (auto simp: return_tables_def sw_inv_def tt_bit_Copy Let_def split: if_splits)
qed

section \<open>Shrink and Stretch\<close>

text \<open>
  \<open>rank Phase i\<close> is the number of phase variables below \<open>i\<close>. \<open>Kit_TruthShrink\<close> moves phase
  variable \<open>i\<close> to \<open>rank Phase i\<close> and packs the others, in order, above all phase variables.
\<close>

definition rank :: "u32 \<Rightarrow> nat \<Rightarrow> nat" where
  "rank Phase i = card {j. j < i \<and> bit Phase j}"

definition shrink_pos :: "u32 \<Rightarrow> nat \<Rightarrow> nat \<Rightarrow> nat" where
  "shrink_pos Phase n i =
    (if n \<le> i then i else if bit Phase i then rank Phase i else rank Phase n + (i - rank Phase i))"

text \<open>Moving the variable at \<open>hi\<close> down to \<open>lo\<close>, and back.\<close>

definition cyc_down :: "nat \<Rightarrow> nat \<Rightarrow> nat \<Rightarrow> nat" where
  "cyc_down lo hi i = (if i = hi then lo else if lo \<le> i \<and> i < hi then Suc i else i)"

definition cyc_up :: "nat \<Rightarrow> nat \<Rightarrow> nat \<Rightarrow> nat" where
  "cyc_up lo hi i = (if i = lo then hi else if lo < i \<and> i \<le> hi then i - 1 else i)"

lemma cyc_down_up: "lo \<le> hi \<Longrightarrow> cyc_down lo hi (cyc_up lo hi i) = i"
  by (auto simp: cyc_down_def cyc_up_def)

lemma fold_tr_down:
  assumes "lo \<le> hi"
  shows "fold tr (rev [lo..<hi]) = cyc_down lo hi"
  using assms
proof (induction hi rule: dec_induct)
  case base
  show ?case by (rule ext) (auto simp: cyc_down_def)
next
  case (step hi)
  have "fold tr (rev [lo..<Suc hi]) = cyc_down lo hi \<circ> tr hi"
    using step(1,3) by simp
  also have "\<dots> = cyc_down lo (Suc hi)"
    using step(1) by (intro ext) (auto simp: cyc_down_def tr_def)
  finally show ?case .
qed

lemma fold_tr_up:
  assumes "lo \<le> hi"
  shows "fold tr [lo..<hi] = cyc_up lo hi"
  using assms
proof (induction hi rule: dec_induct)
  case base
  show ?case by (rule ext) (auto simp: cyc_up_def)
next
  case (step hi)
  have "fold tr [lo..<Suc hi] = tr hi \<circ> cyc_up lo hi"
    using step(1,3) by simp
  also have "\<dots> = cyc_up lo (Suc hi)"
    using step(1) by (intro ext) (auto simp: cyc_up_def tr_def)
  finally show ?case .
qed

lemma rank_0 [simp]: "rank P 0 = 0"
  by (simp add: rank_def)

lemma rank_Suc: "rank P (Suc i) = rank P i + of_bool (bit P i)"
  unfolding rank_def by (simp add: card_filter_upt)

lemma rank_mono: "i \<le> j \<Longrightarrow> rank P i \<le> rank P j"
  unfolding rank_def by (intro card_mono) auto

lemma rank_gap: "i \<le> j \<Longrightarrow> rank P j - rank P i \<le> j - i"
  by (induction j rule: dec_induct) (auto simp: rank_Suc)

lemma rank_le: "rank P i \<le> i"
  using rank_gap [of 0 i P] by simp

lemma shrink_pos_0: "shrink_pos P 0 = id"
  by (rule ext) (simp add: shrink_pos_def)

lemma shrink_pos_Suc:
  "shrink_pos P (Suc i) = (if bit P i then cyc_down (rank P i) i \<circ> shrink_pos P i else shrink_pos P i)"
proof (rule ext)
  fix x
  have "rank P x \<le> rank P i" "i - rank P i \<ge> x - rank P x" "bit P x \<Longrightarrow> rank P x < rank P i" if "x < i"
    using that rank_mono [of x i P] rank_gap [of x i P] rank_le [of P x] rank_le [of P i]
      rank_mono [of "Suc x" i P] by (auto simp: rank_Suc)
  moreover have "x - rank P x < i - rank P i" if "x < i" "\<not> bit P x"
    using that rank_gap [of "Suc x" i P] rank_le [of P x] rank_le [of P i] rank_mono [of x i P] by (auto simp: rank_Suc)
  ultimately show "shrink_pos P (Suc i) x = (if bit P i then cyc_down (rank P i) i \<circ> shrink_pos P i else shrink_pos P i) x"
    using rank_le [of P i] rank_le [of P x]
    by (cases x i rule: linorder_cases) (auto simp: shrink_pos_def cyc_down_def rank_Suc less_Suc_eq)
qed

lemma shrink_pos_keeps: "shrink_pos P n i = i" if "n \<le> i"
  using that by (simp add: shrink_pos_def)


lemma Shrink_loop:
  assumes "tt_wf n pOut" "tt_wf n pIn" and "k \<le> n"
  shows "\<exists>s. for_up 0 k (\<lambda>i (s, Var).
           if bit Phase i then (fold (swap_vars n) (rev [Var..<i]) s, Var + 1) else (s, Var))
         (\<lparr>sw_out = pOut, sw_in = pIn, sw_Counter = 0\<rparr>, 0) = (s, rank Phase k) \<and>
       sw_inv n pIn (shrink_pos Phase k) s"
  using assms(3)
proof (induction k)
  case 0
  show ?case using sw_inv_init [OF assms(1,2)] by (simp only: shrink_pos_0 for_up_0 rank_0) blast
next
  case (Suc k)
  then obtain s where s: "for_up 0 k (\<lambda>i (s, Var).
           if bit Phase i then (fold (swap_vars n) (rev [Var..<i]) s, Var + 1) else (s, Var))
         (\<lparr>sw_out = pOut, sw_in = pIn, sw_Counter = 0\<rparr>, 0) = (s, rank Phase k)"
    "sw_inv n pIn (shrink_pos Phase k) s" by auto
  have "sw_inv n pIn (cyc_down (rank Phase k) k \<circ> shrink_pos Phase k)
      (fold (swap_vars n) (rev [rank Phase k..<k]) s)"
    using sw_inv_swaps [OF s(2), of "rev [rank Phase k..<k]"] Suc.prems fold_tr_down [OF rank_le, of Phase k]
    by simp
  with s show ?case
    by (simp add: for_up_Suc shrink_pos_Suc rank_Suc comp_def)
qed

lemma Kit_TruthShrink_eq:
  assumes "tt_wf n pOut" "tt_wf n pIn"
  shows "\<exists>s. Kit_TruthShrink pOut pIn k n Phase fReturnIn = return_tables n fReturnIn s \<and>
    sw_inv n pIn (shrink_pos Phase n) s"
  using Shrink_loop [OF assms order_refl, of Phase]
  unfolding Kit_TruthShrink_def mask_test by auto

text \<open>\<open>Kit_TruthStretch\<close> undoes the moves of \<open>Kit_TruthShrink\<close> in the opposite order.\<close>

lemma Stretch_loop:
  assumes "tt_wf n pOut" "tt_wf n pIn" and "k \<le> n"
  shows "\<exists>s \<tau>. fold (\<lambda>i (s, Var).
           if bit Phase i then (for_up (nat Var) i (swap_vars n) s, Var - 1) else (s, Var)) (rev [k..<n])
         (\<lparr>sw_out = pOut, sw_in = pIn, sw_Counter = 0\<rparr>, int (rank Phase n) - 1) = (s, int (rank Phase k) - 1) \<and>
       sw_inv n pIn \<tau> s \<and> (\<forall>x y. shrink_pos Phase k y = \<tau> x \<longrightarrow> shrink_pos Phase n y = x)"
    (is "\<exists>s \<tau>. ?loop k = _ \<and> _")
  using assms(3)
proof (induction k rule: inc_induct)
  case base
  show ?case
    using sw_inv_init [OF assms(1,2)] by (intro exI [of _ id] exI) auto
next
  case (step k)
  then obtain s \<tau> where s: "?loop (Suc k) = (s, int (rank Phase (Suc k)) - 1)" "sw_inv n pIn \<tau> s"
    and \<tau>: "\<And>x y. shrink_pos Phase (Suc k) y = \<tau> x \<Longrightarrow> shrink_pos Phase n y = x" by auto
  have up: "[k..<n] = k # [Suc k..<n]" using step by (simp add: upt_conv_Cons)
  show ?case
  proof (cases "bit Phase k")
    case True
    have "sw_inv n pIn (cyc_up (rank Phase k) k \<circ> \<tau>) (fold (swap_vars n) [rank Phase k..<k] s)"
      using sw_inv_swaps [OF s(2), of "[rank Phase k..<k]"] step fold_tr_up [OF rank_le, of Phase k] by simp
    moreover have "?loop k = (fold (swap_vars n) [rank Phase k..<k] s, int (rank Phase k) - 1)"
      using s True by (simp add: up rank_Suc for_up_def)
    moreover have "shrink_pos Phase n y = x" if "shrink_pos Phase k y = (cyc_up (rank Phase k) k \<circ> \<tau>) x" for x y
      using that True by (intro \<tau>) (simp add: shrink_pos_Suc cyc_down_up rank_le)
    ultimately show ?thesis by blast
  next
    case False
    then have "?loop k = (s, int (rank Phase k) - 1)"
      using s by (simp add: up rank_Suc)
    with s(2) \<tau> False show ?thesis by (auto simp: shrink_pos_Suc)
  qed
qed

lemma Kit_TruthStretch_eq:
  assumes "tt_wf n pOut" "tt_wf n pIn" and "rank Phase n = k"
  shows "\<exists>s \<tau>. Kit_TruthStretch pOut pIn k n Phase fReturnIn = return_tables n fReturnIn s \<and>
    sw_inv n pIn \<tau> s \<and> (\<forall>x. shrink_pos Phase n (\<tau> x) = x)"
proof -
  from Stretch_loop [OF assms(1,2), of 0 Phase] obtain s \<tau>
    where "for_down n (\<lambda>i (s, Var).
           if bit Phase i then (for_up (nat Var) i (swap_vars n) s, Var - 1) else (s, Var))
         (\<lparr>sw_out = pOut, sw_in = pIn, sw_Counter = 0\<rparr>, int k - 1) = (s, - 1)"
      and "sw_inv n pIn \<tau> s" and "\<forall>x y. y = \<tau> x \<longrightarrow> shrink_pos Phase n y = x"
    by (auto simp: for_down_def assms(3) shrink_pos_0)
  then show ?thesis unfolding Kit_TruthStretch_def mask_test by auto
qed

lemma remap_inverse:
  assumes "\<forall>x. \<sigma> (\<tau> x) = x" and "keeps_high n \<tau>" "keeps_high n \<sigma>" and m: "m < tt_size n"
  shows "remap n \<tau> (remap n \<sigma> m) = m"
proof (rule bit_eqI)
  fix i
  have hi: "\<not> bit m i" if "\<not> i < max n 5"
    using m that by (simp add: tt_high_bit)
  have "\<tau> i < max n 5" if "i < max n 5"
  proof (rule ccontr)
    assume "\<not> \<tau> i < max n 5"
    then have "n \<le> \<tau> i" by simp
    then have "\<sigma> (\<tau> i) = \<tau> i" using assms(3) by (simp add: keeps_high_def)
    with assms(1) \<open>\<not> \<tau> i < max n 5\<close> that show False by simp
  qed
  then show "bit (remap n \<tau> (remap n \<sigma> m)) i = bit m i"
    using hi assms(1) by (auto simp: bit_remap)
qed

section \<open>Permute\<close>

text \<open>
  The number of pairs out of order, which every swap of neighbours lowers by one: the bubble sort
  ends on every array.
\<close>

fun inversions :: "int list \<Rightarrow> nat" where
  "inversions [] = 0"
| "inversions (x # xs) = length (filter (\<lambda>y. y < x) xs) + inversions xs"

lemma inversions_swap: "b < a \<Longrightarrow> inversions (us @ a # b # vs) = Suc (inversions (us @ b # a # vs))"
  by (induction us) auto

lemma split_pair:
  assumes "Suc i < length xs"
  shows "xs = take i xs @ xs ! i # xs ! Suc i # drop (Suc (Suc i)) xs"
  using assms by (simp add: Cons_nth_drop_Suc)

lemma swap_pair_list:
  assumes "Suc i < length xs"
  shows "xs[i := xs ! Suc i, Suc i := xs ! i] = take i xs @ xs ! Suc i # xs ! i # drop (Suc (Suc i)) xs"
proof -
  have "(take i xs @ a # b # drop (Suc (Suc i)) xs)[i := b, Suc i := a] =
      take i xs @ b # a # drop (Suc (Suc i)) xs" for a b
    using assms by (simp add: list_update_append)
  then show ?thesis using split_pair [OF assms] by metis
qed

lemma inversions_step:
  assumes "Suc i < length xs" and "xs ! Suc i < xs ! i"
  shows "inversions (xs[i := xs ! Suc i, Suc i := xs ! i]) < inversions xs"
  unfolding swap_pair_list [OF assms(1)]
  by (subst (2) split_pair [OF assms(1)]) (simp add: inversions_swap [OF assms(2)])

text \<open>
  The invariant of the passes: the label of variable \<open>i\<close> of the original table stays with it.
\<close>

definition perm_inv :: "nat \<Rightarrow> truth \<Rightarrow> int list \<Rightarrow> swap_state \<times> int list \<Rightarrow> bool" where
  "perm_inv n p labels st \<longleftrightarrow> (case st of (s, pPerm) \<Rightarrow>
     length pPerm = n \<and> mset pPerm = mset labels \<and>
     (\<exists>\<tau>. sw_inv n p \<tau> s \<and> (\<forall>i < n. \<tau> i < n \<and> pPerm ! \<tau> i = labels ! i)))"

lemma perm_inv_step:
  assumes "perm_inv n p labels (s, pPerm)" and "Suc i < n"
  shows "perm_inv n p labels (swap_vars n i s, pPerm[i := pPerm ! Suc i, Suc i := pPerm ! i])"
proof -
  from assms(1) obtain \<tau> where len: "length pPerm = n" and ms: "mset pPerm = mset labels"
    and \<tau>: "sw_inv n p \<tau> s" "\<forall>i < n. \<tau> i < n \<and> pPerm ! \<tau> i = labels ! i"
    by (auto simp: perm_inv_def)
  have "sw_inv n p (tr i \<circ> \<tau>) (swap_vars n i s)" using \<tau>(1) assms(2) by (rule sw_inv_swap)
  moreover have "(tr i \<circ> \<tau>) j < n \<and> pPerm[i := pPerm ! Suc i, Suc i := pPerm ! i] ! (tr i \<circ> \<tau>) j = labels ! j"
    if "j < n" for j
    using \<tau>(2) that assms(2) len by (auto simp: tr_def nth_list_update)
  moreover have "mset (pPerm[i := pPerm ! Suc i, Suc i := pPerm ! i]) = mset labels"
    using ms assms(2) len by (simp add: mset_swap)
  ultimately show ?thesis using len by (auto simp: perm_inv_def)
qed

definition pass_inv :: "nat \<Rightarrow> truth \<Rightarrow> int list \<Rightarrow> int list \<Rightarrow> nat \<Rightarrow> (swap_state \<times> int list) \<times> bool \<Rightarrow> bool" where
  "pass_inv n p labels xs k st \<longleftrightarrow> (case st of ((s, pPerm), fChange) \<Rightarrow>
     perm_inv n p labels (s, pPerm) \<and>
     (if fChange then inversions pPerm < inversions xs
      else pPerm = xs \<and> (\<forall>i < k. xs ! i \<le> xs ! Suc i)))"

lemma permute_pass_inv:
  assumes "perm_inv n p labels (s, xs)"
  shows "pass_inv n p labels xs (n - 1) (permute_pass n (s, xs))"
  unfolding permute_pass_def
proof (rule for_up_invar [where P = "pass_inv n p labels xs"])
  show "pass_inv n p labels xs 0 ((s, xs), False)"
    using assms by (simp add: pass_inv_def)
next
  fix i and st :: "(swap_state \<times> int list) \<times> bool"
  assume i: "i < n - 1" and inv: "pass_inv n p labels xs i st"
  obtain s' ys c where st: "st = ((s', ys), c)" by (metis surj_pair)
  have ys: "perm_inv n p labels (s', ys)" and len: "Suc i < length ys"
    using inv i by (auto simp: pass_inv_def st perm_inv_def)
  have "perm_inv n p labels (swap_vars n i s', ys[i := ys ! Suc i, Suc i := ys ! i])"
    using ys i by (intro perm_inv_step) auto
  moreover have "inversions (ys[i := ys ! Suc i, Suc i := ys ! i]) < inversions ys" if "ys ! Suc i < ys ! i"
    using len that by (rule inversions_step)
  ultimately show "pass_inv n p labels xs (Suc i) (case st of (x, xa) \<Rightarrow> (case x of (s, pPerm) \<Rightarrow> \<lambda>fChange.
      if pPerm ! i \<le> pPerm ! (i + 1) then ((s, pPerm), fChange)
      else ((swap_vars n i s, pPerm[i := pPerm ! (i + 1), i + 1 := pPerm ! i]), True)) xa)"
    using inv by (auto simp: pass_inv_def st less_Suc_eq split: if_splits)
qed simp

lemma Kit_TruthPermute_returns:
  assumes wf: "tt_wf n pOut" "tt_wf n pIn" and len: "length pPerm = n"
  shows "\<exists>s xs. Kit_TruthPermute pOut pIn n pPerm fReturnIn = Some (return_tables n fReturnIn s, xs) \<and>
    perm_inv n pIn pPerm (s, xs) \<and> sorted xs"
proof -
  let ?b = "snd :: (swap_state \<times> int list) \<times> bool \<Rightarrow> bool"
  let ?c = "\<lambda>(st, fChange). permute_pass n st" and ?P = "\<lambda>((s, xs), c).
    perm_inv n pIn pPerm (s, xs) \<and> (\<not> c \<longrightarrow> sorted xs)"
  let ?f = "\<lambda>((s, xs), c). 2 * inversions xs + of_bool c"
  let ?s0 = "permute_pass n (\<lparr>sw_out = pOut, sw_in = pIn, sw_Counter = 0\<rparr>, pPerm)"
  have pass: "?P (permute_pass n st) \<and> (snd (permute_pass n st) \<longrightarrow> inversions (snd (fst (permute_pass n st))) < inversions (snd st))
      \<and> (\<not> snd (permute_pass n st) \<longrightarrow> snd (fst (permute_pass n st)) = snd st)"
    if "perm_inv n pIn pPerm st" for st
    using permute_pass_inv [of n pIn pPerm "fst st" "snd st"] that
    by (auto simp: pass_inv_def sorted_iff_nth_Suc perm_inv_def split: if_splits)
  have init: "perm_inv n pIn pPerm (\<lparr>sw_out = pOut, sw_in = pIn, sw_Counter = 0\<rparr>, pPerm)"
    using sw_inv_init [OF wf] len by (auto simp: perm_inv_def)
  have step: "?P (?c t) \<and> ?f (?c t) < ?f t" if "?P t" "?b t" for t
    using pass [of "fst t"] that by (auto split: prod.splits)
  obtain t where t: "while_option ?b ?c ?s0 = Some t"
    using measure_while_option_Some [of ?P ?b ?c ?f ?s0, OF step] pass [OF init] by auto
  have "?P t" by (rule while_option_rule [OF _ t]) (use step pass [OF init] in auto)
  moreover have "\<not> ?b t" using t by (rule while_option_stop)
  ultimately show ?thesis
    using t by (auto simp: Kit_TruthPermute_def split: prod.splits)
qed

definition perm_pos :: "nat \<Rightarrow> int list \<Rightarrow> nat \<Rightarrow> nat" where
  "perm_pos n pPerm i = (if i < n then nat (pPerm ! i) else i)"

lemma Kit_TruthPermute_moves:
  assumes wf: "tt_wf n pOut" "tt_wf n pIn" and perm: "mset pPerm = mset (map int [0..<n])"
  shows "\<exists>out inn. Kit_TruthPermute pOut pIn n pPerm fReturnIn = Some ((out, inn), map int [0..<n]) \<and>
    tt_wf n out \<and> tt_wf n inn \<and>
    (\<forall>m < tt_size n. tt_bit (if fReturnIn then inn else out) m = tt_bit pIn (remap n (perm_pos n pPerm) m))"
proof -
  have len: "length pPerm = n" using perm by (metis length_map length_upt mset_eq_length minus_nat.diff_0)
  from Kit_TruthPermute_returns [OF wf len, of fReturnIn] obtain s xs \<tau>
    where r: "Kit_TruthPermute pOut pIn n pPerm fReturnIn = Some (return_tables n fReturnIn s, xs)"
      and ms: "mset xs = mset pPerm" and "sorted xs"
      and \<tau>: "sw_inv n pIn \<tau> s" "\<forall>i < n. \<tau> i < n \<and> xs ! \<tau> i = pPerm ! i"
    by (auto simp: perm_inv_def)
  have "sorted (map int [0..<n])" by (simp add: sorted_map)
  then have xs: "xs = map int [0..<n]"
    using ms perm \<open>sorted xs\<close> by (metis properties_for_sort)
  have "\<tau> = perm_pos n pPerm"
    using \<tau> by (auto simp: fun_eq_iff perm_pos_def xs sw_inv_def keeps_high_def)
  obtain out inn where o: "return_tables n fReturnIn s = (out, inn)" by (metis surj_pair)
  have "0 < tt_size n" by (simp add: tt_size_eq)
  then show ?thesis
    using return_tables_spec [OF \<tau>(1) o] r xs o \<open>\<tau> = perm_pos n pPerm\<close> by auto
qed

lemma Kit_TruthShrink_moves:
  assumes wf: "tt_wf n pOut" "tt_wf n pIn" and r: "Kit_TruthShrink pOut pIn k n Phase fReturnIn = (out, inn)"
    and m: "m < tt_size n"
  shows "tt_wf n out \<and> tt_wf n inn \<and>
    tt_bit (if fReturnIn then inn else out) m = tt_bit pIn (remap n (shrink_pos Phase n) m)"
proof -
  obtain s where "return_tables n fReturnIn s = (out, inn)" "sw_inv n pIn (shrink_pos Phase n) s"
    using Kit_TruthShrink_eq [OF wf, of k Phase fReturnIn] r by auto
  then show ?thesis using return_tables_spec m by blast
qed

text \<open>The positions after shrinking can be undone, so the minterms are only renamed.\<close>

lemma shrink_remap_inverse:
  assumes "m < tt_size n" "m' < tt_size n" "remap n (shrink_pos Phase n) m = remap n (shrink_pos Phase n) m'"
  shows "m = m'"
proof -
  obtain p :: truth where "tt_wf n p" by (meson Ex_list_of_length tt_wf_def)
  then obtain \<tau> s where "sw_inv n p \<tau> s" "\<forall>x. shrink_pos Phase n (\<tau> x) = x"
    using Kit_TruthStretch_eq [of n p p Phase] by blast
  then have "remap n \<tau> (remap n (shrink_pos Phase n) k) = k" if "k < tt_size n" for k
    using that by (intro remap_inverse) (auto simp: sw_inv_def keeps_high_def shrink_pos_keeps)
  then show ?thesis using assms by metis
qed

lemma Kit_TruthStretch_moves:
  assumes wf: "tt_wf n pOut" "tt_wf n pIn" and k: "rank Phase n = k"
    and r: "Kit_TruthStretch pOut pIn k n Phase fReturnIn = (out, inn)" and m: "m < tt_size n"
  shows "tt_wf n out \<and> tt_wf n inn \<and>
    tt_bit (if fReturnIn then inn else out) (remap n (shrink_pos Phase n) m) = tt_bit pIn m"
proof -
  obtain s \<tau> where s: "return_tables n fReturnIn s = (out, inn)" "sw_inv n pIn \<tau> s"
    "\<forall>x. shrink_pos Phase n (\<tau> x) = x"
    using Kit_TruthStretch_eq [OF wf k, of fReturnIn] r by auto
  have "remap n \<tau> (remap n (shrink_pos Phase n) m) = m"
    using s(2,3) m by (intro remap_inverse) (auto simp: sw_inv_def keeps_high_def shrink_pos_keeps)
  then show ?thesis
    using return_tables_spec [OF s(2,1) remap_less, of "shrink_pos Phase n" m] by simp
qed

end
