(* ===== verification/Kit_Count.thy ===== *)
theory Kit_Count
  imports Kit_Support
begin

text \<open>
  Counting operations of \<open>kitTruth.c\<close>: ones of a table, of a cofactor, of a Boolean difference, the
  counts of all cofactors in one pass with the slow version that the source keeps to verify it.
  Counters are C \<open>int\<close>s that stay below \<open>2 ^ 31\<close> for the tables that fit in memory, and are
  natural numbers here.
\<close>

section \<open>The model\<close>

definition Kit_TruthCofactor0Count :: "truth \<Rightarrow> nat \<Rightarrow> nat \<Rightarrow> nat" where
  "Kit_TruthCofactor0Count pTruth nVars iVar =
    (let nWords = Kit_TruthWordNum nVars in
     if iVar = 0 then for_up 0 nWords (\<lambda>i Counter. Counter + Kit_WordCountOnes (pTruth ! i AND 0x55555555)) 0
     else if iVar = 1 then for_up 0 nWords (\<lambda>i Counter. Counter + Kit_WordCountOnes (pTruth ! i AND 0x33333333)) 0
     else if iVar = 2 then for_up 0 nWords (\<lambda>i Counter. Counter + Kit_WordCountOnes (pTruth ! i AND 0x0F0F0F0F)) 0
     else if iVar = 3 then for_up 0 nWords (\<lambda>i Counter. Counter + Kit_WordCountOnes (pTruth ! i AND 0x00FF00FF)) 0
     else if iVar = 4 then for_up 0 nWords (\<lambda>i Counter. Counter + Kit_WordCountOnes (pTruth ! i AND 0x0000FFFF)) 0
     else let Step = 2 ^ (iVar - 5) in
       for_stride nWords (2 * Step) (\<lambda>k. for_up 0 Step (\<lambda>i Counter.
         Counter + Kit_WordCountOnes (pTruth ! (k + i)))) 0)"

definition Kit_TruthBooleanDiffCount :: "truth \<Rightarrow> nat \<Rightarrow> nat \<Rightarrow> nat" where
  "Kit_TruthBooleanDiffCount pTruth nVars iVar =
    (let nWords = Kit_TruthWordNum nVars in
     if iVar = 0 then for_up 0 nWords
       (\<lambda>i Counter. Counter + Kit_WordCountOnes ((pTruth ! i XOR drop_bit 1 (pTruth ! i)) AND 0x55555555)) 0
     else if iVar = 1 then for_up 0 nWords
       (\<lambda>i Counter. Counter + Kit_WordCountOnes ((pTruth ! i XOR drop_bit 2 (pTruth ! i)) AND 0x33333333)) 0
     else if iVar = 2 then for_up 0 nWords
       (\<lambda>i Counter. Counter + Kit_WordCountOnes ((pTruth ! i XOR drop_bit 4 (pTruth ! i)) AND 0x0F0F0F0F)) 0
     else if iVar = 3 then for_up 0 nWords
       (\<lambda>i Counter. Counter + Kit_WordCountOnes ((pTruth ! i XOR drop_bit 8 (pTruth ! i)) AND 0x00FF00FF)) 0
     else if iVar = 4 then for_up 0 nWords
       (\<lambda>i Counter. Counter + Kit_WordCountOnes ((pTruth ! i XOR drop_bit 16 (pTruth ! i)) AND 0x0000FFFF)) 0
     else let Step = 2 ^ (iVar - 5) in
       for_stride nWords (2 * Step) (\<lambda>k. for_up 0 Step (\<lambda>i Counter.
         Counter + Kit_WordCountOnes (pTruth ! (k + i) XOR pTruth ! (k + i + Step)))) 0)"

definition Kit_TruthXorCount :: "truth \<Rightarrow> truth \<Rightarrow> nat \<Rightarrow> nat" where
  "Kit_TruthXorCount pTruth0 pTruth1 nVars =
     for_up 0 (Kit_TruthWordNum nVars)
       (\<lambda>i Counter. Counter + Kit_WordCountOnes (pTruth0 ! i XOR pTruth1 ! i)) 0"

text \<open>\<open>pStore[i] += c\<close>.\<close>

definition add_at :: "nat \<Rightarrow> nat \<Rightarrow> nat list \<Rightarrow> nat list" where
  "add_at i c pStore = pStore[i := pStore ! i + c]"

text \<open>
  \<open>Kit_TruthCountOnesInCofs\<close>. The branch for at most five variables, the loop over the upper
  variables and the body of the loop over pairs of words (\<open>w0\<close> and \<open>w1\<close> are \<open>pTruth[0]\<close> and
  \<open>pTruth[1]\<close> after \<open>k\<close> steps of \<open>pTruth += 2\<close>).
\<close>

definition ones_in_cofs_small :: "u32 \<Rightarrow> nat \<Rightarrow> nat list \<Rightarrow> nat list" where
  "ones_in_cofs_small w nVars pStore =
    (let pStore = (if nVars > 0 then pStore[0 := Kit_WordCountOnes (w AND 0x55555555),
                     1 := Kit_WordCountOnes (w AND 0xAAAAAAAA)] else pStore);
         pStore = (if nVars > 1 then pStore[2 := Kit_WordCountOnes (w AND 0x33333333),
                     3 := Kit_WordCountOnes (w AND 0xCCCCCCCC)] else pStore);
         pStore = (if nVars > 2 then pStore[4 := Kit_WordCountOnes (w AND 0x0F0F0F0F),
                     5 := Kit_WordCountOnes (w AND 0xF0F0F0F0)] else pStore);
         pStore = (if nVars > 3 then pStore[6 := Kit_WordCountOnes (w AND 0x00FF00FF),
                     7 := Kit_WordCountOnes (w AND 0xFF00FF00)] else pStore);
         pStore = (if nVars > 4 then pStore[8 := Kit_WordCountOnes (w AND 0x0000FFFF),
                     9 := Kit_WordCountOnes (w AND 0xFFFF0000)] else pStore)
     in pStore)"

definition ones_in_cofs_pair :: "u32 \<Rightarrow> u32 \<Rightarrow> nat list \<Rightarrow> nat list" where
  "ones_in_cofs_pair w0 w1 pStore =
    (let pStore = add_at 0 (Kit_WordCountOnes ((w0 AND 0x55555555) OR push_bit 1 (w1 AND 0x55555555))) pStore;
         pStore = add_at 1 (Kit_WordCountOnes ((w0 AND 0xAAAAAAAA) OR drop_bit 1 (w1 AND 0xAAAAAAAA))) pStore;
         pStore = add_at 2 (Kit_WordCountOnes ((w0 AND 0x33333333) OR push_bit 2 (w1 AND 0x33333333))) pStore;
         pStore = add_at 3 (Kit_WordCountOnes ((w0 AND 0xCCCCCCCC) OR drop_bit 2 (w1 AND 0xCCCCCCCC))) pStore;
         pStore = add_at 4 (Kit_WordCountOnes ((w0 AND 0x0F0F0F0F) OR push_bit 4 (w1 AND 0x0F0F0F0F))) pStore;
         pStore = add_at 5 (Kit_WordCountOnes ((w0 AND 0xF0F0F0F0) OR drop_bit 4 (w1 AND 0xF0F0F0F0))) pStore;
         pStore = add_at 6 (Kit_WordCountOnes ((w0 AND 0x00FF00FF) OR push_bit 8 (w1 AND 0x00FF00FF))) pStore;
         pStore = add_at 7 (Kit_WordCountOnes ((w0 AND 0xFF00FF00) OR drop_bit 8 (w1 AND 0xFF00FF00))) pStore;
         pStore = add_at 8 (Kit_WordCountOnes ((w0 AND 0x0000FFFF) OR push_bit 16 (w1 AND 0x0000FFFF))) pStore;
         pStore = add_at 9 (Kit_WordCountOnes ((w0 AND 0xFFFF0000) OR drop_bit 16 (w1 AND 0xFFFF0000))) pStore
     in pStore)"

definition Kit_TruthCountOnesInCofs :: "truth \<Rightarrow> nat \<Rightarrow> nat list \<Rightarrow> nat list" where
  "Kit_TruthCountOnesInCofs pTruth nVars pStore =
    (let nWords = Kit_TruthWordNum nVars;
         pStore = for_up 0 (2 * nVars) (\<lambda>i pStore. pStore[i := 0]) pStore
     in if nVars \<le> 5 then ones_in_cofs_small (pTruth ! 0) nVars pStore
        else
          let pStore = for_up 0 nWords (\<lambda>k pStore.
                let Counter = Kit_WordCountOnes (pTruth ! k) in
                for_up 5 nVars (\<lambda>i pStore.
                  if k AND push_bit (i - 5) 1 \<noteq> 0 then add_at (2 * i + 1) Counter pStore
                  else add_at (2 * i + 0) Counter pStore) pStore) pStore
          in for_up 0 (nWords div 2)
               (\<lambda>k. ones_in_cofs_pair (pTruth ! (2 * k)) (pTruth ! (2 * k + 1))) pStore)"

definition ones_in_cofs0_pair :: "u32 \<Rightarrow> u32 \<Rightarrow> nat list \<Rightarrow> nat list" where
  "ones_in_cofs0_pair w0 w1 pStore =
    (let pStore = add_at 0 (Kit_WordCountOnes ((w0 AND 0x55555555) OR push_bit 1 (w1 AND 0x55555555))) pStore;
         pStore = add_at 1 (Kit_WordCountOnes ((w0 AND 0x33333333) OR push_bit 2 (w1 AND 0x33333333))) pStore;
         pStore = add_at 2 (Kit_WordCountOnes ((w0 AND 0x0F0F0F0F) OR push_bit 4 (w1 AND 0x0F0F0F0F))) pStore;
         pStore = add_at 3 (Kit_WordCountOnes ((w0 AND 0x00FF00FF) OR push_bit 8 (w1 AND 0x00FF00FF))) pStore;
         pStore = add_at 4 (Kit_WordCountOnes ((w0 AND 0x0000FFFF) OR push_bit 16 (w1 AND 0x0000FFFF))) pStore
     in pStore)"

definition Kit_TruthCountOnesInCofs0 :: "truth \<Rightarrow> nat \<Rightarrow> nat list \<Rightarrow> nat list" where
  "Kit_TruthCountOnesInCofs0 pTruth nVars pStore =
    (let nWords = Kit_TruthWordNum nVars;
         pStore = for_up 0 nVars (\<lambda>i pStore. pStore[i := 0]) pStore
     in if nVars \<le> 5 then
          let w = pTruth ! 0;
              pStore = (if nVars > 0 then pStore[0 := Kit_WordCountOnes (w AND 0x55555555)] else pStore);
              pStore = (if nVars > 1 then pStore[1 := Kit_WordCountOnes (w AND 0x33333333)] else pStore);
              pStore = (if nVars > 2 then pStore[2 := Kit_WordCountOnes (w AND 0x0F0F0F0F)] else pStore);
              pStore = (if nVars > 3 then pStore[3 := Kit_WordCountOnes (w AND 0x00FF00FF)] else pStore);
              pStore = (if nVars > 4 then pStore[4 := Kit_WordCountOnes (w AND 0x0000FFFF)] else pStore)
          in pStore
        else
          let pStore = for_up 0 nWords (\<lambda>k pStore.
                let Counter = Kit_WordCountOnes (pTruth ! k) in
                for_up 5 nVars (\<lambda>i pStore.
                  if k AND push_bit (i - 5) 1 = 0 then add_at i Counter pStore else pStore) pStore) pStore
          in for_up 0 (nWords div 2)
               (\<lambda>k. ones_in_cofs0_pair (pTruth ! (2 * k)) (pTruth ! (2 * k + 1))) pStore)"

definition Kit_TruthCountOnesInCofsSlow :: "truth \<Rightarrow> nat \<Rightarrow> nat list \<Rightarrow> truth \<Rightarrow> nat list \<times> truth" where
  "Kit_TruthCountOnesInCofsSlow pTruth nVars pStore pAux =
    for_up 0 nVars (\<lambda>i (pStore, pAux).
      let pAux = Kit_TruthCofactor0New pAux pTruth nVars i;
          pStore = pStore[2 * i + 0 := Kit_TruthCountOnes pAux nVars div 2];
          pAux = Kit_TruthCofactor1New pAux pTruth nVars i;
          pStore = pStore[2 * i + 1 := Kit_TruthCountOnes pAux nVars div 2]
      in (pStore, pAux)) (pStore, pAux)"

section \<open>Counting minterms\<close>

definition minterm_count :: "nat \<Rightarrow> (nat \<Rightarrow> bool) \<Rightarrow> nat" where
  "minterm_count n P = card {m. m < tt_size n \<and> P m}"

lemma for_up_sum: "for_up 0 n (\<lambda>i c. c + g i) a = a + (\<Sum>i<n. g i)" for a :: nat
  by (induction n) (simp_all add: for_up_Suc)

lemma fold_sum: "distinct xs \<Longrightarrow> fold (\<lambda>i c. c + g i) xs a = a + (\<Sum>i\<in>set xs. g i)" for a :: nat
  by (induction xs arbitrary: a) (simp_all add: add.assoc)

lemma for_down_sum: "for_down n (\<lambda>i c. c + g i) a = a + (\<Sum>i<n. g i)" for a :: nat
  unfolding for_down_def by (subst fold_sum) (auto simp: atLeast0LessThan)

lemma sum_popcount:
  "(\<Sum>w<N. word_ones (f w)) = card {m. m < 32 * N \<and> bit (f (m div 32)) (m mod 32)}"
proof (induction N)
  case 0
  then show ?case by simp
next
  case (Suc N)
  let ?P = "\<lambda>m. bit (f (m div 32)) (m mod 32)"
  have "{m. m < 32 * Suc N \<and> ?P m} = {m. m < 32 * N \<and> ?P m} \<union> (\<lambda>b. 32 * N + b) ` {b. b < 32 \<and> bit (f N) b}"
    (is "?l = ?r1 \<union> ?r2")
  proof (intro set_eqI iffI)
    fix m assume m: "m \<in> ?l"
    show "m \<in> ?r1 \<union> ?r2"
    proof (cases "m < 32 * N")
      case False
      then have "m div 32 = N" using m by auto
      moreover have "m = 32 * (m div 32) + m mod 32" by simp
      ultimately show ?thesis using m by (intro UnI2 image_eqI [of _ _ "m mod 32"]) simp_all
    qed (use m in auto)
  qed auto
  moreover have "?r1 \<inter> ?r2 = {}" by auto
  moreover have "card ?r2 = word_ones (f N)"
    unfolding word_ones_def by (rule card_image) (simp add: inj_on_def)
  ultimately show ?case
    using Suc by (simp add: card_Un_disjoint)
qed

lemma sum_popcount_count:
  "(\<Sum>w<Kit_TruthWordNum n. word_ones (f w)) = minterm_count n (\<lambda>m. bit (f (m div 32)) (m mod 32))"
  by (simp add: sum_popcount minterm_count_def tt_size_def)

lemma minterm_count_cong: "(\<And>m. m < tt_size n \<Longrightarrow> P m = Q m) \<Longrightarrow> minterm_count n P = minterm_count n Q"
  unfolding minterm_count_def by (rule arg_cong [where f = card]) auto

lemma Kit_TruthCountOnes_count: "Kit_TruthCountOnes p n = minterm_count n (tt_bit p)"
  by (simp add: Kit_TruthCountOnes_def Kit_WordCountOnes_popcount for_down_sum sum_popcount_count
      tt_bit_def [abs_def])

lemma Kit_TruthXorCount_count: "Kit_TruthXorCount p q n = minterm_count n (\<lambda>m. tt_bit p m \<noteq> tt_bit q m)"
  by (simp add: Kit_TruthXorCount_def Kit_WordCountOnes_popcount for_up_sum sum_popcount_count
      tt_bit_def bit_xor_iff)

text \<open>The sum over the lower words of all pairs.\<close>

lemma lower_words_sum:
  assumes v: "5 \<le> v" "v < n"
  shows "for_stride (Kit_TruthWordNum n) (2 * 2 ^ (v - 5))
      (\<lambda>k. for_up 0 (2 ^ (v - 5)) (\<lambda>i c. c + Kit_WordCountOnes (g (k + i)))) 0 =
    minterm_count n (\<lambda>m. \<not> bit m v \<and> bit (g (m div 32)) (m mod 32))"
proof -
  let ?N = "Kit_TruthWordNum n" and ?d = "2 * 2 ^ (v - 5) :: nat"
  have "for_stride ?N ?d (\<lambda>k. for_up 0 (2 ^ (v - 5)) (\<lambda>i c. c + Kit_WordCountOnes (g (k + i)))) 0 =
      (\<Sum>w\<in>{w. w < ?N \<and> \<not> bit w (v - 5)}. word_ones (g w))"
    using for_stride_block [OF stride_dvd_words [OF v], of "2 ^ (v - 5)" "\<lambda>j c. c + word_ones (g j)" 0]
      fold_sum [OF distinct_block_idx [OF stride_dvd_words [OF v]], of "2 ^ (v - 5)" "\<lambda>j. word_ones (g j)" 0]
    by (simp add: Kit_WordCountOnes_popcount lower_words [OF v])
  also have "\<dots> = (\<Sum>w<?N. word_ones (if bit w (v - 5) then 0 else g w))"
    by (rule sum.mono_neutral_cong_left) (auto simp: word_ones_def)
  also have "\<dots> = minterm_count n (\<lambda>m. \<not> bit m v \<and> bit (g (m div 32)) (m mod 32))"
    unfolding sum_popcount_count by (rule minterm_count_cong) (simp add: minterm_high_bit [OF v(1)])
  finally show ?thesis .
qed

lemma Kit_TruthCofactor0Count_count:
  assumes "v < n"
  shows "Kit_TruthCofactor0Count p n v = minterm_count n (\<lambda>m. tt_bit p m \<and> \<not> bit m v)"
proof (cases "v < 5")
  case True
  have "Kit_TruthCofactor0Count p n v =
      for_up 0 (Kit_TruthWordNum n) (\<lambda>i c. c + Kit_WordCountOnes (p ! i AND lo_mask v)) 0"
    using less_5_cases [OF True] by (elim disjE) (simp_all add: Kit_TruthCofactor0Count_def lo_mask_def)
  then show ?thesis
    using True unfolding Kit_WordCountOnes_popcount for_up_sum sum_popcount_count
    by (auto intro!: minterm_count_cong simp: word_var_simps tt_bit_def)
next
  case False
  then show ?thesis
    using lower_words_sum [of v n "(!) p"] assms
    by (auto intro!: minterm_count_cong simp: Kit_TruthCofactor0Count_def tt_bit_def)
qed

lemma Kit_TruthBooleanDiffCount_count:
  assumes "v < n"
  shows "Kit_TruthBooleanDiffCount p n v =
    minterm_count n (\<lambda>m. \<not> bit m v \<and> tt_bit p m \<noteq> tt_bit p (set_bit v m))"
proof (cases "v < 5")
  case True
  have "Kit_TruthBooleanDiffCount p n v =
      for_up 0 (Kit_TruthWordNum n) (\<lambda>i c. c + Kit_WordCountOnes ((p ! i XOR drop_bit (2 ^ v) (p ! i)) AND lo_mask v)) 0"
    using less_5_cases [OF True] by (elim disjE) (simp_all add: Kit_TruthBooleanDiffCount_def lo_mask_def)
  also have "\<dots> = minterm_count n (\<lambda>m. bit ((p ! (m div 32) XOR drop_bit (2 ^ v) (p ! (m div 32))) AND lo_mask v) (m mod 32))"
    unfolding Kit_WordCountOnes_popcount for_up_sum sum_popcount_count by simp
  also have "\<dots> = minterm_count n (\<lambda>m. \<not> bit m v \<and> tt_bit p m \<noteq> tt_bit p (set_bit v m))"
  proof (rule minterm_count_cong)
    fix m
    show "bit ((p ! (m div 32) XOR drop_bit (2 ^ v) (p ! (m div 32))) AND lo_mask v) (m mod 32) =
        (\<not> bit m v \<and> tt_bit p m \<noteq> tt_bit p (set_bit v m))"
      using True by (cases "bit m v")
        (simp_all add: bit_and_iff bit_xor_iff bit_shr bit_lo_mask tt_bit_def minterm_low minterm_low_bit del: bit_drop_bit_eq)
  qed
  finally show ?thesis .
next
  case False
  then have v: "5 \<le> v" by simp
  show ?thesis
    using lower_words_sum [OF v assms, of "\<lambda>j. p ! j XOR p ! (j + 2 ^ (v - 5))"] False
    by (auto intro!: minterm_count_cong simp: Kit_TruthBooleanDiffCount_def tt_bit_def bit_xor_iff
        minterm_high [OF v] nat_set_bit_clear minterm_high_bit [OF v] Let_def)
qed

section \<open>All cofactors in one pass\<close>

lemma popcount_or:
  assumes "\<And>b. b < 32 \<Longrightarrow> \<not> (bit x b \<and> bit y b)"
  shows "word_ones (x OR y) = word_ones x + word_ones y"
proof -
  have "{i. i < 32 \<and> bit (x OR y) i} = {i. i < 32 \<and> bit x i} \<union> {i. i < 32 \<and> bit y i}"
    by (auto simp: bit_or_iff)
  moreover have "{i. i < 32 \<and> bit x i} \<inter> {i. i < 32 \<and> bit y i} = {}" using assms by auto
  ultimately show ?thesis by (simp add: word_ones_def card_Un_disjoint)
qed

lemma set_unset_index: "unset_bit v (set_bit v m) = unset_bit v (m::nat)"
  by (rule bit_eqI) (auto simp: bit_simps)

lemma word_index_less:
  fixes i :: nat
  shows "v < 5 \<Longrightarrow> i < 32 \<Longrightarrow> set_bit v i < 32" "i < 32 \<Longrightarrow> unset_bit v i < 32"
  using nat_set_bit_less [of v 5 i] nat_unset_bit_less [of i 5 v] by simp_all

lemma popcount_shift:
  assumes "v < 5"
  shows "word_ones (push_bit (2 ^ v) (x AND lo_mask v)) = word_ones (x AND lo_mask v)"
    "word_ones (drop_bit (2 ^ v) (x AND hi_mask v)) = word_ones (x AND hi_mask v)"
proof -
  let ?L = "{i. i < 32 \<and> bit i v \<and> bit x (unset_bit v i)}" and ?H = "{i. i < 32 \<and> \<not> bit i v \<and> bit x (set_bit v i)}"
  have "{i. i < 32 \<and> bit (push_bit (2 ^ v) (x AND lo_mask v)) i} = ?L"
    "{i. i < 32 \<and> bit (drop_bit (2 ^ v) (x AND hi_mask v)) i} = ?H"
    using assms bit_shl_lo [of v _ x] bit_shr_hi [of v _ x] by blast+
  moreover have "bij_betw (unset_bit v) ?L {i. i < 32 \<and> bit (x AND lo_mask v) i}"
    by (rule bij_betw_byWitness [where f' = "set_bit v"])
      (use assms in \<open>auto simp: word_index_less bit_and_iff bit_lo_mask set_unset_index unset_set_index
        bit_set_bit_iff bit_unset_bit_iff\<close>)
  moreover have "bij_betw (set_bit v) ?H {i. i < 32 \<and> bit (x AND hi_mask v) i}"
    by (rule bij_betw_byWitness [where f' = "unset_bit v"])
      (use assms in \<open>auto simp: word_index_less bit_and_iff bit_hi_mask set_unset_index unset_set_index
        bit_set_bit_iff bit_unset_bit_iff\<close>)
  ultimately show "word_ones (push_bit (2 ^ v) (x AND lo_mask v)) = word_ones (x AND lo_mask v)"
    "word_ones (drop_bit (2 ^ v) (x AND hi_mask v)) = word_ones (x AND hi_mask v)"
    unfolding word_ones_def by (simp_all only: bij_betw_same_card)
qed

lemma popcount_pair:
  assumes "v < 5"
  shows "word_ones ((x AND lo_mask v) OR push_bit (2 ^ v) (y AND lo_mask v)) =
      word_ones (x AND lo_mask v) + word_ones (y AND lo_mask v)"
    "word_ones ((x AND hi_mask v) OR drop_bit (2 ^ v) (y AND hi_mask v)) =
      word_ones (x AND hi_mask v) + word_ones (y AND hi_mask v)"
proof -
  have "\<not> (bit (x AND lo_mask v) b \<and> bit (push_bit (2 ^ v) (y AND lo_mask v)) b)"
    "\<not> (bit (x AND hi_mask v) b \<and> bit (drop_bit (2 ^ v) (y AND hi_mask v)) b)" if "b < 32" for b
    unfolding bit_shl_lo [OF assms that] bit_shr_hi [OF assms that]
    using assms by (auto simp: bit_and_iff bit_lo_mask bit_hi_mask)
  then show "word_ones ((x AND lo_mask v) OR push_bit (2 ^ v) (y AND lo_mask v)) =
      word_ones (x AND lo_mask v) + word_ones (y AND lo_mask v)"
    "word_ones ((x AND hi_mask v) OR drop_bit (2 ^ v) (y AND hi_mask v)) =
      word_ones (x AND hi_mask v) + word_ones (y AND hi_mask v)"
    using popcount_or popcount_shift [OF assms] by metis+
qed

text \<open>A loop that adds \<open>g k\<close> to one entry in iteration \<open>k\<close>.\<close>

lemma loop_add_nth:
  assumes "\<And>k s. k < N \<Longrightarrow> length s = l \<Longrightarrow> f k s ! j = s ! j + (g k :: nat)"
    and "\<And>k s. length (f k s) = length s" and "length s = l"
  shows "for_up 0 N f s ! j = s ! j + (\<Sum>k<N. g k) \<and> length (for_up 0 N f s) = l"
  using assms by (induction N) (simp_all add: for_up_Suc)

lemma sum_pairs: "(\<Sum>k<N. g (2 * k) + g (Suc (2 * k))) = (\<Sum>w<2 * N. g w)" for g :: "nat \<Rightarrow> nat"
  by (induction N) simp_all

lemma length_add_at [simp]: "length (add_at i c s) = length s"
  by (simp add: add_at_def)

lemma nth_add_at: "j < length s \<Longrightarrow> add_at i c s ! j = s ! j + (if i = j then c else 0)"
  by (simp add: add_at_def nth_list_update)

lemma length_ones_in_cofs_pair [simp]: "length (ones_in_cofs_pair w0 w1 s) = length s"
  by (simp add: ones_in_cofs_pair_def Let_def)

definition half_mask :: "bool \<Rightarrow> nat \<Rightarrow> u32" where
  "half_mask c v = (if c then hi_mask v else lo_mask v)"

lemma bit_half_mask: "v < 5 \<Longrightarrow> bit (half_mask c v) b \<longleftrightarrow> b < 32 \<and> bit b v = c"
  by (auto simp: half_mask_def bit_lo_mask bit_hi_mask)

lemma ones_in_cofs_pair_nth:
  assumes "10 \<le> length s" and "j < length s"
  shows "ones_in_cofs_pair w0 w1 s ! j = s ! j + (if j < 10 then
    word_ones (w0 AND half_mask (odd j) (j div 2)) + word_ones (w1 AND half_mask (odd j) (j div 2)) else 0)"
proof -
  note pair = popcount_pair [of 0 w0 w1] popcount_pair [of 1 w0 w1] popcount_pair [of 2 w0 w1]
    popcount_pair [of 3 w0 w1] popcount_pair [of 4 w0 w1]
  consider "10 \<le> j" | "j < 10" by linarith
  then show ?thesis
  proof cases
    case 1
    then show ?thesis using assms by (simp add: ones_in_cofs_pair_def Let_def nth_add_at)
  next
    case 2
    then have "j div 2 < 5" by simp
    from less_5_cases [OF this] have "j \<in> {0, 1} \<or> j \<in> {2, 3} \<or> j \<in> {4, 5} \<or> j \<in> {6, 7} \<or> j \<in> {8, 9}"
      by (simp only: insert_iff empty_iff) arith
    then show ?thesis
      using assms pair
      by (elim disjE insertE emptyE) (simp_all add: ones_in_cofs_pair_def Let_def nth_add_at half_mask_def
          Kit_WordCountOnes_popcount lo_mask_def hi_mask_def)
  qed
qed

lemma length_upper_counts [simp]:
  "length (for_up 5 n (\<lambda>i s. if P i then add_at (f i) c s else add_at (g i) c s) s) = length s"
  unfolding for_up_def by (rule length_fold_keeps) simp

lemma upper_counts:
  assumes "j < length s" and "5 \<le> n"
  shows "for_up 5 n (\<lambda>i s. if bit (k::nat) (i - 5) then add_at (2 * i + 1) c s else add_at (2 * i + 0) c s) s ! j =
      s ! j + (if 10 \<le> j \<and> j < 2 * n \<and> bit k (j div 2 - 5) = odd j then c else 0)"
  using assms(2)
proof (induction n rule: dec_induct)
  case base
  then show ?case by simp
next
  case (step n)
  have "j < 2 * Suc n \<longleftrightarrow> j < 2 * n \<or> j = 2 * n \<or> j = 2 * n + 1" by arith
  then show ?case
    using step assms(1) by (auto simp: for_up_Suc nth_add_at)
qed

lemma word_count_half:
  assumes "v < 5"
  shows "(\<Sum>w<Kit_TruthWordNum n. word_ones (p ! w AND half_mask c v)) =
    minterm_count n (\<lambda>m. tt_bit p m \<and> bit m v = c)"
  unfolding sum_popcount_count using assms
  by (intro minterm_count_cong) (auto simp: bit_and_iff bit_half_mask tt_bit_def minterm_low_bit)

lemma word_count_upper:
  assumes "5 \<le> v"
  shows "(\<Sum>w<Kit_TruthWordNum n. if bit w (v - 5) = c then word_ones (p ! w) else 0) =
    minterm_count n (\<lambda>m. tt_bit p m \<and> bit m v = c)"
proof -
  have "(\<Sum>w<Kit_TruthWordNum n. if bit w (v - 5) = c then word_ones (p ! w) else 0) =
      (\<Sum>w<Kit_TruthWordNum n. word_ones (if bit w (v - 5) = c then p ! w else 0))"
    by (intro sum.cong) (auto simp: word_ones_def)
  also have "\<dots> = minterm_count n (\<lambda>m. tt_bit p m \<and> bit m v = c)"
    unfolding sum_popcount_count
    by (intro minterm_count_cong) (auto simp: tt_bit_def minterm_high_bit [OF assms])
  finally show ?thesis .
qed

lemma zeroed: "k \<le> length s \<Longrightarrow> j < k \<Longrightarrow> for_up 0 k (\<lambda>i s. s[i := 0]) s ! j = 0" for s :: "nat list"
  using nth_for_up_assign [of k s "\<lambda>_ _. 0" j] by simp

lemma CountOnesInCofs_small:
  assumes "n \<le> 5" and "2 * n \<le> length s" and "j < 2 * n"
  shows "Kit_TruthCountOnesInCofs p n s ! j = word_ones (p ! 0 AND half_mask (odd j) (j div 2))"
proof -
  let ?s = "for_up 0 (2 * n) (\<lambda>i pStore. pStore[i := 0]) s"
  have len: "2 * n \<le> length ?s" using assms(2) by simp
  have ne: "?s \<noteq> []"
  proof
    assume "?s = []"
    then have "length ?s = 0" by (rule arg_cong [where f = length, THEN trans]) simp
    with len assms(3) show False by linarith
  qed
  have "j div 2 < 5" using assms(1,3) by simp
  from less_5_cases [OF this] have "j \<in> {0, 1} \<and> 0 < n \<or> j \<in> {2, 3} \<and> 1 < n \<or> j \<in> {4, 5} \<and> 2 < n \<or>
      j \<in> {6, 7} \<and> 3 < n \<or> j \<in> {8, 9} \<and> 4 < n"
    using assms(3) by (simp only: insert_iff empty_iff) arith
  then have "ones_in_cofs_small (p ! 0) n ?s ! j = word_ones (p ! 0 AND half_mask (odd j) (j div 2))"
    using len ne by (elim disjE conjE insertE emptyE) (simp_all add: ones_in_cofs_small_def Let_def nth_list_update half_mask_def
        Kit_WordCountOnes_popcount lo_mask_def hi_mask_def del: length_for_up_assign)
  then show ?thesis using assms(1) by (simp add: Kit_TruthCountOnesInCofs_def Let_def)
qed

lemma CountOnesInCofs_large:
  assumes "5 < n" and "2 * n \<le> length s" and "j < 2 * n"
  shows "Kit_TruthCountOnesInCofs p n s ! j = minterm_count n (\<lambda>m. tt_bit p m \<and> bit m (j div 2) = odd j)"
proof -
  let ?N = "Kit_TruthWordNum n" and ?s = "for_up 0 (2 * n) (\<lambda>i pStore. pStore[i := 0]) s"
  let ?up = "\<lambda>k pStore. let Counter = Kit_WordCountOnes (p ! k) in for_up 5 n (\<lambda>i pStore.
      if bit k (i - 5) then add_at (2 * i + 1) Counter pStore else add_at (2 * i + 0) Counter pStore) pStore"
  let ?t = "for_up 0 ?N ?up ?s"
  have bitk: "(k AND push_bit i 1 \<noteq> 0) = bit k i" for k i :: nat
    by (simp add: bit_iff_and_push_bit_not_eq_0)
  have j: "j < length s" using assms by simp
  have N: "2 * (?N div 2) = ?N" using assms(1) by (simp add: Kit_TruthWordNum_def)
  have up: "?t ! j = ?s ! j + (\<Sum>k<?N. if 10 \<le> j \<and> bit k (j div 2 - 5) = odd j then word_ones (p ! k) else 0)
      \<and> length ?t = length s"
    by (rule loop_add_nth) (use assms j in \<open>auto simp: Let_def upper_counts Kit_WordCountOnes_popcount
      simp del: One_nat_def\<close>)
  have "Kit_TruthCountOnesInCofs p n s ! j = ?t ! j + (\<Sum>k<?N div 2. if j < 10 then
      word_ones (p ! (2 * k) AND half_mask (odd j) (j div 2)) + word_ones (p ! (Suc (2 * k)) AND half_mask (odd j) (j div 2)) else 0)"
    using assms(1) loop_add_nth [where f = "\<lambda>k. ones_in_cofs_pair (p ! (2 * k)) (p ! (2 * k + 1))" and j = j and
        s = ?t and l = "length s" and N = "?N div 2"] up assms(2) j
    unfolding Kit_TruthCountOnesInCofs_def Let_def bitk by (simp add: ones_in_cofs_pair_nth)
  moreover have "?s ! j = 0" using assms by (intro zeroed) auto
  ultimately show ?thesis
    using up word_count_half [where v = "j div 2" and n = n and p = p and c = "odd j"]
      word_count_upper [where v = "j div 2" and n = n and p = p and c = "odd j"]
      sum_pairs [of "\<lambda>w. word_ones (p ! w AND half_mask (odd j) (j div 2))" "?N div 2"] N
    by (cases "j < 10") auto
qed

lemma CountOnesInCofs_count:
  assumes "2 * n \<le> length s" and "j < 2 * n"
  shows "Kit_TruthCountOnesInCofs p n s ! j = minterm_count n (\<lambda>m. tt_bit p m \<and> bit m (j div 2) = odd j)"
proof (cases "n \<le> 5")
  case True
  then show ?thesis
    using CountOnesInCofs_small [OF True assms] word_count_half [where v = "j div 2" and n = n and p = p and c = "odd j"] assms(2)
    by (simp add: Kit_TruthWordNum_def)
next
  case False
  then show ?thesis using CountOnesInCofs_large assms by simp
qed

text \<open>The slow version: the ones of a cofactor table come in pairs.\<close>

lemma cofactor_pairs:
  assumes "v < n"
  shows "minterm_count n (\<lambda>m. P (if c then set_bit v m else unset_bit v m)) =
    2 * minterm_count n (\<lambda>m. P m \<and> bit m v = c)"
proof -
  let ?A = "{m. m < tt_size n \<and> P m \<and> bit m v = c}"
  have set: "{m. m < tt_size n \<and> P (if c then set_bit v m else unset_bit v m)} = ?A \<union> flip_bit v ` ?A" (is "?l = ?r")
  proof (intro set_eqI iffI)
    fix m assume m: "m \<in> ?l"
    show "m \<in> ?r"
    proof (cases "bit m v = c")
      case True
      then show ?thesis using m by (auto split: if_splits)
    next
      case False
      then have "flip_bit v m \<in> ?A" using m assms by (auto simp: nat_flip_bit bit_simps split: if_splits)
      moreover have "m = flip_bit v (flip_bit v m)" by (rule bit_eqI) (auto simp: bit_simps)
      ultimately show ?thesis by blast
    qed
  next
    fix m assume m: "m \<in> ?r"
    have undo: "set_bit v (flip_bit v x) = set_bit v x" "unset_bit v (flip_bit v x) = unset_bit v x" for x :: nat
      by (rule bit_eqI; auto simp: bit_simps)+
    show "m \<in> ?l" using m assms by (auto simp: undo)
  qed
  have "?A \<inter> flip_bit v ` ?A = {}" by (auto simp: bit_simps)
  moreover have "inj_on (flip_bit v) ?A"
    by (rule inj_on_inverseI [where g = "flip_bit v"]) (auto intro!: bit_eqI simp: bit_simps)
  ultimately show ?thesis
    unfolding minterm_count_def set by (simp add: card_Un_disjoint card_image)
qed

lemma CountOnesInCofsSlow_loop:
  assumes "tt_wf n p" "tt_wf n aux" "2 * n \<le> length s" "k \<le> n"
  shows "\<exists>s' aux'. for_up 0 k (\<lambda>i (pStore, pAux).
      let pAux = Kit_TruthCofactor0New pAux p n i;
          pStore = pStore[2 * i + 0 := Kit_TruthCountOnes pAux n div 2];
          pAux = Kit_TruthCofactor1New pAux p n i;
          pStore = pStore[2 * i + 1 := Kit_TruthCountOnes pAux n div 2]
      in (pStore, pAux)) (s, aux) = (s', aux') \<and> tt_wf n aux' \<and> length s' = length s \<and>
    (\<forall>j < length s. s' ! j = (if j < 2 * k then minterm_count n (\<lambda>m. tt_bit p m \<and> bit m (j div 2) = odd j) else s ! j))"
  using assms(4)
proof (induction k)
  case 0
  then show ?case using assms by simp
next
  case (Suc k)
  then obtain s' aux' where ih: "for_up 0 k (\<lambda>i (pStore, pAux).
      let pAux = Kit_TruthCofactor0New pAux p n i;
          pStore = pStore[2 * i + 0 := Kit_TruthCountOnes pAux n div 2];
          pAux = Kit_TruthCofactor1New pAux p n i;
          pStore = pStore[2 * i + 1 := Kit_TruthCountOnes pAux n div 2]
      in (pStore, pAux)) (s, aux) = (s', aux')" and wf: "tt_wf n aux'" and len: "length s' = length s"
    and nth: "\<forall>j < length s. s' ! j = (if j < 2 * k then minterm_count n (\<lambda>m. tt_bit p m \<and> bit m (j div 2) = odd j) else s ! j)"
    by auto
  have k: "k < n" using Suc by simp
  let ?a0 = "Kit_TruthCofactor0New aux' p n k" and ?a1 = "Kit_TruthCofactor1New (Kit_TruthCofactor0New aux' p n k) p n k"
  have "Kit_TruthCountOnes ?a0 n = minterm_count n (\<lambda>m. tt_bit p (if False then set_bit k m else unset_bit k m))"
    unfolding Kit_TruthCountOnes_count by (rule minterm_count_cong) (simp add: tt_bit_Cofactor0New wf k)
  then have c0: "Kit_TruthCountOnes ?a0 n div 2 = minterm_count n (\<lambda>m. tt_bit p m \<and> bit m k = False)"
    unfolding cofactor_pairs [OF k] by simp
  have "Kit_TruthCountOnes ?a1 n = minterm_count n (\<lambda>m. tt_bit p (if True then set_bit k m else unset_bit k m))"
    unfolding Kit_TruthCountOnes_count by (rule minterm_count_cong) (simp add: tt_bit_Cofactor1New wf k)
  then have c1: "Kit_TruthCountOnes ?a1 n div 2 = minterm_count n (\<lambda>m. tt_bit p m \<and> bit m k = True)"
    unfolding cofactor_pairs [OF k] by simp
  have "j < 2 * Suc k \<longleftrightarrow> j < 2 * k \<or> j = 2 * k \<or> j = 2 * k + 1" for j by arith
  then show ?case
    using ih len nth wf k c0 c1 assms(3) by (auto simp: for_up_Suc Let_def nth_list_update)
qed

lemma length_CountOnesInCofs [simp]: "length (Kit_TruthCountOnesInCofs p n s) = length s"
proof -
  have "length (for_up 0 N f t) = length t" if "\<And>k u. length (f k u) = length u"
    for N and f :: "nat \<Rightarrow> nat list \<Rightarrow> nat list" and t
    unfolding for_up_def using that by (rule length_fold_keeps)
  then show ?thesis
    unfolding Kit_TruthCountOnesInCofs_def Let_def by (simp add: ones_in_cofs_small_def Let_def)
qed

lemma CountOnesInCofs_slow:
  assumes "tt_wf n p" "tt_wf n aux" "length s = 2 * n" "length s' = 2 * n"
  shows "Kit_TruthCountOnesInCofs p n s = fst (Kit_TruthCountOnesInCofsSlow p n s' aux)"
proof -
  from CountOnesInCofsSlow_loop [OF assms(1,2), of s' n] assms(4)
  have slow: "length (fst (Kit_TruthCountOnesInCofsSlow p n s' aux)) = 2 * n"
    "j < 2 * n \<Longrightarrow> fst (Kit_TruthCountOnesInCofsSlow p n s' aux) ! j =
      minterm_count n (\<lambda>m. tt_bit p m \<and> bit m (j div 2) = odd j)" for j
    by (auto simp: Kit_TruthCountOnesInCofsSlow_def)
  show ?thesis
    using slow CountOnesInCofs_count [of n s _ p] assms(3) by (intro nth_equalityI) auto
qed

section \<open>The negative cofactors only\<close>

lemma Cofs0_upper:
  assumes "j < length s" and "5 \<le> n"
  shows "for_up 5 n (\<lambda>i s. if \<not> bit (k::nat) (i - 5) then add_at i c s else s) s ! j =
      s ! j + (if 5 \<le> j \<and> j < n \<and> \<not> bit k (j - 5) then c else 0) \<and>
    length (for_up 5 n (\<lambda>i s. if \<not> bit k (i - 5) then add_at i c s else s) s) = length s"
  using assms(2)
proof (induction n rule: dec_induct)
  case (step n)
  then show ?case using assms(1) by (auto simp: for_up_Suc nth_add_at less_Suc_eq)
qed simp

lemma Cofs0_pair:
  assumes len: "5 \<le> length s" "j < length s"
  shows "ones_in_cofs0_pair w0 w1 s ! j =
    s ! j + (if j < 5 then word_ones (w0 AND lo_mask j) + word_ones (w1 AND lo_mask j) else 0)"
proof -
  note pair = popcount_pair(1) [of 0 w0 w1] popcount_pair(1) [of 1 w0 w1] popcount_pair(1) [of 2 w0 w1]
    popcount_pair(1) [of 3 w0 w1] popcount_pair(1) [of 4 w0 w1]
  consider "5 \<le> j" | "j = 0 \<or> j = 1 \<or> j = 2 \<or> j = 3 \<or> j = 4" by linarith
  then show ?thesis
  proof cases
    case 1
    then show ?thesis using len by (simp add: ones_in_cofs0_pair_def Let_def nth_add_at)
  next
    case 2
    then show ?thesis
      using len pair by (elim disjE) (simp_all add: ones_in_cofs0_pair_def Let_def nth_add_at Kit_WordCountOnes_popcount lo_mask_def)
  qed
qed

lemma length_ones_in_cofs0_pair [simp]: "length (ones_in_cofs0_pair w0 w1 s) = length s"
  by (simp add: ones_in_cofs0_pair_def Let_def)

lemma Cofs0_small:
  assumes "n \<le> 5" and "n \<le> length s" and "j < n"
  shows "Kit_TruthCountOnesInCofs0 p n s ! j = word_ones (p ! 0 AND lo_mask j)"
proof -
  define t where "t = for_up 0 n (\<lambda>i pStore. pStore[i := 0]) s"
  have len: "n \<le> length t" and ne: "t \<noteq> []" using assms(2,3) by (auto simp: t_def simp flip: length_greater_0_conv)
  have "j = 0 \<and> 0 < n \<or> j = 1 \<and> 1 < n \<or> j = 2 \<and> 2 < n \<or> j = 3 \<and> 3 < n \<or> j = 4 \<and> 4 < n"
    using assms(1,3) by arith
  then show ?thesis
    using assms(1) len ne unfolding Kit_TruthCountOnesInCofs0_def t_def [symmetric]
    by (elim disjE) (simp_all add: Let_def nth_list_update Kit_WordCountOnes_popcount lo_mask_def)
qed

lemma Cofs0_large:
  assumes "5 < n" and "n \<le> length s" and "j < n"
  shows "Kit_TruthCountOnesInCofs0 p n s ! j = minterm_count n (\<lambda>m. tt_bit p m \<and> bit m j = False)"
proof -
  let ?N = "Kit_TruthWordNum n" and ?s = "for_up 0 n (\<lambda>i pStore. pStore[i := 0]) s"
  let ?up = "\<lambda>k pStore. let Counter = Kit_WordCountOnes (p ! k) in
      for_up 5 n (\<lambda>i pStore. if \<not> bit k (i - 5) then add_at i Counter pStore else pStore) pStore"
  let ?t = "for_up 0 ?N ?up ?s"
  have bitk: "(k AND push_bit i 1 = 0) = (\<not> bit k i)" for k i :: nat
    by (simp add: bit_iff_and_push_bit_not_eq_0)
  have j: "j < length s" using assms by simp
  have N: "2 * (?N div 2) = ?N" using assms(1) by (simp add: Kit_TruthWordNum_def)
  have len: "length (for_up 5 n (\<lambda>i s. if P i then add_at i c s else s) t) = length t" for P c t
    unfolding for_up_def by (rule length_fold_keeps) simp
  have up: "?t ! j = ?s ! j + (\<Sum>k<?N. if 5 \<le> j \<and> bit k (j - 5) = False then word_ones (p ! k) else 0)
      \<and> length ?t = length s"
    by (rule loop_add_nth) (use assms j Cofs0_upper in \<open>auto simp: Let_def len Kit_WordCountOnes_popcount\<close>)
  have "Kit_TruthCountOnesInCofs0 p n s ! j = ?t ! j + (\<Sum>k<?N div 2. if j < 5 then
      word_ones (p ! (2 * k) AND lo_mask j) + word_ones (p ! (Suc (2 * k)) AND lo_mask j) else 0)"
    using assms(1) loop_add_nth [where f = "\<lambda>k. ones_in_cofs0_pair (p ! (2 * k)) (p ! (2 * k + 1))" and j = j and
        s = ?t and l = "length s" and N = "?N div 2"] up assms(2) j
    unfolding Kit_TruthCountOnesInCofs0_def Let_def bitk by (simp add: Cofs0_pair)
  moreover have "?s ! j = 0" using assms by (intro zeroed) auto
  ultimately show ?thesis
    using up word_count_half [where v = j and n = n and p = p and c = False]
      word_count_upper [where v = j and n = n and p = p and c = False]
      sum_pairs [of "\<lambda>w. word_ones (p ! w AND lo_mask j)" "?N div 2"] N
    by (cases "j < 5") (auto simp: half_mask_def)
qed

lemma CountOnesInCofs0_count:
  assumes "n \<le> length s" and "j < n"
  shows "Kit_TruthCountOnesInCofs0 p n s ! j = Kit_TruthCofactor0Count p n j"
proof (cases "n \<le> 5")
  case True
  then show ?thesis
    using Cofs0_small [OF True assms] word_count_half [where v = j and n = n and p = p and c = False] assms(2)
    by (simp add: Kit_TruthWordNum_def Kit_TruthCofactor0Count_count half_mask_def)
next
  case False
  then show ?thesis using Cofs0_large assms by (simp add: Kit_TruthCofactor0Count_count)
qed

end
