(* ===== verification/Kit_Cover.thy ===== *)
theory Kit_Cover
  imports Kit_Count
begin

text \<open>
  Covers and what an irredundant sum of products is. A cube is a word: bit \<open>2 * v\<close> is the negative
  and bit \<open>2 * v + 1\<close> the positive literal of variable \<open>v\<close>. The theory states the contract of the
  ISOP procedures of \<open>kitIsop.c\<close> over Boolean functions of minterms and proves the step that both
  of them perform: covers of three subproblems without variable \<open>v\<close> make a cover with it.
\<close>

section \<open>Cubes and covers\<close>

definition cube_holds :: "u32 \<Rightarrow> nat \<Rightarrow> bool" where
  "cube_holds c m \<longleftrightarrow>
    list_all (\<lambda>v. (bit c (2 * v) \<longrightarrow> \<not> bit m v) \<and> (bit c (2 * v + 1) \<longrightarrow> bit m v)) [0..<16]"

definition cover_holds :: "u32 list \<Rightarrow> nat \<Rightarrow> bool" where
  "cover_holds cs m \<longleftrightarrow> list_ex (\<lambda>c. cube_holds c m) cs"

definition cube_below :: "nat \<Rightarrow> u32 \<Rightarrow> bool" where
  "cube_below k c \<longleftrightarrow> (\<forall>i \<ge> 2 * k. \<not> bit c i)"

definition dep_below :: "nat \<Rightarrow> (nat \<Rightarrow> bool) \<Rightarrow> bool" where
  "dep_below k f \<longleftrightarrow> (\<forall>m. f m = f (take_bit k m))"

definition lit_count :: "u32 list \<Rightarrow> int" where
  "lit_count cs = int (sum_list (map word_ones cs))"

text \<open>
  Every cube of the cover is needed: it alone covers some minterm of the on-set. Two equal cubes
  in one cover are redundant in this sense.
\<close>

definition irredundant :: "(nat \<Rightarrow> bool) \<Rightarrow> u32 list \<Rightarrow> bool" where
  "irredundant On cs \<longleftrightarrow> (\<forall>i < length cs. \<exists>m. On m \<and>
     (\<forall>j < length cs. cube_holds (cs ! j) m \<longleftrightarrow> j = i))"

definition isop_spec :: "nat \<Rightarrow> (nat \<Rightarrow> bool) \<Rightarrow> (nat \<Rightarrow> bool) \<Rightarrow> (nat \<Rightarrow> bool) \<Rightarrow> u32 list \<Rightarrow> bool" where
  "isop_spec k On OnDc R cs \<longleftrightarrow>
     (\<forall>m. On m \<longrightarrow> R m) \<and> (\<forall>m. R m \<longrightarrow> OnDc m) \<and> (\<forall>m. R m = cover_holds cs m) \<and>
     list_all (cube_below k) cs \<and> irredundant On cs"

lemma cover_holds_Nil [simp]: "\<not> cover_holds [] m"
  by (simp add: cover_holds_def)

lemma cover_holds_Cons [simp]: "cover_holds (c # cs) m \<longleftrightarrow> cube_holds c m \<or> cover_holds cs m"
  by (simp add: cover_holds_def)

lemma cover_holds_append [simp]: "cover_holds (cs @ ds) m \<longleftrightarrow> cover_holds cs m \<or> cover_holds ds m"
  by (simp add: cover_holds_def)

lemma cover_holds_nth: "cover_holds cs m \<longleftrightarrow> (\<exists>i < length cs. cube_holds (cs ! i) m)"
  by (simp add: cover_holds_def list_ex_length)

lemma cube_holds_iff: "cube_holds c m \<longleftrightarrow>
    (\<forall>v < 16. (bit c (2 * v) \<longrightarrow> \<not> bit m v) \<and> (bit c (2 * v + 1) \<longrightarrow> bit m v))"
  by (auto simp: cube_holds_def list_all_iff)

lemma cube_holds_0 [simp]: "cube_holds 0 m"
  by (simp add: cube_holds_iff)

lemma cube_below_0 [simp]: "cube_below k 0"
  by (simp add: cube_below_def)

lemma cube_below_mono: "cube_below k c \<Longrightarrow> k \<le> l \<Longrightarrow> cube_below l c"
  by (simp add: cube_below_def)

lemma cube_holds_agree:
  assumes "cube_below k c" and "\<And>v. v < k \<Longrightarrow> bit m v = bit m' v"
  shows "cube_holds c m = cube_holds c m'"
proof -
  have "bit c (2 * v) \<Longrightarrow> v < k" "bit c (2 * v + 1) \<Longrightarrow> v < k" for v
    using assms(1) by (auto simp: cube_below_def intro: ccontr)
  with assms(2) show ?thesis unfolding cube_holds_iff by blast
qed

text \<open>Adding a literal of a variable the cube does not have.\<close>

definition add_lit :: "nat \<Rightarrow> bool \<Rightarrow> u32 \<Rightarrow> u32" where
  "add_lit v pos c = c OR push_bit (2 * v + of_bool pos) 1"

lemma bit_lit: "v < 16 \<Longrightarrow> bit (push_bit (2 * v + of_bool pos) 1 :: u32) i \<longleftrightarrow> i = 2 * v + of_bool pos"
  by (rule bit_push1) (simp add: of_bool_def)

lemma cube_holds_add_lit:
  assumes "v < 16"
  shows "cube_holds (add_lit v pos c) m \<longleftrightarrow> cube_holds c m \<and> bit m v = pos"
proof -
  have "bit (add_lit v pos c) i \<longleftrightarrow> bit c i \<or> i = 2 * v + of_bool pos" for i
    using bit_lit [OF assms, of pos i] by (simp add: add_lit_def bit_or_iff del: push_bit_of_1)
  moreover have "2 * u = 2 * v + of_bool pos \<longleftrightarrow> u = v \<and> \<not> pos" "2 * u + 1 = 2 * v + of_bool pos \<longleftrightarrow> u = v \<and> pos" for u
    by (cases pos; simp; presburger)+
  ultimately show ?thesis
    unfolding cube_holds_iff using assms by auto
qed

lemma cube_below_add_lit:
  assumes "v < 16" and "cube_below v c"
  shows "cube_below (Suc v) (add_lit v pos c)"
  unfolding cube_below_def
proof (intro allI impI)
  fix i assume "2 * Suc v \<le> i"
  then show "\<not> bit (add_lit v pos c) i"
    using assms(2) bit_lit [OF assms(1), of pos i]
    by (auto simp: add_lit_def bit_or_iff cube_below_def of_bool_def simp del: push_bit_of_1)
qed

lemma popcount_add_lit:
  assumes "v < 16" and "cube_below v c"
  shows "word_ones (add_lit v pos c) = Suc (word_ones c)"
proof -
  have "word_ones (push_bit (2 * v + of_bool pos) 1) = 1"
  proof -
    have "{i. i < 32 \<and> bit (push_bit (2 * v + of_bool pos) 1 :: u32) i} = {2 * v + of_bool pos}"
      using bit_lit [OF assms(1)] assms(1) by (auto simp del: push_bit_of_1 simp: of_bool_def)
    then show ?thesis by (simp add: word_ones_def)
  qed
  moreover have "word_ones (add_lit v pos c) = word_ones c + word_ones (push_bit (2 * v + of_bool pos) 1)"
    unfolding add_lit_def using assms(2) bit_lit [OF assms(1)]
    by (intro popcount_or) (auto simp: cube_below_def simp del: push_bit_of_1)
  ultimately show ?thesis by simp
qed

section \<open>Functions that depend on the lower variables only\<close>

lemma dep_below_agree:
  assumes "dep_below k f" and "\<And>v. v < k \<Longrightarrow> bit m v = bit m' v"
  shows "f m = f m'"
proof -
  have "take_bit k m = take_bit k m'" using assms(2) by (intro bit_eqI) (auto simp: bit_simps)
  then show ?thesis using assms(1) unfolding dep_below_def by metis
qed

lemma dep_index: "dep_below v f \<Longrightarrow> f (unset_bit v m) = f m" "dep_below v f \<Longrightarrow> f (set_bit v m) = f m"
  by (erule dep_below_agree, simp add: bit_simps)+

lemma cube_index:
  "cube_below v c \<Longrightarrow> cube_holds c (unset_bit v m) = cube_holds c m"
  "cube_below v c \<Longrightarrow> cube_holds c (set_bit v m) = cube_holds c m"
  by (erule cube_holds_agree, simp add: bit_simps)+

lemma cover_dep_below: "list_all (cube_below k) cs \<Longrightarrow> dep_below k (cover_holds cs)"
proof -
  assume "list_all (cube_below k) cs"
  then have "cube_holds c m = cube_holds c (take_bit k m)" if "c \<in> set cs" for c m
    using that cube_holds_agree [of k c m "take_bit k m"] by (simp add: list_all_iff bit_take_bit_iff)
  then show ?thesis
    unfolding dep_below_def cover_holds_def list_ex_iff by blast
qed

lemma isop_spec_dep: "isop_spec k On OnDc R cs \<Longrightarrow> dep_below k R"
  using cover_dep_below [of k cs] by (simp add: isop_spec_def dep_below_def)

lemma isop_spec_mono: "isop_spec k On OnDc R cs \<Longrightarrow> k \<le> l \<Longrightarrow> isop_spec l On OnDc R cs"
  by (auto simp: isop_spec_def list_all_iff cube_below_mono)

lemma isop_spec_const0: "(\<And>m. \<not> On m) \<Longrightarrow> isop_spec k On OnDc (\<lambda>_. False) []"
  by (simp add: isop_spec_def irredundant_def)

lemma isop_spec_const1: "(\<And>m. OnDc m) \<Longrightarrow> On m \<Longrightarrow> isop_spec k On OnDc (\<lambda>_. True) [0]"
  by (auto simp: isop_spec_def irredundant_def)

section \<open>The recursive step\<close>

definition merged_cover :: "nat \<Rightarrow> u32 list \<Rightarrow> u32 list \<Rightarrow> u32 list \<Rightarrow> u32 list" where
  "merged_cover v c0 c1 c2 = map (add_lit v False) c0 @ map (add_lit v True) c1 @ c2"

lemma irredundant_append:
  assumes "\<And>i. i < length cs \<Longrightarrow> \<exists>m. On m \<and> (\<forall>j < length cs. cube_holds (cs ! j) m \<longleftrightarrow> j = i) \<and> \<not> cover_holds ds m"
    and "\<And>i. i < length ds \<Longrightarrow> \<exists>m. On m \<and> (\<forall>j < length ds. cube_holds (ds ! j) m \<longleftrightarrow> j = i) \<and> \<not> cover_holds cs m"
  shows "irredundant On (cs @ ds)"
  unfolding irredundant_def
proof (intro allI impI)
  fix i assume i: "i < length (cs @ ds)"
  show "\<exists>m. On m \<and> (\<forall>j < length (cs @ ds). cube_holds ((cs @ ds) ! j) m \<longleftrightarrow> j = i)"
  proof (cases "i < length cs")
    case True
    from assms(1) [OF this] obtain m where m: "On m" "\<forall>j < length cs. cube_holds (cs ! j) m \<longleftrightarrow> j = i" "\<not> cover_holds ds m"
      by blast
    then have "\<forall>j < length (cs @ ds). cube_holds ((cs @ ds) ! j) m \<longleftrightarrow> j = i"
      using True by (auto simp: nth_append cover_holds_nth)
    with m(1) show ?thesis by blast
  next
    case False
    with i have "i - length cs < length ds" by simp
    from assms(2) [OF this] obtain m where m: "On m" "\<not> cover_holds cs m"
      "\<forall>j < length ds. cube_holds (ds ! j) m \<longleftrightarrow> j = i - length cs" by blast
    then have "\<forall>j < length (cs @ ds). cube_holds ((cs @ ds) ! j) m \<longleftrightarrow> j = i"
      using False by (auto simp: nth_append cover_holds_nth)
    with m(1) show ?thesis by blast
  qed
qed

lemma cover_holds_add_lit: "v < 16 \<Longrightarrow> cover_holds (map (add_lit v pos) cs) m \<longleftrightarrow> bit m v = pos \<and> cover_holds cs m"
  by (auto simp: cover_holds_def list_ex_iff cube_holds_add_lit)

text \<open>
  What the three recursive calls of an ISOP procedure provide for variable \<open>v\<close>: \<open>R0\<close> covers what
  only the negative cofactor needs, \<open>R1\<close> what only the positive one needs, \<open>R2\<close> the rest.
\<close>

definition isop_step :: "nat \<Rightarrow> (nat \<Rightarrow> bool) \<Rightarrow> (nat \<Rightarrow> bool) \<Rightarrow> (nat \<Rightarrow> bool) \<Rightarrow> (nat \<Rightarrow> bool) \<Rightarrow> (nat \<Rightarrow> bool) \<Rightarrow>
    u32 list \<Rightarrow> u32 list \<Rightarrow> u32 list \<Rightarrow> bool" where
  "isop_step v On OnDc R0 R1 R2 c0 c1 c2 \<longleftrightarrow> v < 16 \<and>
     isop_spec v (\<lambda>m. On (unset_bit v m) \<and> \<not> OnDc (set_bit v m)) (\<lambda>m. OnDc (unset_bit v m)) R0 c0 \<and>
     isop_spec v (\<lambda>m. On (set_bit v m) \<and> \<not> OnDc (unset_bit v m)) (\<lambda>m. OnDc (set_bit v m)) R1 c1 \<and>
     isop_spec v (\<lambda>m. On (unset_bit v m) \<and> \<not> R0 m \<or> On (set_bit v m) \<and> \<not> R1 m)
       (\<lambda>m. OnDc (unset_bit v m) \<and> OnDc (set_bit v m)) R2 c2"

lemma isop_step_covers:
  assumes "isop_step v On OnDc R0 R1 R2 c0 c1 c2"
  shows "v < 16" "cover_holds c0 m = R0 m" "cover_holds c1 m = R1 m" "cover_holds c2 m = R2 m"
    "list_all (cube_below v) c0" "list_all (cube_below v) c1" "list_all (cube_below v) c2"
  using assms by (simp_all add: isop_step_def isop_spec_def)

lemma isop_step_index:
  assumes "isop_step v On OnDc R0 R1 R2 c0 c1 c2"
  shows "R0 (unset_bit v m) = R0 m" "R1 (unset_bit v m) = R1 m" "R2 (unset_bit v m) = R2 m"
    "R0 (set_bit v m) = R0 m" "R1 (set_bit v m) = R1 m" "R2 (set_bit v m) = R2 m"
proof -
  have "dep_below v R0" "dep_below v R1" "dep_below v R2"
    using assms unfolding isop_step_def by (auto dest: isop_spec_dep)
  then show "R0 (unset_bit v m) = R0 m" "R1 (unset_bit v m) = R1 m" "R2 (unset_bit v m) = R2 m"
    "R0 (set_bit v m) = R0 m" "R1 (set_bit v m) = R1 m" "R2 (set_bit v m) = R2 m"
    by (simp_all add: dep_index)
qed

lemma isop_step_nth:
  assumes "isop_step v On OnDc R0 R1 R2 c0 c1 c2"
  shows "i < length c0 \<Longrightarrow> cube_below v (c0 ! i)" "i < length c1 \<Longrightarrow> cube_below v (c1 ! i)"
    "i < length c2 \<Longrightarrow> cube_below v (c2 ! i)"
  using isop_step_covers [OF assms] by (simp_all add: list_all_length)

lemma isop_step_laws:
  assumes "isop_step v On OnDc R0 R1 R2 c0 c1 c2"
  shows "On (unset_bit v m) \<and> \<not> R0 m \<or> On (set_bit v m) \<and> \<not> R1 m \<Longrightarrow> R2 m"
    "R0 m \<Longrightarrow> OnDc (unset_bit v m)" "R1 m \<Longrightarrow> OnDc (set_bit v m)"
    "R2 m \<Longrightarrow> OnDc (unset_bit v m)" "R2 m \<Longrightarrow> OnDc (set_bit v m)"
  using assms unfolding isop_step_def isop_spec_def by blast+

lemmas minterm_index = cube_index bit_set_bit_iff bit_unset_bit_iff

lemma merged_holds:
  assumes st: "isop_step v On OnDc R0 R1 R2 c0 c1 c2"
  shows "cover_holds (merged_cover v c0 c1 c2) m \<longleftrightarrow> R2 m \<or> (if bit m v then R1 m else R0 m)"
  using isop_step_covers [OF st] by (auto simp: merged_cover_def cover_holds_add_lit)

lemma merged_on:
  assumes st: "isop_step v On OnDc R0 R1 R2 c0 c1 c2" and "On m"
  shows "R2 m \<or> (if bit m v then R1 m else R0 m)"
  using isop_step_laws(1) [OF st, of m] assms(2) by (cases "bit m v") auto

lemma merged_dc:
  assumes st: "isop_step v On OnDc R0 R1 R2 c0 c1 c2" and "R2 m \<or> (if bit m v then R1 m else R0 m)"
  shows "OnDc m"
  using isop_step_laws(2-5) [OF st, of m] assms(2) by (cases "bit m v") auto

lemma need0:
  assumes st: "isop_step v On OnDc R0 R1 R2 c0 c1 c2" and "i < length c0"
  shows "\<exists>m. On m \<and> \<not> bit m v \<and> (\<forall>j < length c0. cube_holds (c0 ! j) m \<longleftrightarrow> j = i) \<and> \<not> R2 m"
proof -
  from assms obtain m where m: "On (unset_bit v m)" "\<not> OnDc (set_bit v m)"
    "\<forall>j < length c0. cube_holds (c0 ! j) m \<longleftrightarrow> j = i"
    unfolding isop_step_def isop_spec_def irredundant_def by blast
  have "\<not> R2 m" using m(2) isop_step_laws(5) [OF st] by blast
  then show ?thesis
    using m by (intro exI [of _ "unset_bit v m"]) (simp add: isop_step_index [OF st] isop_step_nth [OF st] minterm_index)
qed

lemma need1:
  assumes st: "isop_step v On OnDc R0 R1 R2 c0 c1 c2" and "i < length c1"
  shows "\<exists>m. On m \<and> bit m v \<and> (\<forall>j < length c1. cube_holds (c1 ! j) m \<longleftrightarrow> j = i) \<and> \<not> R2 m"
proof -
  from assms obtain m where m: "On (set_bit v m)" "\<not> OnDc (unset_bit v m)"
    "\<forall>j < length c1. cube_holds (c1 ! j) m \<longleftrightarrow> j = i"
    unfolding isop_step_def isop_spec_def irredundant_def by blast
  have "\<not> R2 m" using m(2) isop_step_laws(4) [OF st] by blast
  then show ?thesis
    using m by (intro exI [of _ "set_bit v m"]) (simp add: isop_step_index [OF st] isop_step_nth [OF st] minterm_index)
qed

lemma need2:
  assumes st: "isop_step v On OnDc R0 R1 R2 c0 c1 c2" and "i < length c2"
  shows "\<exists>m. On m \<and> (\<forall>j < length c2. cube_holds (c2 ! j) m \<longleftrightarrow> j = i) \<and> \<not> (if bit m v then R1 m else R0 m)"
proof -
  from assms obtain m where m: "On (unset_bit v m) \<and> \<not> R0 m \<or> On (set_bit v m) \<and> \<not> R1 m"
    "\<forall>j < length c2. cube_holds (c2 ! j) m \<longleftrightarrow> j = i"
    unfolding isop_step_def isop_spec_def irredundant_def by blast
  from m(1) show ?thesis
  proof
    assume "On (unset_bit v m) \<and> \<not> R0 m"
    then show ?thesis
      using m(2) by (intro exI [of _ "unset_bit v m"]) (simp add: isop_step_index [OF st] isop_step_nth [OF st] minterm_index)
  next
    assume "On (set_bit v m) \<and> \<not> R1 m"
    then show ?thesis
      using m(2) by (intro exI [of _ "set_bit v m"]) (simp add: isop_step_index [OF st] isop_step_nth [OF st] minterm_index)
  qed
qed

lemma merged_irredundant:
  assumes st: "isop_step v On OnDc R0 R1 R2 c0 c1 c2"
  shows "irredundant On (merged_cover v c0 c1 c2)"
  unfolding merged_cover_def append_assoc [symmetric]
proof (rule irredundant_append)
  note cov = isop_step_covers [OF st]
  fix i assume "i < length c2"
  from need2 [OF st this] show "\<exists>m. On m \<and> (\<forall>j < length c2. cube_holds (c2 ! j) m \<longleftrightarrow> j = i) \<and>
      \<not> cover_holds (map (add_lit v False) c0 @ map (add_lit v True) c1) m"
    by (auto simp: cover_holds_add_lit cov)
next
  note cov = isop_step_covers [OF st]
  let ?cs = "map (add_lit v False) c0 @ map (add_lit v True) c1"
  fix i assume i: "i < length ?cs"
  show "\<exists>m. On m \<and> (\<forall>j < length ?cs. cube_holds (?cs ! j) m \<longleftrightarrow> j = i) \<and> \<not> cover_holds c2 m"
  proof (cases "i < length c0")
    case True
    from need0 [OF st this] show ?thesis
      using True by (auto simp: nth_append cube_holds_add_lit cov)
  next
    case False
    with i have "i - length c0 < length c1" by simp
    from need1 [OF st this] show ?thesis
      using False by (auto simp: nth_append cube_holds_add_lit cov)
  qed
qed

lemma merged_spec:
  assumes st: "isop_step v On OnDc R0 R1 R2 c0 c1 c2"
  shows "isop_spec (Suc v) On OnDc (\<lambda>m. R2 m \<or> (if bit m v then R1 m else R0 m)) (merged_cover v c0 c1 c2)"
proof -
  have "list_all (cube_below (Suc v)) (merged_cover v c0 c1 c2)"
    using isop_step_covers [OF st] by (auto simp: merged_cover_def list_all_iff cube_below_add_lit cube_below_mono)
  then show ?thesis
    using merged_on [OF st] merged_dc [OF st] merged_holds [OF st] merged_irredundant [OF st]
    unfolding isop_spec_def by blast
qed

lemma lit_count_merged:
  assumes st: "isop_step v On OnDc R0 R1 R2 c0 c1 c2"
  shows "lit_count (merged_cover v c0 c1 c2) =
    lit_count c0 + lit_count c1 + lit_count c2 + int (length c0) + int (length c1)"
proof -
  have lits: "sum_list (map word_ones (map (add_lit v pos) cs)) = sum_list (map word_ones cs) + length cs"
    if "v < 16" "list_all (cube_below v) cs" for pos cs
    using that by (induction cs) (simp_all add: popcount_add_lit)
  have "sum_list (map word_ones (map (add_lit v False) c0)) = sum_list (map word_ones c0) + length c0"
    "sum_list (map word_ones (map (add_lit v True) c1)) = sum_list (map word_ones c1) + length c1"
    using isop_step_covers [OF st] by (auto simp only: lits)
  then show ?thesis
    by (simp add: lit_count_def merged_cover_def del: map_map)
qed

section \<open>The size of an irredundant cover\<close>

lemma isop_spec_nonempty: "isop_spec k On OnDc R cs \<Longrightarrow> On m \<Longrightarrow> cs \<noteq> []"
  by (auto simp: isop_spec_def)

lemma isop_spec_size:
  assumes "isop_spec k On OnDc R cs"
  shows "length cs \<le> 2 ^ k"
proof -
  from assms obtain f where f: "\<And>i j. i < length cs \<Longrightarrow> j < length cs \<Longrightarrow> cube_holds (cs ! j) (f i) \<longleftrightarrow> j = i"
    unfolding isop_spec_def irredundant_def by metis
  have low: "cube_holds (cs ! j) (take_bit k m) = cube_holds (cs ! j) m" if "j < length cs" for j m
    using that assms cube_holds_agree [of k "cs ! j" "take_bit k m" m]
    by (simp add: isop_spec_def list_all_length bit_take_bit_iff)
  have "inj_on (\<lambda>i. take_bit k (f i)) {..<length cs}"
  proof (rule inj_onI)
    fix i j assume "i \<in> {..<length cs}" "j \<in> {..<length cs}" "take_bit k (f i) = take_bit k (f j)"
    then show "i = j" using f low by (metis lessThan_iff)
  qed
  moreover have "(\<lambda>i. take_bit k (f i)) ` {..<length cs} \<subseteq> {..<2 ^ k}" by auto
  ultimately have "card {..<length cs} \<le> card {..<(2::nat) ^ k}" by (rule card_inj_on_le) simp
  then show ?thesis by simp
qed

end
