(* ===== verification/Kit_Isop.thy ===== *)
theory Kit_Isop
  imports Kit_Cover
begin

text \<open>
  Irredundant sums of products (\<open>kitIsop.c\<close>): \<open>Kit_TruthIsop5_rec\<close> on one word,
  \<open>Kit_TruthIsop_rec\<close> on tables, and the entry points \<open>Kit_TruthIsop\<close> and \<open>Kit_TruthIsop2\<close> with the
  choice of polarity. Intermediate tables and covers live in the array of a \<open>Vec_Int_t\<close> that is
  handed out in pieces by \<open>Vec_IntFetch\<close> and never freed during a call, so distinct fetches are
  distinct arrays and are values here; the model keeps the fill level of the array, on which the
  failure of the procedures depends. The assertions of the entry points compare the input with the table
  that comes with the cover; they are not part of the model, \<open>Isop_assertion\<close> shows that they hold.
\<close>

section \<open>Data\<close>

record vec_mem =
  mem_nSize :: nat
  mem_nCap :: nat

definition Vec_IntFetch :: "vec_mem \<Rightarrow> nat \<Rightarrow> bool \<times> vec_mem" where
  "Vec_IntFetch p nWords =
    (if nWords = 0 then (False, p)
     else let p = p\<lparr>mem_nSize := mem_nSize p + nWords\<rparr> in
       if mem_nSize p > mem_nCap p then (False, p) else (True, p))"

record kit_sop =
  sop_nLits :: int
  sop_nCubes :: int
  sop_pCubes :: "u32 list"

text \<open>The cover on the failing paths: \<open>pcRes->nCubes = -1\<close>; the other fields are not read then.\<close>

definition sop_fail :: kit_sop where
  "sop_fail = \<lparr>sop_nLits = 0, sop_nCubes = -1, sop_pCubes = []\<rparr>"

definition KIT_ISOP_MEM_LIMIT :: nat where
  "KIT_ISOP_MEM_LIMIT = 2 ^ 20"

text \<open>The part ``create the resulting cover'' of both recursive procedures.\<close>

definition isop_merge :: "nat \<Rightarrow> kit_sop \<Rightarrow> kit_sop \<Rightarrow> kit_sop \<Rightarrow> vec_mem \<Rightarrow> kit_sop \<times> vec_mem" where
  "isop_merge Var cRes0 cRes1 cRes2 vStore =
    (let nLits = sop_nLits cRes0 + sop_nLits cRes1 + sop_nLits cRes2 + sop_nCubes cRes0 + sop_nCubes cRes1;
         nCubes = sop_nCubes cRes0 + sop_nCubes cRes1 + sop_nCubes cRes2;
         (ok, vStore) = Vec_IntFetch vStore (nat nCubes)
     in if \<not> ok then (sop_fail, vStore)
        else (\<lparr>sop_nLits = nLits, sop_nCubes = nCubes, sop_pCubes =
            map (\<lambda>c. c OR push_bit (2 * Var + 0) 1) (sop_pCubes cRes0) @
            map (\<lambda>c. c OR push_bit (2 * Var + 1) 1) (sop_pCubes cRes1) @
            sop_pCubes cRes2\<rparr>, vStore))"

text \<open>
  ``Find the topmost var'': the loop from \<open>nVars-1\<close> down. \<open>None\<close> is the case in which the
  \<open>assert( Var >= 0 )\<close> after the loop fails.
\<close>

definition topmost_var :: "truth \<Rightarrow> truth \<Rightarrow> nat \<Rightarrow> nat \<Rightarrow> nat option" where
  "topmost_var puOn puOnDc nVarsTt nVars =
    find (\<lambda>Var. Kit_TruthVarInSupport puOn nVarsTt Var \<or> Kit_TruthVarInSupport puOnDc nVarsTt Var) (rev [0..<nVars])"

lemma find_rev_upt:
  "find P (rev [0..<n]) = Some v \<Longrightarrow> v < n \<and> P v \<and> (\<forall>u. v < u \<longrightarrow> u < n \<longrightarrow> \<not> P u)"
  "find P (rev [0..<n]) = None \<Longrightarrow> \<forall>u < n. \<not> P u"
  by (induction n) (auto simp: less_Suc_eq split: if_splits)

lemma topmost_var_less: "topmost_var p q k n = Some v \<Longrightarrow> v < n"
  unfolding topmost_var_def by (drule find_rev_upt) simp

section \<open>One word\<close>

function Kit_TruthIsop5_rec :: "u32 \<Rightarrow> u32 \<Rightarrow> nat \<Rightarrow> vec_mem \<Rightarrow> u32 \<times> kit_sop \<times> vec_mem" where
  "Kit_TruthIsop5_rec uOn uOnDc nVars vStore =
    (if uOn = 0 then (0, \<lparr>sop_nLits = 0, sop_nCubes = 0, sop_pCubes = []\<rparr>, vStore)
     else if uOnDc = 0xFFFFFFFF then
       (case Vec_IntFetch vStore 1 of (ok, vStore) \<Rightarrow>
          if \<not> ok then (0, sop_fail, vStore)
          else (0xFFFFFFFF, \<lparr>sop_nLits = 0, sop_nCubes = 1, sop_pCubes = [0]\<rparr>, vStore))
     else
       (case topmost_var [uOn] [uOnDc] 5 nVars of
          None \<Rightarrow> (0, sop_fail, vStore)
        | Some Var \<Rightarrow>
            let uOn0 = Kit_TruthCofactor0 [uOn] (Var + 1) Var ! 0;
                uOn1 = Kit_TruthCofactor1 [uOn] (Var + 1) Var ! 0;
                uOnDc0 = Kit_TruthCofactor0 [uOnDc] (Var + 1) Var ! 0;
                uOnDc1 = Kit_TruthCofactor1 [uOnDc] (Var + 1) Var ! 0
            in
            (case Kit_TruthIsop5_rec (uOn0 AND NOT uOnDc1) uOnDc0 Var vStore of (uRes0, cRes0, vStore) \<Rightarrow>
            if sop_nCubes cRes0 = -1 then (0, sop_fail, vStore) else
            (case Kit_TruthIsop5_rec (uOn1 AND NOT uOnDc0) uOnDc1 Var vStore of (uRes1, cRes1, vStore) \<Rightarrow>
            if sop_nCubes cRes1 = -1 then (0, sop_fail, vStore) else
            (case Kit_TruthIsop5_rec ((uOn0 AND NOT uRes0) OR (uOn1 AND NOT uRes1)) (uOnDc0 AND uOnDc1) Var vStore
              of (uRes2, cRes2, vStore) \<Rightarrow>
            if sop_nCubes cRes2 = -1 then (0, sop_fail, vStore) else
            (case isop_merge Var cRes0 cRes1 cRes2 vStore of (cRes, vStore) \<Rightarrow>
            if sop_nCubes cRes = -1 then (0, sop_fail, vStore) else
            let uMasks = [0xAAAAAAAA, 0xCCCCCCCC, 0xF0F0F0F0, 0xFF00FF00, 0xFFFF0000]
            in (uRes2 OR ((uRes0 AND NOT (uMasks ! Var)) OR (uRes1 AND uMasks ! Var)), cRes, vStore)))))))"
  by pat_completeness auto
termination
  by (relation "measure (\<lambda>(_, _, nVars, _). nVars)") (auto dest: topmost_var_less)

declare Kit_TruthIsop5_rec.simps [simp del]

section \<open>Tables\<close>

text \<open>
  The fetched table \<open>pTemp\<close> has undetermined contents, taken as zeros: every word is written before
  it is read. \<open>puOn0\<close>, \<open>puOn1\<close> and the like are the words of the array from offset 0 and from offset
  \<open>nWords\<close> on, as many as the callee reads.
\<close>

definition copy_blocks :: "nat \<Rightarrow> nat \<Rightarrow> truth \<Rightarrow> truth" where
  "copy_blocks nWordsAll nWords pTemp =
    for_up 1 (nWordsAll div nWords) (\<lambda>i. for_up 0 nWords (\<lambda>k pTemp. pTemp[i * nWords + k := pTemp ! k])) pTemp"

function Kit_TruthIsop_rec :: "truth \<Rightarrow> truth \<Rightarrow> nat \<Rightarrow> vec_mem \<Rightarrow> truth \<times> kit_sop \<times> vec_mem" where
  "Kit_TruthIsop_rec puOn puOnDc nVars vStore =
    (let nWordsAll = Kit_TruthWordNum nVars; pTemp = replicate nWordsAll 0 in
     case Vec_IntFetch vStore nWordsAll of (ok, vStore) \<Rightarrow>
     if \<not> ok then ([], sop_fail, vStore)
     else if Kit_TruthIsConst0 puOn nVars then
       (Kit_TruthClear pTemp nVars, \<lparr>sop_nLits = 0, sop_nCubes = 0, sop_pCubes = []\<rparr>, vStore)
     else if Kit_TruthIsConst1 puOnDc nVars then
       (case Vec_IntFetch vStore 1 of (ok, vStore) \<Rightarrow>
          if \<not> ok then ([], sop_fail, vStore)
          else (Kit_TruthFill pTemp nVars, \<lparr>sop_nLits = 0, sop_nCubes = 1, sop_pCubes = [0]\<rparr>, vStore))
     else
       (case topmost_var puOn puOnDc nVars nVars of
          None \<Rightarrow> ([], sop_fail, vStore)
        | Some Var \<Rightarrow>
          if Var < 5 then
            (case Kit_TruthIsop5_rec (puOn ! 0) (puOnDc ! 0) (Var + 1) vStore of (uRes, cRes, vStore) \<Rightarrow>
               (for_up 0 nWordsAll (\<lambda>i pTemp. pTemp[i := uRes]) pTemp, cRes, vStore))
          else
            let nWords = Kit_TruthWordNum Var;
                puOn0 = take nWords puOn; puOn1 = take nWords (drop nWords puOn);
                puOnDc0 = take nWords puOnDc; puOnDc1 = take nWords (drop nWords puOnDc);
                pTemp0 = take nWords pTemp; pTemp1 = take nWords (drop nWords pTemp);
                pTemp0 = Kit_TruthSharp pTemp0 puOn0 puOnDc1 Var
            in
            (case Kit_TruthIsop_rec pTemp0 puOnDc0 Var vStore of (puRes0, cRes0, vStore) \<Rightarrow>
            if sop_nCubes cRes0 = -1 then ([], sop_fail, vStore) else
            let pTemp1 = Kit_TruthSharp pTemp1 puOn1 puOnDc0 Var in
            (case Kit_TruthIsop_rec pTemp1 puOnDc1 Var vStore of (puRes1, cRes1, vStore) \<Rightarrow>
            if sop_nCubes cRes1 = -1 then ([], sop_fail, vStore) else
            let pTemp0 = Kit_TruthSharp pTemp0 puOn0 puRes0 Var;
                pTemp1 = Kit_TruthSharp pTemp1 puOn1 puRes1 Var;
                pTemp0 = Kit_TruthOr pTemp0 pTemp0 pTemp1 Var;
                pTemp1 = Kit_TruthAnd pTemp1 puOnDc0 puOnDc1 Var
            in
            (case Kit_TruthIsop_rec pTemp0 pTemp1 Var vStore of (puRes2, cRes2, vStore) \<Rightarrow>
            if sop_nCubes cRes2 = -1 then ([], sop_fail, vStore) else
            (case isop_merge Var cRes0 cRes1 cRes2 vStore of (cRes, vStore) \<Rightarrow>
            if sop_nCubes cRes = -1 then ([], sop_fail, vStore) else
            let pTemp0 = Kit_TruthOr pTemp0 puRes0 puRes2 Var;
                pTemp1 = Kit_TruthOr pTemp1 puRes1 puRes2 Var;
                pTemp = pTemp0 @ pTemp1 @ drop (2 * nWords) pTemp
            in (copy_blocks nWordsAll (2 * nWords) pTemp, cRes, vStore)))))))"
  by pat_completeness auto
termination
  by (relation "measure (\<lambda>(_, _, nVars, _). nVars)") (auto dest: topmost_var_less)

declare Kit_TruthIsop_rec.simps [simp del]

section \<open>Entry points\<close>

text \<open>
  \<open>vMemory\<close> is cleared and grown on entry, so only its capacity matters; on return the model has the
  first \<open>nSize\<close> words of the array, or \<open>None\<close> for \<open>nSize = -1\<close>. The tables are complemented in place
  and back, so they are part of the result.
\<close>

definition isop_start :: "nat \<Rightarrow> vec_mem" where
  "isop_start nCap = \<lparr>mem_nSize = 0, mem_nCap = max nCap KIT_ISOP_MEM_LIMIT\<rparr>"

definition isop_trivial :: "kit_sop \<Rightarrow> bool" where
  "isop_trivial cRes \<longleftrightarrow> sop_nCubes cRes = 0 \<or> (sop_nCubes cRes = 1 \<and> sop_pCubes cRes ! 0 = 0)"

definition isop_better :: "kit_sop \<Rightarrow> kit_sop \<Rightarrow> bool" where
  "isop_better cRes2 cRes \<longleftrightarrow> sop_nCubes cRes2 \<ge> 0 \<and>
     (sop_nCubes cRes > sop_nCubes cRes2 \<or>
      (sop_nCubes cRes = sop_nCubes cRes2 \<and> sop_nLits cRes > sop_nLits cRes2))"

definition Kit_TruthIsop :: "truth \<Rightarrow> nat \<Rightarrow> nat \<Rightarrow> bool \<Rightarrow> int \<times> u32 list option \<times> truth" where
  "Kit_TruthIsop puTruth nVars nCap fTryBoth =
    (case Kit_TruthIsop_rec puTruth puTruth nVars (isop_start nCap) of (pResult, cRes, vMemory) \<Rightarrow>
       if sop_nCubes cRes = -1 then (-1, None, puTruth)
       else if isop_trivial cRes then (0, Some (take (nat (sop_nCubes cRes)) [0]), puTruth)
       else if fTryBoth then
         (let puTruth = Kit_TruthNot puTruth puTruth nVars in
          case Kit_TruthIsop_rec puTruth puTruth nVars vMemory of (pResult, cRes2, vMemory) \<Rightarrow>
            let (RetValue, cRes) = (if isop_better cRes2 cRes then (1, cRes2) else (0, cRes));
                puTruth = Kit_TruthNot puTruth puTruth nVars
            in (RetValue, Some (sop_pCubes cRes), puTruth))
       else (0, Some (sop_pCubes cRes), puTruth))"

definition Kit_TruthIsop2 :: "truth \<Rightarrow> truth \<Rightarrow> nat \<Rightarrow> nat \<Rightarrow> bool \<Rightarrow> bool \<Rightarrow> int \<times> u32 list option \<times> truth \<times> truth" where
  "Kit_TruthIsop2 puTruth0 puTruth1 nVars nCap fTryBoth fReturnTt =
    (let puTruth0 = Kit_TruthNot puTruth0 puTruth0 nVars in
     case Kit_TruthIsop_rec puTruth1 puTruth0 nVars (isop_start nCap) of (pResult, cRes, vMemory) \<Rightarrow>
       let puTruth0 = Kit_TruthNot puTruth0 puTruth0 nVars in
       if sop_nCubes cRes = -1 then (-1, None, puTruth0, puTruth1)
       else if isop_trivial cRes then (0, Some (take (nat (sop_nCubes cRes)) [0]), puTruth0, puTruth1)
       else
         let (RetValue, pResult, cRes, puTruth1) =
           (if fTryBoth then
              (let puTruth1 = Kit_TruthNot puTruth1 puTruth1 nVars in
               case Kit_TruthIsop_rec puTruth0 puTruth1 nVars vMemory of (pResult, cRes2, vMemory) \<Rightarrow>
                 let puTruth1 = Kit_TruthNot puTruth1 puTruth1 nVars;
                     (RetValue, cRes) = (if isop_better cRes2 cRes then (1, cRes2) else (0, cRes))
                 in (RetValue, pResult, cRes, puTruth1))
            else (0, pResult, cRes, puTruth1))
         in if fReturnTt then (RetValue, Some (take (Kit_TruthWordNum nVars) pResult), puTruth0, puTruth1)
            else (RetValue, Some (sop_pCubes cRes), puTruth0, puTruth1))"

section \<open>Tables as functions of minterms\<close>

text \<open>A table repeats beyond its size: \<open>tt_fun n p\<close> is its function on all minterms.\<close>

definition tt_fun :: "nat \<Rightarrow> truth \<Rightarrow> nat \<Rightarrow> bool" where
  "tt_fun n p m = tt_bit p (take_bit (max n 5) m)"

definition word_fun :: "u32 \<Rightarrow> nat \<Rightarrow> bool" where
  "word_fun x m = bit x (take_bit 5 m)"

lemma take_tt_less [simp]: "take_bit (max n 5) m < tt_size n"
  unfolding tt_size_pow2 by (rule take_bit_nat_less_exp)

lemma take_tt_id: "m < tt_size n \<Longrightarrow> take_bit (max n 5) m = m"
  unfolding tt_size_pow2 by (rule take_bit_nat_eq_self)

lemma tt_fun_dep: "dep_below (max n 5) (tt_fun n p)"
  by (simp add: dep_below_def tt_fun_def)

lemma word_fun_tt: "tt_fun 5 [x] = word_fun x"
proof (rule ext)
  fix m :: nat
  have "take_bit 5 m < 32" using take_bit_nat_less_exp [of 5 m] by simp
  then show "tt_fun 5 [x] m = word_fun x m" by (simp add: tt_fun_def word_fun_def tt_bit_def)
qed

lemma tt_fun_all: "(\<forall>m. tt_fun n p m) \<longleftrightarrow> (\<forall>m < tt_size n. tt_bit p m)"
  unfolding tt_fun_def by (metis take_tt_id take_tt_less)

lemma tt_fun_none: "(\<forall>m. \<not> tt_fun n p m) \<longleftrightarrow> (\<forall>m < tt_size n. \<not> tt_bit p m)"
  unfolding tt_fun_def by (metis take_tt_id take_tt_less)

lemma word_fun_simps [simp]:
  "word_fun (x AND y) m \<longleftrightarrow> word_fun x m \<and> word_fun y m"
  "word_fun (x OR y) m \<longleftrightarrow> word_fun x m \<or> word_fun y m"
  "word_fun (NOT x) m \<longleftrightarrow> \<not> word_fun x m"
proof -
  have "take_bit 5 m < 32" using take_bit_nat_less_exp [of 5 m] by simp
  then show "word_fun (x AND y) m \<longleftrightarrow> word_fun x m \<and> word_fun y m"
    "word_fun (x OR y) m \<longleftrightarrow> word_fun x m \<or> word_fun y m" "word_fun (NOT x) m \<longleftrightarrow> \<not> word_fun x m"
    by (simp_all add: word_fun_def bit_simps)
qed

lemma word_fun_0: "(\<forall>m. \<not> word_fun x m) \<longleftrightarrow> x = 0"
  using tt_fun_none [of 5 "[x]"] Kit_TruthIsConst0_iff [of "[x]" 5]
  by (simp add: word_fun_tt Kit_TruthIsConst0_def Kit_TruthWordNum_def)

lemma minus_1_word: "(- 1 :: u32) = 0xFFFFFFFF"
  by code_simp

lemma word_fun_1: "(\<forall>m. word_fun x m) \<longleftrightarrow> x = 0xFFFFFFFF"
  unfolding minus_1_word [symmetric]
  using tt_fun_all [of 5 "[x]"] Kit_TruthIsConst1_iff [of "[x]" 5]
  by (simp add: word_fun_tt Kit_TruthIsConst1_def Kit_TruthWordNum_def)

lemma word_fun_mask: "v < 5 \<Longrightarrow> word_fun (hi_mask v) m = bit m v"
  using take_bit_nat_less_exp [of 5 m] by (simp add: word_fun_def bit_hi_mask bit_take_bit_iff)

lemma take_bit_index:
  fixes m :: nat
  assumes "v < k"
  shows "take_bit k (unset_bit v m) = unset_bit v (take_bit k m)" "take_bit k (set_bit v m) = set_bit v (take_bit k m)"
  by (rule bit_eqI, use assms in \<open>auto simp: bit_simps\<close>)+

lemma tt_fun_Cofactor:
  assumes "tt_wf n p" "v < n"
  shows "tt_fun n (Kit_TruthCofactor0 p n v) m = tt_fun n p (unset_bit v m)"
    "tt_fun n (Kit_TruthCofactor1 p n v) m = tt_fun n p (set_bit v m)"
  using assms by (simp_all add: tt_fun_def tt_bit_Cofactor0 tt_bit_Cofactor1 take_bit_index)

lemma word_fun_Cofactor:
  assumes "v < 5"
  shows "word_fun (Kit_TruthCofactor0 [x] (v + 1) v ! 0) m = word_fun x (unset_bit v m)"
    "word_fun (Kit_TruthCofactor1 [x] (v + 1) v ! 0) m = word_fun x (set_bit v m)"
proof -
  have wf: "tt_wf (v + 1) [x]" and n: "max (v + 1) 5 = 5" using assms by (simp_all add: tt_wf_def Kit_TruthWordNum_def)
  have lt: "take_bit 5 m < 32" for m :: nat using take_bit_nat_less_exp [of 5 m] by simp
  have w: "tt_fun (v + 1) p m = word_fun (p ! 0) m" for p m
    unfolding tt_fun_def n word_fun_def tt_bit_def using lt [of m] by simp
  show "word_fun (Kit_TruthCofactor0 [x] (v + 1) v ! 0) m = word_fun x (unset_bit v m)"
    "word_fun (Kit_TruthCofactor1 [x] (v + 1) v ! 0) m = word_fun x (set_bit v m)"
    using tt_fun_Cofactor [OF wf, of v m] unfolding w by simp_all
qed

text \<open>The topmost variable.\<close>

lemma tt_fun_not_depends:
  assumes "v < n" "\<not> depends n p v"
  shows "tt_fun n p (unset_bit v m) = tt_fun n p (set_bit v m)"
  using assms by (simp add: depends_def tt_fun_def take_bit_index)

lemma dep_below_down:
  assumes "dep_below (Suc k) f" and "\<And>m. f (unset_bit k m) = f (set_bit k m)"
  shows "dep_below k f"
  unfolding dep_below_def
proof
  fix m
  have "f m = f (unset_bit k m)" using assms(2) by (cases "bit m k") (metis nat_set_bit_same nat_unset_bit_same)+
  also have "\<dots> = f (take_bit k m)"
    by (rule dep_below_agree [OF assms(1)]) (auto simp: bit_simps less_Suc_eq)
  finally show "f m = f (take_bit k m)" .
qed

lemma dep_below_top:
  assumes "dep_below n (tt_fun N p)" "n \<le> N" "k \<le> n" and "\<And>u. k \<le> u \<Longrightarrow> u < n \<Longrightarrow> \<not> depends N p u"
  shows "dep_below k (tt_fun N p)"
  using assms(3,4)
proof (induction k rule: inc_induct)
  case (step k)
  have "dep_below (Suc k) (tt_fun N p)" by (rule step.IH) (simp add: step.prems)
  moreover have "\<not> depends N p k" "k < N" using step assms(2) by simp_all
  ultimately show ?case using dep_below_down tt_fun_not_depends by blast
qed (rule assms(1))

lemma topmost_var_Some:
  assumes "topmost_var p q N n = Some v" "n \<le> N" "dep_below n (tt_fun N p)" "dep_below n (tt_fun N q)"
  shows "v < n \<and> dep_below (Suc v) (tt_fun N p) \<and> dep_below (Suc v) (tt_fun N q)"
proof -
  have v: "v < n" and top: "\<And>u. Suc v \<le> u \<Longrightarrow> u < n \<Longrightarrow> \<not> depends N p u \<and> \<not> depends N q u"
    using find_rev_upt(1) [OF assms(1) [unfolded topmost_var_def]] assms(2) by (auto simp: VarInSupport_iff)
  then show ?thesis using assms(2-4) by (auto intro: dep_below_top)
qed

lemma topmost_var_None:
  assumes "topmost_var p q N n = None" "n \<le> N" "dep_below n (tt_fun N p)" "dep_below n (tt_fun N q)"
  shows "dep_below 0 (tt_fun N p) \<and> dep_below 0 (tt_fun N q)"
proof -
  have top: "\<And>u. u < n \<Longrightarrow> \<not> depends N p u \<and> \<not> depends N q u"
    using find_rev_upt(2) [OF assms(1) [unfolded topmost_var_def]] assms(2) by (auto simp: VarInSupport_iff)
  then show ?thesis using assms(2-4) by (auto intro: dep_below_top)
qed

lemma dep_below_0: "dep_below 0 f \<Longrightarrow> f m = f m'"
  using dep_below_agree [of 0 f m m'] by simp

section \<open>Correctness of the recursive procedures\<close>

definition sop_ok :: "nat \<Rightarrow> (nat \<Rightarrow> bool) \<Rightarrow> (nat \<Rightarrow> bool) \<Rightarrow> (nat \<Rightarrow> bool) \<Rightarrow> kit_sop \<Rightarrow> bool" where
  "sop_ok k On OnDc R c \<longleftrightarrow> sop_nCubes c = int (length (sop_pCubes c)) \<and>
     sop_nLits c = lit_count (sop_pCubes c) \<and> isop_spec k On OnDc R (sop_pCubes c)"

lemma sop_fail_simps [simp]: "sop_nCubes sop_fail = -1"
  by (simp add: sop_fail_def)

lemma isop_merge_ok:
  assumes st: "isop_step v On OnDc R0 R1 R2 (sop_pCubes c0) (sop_pCubes c1) (sop_pCubes c2)"
    and "sop_nCubes c0 = int (length (sop_pCubes c0))" "sop_nCubes c1 = int (length (sop_pCubes c1))"
      "sop_nCubes c2 = int (length (sop_pCubes c2))"
    and "sop_nLits c0 = lit_count (sop_pCubes c0)" "sop_nLits c1 = lit_count (sop_pCubes c1)"
      "sop_nLits c2 = lit_count (sop_pCubes c2)"
    and m: "isop_merge v c0 c1 c2 s = (c, s')" "sop_nCubes c \<noteq> -1"
  shows "sop_ok (Suc v) On OnDc (\<lambda>m. R2 m \<or> (if bit m v then R1 m else R0 m)) c"
proof -
  have cubes: "sop_pCubes c = merged_cover v (sop_pCubes c0) (sop_pCubes c1) (sop_pCubes c2)"
    and n: "sop_nCubes c = sop_nCubes c0 + sop_nCubes c1 + sop_nCubes c2"
      "sop_nLits c = sop_nLits c0 + sop_nLits c1 + sop_nLits c2 + sop_nCubes c0 + sop_nCubes c1"
    using m by (auto simp: isop_merge_def merged_cover_def add_lit_def [abs_def] Let_def split: prod.splits if_splits)
  show ?thesis
    unfolding sop_ok_def cubes n using assms merged_spec [OF st] lit_count_merged [OF st]
    by (simp add: merged_cover_def)
qed

lemma word_fun_ext:
  "word_fun (x AND y) = (\<lambda>m. word_fun x m \<and> word_fun y m)"
  "word_fun (x OR y) = (\<lambda>m. word_fun x m \<or> word_fun y m)"
  "word_fun (NOT x) = (\<lambda>m. \<not> word_fun x m)"
  by (rule ext, simp)+

lemma word_fun_Cofactor_ext:
  assumes "v < 5"
  shows "word_fun (Kit_TruthCofactor0 [x] (v + 1) v ! 0) = (\<lambda>m. word_fun x (unset_bit v m))"
    "word_fun (Kit_TruthCofactor1 [x] (v + 1) v ! 0) = (\<lambda>m. word_fun x (set_bit v m))"
  using word_fun_Cofactor [OF assms] by blast+

text \<open>The three subproblems of the word procedure, as an \<open>isop_step\<close>.\<close>

lemma isop5_step:
  assumes v: "v < 5"
    and "isop_spec v (word_fun (Kit_TruthCofactor0 [uOn] (v + 1) v ! 0 AND NOT (Kit_TruthCofactor1 [uDc] (v + 1) v ! 0)))
      (word_fun (Kit_TruthCofactor0 [uDc] (v + 1) v ! 0)) (word_fun r0) c0"
    and "isop_spec v (word_fun (Kit_TruthCofactor1 [uOn] (v + 1) v ! 0 AND NOT (Kit_TruthCofactor0 [uDc] (v + 1) v ! 0)))
      (word_fun (Kit_TruthCofactor1 [uDc] (v + 1) v ! 0)) (word_fun r1) c1"
    and "isop_spec v (word_fun ((Kit_TruthCofactor0 [uOn] (v + 1) v ! 0 AND NOT r0) OR (Kit_TruthCofactor1 [uOn] (v + 1) v ! 0 AND NOT r1)))
      (word_fun (Kit_TruthCofactor0 [uDc] (v + 1) v ! 0 AND Kit_TruthCofactor1 [uDc] (v + 1) v ! 0)) (word_fun r2) c2"
  shows "isop_step v (word_fun uOn) (word_fun uDc) (word_fun r0) (word_fun r1) (word_fun r2) c0 c1 c2"
  using assms unfolding isop_step_def word_fun_ext word_fun_Cofactor_ext [OF v] by simp

text \<open>The preconditions of the subproblems: on-set inside, and no dependence on the variable.\<close>

lemma dep_cofactor:
  assumes "dep_below (Suc v) f"
  shows "dep_below v (\<lambda>m. f (unset_bit v m))" "dep_below v (\<lambda>m. f (set_bit v m))"
  unfolding dep_below_def by (intro allI dep_below_agree [OF assms]; simp add: bit_simps; auto)+

lemma dep_bool:
  "dep_below v f \<Longrightarrow> dep_below v g \<Longrightarrow> dep_below v (\<lambda>m. f m \<and> g m)"
  "dep_below v f \<Longrightarrow> dep_below v g \<Longrightarrow> dep_below v (\<lambda>m. f m \<or> g m)"
  "dep_below v f \<Longrightarrow> dep_below v (\<lambda>m. \<not> f m)"
  unfolding dep_below_def by blast+

lemma dep_below_mono: "dep_below k f \<Longrightarrow> k \<le> l \<Longrightarrow> dep_below l f"
  unfolding dep_below_def [of l] by (intro allI, erule dep_below_agree) (simp add: bit_take_bit_iff)

definition isop_pre :: "nat \<Rightarrow> (nat \<Rightarrow> bool) \<Rightarrow> (nat \<Rightarrow> bool) \<Rightarrow> bool" where
  "isop_pre k On OnDc \<longleftrightarrow> (\<forall>m. On m \<longrightarrow> OnDc m) \<and> dep_below k On \<and> dep_below k OnDc"

lemma isop_pre_sub:
  assumes "isop_pre (Suc v) On OnDc"
  shows "isop_pre v (\<lambda>m. On (unset_bit v m) \<and> \<not> OnDc (set_bit v m)) (\<lambda>m. OnDc (unset_bit v m))"
    "isop_pre v (\<lambda>m. On (set_bit v m) \<and> \<not> OnDc (unset_bit v m)) (\<lambda>m. OnDc (set_bit v m))"
  using assms unfolding isop_pre_def by (auto intro!: dep_bool dep_cofactor)

lemma isop_pre_rest:
  assumes "isop_pre (Suc v) On OnDc"
    and "isop_spec v (\<lambda>m. On (unset_bit v m) \<and> \<not> OnDc (set_bit v m)) (\<lambda>m. OnDc (unset_bit v m)) R0 c0"
    and "isop_spec v (\<lambda>m. On (set_bit v m) \<and> \<not> OnDc (unset_bit v m)) (\<lambda>m. OnDc (set_bit v m)) R1 c1"
  shows "isop_pre v (\<lambda>m. On (unset_bit v m) \<and> \<not> R0 m \<or> On (set_bit v m) \<and> \<not> R1 m)
    (\<lambda>m. OnDc (unset_bit v m) \<and> OnDc (set_bit v m))"
proof -
  have "dep_below v R0" "dep_below v R1" using assms isop_spec_dep by blast+
  moreover have "OnDc (unset_bit v m) \<and> OnDc (set_bit v m)"
    if "On (unset_bit v m) \<and> \<not> R0 m \<or> On (set_bit v m) \<and> \<not> R1 m" for m
    using that assms unfolding isop_pre_def isop_spec_def by blast
  ultimately show ?thesis
    using assms(1) unfolding isop_pre_def by (auto intro!: dep_bool dep_cofactor)
qed

lemma hi_mask_list: "v < 5 \<Longrightarrow> [0xAAAAAAAA, 0xCCCCCCCC, 0xF0F0F0F0, 0xFF00FF00, 0xFFFF0000] ! v = hi_mask v"
  by (simp add: hi_mask_def)

lemma isop_pre_top:
  assumes "topmost_var p q N n = Some v" "n \<le> N" "isop_pre n (tt_fun N p) (tt_fun N q)"
  shows "v < n" "isop_pre (Suc v) (tt_fun N p) (tt_fun N q)"
  using topmost_var_Some [OF assms(1,2)] assms(3) unfolding isop_pre_def by auto

lemma Isop5_ok:
  assumes "n \<le> 5" and "isop_pre n (word_fun uOn) (word_fun uDc)"
    and "Kit_TruthIsop5_rec uOn uDc n s = (r, c, s')" and "sop_nCubes c \<noteq> -1"
  shows "sop_ok n (word_fun uOn) (word_fun uDc) (word_fun r) c"
  using assms
proof (induction n arbitrary: uOn uDc s r c s' rule: less_induct)
  case (less n)
  have pre: "isop_pre n (tt_fun 5 [uOn]) (tt_fun 5 [uDc])" using less.prems(2) by (simp add: word_fun_tt)
  note unf = less.prems(3) [unfolded Kit_TruthIsop5_rec.simps [of uOn uDc n s]]
  consider (c0) "uOn = 0" | (c1) "uOn \<noteq> 0" "uDc = 0xFFFFFFFF" | (rec) "uOn \<noteq> 0" "uDc \<noteq> 0xFFFFFFFF" by blast
  then show ?case
  proof cases
    case c0
    have "word_fun 0 = (\<lambda>_. False)" using word_fun_0 [of 0] by blast
    then show ?thesis
      using unf c0 isop_spec_const0 [of "word_fun uOn" n "word_fun uDc"]
      by (auto simp: sop_ok_def lit_count_def)
  next
    case c1
    obtain m where "word_fun uOn m" using c1 word_fun_0 by blast
    moreover have "word_fun uDc = (\<lambda>_. True)" using c1 word_fun_1 by blast
    ultimately show ?thesis
      using unf c1 less.prems(4) isop_spec_const1 [of "word_fun uDc" "word_fun uOn" m n]
      by (auto simp: sop_ok_def lit_count_def word_ones_def split: prod.splits if_splits)
  next
    case rec
    then obtain v where v: "topmost_var [uOn] [uDc] 5 n = Some v"
      using unf less.prems(4) by (auto split: option.splits)
    note top = isop_pre_top [OF v less.prems(1) pre, unfolded word_fun_tt]
    have v5: "v < 5" using top(1) less.prems(1) by simp
    let ?on0 = "Kit_TruthCofactor0 [uOn] (v + 1) v ! 0" and ?on1 = "Kit_TruthCofactor1 [uOn] (v + 1) v ! 0"
    let ?dc0 = "Kit_TruthCofactor0 [uDc] (v + 1) v ! 0" and ?dc1 = "Kit_TruthCofactor1 [uDc] (v + 1) v ! 0"
    obtain r0 c0 s0 where 0: "Kit_TruthIsop5_rec (?on0 AND NOT ?dc1) ?dc0 v s = (r0, c0, s0)" by (metis prod_cases3)
    obtain r1 c1 s1 where 1: "Kit_TruthIsop5_rec (?on1 AND NOT ?dc0) ?dc1 v s0 = (r1, c1, s1)" by (metis prod_cases3)
    obtain r2 c2 s2 where 2: "Kit_TruthIsop5_rec ((?on0 AND NOT r0) OR (?on1 AND NOT r1)) (?dc0 AND ?dc1) v s1 = (r2, c2, s2)"
      by (metis prod_cases3)
    obtain cm sm where m: "isop_merge v c0 c1 c2 s2 = (cm, sm)" by (metis surj_pair)
    have ok: "sop_nCubes c0 \<noteq> -1" "sop_nCubes c1 \<noteq> -1" "sop_nCubes c2 \<noteq> -1" "sop_nCubes cm \<noteq> -1"
      and r: "r = r2 OR ((r0 AND NOT (hi_mask v)) OR (r1 AND hi_mask v))" and c: "c = cm"
      using unf rec v 0 1 2 m less.prems(4) by (auto simp: Let_def hi_mask_list [OF v5] split: if_splits)
    have p0: "isop_pre v (word_fun (?on0 AND NOT ?dc1)) (word_fun ?dc0)"
      and p1: "isop_pre v (word_fun (?on1 AND NOT ?dc0)) (word_fun ?dc1)"
      unfolding word_fun_ext word_fun_Cofactor_ext [OF v5] using isop_pre_sub [OF top(2)] by simp_all
    have s0: "sop_ok v (word_fun (?on0 AND NOT ?dc1)) (word_fun ?dc0) (word_fun r0) c0"
      and s1: "sop_ok v (word_fun (?on1 AND NOT ?dc0)) (word_fun ?dc1) (word_fun r1) c1"
      by (rule less.IH [OF top(1) _ p0 0 ok(1)] less.IH [OF top(1) _ p1 1 ok(2)]; use v5 in simp)+
    have p2: "isop_pre v (word_fun ((?on0 AND NOT r0) OR (?on1 AND NOT r1))) (word_fun (?dc0 AND ?dc1))"
      unfolding word_fun_ext word_fun_Cofactor_ext [OF v5]
      by (rule isop_pre_rest [OF top(2), where ?c0.0 = "sop_pCubes c0" and ?c1.0 = "sop_pCubes c1"])
        (use s0 s1 in \<open>simp_all add: sop_ok_def word_fun_ext word_fun_Cofactor_ext [OF v5, simplified]\<close>)
    have s2: "sop_ok v (word_fun ((?on0 AND NOT r0) OR (?on1 AND NOT r1))) (word_fun (?dc0 AND ?dc1)) (word_fun r2) c2"
      by (rule less.IH [OF top(1) _ p2 2 ok(3)]) (use v5 in simp)
    have step: "isop_step v (word_fun uOn) (word_fun uDc) (word_fun r0) (word_fun r1) (word_fun r2)
        (sop_pCubes c0) (sop_pCubes c1) (sop_pCubes c2)"
      using s0 s1 s2 unfolding sop_ok_def by (intro isop5_step [OF v5]) blast+
    have "word_fun r = (\<lambda>m. word_fun r2 m \<or> (if bit m v then word_fun r1 m else word_fun r0 m))"
      unfolding r by (rule ext) (simp add: word_fun_mask v5)
    then have "sop_ok (Suc v) (word_fun uOn) (word_fun uDc) (word_fun r) c"
      unfolding c using s0 s1 s2 by (simp only:) (rule isop_merge_ok [OF step _ _ _ _ _ _ m ok(4)], simp_all add: sop_ok_def)
    then show ?thesis
      using top(1) by (auto simp: sop_ok_def intro: isop_spec_mono)
  qed
qed

text \<open>Tables of one variable less inside a table.\<close>

lemma tt_fun_writers:
  assumes "tt_wf n p"
  shows "tt_fun n (Kit_TruthSharp p a b n) = (\<lambda>m. tt_fun n a m \<and> \<not> tt_fun n b m)"
    "tt_fun n (Kit_TruthOr p a b n) = (\<lambda>m. tt_fun n a m \<or> tt_fun n b m)"
    "tt_fun n (Kit_TruthAnd p a b n) = (\<lambda>m. tt_fun n a m \<and> tt_fun n b m)"
    "tt_fun n (Kit_TruthNot p a n) = (\<lambda>m. \<not> tt_fun n a m)"
    "tt_fun n (Kit_TruthClear p n) = (\<lambda>m. False)" "tt_fun n (Kit_TruthFill p n) = (\<lambda>m. True)"
  using assms by (simp_all add: fun_eq_iff tt_fun_def tt_simps)

lemma word_num_32: "5 \<le> v \<Longrightarrow> 32 * Kit_TruthWordNum v = 2 ^ v"
  using tt_size_eq [of v] tt_size_def [of v] by (auto simp: le_less)

lemma word_num_Suc: "5 \<le> v \<Longrightarrow> Kit_TruthWordNum (Suc v) = 2 * Kit_TruthWordNum v"
  using Suc_diff_le [of 5 v] by (simp add: Kit_TruthWordNum_def)

lemma word_num_mono: "v \<le> n \<Longrightarrow> Kit_TruthWordNum v \<le> Kit_TruthWordNum n"
  by (auto simp: Kit_TruthWordNum_def)

lemma word_num_dvd: "v \<le> n \<Longrightarrow> Kit_TruthWordNum v dvd Kit_TruthWordNum n"
  by (auto simp: Kit_TruthWordNum_def le_imp_power_dvd)

lemma tt_bit_slice:
  assumes "5 \<le> v" "x < 2 ^ v"
  shows "tt_bit (take (Kit_TruthWordNum v) p) x = tt_bit p x"
    "Kit_TruthWordNum v \<le> length p \<Longrightarrow>
      tt_bit (take (Kit_TruthWordNum v) (drop (Kit_TruthWordNum v) p)) x = tt_bit p (set_bit v x)"
proof -
  have "x < 32 * Kit_TruthWordNum v" using assms by (simp add: word_num_32)
  then have w: "x div 32 < Kit_TruthWordNum v" by (simp add: less_mult_imp_div_less mult.commute)
  then show "tt_bit (take (Kit_TruthWordNum v) p) x = tt_bit p x" by (simp add: tt_bit_def)
  have "\<not> bit x v" using assms(2) by (simp add: nat_less_pow2_iff_bits)
  then have "set_bit v x = x + 32 * Kit_TruthWordNum v" using assms(1) by (simp add: nat_set_bit_clear word_num_32)
  then show "tt_bit (take (Kit_TruthWordNum v) (drop (Kit_TruthWordNum v) p)) x = tt_bit p (set_bit v x)"
    if "Kit_TruthWordNum v \<le> length p" using that w by (simp add: tt_bit_def add.commute)
qed

lemma tt_fun_slice:
  assumes v: "5 \<le> v" "v < n" and wf: "tt_wf n p" and dep: "dep_below (Suc v) (tt_fun n p)"
  shows "tt_fun v (take (Kit_TruthWordNum v) p) = (\<lambda>m. tt_fun n p (unset_bit v m))"
    "tt_fun v (take (Kit_TruthWordNum v) (drop (Kit_TruthWordNum v) p)) = (\<lambda>m. tt_fun n p (set_bit v m))"
    "tt_wf v (take (Kit_TruthWordNum v) p)" "tt_wf v (take (Kit_TruthWordNum v) (drop (Kit_TruthWordNum v) p))"
proof -
  have len: "2 * Kit_TruthWordNum v \<le> length p"
    using word_num_mono [of "Suc v" n] v wf by (simp add: word_num_Suc tt_wf_def)
  then show "tt_wf v (take (Kit_TruthWordNum v) p)" "tt_wf v (take (Kit_TruthWordNum v) (drop (Kit_TruthWordNum v) p))"
    by (simp_all add: tt_wf_def)
  have mx: "max v 5 = v" "max n 5 = n" using v by simp_all
  have lt: "take_bit v m < 2 ^ v" for m :: nat by (rule take_bit_nat_less_exp)
  have "tt_fun n p (unset_bit v m) = tt_fun n p (take_bit v m)"
    "tt_fun n p (set_bit v m) = tt_fun n p (set_bit v (take_bit v m))" for m
    by (rule dep_below_agree [OF dep]; auto simp: bit_simps less_Suc_eq)+
  moreover have "tt_fun n p (take_bit v m) = tt_bit p (take_bit v m)"
    "tt_fun n p (set_bit v (take_bit v m)) = tt_bit p (set_bit v (take_bit v m))" for m
  proof -
    have "take_bit v m < 2 ^ n" "set_bit v (take_bit v m) < 2 ^ n"
      using v by (auto simp: nat_less_pow2_iff_bits bit_take_bit_iff bit_set_bit_iff)
    then show "tt_fun n p (take_bit v m) = tt_bit p (take_bit v m)"
      "tt_fun n p (set_bit v (take_bit v m)) = tt_bit p (set_bit v (take_bit v m))"
      unfolding tt_fun_def mx by (simp_all only: take_bit_nat_eq_self)
  qed
  ultimately show "tt_fun v (take (Kit_TruthWordNum v) p) = (\<lambda>m. tt_fun n p (unset_bit v m))"
    "tt_fun v (take (Kit_TruthWordNum v) (drop (Kit_TruthWordNum v) p)) = (\<lambda>m. tt_fun n p (set_bit v m))"
    using tt_bit_slice [OF v(1) lt] len by (simp_all add: fun_eq_iff tt_fun_def [of v] mx)
qed

lemma tt_fun_word:
  assumes "dep_below 5 (tt_fun n p)"
  shows "tt_fun n p = word_fun (p ! 0)"
proof (rule ext)
  fix m :: nat
  have lt: "take_bit 5 m < 32" using take_bit_nat_less_exp [of 5 m] by simp
  have "tt_fun n p m = tt_fun n p (take_bit 5 m)" using assms by (auto simp: dep_below_def)
  also have "\<dots> = tt_bit p (take_bit 5 m)" by (simp add: tt_fun_def)
  also have "\<dots> = word_fun (p ! 0) m" using lt by (simp add: tt_bit_def word_fun_def)
  finally show "tt_fun n p m = word_fun (p ! 0) m" .
qed

lemma tt_fun_fill_word:
  assumes "tt_wf n p"
  shows "tt_fun n (for_up 0 (Kit_TruthWordNum n) (\<lambda>i p. p[i := x]) p) = word_fun x"
proof (rule ext)
  fix m :: nat
  have "take_bit (max n 5) m mod 32 = take_bit 5 m"
    unfolding mod32 by (simp add: take_bit_take_bit min_def)
  then show "tt_fun n (for_up 0 (Kit_TruthWordNum n) (\<lambda>i p. p[i := x]) p) m = word_fun x m"
    using tt_bit_loop [OF assms take_tt_less, of "\<lambda>_ _. x" m] by (simp add: tt_fun_def word_fun_def)
qed

lemma copy_block_inner:
  assumes "1 \<le> i" "i * B + k \<le> length p" "k \<le> B"
  shows "length (for_up 0 k (\<lambda>k p. p[i * B + k := p ! k]) p) = length p \<and>
    (\<forall>w < length p. for_up 0 k (\<lambda>k p. p[i * B + k := p ! k]) p ! w =
      (if i * B \<le> w \<and> w < i * B + k then p ! (w - i * B) else p ! w))"
  using assms(2,3)
proof (induction k)
  case (Suc k)
  have "k < i * B" using Suc.prems(2) assms(1) by (cases i) auto
  then show ?case using Suc by (auto simp: for_up_Suc nth_list_update less_Suc_eq)
qed auto

lemma copy_blocks_nth:
  assumes "0 < B" "length p = q * B"
  shows "length (copy_blocks (q * B) B p) = length p \<and>
    (\<forall>w < length p. copy_blocks (q * B) B p ! w = p ! (w mod B))"
proof -
  have "length (for_up 1 I (\<lambda>i. for_up 0 B (\<lambda>k p. p[i * B + k := p ! k])) p) = length p \<and>
      (\<forall>w < length p. for_up 1 I (\<lambda>i. for_up 0 B (\<lambda>k p. p[i * B + k := p ! k])) p ! w =
        (if w < I * B then p ! (w mod B) else p ! w))" if "1 \<le> I" "I \<le> q" for I
    using that
  proof (induction I rule: dec_induct)
    case base
    then show ?case by simp
  next
    case (step i)
    define r where "r = for_up 1 i (\<lambda>i. for_up 0 B (\<lambda>k p. p[i * B + k := p ! k])) p"
    have new: "for_up 1 (Suc i) (\<lambda>i. for_up 0 B (\<lambda>k p. p[i * B + k := p ! k])) p =
        for_up 0 B (\<lambda>k p. p[i * B + k := p ! k]) r"
      using step(1) by (simp only: for_up_Suc r_def)
    have ih: "length r = length p" "\<And>w. w < length p \<Longrightarrow> r ! w = (if w < i * B then p ! (w mod B) else p ! w)"
      using step by (auto simp: r_def)
    have le: "i * B + B \<le> length r"
      using ih(1) assms(2) step mult_le_mono1 [of "Suc i" q B] by simp
    have B: "w mod B < i * B" for w
      using step(1) assms(1) mod_less_divisor [of B w] by (cases i) (auto intro: trans_less_add1)
    have shift: "(w - i * B) = w mod B" if "i * B \<le> w" "w < i * B + B" for w
      using that by (metis add_diff_cancel_left' add_diff_inverse_nat mod_less mod_mult_self3 not_less
          nat_add_left_cancel_less)
    show ?case
      unfolding new using copy_block_inner [OF step(1) le order_refl] ih B le
      by (auto simp: shift less_le_trans [OF B])
  qed
  from this [of q] show ?thesis
    using assms by (cases "q = 0") (auto simp: copy_blocks_def for_up_def)
qed

lemma tt_fun_copy_blocks:
  assumes v: "5 \<le> v" "v < n" and wf: "tt_wf v t0" "tt_wf v t1"
    and len: "length (t0 @ t1 @ rest) = Kit_TruthWordNum n"
  shows "tt_wf n (copy_blocks (Kit_TruthWordNum n) (2 * Kit_TruthWordNum v) (t0 @ t1 @ rest))"
    "tt_fun n (copy_blocks (Kit_TruthWordNum n) (2 * Kit_TruthWordNum v) (t0 @ t1 @ rest)) =
      (\<lambda>m. if bit m v then tt_fun v t1 m else tt_fun v t0 m)"
proof -
  let ?B = "2 * Kit_TruthWordNum v" and ?p = "t0 @ t1 @ rest"
  obtain q where q: "Kit_TruthWordNum n = q * ?B"
    using word_num_dvd [of "Suc v" n] v by (auto simp: word_num_Suc dvd_def mult.commute)
  have B: "0 < ?B" "?B = 2 ^ (Suc v - 5)"
    using v word_num_Suc [OF v(1)] by (simp_all add: Kit_TruthWordNum_def [of "Suc v"])
  note cb = copy_blocks_nth [OF B(1) len [unfolded q]]
  show wfq: "tt_wf n (copy_blocks (Kit_TruthWordNum n) ?B ?p)" using cb len q by (simp add: tt_wf_def)
  have low: "tt_fun n (copy_blocks (Kit_TruthWordNum n) ?B ?p) m = tt_bit ?p (take_bit (Suc v) m)" for m
  proof -
    let ?x = "take_bit (max n 5) m"
    have "?x div 32 < length ?p" unfolding len by (rule tt_index) simp
    then have "copy_blocks (Kit_TruthWordNum n) ?B ?p ! (?x div 32) = ?p ! (?x div 32 mod ?B)"
      using cb unfolding q by blast
    moreover have "?x div 32 mod ?B = take_bit (Suc v) m div 32" "?x mod 32 = take_bit (Suc v) m mod 32"
      unfolding B(2) div32 mod32 take_bit_eq_mod [symmetric]
      by (rule bit_eqI, use v in \<open>auto simp: bit_simps\<close>)+
    ultimately show ?thesis by (simp add: tt_fun_def tt_bit_def)
  qed
  have lt: "take_bit v m < 2 ^ v" for m :: nat by (rule take_bit_nat_less_exp)
  have idx: "take_bit (Suc v) m = (if bit m v then set_bit v (take_bit v m) else take_bit v m)" for m :: nat
    by (rule bit_eqI) (auto simp: bit_simps less_Suc_eq)
  have "tt_bit ?p (take_bit v m) = tt_fun v t0 m" "tt_bit ?p (set_bit v (take_bit v m)) = tt_fun v t1 m" for m
    using tt_bit_slice(1) [OF v(1) lt, of ?p m] tt_bit_slice(2) [OF v(1) lt, of ?p m] wf v
    by (simp_all add: tt_wf_def tt_fun_def max_def)
  then show "tt_fun n (copy_blocks (Kit_TruthWordNum n) ?B ?p) = (\<lambda>m. if bit m v then tt_fun v t1 m else tt_fun v t0 m)"
    by (simp add: fun_eq_iff low idx)
qed

lemma isop_pre_const:
  assumes "isop_pre n (tt_fun n on) (tt_fun n dc)" "\<not> Kit_TruthIsConst0 on n" "\<not> Kit_TruthIsConst1 dc n"
  shows "topmost_var on dc n n \<noteq> None"
proof
  assume "topmost_var on dc n n = None"
  then have "dep_below 0 (tt_fun n on)" "dep_below 0 (tt_fun n dc)"
    using topmost_var_None [of on dc n n] assms(1) by (auto simp: isop_pre_def)
  moreover obtain m where "tt_fun n on m"
    using assms(2) tt_fun_none [of n on] by (auto simp: Kit_TruthIsConst0_iff)
  ultimately have "\<forall>m. tt_fun n dc m" using assms(1) dep_below_0 unfolding isop_pre_def by metis
  then show False using assms(3) tt_fun_all [of n dc] by (simp add: Kit_TruthIsConst1_iff)
qed

text \<open>The recursive case of \<open>Kit_TruthIsop_rec\<close>, given what its three calls return.\<close>

lemma Isop_rec_step:
  assumes v: "5 \<le> v" "v < n" "v < 16"
    and s0: "sop_ok v (\<lambda>m. On (unset_bit v m) \<and> \<not> Dc (set_bit v m)) (\<lambda>m. Dc (unset_bit v m)) (tt_fun v r0) c0"
    and s1: "sop_ok v (\<lambda>m. On (set_bit v m) \<and> \<not> Dc (unset_bit v m)) (\<lambda>m. Dc (set_bit v m)) (tt_fun v r1) c1"
    and s2: "sop_ok v (\<lambda>m. On (unset_bit v m) \<and> \<not> tt_fun v r0 m \<or> On (set_bit v m) \<and> \<not> tt_fun v r1 m)
      (\<lambda>m. Dc (unset_bit v m) \<and> Dc (set_bit v m)) (tt_fun v r2) c2"
    and m: "isop_merge v c0 c1 c2 s = (c, s')" "sop_nCubes c \<noteq> -1"
    and q: "tt_wf v q0" "tt_wf v q1" "length (q0 @ q1 @ rest) = Kit_TruthWordNum n"
      "tt_fun v q0 = (\<lambda>m. tt_fun v r0 m \<or> tt_fun v r2 m)" "tt_fun v q1 = (\<lambda>m. tt_fun v r1 m \<or> tt_fun v r2 m)"
  shows "sop_ok (Suc v) On Dc
    (tt_fun n (copy_blocks (Kit_TruthWordNum n) (2 * Kit_TruthWordNum v) (q0 @ q1 @ rest))) c"
proof -
  have step: "isop_step v On Dc (tt_fun v r0) (tt_fun v r1) (tt_fun v r2)
      (sop_pCubes c0) (sop_pCubes c1) (sop_pCubes c2)"
    using s0 s1 s2 v(3) unfolding isop_step_def sop_ok_def by simp
  have "tt_fun n (copy_blocks (Kit_TruthWordNum n) (2 * Kit_TruthWordNum v) (q0 @ q1 @ rest)) =
      (\<lambda>m. tt_fun v r2 m \<or> (if bit m v then tt_fun v r1 m else tt_fun v r0 m))"
    using tt_fun_copy_blocks(2) [OF v(1,2) q(1-3)] q(4,5) by (auto simp: fun_eq_iff)
  then show ?thesis
    using s0 s1 s2 by (simp only:) (rule isop_merge_ok [OF step _ _ _ _ _ _ m], simp_all add: sop_ok_def)
qed

lemma tt_wf_replicate [simp]: "tt_wf n (replicate (Kit_TruthWordNum n) x)"
  by (simp add: tt_wf_def)

lemma Isop_rec_ok:
  assumes "n \<le> 16" "tt_wf n on" "tt_wf n dc" and "isop_pre n (tt_fun n on) (tt_fun n dc)"
    and "Kit_TruthIsop_rec on dc n s = (r, c, s')" and "sop_nCubes c \<noteq> -1"
  shows "tt_wf n r \<and> sop_ok n (tt_fun n on) (tt_fun n dc) (tt_fun n r) c"
  using assms
proof (induction n arbitrary: on dc s r c s' rule: less_induct)
  case (less n)
  let ?N = "Kit_TruthWordNum n"
  obtain ok s00 where f: "Vec_IntFetch s ?N = (ok, s00)" by (metis surj_pair)
  note unf = less.prems(5) [unfolded Kit_TruthIsop_rec.simps [of on dc n s]]
  have ok: ok using unf less.prems(6) f by (cases ok) auto
  consider (c0) "Kit_TruthIsConst0 on n" | (c1) "\<not> Kit_TruthIsConst0 on n" "Kit_TruthIsConst1 dc n"
    | (rec) "\<not> Kit_TruthIsConst0 on n" "\<not> Kit_TruthIsConst1 dc n" by blast
  then show ?case
  proof cases
    case c0
    then have "\<forall>m. \<not> tt_fun n on m" unfolding Kit_TruthIsConst0_iff tt_fun_none .
    then show ?thesis
      using unf c0 f ok by (auto simp: sop_ok_def lit_count_def tt_fun_writers isop_spec_const0)
  next
    case c1
    obtain m where "tt_fun n on m" using c1 tt_fun_none [of n on] unfolding Kit_TruthIsConst0_iff by blast
    moreover have "tt_fun n dc = (\<lambda>_. True)"
      using c1(2) unfolding Kit_TruthIsConst1_iff tt_fun_all [symmetric] by blast
    ultimately show ?thesis
      using unf c1 f ok less.prems(6) isop_spec_const1 [of "tt_fun n dc" "tt_fun n on" m n]
      by (auto simp: sop_ok_def lit_count_def word_ones_def tt_fun_writers split: prod.splits if_splits)
  next
    case rec
    then obtain v where v: "topmost_var on dc n n = Some v"
      using isop_pre_const [OF less.prems(4)] by auto
    note top = isop_pre_top [OF v order_refl less.prems(4)]
    show ?thesis
    proof (cases "v < 5")
      case True
      have dep: "dep_below 5 (tt_fun n on)" "dep_below 5 (tt_fun n dc)"
        using top(2) True dep_below_mono [of "Suc v" _ 5] by (auto simp: isop_pre_def)
      note w = tt_fun_word [OF dep(1)] tt_fun_word [OF dep(2)]
      obtain uRes s5 where 5: "Kit_TruthIsop5_rec (on ! 0) (dc ! 0) (v + 1) s00 = (uRes, c, s5)"
        and r: "r = for_up 0 ?N (\<lambda>i p. p[i := uRes]) (replicate ?N 0)"
        using unf f ok rec v True by (auto simp: Let_def split: prod.splits)
      have "sop_ok (v + 1) (word_fun (on ! 0)) (word_fun (dc ! 0)) (word_fun uRes) c"
        by (rule Isop5_ok [OF _ _ 5 less.prems(6)]) (use True top(2) w in \<open>simp_all\<close>)
      moreover have "tt_fun n r = word_fun uRes" unfolding r by (rule tt_fun_fill_word) simp
      moreover have "tt_wf n r" unfolding r by (simp add: tt_wf_def)
      ultimately show ?thesis
        unfolding w using top(1) isop_spec_mono [of "v + 1" _ _ _ _ n] by (auto simp: sop_ok_def)
    next
      case False
      then have v5: "5 \<le> v" by simp
      let ?W = "Kit_TruthWordNum v" and ?T = "replicate ?N (0 :: u32)"
      have dep: "dep_below (Suc v) (tt_fun n on)" "dep_below (Suc v) (tt_fun n dc)"
        using top(2) by (simp_all add: isop_pre_def)
      note slice = tt_fun_slice [OF v5 top(1) less.prems(2) dep(1)] tt_fun_slice [OF v5 top(1) less.prems(3) dep(2)]
      have NW: "2 * ?W \<le> ?N" using word_num_mono [of "Suc v" n] top(1) v5 by (simp add: word_num_Suc)
      have tw: "tt_wf v (take ?W ?T)" "tt_wf v (take ?W (drop ?W ?T))"
        using NW by (simp_all add: tt_wf_def)
      define a0 where "a0 = Kit_TruthSharp (take ?W ?T) (take ?W on) (take ?W (drop ?W dc)) v"
      define a1 where "a1 = Kit_TruthSharp (take ?W (drop ?W ?T)) (take ?W (drop ?W on)) (take ?W dc) v"
      obtain r0 c0 s0 where 0: "Kit_TruthIsop_rec a0 (take ?W dc) v s00 = (r0, c0, s0)" by (metis prod_cases3)
      obtain r1 c1 s1 where 1: "Kit_TruthIsop_rec a1 (take ?W (drop ?W dc)) v s0 = (r1, c1, s1)" by (metis prod_cases3)
      define b0 where "b0 = Kit_TruthSharp a0 (take ?W on) r0 v"
      define b1 where "b1 = Kit_TruthSharp a1 (take ?W (drop ?W on)) r1 v"
      define d0 where "d0 = Kit_TruthOr b0 b0 b1 v"
      define d1 where "d1 = Kit_TruthAnd b1 (take ?W dc) (take ?W (drop ?W dc)) v"
      obtain r2 c2 s2 where 2: "Kit_TruthIsop_rec d0 d1 v s1 = (r2, c2, s2)" by (metis prod_cases3)
      obtain cm sm where m: "isop_merge v c0 c1 c2 s2 = (cm, sm)" by (metis surj_pair)
      have nf: "sop_nCubes c0 \<noteq> -1" "sop_nCubes c1 \<noteq> -1" "sop_nCubes c2 \<noteq> -1" "sop_nCubes cm \<noteq> -1"
        and r: "r = copy_blocks ?N (2 * ?W) (Kit_TruthOr d0 r0 r2 v @ Kit_TruthOr d1 r1 r2 v @ drop (2 * ?W) ?T)"
        and c: "c = cm"
        using unf f ok rec v False less.prems(6) 0 1 2 m
        unfolding a0_def a1_def b0_def b1_def d0_def d1_def by (auto simp: Let_def split: if_splits)
      have wf: "tt_wf v a0" "tt_wf v a1" "tt_wf v b0" "tt_wf v b1" "tt_wf v d0" "tt_wf v d1"
        using tw by (simp_all add: a0_def a1_def b0_def b1_def d0_def d1_def)
      have fa: "tt_fun v a0 = (\<lambda>m. tt_fun n on (unset_bit v m) \<and> \<not> tt_fun n dc (set_bit v m))"
        "tt_fun v a1 = (\<lambda>m. tt_fun n on (set_bit v m) \<and> \<not> tt_fun n dc (unset_bit v m))"
        unfolding a0_def a1_def using tw by (simp_all add: tt_fun_writers slice)
      have fd: "tt_fun v d0 = (\<lambda>m. tt_fun n on (unset_bit v m) \<and> \<not> tt_fun v r0 m \<or> tt_fun n on (set_bit v m) \<and> \<not> tt_fun v r1 m)"
        "tt_fun v d1 = (\<lambda>m. tt_fun n dc (unset_bit v m) \<and> tt_fun n dc (set_bit v m))"
        using wf by (simp_all add: d0_def d1_def b0_def b1_def tt_fun_writers slice)
      have v16: "v \<le> 16" "v < 16" using top(1) less.prems(1) by simp_all
      have k0: "tt_wf v r0 \<and> sop_ok v (tt_fun v a0) (tt_fun v (take ?W dc)) (tt_fun v r0) c0"
        by (rule less.IH [OF top(1) v16(1) wf(1) slice(7) _ 0 nf(1)]) (use isop_pre_sub(1) [OF top(2)] in \<open>simp add: fa slice\<close>)
      have k1: "tt_wf v r1 \<and> sop_ok v (tt_fun v a1) (tt_fun v (take ?W (drop ?W dc))) (tt_fun v r1) c1"
        by (rule less.IH [OF top(1) v16(1) wf(2) slice(8) _ 1 nf(2)]) (use isop_pre_sub(2) [OF top(2)] in \<open>simp add: fa slice\<close>)
      have p2: "isop_pre v (tt_fun v d0) (tt_fun v d1)"
        unfolding fd by (rule isop_pre_rest [OF top(2), where ?c0.0 = "sop_pCubes c0" and ?c1.0 = "sop_pCubes c1"])
          (use k0 k1 in \<open>simp_all add: sop_ok_def fa slice\<close>)
      have k2: "tt_wf v r2 \<and> sop_ok v (tt_fun v d0) (tt_fun v d1) (tt_fun v r2) c2"
        by (rule less.IH [OF top(1) v16(1) wf(5,6) p2 2 nf(3)])
      have q: "tt_wf v (Kit_TruthOr d0 r0 r2 v)" "tt_wf v (Kit_TruthOr d1 r1 r2 v)" using wf by simp_all
      then have len: "length (Kit_TruthOr d0 r0 r2 v @ Kit_TruthOr d1 r1 r2 v @ drop (2 * ?W) ?T) = ?N"
        using NW by (simp add: tt_wf_def)
      have "sop_ok (Suc v) (tt_fun n on) (tt_fun n dc) (tt_fun n r) c"
        unfolding r c using k0 k1 k2 wf
        by (intro Isop_rec_step [OF v5 top(1) v16(2) _ _ _ m nf(4) q len]) (simp_all add: fa fd slice tt_fun_writers)
      moreover have "tt_wf n r" unfolding r by (rule tt_fun_copy_blocks(1) [OF v5 top(1) q len])
      ultimately show ?thesis
        using top(1) isop_spec_mono [of "Suc v" _ _ _ _ n] by (auto simp: sop_ok_def)
    qed
  qed
qed

section \<open>Memory\<close>

text \<open>
  How many words the procedures fetch at most. A cover on \<open>k\<close> variables has at most \<open>2 ^ k\<close> cubes,
  because every cube is needed for a minterm of its own.
\<close>

primrec isop5_mem :: "nat \<Rightarrow> nat" where
  "isop5_mem 0 = 1"
| "isop5_mem (Suc k) = 3 * isop5_mem k + 2 ^ Suc k"

primrec isop_mem :: "nat \<Rightarrow> nat" where
  "isop_mem 0 = Kit_TruthWordNum 0 + isop5_mem 0"
| "isop_mem (Suc n) = Kit_TruthWordNum (Suc n) +
     (if n < 5 then isop5_mem (Suc n) else 3 * isop_mem n + 2 ^ Suc n)"

definition mem_fits :: "nat \<Rightarrow> vec_mem \<Rightarrow> vec_mem \<Rightarrow> bool" where
  "mem_fits k s s' \<longleftrightarrow> mem_nCap s' = mem_nCap s \<and> mem_nSize s' \<le> mem_nSize s + k"

lemma mem_fits_refl [simp]: "mem_fits k s s"
  by (simp add: mem_fits_def)

lemma mem_fits_trans: "mem_fits k s s' \<Longrightarrow> mem_fits l s' s'' \<Longrightarrow> k + l \<le> j \<Longrightarrow> mem_fits j s s''"
  by (auto simp: mem_fits_def)

lemma Vec_IntFetch_fits:
  assumes "0 < w" "w \<le> k" "mem_nSize s + k \<le> mem_nCap s"
  shows "\<exists>s'. Vec_IntFetch s w = (True, s') \<and> mem_fits w s s'"
  using assms by (auto simp: Vec_IntFetch_def mem_fits_def)

lemma isop5_mem_mono: "v \<le> n \<Longrightarrow> isop5_mem v \<le> isop5_mem n"
  by (induction n rule: dec_induct) auto

lemma isop5_mem_pos: "0 < isop5_mem n"
  by (induction n) auto

lemma isop5_mem_le: "isop5_mem n \<le> isop_mem n"
proof (induction n)
  case (Suc n)
  then show ?case by simp
qed simp

lemma isop_mem_step:
  "v < n \<Longrightarrow> 5 \<le> v \<Longrightarrow> Kit_TruthWordNum n + (3 * isop_mem v + 2 ^ Suc v) \<le> isop_mem n"
proof (induction n)
  case (Suc n)
  have "3 * isop_mem v + 2 ^ Suc v \<le> 3 * isop_mem n + 2 ^ Suc n"
  proof (cases "v = n")
    case False
    then have "3 * isop_mem v + 2 ^ Suc v \<le> isop_mem n" using Suc by simp
    then show ?thesis by simp
  qed simp
  then show ?case using Suc.prems by simp
qed simp

lemma isop_merge_mem:
  assumes st: "isop_step v On OnDc R0 R1 R2 (sop_pCubes c0) (sop_pCubes c1) (sop_pCubes c2)"
    and "sop_nCubes c0 = int (length (sop_pCubes c0))" "sop_nCubes c1 = int (length (sop_pCubes c1))"
      "sop_nCubes c2 = int (length (sop_pCubes c2))"
    and "On m" and mem: "mem_nSize s + 2 ^ Suc v \<le> mem_nCap s"
  shows "\<exists>c s'. isop_merge v c0 c1 c2 s = (c, s') \<and> sop_nCubes c \<noteq> -1 \<and> mem_fits (2 ^ Suc v) s s'"
proof -
  let ?cs = "merged_cover v (sop_pCubes c0) (sop_pCubes c1) (sop_pCubes c2)"
  note spec = merged_spec [OF st]
  have len: "0 < length ?cs" "length ?cs \<le> 2 ^ Suc v"
    using isop_spec_nonempty [OF spec] isop_spec_size [OF spec] \<open>On m\<close> by auto
  have n: "sop_nCubes c0 + sop_nCubes c1 + sop_nCubes c2 = int (length ?cs)"
    using assms(2-4) by (simp add: merged_cover_def)
  obtain s' where f: "Vec_IntFetch s (length ?cs) = (True, s')" "mem_fits (length ?cs) s s'"
    using Vec_IntFetch_fits [OF len mem] by blast
  have "mem_fits (2 ^ Suc v) s s'" using f(2) len(2) by (auto simp: mem_fits_def)
  then show ?thesis using f(1) len(1) by (simp add: isop_merge_def n Let_def)
qed

lemma Isop5_mem:
  assumes "n \<le> 5" and "isop_pre n (word_fun uOn) (word_fun uDc)"
    and "mem_nSize s + isop5_mem n \<le> mem_nCap s"
  shows "\<exists>r c s'. Kit_TruthIsop5_rec uOn uDc n s = (r, c, s') \<and> sop_nCubes c \<noteq> -1 \<and> mem_fits (isop5_mem n) s s'"
  using assms
proof (induction n arbitrary: uOn uDc s rule: less_induct)
  case (less n)
  have pre: "isop_pre n (tt_fun 5 [uOn]) (tt_fun 5 [uDc])" using less.prems(2) by (simp add: word_fun_tt)
  consider (c0) "uOn = 0" | (c1) "uOn \<noteq> 0" "uDc = 0xFFFFFFFF" | (rec) "uOn \<noteq> 0" "uDc \<noteq> 0xFFFFFFFF" by blast
  then show ?case
  proof cases
    case c0
    then show ?thesis by (subst Kit_TruthIsop5_rec.simps) simp
  next
    case c1
    obtain s' where "Vec_IntFetch s 1 = (True, s')" "mem_fits 1 s s'"
      using Vec_IntFetch_fits [of 1 "isop5_mem n" s] less.prems(3) isop5_mem_pos [of n] by auto
    then show ?thesis
      using c1 isop5_mem_pos [of n] by (subst Kit_TruthIsop5_rec.simps) (auto simp: mem_fits_def)
  next
    case rec
    obtain mm where mm: "word_fun uOn mm" using rec(1) word_fun_0 by blast
    have "topmost_var [uOn] [uDc] 5 n \<noteq> None"
    proof
      assume "topmost_var [uOn] [uDc] 5 n = None"
      then have "dep_below 0 (word_fun uOn)" "dep_below 0 (word_fun uDc)"
        using topmost_var_None [of "[uOn]" "[uDc]" 5 n] less.prems(1,2) by (auto simp: isop_pre_def word_fun_tt)
      then have "\<forall>m. word_fun uDc m" using less.prems(2) mm dep_below_0 unfolding isop_pre_def by metis
      then show False using rec(2) word_fun_1 by blast
    qed
    then obtain v where v: "topmost_var [uOn] [uDc] 5 n = Some v" by auto
    note top = isop_pre_top [OF v less.prems(1) pre, unfolded word_fun_tt]
    have v5: "v < 5" "v \<le> 5" using top(1) less.prems(1) by simp_all
    let ?on0 = "Kit_TruthCofactor0 [uOn] (v + 1) v ! 0" and ?on1 = "Kit_TruthCofactor1 [uOn] (v + 1) v ! 0"
    let ?dc0 = "Kit_TruthCofactor0 [uDc] (v + 1) v ! 0" and ?dc1 = "Kit_TruthCofactor1 [uDc] (v + 1) v ! 0"
    have mem: "3 * isop5_mem v + 2 ^ Suc v \<le> isop5_mem n"
      using isop5_mem_mono [of "Suc v" n] top(1) by simp
    have p0: "isop_pre v (word_fun (?on0 AND NOT ?dc1)) (word_fun ?dc0)"
      and p1: "isop_pre v (word_fun (?on1 AND NOT ?dc0)) (word_fun ?dc1)"
      unfolding word_fun_ext word_fun_Cofactor_ext [OF v5(1)] using isop_pre_sub [OF top(2)] by simp_all
    obtain r0 c0 s0 where 0: "Kit_TruthIsop5_rec (?on0 AND NOT ?dc1) ?dc0 v s = (r0, c0, s0)" "sop_nCubes c0 \<noteq> -1"
      "mem_fits (isop5_mem v) s s0"
      using less.IH [OF top(1) v5(2) p0, of s] less.prems(3) mem by auto
    obtain r1 c1 s1 where 1: "Kit_TruthIsop5_rec (?on1 AND NOT ?dc0) ?dc1 v s0 = (r1, c1, s1)" "sop_nCubes c1 \<noteq> -1"
      "mem_fits (isop5_mem v) s0 s1"
      using less.IH [OF top(1) v5(2) p1, of s0] less.prems(3) mem 0(3) by (auto simp: mem_fits_def)
    note k0 = Isop5_ok [OF v5(2) p0 0(1,2)] and k1 = Isop5_ok [OF v5(2) p1 1(1,2)]
    have p2: "isop_pre v (word_fun ((?on0 AND NOT r0) OR (?on1 AND NOT r1))) (word_fun (?dc0 AND ?dc1))"
      unfolding word_fun_ext word_fun_Cofactor_ext [OF v5(1)]
      by (rule isop_pre_rest [OF top(2), where ?c0.0 = "sop_pCubes c0" and ?c1.0 = "sop_pCubes c1"])
        (use k0 k1 in \<open>simp_all add: sop_ok_def word_fun_ext word_fun_Cofactor_ext [OF v5(1), simplified]\<close>)
    obtain r2 c2 s2 where 2: "Kit_TruthIsop5_rec ((?on0 AND NOT r0) OR (?on1 AND NOT r1)) (?dc0 AND ?dc1) v s1 = (r2, c2, s2)"
      "sop_nCubes c2 \<noteq> -1" "mem_fits (isop5_mem v) s1 s2"
      using less.IH [OF top(1) v5(2) p2, of s1] less.prems(3) mem 0(3) 1(3) by (auto simp: mem_fits_def)
    note k2 = Isop5_ok [OF v5(2) p2 2(1,2)]
    have step: "isop_step v (word_fun uOn) (word_fun uDc) (word_fun r0) (word_fun r1) (word_fun r2)
        (sop_pCubes c0) (sop_pCubes c1) (sop_pCubes c2)"
      using k0 k1 k2 unfolding sop_ok_def by (intro isop5_step [OF v5(1)]) blast+
    obtain c s' where m: "isop_merge v c0 c1 c2 s2 = (c, s')" "sop_nCubes c \<noteq> -1" "mem_fits (2 ^ Suc v) s2 s'"
      using isop_merge_mem [OF step _ _ _ mm, of s2] k0 k1 k2 less.prems(3) mem 0(3) 1(3) 2(3)
      by (auto simp: sop_ok_def mem_fits_def)
    have "mem_fits (isop5_mem n) s s'" using 0(3) 1(3) 2(3) m(3) mem by (auto simp: mem_fits_def)
    then show ?thesis
      using rec v 0(1,2) 1(1,2) 2(1,2) m(1,2) by (subst Kit_TruthIsop5_rec.simps) (simp add: Let_def)
  qed
qed

lemma Isop_rec_mem:
  assumes "n \<le> 16" "tt_wf n on" "tt_wf n dc" and "isop_pre n (tt_fun n on) (tt_fun n dc)"
    and "mem_nSize s + isop_mem n \<le> mem_nCap s"
  shows "\<exists>r c s'. Kit_TruthIsop_rec on dc n s = (r, c, s') \<and> sop_nCubes c \<noteq> -1 \<and> mem_fits (isop_mem n) s s'"
  using assms
proof (induction n arbitrary: on dc s rule: less_induct)
  case (less n)
  let ?N = "Kit_TruthWordNum n"
  have Nmem: "?N + isop5_mem n \<le> isop_mem n"
    using isop5_mem_le [of "n - 1"] by (cases n) auto
  obtain s00 where f: "Vec_IntFetch s ?N = (True, s00)" "mem_fits ?N s s00"
    using Vec_IntFetch_fits [of ?N "isop_mem n" s] less.prems(5) Nmem by auto
  consider (c0) "Kit_TruthIsConst0 on n" | (c1) "\<not> Kit_TruthIsConst0 on n" "Kit_TruthIsConst1 dc n"
    | (rec) "\<not> Kit_TruthIsConst0 on n" "\<not> Kit_TruthIsConst1 dc n" by blast
  then show ?case
  proof cases
    case c0
    then show ?thesis using f Nmem by (subst Kit_TruthIsop_rec.simps) (auto simp: mem_fits_def)
  next
    case c1
    obtain s' where "Vec_IntFetch s00 1 = (True, s')" "mem_fits 1 s00 s'"
      using Vec_IntFetch_fits [of 1 "isop5_mem n" s00] less.prems(5) isop5_mem_pos [of n] Nmem f(2)
      by (auto simp: mem_fits_def)
    then show ?thesis
      using c1 f isop5_mem_pos [of n] Nmem by (subst Kit_TruthIsop_rec.simps) (auto simp: mem_fits_def)
  next
    case rec
    obtain mm where mm: "tt_fun n on mm"
      using rec(1) tt_fun_none [of n on] unfolding Kit_TruthIsConst0_iff by blast
    obtain v where v: "topmost_var on dc n n = Some v"
      using isop_pre_const [OF less.prems(4) rec] by auto
    note top = isop_pre_top [OF v order_refl less.prems(4)]
    show ?thesis
    proof (cases "v < 5")
      case True
      have dep: "dep_below 5 (tt_fun n on)" "dep_below 5 (tt_fun n dc)"
        using top(2) True dep_below_mono [of "Suc v" _ 5] by (auto simp: isop_pre_def)
      note w = tt_fun_word [OF dep(1)] tt_fun_word [OF dep(2)]
      have pre5: "isop_pre (v + 1) (word_fun (on ! 0)) (word_fun (dc ! 0))" using top(2) w by simp
      have m5: "isop5_mem (v + 1) \<le> isop5_mem n" using top(1) by (intro isop5_mem_mono) simp
      have "\<exists>r c s'. Kit_TruthIsop5_rec (on ! 0) (dc ! 0) (v + 1) s00 = (r, c, s') \<and> sop_nCubes c \<noteq> -1 \<and>
          mem_fits (isop5_mem (v + 1)) s00 s'"
        by (rule Isop5_mem [OF _ pre5]) (use True f(2) less.prems(5) Nmem m5 in \<open>auto simp: mem_fits_def\<close>)
      then obtain r c s' where 5: "Kit_TruthIsop5_rec (on ! 0) (dc ! 0) (v + 1) s00 = (r, c, s')"
        "sop_nCubes c \<noteq> -1" "mem_fits (isop5_mem (v + 1)) s00 s'" by blast
      have "mem_fits (isop_mem n) s s'" using f(2) 5(3) Nmem m5 by (auto simp: mem_fits_def)
      then show ?thesis using f(1) rec v True 5 by (subst Kit_TruthIsop_rec.simps) (simp add: Let_def)
    next
      case False
      then have v5: "5 \<le> v" by simp
      let ?W = "Kit_TruthWordNum v" and ?T = "replicate ?N (0 :: u32)"
      have mem: "?N + (3 * isop_mem v + 2 ^ Suc v) \<le> isop_mem n" using top(1) v5 by (rule isop_mem_step)
      have dep: "dep_below (Suc v) (tt_fun n on)" "dep_below (Suc v) (tt_fun n dc)"
        using top(2) by (simp_all add: isop_pre_def)
      note slice = tt_fun_slice [OF v5 top(1) less.prems(2) dep(1)] tt_fun_slice [OF v5 top(1) less.prems(3) dep(2)]
      have NW: "2 * ?W \<le> ?N" using word_num_mono [of "Suc v" n] top(1) v5 by (simp add: word_num_Suc)
      have tw: "tt_wf v (take ?W ?T)" "tt_wf v (take ?W (drop ?W ?T))" using NW by (simp_all add: tt_wf_def)
      have v16: "v \<le> 16" "v < 16" using top(1) less.prems(1) by simp_all
      define a0 where "a0 = Kit_TruthSharp (take ?W ?T) (take ?W on) (take ?W (drop ?W dc)) v"
      define a1 where "a1 = Kit_TruthSharp (take ?W (drop ?W ?T)) (take ?W (drop ?W on)) (take ?W dc) v"
      have wa: "tt_wf v a0" "tt_wf v a1" using tw by (simp_all add: a0_def a1_def)
      have fa: "tt_fun v a0 = (\<lambda>m. tt_fun n on (unset_bit v m) \<and> \<not> tt_fun n dc (set_bit v m))"
        "tt_fun v a1 = (\<lambda>m. tt_fun n on (set_bit v m) \<and> \<not> tt_fun n dc (unset_bit v m))"
        unfolding a0_def a1_def using tw by (simp_all add: tt_fun_writers slice)
      have p0: "isop_pre v (tt_fun v a0) (tt_fun v (take ?W dc))"
        and p1: "isop_pre v (tt_fun v a1) (tt_fun v (take ?W (drop ?W dc)))"
        using isop_pre_sub [OF top(2)] by (simp_all add: fa slice)
      obtain r0 c0 s0 where 0: "Kit_TruthIsop_rec a0 (take ?W dc) v s00 = (r0, c0, s0)" "sop_nCubes c0 \<noteq> -1"
        "mem_fits (isop_mem v) s00 s0"
        using less.IH [OF top(1) v16(1) wa(1) slice(7) p0, of s00] less.prems(5) mem f(2) by (auto simp: mem_fits_def)
      obtain r1 c1 s1 where 1: "Kit_TruthIsop_rec a1 (take ?W (drop ?W dc)) v s0 = (r1, c1, s1)" "sop_nCubes c1 \<noteq> -1"
        "mem_fits (isop_mem v) s0 s1"
        using less.IH [OF top(1) v16(1) wa(2) slice(8) p1, of s0] less.prems(5) mem f(2) 0(3) by (auto simp: mem_fits_def)
      note k0 = Isop_rec_ok [OF v16(1) wa(1) slice(7) p0 0(1,2)] and k1 = Isop_rec_ok [OF v16(1) wa(2) slice(8) p1 1(1,2)]
      define b0 where "b0 = Kit_TruthSharp a0 (take ?W on) r0 v"
      define b1 where "b1 = Kit_TruthSharp a1 (take ?W (drop ?W on)) r1 v"
      define d0 where "d0 = Kit_TruthOr b0 b0 b1 v"
      define d1 where "d1 = Kit_TruthAnd b1 (take ?W dc) (take ?W (drop ?W dc)) v"
      have wf: "tt_wf v b0" "tt_wf v b1" "tt_wf v d0" "tt_wf v d1"
        using wa by (simp_all add: b0_def b1_def d0_def d1_def)
      have fd: "tt_fun v d0 = (\<lambda>m. tt_fun n on (unset_bit v m) \<and> \<not> tt_fun v r0 m \<or> tt_fun n on (set_bit v m) \<and> \<not> tt_fun v r1 m)"
        "tt_fun v d1 = (\<lambda>m. tt_fun n dc (unset_bit v m) \<and> tt_fun n dc (set_bit v m))"
        using wf wa by (simp_all add: d0_def d1_def b0_def b1_def tt_fun_writers slice)
      have p2: "isop_pre v (tt_fun v d0) (tt_fun v d1)"
        unfolding fd by (rule isop_pre_rest [OF top(2), where ?c0.0 = "sop_pCubes c0" and ?c1.0 = "sop_pCubes c1"])
          (use k0 k1 in \<open>simp_all add: sop_ok_def fa slice\<close>)
      obtain r2 c2 s2 where 2: "Kit_TruthIsop_rec d0 d1 v s1 = (r2, c2, s2)" "sop_nCubes c2 \<noteq> -1" "mem_fits (isop_mem v) s1 s2"
        using less.IH [OF top(1) v16(1) wf(3,4) p2, of s1] less.prems(5) mem f(2) 0(3) 1(3) by (auto simp: mem_fits_def)
      note k2 = Isop_rec_ok [OF v16(1) wf(3,4) p2 2(1,2)]
      have step: "isop_step v (tt_fun n on) (tt_fun n dc) (tt_fun v r0) (tt_fun v r1) (tt_fun v r2)
          (sop_pCubes c0) (sop_pCubes c1) (sop_pCubes c2)"
        using k0 k1 k2 v16(2) unfolding isop_step_def sop_ok_def fa fd slice by simp
      obtain c s' where m: "isop_merge v c0 c1 c2 s2 = (c, s')" "sop_nCubes c \<noteq> -1" "mem_fits (2 ^ Suc v) s2 s'"
        using isop_merge_mem [OF step _ _ _ mm, of s2] k0 k1 k2 less.prems(5) mem f(2) 0(3) 1(3) 2(3)
        by (auto simp: sop_ok_def mem_fits_def)
      have "mem_fits (isop_mem n) s s'" using f(2) 0(3) 1(3) 2(3) m(3) mem by (auto simp: mem_fits_def)
      then show ?thesis
        using f(1) rec v False 0(1,2) 1(1,2) 2(1,2) m(1,2)
        unfolding a0_def a1_def b0_def b1_def d0_def d1_def by (subst Kit_TruthIsop_rec.simps) (simp add: Let_def)
    qed
  qed
qed

section \<open>The entry points\<close>

lemma isop5_mem_num: "0 < n \<Longrightarrow> isop5_mem n = 3 * isop5_mem (n - 1) + 2 ^ n"
  by (cases n) auto

lemma isop_mem_num:
  "isop_mem n = Kit_TruthWordNum n + (if n \<le> 5 then isop5_mem n else 3 * isop_mem (n - 1) + 2 ^ n)"
  by (cases n) auto

lemma isop_mem_mono: "isop_mem n \<le> isop_mem (Suc n)"
proof (cases "n < 5")
  case True
  then have "isop_mem n = 1 + isop5_mem n" by (simp add: isop_mem_num [of n] Kit_TruthWordNum_def)
  with True show ?thesis by (simp add: Kit_TruthWordNum_def)
qed simp

lemma Isop_mem_limit:
  assumes "n \<le> 11"
  shows "isop_mem n \<le> KIT_ISOP_MEM_LIMIT"
proof -
  have 5: "isop5_mem 5 = 665" by (simp add: isop5_mem_num)
  have "isop_mem n \<le> isop_mem 11"
    using assms by (rule lift_Suc_mono_le [of isop_mem, OF isop_mem_mono])
  also have "isop_mem 11 \<le> KIT_ISOP_MEM_LIMIT"
    by (simp add: isop_mem_num [of "numeral k" for k] 5 KIT_ISOP_MEM_LIMIT_def Kit_TruthWordNum_def)
  finally show ?thesis .
qed

lemma Not_Not: "tt_wf n p \<Longrightarrow> Kit_TruthNot (Kit_TruthNot p p n) (Kit_TruthNot p p n) n = p"
  by (rule tt_eqI [of n]) (simp_all add: tt_simps)

lemma sop_ok_trivial:
  assumes "sop_ok k On OnDc R c" "isop_trivial c"
  shows "take (nat (sop_nCubes c)) [0] = sop_pCubes c"
  using assms by (cases "sop_pCubes c") (auto simp: sop_ok_def isop_trivial_def)

lemma isop_spec_exact: "isop_spec k f f R cs \<Longrightarrow> R = f"
  by (auto simp: isop_spec_def fun_eq_iff)

text \<open>
  The assertions of \<open>Kit_TruthIsop\<close> on the table that comes with the cover: the model drops this table, because it is
  always equal to the input.
\<close>

lemma Isop_assertion:
  assumes "n \<le> 16" "tt_wf n p" "dep_below n (tt_fun n p)" "Kit_TruthIsop_rec p p n s = (r, c, s')" "sop_nCubes c \<noteq> -1"
  shows "Kit_TruthIsEqual p r n"
proof -
  have "isop_pre n (tt_fun n p) (tt_fun n p)" using assms(3) by (simp add: isop_pre_def dep_bool)
  then have "sop_ok n (tt_fun n p) (tt_fun n p) (tt_fun n r) c" using Isop_rec_ok [OF assms(1,2,2) _ assms(4,5)] by blast
  then have "tt_fun n r = tt_fun n p" using isop_spec_exact by (auto simp: sop_ok_def)
  then have "tt_bit r m = tt_bit p m" if "m < tt_size n" for m
  proof -
    have "take_bit (max n 5) m = m" using that by (simp add: tt_size_pow2 take_bit_nat_eq_self)
    then show ?thesis using fun_cong [OF \<open>tt_fun n r = tt_fun n p\<close>, of m] by (simp add: tt_fun_def)
  qed
  then show ?thesis by (simp add: Kit_TruthIsEqual_iff)
qed

lemma Kit_TruthIsop_ok:
  assumes n: "n \<le> 16" and wf: "tt_wf n p" and dep: "dep_below n (tt_fun n p)"
    and r: "Kit_TruthIsop p n nCap fTryBoth = (RetValue, cov, p')"
  shows "p' = p \<and> (case cov of None \<Rightarrow> RetValue = -1
    | Some cs \<Rightarrow> RetValue \<in> {0, 1} \<and>
        isop_spec n (\<lambda>m. tt_fun n p m \<noteq> (RetValue = 1)) (\<lambda>m. tt_fun n p m \<noteq> (RetValue = 1))
          (\<lambda>m. tt_fun n p m \<noteq> (RetValue = 1)) cs)"
proof -
  obtain r1 c1 s1 where 1: "Kit_TruthIsop_rec p p n (isop_start nCap) = (r1, c1, s1)" by (metis prod_cases3)
  define q where "q = Kit_TruthNot p p n"
  obtain r2 c2 s2 where 2: "Kit_TruthIsop_rec q q n s1 = (r2, c2, s2)" by (metis prod_cases3)
  have q: "tt_wf n q" "tt_fun n q = (\<lambda>m. \<not> tt_fun n p m)" "Kit_TruthNot q q n = p"
    using wf by (simp_all add: q_def tt_fun_writers Not_Not)
  have "isop_pre n (tt_fun n p) (tt_fun n p)" "isop_pre n (tt_fun n q) (tt_fun n q)"
    using dep by (simp_all add: isop_pre_def q dep_bool)
  then have ok: "sop_nCubes c1 \<noteq> -1 \<Longrightarrow> sop_ok n (tt_fun n p) (tt_fun n p) (tt_fun n r1) c1"
    "sop_nCubes c2 \<noteq> -1 \<Longrightarrow> sop_ok n (tt_fun n q) (tt_fun n q) (tt_fun n r2) c2"
    using Isop_rec_ok [OF n wf wf _ 1] Isop_rec_ok [OF n q(1) q(1) _ 2] by blast+
  have fin: "isop_spec n f f f (sop_pCubes c)" if "sop_ok n f f R c" for f R c
    using that isop_spec_exact [of n f R "sop_pCubes c"] by (auto simp: sop_ok_def)
  consider (fail) "sop_nCubes c1 = -1" | (triv) "sop_nCubes c1 \<noteq> -1" "isop_trivial c1"
    | (one) "sop_nCubes c1 \<noteq> -1" "\<not> isop_trivial c1" "\<not> (fTryBoth \<and> isop_better c2 c1)"
    | (two) "sop_nCubes c1 \<noteq> -1" "\<not> isop_trivial c1" "fTryBoth" "isop_better c2 c1" by blast
  then show ?thesis
  proof cases
    case fail
    then show ?thesis using r 1 by (auto simp: Kit_TruthIsop_def)
  next
    case triv
    then show ?thesis
      using r 1 fin [OF ok(1)] sop_ok_trivial [OF ok(1)] by (auto simp: Kit_TruthIsop_def)
  next
    case one
    then show ?thesis
      using r 1 2 q(3) fin [OF ok(1)] by (auto simp: Kit_TruthIsop_def q_def [symmetric] Let_def split: if_splits)
  next
    case two
    then have "sop_nCubes c2 \<noteq> -1" by (auto simp: isop_better_def)
    from fin [OF ok(2) [OF this]] two show ?thesis
      using r 1 2 q(2,3) by (auto simp: Kit_TruthIsop_def q_def [symmetric] Let_def)
  qed
qed

lemma Kit_TruthIsop_succeeds:
  assumes n: "n \<le> 16" and wf: "tt_wf n p" and dep: "dep_below n (tt_fun n p)"
    and mem: "isop_mem n \<le> max nCap KIT_ISOP_MEM_LIMIT"
  shows "fst (Kit_TruthIsop p n nCap fTryBoth) \<noteq> -1"
proof -
  have "isop_pre n (tt_fun n p) (tt_fun n p)" using dep by (simp add: isop_pre_def)
  then obtain r c s where "Kit_TruthIsop_rec p p n (isop_start nCap) = (r, c, s)" "sop_nCubes c \<noteq> -1"
    using Isop_rec_mem [OF n wf wf, of "isop_start nCap"] mem by (auto simp: isop_start_def)
  then show ?thesis
    by (auto simp: Kit_TruthIsop_def Let_def split: prod.splits)
qed

lemma Kit_TruthIsop2_ok:
  assumes n: "n \<le> 16" and wf: "tt_wf n t0" "tt_wf n t1" and dep: "dep_below n (tt_fun n t0)" "dep_below n (tt_fun n t1)"
    and disj: "\<forall>m. \<not> (tt_fun n t0 m \<and> tt_fun n t1 m)"
    and r: "Kit_TruthIsop2 t0 t1 n nCap fTryBoth False = (RetValue, cov, t0', t1')"
  shows "t0' = t0 \<and> t1' = t1 \<and> (case cov of None \<Rightarrow> RetValue = -1
    | Some cs \<Rightarrow> (RetValue = 0 \<and> isop_spec n (tt_fun n t1) (\<lambda>m. \<not> tt_fun n t0 m) (cover_holds cs) cs) \<or>
        (RetValue = 1 \<and> isop_spec n (tt_fun n t0) (\<lambda>m. \<not> tt_fun n t1 m) (cover_holds cs) cs))"
proof -
  define q0 where "q0 = Kit_TruthNot t0 t0 n"
  define q1 where "q1 = Kit_TruthNot t1 t1 n"
  obtain r1 c1 s1 where 1: "Kit_TruthIsop_rec t1 q0 n (isop_start nCap) = (r1, c1, s1)" by (metis prod_cases3)
  obtain r2 c2 s2 where 2: "Kit_TruthIsop_rec t0 q1 n s1 = (r2, c2, s2)" by (metis prod_cases3)
  have q: "tt_wf n q0" "tt_wf n q1" "tt_fun n q0 = (\<lambda>m. \<not> tt_fun n t0 m)" "tt_fun n q1 = (\<lambda>m. \<not> tt_fun n t1 m)"
    "Kit_TruthNot q0 q0 n = t0" "Kit_TruthNot q1 q1 n = t1"
    using wf by (simp_all add: q0_def q1_def tt_fun_writers Not_Not)
  have "isop_pre n (tt_fun n t1) (tt_fun n q0)" "isop_pre n (tt_fun n t0) (tt_fun n q1)"
    using dep disj by (auto simp: isop_pre_def q dep_bool)
  then have ok: "sop_nCubes c1 \<noteq> -1 \<Longrightarrow> sop_ok n (tt_fun n t1) (tt_fun n q0) (tt_fun n r1) c1"
    "sop_nCubes c2 \<noteq> -1 \<Longrightarrow> sop_ok n (tt_fun n t0) (tt_fun n q1) (tt_fun n r2) c2"
    using Isop_rec_ok [OF n wf(2) q(1) _ 1] Isop_rec_ok [OF n wf(1) q(2) _ 2] by blast+
  have fin: "isop_spec n f g (cover_holds (sop_pCubes c)) (sop_pCubes c)" if "sop_ok n f g R c" for f g R c
    using that by (auto simp: sop_ok_def isop_spec_def)
  consider (fail) "sop_nCubes c1 = -1" | (triv) "sop_nCubes c1 \<noteq> -1" "isop_trivial c1"
    | (one) "sop_nCubes c1 \<noteq> -1" "\<not> isop_trivial c1" "\<not> (fTryBoth \<and> isop_better c2 c1)"
    | (two) "sop_nCubes c1 \<noteq> -1" "\<not> isop_trivial c1" "fTryBoth" "isop_better c2 c1" by blast
  then show ?thesis
  proof cases
    case fail
    then show ?thesis using r 1 q(5) by (auto simp: Kit_TruthIsop2_def q0_def [symmetric] Let_def)
  next
    case triv
    then show ?thesis
      using r 1 q fin [OF ok(1)] sop_ok_trivial [OF ok(1)] by (auto simp: Kit_TruthIsop2_def q0_def [symmetric] Let_def)
  next
    case one
    then show ?thesis
      using r 1 2 q fin [OF ok(1)]
      by (auto simp: Kit_TruthIsop2_def q0_def [symmetric] q1_def [symmetric] Let_def split: if_splits)
  next
    case two
    then have "sop_nCubes c2 \<noteq> -1" by (auto simp: isop_better_def)
    from fin [OF ok(2) [OF this]] two show ?thesis
      using r 1 2 q by (auto simp: Kit_TruthIsop2_def q0_def [symmetric] q1_def [symmetric] Let_def)
  qed
qed

end
