(* ===== verification/Kit_Graph.thy ===== *)
theory Kit_Graph
  imports Kit_Isop
begin

text \<open>
  Factored forms (\<open>kitGraph.c\<close>): a graph of AND nodes with complemented edges over numbered leaves.
  The operations that build graphs, the meaning of a graph under an assignment of its leaves, the
  evaluation to a truth table and the depth computations. The field of 30 bits that holds a node number
  is a \<^typ>\<open>nat\<close>: the graphs of the theorems have far fewer than \<open>2 ^ 30\<close> nodes.
\<close>

section \<open>The model\<close>

record kit_edge =
  e_fCompl :: bool
  e_Node :: nat

record kit_node =
  n_eEdge0 :: kit_edge
  n_eEdge1 :: kit_edge
  n_pFunc :: u32
  n_fNodeOr :: bool
  n_fCompl0 :: bool
  n_fCompl1 :: bool

text \<open>\<open>g_pNodes\<close> has the first \<open>nSize\<close> entries of the allocated array.\<close>

record kit_graph =
  g_fConst :: bool
  g_nLeaves :: nat
  g_nSize :: nat
  g_nCap :: nat
  g_pNodes :: "kit_node list"
  g_eRoot :: kit_edge

definition Kit_EdgeCreate :: "nat \<Rightarrow> bool \<Rightarrow> kit_edge" where
  "Kit_EdgeCreate Node fCompl = \<lparr>e_fCompl = fCompl, e_Node = Node\<rparr>"

definition Kit_EdgeToInt :: "kit_edge \<Rightarrow> nat" where
  "Kit_EdgeToInt eEdge = push_bit 1 (e_Node eEdge) OR of_bool (e_fCompl eEdge)"

definition Kit_IntToEdge :: "nat \<Rightarrow> kit_edge" where
  "Kit_IntToEdge Edge = Kit_EdgeCreate (drop_bit 1 Edge) (Edge AND 1 \<noteq> 0)"

definition zero_edge :: kit_edge where
  "zero_edge = \<lparr>e_fCompl = False, e_Node = 0\<rparr>"

definition zero_node :: kit_node where
  "zero_node = \<lparr>n_eEdge0 = zero_edge, n_eEdge1 = zero_edge, n_pFunc = 0, n_fNodeOr = False,
     n_fCompl0 = False, n_fCompl1 = False\<rparr>"

definition edge_not :: "kit_edge \<Rightarrow> kit_edge" where
  "edge_not e = e\<lparr>e_fCompl := \<not> e_fCompl e\<rparr>"

definition Kit_GraphCreate :: "nat \<Rightarrow> kit_graph" where
  "Kit_GraphCreate nLeaves =
    \<lparr>g_fConst = False, g_nLeaves = nLeaves, g_nSize = nLeaves, g_nCap = 2 * nLeaves + 50,
     g_pNodes = replicate nLeaves zero_node, g_eRoot = zero_edge\<rparr>"

definition Kit_GraphCreateConst0 :: kit_graph where
  "Kit_GraphCreateConst0 =
    \<lparr>g_fConst = True, g_nLeaves = 0, g_nSize = 0, g_nCap = 0, g_pNodes = [],
     g_eRoot = zero_edge\<lparr>e_fCompl := True\<rparr>\<rparr>"

definition Kit_GraphCreateConst1 :: kit_graph where
  "Kit_GraphCreateConst1 =
    \<lparr>g_fConst = True, g_nLeaves = 0, g_nSize = 0, g_nCap = 0, g_pNodes = [], g_eRoot = zero_edge\<rparr>"

definition Kit_GraphCreateLeaf :: "nat \<Rightarrow> nat \<Rightarrow> bool \<Rightarrow> kit_graph" where
  "Kit_GraphCreateLeaf iLeaf nLeaves fCompl =
    (Kit_GraphCreate nLeaves)\<lparr>g_eRoot := \<lparr>e_fCompl = fCompl, e_Node = iLeaf\<rparr>\<rparr>"

definition Kit_GraphAppendNode :: "kit_graph \<Rightarrow> kit_node \<Rightarrow> kit_graph" where
  "Kit_GraphAppendNode pGraph pNode =
    (let pGraph = (if g_nSize pGraph = g_nCap pGraph then pGraph\<lparr>g_nCap := 2 * g_nCap pGraph\<rparr> else pGraph)
     in pGraph\<lparr>g_nSize := g_nSize pGraph + 1, g_pNodes := g_pNodes pGraph @ [pNode]\<rparr>)"

text \<open>
  \<open>Kit_GraphAppendNode\<close> clears the new node and returns it; its two callers fill it in. The model
  appends the filled node.
\<close>

definition Kit_GraphAddNodeAnd :: "kit_graph \<Rightarrow> kit_edge \<Rightarrow> kit_edge \<Rightarrow> kit_graph \<times> kit_edge" where
  "Kit_GraphAddNodeAnd pGraph eEdge0 eEdge1 =
    (let pNode = zero_node\<lparr>n_eEdge0 := eEdge0, n_eEdge1 := eEdge1, n_fCompl0 := e_fCompl eEdge0,
           n_fCompl1 := e_fCompl eEdge1\<rparr>;
         pGraph = Kit_GraphAppendNode pGraph pNode
     in (pGraph, Kit_EdgeCreate (g_nSize pGraph - 1) False))"

definition Kit_GraphAddNodeOr :: "kit_graph \<Rightarrow> kit_edge \<Rightarrow> kit_edge \<Rightarrow> kit_graph \<times> kit_edge" where
  "Kit_GraphAddNodeOr pGraph eEdge0 eEdge1 =
    (let pNode = zero_node\<lparr>n_eEdge0 := eEdge0, n_eEdge1 := eEdge1, n_fCompl0 := e_fCompl eEdge0,
           n_fCompl1 := e_fCompl eEdge1\<rparr>;
         pNode = pNode\<lparr>n_fNodeOr := True, n_eEdge0 := edge_not (n_eEdge0 pNode), n_eEdge1 := edge_not (n_eEdge1 pNode)\<rparr>;
         pGraph = Kit_GraphAppendNode pGraph pNode
     in (pGraph, Kit_EdgeCreate (g_nSize pGraph - 1) True))"

definition Kit_GraphAddNodeXor :: "kit_graph \<Rightarrow> kit_edge \<Rightarrow> kit_edge \<Rightarrow> nat \<Rightarrow> kit_graph \<times> kit_edge" where
  "Kit_GraphAddNodeXor pGraph eEdge0 eEdge1 Type =
    (if Type = 0 then
       let eEdge0 = edge_not eEdge0;
           (pGraph, eNode0) = Kit_GraphAddNodeAnd pGraph eEdge0 eEdge1;
           eEdge0 = edge_not eEdge0;
           eEdge1 = edge_not eEdge1;
           (pGraph, eNode1) = Kit_GraphAddNodeAnd pGraph eEdge0 eEdge1
       in Kit_GraphAddNodeOr pGraph eNode0 eNode1
     else
       let (pGraph, eNode0) = Kit_GraphAddNodeAnd pGraph eEdge0 eEdge1;
           eEdge0 = edge_not eEdge0;
           eEdge1 = edge_not eEdge1;
           (pGraph, eNode1) = Kit_GraphAddNodeAnd pGraph eEdge0 eEdge1;
           (pGraph, eNode) = Kit_GraphAddNodeOr pGraph eNode0 eNode1
       in (pGraph, edge_not eNode))"

definition Kit_GraphAddNodeMux :: "kit_graph \<Rightarrow> kit_edge \<Rightarrow> kit_edge \<Rightarrow> kit_edge \<Rightarrow> nat \<Rightarrow> kit_graph \<times> kit_edge" where
  "Kit_GraphAddNodeMux pGraph eEdgeC eEdgeT eEdgeE Type =
    (if Type = 0 then
       let (pGraph, eNode0) = Kit_GraphAddNodeAnd pGraph eEdgeC eEdgeT;
           eEdgeC = edge_not eEdgeC;
           (pGraph, eNode1) = Kit_GraphAddNodeAnd pGraph eEdgeC eEdgeE
       in Kit_GraphAddNodeOr pGraph eNode0 eNode1
     else
       let eEdgeT = edge_not eEdgeT;
           eEdgeE = edge_not eEdgeE;
           (pGraph, eNode0) = Kit_GraphAddNodeAnd pGraph eEdgeC eEdgeT;
           eEdgeC = edge_not eEdgeC;
           (pGraph, eNode1) = Kit_GraphAddNodeAnd pGraph eEdgeC eEdgeE;
           (pGraph, eNode) = Kit_GraphAddNodeOr pGraph eNode0 eNode1
       in (pGraph, edge_not eNode))"

definition Kit_GraphIsVar :: "kit_graph \<Rightarrow> bool" where
  "Kit_GraphIsVar pGraph \<longleftrightarrow> e_Node (g_eRoot pGraph) < g_nLeaves pGraph"

definition Kit_GraphSetRoot :: "kit_graph \<Rightarrow> kit_edge \<Rightarrow> kit_graph" where
  "Kit_GraphSetRoot pGraph eRoot = pGraph\<lparr>g_eRoot := eRoot\<rparr>"

definition Kit_GraphComplement :: "kit_graph \<Rightarrow> kit_graph" where
  "Kit_GraphComplement pGraph = pGraph\<lparr>g_eRoot := edge_not (g_eRoot pGraph)\<rparr>"

definition Kit_GraphNodeNum :: "kit_graph \<Rightarrow> nat" where
  "Kit_GraphNodeNum pGraph = g_nSize pGraph - g_nLeaves pGraph"

text \<open>
  \<open>Kit_GraphToTruth\<close> keeps the table of every node in its \<open>pFunc\<close>; the result is the table and the
  graph with these fields written.
\<close>

definition set_pFunc :: "kit_node list \<Rightarrow> nat \<Rightarrow> u32 \<Rightarrow> kit_node list" where
  "set_pFunc ns i x = ns[i := (ns ! i)\<lparr>n_pFunc := x\<rparr>]"

definition graph_truth_step :: "nat \<Rightarrow> kit_node list \<times> u32 \<Rightarrow> kit_node list \<times> u32" where
  "graph_truth_step i = (\<lambda>(pNodes, uTruth).
     let pNode = pNodes ! i;
         uTruth0 = n_pFunc (pNodes ! e_Node (n_eEdge0 pNode));
         uTruth1 = n_pFunc (pNodes ! e_Node (n_eEdge1 pNode));
         uTruth0 = (if e_fCompl (n_eEdge0 pNode) then NOT uTruth0 else uTruth0);
         uTruth1 = (if e_fCompl (n_eEdge1 pNode) then NOT uTruth1 else uTruth1);
         uTruth = uTruth0 AND uTruth1
     in (set_pFunc pNodes i uTruth, uTruth))"

definition Kit_GraphToTruth :: "kit_graph \<Rightarrow> u32 \<times> kit_graph" where
  "Kit_GraphToTruth pGraph =
    (let uTruths = [0xAAAAAAAA, 0xCCCCCCCC, 0xF0F0F0F0, 0xFF00FF00, 0xFFFF0000];
         compl = e_fCompl (g_eRoot pGraph)
     in if g_fConst pGraph then (if compl then 0 else NOT 0, pGraph)
        else if Kit_GraphIsVar pGraph then
          (if compl then NOT (uTruths ! e_Node (g_eRoot pGraph)) else uTruths ! e_Node (g_eRoot pGraph), pGraph)
        else
          let pNodes = for_up 0 (g_nLeaves pGraph) (\<lambda>i pNodes. set_pFunc pNodes i (uTruths ! i)) (g_pNodes pGraph);
              (pNodes, uTruth) = for_up (g_nLeaves pGraph) (g_nSize pGraph) graph_truth_step (pNodes, 0)
          in (if compl then NOT uTruth else uTruth, pGraph\<lparr>g_pNodes := pNodes\<rparr>))"

section \<open>Well-formed graphs and their meaning\<close>

definition graph_wf :: "kit_graph \<Rightarrow> bool" where
  "graph_wf g \<longleftrightarrow> length (g_pNodes g) = g_nSize g \<and> g_nLeaves g \<le> g_nSize g \<and> g_nSize g \<le> g_nCap g \<and> 0 < g_nCap g \<and>
     (\<forall>i. g_nLeaves g \<le> i \<longrightarrow> i < g_nSize g \<longrightarrow>
       e_Node (n_eEdge0 (g_pNodes g ! i)) < i \<and> e_Node (n_eEdge1 (g_pNodes g ! i)) < i)"

function node_val :: "nat \<Rightarrow> kit_node list \<Rightarrow> (nat \<Rightarrow> bool) \<Rightarrow> nat \<Rightarrow> bool" where
  "node_val L ns env i =
    (if i < L then env i
     else
       (let e0 = n_eEdge0 (ns ! i); e1 = n_eEdge1 (ns ! i) in
        if e_Node e0 < i \<and> e_Node e1 < i
        then (node_val L ns env (e_Node e0) \<noteq> e_fCompl e0) \<and> (node_val L ns env (e_Node e1) \<noteq> e_fCompl e1)
        else False))"
  by pat_completeness auto
termination by (relation "measure (\<lambda>(L, ns, env, i). i)") auto

declare node_val.simps [simp del]

definition edge_val :: "kit_graph \<Rightarrow> (nat \<Rightarrow> bool) \<Rightarrow> kit_edge \<Rightarrow> bool" where
  "edge_val g env e \<longleftrightarrow> node_val (g_nLeaves g) (g_pNodes g) env (e_Node e) \<noteq> e_fCompl e"

definition graph_val :: "kit_graph \<Rightarrow> (nat \<Rightarrow> bool) \<Rightarrow> bool" where
  "graph_val g env \<longleftrightarrow> (if g_fConst g then \<not> e_fCompl (g_eRoot g) else edge_val g env (g_eRoot g))"

definition edge_ok :: "kit_graph \<Rightarrow> kit_edge \<Rightarrow> bool" where
  "edge_ok g e \<longleftrightarrow> e_Node e < g_nSize g"

text \<open>One graph extends another: all old nodes are there, with their values.\<close>

definition extends :: "kit_graph \<Rightarrow> kit_graph \<Rightarrow> bool" where
  "extends g g' \<longleftrightarrow> graph_wf g' \<and> g_nLeaves g' = g_nLeaves g \<and> g_nSize g \<le> g_nSize g' \<and> g_fConst g' = g_fConst g \<and>
     (\<forall>env e. edge_ok g e \<longrightarrow> edge_val g' env e = edge_val g env e)"

lemma extends_refl: "graph_wf g \<Longrightarrow> extends g g"
  by (simp add: extends_def)

lemma extends_trans: "extends g g' \<Longrightarrow> extends g' g'' \<Longrightarrow> extends g g''"
  by (auto simp: extends_def edge_ok_def)

lemma extends_ok: "extends g g' \<Longrightarrow> edge_ok g e \<Longrightarrow> edge_ok g' e"
  by (auto simp: extends_def edge_ok_def)

lemma extends_val: "extends g g' \<Longrightarrow> edge_ok g e \<Longrightarrow> edge_val g' env e = edge_val g env e"
  by (simp add: extends_def)

lemma extends_wf: "extends g g' \<Longrightarrow> graph_wf g'"
  by (simp add: extends_def)

lemma edge_not_simps [simp]: "e_Node (edge_not e) = e_Node e" "edge_ok g (edge_not e) = edge_ok g e"
    "edge_val g env (edge_not e) = (\<not> edge_val g env e)" "edge_not (edge_not e) = e"
  by (auto simp: edge_not_def edge_ok_def edge_val_def)

lemma node_val_append:
  "i < length ns \<Longrightarrow> node_val L (ns @ ms) env i = node_val L ns env i"
proof (induction i rule: less_induct)
  case (less i)
  then show ?case
    by (subst (1 2) node_val.simps) (auto simp: nth_append Let_def)
qed

lemma append_node:
  assumes "graph_wf g" and "edge_ok g (n_eEdge0 nd)" "edge_ok g (n_eEdge1 nd)"
  shows "extends g (Kit_GraphAppendNode g nd)" "g_nSize (Kit_GraphAppendNode g nd) = Suc (g_nSize g)"
    "node_val (g_nLeaves g) (g_pNodes (Kit_GraphAppendNode g nd)) env (g_nSize g) =
      (edge_val g env (n_eEdge0 nd) \<and> edge_val g env (n_eEdge1 nd))"
proof -
  let ?g = "Kit_GraphAppendNode g nd"
  have f: "g_pNodes ?g = g_pNodes g @ [nd]" "g_nSize ?g = Suc (g_nSize g)" "g_nLeaves ?g = g_nLeaves g"
    "g_fConst ?g = g_fConst g" "Suc (g_nSize g) \<le> g_nCap ?g"
    using assms(1) by (auto simp: Kit_GraphAppendNode_def Let_def graph_wf_def)
  have len: "length (g_pNodes g) = g_nSize g" using assms(1) by (simp add: graph_wf_def)
  have "graph_wf ?g"
    using assms f by (auto simp: graph_wf_def edge_ok_def nth_append less_Suc_eq)
  then show "extends g ?g"
    using f len by (auto simp: extends_def edge_val_def edge_ok_def node_val_append)
  show "g_nSize ?g = Suc (g_nSize g)" by (rule f)
  show "node_val (g_nLeaves g) (g_pNodes ?g) env (g_nSize g) =
      (edge_val g env (n_eEdge0 nd) \<and> edge_val g env (n_eEdge1 nd))"
    unfolding f(1) using assms len
    by (subst node_val.simps) (auto simp: graph_wf_def edge_ok_def edge_val_def nth_append node_val_append Let_def)
qed

lemma new_edge:
  assumes "extends g g'" "g_nSize g' = Suc (g_nSize g)"
  shows "edge_ok g' (Kit_EdgeCreate (g_nSize g) c)" "e_Node (Kit_EdgeCreate (g_nSize g) c) = g_nSize g"
    "edge_val g' env (Kit_EdgeCreate (g_nSize g) c) = (node_val (g_nLeaves g) (g_pNodes g') env (g_nSize g) \<noteq> c)"
  using assms by (simp_all add: Kit_EdgeCreate_def edge_ok_def edge_val_def extends_def)

lemma add_and:
  assumes "graph_wf g" "edge_ok g a" "edge_ok g b" and r: "Kit_GraphAddNodeAnd g a b = (g', e)"
  shows "extends g g'" "edge_ok g' e" "edge_val g' env e = (edge_val g env a \<and> edge_val g env b)"
    "e_Node e = g_nSize g" "g_nSize g' = Suc (g_nSize g)"
proof -
  let ?nd = "zero_node\<lparr>n_eEdge0 := a, n_eEdge1 := b, n_fCompl0 := e_fCompl a, n_fCompl1 := e_fCompl b\<rparr>"
  note ap = append_node [of g ?nd, simplified, OF assms(1-3)]
  have g': "g' = Kit_GraphAppendNode g ?nd" and e: "e = Kit_EdgeCreate (g_nSize g) False"
    using r ap(2) by (auto simp: Kit_GraphAddNodeAnd_def Let_def)
  show "extends g g'" "edge_ok g' e" "edge_val g' env e = (edge_val g env a \<and> edge_val g env b)"
    "e_Node e = g_nSize g" "g_nSize g' = Suc (g_nSize g)"
    unfolding g' e using ap new_edge [OF ap(1,2)] by simp_all
qed

lemma add_or:
  assumes "graph_wf g" "edge_ok g a" "edge_ok g b" and r: "Kit_GraphAddNodeOr g a b = (g', e)"
  shows "extends g g'" "edge_ok g' e" "edge_val g' env e = (edge_val g env a \<or> edge_val g env b)"
    "e_Node e = g_nSize g" "g_nSize g' = Suc (g_nSize g)"
proof -
  let ?nd = "zero_node\<lparr>n_fCompl0 := e_fCompl a, n_fCompl1 := e_fCompl b, n_fNodeOr := True,
      n_eEdge0 := edge_not a, n_eEdge1 := edge_not b\<rparr>"
  note ap = append_node [of g ?nd, simplified, OF assms(1-3)]
  have g': "g' = Kit_GraphAppendNode g ?nd" and e: "e = Kit_EdgeCreate (g_nSize g) True"
    using r ap(2) by (auto simp: Kit_GraphAddNodeOr_def Let_def)
  show "extends g g'" "edge_ok g' e" "edge_val g' env e = (edge_val g env a \<or> edge_val g env b)"
    "e_Node e = g_nSize g" "g_nSize g' = Suc (g_nSize g)"
    unfolding g' e using ap new_edge [OF ap(1,2)] by simp_all
qed

lemma extends_chain:
  assumes "extends g g'" "extends g' g''" "edge_ok g a"
  shows "extends g g''" "edge_ok g'' a" "edge_val g'' env a = edge_val g env a"
  using assms extends_trans extends_ok extends_val by blast+

lemma add_xor:
  assumes wf: "graph_wf g" "edge_ok g a" "edge_ok g b" and r: "Kit_GraphAddNodeXor g a b t = (g', e)"
  shows "extends g g' \<and> edge_ok g' e \<and> edge_val g' env e = (edge_val g env a \<noteq> edge_val g env b)"
proof (cases "t = 0")
  case True
  obtain g1 e1 where 1: "Kit_GraphAddNodeAnd g (edge_not a) b = (g1, e1)" by (metis surj_pair)
  obtain g2 e2 where 2: "Kit_GraphAddNodeAnd g1 a (edge_not b) = (g2, e2)" by (metis surj_pair)
  note s1 = add_and [OF wf(1) _ wf(3) 1, simplified, OF wf(2)]
  note ok1 = extends_wf [OF s1(1)] extends_ok [OF s1(1) wf(2)] extends_ok [OF s1(1) wf(3)]
  note s2 = add_and [OF ok1(1,2) _ 2, simplified, OF ok1(3)]
  have r': "Kit_GraphAddNodeOr g2 e1 e2 = (g', e)"
    using r True 1 2 by (simp add: Kit_GraphAddNodeXor_def Let_def)
  note s3 = add_or [OF extends_wf [OF s2(1)] extends_ok [OF s2(1) s1(2)] s2(2) r']
  show ?thesis
    using s1 s2 s3 wf extends_trans [OF s1(1) extends_trans [OF s2(1) s3(1)]]
    by (auto simp: extends_val [OF s2(1) s1(2)] extends_val [OF s1(1)])
next
  case False
  obtain g1 e1 where 1: "Kit_GraphAddNodeAnd g a b = (g1, e1)" by (metis surj_pair)
  obtain g2 e2 where 2: "Kit_GraphAddNodeAnd g1 (edge_not a) (edge_not b) = (g2, e2)" by (metis surj_pair)
  obtain g3 e3 where 3: "Kit_GraphAddNodeOr g2 e1 e2 = (g3, e3)" by (metis surj_pair)
  note s1 = add_and [OF wf 1]
  note ok1 = extends_wf [OF s1(1)] extends_ok [OF s1(1) wf(2)] extends_ok [OF s1(1) wf(3)]
  note s2 = add_and [OF ok1(1) _ _ 2, simplified, OF ok1(2,3)]
  note s3 = add_or [OF extends_wf [OF s2(1)] extends_ok [OF s2(1) s1(2)] s2(2) 3]
  have "g' = g3" "e = edge_not e3" using r False 1 2 3 by (simp_all add: Kit_GraphAddNodeXor_def Let_def)
  then show ?thesis
    using s1 s2 s3 wf extends_trans [OF s1(1) extends_trans [OF s2(1) s3(1)]]
    by (auto simp: extends_val [OF s2(1) s1(2)] extends_val [OF s1(1)])
qed

lemma add_mux:
  assumes wf: "graph_wf g" "edge_ok g c" "edge_ok g a" "edge_ok g b" and r: "Kit_GraphAddNodeMux g c a b t = (g', e)"
  shows "extends g g' \<and> edge_ok g' e \<and>
    edge_val g' env e = (if edge_val g env c then edge_val g env a else edge_val g env b)"
proof -
  have core: "extends g g3 \<and> edge_ok g3 e3 \<and>
      edge_val g3 env e3 = (if edge_val g env c then edge_val g env x else edge_val g env y)"
    if x: "edge_ok g x" and y: "edge_ok g y" and 1: "Kit_GraphAddNodeAnd g c x = (g1, e1)"
      and 2: "Kit_GraphAddNodeAnd g1 (edge_not c) y = (g2, e2)" and 3: "Kit_GraphAddNodeOr g2 e1 e2 = (g3, e3)"
    for x y g1 e1 g2 e2 g3 e3
  proof -
    note s1 = add_and [OF wf(1,2) x 1]
    note ok1 = extends_wf [OF s1(1)] extends_ok [OF s1(1) wf(2)] extends_ok [OF s1(1) y]
    note s2 = add_and [OF ok1(1) _ ok1(3) 2, simplified, OF ok1(2)]
    note s3 = add_or [OF extends_wf [OF s2(1)] extends_ok [OF s2(1) s1(2)] s2(2) 3]
    show ?thesis
      using s1 s2 s3 wf y extends_trans [OF s1(1) extends_trans [OF s2(1) s3(1)]]
      by (auto simp: extends_val [OF s2(1) s1(2)] extends_val [OF s1(1)])
  qed
  let ?x = "if t = 0 then a else edge_not a" and ?y = "if t = 0 then b else edge_not b"
  obtain g1 e1 where 1: "Kit_GraphAddNodeAnd g c ?x = (g1, e1)" by (metis surj_pair)
  obtain g2 e2 where 2: "Kit_GraphAddNodeAnd g1 (edge_not c) ?y = (g2, e2)" by (metis surj_pair)
  obtain g3 e3 where 3: "Kit_GraphAddNodeOr g2 e1 e2 = (g3, e3)" by (metis surj_pair)
  have "g' = g3" "e = (if t = 0 then e3 else edge_not e3)"
    using r 1 2 3 by (auto simp: Kit_GraphAddNodeMux_def Let_def split: if_splits)
  then show ?thesis using core [OF _ _ 1 2 3] wf by (auto split: if_splits)
qed

lemma graph_create_wf: "graph_wf (Kit_GraphCreate n)"
  by (simp add: graph_wf_def Kit_GraphCreate_def)

lemma leaf_edge:
  assumes "i < g_nLeaves g" "graph_wf g"
  shows "edge_ok g \<lparr>e_fCompl = c, e_Node = i\<rparr>" "edge_val g env \<lparr>e_fCompl = c, e_Node = i\<rparr> = (env i \<noteq> c)"
  using assms by (auto simp: edge_ok_def graph_wf_def edge_val_def node_val.simps)

lemma edge_int_roundtrip:
  "Kit_IntToEdge (Kit_EdgeToInt e) = e" "Kit_EdgeToInt (Kit_IntToEdge x) = x"
proof -
  have or1: "push_bit 1 x OR of_bool b = 2 * x + of_bool b" for x :: nat and b
    using or_one_eq [of "2 * x"] by (cases b) (simp_all add: push_bit_eq_mult mult.commute)
  show "Kit_IntToEdge (Kit_EdgeToInt e) = e"
    unfolding Kit_IntToEdge_def Kit_EdgeToInt_def or1
    by (cases e) (simp add: Kit_EdgeCreate_def drop_bit_eq_div and_one_eq)
  show "Kit_EdgeToInt (Kit_IntToEdge x) = x"
    unfolding Kit_IntToEdge_def Kit_EdgeToInt_def or1
    by (simp add: Kit_EdgeCreate_def drop_bit_eq_div and_one_eq mod2_eq_if)
qed

section \<open>The truth table of a graph\<close>

definition same_edges :: "kit_node list \<Rightarrow> kit_node list \<Rightarrow> bool" where
  "same_edges ns ms \<longleftrightarrow> length ns = length ms \<and>
     (\<forall>i < length ns. n_eEdge0 (ns ! i) = n_eEdge0 (ms ! i) \<and> n_eEdge1 (ns ! i) = n_eEdge1 (ms ! i))"

lemma same_edges_set: "same_edges ns ms \<Longrightarrow> same_edges (set_pFunc ns i x) ms"
  by (cases "i < length ns") (auto simp: same_edges_def set_pFunc_def nth_list_update)

lemma pFunc_set: "i < length ns \<Longrightarrow> n_pFunc (set_pFunc ns i x ! j) = (if j = i then x else n_pFunc (ns ! j))"
  by (auto simp: set_pFunc_def nth_list_update)

lemma bit_elementary: "i < 5 \<Longrightarrow> b < 32 \<Longrightarrow>
    bit (([0xAAAAAAAA, 0xCCCCCCCC, 0xF0F0F0F0, 0xFF00FF00, 0xFFFF0000] :: u32 list) ! i) b = bit b i"
  using hi_mask_list bit_hi_mask by simp

lemma GraphToTruth_leaves:
  assumes wf: "graph_wf g" and L: "g_nLeaves g \<le> 5" and "k \<le> g_nLeaves g"
  shows "same_edges (for_up 0 k (\<lambda>i ns. set_pFunc ns i (uT ! i)) (g_pNodes g)) (g_pNodes g) \<and>
    (\<forall>j < k. n_pFunc (for_up 0 k (\<lambda>i ns. set_pFunc ns i (uT ! i)) (g_pNodes g) ! j) = uT ! j)"
  using assms(3)
proof (induction k)
  case (Suc k)
  let ?r = "for_up 0 k (\<lambda>i ns. set_pFunc ns i (uT ! i)) (g_pNodes g)"
  have "k < length ?r" using Suc wf by (auto simp: same_edges_def graph_wf_def)
  then show ?case using Suc by (auto simp: for_up_Suc same_edges_set pFunc_set less_Suc_eq)
qed (simp add: same_edges_def)

lemma GraphToTruth_nodes:
  assumes wf: "graph_wf g" and ns0: "same_edges ns0 (g_pNodes g)"
    and leaf: "\<forall>j < g_nLeaves g. \<forall>b < 32. bit (n_pFunc (ns0 ! j)) b = bit b j"
    and k: "g_nLeaves g \<le> k" "k \<le> g_nSize g"
  shows "\<exists>ns u. for_up (g_nLeaves g) k graph_truth_step (ns0, 0) = (ns, u) \<and> same_edges ns (g_pNodes g) \<and>
    (\<forall>j < k. \<forall>b < 32. bit (n_pFunc (ns ! j)) b = node_val (g_nLeaves g) (g_pNodes g) (bit b) j) \<and>
    (g_nLeaves g < k \<longrightarrow> u = n_pFunc (ns ! (k - 1)))"
  using k
proof (induction k rule: dec_induct)
  case base
  then show ?case using ns0 leaf by (auto simp: node_val.simps)
next
  case (step k)
  then obtain ns u where ih: "for_up (g_nLeaves g) k graph_truth_step (ns0, 0) = (ns, u)" "same_edges ns (g_pNodes g)"
    "\<And>j b. j < k \<Longrightarrow> b < 32 \<Longrightarrow> bit (n_pFunc (ns ! j)) b = node_val (g_nLeaves g) (g_pNodes g) (bit b) j" by auto
  let ?e0 = "n_eEdge0 (g_pNodes g ! k)" and ?e1 = "n_eEdge1 (g_pNodes g ! k)"
  have len: "k < length ns" and ch: "e_Node ?e0 < k" "e_Node ?e1 < k"
    and ed: "n_eEdge0 (ns ! k) = ?e0" "n_eEdge1 (ns ! k) = ?e1"
    using step wf ih(2) by (auto simp: graph_wf_def same_edges_def)
  obtain x where st: "graph_truth_step k (ns, u) = (set_pFunc ns k x, x)"
    and x: "\<And>b. b < 32 \<Longrightarrow> bit x b \<longleftrightarrow> (bit (n_pFunc (ns ! e_Node ?e0)) b \<noteq> e_fCompl ?e0) \<and> (bit (n_pFunc (ns ! e_Node ?e1)) b \<noteq> e_fCompl ?e1)"
  proof
    let ?f = "\<lambda>e. if e_fCompl e then NOT (n_pFunc (ns ! e_Node e)) else n_pFunc (ns ! e_Node e)"
    show "graph_truth_step k (ns, u) = (set_pFunc ns k (?f ?e0 AND ?f ?e1), ?f ?e0 AND ?f ?e1)"
      by (simp only: graph_truth_step_def case_prod_conv Let_def ed)
    show "bit (?f ?e0 AND ?f ?e1) b \<longleftrightarrow> (bit (n_pFunc (ns ! e_Node ?e0)) b \<noteq> e_fCompl ?e0) \<and>
        (bit (n_pFunc (ns ! e_Node ?e1)) b \<noteq> e_fCompl ?e1)" if "b < 32" for b
      using that by (simp add: bit_and_iff bit_not_iff)
  qed
  have "bit x b = node_val (g_nLeaves g) (g_pNodes g) (bit b) k" if "b < 32" for b
    using x [OF that] ih(3) [OF ch(1) that] ih(3) [OF ch(2) that] step(1) ch
    by (subst node_val.simps) (simp add: Let_def)
  then show ?case
    using ih st len step(1) by (auto simp: for_up_Suc same_edges_set pFunc_set less_Suc_eq)
qed

lemma Kit_GraphToTruth_val:
  assumes wf: "graph_wf g \<or> g_fConst g" and L: "g_nLeaves g \<le> 5" and b: "b < 32"
    and root: "g_fConst g \<or> Kit_GraphIsVar g \<or> Suc (e_Node (g_eRoot g)) = g_nSize g"
  shows "bit (fst (Kit_GraphToTruth g)) b = graph_val g (bit b)"
proof -
  consider (c) "g_fConst g" | (v) "\<not> g_fConst g" "Kit_GraphIsVar g" | (n) "\<not> g_fConst g" "\<not> Kit_GraphIsVar g" by blast
  then show ?thesis
  proof cases
    case c
    then show ?thesis using b by (simp add: Kit_GraphToTruth_def graph_val_def)
  next
    case v
    then have i: "e_Node (g_eRoot g) < g_nLeaves g" by (simp add: Kit_GraphIsVar_def)
    with L have i5: "e_Node (g_eRoot g) < 5" by simp
    show ?thesis
      using v b i bit_elementary [OF i5 b]
      by (simp add: Kit_GraphToTruth_def graph_val_def Let_def edge_val_def node_val.simps bit_not_iff)
  next
    case n
    let ?uT = "[0xAAAAAAAA, 0xCCCCCCCC, 0xF0F0F0F0, 0xFF00FF00, 0xFFFF0000] :: u32 list"
    have wf: "graph_wf g" using wf n by simp
    define ns0 where "ns0 = for_up 0 (g_nLeaves g) (\<lambda>i ns. set_pFunc ns i (?uT ! i)) (g_pNodes g)"
    have "same_edges ns0 (g_pNodes g)" "\<forall>j < g_nLeaves g. \<forall>b < 32. bit (n_pFunc (ns0 ! j)) b = bit b j"
      using GraphToTruth_leaves [OF wf L order_refl, of ?uT] L bit_elementary unfolding ns0_def by auto
    then obtain ns u where ns: "for_up (g_nLeaves g) (g_nSize g) graph_truth_step (ns0, 0) = (ns, u)"
      "\<forall>j < g_nSize g. \<forall>b < 32. bit (n_pFunc (ns ! j)) b = node_val (g_nLeaves g) (g_pNodes g) (bit b) j"
      "g_nLeaves g < g_nSize g \<longrightarrow> u = n_pFunc (ns ! (g_nSize g - 1))"
      using GraphToTruth_nodes [OF wf, of ns0 "g_nSize g"] wf by (auto simp: graph_wf_def)
    have last: "Suc (e_Node (g_eRoot g)) = g_nSize g" "g_nLeaves g \<le> e_Node (g_eRoot g)"
      using root n by (auto simp: Kit_GraphIsVar_def)
    then have "bit u b = node_val (g_nLeaves g) (g_pNodes g) (bit b) (e_Node (g_eRoot g))"
      using ns(2,3) b by (metis diff_Suc_1 le_imp_less_Suc lessI)
    then show ?thesis
      using n b ns(1) by (simp add: Kit_GraphToTruth_def Let_def ns0_def [symmetric] graph_val_def edge_val_def bit_not_iff)
  qed
qed

section \<open>Depth\<close>

text \<open>
  \<open>Kit_GraphLeafDepth_rec\<close> and \<open>Kit_GraphLevelNum_rec\<close> on node numbers in place of node pointers. The
  recursion goes to the fanins, whose numbers are smaller in a well-formed graph; the guard repeats
  this so that the functions are total.
\<close>

definition fanins_below :: "kit_node list \<Rightarrow> nat \<Rightarrow> bool" where
  "fanins_below ns i \<longleftrightarrow> e_Node (n_eEdge0 (ns ! i)) < i \<and> e_Node (n_eEdge1 (ns ! i)) < i"

function Kit_GraphLeafDepth_rec :: "nat \<Rightarrow> kit_node list \<Rightarrow> nat \<Rightarrow> nat \<Rightarrow> int" where
  "Kit_GraphLeafDepth_rec nLeaves ns pNode pLeaf =
    (if pNode = pLeaf then 0
     else if pNode < nLeaves then -100
     else if \<not> fanins_below ns pNode then -100
     else
       let Depth0 = Kit_GraphLeafDepth_rec nLeaves ns (e_Node (n_eEdge0 (ns ! pNode))) pLeaf;
           Depth1 = Kit_GraphLeafDepth_rec nLeaves ns (e_Node (n_eEdge1 (ns ! pNode))) pLeaf;
           Depth = max Depth0 Depth1
       in if Depth = -100 then -100 else Depth + 1)"
  by pat_completeness auto
termination by (relation "measure (\<lambda>(_, _, i, _). i)") (auto simp: fanins_below_def)

function Kit_GraphLevelNum_rec :: "nat \<Rightarrow> kit_node list \<Rightarrow> nat \<Rightarrow> nat" where
  "Kit_GraphLevelNum_rec nLeaves ns pNode =
    (if pNode < nLeaves then 0
     else if \<not> fanins_below ns pNode then 0
     else
       let Depth0 = Kit_GraphLevelNum_rec nLeaves ns (e_Node (n_eEdge0 (ns ! pNode)));
           Depth1 = Kit_GraphLevelNum_rec nLeaves ns (e_Node (n_eEdge1 (ns ! pNode)))
       in 1 + max Depth0 Depth1)"
  by pat_completeness auto
termination by (relation "measure (\<lambda>(_, _, i). i)") (auto simp: fanins_below_def)

declare Kit_GraphLeafDepth_rec.simps [simp del] Kit_GraphLevelNum_rec.simps [simp del]

text \<open>The reference: paths from a node to a leaf, with their lengths.\<close>

inductive leaf_path :: "nat \<Rightarrow> kit_node list \<Rightarrow> nat \<Rightarrow> nat \<Rightarrow> nat \<Rightarrow> bool" for L ns t where
  leaf_path_here: "leaf_path L ns t t 0"
| leaf_path_0: "L \<le> i \<Longrightarrow> leaf_path L ns t (e_Node (n_eEdge0 (ns ! i))) d \<Longrightarrow> leaf_path L ns t i (Suc d)"
| leaf_path_1: "L \<le> i \<Longrightarrow> leaf_path L ns t (e_Node (n_eEdge1 (ns ! i))) d \<Longrightarrow> leaf_path L ns t i (Suc d)"

inductive_cases leaf_path_SucE: "leaf_path L ns t i (Suc d)"

definition longest_path :: "nat \<Rightarrow> kit_node list \<Rightarrow> nat \<Rightarrow> nat \<Rightarrow> int \<Rightarrow> bool" where
  "longest_path L ns t i d \<longleftrightarrow>
    (if d = -100 then \<forall>k. \<not> leaf_path L ns t i k
     else (\<exists>k. d = int k \<and> leaf_path L ns t i k) \<and> (\<forall>k. leaf_path L ns t i k \<longrightarrow> int k \<le> d))"

lemma leaf_path_here_only:
  assumes "\<And>i. L \<le> i \<Longrightarrow> i \<le> n \<Longrightarrow> fanins_below ns i" "leaf_path L ns t i k" "i \<le> n"
  shows "t \<le> i \<and> (i = t \<longrightarrow> k = 0)"
  using assms(2,3)
proof (induction rule: leaf_path.induct)
  case leaf_path_here
  then show ?case by simp
next
  case (leaf_path_0 i d)
  then show ?case using assms(1) [of i] by (auto simp: fanins_below_def)
next
  case (leaf_path_1 i d)
  then show ?case using assms(1) [of i] by (auto simp: fanins_below_def)
qed

lemma leaf_path_iff:
  "i \<noteq> t \<Longrightarrow> leaf_path L ns t i k \<longleftrightarrow> L \<le> i \<and> (\<exists>d. k = Suc d \<and>
    (leaf_path L ns t (e_Node (n_eEdge0 (ns ! i))) d \<or> leaf_path L ns t (e_Node (n_eEdge1 (ns ! i))) d))"
  by (auto elim: leaf_path.cases intro: leaf_path.intros)

lemma longest_path_step:
  assumes "i \<noteq> t" "L \<le> i" and d0: "longest_path L ns t (e_Node (n_eEdge0 (ns ! i))) d0"
    and d1: "longest_path L ns t (e_Node (n_eEdge1 (ns ! i))) d1"
  shows "longest_path L ns t i (if max d0 d1 = -100 then -100 else max d0 d1 + 1)"
proof -
  have range: "d0 = -100 \<or> 0 \<le> d0" "d1 = -100 \<or> 0 \<le> d1"
    using d0 d1 by (auto simp: longest_path_def split: if_splits)
  show ?thesis
  proof (cases "d0 = -100 \<and> d1 = -100")
    case True
    then show ?thesis using d0 d1 assms by (auto simp: longest_path_def leaf_path_iff)
  next
    case False
    then have m: "0 \<le> max d0 d1" "max d0 d1 \<noteq> -100" using range by auto
    obtain k where k: "max d0 d1 = int k" "leaf_path L ns t (e_Node (n_eEdge0 (ns ! i))) k \<or> leaf_path L ns t (e_Node (n_eEdge1 (ns ! i))) k"
      using d0 d1 m range by (auto simp: longest_path_def max_def split: if_splits)
    have up: "int l \<le> max d0 d1" if "leaf_path L ns t (e_Node (n_eEdge0 (ns ! i))) l \<or> leaf_path L ns t (e_Node (n_eEdge1 (ns ! i))) l" for l
      using that d0 d1 by (auto simp: longest_path_def le_max_iff_disj split: if_splits)
    have "\<exists>j. max d0 d1 + 1 = int j \<and> leaf_path L ns t i j"
      using k assms by (intro exI [of _ "Suc k"]) (auto simp: leaf_path_iff)
    moreover have "int j \<le> max d0 d1 + 1" if "leaf_path L ns t i j" for j
      using that up assms by (auto simp: leaf_path_iff)
    ultimately show ?thesis using m by (auto simp: longest_path_def)
  qed
qed

lemma Kit_GraphLeafDepth_longest:
  assumes "\<And>i. L \<le> i \<Longrightarrow> i \<le> n \<Longrightarrow> fanins_below ns i" and "i \<le> n"
  shows "longest_path L ns t i (Kit_GraphLeafDepth_rec L ns i t)"
  using assms(2)
proof (induction i rule: less_induct)
  case (less i)
  show ?case
  proof (cases "i = t")
    case True
    have "k = 0" if "leaf_path L ns t t k" for k
      using leaf_path_here_only [where n = n, OF assms(1) that] less.prems True by blast
    with True show ?thesis
      by (subst Kit_GraphLeafDepth_rec.simps) (auto simp: longest_path_def intro: leaf_path.intros)
  next
    case False
    show ?thesis
    proof (cases "i < L")
      case True
      then show ?thesis
        using False by (subst Kit_GraphLeafDepth_rec.simps) (auto simp: longest_path_def leaf_path_iff)
    next
      case ge: False
      then have fb: "fanins_below ns i" using assms(1) less.prems by simp
      have "longest_path L ns t (e_Node (n_eEdge0 (ns ! i))) (Kit_GraphLeafDepth_rec L ns (e_Node (n_eEdge0 (ns ! i))) t)"
        "longest_path L ns t (e_Node (n_eEdge1 (ns ! i))) (Kit_GraphLeafDepth_rec L ns (e_Node (n_eEdge1 (ns ! i))) t)"
        using less fb by (auto simp: fanins_below_def)
      from longest_path_step [OF False _ this] show ?thesis
        using False ge fb by (subst Kit_GraphLeafDepth_rec.simps) (simp add: Let_def)
    qed
  qed
qed

end
