(* ===== verification/Kit_Sop.thy ===== *)
theory Kit_Sop
  imports Kit_Graph "HOL-Library.Multiset"
begin

text \<open>
  Algebraic operations on covers (\<open>kitSop.c\<close>): division of a cover by a literal, a cube and a cover,
  common cubes, the choice of literals and the level-zero kernel. A cover is the list of the first
  \<open>nCubes\<close> words of \<open>pCubes\<close>. The macro \<open>Kit_SopForEachCube\<close> stops at a cube without literals,
  because it tests the cube it reads; \<open>each_cube\<close> is the part of a cover it visits.
\<close>

section \<open>Cubes\<close>

definition Kit_CubeHasLit :: "u32 \<Rightarrow> nat \<Rightarrow> bool" where
  "Kit_CubeHasLit uCube i \<longleftrightarrow> uCube AND push_bit i 1 > 0"

definition Kit_CubeSetLit :: "u32 \<Rightarrow> nat \<Rightarrow> u32" where
  "Kit_CubeSetLit uCube i = uCube OR push_bit i 1"

definition Kit_CubeRemLit :: "u32 \<Rightarrow> nat \<Rightarrow> u32" where
  "Kit_CubeRemLit uCube i = uCube AND NOT (push_bit i 1)"

definition Kit_CubeContains :: "u32 \<Rightarrow> u32 \<Rightarrow> bool" where
  "Kit_CubeContains uLarge uSmall \<longleftrightarrow> uLarge AND uSmall = uSmall"

definition Kit_CubeSharp :: "u32 \<Rightarrow> u32 \<Rightarrow> u32" where
  "Kit_CubeSharp uCube uMask = uCube AND NOT uMask"

definition Kit_CubeIsMarked :: "u32 \<Rightarrow> bool" where
  "Kit_CubeIsMarked uCube = Kit_CubeHasLit uCube 31"

definition Kit_CubeMark :: "u32 \<Rightarrow> u32" where
  "Kit_CubeMark uCube = Kit_CubeSetLit uCube 31"

definition Kit_CubeUnmark :: "u32 \<Rightarrow> u32" where
  "Kit_CubeUnmark uCube = Kit_CubeRemLit uCube 31"

definition each_cube :: "u32 list \<Rightarrow> u32 list" where
  "each_cube cs = takeWhile (\<lambda>c. c \<noteq> 0) cs"

section \<open>Memory\<close>

text \<open>
  The operations do not check the pointer \<open>Vec_IntFetch\<close> returns. A failed fetch of a positive number
  of words is \<open>None\<close> in the model: the code would write through a null pointer.
\<close>

definition fetch_words :: "nat \<Rightarrow> vec_mem \<Rightarrow> vec_mem option" where
  "fetch_words n vMemory =
    (if n = 0 then Some vMemory
     else case Vec_IntFetch vMemory n of (ok, vMemory) \<Rightarrow> if ok then Some vMemory else None)"

section \<open>The model\<close>

definition Kit_SopCreate :: "u32 list \<Rightarrow> vec_mem \<Rightarrow> (u32 list \<times> vec_mem) option" where
  "Kit_SopCreate vInput vMemory = map_option (Pair vInput) (fetch_words (length vInput) vMemory)"

definition inverse_cube :: "u32 \<Rightarrow> u32" where
  "inverse_cube uCube =
    (let uMask = (uCube OR drop_bit 1 uCube) AND 0x55555555;
         uMask = uMask OR push_bit 1 uMask
     in uCube XOR uMask)"

definition Kit_SopCreateInverse :: "u32 list \<Rightarrow> vec_mem \<Rightarrow> (u32 list \<times> vec_mem) option" where
  "Kit_SopCreateInverse vInput vMemory =
     map_option (Pair (map inverse_cube vInput)) (fetch_words (length vInput) vMemory)"

definition Kit_SopDup :: "u32 list \<Rightarrow> vec_mem \<Rightarrow> (u32 list \<times> vec_mem) option" where
  "Kit_SopDup cSop vMemory = map_option (Pair (each_cube cSop)) (fetch_words (length cSop) vMemory)"

definition Kit_SopDivideByLiteralQuo :: "u32 list \<Rightarrow> nat \<Rightarrow> u32 list" where
  "Kit_SopDivideByLiteralQuo cSop iLit =
     map (\<lambda>uCube. Kit_CubeRemLit uCube iLit) (filter (\<lambda>uCube. Kit_CubeHasLit uCube iLit) (each_cube cSop))"

definition Kit_SopDivideByCube :: "u32 list \<Rightarrow> u32 list \<Rightarrow> vec_mem \<Rightarrow> (u32 list \<times> u32 list \<times> vec_mem) option" where
  "Kit_SopDivideByCube cSop cDiv vMemory =
    (let uDiv = cDiv ! 0 in
     case fetch_words (length cSop) vMemory of None \<Rightarrow> None
     | Some vMemory \<Rightarrow>
       (case fetch_words (length cSop) vMemory of None \<Rightarrow> None
        | Some vMemory \<Rightarrow>
            Some (map (\<lambda>uCube. Kit_CubeSharp uCube uDiv) (filter (\<lambda>uCube. Kit_CubeContains uCube uDiv) (each_cube cSop)),
                  filter (\<lambda>uCube. \<not> Kit_CubeContains uCube uDiv) (each_cube cSop), vMemory)))"

text \<open>
  \<open>Kit_SopDivideInternal\<close>. \<open>scan P cs\<close> is the index at which a \<open>Kit_SopForEachCube\<close> loop that breaks at
  \<open>P\<close> stops: at the first cube with \<open>P\<close>, at the first cube without literals, or at the end.
  \<open>div_partner\<close> is the search for the cube of the cover that matches one cube of the divisor,
  \<open>div_try\<close> the part of the loop body up to ``we found all cubes'', \<open>div_mark\<close> the marking loop.
\<close>

definition scan :: "(u32 \<Rightarrow> bool) \<Rightarrow> u32 list \<Rightarrow> nat" where
  "scan P cs = length (takeWhile (\<lambda>c. c \<noteq> 0 \<and> \<not> P c) cs)"

definition div_partner :: "u32 list \<Rightarrow> u32 \<Rightarrow> u32 \<Rightarrow> nat" where
  "div_partner cSop uQuo uDiv2 =
     scan (\<lambda>uCube2. \<not> Kit_CubeIsMarked uCube2 \<and>
       Kit_CubeContains uCube2 uDiv2 \<and> uQuo = Kit_CubeSharp uCube2 uDiv2) cSop"

definition div_try :: "u32 list \<Rightarrow> u32 list \<Rightarrow> u32 \<Rightarrow> (nat \<times> u32) option" where
  "div_try cSop cDiv uCube =
    (let k = scan (\<lambda>uDiv. Kit_CubeContains uCube uDiv) cDiv in
     if k = length cDiv then None
     else
       let uQuo = Kit_CubeSharp uCube (cDiv ! k);
           k2 = length (takeWhile (\<lambda>k2. cDiv ! k2 \<noteq> 0 \<and>
             (k2 = k \<or> div_partner cSop uQuo (cDiv ! k2) \<noteq> length cSop)) [0..<length cDiv])
       in if k2 \<noteq> length cDiv then None else Some (k, uQuo))"

definition div_mark :: "u32 list \<Rightarrow> u32 list \<Rightarrow> nat \<Rightarrow> u32 \<Rightarrow> u32 list" where
  "div_mark cSop cDiv k uQuo =
     fold (\<lambda>k2 cSop. if k2 = k then cSop
           else let i2 = div_partner cSop uQuo (cDiv ! k2) in cSop[i2 := Kit_CubeMark (cSop ! i2)])
       [0..<length (each_cube cDiv)] cSop"

definition div_step :: "u32 list \<Rightarrow> nat \<Rightarrow> u32 list \<times> u32 list \<Rightarrow> u32 list \<times> u32 list" where
  "div_step cDiv i = (\<lambda>(cSop, vQuo).
     let uCube = cSop ! i in
     if Kit_CubeIsMarked uCube then (cSop, vQuo)
     else case div_try cSop cDiv uCube of
       None \<Rightarrow> (cSop, vQuo)
     | Some (k, uQuo) \<Rightarrow> (div_mark (cSop[i := Kit_CubeMark uCube]) cDiv k uQuo, vQuo @ [uQuo]))"

text \<open>
  \<open>None\<close> is a violated assertion or a failed allocation. The assertion in the marking loop is not a case of its
  own: if a partner were missing there, a cube would stay unmarked and the last assertion would fail.
\<close>

definition Kit_SopDivideInternal ::
    "u32 list \<Rightarrow> u32 list \<Rightarrow> vec_mem \<Rightarrow> (u32 list \<times> u32 list \<times> u32 list \<times> vec_mem) option" where
  "Kit_SopDivideInternal cSop cDiv vMemory =
    (if length cSop < length cDiv then None
     else if length cDiv = 1 then
       (case Kit_SopDivideByCube cSop cDiv vMemory of None \<Rightarrow> None
        | Some (vQuo, vRem, vMemory) \<Rightarrow> Some (cSop, vQuo, vRem, vMemory))
     else
       case fetch_words (length cSop div length cDiv) vMemory of None \<Rightarrow> None
       | Some vMemory \<Rightarrow>
         (let (cSop, vQuo) = fold (div_step cDiv) [0..<length (each_cube cSop)] (cSop, []);
              nCubesRem = length cSop - length vQuo * length cDiv;
              vRem = filter (\<lambda>uCube. \<not> Kit_CubeIsMarked uCube) (each_cube cSop)
          in case fetch_words nCubesRem vMemory of None \<Rightarrow> None
             | Some vMemory \<Rightarrow>
               if nCubesRem \<noteq> length vRem then None
               else Some (map Kit_CubeUnmark (each_cube cSop) @ drop (length (each_cube cSop)) cSop, vQuo, vRem, vMemory)))"

definition Kit_SopCommonCube :: "u32 list \<Rightarrow> u32" where
  "Kit_SopCommonCube cSop = fold (\<lambda>uCube uMask. uMask AND uCube) (each_cube cSop) (NOT 0)"

definition Kit_SopMakeCubeFree :: "u32 list \<Rightarrow> u32 list" where
  "Kit_SopMakeCubeFree cSop =
    (let uMask = Kit_SopCommonCube cSop in
     if uMask = 0 then cSop
     else map (\<lambda>uCube. Kit_CubeSharp uCube uMask) (each_cube cSop) @ drop (length (each_cube cSop)) cSop)"

definition Kit_SopIsCubeFree :: "u32 list \<Rightarrow> bool" where
  "Kit_SopIsCubeFree cSop \<longleftrightarrow> Kit_SopCommonCube cSop = 0"

definition Kit_SopCommonCubeCover :: "u32 list \<Rightarrow> vec_mem \<Rightarrow> (u32 list \<times> vec_mem) option" where
  "Kit_SopCommonCubeCover cSop vMemory = map_option (Pair [Kit_SopCommonCube cSop]) (fetch_words 1 vMemory)"

definition lit_occ :: "u32 list \<Rightarrow> nat \<Rightarrow> nat" where
  "lit_occ cSop i = length (filter (\<lambda>uCube. Kit_CubeHasLit uCube i) (each_cube cSop))"

definition Kit_SopAnyLiteral :: "u32 list \<Rightarrow> nat \<Rightarrow> int" where
  "Kit_SopAnyLiteral cSop nLits =
     (case find (\<lambda>i. lit_occ cSop i > 1) [0..<nLits] of Some i \<Rightarrow> int i | None \<Rightarrow> -1)"

text \<open>In both searches \<open>fUseFirst\<close> is 1, so the other branch of the source is dead.\<close>

definition Kit_SopWorstLiteral :: "u32 list \<Rightarrow> nat \<Rightarrow> int" where
  "Kit_SopWorstLiteral cSop nLits =
    (let (iMin, nLitsMin) = for_up 0 nLits (\<lambda>i (iMin, nLitsMin).
           let nLitsCur = lit_occ cSop i in
           if nLitsCur < 2 then (iMin, nLitsMin)
           else if nLitsMin > nLitsCur then (int i, nLitsCur) else (iMin, nLitsMin)) (-1, 1000000)
     in if nLitsMin < 1000000 then iMin else -1)"

definition Kit_SopBestLiteral :: "u32 list \<Rightarrow> nat \<Rightarrow> u32 \<Rightarrow> int" where
  "Kit_SopBestLiteral cSop nLits uMask =
    (let (iMax, nLitsMax) = for_up 0 nLits (\<lambda>i (iMax, nLitsMax).
           if \<not> Kit_CubeHasLit uMask i then (iMax, nLitsMax)
           else let nLitsCur = int (lit_occ cSop i) in
           if nLitsCur < 2 then (iMax, nLitsMax)
           else if nLitsMax < nLitsCur then (int i, nLitsCur) else (iMax, nLitsMax)) (-1, -1)
     in if nLitsMax \<ge> 0 then iMax else -1)"

section \<open>Cubes as sets of literals\<close>

lemma HasLit_iff [simp]: "Kit_CubeHasLit c i = bit c i"
  unfolding Kit_CubeHasLit_def word_greater_zero_iff by (rule mask_test)

lemma Contains_iff: "Kit_CubeContains c d \<longleftrightarrow> (\<forall>i. bit d i \<longrightarrow> bit c i)"
proof
  assume "Kit_CubeContains c d"
  then show "\<forall>i. bit d i \<longrightarrow> bit c i" unfolding Kit_CubeContains_def by (metis bit_and_iff)
next
  assume "\<forall>i. bit d i \<longrightarrow> bit c i"
  then show "Kit_CubeContains c d"
    unfolding Kit_CubeContains_def by (intro bit_word_eqI) (auto simp: bit_and_iff)
qed

lemma cube_split:
  "Kit_CubeContains c d \<and> q = Kit_CubeSharp c d \<longleftrightarrow> c = d OR q \<and> d AND q = 0"
  unfolding Kit_CubeContains_def Kit_CubeSharp_def bit_eq_iff
  by (auto simp: bit_simps)

lemma cube_join: "Kit_CubeContains c d \<Longrightarrow> d OR Kit_CubeSharp c d = c" "d AND Kit_CubeSharp c d = 0"
  unfolding Kit_CubeContains_def Kit_CubeSharp_def bit_eq_iff by (auto simp: bit_simps)

lemma bit_RemLit: "bit (Kit_CubeRemLit c i) j \<longleftrightarrow> bit c j \<and> j \<noteq> i"
proof -
  have "\<not> bit c j" if "\<not> j < 32" using that bit_imp_le_length [of c j] by auto
  then show ?thesis by (cases "j < 32") (auto simp: Kit_CubeRemLit_def bit_simps)
qed

lemma bit_Sharp: "bit (Kit_CubeSharp c d) j \<longleftrightarrow> bit c j \<and> \<not> bit d j"
proof -
  have "\<not> bit c j" if "\<not> j < 32" using that bit_imp_le_length [of c j] by auto
  then show ?thesis by (cases "j < 32") (auto simp: Kit_CubeSharp_def bit_simps)
qed

lemma bit_Mark: "bit (Kit_CubeMark c) j \<longleftrightarrow> bit c j \<or> j = 31"
  by (auto simp: Kit_CubeMark_def Kit_CubeSetLit_def bit_or_iff bit_push1 simp del: push_bit_of_1)

lemma marked_simps [simp]: "Kit_CubeIsMarked (Kit_CubeMark c)" "Kit_CubeMark c \<noteq> 0"
    "\<not> bit c 31 \<Longrightarrow> Kit_CubeUnmark (Kit_CubeMark c) = c" "\<not> bit c 31 \<Longrightarrow> Kit_CubeUnmark c = c"
proof -
  show "Kit_CubeIsMarked (Kit_CubeMark c)" by (simp add: Kit_CubeIsMarked_def bit_Mark)
  then show "Kit_CubeMark c \<noteq> 0" by (auto simp: Kit_CubeIsMarked_def)
  show "\<not> bit c 31 \<Longrightarrow> Kit_CubeUnmark (Kit_CubeMark c) = c" "\<not> bit c 31 \<Longrightarrow> Kit_CubeUnmark c = c"
    by (rule bit_eqI, auto simp: Kit_CubeUnmark_def bit_RemLit bit_Mark)+
qed

lemma IsMarked_iff: "Kit_CubeIsMarked c = bit c 31"
  by (simp add: Kit_CubeIsMarked_def)

lemma each_cube_id: "0 \<notin> set cs \<Longrightarrow> each_cube cs = cs"
  by (auto simp: each_cube_def takeWhile_eq_all_conv)

lemma set_each_cube: "set (each_cube cs) \<subseteq> set cs - {0}"
  by (auto simp: each_cube_def dest: set_takeWhileD)

section \<open>Division\<close>

text \<open>
  \<open>divides S D Q R\<close>: the cubes of \<open>S\<close> are, with their multiplicities, the products of the cubes of \<open>D\<close>
  and \<open>Q\<close> and the cubes of \<open>R\<close>, and the factors of every product have no literal in common.
\<close>

definition products :: "u32 list \<Rightarrow> u32 list \<Rightarrow> u32 list" where
  "products D Q = concat (map (\<lambda>q. map (\<lambda>d. d OR q) D) Q)"

definition divides :: "u32 list \<Rightarrow> u32 list \<Rightarrow> u32 list \<Rightarrow> u32 list \<Rightarrow> bool" where
  "divides S D Q R \<longleftrightarrow> mset S = mset (products D Q) + mset R \<and>
     (\<forall>d \<in> set D. \<forall>q \<in> set Q. d AND q = 0)"

definition plain :: "u32 list \<Rightarrow> bool" where
  "plain cs \<longleftrightarrow> (\<forall>c \<in> set cs. c \<noteq> 0 \<and> \<not> bit c 31)"

lemma products_Cons: "products D (q # Q) = map (\<lambda>d. d OR q) D @ products D Q"
  by (simp add: products_def)

lemma products_snoc: "products D (Q @ [q]) = products D Q @ map (\<lambda>d. d OR q) D"
  by (simp add: products_def)

lemma plain_each: "plain cs \<Longrightarrow> each_cube cs = cs"
  by (rule each_cube_id) (auto simp: plain_def)

lemma products_one: "products [d] Q = map (\<lambda>q. d OR q) Q"
  by (induction Q) (simp_all add: products_def)

lemma DivideByCube_divides:
  assumes "plain S" and r: "Kit_SopDivideByCube S [d] s = Some (Q, R, s')"
  shows "divides S [d] Q R"
proof -
  have Q: "Q = map (\<lambda>c. Kit_CubeSharp c d) (filter (\<lambda>c. Kit_CubeContains c d) S)"
    and R: "R = filter (\<lambda>c. \<not> Kit_CubeContains c d) S"
    using r assms(1) by (auto simp: Kit_SopDivideByCube_def plain_each split: option.splits)
  have "map (\<lambda>q. d OR q) Q = filter (\<lambda>c. Kit_CubeContains c d) S"
    unfolding Q map_map by (rule map_idI) (simp add: cube_join)
  moreover have "d AND q = 0" if "q \<in> set Q" for q
    using that unfolding Q by (auto simp: cube_join)
  ultimately show ?thesis
    by (auto simp: divides_def products_one R multiset_partition [symmetric])
qed

text \<open>The unmarked part of the cover while the division runs.\<close>

abbreviation unmarked :: "u32 list \<Rightarrow> u32 list" where
  "unmarked T \<equiv> filter (\<lambda>c. \<not> Kit_CubeIsMarked c) T"

lemma mset_filter_update:
  assumes "i < length T" "P (T ! i)" "\<not> P x"
  shows "mset (filter P (T[i := x])) = mset (filter P T) - {#T ! i#}"
  using assms
proof (induction T arbitrary: i)
  case (Cons t T)
  then show ?case by (cases i) auto
qed simp

lemma scan_less:
  assumes "0 \<notin> set cs"
  shows "scan P cs < length cs \<longleftrightarrow> (\<exists>c \<in> set cs. P c)" "scan P cs < length cs \<Longrightarrow> P (cs ! scan P cs)"
    "scan P cs \<le> length cs"
proof -
  have eq: "takeWhile (\<lambda>c. c \<noteq> 0 \<and> \<not> P c) cs = takeWhile (\<lambda>c. \<not> P c) cs"
    using assms by (intro takeWhile_cong) auto
  show le: "scan P cs \<le> length cs" by (simp add: scan_def length_takeWhile_le)
  show "scan P cs < length cs \<Longrightarrow> P (cs ! scan P cs)"
    unfolding scan_def eq using nth_length_takeWhile by blast
  show "scan P cs < length cs \<longleftrightarrow> (\<exists>c \<in> set cs. P c)"
    unfolding scan_def eq using takeWhile_eq_all_conv [of "\<lambda>c. \<not> P c" cs] length_takeWhile_le [of "\<lambda>c. \<not> P c" cs]
    by (metis (no_types, lifting) le_neq_implies_less length_takeWhile_le nth_length_takeWhile nth_mem
        takeWhile_eq_take take_all_iff order_refl)
qed

lemma div_partner_less:
  assumes "0 \<notin> set T"
  shows "div_partner T q d < length T \<longleftrightarrow> d OR q \<in> set (unmarked T) \<and> d AND q = 0"
    "div_partner T q d < length T \<Longrightarrow> T ! div_partner T q d = d OR q \<and> \<not> Kit_CubeIsMarked (d OR q)"
proof -
  let ?P = "\<lambda>c. \<not> Kit_CubeIsMarked c \<and> Kit_CubeContains c d \<and> q = Kit_CubeSharp c d"
  have P: "?P c \<longleftrightarrow> \<not> Kit_CubeIsMarked c \<and> c = d OR q \<and> d AND q = 0" for c using cube_split [of c d q] by blast
  show "div_partner T q d < length T \<longleftrightarrow> d OR q \<in> set (unmarked T) \<and> d AND q = 0"
    unfolding div_partner_def scan_less(1) [OF assms] P by auto
  show "div_partner T q d < length T \<Longrightarrow> T ! div_partner T q d = d OR q \<and> \<not> Kit_CubeIsMarked (d OR q)"
    unfolding div_partner_def using scan_less(2) [OF assms, of ?P] unfolding P by auto
qed

lemma mark_one:
  assumes "0 \<notin> set T" "d OR q \<in> set (unmarked T)" "d AND q = 0" "map Kit_CubeUnmark T = S"
  defines "i \<equiv> div_partner T q d"
  shows "mset (unmarked (T[i := Kit_CubeMark (T ! i)])) = mset (unmarked T) - {#d OR q#}"
    "map Kit_CubeUnmark (T[i := Kit_CubeMark (T ! i)]) = S" "0 \<notin> set (T[i := Kit_CubeMark (T ! i)])"
proof -
  have i: "i < length T" "T ! i = d OR q" "\<not> Kit_CubeIsMarked (T ! i)"
    using div_partner_less [OF assms(1), of q d] assms(2,3) unfolding i_def by auto
  show "mset (unmarked (T[i := Kit_CubeMark (T ! i)])) = mset (unmarked T) - {#d OR q#}"
    using mset_filter_update [OF i(1), of "\<lambda>c. \<not> Kit_CubeIsMarked c"] i(2,3) by simp
  have "Kit_CubeUnmark (Kit_CubeMark (T ! i)) = Kit_CubeUnmark (T ! i)"
    using i(3) by (simp add: IsMarked_iff)
  then have "map Kit_CubeUnmark (T[i := Kit_CubeMark (T ! i)]) = map Kit_CubeUnmark T"
    by (simp add: map_update list_update_same_conv i(1))
  then show "map Kit_CubeUnmark (T[i := Kit_CubeMark (T ! i)]) = S" using assms(4) by simp
  show "0 \<notin> set (T[i := Kit_CubeMark (T ! i)])"
    using assms(1) set_update_subset_insert [of T i "Kit_CubeMark (T ! i)"] marked_simps(2) [of "T ! i"] by auto
qed

lemma mark_all:
  assumes "0 \<notin> set T" "map Kit_CubeUnmark T = S" "distinct ks"
    and "\<forall>k \<in> set ks. D ! k AND q = 0" and "mset (map (\<lambda>k. D ! k OR q) ks) \<subseteq># mset (unmarked T)"
  defines "f \<equiv> \<lambda>k T. T[div_partner T q (D ! k) := Kit_CubeMark (T ! div_partner T q (D ! k))]"
  shows "mset (unmarked (fold f ks T)) = mset (unmarked T) - mset (map (\<lambda>k. D ! k OR q) ks) \<and>
    map Kit_CubeUnmark (fold f ks T) = S \<and> 0 \<notin> set (fold f ks T)"
  using assms(1-5)
proof (induction ks arbitrary: T)
  case Nil
  then show ?case by simp
next
  case (Cons k ks)
  have "D ! k OR q \<in># mset (unmarked T)" using Cons.prems(5) by (auto dest: mset_subset_eqD)
  then have in_T: "D ! k OR q \<in> set (unmarked T)" by simp
  have q: "D ! k AND q = 0" using Cons.prems(4) by simp
  note one = mark_one [OF Cons.prems(1) in_T q Cons.prems(2), folded f_def]
  have "mset (map (\<lambda>k. D ! k OR q) ks) \<subseteq># mset (unmarked (f k T))"
    unfolding f_def one(1) using Cons.prems(5) by (simp add: insert_subset_eq_iff)
  then show ?case
    using Cons.IH [of "f k T"] Cons.prems one unfolding f_def by simp
qed

lemma distinct_sub_mset:
  assumes "distinct xs" "set xs \<subseteq> set ys"
  shows "mset xs \<subseteq># mset ys"
proof (rule mset_subset_eqI)
  fix a
  show "count (mset xs) a \<le> count (mset ys) a"
    using assms by (cases "a \<in> set xs") (auto simp: distinct_count_atmost_1 Suc_le_eq count_list_0_iff not_in_iff)
qed

lemma or_disjoint_inj: "a AND q = 0 \<Longrightarrow> b AND q = 0 \<Longrightarrow> a OR q = b OR q \<Longrightarrow> a = b" for a :: u32
  unfolding bit_eq_iff by (auto simp: bit_simps)

lemma full_takeWhile: "length (takeWhile P xs) = length xs \<Longrightarrow> \<forall>x \<in> set xs. P x"
  by (metis takeWhile_dropWhile_id append_eq_conv_conj drop_all le_refl append_Nil2 takeWhile_eq_all_conv)

text \<open>When \<open>div_try\<close> finds a quotient cube, all its products are unmarked cubes of the cover.\<close>

lemma div_try_Some:
  assumes "0 \<notin> set T" "0 \<notin> set D" and t: "div_try T D c = Some (k, q)"
  shows "k < length D" "c = D ! k OR q" "D ! k AND q = 0"
    "\<And>j. j < length D \<Longrightarrow> j \<noteq> k \<Longrightarrow> D ! j OR q \<in> set (unmarked T) \<and> D ! j AND q = 0"
proof -
  let ?W = "takeWhile (\<lambda>k2. D ! k2 \<noteq> 0 \<and> (k2 = k \<or> div_partner T q (D ! k2) \<noteq> length T)) [0..<length D]"
  have k: "k = scan (\<lambda>d. Kit_CubeContains c d) D" "k \<noteq> length D" "q = Kit_CubeSharp c (D ! k)"
    "length ?W = length [0..<length D]"
    using t by (auto simp: div_try_def Let_def split: if_splits)
  show kD: "k < length D" using k(2) scan_less(3) [OF assms(2), of "\<lambda>d. Kit_CubeContains c d"] unfolding k(1) by simp
  have "Kit_CubeContains c (D ! k)"
    using scan_less(2) [OF assms(2), of "\<lambda>d. Kit_CubeContains c d"] kD unfolding k(1) by blast
  then show "c = D ! k OR q" "D ! k AND q = 0" using k(3) by (simp_all add: cube_join)
  fix j assume j: "j < length D" "j \<noteq> k"
  have "div_partner T q (D ! j) \<noteq> length T" using full_takeWhile [OF k(4)] j by auto
  then have "div_partner T q (D ! j) < length T"
    using scan_less(3) [OF assms(1)] by (simp add: div_partner_def le_neq_implies_less)
  then show "D ! j OR q \<in> set (unmarked T) \<and> D ! j AND q = 0" using div_partner_less(1) [OF assms(1)] by blast
qed

text \<open>The invariant of the division loop.\<close>

definition div_inv :: "u32 list \<Rightarrow> u32 list \<Rightarrow> u32 list \<times> u32 list \<Rightarrow> bool" where
  "div_inv S D = (\<lambda>(T, Q). 0 \<notin> set T \<and> map Kit_CubeUnmark T = S \<and>
     mset S = mset (unmarked T) + mset (products D Q) \<and> (\<forall>d \<in> set D. \<forall>q \<in> set Q. d AND q = 0))"

lemma div_inv_step:
  assumes inv: "div_inv S D (T, Q)" and i: "i < length S" and D: "distinct D" "0 \<notin> set D"
  shows "div_inv S D (div_step D i (T, Q))"
proof (cases "Kit_CubeIsMarked (T ! i) \<or> div_try T D (T ! i) = None")
  case True
  then show ?thesis using inv by (auto simp: div_step_def Let_def)
next
  case False
  then obtain k q where m: "\<not> Kit_CubeIsMarked (T ! i)" and t: "div_try T D (T ! i) = Some (k, q)" by auto
  have T: "0 \<notin> set T" "map Kit_CubeUnmark T = S" "i < length T" using inv i by (auto simp: div_inv_def)
  note fnd = div_try_Some [OF T(1) D(2) t]
  define T1 where "T1 = T[i := Kit_CubeMark (T ! i)]"
  define ks where "ks = filter (\<lambda>j. j \<noteq> k) [0..<length D]"
  have un1: "mset (unmarked T1) = mset (unmarked T) - {#D ! k OR q#}"
    unfolding T1_def using mset_filter_update [OF T(3), of "\<lambda>c. \<not> Kit_CubeIsMarked c"] m fnd(2) by simp
  have "Kit_CubeUnmark (Kit_CubeMark (T ! i)) = Kit_CubeUnmark (T ! i)" using m by (simp add: IsMarked_iff)
  then have T1: "0 \<notin> set T1" "map Kit_CubeUnmark T1 = S"
    using T set_update_subset_insert [of T i "Kit_CubeMark (T ! i)"] marked_simps(2) [of "T ! i"]
    unfolding T1_def by (auto simp: map_update list_update_same_conv)
  have disj: "D ! j AND q = 0" if "j < length D" for j using fnd(3,4) that by (cases "j = k") auto
  have inj: "D ! a OR q = D ! b OR q \<longleftrightarrow> a = b" if "a < length D" "b < length D" for a b
    using or_disjoint_inj [OF disj disj, OF that] nth_eq_iff_index_eq [OF D(1) that] by auto
  have "distinct (map (\<lambda>j. D ! j OR q) (k # ks))"
    by (auto simp: ks_def distinct_map inj_on_def inj fnd(1))
  moreover have "D ! k OR q \<in> set (unmarked T)" using m nth_mem [OF T(3)] unfolding fnd(2) [symmetric] by simp
  ultimately have sub: "mset (map (\<lambda>j. D ! j OR q) (k # ks)) \<subseteq># mset (unmarked T)"
    using fnd(4) by (intro distinct_sub_mset) (auto simp: ks_def)
  then have "mset (map (\<lambda>j. D ! j OR q) ks) \<subseteq># mset (unmarked T1)"
    unfolding un1 by (simp add: insert_subset_eq_iff)
  moreover have "div_mark T1 D k q =
      fold (\<lambda>k T. T[div_partner T q (D ! k) := Kit_CubeMark (T ! div_partner T q (D ! k))]) ks T1"
    unfolding div_mark_def ks_def fold_filter each_cube_id [OF D(2)]
    by (intro fold_cong) (auto simp: fun_eq_iff Let_def)
  ultimately have fin: "mset (unmarked (div_mark T1 D k q)) = mset (unmarked T1) - mset (map (\<lambda>j. D ! j OR q) ks) \<and>
      map Kit_CubeUnmark (div_mark T1 D k q) = S \<and> 0 \<notin> set (div_mark T1 D k q)"
    using mark_all [OF T1, of ks D q] disj by (simp add: ks_def)
  have "mset (map (\<lambda>j. D ! j OR q) (k # ks)) = mset (map (\<lambda>j. D ! j OR q) [0..<length D])"
  proof -
    have "mset [0..<length D] = mset (k # ks)"
      using fnd(1) by (intro set_eq_iff_mset_eq_distinct [THEN iffD1]) (auto simp: ks_def)
    then show ?thesis by (metis mset_map)
  qed
  also have "\<dots> = mset (map (\<lambda>d. d OR q) D)" 
    using map_map [of "\<lambda>d. d OR q" "(!) D" "[0..<length D]"] by (simp add: map_nth o_def)
  finally have all: "mset (map (\<lambda>d. d OR q) D) = mset (map (\<lambda>j. D ! j OR q) (k # ks))" by simp
  have "mset (unmarked (div_mark T1 D k q)) = mset (unmarked T) - mset (map (\<lambda>j. D ! j OR q) (k # ks))"
    using fin un1 by simp
  then have "mset (unmarked T) = mset (unmarked (div_mark T1 D k q)) + mset (map (\<lambda>d. d OR q) D)"
    using subset_mset.diff_add [OF sub] unfolding all by presburger
  moreover have "\<forall>d \<in> set D. d AND q = 0" using disj by (auto simp: in_set_conv_nth)
  moreover have "div_step D i (T, Q) = (div_mark T1 D k q, Q @ [q])"
    using m t by (simp add: div_step_def T1_def)
  ultimately show ?thesis using fin inv by (auto simp: div_inv_def products_snoc)
qed

lemma div_loop_inv:
  assumes S: "plain S" and D: "distinct D" "0 \<notin> set D" and "n \<le> length S"
  shows "div_inv S D (fold (div_step D) [0..<n] (S, []))"
  using assms(4)
proof (induction n)
  case 0
  have "map Kit_CubeUnmark S = S" using S by (intro map_idI) (simp add: plain_def)
  moreover have "unmarked S = S" using S by (auto simp: plain_def IsMarked_iff filter_id_conv)
  ultimately show ?case using S by (auto simp: div_inv_def products_def plain_def simp del: mset_filter)
next
  case (Suc n)
  then show ?case
    using div_inv_step [of S D "fst (fold (div_step D) [0..<n] (S, []))" "snd (fold (div_step D) [0..<n] (S, []))" n] D
    by simp
qed

lemma length_products: "length (products D Q) = length Q * length D"
  by (induction Q) (simp_all add: products_def)

text \<open>
  The main fact on \<open>Kit_SopDivideInternal\<close>: the quotient and the remainder it returns rebuild the
  cover, the cover itself is restored, and quotient and remainder have as many cubes as were allocated.
\<close>

lemma DivideInternal_divides:
  assumes S: "plain S" and D: "distinct D" "0 \<notin> set D" "D \<noteq> []"
    and r: "Kit_SopDivideInternal S D s = Some (S', Q, R, s')"
  shows "S' = S \<and> divides S D Q R \<and> length Q * length D + length R = length S"
proof -
  have "S' = S \<and> divides S D Q R"
  proof (cases "length D = 1")
    case True
    then obtain d where "D = [d]" by (auto simp: length_Suc_conv)
    then show ?thesis
      using r DivideByCube_divides [OF S] by (auto simp: Kit_SopDivideInternal_def split: option.splits if_split_asm)
  next
    case False
    obtain T V where TV: "fold (div_step D) [0..<length S] (S, []) = (T, V)" by (cases "fold (div_step D) [0..<length S] (S, [])")
    then have inv: "div_inv S D (T, V)" using div_loop_inv [OF S D(1,2) order_refl] by metis
    then have "0 \<notin> set T" by (simp add: div_inv_def)
    then have "S' = map Kit_CubeUnmark T \<and> Q = V \<and> R = unmarked T"
      using r False TV by (auto simp: Kit_SopDivideInternal_def plain_each [OF S] each_cube_id Let_def split: option.splits if_split_asm)
    with inv show ?thesis by (auto simp: div_inv_def divides_def add.commute)
  qed
  moreover from this have "length Q * length D + length R = length S"
    by (metis divides_def length_products size_mset size_union)
  ultimately show ?thesis by blast
qed

section \<open>Completeness of the division\<close>

definition antichain :: "u32 list \<Rightarrow> bool" where
  "antichain cs \<longleftrightarrow> (\<forall>c d. {#c, d#} \<subseteq># mset cs \<longrightarrow> c AND d \<noteq> c)"

lemma antichainD: "antichain cs \<Longrightarrow> {#c, d#} \<subseteq># mset cs \<Longrightarrow> c AND d \<noteq> c"
  by (simp add: antichain_def)

text \<open>\<open>kernel_of ck D S\<close>: the cubes of \<open>D\<close> times the co-kernel cube \<open>ck\<close> are cubes of \<open>S\<close>.\<close>

definition kernel_of :: "u32 \<Rightarrow> u32 list \<Rightarrow> u32 list \<Rightarrow> bool" where
  "kernel_of ck D S \<longleftrightarrow> mset (map (\<lambda>d. d OR ck) D) \<subseteq># mset S \<and> (\<forall>d \<in> set D. d AND ck = 0)"

lemma antichain_sub:
  assumes "antichain S" "mset (map f D) \<subseteq># mset S" "\<And>c d. c AND d = c \<Longrightarrow> f c AND f d = f c"
  shows "antichain D"
  unfolding antichain_def
proof (intro allI impI notI)
  fix c d assume "{#c, d#} \<subseteq># mset D" "c AND d = c"
  then have "{#f c, f d#} \<subseteq># mset S" "f c AND f d = f c"
    using image_mset_subseteq_mono [of "{#c, d#}" "mset D" f] assms(2,3) by (auto intro: subset_mset.order_trans)
  then show False using assms(1) unfolding antichain_def by blast
qed

lemma antichain_distinct: "antichain D \<Longrightarrow> distinct D"
proof (rule ccontr)
  assume a: "antichain D" and "\<not> distinct D"
  then obtain xs ys zs y where "D = xs @ [y] @ ys @ [y] @ zs" using not_distinct_decomp by blast
  then have "{#y, y#} \<subseteq># mset D" by simp
  with a show False using antichainD by fastforce
qed

lemma antichain_nonzero: "antichain D \<Longrightarrow> 2 \<le> length D \<Longrightarrow> 0 \<notin> set D"
proof
  assume a: "antichain D" "2 \<le> length D" "0 \<in> set D"
  then obtain xs ys where D: "D = xs @ 0 # ys" by (meson split_list)
  then have "xs @ ys \<noteq> []" using a(2) by auto
  then obtain d where "d \<in># mset (xs @ ys)" by (metis in_multiset_in_set list.set_intros(1) neq_Nil_conv)
  then have "{#0, d#} \<subseteq># mset D" using D by simp
  with a(1) show False using antichainD by fastforce
qed

lemma kernel_antichain: "kernel_of ck D S \<Longrightarrow> antichain S \<Longrightarrow> antichain D"
  by (rule antichain_sub [of S "\<lambda>d. d OR ck"])
     (auto simp: kernel_of_def bit_eq_iff bit_simps)

lemma kernel_marked: "kernel_of ck D S \<Longrightarrow> plain S \<Longrightarrow> d \<in> set D \<Longrightarrow> \<not> bit d 31"
proof -
  assume a: "kernel_of ck D S" "plain S" "d \<in> set D"
  then have "d OR ck \<in># mset S" by (auto simp: kernel_of_def dest!: mset_subset_eqD)
  then have "\<not> bit (d OR ck) 31" using a(2) by (simp add: plain_def)
  then show ?thesis by (simp add: bit_or_iff)
qed

lemma two_sub_mset:
  assumes "i < length D" "j < length D" "i \<noteq> j"
  shows "{#D ! i, D ! j#} \<subseteq># mset D"
proof -
  have "mset [i, j] \<subseteq># mset [0..<length D]" using assms by (intro distinct_sub_mset) auto
  then have "image_mset ((!) D) (mset [i, j]) \<subseteq># image_mset ((!) D) (mset [0..<length D])"
    by (rule image_mset_subseteq_mono)
  also have "image_mset ((!) D) (mset [0..<length D]) = mset D" by (metis map_nth mset_map)
  finally show ?thesis by simp
qed

lemma div_try_complete:
  assumes S: "plain S" and D: "antichain D" "0 \<notin> set D" "D \<noteq> []" and ker: "kernel_of q D S"
  shows "div_try S D (D ! 0 OR q) \<noteq> None"
proof -
  let ?c = "D ! 0 OR q"
  define k where "k = scan (\<lambda>d. Kit_CubeContains ?c d) D"
  have disj: "d AND q = 0" if "d \<in> set D" for d using ker that by (simp add: kernel_of_def)
  have S0: "0 \<notin> set S" using S by (auto simp: plain_def)
  have "Kit_CubeContains ?c (D ! 0)" by (auto simp: Contains_iff bit_or_iff)
  then have k: "k < length D" "Kit_CubeContains ?c (D ! k)"
    unfolding k_def using scan_less(1,2) [OF D(2), of "\<lambda>d. Kit_CubeContains ?c d"] D(3) by (metis length_greater_0_conv nth_mem)+
  have "D ! k AND D ! 0 = D ! k"
    using k(2) disj [OF nth_mem [OF k(1)]] unfolding Contains_iff bit_eq_iff by (auto simp: bit_simps)
  then have k0: "k = 0"
    using antichainD [OF D(1) two_sub_mset [OF k(1), of 0]] D(3) by auto
  have q: "Kit_CubeSharp ?c (D ! k) = q"
    using disj [OF nth_mem [OF k(1)]] unfolding k0 bit_eq_iff bit_Sharp by (auto simp: bit_simps)
  have part: "div_partner S q (D ! j) \<noteq> length S" if "j < length D" for j
  proof -
    have "D ! j OR q \<in># mset S" using ker that by (auto simp: kernel_of_def dest!: mset_subset_eqD)
    then have "D ! j OR q \<in> set (unmarked S)" using S by (auto simp: plain_def IsMarked_iff)
    then show ?thesis using div_partner_less(1) [OF S0, of q "D ! j"] disj that by auto
  qed
  have "D ! j \<noteq> 0" if "j < length D" for j using D(2) nth_mem [OF that] by metis
  with part have "length (takeWhile (\<lambda>k2. D ! k2 \<noteq> 0 \<and> (k2 = k \<or> div_partner S q (D ! k2) \<noteq> length S)) [0..<length D]) = length D"
    by (subst takeWhile_eq_all_conv [THEN iffD2]) auto
  then show ?thesis using k(1) q by (simp add: div_try_def Let_def flip: k_def)
qed

lemma div_loop_none:
  "snd (fold (div_step D) [0..<n] (S, [])) = [] \<Longrightarrow>
    fold (div_step D) [0..<n] (S, []) = (S, []) \<and> (\<forall>i < n. Kit_CubeIsMarked (S ! i) \<or> div_try S D (S ! i) = None)"
proof (induction n)
  case (Suc n)
  obtain T Q where TQ: "fold (div_step D) [0..<n] (S, []) = (T, Q)" by (cases "fold (div_step D) [0..<n] (S, [])")
  have last: "snd (div_step D n (T, Q)) = []" using Suc.prems TQ by simp
  then have "Q = []" and step: "Kit_CubeIsMarked (T ! n) \<or> div_try T D (T ! n) = None"
    by (auto simp: div_step_def Let_def split: if_splits option.splits)
  then have "T = S \<and> Q = [] \<and> (\<forall>i < n. Kit_CubeIsMarked (S ! i) \<or> div_try S D (S ! i) = None)" using Suc.IH TQ by simp
  moreover from this have "div_step D n (S, []) = (S, [])" using step by (auto simp: div_step_def Let_def)
  ultimately show ?case using step TQ by (auto simp: less_Suc_eq)
qed simp

lemma DivideInternal_nonempty:
  assumes S: "plain S" "antichain S" and D: "2 \<le> length D" and ker: "kernel_of q D S"
    and r: "Kit_SopDivideInternal S D s = Some (S', Q, R, s')"
  shows "Q \<noteq> []"
proof
  assume "Q = []"
  obtain T V where TV: "fold (div_step D) [0..<length S] (S, []) = (T, V)" by (cases "fold (div_step D) [0..<length S] (S, [])")
  then have "V = []" using r D \<open>Q = []\<close>
    by (auto simp: Kit_SopDivideInternal_def plain_each [OF S(1)] Let_def split: option.splits if_split_asm)
  then have none: "Kit_CubeIsMarked (S ! i) \<or> div_try S D (S ! i) = None" if "i < length S" for i
    using div_loop_none [of D "length S" S] TV that by simp
  have anti: "antichain D" using kernel_antichain [OF ker S(2)] .
  have "D \<noteq> []" using D by auto
  then have "D ! 0 OR q \<in># mset S" using ker by (auto simp: kernel_of_def dest!: mset_subset_eqD)
  then obtain i where i: "i < length S" "S ! i = D ! 0 OR q" by (auto simp: in_set_conv_nth)
  have "\<not> Kit_CubeIsMarked (S ! i)" using S(1) i(1) by (auto simp: plain_def IsMarked_iff)
  then show False
    using none [OF i(1)] i(2) div_try_complete [OF S(1) anti antichain_nonzero [OF anti D] \<open>D \<noteq> []\<close> ker] by simp
qed

section \<open>Literals and kernels\<close>

text \<open>The number of literals of a cover bounds the recursion of the kernel and of the factoring.\<close>

definition lit_weight :: "u32 list \<Rightarrow> nat" where
  "lit_weight cs = sum_list (map word_ones cs)"

lemma lit_weight_simps [simp]: "lit_weight [] = 0" "lit_weight (c # cs) = word_ones c + lit_weight cs"
    "lit_weight (cs @ ds) = lit_weight cs + lit_weight ds"
  by (simp_all add: lit_weight_def)

lemma popcount_mono:
  assumes "\<And>i. bit c i \<Longrightarrow> bit d i"
  shows "word_ones c \<le> word_ones d"
  unfolding word_ones_def by (rule card_mono) (use assms in auto)

lemma popcount_less:
  assumes "\<And>i. bit c i \<Longrightarrow> bit d i" and "bit d j" "\<not> bit c j"
  shows "word_ones c < word_ones d"
proof -
  have "j < 32" using bit_imp_le_length [OF assms(2)] by simp
  then show ?thesis unfolding word_ones_def by (intro psubset_card_mono) (use assms in auto)
qed

lemma popcount_RemLit: "bit c i \<Longrightarrow> word_ones (Kit_CubeRemLit c i) < word_ones c"
  by (rule popcount_less) (auto simp: bit_RemLit)

lemma popcount_Sharp: "word_ones (Kit_CubeSharp c d) \<le> word_ones c"
  by (rule popcount_mono) (simp add: bit_Sharp)

lemma literal_quo_weight:
  assumes "0 < lit_occ cs i"
  shows "lit_weight (Kit_SopDivideByLiteralQuo cs i) < lit_weight cs"
proof -
  have le: "lit_weight (map (\<lambda>c. Kit_CubeRemLit c i) (filter (\<lambda>c. bit c i) ds)) \<le> lit_weight ds" for ds
    by (induction ds) (auto dest: popcount_RemLit)
  have "lit_weight (map (\<lambda>c. Kit_CubeRemLit c i) (filter (\<lambda>c. bit c i) ds)) < lit_weight ds"
    if "filter (\<lambda>c. bit c i) ds \<noteq> []" for ds
    using that
  proof (induction ds)
    case (Cons d ds)
    then show ?case using le [of ds] popcount_RemLit [of d i] by (cases "bit d i") auto
  qed simp
  then have "lit_weight (Kit_SopDivideByLiteralQuo cs i) < lit_weight (each_cube cs)"
    using assms by (auto simp: Kit_SopDivideByLiteralQuo_def lit_occ_def)
  also have "\<dots> \<le> lit_weight cs"
    unfolding each_cube_def by (metis le_add1 lit_weight_simps(3) takeWhile_dropWhile_id)
  finally show ?thesis .
qed

lemma cube_free_weight: "lit_weight (Kit_SopMakeCubeFree cs) \<le> lit_weight cs"
proof -
  have "lit_weight (map (\<lambda>c. Kit_CubeSharp c m) ds) \<le> lit_weight ds" for m ds
    by (induction ds) (auto intro: add_mono popcount_Sharp)
  moreover have "cs = each_cube cs @ drop (length (each_cube cs)) cs"
    by (metis append_take_drop_id each_cube_def takeWhile_eq_take)
  then have "lit_weight cs = lit_weight (each_cube cs) + lit_weight (drop (length (each_cube cs)) cs)"
    by (metis lit_weight_simps(3))
  ultimately show ?thesis
    by (auto simp: Kit_SopMakeCubeFree_def Let_def)
qed

text \<open>What the three literal searches return.\<close>

lemma AnyLiteral_iff: "Kit_SopAnyLiteral cs n = -1 \<longleftrightarrow> (\<forall>i < n. lit_occ cs i \<le> 1)"
proof (cases "find (\<lambda>i. lit_occ cs i > 1) [0..<n]")
  case None
  then show ?thesis using find_None_iff [of "\<lambda>i. lit_occ cs i > 1" "[0..<n]"]
    by (simp add: Kit_SopAnyLiteral_def not_less) (meson not_le)
next
  case (Some i)
  then have "i < n" "lit_occ cs i > 1" using find_Some_iff [of "\<lambda>i. lit_occ cs i > 1" "[0..<n]" i] by auto
  then show ?thesis using Some by (auto simp: Kit_SopAnyLiteral_def not_le)
qed

lemma WorstLiteral_spec:
  fixes cs n
  defines "r \<equiv> Kit_SopWorstLiteral cs n"
  shows "r \<noteq> -1 \<Longrightarrow> 0 \<le> r \<and> nat r < n \<and> 2 \<le> lit_occ cs (nat r) \<and>
      (\<forall>i < n. 2 \<le> lit_occ cs i \<longrightarrow> lit_occ cs (nat r) \<le> lit_occ cs i)"
    and "r = -1 \<Longrightarrow> i < n \<Longrightarrow> lit_occ cs i < 1000000 \<Longrightarrow> lit_occ cs i \<le> 1"
proof -
  let ?f = "\<lambda>i (iMin, nLitsMin). let nLitsCur = lit_occ cs i in
           if nLitsCur < 2 then (iMin, nLitsMin)
           else if nLitsMin > nLitsCur then (int i, nLitsCur) else (iMin, nLitsMin)"
  let ?P = "\<lambda>n (iMin, nLitsMin). (\<forall>i < n. 2 \<le> lit_occ cs i \<longrightarrow> nLitsMin \<le> lit_occ cs i) \<and>
     (if nLitsMin < 1000000 then 0 \<le> iMin \<and> nat iMin < n \<and> nLitsMin = lit_occ cs (nat iMin) \<and> 2 \<le> nLitsMin
      else nLitsMin = 1000000)"
  have "?P n (for_up 0 n ?f (-1, 1000000))"
    by (rule for_up_invar [where P = ?P]) (auto simp: Let_def less_Suc_eq split: if_splits)
  moreover obtain iMin nLitsMin where res: "for_up 0 n ?f (-1, 1000000) = (iMin, nLitsMin)" by (cases "for_up 0 n ?f (-1, 1000000)")
  ultimately have inv: "?P n (iMin, nLitsMin)" by simp
  have r: "r = (if nLitsMin < 1000000 then iMin else -1)"
    unfolding r_def Kit_SopWorstLiteral_def by (subst res) simp
  show "r \<noteq> -1 \<Longrightarrow> 0 \<le> r \<and> nat r < n \<and> 2 \<le> lit_occ cs (nat r) \<and>
      (\<forall>i < n. 2 \<le> lit_occ cs i \<longrightarrow> lit_occ cs (nat r) \<le> lit_occ cs i)"
    using inv by (auto simp: r split: if_splits)
  show "r = -1 \<Longrightarrow> i < n \<Longrightarrow> lit_occ cs i < 1000000 \<Longrightarrow> lit_occ cs i \<le> 1"
    using inv by (auto simp: r split: if_splits)
qed

lemma BestLiteral_spec:
  fixes cs n u
  defines "r \<equiv> Kit_SopBestLiteral cs n u"
  shows "r \<noteq> -1 \<Longrightarrow> 0 \<le> r \<and> nat r < n \<and> bit u (nat r) \<and> 2 \<le> lit_occ cs (nat r) \<and>
      (\<forall>i < n. bit u i \<longrightarrow> 2 \<le> lit_occ cs i \<longrightarrow> lit_occ cs i \<le> lit_occ cs (nat r))"
    and "r = -1 \<Longrightarrow> i < n \<Longrightarrow> bit u i \<Longrightarrow> lit_occ cs i \<le> 1"
proof -
  let ?f = "\<lambda>i (iMax, nLitsMax). if \<not> Kit_CubeHasLit u i then (iMax, nLitsMax)
           else let nLitsCur = int (lit_occ cs i) in
           if nLitsCur < 2 then (iMax, nLitsMax)
           else if nLitsMax < nLitsCur then (int i, nLitsCur) else (iMax, nLitsMax)"
  let ?P = "\<lambda>n (iMax, nLitsMax). (\<forall>i < n. bit u i \<longrightarrow> 2 \<le> lit_occ cs i \<longrightarrow> int (lit_occ cs i) \<le> nLitsMax) \<and>
     (if nLitsMax < 0 then nLitsMax = -1 \<and> iMax = -1
      else 0 \<le> iMax \<and> nat iMax < n \<and> bit u (nat iMax) \<and> nLitsMax = int (lit_occ cs (nat iMax)) \<and> 2 \<le> nLitsMax)"
  have "?P n (for_up 0 n ?f (-1, -1))"
    by (rule for_up_invar [where P = ?P]) (auto simp: Let_def less_Suc_eq split: if_splits)
  moreover obtain iMax nLitsMax where res: "for_up 0 n ?f (-1, -1) = (iMax, nLitsMax)" by (cases "for_up 0 n ?f (-1, -1)")
  ultimately have inv: "?P n (iMax, nLitsMax)" by simp
  have r: "r = (if nLitsMax \<ge> 0 then iMax else -1)"
    unfolding r_def Kit_SopBestLiteral_def by (subst res) simp
  show "r \<noteq> -1 \<Longrightarrow> 0 \<le> r \<and> nat r < n \<and> bit u (nat r) \<and> 2 \<le> lit_occ cs (nat r) \<and>
      (\<forall>i < n. bit u i \<longrightarrow> 2 \<le> lit_occ cs i \<longrightarrow> lit_occ cs i \<le> lit_occ cs (nat r))"
    using inv by (auto simp: r split: if_splits)
  show "r = -1 \<Longrightarrow> i < n \<Longrightarrow> bit u i \<Longrightarrow> lit_occ cs i \<le> 1"
    using inv by (auto simp: r split: if_splits)
qed

text \<open>
  \<open>Kit_SopDivisorZeroKernel_rec\<close> rewrites the cover until no literal occurs twice. Each round removes
  a literal, so the recursion ends on every input.
\<close>

function Kit_SopDivisorZeroKernel_rec :: "u32 list \<Rightarrow> nat \<Rightarrow> u32 list" where
  "Kit_SopDivisorZeroKernel_rec cSop nLits =
    (let iLit = Kit_SopWorstLiteral cSop nLits in
     if iLit = -1 then cSop
     else Kit_SopDivisorZeroKernel_rec (Kit_SopMakeCubeFree (Kit_SopDivideByLiteralQuo cSop (nat iLit))) nLits)"
  by pat_completeness auto
termination
proof (relation "measure (\<lambda>(cSop, nLits). lit_weight cSop)", simp, clarsimp)
  fix cs n assume "Kit_SopWorstLiteral cs n \<noteq> -1"
  then have "0 < lit_occ cs (nat (Kit_SopWorstLiteral cs n))" using WorstLiteral_spec(1) [of cs n] by simp
  then show "lit_weight (Kit_SopMakeCubeFree (Kit_SopDivideByLiteralQuo cs (nat (Kit_SopWorstLiteral cs n)))) < lit_weight cs"
    using le_less_trans [OF cube_free_weight literal_quo_weight] by blast
qed

declare Kit_SopDivisorZeroKernel_rec.simps [simp del]

definition Kit_SopDivisor :: "u32 list \<Rightarrow> nat \<Rightarrow> vec_mem \<Rightarrow> (u32 list option \<times> vec_mem) option" where
  "Kit_SopDivisor cSop nLits vMemory =
    (if length cSop \<le> 1 then Some (None, vMemory)
     else if Kit_SopAnyLiteral cSop nLits = -1 then Some (None, vMemory)
     else case Kit_SopDup cSop vMemory of None \<Rightarrow> None
       | Some (cResult, vMemory) \<Rightarrow> Some (Some (Kit_SopDivisorZeroKernel_rec cResult nLits), vMemory))"

text \<open>
  \<open>Kit_SopBestLiteralCover\<close>. When no literal of the cube occurs twice, the code shifts by -1,
  which C leaves undefined: \<open>None\<close> here.
\<close>

definition Kit_SopBestLiteralCover :: "u32 list \<Rightarrow> u32 \<Rightarrow> nat \<Rightarrow> vec_mem \<Rightarrow> (u32 list \<times> vec_mem) option" where
  "Kit_SopBestLiteralCover cSop uCube nLits vMemory =
    (let iLitBest = Kit_SopBestLiteral cSop nLits uCube in
     case fetch_words 1 vMemory of None \<Rightarrow> None
     | Some vMemory \<Rightarrow> if iLitBest = -1 then None else Some ([Kit_CubeSetLit 0 (nat iLitBest)], vMemory))"

lemma image_filter_sub: "image_mset f (filter_mset P M) \<subseteq># image_mset f M"
  by (simp add: image_mset_subseteq_mono)

lemma kernel_literal:
  assumes ker: "kernel_of ck D S" and "0 \<notin> set D" and i: "i < 32"
  shows "kernel_of (ck OR push_bit i 1) (Kit_SopDivideByLiteralQuo D i) S"
proof -
  let ?l = "push_bit i 1 :: u32"
  have join: "Kit_CubeRemLit c i OR (ck OR ?l) = c OR ck" if "bit c i" for c
    using that i by (intro bit_eqI) (auto simp: bit_or_iff bit_RemLit bit_push1 simp del: push_bit_of_1)
  have Q: "Kit_SopDivideByLiteralQuo D i = map (\<lambda>c. Kit_CubeRemLit c i) (filter (\<lambda>c. bit c i) D)"
    using assms(2) by (simp add: Kit_SopDivideByLiteralQuo_def each_cube_id)
  have "map (\<lambda>d. d OR (ck OR ?l)) (Kit_SopDivideByLiteralQuo D i) = map (\<lambda>c. c OR ck) (filter (\<lambda>c. bit c i) D)"
    unfolding Q map_map by (rule map_cong) (auto simp: join simp del: push_bit_of_1)
  then have "mset (map (\<lambda>d. d OR (ck OR ?l)) (Kit_SopDivideByLiteralQuo D i)) \<subseteq># mset (map (\<lambda>d. d OR ck) D)"
    by (simp add: image_filter_sub del: push_bit_of_1)
  moreover have "d AND (ck OR ?l) = 0" if dQ: "d \<in> set (Kit_SopDivideByLiteralQuo D i)" for d
  proof -
    obtain c where "c \<in> set D" and d: "d = Kit_CubeRemLit c i" using dQ unfolding Q by auto
    then have c: "d = Kit_CubeRemLit c i" "c AND ck = 0" using ker by (simp_all add: kernel_of_def)
    show ?thesis
    proof (rule bit_eqI)
      fix j
      have "\<not> bit (c AND ck) j" using c(2) by simp
      then show "bit (d AND (ck OR ?l)) j = bit 0 j"
        unfolding c(1) by (auto simp: bit_and_iff bit_or_iff bit_RemLit bit_push1 [OF i] simp del: push_bit_of_1)
    qed
  qed
  ultimately show ?thesis using ker subset_mset.order_trans unfolding kernel_of_def by blast
qed

lemma bit_common: "bit (Kit_SopCommonCube cs) i \<longleftrightarrow> i < 32 \<and> (\<forall>c \<in> set (each_cube cs). bit c i)"
proof -
  have "bit (fold (\<lambda>c m. m AND c) ds m) i \<longleftrightarrow> bit m i \<and> (\<forall>c \<in> set ds. bit c i)" for ds and m :: u32
    by (induction ds arbitrary: m) (auto simp: bit_and_iff)
  then show ?thesis unfolding Kit_SopCommonCube_def by (simp add: bit_simps)
qed

lemma kernel_cube_free:
  assumes ker: "kernel_of ck D S" and D0: "0 \<notin> set D"
  shows "kernel_of (ck OR Kit_SopCommonCube D) (Kit_SopMakeCubeFree D) S"
proof -
  let ?m = "Kit_SopCommonCube D"
  have D: "Kit_SopMakeCubeFree D = map (\<lambda>c. Kit_CubeSharp c ?m) D"
  proof (cases "?m = 0")
    case True
    then show ?thesis by (simp add: Kit_SopMakeCubeFree_def Kit_CubeSharp_def)
  qed (simp add: Kit_SopMakeCubeFree_def each_cube_id [OF D0])
  have common: "bit ?m j \<Longrightarrow> bit c j" if "c \<in> set D" for c j
    using that by (simp add: bit_common each_cube_id [OF D0])
  have "Kit_CubeSharp c ?m OR (ck OR ?m) = c OR ck" if "c \<in> set D" for c
    using common [OF that] by (intro bit_eqI) (auto simp: bit_or_iff bit_Sharp)
  then have eq: "map (\<lambda>d. d OR (ck OR ?m)) (Kit_SopMakeCubeFree D) = map (\<lambda>d. d OR ck) D"
    unfolding D map_map by (intro map_cong) auto
  have "Kit_CubeSharp c ?m AND (ck OR ?m) = 0" if "c \<in> set D" for c
  proof (rule bit_eqI)
    fix j
    have "\<not> bit (c AND ck) j" using ker that by (simp add: kernel_of_def)
    then show "bit (Kit_CubeSharp c ?m AND (ck OR ?m)) j = bit 0 j" by (auto simp: bit_and_iff bit_or_iff bit_Sharp)
  qed
  then show ?thesis using ker unfolding kernel_of_def eq by (simp add: D)
qed

lemma length_MakeCubeFree [simp]: "length (Kit_SopMakeCubeFree cs) = length cs"
  using length_takeWhile_le [of "\<lambda>c. c \<noteq> 0" cs] by (auto simp: Kit_SopMakeCubeFree_def each_cube_def Let_def)

lemma length_LiteralQuo [simp]: "length (Kit_SopDivideByLiteralQuo cs i) = lit_occ cs i"
  by (simp add: Kit_SopDivideByLiteralQuo_def lit_occ_def)

lemma lit_occ_le: "lit_occ cs i \<le> length cs"
  unfolding lit_occ_def each_cube_def by (meson le_trans length_filter_le length_takeWhile_le)

lemma kernel_length: "kernel_of ck D S \<Longrightarrow> length D \<le> length S"
  unfolding kernel_of_def by (metis length_map size_mset size_mset_mono)

text \<open>The recursion ends in a level-zero kernel: a quotient in which no literal occurs twice.\<close>

lemma ZeroKernel_step:
  assumes S: "antichain S" and n: "n \<le> 32" and ker: "kernel_of ck D S" and len: "2 \<le> length D"
    and i: "Kit_SopWorstLiteral D n = int i" "Kit_SopWorstLiteral D n \<noteq> -1"
  defines "D' \<equiv> Kit_SopMakeCubeFree (Kit_SopDivideByLiteralQuo D i)"
  shows "\<exists>ck'. kernel_of ck' D' S \<and> ck' \<noteq> 0 \<and> 2 \<le> length D'"
proof -
  let ?Q = "Kit_SopDivideByLiteralQuo D i"
  have occ: "i < n" "2 \<le> lit_occ D i" using WorstLiteral_spec(1) [of D n] i by simp_all
  have D0: "0 \<notin> set D" by (rule antichain_nonzero [OF kernel_antichain [OF ker S] len])
  have Q: "kernel_of (ck OR push_bit i 1) ?Q S" using kernel_literal [OF ker D0] occ n by simp
  have "0 \<notin> set ?Q" using antichain_nonzero [OF kernel_antichain [OF Q S]] occ by simp
  then have "kernel_of ((ck OR push_bit i 1) OR Kit_SopCommonCube ?Q) D' S"
    unfolding D'_def by (rule kernel_cube_free [OF Q])
  moreover have "bit ((ck OR push_bit i 1) OR Kit_SopCommonCube ?Q) i"
    using occ n by (simp add: bit_or_iff bit_push1 del: push_bit_of_1)
  then have "(ck OR push_bit i 1) OR Kit_SopCommonCube ?Q \<noteq> 0" by (metis bit_0_eq bot_apply bot_bool_def)
  ultimately show ?thesis using occ unfolding D'_def by auto
qed

lemma ZeroKernel_ok:
  assumes "antichain S" "n \<le> 32" "kernel_of ck D S" "2 \<le> length D" "length S < 1000000"
  shows "\<exists>ck'. kernel_of ck' (Kit_SopDivisorZeroKernel_rec D n) S \<and> 2 \<le> length (Kit_SopDivisorZeroKernel_rec D n) \<and>
    (ck \<noteq> 0 \<or> Kit_SopWorstLiteral D n \<noteq> -1 \<longrightarrow> ck' \<noteq> 0) \<and>
    (\<forall>i < n. lit_occ (Kit_SopDivisorZeroKernel_rec D n) i \<le> 1)"
  using assms
proof (induction D n arbitrary: ck rule: Kit_SopDivisorZeroKernel_rec.induct)
  case (1 D n)
  show ?case
  proof (cases "Kit_SopWorstLiteral D n = -1")
    case True
    have "lit_occ D i \<le> 1" if "i < n" for i
      using WorstLiteral_spec(2) [OF True that] lit_occ_le [of D i] kernel_length [OF 1(4)] 1(6) by linarith
    then show ?thesis using True 1 by (auto simp: Kit_SopDivisorZeroKernel_rec.simps)
  next
    case False
    let ?D = "Kit_SopMakeCubeFree (Kit_SopDivideByLiteralQuo D (nat (Kit_SopWorstLiteral D n)))"
    have "Kit_SopWorstLiteral D n = int (nat (Kit_SopWorstLiteral D n))"
      using WorstLiteral_spec(1) [OF False] by simp
    then obtain ck' where ck': "kernel_of ck' ?D S" "ck' \<noteq> 0" "2 \<le> length ?D"
      using ZeroKernel_step [OF 1(2-5) _ False] by blast
    then show ?thesis
      using 1(1) [OF refl False 1(2,3) ck'(1,3) 1(6)] False
      by (subst (1 2 3) Kit_SopDivisorZeroKernel_rec.simps) auto
  qed
qed

lemma kernel_refl: "kernel_of 0 S S"
  by (simp add: kernel_of_def)

lemma plain_kernel:
  assumes "kernel_of ck D S" "plain S" "antichain S" "2 \<le> length D"
  shows "plain D"
  using kernel_marked [OF assms(1,2)] antichain_nonzero [OF kernel_antichain [OF assms(1,3)] assms(4)]
  unfolding plain_def by metis

lemma Divisor_ok:
  assumes S: "plain S" "antichain S" "length S < 1000000" and n: "n \<le> 32"
    and r: "Kit_SopDivisor S n s = Some (res, s')"
  shows "case res of
      None \<Rightarrow> s' = s \<and> (length S \<le> 1 \<or> (\<forall>i < n. lit_occ S i \<le> 1))
    | Some D \<Rightarrow> 2 \<le> length S \<and> 2 \<le> length D \<and> plain D \<and> antichain D \<and> (\<exists>i < n. 2 \<le> lit_occ S i) \<and>
        (\<exists>ck. ck \<noteq> 0 \<and> kernel_of ck D S) \<and> (\<forall>i < n. lit_occ D i \<le> 1)"
proof (cases "length S \<le> 1 \<or> Kit_SopAnyLiteral S n = -1")
  case True
  then have "res = None" "s' = s" using r by (auto simp: Kit_SopDivisor_def split: if_splits)
  then show ?thesis using True by (auto simp: AnyLiteral_iff)
next
  case False
  then have len: "2 \<le> length S" and "\<not> (\<forall>i < n. lit_occ S i \<le> 1)" by (auto simp: AnyLiteral_iff)
  then obtain i where i: "i < n" "2 \<le> lit_occ S i" by auto
  then have W: "Kit_SopWorstLiteral S n \<noteq> -1"
    using WorstLiteral_spec(2) [of S n i] lit_occ_le [of S i] S(3) by linarith
  have res: "res = Some (Kit_SopDivisorZeroKernel_rec S n)"
    using r False S(1) by (auto simp: Kit_SopDivisor_def Kit_SopDup_def plain_each split: option.splits)
  obtain ck where "kernel_of ck (Kit_SopDivisorZeroKernel_rec S n) S" "ck \<noteq> 0"
      "2 \<le> length (Kit_SopDivisorZeroKernel_rec S n)" "\<forall>i < n. lit_occ (Kit_SopDivisorZeroKernel_rec S n) i \<le> 1"
    using ZeroKernel_ok [OF S(2) n kernel_refl len S(3)] W by blast
  then show ?thesis
    unfolding res using len i plain_kernel [OF _ S(1,2)] kernel_antichain [OF _ S(2)] by auto
qed

end
