(* ===== verification/Kit_FactorProofs.thy ===== *)
theory Kit_FactorProofs
  imports Kit_Factor
begin

text \<open>
  Correctness of the factoring. The covers of the recursion are \<open>good\<close>: antichains of nonempty cubes
  over the given literals. Division keeps them so, and on them each step has what the code asserts:
  a quotient, a literal that occurs twice, fewer literals in the parts than in the whole.
\<close>

section \<open>The function of a cover after the inversion of its cubes\<close>

definition lit_val :: "(nat \<Rightarrow> bool) \<Rightarrow> nat \<Rightarrow> bool" where
  "lit_val env i \<longleftrightarrow> env (i div 2) \<noteq> (i mod 2 = 1)"

definition cube_val :: "(nat \<Rightarrow> bool) \<Rightarrow> u32 \<Rightarrow> bool" where
  "cube_val env c \<longleftrightarrow> (\<forall>i. bit c i \<longrightarrow> lit_val env i)"

definition cover_val :: "(nat \<Rightarrow> bool) \<Rightarrow> u32 list \<Rightarrow> bool" where
  "cover_val env cs \<longleftrightarrow> (\<exists>c \<in> set cs. cube_val env c)"

lemma cube_val_or: "cube_val env (c OR d) \<longleftrightarrow> cube_val env c \<and> cube_val env d"
  by (auto simp: cube_val_def bit_or_iff)

lemma cover_val_append [simp]: "cover_val env (cs @ ds) \<longleftrightarrow> cover_val env cs \<or> cover_val env ds"
  by (auto simp: cover_val_def)

lemma cover_val_products: "cover_val env (products D Q) \<longleftrightarrow> cover_val env D \<and> cover_val env Q"
  by (auto simp: cover_val_def products_def cube_val_or)

lemma cover_val_divides:
  assumes "divides S D Q R"
  shows "cover_val env S \<longleftrightarrow> cover_val env D \<and> cover_val env Q \<or> cover_val env R"
proof -
  have "set S = set (products D Q @ R)" using assms by (metis divides_def mset_append set_mset_mset)
  then have "cover_val env S = cover_val env (products D Q @ R)" by (simp add: cover_val_def)
  then show ?thesis by (simp add: cover_val_products)
qed

section \<open>Covers without divisors\<close>

text \<open>The edges that the factoring returns lead to a leaf or to the last node.\<close>

definition leaf_or_last :: "kit_graph \<Rightarrow> kit_edge \<Rightarrow> bool" where
  "leaf_or_last g e \<longleftrightarrow> e_Node e < g_nLeaves g \<or> Suc (e_Node e) = g_nSize g"

lemma TrivialCube_ok:
  assumes "graph_wf g" "b \<le> 2 * g_nLeaves g" "\<exists>i. a \<le> i \<and> i < b \<and> bit c i"
  shows "\<exists>g' e. Kit_SopFactorTrivialCube_rec g c a b = Some (g', e) \<and> extends g g' \<and> edge_ok g' e \<and> leaf_or_last g' e \<and>
    g_nSize g' + 1 = g_nSize g + length (filter (bit c) [a..<b]) \<and>
    (\<forall>env. edge_val g' env e \<longleftrightarrow> (\<forall>i. a \<le> i \<longrightarrow> i < b \<longrightarrow> bit c i \<longrightarrow> lit_val env i))"
  using assms
proof (induction g c a b rule: Kit_SopFactorTrivialCube_rec.induct)
  case (1 g c a b)
  define lits where "lits = filter (\<lambda>i. Kit_CubeHasLit c i) [a..<b]"
  have set_lits: "set lits = {i. a \<le> i \<and> i < b \<and> bit c i}" by (auto simp: lits_def)
  have bit_lits: "filter (bit c) [a..<b] = lits" by (simp add: lits_def)
  have "set lits \<noteq> {}" unfolding set_lits using 1(5) by blast
  then have ne: "length lits \<noteq> 0" by auto
  show ?case
  proof (cases "length lits = 1")
    case True
    then obtain l where l: "lits = [l]" by (auto simp: length_Suc_conv)
    then have mem: "a \<le> i \<and> i < b \<and> bit c i \<longleftrightarrow> i = l" for i using set_lits by auto
    then have "l < b" by blast
    then have "l div 2 < g_nLeaves g" using 1(4) by linarith
    then have e: "edge_ok g (Kit_EdgeCreate (l div 2) (l mod 2 = 1))" "leaf_or_last g (Kit_EdgeCreate (l div 2) (l mod 2 = 1))"
        "edge_val g env (Kit_EdgeCreate (l div 2) (l mod 2 = 1)) = lit_val env l" for env
      using leaf_edge [of "l div 2" g] 1(3) by (simp_all add: Kit_EdgeCreate_def lit_val_def leaf_or_last_def)
    have res: "Kit_SopFactorTrivialCube_rec g c a b = Some (g, Kit_EdgeCreate (l div 2) (l mod 2 = 1))"
      by (subst Kit_SopFactorTrivialCube_rec.simps) (simp add: Let_def l flip: lits_def)
    have "(\<forall>i. a \<le> i \<and> i < b \<and> bit c i \<longrightarrow> lit_val env i) \<longleftrightarrow> lit_val env l" for env
      unfolding mem by simp
    then have "(\<forall>i. a \<le> i \<longrightarrow> i < b \<longrightarrow> bit c i \<longrightarrow> lit_val env i) \<longleftrightarrow> lit_val env l" for env
      by (simp only: imp_conjL)
    then show ?thesis using e res extends_refl [OF 1(3)] l by (simp add: bit_lits)
  next
    case False
    define i where "i = lits ! (length lits div 2)"
    note in_i = split_inside [OF lits_def ne False, folded i_def]
    have bits: "bit c (lits ! 0)" "bit c i" "a \<le> lits ! 0" "lits ! 0 < i" "a \<le> i" "i < b"
      using in_i nth_mem [of 0 lits] nth_mem [of "length lits div 2" lits] set_lits ne half_length(2) [OF ne False]
      by (auto simp: i_def)
    have i2: "i \<le> 2 * g_nLeaves g" and ex: "\<exists>j \<ge> a. j < i \<and> bit c j" "\<exists>j \<ge> i. j < b \<and> bit c j"
      using bits 1(4) by (simp, blast, blast)
    obtain g1 e1 where r1: "Kit_SopFactorTrivialCube_rec g c a i = Some (g1, e1)" "extends g g1" "edge_ok g1 e1"
        "g_nSize g1 + 1 = g_nSize g + length (filter (bit c) [a..<i])"
        "\<And>env. edge_val g1 env e1 \<longleftrightarrow> (\<forall>j. a \<le> j \<longrightarrow> j < i \<longrightarrow> bit c j \<longrightarrow> lit_val env j)"
      using 1(1) [OF lits_def refl ne False refl i_def 1(3) i2 ex(1)] by blast
    have "graph_wf g1" "b \<le> 2 * g_nLeaves g1" using r1(2) 1(4) by (auto simp: extends_def)
    then obtain g2 e2 where r2: "Kit_SopFactorTrivialCube_rec g1 c i b = Some (g2, e2)" "extends g1 g2" "edge_ok g2 e2"
        "g_nSize g2 + 1 = g_nSize g1 + length (filter (bit c) [i..<b])"
        "\<And>env. edge_val g2 env e2 \<longleftrightarrow> (\<forall>j. i \<le> j \<longrightarrow> j < b \<longrightarrow> bit c j \<longrightarrow> lit_val env j)"
      using 1(2) [OF lits_def refl ne False refl i_def r1(1) refl _ _ ex(2)] by blast
    obtain g3 e3 where r3: "Kit_GraphAddNodeAnd g2 e1 e2 = (g3, e3)" by (cases "Kit_GraphAddNodeAnd g2 e1 e2")
    have wf2: "graph_wf g2" "edge_ok g2 e1" using r2(2) r1(3) extends_wf extends_ok by blast+
    note and3 = add_and [OF wf2 r2(3) r3]
    have res: "Kit_SopFactorTrivialCube_rec g c a b = Some (g3, e3)"
      using ne False r1(1) r2(1) r3
      by (subst Kit_SopFactorTrivialCube_rec.simps) (simp add: Let_def i_def flip: lits_def)
    have "[a..<b] = [a..<i] @ [i..<b]" using bits by (metis le_add_diff_inverse less_imp_le upt_add_eq_append)
    then have size: "g_nSize g3 + 1 = g_nSize g + length (filter (bit c) [a..<b])"
      using and3(5) r1(4) r2(4) by simp
    have "edge_val g3 env e3 \<longleftrightarrow> (\<forall>i. a \<le> i \<longrightarrow> i < b \<longrightarrow> bit c i \<longrightarrow> lit_val env i)" for env
      unfolding and3(3) extends_val [OF r2(2) r1(3)] r1(5) r2(5)
      using bits(5,6) by (meson le_less_trans less_le_trans less_imp_le linorder_not_le order_trans)
    then show ?thesis
      using res size and3(1,2,4,5) extends_trans [OF r1(2) extends_trans [OF r2(2) and3(1)]]
      by (auto simp: leaf_or_last_def)
  qed
qed
definition good :: "nat \<Rightarrow> u32 list \<Rightarrow> bool" where
  "good n S \<longleftrightarrow> S \<noteq> [] \<and> plain S \<and> antichain S \<and> (\<forall>c \<in> set S. \<forall>i. bit c i \<longrightarrow> i < n) \<and> length S < 1000000"

text \<open>
  What a factoring step delivers for the cover \<open>S\<close>: an edge of an extended graph that computes the
  function of the cover, with fewer new nodes than the cover has literals.
\<close>

definition delivers :: "kit_graph \<Rightarrow> u32 list \<Rightarrow> kit_graph \<Rightarrow> kit_edge \<Rightarrow> bool" where
  "delivers g S g' e \<longleftrightarrow> extends g g' \<and> edge_ok g' e \<and> leaf_or_last g' e \<and> g_nSize g' + 1 \<le> g_nSize g + lit_weight S \<and>
     (\<forall>env. edge_val g' env e = cover_val env S)"

lemma delivers_and:
  assumes d1: "delivers g A g1 e1" and d2: "delivers g1 B g2 e2" and r: "Kit_GraphAddNodeAnd g2 e1 e2 = (g3, e3)"
  shows "extends g g3 \<and> edge_ok g3 e3 \<and> leaf_or_last g3 e3 \<and> g_nSize g3 + 1 \<le> g_nSize g + (lit_weight A + lit_weight B) \<and>
    (\<forall>env. edge_val g3 env e3 \<longleftrightarrow> cover_val env A \<and> cover_val env B)"
proof -
  have ex: "extends g g1" "extends g1 g2" "edge_ok g1 e1" "edge_ok g2 e2" using d1 d2 by (auto simp: delivers_def)
  have "graph_wf g2" "edge_ok g2 e1" using ex extends_wf extends_ok by blast+
  note and3 = add_and [OF this ex(4) r]
  then show ?thesis
    using d1 d2 extends_val [OF ex(2,3)] extends_trans [OF ex(1) extends_trans [OF ex(2) and3(1)]]
    by (auto simp: delivers_def leaf_or_last_def)
qed

lemma delivers_or:
  assumes d1: "extends g g1 \<and> edge_ok g1 e1 \<and> leaf_or_last g1 e1 \<and> g_nSize g1 + 1 \<le> g_nSize g + w \<and> (\<forall>env. edge_val g1 env e1 = P env)"
    and d2: "delivers g1 B g2 e2" and r: "Kit_GraphAddNodeOr g2 e1 e2 = (g3, e3)"
  shows "extends g g3 \<and> edge_ok g3 e3 \<and> leaf_or_last g3 e3 \<and> g_nSize g3 + 1 \<le> g_nSize g + (w + lit_weight B) \<and>
    (\<forall>env. edge_val g3 env e3 \<longleftrightarrow> P env \<or> cover_val env B)"
proof -
  have ex: "extends g g1" "extends g1 g2" "edge_ok g1 e1" "edge_ok g2 e2" using d1 d2 by (auto simp: delivers_def)
  have "graph_wf g2" "edge_ok g2 e1" using ex extends_wf extends_ok by blast+
  note or3 = add_or [OF this ex(4) r]
  then show ?thesis
    using d1 d2 extends_val [OF ex(2,3)] extends_trans [OF ex(1) extends_trans [OF ex(2) or3(1)]]
    by (auto simp: delivers_def leaf_or_last_def)
qed

lemma popcount_lits: "(\<And>i. bit c i \<Longrightarrow> i < n) \<Longrightarrow> n \<le> 32 \<Longrightarrow> length (filter (bit c) [0..<n]) = word_ones c"
proof -
  assume a: "\<And>i. bit c i \<Longrightarrow> i < n" "n \<le> 32"
  have "length (filter (bit c) [0..<n]) = card (set (filter (bit c) [0..<n]))"
    by (rule distinct_card [symmetric]) simp
  also have "set (filter (bit c) [0..<n]) = {i. i < 32 \<and> bit c i}" using a(1) less_le_trans [OF _ a(2)] by auto
  finally show ?thesis by (simp add: word_ones_def)
qed

lemma TrivialCube_delivers:
  assumes "graph_wf g" "n \<le> 2 * g_nLeaves g" "n \<le> 32" "c \<noteq> 0" "\<And>i. bit c i \<Longrightarrow> i < n"
  shows "\<exists>g' e. Kit_SopFactorTrivialCube_rec g c 0 n = Some (g', e) \<and> delivers g [c] g' e"
proof -
  have "\<exists>i. bit c i" using assms(4) by (metis bit_eqI bit_0_eq bot_apply bot_bool_def)
  then have "\<exists>i \<ge> 0. i < n \<and> bit c i" using assms(5) by blast
  moreover have "(\<forall>i \<ge> 0. i < n \<longrightarrow> bit c i \<longrightarrow> lit_val env i) \<longleftrightarrow> cover_val env [c]" for env
    using assms(5) by (auto simp: cover_val_def cube_val_def)
  ultimately show ?thesis
    using TrivialCube_ok [OF assms(1,2), of 0 c] popcount_lits [OF assms(5,3)] by (auto simp: delivers_def)
qed

lemma Trivial_ok:
  assumes "graph_wf g" "n \<le> 2 * g_nLeaves g" "n \<le> 32" "S \<noteq> []" "\<forall>c \<in> set S. c \<noteq> 0 \<and> (\<forall>i. bit c i \<longrightarrow> i < n)"
  shows "\<exists>g' e. Kit_SopFactorTrivial_rec g S n = Some (g', e) \<and> delivers g S g' e"
  using assms
proof (induction g S n rule: Kit_SopFactorTrivial_rec.induct)
  case (1 g S n)
  show ?case
  proof (cases "length S = 1")
    case True
    then obtain c where "S = [c]" by (auto simp: length_Suc_conv)
    then show ?thesis using TrivialCube_delivers [OF 1(3-5), of c] 1(7)
      by (subst Kit_SopFactorTrivial_rec.simps) simp
  next
    case False
    have ne: "length S \<noteq> 0" using 1(6) by simp
    let ?k = "length S div 2"
    have sets: "\<forall>c \<in> set (take ?k S). c \<noteq> 0 \<and> (\<forall>i. bit c i \<longrightarrow> i < n)" "\<forall>c \<in> set (drop ?k S). c \<noteq> 0 \<and> (\<forall>i. bit c i \<longrightarrow> i < n)"
      "take ?k S \<noteq> []" "drop ?k S \<noteq> []"
      using 1(7) half_length [OF ne False] 1(6) by (auto dest: in_set_takeD in_set_dropD)
    obtain g1 e1 where r1: "Kit_SopFactorTrivial_rec g (take ?k S) n = Some (g1, e1)" "delivers g (take ?k S) g1 e1"
      using 1(1) [OF ne False refl 1(3-5) sets(3,1)] by blast
    then have "graph_wf g1" "n \<le> 2 * g_nLeaves g1" using 1(4) by (auto simp: delivers_def extends_def)
    then obtain g2 e2 where r2: "Kit_SopFactorTrivial_rec g1 (drop ?k S) n = Some (g2, e2)" "delivers g1 (drop ?k S) g2 e2"
      using 1(2) [OF ne False refl r1(1) refl _ _ 1(5) sets(4,2)] by blast
    obtain g3 e3 where r3: "Kit_GraphAddNodeOr g2 e1 e2 = (g3, e3)" by (cases "Kit_GraphAddNodeOr g2 e1 e2")
    have "lit_weight S = lit_weight (take ?k S) + lit_weight (drop ?k S)"
      "cover_val env S \<longleftrightarrow> cover_val env (take ?k S) \<or> cover_val env (drop ?k S)" for env
      by (metis append_take_drop_id lit_weight_simps(3), metis append_take_drop_id cover_val_append)
    then have "delivers g S g3 e3"
      using delivers_or [OF r1(2) [unfolded delivers_def] r2(2) r3] unfolding delivers_def by simp
    then show ?thesis
      using ne False r1(1) r2(1) r3 by (subst Kit_SopFactorTrivial_rec.simps) (simp add: Let_def)
  qed
qed

section \<open>Division of good covers\<close>

lemma products_kernel:
  assumes "q \<in> set Q"
  shows "mset (map (\<lambda>d. d OR q) D) \<subseteq># mset (products D Q)"
  using assms by (induction Q) (auto simp: products_Cons intro: subset_mset.order_trans mset_subset_eq_add_right)

lemma products_swap: "mset (products D Q) = mset (products Q D)"
proof (induction Q)
  case Nil
  then show ?case by (induction D) (simp_all add: products_def)
next
  case (Cons q Q)
  have "mset (products (q # Q) D) = mset (map (\<lambda>d. q OR d) D) + mset (products Q D)"
    by (induction D) (simp_all add: products_def)
  also have "map (\<lambda>d. q OR d) D = map (\<lambda>d. d OR q) D" by (simp add: or.commute)
  finally show ?case using Cons by (simp add: products_Cons)
qed

lemma divides_kernel:
  assumes "divides S D Q R"
  shows "q \<in> set Q \<Longrightarrow> kernel_of q D S" "d \<in> set D \<Longrightarrow> kernel_of d Q S" "kernel_of 0 R S"
proof -
  have S: "mset S = mset (products D Q) + mset R" "\<forall>d \<in> set D. \<forall>q \<in> set Q. d AND q = 0"
    using assms by (simp_all add: divides_def)
  have sub: "mset (products D Q) \<subseteq># mset S" "mset R \<subseteq># mset S" unfolding S by simp_all
  show "q \<in> set Q \<Longrightarrow> kernel_of q D S"
    unfolding kernel_of_def using subset_mset.order_trans [OF products_kernel sub(1)] S(2) by blast
  show "d \<in> set D \<Longrightarrow> kernel_of d Q S"
    unfolding kernel_of_def
    using subset_mset.order_trans [OF products_kernel sub(1) [unfolded products_swap [of D]]] S(2) by (metis and.commute)
  show "kernel_of 0 R S" using sub(2) by (simp add: kernel_of_def)
qed

lemma kernel_mem: "kernel_of ck D S \<Longrightarrow> d \<in> set D \<Longrightarrow> d OR ck \<in> set S"
  by (metis (no_types, lifting) image_eqI in_multiset_in_set kernel_of_def list.set_map mset_subset_eqD)

lemma good_kernel:
  assumes ker: "kernel_of ck D S" and S: "good n S" and D: "D \<noteq> []" "0 \<notin> set D"
  shows "good n D"
proof -
  have "\<not> bit d 31 \<and> (\<forall>i. bit d i \<longrightarrow> i < n)" if "d \<in> set D" for d
    using kernel_mem [OF ker that] S by (auto simp: good_def plain_def bit_or_iff)
  then show ?thesis
    using S D kernel_antichain [OF ker] kernel_length [OF ker] by (auto simp: good_def plain_def)
qed

lemma good_kernel2:
  assumes "kernel_of ck D S" "good n S" "2 \<le> length D"
  shows "good n D"
proof (rule good_kernel [OF assms(1,2)])
  show "D \<noteq> []" using assms(3) by auto
  have "antichain D" using kernel_antichain [OF assms(1)] assms(2) by (simp add: good_def)
  then show "0 \<notin> set D" using assms(3) by (rule antichain_nonzero)
qed

lemma kernel_occ:
  assumes "kernel_of ck D S" "0 \<notin> set S" "bit ck i"
  shows "length D \<le> lit_occ S i"
proof -
  have "filter (\<lambda>c. bit c i) (map (\<lambda>d. d OR ck) D) = map (\<lambda>d. d OR ck) D"
    using assms(3) by (auto simp: filter_id_conv bit_or_iff)
  then have "length D = size (filter_mset (\<lambda>c. bit c i) (mset (map (\<lambda>d. d OR ck) D)))"
    by (metis length_map mset_filter size_mset)
  also have "\<dots> \<le> size (filter_mset (\<lambda>c. bit c i) (mset S))"
    using assms(1) by (intro size_mset_mono multiset_filter_mono) (simp add: kernel_of_def)
  also have "\<dots> = lit_occ S i" by (simp add: lit_occ_def each_cube_id [OF assms(2)] flip: mset_filter)
  finally show ?thesis .
qed

text \<open>A quotient of a proper kernel is not the empty cube: its products would contain one another.\<close>

lemma quotient_nonzero:
  assumes S: "good n S" and D: "D \<noteq> []" and ck: "kernel_of ck D S" "ck \<noteq> 0"
  shows "\<not> kernel_of 0 D S"
proof
  assume k0: "kernel_of 0 D S"
  obtain d where d: "d \<in> set D" using D by (meson last_in_set)
  have "d OR ck \<noteq> d"
    using ck d unfolding kernel_of_def by (metis or.commute or_eq_0_iff word_bw_same word_ao_absorbs(3) word_bw_comms(1))
  then have "mset [d, d OR ck] \<subseteq># mset S"
    using kernel_mem [OF k0 d] kernel_mem [OF ck(1) d] by (intro distinct_sub_mset) auto
  moreover have "d AND (d OR ck) = d" unfolding bit_eq_iff by (auto simp: bit_simps)
  ultimately show False using S antichainD [of S d "d OR ck"] by (simp add: good_def)
qed

lemma popcount_or_disjoint:
  assumes "c AND d = 0"
  shows "word_ones (c OR d) = word_ones c + word_ones d"
proof -
  have "\<not> (bit c i \<and> bit d i)" for i using assms by (metis bit_and_iff bit_0_eq bot_apply bot_bool_def)
  then have "{i. i < 32 \<and> bit (c OR d) i} = {i. i < 32 \<and> bit c i} \<union> {i. i < 32 \<and> bit d i}"
    "{i. i < 32 \<and> bit c i} \<inter> {i. i < 32 \<and> bit d i} = {}" by (auto simp: bit_or_iff)
  then show ?thesis unfolding word_ones_def by (simp add: card_Un_disjoint)
qed

lemma lit_weight_mset: "mset cs = mset ds \<Longrightarrow> lit_weight cs = lit_weight ds"
  unfolding lit_weight_def by (metis mset_map sum_mset_sum_list)

lemma divides_weight:
  assumes "divides S D Q R"
  shows "lit_weight S = length Q * lit_weight D + length D * lit_weight Q + lit_weight R"
proof -
  have "lit_weight (map (\<lambda>d. d OR q) D) = lit_weight D + length D * word_ones q" if "\<forall>d \<in> set D. d AND q = 0" for q
    using that by (induction D) (simp_all add: popcount_or_disjoint)
  moreover have "\<forall>q \<in> set Q. \<forall>d \<in> set D. d AND q = 0" using assms by (simp add: divides_def)
  ultimately have "lit_weight (products D Q) = length Q * lit_weight D + length D * lit_weight Q"
    by (induction Q) (simp_all add: products_Cons algebra_simps, simp add: products_def)
  moreover have "lit_weight S = lit_weight (products D Q @ R)"
    using assms by (intro lit_weight_mset) (simp add: divides_def)
  ultimately show ?thesis by simp
qed

lemma good_weight: "good n S \<Longrightarrow> length S \<le> lit_weight S"
proof -
  have "length cs \<le> lit_weight cs" if "\<forall>c \<in> set cs. c \<noteq> 0" for cs
    using that
  proof (induction cs)
    case (Cons c cs)
    then obtain i where "bit c i" by (metis bit_eqI bit_0_eq bot_apply bot_bool_def list.set_intros(1))
    then have "word_ones 0 < word_ones c" by (intro popcount_less [of 0 c i]) auto
    then show ?case using Cons by simp
  qed simp
  then show "good n S \<Longrightarrow> length S \<le> lit_weight S" by (simp add: good_def plain_def)
qed

lemma good_rest:
  assumes S: "good n S" and d: "divides S D Q R"
  shows "R = [] \<or> good n R"
proof (cases "R = []")
  case False
  have "0 \<notin> set R"
    using kernel_mem [OF divides_kernel(3) [OF d]] S by (fastforce simp: good_def plain_def)
  then show ?thesis using good_kernel [OF divides_kernel(3) [OF d] S False] by blast
qed simp

lemma nonzero_bit: "c \<noteq> 0 \<longleftrightarrow> (\<exists>i. bit c i)" for c :: u32
  by (metis bit_eqI bit_0_eq bot_apply bot_bool_def)

lemma first_division:
  assumes S: "good n S" and n: "n \<le> 32"
    and D: "Kit_SopDivisor S n s = Some (Some D, s1)" and r: "Kit_SopDivideInternal S D s1 = Some (S', Q, R, s2)"
  shows "S' = S \<and> divides S D Q R \<and> Q \<noteq> [] \<and> D \<noteq> [] \<and> 2 \<le> length S \<and> (\<exists>i < n. 2 \<le> lit_occ S i) \<and>
    (length Q = 1 \<longrightarrow> (\<exists>i < n. bit (Q ! 0) i \<and> 2 \<le> lit_occ S i))"
proof -
  have S': "plain S" "antichain S" "length S < 1000000" using S by (simp_all add: good_def)
  obtain ck where ck: "ck \<noteq> 0" "kernel_of ck D S" and D': "2 \<le> length D" "antichain D" "2 \<le> length S"
      and occ: "\<exists>i < n. 2 \<le> lit_occ S i"
    using Divisor_ok [OF S' n D] by auto
  have ne: "D \<noteq> []" using D' by auto
  have div: "S' = S" "divides S D Q R"
    using DivideInternal_divides [OF S'(1) antichain_distinct [OF D'(2)] antichain_nonzero [OF D'(2,1)] ne r] by blast+
  have Q: "Q \<noteq> []" by (rule DivideInternal_nonempty [OF S'(1,2) D'(1) ck(2) r])
  have "\<exists>i < n. bit (Q ! 0) i \<and> 2 \<le> lit_occ S i"
  proof -
    have ker: "kernel_of (Q ! 0) D S" using divides_kernel(1) [OF div(2)] Q by simp
    then have "Q ! 0 \<noteq> 0" using quotient_nonzero [OF S ne ck(2,1)] by metis
    then obtain i where i: "bit (Q ! 0) i" using nonzero_bit by blast
    have "2 \<le> lit_occ S i" using kernel_occ [OF ker _ i] D'(1) S by (auto simp: good_def plain_def)
    moreover have "i < n"
      using kernel_mem [OF ker, of "D ! 0"] ne i S by (auto simp: good_def bit_or_iff)
    ultimately show ?thesis using i by blast
  qed
  then show ?thesis using div Q ne D'(3) occ by blast
qed

lemma two_le_length: "xs \<noteq> [] \<Longrightarrow> length xs \<noteq> 1 \<Longrightarrow> 2 \<le> length xs"
  by (cases "length xs") (auto simp: Suc_le_eq)

lemma cube_free_parts:
  assumes "good n S" "divides S Q D R" "2 \<le> length Q" "good n Q" "D \<noteq> []" "Kit_SopIsCubeFree D"
  shows "2 \<le> length D \<and> good n D \<and> lit_weight D + lit_weight Q + lit_weight R < lit_weight S"
proof -
  have "length D \<noteq> 1"
  proof
    assume "length D = 1"
    then obtain d where "D = [d]" by (auto simp: length_Suc_conv)
    then show False
      using assms(6) by (cases "d = 0") (simp_all add: Kit_SopIsCubeFree_def Kit_SopCommonCube_def each_cube_def)
  qed
  then have len: "2 \<le> length D" using two_le_length [OF assms(5)] by blast
  obtain q where "q \<in> set Q" using assms(3) by (cases Q) auto
  then have gD: "good n D" using good_kernel2 [OF divides_kernel(2) [OF assms(2)] assms(1) len] by blast
  have "lit_weight S = length D * lit_weight Q + length Q * lit_weight D + lit_weight R"
    by (rule divides_weight [OF assms(2)])
  moreover have "2 * lit_weight Q \<le> length D * lit_weight Q" "2 * lit_weight D \<le> length Q * lit_weight D"
    using len assms(3) by simp_all
  moreover have "0 < lit_weight Q" using good_weight [OF assms(4)] assms(3) by simp
  ultimately show ?thesis using len gD by linarith
qed

lemma second_division:
  assumes S: "good n S" and n: "n \<le> 32" and div: "divides S D Q R" "D \<noteq> []" "Q \<noteq> []" "length Q \<noteq> 1"
    and occ: "\<exists>i < n. 2 \<le> lit_occ S i"
    and r: "Kit_SopDivideInternal S (Kit_SopMakeCubeFree Q) s = Some (S', D2, R2, s')"
  shows "S' = S \<and> divides S (Kit_SopMakeCubeFree Q) D2 R2 \<and> good n (Kit_SopMakeCubeFree Q) \<and> 2 \<le> length Q \<and> D2 \<noteq> [] \<and>
    (\<not> Kit_SopIsCubeFree D2 \<longrightarrow> (\<exists>i < n. bit (Kit_SopCommonCube D2) i \<and> 2 \<le> lit_occ S i))"
proof -
  let ?Q = "Kit_SopMakeCubeFree Q"
  have S': "plain S" "antichain S" "0 \<notin> set S" using S by (auto simp: good_def plain_def)
  have len: "2 \<le> length Q" by (rule two_le_length [OF div(3,4)])
  obtain d where d: "kernel_of d Q S" using divides_kernel(2) [OF div(1), of "D ! 0"] div(2) by simp
  have "0 \<notin> set Q" using antichain_nonzero [OF kernel_antichain [OF d S'(2)] len] .
  then have ker: "kernel_of (d OR Kit_SopCommonCube Q) ?Q S" by (rule kernel_cube_free [OF d])
  have gQ: "good n ?Q" using good_kernel2 [OF ker S] len by simp
  have anti: "antichain ?Q" "0 \<notin> set ?Q" "?Q \<noteq> []" using gQ by (auto simp: good_def plain_def)
  have dd: "S' = S" "divides S ?Q D2 R2"
    using DivideInternal_divides [OF S'(1) antichain_distinct [OF anti(1)] anti(2,3) r] by blast+
  have D2: "D2 \<noteq> []" using DivideInternal_nonempty [OF S'(1,2) _ ker r] len by simp
  have "\<exists>i < n. bit (Kit_SopCommonCube D2) i \<and> 2 \<le> lit_occ S i" if nf: "\<not> Kit_SopIsCubeFree D2"
  proof (cases "0 \<in> set D2")
    case True
    have "antichain D2" using kernel_antichain [OF divides_kernel(2) [OF dd(2) last_in_set [OF anti(3)]] S'(2)] .
    then have "length D2 = 1" using antichain_nonzero [of D2] True two_le_length [OF D2] by blast
    then have "D2 = [0]" using True by (auto simp: length_Suc_conv)
    then have "bit (Kit_SopCommonCube D2) i \<longleftrightarrow> i < 32" for i by (simp add: bit_common each_cube_def)
    then show ?thesis using occ n by auto
  next
    case False
    from nf obtain i where i: "bit (Kit_SopCommonCube D2) i" using nonzero_bit unfolding Kit_SopIsCubeFree_def by blast
    have ker2: "kernel_of (D2 ! 0) ?Q S" using divides_kernel(1) [OF dd(2)] D2 by simp
    have b: "bit (D2 ! 0) i" using i D2 by (simp add: bit_common each_cube_id [OF False])
    have "2 \<le> lit_occ S i" using kernel_occ [OF ker2 S'(3) b] len by simp
    moreover have "i < n" using kernel_mem [OF ker2 last_in_set [OF anti(3)]] b S by (auto simp: good_def bit_or_iff)
    ultimately show ?thesis using i by blast
  qed
  then show ?thesis using dd gQ len D2 by blast
qed

lemma literal_division:
  assumes S: "good n S" and n: "n \<le> 32" and b: "Kit_SopBestLiteralCover S u n s = Some (cd, s1)"
    and r: "Kit_SopDivideByCube S cd s1 = Some (Q, R, s2)"
  shows "\<exists>i < n. cd = [push_bit i 1] \<and> divides S cd Q R \<and> good n Q \<and> lit_weight Q + lit_weight R + 1 < lit_weight S"
proof -
  define i where "i = nat (Kit_SopBestLiteral S n u)"
  have cd: "cd = [push_bit i 1]" and ne: "Kit_SopBestLiteral S n u \<noteq> -1"
    using b by (auto simp: Kit_SopBestLiteralCover_def Kit_CubeSetLit_def i_def Let_def split: option.splits if_splits)
  have i: "i < n" "2 \<le> lit_occ S i" using BestLiteral_spec(1) [OF ne] by (simp_all add: i_def)
  have S': "plain S" "each_cube S = S" using S plain_each by (auto simp: good_def)
  have div: "divides S [push_bit i 1] Q R"
    using DivideByCube_divides [OF S'(1)] r unfolding cd by blast
  have "Kit_CubeContains c (push_bit i 1) \<longleftrightarrow> bit c i" for c
    using i n by (auto simp: Contains_iff bit_push1 simp del: push_bit_of_1)
  then have "length Q = lit_occ S i"
    using r S'(2) by (auto simp: cd Kit_SopDivideByCube_def lit_occ_def Let_def simp del: push_bit_of_1 split: option.splits)
  moreover have "kernel_of (push_bit i 1) Q S" using divides_kernel(2) [OF div] by simp
  ultimately have "good n Q" "2 \<le> length Q" using good_kernel2 [OF _ S] i(2) by auto
  moreover have "word_ones (push_bit i 1) = 1"
  proof -
    have "{j. j < 32 \<and> bit (push_bit i 1 :: u32) j} = {i}" using i n by (auto simp: bit_push1 simp del: push_bit_of_1)
    then show ?thesis by (simp add: word_ones_def)
  qed
  ultimately show ?thesis using i(1) cd div divides_weight [OF div] by (auto simp del: push_bit_of_1)
qed

section \<open>Partial correctness of the recursion\<close>

text \<open>The last part of both recursive functions: the product, and the sum with the remainder.\<close>

definition factor_tail where
  "factor_tail fuel pFForm eNodeDiv eNodeQuo cRem nLits vMemory =
    do { let (pFForm, eNodeAnd) = Kit_GraphAddNodeAnd pFForm eNodeDiv eNodeQuo;
      if length cRem = 0 then Some (pFForm, eNodeAnd, vMemory)
      else do { (pFForm, eNodeRem, vMemory) \<leftarrow> Kit_SopFactor_rec fuel pFForm cRem nLits vMemory;
        let (pFForm, eNode) = Kit_GraphAddNodeOr pFForm eNodeAnd eNodeRem;
        Some (pFForm, eNode, vMemory) } }"

definition graph_for :: "nat \<Rightarrow> kit_graph \<Rightarrow> bool" where
  "graph_for n g \<longleftrightarrow> graph_wf g \<and> n \<le> 2 * g_nLeaves g"

lemma graph_for_extends: "graph_for n g \<Longrightarrow> extends g g' \<Longrightarrow> graph_for n g'"
  by (auto simp: graph_for_def extends_def)

lemma graph_for_delivers: "graph_for n g \<Longrightarrow> delivers g S g' e \<Longrightarrow> graph_for n g'"
  by (rule graph_for_extends) (auto simp: delivers_def)

definition rec_correct :: "nat \<Rightarrow> nat \<Rightarrow> bool" where
  "rec_correct n fuel \<longleftrightarrow> (\<forall>S g s g' e s'. good n S \<longrightarrow> graph_for n g \<longrightarrow>
     Kit_SopFactor_rec fuel g S n s = Some (g', e, s') \<longrightarrow> delivers g S g' e)"

lemma rec_correctD:
  "rec_correct n fuel \<Longrightarrow> good n S \<Longrightarrow> graph_for n g \<Longrightarrow> Kit_SopFactor_rec fuel g S n s = Some (g', e, s') \<Longrightarrow> delivers g S g' e"
  unfolding rec_correct_def by blast

lemma factor_tail_delivers:
  assumes d1: "delivers g A g1 e1" and d2: "delivers g1 B g2 e2" and g: "graph_for n g"
    and div: "divides S A B R" and w: "lit_weight A + lit_weight B + lit_weight R \<le> lit_weight S"
    and R: "R = [] \<or> good n R" and rec: "rec_correct n fuel"
    and r: "factor_tail fuel g2 e1 e2 R n s = Some (g', e, s')"
  shows "delivers g S g' e"
proof -
  obtain g3 e3 where a: "Kit_GraphAddNodeAnd g2 e1 e2 = (g3, e3)" by (cases "Kit_GraphAddNodeAnd g2 e1 e2")
  note and3 = delivers_and [OF d1 d2 a]
  show ?thesis
  proof (cases "R = []")
    case True
    then have "g' = g3" "e = e3" using r a by (simp_all add: factor_tail_def)
    then show ?thesis using and3 w cover_val_divides [OF div] True by (auto simp: delivers_def cover_val_def)
  next
    case False
    have g3: "graph_for n g3" using graph_for_extends [OF g] and3 by blast
    obtain g4 e4 s4 where rem: "Kit_SopFactor_rec fuel g3 R n s = Some (g4, e4, s4)"
      using r a False by (auto simp: factor_tail_def bind_eq_Some_conv)
    then have 4: "Kit_SopFactor_rec fuel g3 R n s = Some (g4, e4, s4)" "Kit_GraphAddNodeOr g4 e3 e4 = (g', e)"
      using r a False by (auto simp: factor_tail_def split: prod.splits)
    have "delivers g3 R g4 e4" using rec_correctD [OF rec _ g3 4(1)] R False by blast
    note or5 = delivers_or [OF and3 this 4(2)]
    then show ?thesis using w cover_val_divides [OF div] by (auto simp: delivers_def)
  qed
qed

lemma LF_correct:
  assumes S: "good n S" and n: "n \<le> 32" and g: "graph_for n g" and rec: "rec_correct n fuel"
    and r: "Kit_SopFactorLF_rec (Suc fuel) g S U n s = Some (g', e, s')"
  shows "delivers g S g' e"
proof -
  have "length U = 1" using r by (auto split: if_split_asm)
  then obtain cd s1 Q R s2 g1 e1 g2 e2 s3 where
      b: "Kit_SopBestLiteralCover S (U ! 0) n s = Some (cd, s1)" "Kit_SopDivideByCube S cd s1 = Some (Q, R, s2)"
      and c: "Kit_SopFactorTrivialCube g (cd ! 0) n = Some (g1, e1)"
      and q: "Kit_SopFactor_rec fuel g1 Q n s2 = Some (g2, e2, s3)"
      and t: "factor_tail fuel g2 e1 e2 R n s3 = Some (g', e, s')"
    using r by (auto simp: bind_eq_Some_conv factor_tail_def)
  obtain i where i: "i < n" "cd = [push_bit i 1]" "divides S cd Q R" "good n Q"
      "lit_weight Q + lit_weight R + 1 < lit_weight S"
    using literal_division [OF S n b] by blast
  have bits: "bit (push_bit i 1 :: u32) j \<longleftrightarrow> j = i" for j using i(1) n by (simp add: bit_push1 del: push_bit_of_1)
  then have nz: "push_bit i 1 \<noteq> (0 :: u32)" unfolding nonzero_bit by blast
  have below: "\<And>j. bit (push_bit i 1 :: u32) j \<Longrightarrow> j < n" unfolding bits using i(1) by simp
  have "delivers g [push_bit i 1] g1 e1"
    using TrivialCube_delivers [of g, OF _ _ n nz below] g c i(2)
    by (auto simp: graph_for_def Kit_SopFactorTrivialCube_def simp del: push_bit_of_1)
  then have d1: "delivers g cd g1 e1" by (simp only: i(2))
  have d2: "delivers g1 Q g2 e2" by (rule rec_correctD [OF rec i(4) graph_for_delivers [OF g d1] q])
  have "length Q \<noteq> 0" using i(4) by (simp add: good_def)
  then have "lit_weight cd \<le> length Q * lit_weight cd" by (cases "length Q") simp_all
  moreover have "lit_weight S = length Q * lit_weight cd + length cd * lit_weight Q + lit_weight R"
    by (rule divides_weight [OF i(3)])
  ultimately have "lit_weight cd + lit_weight Q + lit_weight R \<le> lit_weight S" by (simp add: i(2) del: push_bit_of_1)
  then show ?thesis by (rule factor_tail_delivers [OF d1 d2 g i(3) _ good_rest [OF S i(3)] rec t])
qed

lemma Factor_step_cases:
  assumes "Kit_SopFactor_rec (Suc fuel) g S n s = Some res" and "good n S" "n \<le> 32"
  obtains (trivial) g' e s1 where "Kit_SopFactorTrivial g S n = Some (g', e)" "res = (g', e, s1)"
    | (literal) U s1 where "Kit_SopFactorLF_rec fuel g S U n s1 = Some res"
    | (divide) Q D R s1 g1 e1 s2 g2 e2 s3 where "divides S Q D R" "good n Q" "good n D"
        "lit_weight D + lit_weight Q + lit_weight R < lit_weight S"
        "Kit_SopFactor_rec fuel g D n s1 = Some (g1, e1, s2)" "Kit_SopFactor_rec fuel g1 Q n s2 = Some (g2, e2, s3)"
        "factor_tail fuel g2 e1 e2 R n s3 = Some res"
proof -
  have ne: "S \<noteq> []" using assms(2) by (simp add: good_def)
  obtain D0 s1 where D0: "Kit_SopDivisor S n s = Some (D0, s1)" using assms(1) ne by (auto simp: bind_eq_Some_conv)
  show ?thesis
  proof (cases D0)
    case None
    then show ?thesis using trivial assms(1) ne D0 by (auto simp: bind_eq_Some_conv)
  next
    case (Some D)
    then obtain S' Q R s2 where 1: "Kit_SopDivideInternal S D s1 = Some (S', Q, R, s2)"
      using assms(1) ne D0 by (auto simp: bind_eq_Some_conv)
    have f: "S' = S" "divides S D Q R" "Q \<noteq> []" "D \<noteq> []" "\<exists>i < n. 2 \<le> lit_occ S i"
      using first_division [OF assms(2,3) D0 [unfolded Some] 1] by blast+
    show ?thesis
    proof (cases "length Q = 1")
      case True
      then show ?thesis using literal assms(1) ne D0 Some 1 f(1,3) by simp
    next
      case False
      let ?Q = "Kit_SopMakeCubeFree Q"
      obtain S'' D2 R2 s3 where 2: "Kit_SopDivideInternal S ?Q s2 = Some (S'', D2, R2, s3)"
        using assms(1) ne D0 Some 1 f(1,3) False by (auto simp: bind_eq_Some_conv Let_def)
      have h: "S'' = S" "divides S ?Q D2 R2" "good n ?Q" "2 \<le> length Q" "D2 \<noteq> []"
        using second_division [OF assms(2,3) f(2,4,3) False f(5) 2] by blast+
      show ?thesis
      proof (cases "Kit_SopIsCubeFree D2")
        case True
        then obtain g1 e1 s4 g2 e2 s5 where "Kit_SopFactor_rec fuel g D2 n s3 = Some (g1, e1, s4)"
            "Kit_SopFactor_rec fuel g1 ?Q n s4 = Some (g2, e2, s5)" "factor_tail fuel g2 e1 e2 R2 n s5 = Some res"
          using assms(1) ne D0 Some 1 f(1,3) False 2 h(1) by (auto simp: bind_eq_Some_conv factor_tail_def Let_def)
        then show ?thesis
          using divide [OF h(2,3)] cube_free_parts [OF assms(2) h(2) _ h(3,5) True] h(4) by simp
      next
        case False
        then show ?thesis using literal assms(1) ne D0 Some 1 f(1,3) \<open>length Q \<noteq> 1\<close> 2 h(1) by (auto simp: bind_eq_Some_conv Let_def)
      qed
    qed
  qed
qed

lemma Factor_rec_correct:
  assumes n: "n \<le> 32"
  shows "rec_correct n fuel"
proof (induction fuel rule: less_induct)
  case (less fuel)
  show ?case
    unfolding rec_correct_def
  proof (intro allI impI)
    fix S g s g' e s'
    assume S: "good n S" and g: "graph_for n g" and r: "Kit_SopFactor_rec fuel g S n s = Some (g', e, s')"
    obtain f where f: "fuel = Suc f" using r by (cases fuel) auto
    have rec: "rec_correct n f" using less f by simp
    from r [unfolded f] S n show "delivers g S g' e"
    proof (cases rule: Factor_step_cases)
      case (trivial g'' e'' s1)
      then show ?thesis
        using Trivial_ok [of g n S] g n S by (auto simp: Kit_SopFactorTrivial_def graph_for_def good_def plain_def)
    next
      case (literal U s1)
      then obtain f' where f': "f = Suc f'" by (cases f) auto
      then have "rec_correct n f'" using less f by simp
      then show ?thesis by (rule LF_correct [OF S n g _ literal [unfolded f']])
    next
      case (divide Q D R s1 g1 e1 s2 g2 e2 s3)
      have d1: "delivers g D g1 e1" by (rule rec_correctD [OF rec divide(3) g divide(5)])
      have d2: "delivers g1 Q g2 e2" by (rule rec_correctD [OF rec divide(2) graph_for_delivers [OF g d1] divide(6)])
      have swap: "divides S D Q R"
        using divide(1) products_swap [of D Q] unfolding divides_def by (metis and.commute)
      show ?thesis
        using factor_tail_delivers [OF d1 d2 g swap _ good_rest [OF S swap] rec divide(7)] divide(4) by simp
    qed
  qed
qed

section \<open>The recursion ends and finds its memory\<close>

text \<open>A step on \<open>N\<close> cubes fetches at most \<open>8 * N\<close> words, and the parts have fewer literals.\<close>

definition factor_mem :: "u32 list \<Rightarrow> nat" where
  "factor_mem S = 8 * length S * lit_weight S"

lemma fetch_words_fits:
  assumes "mem_nSize s + w \<le> mem_nCap s"
  shows "\<exists>s'. fetch_words w s = Some s' \<and> mem_fits w s s'"
  using assms by (auto simp: fetch_words_def Vec_IntFetch_def mem_fits_def)

lemma DivideByCube_fits:
  assumes "mem_nSize s + 2 * length S \<le> mem_nCap s"
  shows "\<exists>Q R s'. Kit_SopDivideByCube S D s = Some (Q, R, s') \<and> mem_fits (2 * length S) s s'"
proof -
  obtain s1 where s1: "fetch_words (length S) s = Some s1" "mem_fits (length S) s s1"
    using fetch_words_fits [of s "length S"] assms by auto
  then have "mem_nSize s1 + length S \<le> mem_nCap s1" using assms by (simp add: mem_fits_def)
  then obtain s2 where s2: "fetch_words (length S) s1 = Some s2" "mem_fits (length S) s1 s2"
    using fetch_words_fits by blast
  have "mem_fits (2 * length S) s s2" by (rule mem_fits_trans [OF s1(2) s2(2)]) simp
  then show ?thesis using s1 s2 by (simp add: Kit_SopDivideByCube_def Let_def)
qed

lemma DivideInternal_fits:
  assumes S: "plain S" and D: "distinct D" "0 \<notin> set D" and DS: "length D \<le> length S"
    and m: "mem_nSize s + 2 * length S \<le> mem_nCap s"
  shows "\<exists>S' Q R s'. Kit_SopDivideInternal S D s = Some (S', Q, R, s') \<and> mem_fits (2 * length S) s s'"
proof (cases "length D = 1")
  case True
  then show ?thesis using DivideByCube_fits [OF m, of D] DS by (auto simp: Kit_SopDivideInternal_def)
next
  case False
  obtain T V where TV: "fold (div_step D) [0..<length S] (S, []) = (T, V)" by (cases "fold (div_step D) [0..<length S] (S, [])")
  then have inv: "div_inv S D (T, V)" using div_loop_inv [OF S D order_refl] by simp
  then have "length T = length S" and nz: "0 \<notin> set T" by (auto simp: div_inv_def)
  have "mset S = mset (unmarked T) + mset (products D V)" using inv by (simp add: div_inv_def)
  then have "length S = length (unmarked T) + length V * length D"
    by (metis length_products size_mset size_union)
  then have rest: "length T - length V * length D = length (filter (\<lambda>c. \<not> Kit_CubeIsMarked c) T)" using \<open>length T = length S\<close> by simp
  have le: "length S div length D \<le> length S" "length T - length V * length D \<le> length S" using \<open>length T = length S\<close> by simp_all
  obtain s1 where s1: "fetch_words (length S div length D) s = Some s1" "mem_fits (length S div length D) s s1"
    using fetch_words_fits [of s "length S div length D"] m le by force
  then have "mem_nSize s1 + (length T - length V * length D) \<le> mem_nCap s1"
    using m le unfolding mem_fits_def by linarith
  then obtain s2 where s2: "fetch_words (length T - length V * length D) s1 = Some s2"
      "mem_fits (length T - length V * length D) s1 s2"
    using fetch_words_fits by blast
  have "mem_fits (2 * length S) s s2" by (rule mem_fits_trans [OF s1(2) s2(2)]) (use le in linarith)
  then show ?thesis
    using s1(1) s2(1) TV False DS rest by (simp add: Kit_SopDivideInternal_def plain_each [OF S] each_cube_id [OF nz] Let_def)
qed

definition lf_mem :: "u32 list \<Rightarrow> nat" where
  "lf_mem S = 2 * length S + 1 + 8 * length S * (lit_weight S - 1)"

lemma mem_parts:
  assumes "length A \<le> length S" "length B \<le> length S" "length C \<le> length S"
    and "lit_weight A + lit_weight B + lit_weight C < lit_weight S"
  shows "factor_mem A + factor_mem B + factor_mem C \<le> 8 * length S * (lit_weight S - 1)"
proof -
  have "factor_mem X \<le> 8 * length S * lit_weight X" if "length X \<le> length S" for X
    using that by (simp add: factor_mem_def)
  then have "factor_mem A + factor_mem B + factor_mem C \<le> 8 * length S * lit_weight A + 8 * length S * lit_weight B + 8 * length S * lit_weight C"
    using assms(1-3) by (intro add_mono) auto
  also have "\<dots> = 8 * length S * (lit_weight A + lit_weight B + lit_weight C)" by (simp add: algebra_simps)
  also have "\<dots> \<le> 8 * length S * (lit_weight S - 1)" using assms(4) by (intro mult_le_mono2) simp
  finally show ?thesis .
qed

lemma mem_step: "0 < lit_weight S \<Longrightarrow> 8 * length S + 8 * length S * (lit_weight S - 1) = factor_mem S"
  unfolding factor_mem_def by (cases "lit_weight S") simp_all

definition rec_total :: "nat \<Rightarrow> nat \<Rightarrow> bool" where
  "rec_total n fuel \<longleftrightarrow> (\<forall>S g s. good n S \<longrightarrow> graph_for n g \<longrightarrow> 2 * lit_weight S < fuel \<longrightarrow>
     mem_nSize s + factor_mem S \<le> mem_nCap s \<longrightarrow>
     (\<exists>g' e s'. Kit_SopFactor_rec fuel g S n s = Some (g', e, s') \<and> mem_fits (factor_mem S) s s'))"

lemma rec_totalD:
  "rec_total n fuel \<Longrightarrow> good n S \<Longrightarrow> graph_for n g \<Longrightarrow> 2 * lit_weight S < fuel \<Longrightarrow>
    mem_nSize s + factor_mem S \<le> mem_nCap s \<Longrightarrow>
    \<exists>g' e s'. Kit_SopFactor_rec fuel g S n s = Some (g', e, s') \<and> mem_fits (factor_mem S) s s'"
  unfolding rec_total_def by blast

lemma mem_fits_next: "mem_fits k s s' \<Longrightarrow> mem_nSize s + (k + j) \<le> mem_nCap s \<Longrightarrow> mem_nSize s' + j \<le> mem_nCap s'"
  by (auto simp: mem_fits_def)

lemma factor_tail_total:
  assumes rec: "rec_total n fuel" and g: "graph_for n g" "edge_ok g e1" "edge_ok g e2" and R: "R = [] \<or> good n R"
    and fuel: "2 * lit_weight R < fuel" and m: "mem_nSize s + factor_mem R \<le> mem_nCap s"
  shows "\<exists>g' e s'. factor_tail fuel g e1 e2 R n s = Some (g', e, s') \<and> mem_fits (factor_mem R) s s'"
proof -
  obtain g3 e3 where a: "Kit_GraphAddNodeAnd g e1 e2 = (g3, e3)" by (cases "Kit_GraphAddNodeAnd g e1 e2")
  show ?thesis
  proof (cases "R = []")
    case True
    then show ?thesis using a by (simp add: factor_tail_def)
  next
    case False
    have "graph_for n g3" using graph_for_extends [OF g(1)] add_and(1) [OF _ g(2,3) a] g(1) by (auto simp: graph_for_def)
    then obtain g4 e4 s4 where 4: "Kit_SopFactor_rec fuel g3 R n s = Some (g4, e4, s4)" "mem_fits (factor_mem R) s s4"
      using rec_totalD [OF rec _ _ fuel m] R False by blast
    obtain g5 e5 where "Kit_GraphAddNodeOr g4 e3 e4 = (g5, e5)" by (cases "Kit_GraphAddNodeOr g4 e3 e4")
    then show ?thesis using 4 a False by (simp add: factor_tail_def)
  qed
qed

text \<open>Two parts and the remainder, as both functions call the recursion.\<close>

lemma factor_parts_total:
  assumes rec: "rec_total n fuel" and cor: "rec_correct n fuel" and g: "graph_for n g" "edge_ok g e1"
    and Q: "good n Q" and R: "R = [] \<or> good n R"
    and fuel: "2 * lit_weight Q < fuel" "2 * lit_weight R < fuel"
    and m: "mem_nSize s + (factor_mem Q + factor_mem R) \<le> mem_nCap s"
  shows "\<exists>g2 e2 s2 g' e s'. Kit_SopFactor_rec fuel g Q n s = Some (g2, e2, s2) \<and>
    factor_tail fuel g2 e1 e2 R n s2 = Some (g', e, s') \<and> mem_fits (factor_mem Q + factor_mem R) s s'"
proof -
  obtain g2 e2 s2 where 2: "Kit_SopFactor_rec fuel g Q n s = Some (g2, e2, s2)" "mem_fits (factor_mem Q) s s2"
    using rec_totalD [OF rec Q g(1) fuel(1), of s] m by auto
  have d2: "delivers g Q g2 e2" by (rule rec_correctD [OF cor Q g(1) 2(1)])
  then have g2: "graph_for n g2" "edge_ok g2 e1" "edge_ok g2 e2"
    using graph_for_delivers [OF g(1) d2] extends_ok [OF _ g(2)] by (auto simp: delivers_def)
  obtain g' e s' where 3: "factor_tail fuel g2 e1 e2 R n s2 = Some (g', e, s')" "mem_fits (factor_mem R) s2 s'"
    using factor_tail_total [OF rec g2 R fuel(2) mem_fits_next [OF 2(2) m]] by blast
  show ?thesis using 2(1) 3(1) mem_fits_trans [OF 2(2) 3(2) order_refl] by blast
qed

lemma LF_total:
  assumes S: "good n S" and n: "n \<le> 32" and g: "graph_for n g" and rec: "rec_total n fuel" and cor: "rec_correct n fuel"
    and U: "length U = 1" and i: "\<exists>i < n. bit (U ! 0) i \<and> 2 \<le> lit_occ S i" and fuel: "2 * lit_weight S \<le> Suc fuel"
    and m: "mem_nSize s + lf_mem S \<le> mem_nCap s"
  shows "\<exists>g' e s'. Kit_SopFactorLF_rec (Suc fuel) g S U n s = Some (g', e, s') \<and> mem_fits (lf_mem S) s s'"
proof -
  let ?w = "8 * length S * (lit_weight S - 1)"
  have ne: "Kit_SopBestLiteral S n (U ! 0) \<noteq> -1" using i BestLiteral_spec(2) [of S n "U ! 0"] by force
  obtain s1 where s1: "fetch_words 1 s = Some s1" "mem_fits 1 s s1"
    using fetch_words_fits [of s 1] m by (auto simp: lf_mem_def)
  then obtain cd where cd: "Kit_SopBestLiteralCover S (U ! 0) n s = Some (cd, s1)"
    using ne by (auto simp: Kit_SopBestLiteralCover_def Let_def)
  have m1: "mem_nSize s1 + (2 * length S + ?w) \<le> mem_nCap s1"
    by (rule mem_fits_next [OF s1(2)]) (use m in \<open>simp add: lf_mem_def\<close>)
  obtain Q R s2 where 2: "Kit_SopDivideByCube S cd s1 = Some (Q, R, s2)" "mem_fits (2 * length S) s1 s2"
    using DivideByCube_fits [of s1 S cd] m1 by auto
  obtain j where j: "j < n" "cd = [push_bit j 1]" "divides S cd Q R" "good n Q" "lit_weight Q + lit_weight R + 1 < lit_weight S"
    using literal_division [OF S n cd 2(1)] by blast
  have len: "length Q \<le> length S" "length R \<le> length S"
    using kernel_length [OF divides_kernel(2) [OF j(3)], of "push_bit j 1"] kernel_length [OF divides_kernel(3) [OF j(3)]]
    by (simp_all add: j(2) del: push_bit_of_1)
  have parts: "factor_mem Q + factor_mem R \<le> ?w"
    using mem_parts [of "[]" S Q R] len j(5) by (simp add: factor_mem_def)
  have m2: "mem_nSize s2 + (factor_mem Q + factor_mem R) \<le> mem_nCap s2"
    using mem_fits_next [OF 2(2) m1] parts by simp
  have bits: "bit (push_bit j 1 :: u32) k \<longleftrightarrow> k = j" for k using j(1) n by (simp add: bit_push1 del: push_bit_of_1)
  then have nz: "push_bit j 1 \<noteq> (0 :: u32)" unfolding nonzero_bit by blast
  have below: "\<And>k. bit (push_bit j 1 :: u32) k \<Longrightarrow> k < n" unfolding bits using j(1) by simp
  obtain g1 e1 where c: "Kit_SopFactorTrivialCube g (cd ! 0) n = Some (g1, e1)" "delivers g cd g1 e1"
    using TrivialCube_delivers [of g, OF _ _ n nz below] g j(2)
    by (auto simp: graph_for_def Kit_SopFactorTrivialCube_def simp del: push_bit_of_1)
  have g1: "graph_for n g1" "edge_ok g1 e1" using graph_for_delivers [OF g c(2)] c(2) by (auto simp: delivers_def)
  obtain g2 e2 s3 g' e s' where 3: "Kit_SopFactor_rec fuel g1 Q n s2 = Some (g2, e2, s3)"
      "factor_tail fuel g2 e1 e2 R n s3 = Some (g', e, s')" "mem_fits (factor_mem Q + factor_mem R) s2 s'"
    using factor_parts_total [OF rec cor g1 j(4) good_rest [OF S j(3)] _ _ m2] fuel j(5) by auto
  have "mem_fits (lf_mem S) s s'"
    by (rule mem_fits_trans [OF s1(2) mem_fits_trans [OF 2(2) 3(3) order_refl]]) (use parts in \<open>simp add: lf_mem_def\<close>)
  then show ?thesis using U cd 2(1) c(1) 3(1,2) by (simp add: factor_tail_def)
qed

lemma Divisor_fits:
  assumes "mem_nSize s + length S \<le> mem_nCap s"
  shows "\<exists>D s'. Kit_SopDivisor S n s = Some (D, s') \<and> mem_fits (length S) s s'"
  using fetch_words_fits [OF assms] by (auto simp: Kit_SopDivisor_def Kit_SopDup_def)

lemma three_parts_total:
  assumes S: "good n S" and g: "graph_for n g" and rec: "rec_total n f" and cor: "rec_correct n f"
    and div: "divides S Q D R" and good: "good n Q" "good n D"
    and w: "lit_weight D + lit_weight Q + lit_weight R < lit_weight S" and fuel: "2 * lit_weight S \<le> f"
    and m: "mem_nSize s + 8 * length S * (lit_weight S - 1) \<le> mem_nCap s"
  shows "\<exists>g1 e1 s1 g2 e2 s2 g' e s'. Kit_SopFactor_rec f g D n s = Some (g1, e1, s1) \<and>
    Kit_SopFactor_rec f g1 Q n s1 = Some (g2, e2, s2) \<and> factor_tail f g2 e1 e2 R n s2 = Some (g', e, s') \<and>
    mem_fits (8 * length S * (lit_weight S - 1)) s s'"
proof -
  have ne: "D \<noteq> []" "Q \<noteq> []" using good by (simp_all add: good_def)
  have le: "length D \<le> length S" "length Q \<le> length S" "length R \<le> length S"
    using kernel_length [OF divides_kernel(2) [OF div last_in_set [OF ne(2)]]]
      kernel_length [OF divides_kernel(1) [OF div last_in_set [OF ne(1)]]] kernel_length [OF divides_kernel(3) [OF div]] .
  note parts = mem_parts [OF le w]
  obtain g1 e1 s1 where 1: "Kit_SopFactor_rec f g D n s = Some (g1, e1, s1)" "mem_fits (factor_mem D) s s1"
    using rec_totalD [OF rec good(2) g, of s] w fuel m parts by auto
  have d1: "delivers g D g1 e1" by (rule rec_correctD [OF cor good(2) g 1(1)])
  have g1: "graph_for n g1" "edge_ok g1 e1" using graph_for_delivers [OF g d1] d1 by (auto simp: delivers_def)
  have m1: "mem_nSize s1 + (factor_mem Q + factor_mem R) \<le> mem_nCap s1"
    by (rule mem_fits_next [OF 1(2)]) (use m parts in simp)
  obtain g2 e2 s2 g' e s' where 2: "Kit_SopFactor_rec f g1 Q n s1 = Some (g2, e2, s2)"
      "factor_tail f g2 e1 e2 R n s2 = Some (g', e, s')" "mem_fits (factor_mem Q + factor_mem R) s1 s'"
    using factor_parts_total [OF rec cor g1 good(1) good_rest [OF S div] _ _ m1] w fuel by auto
  have "mem_fits (8 * length S * (lit_weight S - 1)) s s'" by (rule mem_fits_trans [OF 1(2) 2(3)]) (use parts in simp)
  then show ?thesis using 1(1) 2(1,2) by blast
qed

text \<open>
  One step after a divisor was found: both divisions find their memory; then either a literal of a cube
  is factored out, or the three parts are factored.
\<close>

lemma Factor_divide_total:
  assumes S: "good n S" and n: "n \<le> 32" and g: "graph_for n g" and rec: "rec_total n f" and cor: "rec_correct n f"
    and LF: "\<And>U s. length U = 1 \<Longrightarrow> \<exists>i < n. bit (U ! 0) i \<and> 2 \<le> lit_occ S i \<Longrightarrow> mem_nSize s + lf_mem S \<le> mem_nCap s \<Longrightarrow>
      \<exists>g' e s'. Kit_SopFactorLF_rec f g S U n s = Some (g', e, s') \<and> mem_fits (lf_mem S) s s'"
    and fuel: "2 * lit_weight S \<le> f" and D: "Kit_SopDivisor S n s = Some (Some D, s1)" "mem_fits (length S) s s1"
    and m: "mem_nSize s + factor_mem S \<le> mem_nCap s"
  shows "\<exists>g' e s'. Kit_SopFactor_rec (Suc f) g S n s = Some (g', e, s') \<and> mem_fits (factor_mem S) s s'"
proof -
  let ?N = "length S" and ?w = "8 * length S * (lit_weight S - 1)"
  have S': "plain S" "antichain S" "length S < 1000000" using S by (simp_all add: good_def)
  have "0 < lit_weight S" using good_weight [OF S] S by (cases S) (auto simp: good_def)
  then have mem: "factor_mem S = 8 * ?N + ?w" using mem_step by simp
  have m1: "mem_nSize s1 + (2 * ?N + (5 * ?N + ?w)) \<le> mem_nCap s1"
    by (rule mem_fits_next [OF D(2)]) (use m mem in simp)
  have neS: "S \<noteq> []" using S by (simp add: good_def)
  have D': "distinct D" "0 \<notin> set D" "length D \<le> length S"
    using Divisor_ok [OF S' n D(1)] antichain_distinct [of D] kernel_length [of _ D S] by (auto simp: plain_def)
  obtain S1 Q R s2 where 1: "Kit_SopDivideInternal S D s1 = Some (S1, Q, R, s2)" "mem_fits (2 * ?N) s1 s2"
    using DivideInternal_fits [OF S'(1) D', of s1] m1 by auto
  have f: "S1 = S" "divides S D Q R" "Q \<noteq> []" "D \<noteq> []" "2 \<le> ?N" "\<exists>i < n. 2 \<le> lit_occ S i"
      "length Q = 1 \<Longrightarrow> \<exists>i < n. bit (Q ! 0) i \<and> 2 \<le> lit_occ S i"
    using first_division [OF S n D(1) 1(1)] by blast+
  have m2: "mem_nSize s2 + (2 * ?N + (3 * ?N + ?w)) \<le> mem_nCap s2"
    using mem_fits_next [OF 1(2) m1] by (simp add: algebra_simps)
  have fit2: "mem_fits (3 * ?N) s s2" by (rule mem_fits_trans [OF D(2) 1(2)]) simp
  show ?thesis
  proof (cases "length Q = 1")
    case True
    obtain g' e s' where lf: "Kit_SopFactorLF_rec f g S Q n s2 = Some (g', e, s')" "mem_fits (lf_mem S) s2 s'"
      using LF [OF True f(7) [OF True], of s2] m2 f(5) by (auto simp: lf_mem_def)
    have "mem_fits (factor_mem S) s s'" by (rule mem_fits_trans [OF fit2 lf(2)]) (use f(5) mem in \<open>simp add: lf_mem_def\<close>)
    then show ?thesis using neS D(1) 1(1) f(1,3) True lf(1) by simp
  next
    case False
    let ?Q = "Kit_SopMakeCubeFree Q"
    have len: "2 \<le> length Q" by (rule two_le_length [OF f(3) False])
    have "kernel_of (D ! 0) Q S" using divides_kernel(2) [OF f(2)] f(4) by simp
    then have Q': "antichain ?Q" "distinct ?Q" "0 \<notin> set ?Q" "length ?Q \<le> length S"
      using kernel_cube_free [of "D ! 0" Q S] antichain_nonzero [of Q] len kernel_antichain [OF _ S'(2)]
        antichain_distinct [of ?Q] antichain_nonzero [of ?Q] kernel_length [of _ ?Q S] by auto
    obtain S2 D2 R2 s3 where 2: "Kit_SopDivideInternal S ?Q s2 = Some (S2, D2, R2, s3)" "mem_fits (2 * ?N) s2 s3"
      using DivideInternal_fits [OF S'(1) Q'(2-4), of s2] m2 by auto
    have h: "S2 = S" "divides S ?Q D2 R2" "good n ?Q" "D2 \<noteq> []"
        "\<not> Kit_SopIsCubeFree D2 \<Longrightarrow> \<exists>i < n. bit (Kit_SopCommonCube D2) i \<and> 2 \<le> lit_occ S i"
      using second_division [OF S n f(2,4,3) False f(6) 2(1)] by blast+
    have m3: "mem_nSize s3 + (3 * ?N + ?w) \<le> mem_nCap s3" using mem_fits_next [OF 2(2) m2] .
    have fit3: "mem_fits (5 * ?N) s s3" by (rule mem_fits_trans [OF fit2 2(2)]) simp
    show ?thesis
    proof (cases "Kit_SopIsCubeFree D2")
      case True
      have len2: "2 \<le> length ?Q" and neQ: "?Q \<noteq> []" using len h(3) by (simp_all add: good_def)
      have p: "good n D2" "lit_weight D2 + lit_weight ?Q + lit_weight R2 < lit_weight S"
        using cube_free_parts [OF S h(2) len2 h(3,4) True] by blast+
      obtain g1 e1 s4 g2 e2 s5 g' e s' where 4: "Kit_SopFactor_rec f g D2 n s3 = Some (g1, e1, s4)"
          "Kit_SopFactor_rec f g1 ?Q n s4 = Some (g2, e2, s5)" "factor_tail f g2 e1 e2 R2 n s5 = Some (g', e, s')" "mem_fits ?w s3 s'"
        using three_parts_total [OF S g rec cor h(2,3) p fuel, of s3] m3 by auto
      have "mem_fits (factor_mem S) s s'" by (rule mem_fits_trans [OF fit3 4(4)]) (use mem in simp)
      then show ?thesis using neS D(1) 1(1) f(1,3) False 2(1) h(1) True 4(1-3) by (simp add: factor_tail_def)
    next
      case False': False
      obtain s4 where s4: "fetch_words 1 s3 = Some s4" "mem_fits 1 s3 s4" using fetch_words_fits [of s3 1] m3 f(5) by auto
      have m4: "mem_nSize s4 + lf_mem S \<le> mem_nCap s4"
        by (rule mem_fits_next [OF s4(2)]) (use m3 f(5) in \<open>simp add: lf_mem_def\<close>)
      obtain g' e s' where lf: "Kit_SopFactorLF_rec f g S [Kit_SopCommonCube D2] n s4 = Some (g', e, s')" "mem_fits (lf_mem S) s4 s'"
        using LF [of "[Kit_SopCommonCube D2]" s4, OF _ _ m4] h(5) [OF False'] m4 by auto
      have "mem_fits (factor_mem S) s s'"
        by (rule mem_fits_trans [OF fit3 mem_fits_trans [OF s4(2) lf(2) order_refl]]) (use f(5) mem in \<open>simp add: lf_mem_def\<close>)
      then show ?thesis using neS D(1) 1(1) f(1,3) False 2(1) h(1) False' s4(1) lf(1) by (simp add: Kit_SopCommonCubeCover_def)
    qed
  qed
qed

lemma Factor_rec_total:
  assumes n: "n \<le> 32"
  shows "rec_total n fuel"
proof (induction fuel rule: less_induct)
  case (less fuel)
  show ?case
    unfolding rec_total_def
  proof (intro allI impI)
    fix S g and s :: vec_mem
    assume S: "good n S" and g: "graph_for n g" and fuel: "2 * lit_weight S < fuel" and m: "mem_nSize s + factor_mem S \<le> mem_nCap s"
    have pos: "0 < lit_weight S" "0 < length S" using good_weight [OF S] S by (cases S; auto simp: good_def)+
    then obtain f where f: "fuel = Suc f" "2 * lit_weight S \<le> f" using fuel by (cases fuel) auto
    then obtain f' where f': "f = Suc f'" using pos by (cases f) auto
    have LF: "\<exists>g' e s'. Kit_SopFactorLF_rec f g S U n s = Some (g', e, s') \<and> mem_fits (lf_mem S) s s'"
      if "length U = 1" "\<exists>i < n. bit (U ! 0) i \<and> 2 \<le> lit_occ S i" "mem_nSize s + lf_mem S \<le> mem_nCap s" for U s
      unfolding f' by (rule LF_total [OF S n g _ Factor_rec_correct [OF n] that(1,2) _ that(3)]) (use less f f' in simp_all)
    have "length S \<le> factor_mem S" using mem_step [OF pos(1)] by simp
    then obtain D s1 where D: "Kit_SopDivisor S n s = Some (D, s1)" "mem_fits (length S) s s1"
      using Divisor_fits [of s S n] m by auto
    show "\<exists>g' e s'. Kit_SopFactor_rec fuel g S n s = Some (g', e, s') \<and> mem_fits (factor_mem S) s s'"
    proof (cases D)
      case None
      obtain g' e where "Kit_SopFactorTrivial g S n = Some (g', e)"
        using Trivial_ok [of g n S] g n S by (auto simp: Kit_SopFactorTrivial_def graph_for_def good_def plain_def)
      moreover have "mem_fits (factor_mem S) s s1"
        using D(2) \<open>length S \<le> factor_mem S\<close> by (auto simp: mem_fits_def)
      ultimately show ?thesis using None D f(1) pos(2) by simp
    next
      case (Some D0)
      have rec: "rec_total n f" using less f by simp
      show ?thesis
        unfolding f(1) using Factor_divide_total [OF S n g rec Factor_rec_correct [OF n] LF f(2) _ D(2) m] D(1) Some by blast
    qed
  qed
qed

section \<open>From covers to factored forms\<close>

lemma bit_55: "bit (0x55555555 :: u32) i \<longleftrightarrow> i < 32 \<and> even i"
  using bit_lo_mask [of 0 i] by (simp add: lo_mask_def bit_0)

lemma bit_inverse:
  assumes "v < 16"
  shows "bit (inverse_cube c) (2 * v) \<longleftrightarrow> bit c (2 * v + 1) \<and> \<not> bit c (2 * v)"
    "bit (inverse_cube c) (2 * v + 1) \<longleftrightarrow> bit c (2 * v) \<and> \<not> bit c (2 * v + 1)"
proof -
  define M where "M = (c OR drop_bit 1 c) AND 0x55555555"
  have m: "bit M i \<longleftrightarrow> i < 32 \<and> even i \<and> (bit c i \<or> bit c (i + 1))" for i
    unfolding M_def bit_and_iff bit_or_iff bit_drop_bit_eq bit_55 by auto
  have p: "bit (push_bit 1 M) i \<longleftrightarrow> 1 \<le> i \<and> i < 32 \<and> bit M (i - 1)" for i
    by (simp only: bit_push_bit_iff possible_bit_word) auto
  have "bit (M OR push_bit 1 M) (2 * v) \<longleftrightarrow> bit c (2 * v) \<or> bit c (2 * v + 1)"
    "bit (M OR push_bit 1 M) (2 * v + 1) \<longleftrightarrow> bit c (2 * v) \<or> bit c (2 * v + 1)"
    unfolding bit_or_iff p m using assms by auto
  then show "bit (inverse_cube c) (2 * v) \<longleftrightarrow> bit c (2 * v + 1) \<and> \<not> bit c (2 * v)"
    "bit (inverse_cube c) (2 * v + 1) \<longleftrightarrow> bit c (2 * v) \<and> \<not> bit c (2 * v + 1)"
    unfolding inverse_cube_def Let_def bit_xor_iff M_def by blast+
qed

lemma all_bits_pairs: "(\<forall>i < 32. P i) \<longleftrightarrow> (\<forall>v < 16. P (2 * v) \<and> P (2 * v + 1))" for P :: "nat \<Rightarrow> bool"
proof (intro iffI allI impI)
  fix i :: nat assume a: "\<forall>v < 16. P (2 * v) \<and> P (2 * v + 1)" "i < 32"
  then have "P (2 * (i div 2)) \<and> P (2 * (i div 2) + 1)" by simp
  moreover have "i = 2 * (i div 2) \<or> i = 2 * (i div 2) + 1" by presburger
  ultimately show "P i" by metis
qed auto

lemma cube_val_inverse:
  assumes "cube_holds c m0"
  shows "cube_val (bit m) (inverse_cube c) = cube_holds c m"
proof -
  have con: "\<not> (bit c (2 * v) \<and> bit c (2 * v + 1))" if "v < 16" for v
    using assms that unfolding cube_holds_iff by blast
  have "cube_val (bit m) (inverse_cube c) \<longleftrightarrow> (\<forall>i < 32. bit (inverse_cube c) i \<longrightarrow> lit_val (bit m) i)"
    unfolding cube_val_def using bit_imp_le_length [of "inverse_cube c"] by auto
  also have "\<dots> \<longleftrightarrow> cube_holds c m"
    unfolding all_bits_pairs cube_holds_iff using con bit_inverse [of _ c] by (auto simp: lit_val_def)
  finally show ?thesis .
qed

lemma bit_pair_cases:
  fixes c :: u32
  assumes "bit c i"
  obtains v where "v < 16" "i = 2 * v \<or> i = 2 * v + 1"
proof -
  have "i < 32" using bit_imp_le_length [OF assms] by simp
  then have "i div 2 < 16" "i = 2 * (i div 2) \<or> i = 2 * (i div 2) + 1" by presburger+
  then show ?thesis by (rule that)
qed

lemma inverse_nonzero:
  assumes "c \<noteq> 0" "cube_holds c m"
  shows "inverse_cube c \<noteq> 0"
proof -
  obtain i where i: "bit c i" using assms(1) nonzero_bit by blast
  then obtain v where v: "v < 16" "i = 2 * v \<or> i = 2 * v + 1" by (rule bit_pair_cases)
  then have "\<not> (bit c (2 * v) \<and> bit c (2 * v + 1))" using assms(2) unfolding cube_holds_iff by blast
  then have "bit (inverse_cube c) (2 * v) \<or> bit (inverse_cube c) (2 * v + 1)" using bit_inverse [OF v(1), of c] i v(2) by auto
  then show ?thesis using nonzero_bit by blast
qed

lemma inverse_below:
  assumes "cube_below n c" "bit (inverse_cube c) i"
  shows "i < 2 * n"
proof -
  obtain v where v: "v < 16" "i = 2 * v \<or> i = 2 * v + 1" using assms(2) by (rule bit_pair_cases)
  then have "bit c (2 * v) \<or> bit c (2 * v + 1)" using bit_inverse [OF v(1), of c] assms(2) by auto
  then have "2 * v < 2 * n \<or> 2 * v + 1 < 2 * n" using assms(1) unfolding cube_below_def by (meson not_le)
  then show ?thesis using v(2) by presburger
qed

lemma pair_sub_mset:
  assumes "{#c, d#} \<subseteq># mset cs"
  shows "\<exists>i j. i < length cs \<and> j < length cs \<and> i \<noteq> j \<and> cs ! i = c \<and> cs ! j = d"
proof -
  have "c \<in># mset cs" using assms by (meson insert_subset_eq_iff)
  then obtain i where i: "i < length cs" "cs ! i = c" by (auto simp: in_set_conv_nth)
  then have split: "cs = take i cs @ c # drop (Suc i) cs" using id_take_nth_drop by blast
  then have "mset cs = add_mset c (mset (take i cs @ drop (Suc i) cs))" by (metis mset.simps(2) mset_append union_mset_add_mset_right)
  then have "d \<in> set (take i cs) \<or> d \<in> set (drop (Suc i) cs)" using assms by auto
  then show ?thesis
  proof
    assume "d \<in> set (take i cs)"
    then obtain j where "j < i" "cs ! j = d" using i by (auto simp: in_set_conv_nth)
    then show ?thesis using i by (intro exI [of _ i] exI [of _ j]) auto
  next
    assume "d \<in> set (drop (Suc i) cs)"
    then obtain j where "j < length (drop (Suc i) cs)" "drop (Suc i) cs ! j = d" unfolding in_set_conv_nth by blast
    then have "Suc i + j < length cs" "cs ! (Suc i + j) = d" using i by simp_all
    then show ?thesis using i by (intro exI [of _ i] exI [of _ "Suc i + j"]) auto
  qed
qed

lemma cover_val_map: "cover_val env (map f cs) \<longleftrightarrow> (\<exists>i. i < length cs \<and> cube_val env (f (cs ! i)))"
  unfolding cover_val_def by (force simp: in_set_conv_nth)

lemma inverse_good:
  assumes irr: "irredundant On cs" and below: "list_all (cube_below n) cs" and n: "n \<le> 15"
    and cs: "cs \<noteq> []" "cs \<noteq> [0]" "length cs < 1000000"
  shows "good (2 * n) (map inverse_cube cs)" "cover_val (bit m) (map inverse_cube cs) = cover_holds cs m"
proof -
  obtain w where w: "\<And>i j. i < length cs \<Longrightarrow> j < length cs \<Longrightarrow> cube_holds (cs ! j) (w i) \<longleftrightarrow> j = i"
    using irr unfolding irredundant_def by metis
  have val: "cube_val (bit m) (inverse_cube (cs ! i)) = cube_holds (cs ! i) m" if "i < length cs" for i m
    using cube_val_inverse [of "cs ! i" "w i"] w [OF that that] by simp
  show "cover_val (bit m) (map inverse_cube cs) = cover_holds cs m"
    unfolding cover_holds_nth cover_val_map using val by (simp cong: conj_cong)
  have anti: "antichain (map inverse_cube cs)"
    unfolding antichain_def
  proof (intro allI impI notI)
    fix c d assume two: "{#c, d#} \<subseteq># mset (map inverse_cube cs)" and sub: "c AND d = c"
    obtain i j where ij: "i < length cs" "j < length cs" "i \<noteq> j" "map inverse_cube cs ! i = c" "map inverse_cube cs ! j = d"
      using pair_sub_mset [OF two] by auto
    have "cube_val (bit (w j)) (inverse_cube (cs ! j))" using val [OF ij(2)] w [OF ij(2) ij(2)] by simp
    then have "cube_val (bit (w j)) c" unfolding cube_val_def using ij(2,5) sub by (metis bit_and_iff nth_map)
    then have "cube_holds (cs ! i) (w j)" using val [OF ij(1)] ij(1,4) by simp
    then show False using w [OF ij(2) ij(1)] ij(3) by simp
  qed
  have zero: "0 \<notin> set (map inverse_cube cs)"
  proof (cases "length cs = 1")
    case True
    then obtain c where c: "cs = [c]" by (auto simp: length_Suc_conv)
    then have "c \<noteq> 0" "cube_holds c (w 0)" using cs(2) w [of 0 0] by auto
    then show ?thesis using inverse_nonzero c by simp
  next
    case False
    then show ?thesis using antichain_nonzero [OF anti] two_le_length [OF cs(1)] by simp
  qed
  have "i < 2 * n" if "c \<in> set cs" "bit (inverse_cube c) i" for c i
    using inverse_below [OF _ that(2)] below that(1) by (auto simp: list_all_iff)
  moreover from this have "\<not> bit (inverse_cube c) 31" if "c \<in> set cs" for c using that n by fastforce
  ultimately show "good (2 * n) (map inverse_cube cs)"
    using anti zero cs by (auto simp: good_def plain_def)
qed

text \<open>
  \<open>Kit_SopFactor\<close> ignores \<open>fCompl\<close> on constant covers. This is right because \<open>Kit_TruthIsop\<close> does not
  offer the complement of a constant.
\<close>

lemma Isop_rec_true:
  assumes wf: "tt_wf n p" and one: "\<And>m. tt_fun n p m" and r: "Kit_TruthIsop_rec p p n s = (res, c, s')" "sop_nCubes c \<noteq> -1"
  shows "isop_trivial c"
proof -
  have "Kit_TruthIsConst1 p n"
    using one unfolding Kit_TruthIsConst1_iff tt_fun_all [symmetric] by blast
  then show ?thesis
    using r by (subst (asm) Kit_TruthIsop_rec.simps) (auto simp: isop_trivial_def Let_def split: prod.splits if_splits)
qed

lemma Isop_flip_nontrivial:
  assumes n: "n \<le> 16" and wf: "tt_wf n p" and dep: "dep_below n (tt_fun n p)"
    and r: "Kit_TruthIsop p n nCap b = (1, Some cs, p')"
  shows "cs \<noteq> [] \<and> cs \<noteq> [0]"
proof -
  obtain r1 c1 s1 where 1: "Kit_TruthIsop_rec p p n (isop_start nCap) = (r1, c1, s1)" by (metis prod_cases3)
  have c1: "sop_nCubes c1 \<noteq> -1" "\<not> isop_trivial c1"
    using r 1 by (auto simp: Kit_TruthIsop_def split: if_splits)
  have "isop_pre n (tt_fun n p) (tt_fun n p)" using dep by (simp add: isop_pre_def)
  then have ok: "sop_ok n (tt_fun n p) (tt_fun n p) (tt_fun n r1) c1" using Isop_rec_ok [OF n wf wf _ 1] c1 by blast
  have "\<exists>m. \<not> tt_fun n p m" using Isop_rec_true [OF wf _ 1 c1(1)] c1(2) by blast
  moreover have "\<exists>m. tt_fun n p m"
  proof (rule ccontr)
    assume "\<not> (\<exists>m. tt_fun n p m)"
    then have "sop_pCubes c1 = []" using ok by (auto simp: sop_ok_def isop_spec_def irredundant_def)
    then show False using ok c1(2) by (simp add: sop_ok_def isop_trivial_def)
  qed
  moreover have "cover_holds cs m \<longleftrightarrow> \<not> tt_fun n p m" for m
    using Kit_TruthIsop_ok [OF n wf dep r] by (auto simp: isop_spec_def)
  ultimately show ?thesis using cover_holds_Nil cover_holds_Cons [of 0 "[]"] cube_holds_0 by metis
qed

text \<open>What the graph returned for a cover computes, and how large it is.\<close>

definition factored :: "nat \<Rightarrow> (nat \<Rightarrow> bool) \<Rightarrow> nat \<Rightarrow> kit_graph \<Rightarrow> bool" where
  "factored n f w g \<longleftrightarrow> (\<forall>m. graph_val g (bit m) = f m) \<and>
     (g_fConst g \<and> g_nLeaves g = 0 \<or> graph_wf g \<and> g_nLeaves g = n \<and> edge_ok g (g_eRoot g) \<and> leaf_or_last g (g_eRoot g)) \<and> Kit_GraphNodeNum g + 1 \<le> max 1 w"

lemma popcount_inverse: "word_ones (inverse_cube c) \<le> word_ones c"
proof -
  let ?f = "\<lambda>i :: nat. if even i then i + 1 else i - 1"
  have "{i. i < 32 \<and> bit (inverse_cube c) i} \<subseteq> ?f ` {i. i < 32 \<and> bit c i}"
  proof
    fix i assume "i \<in> {i. i < 32 \<and> bit (inverse_cube c) i}"
    then have b: "bit (inverse_cube c) i" by simp
    then obtain v where v: "v < 16" "i = 2 * v \<or> i = 2 * v + 1" by (rule bit_pair_cases)
    then have "bit c (?f i) \<and> ?f i < 32 \<and> ?f (?f i) = i" using bit_inverse [OF v(1), of c] b by auto
    then show "i \<in> ?f ` {i. i < 32 \<and> bit c i}" by force
  qed
  then have "card {i. i < 32 \<and> bit (inverse_cube c) i} \<le> card (?f ` {i. i < 32 \<and> bit c i})" by (intro card_mono) auto
  also have "\<dots> \<le> card {i. i < 32 \<and> bit c i}" by (rule card_image_le) simp
  finally show ?thesis by (simp add: word_ones_def)
qed

lemma popcount_inverse_vars:
  assumes "cube_below n c"
  shows "word_ones (inverse_cube c) \<le> n"
proof -
  let ?B = "{i. i < 32 \<and> bit (inverse_cube c) i}"
  have "inj_on (\<lambda>i. i div 2) ?B"
  proof (rule inj_onI)
    fix i j assume ij: "i \<in> ?B" "j \<in> ?B" "i div 2 = j div 2"
    define v where "v = i div 2"
    have "v < 16" using ij(1) by (auto simp: v_def)
    then have "\<not> (bit (inverse_cube c) (2 * v) \<and> bit (inverse_cube c) (2 * v + 1))" using bit_inverse [of v c] by blast
    moreover have "i = 2 * v \<or> i = 2 * v + 1" "j = 2 * v \<or> j = 2 * v + 1" using ij(3) unfolding v_def by presburger+
    ultimately show "i = j" using ij(1,2) by auto
  qed
  then have "card ?B = card ((\<lambda>i. i div 2) ` ?B)" by (simp add: card_image)
  also have "\<dots> \<le> card {..<n}" using inverse_below [OF assms] by (intro card_mono) fastforce+
  finally show ?thesis by (simp add: word_ones_def)
qed

lemma weight_inverse: "lit_weight (map inverse_cube cs) \<le> lit_weight cs"
  by (induction cs) (simp_all add: add_mono popcount_inverse)

lemma weight_inverse_vars: "list_all (cube_below n) cs \<Longrightarrow> lit_weight (map inverse_cube cs) \<le> length cs * n"
  by (induction cs) (simp_all add: add_mono popcount_inverse_vars)

lemma SopFactor_constant:
  assumes "cs = [] \<or> cs = [0]" "Kit_SopFactor cs fCompl n s = Some (g, s')"
  shows "factored n (cover_holds cs) w g"
  using assms by (auto simp: Kit_SopFactor_def factored_def graph_val_def Kit_GraphCreateConst0_def Kit_GraphCreateConst1_def
      Kit_GraphNodeNum_def zero_edge_def)

lemma graph_for_create: "graph_for (2 * n) (Kit_GraphCreate n)"
  unfolding graph_for_def using graph_create_wf [of n] by (simp add: Kit_GraphCreate_def)

lemma graph_root_simps:
  "graph_val (Kit_GraphSetRoot g e) env = (if g_fConst g then \<not> e_fCompl e else edge_val g env e)"
  "graph_val (Kit_GraphComplement g) env = (\<not> graph_val g env)"
  by (auto simp: graph_val_def Kit_GraphSetRoot_def Kit_GraphComplement_def edge_val_def edge_not_def)

lemma SopFactor_ok:
  assumes irr: "irredundant On cs" and below: "list_all (cube_below n) cs" and n: "n \<le> 15"
    and cs: "cs \<noteq> []" "cs \<noteq> [0]" "length cs < 1000000" and r: "Kit_SopFactor cs fCompl n s = Some (g, s')"
  shows "factored n (\<lambda>m. cover_holds cs m \<noteq> fCompl) (lit_weight cs) g"
proof -
  let ?S = "map inverse_cube cs" and ?G = "Kit_GraphCreate n"
  have nt: "length cs \<noteq> 0" "\<not> (length cs = 1 \<and> cs ! 0 = 0)" using cs by (auto simp: length_Suc_conv)
  obtain s1 g1 e s2 where rec: "Kit_SopFactor_rec (2 * lit_weight ?S + 1) ?G ?S (2 * n) s1 = Some (g1, e, s2)"
      and g: "g = (if fCompl then Kit_GraphComplement (Kit_GraphSetRoot g1 e) else Kit_GraphSetRoot g1 e)"
    using r nt by (auto simp: Kit_SopFactor_def Kit_SopCreateInverse_def bind_eq_Some_conv Let_def
        simp del: Kit_SopFactor_rec.simps)
  note good = inverse_good [OF irr below n cs]
  have n2: "2 * n \<le> 32" using n by simp
  have del: "delivers ?G ?S g1 e"
    by (rule rec_correctD [OF Factor_rec_correct [OF n2] good(1) graph_for_create rec])
  then have ext: "extends ?G g1" "edge_ok g1 e" "leaf_or_last g1 e" by (simp_all add: delivers_def)
  have val: "edge_val g1 (bit m) e = cover_holds cs m" for m using del good(2) by (simp add: delivers_def)
  have c: "\<not> g_fConst g1" "g_nLeaves g1 = n" "graph_wf g1" using ext(1) by (simp_all add: extends_def Kit_GraphCreate_def)
  have vals: "graph_val g (bit m) = (cover_holds cs m \<noteq> fCompl)" for m
    using val c(1) by (simp add: g graph_root_simps)
  have wf: "graph_wf g" "g_nLeaves g = n" "edge_ok g (g_eRoot g)" "leaf_or_last g (g_eRoot g)"
    using c ext(2,3) by (auto simp: g graph_wf_def Kit_GraphSetRoot_def Kit_GraphComplement_def edge_ok_def leaf_or_last_def)
  have "Kit_GraphNodeNum g = g_nSize g1 - n"
    using c(2) by (simp add: g Kit_GraphNodeNum_def Kit_GraphSetRoot_def Kit_GraphComplement_def)
  moreover have "g_nSize g1 + 1 \<le> n + lit_weight ?S" using del by (simp add: delivers_def Kit_GraphCreate_def)
  moreover have "n \<le> g_nSize g1" using c(2,3) by (simp add: graph_wf_def)
  ultimately have "Kit_GraphNodeNum g + 1 \<le> lit_weight cs" using weight_inverse [of cs] by linarith
  then show ?thesis using vals wf by (simp add: factored_def)
qed

lemma SopFactor_total:
  assumes irr: "irredundant On cs" and below: "list_all (cube_below n) cs" and n: "n \<le> 7" and len: "length cs \<le> 2 ^ n"
    and s: "mem_nSize s = length cs"
  shows "\<exists>g s'. Kit_SopFactor cs fCompl n s = Some (g, s')"
proof (cases "cs = [] \<or> cs = [0]")
  case True
  then show ?thesis by (auto simp: Kit_SopFactor_def)
next
  case False
  let ?S = "map inverse_cube cs" and ?s = "s\<lparr>mem_nCap := max (mem_nCap s) KIT_FACTOR_MEM_LIMIT\<rparr>"
  have nt: "length cs \<noteq> 0" "\<not> (length cs = 1 \<and> cs ! 0 = 0)" using False by (auto simp: length_Suc_conv)
  have N: "length cs \<le> 128" using len power_increasing [OF n, of "2 :: nat"] by simp
  have good: "good (2 * n) ?S" using inverse_good(1) [OF irr below] n False N by simp
  have "lit_weight ?S \<le> 128 * 7"
    using weight_inverse_vars [OF below] mult_le_mono [OF N n] by simp
  then have mem: "factor_mem ?S \<le> 8 * 128 * (128 * 7)"
    unfolding factor_mem_def using N by (intro mult_le_mono) simp_all
  then have m: "mem_nSize ?s + (length cs + factor_mem ?S) \<le> mem_nCap ?s"
    using s N by (simp add: KIT_FACTOR_MEM_LIMIT_def)
  then obtain s1 where s1: "fetch_words (length cs) ?s = Some s1" "mem_fits (length cs) ?s s1"
    using fetch_words_fits [of ?s "length cs"] by auto
  have n2: "2 * n \<le> 32" and fuel: "2 * lit_weight ?S < 2 * lit_weight ?S + 1" using n by simp_all
  obtain g e s2 where "Kit_SopFactor_rec (2 * lit_weight ?S + 1) (Kit_GraphCreate n) ?S (2 * n) s1 = Some (g, e, s2)"
    using rec_totalD [OF Factor_rec_total [OF n2] good graph_for_create fuel mem_fits_next [OF s1(2) m]] by blast
  then show ?thesis
    using nt s1(1) by (simp add: Kit_SopFactor_def Kit_SopCreateInverse_def Let_def del: Kit_SopFactor_rec.simps)
qed

section \<open>Factored forms of truth tables\<close>

lemma isop_spec_size15: "isop_spec n On OnDc R cs \<Longrightarrow> n \<le> 15 \<Longrightarrow> length cs < 1000000"
  using isop_spec_size [of n On OnDc R cs] power_increasing [of n 15 "2 :: nat"] by simp

lemma SopFactor_isop:
  assumes spec: "isop_spec n On OnDc f cs" and n: "n \<le> 15" and triv: "cs = [] \<or> cs = [0] \<Longrightarrow> \<not> fCompl"
    and r: "Kit_SopFactor cs fCompl n s = Some (g, s')"
  shows "factored n (\<lambda>m. f m \<noteq> fCompl) (lit_weight cs) g"
proof -
  have f: "f = cover_holds cs" and cs: "irredundant On cs" "list_all (cube_below n) cs"
    using spec by (auto simp: isop_spec_def)
  show ?thesis
  proof (cases "cs = [] \<or> cs = [0]")
    case True
    then show ?thesis using SopFactor_constant [OF True r] triv by (simp add: f)
  next
    case False
    then show ?thesis using SopFactor_ok [OF cs n _ _ isop_spec_size15 [OF spec n] r] by (simp add: f)
  qed
qed

lemma Kit_TruthToGraph_factored:
  assumes n: "n \<le> 15" and wf: "tt_wf n p" and dep: "dep_below n (tt_fun n p)"
    and r: "Kit_TruthToGraph p n nCap = Some (Some g)"
  shows "\<exists>w. factored n (tt_fun n p) w g"
proof -
  obtain RetValue cs p' s where i: "Kit_TruthIsop p n nCap True = (RetValue, Some cs, p')"
      and f: "\<exists>s'. Kit_SopFactor cs (RetValue = 1) n s = Some (g, s')"
    using r by (auto simp: Kit_TruthToGraph_def bind_eq_Some_conv split: prod.splits option.splits if_splits)
  have n16: "n \<le> 16" using n by simp
  have spec: "isop_spec n (\<lambda>m. tt_fun n p m \<noteq> (RetValue = 1)) (\<lambda>m. tt_fun n p m \<noteq> (RetValue = 1))
        (\<lambda>m. tt_fun n p m \<noteq> (RetValue = 1)) cs"
    using Kit_TruthIsop_ok [OF n16 wf dep i] by simp
  have triv: "RetValue \<noteq> 1" if "cs = [] \<or> cs = [0]"
    using Isop_flip_nontrivial [OF n16 wf dep, of nCap True cs p'] i that by auto
  obtain s' where "Kit_SopFactor cs (RetValue = 1) n s = Some (g, s')" using f by blast
  then have "factored n (\<lambda>m. (tt_fun n p m \<noteq> (RetValue = 1)) \<noteq> (RetValue = 1)) (lit_weight cs) g"
    using SopFactor_isop [OF spec n, of "RetValue = 1" s g s'] triv by blast
  moreover have "(\<lambda>m. (tt_fun n p m \<noteq> (RetValue = 1)) \<noteq> (RetValue = 1)) = tt_fun n p" by auto
  ultimately show ?thesis by metis
qed

lemma Kit_TruthToGraph_total:
  assumes n: "n \<le> 7" and wf: "tt_wf n p" and dep: "dep_below n (tt_fun n p)"
  shows "\<exists>g. Kit_TruthToGraph p n nCap = Some (Some g)"
proof -
  have n16: "n \<le> 16" using n by simp
  have "isop_mem n \<le> max nCap KIT_ISOP_MEM_LIMIT" using Isop_mem_limit [of n] n by simp
  then have ok: "fst (Kit_TruthIsop p n nCap True) \<noteq> -1" by (rule Kit_TruthIsop_succeeds [OF n16 wf dep])
  obtain RetValue cov p' where i: "Kit_TruthIsop p n nCap True = (RetValue, cov, p')" by (metis prod_cases3)
  with ok Kit_TruthIsop_ok [OF n16 wf dep i] obtain cs where cov: "cov = Some cs" by (cases cov) auto
  have spec: "isop_spec n (\<lambda>m. tt_fun n p m \<noteq> (RetValue = 1)) (\<lambda>m. tt_fun n p m \<noteq> (RetValue = 1))
        (\<lambda>m. tt_fun n p m \<noteq> (RetValue = 1)) cs"
    using Kit_TruthIsop_ok [OF n16 wf dep i] cov by simp
  have len: "length cs \<le> 2 ^ n" by (rule isop_spec_size [OF spec])
  then have "length cs \<le> 2 ^ 7" using power_increasing [OF n, of "2 :: nat"] by simp
  moreover obtain g s' where "Kit_SopFactor cs (RetValue = 1) n \<lparr>mem_nSize = length cs, mem_nCap = max nCap KIT_ISOP_MEM_LIMIT\<rparr> = Some (g, s')"
    using SopFactor_total [OF _ _ n len] spec by (fastforce simp: isop_spec_def)
  ultimately show ?thesis using i cov by (simp add: Kit_TruthToGraph_def)
qed

lemma Kit_TruthToGraph2_factored:
  assumes n: "n \<le> 15" and wf: "tt_wf n t0" "tt_wf n t1" and dep: "dep_below n (tt_fun n t0)" "dep_below n (tt_fun n t1)"
    and disj: "\<forall>m. \<not> (tt_fun n t0 m \<and> tt_fun n t1 m)"
    and r: "Kit_TruthToGraph2 t0 t1 n nCap = Some (Some g)"
  shows "(tt_fun n t1 m \<longrightarrow> graph_val g (bit m)) \<and> (tt_fun n t0 m \<longrightarrow> \<not> graph_val g (bit m))"
proof -
  have n16: "n \<le> 16" using n by simp
  obtain RetValue cs t0' t1' s s' where i: "Kit_TruthIsop2 t0 t1 n nCap False False = (RetValue, Some cs, t0', t1')"
      and f: "Kit_SopFactor cs (RetValue = 1) n s = Some (g, s')"
    using r by (auto simp: Kit_TruthToGraph2_def bind_eq_Some_conv split: prod.splits option.splits if_splits)
  have "RetValue = 0" using i by (auto simp: Kit_TruthIsop2_def Let_def split: prod.splits if_splits)
  then have spec: "isop_spec n (tt_fun n t1) (\<lambda>m. \<not> tt_fun n t0 m) (cover_holds cs) cs"
    using Kit_TruthIsop2_ok [OF n16 wf dep disj i] by simp
  have "factored n (\<lambda>m. cover_holds cs m \<noteq> False) (lit_weight cs) g"
    using SopFactor_isop [OF spec n, of False] f \<open>RetValue = 0\<close> by simp
  then show ?thesis using spec by (auto simp: factored_def isop_spec_def)
qed

lemma Kit_TruthLitNum_factored:
  assumes "Kit_TruthToGraph p n nCap = Some (Some g)"
  shows "Kit_TruthLitNum p n nCap = Some (1 + int (Kit_GraphNodeNum g))"
  using assms
  by (auto simp: Kit_TruthToGraph_def Kit_TruthLitNum_def bind_eq_Some_conv split: prod.splits option.splits if_splits)

text \<open>
  The check that \<open>Kit_FactorTest\<close> has in a comment: for up to five variables the truth table of the
  factored form is the table it was made from.
\<close>

lemma factored_GraphToTruth:
  assumes f: "factored n (tt_fun n p) w g" and n: "n \<le> 5" and wf: "tt_wf n p"
  shows "fst (Kit_GraphToTruth g) = p ! 0"
proof (rule bit_word_eqI)
  fix b assume "b < LENGTH(32)"
  then have b: "b < 32" by simp
  have "bit (fst (Kit_GraphToTruth g)) b = graph_val g (bit b)"
    using f n b by (intro Kit_GraphToTruth_val) (auto simp: factored_def Kit_GraphIsVar_def leaf_or_last_def)
  also have "\<dots> = tt_fun n p b" using f by (simp add: factored_def)
  also have "\<dots> = bit (p ! 0) b" using n b by (simp add: tt_fun_def tt_bit_def take_bit_nat_eq_self)
  finally show "bit (fst (Kit_GraphToTruth g)) b = bit (p ! 0) b" .
qed

lemma Kit_TruthIsop2_succeeds:
  assumes n: "n \<le> 16" and wf: "tt_wf n t0" "tt_wf n t1" and dep: "dep_below n (tt_fun n t0)" "dep_below n (tt_fun n t1)"
    and disj: "\<forall>m. \<not> (tt_fun n t0 m \<and> tt_fun n t1 m)" and mem: "isop_mem n \<le> max nCap KIT_ISOP_MEM_LIMIT"
  shows "fst (Kit_TruthIsop2 t0 t1 n nCap fTryBoth fReturnTt) \<noteq> -1"
proof -
  let ?q = "Kit_TruthNot t0 t0 n"
  have q: "tt_wf n ?q" "tt_fun n ?q = (\<lambda>m. \<not> tt_fun n t0 m)" using wf by (simp_all add: tt_fun_writers)
  then have "isop_pre n (tt_fun n t1) (tt_fun n ?q)" using dep disj by (auto simp: isop_pre_def dep_bool)
  then obtain r c s where "Kit_TruthIsop_rec t1 ?q n (isop_start nCap) = (r, c, s)" "sop_nCubes c \<noteq> -1"
    using Isop_rec_mem [OF n wf(2) q(1), of "isop_start nCap"] mem by (auto simp: isop_start_def)
  then show ?thesis by (auto simp: Kit_TruthIsop2_def Let_def split: prod.splits)
qed

lemma Kit_TruthToGraph2_total:
  assumes n: "n \<le> 7" and wf: "tt_wf n t0" "tt_wf n t1" and dep: "dep_below n (tt_fun n t0)" "dep_below n (tt_fun n t1)"
    and disj: "\<forall>m. \<not> (tt_fun n t0 m \<and> tt_fun n t1 m)"
  shows "\<exists>g. Kit_TruthToGraph2 t0 t1 n nCap = Some (Some g)"
proof -
  have n16: "n \<le> 16" using n by simp
  have "isop_mem n \<le> max nCap KIT_ISOP_MEM_LIMIT" using Isop_mem_limit [of n] n by simp
  then have ok: "fst (Kit_TruthIsop2 t0 t1 n nCap False False) \<noteq> -1" by (rule Kit_TruthIsop2_succeeds [OF n16 wf dep disj])
  obtain RetValue cov t0' t1' where i: "Kit_TruthIsop2 t0 t1 n nCap False False = (RetValue, cov, t0', t1')" by (metis prod_cases4)
  with ok Kit_TruthIsop2_ok [OF n16 wf dep disj i] obtain cs where cov: "cov = Some cs" by (cases cov) auto
  then obtain On OnDc where sp: "isop_spec n On OnDc (cover_holds cs) cs"
    using Kit_TruthIsop2_ok [OF n16 wf dep disj i] by auto
  then have spec: "irredundant On cs" "list_all (cube_below n) cs" "length cs \<le> 2 ^ n"
    using isop_spec_size [OF sp] by (simp_all add: isop_spec_def)
  then have "length cs \<le> 2 ^ 7" using power_increasing [OF n, of "2 :: nat"] by simp
  moreover obtain g s' where "Kit_SopFactor cs (RetValue = 1) n \<lparr>mem_nSize = length cs, mem_nCap = max nCap KIT_ISOP_MEM_LIMIT\<rparr> = Some (g, s')"
    using SopFactor_total [OF spec(1,2) n spec(3)] by fastforce
  ultimately show ?thesis using i cov by (simp add: Kit_TruthToGraph2_def)
qed

end
