(* ===== verification/Tdm_Occupancy.thy ===== *)
theory Tdm_Occupancy
  imports Kit_Prelude "HOL-Library.While_Combinator"
begin

text \<open>
  The open-addressed set of occupied cells that \<open>build_schedule\<close> of \<open>src/native/tdm_slot_optimizer.cpp\<close>
  keeps in a vector of 64-bit keys: the operations, the interface its client relies on (the locale
  \<open>cell_table\<close>), and the proof that the table implements it as long as one cell is free.
\<close>

unbundle bit_operations_syntax

section \<open>The set of occupied cells\<close>

text \<open>An open-addressed table of 64-bit keys with linear probing, as \<open>build_schedule\<close> keeps it.\<close>

definition empty_occupancy :: "64 word" where
  "empty_occupancy = - 1"

function occupancy_capacity :: "nat \<Rightarrow> nat \<Rightarrow> nat" where
  "occupancy_capacity hop_count c = (if 0 < c \<and> c < hop_count * 2 then occupancy_capacity hop_count (2 * c) else c)"
  by pat_completeness auto
termination
  by (relation "measure (\<lambda>(hop_count, c). 2 * hop_count - c)") auto

declare occupancy_capacity.simps [simp del]

definition occupancy_index :: "nat \<Rightarrow> 64 word \<Rightarrow> nat" where
  "occupancy_index capacity key = unat (key * 11400714819323198485) AND (capacity - 1)"

text \<open>For evaluation: the bitwise operation on binary integers.\<close>

lemma occupancy_index_code [code]:
  "occupancy_index capacity key = nat (uint (key * 11400714819323198485) AND int (capacity - 1))"
proof -
  have "int (occupancy_index capacity key) = uint (key * 11400714819323198485) AND int (capacity - 1)"
    by (simp add: occupancy_index_def of_nat_and_eq)
  then show ?thesis by linarith
qed

definition probe :: "64 word list \<Rightarrow> 64 word \<Rightarrow> nat option" where
  "probe occupied key =
     while_option (\<lambda>position. occupied ! position \<noteq> empty_occupancy \<and> occupied ! position \<noteq> key)
       (\<lambda>position. (position + 1) AND (length occupied - 1)) (occupancy_index (length occupied) key)"

definition is_occupied :: "64 word list \<Rightarrow> 64 word \<Rightarrow> bool option" where
  "is_occupied occupied key = map_option (\<lambda>position. occupied ! position \<noteq> empty_occupancy) (probe occupied key)"

definition occupy :: "64 word list \<Rightarrow> 64 word \<Rightarrow> 64 word list option" where
  "occupy occupied key = map_option (\<lambda>position. occupied[position := key]) (probe occupied key)"


section \<open>The interface of the table\<close>

text \<open>
  What the scheduler relies on: \<open>mem\<close> and \<open>ins\<close> answer and change the set \<open>cells\<close>, for proper keys and as
  long as there is room.
\<close>

locale cell_table =
  fixes ok :: "'t \<Rightarrow> bool" and cells :: "'t \<Rightarrow> 'k set" and room :: "'t \<Rightarrow> nat" and proper :: "'k \<Rightarrow> bool"
    and mem :: "'t \<Rightarrow> 'k \<Rightarrow> bool option" and ins :: "'t \<Rightarrow> 'k \<Rightarrow> 't option"
  assumes mem_law: "ok t \<Longrightarrow> card (cells t) < room t \<Longrightarrow> proper k \<Longrightarrow> mem t k = Some (k \<in> cells t)"
    and ins_law: "ok t \<Longrightarrow> card (cells t) < room t \<Longrightarrow> proper k \<Longrightarrow>
      \<exists>t'. ins t k = Some t' \<and> ok t' \<and> room t' = room t \<and> cells t' = insert k (cells t)"
begin

lemma ins_mem:
  assumes "ok t" and "card (cells t) + 1 < room t" and "proper k" and "proper k'" and "ins t k = Some t'"
  shows "mem t' k' = Some (k' = k \<or> k' \<in> cells t)"
proof -
  have t': "ok t'" "room t' = room t" "cells t' = insert k (cells t)" using ins_law [of t k] assms by auto
  have "card (cells t') < room t'" using t' assms(2) by (cases "finite (cells t)") (simp_all add: card_insert_if)
  then show ?thesis using mem_law [OF t'(1)] assms(4) t'(3) by simp
qed

text \<open>
  A linear search for the first free cell among \<open>key slot\<close>, \<open>key (slot + 1)\<close>, \<dots> ends, and ends at the
  first free one or at the limit.
\<close>

lemma first_free:
  fixes slot latest :: int
  assumes ok: "ok t" and room: "card (cells t) < room t"
    and search: "\<And>slot. search slot = (if slot < latest then
        (case mem t (key slot) of None \<Rightarrow> None | Some b \<Rightarrow> if b then search (slot + 1) else Some slot) else Some slot)"
    and proper: "\<And>s. slot \<le> s \<Longrightarrow> s < latest \<Longrightarrow> proper (key s)"
  shows "\<exists>s. search slot = Some s \<and> slot \<le> s \<and> s \<le> max slot latest \<and> (\<forall>i. slot \<le> i \<and> i < s \<longrightarrow> key i \<in> cells t) \<and>
    (s < latest \<longrightarrow> key s \<notin> cells t)"
  using proper
proof (induction "nat (latest - slot)" arbitrary: slot rule: less_induct)
  case less
  show ?case
  proof (cases "slot < latest \<and> key slot \<in> cells t")
    case True
    then have eq: "search slot = search (slot + 1)" using search [of slot] mem_law [OF ok room less.prems [of slot]] by simp
    have "\<exists>s. search (slot + 1) = Some s \<and> slot + 1 \<le> s \<and> s \<le> max (slot + 1) latest \<and>
        (\<forall>i. slot + 1 \<le> i \<and> i < s \<longrightarrow> key i \<in> cells t) \<and> (s < latest \<longrightarrow> key s \<notin> cells t)"
      by (rule less.hyps) (use True less.prems in auto)
    then obtain s where s: "search (slot + 1) = Some s" "slot + 1 \<le> s" "s \<le> max (slot + 1) latest"
        "\<forall>i. slot + 1 \<le> i \<and> i < s \<longrightarrow> key i \<in> cells t" "s < latest \<longrightarrow> key s \<notin> cells t"
      by blast
    have "key i \<in> cells t" if "slot \<le> i" "i < s" for i
      using that True s(4) by (cases "i = slot") auto
    then show ?thesis using eq s True by auto
  next
    case False
    then show ?thesis using search [of slot] mem_law [OF ok room less.prems [of slot]] by auto
  qed
qed

end

section \<open>The table implements the interface\<close>

text \<open>The \<open>j\<close>-th cell that a search for \<open>key\<close> looks at.\<close>

definition probe_pos :: "64 word list \<Rightarrow> 64 word \<Rightarrow> nat \<Rightarrow> nat" where
  "probe_pos t key j = (occupancy_index (length t) key + j) mod length t"

definition table_cells :: "64 word list \<Rightarrow> 64 word set" where
  "table_cells t = set t - {empty_occupancy}"

definition reaches :: "64 word list \<Rightarrow> 64 word \<Rightarrow> nat \<Rightarrow> bool" where
  "reaches t key p \<longleftrightarrow> (\<exists>j < length t. p = probe_pos t key j \<and>
     (\<forall>i < j. t ! probe_pos t key i \<noteq> empty_occupancy \<and> t ! probe_pos t key i \<noteq> key))"

definition table_ok :: "64 word list \<Rightarrow> bool" where
  "table_ok t \<longleftrightarrow> (\<exists>k. length t = 2 ^ k) \<and> (\<forall>p < length t. t ! p \<noteq> empty_occupancy \<longrightarrow> reaches t (t ! p) p)"

lemma and_mask_mod: "(a::nat) AND (2 ^ k - Suc 0) = a mod 2 ^ k"
  using take_bit_eq_mask [of k a] take_bit_eq_mod [of k a] by (simp add: mask_eq_exp_minus_1)

lemma while_option_first:
  assumes "\<And>i. i < j \<Longrightarrow> P ((step ^^ i) s)" and "\<not> P ((step ^^ j) s)"
  shows "while_option P step s = Some ((step ^^ j) s)"
proof -
  have "(LEAST k. \<not> P ((step ^^ k) s)) = j"
    using assms by (intro Least_equality) (auto simp: not_le [symmetric])
  then show ?thesis using assms(2) by (auto simp: while_option_def)
qed

lemma probe_steps:
  assumes "length t = 2 ^ k"
  shows "((\<lambda>p. (p + 1) AND (length t - 1)) ^^ j) (occupancy_index (length t) key) = probe_pos t key j"
  by (induction j) (simp_all add: assms probe_pos_def occupancy_index_def and_mask_mod mod_Suc_eq)

lemma probe_first:
  assumes "length t = 2 ^ k"
    and "\<And>i. i < j \<Longrightarrow> t ! probe_pos t key i \<noteq> empty_occupancy \<and> t ! probe_pos t key i \<noteq> key"
    and "t ! probe_pos t key j = empty_occupancy \<or> t ! probe_pos t key j = key"
  shows "probe t key = Some (probe_pos t key j)"
proof -
  have "while_option (\<lambda>p. t ! p \<noteq> empty_occupancy \<and> t ! p \<noteq> key) (\<lambda>p. (p + 1) AND (length t - 1))
      (occupancy_index (length t) key) = Some (((\<lambda>p. (p + 1) AND (length t - 1)) ^^ j) (occupancy_index (length t) key))"
    by (rule while_option_first) (use assms(2,3) in \<open>auto simp: probe_steps [OF assms(1)] simp del: One_nat_def\<close>)
  then show ?thesis by (simp add: probe_def probe_steps [OF assms(1)] del: One_nat_def)
qed

lemma reaches_probe: "table_ok t \<Longrightarrow> reaches t key p \<Longrightarrow> t ! p = empty_occupancy \<or> t ! p = key \<Longrightarrow> probe t key = Some p"
  unfolding reaches_def table_ok_def using probe_first by blast

lemma probe_pos_onto:
  assumes "p < length t"
  shows "\<exists>j < length t. p = probe_pos t key j"
proof (intro exI conjI)
  let ?n = "length t" and ?h = "occupancy_index (length t) key"
  show "(p + (?n - ?h mod ?n)) mod ?n < ?n" using assms by (intro mod_less_divisor) linarith
  have "?h mod ?n \<le> ?n" using assms by (intro less_imp_le mod_less_divisor) linarith
  then have "?h mod ?n + (p + (?n - ?h mod ?n)) = p + ?n" by simp
  then show "p = probe_pos t key ((p + (?n - ?h mod ?n)) mod ?n)"
    using assms unfolding probe_pos_def by (metis mod_add_left_eq mod_add_right_eq mod_add_self2 mod_less)
qed

text \<open>With a free cell, every search stops: at the key when the table has it, at a free cell otherwise.\<close>

lemma probe_stops:
  assumes ok: "table_ok t" and free: "empty_occupancy \<in> set t"
  obtains p where "probe t key = Some p" "p < length t" "reaches t key p" "t ! p = empty_occupancy \<or> t ! p = key"
proof -
  let ?stop = "\<lambda>j. j < length t \<and> (t ! probe_pos t key j = empty_occupancy \<or> t ! probe_pos t key j = key)"
  obtain q where "q < length t" "t ! q = empty_occupancy" using free by (auto simp: in_set_conv_nth)
  then have ex: "\<exists>j. ?stop j" using probe_pos_onto [of q t key] by auto
  define j where "j = (LEAST j. ?stop j)"
  have j: "?stop j" unfolding j_def by (rule LeastI_ex [OF ex])
  have before: "\<not> ?stop i" if "i < j" for i using not_less_Least [of i ?stop] that by (auto simp: j_def)
  have "reaches t key (probe_pos t key j)"
    unfolding reaches_def
  proof (intro exI conjI)
    show "\<forall>i<j. t ! probe_pos t key i \<noteq> empty_occupancy \<and> t ! probe_pos t key i \<noteq> key"
      using before j by auto
  qed (use j in auto)
  moreover from this have "probe t key = Some (probe_pos t key j)" using reaches_probe [OF ok] j by blast
  moreover have "probe_pos t key j < length t" unfolding probe_pos_def using j by (intro mod_less_divisor) linarith
  ultimately show ?thesis using j by (blast intro: that)
qed

lemma probe_found:
  assumes ok: "table_ok t" and free: "empty_occupancy \<in> set t" and proper: "key \<noteq> empty_occupancy"
    and p: "probe t key = Some p"
  shows "t ! p = key \<longleftrightarrow> key \<in> table_cells t"
proof
  assume "key \<in> table_cells t"
  then obtain q where q: "q < length t" "t ! q = key" by (auto simp: table_cells_def in_set_conv_nth)
  then have "reaches t key q" using ok proper by (auto simp: table_ok_def)
  then show "t ! p = key" using reaches_probe [OF ok] q p by fastforce
next
  assume "t ! p = key"
  moreover obtain q where "probe t key = Some q" "q < length t" by (rule probe_stops [OF ok free])
  then have "p < length t" using p by simp
  ultimately show "key \<in> table_cells t" using proper by (auto simp: table_cells_def)
qed

lemma reaches_update:
  assumes "reaches t y q" and "q < length t" and "t ! q = y" and "y \<noteq> empty_occupancy"
    and "p < length t" and "t ! p = empty_occupancy" and "x \<noteq> empty_occupancy" and "x \<notin> set t"
  shows "reaches (t[p := x]) y q"
proof -
  from assms(1) obtain j where j: "j < length t" "q = probe_pos t y j"
      "\<forall>i < j. t ! probe_pos t y i \<noteq> empty_occupancy \<and> t ! probe_pos t y i \<noteq> y"
    by (auto simp: reaches_def)
  have pos: "probe_pos (t[p := x]) y i = probe_pos t y i" for i by (simp add: probe_pos_def)
  have "t[p := x] ! probe_pos t y i = t ! probe_pos t y i" if "i < j" for i
    using j(3) that assms(6) by (metis nth_list_update_neq)
  then show ?thesis using j by (auto simp: reaches_def pos)
qed

lemma insert_fresh:
  assumes ok: "table_ok t" and p: "p < length t" "reaches t x p" "t ! p = empty_occupancy"
    and x: "x \<noteq> empty_occupancy" "x \<notin> set t"
  shows "table_ok (t[p := x])"
proof -
  have "reaches (t[p := x]) (t[p := x] ! q) q" if q: "q < length t" "t[p := x] ! q \<noteq> empty_occupancy" for q
  proof (cases "q = p")
    case True
    from p(2) obtain j where j: "j < length t" "p = probe_pos t x j"
        "\<forall>i < j. t ! probe_pos t x i \<noteq> empty_occupancy \<and> t ! probe_pos t x i \<noteq> x"
      by (auto simp: reaches_def)
    have "t[p := x] ! probe_pos t x i = t ! probe_pos t x i" if "i < j" for i
      using j(3) that p(3) by (metis nth_list_update_neq)
    moreover have "probe_pos (t[p := x]) x i = probe_pos t x i" for i by (simp add: probe_pos_def)
    ultimately show ?thesis using True p(1) j by (auto simp: reaches_def)
  next
    case False
    then show ?thesis using q ok p x reaches_update [of t "t ! q" q p x] by (auto simp: table_ok_def)
  qed
  then show ?thesis using ok by (auto simp: table_ok_def)
qed

lemma table_cells_update:
  assumes "p < length t" and "t ! p = empty_occupancy \<or> t ! p = x" and "x \<noteq> empty_occupancy"
  shows "table_cells (t[p := x]) = insert x (table_cells t)"
proof -
  have "set (t[p := x]) \<union> {empty_occupancy} = insert x (set t) \<union> {empty_occupancy}"
  proof -
    have "y \<in> set (t[p := x]) \<union> {empty_occupancy}" if "y \<in> set t" for y
      using that assms by (metis UnCI in_set_conv_nth insertI1 length_list_update nth_list_update)
    then show ?thesis using set_update_subset_insert [of t p x] set_update_memI [OF assms(1), of x] by auto
  qed
  then show ?thesis using assms(3) by (auto simp: table_cells_def)
qed

text \<open>No key is stored twice, so a table with fewer keys than cells has a free cell.\<close>

lemma table_free:
  assumes ok: "table_ok t" and room: "card (table_cells t) < length t"
  shows "empty_occupancy \<in> set t"
proof (rule ccontr)
  assume full: "empty_occupancy \<notin> set t"
  have "distinct t"
  proof (unfold distinct_conv_nth, intro allI impI notI)
    fix p q assume pq: "p < length t" "q < length t" "p \<noteq> q" "t ! p = t ! q"
    then have "reaches t (t ! p) p" "reaches t (t ! p) q" using ok full by (auto simp: table_ok_def in_set_conv_nth)
    then show False using reaches_probe [OF ok] pq by (metis option.inject)
  qed
  then show False using room full by (simp add: table_cells_def distinct_card)
qed

lemma is_occupied_cells:
  assumes "table_ok t" and "card (table_cells t) < length t" and "key \<noteq> empty_occupancy"
  shows "is_occupied t key = Some (key \<in> table_cells t)"
proof -
  note free = table_free [OF assms(1,2)]
  obtain p where p: "probe t key = Some p" "t ! p = empty_occupancy \<or> t ! p = key" by (rule probe_stops [OF assms(1) free])
  then show ?thesis using probe_found [OF assms(1) free assms(3) p(1)] assms(3) by (auto simp: is_occupied_def)
qed

lemma occupy_inserts:
  assumes "table_ok t" and "card (table_cells t) < length t" and "key \<noteq> empty_occupancy"
  shows "\<exists>t'. occupy t key = Some t' \<and> table_ok t' \<and> length t' = length t \<and> table_cells t' = insert key (table_cells t)"
proof -
  note free = table_free [OF assms(1,2)]
  obtain p where p: "probe t key = Some p" "p < length t" "reaches t key p" "t ! p = empty_occupancy \<or> t ! p = key"
    by (rule probe_stops [OF assms(1) free])
  have "table_ok (t[p := key])"
  proof (cases "t ! p = key")
    case True
    then show ?thesis using assms(1) by (metis list_update_id)
  next
    case False
    then have "key \<notin> set t" using probe_found [OF assms(1) free assms(3) p(1)] assms(3) by (auto simp: table_cells_def)
    then show ?thesis using insert_fresh [OF assms(1) p(2,3)] p(4) assms(3) False by auto
  qed
  then show ?thesis using p table_cells_update [OF p(2,4) assms(3)] by (auto simp: occupy_def)
qed

interpretation occ: cell_table table_ok table_cells length "\<lambda>key. key \<noteq> empty_occupancy" is_occupied occupy
  by unfold_locales (simp_all add: is_occupied_cells occupy_inserts)

section \<open>The initial table\<close>

lemma occupancy_capacity_props:
  "\<exists>k. c = 2 ^ k \<Longrightarrow> (\<exists>k. occupancy_capacity n c = 2 ^ k) \<and> 2 * n \<le> occupancy_capacity n c"
proof (induction n c rule: occupancy_capacity.induct)
  case (1 n c)
  show ?case
  proof (cases "0 < c \<and> c < n * 2")
    case True
    from 1(2) obtain k where "c = 2 ^ k" by blast
    then have "\<exists>k. 2 * c = 2 ^ k" by (intro exI [of _ "Suc k"]) simp
    then show ?thesis using 1(1) True by (subst (1 2) occupancy_capacity.simps) simp
  next
    case False
    then show ?thesis using 1(2) by (subst (1 2) occupancy_capacity.simps) auto
  qed
qed

lemma empty_table:
  assumes "0 < n"
  shows "table_ok (replicate (occupancy_capacity n 2) empty_occupancy)"
    "table_cells (replicate (occupancy_capacity n 2) empty_occupancy) = {}"
    "n < occupancy_capacity n 2"
proof -
  have cap: "(\<exists>k. occupancy_capacity n 2 = 2 ^ k) \<and> 2 * n \<le> occupancy_capacity n 2"
    by (rule occupancy_capacity_props) (rule exI [of _ 1], simp)
  then show "table_ok (replicate (occupancy_capacity n 2) empty_occupancy)" by (auto simp: table_ok_def)
  show "table_cells (replicate (occupancy_capacity n 2) empty_occupancy) = {}" by (auto simp: table_cells_def)
  show "n < occupancy_capacity n 2" using cap assms by linarith
qed


text \<open>Many insertions into the initial table, the way a schedule is built.\<close>

fun occupy_all :: "64 word list \<Rightarrow> 64 word list \<Rightarrow> 64 word list option" where
  "occupy_all t [] = Some t"
| "occupy_all t (k # ks) = (case occupy t k of None \<Rightarrow> None | Some t' \<Rightarrow> occupy_all t' ks)"

lemma occupy_all_cells:
  assumes "table_ok t" and "card (table_cells t) + length ks < length t" and "empty_occupancy \<notin> set ks"
  shows "\<exists>t'. occupy_all t ks = Some t' \<and> table_ok t' \<and> length t' = length t \<and> table_cells t' = table_cells t \<union> set ks"
  using assms
proof (induction ks arbitrary: t)
  case (Cons k ks)
  obtain t1 where t1: "occupy t k = Some t1" "table_ok t1" "length t1 = length t" "table_cells t1 = insert k (table_cells t)"
    using occ.ins_law [of t k] Cons.prems by auto
  have "card (table_cells t1) \<le> Suc (card (table_cells t))" by (cases "finite (table_cells t)") (simp_all add: t1(4) card_insert_if)
  then have "\<exists>t'. occupy_all t1 ks = Some t' \<and> table_ok t' \<and> length t' = length t1 \<and> table_cells t' = table_cells t1 \<union> set ks"
    using Cons.prems t1(3) by (intro Cons.IH [OF t1(2)]) auto
  then show ?case using t1 by auto
qed simp

lemma occupy_all_set:
  assumes "0 < n" and "length keys \<le> n" and "empty_occupancy \<notin> set keys"
  shows "\<exists>t. occupy_all (replicate (occupancy_capacity n 2) empty_occupancy) keys = Some t \<and>
    (\<forall>k. k \<noteq> empty_occupancy \<longrightarrow> is_occupied t k = Some (k \<in> set keys))"
proof -
  let ?t = "replicate (occupancy_capacity n 2) empty_occupancy"
  note t0 = empty_table [OF assms(1)]
  have "card (table_cells ?t) + length keys < length ?t" using t0(2,3) assms(2) by simp
  then obtain t where t: "occupy_all ?t keys = Some t" "table_ok t" "length t = length ?t" "table_cells t = set keys"
    using occupy_all_cells [OF t0(1) _ assms(3)] t0(2) by auto
  have "card (table_cells t) < length t" using t t0(3) assms(2) card_length [of keys] by simp
  then show ?thesis using occ.mem_law [OF t(2)] t by auto
qed

end
