(* ===== verification/Native_Numbers.thy ===== *)
theory Native_Numbers
  imports Main
begin

text \<open>
  Numbers of the native kernels. Doubles are a parameter: a type with the operations of the record \<open>fp\<close>,
  about which nothing is assumed. A sum of \<open>long long\<close> or \<open>std::int64_t\<close> values outside \<open>int64_ok\<close> is
  undefined behaviour.
\<close>

record 'd fp =
  fp_of_int :: "int \<Rightarrow> 'd"
  fp_add :: "'d \<Rightarrow> 'd \<Rightarrow> 'd"
  fp_sub :: "'d \<Rightarrow> 'd \<Rightarrow> 'd"
  fp_mul :: "'d \<Rightarrow> 'd \<Rightarrow> 'd"
  fp_div :: "'d \<Rightarrow> 'd \<Rightarrow> 'd"
  fp_lt :: "'d \<Rightarrow> 'd \<Rightarrow> bool"
  fp_le :: "'d \<Rightarrow> 'd \<Rightarrow> bool"
  fp_isfinite :: "'d \<Rightarrow> bool"
  fp_infinity :: 'd
  fp_epsilon :: 'd

definition fp_max :: "'d fp \<Rightarrow> 'd \<Rightarrow> 'd \<Rightarrow> 'd" where
  "fp_max F a b = (if fp_lt F a b then b else a)"

definition fp_min :: "'d fp \<Rightarrow> 'd \<Rightarrow> 'd \<Rightarrow> 'd" where
  "fp_min F a b = (if fp_lt F b a then b else a)"

definition INT64_MAX :: int where
  "INT64_MAX = 9223372036854775807"

definition int64_ok :: "int \<Rightarrow> bool" where
  "int64_ok x \<longleftrightarrow> - INT64_MAX - 1 \<le> x \<and> x \<le> INT64_MAX"

section \<open>Exact numbers\<close>

text \<open>
  What exact arithmetic is: the operations are those of an ordered ring, by the reading \<open>val\<close>. Only theorems
  about sums of costs assume it.
\<close>

definition exact_numbers :: "'d fp \<Rightarrow> ('d \<Rightarrow> 'a::linordered_idom) \<Rightarrow> bool" where
  "exact_numbers F val \<longleftrightarrow> (\<forall>i. val (fp_of_int F i) = of_int i) \<and> (\<forall>x y. val (fp_add F x y) = val x + val y) \<and>
     (\<forall>x y. val (fp_sub F x y) = val x - val y) \<and>
     (\<forall>x y. val (fp_mul F x y) = val x * val y) \<and> (\<forall>x y. fp_lt F x y \<longleftrightarrow> val x < val y)"

lemma exact_numbersD:
  assumes "exact_numbers F val"
  shows "val (fp_of_int F i) = of_int i" "val (fp_add F x y) = val x + val y"
    "val (fp_sub F x y) = val x - val y" "val (fp_mul F x y) = val x * val y"
    "fp_lt F x y \<longleftrightarrow> val x < val y"
  using assms by (simp_all add: exact_numbers_def)

end
