(* ===== verification/Tdm_Slot.thy ===== *)
theory Tdm_Slot
  imports Tdm_Occupancy Native_Numbers "HOL-Library.Product_Lexorder" "HOL-Library.List_Lexorder"
begin

text \<open>
  The TDM slot optimizer (\<open>src/native/tdm_slot_optimizer.cpp\<close>): a list scheduler that assigns every hop
  of a multi-FPGA route a time slot on its physical lane, and a deterministic local search over the
  priorities it uses. The text parser of \<open>read_model\<close> is not modelled: the model starts from the parsed
  records. C++ \<open>int\<close> is \<^typ>\<open>int\<close>, and a sum that leaves the 32-bit range (\<open>int_ok\<close>) is undefined
  behaviour, an explicit outcome of the model. Doubles are a parameter: the type \<open>'d\<close>
  with the operations of the record \<open>fp\<close>.
\<close>

unbundle bit_operations_syntax

section \<open>Data\<close>

record 'd hop =
  h_index :: int
  h_round :: int
  h_domain :: int
  h_lane :: int
  h_ratio :: int
  h_latency :: int
  h_release :: int
  h_priority :: int
  h_base_ns :: 'd
  h_beta_ns :: 'd
  h_slot_period_ns :: 'd
  h_ratio_delay_model :: bool
  h_lane_resource :: int

record dependency =
  d_parent :: int
  d_child :: int
  d_delay :: int

record sink =
  s_route :: int
  s_round :: int
  s_hop :: int

record 'd timing_path =
  p_index :: int
  p_period_ns :: 'd
  p_required_time_ns :: 'd
  p_fixed_ns :: 'd
  p_hops :: "int list"

record 'd model =
  m_frame_slots :: int
  m_runtime_barrier_slots :: int
  m_settle_slots :: int
  m_max_iterations :: int
  m_planned_round_one_ready :: int
  m_positive_scale_ns :: 'd
  m_negative_scale_ns :: 'd
  m_maximum_period_ns :: 'd
  m_hops :: "'d hop list"
  m_dependencies :: "dependency list"
  m_sinks :: "sink list"
  m_paths :: "'d timing_path list"
  m_lane_resource_count :: int

text \<open>A schedule; \<open>feasible\<close> is true for all values of this type.\<close>

record 'd schedule =
  sc_slots :: "int list"
  sc_ready :: "int list"
  sc_round_ready :: "int list"
  sc_route_completion :: "int list"
  sc_worst_normalized_slack :: 'd
  sc_worst_path :: int
  sc_worst_movable_path :: int
  sc_total_negative_normalized_slack :: 'd
  sc_negative_paths :: int
  sc_completion_slot :: int
  sc_total_wait_slots :: int

section \<open>Validation of the input\<close>

text \<open>The part of \<open>read_model\<close> after the loop that reads the records; \<open>Inl\<close> is the exception it throws.\<close>

definition params_ok :: "'d fp \<Rightarrow> 'd model \<Rightarrow> bool" where
  "params_ok F model \<longleftrightarrow> \<not> (m_frame_slots model \<le> 0 \<or> m_runtime_barrier_slots model < 0 \<or> m_settle_slots model < 0 \<or>
     m_max_iterations model < 0 \<or> fp_le F (m_positive_scale_ns model) (fp_of_int F 0) \<or>
     fp_le F (m_negative_scale_ns model) (fp_of_int F 0) \<or> fp_le F (m_maximum_period_ns model) (fp_of_int F 0))"

definition hop_ok :: "'d fp \<Rightarrow> nat \<Rightarrow> 'd hop \<Rightarrow> bool" where
  "hop_ok F index hop \<longleftrightarrow> \<not> (h_index hop \<noteq> int index \<or> h_round hop < 0 \<or> h_domain hop < 0 \<or> h_lane hop < 0 \<or> h_ratio hop \<le> 0 \<or>
     h_latency hop < 0 \<or> h_release hop < 0 \<or> h_priority hop < 0 \<or> \<not> fp_isfinite F (h_slot_period_ns hop) \<or>
     fp_le F (h_slot_period_ns hop) (fp_of_int F 0) \<or> \<not> fp_isfinite F (h_base_ns hop) \<or>
     fp_lt F (h_base_ns hop) (fp_of_int F 0) \<or> \<not> fp_isfinite F (h_beta_ns hop) \<or> fp_lt F (h_beta_ns hop) (fp_of_int F 0))"

fun deps_ok :: "'d hop list \<Rightarrow> (int \<times> int) list \<Rightarrow> dependency list \<Rightarrow> bool" where
  "deps_ok hops dependency_pairs [] = True"
| "deps_ok hops dependency_pairs (dependency # ds) =
    (if d_parent dependency < 0 \<or> d_child dependency < 0 \<or> d_parent dependency \<ge> int (length hops) \<or>
        d_child dependency \<ge> int (length hops) \<or> d_parent dependency = d_child dependency \<or> d_delay dependency < 0 \<or>
        h_round (hops ! nat (d_parent dependency)) \<noteq> h_round (hops ! nat (d_child dependency)) \<or>
        (d_parent dependency, d_child dependency) \<in> set dependency_pairs
     then False
     else deps_ok hops ((d_parent dependency, d_child dependency) # dependency_pairs) ds)"

fun check_paths :: "'d fp \<Rightarrow> nat \<Rightarrow> nat \<Rightarrow> 'd timing_path list \<Rightarrow> string option" where
  "check_paths F n index [] = None"
| "check_paths F n index (path # ps) =
    (if p_index path \<noteq> int index \<or> fp_le F (p_period_ns path) (fp_of_int F 0) \<or>
        fp_le F (p_required_time_ns path) (fp_of_int F 0) \<or> fp_lt F (p_fixed_ns path) (fp_of_int F 0)
     then Some ''invalid timing path record''
     else if list_ex (\<lambda>hop. hop < 0 \<or> hop \<ge> int n) (p_hops path) then Some ''timing path hop is out of range''
     else check_paths F n (Suc index) ps)"

definition lane_resources :: "'d hop list \<Rightarrow> (int \<times> int) list" where
  "lane_resources hops = sort (remdups (map (\<lambda>hop. (h_domain hop, h_lane hop)) hops))"

definition lane_resource_index :: "(int \<times> int) list \<Rightarrow> int \<times> int \<Rightarrow> int" where
  "lane_resource_index resources r = int (length (takeWhile (\<lambda>x. x \<noteq> r) resources))"

definition compact_lanes :: "'d model \<Rightarrow> 'd model" where
  "compact_lanes model =
    (let resources = lane_resources (m_hops model) in
     model\<lparr>m_hops := map (\<lambda>hop. hop\<lparr>h_lane_resource := lane_resource_index resources (h_domain hop, h_lane hop)\<rparr>) (m_hops model),
           m_lane_resource_count := int (length resources)\<rparr>)"

definition check_model :: "'d fp \<Rightarrow> bool \<Rightarrow> 'd model \<Rightarrow> string + 'd model" where
  "check_model F have_parameters model =
    (if \<not> have_parameters \<or> \<not> params_ok F model then Inl ''invalid parameters''
     else
       let model = model\<lparr>m_hops := sort_key h_index (m_hops model), m_paths := sort_key p_index (m_paths model)\<rparr>;
           hops = m_hops model
       in if \<not> list_all (\<lambda>i. hop_ok F i (hops ! i)) [0..<length hops] then Inl ''invalid hop record''
          else if \<not> deps_ok hops [] (m_dependencies model) then Inl ''invalid dependency record''
          else if length (remdups (map h_priority hops)) \<noteq> length hops then Inl ''hop priorities are not unique''
          else case check_paths F (length hops) 0 (m_paths model) of
            Some e \<Rightarrow> Inl e
          | None \<Rightarrow>
              if hops = [] \<or> m_sinks model = [] \<or> m_paths model = [] then Inl ''input model is empty''
              else Inr (compact_lanes model))"

section \<open>The queue of ready hops\<close>

text \<open>
  \<open>std::priority_queue\<close> with the comparison of the source: the top is the hop with the least pair of
  priority and number. The list is the contents of the heap in any order.
\<close>

definition queue_key :: "int list \<Rightarrow> nat \<Rightarrow> int \<times> nat" where
  "queue_key priority i = (priority ! i, i)"

fun queue_top :: "int list \<Rightarrow> nat list \<Rightarrow> nat" where
  "queue_top priority [] = 0"
| "queue_top priority [i] = i"
| "queue_top priority (i # j # q) =
    (let k = queue_top priority (j # q) in if queue_key priority i \<le> queue_key priority k then i else k)"

definition queue_pop :: "int list \<Rightarrow> nat list \<Rightarrow> nat list" where
  "queue_pop priority q = remove1 (queue_top priority q) q"

section \<open>List scheduling\<close>

text \<open>
  \<open>Infeasible\<close> is the early return of \<open>build_schedule\<close> with \<open>feasible\<close> false; \<open>Undefined\<close> an access outside
  a vector, a signed overflow or a loop that does not end: \<open>read_model\<close> does not check the sink records
  and puts no upper bound on any field.
\<close>

definition int_ok :: "int \<Rightarrow> bool" where
  "int_ok x \<longleftrightarrow> - 2147483648 \<le> x \<and> x \<le> 2147483647"

datatype stop = Infeasible | Undefined

record round_state =
  r_slots :: "int list"
  r_ready :: "int list"
  r_occupied :: "64 word list"
  r_remaining :: "int list"
  r_queue :: "nat list"
  r_scheduled :: int

definition children :: "'d model \<Rightarrow> nat \<Rightarrow> (nat \<times> int) list" where
  "children model i = map (\<lambda>d. (nat (d_child d), d_delay d)) (filter (\<lambda>d. d_parent d = int i) (m_dependencies model))"

definition parents :: "'d model \<Rightarrow> nat \<Rightarrow> (nat \<times> int) list" where
  "parents model i = map (\<lambda>d. (nat (d_parent d), d_delay d)) (filter (\<lambda>d. d_child d = int i) (m_dependencies model))"

definition occupancy_key :: "'d model \<Rightarrow> 'd hop \<Rightarrow> int \<Rightarrow> 64 word" where
  "occupancy_key model hop slot =
     word_of_int (h_lane_resource hop) * word_of_int (m_frame_slots model) + word_of_int slot"

function find_slot :: "64 word list \<Rightarrow> (int \<Rightarrow> 64 word) \<Rightarrow> int \<Rightarrow> int \<Rightarrow> int option" where
  "find_slot occupied key slot latest =
    (if slot < latest then
       (case is_occupied occupied (key slot) of
          None \<Rightarrow> None
        | Some b \<Rightarrow> if b then find_slot occupied key (slot + 1) latest else Some slot)
     else Some slot)"
  by pat_completeness auto
termination
  by (relation "measure (\<lambda>(occupied, key, slot, latest). nat (latest - slot))") auto

declare find_slot.simps [simp del]

definition hop_ready :: "'d model \<Rightarrow> int list \<Rightarrow> int \<Rightarrow> nat \<Rightarrow> int" where
  "hop_ready model slots source_ready index =
     fold (\<lambda>(parent, delay) ready. max ready (slots ! parent + h_latency (m_hops model ! parent) + delay))
       (parents model index) (max source_ready (h_release (m_hops model ! index)))"

definition ready_defined :: "'d model \<Rightarrow> int list \<Rightarrow> nat \<Rightarrow> bool" where
  "ready_defined model slots index =
     list_all (\<lambda>(parent, delay). int_ok (slots ! parent + h_latency (m_hops model ! parent)) \<and>
         int_ok (slots ! parent + h_latency (m_hops model ! parent) + delay)) (parents model index)"

definition latest_defined :: "'d model \<Rightarrow> 'd hop \<Rightarrow> int \<Rightarrow> bool" where
  "latest_defined model hop ready \<longleftrightarrow> int_ok (ready + h_ratio hop) \<and>
     int_ok (m_frame_slots model - m_runtime_barrier_slots model) \<and>
     int_ok (m_frame_slots model - m_runtime_barrier_slots model - h_latency hop)"

definition release_child :: "nat \<Rightarrow> int list \<times> nat list \<Rightarrow> int list \<times> nat list" where
  "release_child child = (\<lambda>(remaining, queue).
     let remaining = remaining[child := remaining ! child - 1]
     in (remaining, if remaining ! child = 0 then queue @ [child] else queue))"

definition schedule_hop :: "'d model \<Rightarrow> int list \<Rightarrow> int \<Rightarrow> round_state \<Rightarrow> stop + round_state" where
  "schedule_hop model priority source_ready st =
    (let index = queue_top priority (r_queue st);
         queue = queue_pop priority (r_queue st);
         hop = m_hops model ! index;
         ready = hop_ready model (r_slots st) source_ready index;
         latest = min (ready + h_ratio hop) (m_frame_slots model - m_runtime_barrier_slots model - h_latency hop)
     in if \<not> ready_defined model (r_slots st) index \<or> \<not> latest_defined model hop ready then Inl Undefined
        else case find_slot (r_occupied st) (occupancy_key model hop) ready latest of
          None \<Rightarrow> Inl Undefined
        | Some slot \<Rightarrow>
            if slot \<ge> latest then Inl Infeasible
            else case occupy (r_occupied st) (occupancy_key model hop slot) of
              None \<Rightarrow> Inl Undefined
            | Some occupied \<Rightarrow>
                let (remaining, queue) = fold (\<lambda>(child, delay). release_child child) (children model index) (r_remaining st, queue)
                in Inr \<lparr>r_slots = (r_slots st)[index := slot], r_ready = (r_ready st)[index := ready], r_occupied = occupied,
                        r_remaining = remaining, r_queue = queue, r_scheduled = r_scheduled st + 1\<rparr>)"

definition round_start :: "'d model \<Rightarrow> int \<Rightarrow> int list \<times> nat list \<times> int" where
  "round_start model round =
    fold (\<lambda>i (remaining, queue, expected).
        if h_round (m_hops model ! i) \<noteq> round then (remaining, queue, expected)
        else let n = int (length (parents model i)) in
          (remaining[i := n], if n = 0 then queue @ [i] else queue, expected + 1))
      [0..<length (m_hops model)] (replicate (length (m_hops model)) 0, [], 0)"

definition run_round :: "'d model \<Rightarrow> int list \<Rightarrow> int \<Rightarrow> int \<Rightarrow> int list \<times> int list \<times> 64 word list \<Rightarrow>
    stop + (int list \<times> int list \<times> 64 word list)" where
  "run_round model priority source_ready round = (\<lambda>(slots, ready, occupied).
    let (remaining, queue, expected) = round_start model round in
    case while_option (\<lambda>st. case st of Inl e \<Rightarrow> False | Inr st \<Rightarrow> r_queue st \<noteq> [])
        (\<lambda>st. case st of Inl e \<Rightarrow> Inl e | Inr st \<Rightarrow> schedule_hop model priority source_ready st)
        (Inr \<lparr>r_slots = slots, r_ready = ready, r_occupied = occupied, r_remaining = remaining, r_queue = queue, r_scheduled = 0\<rparr>) of
      None \<Rightarrow> Inl Undefined
    | Some (Inl e) \<Rightarrow> Inl e
    | Some (Inr st) \<Rightarrow>
        if r_scheduled st \<noteq> expected then Inl Infeasible else Inr (r_slots st, r_ready st, r_occupied st))"

text \<open>The two loops over the sinks around a round.\<close>

definition prior_completion :: "'d model \<Rightarrow> int list \<Rightarrow> int \<Rightarrow> int option" where
  "prior_completion model route_completion round =
    (if list_ex (\<lambda>s. s_round s < round \<and> s_route s < 0) (m_sinks model) then None
     else Some (fold (\<lambda>s c. if s_round s < round then max c (route_completion ! nat (s_route s)) else c) (m_sinks model) (-1)))"

definition complete_routes :: "'d model \<Rightarrow> int list \<Rightarrow> int \<Rightarrow> int list \<Rightarrow> int list option" where
  "complete_routes model slots round route_completion =
    (if list_ex (\<lambda>s. s_round s = round \<and> (s_route s < 0 \<or> s_hop s < 0 \<or> s_hop s \<ge> int (length slots) \<or>
          \<not> int_ok (slots ! nat (s_hop s) + h_latency (m_hops model ! nat (s_hop s))))) (m_sinks model) then None
     else Some (fold (\<lambda>s c. if s_round s \<noteq> round then c
       else let arrival = slots ! nat (s_hop s) + h_latency (m_hops model ! nat (s_hop s))
            in c[nat (s_route s) := max (c ! nat (s_route s)) arrival]) (m_sinks model) route_completion))"

record build_state =
  b_slots :: "int list"
  b_ready :: "int list"
  b_occupied :: "64 word list"
  b_round_ready :: "int list"
  b_route_completion :: "int list"

definition source_ready_of :: "'d model \<Rightarrow> int list \<Rightarrow> nat \<Rightarrow> stop + int" where
  "source_ready_of model route_completion round =
    (if round = 0 then Inr 0
     else case prior_completion model route_completion (int round) of
       None \<Rightarrow> Inl Undefined
     | Some c \<Rightarrow> if c < 0 then Inl Infeasible
         else if \<not> int_ok (c + m_settle_slots model) then Inl Undefined
         else Inr (c + m_settle_slots model))"

definition build_round :: "'d model \<Rightarrow> int list \<Rightarrow> nat \<Rightarrow> build_state \<Rightarrow> stop + build_state" where
  "build_round model priority round st =
    (case source_ready_of model (b_route_completion st) round of
       Inl e \<Rightarrow> Inl e
     | Inr source_ready \<Rightarrow>
       if round = 1 \<and> m_planned_round_one_ready model \<ge> 0 \<and> source_ready > m_planned_round_one_ready model then Inl Infeasible
       else case run_round model priority source_ready (int round) (b_slots st, b_ready st, b_occupied st) of
         Inl e \<Rightarrow> Inl e
       | Inr (slots, ready, occupied) \<Rightarrow>
         (case complete_routes model slots (int round) (b_route_completion st) of
            None \<Rightarrow> Inl Undefined
          | Some route_completion \<Rightarrow>
              Inr \<lparr>b_slots = slots, b_ready = ready, b_occupied = occupied,
                b_round_ready = (b_round_ready st)[round := source_ready], b_route_completion = route_completion\<rparr>))"

fun build_rounds :: "'d model \<Rightarrow> int list \<Rightarrow> nat list \<Rightarrow> build_state \<Rightarrow> stop + build_state" where
  "build_rounds model priority [] st = Inr st"
| "build_rounds model priority (round # rounds) st =
    (case build_round model priority round st of Inl e \<Rightarrow> Inl e | Inr st \<Rightarrow> build_rounds model priority rounds st)"

definition maximum_round :: "'d model \<Rightarrow> int" where
  "maximum_round model = fold (\<lambda>hop m. max m (h_round hop)) (m_hops model) 0"

definition maximum_route :: "'d model \<Rightarrow> int" where
  "maximum_route model = fold (\<lambda>sink m. max m (s_route sink)) (m_sinks model) 0"

definition build_start :: "'d model \<Rightarrow> build_state" where
  "build_start model =
    (let hop_count = length (m_hops model) in
     \<lparr>b_slots = replicate hop_count (-1), b_ready = replicate hop_count (-1),
      b_occupied = replicate (occupancy_capacity hop_count 2) empty_occupancy,
      b_round_ready = replicate (nat (maximum_round model + 1)) (-1),
      b_route_completion = replicate (nat (maximum_route model + 1)) (-1)\<rparr>)"

section \<open>Timing of a schedule\<close>

definition normalized_slack :: "'d fp \<Rightarrow> 'd model \<Rightarrow> 'd \<Rightarrow> 'd \<Rightarrow> 'd" where
  "normalized_slack F model period slack =
    (if fp_le F (fp_of_int F 0) slack
     then fp_div F (fp_mul F slack period) (fp_mul F (m_positive_scale_ns model) (m_maximum_period_ns model))
     else fp_div F slack (fp_mul F (m_negative_scale_ns model) period))"

definition first_slot_by_round_lane :: "'d model \<Rightarrow> int list \<Rightarrow> int \<times> int \<Rightarrow> int option" where
  "first_slot_by_round_lane model slots =
    fold (\<lambda>i first. let hop = m_hops model ! i; key = (h_round hop, h_lane_resource hop) in
        case first key of
          None \<Rightarrow> first(key := Some (slots ! i))
        | Some s \<Rightarrow> if slots ! i < s then first(key := Some (slots ! i)) else first)
      [0..<length (m_hops model)] (\<lambda>_. None)"

definition transport_arrival :: "'d fp \<Rightarrow> 'd model \<Rightarrow> int list \<Rightarrow> int list \<Rightarrow> 'd" where
  "transport_arrival F model slots hops =
    fold (\<lambda>index arrival. let hop = m_hops model ! nat index in
        if h_ratio_delay_model hop
        then fp_add F arrival (fp_add F (h_base_ns hop) (fp_mul F (h_beta_ns hop) (fp_of_int F (h_ratio hop - 1))))
        else let tx_time = fp_mul F (h_slot_period_ns hop) (fp_of_int F (slots ! nat index))
             in fp_add F (fp_max F arrival tx_time) (h_base_ns hop))
      hops (fp_of_int F 0)"

definition has_preceding_blocker :: "'d model \<Rightarrow> int list \<Rightarrow> int list \<Rightarrow> bool" where
  "has_preceding_blocker model slots hops =
    list_ex (\<lambda>index. let hop = m_hops model ! nat index in
        case first_slot_by_round_lane model slots (h_round hop, h_lane_resource hop) of
          None \<Rightarrow> False | Some s \<Rightarrow> slots ! nat index > s) hops"

text \<open>The accumulated metrics: worst slack and its path, the same over movable paths, total negative slack, count.\<close>

definition path_metrics :: "'d fp \<Rightarrow> 'd model \<Rightarrow> int list \<Rightarrow> 'd timing_path \<Rightarrow>
    'd \<times> int \<times> 'd \<times> int \<times> 'd \<times> int \<Rightarrow> 'd \<times> int \<times> 'd \<times> int \<times> 'd \<times> int" where
  "path_metrics F model slots path = (\<lambda>(worst, worst_path, movable, movable_path, total, negative).
    let delay = fp_add F (p_fixed_ns path) (transport_arrival F model slots (p_hops path));
        slack = fp_sub F (p_required_time_ns path) delay;
        normalized = normalized_slack F model (p_period_ns path) slack;
        (worst, worst_path) = (if fp_lt F normalized worst then (normalized, p_index path) else (worst, worst_path));
        (movable, movable_path) =
          (if has_preceding_blocker model slots (p_hops path) \<and> fp_lt F normalized movable
           then (normalized, p_index path) else (movable, movable_path));
        total = fp_add F total (fp_min F (fp_of_int F 0) normalized);
        negative = (if fp_lt F normalized (fp_of_int F 0) then negative + 1 else negative)
    in (worst, worst_path, movable, movable_path, total, negative))"

definition finish_schedule :: "'d fp \<Rightarrow> 'd model \<Rightarrow> build_state \<Rightarrow> 'd schedule" where
  "finish_schedule F model st =
    (let slots = b_slots st;
         (worst, worst_path, movable, movable_path, total, negative) =
           fold (path_metrics F model slots) (m_paths model) (fp_infinity F, -1, fp_infinity F, -1, fp_of_int F 0, 0)
     in \<lparr>sc_slots = slots, sc_ready = b_ready st, sc_round_ready = b_round_ready st,
         sc_route_completion = b_route_completion st, sc_worst_normalized_slack = worst, sc_worst_path = worst_path,
         sc_worst_movable_path = movable_path, sc_total_negative_normalized_slack = total, sc_negative_paths = negative,
         sc_completion_slot = fold max (tl (b_route_completion st)) (hd (b_route_completion st)),
         sc_total_wait_slots = sum_list (map (\<lambda>i. slots ! i - b_ready st ! i) [0..<length (m_hops model)])\<rparr>)"

definition build_schedule :: "'d fp \<Rightarrow> 'd model \<Rightarrow> int list \<Rightarrow> stop + 'd schedule" where
  "build_schedule F model priority =
    (if \<not> int_ok (maximum_round model + 1) \<or> \<not> int_ok (maximum_route model + 1) then Inl Undefined
     else case build_rounds model priority [0..<nat (maximum_round model + 1)] (build_start model) of
       Inl e \<Rightarrow> Inl e
     | Inr st \<Rightarrow> Inr (finish_schedule F model st))"

section \<open>Local search\<close>

definition better :: "'d fp \<Rightarrow> 'd schedule \<Rightarrow> 'd schedule \<Rightarrow> bool" where
  "better F left right =
    (if fp_lt F (fp_add F (sc_worst_normalized_slack right) (fp_epsilon F)) (sc_worst_normalized_slack left) then True
     else if fp_lt F (fp_add F (sc_worst_normalized_slack left) (fp_epsilon F)) (sc_worst_normalized_slack right) then False
     else if fp_lt F (fp_add F (sc_total_negative_normalized_slack right) (fp_epsilon F)) (sc_total_negative_normalized_slack left) then True
     else if fp_lt F (fp_add F (sc_total_negative_normalized_slack left) (fp_epsilon F)) (sc_total_negative_normalized_slack right) then False
     else if sc_negative_paths left \<noteq> sc_negative_paths right then sc_negative_paths left < sc_negative_paths right
     else if sc_completion_slot left \<noteq> sc_completion_slot right then sc_completion_slot left < sc_completion_slot right
     else if sc_total_wait_slots left \<noteq> sc_total_wait_slots right then sc_total_wait_slots left < sc_total_wait_slots right
     else sc_slots left < sc_slots right)"

text \<open>The hops on the lane of \<open>critical\<close>, in the same round, with an earlier slot.\<close>

definition earlier_on_lane :: "'d model \<Rightarrow> int list \<Rightarrow> nat \<Rightarrow> nat list" where
  "earlier_on_lane model slots critical =
    (let c = m_hops model ! critical in
     filter (\<lambda>i. let other = m_hops model ! i in
        \<not> (i = critical \<or> h_round other \<noteq> h_round c \<or> h_domain other \<noteq> h_domain c \<or> h_lane other \<noteq> h_lane c \<or>
           slots ! i \<ge> slots ! critical)) [0..<length (m_hops model)])"

definition nearest_blocker :: "'d model \<Rightarrow> int list \<Rightarrow> nat \<Rightarrow> nat option" where
  "nearest_blocker model slots critical =
    fst (fold (\<lambda>i (nearest, nearest_slot). if slots ! i > nearest_slot then (Some i, slots ! i) else (nearest, nearest_slot))
      (earlier_on_lane model slots critical) (None, -1))"

definition swap_candidates :: "'d model \<Rightarrow> int list \<Rightarrow> nat list \<Rightarrow> (nat \<times> nat) list" where
  "swap_candidates model slots hops =
    sort (remdups (concat (map (\<lambda>critical. case nearest_blocker model slots critical of
       None \<Rightarrow> [] | Some b \<Rightarrow> [(min critical b, max critical b)]) hops)))"

definition neighborhood :: "'d model \<Rightarrow> int list \<Rightarrow> nat \<Rightarrow> nat list" where
  "neighborhood model slots critical =
    (let blockers = sort (map (\<lambda>i. (slots ! i, i)) (earlier_on_lane model slots critical))
     in sort (critical # map snd (drop (length blockers - 3) blockers)))"

text \<open>\<open>std::next_permutation\<close> from the sorted arrangement: all arrangements in lexicographic order.\<close>

function permutations_lex :: "'a list \<Rightarrow> 'a list list" where
  "permutations_lex [] = [[]]"
| "permutations_lex (x # xs) =
     concat (map (\<lambda>y. map ((#) y) (permutations_lex (remove1 y (x # xs)))) (x # xs))"
  by pat_completeness auto
termination
  by (relation "measure length") (auto simp: length_remove1 dest: length_pos_if_in_set)

definition swap_priority :: "nat \<times> nat \<Rightarrow> int list \<Rightarrow> int list" where
  "swap_priority move priority =
    priority[fst move := priority ! snd move, snd move := priority ! fst move]"

definition assign_ranks :: "nat list \<Rightarrow> int list \<Rightarrow> int list \<Rightarrow> int list" where
  "assign_ranks permutation ranks priority =
     fold (\<lambda>(hop, rank) priority. priority[hop := rank]) (zip permutation ranks) priority"

text \<open>The counters only grow; \<open>None\<close> is an undefined schedule or a counter that leaves the range of \<open>int\<close>.\<close>

record 'd search_state =
  ss_best :: "'d schedule"
  ss_best_priority :: "int list"
  ss_evaluated_moves :: nat
  ss_lns_neighborhoods :: nat
  ss_lns_evaluated_orders :: nat

definition evaluate :: "'d fp \<Rightarrow> 'd model \<Rightarrow> int list \<Rightarrow> 'd search_state \<Rightarrow> 'd search_state option" where
  "evaluate F model candidate_priority st =
    (let st = st\<lparr>ss_evaluated_moves := ss_evaluated_moves st + 1\<rparr> in
     if \<not> int_ok (int (ss_evaluated_moves st)) then None
     else case build_schedule F model candidate_priority of
       Inl Undefined \<Rightarrow> None
     | Inl Infeasible \<Rightarrow> Some st
     | Inr candidate \<Rightarrow>
         Some (if better F candidate (ss_best st)
               then st\<lparr>ss_best := candidate, ss_best_priority := candidate_priority\<rparr> else st))"

fun evaluate_all :: "'d fp \<Rightarrow> 'd model \<Rightarrow> int list list \<Rightarrow> 'd search_state \<Rightarrow> 'd search_state option" where
  "evaluate_all F model [] st = Some st"
| "evaluate_all F model (p # ps) st =
    (case evaluate F model p st of None \<Rightarrow> None | Some st \<Rightarrow> evaluate_all F model ps st)"

definition lns_orders :: "int list \<Rightarrow> nat list \<Rightarrow> int list list" where
  "lns_orders priority hops =
    (let ranks = sort (map (\<lambda>hop. priority ! hop) hops) in
     map (\<lambda>permutation. assign_ranks permutation ranks priority)
       (filter (\<lambda>permutation. map (\<lambda>hop. priority ! hop) permutation \<noteq> ranks) (permutations_lex hops)))"

definition lns_step :: "'d fp \<Rightarrow> 'd model \<Rightarrow> int list \<Rightarrow> int list \<Rightarrow> nat \<Rightarrow> 'd search_state \<Rightarrow> 'd search_state option" where
  "lns_step F model priority slots critical st =
    (let hops = neighborhood model slots critical in
     if length hops < 2 then Some st
     else
       let orders = lns_orders priority hops;
           st = st\<lparr>ss_lns_neighborhoods := ss_lns_neighborhoods st + 1,
             ss_lns_evaluated_orders := ss_lns_evaluated_orders st + length orders\<rparr>
       in if \<not> int_ok (int (ss_lns_neighborhoods st)) \<or> \<not> int_ok (int (ss_lns_evaluated_orders st)) then None
          else evaluate_all F model orders st)"

fun lns_all :: "'d fp \<Rightarrow> 'd model \<Rightarrow> int list \<Rightarrow> int list \<Rightarrow> nat list \<Rightarrow> 'd search_state \<Rightarrow> 'd search_state option" where
  "lns_all F model priority slots [] st = Some st"
| "lns_all F model priority slots (critical # cs) st =
    (case lns_step F model priority slots critical st of None \<Rightarrow> None | Some st \<Rightarrow> lns_all F model priority slots cs st)"

record 'd optimization_result =
  o_schedule :: "'d schedule"
  o_iterations :: nat
  o_accepted_moves :: nat
  o_evaluated_moves :: nat
  o_lns_neighborhoods :: nat
  o_lns_evaluated_orders :: nat

definition search_step :: "'d fp \<Rightarrow> 'd model \<Rightarrow> int list \<Rightarrow> 'd optimization_result \<Rightarrow> 'd search_state option" where
  "search_step F model priority res =
    (let slots = sc_slots (o_schedule res);
         worst = map nat (p_hops (m_paths model ! nat (sc_worst_movable_path (o_schedule res))));
         moves = map (\<lambda>move. swap_priority move priority) (swap_candidates model slots worst);
         st = \<lparr>ss_best = o_schedule res, ss_best_priority = [], ss_evaluated_moves = o_evaluated_moves res,
               ss_lns_neighborhoods = o_lns_neighborhoods res, ss_lns_evaluated_orders = o_lns_evaluated_orders res\<rparr>
     in case evaluate_all F model moves st of
          None \<Rightarrow> None
        | Some st \<Rightarrow> lns_all F model priority slots worst st)"

fun optimize_loop :: "'d fp \<Rightarrow> 'd model \<Rightarrow> nat \<Rightarrow> int list \<Rightarrow> 'd optimization_result \<Rightarrow> 'd optimization_result option" where
  "optimize_loop F model 0 priority res = Some res"
| "optimize_loop F model (Suc n) priority res =
    (let res = res\<lparr>o_iterations := o_iterations res + 1\<rparr> in
     if sc_worst_movable_path (o_schedule res) < 0 then Some res
     else case search_step F model priority res of
       None \<Rightarrow> None
     | Some st \<Rightarrow>
         let res = res\<lparr>o_evaluated_moves := ss_evaluated_moves st, o_lns_neighborhoods := ss_lns_neighborhoods st,
               o_lns_evaluated_orders := ss_lns_evaluated_orders st\<rparr>
         in if ss_best_priority st = [] then Some res
            else optimize_loop F model n (ss_best_priority st)
              (res\<lparr>o_schedule := ss_best st, o_accepted_moves := o_accepted_moves res + 1\<rparr>))"

text \<open>
  \<open>optimize\<close>: \<open>None\<close> is undefined behaviour, \<open>Inl\<close> the exception. The counts of iterations and of accepted moves
  are at most \<open>max_iterations\<close>, an \<open>int\<close>, and need no check.
\<close>

definition optimize :: "'d fp \<Rightarrow> 'd model \<Rightarrow> (string + 'd optimization_result) option" where
  "optimize F model =
    (let priority = map h_priority (m_hops model) in
     case build_schedule F model priority of
       Inl Undefined \<Rightarrow> None
     | Inl Infeasible \<Rightarrow> Some (Inl ''initial list schedule is infeasible'')
     | Inr s \<Rightarrow> map_option Inr (optimize_loop F model (nat (m_max_iterations model)) priority
         \<lparr>o_schedule = s, o_iterations = 0, o_accepted_moves = 0, o_evaluated_moves = 0,
          o_lns_neighborhoods = 0, o_lns_evaluated_orders = 0\<rparr>))"

end
