(* ===== verification/Tdm_SlotProofs.thy ===== *)
theory Tdm_SlotProofs
  imports Tdm_Slot
begin

text \<open>
  Correctness of the TDM list scheduler and of its local search: the input check establishes \<open>model_wf\<close>,
  every scheduled hop is placed in the first free slot of its lane at or after the moment it is ready,
  the loops end, and the search only moves between feasible schedules.
\<close>

section \<open>Well-formed models\<close>

abbreviation hop_count :: "'d model \<Rightarrow> nat" where
  "hop_count model \<equiv> length (m_hops model)"

definition hop_wf :: "'d model \<Rightarrow> nat \<Rightarrow> bool" where
  "hop_wf model i \<longleftrightarrow> (let hop = m_hops model ! i in
     h_index hop = int i \<and> 0 \<le> h_round hop \<and> 0 < h_ratio hop \<and> 0 \<le> h_latency hop \<and> 0 \<le> h_release hop \<and>
     0 \<le> h_lane_resource hop \<and> h_lane_resource hop < m_lane_resource_count model)"

definition dep_wf :: "'d model \<Rightarrow> dependency \<Rightarrow> bool" where
  "dep_wf model d \<longleftrightarrow> 0 \<le> d_parent d \<and> d_parent d < int (hop_count model) \<and> 0 \<le> d_child d \<and>
     d_child d < int (hop_count model) \<and> d_parent d \<noteq> d_child d \<and> 0 \<le> d_delay d \<and>
     h_round (m_hops model ! nat (d_parent d)) = h_round (m_hops model ! nat (d_child d))"

text \<open>Two hops get the same resource number exactly when they use the same lane of the same domain.\<close>

definition lanes_wf :: "'d model \<Rightarrow> bool" where
  "lanes_wf model \<longleftrightarrow> m_lane_resource_count model \<le> int (hop_count model) \<and>
     (\<forall>a \<in> set (m_hops model). \<forall>b \<in> set (m_hops model).
        h_lane_resource a = h_lane_resource b \<longleftrightarrow> h_domain a = h_domain b \<and> h_lane a = h_lane b)"

definition path_wf :: "'d model \<Rightarrow> 'd timing_path \<Rightarrow> bool" where
  "path_wf model p \<longleftrightarrow> (\<forall>h \<in> set (p_hops p). 0 \<le> h \<and> h < int (hop_count model))"

definition model_wf :: "'d model \<Rightarrow> bool" where
  "model_wf model \<longleftrightarrow> 0 < m_frame_slots model \<and> 0 \<le> m_runtime_barrier_slots model \<and> 0 \<le> m_settle_slots model \<and>
     0 \<le> m_max_iterations model \<and> m_hops model \<noteq> [] \<and> m_sinks model \<noteq> [] \<and> m_paths model \<noteq> [] \<and>
     list_all (hop_wf model) [0..<hop_count model] \<and> list_all (dep_wf model) (m_dependencies model) \<and>
     distinct (map (\<lambda>d. (d_parent d, d_child d)) (m_dependencies model)) \<and> distinct (map h_priority (m_hops model)) \<and>
     lanes_wf model \<and> map p_index (m_paths model) = map int [0..<length (m_paths model)] \<and>
     list_all (path_wf model) (m_paths model)"

lemma deps_ok_sound:
  "deps_ok hops seen ds \<Longrightarrow>
    (\<forall>d \<in> set ds. 0 \<le> d_parent d \<and> d_parent d < int (length hops) \<and> 0 \<le> d_child d \<and> d_child d < int (length hops) \<and>
       d_parent d \<noteq> d_child d \<and> 0 \<le> d_delay d \<and> h_round (hops ! nat (d_parent d)) = h_round (hops ! nat (d_child d))) \<and>
    distinct (map (\<lambda>d. (d_parent d, d_child d)) ds) \<and> (\<forall>d \<in> set ds. (d_parent d, d_child d) \<notin> set seen)"
proof (induction ds arbitrary: seen)
  case (Cons d ds)
  from Cons.prems have d: "0 \<le> d_parent d \<and> d_parent d < int (length hops) \<and> 0 \<le> d_child d \<and>
      d_child d < int (length hops) \<and> d_parent d \<noteq> d_child d \<and> 0 \<le> d_delay d \<and>
      h_round (hops ! nat (d_parent d)) = h_round (hops ! nat (d_child d)) \<and> (d_parent d, d_child d) \<notin> set seen"
    and ds: "deps_ok hops ((d_parent d, d_child d) # seen) ds"
    by (simp_all only: deps_ok.simps split: if_splits) linarith
  from Cons.IH [OF ds] d show ?case by fastforce
qed simp

lemma check_paths_sound:
  "check_paths F n k ps = None \<Longrightarrow> map p_index ps = map int [k..<k + length ps] \<and>
    (\<forall>p \<in> set ps. \<forall>h \<in> set (p_hops p). 0 \<le> h \<and> h < int n)"
proof (induction F n k ps rule: check_paths.induct)
  case (2 F n k path ps)
  have "[k..<k + length (path # ps)] = k # [Suc k..<Suc k + length ps]" by (simp add: upt_conv_Cons del: upt_Suc)
  moreover from 2(2) have "p_index path = int k" "\<forall>h \<in> set (p_hops path). 0 \<le> h \<and> h < int n"
      "check_paths F n (Suc k) ps = None"
    by (auto simp: list_ex_iff split: if_splits)
  ultimately show ?case using 2(1,2) by (auto simp del: upt_Suc check_paths.simps simp: check_paths.simps(2) [of F n k path ps] split: if_splits)
qed simp

lemma lane_resource_index_less: "r \<in> set rs \<Longrightarrow> lane_resource_index rs r < int (length rs)"
  by (induction rs) (auto simp: lane_resource_index_def)

lemma lane_resource_index_nth: "r \<in> set rs \<Longrightarrow> rs ! nat (lane_resource_index rs r) = r"
  using nth_length_takeWhile [of "\<lambda>x. x \<noteq> r" rs] lane_resource_index_less [of r rs]
  by (simp add: lane_resource_index_def)

lemma lane_resource_index_inj:
  "r \<in> set rs \<Longrightarrow> s \<in> set rs \<Longrightarrow> lane_resource_index rs r = lane_resource_index rs s \<longleftrightarrow> r = s"
  by (metis lane_resource_index_nth)

lemma compact_lanes_wf: "lanes_wf (compact_lanes model)"
proof -
  have "length (lane_resources (m_hops model)) \<le> length (m_hops model)"
    using length_remdups_leq [of "map (\<lambda>hop. (h_domain hop, h_lane hop)) (m_hops model)"] by (simp add: lane_resources_def)
  moreover have "set (lane_resources (m_hops model)) = (\<lambda>hop. (h_domain hop, h_lane hop)) ` set (m_hops model)"
    by (simp add: lane_resources_def)
  ultimately show ?thesis by (auto simp: lanes_wf_def compact_lanes_def Let_def lane_resource_index_inj)
qed

lemma compact_lanes_hop:
  assumes "hop_ok F i (m_hops model ! i)" and "i < hop_count model"
  shows "hop_wf (compact_lanes model) i"
proof -
  let ?h = "m_hops model ! i"
  have "(h_domain ?h, h_lane ?h) \<in> set (lane_resources (m_hops model))" using assms(2) by (simp add: lane_resources_def)
  from lane_resource_index_less [OF this] show ?thesis
    using assms by (auto simp: hop_wf_def hop_ok_def compact_lanes_def Let_def) (simp add: lane_resource_index_def)
qed

theorem check_model_wf:
  assumes "check_model F have_parameters raw = Inr model"
  shows "model_wf model"
proof -
  define m where "m = raw\<lparr>m_hops := sort_key h_index (m_hops raw), m_paths := sort_key p_index (m_paths raw)\<rparr>"
  from assms have params: "params_ok F raw" and hops: "list_all (\<lambda>i. hop_ok F i (m_hops m ! i)) [0..<hop_count m]"
    and deps: "deps_ok (m_hops m) [] (m_dependencies m)" and prio: "length (remdups (map h_priority (m_hops m))) = hop_count m"
    and paths: "check_paths F (hop_count m) 0 (m_paths m) = None"
    and ne: "m_hops m \<noteq> []" "m_sinks m \<noteq> []" "m_paths m \<noteq> []" and model: "model = compact_lanes m"
    by (auto simp: check_model_def Let_def m_def split: if_splits option.splits)
  have same: "hop_count model = hop_count m" "m_dependencies model = m_dependencies m" "m_paths model = m_paths m"
      "m_sinks model = m_sinks m" "\<And>i. i < hop_count m \<Longrightarrow> h_round (m_hops model ! i) = h_round (m_hops m ! i)"
      "map h_priority (m_hops model) = map h_priority (m_hops m)"
    by (simp_all add: model compact_lanes_def Let_def comp_def)
  have "list_all (hop_wf model) [0..<hop_count model]"
    using hops compact_lanes_hop [of F _ m] by (auto simp: list_all_iff model same(1) [unfolded model])
  moreover have "list_all (dep_wf model) (m_dependencies model)"
    using deps_ok_sound [OF deps] same by (auto simp: list_all_iff dep_wf_def nat_less_iff)
  moreover have "distinct (map h_priority (m_hops model))"
    using prio same(6) by (metis length_map length_remdups_eq remdups_id_iff_distinct)
  moreover have "m_frame_slots model = m_frame_slots raw" "m_runtime_barrier_slots model = m_runtime_barrier_slots raw"
      "m_settle_slots model = m_settle_slots raw" "m_max_iterations model = m_max_iterations raw"
    by (simp_all add: model m_def compact_lanes_def Let_def)
  ultimately show ?thesis
    using params ne deps_ok_sound [OF deps] check_paths_sound [OF paths] same compact_lanes_wf [of m]
    by (auto simp: model_wf_def params_ok_def model [symmetric] list_all_iff path_wf_def)
qed

section \<open>The queue\<close>

lemma queue_top_least:
  "q \<noteq> [] \<Longrightarrow> queue_top priority q \<in> set q \<and> (\<forall>i \<in> set q. queue_key priority (queue_top priority q) \<le> queue_key priority i)"
proof (induction priority q rule: queue_top.induct)
  case (3 priority i j q)
  then show ?case by (auto simp: Let_def)
qed auto

lemma queue_pop_set: "distinct q \<Longrightarrow> distinct (queue_pop priority q) \<and> set (queue_pop priority q) = set q - {queue_top priority q}"
  by (simp add: queue_pop_def)

lemma release_children:
  assumes "distinct (map fst cs)" and "\<forall>c \<in> fst ` set cs. c < length remaining"
  shows "fold (\<lambda>(child, delay). release_child child) cs (remaining, queue) =
    (map (\<lambda>i. if i \<in> fst ` set cs then remaining ! i - 1 else remaining ! i) [0..<length remaining],
     queue @ filter (\<lambda>c. remaining ! c = 1) (map fst cs))"
  using assms
proof (induction cs arbitrary: remaining queue)
  case Nil
  then show ?case by (simp add: map_nth)
next
  case (Cons cd cs)
  obtain c d where [simp]: "cd = (c, d)" by (cases cd)
  let ?r = "remaining[c := remaining ! c - 1]"
  have c: "c < length remaining" "c \<notin> fst ` set cs" using Cons.prems by auto
  have "filter (\<lambda>x. ?r ! x = 1) (map fst cs) = filter (\<lambda>x. remaining ! x = 1) (map fst cs)"
    using c by (intro filter_cong) (auto simp: nth_list_update)
  then have "fold (\<lambda>(child, delay). release_child child) cs (?r, q) =
      (map (\<lambda>i. if i \<in> fst ` set cs then ?r ! i - 1 else ?r ! i) [0..<length remaining],
       q @ filter (\<lambda>c. remaining ! c = 1) (map fst cs))" for q
    using Cons.IH [of ?r q] Cons.prems by simp
  moreover have "map (\<lambda>i. if i \<in> fst ` set cs then ?r ! i - 1 else ?r ! i) [0..<length remaining] =
      map (\<lambda>i. if i \<in> fst ` set (cd # cs) then remaining ! i - 1 else remaining ! i) [0..<length remaining]"
    using c by (intro map_cong) (auto simp: nth_list_update)
  ultimately show ?case using c by (auto simp: release_child_def Let_def)
qed

section \<open>Dependencies\<close>

lemma model_wf_hop: "model_wf model \<Longrightarrow> i < hop_count model \<Longrightarrow> hop_wf model i"
  by (simp add: model_wf_def list_all_iff)

lemma model_wf_dep: "model_wf model \<Longrightarrow> d \<in> set (m_dependencies model) \<Longrightarrow> dep_wf model d"
  by (simp add: model_wf_def list_all_iff)

lemma distinct_map_filter_proj:
  assumes "distinct (map (\<lambda>d. (f d, g d)) ds)" and "\<forall>d \<in> set ds. P d \<longrightarrow> f d = a"
  shows "distinct (map g (filter P ds))"
  using assms by (auto simp: distinct_map inj_on_def)

lemma parents_distinct:
  assumes "model_wf model"
  shows "distinct (map fst (parents model i))" "distinct (map fst (children model i))"
proof -
  let ?ds = "m_dependencies model"
  have nn: "inj_on nat (d_parent ` set ?ds)" "inj_on nat (d_child ` set ?ds)"
    using model_wf_dep [OF assms] unfolding inj_on_def dep_wf_def by (auto simp: eq_nat_nat_iff)
  have dist: "distinct (map (\<lambda>d. (d_parent d, d_child d)) ?ds)" using assms by (simp add: model_wf_def)
  then have swap: "distinct (map (\<lambda>d. (d_child d, d_parent d)) ?ds)" by (auto simp: distinct_map inj_on_def)
  have "distinct (map d_parent (filter (\<lambda>d. d_child d = int i) ?ds))"
    by (rule distinct_map_filter_proj [OF swap, where a = "int i"]) simp
  then show "distinct (map fst (parents model i))"
    using nn(1) by (auto simp: parents_def comp_def distinct_map inj_on_def)
  have "distinct (map d_child (filter (\<lambda>d. d_parent d = int i) ?ds))"
    by (rule distinct_map_filter_proj [OF dist, where a = "int i"]) simp
  then show "distinct (map fst (children model i))"
    using nn(2) by (auto simp: children_def comp_def distinct_map inj_on_def)
qed

lemma parent_child:
  assumes "model_wf model"
  shows "p \<in> fst ` set (parents model c) \<longleftrightarrow> c \<in> fst ` set (children model p)"
proof -
  have "0 \<le> d_parent d" "0 \<le> d_child d" if "d \<in> set (m_dependencies model)" for d
    using model_wf_dep [OF assms that] by (auto simp: dep_wf_def)
  then show ?thesis by (force simp: parents_def children_def)
qed

lemma parents_props:
  assumes "model_wf model" and "(p, d) \<in> set (parents model c)"
  shows "p < hop_count model" "c < hop_count model" "0 \<le> d" "p \<noteq> c" "h_round (m_hops model ! p) = h_round (m_hops model ! c)"
  using assms(2) model_wf_dep [OF assms(1)] by (force simp: parents_def dep_wf_def)+

lemma children_props:
  assumes "model_wf model" and "c \<in> fst ` set (children model p)"
  shows "c < hop_count model" "p < hop_count model" "c \<noteq> p" "h_round (m_hops model ! c) = h_round (m_hops model ! p)"
proof -
  from assms obtain d where "(p, d) \<in> set (parents model c)" using parent_child [OF assms(1), of p c] by auto
  note p = parents_props [OF assms(1) this]
  show "c < hop_count model" "p < hop_count model" "c \<noteq> p" "h_round (m_hops model ! c) = h_round (m_hops model ! p)"
    using p by auto
qed

lemma hop_ready_ge:
  assumes "ready = hop_ready model slots source_ready i"
  shows "source_ready \<le> ready" "h_release (m_hops model ! i) \<le> ready"
    "\<forall>(p, d) \<in> set (parents model i). slots ! p + h_latency (m_hops model ! p) + d \<le> ready"
proof -
  have fold_max: "max x y \<le> fold (\<lambda>(p, d) r. max r (f p d)) ps (max x y) \<and>
      (\<forall>(p, d) \<in> set ps. f p d \<le> fold (\<lambda>(p, d) r. max r (f p d)) ps (max x y))"
    for f :: "nat \<Rightarrow> int \<Rightarrow> int" and ps x y
  proof (induction ps arbitrary: x y)
    case (Cons pd ps)
    then show ?case using Cons.IH [of "max x y" "f (fst pd) (snd pd)"] by (cases pd) auto
  qed simp
  show "source_ready \<le> ready" "h_release (m_hops model ! i) \<le> ready"
    "\<forall>(p, d) \<in> set (parents model i). slots ! p + h_latency (m_hops model ! p) + d \<le> ready"
    using fold_max [of source_ready "h_release (m_hops model ! i)"
        "\<lambda>p d. slots ! p + h_latency (m_hops model ! p) + d" "parents model i"]
    unfolding assms hop_ready_def by auto
qed

lemma hop_ready_le:
  assumes "source_ready \<le> b" and "h_release (m_hops model ! i) \<le> b"
    and "\<And>p d. (p, d) \<in> set (parents model i) \<Longrightarrow> slots ! p + h_latency (m_hops model ! p) + d \<le> b"
  shows "hop_ready model slots source_ready i \<le> b"
  unfolding hop_ready_def by (rule fold_keeps) (use assms in auto)

lemma hop_ready_update:
  assumes "j \<notin> fst ` set (parents model i)"
  shows "hop_ready model (slots[j := x]) source_ready i = hop_ready model slots source_ready i"
  unfolding hop_ready_def by (rule fold_cong) (use assms in \<open>force+\<close>)

section \<open>Cells\<close>

text \<open>The two sizes that the code keeps in an \<open>int\<close>.\<close>

definition fits :: "'d model \<Rightarrow> bool" where
  "fits model \<longleftrightarrow> m_frame_slots model \<le> 2147483647 \<and> int (hop_count model) \<le> 2147483647"

lemma occupancy_key_uint:
  assumes wf: "model_wf model" and fits: "fits model" and i: "i < hop_count model" and s: "0 \<le> s" "s < m_frame_slots model"
  shows "uint (occupancy_key model (m_hops model ! i) s) = h_lane_resource (m_hops model ! i) * m_frame_slots model + s"
    "h_lane_resource (m_hops model ! i) * m_frame_slots model + s < 2 ^ 63"
proof -
  let ?l = "h_lane_resource (m_hops model ! i)" and ?f = "m_frame_slots model"
  have l: "0 \<le> ?l" "?l \<le> 2147483647" using model_wf_hop [OF wf i] wf fits
    by (auto simp: hop_wf_def Let_def model_wf_def lanes_wf_def fits_def)
  have f: "0 \<le> ?f" "?f \<le> 2147483647" using fits s by (auto simp: fits_def)
  have "?l * ?f \<le> 2147483647 * 2147483647" using l f by (intro mult_mono) auto
  then show less: "?l * ?f + s < 2 ^ 63" using s f by simp
  have uint: "uint (word_of_int x :: 64 word) = x" if "0 \<le> x" "x < 2 ^ 63" for x
    using that by (simp add: uint_word_of_int_eq take_bit_int_eq_self)
  have "0 \<le> ?l * ?f + s" using l f s by simp
  moreover have "occupancy_key model (m_hops model ! i) s = word_of_int (?l * ?f + s)" by (simp add: occupancy_key_def)
  ultimately show "uint (occupancy_key model (m_hops model ! i) s) = ?l * ?f + s"
    using less by (simp only: uint)
qed

lemma occupancy_key_proper:
  assumes "model_wf model" and "fits model" and "i < hop_count model" and "0 \<le> s" "s < m_frame_slots model"
  shows "occupancy_key model (m_hops model ! i) s \<noteq> empty_occupancy"
proof
  assume "occupancy_key model (m_hops model ! i) s = empty_occupancy"
  then have "uint (occupancy_key model (m_hops model ! i) s) = 2 ^ 64 - 1"
    by (simp add: empty_occupancy_def unsigned_minus_1_eq_mask mask_eq_exp_minus_1)
  then show False using occupancy_key_uint [OF assms] by simp
qed

lemma occupancy_key_inj:
  assumes wf: "model_wf model" "fits model" and i: "i < hop_count model" "0 \<le> s" "s < m_frame_slots model"
    and j: "j < hop_count model" "0 \<le> t" "t < m_frame_slots model"
    and eq: "occupancy_key model (m_hops model ! i) s = occupancy_key model (m_hops model ! j) t"
  shows "h_lane_resource (m_hops model ! i) = h_lane_resource (m_hops model ! j) \<and> s = t"
proof -
  let ?f = "m_frame_slots model" and ?a = "h_lane_resource (m_hops model ! i)" and ?b = "h_lane_resource (m_hops model ! j)"
  have sum: "?a * ?f + s = ?b * ?f + t" using eq occupancy_key_uint(1) [OF wf i] occupancy_key_uint(1) [OF wf j] by simp
  have "s = (?a * ?f + s) mod ?f" "t = (?b * ?f + t) mod ?f" using i j by simp_all
  then have "s = t" using sum by simp
  then show ?thesis using sum i by simp
qed

section \<open>What holds of a partial schedule\<close>

text \<open>
  The hops with a slot. Each is ready when its round has started, its release slot has come and its
  parents have arrived; it has the first slot at or after that moment that is free on its lane, within
  its ratio and within the frame. \<open>S\<close> is the start of each round.
\<close>

definition placed :: "int list \<Rightarrow> nat set" where
  "placed slots = {i. i < length slots \<and> slots ! i \<noteq> -1}"

definition well_placed :: "'d model \<Rightarrow> (int \<Rightarrow> int) \<Rightarrow> int list \<Rightarrow> int list \<Rightarrow> nat \<Rightarrow> bool" where
  "well_placed model S slots ready i \<longleftrightarrow> (let hop = m_hops model ! i in
     ready ! i = hop_ready model slots (S (h_round hop)) i \<and> 0 \<le> ready ! i \<and> ready ! i \<le> slots ! i \<and>
     slots ! i < ready ! i + h_ratio hop \<and>
     slots ! i < m_frame_slots model - m_runtime_barrier_slots model - h_latency hop \<and>
     fst ` set (parents model i) \<subseteq> placed slots \<and>
     (\<forall>s. ready ! i \<le> s \<and> s < slots ! i \<longrightarrow>
        (\<exists>j \<in> placed slots. h_lane_resource (m_hops model ! j) = h_lane_resource hop \<and> slots ! j = s)))"

definition cell :: "'d model \<Rightarrow> int list \<Rightarrow> nat \<Rightarrow> int \<times> int" where
  "cell model slots i = (h_lane_resource (m_hops model ! i), slots ! i)"

definition slots_inv :: "'d model \<Rightarrow> (int \<Rightarrow> int) \<Rightarrow> int list \<Rightarrow> int list \<Rightarrow> 64 word list \<Rightarrow> bool" where
  "slots_inv model S slots ready occupied \<longleftrightarrow>
     length slots = hop_count model \<and> length ready = hop_count model \<and> hop_count model < length occupied \<and>
     table_ok occupied \<and> (\<forall>i \<in> placed slots. well_placed model S slots ready i) \<and>
     table_cells occupied = (\<lambda>i. occupancy_key model (m_hops model ! i) (slots ! i)) ` placed slots \<and>
     inj_on (cell model slots) (placed slots)"

lemma finite_placed [simp]: "finite (placed slots)"
  by (simp add: placed_def)

lemma placed_less: "i \<in> placed slots \<Longrightarrow> i < length slots"
  by (simp add: placed_def)

lemma placed_update: "j < length slots \<Longrightarrow> x \<noteq> -1 \<Longrightarrow> placed (slots[j := x]) = insert j (placed slots)"
  by (auto simp: placed_def nth_list_update)

lemma slots_inv_range:
  assumes "model_wf model" and "slots_inv model S slots ready occupied" and "i \<in> placed slots"
  shows "0 \<le> slots ! i" "slots ! i + h_latency (m_hops model ! i) < m_frame_slots model" "slots ! i < m_frame_slots model"
proof -
  have "i < hop_count model" using assms(2,3) by (auto simp: slots_inv_def placed_def)
  then have "0 \<le> h_latency (m_hops model ! i)" using model_wf_hop [OF assms(1)] by (auto simp: hop_wf_def Let_def)
  moreover have "well_placed model S slots ready i" using assms(2,3) by (simp add: slots_inv_def)
  ultimately show "0 \<le> slots ! i" "slots ! i + h_latency (m_hops model ! i) < m_frame_slots model"
    "slots ! i < m_frame_slots model"
    using assms(1) by (auto simp: well_placed_def Let_def model_wf_def)
qed

lemma slots_inv_room:
  assumes "slots_inv model S slots ready occupied"
  shows "card (table_cells occupied) < length occupied"
proof -
  have "card (table_cells occupied) \<le> card (placed slots)" using assms by (simp add: slots_inv_def card_image_le)
  also have "\<dots> \<le> card {..<hop_count model}" using assms by (intro card_mono) (auto simp: slots_inv_def placed_def)
  finally show ?thesis using assms by (simp add: slots_inv_def)
qed

text \<open>The search for a slot, and what an old placement keeps when a new hop is placed.\<close>

lemma find_slot_first:
  assumes wf: "model_wf model" "fits model" and inv: "slots_inv model S slots ready occupied"
    and i: "i < hop_count model" and r: "0 \<le> r" and latest: "latest \<le> m_frame_slots model"
  obtains s where "find_slot occupied (occupancy_key model (m_hops model ! i)) r latest = Some s" "r \<le> s"
    "\<And>t. r \<le> t \<Longrightarrow> t < s \<Longrightarrow> s \<le> latest \<Longrightarrow>
      \<exists>j \<in> placed slots. h_lane_resource (m_hops model ! j) = h_lane_resource (m_hops model ! i) \<and> slots ! j = t"
    "s < latest \<Longrightarrow> occupancy_key model (m_hops model ! i) s \<notin> table_cells occupied"
proof -
  let ?key = "occupancy_key model (m_hops model ! i)"
  have "\<exists>s. find_slot occupied ?key r latest = Some s \<and> r \<le> s \<and> s \<le> max r latest \<and>
      (\<forall>t. r \<le> t \<and> t < s \<longrightarrow> ?key t \<in> table_cells occupied) \<and> (s < latest \<longrightarrow> ?key s \<notin> table_cells occupied)"
  proof (rule occ.first_free [where key = ?key and search = "\<lambda>slot. find_slot occupied ?key slot latest"])
    show "table_ok occupied" using inv by (simp add: slots_inv_def)
    show "card (table_cells occupied) < length occupied" by (rule slots_inv_room [OF inv])
    show "find_slot occupied ?key slot latest = (if slot < latest then (case is_occupied occupied (?key slot) of
        None \<Rightarrow> None | Some b \<Rightarrow> if b then find_slot occupied ?key (slot + 1) latest else Some slot) else Some slot)" for slot
      by (rule find_slot.simps)
    show "?key s \<noteq> empty_occupancy" if "r \<le> s" "s < latest" for s
      using that r latest by (intro occupancy_key_proper [OF wf i]) auto
  qed
  then obtain s where s: "find_slot occupied ?key r latest = Some s" "r \<le> s"
      "\<And>t. r \<le> t \<Longrightarrow> t < s \<Longrightarrow> ?key t \<in> table_cells occupied" "s < latest \<Longrightarrow> ?key s \<notin> table_cells occupied"
    by blast
  have "\<exists>j \<in> placed slots. h_lane_resource (m_hops model ! j) = h_lane_resource (m_hops model ! i) \<and> slots ! j = t"
    if t: "r \<le> t" "t < s" "s \<le> latest" for t
  proof -
    obtain j where j: "j \<in> placed slots" "?key t = occupancy_key model (m_hops model ! j) (slots ! j)"
      using s(3) [OF t(1,2)] inv by (auto simp: slots_inv_def)
    have "j < hop_count model" using j(1) inv by (auto simp: slots_inv_def placed_def)
    then have "h_lane_resource (m_hops model ! i) = h_lane_resource (m_hops model ! j) \<and> t = slots ! j"
      using t r latest slots_inv_range [OF wf(1) inv j(1)] by (intro occupancy_key_inj [OF wf i _ _ _ _ _ j(2)]) auto
    then show ?thesis using j(1) by auto
  qed
  then show ?thesis using s that by blast
qed

lemma well_placed_update:
  assumes "well_placed model S slots ready j" and "i \<notin> placed slots" and "j \<in> placed slots" and "i < length slots" and "x \<noteq> -1"
  shows "well_placed model S (slots[i := x]) (ready[i := r]) j"
proof -
  have "i \<noteq> j" and "i \<notin> fst ` set (parents model j)" using assms by (auto simp: well_placed_def Let_def)
  moreover have "slots[i := x] ! k = slots ! k" if "k \<in> placed slots" for k using that assms(2) by (metis nth_list_update_neq)
  ultimately show ?thesis using assms(1) placed_update [OF assms(4,5)]
    by (auto simp: well_placed_def Let_def hop_ready_update)
qed

lemma cell_inj_update:
  assumes "inj_on (cell model slots) (placed slots)" and "i < length slots" and "i \<notin> placed slots" and "x \<noteq> -1"
    and fresh: "\<And>j. j \<in> placed slots \<Longrightarrow>
      occupancy_key model (m_hops model ! j) (slots ! j) \<noteq> occupancy_key model (m_hops model ! i) x"
  shows "inj_on (cell model (slots[i := x])) (placed (slots[i := x]))"
proof -
  have other: "cell model (slots[i := x]) j = cell model slots j" if "j \<in> placed slots" for j
    using that assms(3) by (metis cell_def nth_list_update_neq)
  have "cell model slots j \<noteq> cell model (slots[i := x]) i" if "j \<in> placed slots" for j
  proof
    assume "cell model slots j = cell model (slots[i := x]) i"
    then show False using fresh [OF that] assms(2) by (simp add: cell_def occupancy_key_def)
  qed
  then show ?thesis using assms(1,3) other by (auto simp: placed_update [OF assms(2,4)] inj_on_def) (metis)+
qed

lemma slots_inv_place:
  assumes wf: "model_wf model" "fits model" and inv: "slots_inv model S slots ready occupied"
    and i: "i < hop_count model" "i \<notin> placed slots" "fst ` set (parents model i) \<subseteq> placed slots"
    and S: "0 \<le> S (h_round (m_hops model ! i))" and r: "r = hop_ready model slots (S (h_round (m_hops model ! i))) i"
    and latest: "latest = min (r + h_ratio (m_hops model ! i))
        (m_frame_slots model - m_runtime_barrier_slots model - h_latency (m_hops model ! i))"
    and s: "find_slot occupied (occupancy_key model (m_hops model ! i)) r latest = Some s" "s < latest"
  shows "\<exists>occupied'. occupy occupied (occupancy_key model (m_hops model ! i) s) = Some occupied' \<and>
      slots_inv model S (slots[i := s]) (ready[i := r]) occupied' \<and> placed (slots[i := s]) = insert i (placed slots)"
proof -
  let ?key = "\<lambda>slots j. occupancy_key model (m_hops model ! j) (slots ! j)"
  have len: "length slots = hop_count model" "length ready = hop_count model"
    and ok: "table_ok occupied" and cells: "table_cells occupied = ?key slots ` placed slots" using inv by (auto simp: slots_inv_def)
  have r0: "0 \<le> r" using hop_ready_ge(1) [OF r] S by simp
  have "0 \<le> h_latency (m_hops model ! i)" using model_wf_hop [OF wf(1) i(1)] by (simp add: hop_wf_def Let_def)
  then have frame: "latest \<le> m_frame_slots model" using wf(1) by (auto simp: latest model_wf_def min_def)
  obtain s' where s': "find_slot occupied (occupancy_key model (m_hops model ! i)) r latest = Some s'" "r \<le> s'"
      "\<And>t. r \<le> t \<Longrightarrow> t < s' \<Longrightarrow> s' \<le> latest \<Longrightarrow>
        \<exists>j \<in> placed slots. h_lane_resource (m_hops model ! j) = h_lane_resource (m_hops model ! i) \<and> slots ! j = t"
      "s' < latest \<Longrightarrow> occupancy_key model (m_hops model ! i) s' \<notin> table_cells occupied"
    by (rule find_slot_first [OF wf inv i(1) r0 frame]) blast
  have [simp]: "s' = s" using s'(1) s(1) by simp
  note s' = s'(2-4) [unfolded \<open>s' = s\<close>]
  have s1: "s \<noteq> -1" using s'(1) r0 by simp
  have placed: "placed (slots[i := s]) = insert i (placed slots)" using i(1) len s1 by (simp add: placed_update)
  have same: "slots[i := s] ! j = slots ! j" if "j \<in> placed slots" for j using that i(2) by (metis nth_list_update_neq)
  have "occupancy_key model (m_hops model ! i) s \<noteq> empty_occupancy"
    using s'(1) r0 s(2) frame by (intro occupancy_key_proper [OF wf i(1)]) auto
  then obtain occupied' where occ': "occupy occupied (occupancy_key model (m_hops model ! i) s) = Some occupied'"
      "table_ok occupied'" "length occupied' = length occupied"
      "table_cells occupied' = insert (occupancy_key model (m_hops model ! i) s) (table_cells occupied)"
    using occ.ins_law [OF ok slots_inv_room [OF inv]] by blast
  have "table_cells occupied' = ?key (slots[i := s]) ` placed (slots[i := s])"
    using inv occ'(4) i(1) len same by (auto simp: placed slots_inv_def image_def)
  moreover have "well_placed model S (slots[i := s]) (ready[i := r]) j" if "j \<in> placed (slots[i := s])" for j
  proof (cases "j = i")
    case True
    have "i \<notin> fst ` set (parents model i)" using i by auto
    moreover have "\<exists>k \<in> placed (slots[i := s]). h_lane_resource (m_hops model ! k) = h_lane_resource (m_hops model ! i) \<and>
        slots[i := s] ! k = t" if "r \<le> t" "t < s" for t
      using s'(2) [of t] that s(2) same by (auto simp: placed)
    ultimately show ?thesis using True i len s' s(2) r0 r
      by (auto simp: well_placed_def Let_def hop_ready_update placed latest)
  next
    case False
    then have "j \<in> placed slots" using that placed by simp
    then show ?thesis using inv i s1 len by (intro well_placed_update) (auto simp: slots_inv_def)
  qed
  moreover have "inj_on (cell model (slots[i := s])) (placed (slots[i := s]))"
  proof (rule cell_inj_update)
    show "?key slots j \<noteq> occupancy_key model (m_hops model ! i) s" if "j \<in> placed slots" for j
      using s'(3) [OF s(2)] cells imageI [OF that, of "?key slots"] by metis
  qed (use inv i len s1 in \<open>auto simp: slots_inv_def\<close>)
  ultimately show ?thesis using occ' placed len inv by (auto simp: slots_inv_def)
qed

end
