(* ===== verification/Tdm_Rounds.thy ===== *)
theory Tdm_Rounds
  imports Tdm_SlotProofs
begin

text \<open>
  The rounds of the list scheduler: a round ends, its result places exactly the hops of the round, and
  the whole of \<open>build_schedule\<close> returns a feasible schedule of all hops or reports that it has none.
\<close>

section \<open>One round\<close>

text \<open>The number of parents of a hop that have no slot yet, the value of \<open>remaining_parents\<close>.\<close>

definition waiting :: "'d model \<Rightarrow> int list \<Rightarrow> nat \<Rightarrow> nat" where
  "waiting model slots i = length (filter (\<lambda>(p, d). p \<notin> placed slots) (parents model i))"

definition of_round :: "'d model \<Rightarrow> int \<Rightarrow> nat set" where
  "of_round model r = {i. i < hop_count model \<and> h_round (m_hops model ! i) = r}"

definition round_inv :: "'d model \<Rightarrow> (int \<Rightarrow> int) \<Rightarrow> int \<Rightarrow> round_state \<Rightarrow> bool" where
  "round_inv model S r st \<longleftrightarrow>
     slots_inv model S (r_slots st) (r_ready st) (r_occupied st) \<and> length (r_remaining st) = hop_count model \<and>
     (\<forall>i \<in> of_round model r. r_remaining st ! i = int (waiting model (r_slots st) i)) \<and> distinct (r_queue st) \<and>
     set (r_queue st) = {i \<in> of_round model r. i \<notin> placed (r_slots st) \<and> waiting model (r_slots st) i = 0} \<and>
     r_scheduled st = int (card (placed (r_slots st) \<inter> of_round model r))"

lemma finite_of_round [simp]: "finite (of_round model r)"
  by (simp add: of_round_def)

lemma waiting_0: "waiting model slots i = 0 \<longleftrightarrow> fst ` set (parents model i) \<subseteq> placed slots"
  by (auto simp: waiting_def filter_empty_conv)

lemma filter_insert_length:
  assumes "distinct (map fst ps)" and "i \<notin> D"
  shows "length (filter (\<lambda>(p, d). p \<notin> D) ps) =
    length (filter (\<lambda>(p, d). p \<notin> insert i D) ps) + (if i \<in> fst ` set ps then 1 else 0)"
  using assms by (induction ps) (auto simp: rev_image_eqI)

lemma waiting_place:
  assumes "model_wf model" and "placed slots' = insert i (placed slots)" and "i \<notin> placed slots"
  shows "waiting model slots c = waiting model slots' c + (if c \<in> fst ` set (children model i) then 1 else 0)"
  using filter_insert_length [OF parents_distinct(1) [OF assms(1), of c] assms(3)] parent_child [OF assms(1), of i c]
  by (simp add: waiting_def assms(2))

lemma schedule_hop_Inr:
  assumes "schedule_hop model priority source_ready st = Inr st'"
  obtains i hop ready latest slot occupied where "i = queue_top priority (r_queue st)" "hop = m_hops model ! i"
    "ready = hop_ready model (r_slots st) source_ready i"
    "latest = min (ready + h_ratio hop) (m_frame_slots model - m_runtime_barrier_slots model - h_latency hop)"
    "find_slot (r_occupied st) (occupancy_key model hop) ready latest = Some slot" "slot < latest"
    "occupy (r_occupied st) (occupancy_key model hop slot) = Some occupied"
    "r_slots st' = (r_slots st)[i := slot]" "r_ready st' = (r_ready st)[i := ready]" "r_occupied st' = occupied"
    "(r_remaining st', r_queue st') = fold (\<lambda>(child, delay). release_child child) (children model i)
       (r_remaining st, queue_pop priority (r_queue st))"
    "r_scheduled st' = r_scheduled st + 1"
proof -
  let ?i = "queue_top priority (r_queue st)"
  let ?fold = "fold (\<lambda>(child, delay). release_child child) (children model ?i) (r_remaining st, queue_pop priority (r_queue st))"
  obtain rem q where rq: "?fold = (rem, q)" by (cases ?fold)
  show ?thesis using assms
    by (auto simp: schedule_hop_def Let_def rq not_le intro!: that split: if_splits option.splits)
qed

lemma round_queue_step:
  assumes wf: "model_wf model" and i: "i \<in> of_round model r" "i \<notin> placed slots" "waiting model slots i = 0"
    and closed: "\<And>j. j \<in> placed slots \<Longrightarrow> waiting model slots j = 0"
    and place: "placed slots' = insert i (placed slots)"
    and rem: "length remaining = hop_count model" "\<forall>i \<in> of_round model r. remaining ! i = int (waiting model slots i)"
    and q: "distinct q" "set q = {j \<in> of_round model r. j \<notin> placed slots \<and> waiting model slots j = 0} - {i}"
    and fold: "(remaining', q') = fold (\<lambda>(child, delay). release_child child) (children model i) (remaining, q)"
  shows "length remaining' = hop_count model" "\<forall>i \<in> of_round model r. remaining' ! i = int (waiting model slots' i)"
    "distinct q'" "set q' = {j \<in> of_round model r. j \<notin> placed slots' \<and> waiting model slots' j = 0}"
proof -
  let ?cs = "fst ` set (children model i)"
  note wait = waiting_place [OF wf place i(2)]
  have cs: "c \<in> of_round model r \<and> c \<noteq> i" if "c \<in> ?cs" for c
    using children_props [OF wf that] i(1) by (auto simp: of_round_def)
  have "\<forall>c \<in> ?cs. c < length remaining" using cs rem(1) by (auto simp: of_round_def)
  from release_children [OF parents_distinct(2) [OF wf] this, of q]
  have r': "remaining' = map (\<lambda>j. if j \<in> ?cs then remaining ! j - 1 else remaining ! j) [0..<length remaining]"
    and q': "q' = q @ filter (\<lambda>c. remaining ! c = 1) (map fst (children model i))"
    using fold by simp_all
  show "length remaining' = hop_count model" using r' rem(1) by simp
  show "\<forall>i \<in> of_round model r. remaining' ! i = int (waiting model slots' i)"
  proof
    fix j assume j: "j \<in> of_round model r"
    then have "remaining ! j = int (waiting model slots j)" "j < length remaining" using rem by (auto simp: of_round_def)
    then show "remaining' ! j = int (waiting model slots' j)" using wait [of j] by (simp add: r')
  qed
  have new: "remaining ! c = 1 \<longleftrightarrow> waiting model slots c = 1" if "c \<in> ?cs" for c using rem(2) cs [OF that] by auto
  have set_q': "set q' = set q \<union> {c \<in> ?cs. waiting model slots c = 1}" using new by (auto simp: q')
  show "distinct q'" using q(1) parents_distinct(2) [OF wf, of i] rem(2) by (auto simp: q' q(2))
  show "set q' = {j \<in> of_round model r. j \<notin> placed slots' \<and> waiting model slots' j = 0}"
  proof (rule set_eqI)
    fix j
    show "j \<in> set q' \<longleftrightarrow> j \<in> {j \<in> of_round model r. j \<notin> placed slots' \<and> waiting model slots' j = 0}"
    proof (cases "j \<in> ?cs")
      case True
      then have "waiting model slots j = Suc (waiting model slots' j)" using wait [of j] by simp
      then show ?thesis using True cs [OF True] closed [of j] by (auto simp: set_q' q(2) place)
    next
      case False
      then show ?thesis using wait [of j] by (auto simp: set_q' q(2) place)
    qed
  qed
qed

lemma round_step:
  assumes wf: "model_wf model" "fits model" and inv: "round_inv model S r st" and S: "0 \<le> S r"
    and q: "r_queue st \<noteq> []" and step: "schedule_hop model priority (S r) st = Inr st'"
  shows "round_inv model S r st'"
    "placed (r_slots st') = insert (queue_top priority (r_queue st)) (placed (r_slots st))"
    "queue_top priority (r_queue st) \<in> of_round model r - placed (r_slots st)"
proof -
  from step obtain i hop ready latest slot occupied where e: "i = queue_top priority (r_queue st)" "hop = m_hops model ! i"
    "ready = hop_ready model (r_slots st) (S r) i"
    "latest = min (ready + h_ratio hop) (m_frame_slots model - m_runtime_barrier_slots model - h_latency hop)"
    "find_slot (r_occupied st) (occupancy_key model hop) ready latest = Some slot" "slot < latest"
    "occupy (r_occupied st) (occupancy_key model hop slot) = Some occupied"
    "r_slots st' = (r_slots st)[i := slot]" "r_ready st' = (r_ready st)[i := ready]" "r_occupied st' = occupied"
    "(r_remaining st', r_queue st') = fold (\<lambda>(child, delay). release_child child) (children model i)
       (r_remaining st, queue_pop priority (r_queue st))" "r_scheduled st' = r_scheduled st + 1"
    by (rule schedule_hop_Inr)
  have "i \<in> set (r_queue st)" using queue_top_least [OF q] e(1) by simp
  then have i: "i \<in> of_round model r" "i \<notin> placed (r_slots st)" "waiting model (r_slots st) i = 0"
    using inv by (auto simp: round_inv_def)
  have round: "h_round (m_hops model ! i) = r" "i < hop_count model" using i(1) by (auto simp: of_round_def)
  have si: "slots_inv model S (r_slots st) (r_ready st) (r_occupied st)" using inv by (simp add: round_inv_def)
  have "slots_inv model S (r_slots st') (r_ready st') (r_occupied st') \<and> placed (r_slots st') = insert i (placed (r_slots st))"
    using slots_inv_place [OF wf si round(2) i(2) i(3) [unfolded waiting_0], of ready latest slot] S e round by auto
  then have si': "slots_inv model S (r_slots st') (r_ready st') (r_occupied st')"
    and pl: "placed (r_slots st') = insert i (placed (r_slots st))" by auto
  have closed: "waiting model (r_slots st) j = 0" if "j \<in> placed (r_slots st)" for j
    using that si by (auto simp: waiting_0 slots_inv_def well_placed_def Let_def)
  have pop: "distinct (queue_pop priority (r_queue st))"
    "set (queue_pop priority (r_queue st)) = {j \<in> of_round model r. j \<notin> placed (r_slots st) \<and> waiting model (r_slots st) j = 0} - {i}"
    using queue_pop_set [of "r_queue st" priority] inv e(1) by (auto simp: round_inv_def)
  have rem: "length (r_remaining st) = hop_count model"
    "\<forall>i \<in> of_round model r. r_remaining st ! i = int (waiting model (r_slots st) i)" using inv by (auto simp: round_inv_def)
  have "r_scheduled st' = int (card (placed (r_slots st') \<inter> of_round model r))"
    using inv i e(12) by (simp add: pl round_inv_def Int_insert_left)
  then show "round_inv model S r st'"
    using si' round_queue_step [OF wf(1) i closed pl rem pop e(11)] by (auto simp: round_inv_def)
  show "placed (r_slots st') = insert (queue_top priority (r_queue st)) (placed (r_slots st))"
    "queue_top priority (r_queue st) \<in> of_round model r - placed (r_slots st)"
    using pl i e(1) by auto
qed


text \<open>
  Inputs whose numbers are at most \<open>2 ^ 29\<close> and whose sinks name hops and routes that exist: what
  \<open>read_model\<close> does not check and what the arithmetic of the scheduler needs.
\<close>

definition in_range :: "'d model \<Rightarrow> bool" where
  "in_range model \<longleftrightarrow> m_frame_slots model \<le> 2 ^ 29 \<and> m_runtime_barrier_slots model \<le> 2 ^ 29 \<and> m_settle_slots model \<le> 2 ^ 29 \<and>
     int (hop_count model) \<le> 2 ^ 29 \<and>
     list_all (\<lambda>hop. h_ratio hop \<le> 2 ^ 29 \<and> h_latency hop \<le> 2 ^ 29 \<and> h_release hop \<le> 2 ^ 29 \<and> h_round hop \<le> 2 ^ 29) (m_hops model) \<and>
     list_all (\<lambda>d. d_delay d \<le> 2 ^ 29) (m_dependencies model) \<and>
     list_all (\<lambda>s. 0 \<le> s_route s \<and> s_route s \<le> 2 ^ 29 \<and> 0 \<le> s_hop s \<and> s_hop s < int (hop_count model)) (m_sinks model)"

lemma in_range_fits: "in_range model \<Longrightarrow> fits model"
  by (simp add: in_range_def fits_def)

lemma in_range_hop:
  assumes "in_range model" and "i < hop_count model"
  shows "h_ratio (m_hops model ! i) \<le> 2 ^ 29" "h_latency (m_hops model ! i) \<le> 2 ^ 29"
    "h_release (m_hops model ! i) \<le> 2 ^ 29" "h_round (m_hops model ! i) \<le> 2 ^ 29"
  using assms by (auto simp: in_range_def list_all_iff)

lemma in_range_parents: "in_range model \<Longrightarrow> (p, d) \<in> set (parents model i) \<Longrightarrow> d \<le> 2 ^ 29"
  by (auto simp: in_range_def list_all_iff parents_def)

lemma schedule_hop_defined:
  assumes wf: "model_wf model" and range: "in_range model" and inv: "round_inv model S r st" and S: "0 \<le> S r" "S r \<le> 2 ^ 30"
    and q: "r_queue st \<noteq> []"
  shows "schedule_hop model priority (S r) st \<noteq> Inl Undefined"
proof -
  define i where "i = queue_top priority (r_queue st)"
  define ready where "ready = hop_ready model (r_slots st) (S r) i"
  define latest where "latest = min (ready + h_ratio (m_hops model ! i))
    (m_frame_slots model - m_runtime_barrier_slots model - h_latency (m_hops model ! i))"
  have "i \<in> set (r_queue st)" using queue_top_least [OF q] by (simp add: i_def)
  then have i: "i < hop_count model" "h_round (m_hops model ! i) = r" "i \<notin> placed (r_slots st)"
      "fst ` set (parents model i) \<subseteq> placed (r_slots st)"
    using inv by (auto simp: round_inv_def of_round_def waiting_0)
  have si: "slots_inv model S (r_slots st) (r_ready st) (r_occupied st)" using inv by (simp add: round_inv_def)
  have arrive: "0 \<le> r_slots st ! p + h_latency (m_hops model ! p)" "r_slots st ! p + h_latency (m_hops model ! p) < 2 ^ 29"
      "0 \<le> d" "d \<le> 2 ^ 29" if "(p, d) \<in> set (parents model i)" for p d
  proof -
    have p: "p \<in> placed (r_slots st)" "p < hop_count model" using that i(4) parents_props [OF wf that] by auto
    then have "0 \<le> h_latency (m_hops model ! p)" using model_wf_hop [OF wf] by (auto simp: hop_wf_def Let_def)
    then show "0 \<le> r_slots st ! p + h_latency (m_hops model ! p)" "r_slots st ! p + h_latency (m_hops model ! p) < 2 ^ 29"
      "0 \<le> d" "d \<le> 2 ^ 29"
      using slots_inv_range [OF wf si p(1)] range parents_props(3) [OF wf that] in_range_parents [OF range that]
      by (auto simp: in_range_def)
  qed
  have r0: "0 \<le> ready" using hop_ready_ge(1) [OF ready_def] S by simp
  have r1: "ready \<le> 2 ^ 30" unfolding ready_def
    by (rule hop_ready_le) (use S in_range_hop [OF range i(1)] arrive in \<open>force+\<close>)
  have hop: "0 < h_ratio (m_hops model ! i)" "0 \<le> h_latency (m_hops model ! i)"
    using model_wf_hop [OF wf i(1)] by (auto simp: hop_wf_def Let_def)
  have "ready_defined model (r_slots st) i"
    using arrive by (fastforce simp: ready_defined_def list_all_iff int_ok_def)
  moreover have "latest_defined model (m_hops model ! i) ready"
    using r0 r1 hop in_range_hop [OF range i(1)] range wf by (auto simp: latest_defined_def int_ok_def in_range_def model_wf_def)
  moreover have "latest \<le> m_frame_slots model" using hop wf by (auto simp: latest_def model_wf_def min_def)
  then obtain s where s: "find_slot (r_occupied st) (occupancy_key model (m_hops model ! i)) ready latest = Some s"
    by (rule find_slot_first [OF wf in_range_fits [OF range] si i(1) r0])
  moreover have "\<exists>occupied. occupy (r_occupied st) (occupancy_key model (m_hops model ! i) s) = Some occupied" if "s < latest"
    using slots_inv_place [OF wf in_range_fits [OF range] si i(1,3,4) _ _ latest_def s that] S i(2) by (auto simp: ready_def)
  ultimately show ?thesis
    by (auto simp: schedule_hop_def Let_def i_def [symmetric] ready_def [symmetric] latest_def [symmetric] not_less [symmetric]
        split: option.split prod.split)
qed


lemma round_start_eq:
  "round_start model r =
    (map (\<lambda>i. if h_round (m_hops model ! i) = r then int (length (parents model i)) else 0) [0..<hop_count model],
     filter (\<lambda>i. h_round (m_hops model ! i) = r \<and> parents model i = []) [0..<hop_count model],
     int (card (of_round model r)))"
proof -
  let ?n = "hop_count model" and ?in = "\<lambda>i. h_round (m_hops model ! i) = r"
  let ?f = "\<lambda>i (remaining, queue, expected).
        if h_round (m_hops model ! i) \<noteq> r then (remaining, queue, expected)
        else let n = int (length (parents model i)) in
          (remaining[i := n], if n = 0 then queue @ [i] else queue, expected + 1)"
  have "fold ?f [0..<k] (replicate ?n 0, [], 0 :: int) =
      (map (\<lambda>i. if i < k \<and> ?in i then int (length (parents model i)) else 0) [0..<?n],
       filter (\<lambda>i. ?in i \<and> parents model i = []) [0..<k], int (length (filter ?in [0..<k])))" if "k \<le> ?n" for k
    using that
  proof (induction k)
    case 0
    then show ?case by (simp add: map_replicate_trivial)
  next
    case (Suc k)
    have "(map (\<lambda>i. if i < k \<and> ?in i then int (length (parents model i)) else 0) [0..<?n])[k := int (length (parents model k))] =
        map (\<lambda>i. if i < Suc k \<and> ?in i then int (length (parents model i)) else 0) [0..<?n]" if "?in k"
      using that Suc.prems by (intro nth_equalityI) (auto simp: nth_list_update less_Suc_eq)
    moreover have "map (\<lambda>i. if i < k \<and> ?in i then int (length (parents model i)) else 0) [0..<?n] =
        map (\<lambda>i. if i < Suc k \<and> ?in i then int (length (parents model i)) else 0) [0..<?n]" if "\<not> ?in k"
      using that by (auto simp: less_Suc_eq)
    ultimately show ?case using Suc by (auto simp: Let_def)
  qed
  moreover have "length (filter ?in [0..<?n]) = card (of_round model r)"
  proof -
    have "set (filter ?in [0..<?n]) = of_round model r" by (auto simp: of_round_def)
    then show ?thesis by (metis distinct_card distinct_filter distinct_upt)
  qed
  ultimately show ?thesis by (simp add: round_start_def cong: map_cong)
qed

lemma round_inv_start:
  assumes wf: "model_wf model" and inv: "slots_inv model S slots ready occupied" and none: "placed slots \<inter> of_round model r = {}"
    and start: "round_start model r = (remaining, queue, expected)"
  shows "round_inv model S r \<lparr>r_slots = slots, r_ready = ready, r_occupied = occupied, r_remaining = remaining,
    r_queue = queue, r_scheduled = 0\<rparr>"
proof -
  have wait: "waiting model slots i = length (parents model i)" if "i \<in> of_round model r" for i
  proof -
    have "p \<in> of_round model r" if "(p, d) \<in> set (parents model i)" for p d
      using parents_props [OF wf that] \<open>i \<in> of_round model r\<close> by (simp add: of_round_def)
    then have "filter (\<lambda>(p, d). p \<notin> placed slots) (parents model i) = parents model i" using none by (auto simp: filter_id_conv)
    then show ?thesis by (simp add: waiting_def)
  qed
  show ?thesis using inv start none wait unfolding round_start_eq
    by (auto simp: round_inv_def of_round_def)
qed

lemma slots_inv_frozen:
  assumes "schedule_hop model priority source_ready st = Inr st'" and "queue_top priority (r_queue st) \<notin> placed (r_slots st)"
    and "i \<in> placed (r_slots st)"
  shows "r_slots st' ! i = r_slots st ! i"
  using assms by (elim schedule_hop_Inr) (metis nth_list_update_neq)


text \<open>The loop of a round: its invariant, and that it ends.\<close>

definition loop_inv :: "'d model \<Rightarrow> (int \<Rightarrow> int) \<Rightarrow> int \<Rightarrow> int list \<Rightarrow> stop + round_state \<Rightarrow> bool" where
  "loop_inv model S r slots st = (case st of
     Inl e \<Rightarrow> in_range model \<and> S r \<le> 2 ^ 30 \<longrightarrow> e = Infeasible
   | Inr st \<Rightarrow> round_inv model S r st \<and> placed slots \<subseteq> placed (r_slots st) \<and>
       placed (r_slots st) \<subseteq> placed slots \<union> of_round model r \<and> (\<forall>i \<in> placed slots. r_slots st ! i = slots ! i))"

definition unplaced :: "'d model \<Rightarrow> int \<Rightarrow> stop + round_state \<Rightarrow> nat" where
  "unplaced model r st = (case st of Inl e \<Rightarrow> 0 | Inr st \<Rightarrow> Suc (card (of_round model r - placed (r_slots st))))"

lemma loop_step:
  assumes wf: "model_wf model" "fits model" and S: "0 \<le> S r" and inv: "loop_inv model S r slots (Inr st)" and q: "r_queue st \<noteq> []"
  shows "loop_inv model S r slots (schedule_hop model priority (S r) st)"
    "unplaced model r (schedule_hop model priority (S r) st) < unplaced model r (Inr st)"
proof -
  have ri: "round_inv model S r st" using inv by (simp add: loop_inv_def)
  show "loop_inv model S r slots (schedule_hop model priority (S r) st)"
  proof (cases "schedule_hop model priority (S r) st")
    case (Inl e)
    then show ?thesis using schedule_hop_defined [OF wf(1) _ ri S _ q, of priority] by (cases e) (auto simp: loop_inv_def)
  next
    case (Inr st')
    then have "r_slots st' ! i = r_slots st ! i" if "i \<in> placed (r_slots st)" for i
      using slots_inv_frozen [OF Inr _ that] round_step(3) [OF wf ri S q Inr] by simp
    then show ?thesis using round_step [OF wf ri S q Inr] inv Inr by (auto simp: loop_inv_def)
  qed
  show "unplaced model r (schedule_hop model priority (S r) st) < unplaced model r (Inr st)"
  proof (cases "schedule_hop model priority (S r) st")
    case (Inr st')
    have "card (of_round model r - placed (r_slots st')) < card (of_round model r - placed (r_slots st))"
      using round_step(2,3) [OF wf ri S q Inr] by (intro psubset_card_mono) auto
    then show ?thesis using Inr by (simp add: unplaced_def)
  qed (simp add: unplaced_def)
qed

lemma run_round_props:
  assumes wf: "model_wf model" "fits model" and S: "0 \<le> S r" and inv: "slots_inv model S slots ready occupied"
    and none: "placed slots \<inter> of_round model r = {}"
  shows "case run_round model priority (S r) r (slots, ready, occupied) of
      Inl e \<Rightarrow> in_range model \<and> S r \<le> 2 ^ 30 \<longrightarrow> e = Infeasible
    | Inr (slots', ready', occupied') \<Rightarrow> slots_inv model S slots' ready' occupied' \<and>
        placed slots' = placed slots \<union> of_round model r \<and> (\<forall>i \<in> placed slots. slots' ! i = slots ! i)"
proof -
  obtain remaining queue expected where start: "round_start model r = (remaining, queue, expected)" by (cases "round_start model r")
  then have expected: "expected = int (card (of_round model r))" by (simp add: round_start_eq)
  let ?b = "\<lambda>st. case st of Inl e \<Rightarrow> False | Inr st \<Rightarrow> r_queue st \<noteq> []"
  let ?c = "\<lambda>st. case st of Inl e \<Rightarrow> Inl e | Inr st \<Rightarrow> schedule_hop model priority (S r) st"
  let ?st = "\<lparr>r_slots = slots, r_ready = ready, r_occupied = occupied, r_remaining = remaining, r_queue = queue, r_scheduled = 0\<rparr>"
  have init: "loop_inv model S r slots (Inr ?st)" using round_inv_start [OF wf(1) inv none start] by (auto simp: loop_inv_def)
  have step: "loop_inv model S r slots (?c st) \<and> unplaced model r (?c st) < unplaced model r st"
    if "loop_inv model S r slots st" "?b st" for st
    using that loop_step [where S = S and r = r, OF wf S] by (auto split: sum.splits)
  obtain st where st: "while_option ?b ?c (Inr ?st) = Some st"
    using measure_while_option_Some [of "loop_inv model S r slots" ?b ?c "unplaced model r", OF step init] by blast
  have final: "loop_inv model S r slots st"
    by (rule while_option_rule [where P = "loop_inv model S r slots", OF _ st init]) (use step in blast)
  have run: "run_round model priority (S r) r (slots, ready, occupied) = (case st of Inl e \<Rightarrow> Inl e
      | Inr st \<Rightarrow> if r_scheduled st \<noteq> expected then Inl Infeasible else Inr (r_slots st, r_ready st, r_occupied st))"
    using start st by (simp add: run_round_def)
  show ?thesis
  proof (cases st)
    case (Inr st')
    have "of_round model r \<subseteq> placed (r_slots st')" if "r_scheduled st' = expected"
    proof -
      have "card (placed (r_slots st') \<inter> of_round model r) = card (of_round model r)"
        using that final Inr expected by (simp add: loop_inv_def round_inv_def)
      then show ?thesis by (metis Int_lower2 card_subset_eq finite_of_round inf.absorb_iff2)
    qed
    then show ?thesis using final Inr by (auto simp: run loop_inv_def round_inv_def)
  qed (use final in \<open>simp add: run loop_inv_def\<close>)
qed


section \<open>Routes and rounds\<close>

lemma fold_max_if:
  fixes c :: int
  shows "c \<le> fold (\<lambda>s c. if P s then max c (f s) else c) ss c \<and>
    (\<forall>s \<in> set ss. P s \<longrightarrow> f s \<le> fold (\<lambda>s c. if P s then max c (f s) else c) ss c)"
proof (induction ss arbitrary: c)
  case (Cons s ss)
  show ?case using Cons.IH [of c] Cons.IH [of "max c (f s)"] by (auto simp del: max.bounded_iff)
qed simp

lemma prior_completion_ge:
  "prior_completion model rc r = Some c \<Longrightarrow> s \<in> set (m_sinks model) \<Longrightarrow> s_round s < r \<Longrightarrow> rc ! nat (s_route s) \<le> c"
  using fold_max_if [of "-1" "\<lambda>s. s_round s < r" "\<lambda>s. rc ! nat (s_route s)" "m_sinks model"]
  by (auto simp: prior_completion_def split: if_splits)

lemma prior_completion_le:
  assumes "prior_completion model rc r = Some c" and "-1 \<le> b"
    and "\<And>s. s \<in> set (m_sinks model) \<Longrightarrow> 0 \<le> s_route s \<Longrightarrow> rc ! nat (s_route s) \<le> b"
  shows "c \<le> b"
proof -
  have "fold (\<lambda>s c. if s_round s < r then max c (rc ! nat (s_route s)) else c) (m_sinks model) (-1) \<le> b"
    by (rule fold_keeps) (use assms in \<open>auto simp: prior_completion_def list_ex_iff not_less split: if_splits\<close>)
  then show ?thesis using assms(1) by (simp add: prior_completion_def split: if_splits)
qed

definition arrival :: "'d model \<Rightarrow> int list \<Rightarrow> sink \<Rightarrow> int" where
  "arrival model slots s = slots ! nat (s_hop s) + h_latency (m_hops model ! nat (s_hop s))"

lemma fold_completion:
  fixes model :: "'d model" and slots :: "int list"
  assumes "\<And>s. s \<in> set ss \<Longrightarrow> s_round s = r \<Longrightarrow> nat (s_route s) < length c"
  defines "f \<equiv> (\<lambda>s c. if s_round s \<noteq> r then c else c[nat (s_route s) := max (c ! nat (s_route s)) (arrival model slots s)])"
  shows "length (fold f ss c) = length c \<and> (\<forall>j < length c. c ! j \<le> fold f ss c ! j) \<and>
    (\<forall>s \<in> set ss. s_round s = r \<longrightarrow> arrival model slots s \<le> fold f ss c ! nat (s_route s))"
  using assms(1)
proof (induction ss arbitrary: c)
  case (Cons s ss)
  have len: "length (f s c) = length c" by (simp add: f_def)
  have ih: "length (fold f ss (f s c)) = length c" "\<forall>j < length c. f s c ! j \<le> fold f ss (f s c) ! j"
      "\<forall>s' \<in> set ss. s_round s' = r \<longrightarrow> arrival model slots s' \<le> fold f ss (f s c) ! nat (s_route s')"
    using Cons.IH [of "f s c"] Cons.prems len by auto
  have grow: "c ! j \<le> f s c ! j" if "j < length c" for j using that
    by (cases "j = nat (s_route s)") (auto simp: f_def)
  have "arrival model slots s \<le> f s c ! nat (s_route s)" if "s_round s = r" using that Cons.prems by (auto simp: f_def)
  moreover have "f s c ! nat (s_route s) \<le> fold f ss (f s c) ! nat (s_route s)" if "s_round s = r"
    using that ih(2) Cons.prems by auto
  ultimately show ?case using ih grow by (auto intro: order_trans)
qed simp

lemma complete_routes_Some:
  "complete_routes model slots r c = Some c' \<longleftrightarrow>
    (\<forall>s \<in> set (m_sinks model). s_round s = r \<longrightarrow> 0 \<le> s_route s \<and> 0 \<le> s_hop s \<and> s_hop s < int (length slots) \<and>
       int_ok (arrival model slots s)) \<and>
    c' = fold (\<lambda>s c. if s_round s \<noteq> r then c else c[nat (s_route s) := max (c ! nat (s_route s)) (arrival model slots s)]) (m_sinks model) c"
  by (auto simp: complete_routes_def list_ex_iff arrival_def Let_def not_le cong: if_cong)

lemma fold_max_ge: "c \<le> fold (\<lambda>x m. max m (f x)) xs c \<and> (\<forall>x \<in> set xs. f x \<le> fold (\<lambda>x m. max m (f x)) xs c)" for c :: int
  using fold_max_if [of c "\<lambda>_. True" f xs] by simp

lemma maximum_route_ge: "0 \<le> maximum_route model" "s \<in> set (m_sinks model) \<Longrightarrow> s_route s \<le> maximum_route model"
  using fold_max_ge [of 0 s_route "m_sinks model"] by (auto simp: maximum_route_def)

lemma maximum_round_ge: "0 \<le> maximum_round model" "i < hop_count model \<Longrightarrow> h_round (m_hops model ! i) \<le> maximum_round model"
  using fold_max_ge [of 0 h_round "m_hops model"] by (auto simp: maximum_round_def)


text \<open>
  After \<open>k\<close> rounds exactly the hops of these rounds are placed; every sink of such a round whose hop was
  placed by then is complete on its route, and every later round starts \<open>settle_slots\<close> after it.
\<close>

definition start_of :: "int list \<Rightarrow> int \<Rightarrow> int" where
  "start_of round_ready r = (if 0 \<le> r \<and> r < int (length round_ready) then round_ready ! nat r else 0)"

text \<open>The sinks of the first \<open>k\<close> rounds whose hop belongs to their own or an earlier round.\<close>

definition settled :: "'d model \<Rightarrow> nat \<Rightarrow> sink set" where
  "settled model k = {s \<in> set (m_sinks model). 0 \<le> s_round s \<and> s_round s < int k \<and> 0 \<le> s_hop s \<and> s_hop s < int (hop_count model) \<and>
     h_round (m_hops model ! nat (s_hop s)) \<le> s_round s}"

definition build_inv :: "'d model \<Rightarrow> nat \<Rightarrow> build_state \<Rightarrow> bool" where
  "build_inv model k st \<longleftrightarrow>
     slots_inv model (start_of (b_round_ready st)) (b_slots st) (b_ready st) (b_occupied st) \<and>
     placed (b_slots st) = {i. i < hop_count model \<and> h_round (m_hops model ! i) < int k} \<and>
     length (b_round_ready st) = nat (maximum_round model + 1) \<and> length (b_route_completion st) = nat (maximum_route model + 1) \<and>
     (in_range model \<longrightarrow> (\<forall>c \<in> set (b_route_completion st). c \<le> 2 ^ 29)) \<and>
     (\<forall>s \<in> settled model k. arrival model (b_slots st) s \<le> b_route_completion st ! nat (s_route s)) \<and>
     (\<forall>r < k. r < length (b_round_ready st) \<longrightarrow> 0 \<le> b_round_ready st ! r \<and>
        (\<forall>s \<in> settled model r. arrival model (b_slots st) s + m_settle_slots model \<le> b_round_ready st ! r))"

lemma slots_inv_cong:
  assumes "slots_inv model S slots ready occupied" and "\<And>i. i \<in> placed slots \<Longrightarrow> S (h_round (m_hops model ! i)) = S' (h_round (m_hops model ! i))"
  shows "slots_inv model S' slots ready occupied"
  using assms by (auto simp: slots_inv_def well_placed_def Let_def)

lemma build_start_inv:
  assumes "model_wf model"
  shows "build_inv model 0 (build_start model)"
proof -
  have n: "0 < hop_count model" using assms by (simp add: model_wf_def)
  have "\<not> h_round (m_hops model ! i) < 0" if "i < hop_count model" for i
    using model_wf_hop [OF assms that] by (simp add: hop_wf_def Let_def)
  moreover have "placed (replicate (hop_count model) (-1)) = {}" by (auto simp: placed_def)
  ultimately show ?thesis using empty_table [OF n]
    by (auto simp: build_inv_def build_start_def Let_def slots_inv_def settled_def)
qed

lemma source_ready_of_props:
  assumes wf: "model_wf model" and inv: "build_inv model k st"
  shows "case source_ready_of model (b_route_completion st) k of
      Inl e \<Rightarrow> in_range model \<longrightarrow> e = Infeasible
    | Inr x \<Rightarrow> 0 \<le> x \<and> (in_range model \<longrightarrow> x \<le> 2 ^ 30) \<and>
        (\<forall>s \<in> settled model k. arrival model (b_slots st) s + m_settle_slots model \<le> x)"
proof (cases "k = 0")
  case False
  have range: "in_range model \<Longrightarrow> s \<in> set (m_sinks model) \<Longrightarrow> 0 \<le> s_route s" for s
    by (auto simp: in_range_def list_all_iff)
  have settle: "0 \<le> m_settle_slots model" using wf by (simp add: model_wf_def)
  show ?thesis
  proof (cases "prior_completion model (b_route_completion st) (int k)")
    case None
    then have "\<exists>s \<in> set (m_sinks model). s_route s < 0" by (auto simp: prior_completion_def list_ex_iff split: if_splits)
    then have "\<not> in_range model" using range by force
    then show ?thesis using False None by (simp add: source_ready_of_def)
  next
    case (Some c)
    have "b_route_completion st ! nat (s_route s) \<le> 2 ^ 29" if "in_range model" "s \<in> set (m_sinks model)" for s
    proof -
      have "nat (s_route s) < length (b_route_completion st)"
        using inv maximum_route_ge(2) [OF that(2)] maximum_route_ge(1) [of model] range [OF that] by (simp add: build_inv_def)
      then show ?thesis using inv that(1) by (simp add: build_inv_def)
    qed
    then have le: "c \<le> 2 ^ 29" if "in_range model" using that by (intro prior_completion_le [OF Some]) simp_all
    have ge: "arrival model (b_slots st) s \<le> c" if "s \<in> settled model k" for s
    proof -
      have "s \<in> set (m_sinks model)" "s_round s < int k" using that by (simp_all add: settled_def)
      moreover have "arrival model (b_slots st) s \<le> b_route_completion st ! nat (s_route s)"
        using inv that by (simp add: build_inv_def)
      ultimately show ?thesis using prior_completion_ge [OF Some] by fastforce
    qed
    have "in_range model \<Longrightarrow> m_settle_slots model \<le> 2 ^ 29" by (simp add: in_range_def)
    then have "in_range model \<Longrightarrow> c + m_settle_slots model \<le> 2 ^ 30" using le by force
    moreover from this have "in_range model \<Longrightarrow> 0 \<le> c \<Longrightarrow> int_ok (c + m_settle_slots model)"
      using settle by (force simp: int_ok_def)
    moreover have "0 \<le> c \<Longrightarrow> 0 \<le> c + m_settle_slots model" using settle by simp
    ultimately show ?thesis using False Some ge by (auto simp: source_ready_of_def)
  qed
qed (simp add: source_ready_of_def settled_def)


lemma arrival_range:
  assumes wf: "model_wf model" and range: "in_range model" and inv: "slots_inv model S slots ready occupied"
    and s: "s \<in> set (m_sinks model)"
  shows "-1 \<le> arrival model slots s" "arrival model slots s \<le> 2 ^ 29"
proof -
  let ?i = "nat (s_hop s)"
  have i: "?i < hop_count model" using range s by (auto simp: in_range_def list_all_iff)
  then have lat: "0 \<le> h_latency (m_hops model ! ?i)" "h_latency (m_hops model ! ?i) \<le> 2 ^ 29"
    using model_wf_hop [OF wf i] in_range_hop [OF range i] by (auto simp: hop_wf_def Let_def)
  have "-1 \<le> arrival model slots s \<and> arrival model slots s \<le> 2 ^ 29"
  proof (cases "?i \<in> placed slots")
    case True
    then show ?thesis using slots_inv_range [OF wf inv True] lat range by (simp add: arrival_def in_range_def)
  next
    case False
    then have "slots ! ?i = -1" using i inv by (simp add: placed_def slots_inv_def)
    then show ?thesis using lat by (simp add: arrival_def)
  qed
  then show "-1 \<le> arrival model slots s" "arrival model slots s \<le> 2 ^ 29" by auto
qed

lemma complete_routes_props:
  assumes wf: "model_wf model" and inv: "slots_inv model S slots ready occupied"
    and len: "length c = nat (maximum_route model + 1)"
  shows "case complete_routes model slots r c of
      None \<Rightarrow> \<not> in_range model
    | Some c' \<Rightarrow> length c' = length c \<and> (\<forall>j < length c. c ! j \<le> c' ! j) \<and>
        (\<forall>s \<in> set (m_sinks model). s_round s = r \<longrightarrow> arrival model slots s \<le> c' ! nat (s_route s)) \<and>
        (in_range model \<and> (\<forall>x \<in> set c. x \<le> 2 ^ 29) \<longrightarrow> (\<forall>x \<in> set c'. x \<le> 2 ^ 29))"
proof (cases "complete_routes model slots r c")
  case None
  then have "\<not> (\<forall>s \<in> set (m_sinks model). s_round s = r \<longrightarrow> 0 \<le> s_route s \<and> 0 \<le> s_hop s \<and>
      s_hop s < int (length slots) \<and> int_ok (arrival model slots s))"
    unfolding complete_routes_def by (auto simp: list_ex_iff arrival_def not_le split: if_splits)
  moreover have "0 \<le> s_route s \<and> 0 \<le> s_hop s \<and> s_hop s < int (length slots) \<and> int_ok (arrival model slots s)"
    if "in_range model" "s \<in> set (m_sinks model)" for s
  proof -
    have "length slots = hop_count model" using inv by (simp add: slots_inv_def)
    moreover have "int_ok (arrival model slots s)" using arrival_range [OF wf that(1) inv that(2)] by (simp add: int_ok_def)
    ultimately show ?thesis using that by (simp add: in_range_def list_all_iff)
  qed
  ultimately show ?thesis using None by auto
next
  case (Some c')
  let ?f = "\<lambda>s c. if s_round s \<noteq> r then c else c[nat (s_route s) := max (c ! nat (s_route s)) (arrival model slots s)]"
  have c': "c' = fold ?f (m_sinks model) c" using Some complete_routes_Some by blast
  have route: "nat (s_route s) < length c" if "s \<in> set (m_sinks model)" for s
    using maximum_route_ge(2) [OF that] maximum_route_ge(1) [of model] by (simp add: len)
  have "(\<forall>x \<in> set (fold ?f (m_sinks model) c). x \<le> 2 ^ 29) \<and> length (fold ?f (m_sinks model) c) = length c"
    if "in_range model" "\<forall>x \<in> set c. x \<le> 2 ^ 29"
  proof (rule fold_keeps)
    fix s and c1 :: "int list" assume s: "s \<in> set (m_sinks model)" and c1: "(\<forall>x \<in> set c1. x \<le> 2 ^ 29) \<and> length c1 = length c"
    have "max (c1 ! nat (s_route s)) (arrival model slots s) \<le> 2 ^ 29"
      using arrival_range(2) [OF wf that(1) inv s] c1 route [OF s] by simp
    then show "(\<forall>x \<in> set (?f s c1). x \<le> 2 ^ 29) \<and> length (?f s c1) = length c"
      using c1 by (auto dest!: subsetD [OF set_update_subset_insert])
  qed (use that in auto)
  moreover have "length c' = length c \<and> (\<forall>j < length c. c ! j \<le> c' ! j) \<and>
      (\<forall>s \<in> set (m_sinks model). s_round s = r \<longrightarrow> arrival model slots s \<le> c' ! nat (s_route s))"
    unfolding c' by (rule fold_completion) (rule route)
  ultimately show ?thesis using Some by (simp add: c')
qed


lemma arrival_frozen:
  assumes "s \<in> settled model k" and "placed slots = {i. i < hop_count model \<and> h_round (m_hops model ! i) < int k}"
    and "\<forall>i \<in> placed slots. slots' ! i = slots ! i"
  shows "arrival model slots' s = arrival model slots s"
proof -
  have s: "0 \<le> s_hop s" "s_hop s < int (hop_count model)" "h_round (m_hops model ! nat (s_hop s)) \<le> s_round s" "s_round s < int k"
    using assms(1) by (simp_all add: settled_def)
  then have "nat (s_hop s) < hop_count model" "h_round (m_hops model ! nat (s_hop s)) < int k" by linarith+
  then have "nat (s_hop s) \<in> placed slots" using assms(2) by simp
  then show ?thesis using assms(3) by (simp add: arrival_def)
qed

lemma settled_Suc:
  "s \<in> settled model (Suc k) \<Longrightarrow> s \<in> settled model k \<or> (s \<in> set (m_sinks model) \<and> s_round s = int k)"
  by (auto simp: settled_def)

text \<open>The state after a round, from the results of its three parts.\<close>

lemma build_inv_next:
  assumes wf: "model_wf model" and inv: "build_inv model k st" and k: "k < length (b_round_ready st)"
    and x: "0 \<le> x" "\<And>s. s \<in> settled model k \<Longrightarrow> arrival model (b_slots st) s + m_settle_slots model \<le> x"
    and slots: "slots_inv model (start_of ((b_round_ready st)[k := x])) slots ready occupied"
    and frozen: "\<forall>i \<in> placed (b_slots st). slots ! i = b_slots st ! i"
    and pl': "placed slots = placed (b_slots st) \<union> of_round model (int k)"
    and c: "complete_routes model slots (int k) (b_route_completion st) = Some c"
  shows "build_inv model (Suc k) \<lparr>b_slots = slots, b_ready = ready, b_occupied = occupied,
    b_round_ready = (b_round_ready st)[k := x], b_route_completion = c\<rparr>"
proof -
  have pl: "placed (b_slots st) = {i. i < hop_count model \<and> h_round (m_hops model ! i) < int k}"
    and lenc: "length (b_route_completion st) = nat (maximum_route model + 1)" using inv by (auto simp: build_inv_def)
  note comp = complete_routes_props [OF wf slots lenc, of "int k", unfolded c]
  have same: "arrival model slots s = arrival model (b_slots st) s" if "s \<in> settled model j" "j \<le> k" for s j
    using that by (intro arrival_frozen [OF _ pl frozen]) (auto simp: settled_def)
  have "arrival model slots s \<le> c ! nat (s_route s)" if "s \<in> settled model (Suc k)" for s
    using settled_Suc [OF that]
  proof
    assume s: "s \<in> settled model k"
    then have "s \<in> set (m_sinks model)" by (simp add: settled_def)
    then have "nat (s_route s) < length (b_route_completion st)"
      using maximum_route_ge(2) [of s model] maximum_route_ge(1) [of model] by (simp add: lenc)
    then have "b_route_completion st ! nat (s_route s) \<le> c ! nat (s_route s)" using comp by simp
    moreover have "arrival model (b_slots st) s \<le> b_route_completion st ! nat (s_route s)" using inv s by (simp add: build_inv_def)
    ultimately show ?thesis using same [OF s] by simp
  qed (use comp in simp)
  moreover have "placed slots = {i. i < hop_count model \<and> h_round (m_hops model ! i) < int (Suc k)}"
  proof -
    have "x < int (Suc k) \<longleftrightarrow> x < int k \<or> x = int k" for x by linarith
    then show ?thesis unfolding pl' pl of_round_def by blast
  qed
  moreover have "0 \<le> (b_round_ready st)[k := x] ! r \<and>
      (\<forall>s \<in> settled model r. arrival model slots s + m_settle_slots model \<le> (b_round_ready st)[k := x] ! r)"
    if "r < Suc k" "r < length (b_round_ready st)" for r
    using that x inv same by (cases "r = k") (auto simp: build_inv_def less_Suc_eq)
  moreover have "in_range model \<longrightarrow> (\<forall>x \<in> set c. x \<le> 2 ^ 29)" "length c = nat (maximum_route model + 1)"
    using comp inv lenc by (simp_all add: build_inv_def)
  moreover have "length (b_round_ready st) = nat (maximum_round model + 1)" using inv by (simp add: build_inv_def)
  ultimately show ?thesis using slots by (simp add: build_inv_def)
qed

lemma build_round_props:
  assumes wf: "model_wf model" "fits model" and inv: "build_inv model k st" and k: "int k \<le> maximum_round model"
  shows "case build_round model priority k st of Inl e \<Rightarrow> in_range model \<longrightarrow> e = Infeasible | Inr st' \<Rightarrow> build_inv model (Suc k) st'"
proof (cases "source_ready_of model (b_route_completion st) k")
  case (Inl e)
  then show ?thesis using source_ready_of_props [OF wf(1) inv] by (simp add: build_round_def)
next
  case (Inr x)
  have x: "0 \<le> x" "in_range model \<Longrightarrow> x \<le> 2 ^ 30" "\<And>s. s \<in> settled model k \<Longrightarrow> arrival model (b_slots st) s + m_settle_slots model \<le> x"
    using source_ready_of_props [OF wf(1) inv] Inr by auto
  define S where "S = start_of ((b_round_ready st)[k := x])"
  have klen: "k < length (b_round_ready st)" using inv k by (simp add: build_inv_def)
  have pl: "placed (b_slots st) = {i. i < hop_count model \<and> h_round (m_hops model ! i) < int k}" using inv by (simp add: build_inv_def)
  have Sk: "S (int k) = x" using klen by (simp add: S_def start_of_def)
  have "start_of (b_round_ready st) (h_round (m_hops model ! i)) = S (h_round (m_hops model ! i))" if "i \<in> placed (b_slots st)" for i
  proof -
    have "h_round (m_hops model ! i) < int k" using that by (simp add: pl)
    then have "nat (h_round (m_hops model ! i)) \<noteq> k" if "0 \<le> h_round (m_hops model ! i)" using that by linarith
    then show ?thesis by (auto simp: S_def start_of_def)
  qed
  then have si: "slots_inv model S (b_slots st) (b_ready st) (b_occupied st)"
    using inv slots_inv_cong [of model "start_of (b_round_ready st)" "b_slots st" "b_ready st" "b_occupied st" S]
    by (simp add: build_inv_def)
  have none: "placed (b_slots st) \<inter> of_round model (int k) = {}" unfolding pl of_round_def by force
  note run = run_round_props [where S = S and r = "int k", OF wf _ si none, of priority, unfolded Sk, OF x(1)]
  show ?thesis
  proof (cases "run_round model priority x (int k) (b_slots st, b_ready st, b_occupied st)")
    case (Inl e)
    then show ?thesis using run x(2) \<open>source_ready_of _ _ _ = Inr x\<close> by (simp add: build_round_def)
  next
    case run': (Inr res)
    obtain slots ready occupied where res: "res = (slots, ready, occupied)" by (cases res)
    have slots: "slots_inv model S slots ready occupied" "\<forall>i \<in> placed (b_slots st). slots ! i = b_slots st ! i"
        "placed slots = placed (b_slots st) \<union> of_round model (int k)" using run run' res by auto
    have "length (b_route_completion st) = nat (maximum_route model + 1)" using inv by (simp add: build_inv_def)
    from complete_routes_props [OF wf(1) slots(1) this, of "int k"]
    show ?thesis using build_inv_next [OF wf(1) inv klen x(1,3) slots(1) [unfolded S_def] slots(2,3)] Inr run' res
      by (auto simp: build_round_def split: option.splits)
  qed
qed


lemma build_rounds_props:
  assumes wf: "model_wf model" "fits model" and inv: "build_inv model k st" and m: "int m \<le> maximum_round model + 1" and "k \<le> m"
  shows "case build_rounds model priority [k..<m] st of Inl e \<Rightarrow> in_range model \<longrightarrow> e = Infeasible | Inr st' \<Rightarrow> build_inv model m st'"
  using inv \<open>k \<le> m\<close>
proof (induction "m - k" arbitrary: k st)
  case (Suc d)
  then have k: "k < m" "[k..<m] = k # [Suc k..<m]" by (simp_all add: upt_conv_Cons)
  have "int k \<le> maximum_round model" using m k by simp
  from build_round_props [OF wf Suc.prems(1) this, of priority] show ?case
    using Suc.hyps(1) [of "Suc k"] Suc.hyps(2) k by (cases "build_round model priority k st") simp_all
qed simp

section \<open>Feasible schedules\<close>

text \<open>
  The contract of a schedule: a hop is not ready before its round starts, its release slot, or the arrival
  of a parent plus the delay of the dependency; it is sent within its ratio and ends before the barrier at
  the end of the frame.
\<close>

definition hop_feasible :: "'d model \<Rightarrow> int list \<Rightarrow> int list \<Rightarrow> int list \<Rightarrow> nat \<Rightarrow> bool" where
  "hop_feasible model slots ready round_ready i \<longleftrightarrow> (let hop = m_hops model ! i in
     0 \<le> h_round hop \<and> h_round hop < int (length round_ready) \<and>
     round_ready ! nat (h_round hop) \<le> ready ! i \<and> h_release hop \<le> ready ! i \<and>
     (\<forall>(p, d) \<in> set (parents model i). slots ! p + h_latency (m_hops model ! p) + d \<le> ready ! i) \<and>
     ready ! i \<le> slots ! i \<and> slots ! i < ready ! i + h_ratio hop \<and>
     slots ! i + h_latency hop + m_runtime_barrier_slots model < m_frame_slots model)"

text \<open>No two hops use the same lane of the same domain in the same slot.\<close>

definition lanes_exclusive :: "'d model \<Rightarrow> int list \<Rightarrow> bool" where
  "lanes_exclusive model slots \<longleftrightarrow> (\<forall>i < hop_count model. \<forall>j < hop_count model.
     i \<noteq> j \<and> h_domain (m_hops model ! i) = h_domain (m_hops model ! j) \<and> h_lane (m_hops model ! i) = h_lane (m_hops model ! j) \<longrightarrow>
     slots ! i \<noteq> slots ! j)"

text \<open>A round starts only after the sinks of the earlier rounds have arrived and settled.\<close>

definition rounds_separated :: "'d model \<Rightarrow> int list \<Rightarrow> int list \<Rightarrow> bool" where
  "rounds_separated model slots round_ready \<longleftrightarrow>
     (\<forall>r < length round_ready. \<forall>s \<in> settled model r. arrival model slots s + m_settle_slots model \<le> round_ready ! r)"

definition feasible :: "'d model \<Rightarrow> 'd schedule \<Rightarrow> bool" where
  "feasible model s \<longleftrightarrow> length (sc_slots s) = hop_count model \<and> length (sc_ready s) = hop_count model \<and>
     (\<forall>i < hop_count model. hop_feasible model (sc_slots s) (sc_ready s) (sc_round_ready s) i) \<and>
     lanes_exclusive model (sc_slots s) \<and> rounds_separated model (sc_slots s) (sc_round_ready s)"

lemma finish_schedule_sel [simp]:
  "sc_slots (finish_schedule F model st) = b_slots st" "sc_ready (finish_schedule F model st) = b_ready st"
  "sc_round_ready (finish_schedule F model st) = b_round_ready st"
  "sc_route_completion (finish_schedule F model st) = b_route_completion st"
  by (simp_all add: finish_schedule_def Let_def split: prod.split)

lemma build_inv_final:
  assumes wf: "model_wf model" and inv: "build_inv model (nat (maximum_round model + 1)) st"
  shows "placed (b_slots st) = {..<hop_count model}"
proof -
  have "h_round (m_hops model ! i) < int (nat (maximum_round model + 1))" if "i < hop_count model" for i
    using maximum_round_ge(2) [OF that] maximum_round_ge(1) [of model] by simp
  then show ?thesis using inv by (auto simp: build_inv_def)
qed

lemma build_schedule_Inr:
  assumes "model_wf model" and "fits model" and "build_schedule F model priority = Inr s"
  obtains st where "s = finish_schedule F model st" "build_inv model (nat (maximum_round model + 1)) st"
    "placed (b_slots st) = {..<hop_count model}"
proof -
  from assms(3) obtain st where st: "build_rounds model priority [0..<nat (maximum_round model + 1)] (build_start model) = Inr st"
      "s = finish_schedule F model st"
    by (auto simp: build_schedule_def split: if_splits sum.splits)
  have "build_inv model (nat (maximum_round model + 1)) st"
    using build_rounds_props [OF assms(1,2) build_start_inv [OF assms(1)], of "nat (maximum_round model + 1)" priority]
      st(1) maximum_round_ge(1) [of model] by simp
  then show ?thesis using st(2) build_inv_final [OF assms(1)] that by blast
qed

lemma build_inv_hop_feasible:
  assumes wf: "model_wf model" and inv: "build_inv model (nat (maximum_round model + 1)) st" and i: "i < hop_count model"
  shows "hop_feasible model (b_slots st) (b_ready st) (b_round_ready st) i"
proof -
  let ?r = "h_round (m_hops model ! i)"
  have "i \<in> placed (b_slots st)" using build_inv_final [OF wf inv] i by simp
  then have wp: "well_placed model (start_of (b_round_ready st)) (b_slots st) (b_ready st) i"
    using inv by (auto simp: build_inv_def slots_inv_def)
  have round: "0 \<le> ?r" "?r < int (length (b_round_ready st))"
    using model_wf_hop [OF wf i] maximum_round_ge(2) [OF i] maximum_round_ge(1) [of model] inv
    by (auto simp: hop_wf_def Let_def build_inv_def)
  have "b_ready st ! i = hop_ready model (b_slots st) (start_of (b_round_ready st) ?r) i"
    using wp by (simp add: well_placed_def Let_def)
  from hop_ready_ge [OF this] show ?thesis using wp round
    by (auto simp: hop_feasible_def well_placed_def Let_def start_of_def)
qed

theorem build_schedule_sound:
  assumes wf: "model_wf model" "fits model" and s: "build_schedule F model priority = Inr s"
  shows "feasible model s"
proof -
  obtain st where st: "s = finish_schedule F model st" and inv: "build_inv model (nat (maximum_round model + 1)) st"
    and pl: "placed (b_slots st) = {..<hop_count model}" by (rule build_schedule_Inr [OF wf s])
  have si: "slots_inv model (start_of (b_round_ready st)) (b_slots st) (b_ready st) (b_occupied st)"
    using inv by (simp add: build_inv_def)
  then have inj: "inj_on (cell model (b_slots st)) {..<hop_count model}" by (simp add: slots_inv_def pl)
  have "lanes_wf model" using wf(1) by (simp add: model_wf_def)
  then have "lanes_exclusive model (b_slots st)"
    using inj by (fastforce simp: lanes_exclusive_def lanes_wf_def inj_on_def cell_def)
  moreover have "rounds_separated model (b_slots st) (b_round_ready st)"
    using inv by (simp add: rounds_separated_def build_inv_def)
  ultimately show ?thesis using si build_inv_hop_feasible [OF wf(1) inv]
    by (simp add: feasible_def st slots_inv_def)
qed

text \<open>For numbers in range the scheduler always ends, without undefined behaviour.\<close>

theorem build_schedule_defined:
  assumes "model_wf model" and "in_range model"
  shows "build_schedule F model priority \<noteq> Inl Undefined"
proof -
  have "maximum_round model \<le> 2 ^ 29" unfolding maximum_round_def
    by (rule fold_keeps) (use assms(2) in \<open>auto simp: in_range_def list_all_iff\<close>)
  moreover have "maximum_route model \<le> 2 ^ 29" unfolding maximum_route_def
    by (rule fold_keeps) (use assms(2) in \<open>auto simp: in_range_def list_all_iff\<close>)
  ultimately have "int_ok (maximum_round model + 1)" "int_ok (maximum_route model + 1)"
    using maximum_round_ge(1) [of model] maximum_route_ge(1) [of model] by (simp_all add: int_ok_def)
  then show ?thesis
    using build_rounds_props [OF assms(1) in_range_fits [OF assms(2)] build_start_inv [OF assms(1)],
        of "nat (maximum_round model + 1)" priority] maximum_round_ge(1) [of model] assms(2)
    by (auto simp: build_schedule_def split: sum.splits)
qed

text \<open>The scheduler never leaves a free slot of the lane unused before the slot it takes.\<close>

theorem build_schedule_earliest:
  assumes wf: "model_wf model" "fits model" and s: "build_schedule F model priority = Inr s" and i: "i < hop_count model"
    and t: "sc_ready s ! i \<le> t" "t < sc_slots s ! i"
  shows "\<exists>j < hop_count model. h_domain (m_hops model ! j) = h_domain (m_hops model ! i) \<and>
    h_lane (m_hops model ! j) = h_lane (m_hops model ! i) \<and> sc_slots s ! j = t"
proof -
  obtain st where st: "s = finish_schedule F model st" and inv: "build_inv model (nat (maximum_round model + 1)) st"
    and pl: "placed (b_slots st) = {..<hop_count model}" by (rule build_schedule_Inr [OF wf s])
  have "well_placed model (start_of (b_round_ready st)) (b_slots st) (b_ready st) i"
    using inv i pl by (auto simp: build_inv_def slots_inv_def)
  then obtain j where j: "j < hop_count model" "h_lane_resource (m_hops model ! j) = h_lane_resource (m_hops model ! i)" "b_slots st ! j = t"
    using t pl unfolding st by (auto simp: well_placed_def Let_def)
  moreover have "lanes_wf model" using wf(1) by (simp add: model_wf_def)
  ultimately show ?thesis using i unfolding st lanes_wf_def by (auto intro!: exI [of _ j])
qed

end
