(* ===== verification/Tdm_Search.thy ===== *)
theory Tdm_Search
  imports Tdm_Rounds "HOL-Library.Multiset"
begin

text \<open>
  The local search of the slot optimizer: every priority vector it tries is a rearrangement of the given
  one, its neighborhoods have at most four hops, and what it returns is a feasible schedule reached by
  strictly better ones.
\<close>

section \<open>Rearranged priorities\<close>

lemma mset_swap_priority:
  assumes "i < length p" and "j < length p"
  shows "mset (swap_priority (i, j) p) = mset p"
  using assms mset_swap [of j p i] by (simp add: swap_priority_def)

lemma length_swap_priority [simp]: "length (swap_priority m p) = length p"
  by (simp add: swap_priority_def)

lemma permutations_lex_mset:
  "p \<in> set (permutations_lex xs) \<longleftrightarrow> mset p = mset xs"
proof (induction xs arbitrary: p rule: permutations_lex.induct)
  case (2 x xs)
  show ?case
  proof
    assume "p \<in> set (permutations_lex (x # xs))"
    then obtain y q where y: "y \<in> set (x # xs)" "p = y # q" "q \<in> set (permutations_lex (remove1 y (x # xs)))"
      by (auto simp del: remove1.simps)
    then have "mset q = mset (remove1 y (x # xs))" using 2 by blast
    then have "mset q = mset (x # xs) - {#y#}" by (simp only: mset_remove1)
    moreover have "y \<in># mset (x # xs)" using y(1) by (simp only: set_mset_mset)
    ultimately show "mset p = mset (x # xs)" by (metis insert_DiffM mset.simps(2) y(2))
  next
    assume p: "mset p = mset (x # xs)"
    then obtain y q where yq: "p = y # q" by (cases p) auto
    then have y: "y \<in> set (x # xs)" using p by (metis list.set_intros(1) mset_eq_setD)
    have "mset q = mset (remove1 y (x # xs))" using p yq by (metis mset_remove1 remove1.simps(2))
    then have "q \<in> set (permutations_lex (remove1 y (x # xs)))" using 2 y by blast
    then show "p \<in> set (permutations_lex (x # xs))" using y yq by (auto simp del: remove1.simps)
  qed
qed simp

lemma length_permutations_lex: "length (permutations_lex xs) = fact (length xs)"
proof (induction xs rule: permutations_lex.induct)
  case (2 x xs)
  have "length (permutations_lex (remove1 y (x # xs))) = fact (length xs)" if "y \<in> set (x # xs)" for y
    using 2 [OF that] that by (simp add: length_remove1 del: remove1.simps)
  then have "map (\<lambda>y. length (permutations_lex (remove1 y (x # xs)))) (x # xs) = map (\<lambda>_. fact (length xs)) (x # xs)"
    by (intro map_cong) auto
  then have "sum_list (map (\<lambda>y. length (permutations_lex (remove1 y (x # xs)))) (x # xs)) = Suc (length xs) * fact (length xs)"
    by (simp only:) (simp add: sum_list_triv)
  then show ?case by (simp add: length_concat comp_def del: remove1.simps)
qed simp

lemma assign_ranks_nth:
  assumes "distinct permutation" and "length ranks = length permutation" and "\<forall>h \<in> set permutation. h < length p"
  shows "length (assign_ranks permutation ranks p) = length p \<and>
    map (\<lambda>h. assign_ranks permutation ranks p ! h) permutation = ranks \<and>
    (\<forall>h. h \<notin> set permutation \<longrightarrow> assign_ranks permutation ranks p ! h = p ! h)"
  using assms
proof (induction permutation arbitrary: ranks p)
  case (Cons h hs)
  then obtain r rs where r: "ranks = r # rs" by (cases ranks) auto
  have ih: "length (assign_ranks hs rs (p[h := r])) = length p"
      "map (\<lambda>h'. assign_ranks hs rs (p[h := r]) ! h') hs = rs"
      "\<forall>h'. h' \<notin> set hs \<longrightarrow> assign_ranks hs rs (p[h := r]) ! h' = p[h := r] ! h'"
    using Cons.IH [of rs "p[h := r]"] Cons.prems r by auto
  have "assign_ranks (h # hs) ranks p = assign_ranks hs rs (p[h := r])" by (simp add: assign_ranks_def r)
  then show ?case using ih Cons.prems r by (auto simp: nth_list_update)
qed (simp add: assign_ranks_def)

text \<open>Giving the ranks of some hops to the same hops in another order only rearranges the priorities.\<close>

lemma mset_split_upt:
  assumes "distinct hs" and "\<forall>h \<in> set hs. h < length p"
  shows "mset p = mset (map (\<lambda>h. p ! h) hs) + mset (map (\<lambda>h. p ! h) (filter (\<lambda>h. h \<notin> set hs) [0..<length p]))"
proof -
  have "set hs \<subseteq> set [0..<length p]" using assms(2) by auto
  then have "mset (filter (\<lambda>h. h \<in> set hs) [0..<length p]) = mset hs"
    using assms(1) by (intro set_eq_iff_mset_eq_distinct [THEN iffD1]) auto
  then have "mset [0..<length p] = mset hs + mset (filter (\<lambda>h. h \<notin> set hs) [0..<length p])"
    by (metis mset_filter multiset_partition)
  then have "mset (map (\<lambda>h. p ! h) [0..<length p]) =
      mset (map (\<lambda>h. p ! h) hs) + mset (map (\<lambda>h. p ! h) (filter (\<lambda>h. h \<notin> set hs) [0..<length p]))"
    by (metis image_mset_union mset_map)
  then show ?thesis by (simp only: map_nth)
qed

lemma mset_assign_ranks:
  assumes "distinct permutation" and "\<forall>h \<in> set permutation. h < length p" and "mset ranks = mset (map (\<lambda>h. p ! h) permutation)"
  shows "mset (assign_ranks permutation ranks p) = mset p" "length (assign_ranks permutation ranks p) = length p"
proof -
  let ?q = "assign_ranks permutation ranks p"
  have "length ranks = length permutation" using assms(3) by (metis length_map size_mset)
  note q = assign_ranks_nth [OF assms(1) this assms(2)]
  then show "length ?q = length p" by simp
  have "map (\<lambda>h. ?q ! h) (filter (\<lambda>h. h \<notin> set permutation) [0..<length p]) =
      map (\<lambda>h. p ! h) (filter (\<lambda>h. h \<notin> set permutation) [0..<length p])"
    using q by (intro map_cong) auto
  moreover have "mset ?q = mset (map (\<lambda>h. ?q ! h) permutation) + mset (map (\<lambda>h. ?q ! h) (filter (\<lambda>h. h \<notin> set permutation) [0..<length p]))"
    using mset_split_upt [of permutation ?q] assms(1,2) q by metis
  ultimately show "mset ?q = mset p" using mset_split_upt [OF assms(1,2)] q assms(3) by metis
qed


section \<open>Moves\<close>

lemma earlier_on_lane_props:
  "distinct (earlier_on_lane model slots c)" "c \<notin> set (earlier_on_lane model slots c)"
  "i \<in> set (earlier_on_lane model slots c) \<Longrightarrow> i < hop_count model"
  by (auto simp: earlier_on_lane_def Let_def)

lemma nearest_blocker_mem: "nearest_blocker model slots c = Some b \<Longrightarrow> b \<in> set (earlier_on_lane model slots c)"
proof -
  let ?f = "\<lambda>i (nearest, nearest_slot). if slots ! i > nearest_slot then (Some i, slots ! i) else (nearest, nearest_slot)"
  have "(case fst (fold ?f (earlier_on_lane model slots c) (None, -1)) of None \<Rightarrow> True | Some b \<Rightarrow> b \<in> set (earlier_on_lane model slots c))"
    by (rule fold_keeps [where I = "\<lambda>x. case fst x of None \<Rightarrow> True | Some b \<Rightarrow> b \<in> set (earlier_on_lane model slots c)"]) auto
  then show "nearest_blocker model slots c = Some b \<Longrightarrow> b \<in> set (earlier_on_lane model slots c)"
    by (simp add: nearest_blocker_def)
qed

lemma swap_candidates_range:
  assumes "move \<in> set (swap_candidates model slots hops)" and "\<forall>h \<in> set hops. h < hop_count model"
  shows "fst move < hop_count model" "snd move < hop_count model"
proof -
  from assms(1) obtain c b where cb: "c \<in> set hops" "nearest_blocker model slots c = Some b" "move = (min c b, max c b)"
    by (force simp: swap_candidates_def split: option.splits)
  then have "b < hop_count model" "c < hop_count model"
    using assms(2) earlier_on_lane_props(3) [OF nearest_blocker_mem [OF cb(2)]] by auto
  then show "fst move < hop_count model" "snd move < hop_count model" using cb(3) by (auto simp: min_def max_def)
qed

lemma neighborhood_props:
  assumes "c < hop_count model"
  shows "distinct (neighborhood model slots c)" "\<forall>h \<in> set (neighborhood model slots c). h < hop_count model"
    "length (neighborhood model slots c) \<le> 4"
proof -
  let ?e = "earlier_on_lane model slots c"
  define bs where "bs = sort (map (\<lambda>i. (slots ! i, i)) ?e)"
  have "mset (map snd bs) = mset ?e" by (simp add: bs_def image_mset.compositionality comp_def)
  then have "distinct (map snd bs)" "set (map snd bs) = set ?e"
    using earlier_on_lane_props(1) by (metis mset_eq_imp_distinct_iff, metis mset_eq_setD)
  then have d: "distinct (map snd (drop (length bs - 3) bs))" "set (map snd (drop (length bs - 3) bs)) \<subseteq> set ?e"
    by (auto simp: drop_map [symmetric] simp del: drop_map dest: in_set_dropD)
  have n: "neighborhood model slots c = sort (c # map snd (drop (length bs - 3) bs))" by (simp add: neighborhood_def bs_def Let_def)
  show "distinct (neighborhood model slots c)" using d earlier_on_lane_props(2) [of c model slots] unfolding n distinct_sort by auto
  show "\<forall>h \<in> set (neighborhood model slots c). h < hop_count model"
    using d(2) assms earlier_on_lane_props(3) [of _ model slots c] unfolding n set_sort by auto
  show "length (neighborhood model slots c) \<le> 4" by (simp add: n)
qed

lemma lns_orders_mset:
  assumes "q \<in> set (lns_orders p hops)" and "distinct hops" and "\<forall>h \<in> set hops. h < length p"
  shows "mset q = mset p"
proof -
  from assms(1) obtain perm where perm: "mset perm = mset hops" "q = assign_ranks perm (sort (map (\<lambda>h. p ! h) hops)) p"
    by (auto simp: lns_orders_def Let_def permutations_lex_mset)
  have "distinct perm" "set perm = set hops" using perm(1) assms(2) by (metis mset_eq_imp_distinct_iff, metis mset_eq_setD)
  then show ?thesis using perm assms(3) by (auto intro!: mset_assign_ranks(1))
qed

lemma lns_orders_length: "length (lns_orders p hops) \<le> fact (length hops)"
  by (metis (no_types, lifting) length_filter_le length_map length_permutations_lex lns_orders_def)

section \<open>The search\<close>

text \<open>
  The best schedule found so far, relative to the schedule and the priorities at the start of the
  iteration: still the same one, or a better one that the list scheduler builds from a rearrangement.
\<close>

definition improves :: "'d fp \<Rightarrow> 'd schedule \<Rightarrow> 'd schedule \<Rightarrow> bool" where
  "improves F s s' = better F s' s"

definition search_inv :: "'d fp \<Rightarrow> 'd model \<Rightarrow> int list \<Rightarrow> 'd schedule \<Rightarrow> 'd search_state \<Rightarrow> bool" where
  "search_inv F model p s st \<longleftrightarrow> (ss_best_priority st = [] \<and> ss_best st = s) \<or>
     (mset (ss_best_priority st) = mset p \<and> build_schedule F model (ss_best_priority st) = Inr (ss_best st) \<and>
      (improves F)\<^sup>+\<^sup>+ s (ss_best st))"

definition INT_MAX :: nat where
  "INT_MAX = 2147483647"

lemma counter_ok: "n \<le> INT_MAX \<Longrightarrow> int_ok (int n)"
  by (simp add: int_ok_def INT_MAX_def)

lemma evaluate_inv:
  assumes wf: "model_wf model" "in_range model" and inv: "search_inv F model p s st" and q: "mset q = mset p"
    and count: "ss_evaluated_moves st + 1 \<le> INT_MAX"
  shows "\<exists>st'. evaluate F model q st = Some st' \<and> search_inv F model p s st' \<and>
    ss_evaluated_moves st' = ss_evaluated_moves st + 1 \<and> ss_lns_neighborhoods st' = ss_lns_neighborhoods st \<and>
    ss_lns_evaluated_orders st' = ss_lns_evaluated_orders st"
proof -
  define st0 where "st0 = st\<lparr>ss_evaluated_moves := ss_evaluated_moves st + 1\<rparr>"
  have st0: "search_inv F model p s st0" "ss_evaluated_moves st0 = ss_evaluated_moves st + 1"
      "ss_lns_neighborhoods st0 = ss_lns_neighborhoods st" "ss_lns_evaluated_orders st0 = ss_lns_evaluated_orders st"
    using inv by (simp_all add: st0_def search_inv_def)
  have run: "evaluate F model q st = (case build_schedule F model q of
       Inl Undefined \<Rightarrow> None
     | Inl Infeasible \<Rightarrow> Some st0
     | Inr candidate \<Rightarrow> Some (if better F candidate (ss_best st0)
         then st0\<lparr>ss_best := candidate, ss_best_priority := q\<rparr> else st0))"
    unfolding evaluate_def Let_def st0_def [symmetric] using counter_ok [OF count] st0(2) by simp
  show ?thesis
  proof (cases "build_schedule F model q")
    case (Inl e)
    then have "e = Infeasible" using build_schedule_defined [OF wf, of F q] by (cases e) auto
    then show ?thesis using Inl st0 by (simp add: run)
  next
    case (Inr c)
    have "(improves F)\<^sup>+\<^sup>+ s c" if "better F c (ss_best st0)"
    proof -
      have step: "improves F (ss_best st0) c" using that by (simp add: improves_def)
      show ?thesis using st0(1) unfolding search_inv_def by (metis step tranclp.r_into_trancl tranclp.trancl_into_trancl)
    qed
    then show ?thesis using Inr st0 q by (auto simp: run search_inv_def)
  qed
qed

lemma evaluate_all_inv:
  assumes wf: "model_wf model" "in_range model" and "search_inv F model p s st" and "\<forall>q \<in> set qs. mset q = mset p"
    and "ss_evaluated_moves st + length qs \<le> INT_MAX"
  shows "\<exists>st'. evaluate_all F model qs st = Some st' \<and> search_inv F model p s st' \<and>
    ss_evaluated_moves st' = ss_evaluated_moves st + length qs \<and> ss_lns_neighborhoods st' = ss_lns_neighborhoods st \<and>
    ss_lns_evaluated_orders st' = ss_lns_evaluated_orders st"
  using assms(3-)
proof (induction qs arbitrary: st)
  case (Cons q qs)
  then obtain st1 where st1: "evaluate F model q st = Some st1" "search_inv F model p s st1" "ss_evaluated_moves st1 = ss_evaluated_moves st + 1"
      "ss_lns_neighborhoods st1 = ss_lns_neighborhoods st" "ss_lns_evaluated_orders st1 = ss_lns_evaluated_orders st"
    using evaluate_inv [OF wf Cons.prems(1), of q] by auto
  then show ?case using Cons.IH [OF st1(2)] Cons.prems by auto
qed simp

text \<open>The three counters of the search are at most \<open>k\<close>.\<close>

definition counters_within :: "nat \<Rightarrow> 'd search_state \<Rightarrow> bool" where
  "counters_within k st \<longleftrightarrow> ss_evaluated_moves st \<le> k \<and> ss_lns_neighborhoods st \<le> k \<and> ss_lns_evaluated_orders st \<le> k"

lemma lns_step_inv:
  assumes wf: "model_wf model" "in_range model" and len: "length p = hop_count model"
    and inv: "search_inv F model p s st" and c: "c < hop_count model"
    and count: "counters_within k st" "k + 24 \<le> INT_MAX"
  shows "\<exists>st'. lns_step F model p slots c st = Some st' \<and> search_inv F model p s st' \<and> counters_within (k + 24) st'"
proof -
  let ?hops = "neighborhood model slots c"
  note nb = neighborhood_props [OF c, of slots]
  have orders: "\<forall>q \<in> set (lns_orders p ?hops). mset q = mset p" using lns_orders_mset nb len by auto
  have "fact (length ?hops) \<le> (fact 4 :: nat)" using nb(3) by (rule fact_mono)
  then have n: "length (lns_orders p ?hops) \<le> 24" using lns_orders_length [of p ?hops] by (simp add: fact_numeral)
  show ?thesis
  proof (cases "length ?hops < 2")
    case True
    then show ?thesis using inv count by (simp add: lns_step_def counters_within_def)
  next
    case False
    define st0 where "st0 = st\<lparr>ss_lns_neighborhoods := ss_lns_neighborhoods st + 1,
      ss_lns_evaluated_orders := ss_lns_evaluated_orders st + length (lns_orders p ?hops)\<rparr>"
    have st0: "search_inv F model p s st0" "ss_evaluated_moves st0 \<le> k" "ss_lns_neighborhoods st0 \<le> k + 24"
        "ss_lns_evaluated_orders st0 \<le> k + 24"
      using inv count(1) n by (simp_all add: st0_def search_inv_def counters_within_def)
    have run: "lns_step F model p slots c st = evaluate_all F model (lns_orders p ?hops) st0"
      using False st0 count(2) counter_ok [of "ss_lns_neighborhoods st0"] counter_ok [of "ss_lns_evaluated_orders st0"]
      by (simp add: lns_step_def st0_def Let_def)
    show ?thesis
      using evaluate_all_inv [OF wf st0(1) orders] st0 n count(2) by (auto simp: run counters_within_def)
  qed
qed

lemma lns_all_inv:
  assumes wf: "model_wf model" "in_range model" and len: "length p = hop_count model"
    and "search_inv F model p s st" and "\<forall>c \<in> set cs. c < hop_count model"
    and "counters_within k st" "k + 24 * length cs \<le> INT_MAX"
  shows "\<exists>st'. lns_all F model p slots cs st = Some st' \<and> search_inv F model p s st' \<and> counters_within (k + 24 * length cs) st'"
  using assms(4-)
proof (induction cs arbitrary: st k)
  case (Cons c cs)
  then obtain st1 where st1: "lns_step F model p slots c st = Some st1" "search_inv F model p s st1" "counters_within (k + 24) st1"
    using lns_step_inv [OF wf len Cons.prems(1) _ Cons.prems(3), of c slots] by auto
  then show ?case using Cons.IH [OF st1(2) _ st1(3)] Cons.prems(2,4) by (auto simp: algebra_simps)
qed simp

lemma swap_candidates_length: "length (swap_candidates model slots hops) \<le> length hops"
proof -
  have "length (concat (map (\<lambda>c. case nearest_blocker model slots c of None \<Rightarrow> [] | Some b \<Rightarrow> [(min c b, max c b)]) hops)) \<le> length hops"
    by (induction hops) (auto split: option.split)
  then show ?thesis unfolding swap_candidates_def length_sort by (rule order_trans [OF length_remdups_leq])
qed

text \<open>The path that guides the search is a path of the model.\<close>

lemma worst_movable_path_range:
  assumes "model_wf model"
  shows "sc_worst_movable_path (finish_schedule F model st) < int (length (m_paths model))"
proof -
  let ?I = "\<lambda>x :: 'a \<times> int \<times> 'a \<times> int \<times> 'a \<times> int. fst (snd (snd (snd x))) < int (length (m_paths model))"
  have index: "p_index path < int (length (m_paths model))" if "path \<in> set (m_paths model)" for path
  proof -
    have "map p_index (m_paths model) = map int [0..<length (m_paths model)]" using assms by (simp add: model_wf_def)
    moreover have "p_index path \<in> set (map p_index (m_paths model))" using that by simp
    ultimately have "p_index path \<in> set (map int [0..<length (m_paths model)])" by simp
    then show ?thesis by auto
  qed
  have "?I (fold (path_metrics F model (b_slots st)) (m_paths model) (fp_infinity F, -1, fp_infinity F, -1, fp_of_int F 0, 0))"
    by (rule fold_keeps) (auto simp: path_metrics_def Let_def index)
  then show ?thesis by (auto simp: finish_schedule_def Let_def split: prod.split)
qed

text \<open>
  Inputs whose search cannot count beyond an \<open>int\<close>: every iteration evaluates at most one swap and \<open>4!\<close> orders for
  each hop of a path.
\<close>

definition search_fits :: "'d model \<Rightarrow> bool" where
  "search_fits model \<longleftrightarrow>
     list_all (\<lambda>path. nat (m_max_iterations model) * (25 * length (p_hops path)) \<le> 2147483647) (m_paths model)"

lemma search_fits_bound:
  assumes "search_fits model"
  shows "\<exists>n. (\<forall>path \<in> set (m_paths model). length (p_hops path) \<le> n) \<and> nat (m_max_iterations model) * (25 * n) \<le> INT_MAX"
proof (cases "m_paths model = []")
  case False
  let ?n = "Max (set (map (\<lambda>path. length (p_hops path)) (m_paths model)))"
  have "?n \<in> set (map (\<lambda>path. length (p_hops path)) (m_paths model))" using False by (intro Max_in) auto
  then have "nat (m_max_iterations model) * (25 * ?n) \<le> INT_MAX"
    using assms by (auto simp: search_fits_def list_all_iff INT_MAX_def)
  moreover have "\<forall>path \<in> set (m_paths model). length (p_hops path) \<le> ?n" by (auto intro: Max_ge)
  ultimately show ?thesis by blast
qed (simp add: INT_MAX_def exI [of _ 0])

definition result_counters :: "nat \<Rightarrow> 'd optimization_result \<Rightarrow> bool" where
  "result_counters k res \<longleftrightarrow> o_evaluated_moves res \<le> k \<and> o_lns_neighborhoods res \<le> k \<and> o_lns_evaluated_orders res \<le> k"

lemma search_step_inv:
  assumes wf: "model_wf model" "in_range model" and len: "length p = hop_count model"
    and s: "build_schedule F model p = Inr (o_schedule res)" and movable: "\<not> sc_worst_movable_path (o_schedule res) < 0"
    and paths: "\<forall>path \<in> set (m_paths model). length (p_hops path) \<le> n"
    and count: "result_counters k res" "k + 25 * n \<le> INT_MAX"
  shows "\<exists>st. search_step F model p res = Some st \<and> search_inv F model p (o_schedule res) st \<and> counters_within (k + 25 * n) st"
proof -
  let ?s = "o_schedule res"
  obtain bst where "?s = finish_schedule F model bst" by (rule build_schedule_Inr [OF wf(1) in_range_fits [OF wf(2)] s])
  then have index: "nat (sc_worst_movable_path ?s) < length (m_paths model)"
    using worst_movable_path_range [OF wf(1), of F bst] movable by simp
  then have path: "path_wf model (m_paths model ! nat (sc_worst_movable_path ?s))"
    using wf(1) by (simp add: model_wf_def list_all_iff)
  let ?worst = "map nat (p_hops (m_paths model ! nat (sc_worst_movable_path ?s)))"
  have worst: "\<forall>h \<in> set ?worst. h < hop_count model" using path by (auto simp: path_wf_def nat_less_iff)
  have short: "length ?worst \<le> n" using paths index by simp
  let ?moves = "map (\<lambda>move. swap_priority move p) (swap_candidates model (sc_slots ?s) ?worst)"
  have moves: "\<forall>q \<in> set ?moves. mset q = mset p"
    using swap_candidates_range [OF _ worst] len by (fastforce intro!: mset_swap_priority)
  have few: "length ?moves \<le> n" using swap_candidates_length [of model "sc_slots ?s" ?worst] short by simp
  let ?st = "\<lparr>ss_best = ?s, ss_best_priority = [], ss_evaluated_moves = o_evaluated_moves res,
    ss_lns_neighborhoods = o_lns_neighborhoods res, ss_lns_evaluated_orders = o_lns_evaluated_orders res\<rparr>"
  have "search_inv F model p ?s ?st" by (simp add: search_inv_def)
  moreover have "ss_evaluated_moves ?st + length ?moves \<le> INT_MAX" using few count by (simp add: result_counters_def)
  ultimately obtain st1 where st1: "evaluate_all F model ?moves ?st = Some st1" "search_inv F model p ?s st1"
      "ss_evaluated_moves st1 = ss_evaluated_moves ?st + length ?moves" "ss_lns_neighborhoods st1 = ss_lns_neighborhoods ?st"
      "ss_lns_evaluated_orders st1 = ss_lns_evaluated_orders ?st"
    using evaluate_all_inv [OF wf _ moves] by blast
  have k1: "counters_within (k + n) st1" using st1(3-5) few count(1) by (simp add: counters_within_def result_counters_def)
  have "k + n + 24 * length ?worst \<le> k + 25 * n" using short by linarith
  then have "k + n + 24 * length ?worst \<le> INT_MAX" and le: "k + n + 24 * length ?worst \<le> k + 25 * n" using count(2) by linarith+
  then obtain st2 where st2: "lns_all F model p (sc_slots ?s) ?worst st1 = Some st2" "search_inv F model p ?s st2"
      "counters_within (k + n + 24 * length ?worst) st2"
    using lns_all_inv [OF wf len st1(2) worst k1, of "sc_slots ?s"] by blast
  have "counters_within (k + 25 * n) st2" using st2(3) le by (auto simp: counters_within_def)
  then show ?thesis using st1(1) st2(1,2) by (auto simp: search_step_def Let_def)
qed

text \<open>What holds of the result after any number of iterations, relative to the initial schedule.\<close>

definition result_inv :: "'d fp \<Rightarrow> 'd model \<Rightarrow> nat \<Rightarrow> 'd schedule \<Rightarrow> int list \<Rightarrow> 'd optimization_result \<Rightarrow> bool" where
  "result_inv F model n s0 p res \<longleftrightarrow> mset p = mset (map h_priority (m_hops model)) \<and>
     build_schedule F model p = Inr (o_schedule res) \<and> (improves F)\<^sup>*\<^sup>* s0 (o_schedule res) \<and>
     o_accepted_moves res \<le> o_iterations res \<and> result_counters (o_iterations res * (25 * n)) res"

lemma optimize_loop_inv:
  assumes wf: "model_wf model" "in_range model" and paths: "\<forall>path \<in> set (m_paths model). length (p_hops path) \<le> n"
    and "result_inv F model n s0 p res" and "(o_iterations res + k) * (25 * n) \<le> INT_MAX"
  shows "\<exists>res' p'. optimize_loop F model k p res = Some res' \<and> result_inv F model n s0 p' res' \<and> o_iterations res' \<le> o_iterations res + k"
  using assms(4-)
proof (induction k arbitrary: p res)
  case 0
  then show ?case by auto
next
  case (Suc k)
  define res1 where "res1 = res\<lparr>o_iterations := o_iterations res + 1\<rparr>"
  have sel: "o_schedule res1 = o_schedule res" "o_iterations res1 = o_iterations res + 1" "o_accepted_moves res1 = o_accepted_moves res"
      "result_counters m res1 = result_counters m res" for m
    by (simp_all add: res1_def result_counters_def)
  have more: "result_counters ((o_iterations res + 1) * (25 * n)) res"
    using Suc.prems(1) by (auto simp: result_inv_def result_counters_def)
  have inv1: "result_inv F model n s0 p res1" using Suc.prems(1) more by (simp add: result_inv_def sel)
  show ?case
  proof (cases "sc_worst_movable_path (o_schedule res1) < 0")
    case True
    then show ?thesis using inv1 by (intro exI [of _ res1] exI [of _ p]) (simp add: res1_def)
  next
    case False
    have len: "length p = hop_count model" using inv1 unfolding result_inv_def by (metis length_map size_mset)
    have built: "build_schedule F model p = Inr (o_schedule res1)" using inv1 by (simp add: result_inv_def)
    have before: "result_counters (o_iterations res * (25 * n)) res1" using Suc.prems(1) by (simp add: result_inv_def sel)
    have step: "o_iterations res * (25 * n) + 25 * n = (o_iterations res + 1) * (25 * n)" by simp
    also have "\<dots> \<le> (o_iterations res + Suc k) * (25 * n)" by (intro mult_le_mono1) simp
    finally have "o_iterations res * (25 * n) + 25 * n \<le> INT_MAX" using Suc.prems(2) by (rule order_trans)
    from search_step_inv [OF wf len built False paths before this]
    obtain st where st: "search_step F model p res1 = Some st" "search_inv F model p (o_schedule res1) st"
        "counters_within (o_iterations res1 * (25 * n)) st"
      unfolding step sel by blast
    define res2 where "res2 = res1\<lparr>o_evaluated_moves := ss_evaluated_moves st, o_lns_neighborhoods := ss_lns_neighborhoods st,
      o_lns_evaluated_orders := ss_lns_evaluated_orders st\<rparr>"
    define res3 where "res3 = res2\<lparr>o_schedule := ss_best st, o_accepted_moves := o_accepted_moves res2 + 1\<rparr>"
    have sel2: "o_schedule res2 = o_schedule res1" "o_iterations res2 = o_iterations res1" "o_accepted_moves res2 = o_accepted_moves res1"
      "result_counters (o_iterations res1 * (25 * n)) res2"
      using st(3) by (simp_all add: res2_def result_counters_def counters_within_def)
    have sel3: "o_schedule res3 = ss_best st" "o_iterations res3 = o_iterations res1" "o_accepted_moves res3 = o_accepted_moves res1 + 1"
      "result_counters (o_iterations res1 * (25 * n)) res3"
      using sel2 by (simp_all add: res3_def result_counters_def)
    have loop: "optimize_loop F model (Suc k) p res = (if ss_best_priority st = [] then Some res2
        else optimize_loop F model k (ss_best_priority st) res3)"
      using False st(1) by (simp add: res1_def res2_def res3_def)
    have inv2: "result_inv F model n s0 p res2" using inv1 sel2 by (simp add: result_inv_def)
    have inv3: "result_inv F model n s0 (ss_best_priority st) res3" if "ss_best_priority st \<noteq> []"
    proof -
      have b: "mset (ss_best_priority st) = mset p" "build_schedule F model (ss_best_priority st) = Inr (ss_best st)"
        "(improves F)\<^sup>+\<^sup>+ (o_schedule res1) (ss_best st)"
        using st(2) that by (auto simp: search_inv_def)
      have "(improves F)\<^sup>*\<^sup>* s0 (ss_best st)"
        using inv1 tranclp_into_rtranclp [OF b(3)] unfolding result_inv_def by (blast intro: rtranclp_trans)
      then show ?thesis using inv1 b(1,2) sel3 Suc.prems(1) unfolding result_inv_def by (simp add: sel)
    qed
    show ?thesis
    proof (cases "ss_best_priority st = []")
      case True
      then show ?thesis unfolding loop using inv2 sel2(2) sel(2) by (intro exI [of _ res2] exI [of _ p]) simp
    next
      case False
      have "(o_iterations res3 + k) * (25 * n) \<le> INT_MAX" using Suc.prems(2) sel3(2) sel(2) by simp
      from Suc.IH [OF inv3 [OF False] this] show ?thesis unfolding loop using False sel3(2) sel(2) by simp
    qed
  qed
qed

theorem optimize_sound:
  assumes wf: "model_wf model" "in_range model" and fits: "search_fits model"
  shows "case build_schedule F model (map h_priority (m_hops model)) of
      Inl e \<Rightarrow> optimize F model = Some (Inl ''initial list schedule is infeasible'')
    | Inr s0 \<Rightarrow> \<exists>res p. optimize F model = Some (Inr res) \<and> feasible model (o_schedule res) \<and>
        (improves F)\<^sup>*\<^sup>* s0 (o_schedule res) \<and> mset p = mset (map h_priority (m_hops model)) \<and>
        build_schedule F model p = Inr (o_schedule res) \<and> int (o_iterations res) \<le> m_max_iterations model \<and>
        o_accepted_moves res \<le> o_iterations res"
proof (cases "build_schedule F model (map h_priority (m_hops model))")
  case (Inl e)
  then have "e = Infeasible" using build_schedule_defined [OF wf, of F] by (cases e) auto
  then show ?thesis using Inl by (simp add: optimize_def)
next
  case (Inr s0)
  let ?p = "map h_priority (m_hops model)"
  let ?res = "\<lparr>o_schedule = s0, o_iterations = 0, o_accepted_moves = 0, o_evaluated_moves = 0,
    o_lns_neighborhoods = 0, o_lns_evaluated_orders = 0\<rparr>"
  obtain n where n: "\<forall>path \<in> set (m_paths model). length (p_hops path) \<le> n" "nat (m_max_iterations model) * (25 * n) \<le> INT_MAX"
    using search_fits_bound [OF fits] by blast
  have inv: "result_inv F model n s0 ?p ?res" using Inr by (simp add: result_inv_def result_counters_def)
  have "(o_iterations ?res + nat (m_max_iterations model)) * (25 * n) \<le> INT_MAX" using n(2) by simp
  from optimize_loop_inv [OF wf n(1) inv this]
  obtain res p where res: "optimize_loop F model (nat (m_max_iterations model)) ?p ?res = Some res" "result_inv F model n s0 p res"
      "o_iterations res \<le> nat (m_max_iterations model)"
    by auto
  moreover have "0 \<le> m_max_iterations model" using wf(1) by (simp add: model_wf_def)
  moreover have "feasible model (o_schedule res)"
    using build_schedule_sound [OF wf(1) in_range_fits [OF wf(2)]] res(2) by (auto simp: result_inv_def)
  ultimately show ?thesis using Inr by (auto simp: optimize_def result_inv_def intro!: exI [of _ p])
qed


text \<open>The orders that the search tries for a neighborhood.\<close>

lemma lns_orders_exact:
  assumes "c < hop_count model" and "length p = hop_count model"
  shows "length (neighborhood model slots c) \<le> 4 \<and> length (lns_orders p (neighborhood model slots c)) \<le> 24 \<and>
    (\<forall>q \<in> set (lns_orders p (neighborhood model slots c)). mset q = mset p) \<and>
    (\<forall>perm. mset perm = mset (neighborhood model slots c) \<longrightarrow>
       map (\<lambda>h. p ! h) perm = sort (map (\<lambda>h. p ! h) perm) \<or>
       assign_ranks perm (sort (map (\<lambda>h. p ! h) perm)) p \<in> set (lns_orders p (neighborhood model slots c)))"
proof (intro conjI)
  let ?hops = "neighborhood model slots c"
  note nb = neighborhood_props [OF assms(1), of slots]
  show "length ?hops \<le> 4" by (rule nb(3))
  have "fact (length ?hops) \<le> (fact 4 :: nat)" using nb(3) by (rule fact_mono)
  then show "length (lns_orders p ?hops) \<le> 24" using lns_orders_length [of p ?hops] by (simp add: fact_numeral)
  show "\<forall>q \<in> set (lns_orders p ?hops). mset q = mset p" using lns_orders_mset nb assms(2) by auto
  have "map (\<lambda>h. p ! h) perm = sort (map (\<lambda>h. p ! h) perm) \<or> assign_ranks perm (sort (map (\<lambda>h. p ! h) perm)) p \<in> set (lns_orders p ?hops)"
    if perm: "mset perm = mset ?hops" for perm
  proof -
    have "mset (map (\<lambda>h. p ! h) perm) = mset (map (\<lambda>h. p ! h) ?hops)" using perm by (simp only: mset_map)
    then have "sort (map (\<lambda>h. p ! h) perm) = sort (map (\<lambda>h. p ! h) ?hops)" by (intro properties_for_sort) simp_all
    then show ?thesis using perm by (auto simp: lns_orders_def Let_def permutations_lex_mset)
  qed
  then show "\<forall>perm. mset perm = mset ?hops \<longrightarrow> map (\<lambda>h. p ! h) perm = sort (map (\<lambda>h. p ! h) perm) \<or>
      assign_ranks perm (sort (map (\<lambda>h. p ! h) perm)) p \<in> set (lns_orders p ?hops)" by blast
qed

end
