(* ===== verification/Tdm_Sinks.thy ===== *)
theory Tdm_Sinks
  imports Tdm_Search
begin

text \<open>
  Sink records, which \<open>read_model\<close> of \<open>src/native/tdm_slot_optimizer.cpp\<close> does not check: the scheduler reads the
  slot of the hop they name, so that a schedule exists only if they name hops.
\<close>

section \<open>The input check ignores the sinks\<close>

lemma compact_lanes_sinks:
  "compact_lanes (model\<lparr>m_sinks := ss\<rparr>) = (compact_lanes model)\<lparr>m_sinks := ss\<rparr>"
  "m_sinks (compact_lanes model) = m_sinks model"
  by (simp_all add: compact_lanes_def Let_def)

lemma check_model_sinks:
  assumes "check_model F have_parameters raw = Inr model" and "ss \<noteq> []"
  shows "check_model F have_parameters (raw\<lparr>m_sinks := ss\<rparr>) = Inr (model\<lparr>m_sinks := ss\<rparr>)"
proof -
  let ?sorted = "\<lambda>m. m\<lparr>m_hops := sort_key h_index (m_hops m), m_paths := sort_key p_index (m_paths m)\<rparr>"
  have swap: "?sorted (raw\<lparr>m_sinks := ss\<rparr>) = (?sorted raw)\<lparr>m_sinks := ss\<rparr>" by simp
  have params: "params_ok F (raw\<lparr>m_sinks := ss\<rparr>) = params_ok F raw" by (simp add: params_ok_def)
  show ?thesis
    using assms unfolding check_model_def params Let_def swap
    by (auto simp: compact_lanes_sinks split: if_split_asm option.split_asm)
qed

lemma check_model_keeps_sinks: "check_model F have_parameters raw = Inr model \<Longrightarrow> m_sinks model = m_sinks raw"
  by (auto simp: check_model_def Let_def compact_lanes_sinks split: if_split_asm option.split_asm)

section \<open>A schedule needs its sinks\<close>

lemma schedule_hop_length: "schedule_hop model priority source_ready st = Inr st' \<Longrightarrow> length (r_slots st') = length (r_slots st)"
  by (elim schedule_hop_Inr) simp

lemma run_round_length:
  assumes "run_round model priority source_ready r (slots, ready, occupied) = Inr (slots', ready', occupied')"
  shows "length slots' = length slots"
proof -
  let ?b = "\<lambda>st. case st of Inl e \<Rightarrow> False | Inr st \<Rightarrow> r_queue st \<noteq> []"
  let ?c = "\<lambda>st. case st of Inl e \<Rightarrow> Inl e | Inr st \<Rightarrow> schedule_hop model priority source_ready st"
  let ?P = "\<lambda>st. case st of Inl e \<Rightarrow> True | Inr st \<Rightarrow> length (r_slots st) = length slots"
  obtain remaining queue expected where start: "round_start model r = (remaining, queue, expected)" by (cases "round_start model r")
  let ?st = "\<lparr>r_slots = slots, r_ready = ready, r_occupied = occupied, r_remaining = remaining, r_queue = queue, r_scheduled = 0\<rparr>"
  obtain st where st: "while_option ?b ?c (Inr ?st) = Some (Inr st)" "r_slots st = slots'"
    using assms start by (auto simp: run_round_def split: option.splits sum.splits if_splits)
  have step: "?P (?c x)" if "?P x" "?b x" for x using that by (auto split: sum.splits dest: schedule_hop_length)
  have "?P (Inr ?st)" by simp
  with while_option_rule [of ?P ?b ?c, OF step st(1)] have "length (r_slots st) = length slots" by simp
  then show ?thesis using st(2) by simp
qed

lemma build_round_sinks:
  assumes "build_round model priority k st = Inr st'"
  shows "length (b_slots st') = length (b_slots st)"
    "s \<in> set (m_sinks model) \<Longrightarrow> s_round s = int k \<Longrightarrow> 0 \<le> s_hop s \<and> s_hop s < int (length (b_slots st))"
proof -
  obtain x slots ready occupied c where run: "run_round model priority x (int k) (b_slots st, b_ready st, b_occupied st) = Inr (slots, ready, occupied)"
    and c: "complete_routes model slots (int k) (b_route_completion st) = Some c" and slots: "b_slots st' = slots"
    using assms by (auto simp: build_round_def split: sum.splits if_splits option.splits prod.splits)
  note len = run_round_length [OF run]
  show "length (b_slots st') = length (b_slots st)" using len slots by simp
  show "0 \<le> s_hop s \<and> s_hop s < int (length (b_slots st))" if "s \<in> set (m_sinks model)" "s_round s = int k"
    using c that len by (auto simp: complete_routes_def list_ex_iff split: if_splits)
qed

lemma build_rounds_sinks:
  assumes "build_rounds model priority rounds st = Inr st'" "k \<in> set rounds" "s \<in> set (m_sinks model)" "s_round s = int k"
  shows "0 \<le> s_hop s \<and> s_hop s < int (length (b_slots st))"
  using assms(1,2)
proof (induction rounds arbitrary: st)
  case (Cons r rounds)
  obtain st1 where st1: "build_round model priority r st = Inr st1" "build_rounds model priority rounds st1 = Inr st'"
    using Cons.prems(1) by (auto split: sum.splits)
  note r = build_round_sinks [OF st1(1)]
  show ?case
  proof (cases "k = r")
    case True
    then show ?thesis using r(2) [OF assms(3)] assms(4) by simp
  next
    case False
    then show ?thesis using Cons.IH [OF st1(2)] Cons.prems(2) r(1) by simp
  qed
qed simp

lemma build_schedule_sinks:
  assumes "build_schedule F model priority = Inr sched" "s \<in> set (m_sinks model)" "0 \<le> s_round s" "s_round s \<le> maximum_round model"
  shows "0 \<le> s_hop s \<and> s_hop s < int (length (m_hops model))"
proof -
  obtain st where st: "build_rounds model priority [0..<nat (maximum_round model + 1)] (build_start model) = Inr st"
    using assms(1) by (auto simp: build_schedule_def split: if_splits sum.splits)
  have "nat (s_round s) \<in> set [0..<nat (maximum_round model + 1)]" using assms(3,4) by auto
  from build_rounds_sinks [OF st this assms(2)] show ?thesis using assms(3) by (simp add: build_start_def Let_def)
qed

text \<open>The search starts from a schedule, so it finds none either.\<close>

lemma optimize_sinks:
  assumes "optimize F model = Some (Inr res)"
  shows "\<exists>sched. build_schedule F model (map h_priority (m_hops model)) = Inr sched"
  using assms by (auto simp: optimize_def Let_def split: sum.splits stop.splits)

lemma bad_sink_stops:
  assumes "check_model F have_parameters raw = Inr model" and "0 \<le> s_round s" and "s_round s \<le> maximum_round model"
    and "s_hop s < 0 \<or> int (length (m_hops model)) \<le> s_hop s"
  shows "check_model F have_parameters (raw\<lparr>m_sinks := m_sinks raw @ [s]\<rparr>) = Inr (model\<lparr>m_sinks := m_sinks raw @ [s]\<rparr>)"
    "build_schedule F (model\<lparr>m_sinks := m_sinks raw @ [s]\<rparr>) priority \<noteq> Inr sched"
    "optimize F (model\<lparr>m_sinks := m_sinks raw @ [s]\<rparr>) \<noteq> Some (Inr res)"
proof -
  let ?model = "model\<lparr>m_sinks := m_sinks raw @ [s]\<rparr>"
  have round: "s_round s \<le> maximum_round ?model" using assms(3) by (simp add: maximum_round_def)
  show "check_model F have_parameters (raw\<lparr>m_sinks := m_sinks raw @ [s]\<rparr>) = Inr ?model" by (rule check_model_sinks [OF assms(1)]) simp
  show no: "build_schedule F ?model priority \<noteq> Inr sched" for priority sched
    using build_schedule_sinks [of F ?model priority sched s] round assms(2,4) by auto
  show "optimize F ?model \<noteq> Some (Inr res)" using optimize_sinks no by blast
qed

end
