(* ===== verification/Chimew_Grouper.thy ===== *)
theory Chimew_Grouper
  imports Kit_Prelude "HOL-Library.Multiset" "HOL-Library.Product_Lexorder"
begin

text \<open>
  The signal grouper (\<open>src/native/chimew_signal_grouper.cpp\<close>): it packs the signals of a domain and ratio
  into TDM groups of at most \<open>ratio\<close> signals with pairwise different slots, preferring signals with
  similar encodings. The model starts from the parsed records.
\<close>

unbundle bit_operations_syntax

section \<open>Signals\<close>

record signal =
  sg_index :: int
  sg_domain :: int
  sg_ratio :: int
  sg_slot :: int
  sg_encoding :: "64 word"

definition popcount :: "64 word \<Rightarrow> int" where
  "popcount value = int (length (filter (bit value) [0..<64]))"

text \<open>The checks of \<open>read_input\<close> on the records it has read.\<close>

definition signal_ok :: "nat \<Rightarrow> signal \<Rightarrow> bool" where
  "signal_ok k signal \<longleftrightarrow> \<not> (sg_index signal \<noteq> int k \<or> sg_domain signal < 0 \<or> sg_ratio signal \<le> 0 \<or> sg_slot signal < 0)"

definition check_signals :: "signal list \<Rightarrow> string + signal list" where
  "check_signals signals =
    (if \<not> list_all (\<lambda>k. signal_ok k (signals ! k)) [0..<length signals] then Inl ''invalid Chimew signal identity''
     else if signals = [] then Inl ''Chimew grouper requires at least one signal''
     else Inr signals)"

section \<open>Grouping the signals of one bucket\<close>

text \<open>A \<open>std::map\<close> of sequences, in the order of the keys; \<open>push_back\<close> is \<open>m[k].push_back(i)\<close>.\<close>

fun push_back :: "'k::linorder \<Rightarrow> nat \<Rightarrow> ('k \<times> nat list) list \<Rightarrow> ('k \<times> nat list) list" where
  "push_back k i [] = [(k, [i])]"
| "push_back k i ((k', js) # m) =
    (if k = k' then (k', js @ [i]) # m else if k < k' then (k, [i]) # (k', js) # m else (k', js) # push_back k i m)"

definition seed_step :: "64 word \<times> nat list \<Rightarrow> ((int \<times> int \<times> int) \<times> 64 word) option \<Rightarrow> ((int \<times> int \<times> int) \<times> 64 word) option" where
  "seed_step = (\<lambda>(encoding, indices) best.
    if indices = [] then best
    else let key = (- popcount encoding, - sint encoding, int (hd indices)) in
      case best of
        None \<Rightarrow> Some (key, encoding)
      | Some (seed_key, target) \<Rightarrow> if key < seed_key then Some (key, encoding) else best)"

definition seed :: "(64 word \<times> nat list) list \<Rightarrow> 64 word" where
  "seed m = (case fold seed_step m None of None \<Rightarrow> 0 | Some (key, target) \<Rightarrow> target)"

definition category :: "64 word \<Rightarrow> 64 word \<Rightarrow> int" where
  "category encoding target = (if encoding = target then 0 else if encoding OR target = target then 1 else 2)"

type_synonym choice = "(int \<times> int \<times> int \<times> int \<times> int \<times> int) \<times> 64 word \<times> nat"

definition best_step :: "signal list \<Rightarrow> int list \<Rightarrow> 64 word \<Rightarrow> 64 word \<times> nat list \<Rightarrow> choice option \<Rightarrow> choice option" where
  "best_step signals used_slots target = (\<lambda>(encoding, indices) best.
    case find (\<lambda>signal. sg_slot (signals ! signal) \<notin> set used_slots) indices of
      None \<Rightarrow> best
    | Some compatible \<Rightarrow>
        let c = category encoding target;
            different = popcount (encoding XOR target);
            key = (c, if c = 2 then different else 0, - popcount encoding, int (length indices), - sint encoding, int compatible)
        in case best of
          None \<Rightarrow> Some (key, encoding, compatible)
        | Some (best_key, _) \<Rightarrow> if key < best_key then Some (key, encoding, compatible) else best)"

definition best_signal :: "signal list \<Rightarrow> int list \<Rightarrow> 64 word \<Rightarrow> (64 word \<times> nat list) list \<Rightarrow> (64 word \<times> nat) option" where
  "best_signal signals used_slots target m = map_option snd (fold (best_step signals used_slots target) m None)"

definition erase :: "64 word \<Rightarrow> nat \<Rightarrow> (64 word \<times> nat list) list \<Rightarrow> (64 word \<times> nat list) list" where
  "erase encoding selected m = map (\<lambda>(e, js). (e, if e = encoding then remove1 selected js else js)) m"

text \<open>The inner loop: it fills one group.\<close>

fun grow :: "signal list \<Rightarrow> int \<Rightarrow> (64 word \<times> nat list) list \<Rightarrow> nat \<Rightarrow> nat list \<Rightarrow> int list \<Rightarrow> 64 word \<Rightarrow>
    (64 word \<times> nat list) list \<times> nat \<times> nat list" where
  "grow signals ratio m 0 members used_slots target = (m, 0, members)"
| "grow signals ratio m (Suc remaining_count) members used_slots target =
    (if int (length members) < ratio then
       (case best_signal signals used_slots target m of
          None \<Rightarrow> (m, Suc remaining_count, members)
        | Some (best_encoding, selected) \<Rightarrow>
            grow signals ratio (erase best_encoding selected m) remaining_count (members @ [selected])
              (sg_slot (signals ! selected) # used_slots) (target OR best_encoding))
     else (m, Suc remaining_count, members))"

text \<open>The outer loop; a call that does not end is \<^const>\<open>None\<close>.\<close>

partial_function (option) group_loop :: "signal list \<Rightarrow> int \<Rightarrow> (64 word \<times> nat list) list \<Rightarrow> nat \<Rightarrow> nat list list \<Rightarrow> nat list list option" where
  "group_loop signals ratio m remaining_count groups =
    (if remaining_count = 0 then Some groups
     else case grow signals ratio m remaining_count [] [] (seed m) of
       (m', remaining_count', members) \<Rightarrow> group_loop signals ratio m' remaining_count' (groups @ [members]))"

declare group_loop.simps [code]

text \<open>
  The first seed negates every encoding as a \<open>long long\<close>, which is undefined for \<open>2 ^ 63\<close>: \<^const>\<open>None\<close> again.
\<close>

definition negatable :: "64 word \<Rightarrow> bool" where
  "negatable encoding \<longleftrightarrow> encoding \<noteq> 2 ^ 63"

definition group_bucket :: "signal list \<Rightarrow> nat list \<Rightarrow> int \<Rightarrow> nat list list option" where
  "group_bucket signals remaining ratio =
    (if \<not> list_all (\<lambda>i. negatable (sg_encoding (signals ! i))) remaining then None
     else group_loop signals ratio (fold (\<lambda>i. push_back (sg_encoding (signals ! i)) i) remaining []) (length remaining) [])"

section \<open>All buckets\<close>

definition buckets :: "signal list \<Rightarrow> ((int \<times> int) \<times> nat list) list" where
  "buckets signals = fold (\<lambda>i. push_back (sg_domain (signals ! i), sg_ratio (signals ! i)) i) [0..<length signals] []"

record grouping =
  gr_assignment :: "int list"
  gr_group_id :: int
  gr_crossing_bits :: int

definition number_group :: "signal list \<Rightarrow> nat list \<Rightarrow> grouping \<Rightarrow> grouping" where
  "number_group signals members st =
    (let (assignment, encoding) = fold (\<lambda>signal (assignment, encoding).
           (assignment[signal := gr_group_id st], encoding OR sg_encoding (signals ! signal))) members (gr_assignment st, 0)
     in \<lparr>gr_assignment = assignment, gr_group_id = gr_group_id st + 1, gr_crossing_bits = gr_crossing_bits st + popcount encoding\<rparr>)"

fun number_buckets :: "signal list \<Rightarrow> ((int \<times> int) \<times> nat list) list \<Rightarrow> grouping \<Rightarrow> grouping option" where
  "number_buckets signals [] st = Some st"
| "number_buckets signals ((key, bucket) # bs) st =
    (case group_bucket signals bucket (snd key) of
       None \<Rightarrow> None
     | Some groups \<Rightarrow> number_buckets signals bs (fold (number_group signals) groups st))"

definition run :: "signal list \<Rightarrow> grouping option" where
  "run signals = number_buckets signals (buckets signals)
     \<lparr>gr_assignment = replicate (length signals) (-1), gr_group_id = 0, gr_crossing_bits = 0\<rparr>"

end
