(* ===== verification/Chimew_Refiner.thy ===== *)
theory Chimew_Refiner
  imports Chimew_Grouper Native_Numbers
begin

text \<open>
  The position refiner (\<open>src/native/chimew_position_refiner.cpp\<close>): among the signals of one domain, ratio and
  encoding it exchanges places in their groups, such that signals with small coordinates go to groups with
  small coordinates, and keeps the exchange unless it makes the groups wider. The model starts from the parsed
  records. Doubles are the type \<open>'d\<close> with the operations \<open>F\<close>. The map of groups is a function to the ascending
  list of members.
\<close>

section \<open>Signals\<close>

record 'd place_signal =
  pg_index :: int
  pg_domain :: int
  pg_ratio :: int
  pg_encoding :: "64 word"
  pg_group :: int
  pg_y :: 'd

datatype refine_error =
    Invalid_signal_identity
  | No_signals
  | Increased_objective

definition place_ok :: "'d fp \<Rightarrow> nat \<Rightarrow> 'd place_signal \<Rightarrow> bool" where
  "place_ok F k signal \<longleftrightarrow> \<not> (pg_index signal \<noteq> int k \<or> pg_domain signal < 0 \<or> pg_ratio signal \<le> 0 \<or> pg_group signal < 0 \<or>
     \<not> fp_isfinite F (pg_y signal))"

definition check_places :: "'d fp \<Rightarrow> 'd place_signal list \<Rightarrow> refine_error + 'd place_signal list" where
  "check_places F signals =
    (if \<not> list_all (\<lambda>k. place_ok F k (signals ! k)) [0..<length signals] then Inl Invalid_signal_identity
     else if signals = [] then Inl No_signals
     else Inr signals)"

section \<open>Groups and their objective\<close>

type_synonym members = "int \<Rightarrow> nat list option"

text \<open>\<open>m[group].insert(i)\<close>, \<open>m[group].erase(i)\<close> and \<open>m.at(group)\<close>, which is only called for groups that exist.\<close>

definition add_member :: "int \<Rightarrow> nat \<Rightarrow> members \<Rightarrow> members" where
  "add_member g i m = m(g := Some (insort_insert i (case m g of None \<Rightarrow> [] | Some js \<Rightarrow> js)))"

definition drop_member :: "int \<Rightarrow> nat \<Rightarrow> members \<Rightarrow> members" where
  "drop_member g i m = m(g := Some (remove1 i (case m g of None \<Rightarrow> [] | Some js \<Rightarrow> js)))"

definition members_at :: "members \<Rightarrow> int \<Rightarrow> nat list" where
  "members_at m g = (case m g of None \<Rightarrow> [] | Some js \<Rightarrow> js)"

definition group_members :: "'d place_signal list \<Rightarrow> members" where
  "group_members signals = fold (\<lambda>i. add_member (pg_group (signals ! i)) i) [0..<length signals] Map.empty"

text \<open>
  \<open>std::sort\<close> by a strict order. The sorted lists have distinct keys, or are lists of numbers in which equal
  elements cannot be told apart, so that any sorting algorithm gives the same list.
\<close>

fun insert_by :: "('a \<Rightarrow> 'a \<Rightarrow> bool) \<Rightarrow> 'a \<Rightarrow> 'a list \<Rightarrow> 'a list" where
  "insert_by lt x [] = [x]"
| "insert_by lt x (y # ys) = (if lt y x then y # insert_by lt x ys else x # y # ys)"

definition sort_by :: "('a \<Rightarrow> 'a \<Rightarrow> bool) \<Rightarrow> 'a list \<Rightarrow> 'a list" where
  "sort_by lt xs = foldr (insert_by lt) xs []"

definition pair_less :: "'d fp \<Rightarrow> 'd \<times> 'b::linorder \<Rightarrow> 'd \<times> 'b \<Rightarrow> bool" where
  "pair_less F = (\<lambda>(a, g) (a', g'). fp_lt F a a' \<or> \<not> fp_lt F a' a \<and> g < g')"

definition spread_step :: "'d fp \<Rightarrow> nat \<times> 'd \<Rightarrow> 'd \<times> 'd \<Rightarrow> 'd \<times> 'd" where
  "spread_step F = (\<lambda>(index, value) (objective, prefix).
     (fp_add F objective (fp_sub F (fp_mul F value (fp_of_int F (int index))) prefix), fp_add F prefix value))"

definition group_objective :: "'d fp \<Rightarrow> 'd list \<Rightarrow> 'd \<Rightarrow> 'd" where
  "group_objective F values objective = fst (fold (spread_step F) (enumerate 0 values) (objective, fp_of_int F 0))"

definition pairwise_objective :: "'d fp \<Rightarrow> 'd place_signal list \<Rightarrow> members \<Rightarrow> int list \<Rightarrow> 'd" where
  "pairwise_objective F signals m groups =
    fold (\<lambda>group objective. case m group of
        None \<Rightarrow> objective
      | Some js \<Rightarrow> group_objective F (sort_by (fp_lt F) (map (\<lambda>i. pg_y (signals ! i)) js)) objective)
      groups (fp_of_int F 0)"

definition median :: "'d fp \<Rightarrow> 'd list \<Rightarrow> 'd" where
  "median F values = (let values = sort_by (fp_lt F) values; middle = length values div 2 in
     if length values mod 2 = 1 then values ! middle
     else fp_div F (fp_add F (values ! (middle - 1)) (values ! middle)) (fp_of_int F 2))"

section \<open>One bucket\<close>

record 'd refiner =
  rf_signals :: "'d place_signal list"
  rf_members :: members
  rf_accepted :: int
  rf_moved :: int

definition anchor :: "'d fp \<Rightarrow> 'd place_signal list \<Rightarrow> members \<Rightarrow> 64 word \<Rightarrow> int \<Rightarrow> 'd" where
  "anchor F signals m encoding g =
    (let others = filter (\<lambda>i. pg_encoding (signals ! i) \<noteq> encoding) (members_at m g);
         same = filter (\<lambda>i. pg_encoding (signals ! i) = encoding) (members_at m g)
     in median F (map (\<lambda>i. pg_y (signals ! i)) (if others = [] then same else others)))"

definition affected_groups :: "'d place_signal list \<Rightarrow> nat list \<Rightarrow> int list" where
  "affected_groups signals bucket = sorted_list_of_set (set (map (\<lambda>i. pg_group (signals ! i)) bucket))"

definition ordered_groups :: "'d fp \<Rightarrow> 'd place_signal list \<Rightarrow> members \<Rightarrow> nat list \<Rightarrow> 64 word \<Rightarrow> ('d \<times> int) list" where
  "ordered_groups F signals m bucket encoding =
    sort_by (pair_less F) (map (\<lambda>group. (anchor F signals m encoding group, group)) (affected_groups signals bucket))"

definition ordered_signals :: "'d fp \<Rightarrow> 'd place_signal list \<Rightarrow> nat list \<Rightarrow> nat list" where
  "ordered_signals F signals bucket =
    sort_by (\<lambda>l r. pair_less F (pg_y (signals ! l), pg_index (signals ! l)) (pg_y (signals ! r), pg_index (signals ! r))) bucket"

definition group_slots :: "'d place_signal list \<Rightarrow> nat list \<Rightarrow> int \<Rightarrow> nat" where
  "group_slots signals bucket g = length (filter (\<lambda>i. pg_group (signals ! i) = g) bucket)"

definition set_group :: "nat \<Rightarrow> int \<Rightarrow> 'd place_signal list \<Rightarrow> 'd place_signal list" where
  "set_group i g signals = signals[i := (signals ! i)\<lparr>pg_group := g\<rparr>]"

definition tolerance :: "'d fp \<Rightarrow> 'd" where
  "tolerance F = fp_div F (fp_of_int F 1) (fp_of_int F 1000000000000)"

definition revert_signal :: "nat \<times> int \<Rightarrow> 'd place_signal list \<times> members \<Rightarrow> 'd place_signal list \<times> members" where
  "revert_signal = (\<lambda>(i, old) (signals, m).
     (set_group i old signals, add_member old i (drop_member (pg_group (signals ! i)) i m)))"

definition refine_bucket :: "'d fp \<Rightarrow> nat list \<Rightarrow> 64 word \<Rightarrow> 'd refiner \<Rightarrow> 'd refiner" where
  "refine_bucket F bucket encoding st =
    (let signals = rf_signals st; m = rf_members st; affected = affected_groups signals bucket in
     if length bucket < 2 \<or> length affected < 2 then st
     else let order = ordered_signals F signals bucket;
              cost_before = pairwise_objective F signals m affected;
              old_groups = map (\<lambda>i. pg_group (signals ! i)) order;
              new_groups = concat (map (\<lambda>(_, group). replicate (group_slots signals bucket group) group)
                (ordered_groups F signals m bucket encoding));
              signals' = fold (\<lambda>(i, group). set_group i group) (zip order new_groups) signals;
              m' = fold (\<lambda>(i, old). drop_member old i) (zip order old_groups) m;
              m' = fold (\<lambda>i. add_member (pg_group (signals' ! i)) i) order m';
              cost_after = pairwise_objective F signals' m' affected
          in if fp_lt F (fp_add F cost_before (tolerance F)) cost_after
             then let (signals'', m'') = fold revert_signal (zip order old_groups) (signals', m')
                  in st\<lparr>rf_signals := signals'', rf_members := m''\<rparr>
             else let moved = int (length (filter (\<lambda>(i, old). pg_group (signals' ! i) \<noteq> old) (zip order old_groups)))
                  in if moved > 0
                     then st\<lparr>rf_signals := signals', rf_members := m', rf_accepted := rf_accepted st + 1,
                       rf_moved := rf_moved st + moved\<rparr>
                     else st\<lparr>rf_signals := signals', rf_members := m'\<rparr>)"

section \<open>All buckets\<close>

type_synonym bucket_key = "int \<times> int \<times> 64 word"

definition place_key :: "'d place_signal \<Rightarrow> bucket_key" where
  "place_key signal = (pg_domain signal, pg_ratio signal, pg_encoding signal)"

definition place_buckets :: "'d place_signal list \<Rightarrow> (bucket_key \<times> nat list) list" where
  "place_buckets signals = fold (\<lambda>i. push_back (place_key (signals ! i)) i) [0..<length signals] []"

definition refine_all :: "'d fp \<Rightarrow> (bucket_key \<times> nat list) list \<Rightarrow> 'd refiner \<Rightarrow> 'd refiner" where
  "refine_all F bs st = fold (\<lambda>((_, _, encoding), bucket). refine_bucket F bucket encoding) bs st"

record 'd refinement =
  rp_signals :: "'d place_signal list"
  rp_accepted :: int
  rp_moved :: int
  rp_before :: 'd
  rp_after :: 'd

definition refine_places :: "'d fp \<Rightarrow> 'd place_signal list \<Rightarrow> refine_error + 'd refinement" where
  "refine_places F input =
    (case check_places F input of
       Inl e \<Rightarrow> Inl e
     | Inr signals \<Rightarrow>
         let m = group_members signals;
             all_groups = affected_groups signals [0..<length signals];
             cost_before = pairwise_objective F signals m all_groups;
             st = refine_all F (place_buckets signals)
               \<lparr>rf_signals = signals, rf_members = m, rf_accepted = 0, rf_moved = 0\<rparr>;
             cost_after = pairwise_objective F (rf_signals st) (rf_members st) all_groups
         in if fp_lt F (fp_add F cost_before (tolerance F)) cost_after then Inl Increased_objective
            else Inr \<lparr>rp_signals = rf_signals st, rp_accepted = rf_accepted st, rp_moved = rf_moved st,
              rp_before = cost_before, rp_after = cost_after\<rparr>)"

end
