(* ===== verification/Chimew_GrouperProofs.thy ===== *)
theory Chimew_GrouperProofs
  imports Chimew_Grouper
begin

text \<open>
  Correctness of the signal grouper: the loops end, the groups of a bucket partition it and respect ratio
  and slots, no later signal fits into an earlier group that was left unfilled, and the numbering of all
  groups gives every signal one group.
\<close>

section \<open>Maps of sequences\<close>

definition items :: "('k \<times> nat list) list \<Rightarrow> nat list" where
  "items m = concat (map snd m)"

lemma items_simps [simp]: "items [] = []" "items ((k, js) # m) = js @ items m"
  by (simp_all add: items_def)

lemma push_back_keys: "fst ` set (push_back k i m) = insert k (fst ` set m)"
  by (induction k i m rule: push_back.induct) auto

lemma push_back_sorted: "sorted_wrt (<) (map fst m) \<Longrightarrow> sorted_wrt (<) (map fst (push_back k i m))"
proof (induction k i m rule: push_back.induct)
  case (2 k i k' js m)
  then show ?case using push_back_keys [of k i m] by (auto simp flip: image_image)
qed simp

lemma push_back_items: "mset (items (push_back k i m)) = add_mset i (mset (items m))"
  by (induction k i m rule: push_back.induct) auto

lemma push_back_entry:
  "sorted_wrt (<) (map fst m) \<Longrightarrow> (k', js) \<in> set (push_back k i m) \<Longrightarrow> j \<in> set js \<Longrightarrow>
    (k' = k \<and> j = i) \<or> (\<exists>js'. (k', js') \<in> set m \<and> j \<in> set js')"
  by (induction k i m rule: push_back.induct) (auto split: if_splits)

lemma push_back_nonempty: "[] \<notin> snd ` set m \<Longrightarrow> [] \<notin> snd ` set (push_back k i m)"
  by (induction k i m rule: push_back.induct) auto

text \<open>A bucket map built from a list of indices holds each of them, under its key.\<close>

lemma fold_push_back:
  fixes key :: "nat \<Rightarrow> 'k::linorder"
  defines "build \<equiv> \<lambda>ixs. fold (\<lambda>i. push_back (key i) i) ixs []"
  shows "sorted_wrt (<) (map fst (build ixs))" "mset (items (build ixs)) = mset ixs"
    "(k, js) \<in> set (build ixs) \<Longrightarrow> j \<in> set js \<Longrightarrow> key j = k \<and> j \<in> set ixs" "[] \<notin> snd ` set (build ixs)"
proof -
  have "sorted_wrt (<) (map fst (build ixs)) \<and> mset (items (build ixs)) = mset ixs \<and>
      (\<forall>k js j. (k, js) \<in> set (build ixs) \<longrightarrow> j \<in> set js \<longrightarrow> key j = k \<and> j \<in> set ixs) \<and>
      [] \<notin> snd ` set (build ixs)"
  proof (induction ixs rule: rev_induct)
    case (snoc i ixs)
    have "build (ixs @ [i]) = push_back (key i) i (build ixs)" by (simp add: build_def)
    moreover have "key j = k \<and> j \<in> set (ixs @ [i])" if "(k, js) \<in> set (push_back (key i) i (build ixs))" "j \<in> set js" for k js j
      using push_back_entry [OF _ that] snoc by fastforce
    ultimately show ?case using snoc push_back_sorted [of "build ixs" "key i" i] push_back_items [of "key i" i "build ixs"]
        push_back_nonempty [of "build ixs" "key i" i] by simp
  qed (simp add: build_def)
  then show "sorted_wrt (<) (map fst (build ixs))" "mset (items (build ixs)) = mset ixs"
    "(k, js) \<in> set (build ixs) \<Longrightarrow> j \<in> set js \<Longrightarrow> key j = k \<and> j \<in> set ixs" "[] \<notin> snd ` set (build ixs)" by auto
qed

lemma erase_keys: "map fst (erase e c m) = map fst m"
  by (simp add: erase_def comp_def case_prod_unfold)

lemma erase_other: "e \<notin> fst ` set m \<Longrightarrow> erase e c m = m"
  by (induction m) (auto simp: erase_def)

lemma erase_items:
  assumes "distinct (map fst m)" and "(e, js) \<in> set m" and "c \<in> set js"
  shows "mset (items m) = add_mset c (mset (items (erase e c m)))"
  using assms
proof (induction m)
  case (Cons x m)
  obtain e' js' where x: "x = (e', js')" by (cases x)
  have step: "erase e c ((e', js') # m) = (e', if e' = e then remove1 c js' else js') # erase e c m" by (simp add: erase_def)
  show ?case
  proof (cases "e' = e")
    case True
    then have "js' = js" "e \<notin> fst ` set m" using Cons.prems x by (auto simp: rev_image_eqI)
    then show ?thesis unfolding x step using True Cons.prems(3) by (simp add: erase_other)
  next
    case False
    then show ?thesis using Cons by (auto simp: step x)
  qed
qed simp

section \<open>One group\<close>

lemma best_signal_Some:
  assumes "best_signal signals used target m = Some (e, c)"
  shows "\<exists>js. (e, js) \<in> set m \<and> c \<in> set js \<and> sg_slot (signals ! c) \<notin> set used"
proof -
  let ?I = "\<lambda>best :: choice option. case best of None \<Rightarrow> True | Some (k, e, c) \<Rightarrow> \<exists>js. (e, js) \<in> set m \<and> c \<in> set js \<and> sg_slot (signals ! c) \<notin> set used"
  have "?I (fold (best_step signals used target) m None)"
  proof (rule fold_keeps [where I = ?I])
    fix x and best :: "choice option" assume x: "x \<in> set m" and best: "?I best"
    then show "?I (best_step signals used target x best)"
      by (auto simp: best_step_def Let_def find_Some_iff split: option.splits prod.splits if_splits)
  qed simp
  then show ?thesis using assms by (auto simp: best_signal_def)
qed

lemma best_signal_None:
  assumes "best_signal signals used target m = None" and "i \<in> set (items m)"
  shows "sg_slot (signals ! i) \<in> set used"
proof -
  have keep: "best \<noteq> None \<Longrightarrow> fold (best_step signals used target) m best \<noteq> None" for best m
    by (rule fold_keeps [where I = "\<lambda>x. x \<noteq> None"])
      (auto simp: best_step_def Let_def split: option.splits prod.splits)
  have "fold (best_step signals used target) m None = None \<Longrightarrow> i \<in> set (items m) \<Longrightarrow> ?thesis"
  proof (induction m)
    case (Cons x m)
    have none: "best_step signals used target x None = None"
    proof (rule ccontr)
      assume "best_step signals used target x None \<noteq> None"
      then show False using keep [of "best_step signals used target x None" m] Cons.prems(1) by simp
    qed
    then have "find (\<lambda>s. sg_slot (signals ! s) \<notin> set used) (snd x) = None"
      by (auto simp: best_step_def Let_def split: prod.splits option.splits)
    then show ?case using Cons none by (cases x) (auto simp: find_None_iff)
  qed simp
  then show ?thesis using assms by (simp add: best_signal_def)
qed

lemma grow_props:
  assumes "distinct (map fst m)" and "length (items m) = n" and "set used = (\<lambda>i. sg_slot (signals ! i)) ` set g"
    and "distinct (map (\<lambda>i. sg_slot (signals ! i)) g)" and "grow signals ratio m n g used target = (m', n', g')"
  shows "distinct (map fst m') \<and> length (items m') = n' \<and> mset (items m') + mset g' = mset (items m) + mset g \<and>
    distinct (map (\<lambda>i. sg_slot (signals ! i)) g') \<and> (int (length g) \<le> ratio \<longrightarrow> int (length g') \<le> ratio) \<and>
    (int (length g') < ratio \<longrightarrow> (\<forall>i \<in> set (items m'). sg_slot (signals ! i) \<in> (\<lambda>i. sg_slot (signals ! i)) ` set g')) \<and>
    (g \<noteq> [] \<longrightarrow> g' \<noteq> []) \<and> (0 < n \<and> g = [] \<and> 0 < ratio \<longrightarrow> g' \<noteq> [])"
  using assms
proof (induction n arbitrary: m g used target)
  case (Suc n)
  show ?case
  proof (cases "int (length g) < ratio")
    case less: True
    show ?thesis
    proof (cases "best_signal signals used target m")
      case None
      obtain i where "i \<in> set (items m)" using Suc.prems(2) by (cases "items m") auto
      then show ?thesis using less None Suc.prems best_signal_None [OF None] by (auto simp flip: image_image)
    next
      case (Some ec)
      obtain e c where ec: "ec = (e, c)" by (cases ec)
      obtain js where c: "(e, js) \<in> set m" "c \<in> set js" "sg_slot (signals ! c) \<notin> set used"
        using best_signal_Some [of signals used target m e c] Some ec by auto
      have items: "mset (items m) = add_mset c (mset (items (erase e c m)))" by (rule erase_items [OF Suc.prems(1) c(1,2)])
      then have "length (items (erase e c m)) = n" using Suc.prems(2) by (metis add_left_cancel plus_1_eq_Suc size_add_mset size_mset)
      from Suc.IH [OF _ this, of "sg_slot (signals ! c) # used" "g @ [c]" "target OR e"]
      show ?thesis using Suc.prems c less Some ec items by (auto simp: erase_keys)
    qed
  next
    case False
    then show ?thesis using Suc.prems by auto
  qed
qed auto

section \<open>The groups of a bucket\<close>

definition group_ok :: "signal list \<Rightarrow> int \<Rightarrow> nat list \<Rightarrow> bool" where
  "group_ok signals ratio g \<longleftrightarrow> g \<noteq> [] \<and> int (length g) \<le> ratio \<and> distinct (map (\<lambda>i. sg_slot (signals ! i)) g)"

text \<open>No signal of a later group could have gone into an earlier group that is not full.\<close>

definition packed :: "signal list \<Rightarrow> int \<Rightarrow> nat list list \<Rightarrow> bool" where
  "packed signals ratio = sorted_wrt (\<lambda>g h. int (length g) < ratio \<longrightarrow>
     (\<forall>i \<in> set h. sg_slot (signals ! i) \<in> (\<lambda>j. sg_slot (signals ! j)) ` set g))"

lemma group_loop_props:
  assumes "distinct (map fst m)" and "length (items m) = n" and "0 < ratio"
  shows "\<exists>gs. group_loop signals ratio m n groups = Some (groups @ gs) \<and> mset (concat gs) = mset (items m) \<and>
    (\<forall>g \<in> set gs. group_ok signals ratio g) \<and> packed signals ratio gs"
  using assms(1,2)
proof (induction n arbitrary: m groups rule: less_induct)
  case (less n)
  show ?case
  proof (cases "n = 0")
    case True
    then show ?thesis using less.prems by (intro exI [of _ "[]"]) (simp add: group_loop.simps packed_def)
  next
    case False
    obtain m' n' g where g: "grow signals ratio m n [] [] (seed m) = (m', n', g)" by (cases "grow signals ratio m n [] [] (seed m)")
    have p: "distinct (map fst m')" "length (items m') = n'" "mset (items m') + mset g = mset (items m)" "group_ok signals ratio g"
        "int (length g) < ratio \<longrightarrow> (\<forall>i \<in> set (items m'). sg_slot (signals ! i) \<in> (\<lambda>i. sg_slot (signals ! i)) ` set g)"
      using grow_props [OF less.prems _ _ g] False assms(3) by (auto simp: group_ok_def)
    have "length (items m') + length g = n" using p(3) less.prems(2) by (metis size_mset size_union)
    then have "n' < n" using p(2,4) by (cases g) (auto simp: group_ok_def)
    from less.IH [OF this p(1,2), of "groups @ [g]"]
    obtain gs where gs: "group_loop signals ratio m' n' (groups @ [g]) = Some ((groups @ [g]) @ gs)" "mset (concat gs) = mset (items m')"
        "\<forall>g \<in> set gs. group_ok signals ratio g" "packed signals ratio gs"
      by blast
    have "\<forall>h \<in> set gs. set h \<subseteq> set (items m')" using gs(2) by (metis UN_upper mset_eq_setD set_concat)
    then have "packed signals ratio (g # gs)" using p(5) gs(4) by (auto simp: packed_def)
    moreover have "group_loop signals ratio m n groups = Some (groups @ g # gs)"
      using gs(1) g False by (simp add: group_loop.simps [of signals ratio m n])
    moreover have "mset (concat (g # gs)) = mset (items m)" using gs(2) p(3) by (simp add: union_commute)
    ultimately show ?thesis using gs(3) p(4) by (intro exI [of _ "g # gs"]) simp
  qed
qed

theorem group_bucket_props:
  assumes "0 < ratio" and "\<forall>i \<in> set remaining. negatable (sg_encoding (signals ! i))"
  shows "\<exists>gs. group_bucket signals remaining ratio = Some gs \<and> mset (concat gs) = mset remaining \<and>
    (\<forall>g \<in> set gs. group_ok signals ratio g) \<and> packed signals ratio gs"
proof -
  let ?m = "fold (\<lambda>i. push_back (sg_encoding (signals ! i)) i) remaining []"
  note m = fold_push_back(1,2) [of "\<lambda>i. sg_encoding (signals ! i)" remaining]
  have "distinct (map fst ?m)" using m(1) by (simp add: strict_sorted_iff)
  moreover have "length (items ?m) = length remaining" using arg_cong [OF m(2), of size] by simp
  ultimately show ?thesis
    using group_loop_props [of ?m "length remaining" ratio signals "[]", OF _ _ assms(1)] assms(2) m(2)
    by (simp add: group_bucket_def list_all_iff)
qed

section \<open>Numbering the groups\<close>

lemma number_group_fold:
  "fold (\<lambda>s (assignment, encoding). (assignment[s := x], encoding OR sg_encoding (signals ! s))) g (a, e) =
    (fold (\<lambda>s a. a[s := x]) g a, fold (\<lambda>s e. e OR sg_encoding (signals ! s)) g e)"
  by (induction g arbitrary: a e) auto

definition group_encoding :: "signal list \<Rightarrow> nat list \<Rightarrow> 64 word" where
  "group_encoding signals g = fold (\<lambda>s e. e OR sg_encoding (signals ! s)) g 0"

lemma bit_group_encoding: "bit (group_encoding signals g) k \<longleftrightarrow> (\<exists>s \<in> set g. bit (sg_encoding (signals ! s)) k)"
proof -
  have "bit (fold (\<lambda>s e. e OR sg_encoding (signals ! s)) g e) k \<longleftrightarrow> bit e k \<or> (\<exists>s \<in> set g. bit (sg_encoding (signals ! s)) k)" for e
    by (induction g arbitrary: e) (auto simp: bit_or_iff)
  then show ?thesis by (simp add: group_encoding_def)
qed

lemma number_group_eq:
  "number_group signals g st = \<lparr>gr_assignment = fold (\<lambda>s a. a[s := gr_group_id st]) g (gr_assignment st),
    gr_group_id = gr_group_id st + 1, gr_crossing_bits = gr_crossing_bits st + popcount (group_encoding signals g)\<rparr>"
  by (simp add: number_group_def number_group_fold group_encoding_def)

text \<open>After all groups are numbered, a signal carries the position of its group.\<close>

lemma number_groups:
  assumes "distinct (concat gs)" and "\<forall>i \<in> set (concat gs). i < length (gr_assignment st)"
  shows "length (gr_assignment (fold (number_group signals) gs st)) = length (gr_assignment st)"
    "gr_group_id (fold (number_group signals) gs st) = gr_group_id st + int (length gs)"
    "gr_crossing_bits (fold (number_group signals) gs st) = gr_crossing_bits st + (\<Sum>g\<leftarrow>gs. popcount (group_encoding signals g))"
    "k < length gs \<Longrightarrow> i \<in> set (gs ! k) \<Longrightarrow> gr_assignment (fold (number_group signals) gs st) ! i = gr_group_id st + int k"
    "i \<notin> set (concat gs) \<Longrightarrow> gr_assignment (fold (number_group signals) gs st) ! i = gr_assignment st ! i"
proof -
  have "length (gr_assignment (fold (number_group signals) gs st)) = length (gr_assignment st) \<and>
    gr_group_id (fold (number_group signals) gs st) = gr_group_id st + int (length gs) \<and>
    gr_crossing_bits (fold (number_group signals) gs st) = gr_crossing_bits st + (\<Sum>g\<leftarrow>gs. popcount (group_encoding signals g)) \<and>
    (\<forall>k i. k < length gs \<longrightarrow> i \<in> set (gs ! k) \<longrightarrow> gr_assignment (fold (number_group signals) gs st) ! i = gr_group_id st + int k) \<and>
    (\<forall>i. i \<notin> set (concat gs) \<longrightarrow> gr_assignment (fold (number_group signals) gs st) ! i = gr_assignment st ! i)"
    using assms
  proof (induction gs rule: rev_induct)
    case (snoc g gs)
    define st' where "st' = fold (number_group signals) gs st"
    have ih: "length (gr_assignment st') = length (gr_assignment st)" "gr_group_id st' = gr_group_id st + int (length gs)"
        "gr_crossing_bits st' = gr_crossing_bits st + (\<Sum>g\<leftarrow>gs. popcount (group_encoding signals g))"
        "\<forall>k i. k < length gs \<longrightarrow> i \<in> set (gs ! k) \<longrightarrow> gr_assignment st' ! i = gr_group_id st + int k"
        "\<forall>i. i \<notin> set (concat gs) \<longrightarrow> gr_assignment st' ! i = gr_assignment st ! i"
      using snoc by (auto simp: st'_def)
    have nth: "fold (\<lambda>s a. a[s := x]) g (gr_assignment st') ! i = (if i \<in> set g then x else gr_assignment st' ! i)" for x i
      by (rule nth_fold_const) (use snoc.prems(2) ih(1) in auto)
    have "i \<notin> set g" if "k < length gs" "i \<in> set (gs ! k)" for k i
      using snoc.prems(1) that by (auto dest: nth_mem)
    moreover have "fold (number_group signals) (gs @ [g]) st = number_group signals g st'" by (simp add: st'_def)
    ultimately show ?case using ih by (auto simp: number_group_eq [of signals g st'] nth nth_append less_Suc_eq)
  qed simp
  then show "length (gr_assignment (fold (number_group signals) gs st)) = length (gr_assignment st)"
    "gr_group_id (fold (number_group signals) gs st) = gr_group_id st + int (length gs)"
    "gr_crossing_bits (fold (number_group signals) gs st) = gr_crossing_bits st + (\<Sum>g\<leftarrow>gs. popcount (group_encoding signals g))"
    "k < length gs \<Longrightarrow> i \<in> set (gs ! k) \<Longrightarrow> gr_assignment (fold (number_group signals) gs st) ! i = gr_group_id st + int k"
    "i \<notin> set (concat gs) \<Longrightarrow> gr_assignment (fold (number_group signals) gs st) ! i = gr_assignment st ! i"
    by auto
qed


lemma number_buckets_props:
  assumes "\<forall>(key, bucket) \<in> set bs. 0 < snd key \<and> (\<forall>i \<in> set bucket. negatable (sg_encoding (signals ! i)))"
  shows "\<exists>gs. number_buckets signals bs st = Some (fold (number_group signals) gs st) \<and> mset (concat gs) = mset (items bs) \<and>
    (\<forall>g \<in> set gs. \<exists>key bucket. (key, bucket) \<in> set bs \<and> set g \<subseteq> set bucket \<and> group_ok signals (snd key) g)"
  using assms
proof (induction bs arbitrary: st)
  case (Cons b bs)
  obtain key bucket where b: "b = (key, bucket)" by (cases b)
  obtain gs1 where gs1: "group_bucket signals bucket (snd key) = Some gs1" "mset (concat gs1) = mset bucket"
      "\<forall>g \<in> set gs1. group_ok signals (snd key) g"
    using group_bucket_props [of "snd key" bucket signals] Cons.prems b by auto
  obtain gs2 where gs2: "number_buckets signals bs (fold (number_group signals) gs1 st) =
      Some (fold (number_group signals) gs2 (fold (number_group signals) gs1 st))" "mset (concat gs2) = mset (items bs)"
      "\<forall>g \<in> set gs2. \<exists>key bucket. (key, bucket) \<in> set bs \<and> set g \<subseteq> set bucket \<and> group_ok signals (snd key) g"
    using Cons.IH [of "fold (number_group signals) gs1 st"] Cons.prems by auto
  have "set g \<subseteq> set bucket" if "g \<in> set gs1" for g using that mset_eq_setD [OF gs1(2)] by auto
  then have ok: "\<forall>g \<in> set (gs1 @ gs2). \<exists>key bucket. (key, bucket) \<in> set (b # bs) \<and> set g \<subseteq> set bucket \<and> group_ok signals (snd key) g"
  proof (intro ballI)
    fix g assume "g \<in> set (gs1 @ gs2)"
    then consider "g \<in> set gs1" | "g \<in> set gs2" by auto
    then show "\<exists>key bucket. (key, bucket) \<in> set (b # bs) \<and> set g \<subseteq> set bucket \<and> group_ok signals (snd key) g"
    proof cases
      case 1
      then show ?thesis using gs1(3) \<open>\<And>g. g \<in> set gs1 \<Longrightarrow> set g \<subseteq> set bucket\<close> b
        by (intro exI [of _ key] exI [of _ bucket]) simp
    next
      case 2
      then show ?thesis using gs2(3) by (meson list.set_intros(2))
    qed
  qed
  show ?case by (rule exI [of _ "gs1 @ gs2"]) (use ok gs1 gs2 b in simp)
qed simp

text \<open>The groups of a run: a partition of all signals, numbered in order.\<close>

lemma run_groups:
  assumes "check_signals raw = Inr signals" and "\<forall>s \<in> set signals. negatable (sg_encoding s)"
  obtains gs r where "run signals = Some r" "r = fold (number_group signals) gs
      \<lparr>gr_assignment = replicate (length signals) (-1), gr_group_id = 0, gr_crossing_bits = 0\<rparr>"
    "distinct (concat gs)" "set (concat gs) = {..<length signals}"
    "\<And>g i. g \<in> set gs \<Longrightarrow> i \<in> set g \<Longrightarrow> group_ok signals (sg_ratio (signals ! i)) g"
    "\<And>g i j. g \<in> set gs \<Longrightarrow> i \<in> set g \<Longrightarrow> j \<in> set g \<Longrightarrow>
      sg_domain (signals ! i) = sg_domain (signals ! j) \<and> sg_ratio (signals ! i) = sg_ratio (signals ! j)"
proof -
  have pos: "0 < sg_ratio (signals ! i)" if "i < length signals" for i
    using assms(1) that by (force simp: check_signals_def signal_ok_def list_all_iff split: if_splits)
  note b = fold_push_back [where key = "\<lambda>i. (sg_domain (signals ! i), sg_ratio (signals ! i))" and ixs = "[0..<length signals]",
      folded buckets_def]
  have key: "sg_domain (signals ! i) = fst k \<and> sg_ratio (signals ! i) = snd k \<and> i < length signals"
    if "(k, bucket) \<in> set (buckets signals)" "i \<in> set bucket" for k bucket i
    using b(3) [OF that] by auto
  have "0 < snd k \<and> (\<forall>i \<in> set bucket. negatable (sg_encoding (signals ! i)))" if kb: "(k, bucket) \<in> set (buckets signals)" for k bucket
  proof -
    obtain i where "i \<in> set bucket" using b(4) kb by (cases bucket) (auto simp: rev_image_eqI)
    then show ?thesis using key [OF kb] pos assms(2) by (metis nth_mem)
  qed
  then obtain gs where gs: "run signals = Some (fold (number_group signals) gs
        \<lparr>gr_assignment = replicate (length signals) (-1), gr_group_id = 0, gr_crossing_bits = 0\<rparr>)"
      "mset (concat gs) = mset (items (buckets signals))"
      "\<forall>g \<in> set gs. \<exists>key bucket. (key, bucket) \<in> set (buckets signals) \<and> set g \<subseteq> set bucket \<and> group_ok signals (snd key) g"
    using number_buckets_props [of "buckets signals" signals] unfolding run_def by fast
  have "mset (concat gs) = mset [0..<length signals]" using gs(2) b(2) by simp
  then have "distinct (concat gs)" "set (concat gs) = {..<length signals}"
    by (metis distinct_upt mset_eq_imp_distinct_iff, metis atLeast_upt mset_eq_setD)
  moreover have "group_ok signals (sg_ratio (signals ! i)) g" "j \<in> set g \<Longrightarrow>
      sg_domain (signals ! i) = sg_domain (signals ! j) \<and> sg_ratio (signals ! i) = sg_ratio (signals ! j)"
    if "g \<in> set gs" "i \<in> set g" for g i j
  proof -
    obtain k bucket where kb: "(k, bucket) \<in> set (buckets signals)" "set g \<subseteq> set bucket" "group_ok signals (snd k) g"
      using gs(3) \<open>g \<in> set gs\<close> by blast
    have "sg_domain (signals ! i') = fst k \<and> sg_ratio (signals ! i') = snd k" if "i' \<in> set g" for i'
      using key [OF kb(1)] kb(2) that by blast
    then show "group_ok signals (sg_ratio (signals ! i)) g" "j \<in> set g \<Longrightarrow>
        sg_domain (signals ! i) = sg_domain (signals ! j) \<and> sg_ratio (signals ! i) = sg_ratio (signals ! j)"
      using \<open>i \<in> set g\<close> kb(3) by simp_all
  qed
  ultimately show ?thesis using gs(1) that by blast
qed

lemma concat_nth: "i \<in> set (concat gs) \<Longrightarrow> \<exists>k < length gs. i \<in> set (gs ! k)"
  by (auto simp: in_set_conv_nth [of _ gs])

theorem run_assignment:
  assumes "check_signals raw = Inr signals" and "\<forall>s \<in> set signals. negatable (sg_encoding s)"
  shows "\<exists>r. run signals = Some r \<and> length (gr_assignment r) = length signals \<and>
    (\<forall>i < length signals. 0 \<le> gr_assignment r ! i \<and> gr_assignment r ! i < gr_group_id r \<and>
       int (card {j. j < length signals \<and> gr_assignment r ! j = gr_assignment r ! i}) \<le> sg_ratio (signals ! i) \<and>
       (\<forall>j < length signals. i \<noteq> j \<and> gr_assignment r ! i = gr_assignment r ! j \<longrightarrow>
          sg_domain (signals ! i) = sg_domain (signals ! j) \<and> sg_ratio (signals ! i) = sg_ratio (signals ! j) \<and>
          sg_slot (signals ! i) \<noteq> sg_slot (signals ! j)))"
proof -
  obtain gs r where run: "run signals = Some r" and r: "r = fold (number_group signals) gs
      \<lparr>gr_assignment = replicate (length signals) (-1), gr_group_id = 0, gr_crossing_bits = 0\<rparr>"
    and d: "distinct (concat gs)" and all: "set (concat gs) = {..<length signals}"
    and ok: "\<And>g i. g \<in> set gs \<Longrightarrow> i \<in> set g \<Longrightarrow> group_ok signals (sg_ratio (signals ! i)) g"
    and same: "\<And>g i j. g \<in> set gs \<Longrightarrow> i \<in> set g \<Longrightarrow> j \<in> set g \<Longrightarrow>
      sg_domain (signals ! i) = sg_domain (signals ! j) \<and> sg_ratio (signals ! i) = sg_ratio (signals ! j)"
    by (rule run_groups [OF assms]) blast
  note n = number_groups [OF d, where st = "\<lparr>gr_assignment = replicate (length signals) (-1), gr_group_id = 0, gr_crossing_bits = 0\<rparr>" and signals = signals,
      folded r, simplified]
  have len: "length (gr_assignment r) = length signals" "gr_group_id r = int (length gs)" using n(1,2) all by auto
  have num: "gr_assignment r ! i = int k" if "k < length gs" "i \<in> set (gs ! k)" for i k using n(4) that all by auto
  have "0 \<le> gr_assignment r ! i \<and> gr_assignment r ! i < gr_group_id r \<and>
       int (card {j. j < length signals \<and> gr_assignment r ! j = gr_assignment r ! i}) \<le> sg_ratio (signals ! i) \<and>
       (\<forall>j < length signals. i \<noteq> j \<and> gr_assignment r ! i = gr_assignment r ! j \<longrightarrow>
          sg_domain (signals ! i) = sg_domain (signals ! j) \<and> sg_ratio (signals ! i) = sg_ratio (signals ! j) \<and>
          sg_slot (signals ! i) \<noteq> sg_slot (signals ! j))" if i: "i < length signals" for i
  proof -
    obtain k where k: "k < length gs" "i \<in> set (gs ! k)" using concat_nth [of i gs] all i by auto
    have mem: "j \<in> set (gs ! k)" if j: "j < length signals" "gr_assignment r ! j = gr_assignment r ! i" for j
    proof -
      obtain k' where k': "k' < length gs" "j \<in> set (gs ! k')" using concat_nth [of j gs] all j(1) by auto
      then show ?thesis using num [OF k] num [OF k'] j(2) by simp
    qed
    have g: "gs ! k \<in> set gs" "group_ok signals (sg_ratio (signals ! i)) (gs ! k)" using k ok by auto
    have "card {j. j < length signals \<and> gr_assignment r ! j = gr_assignment r ! i} \<le> card (set (gs ! k))"
      by (rule card_mono) (use mem in auto)
    then have "int (card {j. j < length signals \<and> gr_assignment r ! j = gr_assignment r ! i}) \<le> sg_ratio (signals ! i)"
      using g(2) card_length [of "gs ! k"] by (simp add: group_ok_def)
    moreover have "sg_slot (signals ! i) \<noteq> sg_slot (signals ! j)" if "j \<in> set (gs ! k)" "i \<noteq> j" for j
    proof -
      have "inj_on (\<lambda>i. sg_slot (signals ! i)) (set (gs ! k))" using g(2) by (simp add: group_ok_def distinct_map)
      then show ?thesis using k(2) that by (meson inj_onD)
    qed
    moreover have "sg_domain (signals ! i) = sg_domain (signals ! j) \<and> sg_ratio (signals ! i) = sg_ratio (signals ! j)"
      if "j \<in> set (gs ! k)" for j using same [OF g(1) k(2) that] .
    ultimately show ?thesis using num [OF k] k(1) len(2) mem by simp
  qed
  then show ?thesis using run len(1) by blast
qed


lemma group_encoding_cong: "set g = set h \<Longrightarrow> group_encoding signals g = group_encoding signals h"
  by (rule bit_eqI) (simp add: bit_group_encoding)

text \<open>The reported number of crossing bits is the one that the assignment has.\<close>

theorem run_crossing_bits:
  assumes "check_signals raw = Inr signals" and "\<forall>s \<in> set signals. negatable (sg_encoding s)" and "run signals = Some r"
  shows "gr_crossing_bits r = (\<Sum>k < nat (gr_group_id r).
    popcount (group_encoding signals (filter (\<lambda>i. gr_assignment r ! i = int k) [0..<length signals])))"
proof -
  obtain gs r' where run: "run signals = Some r'" and r': "r' = fold (number_group signals) gs
      \<lparr>gr_assignment = replicate (length signals) (-1), gr_group_id = 0, gr_crossing_bits = 0\<rparr>"
    and d: "distinct (concat gs)" and all: "set (concat gs) = {..<length signals}"
    by (rule run_groups [OF assms(1,2)]) blast
  have r: "r' = r" using run assms(3) by simp
  note n = number_groups [OF d, where st = "\<lparr>gr_assignment = replicate (length signals) (-1), gr_group_id = 0, gr_crossing_bits = 0\<rparr>" and signals = signals,
      folded r', simplified, unfolded r]
  have num: "gr_assignment r ! i = int k" if "k < length gs" "i \<in> set (gs ! k)" for i k using n(4) that all by auto
  have members: "set (filter (\<lambda>i. gr_assignment r ! i = int k) [0..<length signals]) = set (gs ! k)" if k: "k < length gs" for k
  proof (intro set_eqI iffI)
    fix i assume "i \<in> set (filter (\<lambda>i. gr_assignment r ! i = int k) [0..<length signals])"
    then have i: "i < length signals" "gr_assignment r ! i = int k" by auto
    then obtain k' where "k' < length gs" "i \<in> set (gs ! k')" using concat_nth [of i gs] all by auto
    then show "i \<in> set (gs ! k)" using num [of k' i] i(2) by simp
  next
    fix i assume "i \<in> set (gs ! k)"
    then show "i \<in> set (filter (\<lambda>i. gr_assignment r ! i = int k) [0..<length signals])"
      using num [OF k] all nth_mem [OF k] by fastforce
  qed
  have "popcount (group_encoding signals (filter (\<lambda>i. gr_assignment r ! i = int k) [0..<length signals])) =
      popcount (group_encoding signals (gs ! k))" if "k < length gs" for k
    by (rule arg_cong [OF group_encoding_cong [OF members [OF that]]])
  moreover have "gr_group_id r = int (length gs)" "gr_crossing_bits r = (\<Sum>g\<leftarrow>gs. popcount (group_encoding signals g))"
    using n(2,3) all by auto
  ultimately show ?thesis by (simp add: sum_list_sum_nth atLeast0LessThan)
qed

end
