(* ===== verification/Chimew_Exchange.thy ===== *)
theory Chimew_Exchange
  imports Chimew_Refiner Chimew_GrouperProofs
begin

text \<open>
  What the position refiner conserves, whatever the arithmetic: it only exchanges the groups of signals of
  one domain, ratio and encoding, its map of groups stays that of the signals, and its counters are exact.
\<close>

section \<open>Sorting\<close>

lemma mset_insert_by: "mset (insert_by lt x ys) = add_mset x (mset ys)"
  by (induction ys) auto

lemma mset_sort_by [simp]: "mset (sort_by lt xs) = mset xs"
  by (induction xs) (auto simp: sort_by_def mset_insert_by)

lemma set_sort_by [simp]: "set (sort_by lt xs) = set xs"
  by (metis mset_sort_by set_mset_mset)

lemma length_sort_by [simp]: "length (sort_by lt xs) = length xs"
  by (metis mset_sort_by size_mset)

lemma distinct_sort_by [simp]: "distinct (sort_by lt xs) \<longleftrightarrow> distinct xs"
  by (metis distinct_card card_distinct length_sort_by set_sort_by)

section \<open>The map of groups\<close>

definition member_rep :: "members \<Rightarrow> (nat \<Rightarrow> int \<Rightarrow> bool) \<Rightarrow> bool" where
  "member_rep m R \<longleftrightarrow> (\<forall>g. sorted (members_at m g) \<and> distinct (members_at m g) \<and> set (members_at m g) = {i. R i g})"

lemma members_at_add: "members_at (add_member h j m) g = (if g = h then insort_insert j (members_at m h) else members_at m g)"
  by (simp add: members_at_def add_member_def)

lemma members_at_drop: "members_at (drop_member h j m) g = (if g = h then remove1 j (members_at m h) else members_at m g)"
  by (simp add: members_at_def drop_member_def)

lemma member_rep_add: "member_rep m R \<Longrightarrow> member_rep (add_member h j m) (\<lambda>i g. R i g \<or> (i = j \<and> g = h))"
  by (auto simp: member_rep_def members_at_add set_insort_insert sorted_insort_insert distinct_insort_insert)

lemma member_rep_drop: "member_rep m R \<Longrightarrow> member_rep (drop_member h j m) (\<lambda>i g. R i g \<and> \<not> (i = j \<and> g = h))"
  by (auto simp: member_rep_def members_at_drop sorted_remove1)

lemma member_rep_cong: "member_rep m R \<Longrightarrow> (\<And>i g. R i g \<longleftrightarrow> R' i g) \<Longrightarrow> member_rep m R'"
  by (simp add: member_rep_def)

lemma member_rep_unique:
  assumes "member_rep m R" "member_rep m' R"
  shows "members_at m g = members_at m' g"
  using assms sorted_distinct_set_unique [of "members_at m g" "members_at m' g"] by (simp add: member_rep_def)

lemma fold_drop_members:
  "member_rep m R \<Longrightarrow> member_rep (fold (\<lambda>(i, old). drop_member old i) ps m) (\<lambda>i g. R i g \<and> (i, g) \<notin> set ps)"
proof (induction ps arbitrary: m R)
  case (Cons p ps)
  show ?case
    using Cons.IH [OF member_rep_drop [OF Cons.prems, of "snd p" "fst p"]]
    by (cases p) (auto intro: member_rep_cong)
qed simp

lemma fold_add_members:
  "member_rep m R \<Longrightarrow> member_rep (fold (\<lambda>i. add_member (f i) i) xs m) (\<lambda>i g. R i g \<or> (i \<in> set xs \<and> g = f i))"
proof (induction xs arbitrary: m R)
  case (Cons x xs)
  show ?case
    using Cons.IH [OF member_rep_add [OF Cons.prems, of "f x" x]] by (auto intro: member_rep_cong)
qed simp

definition consistent :: "'d place_signal list \<Rightarrow> members \<Rightarrow> bool" where
  "consistent signals m \<longleftrightarrow> member_rep m (\<lambda>i g. i < length signals \<and> g = pg_group (signals ! i))"

lemma group_members_consistent: "consistent signals (group_members signals)"
proof -
  have "member_rep Map.empty (\<lambda>_ _. False)" by (simp add: member_rep_def members_at_def)
  from fold_add_members [OF this, of "\<lambda>i. pg_group (signals ! i)" "[0..<length signals]"]
  show ?thesis by (simp add: consistent_def group_members_def)
qed

section \<open>Assigning groups\<close>

lemma length_set_group [simp]: "length (set_group i g signals) = length signals"
  by (simp add: set_group_def)

lemma length_fold_set_group [simp]: "length (fold (\<lambda>(i, group). set_group i group) ps signals) = length signals"
  by (rule length_fold_keeps) auto

definition same_but_group :: "'d place_signal list \<Rightarrow> 'd place_signal list \<Rightarrow> bool" where
  "same_but_group signals signals' \<longleftrightarrow> length signals' = length signals \<and>
     (\<forall>i < length signals. (signals' ! i)\<lparr>pg_group := pg_group (signals ! i)\<rparr> = signals ! i)"

lemma same_but_groupD:
  assumes "same_but_group signals signals'" "i < length signals"
  shows "pg_index (signals' ! i) = pg_index (signals ! i)" "pg_domain (signals' ! i) = pg_domain (signals ! i)"
    "pg_ratio (signals' ! i) = pg_ratio (signals ! i)" "pg_encoding (signals' ! i) = pg_encoding (signals ! i)"
    "pg_y (signals' ! i) = pg_y (signals ! i)" "place_key (signals' ! i) = place_key (signals ! i)"
proof -
  have "(signals' ! i)\<lparr>pg_group := pg_group (signals ! i)\<rparr> = signals ! i" using assms by (simp add: same_but_group_def)
  then show "pg_index (signals' ! i) = pg_index (signals ! i)" "pg_domain (signals' ! i) = pg_domain (signals ! i)"
    "pg_ratio (signals' ! i) = pg_ratio (signals ! i)" "pg_encoding (signals' ! i) = pg_encoding (signals ! i)"
    "pg_y (signals' ! i) = pg_y (signals ! i)" "place_key (signals' ! i) = place_key (signals ! i)"
    by (metis place_signal.select_convs place_signal.surjective place_signal.update_convs(5) place_key_def)+
qed

lemma same_but_group_refl: "same_but_group signals signals"
  by (simp add: same_but_group_def)

lemma same_but_group_trans:
  "same_but_group s s' \<Longrightarrow> same_but_group s' s'' \<Longrightarrow> same_but_group s s''"
  unfolding same_but_group_def by (metis place_signal.surjective place_signal.update_convs(5))

lemma same_but_group_set: "same_but_group s s' \<Longrightarrow> same_but_group s (set_group i g s')"
  by (cases "i < length s'") (auto simp: same_but_group_def set_group_def nth_list_update)

lemma fold_set_group_same: "same_but_group s s' \<Longrightarrow> same_but_group s (fold (\<lambda>(i, group). set_group i group) ps s')"
  by (induction ps arbitrary: s') (auto intro: same_but_group_set)

lemma fold_set_group_other:
  "i \<notin> fst ` set ps \<Longrightarrow> fold (\<lambda>(i, group). set_group i group) ps s ! i = s ! i"
  by (induction ps arbitrary: s) (auto simp: set_group_def)

lemma fold_set_group_at:
  assumes "distinct xs" "length gs = length xs" "\<forall>i \<in> set xs. i < length s"
  shows "map (\<lambda>i. pg_group (fold (\<lambda>(i, group). set_group i group) (zip xs gs) s ! i)) xs = gs"
  using assms
proof (induction xs arbitrary: gs s)
  case (Cons x xs)
  then obtain g gs' where gs: "gs = g # gs'" by (cases gs) auto
  have "x \<notin> fst ` set (zip xs gs')" using Cons.prems(1) by (auto dest: set_zip_leftD)
  then have "pg_group (fold (\<lambda>(i, group). set_group i group) (zip xs gs') (set_group x g s) ! x) = g"
    using Cons.prems(3) by (simp add: fold_set_group_other) (simp add: set_group_def)
  then show ?case using Cons gs by simp
qed simp

section \<open>One bucket\<close>

lemma affected_groups_distinct: "distinct (affected_groups signals bucket)"
  "set (affected_groups signals bucket) = (\<lambda>i. pg_group (signals ! i)) ` set bucket"
  by (simp_all add: affected_groups_def)

lemma mset_ordered_signals: "mset (ordered_signals F signals bucket) = mset bucket"
  by (simp add: ordered_signals_def)

lemma set_ordered_signals: "set (ordered_signals F signals bucket) = set bucket"
  by (simp add: ordered_signals_def)

lemma count_replicate_all:
  "distinct gs \<Longrightarrow> count (\<Sum>g \<leftarrow> gs. replicate_mset (k g) g) h = (if h \<in> set gs then k h else 0)"
  by (induction gs) auto

lemma mset_concat_cong: "mset ps = mset qs \<Longrightarrow> mset (concat (map f ps)) = mset (concat (map f qs))"
  by (metis mset_concat mset_map sum_mset_sum_list map_map)

definition new_places :: "'d fp \<Rightarrow> 'd place_signal list \<Rightarrow> members \<Rightarrow> nat list \<Rightarrow> 64 word \<Rightarrow> int list" where
  "new_places F signals m bucket encoding =
    concat (map (\<lambda>(_, group). replicate (group_slots signals bucket group) group) (ordered_groups F signals m bucket encoding))"

lemma mset_new_places: "mset (new_places F signals m bucket encoding) = mset (map (\<lambda>i. pg_group (signals ! i)) bucket)"
proof (rule multiset_eqI)
  fix h
  let ?slots = "group_slots signals bucket" and ?gs = "affected_groups signals bucket"
  have "mset (new_places F signals m bucket encoding) =
      mset (concat (map (\<lambda>(_, group). replicate (?slots group) group) (map (\<lambda>g. (anchor F signals m encoding g, g)) ?gs)))"
    unfolding new_places_def ordered_groups_def by (rule mset_concat_cong) simp
  also have "\<dots> = (\<Sum>g \<leftarrow> ?gs. replicate_mset (?slots g) g)"
    by (simp add: mset_concat comp_def)
  finally have "count (mset (new_places F signals m bucket encoding)) h = (if h \<in> set ?gs then ?slots h else 0)"
    by (simp add: count_replicate_all affected_groups_distinct(1))
  also have "\<dots> = ?slots h"
    by (auto simp: affected_groups_distinct(2) group_slots_def filter_empty_conv)
  also have "\<dots> = count (mset (map (\<lambda>i. pg_group (signals ! i)) bucket)) h"
    by (induction bucket) (auto simp: group_slots_def)
  finally show "count (mset (new_places F signals m bucket encoding)) h = count (mset (map (\<lambda>i. pg_group (signals ! i)) bucket)) h" .
qed

definition placed :: "'d fp \<Rightarrow> 'd place_signal list \<Rightarrow> members \<Rightarrow> nat list \<Rightarrow> 64 word \<Rightarrow> 'd place_signal list" where
  "placed F signals m bucket encoding =
    fold (\<lambda>(i, group). set_group i group) (zip (ordered_signals F signals bucket) (new_places F signals m bucket encoding)) signals"

definition exchanged :: "nat list \<Rightarrow> 'd place_signal list \<Rightarrow> 'd place_signal list \<Rightarrow> bool" where
  "exchanged bucket signals signals' \<longleftrightarrow> same_but_group signals signals' \<and>
     (\<forall>i < length signals. i \<notin> set bucket \<longrightarrow> signals' ! i = signals ! i) \<and>
     mset (map (\<lambda>i. pg_group (signals' ! i)) bucket) = mset (map (\<lambda>i. pg_group (signals ! i)) bucket)"

lemma placed_exchanged:
  assumes "distinct bucket" "\<forall>i \<in> set bucket. i < length signals"
  shows "exchanged bucket signals (placed F signals m bucket encoding)"
proof -
  let ?order = "ordered_signals F signals bucket" and ?new = "new_places F signals m bucket encoding"
  let ?s' = "placed F signals m bucket encoding"
  have order: "distinct ?order" "set ?order = set bucket"
    using assms(1) by (simp_all add: ordered_signals_def)
  have "length ?new = length bucket"
    using mset_new_places [of F signals m bucket encoding] by (metis length_map size_mset)
  then have len: "length ?new = length ?order" by (simp add: ordered_signals_def)
  have same: "same_but_group signals ?s'"
    unfolding placed_def by (rule fold_set_group_same [OF same_but_group_refl])
  have other: "?s' ! i = signals ! i" if "i \<notin> set bucket" for i
    unfolding placed_def using that order(2) by (intro fold_set_group_other) (auto dest: set_zip_leftD)
  have "map (\<lambda>i. pg_group (?s' ! i)) ?order = ?new"
    unfolding placed_def using order assms(2) len by (intro fold_set_group_at) auto
  then have "mset (map (\<lambda>i. pg_group (?s' ! i)) ?order) = mset (map (\<lambda>i. pg_group (signals ! i)) bucket)"
    using mset_new_places [of F signals m bucket encoding] by simp
  then have "mset (map (\<lambda>i. pg_group (?s' ! i)) bucket) = mset (map (\<lambda>i. pg_group (signals ! i)) bucket)"
    by (metis mset_map mset_ordered_signals)
  then show ?thesis using same other by (simp add: exchanged_def)
qed

text \<open>The map of groups after the exchange and after its revision.\<close>

definition regrouped :: "'d fp \<Rightarrow> 'd place_signal list \<Rightarrow> members \<Rightarrow> nat list \<Rightarrow> 64 word \<Rightarrow> members" where
  "regrouped F signals m bucket encoding = (let order = ordered_signals F signals bucket in
     fold (\<lambda>i. add_member (pg_group (placed F signals m bucket encoding ! i)) i) order
       (fold (\<lambda>(i, old). drop_member old i) (zip order (map (\<lambda>i. pg_group (signals ! i)) order)) m))"

lemma zip_with_map: "zip xs (map f xs) = map (\<lambda>x. (x, f x)) xs"
  by (induction xs) auto

lemma regrouped_consistent:
  assumes c: "consistent signals m" and b: "distinct bucket" "\<forall>i \<in> set bucket. i < length signals"
  shows "consistent (placed F signals m bucket encoding) (regrouped F signals m bucket encoding)"
proof -
  let ?order = "ordered_signals F signals bucket" and ?s' = "placed F signals m bucket encoding"
  have ex: "length ?s' = length signals" "\<And>i. i < length signals \<Longrightarrow> i \<notin> set bucket \<Longrightarrow> ?s' ! i = signals ! i"
    using placed_exchanged [OF b, of F m encoding] by (auto simp: exchanged_def same_but_group_def)
  let ?old = "map (\<lambda>i. pg_group (signals ! i)) ?order"
  have old: "(i, g) \<in> set (zip ?order ?old) \<longleftrightarrow> i \<in> set bucket \<and> g = pg_group (signals ! i)" for i g
    by (auto simp: zip_with_map set_ordered_signals)
  have "member_rep (regrouped F signals m bucket encoding)
      (\<lambda>i g. (i < length signals \<and> g = pg_group (signals ! i)) \<and> (i, g) \<notin> set (zip ?order ?old) \<or>
        i \<in> set ?order \<and> g = pg_group (?s' ! i))"
    unfolding regrouped_def Let_def
    by (intro fold_add_members fold_drop_members) (use c in \<open>simp add: consistent_def\<close>)
  then show ?thesis
    unfolding consistent_def
    by (rule member_rep_cong) (use b(2) ex in \<open>auto simp: old set_ordered_signals\<close>)
qed

lemma revert_consistent:
  assumes "consistent s m" "i < length s"
  shows "consistent (set_group i old s) (add_member old i (drop_member (pg_group (s ! i)) i m))"
proof -
  have "member_rep (add_member old i (drop_member (pg_group (s ! i)) i m))
      (\<lambda>j g. (j < length s \<and> g = pg_group (s ! j)) \<and> \<not> (j = i \<and> g = pg_group (s ! i)) \<or> (j = i \<and> g = old))"
    using assms(1) unfolding consistent_def by (intro member_rep_add member_rep_drop)
  then show ?thesis
    unfolding consistent_def by (rule member_rep_cong) (use assms(2) in \<open>auto simp: set_group_def nth_list_update\<close>)
qed

lemma fold_revert:
  assumes "consistent s m" "\<forall>i \<in> fst ` set ps. i < length s"
  shows "\<exists>m'. fold revert_signal ps (s, m) = (fold (\<lambda>(i, group). set_group i group) ps s, m') \<and>
    consistent (fold (\<lambda>(i, group). set_group i group) ps s) m'"
  using assms
proof (induction ps arbitrary: s m)
  case (Cons p ps)
  obtain i old where p: "p = (i, old)" by (cases p)
  show ?case
    using Cons.IH [OF revert_consistent [OF Cons.prems(1), of i old]] Cons.prems(2)
    by (simp add: p revert_signal_def)
qed simp

lemma revert_all:
  assumes s: "exchanged bucket signals s'" and o: "distinct order" "set order = set bucket" "\<forall>i \<in> set bucket. i < length signals"
  shows "fold (\<lambda>(i, group). set_group i group) (zip order (map (\<lambda>i. pg_group (signals ! i)) order)) s' = signals"
proof (rule nth_equalityI)
  let ?ps = "zip order (map (\<lambda>i. pg_group (signals ! i)) order)"
  let ?r = "fold (\<lambda>(i, group). set_group i group) ?ps s'"
  have len: "length s' = length signals" using s by (simp add: exchanged_def same_but_group_def)
  then show "length ?r = length signals" by simp
  fix i assume "i < length ?r"
  then have i: "i < length signals" using len by simp
  have "same_but_group signals ?r" using s by (intro fold_set_group_same) (simp add: exchanged_def)
  then have r: "(?r ! i)\<lparr>pg_group := pg_group (signals ! i)\<rparr> = signals ! i" using i by (simp add: same_but_group_def)
  show "?r ! i = signals ! i"
  proof (cases "i \<in> set bucket")
    case False
    then have "?r ! i = s' ! i" using o(2) by (intro fold_set_group_other) (auto dest: set_zip_leftD)
    then show ?thesis using s i False by (simp add: exchanged_def)
  next
    case True
    have "map (\<lambda>i. pg_group (?r ! i)) order = map (\<lambda>i. pg_group (signals ! i)) order"
      using o len by (intro fold_set_group_at) auto
    then have "pg_group (?r ! i) = pg_group (signals ! i)" using True o(2) by simp
    then have "(?r ! i)\<lparr>pg_group := pg_group (signals ! i)\<rparr> = ?r ! i" by (metis place_signal.surjective place_signal.update_convs(5) place_signal.select_convs(5))
    then show ?thesis using r by simp
  qed
qed

definition changed :: "'d place_signal list \<Rightarrow> 'd place_signal list \<Rightarrow> nat set \<Rightarrow> nat set" where
  "changed signals signals' A = {i \<in> A. pg_group (signals' ! i) \<noteq> pg_group (signals ! i)}"

definition bucket_result :: "'d fp \<Rightarrow> nat list \<Rightarrow> 64 word \<Rightarrow> 'd refiner \<Rightarrow> 'd refiner" where
  "bucket_result F bucket encoding st =
    (let signals = rf_signals st; m = rf_members st; s' = placed F signals m bucket encoding;
         m' = regrouped F signals m bucket encoding; affected = affected_groups signals bucket;
         order = ordered_signals F signals bucket;
         moved = int (length (filter (\<lambda>i. pg_group (s' ! i) \<noteq> pg_group (signals ! i)) order))
     in if length bucket < 2 \<or> length affected < 2 then st
        else if fp_lt F (fp_add F (pairwise_objective F signals m affected) (tolerance F)) (pairwise_objective F s' m' affected)
        then (let (s'', m'') = fold revert_signal (zip order (map (\<lambda>i. pg_group (signals ! i)) order)) (s', m')
              in st\<lparr>rf_signals := s'', rf_members := m''\<rparr>)
        else if moved > 0 then st\<lparr>rf_signals := s', rf_members := m', rf_accepted := rf_accepted st + 1, rf_moved := rf_moved st + moved\<rparr>
        else st\<lparr>rf_signals := s', rf_members := m'\<rparr>)"

lemma filter_zip_map: "length (filter (\<lambda>(i, x). P i x) (zip xs (map f xs))) = length (filter (\<lambda>i. P i (f i)) xs)"
  by (induction xs) auto

lemma refine_bucket_result: "refine_bucket F bucket encoding st = bucket_result F bucket encoding st"
  unfolding refine_bucket_def bucket_result_def Let_def filter_zip_map
  unfolding placed_def regrouped_def new_places_def Let_def ..

text \<open>One bucket, whatever the numbers.\<close>

definition bucket_spec :: "'d fp \<Rightarrow> nat list \<Rightarrow> 'd refiner \<Rightarrow> 'd refiner \<Rightarrow> bool" where
  "bucket_spec F bucket st st' \<longleftrightarrow> exchanged bucket (rf_signals st) (rf_signals st') \<and>
     consistent (rf_signals st') (rf_members st') \<and>
     rf_moved st' = rf_moved st + int (card (changed (rf_signals st) (rf_signals st') (set bucket))) \<and>
     rf_accepted st' = rf_accepted st + (if changed (rf_signals st) (rf_signals st') (set bucket) = {} then 0 else 1) \<and>
     (rf_signals st' = rf_signals st \<or>
      (let affected = affected_groups (rf_signals st) bucket in
       \<not> fp_lt F (fp_add F (pairwise_objective F (rf_signals st) (rf_members st) affected) (tolerance F))
         (pairwise_objective F (rf_signals st') (rf_members st') affected)))"

lemma exchanged_refl: "exchanged bucket signals signals"
  by (simp add: exchanged_def same_but_group_refl)

lemma bucket_spec_same:
  assumes "rf_signals st' = rf_signals st" "rf_moved st' = rf_moved st" "rf_accepted st' = rf_accepted st"
    "consistent (rf_signals st) (rf_members st')"
  shows "bucket_spec F bucket st st'"
  using assms by (simp add: bucket_spec_def exchanged_refl changed_def)

lemma refine_bucket_spec:
  assumes c: "consistent (rf_signals st) (rf_members st)" and b: "distinct bucket" "\<forall>i \<in> set bucket. i < length (rf_signals st)"
  shows "bucket_spec F bucket st (refine_bucket F bucket encoding st)"
proof -
  define signals m where sm: "signals = rf_signals st" "m = rf_members st"
  define s' m' where sm': "s' = placed F signals m bucket encoding" "m' = regrouped F signals m bucket encoding"
  define affected order where ao: "affected = affected_groups signals bucket" "order = ordered_signals F signals bucket"
  define better where "better \<longleftrightarrow> \<not> fp_lt F (fp_add F (pairwise_objective F signals m affected) (tolerance F))
    (pairwise_objective F s' m' affected)"
  have ex: "exchanged bucket signals s'" and c': "consistent s' m'"
    using placed_exchanged [of bucket signals F m encoding] regrouped_consistent [of signals m bucket F encoding] c b
    by (auto simp: sm sm')
  have order: "distinct order" "set order = set bucket"
    using b(1) by (simp_all add: ao ordered_signals_def)
  have "card (changed signals s' (set bucket)) = card (set (filter (\<lambda>i. pg_group (s' ! i) \<noteq> pg_group (signals ! i)) order))"
    using order(2) by (auto simp: changed_def intro: arg_cong [where f = card])
  then have moved: "length (filter (\<lambda>i. pg_group (s' ! i) \<noteq> pg_group (signals ! i)) order) = card (changed signals s' (set bucket))"
    using distinct_card [OF distinct_filter [OF order(1)]] by metis
  have none: "card (changed signals s' (set bucket)) = 0 \<longleftrightarrow> changed signals s' (set bucket) = {}"
    by (simp add: changed_def)
  obtain m'' where rev: "fold revert_signal (zip order (map (\<lambda>i. pg_group (signals ! i)) order)) (s', m') = (signals, m'')"
    and c'': "consistent signals m''"
  proof -
    have "length s' = length signals" using ex by (simp add: exchanged_def same_but_group_def)
    then have "\<forall>i \<in> fst ` set (zip order (map (\<lambda>i. pg_group (signals ! i)) order)). i < length s'"
      using order(2) b(2) by (auto simp: zip_with_map sm)
    then show ?thesis
      using fold_revert [OF c'] revert_all [OF ex order] b(2) that by (metis sm(1))
  qed
  show ?thesis
  proof (cases "length bucket < 2 \<or> length affected < 2 \<or> \<not> better")
    case True
    then show ?thesis
      unfolding refine_bucket_result bucket_result_def Let_def sm [symmetric] sm' [symmetric] ao [symmetric] rev
      by (auto simp: better_def intro!: bucket_spec_same) (use c c'' in \<open>auto simp: sm\<close>)
  next
    case False
    then show ?thesis
      unfolding refine_bucket_result bucket_result_def Let_def sm [symmetric] sm' [symmetric] ao [symmetric] moved
      using ex c' none by (auto simp: better_def bucket_spec_def sm [symmetric] ao [symmetric])
  qed
qed

section \<open>All buckets\<close>

definition conserved :: "(bucket_key \<times> nat list) list \<Rightarrow> 'd refiner \<Rightarrow> 'd refiner \<Rightarrow> bool" where
  "conserved bs st st' \<longleftrightarrow> same_but_group (rf_signals st) (rf_signals st') \<and>
     (\<forall>i < length (rf_signals st). i \<notin> set (items bs) \<longrightarrow> rf_signals st' ! i = rf_signals st ! i) \<and>
     (\<forall>(k, b) \<in> set bs. mset (map (\<lambda>i. pg_group (rf_signals st' ! i)) b) = mset (map (\<lambda>i. pg_group (rf_signals st ! i)) b)) \<and>
     consistent (rf_signals st') (rf_members st') \<and>
     rf_moved st' = rf_moved st + int (card (changed (rf_signals st) (rf_signals st') (set (items bs)))) \<and>
     rf_accepted st' = rf_accepted st + int (length (filter (\<lambda>(k, b). changed (rf_signals st) (rf_signals st') (set b) \<noteq> {}) bs))"

lemma refine_all_Cons: "refine_all F ((k, b) # bs) st = refine_all F bs (refine_bucket F b (snd (snd k)) st)"
  by (cases k) (simp add: refine_all_def)

lemma changed_cong:
  "(\<And>i. i \<in> A \<Longrightarrow> s ! i = t ! i) \<Longrightarrow> (\<And>i. i \<in> A \<Longrightarrow> s' ! i = t' ! i) \<Longrightarrow> changed s s' A = changed t t' A"
  by (auto simp: changed_def)

lemma changed_Un: "changed s s' (A \<union> B) = changed s s' A \<union> changed s s' B"
  by (auto simp: changed_def)

lemma finite_changed: "finite A \<Longrightarrow> finite (changed s s' A)"
  by (simp add: changed_def)

lemma refine_all_conserved:
  assumes "consistent (rf_signals st) (rf_members st)" "distinct (items bs)" "\<forall>i \<in> set (items bs). i < length (rf_signals st)"
  shows "conserved bs st (refine_all F bs st)"
  using assms
proof (induction bs arbitrary: st)
  case Nil
  then show ?case by (simp add: conserved_def refine_all_def same_but_group_refl changed_def)
next
  case (Cons kb bs)
  obtain k b where kb: "kb = (k, b)" by (cases kb)
  let ?st1 = "refine_bucket F b (snd (snd k)) st" and ?st2 = "refine_all F ((k, b) # bs) st"
  let ?s = "rf_signals st" and ?s1 = "rf_signals ?st1" and ?s2 = "rf_signals ?st2"
  have b: "distinct b" "distinct (items bs)" "set b \<inter> set (items bs) = {}" "\<forall>i \<in> set b. i < length ?s"
    "\<forall>i \<in> set (items bs). i < length ?s"
    using Cons.prems(2,3) by (auto simp: kb)
  have A: "bucket_spec F b st ?st1" by (rule refine_bucket_spec [OF Cons.prems(1) b(1,4)])
  then have len: "length ?s1 = length ?s" by (simp add: bucket_spec_def exchanged_def same_but_group_def)
  have "conserved bs ?st1 ?st2"
    unfolding refine_all_Cons using A b len by (intro Cons.IH) (auto simp: bucket_spec_def)
  note B = this [unfolded conserved_def]
  have in_b: "?s2 ! i = ?s1 ! i" if "i \<in> set b" for i using B b(3,4) len that by auto
  have in_bs: "?s1 ! i = ?s ! i" if "i \<in> set (items bs)" for i
    using A b(3,5) that by (auto simp: bucket_spec_def exchanged_def)
  have cb: "changed ?s ?s2 (set b) = changed ?s ?s1 (set b)" by (rule changed_cong) (simp_all add: in_b)
  have cbs: "changed ?s ?s2 A = changed ?s1 ?s2 A" if "A \<subseteq> set (items bs)" for A
    using that by (intro changed_cong) (auto simp: in_bs)
  have card: "card (changed ?s ?s2 (set (items ((k, b) # bs)))) = card (changed ?s ?s1 (set b)) + card (changed ?s1 ?s2 (set (items bs)))"
    unfolding items_simps set_append changed_Un cb cbs [OF order_refl]
    using b(3) by (intro card_Un_disjoint finite_changed) (auto simp: changed_def)
  have filt: "filter (\<lambda>(k, b). changed ?s ?s2 (set b) \<noteq> {}) bs = filter (\<lambda>(k, b). changed ?s1 ?s2 (set b) \<noteq> {}) bs"
  proof (rule filter_cong [OF refl])
    fix x assume "x \<in> set bs"
    then have "set (snd x) \<subseteq> set (items bs)" by (auto simp: items_def)
    then show "(case x of (k, b) \<Rightarrow> changed ?s ?s2 (set b) \<noteq> {}) = (case x of (k, b) \<Rightarrow> changed ?s1 ?s2 (set b) \<noteq> {})"
      by (cases x) (simp add: cbs)
  qed
  have mm: "mset (map (\<lambda>i. pg_group (?s2 ! i)) c) = mset (map (\<lambda>i. pg_group (?s ! i)) c)" if "(l, c) \<in> set ((k, b) # bs)" for l c
  proof (cases "(l, c) = (k, b)")
    case True
    then have e: "map (\<lambda>i. pg_group (?s2 ! i)) c = map (\<lambda>i. pg_group (?s1 ! i)) c" using in_b by simp
    have "mset (map (\<lambda>i. pg_group (?s1 ! i)) b) = mset (map (\<lambda>i. pg_group (?s ! i)) b)"
      using A unfolding bucket_spec_def exchanged_def by blast
    then show ?thesis unfolding e using True by simp
  next
    case False
    then have m: "(l, c) \<in> set bs" using that by auto
    then have "set c \<subseteq> set (items bs)" by (auto simp: items_def)
    then have e: "map (\<lambda>i. pg_group (?s1 ! i)) c = map (\<lambda>i. pg_group (?s ! i)) c" using in_bs by (auto simp: subset_iff)
    have "mset (map (\<lambda>i. pg_group (?s2 ! i)) c) = mset (map (\<lambda>i. pg_group (?s1 ! i)) c)" using B m by blast
    then show ?thesis unfolding e .
  qed
  have same: "same_but_group ?s ?s2"
    using A B by (auto simp: bucket_spec_def exchanged_def intro: same_but_group_trans)
  have other: "?s2 ! i = ?s ! i" if "i < length ?s" "i \<notin> set (items ((k, b) # bs))" for i
    using A B that len by (simp add: bucket_spec_def exchanged_def kb)
  have "rf_moved ?st2 = rf_moved st + int (card (changed ?s ?s2 (set (items ((k, b) # bs)))))"
    using A B card by (simp add: bucket_spec_def)
  moreover have "rf_accepted ?st2 = rf_accepted st + int (length (filter (\<lambda>(k, b). changed ?s ?s2 (set b) \<noteq> {}) ((k, b) # bs)))"
    using A B filt by (simp add: bucket_spec_def cb)
  ultimately show ?case
    unfolding conserved_def kb using same other mm B by blast
qed

section \<open>The whole run\<close>

lemma place_buckets_props:
  "distinct (map fst (place_buckets signals))" "distinct (items (place_buckets signals))"
  "set (items (place_buckets signals)) = {..<length signals}"
  "(k, b) \<in> set (place_buckets signals) \<Longrightarrow> set b = {i. i < length signals \<and> place_key (signals ! i) = k}"
proof -
  note P = fold_push_back [where key = "\<lambda>i. place_key (signals ! i)" and ixs = "[0..<length signals]", folded place_buckets_def]
  show keys: "distinct (map fst (place_buckets signals))" using P(1) by (simp add: strict_sorted_iff)
  show "distinct (items (place_buckets signals))" using P(2) by (metis distinct_upt mset_eq_imp_distinct_iff)
  show S: "set (items (place_buckets signals)) = {..<length signals}"
    using mset_eq_setD [OF P(2)] by (auto simp: atLeast0LessThan)
  show "set b = {i. i < length signals \<and> place_key (signals ! i) = k}" if kb: "(k, b) \<in> set (place_buckets signals)"
  proof (intro equalityI subsetI)
    fix i assume "i \<in> set b"
    then show "i \<in> {i. i < length signals \<and> place_key (signals ! i) = k}" using P(3) [OF kb] by simp
  next
    fix i assume i: "i \<in> {i. i < length signals \<and> place_key (signals ! i) = k}"
    then have "i \<in> set (items (place_buckets signals))" using S by simp
    then obtain l c where c: "(l, c) \<in> set (place_buckets signals)" "i \<in> set c" by (auto simp: items_def)
    then have "l = k" using P(3) i by fastforce
    then have "c = b" using keys c(1) kb by (metis eq_key_imp_eq_value)
    then show "i \<in> set b" using c(2) by simp
  qed
qed

definition class_size :: "'d place_signal list \<Rightarrow> bucket_key \<Rightarrow> int \<Rightarrow> nat" where
  "class_size signals k g = card {i. i < length signals \<and> place_key (signals ! i) = k \<and> pg_group (signals ! i) = g}"

lemma class_size_bucket:
  assumes "distinct b" "set b = {i. i < length signals \<and> place_key (signals ! i) = k}"
  shows "class_size signals k g = count (mset (map (\<lambda>i. pg_group (signals ! i)) b)) g"
proof -
  have "count (mset (map (\<lambda>i. pg_group (signals ! i)) b)) g = length (filter (\<lambda>i. pg_group (signals ! i) = g) b)"
    by (induction b) auto
  also have "\<dots> = card (set (filter (\<lambda>i. pg_group (signals ! i) = g) b))"
    using assms(1) by (metis distinct_card distinct_filter)
  also have "set (filter (\<lambda>i. pg_group (signals ! i) = g) b) =
      {i. i < length signals \<and> place_key (signals ! i) = k \<and> pg_group (signals ! i) = g}"
    using assms(2) by auto
  finally show ?thesis by (simp add: class_size_def)
qed

lemma conserved_class_size:
  assumes c: "conserved (place_buckets (rf_signals st)) st st'"
  shows "class_size (rf_signals st') k g = class_size (rf_signals st) k g"
proof -
  let ?s = "rf_signals st" and ?s' = "rf_signals st'"
  have same: "same_but_group ?s ?s'" using c by (simp add: conserved_def)
  then have len: "length ?s' = length ?s" by (simp add: same_but_group_def)
  have keys: "{i. i < length ?s' \<and> place_key (?s' ! i) = k} = {i. i < length ?s \<and> place_key (?s ! i) = k}"
    using same_but_groupD(6) [OF same] len by auto
  show ?thesis
  proof (cases "k \<in> fst ` set (place_buckets ?s)")
    case True
    then obtain b where b: "(k, b) \<in> set (place_buckets ?s)" by auto
    have "distinct b" using place_buckets_props(2) [of "rf_signals st"] b by (auto simp: items_def distinct_concat_iff)
    note B = class_size_bucket [OF this]
    have "mset (map (\<lambda>i. pg_group (?s' ! i)) b) = mset (map (\<lambda>i. pg_group (?s ! i)) b)"
      using c b unfolding conserved_def by blast
    then show ?thesis
      using B [of ?s k g] B [of ?s' k g] place_buckets_props(4) [OF b] keys by metis
  next
    case False
    have "place_key (?s ! i) \<noteq> k" if i: "i < length ?s" for i
    proof
      assume k: "place_key (?s ! i) = k"
      have "i \<in> set (items (place_buckets ?s))" using i place_buckets_props(3) [of ?s] by simp
      then obtain l c where c: "(l, c) \<in> set (place_buckets ?s)" "i \<in> set c" by (auto simp: items_def)
      then have "l = k" using place_buckets_props(4) [OF c(1)] k by simp
      then show False using False c(1) by force
    qed
    moreover have "place_key (?s' ! i) \<noteq> k" if i: "i < length ?s'" for i
      using calculation [of i] keys i by blast
    ultimately have "{i. i < length ?s \<and> place_key (?s ! i) = k \<and> pg_group (?s ! i) = g} = {}"
      "{i. i < length ?s' \<and> place_key (?s' ! i) = k \<and> pg_group (?s' ! i) = g} = {}" by blast+
    then show ?thesis unfolding class_size_def by (simp only:)
  qed
qed

definition refine_start :: "'d place_signal list \<Rightarrow> 'd refiner" where
  "refine_start signals = \<lparr>rf_signals = signals, rf_members = group_members signals, rf_accepted = 0, rf_moved = 0\<rparr>"

lemma refine_places_conserved: "conserved (place_buckets signals) (refine_start signals)
    (refine_all F (place_buckets signals) (refine_start signals))"
  by (rule refine_all_conserved)
    (use place_buckets_props(2,3) [of signals] in \<open>auto simp: refine_start_def group_members_consistent\<close>)

lemma refine_places_InrD:
  assumes "refine_places F input = Inr r"
  shows "rp_signals r = rf_signals (refine_all F (place_buckets input) (refine_start input))"
    "rp_moved r = rf_moved (refine_all F (place_buckets input) (refine_start input))"
    "rp_accepted r = rf_accepted (refine_all F (place_buckets input) (refine_start input))"
    "\<forall>i < length input. place_ok F i (input ! i)"
  using assms by (auto simp: refine_places_def check_places_def refine_start_def list_all_iff Let_def split: if_splits)

theorem refine_places_conserves:
  assumes "refine_places F input = Inr r"
  shows "same_but_group input (rp_signals r)" "class_size (rp_signals r) k g = class_size input k g"
    "rp_moved r = int (card (changed input (rp_signals r) {..<length input}))"
    "rp_accepted r = int (card ((\<lambda>i. place_key (input ! i)) ` changed input (rp_signals r) {..<length input}))"
proof -
  let ?bs = "place_buckets input" and ?s' = "rp_signals r"
  note R = refine_places_InrD [OF assms]
  note C = refine_places_conserved [of input F]
  have start: "rf_signals (refine_start input) = input" "rf_moved (refine_start input) = 0" "rf_accepted (refine_start input) = 0"
    by (simp_all add: refine_start_def)
  show "same_but_group input ?s'" using C by (simp add: conserved_def R start)
  show "class_size ?s' k g = class_size input k g"
    using conserved_class_size [of "refine_start input"] C by (simp add: R start)
  show "rp_moved r = int (card (changed input ?s' {..<length input}))"
    using C by (simp add: conserved_def R start place_buckets_props(3))
  let ?P = "\<lambda>(k, b). changed input ?s' (set b) \<noteq> {}"
  have "rp_accepted r = int (length (filter ?P ?bs))" using C by (simp add: conserved_def R start)
  also have "length (filter ?P ?bs) = card (fst ` set (filter ?P ?bs))"
    using distinct_card [OF distinct_map_filter [OF place_buckets_props(1) [of input], of ?P]] by simp
  also have "fst ` set (filter ?P ?bs) = (\<lambda>i. place_key (input ! i)) ` changed input ?s' {..<length input}"
  proof (intro equalityI subsetI)
    fix k assume "k \<in> fst ` set (filter ?P ?bs)"
    then obtain b i where b: "(k, b) \<in> set ?bs" "i \<in> changed input ?s' (set b)" by auto
    then show "k \<in> (\<lambda>i. place_key (input ! i)) ` changed input ?s' {..<length input}"
      using place_buckets_props(4) [OF b(1)] by (auto simp: changed_def)
  next
    fix k assume "k \<in> (\<lambda>i. place_key (input ! i)) ` changed input ?s' {..<length input}"
    then obtain i where i: "i < length input" "i \<in> changed input ?s' {..<length input}" "k = place_key (input ! i)"
      by (auto simp: changed_def)
    then have "i \<in> set (items ?bs)" by (simp add: place_buckets_props(3))
    then obtain l b where b: "(l, b) \<in> set ?bs" "i \<in> set b" by (auto simp: items_def)
    then have "l = k" using place_buckets_props(4) [OF b(1)] i(3) by simp
    then show "k \<in> fst ` set (filter ?P ?bs)" using b i(2) by (force simp: changed_def)
  qed
  finally show "rp_accepted r = int (card ((\<lambda>i. place_key (input ! i)) ` changed input ?s' {..<length input}))" .
qed

end
