(* ===== verification/Chimew_Spread.thy ===== *)
theory Chimew_Spread
  imports Chimew_Exchange
begin

text \<open>
  The objective of the position refiner for coordinates on a grid: the prefix sums compute the sum of all
  pairwise distances inside the groups exactly, a bucket is kept only if it does not raise this sum, and the
  check at the end never fails.
\<close>

section \<open>The sum of pairwise distances\<close>

fun spread :: "'a::linordered_idom list \<Rightarrow> 'a" where
  "spread [] = 0"
| "spread (x # xs) = (\<Sum>y \<leftarrow> xs. \<bar>x - y\<bar>) + spread xs"

lemma spread_twice: "2 * spread xs = (\<Sum>x \<in># mset xs. \<Sum>y \<in># mset xs. \<bar>x - y\<bar>)"
proof (induction xs)
  case (Cons x xs)
  have "(\<Sum>y \<in># mset xs. \<bar>y - x\<bar>) = (\<Sum>y \<leftarrow> xs. \<bar>x - y\<bar>)"
    by (induction xs) (simp_all add: abs_minus_commute)
  moreover have "(\<Sum>y \<in># mset xs. \<bar>x - y\<bar>) = (\<Sum>y \<leftarrow> xs. \<bar>x - y\<bar>)"
    by (induction xs) simp_all
  ultimately show ?case using Cons by (simp add: sum_mset.distrib algebra_simps)
qed simp

lemma spread_mset: "mset xs = mset ys \<Longrightarrow> spread xs = spread ys"
  by (metis mult_cancel_left spread_twice zero_neq_numeral)

lemma spread_snoc:
  assumes "sorted (xs @ [x])"
  shows "spread (xs @ [x]) = spread xs + x * of_nat (length xs) - sum_list xs"
  using assms
proof (induction xs)
  case (Cons y ys)
  then show ?case by (simp add: sorted_append algebra_simps)
qed simp

lemma spread_nonneg [simp]: "0 \<le> spread xs"
  by (induction xs) (auto intro!: add_nonneg_nonneg sum_list_nonneg)

lemma spread_bound:
  fixes xs :: "int list"
  assumes "\<forall>x \<in> set xs. \<bar>x\<bar> \<le> Y"
  shows "spread xs \<le> int (length xs) * (int (length xs) * (2 * Y))"
  using assms
proof (induction xs)
  case (Cons x xs)
  have Y: "0 \<le> Y" using Cons.prems by fastforce
  have "(\<Sum>y \<leftarrow> xs. \<bar>x - y\<bar>) \<le> (\<Sum>y \<leftarrow> xs. 2 * Y)"
    by (rule sum_list_mono) (use Cons.prems in fastforce)
  then have "spread (x # xs) \<le> int (length xs) * (2 * Y) + int (length xs) * (int (length xs) * (2 * Y))"
    using Cons by (simp add: sum_list_triv)
  also have "\<dots> \<le> int (length (x # xs)) * (int (length (x # xs)) * (2 * Y))"
    using Y by (simp add: algebra_simps)
  finally show ?case .
qed simp

section \<open>Exact arithmetic on a grid\<close>

text \<open>
  What IEEE doubles guarantee: \<open>num x\<close> is the multiple \<open>a\<close> of the step of a grid that \<open>x\<close> represents, if it is on
  the grid. Operations whose exact result is within \<open>L\<close> are exact, comparisons are exact, and the tolerance is
  too small to reach the next point of the grid. Binary64 satisfies this for every step \<open>2 ^ -k\<close> with \<open>k\<close> up to
  38, that is not below twice the tolerance, and \<open>L = 2 ^ 53\<close>.
\<close>

definition grid_exact :: "'d fp \<Rightarrow> ('d \<Rightarrow> int option) \<Rightarrow> int \<Rightarrow> bool" where
  "grid_exact F num L \<longleftrightarrow> num (fp_of_int F 0) = Some 0 \<and>
     (\<forall>x a i. num x = Some a \<longrightarrow> \<bar>i\<bar> \<le> L \<longrightarrow> \<bar>a * i\<bar> \<le> L \<longrightarrow> num (fp_mul F x (fp_of_int F i)) = Some (a * i)) \<and>
     (\<forall>x y a b. num x = Some a \<longrightarrow> num y = Some b \<longrightarrow>
        (\<bar>a + b\<bar> \<le> L \<longrightarrow> num (fp_add F x y) = Some (a + b)) \<and> (\<bar>a - b\<bar> \<le> L \<longrightarrow> num (fp_sub F x y) = Some (a - b)) \<and>
        (fp_lt F x y \<longleftrightarrow> a < b) \<and> (fp_lt F (fp_add F x (tolerance F)) y \<longleftrightarrow> a < b))"

lemma grid_exactD:
  assumes "grid_exact F num L"
  shows "num (fp_of_int F 0) = Some 0"
    "num x = Some a \<Longrightarrow> \<bar>i\<bar> \<le> L \<Longrightarrow> \<bar>a * i\<bar> \<le> L \<Longrightarrow> num (fp_mul F x (fp_of_int F i)) = Some (a * i)"
    "num x = Some a \<Longrightarrow> num y = Some b \<Longrightarrow> \<bar>a + b\<bar> \<le> L \<Longrightarrow> num (fp_add F x y) = Some (a + b)"
    "num x = Some a \<Longrightarrow> num y = Some b \<Longrightarrow> \<bar>a - b\<bar> \<le> L \<Longrightarrow> num (fp_sub F x y) = Some (a - b)"
    "num x = Some a \<Longrightarrow> num y = Some b \<Longrightarrow> fp_lt F x y \<longleftrightarrow> a < b"
    "num x = Some a \<Longrightarrow> num y = Some b \<Longrightarrow> fp_lt F (fp_add F x (tolerance F)) y \<longleftrightarrow> a < b"
  using assms by (simp_all add: grid_exact_def)

text \<open>A number on the grid, at most \<open>Y\<close> away from the origin.\<close>

definition on_grid :: "('d \<Rightarrow> int option) \<Rightarrow> int \<Rightarrow> 'd \<Rightarrow> bool" where
  "on_grid num Y x \<longleftrightarrow> (case num x of None \<Rightarrow> False | Some a \<Rightarrow> \<bar>a\<bar> \<le> Y)"

definition grid_value :: "('d \<Rightarrow> int option) \<Rightarrow> 'd \<Rightarrow> int" where
  "grid_value num x = the (num x)"

lemma on_gridD: "on_grid num Y x \<Longrightarrow> num x = Some (grid_value num x)" "on_grid num Y x \<Longrightarrow> \<bar>grid_value num x\<bar> \<le> Y"
  by (auto simp: on_grid_def grid_value_def split: option.splits)

section \<open>The objective of one group\<close>

lemma insert_by_sorted:
  assumes "\<And>y. y \<in> set ys \<Longrightarrow> lt y x \<longleftrightarrow> (f y :: 'a::linorder) < f x"
  shows "sorted (map f ys) \<Longrightarrow> sorted (map f (insert_by lt x ys))"
  using assms
proof (induction ys)
  case (Cons y ys)
  have "set (insert_by l x ys) = insert x (set ys)" for l by (metis mset_insert_by set_mset_add_mset_insert set_mset_mset)
  with Cons show ?case by auto
qed simp

lemma sort_by_sorted:
  assumes "\<And>x y. x \<in> set xs \<Longrightarrow> y \<in> set xs \<Longrightarrow> lt x y \<longleftrightarrow> (f x :: 'a::linorder) < f y"
  shows "sorted (map f (sort_by lt xs))"
  using assms
proof (induction xs)
  case Nil
  then show ?case by (simp add: sort_by_def)
next
  case (Cons x xs)
  have "sorted (map f (sort_by lt xs))" using Cons by simp
  then have "sorted (map f (insert_by lt x (sort_by lt xs)))" by (rule insert_by_sorted [rotated]) (use Cons.prems in auto)
  then show ?case by (simp add: sort_by_def)
qed

lemma sum_list_abs_bound: "\<forall>x \<in> set xs. \<bar>x\<bar> \<le> (Y :: int) \<Longrightarrow> \<bar>sum_list xs\<bar> \<le> int (length xs) * Y"
  by (induction xs) (auto simp: algebra_simps)

lemma sum_list_upper: "\<forall>x \<in> set xs. x \<le> (Y :: int) \<Longrightarrow> sum_list xs \<le> int (length xs) * Y"
  by (induction xs) (auto simp: algebra_simps)

lemma group_objective_val:
  fixes num :: "'d \<Rightarrow> int option"
  assumes F: "grid_exact F num L" and s: "sorted (map (grid_value num) vals)" and grid: "\<forall>v \<in> set vals. on_grid num Y v"
    and obj: "num objective = Some c" "0 \<le> c" "c + spread (map (grid_value num) vals) \<le> L"
    and few: "int (length vals) \<le> L" "int (length vals) * Y \<le> L"
  shows "num (group_objective F vals objective) = Some (c + spread (map (grid_value num) vals))"
proof -
  let ?v = "grid_value num"
  have "num (fst (fold (spread_step F) (enumerate 0 vals) (objective, fp_of_int F 0))) = Some (c + spread (map ?v vals)) \<and>
      num (snd (fold (spread_step F) (enumerate 0 vals) (objective, fp_of_int F 0))) = Some (sum_list (map ?v vals))"
    using s grid obj(3) few
  proof (induction vals rule: rev_induct)
    case Nil
    then show ?case using obj by (simp add: grid_exactD(1) [OF F])
  next
    case (snoc v vs)
    let ?k = "int (length vs)" and ?xs = "map ?v vs" and ?a = "?v v"
    have sv: "sorted (?xs @ [?a])" and sorted: "sorted ?xs" and le: "\<forall>x \<in> set ?xs. x \<le> ?a"
      using snoc.prems(1) by (simp_all add: sorted_append)
    have grid: "\<forall>v \<in> set vs. on_grid num Y v" and v: "num v = Some ?a" "\<bar>?a\<bar> \<le> Y"
      using snoc.prems(2) on_gridD [of num Y v] by simp_all
    have Y: "0 \<le> Y" using v(2) by linarith
    have sum: "\<bar>sum_list (map ?v (vs @ [v]))\<bar> \<le> int (length (vs @ [v])) * Y"
      using sum_list_abs_bound [of "map ?v (vs @ [v])" Y] snoc.prems(2) on_gridD(2) by fastforce
    have split: "spread (map ?v (vs @ [v])) = spread ?xs + (?a * ?k - sum_list ?xs)"
      using spread_snoc [OF sv] by simp
    have diff: "0 \<le> ?a * ?k - sum_list ?xs" using sum_list_upper [OF le] by (simp add: mult.commute)
    have IH: "num (fst (fold (spread_step F) (enumerate 0 vs) (objective, fp_of_int F 0))) = Some (c + spread ?xs)"
      "num (snd (fold (spread_step F) (enumerate 0 vs) (objective, fp_of_int F 0))) = Some (sum_list ?xs)"
      using snoc.IH [OF sorted grid] snoc.prems(3-) split diff Y by (auto simp: algebra_simps)
    have "\<bar>?a * ?k\<bar> \<le> Y * ?k" using v(2) by (simp add: abs_mult mult_right_mono)
    then have mul: "\<bar>?a * ?k\<bar> \<le> L" "\<bar>?k\<bar> \<le> L" using snoc.prems(4,5) Y by (auto simp: algebra_simps)
    have total: "c + spread ?xs + (?a * ?k - sum_list ?xs) \<le> L" using snoc.prems(3) split by simp
    have "\<bar>?a * ?k - sum_list ?xs\<bar> \<le> L" using diff total obj(2) spread_nonneg [of ?xs] by linarith
    then have inner: "num (fp_sub F (fp_mul F v (fp_of_int F ?k)) (snd (fold (spread_step F) (enumerate 0 vs) (objective, fp_of_int F 0)))) =
        Some (?a * ?k - sum_list ?xs)"
      by (rule grid_exactD(4) [OF F grid_exactD(2) [OF F v(1) mul(2,1)] IH(2)])
    have "\<bar>c + spread ?xs + (?a * ?k - sum_list ?xs)\<bar> \<le> L" using total diff obj(2) spread_nonneg [of ?xs] by linarith
    note outer = grid_exactD(3) [OF F IH(1) inner this]
    have "\<bar>sum_list ?xs + ?a\<bar> \<le> L" using sum snoc.prems(5) by simp
    note prefix = grid_exactD(3) [OF F IH(2) v(1) this]
    have last: "fold (spread_step F) (enumerate 0 (vs @ [v])) (objective, fp_of_int F 0) =
        spread_step F (length vs, v) (fold (spread_step F) (enumerate 0 vs) (objective, fp_of_int F 0))"
      by (simp add: enumerate_append_eq)
    show ?case
      unfolding split last using outer prefix
      by (cases "fold (spread_step F) (enumerate 0 vs) (objective, fp_of_int F 0)") (simp add: spread_step_def add.assoc)
  qed
  then show ?thesis by (simp add: group_objective_def)
qed

definition group_list :: "'d place_signal list \<Rightarrow> int \<Rightarrow> nat list" where
  "group_list signals g = filter (\<lambda>i. pg_group (signals ! i) = g) [0..<length signals]"

definition group_spread :: "('d \<Rightarrow> int) \<Rightarrow> 'd place_signal list \<Rightarrow> int \<Rightarrow> int" where
  "group_spread num signals g = spread (map (\<lambda>i. num (pg_y (signals ! i))) (group_list signals g))"

lemma group_spread_nonneg [simp]: "0 \<le> group_spread num signals g"
  by (simp add: group_spread_def)

text \<open>All coordinates on the grid, and few enough of them for the sums to stay within \<open>L\<close>.\<close>

definition places_fit :: "('d \<Rightarrow> int option) \<Rightarrow> int \<Rightarrow> int \<Rightarrow> 'd place_signal list \<Rightarrow> bool" where
  "places_fit num L Y signals \<longleftrightarrow> (\<forall>s \<in> set signals. on_grid num Y (pg_y s)) \<and> 0 \<le> Y \<and> int (length signals) \<le> L \<and>
     int (length signals) * (int (length signals) * (2 * Y)) \<le> L"

lemma places_fit_same: "same_but_group s s' \<Longrightarrow> places_fit num L Y s \<Longrightarrow> places_fit num L Y s'"
  using same_but_groupD(5) [of s s'] unfolding places_fit_def all_set_conv_all_nth
  by (simp add: same_but_group_def)

lemma group_sizes: "distinct groups \<Longrightarrow> (\<Sum>g \<leftarrow> groups. int (length (group_list signals g))) \<le> int (length signals)"
proof -
  assume d: "distinct groups"
  have "(\<Sum>g \<leftarrow> groups. int (length (group_list signals g))) = (\<Sum>g \<in> set groups. int (card {i. i < length signals \<and> pg_group (signals ! i) = g}))"
    using d by (simp add: sum_list_distinct_conv_sum_set group_list_def length_filter_conv_card atLeast0LessThan cong: conj_cong)
  also have "\<dots> = int (card (\<Union>g \<in> set groups. {i. i < length signals \<and> pg_group (signals ! i) = g}))"
    by (subst card_UN_disjoint) auto
  also have "\<dots> \<le> int (card {..<length signals})" by (intro of_nat_mono card_mono) auto
  finally show ?thesis by simp
qed

lemma spreads_fit:
  assumes fit: "places_fit num L Y signals" and d: "distinct groups"
  shows "(\<Sum>g \<leftarrow> groups. group_spread (grid_value num) signals g) \<le> L"
proof -
  let ?n = "int (length signals)" and ?l = "\<lambda>g. int (length (group_list signals g))"
  have Y: "0 \<le> Y" using fit by (simp add: places_fit_def)
  have "group_spread (grid_value num) signals g \<le> ?l g * (?n * (2 * Y))" for g
  proof -
    have "\<forall>x \<in> set (map (\<lambda>i. grid_value num (pg_y (signals ! i))) (group_list signals g)). \<bar>x\<bar> \<le> Y"
      using fit on_gridD(2) by (fastforce simp: places_fit_def group_list_def)
    from spread_bound [OF this] have "group_spread (grid_value num) signals g \<le> ?l g * (?l g * (2 * Y))" by (simp add: group_spread_def)
    moreover have "length (group_list signals g) \<le> length signals"
      unfolding group_list_def by (metis diff_zero length_filter_le length_upt)
    then have "?l g * (?l g * (2 * Y)) \<le> ?l g * (?n * (2 * Y))" using Y by (intro mult_left_mono mult_right_mono) auto
    ultimately show ?thesis by linarith
  qed
  then have "(\<Sum>g \<leftarrow> groups. group_spread (grid_value num) signals g) \<le> (\<Sum>g \<leftarrow> groups. ?l g * (?n * (2 * Y)))"
    by (intro sum_list_mono)
  also have "\<dots> = (\<Sum>g \<leftarrow> groups. ?l g) * (?n * (2 * Y))" by (simp add: sum_list_mult_const)
  also have "\<dots> \<le> ?n * (?n * (2 * Y))" using group_sizes [OF d] Y by (intro mult_right_mono) auto
  also have "\<dots> \<le> L" using fit by (simp add: places_fit_def)
  finally show ?thesis .
qed

lemma consistent_members:
  assumes "consistent signals m"
  shows "members_at m g = group_list signals g"
proof -
  have "sorted (members_at m g)" "distinct (members_at m g)" "set (members_at m g) = set (group_list signals g)"
    using assms by (auto simp: consistent_def member_rep_def group_list_def)
  then show ?thesis
    by (intro sorted_distinct_set_unique) (simp_all add: group_list_def sorted_filter [where f = id, simplified])
qed

lemma pairwise_objective_val:
  assumes F: "grid_exact F num L" and fit: "places_fit num L Y signals" and c: "consistent signals m" and d: "distinct groups"
  shows "num (pairwise_objective F signals m groups) = Some (\<Sum>g \<leftarrow> groups. group_spread (grid_value num) signals g)"
proof -
  let ?vs = "\<lambda>js. sort_by (fp_lt F) (map (\<lambda>i. pg_y (signals ! i)) js)" and ?v = "grid_value num"
  let ?step = "\<lambda>group objective. case m group of None \<Rightarrow> objective | Some js \<Rightarrow> group_objective F (?vs js) objective"
  have step: "num (?step g objective) = Some (b + group_spread ?v signals g)"
    if o: "num objective = Some b" "0 \<le> b" "b + group_spread ?v signals g \<le> L" for g objective b
  proof (cases "m g")
    case None
    then show ?thesis using o(1) consistent_members [OF c, of g] by (simp add: members_at_def group_spread_def)
  next
    case (Some js)
    have js: "js = group_list signals g" using Some consistent_members [OF c, of g] by (simp add: members_at_def)
    have grid: "\<forall>v \<in> set (map (\<lambda>i. pg_y (signals ! i)) js). on_grid num Y v"
      using fit by (auto simp: js places_fit_def group_list_def)
    have lt: "fp_lt F x y \<longleftrightarrow> ?v x < ?v y" if "x \<in> set (map (\<lambda>i. pg_y (signals ! i)) js)" "y \<in> set (map (\<lambda>i. pg_y (signals ! i)) js)" for x y
      using grid_exactD(5) [OF F] on_gridD(1) grid that by metis
    have "mset (map ?v (?vs js)) = mset (map (\<lambda>i. ?v (pg_y (signals ! i))) js)"
      unfolding mset_map mset_sort_by by (simp add: image_mset.compositionality comp_def)
    then have spr: "spread (map ?v (?vs js)) = group_spread ?v signals g" unfolding group_spread_def js [symmetric] by (rule spread_mset)
    have "length js \<le> length signals" unfolding js group_list_def by (metis diff_zero length_filter_le length_upt)
    then have len: "int (length (?vs js)) \<le> int (length signals)" by simp
    have Y: "0 \<le> Y" "int (length signals) \<le> L" "int (length signals) * (int (length signals) * (2 * Y)) \<le> L"
      using fit by (simp_all add: places_fit_def)
    have "int (length (?vs js)) * Y \<le> int (length signals) * (int (length signals) * (2 * Y))"
    proof (cases "length signals = 0")
      case False
      have "int (length (?vs js)) * Y \<le> int (length signals) * Y" using len Y(1) by (rule mult_right_mono)
      also have "\<dots> \<le> int (length signals) * (int (length signals) * (2 * Y))"
      proof (rule mult_left_mono)
        have "1 \<le> int (length signals)" using False by linarith
        then have "1 * Y \<le> int (length signals) * (2 * Y)" using Y(1) by (intro mult_mono) auto
        then show "Y \<le> int (length signals) * (2 * Y)" by simp
      qed simp
      finally show ?thesis .
    qed (use len in simp)
    then have "int (length (?vs js)) * Y \<le> L" using Y(3) by linarith
    then have "num (group_objective F (?vs js) objective) = Some (b + spread (map ?v (?vs js)))"
      using len Y(2) o grid by (intro group_objective_val [OF F sort_by_sorted]) (auto simp: lt spr)
    then show ?thesis using Some by (simp add: spr)
  qed
  have "num (fold ?step groups objective) = Some (b + (\<Sum>g \<leftarrow> groups. group_spread ?v signals g))"
    if "num objective = Some b" "0 \<le> b" "b + (\<Sum>g \<leftarrow> groups. group_spread ?v signals g) \<le> L" for objective b
    using that
  proof (induction groups arbitrary: objective b)
    case (Cons g groups)
    have rest: "0 \<le> (\<Sum>g \<leftarrow> groups. group_spread ?v signals g)" by (rule sum_list_nonneg) auto
    have "num (?step g objective) = Some (b + group_spread ?v signals g)"
      by (rule step [OF Cons.prems(1,2)]) (use Cons.prems(3) rest in simp)
    from Cons.IH [OF this] show ?case using Cons.prems(2,3) by (simp add: add.assoc)
  qed simp
  from this [OF grid_exactD(1) [OF F]] show ?thesis using spreads_fit [OF fit d] by (simp add: pairwise_objective_def)
qed

section \<open>All groups\<close>

definition total_spread :: "('d \<Rightarrow> int) \<Rightarrow> int set \<Rightarrow> 'd place_signal list \<Rightarrow> int" where
  "total_spread num G signals = (\<Sum>g \<in> G. group_spread num signals g)"

definition groups_of :: "'d place_signal list \<Rightarrow> int set" where
  "groups_of signals = (\<lambda>i. pg_group (signals ! i)) ` {..<length signals}"

lemma group_spread_outside:
  assumes ex: "exchanged bucket s s'" and b: "\<forall>i \<in> set bucket. i < length s"
    and g: "g \<notin> (\<lambda>i. pg_group (s ! i)) ` set bucket"
  shows "group_spread num s' g = group_spread num s g"
proof -
  have same: "same_but_group s s'" and len: "length s' = length s" using ex by (simp_all add: exchanged_def same_but_group_def)
  have "mset (map (\<lambda>i. pg_group (s' ! i)) bucket) = mset (map (\<lambda>i. pg_group (s ! i)) bucket)"
    using ex unfolding exchanged_def by blast
  from mset_eq_setD [OF this] have "g \<notin> (\<lambda>i. pg_group (s' ! i)) ` set bucket" using g by simp
  then have "pg_group (s' ! i) = g \<longleftrightarrow> pg_group (s ! i) = g" if "i < length s" for i
    using ex g that by (cases "i \<in> set bucket") (auto simp: exchanged_def)
  then have "group_list s' g = group_list s g" unfolding group_list_def len by (intro filter_cong refl) auto
  moreover have "pg_y (s' ! i) = pg_y (s ! i)" if "i \<in> set (group_list s g)" for i
    using that same_but_groupD(5) [OF same] by (simp add: group_list_def)
  ultimately show ?thesis unfolding group_spread_def by (metis (no_types, lifting) map_cong)
qed

lemma exchanged_groups:
  assumes ex: "exchanged bucket s s'" and b: "\<forall>i \<in> set bucket. i < length s"
  shows "groups_of s' = groups_of s"
proof -
  have len: "length s' = length s" using ex by (simp add: exchanged_def same_but_group_def)
  have "mset (map (\<lambda>i. pg_group (s' ! i)) bucket) = mset (map (\<lambda>i. pg_group (s ! i)) bucket)"
    using ex unfolding exchanged_def by blast
  from mset_eq_setD [OF this] have "(\<lambda>i. pg_group (s' ! i)) ` set bucket = (\<lambda>i. pg_group (s ! i)) ` set bucket" by simp
  moreover have "(\<lambda>i. pg_group (s' ! i)) ` ({..<length s} - set bucket) = (\<lambda>i. pg_group (s ! i)) ` ({..<length s} - set bucket)"
    using ex by (intro image_cong) (auto simp: exchanged_def)
  moreover have "{..<length s} = set bucket \<union> ({..<length s} - set bucket)" using b by auto
  ultimately show ?thesis unfolding groups_of_def len by (metis image_Un)
qed

lemma total_spread_bucket:
  assumes ex: "exchanged bucket s s'" and b: "\<forall>i \<in> set bucket. i < length s"
  shows "total_spread num (groups_of s) s' - total_spread num (groups_of s) s =
    (\<Sum>g \<leftarrow> affected_groups s bucket. group_spread num s' g) - (\<Sum>g \<leftarrow> affected_groups s bucket. group_spread num s g)"
proof -
  let ?A = "(\<lambda>i. pg_group (s ! i)) ` set bucket" and ?G = "groups_of s"
  have sub: "?A \<subseteq> ?G" using b by (auto simp: groups_of_def)
  have fin: "finite ?G" by (simp add: groups_of_def)
  have split: "total_spread num ?G t = (\<Sum>g \<in> ?A. group_spread num t g) + (\<Sum>g \<in> ?G - ?A. group_spread num t g)" for t
    unfolding total_spread_def using sum.subset_diff [OF sub fin, of "group_spread num t"] by (simp add: add.commute)
  have "(\<Sum>g \<in> ?G - ?A. group_spread num s' g) = (\<Sum>g \<in> ?G - ?A. group_spread num s g)"
    using group_spread_outside [OF ex b] by (intro sum.cong) auto
  moreover have "(\<Sum>g \<leftarrow> affected_groups s bucket. group_spread num t g) = (\<Sum>g \<in> ?A. group_spread num t g)" for t
    using affected_groups_distinct [of s bucket] by (simp add: sum_list_distinct_conv_sum_set)
  ultimately show ?thesis by (simp add: split)
qed

section \<open>The tolerance\<close>

lemma exchanged_unchanged:
  assumes ex: "exchanged bucket s s'" and no: "changed s s' (set bucket) = {}"
  shows "s' = s"
proof (rule nth_equalityI)
  show len: "length s' = length s" using ex by (simp add: exchanged_def same_but_group_def)
  fix i assume "i < length s'"
  then have i: "i < length s" using len by simp
  have same: "(s' ! i)\<lparr>pg_group := pg_group (s ! i)\<rparr> = s ! i" using ex i by (simp add: exchanged_def same_but_group_def)
  show "s' ! i = s ! i"
  proof (cases "i \<in> set bucket")
    case True
    then have "pg_group (s ! i) = pg_group (s' ! i)" using no by (auto simp: changed_def)
    then show ?thesis using same by simp
  next
    case False
    then show ?thesis using ex i by (simp add: exchanged_def)
  qed
qed

lemma bucket_total:
  assumes F: "grid_exact F num L" and fit: "places_fit num L Y (rf_signals st)"
    and sp: "bucket_spec F bucket st st'" and c: "consistent (rf_signals st) (rf_members st)"
    and b: "\<forall>i \<in> set bucket. i < length (rf_signals st)" and G: "G = groups_of (rf_signals st)"
  shows "total_spread (grid_value num) G (rf_signals st') \<le> total_spread (grid_value num) G (rf_signals st)"
proof (cases "changed (rf_signals st) (rf_signals st') (set bucket) = {}")
  case True
  then have "rf_signals st' = rf_signals st" using sp exchanged_unchanged by (auto simp: bucket_spec_def)
  then show ?thesis by simp
next
  case False
  let ?a = "affected_groups (rf_signals st) bucket"
  have c': "consistent (rf_signals st') (rf_members st')" and ex: "exchanged bucket (rf_signals st) (rf_signals st')"
    using sp by (auto simp: bucket_spec_def)
  have fit': "places_fit num L Y (rf_signals st')" using places_fit_same fit ex unfolding exchanged_def by blast
  have d: "distinct ?a" by (rule affected_groups_distinct)
  have "rf_signals st' \<noteq> rf_signals st" using False by (auto simp: changed_def)
  then have "\<not> fp_lt F (fp_add F (pairwise_objective F (rf_signals st) (rf_members st) ?a) (tolerance F))
      (pairwise_objective F (rf_signals st') (rf_members st') ?a)"
    using sp by (simp add: bucket_spec_def Let_def)
  then have "(\<Sum>g \<leftarrow> ?a. group_spread (grid_value num) (rf_signals st') g) \<le> (\<Sum>g \<leftarrow> ?a. group_spread (grid_value num) (rf_signals st) g)"
    using grid_exactD(6) [OF F pairwise_objective_val [OF F fit c d] pairwise_objective_val [OF F fit' c' d]]
    by (simp add: not_less)
  then show ?thesis using total_spread_bucket [OF ex b, of "grid_value num"] unfolding G by simp
qed

lemma refine_all_total:
  assumes F: "grid_exact F num L" and c: "consistent (rf_signals st) (rf_members st)" and d: "distinct (items bs)"
    and b: "\<forall>i \<in> set (items bs). i < length (rf_signals st)" and G: "G = groups_of (rf_signals st)"
    and fit: "places_fit num L Y (rf_signals st)"
  shows "total_spread (grid_value num) G (rf_signals (refine_all F bs st)) \<le> total_spread (grid_value num) G (rf_signals st) \<and>
    places_fit num L Y (rf_signals (refine_all F bs st))"
  using c d b G fit
proof (induction bs arbitrary: st)
  case Nil
  then show ?case by (simp add: refine_all_def)
next
  case (Cons kb bs)
  obtain k b where kb: "kb = (k, b)" by (cases kb)
  let ?st1 = "refine_bucket F b (snd (snd k)) st"
  have b: "distinct b" "distinct (items bs)" "\<forall>i \<in> set b. i < length (rf_signals st)" "\<forall>i \<in> set (items bs). i < length (rf_signals st)"
    using Cons.prems(2,3) by (auto simp: kb)
  have sp: "bucket_spec F b st ?st1" by (rule refine_bucket_spec [OF Cons.prems(1) b(1,3)])
  then have ex: "exchanged b (rf_signals st) (rf_signals ?st1)" by (simp add: bucket_spec_def)
  have len: "length (rf_signals ?st1) = length (rf_signals st)" using ex by (simp add: exchanged_def same_but_group_def)
  have fit1: "places_fit num L Y (rf_signals ?st1)" using places_fit_same Cons.prems(5) ex unfolding exchanged_def by blast
  have "G = groups_of (rf_signals ?st1)" using exchanged_groups [OF ex b(3)] Cons.prems(4) by simp
  then have "total_spread (grid_value num) G (rf_signals (refine_all F bs ?st1)) \<le> total_spread (grid_value num) G (rf_signals ?st1) \<and>
      places_fit num L Y (rf_signals (refine_all F bs ?st1))"
    using sp b len fit1 by (intro Cons.IH) (auto simp: bucket_spec_def)
  moreover note bucket_total [OF F Cons.prems(5) sp Cons.prems(1) b(3) Cons.prems(4)]
  ultimately show ?case by (simp add: kb refine_all_Cons)
qed

text \<open>The sum of the distances of all pairs of signals that share a group.\<close>

definition objective :: "('d \<Rightarrow> int) \<Rightarrow> 'd place_signal list \<Rightarrow> int" where
  "objective num signals = total_spread num (groups_of signals) signals"

lemma all_groups: "set (affected_groups signals [0..<length signals]) = groups_of signals"
  by (auto simp: affected_groups_distinct(2) groups_of_def atLeast0LessThan)

lemma objective_list:
  "groups_of signals = groups_of input \<Longrightarrow>
    (\<Sum>g \<leftarrow> affected_groups input [0..<length input]. group_spread num signals g) = objective num signals"
  using affected_groups_distinct(1) [of input "[0..<length input]"]
  by (simp add: sum_list_distinct_conv_sum_set all_groups objective_def total_spread_def)

lemma conserved_groups:
  fixes s s' :: "'d place_signal list"
  assumes "\<And>k g. class_size s' k g = class_size s k g"
  shows "groups_of s' = groups_of s"
proof -
  have "g \<in> groups_of t \<longleftrightarrow> (\<exists>k. class_size t k g \<noteq> 0)" for t :: "'d place_signal list" and g
    by (auto simp: groups_of_def class_size_def simp del: split_paired_Ex split_paired_All)
  from this [of _ s'] this [of _ s] show ?thesis using assms by (intro set_eqI) simp
qed

theorem refine_places_objective:
  assumes F: "grid_exact F num L" and ok: "check_places F input = Inr input" and fit: "places_fit num L Y input"
  shows "\<exists>r. refine_places F input = Inr r \<and> num (rp_before r) = Some (objective (grid_value num) input) \<and>
    num (rp_after r) = Some (objective (grid_value num) (rp_signals r)) \<and>
    objective (grid_value num) (rp_signals r) \<le> objective (grid_value num) input"
proof -
  let ?v = "grid_value num" and ?st = "refine_start input"
  let ?st' = "refine_all F (place_buckets input) ?st" and ?all = "affected_groups input [0..<length input]"
  have start: "rf_signals ?st = input" "rf_members ?st = group_members input"
    by (simp_all add: refine_start_def)
  have C: "conserved (place_buckets input) ?st ?st'" by (rule refine_places_conserved)
  then have c': "consistent (rf_signals ?st') (rf_members ?st')" by (simp add: conserved_def)
  have groups: "groups_of (rf_signals ?st') = groups_of input"
    using conserved_class_size [of ?st ?st'] C start by (intro conserved_groups) simp
  have d: "distinct ?all" by (rule affected_groups_distinct)
  note obj = objective_list [OF groups, of ?v] objective_list [OF refl, of ?v input]
  have down: "objective ?v (rf_signals ?st') \<le> objective ?v input" and fit': "places_fit num L Y (rf_signals ?st')"
    using refine_all_total [OF F, of ?st "place_buckets input" "groups_of input" Y] start place_buckets_props(2,3) [of input]
      group_members_consistent [of input] groups fit
    by (simp_all add: objective_def)
  have before: "num (pairwise_objective F input (group_members input) ?all) = Some (objective ?v input)"
    using pairwise_objective_val [OF F fit group_members_consistent d] obj(2) by simp
  have after: "num (pairwise_objective F (rf_signals ?st') (rf_members ?st') ?all) = Some (objective ?v (rf_signals ?st'))"
    using pairwise_objective_val [OF F fit' c' d] obj(1) by simp
  have "refine_places F input = Inr \<lparr>rp_signals = rf_signals ?st', rp_accepted = rf_accepted ?st', rp_moved = rf_moved ?st',
      rp_before = pairwise_objective F input (group_members input) ?all,
      rp_after = pairwise_objective F (rf_signals ?st') (rf_members ?st') ?all\<rparr>"
    using down grid_exactD(6) [OF F before after]
    by (simp add: refine_places_def ok Let_def flip: refine_start_def)
  then show ?thesis using before after down by simp
qed

end
