(* ===== verification/Chimew_Compose.thy ===== *)
theory Chimew_Compose
  imports Chimew_Exchange
begin

text \<open>
  The grouper and the position refiner in sequence. The control plane hands the groups over with one number
  per pair of domain and time slot in place of the domain (\<open>src/emuflow/chimew_refinement.py\<close>); then the
  refined groups still satisfy what the grouper guarantees.
\<close>

definition groups_legal :: "signal list \<Rightarrow> int list \<Rightarrow> bool" where
  "groups_legal signals a \<longleftrightarrow> length a = length signals \<and> (\<forall>i < length signals.
     int (card {j. j < length signals \<and> a ! j = a ! i}) \<le> sg_ratio (signals ! i) \<and>
     (\<forall>j < length signals. i \<noteq> j \<and> a ! i = a ! j \<longrightarrow>
        sg_domain (signals ! i) = sg_domain (signals ! j) \<and> sg_ratio (signals ! i) = sg_ratio (signals ! j) \<and>
        sg_slot (signals ! i) \<noteq> sg_slot (signals ! j)))"

definition handed_over :: "signal list \<Rightarrow> int list \<Rightarrow> 'd place_signal list \<Rightarrow> bool" where
  "handed_over signals a places \<longleftrightarrow> length places = length signals \<and> (\<forall>i < length signals.
     pg_group (places ! i) = a ! i \<and> pg_ratio (places ! i) = sg_ratio (signals ! i) \<and>
     (\<forall>j < length signals. pg_domain (places ! i) = pg_domain (places ! j) \<longrightarrow>
        sg_domain (signals ! i) = sg_domain (signals ! j) \<and> sg_slot (signals ! i) = sg_slot (signals ! j)))"

lemma group_card_classes:
  "card {i. i < length s \<and> pg_group (s ! i) = g} = (\<Sum>k \<in> (\<lambda>i. place_key (s ! i)) ` {..<length s}. class_size s k g)"
proof -
  let ?S = "{i. i < length s \<and> pg_group (s ! i) = g}" and ?T = "(\<lambda>i. place_key (s ! i)) ` {..<length s}"
  have "(\<Sum>k \<in> ?T. \<Sum>i \<in> {i \<in> ?S. place_key (s ! i) = k}. 1) = (\<Sum>i \<in> ?S. 1::nat)"
    by (rule sum.group) auto
  moreover have "{i \<in> ?S. place_key (s ! i) = k} = {i. i < length s \<and> place_key (s ! i) = k \<and> pg_group (s ! i) = g}" for k
    by auto
  ultimately show ?thesis by (simp add: class_size_def)
qed

lemma class_size_pos: "class_size s k g \<noteq> 0 \<longleftrightarrow> (\<exists>i < length s. place_key (s ! i) = k \<and> pg_group (s ! i) = g)"
  by (auto simp: class_size_def)

lemma class_size_two:
  "2 \<le> class_size s k g \<longleftrightarrow> (\<exists>i j. i < length s \<and> j < length s \<and> i \<noteq> j \<and> place_key (s ! i) = k \<and> place_key (s ! j) = k \<and>
     pg_group (s ! i) = g \<and> pg_group (s ! j) = g)"
proof -
  let ?A = "{i. i < length s \<and> place_key (s ! i) = k \<and> pg_group (s ! i) = g}"
  have "2 \<le> card ?A \<longleftrightarrow> (\<exists>i j. i \<noteq> j \<and> {i, j} \<subseteq> ?A)"
  proof
    assume two: "2 \<le> card ?A"
    obtain T where T: "T \<subseteq> ?A" "card T = 2" by (rule obtain_subset_with_card_n [OF two])
    then obtain i j where "T = {i, j}" "i \<noteq> j" by (auto simp: card_2_iff)
    with T(1) show "\<exists>i j. i \<noteq> j \<and> {i, j} \<subseteq> ?A" by blast
  next
    assume "\<exists>i j. i \<noteq> j \<and> {i, j} \<subseteq> ?A"
    then obtain i j where "i \<noteq> j" "{i, j} \<subseteq> ?A" by blast
    then show "2 \<le> card ?A" using card_mono [of ?A "{i, j}"] by simp
  qed
  then show ?thesis unfolding class_size_def by blast
qed

lemma run_groups_legal:
  assumes "check_signals raw = Inr signals" "\<forall>s \<in> set signals. negatable (sg_encoding s)" "run signals = Some g"
  shows "groups_legal signals (gr_assignment g)"
proof -
  from run_assignment [OF assms(1,2)] show ?thesis
  proof (elim exE conjE, goal_cases)
    case (1 r)
    have "r = g" using 1(1) assms(3) by simp
    then show ?case unfolding groups_legal_def using 1(2,3) by blast
  qed
qed

theorem refined_groups_legal:
  assumes legal: "groups_legal signals a" and h: "handed_over signals a places" and r: "refine_places F places = Inr r"
  shows "groups_legal signals (map pg_group (rp_signals r))"
proof -
  let ?n = "length signals" and ?s' = "rp_signals r"
  note R = refine_places_conserves [OF r]
  have lens: "length places = ?n" "length ?s' = ?n"
    using h R(1) by (auto simp: handed_over_def same_but_group_def)
  have key': "place_key (?s' ! i) = place_key (places ! i)" if "i < ?n" for i
    using same_but_groupD(6) [OF R(1)] that lens by simp
  have key: "sg_domain (signals ! i) = sg_domain (signals ! j) \<and> sg_slot (signals ! i) = sg_slot (signals ! j) \<and>
      sg_ratio (signals ! i) = sg_ratio (signals ! j)"
    if "i < ?n" "j < ?n" "place_key (places ! i) = place_key (places ! j)" for i j
  proof -
    have "pg_domain (places ! i) = pg_domain (places ! j)" "pg_ratio (places ! i) = pg_ratio (places ! j)"
      using that(3) by (simp_all add: place_key_def)
    moreover have "pg_domain (places ! i) = pg_domain (places ! j) \<longrightarrow>
        sg_domain (signals ! i) = sg_domain (signals ! j) \<and> sg_slot (signals ! i) = sg_slot (signals ! j)"
      "pg_ratio (places ! i) = sg_ratio (signals ! i)" "pg_ratio (places ! j) = sg_ratio (signals ! j)"
      using h that(1,2) unfolding handed_over_def by blast+
    ultimately show ?thesis by simp
  qed
  have grp: "pg_group (places ! i) = a ! i" if "i < ?n" for i using h that by (simp add: handed_over_def)
  have apart: "sg_domain (signals ! i) = sg_domain (signals ! j)" "sg_ratio (signals ! i) = sg_ratio (signals ! j)"
    "sg_slot (signals ! i) \<noteq> sg_slot (signals ! j)" if "i < ?n" "j < ?n" "i \<noteq> j" "a ! i = a ! j" for i j
    using legal that unfolding groups_legal_def by blast+
  have before: "\<exists>j < ?n. place_key (places ! j) = place_key (places ! i) \<and> a ! j = pg_group (?s' ! i)" if i: "i < ?n" for i
  proof -
    have "class_size ?s' (place_key (places ! i)) (pg_group (?s' ! i)) \<noteq> 0"
      unfolding class_size_pos using i lens key' by auto
    then show ?thesis unfolding R(2) class_size_pos using lens grp by auto
  qed
  have sizes: "card {j. j < ?n \<and> pg_group (?s' ! j) = g} = card {j. j < ?n \<and> a ! j = g}" for g
  proof -
    have "(\<lambda>i. place_key (?s' ! i)) ` {..<?n} = (\<lambda>i. place_key (places ! i)) ` {..<?n}"
      using key' by (intro image_cong) auto
    then have "card {j. j < ?n \<and> pg_group (?s' ! j) = g} = card {j. j < ?n \<and> pg_group (places ! j) = g}"
      using group_card_classes [of ?s' g] group_card_classes [of places g] R(2) lens by simp
    moreover have "{j. j < ?n \<and> pg_group (places ! j) = g} = {j. j < ?n \<and> a ! j = g}" using grp by auto
    ultimately show ?thesis by simp
  qed
  have small: "int (card {j. j < ?n \<and> pg_group (?s' ! j) = pg_group (?s' ! i)}) \<le> sg_ratio (signals ! i)" if i: "i < ?n" for i
  proof -
    obtain j where j: "j < ?n" "place_key (places ! j) = place_key (places ! i)" "a ! j = pg_group (?s' ! i)"
      using before [OF i] by blast
    have "int (card {l. l < ?n \<and> a ! l = a ! j}) \<le> sg_ratio (signals ! j)"
      using legal j(1) by (simp add: groups_legal_def)
    then show ?thesis using sizes j key [OF j(1) i j(2)] by simp
  qed
  have distant: "sg_domain (signals ! i) = sg_domain (signals ! j) \<and> sg_ratio (signals ! i) = sg_ratio (signals ! j) \<and>
      sg_slot (signals ! i) \<noteq> sg_slot (signals ! j)"
    if i: "i < ?n" "j < ?n" "i \<noteq> j" "pg_group (?s' ! i) = pg_group (?s' ! j)" for i j
  proof (cases "place_key (places ! i) = place_key (places ! j)")
    case False
    obtain i0 where i0: "i0 < ?n" "place_key (places ! i0) = place_key (places ! i)" "a ! i0 = pg_group (?s' ! i)"
      using before [OF i(1)] by blast
    obtain j0 where j0: "j0 < ?n" "place_key (places ! j0) = place_key (places ! j)" "a ! j0 = pg_group (?s' ! j)"
      using before [OF i(2)] by blast
    have "i0 \<noteq> j0" "a ! i0 = a ! j0" using False i0 j0 i(4) by auto
    from apart [OF i0(1) j0(1) this] key [OF i0(1) i(1) i0(2)] key [OF j0(1) i(2) j0(2)] show ?thesis by simp
  next
    case True
    have "2 \<le> class_size ?s' (place_key (places ! i)) (pg_group (?s' ! i))"
      unfolding class_size_two using i True lens key' by (intro exI [of _ i] exI [of _ j]) simp
    then have "2 \<le> class_size places (place_key (places ! i)) (pg_group (?s' ! i))" by (simp only: R(2))
    then obtain i0 j0 where k: "i0 < ?n" "j0 < ?n" "i0 \<noteq> j0" "place_key (places ! i0) = place_key (places ! i)"
      "place_key (places ! j0) = place_key (places ! i)" and g: "pg_group (places ! i0) = pg_group (?s' ! i)"
      "pg_group (places ! j0) = pg_group (?s' ! i)"
      unfolding class_size_two lens by blast
    have "a ! i0 = a ! j0" using g grp [OF k(1)] grp [OF k(2)] by simp
    note k = k this
    have "place_key (places ! i0) = place_key (places ! j0)" using k(4,5) by simp
    from apart(3) [OF k(1,2,3,6)] key [OF k(1,2) this] show ?thesis by simp
  qed
  have m: "map pg_group ?s' ! i = pg_group (?s' ! i)" if "i < ?n" for i using that lens by simp
  have sets: "{j. j < ?n \<and> map pg_group ?s' ! j = g} = {j. j < ?n \<and> pg_group (?s' ! j) = g}" for g using m by auto
  show ?thesis
    unfolding groups_legal_def
  proof (intro conjI allI impI, goal_cases)
    case 1
    then show ?case using lens by simp
  next
    case (2 i)
    then show ?case unfolding sets m [OF 2] by (rule small)
  next
    case (3 i j)
    then have "pg_group (?s' ! i) = pg_group (?s' ! j)" using m by simp
    with distant [OF 3(1,2)] 3(3) show ?case by simp
  next
    case (4 i j)
    then have "pg_group (?s' ! i) = pg_group (?s' ! j)" using m by simp
    with distant [OF 4(1,2)] 4(3) show ?case by simp
  next
    case (5 i j)
    then have "pg_group (?s' ! i) = pg_group (?s' ! j)" using m by simp
    with distant [OF 5(1,2)] 5(3) show ?case by simp
  qed
qed

end
