(* ===== verification/Bsp_Flow.thy ===== *)
theory Bsp_Flow
  imports Native_Numbers "HOL-Library.Product_Lexorder"
begin

text \<open>
  The package-pin solver (\<open>src/native/bsp_pin_solver.cpp\<close>): a minimum-cost flow by successive shortest
  paths, each found by a queue-based label-correcting search, that binds every demand to a channel of
  its own. The model starts from the input records (the text reading of a line is not modelled).
  Sums of \<open>std::int64_t\<close> values that leave the 64-bit range are undefined behaviour: the outcome
  \<open>Overflow\<close>. Node and edge numbers are \<^typ>\<open>nat\<close>, the sentinel \<open>-1\<close> of the search trees is kept.
  Loops whose end depends on the data are partial functions: \<^const>\<open>None\<close> is "does not return".
\<close>

section \<open>Input records\<close>

record compatible_edge =
  ce_demand :: int
  ce_channel :: int
  ce_cost :: int

record pin_input =
  in_demands :: "int list"
  in_channels :: "int list"
  in_edges :: "compatible_edge list"

datatype pin_record =
    DEMAND int int
  | CHANNEL int int
  | EDGE int int int
  | Bad_record

datatype pin_error =
    Demand_order
  | Channel_order
  | Malformed_record
  | Empty_pin_model
  | Bad_domain
  | Bad_edge
  | Duplicate_edge
  | No_assignment
  | Not_reconstructed
  | Broken_path
  | Overflow

text \<open>The loop over the records; domains and edge ends are checked after the whole file is read.\<close>

fun read_record :: "pin_record \<Rightarrow> pin_input \<Rightarrow> pin_error + pin_input" where
  "read_record (DEMAND i k) inp =
    (if i \<noteq> int (length (in_demands inp)) then Inl Demand_order
     else Inr (inp\<lparr>in_demands := in_demands inp @ [k]\<rparr>))"
| "read_record (CHANNEL i k) inp =
    (if i \<noteq> int (length (in_channels inp)) then Inl Channel_order
     else Inr (inp\<lparr>in_channels := in_channels inp @ [k]\<rparr>))"
| "read_record (EDGE d c w) inp =
    Inr (inp\<lparr>in_edges := in_edges inp @ [\<lparr>ce_demand = d, ce_channel = c, ce_cost = w\<rparr>]\<rparr>)"
| "read_record Bad_record inp = Inl Malformed_record"

fun read_records :: "pin_record list \<Rightarrow> pin_input \<Rightarrow> pin_error + pin_input" where
  "read_records [] inp = Inr inp"
| "read_records (r # rs) inp =
    (case read_record r inp of Inl e \<Rightarrow> Inl e | Inr inp' \<Rightarrow> read_records rs inp')"

definition edge_accepted :: "int list \<Rightarrow> int list \<Rightarrow> compatible_edge \<Rightarrow> bool" where
  "edge_accepted ds cs e \<longleftrightarrow>
    \<not> (ce_demand e < 0 \<or> ce_demand e \<ge> int (length ds) \<or>
       ce_channel e < 0 \<or> ce_channel e \<ge> int (length cs) \<or> ce_cost e < 0 \<or>
       ds ! nat (ce_demand e) \<noteq> cs ! nat (ce_channel e))"

definition edge_key :: "compatible_edge \<Rightarrow> int \<times> int \<times> int" where
  "edge_key e = (ce_demand e, ce_channel e, ce_cost e)"

fun has_duplicate :: "compatible_edge list \<Rightarrow> bool" where
  "has_duplicate (a # b # es) =
    (ce_demand a = ce_demand b \<and> ce_channel a = ce_channel b \<or> has_duplicate (b # es))"
| "has_duplicate es = False"

definition check_input :: "pin_input \<Rightarrow> pin_error + pin_input" where
  "check_input inp =
    (if in_demands inp = [] \<or> in_channels inp = [] then Inl Empty_pin_model
     else if \<exists>d \<in> set (in_demands inp). d < 0 then Inl Bad_domain
     else if \<exists>c \<in> set (in_channels inp). c < 0 then Inl Bad_domain
     else if \<exists>e \<in> set (in_edges inp). \<not> edge_accepted (in_demands inp) (in_channels inp) e then Inl Bad_edge
     else let inp = inp\<lparr>in_edges := sort_key edge_key (in_edges inp)\<rparr> in
       if has_duplicate (in_edges inp) then Inl Duplicate_edge else Inr inp)"

definition read_input :: "pin_record list \<Rightarrow> pin_error + pin_input" where
  "read_input rs =
    (case read_records rs \<lparr>in_demands = [], in_channels = [], in_edges = []\<rparr> of
       Inl e \<Rightarrow> Inl e | Inr inp \<Rightarrow> check_input inp)"

section \<open>The residual network\<close>

record flow_edge =
  to_node :: nat
  reverse_edge :: nat
  capacity :: int
  cost :: int

type_synonym network = "flow_edge list list"

definition add_edge :: "nat \<Rightarrow> nat \<Rightarrow> int \<Rightarrow> int \<Rightarrow> network \<Rightarrow> network" where
  "add_edge from to cap w g =
    (let forward = \<lparr>to_node = to, reverse_edge = length (g ! to), capacity = cap, cost = w\<rparr>;
         reverse = \<lparr>to_node = from, reverse_edge = length (g ! from), capacity = 0, cost = - w\<rparr>;
         g = g[from := g ! from @ [forward]]
     in g[to := g ! to @ [reverse]])"

definition set_capacity :: "network \<Rightarrow> nat \<Rightarrow> nat \<Rightarrow> int \<Rightarrow> network" where
  "set_capacity g u i c = g[u := (g ! u)[i := (g ! u ! i)\<lparr>capacity := c\<rparr>]]"

text \<open>The body of the augmenting loop: one unit over edge \<open>i\<close> of \<open>u\<close>, which leads to \<open>node\<close>.\<close>

definition push_unit :: "network \<Rightarrow> nat \<Rightarrow> nat \<Rightarrow> nat \<Rightarrow> network" where
  "push_unit g u i node =
    (let edge = g ! u ! i;
         g = set_capacity g u i (capacity edge - 1)
     in set_capacity g node (reverse_edge edge) (capacity (g ! node ! reverse_edge edge) + 1))"

section \<open>Shortest augmenting paths\<close>

definition flow_infinity :: int where
  "flow_infinity = INT64_MAX div 4"

record labels =
  distance :: "int list"
  previous_node :: "int list"
  previous_edge :: "int list"
  in_queue :: "bool list"
  queue :: "nat list"

definition labels_start :: "nat \<Rightarrow> nat \<Rightarrow> labels" where
  "labels_start n source =
    \<lparr>distance = (replicate n flow_infinity)[source := 0], previous_node = replicate n (- 1),
     previous_edge = replicate n (- 1), in_queue = (replicate n False)[source := True],
     queue = [source]\<rparr>"

definition relax :: "network \<Rightarrow> nat \<Rightarrow> nat \<Rightarrow> labels \<Rightarrow> labels option" where
  "relax g node i t =
    (let edge = g ! node ! i; v = to_node edge in
     if capacity edge \<le> 0 then Some t
     else let candidate = distance t ! node + cost edge in
       if \<not> int64_ok candidate then None
       else if candidate < distance t ! v then
         (let t = t\<lparr>distance := (distance t)[v := candidate],
                    previous_node := (previous_node t)[v := int node],
                    previous_edge := (previous_edge t)[v := int i]\<rparr>
          in Some (if in_queue t ! v then t
                   else t\<lparr>queue := queue t @ [v], in_queue := (in_queue t)[v := True]\<rparr>))
       else Some t)"

fun relax_all :: "network \<Rightarrow> nat \<Rightarrow> nat list \<Rightarrow> labels \<Rightarrow> labels option" where
  "relax_all g node [] t = Some t"
| "relax_all g node (i # js) t =
    (case relax g node i t of None \<Rightarrow> None | Some t' \<Rightarrow> relax_all g node js t')"

definition visit_front :: "network \<Rightarrow> labels \<Rightarrow> labels option" where
  "visit_front g t =
    (let node = hd (queue t) in
     relax_all g node [0..<length (g ! node)]
       (t\<lparr>queue := tl (queue t), in_queue := (in_queue t)[node := False]\<rparr>))"

partial_function (option) search_loop :: "network \<Rightarrow> labels \<Rightarrow> (pin_error + labels) option" where
  "search_loop g t =
    (if queue t = [] then Some (Inr t)
     else case visit_front g t of None \<Rightarrow> Some (Inl Overflow) | Some t' \<Rightarrow> search_loop g t')"

definition shortest_paths :: "nat \<Rightarrow> network \<Rightarrow> (pin_error + labels) option" where
  "shortest_paths source g = search_loop g (labels_start (length g) source)"

partial_function (option) augment :: "labels \<Rightarrow> nat \<Rightarrow> nat \<Rightarrow> network \<Rightarrow> (pin_error + network) option" where
  "augment t source node g =
    (if node = source then Some (Inr g)
     else if previous_node t ! node < 0 then Some (Inl Broken_path)
     else let u = nat (previous_node t ! node); i = nat (previous_edge t ! node)
       in augment t source u (push_unit g u i node))"

partial_function (option) flow_loop ::
    "nat \<Rightarrow> nat \<Rightarrow> nat \<Rightarrow> nat \<Rightarrow> int \<Rightarrow> network \<Rightarrow> (pin_error + (nat \<times> int \<times> network)) option" where
  "flow_loop source sink target flow spent g =
    (if flow < target then
       Option.bind (shortest_paths source g) (\<lambda>r. case r of
         Inl e \<Rightarrow> Some (Inl e)
       | Inr t \<Rightarrow>
         if distance t ! sink = flow_infinity then Some (Inr (flow, spent, g))
         else Option.bind (augment t source sink g) (\<lambda>r. case r of
           Inl e \<Rightarrow> Some (Inl e)
         | Inr g' \<Rightarrow>
           if \<not> int64_ok (spent + distance t ! sink) then Some (Inl Overflow)
           else flow_loop source sink target (flow + 1) (spent + distance t ! sink) g'))
     else Some (Inr (flow, spent, g)))"

declare search_loop.simps [code] augment.simps [code] flow_loop.simps [code]

definition solve :: "nat \<Rightarrow> nat \<Rightarrow> nat \<Rightarrow> network \<Rightarrow> (pin_error + (nat \<times> int \<times> network)) option" where
  "solve source sink target g = flow_loop source sink target 0 0 g"

section \<open>Binding pins\<close>

definition first_channel :: "pin_input \<Rightarrow> nat" where
  "first_channel inp = 1 + length (in_demands inp)"

definition sink_node :: "pin_input \<Rightarrow> nat" where
  "sink_node inp = first_channel inp + length (in_channels inp)"

definition build_network :: "pin_input \<Rightarrow> network" where
  "build_network inp =
    (let g = replicate (sink_node inp + 1) [];
         g = fold (\<lambda>d. add_edge 0 (1 + d) 1 0) [0..<length (in_demands inp)] g;
         g = fold (\<lambda>e. add_edge (1 + nat (ce_demand e)) (first_channel inp + nat (ce_channel e)) 1 (ce_cost e))
               (in_edges inp) g
     in fold (\<lambda>c. add_edge (first_channel inp + c) (sink_node inp) 1 0) [0..<length (in_channels inp)] g)"

definition assigned_edges :: "pin_input \<Rightarrow> network \<Rightarrow> nat \<Rightarrow> (nat \<times> nat \<times> int) list" where
  "assigned_edges inp g d =
    map (\<lambda>e. (d, to_node e - first_channel inp, cost e))
      (filter (\<lambda>e. \<not> (to_node e < first_channel inp \<or> to_node e \<ge> sink_node inp \<or> capacity e \<noteq> 0))
        (g ! (1 + d)))"

definition bind_pins :: "pin_input \<Rightarrow> (pin_error + (int \<times> (nat \<times> nat \<times> int) list)) option" where
  "bind_pins inp =
    Option.bind (solve 0 (sink_node inp) (length (in_demands inp)) (build_network inp)) (\<lambda>r. case r of
      Inl e \<Rightarrow> Some (Inl e)
    | Inr (assigned, spent, g) \<Rightarrow>
      if assigned \<noteq> length (in_demands inp) then Some (Inl No_assignment)
      else let assignment = concat (map (assigned_edges inp g) [0..<length (in_demands inp)]) in
        if length assignment \<noteq> length (in_demands inp) then Some (Inl Not_reconstructed)
        else Some (Inr (spent, sort assignment)))"

definition pin_solver :: "pin_record list \<Rightarrow> (pin_error + (int \<times> (nat \<times> nat \<times> int) list)) option" where
  "pin_solver rs = (case read_input rs of Inl e \<Rightarrow> Some (Inl e) | Inr inp \<Rightarrow> bind_pins inp)"

end
