(* ===== verification/Bsp_Search.thy ===== *)
theory Bsp_Search
  imports Bsp_Flow
begin

text \<open>
  The label-correcting search of \<open>MinCostFlow::solve\<close> (\<open>src/native/bsp_pin_solver.cpp\<close>): on a residual
  network that has a feasible potential it ends, no sum leaves the 64-bit range, and it leaves shortest
  distances with an acyclic tree of previous edges. The ingredients: reduced labels never fall below zero
  (so a cycle of previous edges is impossible and the labels can be lowered only finitely often), and a
  label is at most the largest cost times the number of nodes reached before.
\<close>

named_theorems pin_defs \<open>predicates on residual networks\<close>

section \<open>Residual networks with a potential\<close>

definition edge_at :: "network \<Rightarrow> nat \<Rightarrow> nat \<Rightarrow> bool" where
  "edge_at g u i \<longleftrightarrow> u < length g \<and> i < length (g ! u)"

definition residual :: "network \<Rightarrow> nat \<Rightarrow> nat \<Rightarrow> bool" where
  "residual g u i \<longleftrightarrow> edge_at g u i \<and> 0 < capacity (g ! u ! i)"

abbreviation target :: "network \<Rightarrow> nat \<Rightarrow> nat \<Rightarrow> nat" where
  "target g u i \<equiv> to_node (g ! u ! i)"

abbreviation weight :: "network \<Rightarrow> nat \<Rightarrow> nat \<Rightarrow> int" where
  "weight g u i \<equiv> cost (g ! u ! i)"

abbreviation partner :: "network \<Rightarrow> nat \<Rightarrow> nat \<Rightarrow> nat" where
  "partner g u i \<equiv> reverse_edge (g ! u ! i)"

definition network_ok :: "network \<Rightarrow> bool" where
  "network_ok g \<longleftrightarrow> (\<forall>u i. edge_at g u i \<longrightarrow>
     edge_at g (target g u i) (partner g u i) \<and> target g u i \<noteq> u \<and>
     target g (target g u i) (partner g u i) = u \<and> partner g (target g u i) (partner g u i) = i \<and>
     weight g (target g u i) (partner g u i) = - weight g u i \<and>
     0 \<le> capacity (g ! u ! i))"

definition potential :: "network \<Rightarrow> (nat \<Rightarrow> int) \<Rightarrow> bool" where
  "potential g p \<longleftrightarrow> (\<forall>u i. residual g u i \<longrightarrow> p (target g u i) \<le> p u + weight g u i)"

definition cost_bound :: "network \<Rightarrow> int \<Rightarrow> bool" where
  "cost_bound g C \<longleftrightarrow> 0 \<le> C \<and> (\<forall>u i. edge_at g u i \<longrightarrow> \<bar>weight g u i\<bar> \<le> C)"

definition search_pre :: "network \<Rightarrow> (nat \<Rightarrow> int) \<Rightarrow> nat \<Rightarrow> int \<Rightarrow> bool" where
  "search_pre g p s C \<longleftrightarrow> network_ok g \<and> potential g p \<and> cost_bound g C \<and> s < length g \<and>
     p s = 0 \<and> (\<forall>v. 0 \<le> p v) \<and> int (length g) * C < flow_infinity"

lemma search_preD:
  assumes "search_pre g p s C"
  shows "network_ok g" "potential g p" "cost_bound g C" "s < length g" "p s = 0" "0 \<le> p v"
    "int (length g) * C < flow_infinity" "0 \<le> C"
  using assms by (auto simp: search_pre_def cost_bound_def)

lemma network_okD:
  assumes "network_ok g" "edge_at g u i"
  shows "edge_at g (target g u i) (partner g u i)" "target g u i \<noteq> u"
    "target g (target g u i) (partner g u i) = u" "partner g (target g u i) (partner g u i) = i"
    "weight g (target g u i) (partner g u i) = - weight g u i"
    "0 \<le> capacity (g ! u ! i)"
    "target g u i < length g"
  using assms by (auto simp: network_ok_def edge_at_def)

lemma potentialD: "potential g p \<Longrightarrow> residual g u i \<Longrightarrow> p (target g u i) \<le> p u + weight g u i"
  by (simp add: potential_def)

lemma residual_edge: "residual g u i \<Longrightarrow> edge_at g u i"
  by (simp add: residual_def)

lemma residual_target_lt: "network_ok g \<Longrightarrow> residual g u i \<Longrightarrow> target g u i < length g"
  by (blast dest: residual_edge network_okD(7))

lemma cost_boundD: "cost_bound g C \<Longrightarrow> edge_at g u i \<Longrightarrow> - C \<le> weight g u i \<and> weight g u i \<le> C"
  by (smt (verit) cost_bound_def)

section \<open>The invariant of the labels\<close>

definition reached :: "labels \<Rightarrow> nat \<Rightarrow> bool" where
  "reached t v \<longleftrightarrow> distance t ! v < flow_infinity"

definition reached_set :: "nat \<Rightarrow> labels \<Rightarrow> nat set" where
  "reached_set n t = {v. v < n \<and> reached t v}"

definition tree_edge :: "network \<Rightarrow> labels \<Rightarrow> nat \<Rightarrow> nat \<Rightarrow> nat \<Rightarrow> bool" where
  "tree_edge g t u i v \<longleftrightarrow> previous_node t ! v = int u \<and> previous_edge t ! v = int i \<and>
     residual g u i \<and> target g u i = v \<and> reached t u \<and> distance t ! u + weight g u i \<le> distance t ! v"

definition parent_rel :: "nat \<Rightarrow> labels \<Rightarrow> (nat \<times> nat) set" where
  "parent_rel n t = {(u, v). v < n \<and> previous_node t ! v = int u}"

definition queue_ok :: "nat \<Rightarrow> labels \<Rightarrow> bool" where
  "queue_ok n t \<longleftrightarrow> distinct (queue t) \<and> length (in_queue t) = n \<and>
     (\<forall>v < n. in_queue t ! v \<longleftrightarrow> v \<in> set (queue t)) \<and> (\<forall>v \<in> set (queue t). v < n \<and> reached t v)"

definition tree_ok :: "network \<Rightarrow> nat \<Rightarrow> labels \<Rightarrow> bool" where
  "tree_ok g s t \<longleftrightarrow> previous_node t ! s = -1 \<and> acyclic (parent_rel (length g) t) \<and>
     (\<forall>v < length g. v \<noteq> s \<longrightarrow> reached t v \<longrightarrow> (\<exists>u i. tree_edge g t u i v))"

definition labels_inv :: "network \<Rightarrow> (nat \<Rightarrow> int) \<Rightarrow> nat \<Rightarrow> int \<Rightarrow> labels \<Rightarrow> bool" where
  "labels_inv g p s C t \<longleftrightarrow>
     length (distance t) = length g \<and> length (previous_node t) = length g \<and>
     length (previous_edge t) = length g \<and> distance t ! s = 0 \<and>
     (\<forall>v < length g. distance t ! v \<le> flow_infinity) \<and>
     (\<forall>v < length g. reached t v \<longrightarrow> p v \<le> distance t ! v \<and>
        distance t ! v \<le> (int (card (reached_set (length g) t)) - 1) * C) \<and>
     tree_ok g s t \<and> queue_ok (length g) t"

lemma labels_invD:
  assumes "labels_inv g p s C t"
  shows "length (distance t) = length g" "length (previous_node t) = length g"
    "length (previous_edge t) = length g" "distance t ! s = 0"
    "v < length g \<Longrightarrow> distance t ! v \<le> flow_infinity"
    "v < length g \<Longrightarrow> reached t v \<Longrightarrow> p v \<le> distance t ! v"
    "v < length g \<Longrightarrow> reached t v \<Longrightarrow> distance t ! v \<le> (int (card (reached_set (length g) t)) - 1) * C"
    "tree_ok g s t" "queue_ok (length g) t"
  using assms by (auto simp: labels_inv_def)

lemma finite_reached_set [simp]: "finite (reached_set n t)"
  by (simp add: reached_set_def)

lemma card_reached_le: "card (reached_set n t) \<le> n"
  using card_mono [of "{..<n}" "reached_set n t"] by (auto simp: reached_set_def)

lemma flow_infinity_pos: "0 < flow_infinity"
  by (simp add: flow_infinity_def INT64_MAX_def)

lemma candidate_bounds:
  assumes pre: "search_pre g p s C" and inv: "labels_inv g p s C t"
    and u: "reached t u" and e: "residual g u i"
  shows "distance t ! u + weight g u i \<le> int (card (reached_set (length g) t)) * C"
    and "distance t ! u + weight g u i < flow_infinity"
    and "p (target g u i) \<le> distance t ! u + weight g u i"
    and "int64_ok (distance t ! u + weight g u i)"
proof -
  note pre' = search_preD [OF pre] and inv' = labels_invD [OF inv]
  have un: "u < length g" using e by (simp add: residual_def edge_at_def)
  have w: "weight g u i \<le> C" using cost_boundD pre'(3) residual_edge [OF e] by blast
  show A: "distance t ! u + weight g u i \<le> int (card (reached_set (length g) t)) * C"
    using inv'(7) [OF un u] w by (simp add: algebra_simps)
  have "int (card (reached_set (length g) t)) * C \<le> int (length g) * C"
    using card_reached_le pre'(8) by (simp add: mult_right_mono)
  with A pre'(7) show B: "distance t ! u + weight g u i < flow_infinity" by linarith
  show L: "p (target g u i) \<le> distance t ! u + weight g u i"
    using inv'(6) [OF un u] potentialD [OF pre'(2) e] by linarith
  show "int64_ok (distance t ! u + weight g u i)"
    using B L pre'(6) [of "target g u i"] by (simp add: int64_ok_def flow_infinity_def INT64_MAX_def)
qed

text \<open>Along previous edges the reduced label never falls, so no edge can close a cycle.\<close>

lemma reduced_labels_mono:
  assumes "search_pre g p s C" "labels_inv g p s C t" "(u, v) \<in> (parent_rel (length g) t)\<^sup>*"
    "reached t v"
  shows "reached t u \<and> distance t ! u - p u \<le> distance t ! v - p v"
  using assms(3,4)
proof (induction rule: converse_rtrancl_induct)
  case base
  then show ?case by simp
next
  case (step x y)
  then have y: "reached t y" "distance t ! y - p y \<le> distance t ! v - p v" by auto
  from step.hyps(1) have yn: "y < length g" and px: "previous_node t ! y = int x"
    by (auto simp: parent_rel_def)
  have "y \<noteq> s" using px labels_invD(8) [OF assms(2)] by (auto simp: tree_ok_def)
  with y yn labels_invD(8) [OF assms(2)] obtain u i where "tree_edge g t u i y"
    by (auto simp: tree_ok_def)
  with px have "residual g x i" "target g x i = y" "reached t x" "distance t ! x + weight g x i \<le> distance t ! y"
    by (auto simp: tree_edge_def)
  with potentialD [OF search_preD(2) [OF assms(1)], of x i] y show ?case by auto
qed

section \<open>Relaxing one edge\<close>

definition lowered :: "labels \<Rightarrow> nat \<Rightarrow> nat \<Rightarrow> nat \<Rightarrow> int \<Rightarrow> labels" where
  "lowered t u i v c = t\<lparr>distance := (distance t)[v := c], previous_node := (previous_node t)[v := int u],
     previous_edge := (previous_edge t)[v := int i],
     in_queue := (in_queue t)[v := True],
     queue := (if in_queue t ! v then queue t else queue t @ [v])\<rparr>"

lemma relax_cases:
  assumes inv: "labels_inv g p s C t" and n: "target g u i < length g"
    and ok: "0 < capacity (g ! u ! i) \<Longrightarrow> int64_ok (distance t ! u + weight g u i)"
  shows "relax g u i t =
    (if capacity (g ! u ! i) \<le> 0 \<or> distance t ! target g u i \<le> distance t ! u + weight g u i then Some t
     else Some (lowered t u i (target g u i) (distance t ! u + weight g u i)))"
proof -
  have "in_queue t ! target g u i \<Longrightarrow> (in_queue t)[target g u i := True] = in_queue t"
    using list_update_id [of "in_queue t" "target g u i"] by simp
  with ok show ?thesis by (auto simp: relax_def Let_def lowered_def)
qed

definition slack_sum :: "nat \<Rightarrow> (nat \<Rightarrow> int) \<Rightarrow> labels \<Rightarrow> nat" where
  "slack_sum n p t = (\<Sum>v < n. nat (distance t ! v - p v))"

definition relaxed :: "network \<Rightarrow> labels \<Rightarrow> nat \<Rightarrow> nat \<Rightarrow> bool" where
  "relaxed g t u i \<longleftrightarrow> (residual g u i \<longrightarrow> distance t ! target g u i \<le> distance t ! u + weight g u i)"

lemma lowered_simps [simp]:
  "distance (lowered t u i v c) = (distance t)[v := c]"
  "previous_node (lowered t u i v c) = (previous_node t)[v := int u]"
  "previous_edge (lowered t u i v c) = (previous_edge t)[v := int i]"
  "in_queue (lowered t u i v c) = (in_queue t)[v := True]"
  "queue (lowered t u i v c) = (if in_queue t ! v then queue t else queue t @ [v])"
  by (simp_all add: lowered_def)

lemma lowered_reached:
  assumes "v < length (distance t)" "c < flow_infinity"
  shows "reached (lowered t u i v c) y \<longleftrightarrow> y = v \<or> reached t y"
  using assms by (auto simp: reached_def nth_list_update)

lemma lowered_queue_ok:
  assumes "queue_ok n t" "v < n" "n = length (distance t)" "c < flow_infinity"
  shows "queue_ok n (lowered t u i v c)"
  using assms by (auto simp: queue_ok_def nth_list_update lowered_reached)

lemma lowered_tree_ok:
  assumes pre: "search_pre g p s C" and inv: "labels_inv g p s C t"
    and u: "reached t u" and e: "residual g u i"
    and c: "c = distance t ! u + weight g u i" and less: "c < distance t ! target g u i"
  shows "tree_ok g s (lowered t u i (target g u i) c)"
proof -
  let ?v = "target g u i" and ?n = "length g"
  let ?t = "lowered t u i ?v c"
  note inv' = labels_invD [OF inv] and cb = candidate_bounds [OF pre inv u e]
  have tree: "tree_ok g s t" by (rule inv'(8))
  have edge: "edge_at g u i" by (rule residual_edge [OF e])
  have vu: "?v \<noteq> u" and vn: "?v < ?n" using network_okD [OF search_preD(1) [OF pre] edge] by auto
  have vs: "?v \<noteq> s" using cb(3) search_preD(5) [OF pre] less inv'(4) c by auto
  have cinf: "c < flow_infinity" using cb(2) c by simp
  have reach: "reached ?t y \<longleftrightarrow> y = ?v \<or> reached t y" for y
    using lowered_reached vn cinf inv'(1) by simp
  have no_path: "(?v, u) \<notin> (parent_rel ?n t)\<^sup>*"
    using reduced_labels_mono [OF pre inv _ u, of ?v] less c
      potentialD [OF search_preD(2) [OF pre] e] by fastforce
  have sub: "parent_rel ?n ?t \<subseteq> insert (u, ?v) (parent_rel ?n t)"
    using vn inv'(2) by (auto simp: parent_rel_def nth_list_update)
  have "acyclic (insert (u, ?v) (parent_rel ?n t))"
    using tree no_path by (simp add: tree_ok_def acyclic_insert)
  then have acyc: "acyclic (parent_rel ?n ?t)" using sub by (rule acyclic_subset)
  have edges: "\<exists>x j. tree_edge g ?t x j y" if y: "y < ?n" "y \<noteq> s" "reached ?t y" for y
  proof (cases "y = ?v")
    case True
    have "tree_edge g ?t u i ?v"
      using vn vu e u reach inv' c by (simp add: tree_edge_def)
    then show ?thesis using True by blast
  next
    case False
    with y reach obtain x j where xj: "tree_edge g t x j y"
      using tree by (auto simp: tree_ok_def)
    have "x < ?n" using xj by (simp add: tree_edge_def residual_def edge_at_def)
    then have "distance ?t ! x \<le> distance t ! x"
      using less inv'(1) by (cases "x = ?v") auto
    with xj False reach have "tree_edge g ?t x j y" by (auto simp: tree_edge_def)
    then show ?thesis by blast
  qed
  show ?thesis using acyc edges tree vs by (auto simp: tree_ok_def)
qed

lemma lowered_inv:
  assumes pre: "search_pre g p s C" and inv: "labels_inv g p s C t"
    and u: "reached t u" and e: "residual g u i"
    and c: "c = distance t ! u + weight g u i" and less: "c < distance t ! target g u i"
  shows "labels_inv g p s C (lowered t u i (target g u i) c)"
proof -
  let ?v = "target g u i" and ?n = "length g"
  let ?t = "lowered t u i ?v c"
  note inv' = labels_invD [OF inv] and cb = candidate_bounds [OF pre inv u e]
  have vn: "?v < ?n" using network_okD(7) [OF search_preD(1) [OF pre] residual_edge [OF e]] .
  have vs: "?v \<noteq> s" using cb(3) search_preD(5) [OF pre] less inv'(4) c by auto
  have cinf: "c < flow_infinity" using cb(2) c by simp
  have reach: "reached ?t y \<longleftrightarrow> y = ?v \<or> reached t y" for y
    using lowered_reached vn cinf inv'(1) by simp
  have rset: "reached_set ?n ?t = insert ?v (reached_set ?n t)"
    using vn reach by (auto simp: reached_set_def)
  let ?b = "\<lambda>t. (int (card (reached_set ?n t)) - 1) * C"
  have mono: "?b t \<le> ?b ?t"
    unfolding rset by (simp add: card_insert_if mult_right_mono search_preD(8) [OF pre])
  have cbound: "c \<le> ?b ?t"
  proof (cases "reached t ?v")
    case True
    then show ?thesis using inv'(7) [OF vn True] less mono by linarith
  next
    case False
    then have "?v \<notin> reached_set ?n t" by (simp add: reached_set_def)
    then show ?thesis unfolding rset using cb(1) c by simp
  qed
  have dist: "p y \<le> distance ?t ! y \<and> distance ?t ! y \<le> ?b ?t" if "y < ?n" "reached ?t y" for y
  proof (cases "y = ?v")
    case True
    then show ?thesis using cbound cb(3) c vn inv'(1) by simp
  next
    case False
    with that(2) reach have r: "reached t y" by simp
    have "distance ?t ! y = distance t ! y" using False by simp
    then show ?thesis using inv'(6,7) [OF that(1) r] mono by linarith
  qed
  have top: "distance ?t ! y \<le> flow_infinity" if "y < ?n" for y
    using inv'(5) [OF that] cinf vn inv'(1) by (auto simp: nth_list_update)
  have q: "queue_ok ?n ?t"
    by (rule lowered_queue_ok) (use inv'(9,1) vn cinf in simp_all)
  have tr: "tree_ok g s ?t" by (rule lowered_tree_ok [OF assms])
  have shape: "length (distance ?t) = ?n" "length (previous_node ?t) = ?n"
    "length (previous_edge ?t) = ?n" "distance ?t ! s = 0"
    using inv'(1-4) vs by simp_all
  show ?thesis
    unfolding labels_inv_def using shape top dist q tr by blast
qed

lemma lowered_slack:
  assumes "v < n" "length (distance t) = n" "p v \<le> c" "c < distance t ! v"
  shows "slack_sum n p (lowered t u i v c) < slack_sum n p t"
  unfolding slack_sum_def using assms
  by (intro sum_strict_mono_ex1) (auto simp: nth_list_update)

section \<open>Scanning a node\<close>

definition settled_but :: "network \<Rightarrow> nat set \<Rightarrow> labels \<Rightarrow> bool" where
  "settled_but g X t \<longleftrightarrow>
     (\<forall>u i. u \<notin> X \<longrightarrow> reached t u \<longrightarrow> u \<notin> set (queue t) \<longrightarrow> relaxed g t u i)"

lemma lowered_relaxed:
  assumes "length (distance t) = length g" "c \<le> distance t ! v" "u \<noteq> v" "relaxed g t u j"
  shows "relaxed g (lowered t x i v c) u j"
  using assms by (cases "target g u j = v"; cases "v < length (distance t)")
    (auto simp: relaxed_def not_less list_update_beyond)

definition scan_post :: "network \<Rightarrow> (nat \<Rightarrow> int) \<Rightarrow> nat \<Rightarrow> int \<Rightarrow> nat \<Rightarrow> labels \<Rightarrow> labels \<Rightarrow> bool" where
  "scan_post g p s C u t t' \<longleftrightarrow>
     labels_inv g p s C t' \<and> reached t' u \<and> u \<notin> set (queue t') \<and> settled_but g {u} t' \<and>
     (\<forall>j. relaxed g t u j \<longrightarrow> relaxed g t' u j) \<and>
     (t' = t \<or> slack_sum (length g) p t' < slack_sum (length g) p t)"

lemma scan_post_trans: "scan_post g p s C u t t' \<Longrightarrow> scan_post g p s C u t' t'' \<Longrightarrow> scan_post g p s C u t t''"
  by (auto simp: scan_post_def)

lemma relax_step:
  assumes pre: "search_pre g p s C" and post: "scan_post g p s C u t t" and e: "edge_at g u i"
  shows "\<exists>t'. relax g u i t = Some t' \<and> scan_post g p s C u t t' \<and> relaxed g t' u i"
proof -
  let ?v = "target g u i"
  let ?c = "distance t ! u + weight g u i"
  let ?t = "lowered t u i ?v ?c"
  from post have inv: "labels_inv g p s C t" and u: "reached t u" "u \<notin> set (queue t)"
    and settled: "settled_but g {u} t" by (auto simp: scan_post_def)
  note ok = network_okD [OF search_preD(1) [OF pre] e]
  have res: "0 < capacity (g ! u ! i) \<longleftrightarrow> residual g u i" using e by (simp add: residual_def)
  have eq: "relax g u i t = (if capacity (g ! u ! i) \<le> 0 \<or> distance t ! ?v \<le> ?c then Some t else Some ?t)"
    by (rule relax_cases [OF inv ok(7)]) (use res candidate_bounds(4) [OF pre inv u(1)] in auto)
  show ?thesis
  proof (cases "residual g u i \<and> ?c < distance t ! ?v")
    case False
    then have "relaxed g t u i" by (auto simp: relaxed_def)
    moreover have "relax g u i t = Some t" using False eq res by auto
    ultimately show ?thesis using post by blast
  next
    case True
    then have e': "residual g u i" and less: "?c < distance t ! ?v" by auto
    note inv' = labels_invD [OF inv] and cb = candidate_bounds [OF pre inv u(1) e']
    have inv2: "labels_inv g p s C ?t" by (rule lowered_inv [OF pre inv u(1) e' refl less])
    have reach: "reached ?t y \<longleftrightarrow> y = ?v \<or> reached t y" for y
      using lowered_reached ok(7) cb(2) inv'(1) by simp
    have inq: "in_queue t ! ?v \<longleftrightarrow> ?v \<in> set (queue t)"
      using inv'(9) ok(7) by (simp add: queue_ok_def)
    then have queue: "set (queue ?t) = insert ?v (set (queue t))" by auto
    have keep: "relaxed g ?t y j" if "y \<noteq> ?v" "relaxed g t y j" for y j
      by (rule lowered_relaxed) (use that less inv' in auto)
    have "settled_but g {u} ?t"
      unfolding settled_but_def using settled reach queue keep by (auto simp: settled_but_def)
    moreover have "slack_sum (length g) p ?t < slack_sum (length g) p t"
      by (rule lowered_slack) (use ok inv' cb less in auto)
    ultimately have "scan_post g p s C u t ?t"
      using inv2 u ok(2) reach queue keep by (auto simp: scan_post_def)
    moreover have "relaxed g ?t u i" using ok inv' by (simp add: relaxed_def)
    ultimately show ?thesis using eq True res by auto
  qed
qed

lemma relax_all_post:
  assumes pre: "search_pre g p s C" and "scan_post g p s C u t t" "\<forall>i \<in> set js. edge_at g u i"
  shows "\<exists>t'. relax_all g u js t = Some t' \<and> scan_post g p s C u t t' \<and> (\<forall>i \<in> set js. relaxed g t' u i)"
  using assms(2,3)
proof (induction js arbitrary: t)
  case Nil
  then show ?case by simp
next
  case (Cons i js)
  obtain t1 where t1: "relax g u i t = Some t1" "scan_post g p s C u t t1" "relaxed g t1 u i"
    using relax_step [OF pre Cons.prems(1), of i] Cons.prems(2) by auto
  have "scan_post g p s C u t1 t1" using t1(2) by (auto simp: scan_post_def)
  with Cons.IH [of t1] Cons.prems(2) obtain t2 where t2: "relax_all g u js t1 = Some t2"
    "scan_post g p s C u t1 t2" "\<forall>i \<in> set js. relaxed g t2 u i" by auto
  have "relaxed g t2 u i" using t1(3) t2(2) by (auto simp: scan_post_def)
  then show ?case using t1 t2 scan_post_trans by fastforce
qed

section \<open>The search ends with shortest distances\<close>

definition loop_state :: "network \<Rightarrow> (nat \<Rightarrow> int) \<Rightarrow> nat \<Rightarrow> int \<Rightarrow> labels \<Rightarrow> bool" where
  "loop_state g p s C t \<longleftrightarrow> labels_inv g p s C t \<and> settled_but g {} t"

lemma front_scan:
  assumes st: "loop_state g p s C t" and ur: "queue t = u # r"
  shows "u < length g" "scan_post g p s C u (t\<lparr>queue := r, in_queue := (in_queue t)[u := False]\<rparr>)
    (t\<lparr>queue := r, in_queue := (in_queue t)[u := False]\<rparr>)"
proof -
  let ?t = "t\<lparr>queue := r, in_queue := (in_queue t)[u := False]\<rparr>"
  from st have inv: "labels_inv g p s C t" and settled: "settled_but g {} t" by (auto simp: loop_state_def)
  have qo: "queue_ok (length g) t" using inv by (simp add: labels_inv_def)
  then show un: "u < length g" using ur by (auto simp: queue_ok_def)
  have u: "reached t u" "u \<notin> set r" using qo ur by (auto simp: queue_ok_def)
  have "queue_ok (length g) ?t"
    using qo ur u by (auto simp: queue_ok_def nth_list_update reached_def)
  moreover have "tree_ok g s ?t = tree_ok g s t"
    by (simp add: tree_ok_def tree_edge_def parent_rel_def reached_def)
  ultimately have inv1: "labels_inv g p s C ?t"
    using inv by (simp add: labels_inv_def reached_def reached_set_def)
  have "settled_but g {u} ?t"
    using settled ur by (auto simp: settled_but_def relaxed_def reached_def)
  then show "scan_post g p s C u ?t ?t"
    using inv1 u by (simp add: scan_post_def reached_def)
qed

lemma visit_front_step:
  assumes pre: "search_pre g p s C" and st: "loop_state g p s C t" and q: "queue t \<noteq> []"
  shows "\<exists>t'. visit_front g t = Some t' \<and> loop_state g p s C t' \<and>
     (t', t) \<in> measures [slack_sum (length g) p, \<lambda>t. length (queue t)]"
proof -
  obtain u r where ur: "queue t = u # r" using q by (cases "queue t") auto
  let ?t = "t\<lparr>queue := r, in_queue := (in_queue t)[u := False]\<rparr>"
  note u = front_scan(1) [OF st ur] and post = front_scan(2) [OF st ur]
  obtain t' where t': "relax_all g u [0..<length (g ! u)] ?t = Some t'" "scan_post g p s C u ?t t'"
    "\<forall>i \<in> set [0..<length (g ! u)]. relaxed g t' u i"
    using relax_all_post [OF pre post, of "[0..<length (g ! u)]"] u by (auto simp: edge_at_def)
  have "relaxed g t' u i" for i
    using t'(3) by (cases "i < length (g ! u)") (auto simp: relaxed_def residual_def edge_at_def)
  with t'(2) have "settled_but g {} t'"
    unfolding scan_post_def settled_but_def by (metis singletonD)
  with t'(2) have st': "loop_state g p s C t'" by (simp add: loop_state_def scan_post_def)
  have "slack_sum (length g) p ?t = slack_sum (length g) p t" by (simp add: slack_sum_def)
  with t'(2) ur have "(t', t) \<in> measures [slack_sum (length g) p, \<lambda>t. length (queue t)]"
    by (auto simp: scan_post_def)
  moreover have "visit_front g t = Some t'" using t'(1) ur by (simp add: visit_front_def)
  ultimately show ?thesis using st' by blast
qed

lemma search_loop_ends:
  assumes pre: "search_pre g p s C" and "loop_state g p s C t"
  shows "\<exists>t'. search_loop g t = Some (Inr t') \<and> loop_state g p s C t' \<and> queue t' = []"
  using assms(2)
proof (induction t rule: wf_induct_rule [OF wf_measures, of "[slack_sum (length g) p, \<lambda>t. length (queue t)]"])
  case (1 t)
  show ?case
  proof (cases "queue t = []")
    case True
    then show ?thesis using 1(2) by (subst search_loop.simps) simp
  next
    case False
    obtain t' where t': "visit_front g t = Some t'" "loop_state g p s C t'"
      "(t', t) \<in> measures [slack_sum (length g) p, \<lambda>t. length (queue t)]"
      using visit_front_step [OF pre 1(2) False] by blast
    with 1(1) [OF t'(3)] False show ?thesis by (subst search_loop.simps) simp
  qed
qed

lemma labels_start_state:
  assumes pre: "search_pre g p s C"
  shows "loop_state g p s C (labels_start (length g) s)"
proof -
  let ?t = "labels_start (length g) s"
  note pre' = search_preD [OF pre]
  have reach: "v < length g \<Longrightarrow> reached ?t v \<longleftrightarrow> v = s" for v
    using flow_infinity_pos by (cases "v = s") (auto simp: reached_def labels_start_def)
  then have "reached_set (length g) ?t = {s}" using pre'(4) by (auto simp: reached_set_def)
  moreover have "parent_rel (length g) ?t = {}"
    by (auto simp: parent_rel_def labels_start_def)
  moreover have "queue_ok (length g) ?t"
    using pre'(4) reach by (auto simp: queue_ok_def labels_start_def nth_list_update)
  moreover have "settled_but g {} ?t"
    using reach by (auto simp: settled_but_def relaxed_def residual_def edge_at_def labels_start_def)
  ultimately show ?thesis
    using reach pre'(4,5) flow_infinity_pos
    by (auto simp: loop_state_def labels_inv_def tree_ok_def labels_start_def nth_list_update acyclic_def)
qed

text \<open>What the search hands over: \<open>q\<close> is exact on the edges of the tree and feasible on all others.\<close>

definition shortest_tree :: "network \<Rightarrow> (nat \<Rightarrow> int) \<Rightarrow> nat \<Rightarrow> int \<Rightarrow> labels \<Rightarrow> bool" where
  "shortest_tree g p s C t \<longleftrightarrow> tree_ok g s t \<and> distance t ! s = 0 \<and>
     (\<forall>v < length g. distance t ! v \<le> flow_infinity) \<and>
     (\<forall>v < length g. reached t v \<longrightarrow> p v \<le> distance t ! v \<and> distance t ! v \<le> int (length g) * C) \<and>
     (\<forall>u i. residual g u i \<longrightarrow> reached t u \<longrightarrow>
        reached t (target g u i) \<and> distance t ! target g u i \<le> distance t ! u + weight g u i)"

lemma shortest_paths_correct:
  assumes pre: "search_pre g p s C"
  shows "\<exists>t. shortest_paths s g = Some (Inr t) \<and> shortest_tree g p s C t"
proof -
  obtain t where t: "search_loop g (labels_start (length g) s) = Some (Inr t)"
    and st: "loop_state g p s C t" and q: "queue t = []"
    using search_loop_ends [OF pre labels_start_state [OF pre]] by blast
  from st have inv: "labels_inv g p s C t" by (simp add: loop_state_def)
  note inv' = labels_invD [OF inv]
  have up: "(int (card (reached_set (length g) t)) - 1) * C \<le> int (length g) * C"
    using card_reached_le [of "length g" t] search_preD(8) [OF pre] by (simp add: mult_right_mono)
  have rel: "reached t (target g u i) \<and> distance t ! target g u i \<le> distance t ! u + weight g u i"
    if "residual g u i" "reached t u" for u i
  proof -
    have le: "distance t ! target g u i \<le> distance t ! u + weight g u i"
      using st that q by (auto simp: loop_state_def settled_but_def relaxed_def)
    with candidate_bounds(2) [OF pre inv that(2,1)] show ?thesis by (simp add: reached_def)
  qed
  have "shortest_tree g p s C t"
    unfolding shortest_tree_def using inv' up rel by (meson order_trans)
  with t show ?thesis by (auto simp: shortest_paths_def)
qed

end
