(* ===== verification/Bsp_Augment.thy ===== *)
theory Bsp_Augment
  imports Bsp_Search
begin

text \<open>
  Augmentation and the outer loop of \<open>MinCostFlow::solve\<close>: pushing one unit along the tree of previous
  edges keeps the residual network paired and a potential feasible, moves one unit of capacity from the
  source to the sink and changes the cost of the network by the distance of the sink. The outer loop
  relies on the search only through the contract \<open>path_search\<close>.
\<close>

section \<open>Pushing one unit over one edge\<close>

definition shape :: "network \<Rightarrow> (nat \<times> nat \<times> int) list list" where
  "shape g = map (map (\<lambda>e. (to_node e, reverse_edge e, cost e))) g"

definition cap_out :: "network \<Rightarrow> nat \<Rightarrow> int" where
  "cap_out g x = (\<Sum>j < length (g ! x). capacity (g ! x ! j))"

definition residual_cost :: "network \<Rightarrow> int" where
  "residual_cost g = (\<Sum>x < length g. \<Sum>j < length (g ! x). capacity (g ! x ! j) * weight g x j)"

text \<open>An edge and its reverse share a capacity, which moving units over them keeps.\<close>

definition pair_capacity :: "network \<Rightarrow> nat \<Rightarrow> nat \<Rightarrow> int" where
  "pair_capacity g u i = capacity (g ! u ! i) + capacity (g ! target g u i ! partner g u i)"

definition same_pairs :: "network \<Rightarrow> network \<Rightarrow> bool" where
  "same_pairs g h \<longleftrightarrow> (\<forall>x j. edge_at g x j \<longrightarrow> pair_capacity h x j = pair_capacity g x j)"

lemma shape_eqD:
  assumes "shape g = shape h"
  shows "length g = length h" "x < length g \<Longrightarrow> length (g ! x) = length (h ! x)"
    "edge_at g x j \<longleftrightarrow> edge_at h x j"
    "edge_at g x j \<Longrightarrow> target g x j = target h x j"
    "edge_at g x j \<Longrightarrow> partner g x j = partner h x j"
    "edge_at g x j \<Longrightarrow> weight g x j = weight h x j"
proof -
  let ?f = "\<lambda>e::flow_edge. (to_node e, reverse_edge e, cost e)"
  show n: "length g = length h" using assms by (metis shape_def length_map)
  have row: "map ?f (g ! x) = map ?f (h ! x)" if "x < length g" for x
  proof -
    have "shape g ! x = shape h ! x" by (simp only: assms)
    then show ?thesis using that n by (simp add: shape_def)
  qed
  show len: "x < length g \<Longrightarrow> length (g ! x) = length (h ! x)" for x
    using arg_cong [OF row [of x], of length] by simp
  show "edge_at g x j \<longleftrightarrow> edge_at h x j" using n len [of x] by (auto simp: edge_at_def)
  have "?f (g ! x ! j) = ?f (h ! x ! j)" if "edge_at g x j"
  proof -
    from that have x: "x < length g" and j: "j < length (g ! x)" by (auto simp: edge_at_def)
    have "map ?f (g ! x) ! j = map ?f (h ! x) ! j" by (simp only: row [OF x])
    then show ?thesis using j len [OF x] by simp
  qed
  then show "edge_at g x j \<Longrightarrow> target g x j = target h x j"
    "edge_at g x j \<Longrightarrow> partner g x j = partner h x j"
    "edge_at g x j \<Longrightarrow> weight g x j = weight h x j" by auto
qed

lemma set_capacity_nth:
  "edge_at g x j \<Longrightarrow> set_capacity g u i c ! x ! j =
    (if x = u \<and> j = i then (g ! u ! i)\<lparr>capacity := c\<rparr> else g ! x ! j)"
  by (cases "x = u"; cases "j = i") (auto simp: set_capacity_def edge_at_def)

lemma set_capacity_shape [simp]: "shape (set_capacity g u i c) = shape g"
proof (rule nth_equalityI)
  show "length (shape (set_capacity g u i c)) = length (shape g)"
    by (simp add: shape_def set_capacity_def)
next
  fix x
  assume "x < length (shape (set_capacity g u i c))"
  then show "shape (set_capacity g u i c) ! x = shape g ! x"
    by (cases "x = u"; cases "i < length (g ! x)")
      (auto simp: shape_def set_capacity_def map_update list_update_beyond list_update_same_conv)
qed

lemma push_unit_shape [simp]: "shape (push_unit g u i v) = shape g"
  by (simp add: push_unit_def Let_def)

lemma push_unit_other: "x \<noteq> u \<Longrightarrow> x \<noteq> v \<Longrightarrow> push_unit g u i v ! x = g ! x"
  by (simp add: push_unit_def Let_def set_capacity_def)

lemma push_unit_nth:
  assumes "network_ok g" "residual g u i" "edge_at g x j"
  shows "capacity (push_unit g u i (target g u i) ! x ! j) = capacity (g ! x ! j)
    - (if x = u \<and> j = i then 1 else 0) + (if x = target g u i \<and> j = partner g u i then 1 else 0)"
proof -
  note ok = network_okD [OF assms(1) residual_edge [OF assms(2)]]
  have "edge_at (set_capacity g u i c) x j" for c
    using assms(3) shape_eqD(3) [OF set_capacity_shape] by blast
  then show ?thesis using assms(3) ok by (auto simp: push_unit_def Let_def set_capacity_nth)
qed

lemma push_unit_static:
  assumes "edge_at g x j"
  shows "target (push_unit g u i v) x j = target g x j" "partner (push_unit g u i v) x j = partner g x j"
    "weight (push_unit g u i v) x j = weight g x j"
  using shape_eqD(3-6) [OF push_unit_shape [of g u i v], of x j] assms by auto

lemma push_unit_network_ok:
  assumes ok: "network_ok g" and r: "residual g u i"
  shows "network_ok (push_unit g u i (target g u i))"
  unfolding network_ok_def
proof (intro allI impI)
  fix x j
  let ?h = "push_unit g u i (target g u i)"
  assume "edge_at ?h x j"
  then have e: "edge_at g x j" using shape_eqD(3) [OF push_unit_shape] by blast
  note x = network_okD [OF ok e] and u = network_okD [OF ok residual_edge [OF r]]
  note cap = push_unit_nth [OF ok r e] push_unit_nth [OF ok r x(1)]
  note stat = push_unit_static [OF e] push_unit_static [OF x(1)]
  have "0 \<le> capacity (?h ! x ! j)"
    using x(6) cap(1) r by (auto simp: residual_def)
  moreover have "edge_at ?h (target g x j) (partner g x j)"
    using x(1) shape_eqD(3) [OF push_unit_shape] by blast
  ultimately show "edge_at ?h (target ?h x j) (partner ?h x j) \<and> target ?h x j \<noteq> x \<and>
      target ?h (target ?h x j) (partner ?h x j) = x \<and> partner ?h (target ?h x j) (partner ?h x j) = j \<and>
      weight ?h (target ?h x j) (partner ?h x j) = - weight ?h x j \<and> 0 \<le> capacity (?h ! x ! j)"
    using x stat by simp
qed

lemma push_unit_pairs:
  assumes ok: "network_ok g" and r: "residual g u i"
  shows "same_pairs g (push_unit g u i (target g u i))"
  unfolding same_pairs_def
proof (intro allI impI)
  fix x j
  assume e: "edge_at g x j"
  note x = network_okD [OF ok e] and u = network_okD [OF ok residual_edge [OF r]]
  note cap = push_unit_nth [OF ok r e] push_unit_nth [OF ok r x(1)]
  have "x = u \<and> j = i \<longleftrightarrow> target g x j = target g u i \<and> partner g x j = partner g u i"
    "target g x j = u \<and> partner g x j = i \<longleftrightarrow> x = target g u i \<and> j = partner g u i"
    using x(3,4) u(3,4) by metis+
  then show "pair_capacity (push_unit g u i (target g u i)) x j = pair_capacity g x j"
    using cap push_unit_static [OF e] by (auto simp: pair_capacity_def)
qed

lemma push_unit_potential:
  assumes ok: "network_ok g" and r: "residual g u i" and pot: "potential g q"
    and tight: "q (target g u i) = q u + weight g u i"
  shows "potential (push_unit g u i (target g u i)) q"
  unfolding potential_def
proof (intro allI impI)
  fix x j
  let ?h = "push_unit g u i (target g u i)"
  assume h: "residual ?h x j"
  then have e: "edge_at g x j" using shape_eqD(3) [OF push_unit_shape] residual_edge by blast
  note stat = push_unit_static [OF e] and u = network_okD [OF ok residual_edge [OF r]]
  show "q (target ?h x j) \<le> q x + weight ?h x j"
  proof (cases "x = target g u i \<and> j = partner g u i")
    case True
    then show ?thesis using stat u tight by simp
  next
    case False
    then have "residual g x j"
      using h e push_unit_nth [OF ok r e] by (auto simp: residual_def split: if_splits)
    then show ?thesis using potentialD [OF pot] stat by simp
  qed
qed

lemma push_unit_cap_out:
  assumes ok: "network_ok g" and r: "residual g u i" and x: "x < length g"
  shows "cap_out (push_unit g u i (target g u i)) x =
    cap_out g x - (if x = u then 1 else 0) + (if x = target g u i then 1 else 0)"
proof -
  let ?h = "push_unit g u i (target g u i)"
  note u = network_okD [OF ok residual_edge [OF r]]
  have n: "length ?h = length g" "length (?h ! x) = length (g ! x)"
    using shape_eqD(1,2) [OF push_unit_shape [of g u i "target g u i"]] x by auto
  have ui: "i < length (g ! u)" "partner g u i < length (g ! target g u i)"
    using residual_edge [OF r] u(1) by (auto simp: edge_at_def)
  have "cap_out ?h x = (\<Sum>j < length (g ! x). capacity (g ! x ! j) - (if j = i then if x = u then 1 else 0 else 0)
      + (if j = partner g u i then if x = target g u i then 1 else 0 else 0))"
    unfolding cap_out_def n using x push_unit_nth [OF ok r]
    by (intro sum.cong) (auto simp: edge_at_def)
  then show ?thesis using ui u(2)
    by (auto simp: sum.distrib sum_subtractf sum.delta' cap_out_def)
qed

lemma push_unit_cost:
  assumes ok: "network_ok g" and r: "residual g u i"
  shows "residual_cost (push_unit g u i (target g u i)) = residual_cost g - 2 * weight g u i"
proof -
  let ?h = "push_unit g u i (target g u i)" and ?v = "target g u i" and ?k = "partner g u i"
  note u = network_okD [OF ok residual_edge [OF r]]
  note n = shape_eqD(1,2) [OF push_unit_shape [of g u i ?v]]
  have ui: "u < length g" "i < length (g ! u)" "?v < length g" "?k < length (g ! ?v)"
    using residual_edge [OF r] u(1) by (auto simp: edge_at_def)
  let ?d = "\<lambda>x j. capacity (g ! x ! j) * weight g x j - (if j = i then if x = u then weight g u i else 0 else 0)
      + (if j = ?k then if x = ?v then - weight g u i else 0 else 0)"
  have row: "(\<Sum>j < length (g ! x). ?d x j) = (\<Sum>j < length (g ! x). capacity (g ! x ! j) * weight g x j)
      - (if x = u then weight g u i else 0) + (if x = ?v then - weight g u i else 0)" for x
    using ui by (auto simp: sum.distrib sum_subtractf)
  have "residual_cost ?h = (\<Sum>x < length g. \<Sum>j < length (g ! x). ?d x j)"
    unfolding residual_cost_def n(1)
  proof (rule sum.cong [OF refl])
    fix x assume x: "x \<in> {..<length g}"
    then have lx: "length (?h ! x) = length (g ! x)" using n by simp
    show "(\<Sum>j < length (?h ! x). capacity (?h ! x ! j) * weight ?h x j) = (\<Sum>j < length (g ! x). ?d x j)"
      unfolding lx
    proof (rule sum.cong [OF refl])
      fix j assume "j \<in> {..<length (g ! x)}"
      with x have e: "edge_at g x j" by (simp add: edge_at_def)
      show "capacity (?h ! x ! j) * weight ?h x j = ?d x j"
        unfolding push_unit_nth [OF ok r e] push_unit_static(3) [OF e, of u i ?v]
        using u(2,5) by (auto simp: algebra_simps)
    qed
  qed
  then show ?thesis using ui unfolding row
    by (simp add: sum.distrib sum_subtractf residual_cost_def)
qed

section \<open>The potential a search leaves\<close>

definition new_potential :: "network \<Rightarrow> (nat \<Rightarrow> int) \<Rightarrow> int \<Rightarrow> labels \<Rightarrow> nat \<Rightarrow> int" where
  "new_potential g p C t v =
    (if v < length g \<and> reached t v then distance t ! v else p v + (int (length g) + 1) * C)"

lemma shortest_treeD:
  assumes "shortest_tree g p s C t"
  shows "tree_ok g s t" "distance t ! s = 0"
    "v < length g \<Longrightarrow> distance t ! v \<le> flow_infinity"
    "v < length g \<Longrightarrow> reached t v \<Longrightarrow> p v \<le> distance t ! v"
    "v < length g \<Longrightarrow> reached t v \<Longrightarrow> distance t ! v \<le> int (length g) * C"
    "residual g u i \<Longrightarrow> reached t u \<Longrightarrow> reached t (target g u i)"
    "residual g u i \<Longrightarrow> reached t u \<Longrightarrow> distance t ! target g u i \<le> distance t ! u + weight g u i"
  using assms by (auto simp: shortest_tree_def)

lemma new_potential_props:
  assumes pre: "search_pre g p s C" and tree: "shortest_tree g p s C t"
  shows "potential g (new_potential g p C t)" "new_potential g p C t s = 0" "0 \<le> new_potential g p C t v"
proof -
  let ?q = "new_potential g p C t"
  note pre' = search_preD [OF pre] and tr = shortest_treeD [OF tree]
  have nC: "0 \<le> int (length g) * C" using pre'(8) by simp
  show "?q s = 0"
    using tr(2) pre'(4) flow_infinity_pos by (simp add: new_potential_def reached_def)
  show "0 \<le> ?q v"
    using tr(4) [of v] pre'(6) [of v] pre'(8) nC by (auto simp: new_potential_def algebra_simps)
  show "potential g ?q" unfolding potential_def
  proof (intro allI impI)
    fix u i
    assume r: "residual g u i"
    have lt: "u < length g" "target g u i < length g"
      using r residual_target_lt [OF pre'(1) r] by (auto simp: residual_def edge_at_def)
    have w: "- C \<le> weight g u i" using cost_boundD [OF pre'(3) residual_edge [OF r]] by simp
    consider "reached t u" | "\<not> reached t u" "reached t (target g u i)"
      | "\<not> reached t u" "\<not> reached t (target g u i)" by blast
    then show "?q (target g u i) \<le> ?q u + weight g u i"
    proof cases
      case 1
      then show ?thesis using tr(6,7) [OF r] lt by (simp add: new_potential_def)
    next
      case 2
      then show ?thesis using tr(5) [OF lt(2)] w pre'(6) [of u] lt
        by (simp add: new_potential_def algebra_simps)
    next
      case 3
      then show ?thesis using potentialD [OF pre'(2) r] by (simp add: new_potential_def)
    qed
  qed
qed

lemma tree_edge_tight:
  assumes "search_pre g p s C" "shortest_tree g p s C t" "v < length g" "v \<noteq> s" "reached t v"
  shows "\<exists>u i. previous_node t ! v = int u \<and> previous_edge t ! v = int i \<and> residual g u i \<and>
    target g u i = v \<and> u < length g \<and> reached t u \<and> distance t ! v = distance t ! u + weight g u i"
proof -
  note tr = shortest_treeD [OF assms(2)]
  obtain u i where ui: "tree_edge g t u i v" using tr(1) assms(3-5) by (auto simp: tree_ok_def)
  then have "distance t ! v \<le> distance t ! u + weight g u i" "u < length g"
    using tr(7) [of u i] by (auto simp: tree_edge_def residual_def edge_at_def)
  with ui show ?thesis by (auto simp: tree_edge_def)
qed

section \<open>The augmenting walk\<close>

lemma wf_parent_rel:
  assumes "acyclic (parent_rel n t)"
  shows "wf (parent_rel n t)"
proof (rule finite_acyclic_wf [OF _ assms])
  have "parent_rel n t \<subseteq> (\<lambda>v. (nat (previous_node t ! v), v)) ` {..<n}"
    by (auto simp: parent_rel_def image_iff)
  then show "finite (parent_rel n t)" by (rule finite_subset) simp
qed

section \<open>Distances are those of the shortest walks\<close>

inductive walk :: "network \<Rightarrow> nat \<Rightarrow> nat \<Rightarrow> int \<Rightarrow> bool" for g s where
  stay: "walk g s s 0"
| extend: "walk g s u c \<Longrightarrow> residual g u i \<Longrightarrow> walk g s (target g u i) (c + weight g u i)"

lemma walk_reached:
  assumes "shortest_tree g p s C t" "walk g s v c"
  shows "reached t v \<and> distance t ! v \<le> c"
  using assms(2)
proof (induction rule: walk.induct)
  case stay
  then show ?case using shortest_treeD(2) [OF assms(1)] flow_infinity_pos by (simp add: reached_def)
next
  case (extend u c i)
  then show ?case using shortest_treeD(6,7) [OF assms(1), of u i] by auto
qed

lemma tree_walk:
  assumes pre: "search_pre g p s C" and tree: "shortest_tree g p s C t"
    and "v < length g" "reached t v"
  shows "walk g s v (distance t ! v)"
  using assms(3,4)
proof (induction v rule: wf_induct_rule [OF wf_parent_rel [of "length g" t]])
  case 1
  then show ?case using shortest_treeD(1) [OF tree] by (simp add: tree_ok_def)
next
  case (2 v)
  show ?case
  proof (cases "v = s")
    case True
    then show ?thesis using shortest_treeD(2) [OF tree] walk.stay by simp
  next
    case False
    obtain u i where ui: "previous_node t ! v = int u" "residual g u i" "target g u i = v"
      "u < length g" "reached t u" "distance t ! v = distance t ! u + weight g u i"
      using tree_edge_tight [OF pre tree 2(2) False 2(3)] by blast
    have "(u, v) \<in> parent_rel (length g) t" using ui(1) 2(2) by (simp add: parent_rel_def)
    from walk.extend [OF 2(1) [OF this ui(4,5)] ui(2)] show ?thesis unfolding ui(3,6) .
  qed
qed

definition moved_unit :: "network \<Rightarrow> network \<Rightarrow> nat \<Rightarrow> nat \<Rightarrow> int \<Rightarrow> bool" where
  "moved_unit g h s v d \<longleftrightarrow> shape h = shape g \<and> network_ok h \<and> same_pairs g h \<and> residual_cost h = residual_cost g - 2 * d \<and>
     (\<forall>x < length g. cap_out h x = cap_out g x - (if x = s then 1 else 0) + (if x = v then 1 else 0))"

lemma moved_unit_trans:
  assumes "moved_unit g h u v d" "moved_unit h k s u d'"
  shows "moved_unit g k s v (d + d')"
  using assms shape_eqD(1,3) [of h g] by (auto simp: moved_unit_def same_pairs_def)

lemma push_unit_moved:
  assumes "network_ok g" "residual g u i"
  shows "moved_unit g (push_unit g u i (target g u i)) u (target g u i) (weight g u i)"
  using assms push_unit_network_ok push_unit_pairs push_unit_cost push_unit_cap_out by (auto simp: moved_unit_def)

lemma augment_walk:
  assumes pre: "search_pre g0 p s C" and tree: "shortest_tree g0 p s C t"
    and "v < length g0" "reached t v" "network_ok g" "shape g = shape g0"
    and "potential g (new_potential g0 p C t)"
    and "\<And>x. (x, v) \<in> (parent_rel (length g0) t)\<^sup>+ \<Longrightarrow> g ! x = g0 ! x"
  shows "\<exists>h. augment t s v g = Some (Inr h) \<and> moved_unit g h s v (distance t ! v) \<and>
    potential h (new_potential g0 p C t)"
  using assms(3-8)
proof (induction v arbitrary: g
    rule: wf_induct_rule [OF wf_parent_rel [OF shortest_treeD(1) [OF tree, unfolded tree_ok_def, THEN conjunct2, THEN conjunct1]]])
  case (1 v)
  let ?q = "new_potential g0 p C t" and ?P = "parent_rel (length g0) t"
  note tr = shortest_treeD [OF tree]
  have acyc: "acyclic ?P" using tr(1) by (simp add: tree_ok_def)
  show ?case
  proof (cases "v = s")
    case True
    then have "augment t s v g = Some (Inr g)" by (subst augment.simps) simp
    then show ?thesis using True tr(2) 1(4,6) by (auto simp: moved_unit_def same_pairs_def)
  next
    case False
    obtain u i where ui: "previous_node t ! v = int u" "previous_edge t ! v = int i" "residual g0 u i"
      "target g0 u i = v" "u < length g0" "reached t u" "distance t ! v = distance t ! u + weight g0 u i"
      using tree_edge_tight [OF pre tree 1(2) False 1(3)] by blast
    have uv: "(u, v) \<in> ?P" using ui(1) 1(2) by (simp add: parent_rel_def)
    have row: "g ! u = g0 ! u" using 1(7) uv by blast
    have res: "residual g u i"
      using ui(3) row shape_eqD(3) [OF 1(5)] by (simp add: residual_def)
    have tgt: "target g u i = v" "weight g u i = weight g0 u i" using row ui(4) by auto
    let ?g = "push_unit g u i v"
    have step: "moved_unit g ?g u v (weight g0 u i)"
      using push_unit_moved [OF 1(4) res] tgt by simp
    have "?q v = ?q u + weight g u i"
      using ui 1(2,3) tgt by (simp add: new_potential_def)
    then have pot: "potential ?g ?q"
      using push_unit_potential [OF 1(4) res 1(6)] tgt by simp
    have keep: "?g ! x = g0 ! x" if x: "(x, u) \<in> ?P\<^sup>+" for x
    proof -
      have "(x, v) \<in> ?P\<^sup>+" using x uv by (rule trancl_into_trancl)
      moreover have "x \<noteq> v" using acyc calculation by (auto simp: acyclic_def)
      moreover have "x \<noteq> u" using acyc x by (auto simp: acyclic_def)
      ultimately show ?thesis using 1(7) push_unit_other by metis
    qed
    have "network_ok ?g" "shape ?g = shape g0" using step 1(5) by (auto simp: moved_unit_def)
    from 1(1) [OF uv ui(5,6) this pot keep]
    obtain h where h: "augment t s u ?g = Some (Inr h)" "moved_unit ?g h s u (distance t ! u)"
      "potential h ?q" by blast
    have "augment t s v g = augment t s u ?g"
      using ui False by (subst augment.simps) (simp add: Let_def)
    moreover have "moved_unit g h s v (distance t ! v)"
      using moved_unit_trans [OF step h(2)] ui(7) by (simp add: add.commute)
    ultimately show ?thesis using h by auto
  qed
qed

section \<open>The interface between the search and the flow\<close>

text \<open>What the outer loop relies on: a search that ends with a shortest tree.\<close>

locale path_search =
  fixes search :: "nat \<Rightarrow> network \<Rightarrow> ('e + labels) option"
  assumes search_tree: "search_pre g p s C \<Longrightarrow> \<exists>t. search s g = Some (Inr t) \<and> shortest_tree g p s C t"
begin

text \<open>One round: either the sink is out of reach, or a unit is moved and the precondition holds again.\<close>

lemma search_round:
  assumes pre: "search_pre g p s C" and sink: "k < length g"
  shows "\<exists>t. search s g = Some (Inr t) \<and> shortest_tree g p s C t \<and>
    (if distance t ! k = flow_infinity then \<not> reached t k
     else 0 \<le> distance t ! k \<and> distance t ! k \<le> int (length g) * C \<and>
       (\<exists>h q. augment t s k g = Some (Inr h) \<and> moved_unit g h s k (distance t ! k) \<and> search_pre h q s C))"
proof -
  obtain t where t: "search s g = Some (Inr t)" and tree: "shortest_tree g p s C t"
    using search_tree [OF pre] by blast
  note tr = shortest_treeD [OF tree] and pre' = search_preD [OF pre]
  show ?thesis
  proof (cases "distance t ! k = flow_infinity")
    case True
    then show ?thesis using t tree by (auto simp: reached_def)
  next
    case False
    then have k: "reached t k" using tr(3) [OF sink] by (simp add: reached_def)
    let ?q = "new_potential g p C t"
    note q = new_potential_props [OF pre tree]
    obtain h where h: "augment t s k g = Some (Inr h)" "moved_unit g h s k (distance t ! k)" "potential h ?q"
      using augment_walk [OF pre tree sink k pre'(1) refl q(1)] by blast
    have shape: "shape h = shape g" using h(2) by (simp add: moved_unit_def)
    have "cost_bound h C"
      using pre'(3) shape_eqD(3,6) [OF shape] by (auto simp: cost_bound_def)
    then have "search_pre h ?q s C"
      using h(2,3) q(2,3) pre' shape_eqD(1) [OF shape] by (simp add: search_pre_def moved_unit_def)
    moreover have "0 \<le> distance t ! k" using tr(4) [OF sink k] pre'(6) [of k] by simp
    ultimately show ?thesis using t tree tr(5) [OF sink k] h False by auto
  qed
qed

end

interpretation label_correcting: path_search shortest_paths
  by unfold_locales (rule shortest_paths_correct)

section \<open>Successive shortest paths\<close>

definition flow_state :: "network \<Rightarrow> nat \<Rightarrow> nat \<Rightarrow> int \<Rightarrow> nat \<Rightarrow> int \<Rightarrow> network \<Rightarrow> bool" where
  "flow_state g0 s k C flow spent g \<longleftrightarrow> (\<exists>p. search_pre g p s C) \<and> shape g = shape g0 \<and> same_pairs g0 g \<and>
     residual_cost g = residual_cost g0 - 2 * spent \<and> 0 \<le> spent \<and>
     spent \<le> int flow * (int (length g0) * C) \<and>
     (\<forall>x < length g0. cap_out g x = cap_out g0 x - (if x = s then int flow else 0) + (if x = k then int flow else 0))"

definition cut_off :: "network \<Rightarrow> nat \<Rightarrow> nat \<Rightarrow> int \<Rightarrow> bool" where
  "cut_off g s k C \<longleftrightarrow> (\<exists>p t. search_pre g p s C \<and> shortest_tree g p s C t \<and> \<not> reached t k)"

lemma flow_state_step:
  assumes "flow_state g0 s k C flow spent g" "moved_unit g h s k d" "search_pre h q s C"
    "0 \<le> d" "d \<le> int (length g0) * C"
  shows "flow_state g0 s k C (flow + 1) (spent + d) h"
proof -
  have n: "length g = length g0" using assms(1) shape_eqD(1) [of g g0] by (auto simp: flow_state_def)
  have "cap_out h x = cap_out g0 x - (if x = s then int (flow + 1) else 0) + (if x = k then int (flow + 1) else 0)"
    if "x < length g0" for x
  proof -
    have "cap_out h x = cap_out g x - (if x = s then 1 else 0) + (if x = k then 1 else 0)"
      using assms(2) that n by (simp add: moved_unit_def)
    moreover have "cap_out g x = cap_out g0 x - (if x = s then int flow else 0) + (if x = k then int flow else 0)"
      using assms(1) that by (simp add: flow_state_def)
    ultimately show ?thesis by simp
  qed
  moreover have "spent + d \<le> int (flow + 1) * (int (length g0) * C)"
    using assms(1,5) by (simp add: flow_state_def algebra_simps)
  moreover have "\<exists>p. search_pre h p s C" "shape h = shape g0"
    "residual_cost h = residual_cost g0 - 2 * (spent + d)" "0 \<le> spent + d"
    using assms(1-4) by (auto simp: flow_state_def moved_unit_def)
  moreover have "same_pairs g0 h"
    using assms(1,2) shape_eqD(3) [of g g0] by (auto simp: flow_state_def moved_unit_def same_pairs_def)
  ultimately show ?thesis unfolding flow_state_def by blast
qed

context path_search
begin

text \<open>One round of the outer loop: either no path is left, or the state of the flow holds for one unit more.\<close>

lemma flow_round_step:
  assumes "flow_state g0 s k C flow spent g" "k < length g0" "flow < goal"
    "int goal * (int (length g0) * C) \<le> INT64_MAX"
  shows "\<exists>t. search s g = Some (Inr t) \<and>
    (if distance t ! k = flow_infinity then cut_off g s k C
     else int64_ok (spent + distance t ! k) \<and> (\<exists>h. augment t s k g = Some (Inr h) \<and>
       flow_state g0 s k C (flow + 1) (spent + distance t ! k) h))"
proof -
  obtain p where pre: "search_pre g p s C" and sh: "shape g = shape g0"
    using assms(1) by (auto simp: flow_state_def)
  have kn: "k < length g" using assms(2) shape_eqD(1) [OF sh] by simp
  obtain t where t: "search s g = Some (Inr t)" "shortest_tree g p s C t"
    and round: "if distance t ! k = flow_infinity then \<not> reached t k
     else 0 \<le> distance t ! k \<and> distance t ! k \<le> int (length g) * C \<and>
       (\<exists>h q. augment t s k g = Some (Inr h) \<and> moved_unit g h s k (distance t ! k) \<and> search_pre h q s C)"
    using search_round [OF pre kn] by blast
  show ?thesis
  proof (cases "distance t ! k = flow_infinity")
    case True
    then show ?thesis using round t pre by (auto simp: cut_off_def)
  next
    case False
    then obtain h q where h: "augment t s k g = Some (Inr h)" "moved_unit g h s k (distance t ! k)"
      "search_pre h q s C" and d: "0 \<le> distance t ! k" "distance t ! k \<le> int (length g0) * C"
      using round shape_eqD(1) [OF sh] by auto
    have st: "flow_state g0 s k C (flow + 1) (spent + distance t ! k) h"
      by (rule flow_state_step [OF assms(1) h(2,3) d])
    have "0 \<le> int (length g0) * C" using search_preD(8) [OF pre] by simp
    then have "int (flow + 1) * (int (length g0) * C) \<le> int goal * (int (length g0) * C)"
      using assms(3) by (intro mult_right_mono) auto
    then have "0 \<le> spent + distance t ! k \<and> spent + distance t ! k \<le> INT64_MAX"
      using st assms(4) by (auto simp: flow_state_def)
    then have "int64_ok (spent + distance t ! k)" by (auto simp: int64_ok_def INT64_MAX_def)
    then show ?thesis using False t h st by auto
  qed
qed

end

lemma flow_loop_ends:
  assumes "flow_state g0 s k C flow spent g" "k < length g0" "flow \<le> goal"
    "int goal * (int (length g0) * C) \<le> INT64_MAX"
  shows "\<exists>flow' spent' h. flow_loop s k goal flow spent g = Some (Inr (flow', spent', h)) \<and>
    flow_state g0 s k C flow' spent' h \<and> flow' \<le> goal \<and> (flow' = goal \<or> cut_off h s k C)"
  using assms(1,3)
proof (induction "goal - flow" arbitrary: flow spent g)
  case 0
  then show ?case by (subst flow_loop.simps) auto
next
  case (Suc m)
  then have lt: "flow < goal" by simp
  obtain t where t: "shortest_paths s g = Some (Inr t)"
    and step: "if distance t ! k = flow_infinity then cut_off g s k C
     else int64_ok (spent + distance t ! k) \<and> (\<exists>h. augment t s k g = Some (Inr h) \<and>
       flow_state g0 s k C (flow + 1) (spent + distance t ! k) h)"
    using label_correcting.flow_round_step [OF Suc.prems(1) assms(2) lt assms(4)] by blast
  show ?case
  proof (cases "distance t ! k = flow_infinity")
    case True
    then have "flow_loop s k goal flow spent g = Some (Inr (flow, spent, g))"
      using t lt by (subst flow_loop.simps) simp
    then show ?thesis using Suc.prems lt True step by auto
  next
    case False
    then obtain h where h: "augment t s k g = Some (Inr h)" "flow_state g0 s k C (flow + 1) (spent + distance t ! k) h"
      "int64_ok (spent + distance t ! k)" using step by auto
    then have "flow_loop s k goal flow spent g = flow_loop s k goal (flow + 1) (spent + distance t ! k) h"
      using False t lt by (subst flow_loop.simps) simp
    then show ?thesis using Suc.hyps(1) [of "flow + 1", OF _ h(2)] Suc.hyps(2) lt by auto
  qed
qed

end
