(* ===== verification/Bsp_Network.thy ===== *)
theory Bsp_Network
  imports Bsp_Augment "HOL-Library.Multiset"
begin

text \<open>
  The network \<open>run\<close> builds (\<open>src/native/bsp_pin_solver.cpp\<close>): what the input check guarantees, the rows of
  the network, and the partners of the edges in any network of the same shape that carries a flow.
\<close>

section \<open>Accepted inputs and assignments\<close>

definition edge_triple :: "compatible_edge \<Rightarrow> nat \<times> nat \<times> int" where
  "edge_triple e = (nat (ce_demand e), nat (ce_channel e), ce_cost e)"

definition pin_input_ok :: "pin_input \<Rightarrow> bool" where
  "pin_input_ok inp \<longleftrightarrow> in_demands inp \<noteq> [] \<and> in_channels inp \<noteq> [] \<and>
     (\<forall>e \<in> set (in_edges inp). 0 \<le> ce_demand e \<and> nat (ce_demand e) < length (in_demands inp) \<and>
        0 \<le> ce_channel e \<and> nat (ce_channel e) < length (in_channels inp) \<and> 0 \<le> ce_cost e \<and>
        in_demands inp ! nat (ce_demand e) = in_channels inp ! nat (ce_channel e)) \<and>
     distinct (map (\<lambda>e. (ce_demand e, ce_channel e)) (in_edges inp))"

definition assignment_cost :: "(nat \<times> nat \<times> int) list \<Rightarrow> int" where
  "assignment_cost A = (\<Sum>(d, c, w) \<leftarrow> A. w)"

definition complete_assignment :: "pin_input \<Rightarrow> (nat \<times> nat \<times> int) list \<Rightarrow> bool" where
  "complete_assignment inp A \<longleftrightarrow> map fst A = [0..<length (in_demands inp)] \<and>
     distinct (map (fst \<circ> snd) A) \<and> set A \<subseteq> edge_triple ` set (in_edges inp)"

lemma sorted_no_duplicate:
  assumes "sorted (map edge_key es)" "\<not> has_duplicate es"
  shows "distinct (map (\<lambda>e. (ce_demand e, ce_channel e)) es)"
  using assms
proof (induction es rule: has_duplicate.induct)
  case (1 a b es)
  have ab: "edge_key a \<le> edge_key b" "(ce_demand a, ce_channel a) \<noteq> (ce_demand b, ce_channel b)"
    using 1 by auto
  have "(ce_demand a, ce_channel a) \<noteq> (ce_demand e, ce_channel e)" if "e \<in> set (b # es)" for e
  proof -
    have "edge_key b \<le> edge_key e" using 1 that by auto
    then show ?thesis using ab by (auto simp: edge_key_def less_eq_prod_def)
  qed
  with 1 show ?case by auto
qed auto

lemma check_input_ok:
  assumes "check_input inp = Inr out"
  shows "pin_input_ok out" "mset (in_edges out) = mset (in_edges inp)"
    "in_demands out = in_demands inp" "in_channels out = in_channels inp"
proof -
  let ?es = "sort_key edge_key (in_edges inp)"
  from assms have out: "out = inp\<lparr>in_edges := ?es\<rparr>" and dup: "\<not> has_duplicate ?es"
    and ne: "in_demands inp \<noteq> []" "in_channels inp \<noteq> []"
    and acc: "\<forall>e \<in> set (in_edges inp). edge_accepted (in_demands inp) (in_channels inp) e"
    by (auto simp: check_input_def Let_def split: if_splits)
  have "distinct (map (\<lambda>e. (ce_demand e, ce_channel e)) ?es)"
    using sorted_no_duplicate dup by simp
  with ne acc show "pin_input_ok out" unfolding out
    by (auto simp: pin_input_ok_def edge_accepted_def)
  show "mset (in_edges out) = mset (in_edges inp)" "in_demands out = in_demands inp"
    "in_channels out = in_channels inp" by (simp_all add: out)
qed

lemma triple_cost_unique:
  assumes "pin_input_ok inp" "(d, c, w) \<in> edge_triple ` set (in_edges inp)"
    "(d, c, w') \<in> edge_triple ` set (in_edges inp)"
  shows "w = w'"
proof -
  obtain e e' where e: "e \<in> set (in_edges inp)" "edge_triple e = (d, c, w)"
    and e': "e' \<in> set (in_edges inp)" "edge_triple e' = (d, c, w')" using assms by (metis imageE)
  have "inj_on (\<lambda>e. (ce_demand e, ce_channel e)) (set (in_edges inp))"
    using assms(1) by (simp add: pin_input_ok_def distinct_map)
  moreover have "(ce_demand e, ce_channel e) = (ce_demand e', ce_channel e')"
  proof -
    have "0 \<le> ce_demand e" "0 \<le> ce_demand e'" "0 \<le> ce_channel e" "0 \<le> ce_channel e'"
      using assms(1) e(1) e'(1) by (auto simp: pin_input_ok_def)
    then show ?thesis using e(2) e'(2) by (auto simp: edge_triple_def)
  qed
  ultimately have "e = e'" using e(1) e'(1) by (auto dest: inj_onD)
  then show ?thesis using e(2) e'(2) by simp
qed

section \<open>Rows of the network\<close>

definition edge_view :: "flow_edge \<Rightarrow> nat \<times> int \<times> int" where
  "edge_view e = (to_node e, capacity e, cost e)"

definition row :: "network \<Rightarrow> nat \<Rightarrow> (nat \<times> int \<times> int) list" where
  "row g x = map edge_view (g ! x)"

lemma length_add_edge [simp]: "length (add_edge u v c w g) = length g"
  by (simp add: add_edge_def Let_def)

lemma row_add_edge:
  assumes "u < length g" "v < length g" "u \<noteq> v" "x < length g"
  shows "row (add_edge u v c w g) x =
    row g x @ (if u = x then [(v, c, w)] else []) @ (if v = x then [(u, 0, - w)] else [])"
  using assms by (auto simp: row_def add_edge_def Let_def edge_view_def nth_list_update)

lemma row_fold_add_edge:
  assumes "\<forall>y \<in> set ys. a y < length g \<and> b y < length g \<and> a y \<noteq> b y" "x < length g"
  shows "row (fold (\<lambda>y. add_edge (a y) (b y) 1 (w y)) ys g) x = row g x @
    concat (map (\<lambda>y. (if a y = x then [(b y, 1, w y)] else []) @ (if b y = x then [(a y, 0, - w y)] else [])) ys)"
  using assms by (induction ys arbitrary: g) (auto simp: row_add_edge)

lemma length_fold_add_edge [simp]:
  "length (fold (\<lambda>y. add_edge (a y) (b y) c (w y)) ys g) = length g"
  by (induction ys arbitrary: g) auto

definition unit_pairs :: "network \<Rightarrow> bool" where
  "unit_pairs g \<longleftrightarrow> (\<forall>u i. edge_at g u i \<longrightarrow> pair_capacity g u i = 1)"

lemma unit_pairsD: "unit_pairs g \<Longrightarrow> edge_at g u i \<Longrightarrow> capacity (g ! u ! i) + capacity (g ! target g u i ! partner g u i) = 1"
  by (simp add: unit_pairs_def pair_capacity_def)

lemma add_edge_nth:
  assumes "u < length g" "v < length g" "u \<noteq> v"
  shows "edge_at g x j \<Longrightarrow> add_edge u v c w g ! x ! j = g ! x ! j"
    "add_edge u v c w g ! u ! length (g ! u) = \<lparr>to_node = v, reverse_edge = length (g ! v), capacity = c, cost = w\<rparr>"
    "add_edge u v c w g ! v ! length (g ! v) = \<lparr>to_node = u, reverse_edge = length (g ! u), capacity = 0, cost = - w\<rparr>"
    "edge_at (add_edge u v c w g) x j \<longleftrightarrow> edge_at g x j \<or> x = u \<and> j = length (g ! u) \<or> x = v \<and> j = length (g ! v)"
  using assms
  by (cases "x = u"; cases "x = v"; force simp: edge_at_def add_edge_def Let_def nth_list_update nth_append)+

lemma add_edge_network_ok:
  assumes ok: "network_ok g" and uv: "u < length g" "v < length g" "u \<noteq> v" and c: "0 \<le> c"
  shows "network_ok (add_edge u v c w g)"
proof -
  let ?h = "add_edge u v c w g"
  note nth = add_edge_nth [OF uv]
  show ?thesis unfolding network_ok_def
  proof (intro allI impI)
    fix x j
    assume "edge_at ?h x j"
    then consider "edge_at g x j" | "x = u" "j = length (g ! u)" | "x = v" "j = length (g ! v)"
      using nth(4) by blast
    then show "edge_at ?h (target ?h x j) (partner ?h x j) \<and> target ?h x j \<noteq> x \<and>
      target ?h (target ?h x j) (partner ?h x j) = x \<and> partner ?h (target ?h x j) (partner ?h x j) = j \<and>
      weight ?h (target ?h x j) (partner ?h x j) = - weight ?h x j \<and> 0 \<le> capacity (?h ! x ! j)"
    proof cases
      case 1
      then show ?thesis using network_okD [OF ok 1] nth(1,4) by simp
    qed (use uv nth(2-4) c in auto)
  qed
qed

lemma add_edge_unit_pairs:
  assumes ok: "network_ok g" and unit: "unit_pairs g" and uv: "u < length g" "v < length g" "u \<noteq> v"
  shows "unit_pairs (add_edge u v 1 w g)"
proof -
  let ?h = "add_edge u v 1 w g"
  note nth = add_edge_nth [OF uv]
  show ?thesis unfolding unit_pairs_def
  proof (intro allI impI)
    fix x j
    assume "edge_at ?h x j"
    then consider "edge_at g x j" | "x = u" "j = length (g ! u)" | "x = v" "j = length (g ! v)"
      using nth(4) by blast
    then show "pair_capacity ?h x j = 1"
    proof cases
      case 1
      then show ?thesis
        using network_okD [OF ok 1] unit_pairsD [OF unit 1] nth(1) by (simp add: pair_capacity_def)
    qed (use uv nth(2,3) in \<open>auto simp: pair_capacity_def\<close>)
  qed
qed

lemma fold_add_edge_ok:
  assumes "network_ok g \<and> unit_pairs g" "\<forall>y \<in> set ys. a y < length g \<and> b y < length g \<and> a y \<noteq> b y"
  shows "network_ok (fold (\<lambda>y. add_edge (a y) (b y) 1 (w y)) ys g) \<and>
    unit_pairs (fold (\<lambda>y. add_edge (a y) (b y) 1 (w y)) ys g)"
  using assms by (induction ys arbitrary: g) (simp_all add: add_edge_network_ok add_edge_unit_pairs)

lemma network_ok_empty: "network_ok (replicate n []) \<and> unit_pairs (replicate n [])"
  by (auto simp: network_ok_def unit_pairs_def edge_at_def)

lemma concat_if_single: "concat (map (\<lambda>y. if P y then [f y] else []) ys) = map f (filter P ys)"
  by (induction ys) auto

abbreviation outs :: "pin_input \<Rightarrow> nat \<Rightarrow> compatible_edge list" where
  "outs inp d \<equiv> filter (\<lambda>e. nat (ce_demand e) = d) (in_edges inp)"

abbreviation ins :: "pin_input \<Rightarrow> nat \<Rightarrow> compatible_edge list" where
  "ins inp c \<equiv> filter (\<lambda>e. nat (ce_channel e) = c) (in_edges inp)"

lemma sink_node_gt: "first_channel inp \<le> sink_node inp" "c < length (in_channels inp) \<Longrightarrow> first_channel inp + c < sink_node inp"
  "d < length (in_demands inp) \<Longrightarrow> 1 + d < first_channel inp"
  by (auto simp: sink_node_def first_channel_def)

lemma edge_range:
  assumes "pin_input_ok inp" "e \<in> set (in_edges inp)"
  shows "nat (ce_demand e) < length (in_demands inp)" "nat (ce_channel e) < length (in_channels inp)"
    "0 \<le> ce_cost e"
  using assms by (auto simp: pin_input_ok_def)

lemma length_build_network [simp]: "length (build_network inp) = sink_node inp + 1"
  by (simp add: build_network_def Let_def)

lemma build_network_ok:
  assumes "pin_input_ok inp"
  shows "network_ok (build_network inp) \<and> unit_pairs (build_network inp)"
  unfolding build_network_def Let_def
  by (intro fold_add_edge_ok network_ok_empty)
    (use edge_range [OF assms] in \<open>fastforce simp: sink_node_def first_channel_def\<close>)+

lemma build_network_row:
  assumes "pin_input_ok inp" "x < sink_node inp + 1"
  shows "row (build_network inp) x =
    concat (map (\<lambda>d. (if 0 = x then [(1 + d, 1, 0)] else []) @ (if 1 + d = x then [(0, 0, 0)] else []))
      [0..<length (in_demands inp)]) @
    concat (map (\<lambda>e. (if 1 + nat (ce_demand e) = x then [(first_channel inp + nat (ce_channel e), 1, ce_cost e)] else []) @
        (if first_channel inp + nat (ce_channel e) = x then [(1 + nat (ce_demand e), 0, - ce_cost e)] else []))
      (in_edges inp)) @
    concat (map (\<lambda>c. (if first_channel inp + c = x then [(sink_node inp, 1, 0)] else []) @
        (if sink_node inp = x then [(first_channel inp + c, 0, 0)] else [])) [0..<length (in_channels inp)])"
proof -
  let ?g0 = "replicate (sink_node inp + 1) [] :: network"
  let ?g1 = "fold (\<lambda>d. add_edge 0 (1 + d) 1 0) [0..<length (in_demands inp)] ?g0"
  let ?g2 = "fold (\<lambda>e. add_edge (1 + nat (ce_demand e)) (first_channel inp + nat (ce_channel e)) 1 (ce_cost e))
    (in_edges inp) ?g1"
  have len: "length ?g0 = sink_node inp + 1" "length ?g1 = sink_node inp + 1" "length ?g2 = sink_node inp + 1"
    by (simp_all only: length_fold_add_edge length_replicate)
  have r0: "row ?g0 x = []" using assms(2) by (simp add: row_def del: replicate_Suc)
  have "\<forall>d \<in> set [0..<length (in_demands inp)]. 0 < length ?g0 \<and> 1 + d < length ?g0 \<and> 0 \<noteq> 1 + d"
    unfolding len by (auto simp: sink_node_def first_channel_def)
  note r1 = row_fold_add_edge [OF this, of x, unfolded len, OF assms(2)]
  have "\<forall>e \<in> set (in_edges inp). 1 + nat (ce_demand e) < length ?g1 \<and>
      first_channel inp + nat (ce_channel e) < length ?g1 \<and>
      1 + nat (ce_demand e) \<noteq> first_channel inp + nat (ce_channel e)"
    unfolding len using edge_range [OF assms(1)] by (fastforce simp: sink_node_def first_channel_def)
  note r2 = row_fold_add_edge [OF this, of x, unfolded len, OF assms(2)]
  have "\<forall>c \<in> set [0..<length (in_channels inp)]. first_channel inp + c < length ?g2 \<and>
      sink_node inp < length ?g2 \<and> first_channel inp + c \<noteq> sink_node inp"
    unfolding len by (auto simp: sink_node_def)
  note r3 = row_fold_add_edge [OF this, of x, unfolded len, OF assms(2)]
  show ?thesis
    unfolding build_network_def Let_def r3 r2 r1 r0 by (simp only: append_assoc append_Nil minus_zero)
qed

lemma concat_map_Nil: "(\<And>y. y \<in> set ys \<Longrightarrow> f y = []) \<Longrightarrow> concat (map f ys) = []"
  by simp

lemma concat_map_if:
  assumes "\<And>y. y \<in> set ys \<Longrightarrow> f y = (if P y then [h y] else [])"
  shows "concat (map f ys) = map h (filter P ys)"
  using assms by (induction ys) auto

lemma filter_upt_eq: "d < n \<Longrightarrow> filter (\<lambda>x. x = d) [0..<n] = [d]"
proof -
  assume "d < n"
  then have "[0..<n] = [0..<d] @ [d] @ [Suc d..<n]"
    by (metis append_Cons append_Nil le_add1 less_imp_add_positive upt_add_eq_append upt_conv_Cons plus_nat.add_0 less_add_same_cancel1)
  then show ?thesis by simp
qed

lemma source_row:
  assumes "pin_input_ok inp"
  shows "row (build_network inp) 0 = map (\<lambda>d. (1 + d, 1, 0)) [0..<length (in_demands inp)]"
proof -
  have fc: "0 < first_channel inp" by (simp add: first_channel_def)
  have "row (build_network inp) 0 = map (\<lambda>d. (1 + d, 1, 0)) (filter (\<lambda>_. True) [0..<length (in_demands inp)]) @ [] @ []"
    unfolding build_network_row [OF assms, of 0, simplified]
    by (intro arg_cong2 [where f = "(@)"] concat_map_if concat_map_Nil)
      (use fc in \<open>auto simp: sink_node_def\<close>)
  then show ?thesis by simp
qed

lemma demand_row:
  assumes ok: "pin_input_ok inp" and d: "d < length (in_demands inp)"
  shows "row (build_network inp) (1 + d) =
    (0, 0, 0) # map (\<lambda>e. (first_channel inp + nat (ce_channel e), 1, ce_cost e)) (outs inp d)"
proof -
  have x: "1 + d < sink_node inp + 1" using d by (simp add: sink_node_def first_channel_def)
  have fc: "1 + d < first_channel inp" using sink_node_gt(3) d by simp
  have "row (build_network inp) (1 + d) =
      map (\<lambda>_. (0, 0, 0)) (filter (\<lambda>y. y = d) [0..<length (in_demands inp)]) @
      map (\<lambda>e. (first_channel inp + nat (ce_channel e), 1, ce_cost e)) (outs inp d) @ []"
    unfolding build_network_row [OF ok x]
    by (intro arg_cong2 [where f = "(@)"] concat_map_if concat_map_Nil)
      (use fc in \<open>auto simp: sink_node_def\<close>)
  then show ?thesis by (simp add: filter_upt_eq d)
qed

lemma channel_row:
  assumes ok: "pin_input_ok inp" and c: "c < length (in_channels inp)"
  shows "row (build_network inp) (first_channel inp + c) =
    map (\<lambda>e. (1 + nat (ce_demand e), 0, - ce_cost e)) (ins inp c) @ [(sink_node inp, 1, 0)]"
proof -
  have x: "first_channel inp + c < sink_node inp + 1" using c by (simp add: sink_node_def)
  have "row (build_network inp) (first_channel inp + c) = [] @
      map (\<lambda>e. (1 + nat (ce_demand e), 0, - ce_cost e)) (ins inp c) @
      map (\<lambda>_. (sink_node inp, 1, 0)) (filter (\<lambda>y. y = c) [0..<length (in_channels inp)])"
    unfolding build_network_row [OF ok x]
    by (intro arg_cong2 [where f = "(@)"] concat_map_if concat_map_Nil)
      (use c edge_range [OF ok] in \<open>fastforce simp: sink_node_def first_channel_def\<close>)+
  then show ?thesis by (simp add: filter_upt_eq c)
qed

lemma sink_row:
  assumes ok: "pin_input_ok inp"
  shows "row (build_network inp) (sink_node inp) = map (\<lambda>c. (first_channel inp + c, 0, 0)) [0..<length (in_channels inp)]"
proof -
  have "row (build_network inp) (sink_node inp) = [] @ [] @
      map (\<lambda>c. (first_channel inp + c, 0, 0)) (filter (\<lambda>_. True) [0..<length (in_channels inp)])"
    unfolding build_network_row [OF ok less_add_one]
    by (intro arg_cong2 [where f = "(@)"] concat_map_if concat_map_Nil)
      (use edge_range [OF ok] in \<open>fastforce simp: sink_node_def first_channel_def\<close>)+
  then show ?thesis by simp
qed

section \<open>A network of the same shape\<close>

lemma row_static:
  assumes "shape g = shape h" "x < length h"
  shows "length (g ! x) = length (row h x)"
    "j < length (row h x) \<Longrightarrow> edge_at g x j"
    "j < length (row h x) \<Longrightarrow> target g x j = fst (row h x ! j)"
    "j < length (row h x) \<Longrightarrow> weight g x j = snd (snd (row h x ! j))"
proof -
  note sh = shape_eqD [OF assms(1)]
  show len: "length (g ! x) = length (row h x)" using sh(1,2) assms(2) by (simp add: row_def)
  show at: "j < length (row h x) \<Longrightarrow> edge_at g x j"
    using len assms(2) sh(1) by (simp add: edge_at_def)
  show "j < length (row h x) \<Longrightarrow> target g x j = fst (row h x ! j)"
    "j < length (row h x) \<Longrightarrow> weight g x j = snd (snd (row h x ! j))"
    using at sh(4,6) by (auto simp: row_def edge_view_def)
qed

lemma cap_out_row: "cap_out g x = (\<Sum>(v, c, w) \<leftarrow> row g x. c)"
proof -
  have "(\<Sum>(v, c, w) \<leftarrow> row g x. c) = (\<Sum>e \<leftarrow> g ! x. capacity e)"
    by (simp add: row_def edge_view_def comp_def)
  also have "\<dots> = cap_out g x"
    by (simp add: cap_out_def sum_list_sum_nth atLeast0LessThan)
  finally show ?thesis by simp
qed

lemma residual_capacity:
  assumes "network_ok g" "unit_pairs g" "residual g u i"
  shows "capacity (g ! u ! i) = 1" "capacity (g ! target g u i ! partner g u i) = 0"
proof -
  note ok = network_okD [OF assms(1) residual_edge [OF assms(3)]]
  have "0 \<le> capacity (g ! target g u i ! partner g u i)"
    using network_okD(6) [OF assms(1) ok(1)] .
  with unit_pairsD [OF assms(2) residual_edge [OF assms(3)]] assms(3) show "capacity (g ! u ! i) = 1" "capacity (g ! target g u i ! partner g u i) = 0"
    by (auto simp: residual_def)
qed

lemma capacity_01:
  assumes "network_ok g" "unit_pairs g" "edge_at g x j"
  shows "capacity (g ! x ! j) = 0 \<or> capacity (g ! x ! j) = 1"
  using network_okD(1,6) [OF assms(1,3)] network_okD(6) [OF assms(1), of "target g x j" "partner g x j"]
    unit_pairsD [OF assms(2,3)] by linarith

lemma lone_one:
  fixes f :: "nat \<Rightarrow> int"
  assumes "\<And>j. j < n \<Longrightarrow> f j = 0 \<or> f j = 1" "(\<Sum>j < n. f j) = 1"
  shows "\<exists>!j. j < n \<and> f j = 1"
proof -
  have "(\<Sum>j < n. f j) = (\<Sum>j < n. if f j = 1 then 1 else 0)"
    using assms(1) by (intro sum.cong) auto
  also have "\<dots> = int (card {j \<in> {..<n}. f j = 1})"
    by (subst sum.inter_filter [symmetric]) auto
  finally have "card {j \<in> {..<n}. f j = 1} = 1" using assms(2) by simp
  then obtain j where single: "{j \<in> {..<n}. f j = 1} = {j}" by (rule card_1_singletonE)
  have iff: "(x < n \<and> f x = 1) = (x \<in> {j})" for x unfolding single [symmetric] by simp
  show ?thesis by (simp only: iff singleton_iff ex1_eq)
qed

lemma lone_zero:
  fixes f :: "nat \<Rightarrow> int"
  assumes "\<And>j. j < n \<Longrightarrow> f j = 0 \<or> f j = 1" "(\<Sum>j < n. f j) = int n - 1"
  shows "\<exists>!j. j < n \<and> f j = 0"
proof -
  have "\<exists>!j. j < n \<and> 1 - f j = 1"
    by (rule lone_one) (use assms in \<open>auto simp: sum_subtractf\<close>)
  then show ?thesis by simp
qed

definition bound_network :: "pin_input \<Rightarrow> nat \<Rightarrow> network \<Rightarrow> bool" where
  "bound_network inp flow g \<longleftrightarrow> pin_input_ok inp \<and> network_ok g \<and> unit_pairs g \<and> shape g = shape (build_network inp) \<and>
     (\<forall>x < sink_node inp + 1. cap_out g x = cap_out (build_network inp) x
        - (if x = 0 then int flow else 0) + (if x = sink_node inp then int flow else 0))"

lemma bound_networkD:
  assumes "bound_network inp flow g"
  shows "pin_input_ok inp" "network_ok g" "shape g = shape (build_network inp)" "unit_pairs g"
  using assms by (auto simp: bound_network_def)

lemma source_edges:
  assumes "bound_network inp flow g"
  shows "length (g ! 0) = length (in_demands inp)"
    "d < length (in_demands inp) \<Longrightarrow> edge_at g 0 d \<and> target g 0 d = 1 + d \<and> weight g 0 d = 0"
    "cap_out g 0 = int (length (in_demands inp)) - int flow"
proof -
  note b = bound_networkD [OF assms]
  have x: "0 < length (build_network inp)" by simp
  note st = row_static [OF b(3) x, unfolded source_row [OF b(1)], simplified]
  show "length (g ! 0) = length (in_demands inp)" using st(1) .
  show "d < length (in_demands inp) \<Longrightarrow> edge_at g 0 d \<and> target g 0 d = 1 + d \<and> weight g 0 d = 0"
    using st(2-4) by simp
  have "cap_out (build_network inp) 0 = int (length (in_demands inp))"
    by (simp add: cap_out_row source_row b(1) comp_def sum_list_triv)
  then show "cap_out g 0 = int (length (in_demands inp)) - int flow"
    using assms by (simp add: bound_network_def sink_node_def first_channel_def)
qed

lemma demand_edges:
  assumes "bound_network inp flow g" and d: "d < length (in_demands inp)"
  shows "length (g ! (1 + d)) = Suc (length (outs inp d))"
    "edge_at g (1 + d) 0 \<and> target g (1 + d) 0 = 0 \<and> weight g (1 + d) 0 = 0"
    "j < length (outs inp d) \<Longrightarrow> edge_at g (1 + d) (Suc j) \<and>
       target g (1 + d) (Suc j) = first_channel inp + nat (ce_channel (outs inp d ! j)) \<and>
       weight g (1 + d) (Suc j) = ce_cost (outs inp d ! j)"
    "cap_out g (1 + d) = int (length (outs inp d))"
proof -
  note b = bound_networkD [OF assms(1)]
  have x: "1 + d < length (build_network inp)" using d by (simp add: sink_node_def first_channel_def)
  note st = row_static [OF b(3) x, unfolded demand_row [OF b(1) d]]
  show "length (g ! (1 + d)) = Suc (length (outs inp d))" using st(1) by simp
  show "edge_at g (1 + d) 0 \<and> target g (1 + d) 0 = 0 \<and> weight g (1 + d) 0 = 0"
    using st(2-4) [of 0] by simp
  show "j < length (outs inp d) \<Longrightarrow> edge_at g (1 + d) (Suc j) \<and>
       target g (1 + d) (Suc j) = first_channel inp + nat (ce_channel (outs inp d ! j)) \<and>
       weight g (1 + d) (Suc j) = ce_cost (outs inp d ! j)"
    using st(2-4) [of "Suc j"] by simp
  have "cap_out (build_network inp) (1 + d) = int (length (outs inp d))"
    by (subst cap_out_row, subst demand_row [OF b(1) d]) (simp add: comp_def sum_list_triv)
  moreover have "1 + d \<noteq> sink_node inp" "1 + d < sink_node inp + 1"
    using d by (auto simp: sink_node_def first_channel_def)
  ultimately show "cap_out g (1 + d) = int (length (outs inp d))"
    using assms(1) unfolding bound_network_def by auto
qed

lemma channel_edges:
  assumes "bound_network inp flow g" and c: "c < length (in_channels inp)"
  shows "length (g ! (first_channel inp + c)) = Suc (length (ins inp c))"
    "k < length (ins inp c) \<Longrightarrow> edge_at g (first_channel inp + c) k \<and>
       target g (first_channel inp + c) k = 1 + nat (ce_demand (ins inp c ! k)) \<and>
       weight g (first_channel inp + c) k = - ce_cost (ins inp c ! k)"
    "edge_at g (first_channel inp + c) (length (ins inp c)) \<and>
       target g (first_channel inp + c) (length (ins inp c)) = sink_node inp \<and>
       weight g (first_channel inp + c) (length (ins inp c)) = 0"
    "cap_out g (first_channel inp + c) = 1"
proof -
  note b = bound_networkD [OF assms(1)]
  have x: "first_channel inp + c < length (build_network inp)" using c by (simp add: sink_node_def)
  note st = row_static [OF b(3) x, unfolded channel_row [OF b(1) c]]
  show "length (g ! (first_channel inp + c)) = Suc (length (ins inp c))" using st(1) by simp
  show "k < length (ins inp c) \<Longrightarrow> edge_at g (first_channel inp + c) k \<and>
       target g (first_channel inp + c) k = 1 + nat (ce_demand (ins inp c ! k)) \<and>
       weight g (first_channel inp + c) k = - ce_cost (ins inp c ! k)"
    using st(2-4) [of k] by (simp add: nth_append)
  show "edge_at g (first_channel inp + c) (length (ins inp c)) \<and>
       target g (first_channel inp + c) (length (ins inp c)) = sink_node inp \<and>
       weight g (first_channel inp + c) (length (ins inp c)) = 0"
    using st(2-4) [of "length (ins inp c)"] by (simp add: nth_append)
  have "cap_out (build_network inp) (first_channel inp + c) = 1"
    by (subst cap_out_row, subst channel_row [OF b(1) c]) (simp add: comp_def sum_list_triv)
  moreover have "first_channel inp + c \<noteq> sink_node inp" "first_channel inp + c \<noteq> 0"
    using c by (auto simp: sink_node_def first_channel_def)
  ultimately show "cap_out g (first_channel inp + c) = 1"
    using assms(1) c unfolding bound_network_def by (auto simp: sink_node_def)
qed

section \<open>Partners\<close>

lemma outs_range:
  assumes "pin_input_ok inp" "j < length (outs inp d)"
  shows "nat (ce_channel (outs inp d ! j)) < length (in_channels inp)" "outs inp d ! j \<in> set (in_edges inp)"
    "nat (ce_demand (outs inp d ! j)) = d"
  using nth_mem [OF assms(2)] edge_range [OF assms(1), of "outs inp d ! j"] by auto

lemma ins_range:
  assumes "pin_input_ok inp" "k < length (ins inp c)"
  shows "nat (ce_demand (ins inp c ! k)) < length (in_demands inp)" "ins inp c ! k \<in> set (in_edges inp)"
    "nat (ce_channel (ins inp c ! k)) = c"
  using nth_mem [OF assms(2)] edge_range [OF assms(1), of "ins inp c ! k"] by auto

lemma source_partner:
  assumes b: "bound_network inp flow g" and d: "d < length (in_demands inp)"
  shows "partner g 0 d = 0" "capacity (g ! (1 + d) ! 0) = 1 - capacity (g ! 0 ! d)"
proof -
  have s: "edge_at g 0 d" "target g 0 d = 1 + d" using source_edges(2) [OF b d] by auto
  note p = network_okD [OF bound_networkD(2) [OF b] s(1), unfolded s(2)]
  show "partner g 0 d = 0"
  proof (cases "partner g 0 d")
    case (Suc j)
    then have "j < length (outs inp d)" using p(1) demand_edges(1) [OF b d] by (simp add: edge_at_def)
    then show ?thesis using p(3) Suc demand_edges(3) [OF b d] by (simp add: first_channel_def)
  qed simp
  with unit_pairsD [OF bound_networkD(4) [OF b] s(1), unfolded s(2)]
  show "capacity (g ! (1 + d) ! 0) = 1 - capacity (g ! 0 ! d)" by simp
qed

lemma demand_partner:
  assumes b: "bound_network inp flow g" and d: "d < length (in_demands inp)" and j: "j < length (outs inp d)"
    and c: "c = nat (ce_channel (outs inp d ! j))"
  shows "partner g (1 + d) (Suc j) < length (ins inp c)"
    "target g (first_channel inp + c) (partner g (1 + d) (Suc j)) = 1 + d"
    "edge_triple (ins inp c ! partner g (1 + d) (Suc j)) = edge_triple (outs inp d ! j)"
    "partner g (first_channel inp + c) (partner g (1 + d) (Suc j)) = Suc j"
    "capacity (g ! (first_channel inp + c) ! partner g (1 + d) (Suc j)) = 1 - capacity (g ! (1 + d) ! Suc j)"
proof -
  note ok = bound_networkD [OF b] and o = outs_range [OF bound_networkD(1) [OF b] j]
  have s: "edge_at g (1 + d) (Suc j)" "target g (1 + d) (Suc j) = first_channel inp + c"
    "weight g (1 + d) (Suc j) = ce_cost (outs inp d ! j)"
    using demand_edges(3) [OF b d j] c by auto
  have cn: "c < length (in_channels inp)" using o(1) c by simp
  let ?k = "partner g (1 + d) (Suc j)"
  note p = network_okD [OF ok(2) s(1), unfolded s(2,3)] and ce = channel_edges [OF b cn]
  have "?k \<noteq> length (ins inp c)"
  proof
    assume "?k = length (ins inp c)"
    then have "sink_node inp = 1 + d" using p(3) ce(3) by simp
    then show False using d by (simp add: sink_node_def first_channel_def)
  qed
  then show k: "?k < length (ins inp c)" using p(1) ce(1) by (simp add: edge_at_def)
  show "target g (first_channel inp + c) ?k = 1 + d" using p(3) .
  have "nat (ce_demand (ins inp c ! ?k)) = d" "ce_cost (ins inp c ! ?k) = ce_cost (outs inp d ! j)"
    using ce(2) [OF k] p(3,5) by linarith+
  then show "edge_triple (ins inp c ! ?k) = edge_triple (outs inp d ! j)"
    unfolding edge_triple_def ins_range(3) [OF ok(1) k] o(3) c [symmetric] by simp
  show "partner g (first_channel inp + c) ?k = Suc j" using p(4) .
  show "capacity (g ! (first_channel inp + c) ! ?k) = 1 - capacity (g ! (1 + d) ! Suc j)"
    using unit_pairsD [OF ok(4) s(1), unfolded s(2)] by simp
qed

lemma channel_partner:
  assumes b: "bound_network inp flow g" and c: "c < length (in_channels inp)" and k: "k < length (ins inp c)"
    and d: "d = nat (ce_demand (ins inp c ! k))"
  shows "\<exists>j < length (outs inp d). partner g (first_channel inp + c) k = Suc j \<and>
    edge_triple (outs inp d ! j) = edge_triple (ins inp c ! k) \<and>
    partner g (1 + d) (Suc j) = k \<and>
    capacity (g ! (1 + d) ! Suc j) = 1 - capacity (g ! (first_channel inp + c) ! k)"
proof -
  note ok = bound_networkD [OF b] and i = ins_range [OF bound_networkD(1) [OF b] k]
  have s: "edge_at g (first_channel inp + c) k" "target g (first_channel inp + c) k = 1 + d"
    "weight g (first_channel inp + c) k = - ce_cost (ins inp c ! k)"
    using channel_edges(2) [OF b c k] d by auto
  have dn: "d < length (in_demands inp)" using i(1) d by simp
  let ?j = "partner g (first_channel inp + c) k"
  note p = network_okD [OF ok(2) s(1), unfolded s(2,3)] and de = demand_edges [OF b dn]
  have "?j \<noteq> 0"
  proof
    assume "?j = 0"
    then show False using p(3) de(2) by (simp add: first_channel_def)
  qed
  then obtain j where j: "?j = Suc j" by (cases ?j) auto
  then have jl: "j < length (outs inp d)" using p(1) de(1) by (simp add: edge_at_def)
  have "nat (ce_channel (outs inp d ! j)) = c" "ce_cost (outs inp d ! j) = ce_cost (ins inp c ! k)"
    using de(3) [OF jl] p(3,5) unfolding j by linarith+
  then have "edge_triple (outs inp d ! j) = edge_triple (ins inp c ! k)"
    unfolding edge_triple_def i(3) outs_range(3) [OF ok(1) jl] d [symmetric] by simp
  moreover have "partner g (1 + d) (Suc j) = k" using p(4) unfolding j .
  moreover have "capacity (g ! (1 + d) ! Suc j) = 1 - capacity (g ! (first_channel inp + c) ! k)"
    using unit_pairsD [OF ok(4) s(1), unfolded s(2) j] by linarith
  ultimately show ?thesis using jl j by blast
qed

end
