(* ===== verification/Bsp_Assign.thy ===== *)
theory Bsp_Assign
  imports Bsp_Network
begin

text \<open>
  Pin binding as an assignment problem (\<open>src/native/bsp_pin_solver.cpp\<close>): what a final residual network
  says about the demands and channels, its cost, optimality by the potential of the channels, the cut
  that rules out a complete assignment, and the contract of the whole solver.
\<close>

section \<open>The edges in use\<close>

lemma demand_lone_zero:
  assumes b: "bound_network inp flow g" and d: "d < length (in_demands inp)"
  shows "\<exists>!j. j < Suc (length (outs inp d)) \<and> capacity (g ! (1 + d) ! j) = 0"
proof (rule lone_zero)
  note de = demand_edges [OF b d]
  show "(\<Sum>j < Suc (length (outs inp d)). capacity (g ! (1 + d) ! j)) = int (Suc (length (outs inp d))) - 1"
    using de(4) unfolding cap_out_def de(1) by simp
  fix j assume "j < Suc (length (outs inp d))"
  then have "edge_at g (1 + d) j" using de(2,3) by (cases j) auto
  then show "capacity (g ! (1 + d) ! j) = 0 \<or> capacity (g ! (1 + d) ! j) = 1"
    using capacity_01 [OF bound_networkD(2,4) [OF b]] by blast
qed

lemma channel_lone_one:
  assumes b: "bound_network inp flow g" and c: "c < length (in_channels inp)"
  shows "\<exists>!k. k < Suc (length (ins inp c)) \<and> capacity (g ! (first_channel inp + c) ! k) = 1"
proof (rule lone_one)
  note ce = channel_edges [OF b c]
  show "(\<Sum>k < Suc (length (ins inp c)). capacity (g ! (first_channel inp + c) ! k)) = 1"
    using ce(4) unfolding cap_out_def ce(1) .
  fix k assume "k < Suc (length (ins inp c))"
  then have "edge_at g (first_channel inp + c) k" using ce(2,3) by (cases "k < length (ins inp c)") (auto simp: less_Suc_eq)
  then show "capacity (g ! (first_channel inp + c) ! k) = 0 \<or> capacity (g ! (first_channel inp + c) ! k) = 1"
    using capacity_01 [OF bound_networkD(2,4) [OF b]] by blast
qed

lemma assigned_edges_eq:
  assumes b: "bound_network inp flow g" and d: "d < length (in_demands inp)"
  shows "assigned_edges inp g d = map (\<lambda>j. edge_triple (outs inp d ! j))
    (filter (\<lambda>j. capacity (g ! (1 + d) ! Suc j) = 0) [0..<length (outs inp d)])"
proof -
  note de = demand_edges [OF b d]
  let ?P = "\<lambda>e. \<not> (to_node e < first_channel inp \<or> to_node e \<ge> sink_node inp \<or> capacity e \<noteq> 0)"
  have "g ! (1 + d) = map ((!) (g ! (1 + d))) [0..<Suc (length (outs inp d))]"
    using map_nth [of "g ! (1 + d)"] de(1) by simp
  also have "\<dots> = g ! (1 + d) ! 0 # map (\<lambda>j. g ! (1 + d) ! Suc j) [0..<length (outs inp d)]"
    by (simp add: map_upt_Suc del: upt_Suc)
  finally have "filter ?P (g ! (1 + d)) = filter ?P (map (\<lambda>j. g ! (1 + d) ! Suc j) [0..<length (outs inp d)])"
    using de(2) by (metis (no_types, lifting) filter.simps(2) first_channel_def zero_less_Suc plus_1_eq_Suc)
  also have "\<dots> = map (\<lambda>j. g ! (1 + d) ! Suc j) (filter (\<lambda>j. capacity (g ! (1 + d) ! Suc j) = 0) [0..<length (outs inp d)])"
    unfolding filter_map
    by (rule arg_cong2 [where f = map], rule refl, rule filter_cong)
      (auto simp: sink_node_def not_le de(3) [simplified] outs_range(1) [OF bound_networkD(1) [OF b]])
  finally show ?thesis
    unfolding assigned_edges_def
    by (auto simp: edge_triple_def de(3)[simplified] outs_range [OF bound_networkD(1) [OF b]])
qed

section \<open>Complementary slackness\<close>

lemma used_slot:
  assumes b: "bound_network inp flow g"
    and d: "d < length (in_demands inp)" and j: "j < length (outs inp d)"
    and e: "edge_triple (outs inp d ! j) = (d', c, w)" and u: "capacity (g ! (1 + d) ! Suc j) = 0"
  shows "\<exists>k. k < length (ins inp c) \<and> capacity (g ! (first_channel inp + c) ! k) = 1 \<and>
      target g (first_channel inp + c) k = 1 + d \<and> c < length (in_channels inp) \<and>
      residual g (first_channel inp + c) k \<and> weight g (first_channel inp + c) k = - w"
proof -
  note ok = bound_networkD [OF b]
  let ?k = "partner g (1 + d) (Suc j)"
  have c: "c = nat (ce_channel (outs inp d ! j))" using e by (simp add: edge_triple_def)
  have cn: "c < length (in_channels inp)" using outs_range(1) [OF ok(1) j] c by simp
  note dp = demand_partner [OF b d j c] and ce = channel_edges [OF b cn]
  have one: "capacity (g ! (first_channel inp + c) ! ?k) = 1" using dp(5) u by simp
  have "edge_at g (first_channel inp + c) ?k" "weight g (first_channel inp + c) ?k = - w"
    using ce(2) [OF dp(1)] dp(3) e by (auto simp: edge_triple_def)
  then show ?thesis using one dp(1,2) cn by (auto simp: residual_def)
qed

lemma used_edge:
  assumes b: "bound_network inp flow g" and pot: "potential g p"
    and d: "d < length (in_demands inp)" and j: "j < length (outs inp d)"
    and e: "edge_triple (outs inp d ! j) = (d', c, w)" and u: "capacity (g ! (1 + d) ! Suc j) = 0"
  shows "w \<le> p (first_channel inp + c) - p (1 + d)" and "p (first_channel inp + c) \<le> p (sink_node inp)"
proof -
  note ok = bound_networkD [OF b]
  let ?m = "length (ins inp c)" and ?x = "first_channel inp + c"
  obtain k where k: "k < ?m" "capacity (g ! ?x ! k) = 1" "target g ?x k = 1 + d" "c < length (in_channels inp)"
    "residual g ?x k" "weight g ?x k = - w" using used_slot [OF b d j e u] by blast
  from potentialD [OF pot k(5)] show "w \<le> p ?x - p (1 + d)" unfolding k(3,6) by simp
  have "capacity (g ! ?x ! ?m) \<noteq> 1"
    using channel_lone_one [OF b k(4)] k(1,2) by (metis less_Suc_eq less_irrefl_nat)
  moreover have last: "edge_at g ?x ?m" "target g ?x ?m = sink_node inp" "weight g ?x ?m = 0"
    using channel_edges(3) [OF b k(4)] by auto
  note q = network_okD [OF ok(2) last(1), unfolded last(2,3)]
  ultimately have "capacity (g ! sink_node inp ! partner g ?x ?m) = 1"
    using capacity_01 [OF ok(2,4) last(1)] unit_pairsD [OF ok(4) last(1), unfolded last(2)] by auto
  then have "residual g (sink_node inp) (partner g ?x ?m)" using q(1) by (simp add: residual_def)
  from potentialD [OF pot this] show "p ?x \<le> p (sink_node inp)" unfolding q(3,5) by simp
qed

lemma unused_edge:
  assumes b: "bound_network inp flow g" and pot: "potential g p"
    and d: "d < length (in_demands inp)" and j: "j < length (outs inp d)"
    and e: "edge_triple (outs inp d ! j) = (d', c, w)" and u: "capacity (g ! (1 + d) ! Suc j) \<noteq> 0"
  shows "p (first_channel inp + c) - p (1 + d) \<le> w"
proof -
  have s: "edge_at g (1 + d) (Suc j)" "target g (1 + d) (Suc j) = first_channel inp + c" "weight g (1 + d) (Suc j) = w"
    using demand_edges(3) [OF b d j] e by (auto simp: edge_triple_def)
  have "residual g (1 + d) (Suc j)"
    using u s(1) capacity_01 [OF bound_networkD(2,4) [OF b] s(1)] by (auto simp: residual_def)
  from potentialD [OF pot this] show ?thesis unfolding s by simp
qed

lemma channel_source:
  assumes b: "bound_network inp flow g" and c: "c < length (in_channels inp)"
  shows "capacity (g ! (first_channel inp + c) ! length (ins inp c)) = 1 \<or>
    (\<exists>d j k. d < length (in_demands inp) \<and> j < length (outs inp d) \<and> capacity (g ! (1 + d) ! Suc j) = 0 \<and>
       (\<exists>w. edge_triple (outs inp d ! j) = (d, c, w)) \<and> edge_at g (first_channel inp + c) k \<and>
       capacity (g ! (first_channel inp + c) ! k) = 1 \<and> target g (first_channel inp + c) k = 1 + d)"
proof -
  note ok = bound_networkD [OF b]
  obtain k where k: "k < Suc (length (ins inp c))" "capacity (g ! (first_channel inp + c) ! k) = 1"
    using channel_lone_one [OF b c] by blast
  show ?thesis
  proof (cases "k < length (ins inp c)")
    case True
    define d where d: "d = nat (ce_demand (ins inp c ! k))"
    have dn: "d < length (in_demands inp)" using ins_range(1) [OF ok(1) True] d by simp
    obtain j where j: "j < length (outs inp d)" "edge_triple (outs inp d ! j) = edge_triple (ins inp c ! k)"
      "capacity (g ! (1 + d) ! Suc j) = 1 - capacity (g ! (first_channel inp + c) ! k)"
      using channel_partner [OF b c True d] by blast
    have "edge_triple (ins inp c ! k) = (d, c, ce_cost (ins inp c ! k))"
      by (simp add: edge_triple_def d ins_range(3) [OF ok(1) True])
    with j(2) have "edge_triple (outs inp d ! j) = (d, c, ce_cost (ins inp c ! k))" by simp
    moreover have "edge_at g (first_channel inp + c) k" "target g (first_channel inp + c) k = 1 + d"
      using channel_edges(2) [OF b c True] d by auto
    ultimately show ?thesis using dn j(1,3) k(2) by auto
  next
    case False
    then have "k = length (ins inp c)" using k(1) by simp
    then show ?thesis using k(2) by blast
  qed
qed

lemma all_bound:
  assumes b: "bound_network inp (length (in_demands inp)) g" and d: "d < length (in_demands inp)"
  shows "\<exists>j < length (outs inp d). capacity (g ! (1 + d) ! Suc j) = 0 \<and>
    assigned_edges inp g d = [edge_triple (outs inp d ! j)]"
proof -
  have "(\<Sum>d < length (in_demands inp). capacity (g ! 0 ! d)) = 0"
    using source_edges(3) [OF b] unfolding cap_out_def source_edges(1) [OF b] by simp
  moreover have "\<forall>d \<in> {..<length (in_demands inp)}. 0 \<le> capacity (g ! 0 ! d)"
    using source_edges(2) [OF b] network_okD(6) [OF bound_networkD(2) [OF b]] by blast
  ultimately have "capacity (g ! 0 ! d) = 0"
    using d by (subst (asm) sum_nonneg_eq_0_iff) auto
  then have "capacity (g ! (1 + d) ! 0) \<noteq> 0" using source_partner(2) [OF b d] by simp
  moreover obtain m where m: "m < Suc (length (outs inp d))" "capacity (g ! (1 + d) ! m) = 0"
    and lone: "\<And>i. i < Suc (length (outs inp d)) \<Longrightarrow> capacity (g ! (1 + d) ! i) = 0 \<Longrightarrow> i = m"
    using demand_lone_zero [OF b d] by blast
  ultimately obtain j where mj: "m = Suc j" by (cases m) auto
  have j: "j < length (outs inp d)" "capacity (g ! (1 + d) ! Suc j) = 0" using m mj by auto
  have only: "i = j" if "i < length (outs inp d)" "capacity (g ! (1 + d) ! Suc i) = 0" for i
    using lone [of "Suc i"] that mj by simp
  have "filter (\<lambda>i. capacity (g ! (1 + d) ! Suc i) = 0) [0..<length (outs inp d)]
      = filter (\<lambda>i. i = j) [0..<length (outs inp d)]"
    using j(2) only by (intro filter_cong) auto
  then have "assigned_edges inp g d = [edge_triple (outs inp d ! j)]"
    unfolding assigned_edges_eq [OF b d] by (simp add: filter_upt_eq j(1))
  with j show ?thesis by blast
qed

definition assignment_of :: "pin_input \<Rightarrow> network \<Rightarrow> (nat \<times> nat \<times> int) list" where
  "assignment_of inp g = concat (map (assigned_edges inp g) [0..<length (in_demands inp)])"

lemma assignment_of_complete:
  assumes b: "bound_network inp (length (in_demands inp)) g"
  shows "\<exists>J. (\<forall>d < length (in_demands inp). J d < length (outs inp d) \<and> capacity (g ! (1 + d) ! Suc (J d)) = 0) \<and>
    assignment_of inp g = map (\<lambda>d. edge_triple (outs inp d ! J d)) [0..<length (in_demands inp)] \<and>
    complete_assignment inp (assignment_of inp g)"
proof -
  let ?D = "length (in_demands inp)"
  note ok = bound_networkD [OF b]
  obtain J where J: "\<And>d. d < ?D \<Longrightarrow> J d < length (outs inp d) \<and> capacity (g ! (1 + d) ! Suc (J d)) = 0 \<and>
      assigned_edges inp g d = [edge_triple (outs inp d ! J d)]"
    using all_bound [OF b] by metis
  have A: "assignment_of inp g = map (\<lambda>d. edge_triple (outs inp d ! J d)) [0..<?D]"
  proof -
    have "map (assigned_edges inp g) [0..<?D] = map (\<lambda>d. [edge_triple (outs inp d ! J d)]) [0..<?D]"
      using J by (intro map_cong) auto
    then show ?thesis unfolding assignment_of_def by (simp only: concat_map_singleton)
  qed
  have fst: "fst (edge_triple (outs inp d ! J d)) = d" if "d < ?D" for d
    using outs_range(3) [OF ok(1)] J [OF that] by (simp add: edge_triple_def)
  have inj: "d = d'" if d: "d < ?D" "d' < ?D" and same: "fst (snd (edge_triple (outs inp d ! J d))) =
      fst (snd (edge_triple (outs inp d' ! J d')))" for d d'
  proof -
    obtain x c w where e: "edge_triple (outs inp d ! J d) = (x, c, w)" by (metis prod_cases3)
    moreover from same e obtain x' w' where e': "edge_triple (outs inp d' ! J d') = (x', c, w')"
      by (cases "edge_triple (outs inp d' ! J d')") auto
    have cap: "capacity (g ! (1 + d) ! Suc (J d)) = 0" "capacity (g ! (1 + d') ! Suc (J d')) = 0"
      "J d < length (outs inp d)" "J d' < length (outs inp d')" using J d by auto
    obtain k where k: "k < length (ins inp c)" "capacity (g ! (first_channel inp + c) ! k) = 1"
      "target g (first_channel inp + c) k = 1 + d" "c < length (in_channels inp)"
      using used_slot [OF b d(1) cap(3) e cap(1)] by blast
    obtain k' where k': "k' < length (ins inp c)" "capacity (g ! (first_channel inp + c) ! k') = 1"
      "target g (first_channel inp + c) k' = 1 + d'"
      using used_slot [OF b d(2) cap(4) e' cap(2)] by blast
    have "k = k'" using channel_lone_one [OF b k(4)] k(1,2) k'(1,2) by (metis less_SucI)
    with k(3) k'(3) show ?thesis by simp
  qed
  have "map fst (assignment_of inp g) = [0..<?D]"
    unfolding A map_map comp_def using fst by (intro map_idI) auto
  moreover have "distinct (map (fst \<circ> snd) (assignment_of inp g))"
    unfolding A map_map distinct_map using inj by (auto intro!: inj_onI)
  moreover have "set (assignment_of inp g) \<subseteq> edge_triple ` set (in_edges inp)"
    unfolding A using outs_range(2) [OF ok(1)] J by fastforce
  ultimately have "complete_assignment inp (assignment_of inp g)" by (simp add: complete_assignment_def)
  with J A show ?thesis by blast
qed

section \<open>The cost of the network\<close>

lemma sum_lessThan_add: "(\<Sum>x < a + b. f x) = (\<Sum>x < a. f x) + (\<Sum>x < b. f (a + x :: nat) :: int)"
  by (induction b) (auto simp: add.assoc)

lemma channel_cost_sum:
  assumes b: "bound_network inp flow g"
  shows "(\<Sum>c < length (in_channels inp). \<Sum>k < length (ins inp c).
      capacity (g ! (first_channel inp + c) ! k) * weight g (first_channel inp + c) k) =
    (\<Sum>d < length (in_demands inp). \<Sum>j < length (outs inp d).
      (1 - capacity (g ! (1 + d) ! Suc j)) * - ce_cost (outs inp d ! j))"
proof -
  let ?B = "Sigma {..<length (in_channels inp)} (\<lambda>c. {..<length (ins inp c)})"
  let ?F = "Sigma {..<length (in_demands inp)} (\<lambda>d. {..<length (outs inp d)})"
  let ?f = "\<lambda>(c, k). capacity (g ! (first_channel inp + c) ! k) * weight g (first_channel inp + c) k"
  let ?h = "\<lambda>(d, j). (1 - capacity (g ! (1 + d) ! Suc j)) * - ce_cost (outs inp d ! j)"
  let ?to = "\<lambda>(c, k). (nat (ce_demand (ins inp c ! k)), partner g (first_channel inp + c) k - 1)"
  let ?from = "\<lambda>(d, j). (nat (ce_channel (outs inp d ! j)), partner g (1 + d) (Suc j))"
  note ok = bound_networkD(1) [OF b]
  have fwd: "?from (?to z) = z \<and> ?to z \<in> ?F \<and> ?h (?to z) = ?f z" if zB: "z \<in> ?B" for z
  proof -
    obtain c k where z: "z = (c, k)" "c < length (in_channels inp)" "k < length (ins inp c)" using zB by auto
    define d where d: "d = nat (ce_demand (ins inp c ! k))"
    obtain j where j: "j < length (outs inp d)" "partner g (first_channel inp + c) k = Suc j"
      "edge_triple (outs inp d ! j) = edge_triple (ins inp c ! k)" "partner g (1 + d) (Suc j) = k"
      "capacity (g ! (1 + d) ! Suc j) = 1 - capacity (g ! (first_channel inp + c) ! k)"
      using channel_partner [OF b z(2,3) d] by blast
    have "nat (ce_channel (outs inp d ! j)) = c" "ce_cost (outs inp d ! j) = ce_cost (ins inp c ! k)"
      using j(3) ins_range(3) [OF ok z(3)] by (auto simp: edge_triple_def)
    moreover have "weight g (first_channel inp + c) k = - ce_cost (ins inp c ! k)"
      using channel_edges(2) [OF b z(2,3)] by simp
    ultimately show ?thesis
      using z j ins_range(1) [OF ok z(3)] by (simp add: d [symmetric])
  qed
  have bwd: "?to (?from z) = z \<and> ?from z \<in> ?B" if zF: "z \<in> ?F" for z
  proof -
    obtain d j where z: "z = (d, j)" "d < length (in_demands inp)" "j < length (outs inp d)" using zF by auto
    define c where c: "c = nat (ce_channel (outs inp d ! j))"
    note dp = demand_partner [OF b z(2,3) c]
    have "nat (ce_demand (ins inp c ! partner g (1 + d) (Suc j))) = d"
      using dp(3) outs_range(3) [OF ok z(3)] by (simp add: edge_triple_def)
    then show ?thesis using z dp(1,4) outs_range(1) [OF ok z(3)] by (simp add: c [symmetric])
  qed
  have "sum ?f ?B = sum ?h ?F"
    by (rule sum.reindex_bij_witness [where i = ?from and j = ?to]) (use fwd bwd in blast)+
  then show ?thesis by (simp add: sum.Sigma)
qed

lemma residual_cost_demands:
  assumes b: "bound_network inp flow g"
  shows "residual_cost g = (\<Sum>d < length (in_demands inp). \<Sum>j < length (outs inp d).
      (2 * capacity (g ! (1 + d) ! Suc j) - 1) * ce_cost (outs inp d ! j))"
proof -
  let ?D = "length (in_demands inp)" and ?K = "length (in_channels inp)" and ?fc = "first_channel inp"
  let ?r = "\<lambda>x. \<Sum>j < length (g ! x). capacity (g ! x ! j) * weight g x j"
  note ok = bound_networkD [OF b]
  have n: "length g = (1 + ?D) + ?K + 1"
    using shape_eqD(1) [OF ok(3)] by (simp add: sink_node_def first_channel_def)
  have r0: "?r 0 = 0" using source_edges(1,2) [OF b] by simp
  have rs: "?r (sink_node inp) = 0"
  proof -
    have x: "sink_node inp < length (build_network inp)" by simp
    note st = row_static [OF ok(3) x, unfolded sink_row [OF ok(1)]]
    show ?thesis unfolding st(1) using st(4) by simp
  qed
  have rd: "?r (1 + d) = (\<Sum>j < length (outs inp d). capacity (g ! (1 + d) ! Suc j) * ce_cost (outs inp d ! j))"
    if d: "d < ?D" for d
    unfolding demand_edges(1) [OF b d] sum.lessThan_Suc_shift
    using demand_edges(2,3) [OF b d] by simp
  have rc: "?r (?fc + c) = (\<Sum>k < length (ins inp c). capacity (g ! (?fc + c) ! k) * weight g (?fc + c) k)"
    if c: "c < ?K" for c
    unfolding channel_edges(1) [OF b c] sum.lessThan_Suc
    using channel_edges(3) [OF b c] by simp
  have "residual_cost g = ?r 0 + (\<Sum>d < ?D. ?r (1 + d)) + (\<Sum>c < ?K. ?r (?fc + c)) + ?r (sink_node inp)"
    unfolding residual_cost_def n sum_lessThan_add
    by (simp add: first_channel_def sink_node_def)
  also have "\<dots> = (\<Sum>d < ?D. \<Sum>j < length (outs inp d). capacity (g ! (1 + d) ! Suc j) * ce_cost (outs inp d ! j)) +
      (\<Sum>c < ?K. \<Sum>k < length (ins inp c). capacity (g ! (?fc + c) ! k) * weight g (?fc + c) k)"
    unfolding r0 rs using rd rc by simp
  finally show ?thesis
    unfolding channel_cost_sum [OF b] sum.distrib [symmetric] by (simp add: algebra_simps)
qed

lemma build_bound:
  assumes "pin_input_ok inp"
  shows "bound_network inp 0 (build_network inp)"
  using assms build_network_ok by (simp add: bound_network_def)

lemma fresh_capacity:
  assumes ok: "pin_input_ok inp" and d: "d < length (in_demands inp)" and j: "j < length (outs inp d)"
  shows "capacity (build_network inp ! (1 + d) ! Suc j) = 1"
proof -
  have x: "1 + d < length (build_network inp)" using d by (simp add: sink_node_def first_channel_def)
  have len: "Suc j < length (build_network inp ! (1 + d))"
    unfolding row_static(1) [OF refl x] demand_row [OF ok d] using j by simp
  have "row (build_network inp) (1 + d) ! Suc j = edge_view (build_network inp ! (1 + d) ! Suc j)"
    by (simp only: row_def nth_map [OF len])
  then show ?thesis unfolding demand_row [OF ok d] using j by (simp add: edge_view_def)
qed

lemma spent_is_cost:
  assumes b: "bound_network inp (length (in_demands inp)) g"
    and cost: "residual_cost g = residual_cost (build_network inp) - 2 * spent"
  shows "spent = assignment_cost (assignment_of inp g)"
proof -
  let ?D = "length (in_demands inp)"
  note ok = bound_networkD(1) [OF b]
  obtain J where J: "\<And>d. d < ?D \<Longrightarrow> J d < length (outs inp d) \<and> capacity (g ! (1 + d) ! Suc (J d)) = 0"
    and A: "assignment_of inp g = map (\<lambda>d. edge_triple (outs inp d ! J d)) [0..<?D]"
    using assignment_of_complete [OF b] by blast
  have cap: "capacity (g ! (1 + d) ! Suc j) = (if j = J d then 0 else 1)"
    if d: "d < ?D" and j: "j < length (outs inp d)" for d j
  proof -
    have "capacity (g ! (1 + d) ! Suc j) \<noteq> 0" if "j \<noteq> J d"
      using demand_lone_zero [OF b d] J [OF d] j that by (metis Suc_less_eq old.nat.inject)
    moreover have "edge_at g (1 + d) (Suc j)" using demand_edges(3) [OF b d j] by simp
    ultimately show ?thesis using J [OF d] capacity_01 [OF bound_networkD(2,4) [OF b]] by auto
  qed
  have "2 * spent = residual_cost (build_network inp) - residual_cost g" using cost by simp
  also have "\<dots> = (\<Sum>d < ?D. \<Sum>j < length (outs inp d). (if j = J d then 2 * ce_cost (outs inp d ! j) else 0))"
    unfolding residual_cost_demands [OF b] residual_cost_demands [OF build_bound [OF ok]]
      sum_subtractf [symmetric]
    using cap fresh_capacity [OF ok] by (intro sum.cong refl) (auto simp: algebra_simps)
  also have "\<dots> = 2 * (\<Sum>d < ?D. ce_cost (outs inp d ! J d))"
    using J by (simp add: sum_distrib_left)
  finally show ?thesis
    unfolding A assignment_cost_def
    by (simp add: edge_triple_def comp_def interv_sum_list_conv_sum_set_nat atLeast0LessThan)
qed

section \<open>Complete assignments as functions\<close>

lemma triple_in_outs:
  assumes "(d, c, w) \<in> edge_triple ` set (in_edges inp)"
  shows "\<exists>j < length (outs inp d). edge_triple (outs inp d ! j) = (d, c, w)"
proof -
  obtain e where "e \<in> set (in_edges inp)" "edge_triple e = (d, c, w)" using assms by auto
  then have "e \<in> set (outs inp d)" "edge_triple e = (d, c, w)" by (auto simp: edge_triple_def)
  then show ?thesis by (metis in_set_conv_nth)
qed

lemma complete_assignmentD:
  assumes "complete_assignment inp A"
  shows "length A = length (in_demands inp)"
    "d < length (in_demands inp) \<Longrightarrow> A ! d = (d, fst (snd (A ! d)), snd (snd (A ! d)))"
    "d < length (in_demands inp) \<Longrightarrow> (d, fst (snd (A ! d)), snd (snd (A ! d))) \<in> edge_triple ` set (in_edges inp)"
    "inj_on (\<lambda>d. fst (snd (A ! d))) {..<length (in_demands inp)}"
    "(d', c, w) \<in> set A \<Longrightarrow> d' < length (in_demands inp) \<and> A ! d' = (d', c, w)"
    "assignment_cost A = (\<Sum>d < length (in_demands inp). snd (snd (A ! d)))"
proof -
  from assms have fst: "map fst A = [0..<length (in_demands inp)]" by (simp add: complete_assignment_def)
  show len: "length A = length (in_demands inp)" using arg_cong [OF fst, of length] by simp
  have nth: "fst (A ! d) = d" if "d < length (in_demands inp)" for d
    using arg_cong [OF fst, of "\<lambda>l. l ! d"] that len by simp
  then show eq: "d < length (in_demands inp) \<Longrightarrow> A ! d = (d, fst (snd (A ! d)), snd (snd (A ! d)))" for d
    by (metis prod.collapse)
  show "d < length (in_demands inp) \<Longrightarrow> (d, fst (snd (A ! d)), snd (snd (A ! d))) \<in> edge_triple ` set (in_edges inp)"
    using eq len nth_mem [of d A] assms by (metis complete_assignment_def subsetD)
  show "inj_on (\<lambda>d. fst (snd (A ! d))) {..<length (in_demands inp)}"
    using assms len by (auto simp: complete_assignment_def inj_on_def distinct_conv_nth)
  show "(d', c, w) \<in> set A \<Longrightarrow> d' < length (in_demands inp) \<and> A ! d' = (d', c, w)"
    using nth len by (metis fst_conv in_set_conv_nth)
  have "assignment_cost A = (\<Sum>x \<leftarrow> A. snd (snd x))" by (simp add: assignment_cost_def split_def)
  then show "assignment_cost A = (\<Sum>d < length (in_demands inp). snd (snd (A ! d)))"
    by (simp add: sum_list_sum_nth len atLeast0LessThan)
qed

section \<open>Optimality and the cut\<close>

lemma assignment_duality:
  assumes A: "complete_assignment inp A" and B: "complete_assignment inp B"
    and used: "\<And>d c w. (d, c, w) \<in> set A \<Longrightarrow> w \<le> pc c - pd d"
    and unused: "\<And>d c w. (d, c, w) \<in> edge_triple ` set (in_edges inp) \<Longrightarrow> (d, c, w) \<notin> set A \<Longrightarrow> pc c - pd d \<le> w"
    and bound: "\<And>d c w. (d, c, w) \<in> set A \<Longrightarrow> pc c \<le> z"
    and free: "\<And>d c w. (d, c, w) \<in> set B \<Longrightarrow> (\<forall>d' w'. (d', c, w') \<notin> set A) \<Longrightarrow> z \<le> pc c"
  shows "assignment_cost A \<le> (assignment_cost B :: int)"
proof -
  let ?D = "{..<length (in_demands inp)}"
  let ?a = "\<lambda>d. fst (snd (A ! d))" and ?b = "\<lambda>d. fst (snd (B ! d))"
  let ?wa = "\<lambda>d. snd (snd (A ! d))" and ?wb = "\<lambda>d. snd (snd (B ! d))"
  note a = complete_assignmentD [OF A] and b = complete_assignmentD [OF B]
  have mem: "(d, ?a d, ?wa d) \<in> set A" "(d, ?b d, ?wb d) \<in> set B" if "d \<in> ?D" for d
    using that a(1,2) b(1,2) by (metis lessThan_iff nth_mem)+
  have term_le: "pc (?b d) - pc (?a d) \<le> ?wb d - ?wa d" if d: "d \<in> ?D" for d
  proof (cases "(d, ?b d, ?wb d) \<in> set A")
    case True
    then have "A ! d = (d, ?b d, ?wb d)" using a(5) by blast
    then show ?thesis by (metis diff_self fst_conv order_refl snd_conv)
  next
    case False
    have "(d, ?b d, ?wb d) \<in> edge_triple ` set (in_edges inp)" using b(3) d by simp
    from unused [OF this False] used [OF mem(1) [OF d]] show ?thesis by linarith
  qed
  have bd: "pc c - z \<le> 0" if "c \<in> ?a ` ?D" for c using that bound [OF mem(1)] by auto
  have fr: "0 \<le> pc c - z" if c: "c \<in> ?b ` ?D - ?a ` ?D" for c
  proof -
    obtain d where d: "d \<in> ?D" "c = ?b d" using c by blast
    have "(d', c, w') \<notin> set A" for d' w'
    proof
      assume "(d', c, w') \<in> set A"
      then have "d' \<in> ?D \<and> A ! d' = (d', c, w')" using a(5) by blast
      then have "c \<in> ?a ` ?D" by (metis fst_conv image_eqI snd_conv)
      then show False using c by simp
    qed
    then show ?thesis using free [of d c "?wb d"] mem(2) [OF d(1)] d(2) by simp
  qed
  have "(\<Sum>c \<in> ?a ` ?D. pc c - z) \<le> (\<Sum>c \<in> ?a ` ?D \<inter> ?b ` ?D. pc c - z)"
    using sum_mono2 [of "?a ` ?D" "?a ` ?D \<inter> ?b ` ?D" "\<lambda>c. z - pc c"] bd
    by (simp add: sum_subtractf)
  also have "\<dots> \<le> (\<Sum>c \<in> ?b ` ?D. pc c - z)"
    by (rule sum_mono2) (use fr in auto)
  finally have "(\<Sum>d \<in> ?D. pc (?a d)) \<le> (\<Sum>d \<in> ?D. pc (?b d))"
    using a(4) b(4) by (simp add: sum.reindex card_image sum_subtractf)
  moreover have "(\<Sum>d \<in> ?D. pc (?b d) - pc (?a d)) \<le> (\<Sum>d \<in> ?D. ?wb d - ?wa d)"
    by (rule sum_mono) (rule term_le)
  ultimately show ?thesis unfolding a(6) b(6) by (simp add: sum_subtractf)
qed

lemma bound_network_optimal:
  assumes b: "bound_network inp (length (in_demands inp)) g" and pot: "potential g p"
    and B: "complete_assignment inp B"
  shows "assignment_cost (assignment_of inp g) \<le> assignment_cost B"
proof -
  let ?D = "length (in_demands inp)" and ?A = "assignment_of inp g"
  note ok = bound_networkD(1) [OF b]
  obtain J where J: "\<And>d. d < ?D \<Longrightarrow> J d < length (outs inp d) \<and> capacity (g ! (1 + d) ! Suc (J d)) = 0"
    and A: "?A = map (\<lambda>d. edge_triple (outs inp d ! J d)) [0..<?D]" and complete: "complete_assignment inp ?A"
    using assignment_of_complete [OF b] by blast
  have slot: "d < ?D \<and> edge_triple (outs inp d ! J d) = (d, c, w)" if "(d, c, w) \<in> set ?A" for d c w
    using complete_assignmentD(5) [OF complete that] unfolding A by auto
  show ?thesis
  proof (rule assignment_duality [OF complete B, where pd = "\<lambda>d. p (1 + d)" and z = "p (sink_node inp)"
        and pc = "\<lambda>c. p (first_channel inp + c)"])
    fix d c w assume m: "(d, c, w) \<in> set ?A"
    show "w \<le> p (first_channel inp + c) - p (1 + d)" "p (first_channel inp + c) \<le> p (sink_node inp)"
      using used_edge [OF b pot, of d "J d"] slot [OF m] J by auto
  next
    fix d c w assume m: "(d, c, w) \<in> edge_triple ` set (in_edges inp)" and no: "(d, c, w) \<notin> set ?A"
    obtain j where j: "j < length (outs inp d)" "edge_triple (outs inp d ! j) = (d, c, w)"
      using triple_in_outs [OF m] by blast
    have d: "d < ?D" using m edge_range(1) [OF ok] by (auto simp: edge_triple_def)
    have "capacity (g ! (1 + d) ! Suc j) \<noteq> 0"
    proof
      assume "capacity (g ! (1 + d) ! Suc j) = 0"
      then have "j = J d" using demand_lone_zero [OF b d] J [OF d] j(1) by (metis Suc_less_eq old.nat.inject)
      then have "(d, c, w) \<in> set ?A" unfolding A using j(2) d by force
      then show False using no by simp
    qed
    then show "p (first_channel inp + c) - p (1 + d) \<le> w" using unused_edge [OF b pot d j] by blast
  next
    fix d c w assume m: "(d, c, w) \<in> set B" and no: "\<forall>d' w'. (d', c, w') \<notin> set ?A"
    have "(d, c, w) \<in> edge_triple ` set (in_edges inp)" using B m by (auto simp: complete_assignment_def)
    then have c: "c < length (in_channels inp)" using edge_range(2) [OF ok] by (auto simp: edge_triple_def)
    let ?x = "first_channel inp + c" and ?m = "length (ins inp c)"
    have "\<not> (d' < ?D \<and> j < length (outs inp d') \<and> capacity (g ! (1 + d') ! Suc j) = 0 \<and>
        edge_triple (outs inp d' ! j) = (d', c, w'))" for d' j w'
    proof
      assume h: "d' < ?D \<and> j < length (outs inp d') \<and> capacity (g ! (1 + d') ! Suc j) = 0 \<and>
        edge_triple (outs inp d' ! j) = (d', c, w')"
      then have "j = J d'" using demand_lone_zero [OF b, of d'] J [of d'] by (metis Suc_less_eq old.nat.inject)
      then have "(d', c, w') \<in> set ?A" unfolding A using h by force
      then show False using no by blast
    qed
    then have "capacity (g ! ?x ! ?m) = 1" using channel_source [OF b c] by blast
    moreover have last: "edge_at g ?x ?m" "target g ?x ?m = sink_node inp" "weight g ?x ?m = 0"
      using channel_edges(3) [OF b c] by auto
    ultimately have "residual g ?x ?m" by (simp add: residual_def)
    from potentialD [OF pot this] show "p (sink_node inp) \<le> p ?x" unfolding last by simp
  qed
qed

lemma no_assignment:
  assumes b: "bound_network inp flow g" and flow: "flow < length (in_demands inp)"
    and cut: "cut_off g 0 (sink_node inp) C" and B: "complete_assignment inp B"
  shows False
proof -
  let ?D = "length (in_demands inp)" and ?K = "length (in_channels inp)" and ?fc = "first_channel inp"
  note ok = bound_networkD [OF b]
  obtain p t where pre: "search_pre g p 0 C" and tree: "shortest_tree g p 0 C t"
    and cut: "\<not> reached t (sink_node inp)" using cut by (auto simp: cut_off_def)
  note tr = shortest_treeD [OF tree]
  let ?R = "{d. d < ?D \<and> reached t (1 + d)}" and ?S = "{c. c < ?K \<and> reached t (?fc + c)}"
  have r0: "reached t 0" using tr(2) flow_infinity_pos by (simp add: reached_def)
  have zero_only: "i = j" if "d < ?D" "i < Suc (length (outs inp d))" "capacity (g ! (1 + d) ! i) = 0"
      "j < Suc (length (outs inp d))" "capacity (g ! (1 + d) ! j) = 0" for d i j
    using demand_lone_zero [OF b that(1)] that(2-5) by blast
  have "\<exists>d0 < ?D. capacity (g ! 0 ! d0) = 1"
  proof (rule ccontr)
    assume none: "\<not> (\<exists>d0 < ?D. capacity (g ! 0 ! d0) = 1)"
    have "capacity (g ! 0 ! d) = 0" if d: "d < ?D" for d
      using none d capacity_01 [OF ok(2,4), of 0 d] source_edges(2) [OF b d] by blast
    then have "cap_out g 0 = 0" unfolding cap_out_def source_edges(1) [OF b] by simp
    then show False using source_edges(3) [OF b] flow by simp
  qed
  then obtain d0 where d0: "d0 < ?D" "capacity (g ! 0 ! d0) = 1" by blast
  have d0R: "d0 \<in> ?R"
    using tr(6) [OF _ r0, of d0] source_edges(2) [OF b d0(1)] d0 by (simp add: residual_def)
  have neighbours: "c \<in> ?S" if dR: "d \<in> ?R" and e: "(d, c, w) \<in> edge_triple ` set (in_edges inp)" for d c w
  proof -
    obtain j where j: "j < length (outs inp d)" "edge_triple (outs inp d ! j) = (d, c, w)"
      using triple_in_outs [OF e] by blast
    have d: "d < ?D" "reached t (1 + d)" using dR by auto
    have c: "c < ?K" using e edge_range(2) [OF ok(1)] by (auto simp: edge_triple_def)
    have s: "edge_at g (1 + d) (Suc j)" "target g (1 + d) (Suc j) = ?fc + c"
      using demand_edges(3) [OF b d(1) j(1)] j(2) by (auto simp: edge_triple_def)
    have "reached t (?fc + c)"
    proof (cases "capacity (g ! (1 + d) ! Suc j) = 0")
      case False
      then have "residual g (1 + d) (Suc j)" using s(1) capacity_01 [OF ok(2,4) s(1)] by (auto simp: residual_def)
      from tr(6) [OF this d(2)] show ?thesis unfolding s(2) .
    next
      case True
      have "1 + d < length g" using s(1) by (simp add: edge_at_def)
      then obtain u i where ui: "residual g u i" "target g u i = 1 + d" "reached t u"
        using tree_edge_tight [OF pre tree _ _ d(2)] by auto
      note q = network_okD [OF ok(2) residual_edge [OF ui(1)], unfolded ui(2)]
      have "capacity (g ! (1 + d) ! partner g u i) = 0"
        using residual_capacity(2) [OF ok(2,4) ui(1)] unfolding ui(2) .
      moreover have "partner g u i < Suc (length (outs inp d))"
        using q(1) demand_edges(1) [OF b d(1)] by (simp add: edge_at_def)
      ultimately have "partner g u i = Suc j" using zero_only [OF d(1), of _ "Suc j"] j(1) True by simp
      then have "u = ?fc + c" using q(3) s(2) by simp
      then show ?thesis using ui(3) by simp
    qed
    with c show ?thesis by simp
  qed
  let ?M = "\<lambda>c d. d \<in> ?R - {d0} \<and> (\<exists>j w. j < length (outs inp d) \<and> capacity (g ! (1 + d) ! Suc j) = 0 \<and>
      edge_triple (outs inp d ! j) = (d, c, w))"
  have matched: "\<exists>d. ?M c d" if cS: "c \<in> ?S" for c
  proof -
    have c: "c < ?K" "reached t (?fc + c)" using cS by auto
    have "capacity (g ! (?fc + c) ! length (ins inp c)) \<noteq> 1"
    proof
      assume "capacity (g ! (?fc + c) ! length (ins inp c)) = 1"
      then have "residual g (?fc + c) (length (ins inp c))"
        using channel_edges(3) [OF b c(1)] by (simp add: residual_def)
      from tr(6) [OF this c(2)] show False using channel_edges(3) [OF b c(1)] cut by simp
    qed
    then obtain d j k w where dj: "d < ?D" "j < length (outs inp d)" "capacity (g ! (1 + d) ! Suc j) = 0"
        "edge_triple (outs inp d ! j) = (d, c, w)" "edge_at g (?fc + c) k"
        "capacity (g ! (?fc + c) ! k) = 1" "target g (?fc + c) k = 1 + d"
      using channel_source [OF b c(1)] by blast
    have "residual g (?fc + c) k" using dj(5,6) by (simp add: residual_def)
    from tr(6) [OF this c(2)] have "reached t (1 + d)" unfolding dj(7) .
    moreover have "d \<noteq> d0"
    proof
      assume "d = d0"
      then have "capacity (g ! (1 + d) ! 0) = 0" using source_partner(2) [OF b d0(1)] d0(2) by simp
      then show False using zero_only [OF dj(1), of 0 "Suc j"] dj(2,3) by simp
    qed
    ultimately have "?M c d" using dj(1-4) by blast
    then show ?thesis by (rule exI)
  qed
  have "\<exists>\<phi>. \<forall>c \<in> ?S. ?M c (\<phi> c)" by (rule bchoice, rule ballI, rule matched)
  then obtain \<phi> where \<phi>: "c \<in> ?S \<Longrightarrow> ?M c (\<phi> c)" for c by blast
  have "inj_on \<phi> ?S"
  proof (rule inj_onI)
    fix c c' assume c: "c \<in> ?S" "c' \<in> ?S" "\<phi> c = \<phi> c'"
    obtain j w where j: "j < length (outs inp (\<phi> c))" "capacity (g ! (1 + \<phi> c) ! Suc j) = 0"
      "edge_triple (outs inp (\<phi> c) ! j) = (\<phi> c, c, w)" using \<phi> [OF c(1)] by blast
    obtain j' w' where j': "j' < length (outs inp (\<phi> c))" "capacity (g ! (1 + \<phi> c) ! Suc j') = 0"
      "edge_triple (outs inp (\<phi> c) ! j') = (\<phi> c, c', w')" using \<phi> [OF c(2)] unfolding c(3) by blast
    have "\<phi> c < ?D" using \<phi> [OF c(1)] by blast
    then have "Suc j = Suc j'" using zero_only j(1,2) j'(1,2) Suc_mono by metis
    then have "(\<phi> c, c, w) = (\<phi> c, c', w')" unfolding j(3) [symmetric] j'(3) [symmetric] by simp
    then show "c = c'" by simp
  qed
  moreover have "\<phi> ` ?S \<subseteq> ?R - {d0}" using \<phi> by blast
  ultimately have "card ?S \<le> card (?R - {d0})" by (rule card_inj_on_le) simp
  moreover have "card (?R - {d0}) < card ?R" by (rule card_Diff1_less) (use d0R in auto)
  moreover have "card ?R \<le> card ?S"
  proof (rule card_inj_on_le [where f = "\<lambda>d. fst (snd (B ! d))"])
    note Bd = complete_assignmentD [OF B]
    show "inj_on (\<lambda>d. fst (snd (B ! d))) ?R" using Bd(4) by (rule inj_on_subset) auto
    show "(\<lambda>d. fst (snd (B ! d))) ` ?R \<subseteq> ?S" using neighbours Bd(3) by blast
  qed simp
  ultimately show False by linarith
qed

section \<open>The whole solver\<close>

definition largest_cost :: "pin_input \<Rightarrow> int" where
  "largest_cost inp = foldr (\<lambda>e. max (ce_cost e)) (in_edges inp) 0"

text \<open>
  The range of costs for which the sentinel \<open>flow_infinity\<close> is never reached by a real distance and no
  sum leaves the 64-bit range.
\<close>

definition costs_in_range :: "pin_input \<Rightarrow> bool" where
  "costs_in_range inp \<longleftrightarrow>
     int (length (in_demands inp)) * (int (sink_node inp + 1) * largest_cost inp) < flow_infinity"

lemma largest_cost_ge: "0 \<le> largest_cost inp" "e \<in> set (in_edges inp) \<Longrightarrow> ce_cost e \<le> largest_cost inp"
proof -
  have "0 \<le> foldr (\<lambda>e. max (ce_cost e)) es 0 \<and> (\<forall>e \<in> set es. ce_cost e \<le> foldr (\<lambda>e. max (ce_cost e)) es 0)"
    for es by (induction es) auto
  then show "0 \<le> largest_cost inp" "e \<in> set (in_edges inp) \<Longrightarrow> ce_cost e \<le> largest_cost inp"
    by (auto simp: largest_cost_def)
qed

lemma build_network_weights:
  assumes ok: "pin_input_ok inp" and e: "edge_at (build_network inp) x j"
  shows "\<bar>weight (build_network inp) x j\<bar> \<le> largest_cost inp"
    "0 < capacity (build_network inp ! x ! j) \<Longrightarrow> 0 \<le> weight (build_network inp) x j"
proof -
  let ?g = "build_network inp"
  have x: "x < sink_node inp + 1" using e by (simp add: edge_at_def)
  have m: "edge_view (?g ! x ! j) \<in> set (row ?g x)" using e by (auto simp: row_def edge_at_def)
  have "\<forall>(v, c, w) \<in> set (row ?g x). \<bar>w\<bar> \<le> largest_cost inp \<and> (0 < c \<longrightarrow> 0 \<le> w)"
    unfolding build_network_row [OF ok x]
    using edge_range(3) [OF ok] largest_cost_ge(2) [where inp = inp] largest_cost_ge(1) [where inp = inp]
    by (auto split: if_splits)
  with m show "\<bar>weight ?g x j\<bar> \<le> largest_cost inp" "0 < capacity (?g ! x ! j) \<Longrightarrow> 0 \<le> weight ?g x j"
    by (auto simp: edge_view_def)
qed

lemma build_search_pre:
  assumes ok: "pin_input_ok inp" and range: "costs_in_range inp"
  shows "search_pre (build_network inp) (\<lambda>_. 0) 0 (largest_cost inp)"
proof -
  let ?N = "int (sink_node inp + 1) * largest_cost inp"
  have "1 \<le> int (length (in_demands inp))" using ok by (auto simp: pin_input_ok_def Suc_le_eq)
  moreover have "0 \<le> ?N" using largest_cost_ge by simp
  ultimately have "?N \<le> int (length (in_demands inp)) * ?N" by (simp add: mult_le_cancel_right1)
  then have "?N < flow_infinity" using range unfolding costs_in_range_def by linarith
  then show ?thesis
    using build_network_ok [OF ok] build_network_weights [OF ok] largest_cost_ge(1) [where inp = inp]
    by (auto simp: search_pre_def potential_def cost_bound_def residual_def)
qed

lemma same_pairs_unit:
  assumes "same_pairs g h" "unit_pairs g" "shape h = shape g"
  shows "unit_pairs h"
  using assms shape_eqD(3) [OF assms(3)] by (simp add: same_pairs_def unit_pairs_def)

lemma flow_state_bound:
  assumes "pin_input_ok inp" "flow_state (build_network inp) 0 (sink_node inp) C flow spent g"
  shows "bound_network inp flow g" "residual_cost g = residual_cost (build_network inp) - 2 * spent"
    "\<exists>p. search_pre g p 0 C"
  using assms same_pairs_unit build_network_ok [OF assms(1)]
  by (auto simp: flow_state_def bound_network_def search_pre_def)

lemma sorted_by_fst: "sorted_wrt (<) (map fst A) \<Longrightarrow> sorted (A :: ('a::linorder \<times> 'b::linorder) list)"
  by (induction A) (auto simp: less_eq_prod_def)

text \<open>
  The solver ends. It returns a complete assignment of least total cost, with that cost, when there is
  a complete assignment, and reports an error otherwise.
\<close>

definition solver_contract :: "pin_input \<Rightarrow> pin_error + (int \<times> (nat \<times> nat \<times> int) list) \<Rightarrow> bool" where
  "solver_contract inp r \<longleftrightarrow> (case r of
      Inr (spent, A) \<Rightarrow> complete_assignment inp A \<and> spent = assignment_cost A \<and>
        (\<forall>B. complete_assignment inp B \<longrightarrow> assignment_cost A \<le> assignment_cost B)
    | Inl e \<Rightarrow> e = No_assignment \<and> \<not> (\<exists>B. complete_assignment inp B))"

lemma bind_pins_contract:
  assumes ok: "pin_input_ok inp" and range: "costs_in_range inp"
  shows "\<exists>r. bind_pins inp = Some r \<and> solver_contract inp r"
proof -
  let ?g = "build_network inp" and ?C = "largest_cost inp" and ?k = "sink_node inp"
    and ?D = "length (in_demands inp)"
  have pre: "search_pre ?g (\<lambda>_. 0) 0 ?C" by (rule build_search_pre [OF ok range])
  have st: "flow_state ?g 0 ?k ?C 0 0 ?g" using pre by (auto simp: flow_state_def same_pairs_def)
  have k: "?k < length ?g" by simp
  have goal: "int ?D * (int (length ?g) * ?C) \<le> INT64_MAX"
    using range by (simp add: costs_in_range_def flow_infinity_def INT64_MAX_def)
  obtain flow spent g where run: "flow_loop 0 ?k ?D 0 0 ?g = Some (Inr (flow, spent, g))"
    and fin: "flow_state ?g 0 ?k ?C flow spent g" "flow \<le> ?D" "flow = ?D \<or> cut_off g 0 ?k ?C"
    using flow_loop_ends [OF st k _ goal] by blast
  note b = flow_state_bound [OF ok fin(1)]
  show ?thesis
  proof (cases "flow = ?D")
    case True
    then have bD: "bound_network inp ?D g" using b(1) by simp
    obtain p where "search_pre g p 0 ?C" using b(3) by blast
    then have pot: "potential g p" by (simp add: search_pre_def)
    let ?A = "assignment_of inp g"
    have comp: "complete_assignment inp ?A" using assignment_of_complete [OF bD] by blast
    then have "sorted ?A" by (intro sorted_by_fst) (simp add: complete_assignment_def)
    then have "sort ?A = ?A" by (rule sorted_sort_id)
    moreover have "length ?A = ?D" using complete_assignmentD(1) [OF comp] .
    ultimately have "bind_pins inp = Some (Inr (spent, ?A))"
      using run True by (simp add: bind_pins_def solve_def assignment_of_def)
    moreover have "solver_contract inp (Inr (spent, ?A))"
      using comp spent_is_cost [OF bD b(2)] bound_network_optimal [OF bD pot]
      by (simp add: solver_contract_def)
    ultimately show ?thesis by blast
  next
    case False
    then have "bind_pins inp = Some (Inl No_assignment)" using run by (simp add: bind_pins_def solve_def)
    moreover have "solver_contract inp (Inl No_assignment)"
      using no_assignment [OF b(1)] fin(2,3) False by (auto simp: solver_contract_def)
    ultimately show ?thesis by blast
  qed
qed

lemma read_input_ok: "read_input rs = Inr inp \<Longrightarrow> pin_input_ok inp"
  using check_input_ok(1) by (auto simp: read_input_def split: sum.splits)

end
