(* ===== verification/Route_Check.thy ===== *)
theory Route_Check
  imports Main
begin

text \<open>
  The core check of a routed design (\<open>src/native/vpr_route_checker.cpp\<close>): the routing-resource graph is
  read and checked, then the route file is checked against it line by line. The model starts from
  classified lines: which pattern a line of text matches, and the numbers in it, are the input
  (\<open>std::regex\<close>, \<open>attribute\<close> and \<open>std::stoull\<close> are not modelled, a line on which they fail is \<open>Rr_bad\<close>,
  \<open>Bad_node\<close> or \<open>Other_line\<close>). The size of the node table is computed in 32 bits, as the code does.
\<close>

section \<open>The routing-resource graph\<close>

record rr_node =
  rr_capacity :: nat
  rr_type :: string
  rr_xlow :: int
  rr_ylow :: int
  rr_xhigh :: int
  rr_yhigh :: int
  rr_layer_low :: int
  rr_layer_high :: int
  rr_ptc :: int

record rr_edge =
  rr_src :: nat
  rr_sink :: nat
  rr_switch :: nat

text \<open>A node that is not \<open>present\<close> is \<^const>\<open>None\<close>; the hashed edge set is a list without repetitions.\<close>

record rr_graph =
  rr_nodes :: "rr_node option list"
  rr_edges :: "rr_edge list"
  grid_width :: nat
  grid_height :: nat

datatype rr_line =
    Rr_node nat rr_node
  | Rr_edge rr_edge
  | Rr_grid int int
  | Rr_bad
  | Rr_other

datatype route_fault =
    Conversion
  | Duplicate_rr_node
  | Zero_capacity
  | Duplicate_rr_edge
  | Negative_grid
  | Empty_rr_graph
  | Nodes_not_dense
  | Unknown_edge_end
  | Undefined_behaviour
  | Empty_route_file
  | Placement_header_fault
  | No_array_header
  | Array_header_fault
  | Width_mismatch
  | Height_mismatch
  | Duplicate_net
  | Outside_net
  | Global_endpoint
  | Net_content
  | Malformed_node
  | Unknown_node
  | Type_mismatch
  | Place_mismatch
  | First_not_source
  | Bad_restart
  | Negative_switch
  | No_rr_edge
  | Over_capacity
  | Sink_without_pin
  | Duplicate_pin
  | Pin_on_other
  | No_route_nodes
  | End_not_sink
  | No_sink
  | No_nets

datatype route_stop = In_line nat route_fault | In_file route_fault

definition next_size :: "nat \<Rightarrow> nat" where
  "next_size i = (i + 1) mod 2 ^ 32"

definition fits_u32 :: "nat \<Rightarrow> bool" where
  "fits_u32 i \<longleftrightarrow> i < 2 ^ 32"

lemma next_size_code [code]: "next_size i = nat ((int i + 1) mod 4294967296)"
proof -
  have "(int i + 1) mod 4294967296 = int (next_size i)" by (simp add: next_size_def zmod_int add.commute)
  then show ?thesis by simp
qed

lemma fits_u32_code [code]: "fits_u32 i \<longleftrightarrow> int i < 4294967296"
  by (simp add: fits_u32_def)

definition resize :: "nat \<Rightarrow> 'a \<Rightarrow> 'a list \<Rightarrow> 'a list" where
  "resize n a xs = take n xs @ replicate (n - length xs) a"

text \<open>
  \<open>nodes.resize(id + 1)\<close>: the sum is a 32-bit one. An index past the table is undefined behaviour.
\<close>

definition rr_add_node :: "nat \<Rightarrow> rr_node \<Rightarrow> rr_graph \<Rightarrow> route_fault + rr_graph" where
  "rr_add_node i node g =
    (let nodes = (if i \<ge> length (rr_nodes g) then resize (next_size i) None (rr_nodes g) else rr_nodes g) in
     if i \<ge> length nodes then Inl Undefined_behaviour
     else if nodes ! i \<noteq> None then Inl Duplicate_rr_node
     else if rr_capacity node = 0 then Inl Zero_capacity
     else Inr (g\<lparr>rr_nodes := nodes[i := Some node]\<rparr>))"

definition rr_add_edge :: "rr_edge \<Rightarrow> rr_graph \<Rightarrow> route_fault + rr_graph" where
  "rr_add_edge e g =
    (if e \<in> set (rr_edges g) then Inl Duplicate_rr_edge
     else Inr (g\<lparr>rr_edges := rr_edges g @ [e]\<rparr>))"

text \<open>\<open>x + 1\<close> is a sum of \<open>int\<close>: past the largest one it is undefined.\<close>

definition rr_add_grid :: "int \<Rightarrow> int \<Rightarrow> rr_graph \<Rightarrow> route_fault + rr_graph" where
  "rr_add_grid x y g =
    (if x < 0 \<or> y < 0 then Inl Negative_grid
     else if x + 1 > 2147483647 \<or> y + 1 > 2147483647 then Inl Undefined_behaviour
     else Inr (g\<lparr>grid_width := max (grid_width g) (nat (x + 1)),
                 grid_height := max (grid_height g) (nat (y + 1))\<rparr>))"

fun read_rr_line :: "rr_line \<Rightarrow> rr_graph \<Rightarrow> route_fault + rr_graph" where
  "read_rr_line (Rr_node i node) g = rr_add_node i node g"
| "read_rr_line (Rr_edge e) g = rr_add_edge e g"
| "read_rr_line (Rr_grid x y) g = rr_add_grid x y g"
| "read_rr_line Rr_bad g = Inl Conversion"
| "read_rr_line Rr_other g = Inr g"

fun read_rr_lines :: "nat \<Rightarrow> rr_line list \<Rightarrow> rr_graph \<Rightarrow> route_stop + rr_graph" where
  "read_rr_lines n [] g = Inr g"
| "read_rr_lines n (l # ls) g =
    (case read_rr_line l g of Inl e \<Rightarrow> Inl (In_line (n + 1) e) | Inr g' \<Rightarrow> read_rr_lines (n + 1) ls g')"

definition check_rr_graph :: "rr_graph \<Rightarrow> route_stop + rr_graph" where
  "check_rr_graph g =
    (if rr_nodes g = [] \<or> rr_edges g = [] then Inl (In_file Empty_rr_graph)
     else if None \<in> set (rr_nodes g) then Inl (In_file Nodes_not_dense)
     else if \<exists>e \<in> set (rr_edges g). rr_src e \<ge> length (rr_nodes g) \<or> rr_sink e \<ge> length (rr_nodes g)
     then Inl (In_file Unknown_edge_end)
     else Inr g)"

definition empty_rr_graph :: rr_graph where
  "empty_rr_graph = \<lparr>rr_nodes = [], rr_edges = [], grid_width = 0, grid_height = 0\<rparr>"

definition read_rr_graph :: "rr_line list \<Rightarrow> route_stop + rr_graph" where
  "read_rr_graph ls =
    (case read_rr_lines 0 ls empty_rr_graph of Inl e \<Rightarrow> Inl e | Inr g \<Rightarrow> check_rr_graph g)"

section \<open>The route file\<close>

record parsed_node =
  pn_id :: nat
  pn_type :: string
  pn_xlow :: int
  pn_ylow :: int
  pn_layer_low :: int
  pn_xhigh :: int
  pn_yhigh :: int
  pn_layer_high :: int
  pn_ptc :: int
  pn_switch :: int
  pn_pin :: int

datatype route_line =
    Placement_header string string
  | Array_header nat nat
  | Blank_line
  | Net_header nat string bool
  | Block_line
  | Local_line
  | Node_line parsed_node
  | Bad_node
  | Comment_line
  | Other_line

record route_net =
  net_id :: nat
  net_name :: string
  net_global :: bool
  net_local :: bool
  net_nodes :: nat
  net_sinks :: nat
  net_endpoints :: nat

text \<open>
  The locals of \<open>check_route\<close>. \<open>current\<close> points to the last element of \<open>nets\<close> or is null
  (\<open>open_net\<close> is \<^const>\<open>False\<close>); \<open>have_previous\<close> and \<open>previous\<close> are one option.
\<close>

record checker =
  nets :: "route_net list"
  open_net :: bool
  route_nodes :: nat
  route_edges :: nat
  branch_restarts :: nat
  max_occupancy :: nat
  max_capacity :: nat
  occupancy :: "nat list"
  net_ids :: "nat list"
  current_nodes :: "nat list"
  sink_pins :: "int list"
  previous :: "parsed_node option"

definition update_net :: "(route_net \<Rightarrow> route_net) \<Rightarrow> checker \<Rightarrow> checker" where
  "update_net f s = s\<lparr>nets := butlast (nets s) @ [f (last (nets s))]\<rparr>"

definition finish_net :: "checker \<Rightarrow> route_fault + checker" where
  "finish_net s =
    (if \<not> open_net s then Inr s
     else let current = last (nets s);
              closed = s\<lparr>open_net := False, current_nodes := [], sink_pins := [], previous := None\<rparr> in
       if \<not> net_global current \<and> \<not> net_local current then
         (if net_nodes current = 0 then Inl No_route_nodes
          else case previous s of None \<Rightarrow> Inl End_not_sink
            | Some p \<Rightarrow> if pn_type p \<noteq> ''SINK'' then Inl End_not_sink
                        else if net_sinks current = 0 then Inl No_sink else Inr closed)
       else Inr closed)"

definition validate_node :: "parsed_node \<Rightarrow> rr_node \<Rightarrow> route_fault option" where
  "validate_node routed rr =
    (if pn_type routed \<noteq> rr_type rr then Some Type_mismatch
     else if pn_xlow routed \<noteq> rr_xlow rr \<or> pn_ylow routed \<noteq> rr_ylow rr \<or>
       pn_xhigh routed \<noteq> rr_xhigh rr \<or> pn_yhigh routed \<noteq> rr_yhigh rr \<or>
       pn_layer_low routed \<noteq> rr_layer_low rr \<or> pn_layer_high routed \<noteq> rr_layer_high rr \<or>
       pn_ptc routed \<noteq> rr_ptc rr then Some Place_mismatch
     else None)"

definition open_header :: "nat \<Rightarrow> string \<Rightarrow> bool \<Rightarrow> checker \<Rightarrow> route_fault + checker" where
  "open_header i name glob s =
    (case finish_net s of Inl e \<Rightarrow> Inl e
     | Inr s \<Rightarrow>
       if \<not> fits_u32 i then Inl Conversion
       else if i \<in> set (net_ids s) then Inl Duplicate_net
       else Inr (s\<lparr>net_ids := i # net_ids s, open_net := True,
              nets := nets s @ [\<lparr>net_id = i, net_name = name, net_global = glob, net_local = False,
                net_nodes = 0, net_sinks = 0, net_endpoints = 0\<rparr>]\<rparr>))"

text \<open>A node follows the previous one over an edge, or restarts at a node of the net after a \<open>SINK\<close>.\<close>

definition connect_node :: "rr_graph \<Rightarrow> parsed_node \<Rightarrow> checker \<Rightarrow> route_fault + checker" where
  "connect_node g routed s =
    (case previous s of None \<Rightarrow> Inr s
     | Some p \<Rightarrow>
       if pn_type p = ''SINK'' then
         (if pn_id routed \<notin> set (current_nodes s) then Inl Bad_restart
          else Inr (s\<lparr>branch_restarts := branch_restarts s + 1\<rparr>))
       else if pn_switch p < 0 then Inl Negative_switch
       else if \<lparr>rr_src = pn_id p, rr_sink = pn_id routed, rr_switch = nat (pn_switch p)\<rparr> \<notin> set (rr_edges g)
       then Inl No_rr_edge
       else Inr (s\<lparr>route_edges := route_edges s + 1\<rparr>))"

definition count_node :: "rr_graph \<Rightarrow> nat \<Rightarrow> checker \<Rightarrow> route_fault + checker" where
  "count_node g i s =
    (if i \<in> set (current_nodes s) then Inr s
     else let used = occupancy s ! i + 1; capacity = rr_capacity (the (rr_nodes g ! i));
              s = s\<lparr>current_nodes := i # current_nodes s, occupancy := (occupancy s)[i := used],
                    max_occupancy := max (max_occupancy s) used, max_capacity := max (max_capacity s) capacity\<rparr>
       in if used > capacity then Inl Over_capacity else Inr s)"

definition check_pin :: "parsed_node \<Rightarrow> checker \<Rightarrow> route_fault + checker" where
  "check_pin routed s =
    (if pn_type routed = ''SINK'' then
       (if pn_pin routed < 0 then Inl Sink_without_pin
        else if pn_pin routed \<in> set (sink_pins s) then Inl Duplicate_pin
        else Inr (update_net (\<lambda>n. n\<lparr>net_sinks := net_sinks n + 1\<rparr>)
               (s\<lparr>sink_pins := pn_pin routed # sink_pins s\<rparr>)))
     else if pn_pin routed \<ge> 0 then Inl Pin_on_other
     else Inr s)"

definition and_then :: "'e + 'a \<Rightarrow> ('a \<Rightarrow> 'e + 'b) \<Rightarrow> 'e + 'b" where
  "and_then r f = (case r of Inl e \<Rightarrow> Inl e | Inr a \<Rightarrow> f a)"

definition add_route_node :: "rr_graph \<Rightarrow> parsed_node \<Rightarrow> checker \<Rightarrow> route_fault + checker" where
  "add_route_node g routed s =
    (if pn_id routed \<ge> length (rr_nodes g) then Inl Unknown_node
     else case validate_node routed (the (rr_nodes g ! pn_id routed)) of
       Some e \<Rightarrow> Inl e
     | None \<Rightarrow>
       if net_nodes (last (nets s)) = 0 \<and> pn_type routed \<noteq> ''SOURCE'' then Inl First_not_source
       else and_then (connect_node g routed s) (\<lambda>s.
         and_then (count_node g (pn_id routed) s) (\<lambda>s.
         and_then (check_pin routed s) (\<lambda>s.
         Inr (update_net (\<lambda>n. n\<lparr>net_nodes := net_nodes n + 1\<rparr>)
           (s\<lparr>route_nodes := route_nodes s + 1, previous := Some routed\<rparr>))))))"

definition check_content :: "rr_graph \<Rightarrow> route_line \<Rightarrow> checker \<Rightarrow> route_fault + checker" where
  "check_content g l s =
    (if \<not> open_net s then (if l = Comment_line then Inr s else Inl Outside_net)
     else if net_global (last (nets s)) then
       (if l = Block_line then Inr (update_net (\<lambda>n. n\<lparr>net_endpoints := net_endpoints n + 1\<rparr>) s)
        else Inl Global_endpoint)
     else case l of
       Local_line \<Rightarrow> Inr (update_net (\<lambda>n. n\<lparr>net_local := True\<rparr>) s)
     | Node_line routed \<Rightarrow> add_route_node g routed s
     | Bad_node \<Rightarrow> Inl Malformed_node
     | Comment_line \<Rightarrow> Inr s
     | _ \<Rightarrow> Inl Net_content)"

definition check_line :: "rr_graph \<Rightarrow> route_line \<Rightarrow> checker \<Rightarrow> route_fault + checker" where
  "check_line g l s =
    (case l of
       Blank_line \<Rightarrow> Inr s
     | Net_header i name glob \<Rightarrow> open_header i name glob s
     | _ \<Rightarrow> check_content g l s)"

fun check_lines :: "rr_graph \<Rightarrow> nat \<Rightarrow> route_line list \<Rightarrow> checker \<Rightarrow> route_stop + checker" where
  "check_lines g n [] s = Inr s"
| "check_lines g n (l # ls) s =
    (case check_line g l s of Inl e \<Rightarrow> Inl (In_line (n + 1) e) | Inr s' \<Rightarrow> check_lines g (n + 1) ls s')"

definition check_start :: "rr_graph \<Rightarrow> checker" where
  "check_start g = \<lparr>nets = [], open_net = False, route_nodes = 0, route_edges = 0, branch_restarts = 0,
     max_occupancy = 0, max_capacity = 0, occupancy = replicate (length (rr_nodes g)) 0, net_ids = [],
     current_nodes = [], sink_pins = [], previous = None\<rparr>"

definition check_body :: "rr_graph \<Rightarrow> route_line list \<Rightarrow> route_stop + checker" where
  "check_body g ls =
    (case check_lines g 2 ls (check_start g) of Inl e \<Rightarrow> Inl e
     | Inr s \<Rightarrow> (case finish_net s of Inl e \<Rightarrow> Inl (In_file e)
       | Inr s \<Rightarrow> if nets s = [] then Inl (In_file No_nets) else Inr s))"

definition check_route :: "rr_graph \<Rightarrow> route_line list \<Rightarrow> route_stop + (string \<times> string \<times> nat \<times> nat \<times> checker)" where
  "check_route g ls = (case ls of
      [] \<Rightarrow> Inl (In_file Empty_route_file)
    | l # ls \<Rightarrow> (case l of
        Placement_header file place \<Rightarrow> (case ls of
          [] \<Rightarrow> Inl (In_file No_array_header)
        | l # ls \<Rightarrow> (case l of
            Array_header w h \<Rightarrow>
              (if \<not> fits_u32 w \<or> \<not> fits_u32 h then Inl (In_file Conversion)
               else if grid_width g \<noteq> 0 \<and> w \<noteq> grid_width g then Inl (In_file Width_mismatch)
               else if grid_height g \<noteq> 0 \<and> h \<noteq> grid_height g then Inl (In_file Height_mismatch)
               else case check_body g ls of Inl e \<Rightarrow> Inl e | Inr s \<Rightarrow> Inr (file, place, w, h, s))
          | _ \<Rightarrow> Inl (In_file Array_header_fault)))
      | _ \<Rightarrow> Inl (In_file Placement_header_fault)))"

definition route_checker :: "route_line list \<Rightarrow> rr_line list \<Rightarrow> route_stop + (string \<times> string \<times> nat \<times> nat \<times> checker)" where
  "route_checker route rr = (case read_rr_graph rr of Inl e \<Rightarrow> Inl e | Inr g \<Rightarrow> check_route g route)"

end
