(* ===== verification/Route_Legal.thy ===== *)
theory Route_Legal
  imports Route_Check
begin

text \<open>
  What an accepted route file is (\<open>src/native/vpr_route_checker.cpp\<close>): the file is a sequence of net
  blocks, and legality is a property of the blocks and of how many of them use a node. The line-by-line
  checker accepts exactly the legal files, and its counters are those of the blocks.
\<close>

section \<open>Blocks of a route file\<close>

record route_block =
  b_id :: nat
  b_name :: string
  b_global :: bool
  b_body :: "route_line list"

fun add_line :: "route_line \<Rightarrow> route_block list \<Rightarrow> route_block list" where
  "add_line Blank_line bs = bs"
| "add_line (Net_header i name glob) bs =
    bs @ [\<lparr>b_id = i, b_name = name, b_global = glob, b_body = []\<rparr>]"
| "add_line l bs = (if bs = [] then [] else butlast bs @ [(last bs)\<lparr>b_body := b_body (last bs) @ [l]\<rparr>])"

definition blocks_of :: "route_line list \<Rightarrow> route_block list" where
  "blocks_of ls = fold add_line ls []"

fun line_nodes :: "route_line \<Rightarrow> parsed_node list" where
  "line_nodes (Node_line n) = [n]"
| "line_nodes _ = []"

definition block_nodes :: "route_block \<Rightarrow> parsed_node list" where
  "block_nodes b = concat (map line_nodes (b_body b))"

definition block_ids :: "route_block \<Rightarrow> nat set" where
  "block_ids b = pn_id ` set (block_nodes b)"

section \<open>Legality\<close>

abbreviation is_sink :: "parsed_node \<Rightarrow> bool" where
  "is_sink n \<equiv> pn_type n = ''SINK''"

definition node_matches :: "rr_graph \<Rightarrow> parsed_node \<Rightarrow> bool" where
  "node_matches g n \<longleftrightarrow> pn_id n < length (rr_nodes g) \<and>
     (let rr = the (rr_nodes g ! pn_id n) in
      pn_type n = rr_type rr \<and> pn_xlow n = rr_xlow rr \<and> pn_ylow n = rr_ylow rr \<and>
      pn_xhigh n = rr_xhigh rr \<and> pn_yhigh n = rr_yhigh rr \<and> pn_layer_low n = rr_layer_low rr \<and>
      pn_layer_high n = rr_layer_high rr \<and> pn_ptc n = rr_ptc rr)"

definition rr_step :: "rr_graph \<Rightarrow> parsed_node \<Rightarrow> parsed_node \<Rightarrow> bool" where
  "rr_step g p n \<longleftrightarrow> 0 \<le> pn_switch p \<and>
     \<lparr>rr_src = pn_id p, rr_sink = pn_id n, rr_switch = nat (pn_switch p)\<rparr> \<in> set (rr_edges g)"

text \<open>Node \<open>n\<close> may follow the nodes \<open>ns\<close> of its net.\<close>

definition may_follow :: "rr_graph \<Rightarrow> parsed_node list \<Rightarrow> parsed_node \<Rightarrow> bool" where
  "may_follow g ns n \<longleftrightarrow>
     (if ns = [] then pn_type n = ''SOURCE''
      else if is_sink (last ns) then pn_id n \<in> pn_id ` set ns
      else rr_step g (last ns) n)"

definition legal_nodes :: "rr_graph \<Rightarrow> parsed_node list \<Rightarrow> bool" where
  "legal_nodes g ns \<longleftrightarrow>
     (\<forall>n \<in> set ns. node_matches g n \<and> (is_sink n \<longleftrightarrow> 0 \<le> pn_pin n)) \<and>
     (\<forall>i < length ns. may_follow g (take i ns) (ns ! i)) \<and>
     distinct (map pn_pin (filter is_sink ns))"

definition block_lines_ok :: "route_block \<Rightarrow> bool" where
  "block_lines_ok b \<longleftrightarrow>
     (\<forall>l \<in> set (b_body b). if b_global b then l = Block_line
        else l = Local_line \<or> l = Comment_line \<or> line_nodes l \<noteq> [])"

definition block_ended :: "route_block \<Rightarrow> bool" where
  "block_ended b \<longleftrightarrow> b_global b \<or> Local_line \<in> set (b_body b) \<or>
     block_nodes b \<noteq> [] \<and> is_sink (last (block_nodes b))"

definition block_legal :: "rr_graph \<Rightarrow> route_block \<Rightarrow> bool" where
  "block_legal g b \<longleftrightarrow> fits_u32 (b_id b) \<and> block_lines_ok b \<and> legal_nodes g (block_nodes b)"

definition load :: "route_block list \<Rightarrow> nat \<Rightarrow> nat" where
  "load bs v = length (filter (\<lambda>b. v \<in> block_ids b) bs)"

definition legal_blocks :: "rr_graph \<Rightarrow> route_block list \<Rightarrow> bool" where
  "legal_blocks g bs \<longleftrightarrow> (\<forall>b \<in> set bs. block_legal g b) \<and> distinct (map b_id bs) \<and>
     (\<forall>b \<in> set (butlast bs). block_ended b) \<and>
     (\<forall>v < length (rr_nodes g). load bs v \<le> rr_capacity (the (rr_nodes g ! v)))"

fun is_header :: "route_line \<Rightarrow> bool" where
  "is_header (Net_header i name glob) = True"
| "is_header _ = False"

definition route_legal :: "rr_graph \<Rightarrow> route_line list \<Rightarrow> bool" where
  "route_legal g ls \<longleftrightarrow> blocks_of ls \<noteq> [] \<and> legal_blocks g (blocks_of ls) \<and>
     block_ended (last (blocks_of ls)) \<and>
     (\<forall>l \<in> set (takeWhile (\<lambda>l. \<not> is_header l) ls). l = Blank_line \<or> l = Comment_line)"

section \<open>The counters as functions of the blocks\<close>

definition net_of :: "route_block \<Rightarrow> route_net" where
  "net_of b = \<lparr>net_id = b_id b, net_name = b_name b, net_global = b_global b,
     net_local = (Local_line \<in> set (b_body b)), net_nodes = length (block_nodes b),
     net_sinks = length (filter is_sink (block_nodes b)),
     net_endpoints = length (filter (\<lambda>l. l = Block_line) (b_body b))\<rparr>"

definition edges_in :: "parsed_node list \<Rightarrow> nat" where
  "edges_in ns = length (filter (\<lambda>n. \<not> is_sink n) (butlast ns))"

definition restarts_in :: "parsed_node list \<Rightarrow> nat" where
  "restarts_in ns = length (filter is_sink (butlast ns))"

definition used_ids :: "route_block list \<Rightarrow> nat set" where
  "used_ids bs = \<Union> (block_ids ` set bs)"

definition counters_of :: "rr_graph \<Rightarrow> route_block list \<Rightarrow> checker \<Rightarrow> bool" where
  "counters_of g bs s \<longleftrightarrow> nets s = map net_of bs \<and>
     route_nodes s = (\<Sum>b \<leftarrow> bs. length (block_nodes b)) \<and>
     route_edges s = (\<Sum>b \<leftarrow> bs. edges_in (block_nodes b)) \<and>
     branch_restarts s = (\<Sum>b \<leftarrow> bs. restarts_in (block_nodes b)) \<and>
     occupancy s = map (load bs) [0..<length (rr_nodes g)] \<and>
     max_occupancy s = Max (insert 0 (load bs ` {..<length (rr_nodes g)})) \<and>
     max_capacity s = Max (insert 0 ((\<lambda>v. rr_capacity (the (rr_nodes g ! v))) ` used_ids bs))"

definition tracks :: "rr_graph \<Rightarrow> route_block list \<Rightarrow> checker \<Rightarrow> bool" where
  "tracks g bs s \<longleftrightarrow> counters_of g bs s \<and> set (net_ids s) = b_id ` set bs \<and>
     (open_net s \<longleftrightarrow> bs \<noteq> []) \<and>
     (let ns = (if bs = [] then [] else block_nodes (last bs)) in
      set (current_nodes s) = pn_id ` set ns \<and> set (sink_pins s) = pn_pin ` set (filter is_sink ns) \<and>
      previous s = (if ns = [] then None else Some (last ns)))"

section \<open>One line at a time\<close>

lemma block_nodes_snoc [simp]: "block_nodes (b\<lparr>b_body := b_body b @ [l]\<rparr>) = block_nodes b @ line_nodes l"
  by (simp add: block_nodes_def)

lemma block_ids_snoc [simp]:
  "block_ids (b\<lparr>b_body := b_body b @ [l]\<rparr>) = block_ids b \<union> pn_id ` set (line_nodes l)"
  by (auto simp: block_ids_def)

lemma load_snoc [simp]: "load (cs @ [b]) v = load cs v + (if v \<in> block_ids b then 1 else 0)"
  by (simp add: load_def)

lemma may_follow_Nil [simp]: "may_follow g [] n \<longleftrightarrow> pn_type n = ''SOURCE''"
  by (simp add: may_follow_def)

lemma all_less_Suc_snoc:
  "(\<forall>i < length (ns @ [n]). P (take i (ns @ [n])) ((ns @ [n]) ! i)) \<longleftrightarrow>
   (\<forall>i < length ns. P (take i ns) (ns ! i)) \<and> P ns n"
  by (auto simp: less_Suc_eq nth_append)

lemma legal_nodes_snoc:
  "legal_nodes g (ns @ [n]) \<longleftrightarrow> legal_nodes g ns \<and> node_matches g n \<and> (is_sink n \<longleftrightarrow> 0 \<le> pn_pin n) \<and>
     may_follow g ns n \<and> (is_sink n \<longrightarrow> pn_pin n \<notin> pn_pin ` set (filter is_sink ns))"
  unfolding legal_nodes_def all_less_Suc_snoc by auto

definition node_fits :: "rr_graph \<Rightarrow> route_block list \<Rightarrow> parsed_node list \<Rightarrow> parsed_node \<Rightarrow> bool" where
  "node_fits g bs ns n \<longleftrightarrow> node_matches g n \<and> (is_sink n \<longleftrightarrow> 0 \<le> pn_pin n) \<and> may_follow g ns n \<and>
     (is_sink n \<longrightarrow> pn_pin n \<notin> pn_pin ` set (filter is_sink ns)) \<and>
     (pn_id n \<notin> pn_id ` set ns \<longrightarrow> load bs (pn_id n) + 1 \<le> rr_capacity (the (rr_nodes g ! pn_id n)))"

definition line_fits :: "rr_graph \<Rightarrow> route_block list \<Rightarrow> route_block \<Rightarrow> route_line \<Rightarrow> bool" where
  "line_fits g bs b l \<longleftrightarrow>
     (if b_global b then l = Block_line else l = Local_line \<or> l = Comment_line \<or> line_nodes l \<noteq> []) \<and>
     (\<forall>n \<in> set (line_nodes l). node_fits g bs (block_nodes b) n)"

lemma line_nodes_cases: "line_nodes l = [] \<or> (\<exists>n. l = Node_line n \<and> line_nodes l = [n])"
  by (cases l) auto

lemma block_lines_snoc:
  "block_lines_ok (b\<lparr>b_body := b_body b @ [l]\<rparr>) \<longleftrightarrow> block_lines_ok b \<and>
     (if b_global b then l = Block_line else l = Local_line \<or> l = Comment_line \<or> line_nodes l \<noteq> [])"
  by (auto simp: block_lines_ok_def)

lemma legal_blocks_snoc:
  "legal_blocks g (cs @ [b]) \<longleftrightarrow> (\<forall>c \<in> set cs. block_legal g c \<and> block_ended c) \<and> block_legal g b \<and>
     distinct (map b_id cs) \<and> b_id b \<notin> b_id ` set cs \<and>
     (\<forall>v < length (rr_nodes g). load (cs @ [b]) v \<le> rr_capacity (the (rr_nodes g ! v)))"
  by (auto simp: legal_blocks_def)

lemma legal_add_line:
  "legal_blocks g (cs @ [b\<lparr>b_body := b_body b @ [l]\<rparr>]) \<longleftrightarrow>
     legal_blocks g (cs @ [b]) \<and> line_fits g (cs @ [b]) b l"
proof -
  let ?b = "b\<lparr>b_body := b_body b @ [l]\<rparr>"
  let ?cap = "\<lambda>v. rr_capacity (the (rr_nodes g ! v))"
  consider "line_nodes l = []" | n where "l = Node_line n" "line_nodes l = [n]"
    using line_nodes_cases by blast
  then show ?thesis
  proof cases
    case 1
    then show ?thesis
      by (auto simp: legal_blocks_snoc block_legal_def block_lines_snoc line_fits_def)
  next
    case 2
    have ids: "block_ids b = pn_id ` set (block_nodes b)" by (simp add: block_ids_def)
    have loads: "(\<forall>v < length (rr_nodes g). load (cs @ [?b]) v \<le> ?cap v) \<longleftrightarrow>
        (\<forall>v < length (rr_nodes g). load (cs @ [b]) v \<le> ?cap v) \<and>
        (pn_id n \<notin> pn_id ` set (block_nodes b) \<longrightarrow> load (cs @ [b]) (pn_id n) + 1 \<le> ?cap (pn_id n))"
      if "pn_id n < length (rr_nodes g)"
      using that 2 ids by (auto split: if_splits)
    have lt: "node_matches g n \<Longrightarrow> pn_id n < length (rr_nodes g)" by (simp add: node_matches_def)
    have lines: "block_lines_ok ?b \<longleftrightarrow> block_lines_ok b \<and> \<not> b_global b"
      using 2 by (simp add: block_lines_snoc)
    have fits: "line_fits g (cs @ [b]) b l \<longleftrightarrow> \<not> b_global b \<and> node_fits g (cs @ [b]) (block_nodes b) n"
      using 2 by (simp add: line_fits_def)
    have nodes: "legal_nodes g (block_nodes ?b) \<longleftrightarrow> legal_nodes g (block_nodes b) \<and> node_matches g n \<and>
        (is_sink n \<longleftrightarrow> 0 \<le> pn_pin n) \<and> may_follow g (block_nodes b) n \<and>
        (is_sink n \<longrightarrow> pn_pin n \<notin> pn_pin ` set (filter is_sink (block_nodes b)))"
      using 2 by (simp add: legal_nodes_snoc)
    show ?thesis
    proof (cases "node_matches g n")
      case True
      show ?thesis
        unfolding legal_blocks_snoc block_legal_def lines nodes fits node_fits_def loads [OF lt [OF True]]
        by simp blast
    next
      case False
      then show ?thesis unfolding legal_blocks_snoc block_legal_def nodes fits node_fits_def by simp
    qed
  qed
qed

lemma legal_add_header:
  "legal_blocks g (bs @ [\<lparr>b_id = i, b_name = name, b_global = glob, b_body = []\<rparr>]) \<longleftrightarrow>
     legal_blocks g bs \<and> fits_u32 i \<and> i \<notin> b_id ` set bs \<and> (bs \<noteq> [] \<longrightarrow> block_ended (last bs))"
proof -
  let ?h = "\<lparr>b_id = i, b_name = name, b_global = glob, b_body = []\<rparr>"
  have new: "block_ids ?h = {}" "block_nodes ?h = []" by (simp_all add: block_ids_def block_nodes_def)
  have legal: "block_legal g ?h \<longleftrightarrow> fits_u32 i"
    by (simp add: block_legal_def block_lines_ok_def new legal_nodes_def)
  have ended: "(\<forall>b \<in> set bs. block_ended b) \<longleftrightarrow>
      (\<forall>b \<in> set (butlast bs). block_ended b) \<and> (bs \<noteq> [] \<longrightarrow> block_ended (last bs))"
    by (cases bs rule: rev_cases) auto
  have "(\<forall>b \<in> set (butlast (bs @ [?h])). block_ended b) \<longleftrightarrow> (\<forall>b \<in> set bs. block_ended b)"
    by (simp add: butlast_append)
  then show ?thesis
    unfolding legal_blocks_def ended load_snoc new by (auto simp: legal)
qed

lemma legal_blocks_mono:
  assumes "legal_blocks g (add_line l bs)"
  shows "legal_blocks g bs"
proof (cases "is_header l")
  case True
  with assms show ?thesis by (cases l) (auto simp: legal_add_header)
next
  case False
  with assms show ?thesis by (cases l; cases bs rule: rev_cases) (auto simp: legal_add_line)
qed

section \<open>The steps of the checker\<close>

lemma tracksD:
  assumes "tracks g (cs @ [b]) s"
  shows "counters_of g (cs @ [b]) s" "open_net s" "set (net_ids s) = b_id ` set (cs @ [b])"
    "set (current_nodes s) = block_ids b" "set (sink_pins s) = pn_pin ` set (filter is_sink (block_nodes b))"
    "previous s = (if block_nodes b = [] then None else Some (last (block_nodes b)))"
    "nets s = map net_of cs @ [net_of b]"
    "occupancy s = map (load (cs @ [b])) [0..<length (rr_nodes g)]"
  using assms by (simp_all add: tracks_def Let_def block_ids_def counters_of_def)

lemma finish_net_tracks:
  assumes "tracks g bs s"
  shows "finish_net s = (if bs = [] then Inr s
    else if block_ended (last bs) then Inr (s\<lparr>open_net := False, current_nodes := [], sink_pins := [], previous := None\<rparr>)
    else if block_nodes (last bs) = [] then Inl No_route_nodes else Inl End_not_sink)"
proof (cases bs rule: rev_cases)
  case Nil
  then show ?thesis using assms by (simp add: finish_net_def tracks_def)
next
  case (snoc cs b)
  note tr = tracksD [OF assms [unfolded snoc]]
  have "filter is_sink (block_nodes b) \<noteq> []" if "block_nodes b \<noteq> []" "is_sink (last (block_nodes b))"
    using that last_in_set [OF that(1)] by (auto simp: filter_empty_conv)
  then show ?thesis using tr snoc
    by (auto simp: finish_net_def Let_def net_of_def block_ended_def)
qed

lemma validate_node_None:
  "pn_id n < length (rr_nodes g) \<Longrightarrow>
   validate_node n (the (rr_nodes g ! pn_id n)) = None \<longleftrightarrow> node_matches g n"
  by (auto simp: validate_node_def node_matches_def Let_def)

lemma connect_node_spec:
  assumes "tracks g (cs @ [b]) s" and ns: "ns = block_nodes b"
  shows "if ns = [] \<or> may_follow g ns n
    then connect_node g n s = Inr (s\<lparr>route_edges := route_edges s + (if ns \<noteq> [] \<and> \<not> is_sink (last ns) then 1 else 0),
        branch_restarts := branch_restarts s + (if ns \<noteq> [] \<and> is_sink (last ns) then 1 else 0)\<rparr>)
    else \<exists>e. connect_node g n s = Inl e"
  using tracksD(4,6) [OF assms(1)] ns
  by (auto simp: connect_node_def may_follow_def rr_step_def block_ids_def)

lemma count_node_spec:
  assumes "set (current_nodes s) = X" "i < length (occupancy s)"
  shows "if i \<notin> X \<longrightarrow> occupancy s ! i + 1 \<le> rr_capacity (the (rr_nodes g ! i))
    then count_node g i s = Inr (s\<lparr>current_nodes := (if i \<in> X then current_nodes s else i # current_nodes s),
        occupancy := (occupancy s)[i := occupancy s ! i + (if i \<in> X then 0 else 1)],
        max_occupancy := max (max_occupancy s) (if i \<in> X then 0 else occupancy s ! i + 1),
        max_capacity := max (max_capacity s) (if i \<in> X then 0 else rr_capacity (the (rr_nodes g ! i)))\<rparr>)
    else \<exists>e. count_node g i s = Inl e"
  using assms by (cases s) (auto simp: count_node_def Let_def)

lemma check_pin_spec:
  assumes "set (sink_pins s) = X"
  shows "if (is_sink n \<longleftrightarrow> 0 \<le> pn_pin n) \<and> (is_sink n \<longrightarrow> pn_pin n \<notin> X)
    then check_pin n s = Inr (s\<lparr>sink_pins := (if is_sink n then pn_pin n # sink_pins s else sink_pins s), nets := (if is_sink n
        then butlast (nets s) @ [last (nets s)\<lparr>net_sinks := net_sinks (last (nets s)) + 1\<rparr>] else nets s)\<rparr>)
    else \<exists>e. check_pin n s = Inl e"
  using assms by (cases s) (auto simp: check_pin_def update_net_def)

lemma Max_bump:
  fixes f :: "nat \<Rightarrow> nat"
  assumes "finite A" "i \<in> A"
  shows "Max (insert 0 ((\<lambda>v. f v + (if v = i then 1 else 0)) ` A)) = max (Max (insert 0 (f ` A))) (f i + 1)"
proof (rule antisym)
  have "f v + (if v = i then 1 else 0) \<le> max (Max (insert 0 (f ` A))) (f i + 1)" if "v \<in> A" for v
  proof (cases "v = i")
    case False
    have "f v \<le> Max (insert 0 (f ` A))" using that assms by (intro Max_ge) auto
    with False show ?thesis by simp
  qed simp
  then have "\<forall>a \<in> insert 0 ((\<lambda>v. f v + (if v = i then 1 else 0)) ` A). a \<le> max (Max (insert 0 (f ` A))) (f i + 1)"
    by blast
  moreover have "finite (insert 0 ((\<lambda>v. f v + (if v = i then 1 else 0)) ` A))" using assms by simp
  ultimately show "Max (insert 0 ((\<lambda>v. f v + (if v = i then 1 else 0)) ` A)) \<le> max (Max (insert 0 (f ` A))) (f i + 1)"
    by (simp only: Max_le_iff insert_not_empty simp_thms)
  have "f v \<le> Max (insert 0 ((\<lambda>v. f v + (if v = i then 1 else 0)) ` A))" if "v \<in> A" for v
  proof -
    have "f v + (if v = i then 1 else 0) \<le> Max (insert 0 ((\<lambda>v. f v + (if v = i then 1 else 0)) ` A))"
      by (rule Max_ge) (use that assms in auto)
    then show ?thesis by (rule add_leD1)
  qed
  moreover have "f i + 1 \<le> Max (insert 0 ((\<lambda>v. f v + (if v = i then 1 else 0)) ` A))"
    using assms by (intro Max_ge) auto
  ultimately show "max (Max (insert 0 (f ` A))) (f i + 1) \<le> Max (insert 0 ((\<lambda>v. f v + (if v = i then 1 else 0)) ` A))"
    using assms by (auto intro!: Max.boundedI)
qed

lemma Max_insert_0: "finite A \<Longrightarrow> Max (insert 0 (insert a A)) = max (Max (insert 0 A)) (a :: nat)"
  by (subst insert_commute) (simp add: max.commute)

lemma edges_in_snoc: "edges_in (ns @ [n]) = edges_in ns + (if ns \<noteq> [] \<and> \<not> is_sink (last ns) then 1 else 0)"
  unfolding edges_in_def butlast_snoc by (cases ns rule: rev_cases) auto

lemma restarts_in_snoc: "restarts_in (ns @ [n]) = restarts_in ns + (if ns \<noteq> [] \<and> is_sink (last ns) then 1 else 0)"
  unfolding restarts_in_def butlast_snoc by (cases ns rule: rev_cases) auto

lemma counters_add_node:
  assumes c: "counters_of g (cs @ [b]) s" and i: "pn_id n < length (rr_nodes g)"
    and ns: "ns = block_nodes b" and X: "X = block_ids b"
    and s': "nets s' = map net_of cs @ [net_of (b\<lparr>b_body := b_body b @ [Node_line n]\<rparr>)]"
      "route_nodes s' = route_nodes s + 1"
      "route_edges s' = route_edges s + (if ns \<noteq> [] \<and> \<not> is_sink (last ns) then 1 else 0)"
      "branch_restarts s' = branch_restarts s + (if ns \<noteq> [] \<and> is_sink (last ns) then 1 else 0)"
      "occupancy s' = (occupancy s)[pn_id n := occupancy s ! pn_id n + (if pn_id n \<in> X then 0 else 1)]"
      "max_occupancy s' = max (max_occupancy s) (if pn_id n \<in> X then 0 else occupancy s ! pn_id n + 1)"
      "max_capacity s' = max (max_capacity s) (if pn_id n \<in> X then 0 else rr_capacity (the (rr_nodes g ! pn_id n)))"
  shows "counters_of g (cs @ [b\<lparr>b_body := b_body b @ [Node_line n]\<rparr>]) s'"
proof -
  let ?b = "b\<lparr>b_body := b_body b @ [Node_line n]\<rparr>" and ?i = "pn_id n" and ?A = "{..<length (rr_nodes g)}"
  let ?cap = "\<lambda>v. rr_capacity (the (rr_nodes g ! v))"
  have load: "load (cs @ [?b]) = (\<lambda>v. load (cs @ [b]) v + (if v = ?i then (if ?i \<in> X then 0 else 1) else 0))"
    unfolding X by (rule ext) auto
  have occ: "occupancy s = map (load (cs @ [b])) [0..<length (rr_nodes g)]" using c by (simp add: counters_of_def)
  have "occupancy s' = map (load (cs @ [?b])) [0..<length (rr_nodes g)]"
    unfolding s'(5) occ by (rule nth_equalityI) (auto simp: load nth_list_update i)
  moreover have "max_occupancy s' = Max (insert 0 (load (cs @ [?b]) ` ?A))"
  proof (cases "?i \<in> X")
    case True
    then show ?thesis using c s'(6) unfolding load by (simp add: counters_of_def)
  next
    case False
    have "Max (insert 0 (load (cs @ [?b]) ` ?A)) = max (Max (insert 0 (load (cs @ [b]) ` ?A))) (load (cs @ [b]) ?i + 1)"
      unfolding load using Max_bump [of ?A ?i "load (cs @ [b])"] i False by simp
    then show ?thesis using c s'(6) False i occ by (simp add: counters_of_def)
  qed
  moreover have "max_capacity s' = Max (insert 0 (?cap ` used_ids (cs @ [?b])))"
  proof -
    have used: "used_ids (cs @ [?b]) = insert ?i (used_ids (cs @ [b]))" by (auto simp: used_ids_def)
    have fin: "finite (used_ids (cs @ [b]))" by (auto simp: used_ids_def block_ids_def)
    have old: "max_capacity s = Max (insert 0 (?cap ` used_ids (cs @ [b])))" using c by (simp add: counters_of_def)
    show ?thesis
    proof (cases "?i \<in> X")
      case True
      then have "insert ?i (used_ids (cs @ [b])) = used_ids (cs @ [b])" by (auto simp: used_ids_def X)
      then show ?thesis using True s'(7) old used by simp
    next
      case False
      have "Max (insert 0 (insert (?cap ?i) (?cap ` used_ids (cs @ [b])))) =
          max (Max (insert 0 (?cap ` used_ids (cs @ [b])))) (?cap ?i)"
        by (rule Max_insert_0) (use fin in simp)
      then show ?thesis unfolding used image_insert s'(7) old using False by simp
    qed
  qed
  moreover have old: "route_nodes s = (\<Sum>b \<leftarrow> cs @ [b]. length (block_nodes b))"
    "route_edges s = (\<Sum>b \<leftarrow> cs @ [b]. edges_in (block_nodes b))"
    "branch_restarts s = (\<Sum>b \<leftarrow> cs @ [b]. restarts_in (block_nodes b))"
    using c unfolding counters_of_def by blast+
  moreover have "route_nodes s' = (\<Sum>b \<leftarrow> cs @ [?b]. length (block_nodes b))"
    "route_edges s' = (\<Sum>b \<leftarrow> cs @ [?b]. edges_in (block_nodes b))"
    "branch_restarts s' = (\<Sum>b \<leftarrow> cs @ [?b]. restarts_in (block_nodes b))"
    unfolding s'(2-4) old ns by (simp_all add: edges_in_snoc restarts_in_snoc)
  moreover have "nets s' = map net_of (cs @ [?b])" unfolding s'(1) by simp
  ultimately show ?thesis unfolding counters_of_def by blast
qed

lemma add_route_node_spec:
  assumes tr: "tracks g (cs @ [b]) s"
  shows "if node_fits g (cs @ [b]) (block_nodes b) n
    then \<exists>s'. add_route_node g n s = Inr s' \<and> tracks g (cs @ [b\<lparr>b_body := b_body b @ [Node_line n]\<rparr>]) s'
    else \<exists>e. add_route_node g n s = Inl e"
proof (cases "node_matches g n")
  case False
  then show ?thesis
    using validate_node_None [of n g] by (auto simp: node_fits_def add_route_node_def split: option.splits)
next
  case True
  let ?ns = "block_nodes b" and ?i = "pn_id n"
  note t = tracksD [OF tr]
  have i: "?i < length (rr_nodes g)" using True by (simp add: node_matches_def)
  have val: "validate_node n (the (rr_nodes g ! ?i)) = None" using True i validate_node_None by blast
  have first: "net_nodes (last (nets s)) = length ?ns" using t(7) by (simp add: net_of_def)
  define s1 where "s1 = s\<lparr>route_edges := route_edges s + (if ?ns \<noteq> [] \<and> \<not> is_sink (last ?ns) then 1 else 0),
    branch_restarts := branch_restarts s + (if ?ns \<noteq> [] \<and> is_sink (last ?ns) then 1 else 0)\<rparr>"
  have conn: "if ?ns = [] \<or> may_follow g ?ns n then connect_node g n s = Inr s1 else \<exists>e. connect_node g n s = Inl e"
    using connect_node_spec [OF tr refl, of n] unfolding s1_def .
  have cur: "set (current_nodes s1) = block_ids b" "?i < length (occupancy s1)"
    using t(4,8) i by (simp_all add: s1_def)
  define s2 where "s2 = s1\<lparr>current_nodes := (if ?i \<in> block_ids b then current_nodes s1 else ?i # current_nodes s1),
        occupancy := (occupancy s1)[?i := occupancy s1 ! ?i + (if ?i \<in> block_ids b then 0 else 1)],
        max_occupancy := max (max_occupancy s1) (if ?i \<in> block_ids b then 0 else occupancy s1 ! ?i + 1),
        max_capacity := max (max_capacity s1) (if ?i \<in> block_ids b then 0 else rr_capacity (the (rr_nodes g ! ?i)))\<rparr>"
  have load: "occupancy s1 ! ?i = load (cs @ [b]) ?i" using t(8) i by (simp add: s1_def)
  have count: "if ?i \<notin> block_ids b \<longrightarrow> load (cs @ [b]) ?i + 1 \<le> rr_capacity (the (rr_nodes g ! ?i))
      then count_node g ?i s1 = Inr s2 else \<exists>e. count_node g ?i s1 = Inl e"
    using count_node_spec [OF cur, of g] unfolding s2_def load .
  have pins: "set (sink_pins s2) = pn_pin ` set (filter is_sink ?ns)" using t(5) by (simp add: s1_def s2_def)
  define s3 where "s3 = s2\<lparr>sink_pins := (if is_sink n then pn_pin n # sink_pins s2 else sink_pins s2), nets := (if is_sink n
        then butlast (nets s2) @ [last (nets s2)\<lparr>net_sinks := net_sinks (last (nets s2)) + 1\<rparr>] else nets s2)\<rparr>"
  have pin: "if (is_sink n \<longleftrightarrow> 0 \<le> pn_pin n) \<and> (is_sink n \<longrightarrow> pn_pin n \<notin> pn_pin ` set (filter is_sink ?ns))
      then check_pin n s2 = Inr s3 else \<exists>e. check_pin n s2 = Inl e"
    using check_pin_spec [OF pins, of n] unfolding s3_def .
  define s4 where "s4 = update_net (\<lambda>n. n\<lparr>net_nodes := net_nodes n + 1\<rparr>)
    (s3\<lparr>route_nodes := route_nodes s3 + 1, previous := Some n\<rparr>)"
  have start: "may_follow g ?ns n \<longleftrightarrow> (?ns = [] \<longrightarrow> pn_type n = ''SOURCE'') \<and> (?ns = [] \<or> may_follow g ?ns n)" by auto
  have res: "if node_fits g (cs @ [b]) ?ns n then add_route_node g n s = Inr s4 else \<exists>e. add_route_node g n s = Inl e"
    using conn count pin i val True first start
    by (auto simp: add_route_node_def node_fits_def and_then_def s4_def block_ids_def split: if_splits)
  have netsE: "nets s4 = map net_of cs @ [net_of (b\<lparr>b_body := b_body b @ [Node_line n]\<rparr>)]"
    using t(7) by (simp add: s4_def s3_def s2_def s1_def update_net_def net_of_def)
  have "counters_of g (cs @ [b\<lparr>b_body := b_body b @ [Node_line n]\<rparr>]) s4"
    by (rule counters_add_node [OF t(1) i refl refl netsE])
      (simp_all add: s4_def s3_def s2_def s1_def update_net_def)
  then have "tracks g (cs @ [b\<lparr>b_body := b_body b @ [Node_line n]\<rparr>]) s4"
    unfolding tracks_def Let_def using t(2-5) cur(1) pins
    by (auto simp: s4_def s3_def s2_def s1_def update_net_def block_ids_def)
  with res show ?thesis by auto
qed

lemma counters_same_nodes:
  assumes "counters_of g (cs @ [b]) s" "line_nodes l = []"
    "nets s' = map net_of cs @ [net_of (b\<lparr>b_body := b_body b @ [l]\<rparr>)]"
    "route_nodes s' = route_nodes s" "route_edges s' = route_edges s" "branch_restarts s' = branch_restarts s"
    "occupancy s' = occupancy s" "max_occupancy s' = max_occupancy s" "max_capacity s' = max_capacity s"
  shows "counters_of g (cs @ [b\<lparr>b_body := b_body b @ [l]\<rparr>]) s'"
proof -
  have "load (cs @ [b\<lparr>b_body := b_body b @ [l]\<rparr>]) = load (cs @ [b])" using assms(2) by (intro ext) simp
  moreover have "used_ids (cs @ [b\<lparr>b_body := b_body b @ [l]\<rparr>]) = used_ids (cs @ [b])"
    using assms(2) by (simp add: used_ids_def)
  ultimately show ?thesis using assms unfolding counters_of_def by simp
qed

lemma update_last_tracks:
  assumes tr: "tracks g (cs @ [b]) s" and l: "line_nodes l = []"
    and f: "f (net_of b) = net_of (b\<lparr>b_body := b_body b @ [l]\<rparr>)"
  shows "tracks g (cs @ [b\<lparr>b_body := b_body b @ [l]\<rparr>]) (update_net f s)"
proof -
  note t = tracksD [OF tr]
  have "counters_of g (cs @ [b\<lparr>b_body := b_body b @ [l]\<rparr>]) (update_net f s)"
    by (rule counters_same_nodes [OF t(1) l]) (use t(7) f in \<open>auto simp: update_net_def\<close>)
  then show ?thesis using t(2-6) l by (simp add: tracks_def Let_def update_net_def block_ids_def)
qed

lemma update_id: "nets s \<noteq> [] \<Longrightarrow> update_net (\<lambda>n. n) s = s"
  by (cases s) (simp add: update_net_def)

lemma check_content_spec:
  assumes tr: "tracks g (cs @ [b]) s"
    and l: "\<not> is_header l" "l \<noteq> Blank_line"
  shows "if line_fits g (cs @ [b]) b l
    then \<exists>s'. check_content g l s = Inr s' \<and> tracks g (cs @ [b\<lparr>b_body := b_body b @ [l]\<rparr>]) s'
    else \<exists>e. check_content g l s = Inl e"
proof -
  note t = tracksD [OF tr]
  have ne: "nets s \<noteq> []" using t(7) by simp
  have glob: "net_global (last (nets s)) = b_global b" using t(7) by (simp add: net_of_def)
  show ?thesis
  proof (cases "b_global b")
    case True
    show ?thesis
    proof (cases "l = Block_line")
      case l: True
      have "tracks g (cs @ [b\<lparr>b_body := b_body b @ [l]\<rparr>])
          (update_net (\<lambda>n. n\<lparr>net_endpoints := net_endpoints n + 1\<rparr>) s)"
        by (rule update_last_tracks [OF tr]) (simp_all add: l net_of_def)
      then show ?thesis using True l t(2) glob by (simp add: check_content_def line_fits_def)
    qed (use True t(2) glob in \<open>simp add: check_content_def line_fits_def\<close>)
  next
    case False
    note rest = False t(2) glob
    show ?thesis
    proof (cases l)
      case Local_line
      have "tracks g (cs @ [b\<lparr>b_body := b_body b @ [l]\<rparr>]) (update_net (\<lambda>n. n\<lparr>net_local := True\<rparr>) s)"
        by (rule update_last_tracks [OF tr]) (simp_all add: Local_line net_of_def)
      then show ?thesis using rest Local_line by (simp add: check_content_def line_fits_def)
    next
      case Comment_line
      have "tracks g (cs @ [b\<lparr>b_body := b_body b @ [l]\<rparr>]) (update_net (\<lambda>n. n) s)"
        by (rule update_last_tracks [OF tr]) (simp_all add: Comment_line net_of_def)
      then show ?thesis using rest Comment_line update_id [OF ne] by (simp add: check_content_def line_fits_def)
    next
      case (Node_line n)
      then show ?thesis using rest add_route_node_spec [OF tr, of n]
        by (simp add: check_content_def line_fits_def)
    qed (use rest l in \<open>auto simp: check_content_def line_fits_def\<close>)
  qed
qed

lemma counters_open:
  assumes "counters_of g bs s" "nets s' = map net_of bs @ [net_of h]" "block_nodes h = []"
    "route_nodes s' = route_nodes s" "route_edges s' = route_edges s" "branch_restarts s' = branch_restarts s"
    "occupancy s' = occupancy s" "max_occupancy s' = max_occupancy s" "max_capacity s' = max_capacity s"
  shows "counters_of g (bs @ [h]) s'"
proof -
  have "block_ids h = {}" using assms(3) by (simp add: block_ids_def)
  then have "load (bs @ [h]) = load bs" "used_ids (bs @ [h]) = used_ids bs"
    by (auto simp: used_ids_def)
  then show ?thesis using assms unfolding counters_of_def by (simp add: edges_in_def restarts_in_def)
qed

lemma open_header_spec:
  assumes tr: "tracks g bs s" and legal: "legal_blocks g bs"
  shows "if legal_blocks g (add_line (Net_header i name glob) bs)
    then \<exists>s'. open_header i name glob s = Inr s' \<and> tracks g (add_line (Net_header i name glob) bs) s'
    else \<exists>e. open_header i name glob s = Inl e"
proof -
  let ?h = "\<lparr>b_id = i, b_name = name, b_global = glob, b_body = []\<rparr>"
  let ?s = "if bs = [] then s else s\<lparr>open_net := False, current_nodes := [], sink_pins := [], previous := None\<rparr>"
  let ?t = "?s\<lparr>net_ids := i # net_ids ?s, open_net := True,
              nets := nets ?s @ [\<lparr>net_id = i, net_name = name, net_global = glob, net_local = False,
                net_nodes = 0, net_sinks = 0, net_endpoints = 0\<rparr>]\<rparr>"
  note fin = finish_net_tracks [OF tr]
  have h: "block_nodes ?h = []" "net_of ?h = \<lparr>net_id = i, net_name = name, net_global = glob, net_local = False,
                net_nodes = 0, net_sinks = 0, net_endpoints = 0\<rparr>"
    by (simp_all add: block_nodes_def net_of_def)
  have ids: "set (net_ids s) = b_id ` set bs" and c: "counters_of g bs s" using tr by (auto simp: tracks_def)
  have "counters_of g (bs @ [?h]) ?t"
    by (rule counters_open [OF c _ h(1)]) (use c h in \<open>auto simp: counters_of_def\<close>)
  then have "tracks g (bs @ [?h]) ?t"
    using ids tr h(1) by (auto simp: tracks_def Let_def)
  moreover have "if fits_u32 i \<and> i \<notin> b_id ` set bs \<and> (bs \<noteq> [] \<longrightarrow> block_ended (last bs))
      then open_header i name glob s = Inr ?t else \<exists>e. open_header i name glob s = Inl e"
    using fin ids by (auto simp: open_header_def)
  ultimately show ?thesis using legal_add_header [of g bs i name glob] legal by auto
qed

lemma check_line_spec:
  assumes tr: "tracks g bs s" and legal: "legal_blocks g bs"
  shows "if legal_blocks g (add_line l bs) \<and> (bs = [] \<longrightarrow> is_header l \<or> l = Blank_line \<or> l = Comment_line)
    then \<exists>s'. check_line g l s = Inr s' \<and> tracks g (add_line l bs) s'
    else \<exists>e. check_line g l s = Inl e"
proof (cases "is_header l \<or> l = Blank_line")
  case True
  show ?thesis
  proof (cases l)
    case (Net_header i name glob)
    then show ?thesis using open_header_spec [OF tr legal, of i name glob]
      by (simp add: check_line_def split: if_splits)
  qed (use True tr legal in \<open>auto simp: check_line_def\<close>)
next
  case False
  then have line: "check_line g l s = check_content g l s" by (cases l) (auto simp: check_line_def)
  show ?thesis
  proof (cases bs rule: rev_cases)
    case Nil
    then have "\<not> open_net s" using tr by (simp add: tracks_def)
    moreover have "add_line Comment_line bs = bs" using Nil by simp
    ultimately show ?thesis using line Nil legal tr False by (auto simp: check_content_def)
  next
    case (snoc cs b)
    have add: "add_line l (cs @ [b]) = cs @ [b\<lparr>b_body := b_body b @ [l]\<rparr>]"
      using False by (cases l) auto
    show ?thesis
      using check_content_spec [OF tr [unfolded snoc], of l] False legal
      unfolding snoc line add legal_add_line by auto
  qed
qed

section \<open>The whole file\<close>

lemma legal_fold_mono: "legal_blocks g (fold add_line ls bs) \<Longrightarrow> legal_blocks g bs"
  by (induction ls arbitrary: bs) (auto dest: legal_blocks_mono)

definition preface_ok :: "route_line list \<Rightarrow> bool" where
  "preface_ok ls \<longleftrightarrow> (\<forall>l \<in> set (takeWhile (\<lambda>l. \<not> is_header l) ls). l = Blank_line \<or> l = Comment_line)"

lemma add_line_Nil: "add_line l bs = [] \<longleftrightarrow> bs = [] \<and> \<not> is_header l"
  by (cases l; cases bs) auto

lemma check_lines_spec:
  assumes "tracks g bs s" "legal_blocks g bs"
  shows "if legal_blocks g (fold add_line ls bs) \<and> (bs = [] \<longrightarrow> preface_ok ls)
    then \<exists>s'. check_lines g n ls s = Inr s' \<and> tracks g (fold add_line ls bs) s'
    else \<exists>e. check_lines g n ls s = Inl e"
  using assms
proof (induction ls arbitrary: bs s n)
  case Nil
  then show ?case by (simp add: preface_ok_def)
next
  case (Cons l ls)
  note step = check_line_spec [OF Cons.prems, of l]
  show ?case
  proof (cases "legal_blocks g (add_line l bs) \<and> (bs = [] \<longrightarrow> is_header l \<or> l = Blank_line \<or> l = Comment_line)")
    case True
    then obtain s1 where s1: "check_line g l s = Inr s1" "tracks g (add_line l bs) s1" using step by auto
    have "(bs = [] \<longrightarrow> preface_ok (l # ls)) \<longleftrightarrow> (add_line l bs = [] \<longrightarrow> preface_ok ls)"
      using True by (auto simp: add_line_Nil preface_ok_def)
    then show ?thesis using Cons.IH [OF s1(2), of "Suc n"] True s1(1) by (simp split: if_splits)
  next
    case False
    then have "\<not> (legal_blocks g (fold add_line (l # ls) bs) \<and> (bs = [] \<longrightarrow> preface_ok (l # ls)))"
      using legal_fold_mono by (auto simp: preface_ok_def)
    moreover obtain e where "check_line g l s = Inl e" using False step by auto
    ultimately show ?thesis by auto
  qed
qed

lemma check_start_tracks: "tracks g [] (check_start g)"
proof -
  have "Max (insert 0 ((\<lambda>_. 0 :: nat) ` {..<k :: nat})) = 0" for k by (rule Max_eqI) auto
  moreover have "map (load []) [0..<k] = replicate k 0" for k by (induction k) (auto simp: load_def replicate_append_same)
  ultimately show ?thesis
    by (simp add: tracks_def counters_of_def check_start_def used_ids_def load_def [abs_def])
qed

theorem check_body_exact:
  "if route_legal g ls then \<exists>s. check_body g ls = Inr s \<and> counters_of g (blocks_of ls) s
   else \<exists>e. check_body g ls = Inl e"
proof -
  let ?bs = "blocks_of ls"
  have legal0: "legal_blocks g []" by (simp add: legal_blocks_def load_def)
  note lines = check_lines_spec [OF check_start_tracks legal0, of ls 2, folded blocks_of_def]
  show ?thesis
  proof (cases "legal_blocks g ?bs \<and> preface_ok ls")
    case False
    then obtain e where "check_lines g 2 ls (check_start g) = Inl e" using lines by (auto split: if_splits)
    moreover have "\<not> route_legal g ls" using False by (auto simp: route_legal_def preface_ok_def)
    ultimately show ?thesis by (simp add: check_body_def)
  next
    case True
    then obtain s where s: "check_lines g 2 ls (check_start g) = Inr s" "tracks g ?bs s"
      using lines by auto
    have c: "counters_of g ?bs s" using s(2) by (simp add: tracks_def)
    then have "nets s = [] \<longleftrightarrow> ?bs = []" by (simp add: counters_of_def)
    moreover have "counters_of g ?bs (s\<lparr>open_net := False, current_nodes := [], sink_pins := [], previous := None\<rparr>)"
      using c by (simp add: counters_of_def)
    moreover have "route_legal g ls \<longleftrightarrow> ?bs \<noteq> [] \<and> block_ended (last ?bs)"
      using True by (auto simp: route_legal_def preface_ok_def)
    ultimately show ?thesis using s(1) finish_net_tracks [OF s(2)] by (auto simp: check_body_def)
  qed
qed

section \<open>Accepted nets are connected from their source\<close>

definition net_rel :: "rr_graph \<Rightarrow> nat set \<Rightarrow> (nat \<times> nat) set" where
  "net_rel g X = {(rr_src e, rr_sink e) |e. e \<in> set (rr_edges g) \<and> rr_src e \<in> X \<and> rr_sink e \<in> X}"

lemma legal_nodes_connected:
  assumes legal: "legal_nodes g ns" and i: "i < length ns"
  shows "(pn_id (hd ns), pn_id (ns ! i)) \<in> (net_rel g (pn_id ` set ns))\<^sup>*"
  using i
proof (induction i rule: less_induct)
  case (less i)
  show ?case
  proof (cases i)
    case 0
    then show ?thesis using less.prems by (simp add: hd_conv_nth)
  next
    case (Suc j)
    have f: "may_follow g (take i ns) (ns ! i)" using legal less.prems by (simp add: legal_nodes_def)
    have pre: "take i ns \<noteq> []" "last (take i ns) = ns ! j"
      using Suc less.prems by (auto simp: take_Suc_conv_app_nth)
    show ?thesis
    proof (cases "is_sink (ns ! j)")
      case True
      then have "pn_id (ns ! i) \<in> pn_id ` set (take i ns)" using f pre by (simp add: may_follow_def)
      then obtain k where k: "k < i" "pn_id (ns ! i) = pn_id (ns ! k)"
        using less.prems by (auto simp: in_set_conv_nth)
      then show ?thesis using less.IH [of k] less.prems by simp
    next
      case False
      then have "rr_step g (ns ! j) (ns ! i)" using f pre by (simp add: may_follow_def)
      then have "(pn_id (ns ! j), pn_id (ns ! i)) \<in> net_rel g (pn_id ` set ns)"
        using less.prems Suc by (force simp: rr_step_def net_rel_def)
      moreover have "(pn_id (hd ns), pn_id (ns ! j)) \<in> (net_rel g (pn_id ` set ns))\<^sup>*"
        using less.IH [of j] Suc less.prems by simp
      ultimately show ?thesis by (rule rtrancl_into_rtrancl [rotated])
    qed
  qed
qed

lemma legal_nodes_start:
  assumes "legal_nodes g ns" "ns \<noteq> []"
  shows "pn_type (hd ns) = ''SOURCE''"
proof -
  have "may_follow g (take 0 ns) (ns ! 0)" using assms unfolding legal_nodes_def by blast
  then show ?thesis using assms(2) by (simp add: hd_conv_nth)
qed

section \<open>The graph\<close>

definition rr_graph_ok :: "rr_graph \<Rightarrow> bool" where
  "rr_graph_ok g \<longleftrightarrow> rr_nodes g \<noteq> [] \<and> rr_edges g \<noteq> [] \<and> distinct (rr_edges g) \<and>
     (\<forall>v < length (rr_nodes g). \<exists>rr. rr_nodes g ! v = Some rr \<and> 0 < rr_capacity rr) \<and>
     (\<forall>e \<in> set (rr_edges g). rr_src e < length (rr_nodes g) \<and> rr_sink e < length (rr_nodes g))"

definition rr_partial_ok :: "rr_graph \<Rightarrow> bool" where
  "rr_partial_ok g \<longleftrightarrow> distinct (rr_edges g) \<and> (\<forall>rr. Some rr \<in> set (rr_nodes g) \<longrightarrow> 0 < rr_capacity rr)"

lemma read_rr_line_ok:
  assumes "rr_partial_ok g" "read_rr_line l g = Inr g'"
  shows "rr_partial_ok g'"
proof (cases l)
  case (Rr_node i node)
  then show ?thesis using assms
    by (auto simp: rr_partial_ok_def rr_add_node_def Let_def resize_def split: if_splits
        dest!: set_update_subset_insert [THEN subsetD] in_set_takeD)
next
  case (Rr_edge e)
  then show ?thesis using assms by (auto simp: rr_partial_ok_def rr_add_edge_def split: if_splits)
next
  case (Rr_grid x y)
  then show ?thesis using assms by (auto simp: rr_partial_ok_def rr_add_grid_def split: if_splits)
qed (use assms in auto)

lemma read_rr_lines_ok: "rr_partial_ok g \<Longrightarrow> read_rr_lines n ls g = Inr g' \<Longrightarrow> rr_partial_ok g'"
  by (induction ls arbitrary: n g) (auto split: sum.splits dest: read_rr_line_ok)

lemma read_rr_graph_ok:
  assumes "read_rr_graph ls = Inr g"
  shows "rr_graph_ok g"
proof -
  obtain h where h: "read_rr_lines 0 ls empty_rr_graph = Inr h" "check_rr_graph h = Inr g"
    using assms by (auto simp: read_rr_graph_def split: sum.splits)
  have "rr_partial_ok empty_rr_graph" by (simp add: rr_partial_ok_def empty_rr_graph_def)
  then have "rr_partial_ok h" using read_rr_lines_ok h(1) by blast
  moreover have g: "g = h" "rr_nodes g \<noteq> []" "rr_edges g \<noteq> []" "None \<notin> set (rr_nodes g)"
    "\<forall>e \<in> set (rr_edges g). rr_src e < length (rr_nodes g) \<and> rr_sink e < length (rr_nodes g)"
    using h(2) by (auto simp: check_rr_graph_def split: if_splits)
  moreover have "\<exists>rr. rr_nodes g ! v = Some rr \<and> 0 < rr_capacity rr" if v: "v < length (rr_nodes g)" for v
  proof -
    obtain rr where rr: "rr_nodes g ! v = Some rr" using g(4) nth_mem [OF v] by (cases "rr_nodes g ! v") auto
    then have "Some rr \<in> set (rr_nodes g)" using nth_mem [OF v] by simp
    then show ?thesis using rr \<open>rr_partial_ok h\<close> g(1) by (auto simp: rr_partial_ok_def)
  qed
  ultimately show ?thesis by (simp add: rr_graph_ok_def rr_partial_ok_def)
qed

end
