(* ===== verification/Mfs_Legalizer.thy ===== *)
theory Mfs_Legalizer
  imports Native_Numbers "HOL-Library.AList" "HOL-Library.Product_Lexorder"
begin

text \<open>
  The legalizer of the partitioner (\<open>src/native/mfspart_legalizer.cpp\<close>): starting from a partition that
  respects the capacities it moves one node at a time into an empty part, always the cheapest move, until
  enough parts are used. The model starts from the input records; a record whose fields cannot be read is
  \<open>Bad_part_record\<close>. \<open>long long\<close> sums that leave 64 bits are the explicit outcome \<open>Part_overflow\<close>, doubles
  are the type \<open>'d\<close> with the operations \<open>F\<close>. The maps from parts to pin counts are association lists.
\<close>

section \<open>Input\<close>

record part_node =
  fixed_part :: int
  node_weights :: "int list"

record 'd part_net =
  pn_weight :: 'd
  pn_source :: nat
  pn_sinks :: "nat list"

record 'd part_input =
  pi_parts :: nat
  pi_dimensions :: nat
  pi_min_used :: nat
  pi_capacities :: "int list list"
  pi_nodes :: "part_node list"
  pi_nets :: "'d part_net list"
  pi_assignment :: "nat list"

record 'd part_reader = "'d part_input" +
  saw_param :: bool
  saw_capacities :: "bool list list"
  saw_nodes :: "bool list"
  saw_nets :: "bool list"
  saw_assignments :: "bool list"

datatype 'd part_record =
    PARAM int int int int int
  | CAP int int int
  | NODE int int "int list"
  | NET int 'd int "int list"
  | ASSIGN int int
  | Bad_part_record

datatype part_error =
    Duplicate_param
  | Bad_param
  | Before_param
  | Bad_cap
  | Bad_node_record
  | Bad_net_record
  | Bad_net_sink
  | Bad_assign
  | Malformed_part_record
  | Incomplete_input
  | Violates_fixed
  | Exceeds_capacity
  | No_legal_move
  | Part_overflow

definition read_param :: "'d fp \<Rightarrow> int \<Rightarrow> int \<Rightarrow> int \<Rightarrow> int \<Rightarrow> int \<Rightarrow> 'd part_reader \<Rightarrow> part_error + 'd part_reader" where
  "read_param F parts nodes dims nets mused st =
    (if saw_param st then Inl Duplicate_param
     else if parts \<le> 0 \<or> nodes \<le> 0 \<or> dims \<le> 0 \<or> nets < 0 \<or> mused \<le> 0 \<or> mused > parts then Inl Bad_param
     else Inr (st\<lparr>pi_parts := nat parts, pi_dimensions := nat dims, pi_min_used := nat mused,
       pi_capacities := replicate (nat parts) (replicate (nat dims) 0),
       pi_nodes := replicate (nat nodes) \<lparr>fixed_part = -1, node_weights = []\<rparr>,
       pi_nets := replicate (nat nets) \<lparr>pn_weight = fp_of_int F 0, pn_source = 0, pn_sinks = []\<rparr>,
       pi_assignment := replicate (nat nodes) 0,
       saw_param := True, saw_capacities := replicate (nat parts) (replicate (nat dims) False),
       saw_nodes := replicate (nat nodes) False, saw_nets := replicate (nat nets) False,
       saw_assignments := replicate (nat nodes) False\<rparr>))"

definition read_cap :: "int \<Rightarrow> int \<Rightarrow> int \<Rightarrow> 'd part_reader \<Rightarrow> part_error + 'd part_reader" where
  "read_cap part dim cap st =
    (if \<not> saw_param st then Inl Before_param
     else if part < 0 \<or> part \<ge> int (pi_parts st) \<or> dim < 0 \<or> dim \<ge> int (pi_dimensions st) \<or> cap \<le> 0 \<or>
       saw_capacities st ! nat part ! nat dim then Inl Bad_cap
     else Inr (st\<lparr>pi_capacities := (pi_capacities st)[nat part := (pi_capacities st ! nat part)[nat dim := cap]],
       saw_capacities := (saw_capacities st)[nat part := (saw_capacities st ! nat part)[nat dim := True]]\<rparr>))"

definition read_node :: "int \<Rightarrow> int \<Rightarrow> int list \<Rightarrow> 'd part_reader \<Rightarrow> part_error + 'd part_reader" where
  "read_node i fix ws st =
    (if \<not> saw_param st then Inl Before_param
     else if length ws \<noteq> pi_dimensions st then Inl Malformed_part_record
     else if i < 0 \<or> i \<ge> int (length (pi_nodes st)) \<or> saw_nodes st ! nat i \<or> fix < -1 \<or> fix \<ge> int (pi_parts st) \<or>
       hd ws \<le> 0 \<or> (\<exists>w \<in> set ws. w < 0) then Inl Bad_node_record
     else Inr (st\<lparr>pi_nodes := (pi_nodes st)[nat i := \<lparr>fixed_part = fix, node_weights = ws\<rparr>],
       saw_nodes := (saw_nodes st)[nat i := True]\<rparr>))"

definition read_net :: "'d fp \<Rightarrow> int \<Rightarrow> 'd \<Rightarrow> int \<Rightarrow> int list \<Rightarrow> 'd part_reader \<Rightarrow> part_error + 'd part_reader" where
  "read_net F i w source sinks st =
    (if \<not> saw_param st then Inl Before_param
     else if i < 0 \<or> i \<ge> int (length (pi_nets st)) \<or> saw_nets st ! nat i \<or>
       \<not> fp_isfinite F w \<or> fp_le F w (fp_of_int F 0) \<or>
       source < 0 \<or> source \<ge> int (length (pi_nodes st)) \<or> sinks = [] then Inl Bad_net_record
     else if (\<exists>s \<in> set sinks. s < 0 \<or> s \<ge> int (length (pi_nodes st)) \<or> s = source) \<or> \<not> distinct sinks
     then Inl Bad_net_sink
     else Inr (st\<lparr>pi_nets := (pi_nets st)[nat i := \<lparr>pn_weight = w, pn_source = nat source, pn_sinks = map nat sinks\<rparr>],
       saw_nets := (saw_nets st)[nat i := True]\<rparr>))"

definition read_assign :: "int \<Rightarrow> int \<Rightarrow> 'd part_reader \<Rightarrow> part_error + 'd part_reader" where
  "read_assign node part st =
    (if \<not> saw_param st then Inl Before_param
     else if node < 0 \<or> node \<ge> int (length (pi_nodes st)) \<or> part < 0 \<or> part \<ge> int (pi_parts st) \<or>
       saw_assignments st ! nat node then Inl Bad_assign
     else Inr (st\<lparr>pi_assignment := (pi_assignment st)[nat node := nat part],
       saw_assignments := (saw_assignments st)[nat node := True]\<rparr>))"

fun read_part_record :: "'d fp \<Rightarrow> 'd part_record \<Rightarrow> 'd part_reader \<Rightarrow> part_error + 'd part_reader" where
  "read_part_record F (PARAM parts nodes dims nets mused) st = read_param F parts nodes dims nets mused st"
| "read_part_record F (CAP part dim cap) st = read_cap part dim cap st"
| "read_part_record F (NODE i fix ws) st = read_node i fix ws st"
| "read_part_record F (NET i w source sinks) st = read_net F i w source sinks st"
| "read_part_record F (ASSIGN node part) st = read_assign node part st"
| "read_part_record F Bad_part_record st = Inl Malformed_part_record"

fun read_part_records :: "'d fp \<Rightarrow> 'd part_record list \<Rightarrow> 'd part_reader \<Rightarrow> part_error + 'd part_reader" where
  "read_part_records F [] st = Inr st"
| "read_part_records F (r # rs) st =
    (case read_part_record F r st of Inl e \<Rightarrow> Inl e | Inr st' \<Rightarrow> read_part_records F rs st')"

definition part_reader_start :: "'d part_reader" where
  "part_reader_start = \<lparr>pi_parts = 0, pi_dimensions = 0, pi_min_used = 0, pi_capacities = [], pi_nodes = [],
     pi_nets = [], pi_assignment = [], saw_param = False, saw_capacities = [], saw_nodes = [], saw_nets = [],
     saw_assignments = []\<rparr>"

definition check_complete :: "'d part_reader \<Rightarrow> part_error + 'd part_input" where
  "check_complete st =
    (if \<not> saw_param st \<or> (\<exists>row \<in> set (saw_capacities st). False \<in> set row) \<or> False \<in> set (saw_nodes st) \<or>
       False \<in> set (saw_nets st) \<or> False \<in> set (saw_assignments st) then Inl Incomplete_input
     else if \<exists>v \<in> set [0..<length (pi_nodes st)]. fixed_part (pi_nodes st ! v) \<ge> 0 \<and>
       fixed_part (pi_nodes st ! v) \<noteq> int (pi_assignment st ! v) then Inl Violates_fixed
     else Inr (part_input.truncate st))"

definition read_partition :: "'d fp \<Rightarrow> 'd part_record list \<Rightarrow> part_error + 'd part_input" where
  "read_partition F rs =
    (case read_part_records F rs part_reader_start of Inl e \<Rightarrow> Inl e | Inr st \<Rightarrow> check_complete st)"

section \<open>State of the legalization\<close>

record 'd move =
  mv_node :: nat
  mv_source :: nat
  mv_target :: nat
  mv_pair_delta :: 'd
  mv_connectivity_delta :: 'd

record 'd legal_state =
  ls_assignment :: "nat list"
  ls_counts :: "nat list"
  ls_loads :: "int list list"
  ls_net_parts :: "(nat \<times> int) list list"
  ls_moves :: "'d move list"

text \<open>The loads of one part: every sum is checked against the capacity, dimension by dimension.\<close>

fun add_load :: "int list \<Rightarrow> int list \<Rightarrow> nat list \<Rightarrow> int list \<Rightarrow> part_error + int list" where
  "add_load caps ws [] load = Inr load"
| "add_load caps ws (d # ds) load =
    (let x = load ! d + ws ! d in
     if \<not> int64_ok x then Inl Part_overflow
     else if x > caps ! d then Inl Exceeds_capacity
     else add_load caps ws ds (load[d := x]))"

fun load_nodes :: "'d part_input \<Rightarrow> nat list \<Rightarrow> nat list \<times> int list list \<Rightarrow> part_error + (nat list \<times> int list list)" where
  "load_nodes inp [] st = Inr st"
| "load_nodes inp (v # vs) (counts, loads) =
    (let p = pi_assignment inp ! v in
     case add_load (pi_capacities inp ! p) (node_weights (pi_nodes inp ! v)) [0..<pi_dimensions inp] (loads ! p) of
       Inl e \<Rightarrow> Inl e
     | Inr load \<Rightarrow> load_nodes inp vs (counts[p := counts ! p + 1], loads[p := load]))"

definition net_pins :: "'d part_net \<Rightarrow> nat list" where
  "net_pins net = pn_source net # pn_sinks net"

definition incident_nets :: "'d part_input \<Rightarrow> nat list list" where
  "incident_nets inp =
    fold (\<lambda>i inc. fold (\<lambda>v inc. inc[v := inc ! v @ [i]]) (net_pins (pi_nets inp ! i)) inc)
      [0..<length (pi_nets inp)] (replicate (length (pi_nodes inp)) [])"

text \<open>\<open>++m[k]\<close> and \<open>if (--m[k] == 0) m.erase(k)\<close> on a map.\<close>

definition map_bump :: "nat \<Rightarrow> int \<Rightarrow> (nat \<times> int) list \<Rightarrow> (nat \<times> int) list" where
  "map_bump k d m = AList.update k ((case map_of m k of None \<Rightarrow> 0 | Some c \<Rightarrow> c) + d) m"

definition map_drop :: "nat \<Rightarrow> (nat \<times> int) list \<Rightarrow> (nat \<times> int) list" where
  "map_drop k m = (let m = map_bump k (-1) m in if map_of m k = Some 0 then AList.delete k m else m)"

definition count_net :: "nat list \<Rightarrow> 'd part_net \<Rightarrow> (nat \<times> int) list" where
  "count_net asg net = fold (\<lambda>v. map_bump (asg ! v) 1) (net_pins net) []"

definition legal_start :: "'d part_input \<Rightarrow> part_error + 'd legal_state" where
  "legal_start inp =
    (case load_nodes inp [0..<length (pi_nodes inp)]
        (replicate (pi_parts inp) 0, replicate (pi_parts inp) (replicate (pi_dimensions inp) 0)) of
       Inl e \<Rightarrow> Inl e
     | Inr (counts, loads) \<Rightarrow> Inr \<lparr>ls_assignment = pi_assignment inp, ls_counts = counts, ls_loads = loads,
         ls_net_parts = map (count_net (pi_assignment inp)) (pi_nets inp), ls_moves = []\<rparr>)"

definition used_parts :: "'d legal_state \<Rightarrow> nat" where
  "used_parts st = length (filter (\<lambda>c. c > 0) (ls_counts st))"

definition first_empty :: "'d legal_state \<Rightarrow> nat" where
  "first_empty st = length (takeWhile (\<lambda>c. c \<noteq> 0) (ls_counts st))"

section \<open>The cost of a move\<close>

definition moved_counts :: "nat \<Rightarrow> nat \<Rightarrow> (nat \<times> int) list \<Rightarrow> (nat \<times> int) list" where
  "moved_counts source target m = map_bump target 1 (map_drop source m)"

definition bool_int :: "bool \<Rightarrow> int" where
  "bool_int b = (if b then 1 else 0)"

text \<open>The body of the loop over the nets of the node; the pair is (\<open>pair_delta\<close>, \<open>connectivity_delta\<close>).\<close>

definition net_delta :: "'d fp \<Rightarrow> 'd part_input \<Rightarrow> 'd legal_state \<Rightarrow> nat \<Rightarrow> nat \<Rightarrow> nat \<Rightarrow> nat \<Rightarrow> 'd \<times> 'd \<Rightarrow> 'd \<times> 'd" where
  "net_delta F inp st v source target i =
    (\<lambda>(pd, cd). let net = pi_nets inp ! i; m = ls_net_parts st ! i; after = moved_counts source target m;
         cd = fp_add F cd (fp_mul F (pn_weight net) (fp_of_int F (int (length after) - int (length m))));
         before_source = ls_assignment st ! pn_source net;
         after_source = (if pn_source net = v then target else before_source)
       in (fold (\<lambda>sink pd. let before_sink = ls_assignment st ! sink; after_sink = (if sink = v then target else before_sink)
             in fp_add F pd (fp_mul F (pn_weight net)
                  (fp_of_int F (bool_int (after_source \<noteq> after_sink) - bool_int (before_source \<noteq> before_sink)))))
           (pn_sinks net) pd, cd))"

definition move_deltas :: "'d fp \<Rightarrow> 'd part_input \<Rightarrow> nat list list \<Rightarrow> 'd legal_state \<Rightarrow> nat \<Rightarrow> nat \<Rightarrow> nat \<Rightarrow> 'd \<times> 'd" where
  "move_deltas F inp inc st v source target =
    fold (net_delta F inp st v source target) (inc ! v) (fp_of_int F 0, fp_of_int F 0)"

type_synonym 'd cost_key = "'d \<times> 'd \<times> int \<times> nat \<times> nat"

definition key_less :: "'d fp \<Rightarrow> 'd cost_key \<Rightarrow> 'd cost_key \<Rightarrow> bool" where
  "key_less F = (\<lambda>(p, c, k) (p', c', k'). fp_lt F p p' \<or> \<not> fp_lt F p' p \<and>
     (fp_lt F c c' \<or> \<not> fp_lt F c' c \<and> k < k'))"

definition move_key :: "'d part_input \<Rightarrow> 'd move \<Rightarrow> 'd cost_key" where
  "move_key inp m = (mv_pair_delta m, mv_connectivity_delta m, hd (node_weights (pi_nodes inp ! mv_node m)), mv_node m, mv_source m)"

text \<open>Whether node \<open>v\<close> fits into the target; a sum that leaves 64 bits is undefined behaviour.\<close>

definition sums_ok :: "'d part_input \<Rightarrow> 'd legal_state \<Rightarrow> nat \<Rightarrow> nat \<Rightarrow> bool" where
  "sums_ok inp st target v \<longleftrightarrow>
     (\<forall>d \<in> set [0..<pi_dimensions inp]. int64_ok (ls_loads st ! target ! d + node_weights (pi_nodes inp ! v) ! d))"

definition fits_target :: "'d part_input \<Rightarrow> 'd legal_state \<Rightarrow> nat \<Rightarrow> nat \<Rightarrow> bool" where
  "fits_target inp st target v \<longleftrightarrow>
     (\<forall>d \<in> set [0..<pi_dimensions inp].
        ls_loads st ! target ! d + node_weights (pi_nodes inp ! v) ! d \<le> pi_capacities inp ! target ! d)"

definition may_leave :: "'d part_input \<Rightarrow> 'd legal_state \<Rightarrow> nat \<Rightarrow> bool" where
  "may_leave inp st v \<longleftrightarrow> \<not> (ls_counts st ! (ls_assignment st ! v) \<le> 1 \<or> fixed_part (pi_nodes inp ! v) \<ge> 0)"

definition move_of :: "'d fp \<Rightarrow> 'd part_input \<Rightarrow> nat list list \<Rightarrow> 'd legal_state \<Rightarrow> nat \<Rightarrow> nat \<Rightarrow> 'd move" where
  "move_of F inp inc st target v =
    (let (pd, cd) = move_deltas F inp inc st v (ls_assignment st ! v) target in
     \<lparr>mv_node = v, mv_source = ls_assignment st ! v, mv_target = target, mv_pair_delta = pd, mv_connectivity_delta = cd\<rparr>)"

fun best_move :: "'d fp \<Rightarrow> 'd part_input \<Rightarrow> nat list list \<Rightarrow> 'd legal_state \<Rightarrow> nat \<Rightarrow> nat list \<Rightarrow> 'd move option
    \<Rightarrow> part_error + 'd move option" where
  "best_move F inp inc st target [] best = Inr best"
| "best_move F inp inc st target (v # vs) best =
    (if \<not> may_leave inp st v then best_move F inp inc st target vs best
     else if \<not> sums_ok inp st target v then Inl Part_overflow
     else if \<not> fits_target inp st target v then best_move F inp inc st target vs best
     else let m = move_of F inp inc st target v in
       best_move F inp inc st target vs
         (case best of None \<Rightarrow> Some m
          | Some b \<Rightarrow> if key_less F (move_key inp m) (move_key inp b) then Some m else Some b))"

definition change_row :: "nat \<Rightarrow> ('a \<Rightarrow> 'a) \<Rightarrow> 'a list \<Rightarrow> 'a list" where
  "change_row k f xs = xs[k := f (xs ! k)]"

definition apply_move :: "'d part_input \<Rightarrow> nat list list \<Rightarrow> 'd move \<Rightarrow> 'd legal_state \<Rightarrow> 'd legal_state" where
  "apply_move inp inc m st =
    (let v = mv_node m; ws = node_weights (pi_nodes inp ! v) in
     st\<lparr>ls_assignment := (ls_assignment st)[v := mv_target m],
        ls_counts := change_row (mv_target m) (\<lambda>c. c + 1) (change_row (mv_source m) (\<lambda>c. c - 1) (ls_counts st)),
        ls_loads := change_row (mv_target m) (\<lambda>l. map2 (+) l ws) (change_row (mv_source m) (\<lambda>l. map2 (-) l ws) (ls_loads st)),
        ls_net_parts := fold (\<lambda>i. change_row i (moved_counts (mv_source m) (mv_target m))) (inc ! v) (ls_net_parts st),
        ls_moves := ls_moves st @ [m]\<rparr>)"

partial_function (option) legalize_loop :: "'d fp \<Rightarrow> 'd part_input \<Rightarrow> nat list list \<Rightarrow> 'd legal_state
    \<Rightarrow> (part_error + 'd legal_state) option" where
  "legalize_loop F inp inc st =
    (if used_parts st \<ge> pi_min_used inp then Some (Inr st)
     else case best_move F inp inc st (first_empty st) [0..<length (pi_nodes inp)] None of
       Inl e \<Rightarrow> Some (Inl e)
     | Inr None \<Rightarrow> Some (Inl No_legal_move)
     | Inr (Some m) \<Rightarrow> legalize_loop F inp inc (apply_move inp inc m st))"

declare legalize_loop.simps [code]

definition legalize :: "'d fp \<Rightarrow> 'd part_input \<Rightarrow> (part_error + 'd legal_state) option" where
  "legalize F inp =
    (case legal_start inp of Inl e \<Rightarrow> Some (Inl e)
     | Inr st \<Rightarrow> legalize_loop F inp (incident_nets inp) st)"

end
