(* ===== verification/Mfs_Reader.thy ===== *)
theory Mfs_Reader
  imports Mfs_Legalizer
begin

text \<open>
  What the input check of the legalizer (\<open>read_input\<close> of \<open>src/native/mfspart_legalizer.cpp\<close>) guarantees:
  an accepted input is a complete partitioning problem whose initial assignment respects the fixed nodes.
\<close>

definition node_ok :: "nat \<Rightarrow> nat \<Rightarrow> part_node \<Rightarrow> bool" where
  "node_ok parts dims node \<longleftrightarrow> -1 \<le> fixed_part node \<and> fixed_part node < int parts \<and>
     length (node_weights node) = dims \<and> 0 < hd (node_weights node) \<and> (\<forall>w \<in> set (node_weights node). 0 \<le> w)"

definition net_ok :: "nat \<Rightarrow> 'd part_net \<Rightarrow> bool" where
  "net_ok n net \<longleftrightarrow> pn_sinks net \<noteq> [] \<and> distinct (net_pins net) \<and> (\<forall>v \<in> set (net_pins net). v < n)"

definition part_input_ok :: "('d, 'z) part_input_scheme \<Rightarrow> bool" where
  "part_input_ok inp \<longleftrightarrow> 0 < pi_dimensions inp \<and> 0 < pi_min_used inp \<and> pi_min_used inp \<le> pi_parts inp \<and>
     length (pi_capacities inp) = pi_parts inp \<and>
     (\<forall>p < pi_parts inp. length (pi_capacities inp ! p) = pi_dimensions inp \<and>
        (\<forall>d < pi_dimensions inp. 0 < pi_capacities inp ! p ! d)) \<and>
     (\<forall>v < length (pi_nodes inp). node_ok (pi_parts inp) (pi_dimensions inp) (pi_nodes inp ! v)) \<and>
     (\<forall>i < length (pi_nets inp). net_ok (length (pi_nodes inp)) (pi_nets inp ! i)) \<and>
     length (pi_assignment inp) = length (pi_nodes inp) \<and>
     (\<forall>v < length (pi_nodes inp). pi_assignment inp ! v < pi_parts inp \<and>
        (0 \<le> fixed_part (pi_nodes inp ! v) \<longrightarrow> fixed_part (pi_nodes inp ! v) = int (pi_assignment inp ! v)))"

text \<open>The invariant of the reader: what has been seen is in order.\<close>

definition reader_shape :: "'d part_reader \<Rightarrow> bool" where
  "reader_shape st \<longleftrightarrow> 0 < pi_dimensions st \<and> 0 < pi_min_used st \<and> pi_min_used st \<le> pi_parts st \<and>
     length (pi_capacities st) = pi_parts st \<and> length (saw_capacities st) = pi_parts st \<and>
     (\<forall>p < pi_parts st. length (pi_capacities st ! p) = pi_dimensions st \<and>
        length (saw_capacities st ! p) = pi_dimensions st) \<and>
     length (saw_nodes st) = length (pi_nodes st) \<and> length (saw_nets st) = length (pi_nets st) \<and>
     length (pi_assignment st) = length (pi_nodes st) \<and> length (saw_assignments st) = length (pi_nodes st)"

definition reader_seen :: "'d part_reader \<Rightarrow> bool" where
  "reader_seen st \<longleftrightarrow>
     (\<forall>p < pi_parts st. \<forall>d < pi_dimensions st. saw_capacities st ! p ! d \<longrightarrow> 0 < pi_capacities st ! p ! d) \<and>
     (\<forall>v < length (pi_nodes st). saw_nodes st ! v \<longrightarrow> node_ok (pi_parts st) (pi_dimensions st) (pi_nodes st ! v)) \<and>
     (\<forall>i < length (pi_nets st). saw_nets st ! i \<longrightarrow> net_ok (length (pi_nodes st)) (pi_nets st ! i)) \<and>
     (\<forall>v < length (pi_nodes st). saw_assignments st ! v \<longrightarrow> pi_assignment st ! v < pi_parts st)"

definition reader_ok :: "'d part_reader \<Rightarrow> bool" where
  "reader_ok st \<longleftrightarrow> (saw_param st \<longrightarrow> reader_shape st \<and> reader_seen st)"

lemma read_param_ok: "read_param F parts nodes dims nets mused st = Inr st' \<Longrightarrow> reader_ok st'"
  by (auto simp: read_param_def reader_ok_def reader_shape_def reader_seen_def split: if_splits)

lemma read_cap_ok:
  assumes "reader_ok st" "read_cap part dim cap st = Inr st'"
  shows "reader_ok st'"
  using assms
  by (auto simp: read_cap_def reader_ok_def reader_shape_def reader_seen_def nth_list_update split: if_splits)

lemma read_node_ok:
  assumes "reader_ok st" "read_node i fix ws st = Inr st'"
  shows "reader_ok st'"
proof -
  from assms(2) have st': "st' = st\<lparr>pi_nodes := (pi_nodes st)[nat i := \<lparr>fixed_part = fix, node_weights = ws\<rparr>],
       saw_nodes := (saw_nodes st)[nat i := True]\<rparr>" "saw_param st" "nat i < length (pi_nodes st)"
    and ws: "node_ok (pi_parts st) (pi_dimensions st) \<lparr>fixed_part = fix, node_weights = ws\<rparr>"
    by (auto simp: read_node_def node_ok_def not_less not_le split: if_splits)
  show ?thesis
    using assms(1) st' ws by (auto simp: reader_ok_def reader_shape_def reader_seen_def nth_list_update)
qed

lemma read_net_ok:
  assumes "reader_ok st" "read_net F i w source sinks st = Inr st'"
  shows "reader_ok st'"
proof -
  from assms have ok: "0 \<le> source" "source < int (length (pi_nodes st))" "sinks \<noteq> []" "distinct sinks"
    "\<forall>s \<in> set sinks. 0 \<le> s \<and> s < int (length (pi_nodes st)) \<and> s \<noteq> source"
    and st': "st' = st\<lparr>pi_nets := (pi_nets st)[nat i := \<lparr>pn_weight = w, pn_source = nat source, pn_sinks = map nat sinks\<rparr>],
       saw_nets := (saw_nets st)[nat i := True]\<rparr>" "saw_param st" "nat i < length (pi_nets st)"
    by (force simp: read_net_def split: if_splits)+
  have "inj_on nat (set sinks)" using ok(5) by (metis (no_types, lifting) eq_nat_nat_iff inj_onI)
  then have "net_ok (length (pi_nodes st)) \<lparr>pn_weight = w, pn_source = nat source, pn_sinks = map nat sinks\<rparr>"
    using ok by (auto simp: net_ok_def net_pins_def distinct_map)
  then show ?thesis
    using assms(1) st' by (auto simp: reader_ok_def reader_shape_def reader_seen_def nth_list_update)
qed

lemma read_assign_ok:
  assumes "reader_ok st" "read_assign node part st = Inr st'"
  shows "reader_ok st'"
  using assms
  by (auto simp: read_assign_def reader_ok_def reader_shape_def reader_seen_def nth_list_update split: if_splits)

lemma read_part_record_ok: "reader_ok st \<Longrightarrow> read_part_record F r st = Inr st' \<Longrightarrow> reader_ok st'"
  by (cases r) (auto dest: read_param_ok read_cap_ok read_node_ok read_net_ok read_assign_ok)

lemma read_part_records_ok: "reader_ok st \<Longrightarrow> read_part_records F rs st = Inr st' \<Longrightarrow> reader_ok st'"
  by (induction rs arbitrary: st) (auto split: sum.splits dest: read_part_record_ok)

lemma not_False_nth: "False \<notin> set xs \<Longrightarrow> i < length xs \<Longrightarrow> xs ! i"
  by (metis nth_mem)

lemma check_complete_ok:
  assumes ok: "reader_ok st" and c: "check_complete st = Inr inp"
  shows "part_input_ok inp"
proof -
  from c have seen: "saw_param st" "\<forall>row \<in> set (saw_capacities st). False \<notin> set row" "False \<notin> set (saw_nodes st)"
      "False \<notin> set (saw_nets st)" "False \<notin> set (saw_assignments st)"
    and fixed: "\<forall>v < length (pi_nodes st). 0 \<le> fixed_part (pi_nodes st ! v) \<longrightarrow>
      fixed_part (pi_nodes st ! v) = int (pi_assignment st ! v)"
    and inp: "inp = part_input.truncate st"
    by (auto simp: check_complete_def split: if_splits)
  have sh: "reader_shape st" "reader_seen st" using ok seen(1) by (auto simp: reader_ok_def)
  have "saw_capacities st ! p ! d" if "p < pi_parts st" "d < pi_dimensions st" for p d
    using seen(2) sh(1) that by (intro not_False_nth) (auto simp: reader_shape_def)
  then have "part_input_ok st"
    using sh fixed seen(3-5) by (simp add: part_input_ok_def reader_shape_def reader_seen_def not_False_nth)
  then show ?thesis by (simp add: inp part_input_ok_def part_input.truncate_def)
qed

lemma read_partition_ok: "read_partition F rs = Inr inp \<Longrightarrow> part_input_ok inp"
proof -
  assume r: "read_partition F rs = Inr inp"
  have "reader_ok (part_reader_start :: 'a part_reader)" by (simp add: reader_ok_def part_reader_start_def)
  with r show ?thesis
    by (auto simp: read_partition_def split: sum.splits intro: check_complete_ok dest: read_part_records_ok)
qed

end
