(* ===== verification/Mfs_Moves.thy ===== *)
theory Mfs_Moves
  imports Mfs_Reader Kit_Prelude
begin

text \<open>
  The loop of the legalizer (\<open>run\<close> of \<open>src/native/mfspart_legalizer.cpp\<close>): the tables of counts, loads and
  parts per net are those of the current assignment, a move keeps capacities and fixed nodes and opens one
  part, and the loop ends.
\<close>

section \<open>The tables as functions of the assignment\<close>

definition part_size :: "nat list \<Rightarrow> nat \<Rightarrow> int" where
  "part_size asg p = (\<Sum>v < length asg. if asg ! v = p then 1 else 0)"

definition part_load :: "('d, 'z) part_input_scheme \<Rightarrow> nat list \<Rightarrow> nat \<Rightarrow> nat \<Rightarrow> int" where
  "part_load inp asg p d = (\<Sum>v < length asg. if asg ! v = p then node_weights (pi_nodes inp ! v) ! d else 0)"

definition pins_in :: "nat list \<Rightarrow> nat list \<Rightarrow> nat \<Rightarrow> int" where
  "pins_in asg vs p = (\<Sum>v \<in> set vs. if asg ! v = p then 1 else 0)"

definition net_rep :: "nat list \<Rightarrow> nat list \<Rightarrow> (nat \<times> int) list \<Rightarrow> bool" where
  "net_rep asg vs m \<longleftrightarrow> distinct (map fst m) \<and>
     (\<forall>p. map_of m p = (if pins_in asg vs p = 0 then None else Some (pins_in asg vs p)))"

lemma sum_move:
  fixes f :: "nat \<Rightarrow> nat \<Rightarrow> int"
  assumes "finite A" "v \<in> A" "v < length asg"
  shows "(\<Sum>x \<in> A. f x (asg[v := t] ! x)) = (\<Sum>x \<in> A. f x (asg ! x)) - f v (asg ! v) + f v t"
proof -
  have "(\<Sum>x \<in> A. f x (asg[v := t] ! x)) = f v t + (\<Sum>x \<in> A - {v}. f x (asg ! x))"
    using assms by (subst sum.remove [of A v]) (auto intro!: sum.cong)
  moreover have "(\<Sum>x \<in> A. f x (asg ! x)) = f v (asg ! v) + (\<Sum>x \<in> A - {v}. f x (asg ! x))"
    using assms by (intro sum.remove) auto
  ultimately show ?thesis by simp
qed

lemma part_size_move:
  assumes "v < length asg"
  shows "part_size (asg[v := t]) p = part_size asg p - (if asg ! v = p then 1 else 0) + (if t = p then 1 else 0)"
  using sum_move [of "{..<length asg}" v asg "\<lambda>_ q. if q = p then 1 else 0" t] assms by (simp add: part_size_def)

lemma part_load_move:
  assumes "v < length asg"
  shows "part_load inp (asg[v := t]) p d = part_load inp asg p d
    - (if asg ! v = p then node_weights (pi_nodes inp ! v) ! d else 0) + (if t = p then node_weights (pi_nodes inp ! v) ! d else 0)"
  using sum_move [of "{..<length asg}" v asg "\<lambda>x q. if q = p then node_weights (pi_nodes inp ! x) ! d else 0" t] assms
  by (simp add: part_load_def)

lemma pins_in_move:
  assumes "v < length asg" "v \<in> set vs"
  shows "pins_in (asg[v := t]) vs p = pins_in asg vs p - (if asg ! v = p then 1 else 0) + (if t = p then 1 else 0)"
  using sum_move [of "set vs" v asg "\<lambda>_ q. if q = p then 1 else 0" t] assms by (simp add: pins_in_def)

lemma pins_in_other: "v \<notin> set vs \<Longrightarrow> pins_in (asg[v := t]) vs p = pins_in asg vs p"
  unfolding pins_in_def by (intro sum.cong refl) (metis nth_list_update_neq)

lemma pins_in_nonneg: "0 \<le> pins_in asg vs p"
  by (auto simp: pins_in_def intro!: sum_nonneg)

lemma pins_in_pos: "v \<in> set vs \<Longrightarrow> 0 < pins_in asg vs (asg ! v)"
  unfolding pins_in_def by (intro sum_pos2 [of _ v]) auto

section \<open>The maps of a net\<close>

lemma map_of_bump: "map_of (map_bump k d m) = (map_of m)(k \<mapsto> (case map_of m k of None \<Rightarrow> 0 | Some c \<Rightarrow> c) + d)"
  by (simp add: map_bump_def AList.update_conv')

lemma distinct_bump: "distinct (map fst m) \<Longrightarrow> distinct (map fst (map_bump k d m))"
  by (simp add: map_bump_def AList.distinct_update)

lemma distinct_drop: "distinct (map fst m) \<Longrightarrow> distinct (map fst (map_drop k m))"
  by (simp add: map_drop_def Let_def distinct_bump AList.distinct_delete)

lemma map_of_drop:
  "map_of m k = Some c \<Longrightarrow> map_of (map_drop k m) = (map_of m)(k := if c = 1 then None else Some (c - 1))"
  by (auto simp: map_drop_def Let_def map_of_bump AList.delete_conv' fun_eq_iff)

lemma moved_counts_rep:
  assumes rep: "net_rep asg vs m" and v: "v \<in> set vs" "v < length asg" and t: "t \<noteq> asg ! v"
  shows "net_rep (asg[v := t]) vs (moved_counts (asg ! v) t m)"
proof -
  let ?c = "pins_in asg vs (asg ! v)"
  have pos: "0 < ?c" using pins_in_pos [OF v(1)] .
  then have "map_of m (asg ! v) = Some ?c" using rep by (simp add: net_rep_def)
  note drop = map_of_drop [OF this]
  have "map_of (moved_counts (asg ! v) t m) p = (if pins_in (asg[v := t]) vs p = 0 then None
      else Some (pins_in (asg[v := t]) vs p))" for p
    using rep t pins_in_nonneg [of asg vs t] unfolding pins_in_move [OF v(2,1)]
    by (auto simp: moved_counts_def map_of_bump drop net_rep_def)
  then show ?thesis using rep by (simp add: net_rep_def moved_counts_def distinct_bump distinct_drop)
qed

lemma count_net_rep:
  assumes "distinct (net_pins net)"
  shows "net_rep asg (net_pins net) (count_net asg net)"
proof -
  have "net_rep asg (ws @ vs) (fold (\<lambda>v. map_bump (asg ! v) 1) vs m)"
    if "distinct (ws @ vs)" "net_rep asg ws m" for vs ws :: "nat list" and m
    using that
  proof (induction vs arbitrary: ws m)
    case Nil
    then show ?case by simp
  next
    case (Cons v vs)
    have "pins_in asg (ws @ [v]) p = pins_in asg ws p + (if asg ! v = p then 1 else 0)" for p
      using Cons.prems(1) by (simp add: pins_in_def)
    then have "net_rep asg (ws @ [v]) (map_bump (asg ! v) 1 m)"
      using Cons.prems(2) pins_in_nonneg [of asg ws "asg ! v"]
      by (auto simp: net_rep_def distinct_bump map_of_bump)
    from Cons.IH [OF _ this] Cons.prems(1) show ?case by simp
  qed
  from this [of "[]" "net_pins net" "[]"] assms show ?thesis
    by (simp add: count_net_def net_rep_def pins_in_def)
qed

section \<open>Incident nets\<close>

lemma fold_push:
  assumes "distinct vs" "\<forall>v \<in> set vs. v < length inc"
  shows "fold (\<lambda>v inc. inc[v := inc ! v @ [i]]) vs inc ! x = (if x \<in> set vs then inc ! x @ [i] else inc ! x)"
  using nth_fold_assign [of vs inc "\<lambda>_ y. y @ [i]" x] assms by simp

lemma length_fold_push: "length (fold (\<lambda>v inc. inc[v := inc ! v @ [i]]) vs inc) = length inc"
  by (rule length_fold_keeps) simp

lemma incident_nets_nth:
  assumes ok: "part_input_ok inp" and v: "v < length (pi_nodes inp)"
  shows "incident_nets inp ! v = filter (\<lambda>i. v \<in> set (net_pins (pi_nets inp ! i))) [0..<length (pi_nets inp)]"
proof -
  let ?push = "\<lambda>i inc. fold (\<lambda>v inc. inc[v := inc ! v @ [i]]) (net_pins (pi_nets inp ! i)) inc"
  let ?start = "replicate (length (pi_nodes inp)) [] :: nat list list"
  have "k \<le> length (pi_nets inp) \<Longrightarrow> length (fold ?push [0..<k] ?start) = length (pi_nodes inp) \<and>
      fold ?push [0..<k] ?start ! v = filter (\<lambda>i. v \<in> set (net_pins (pi_nets inp ! i))) [0..<k]" for k
  proof (induction k)
    case 0
    then show ?case using v by simp
  next
    case (Suc k)
    then have k: "net_ok (length (pi_nodes inp)) (pi_nets inp ! k)" using ok by (simp add: part_input_ok_def)
    then show ?case using Suc by (auto simp: net_ok_def fold_push length_fold_push)
  qed
  then show ?thesis by (simp add: incident_nets_def)
qed

section \<open>The invariant of the loop\<close>

definition replay :: "nat list \<Rightarrow> 'd move list \<Rightarrow> nat list" where
  "replay asg ms = fold (\<lambda>m asg. asg[mv_node m := mv_target m]) ms asg"

definition assignment_legal :: "'d part_input \<Rightarrow> nat list \<Rightarrow> bool" where
  "assignment_legal inp asg \<longleftrightarrow> length asg = length (pi_nodes inp) \<and>
     (\<forall>v < length asg. asg ! v < pi_parts inp \<and>
        (0 \<le> fixed_part (pi_nodes inp ! v) \<longrightarrow> fixed_part (pi_nodes inp ! v) = int (asg ! v))) \<and>
     (\<forall>p < pi_parts inp. \<forall>d < pi_dimensions inp. part_load inp asg p d \<le> pi_capacities inp ! p ! d)"

definition tables_ok :: "'d part_input \<Rightarrow> 'd legal_state \<Rightarrow> bool" where
  "tables_ok inp st \<longleftrightarrow>
     length (ls_counts st) = pi_parts inp \<and> (\<forall>p < pi_parts inp. int (ls_counts st ! p) = part_size (ls_assignment st) p) \<and>
     length (ls_loads st) = pi_parts inp \<and>
     (\<forall>p < pi_parts inp. length (ls_loads st ! p) = pi_dimensions inp \<and>
        (\<forall>d < pi_dimensions inp. ls_loads st ! p ! d = part_load inp (ls_assignment st) p d)) \<and>
     length (ls_net_parts st) = length (pi_nets inp) \<and>
     (\<forall>i < length (pi_nets inp). net_rep (ls_assignment st) (net_pins (pi_nets inp ! i)) (ls_net_parts st ! i))"

definition legal_inv :: "'d part_input \<Rightarrow> 'd legal_state \<Rightarrow> bool" where
  "legal_inv inp st \<longleftrightarrow> part_input_ok inp \<and> assignment_legal inp (ls_assignment st) \<and> tables_ok inp st \<and>
     ls_assignment st = replay (pi_assignment inp) (ls_moves st)"

definition candidate :: "'d part_input \<Rightarrow> 'd legal_state \<Rightarrow> nat \<Rightarrow> nat \<Rightarrow> bool" where
  "candidate inp st target v \<longleftrightarrow> v < length (pi_nodes inp) \<and> may_leave inp st v \<and> fits_target inp st target v"

lemma legal_invD:
  assumes "legal_inv inp st"
  shows "part_input_ok inp" "assignment_legal inp (ls_assignment st)" "tables_ok inp st"
    "length (ls_assignment st) = length (pi_nodes inp)"
    "v < length (pi_nodes inp) \<Longrightarrow> ls_assignment st ! v < pi_parts inp"
  using assms by (auto simp: legal_inv_def assignment_legal_def)

lemma node_weights_shape:
  assumes "part_input_ok inp" "v < length (pi_nodes inp)"
  shows "length (node_weights (pi_nodes inp ! v)) = pi_dimensions inp"
    "d < pi_dimensions inp \<Longrightarrow> 0 \<le> node_weights (pi_nodes inp ! v) ! d"
  using assms by (auto simp: part_input_ok_def node_ok_def)

lemma change_row_nth: "k < length xs \<Longrightarrow> change_row k f xs ! j = (if j = k then f (xs ! k) else xs ! j)"
  by (auto simp: change_row_def)

lemma length_change_row [simp]: "length (change_row k f xs) = length xs"
  by (simp add: change_row_def)

lemma fold_change_row:
  assumes "distinct is'" "\<forall>i \<in> set is'. i < length xs"
  shows "fold (\<lambda>i. change_row i f) is' xs ! j = (if j \<in> set is' then f (xs ! j) else xs ! j)"
  unfolding change_row_def using nth_fold_assign [of is' xs "\<lambda>_. f" j] assms by simp

lemma length_fold_change_row: "length (fold (\<lambda>i. change_row i f) is' xs) = length xs"
  by (rule length_fold_keeps) simp

lemma part_size_zero: "part_size asg p = 0 \<longleftrightarrow> (\<forall>v < length asg. asg ! v \<noteq> p)"
  unfolding part_size_def by (subst sum_nonneg_eq_0_iff) auto

lemma part_load_empty: "part_size asg p = 0 \<Longrightarrow> part_load inp asg p d = 0"
  by (auto simp: part_size_zero part_load_def intro!: sum.neutral)

lemma apply_move_tables:
  assumes inv: "legal_inv inp st" and v: "v < length (pi_nodes inp)"
    and m: "mv_node m = v" "mv_source m = ls_assignment st ! v" "mv_target m = t"
    and t: "t < pi_parts inp" "t \<noteq> ls_assignment st ! v"
  shows "tables_ok inp (apply_move inp (incident_nets inp) m st)"
proof -
  let ?s = "ls_assignment st ! v" and ?asg = "ls_assignment st" and ?ws = "node_weights (pi_nodes inp ! v)"
  let ?st = "apply_move inp (incident_nets inp) m st"
  note I = legal_invD [OF inv]
  have vl: "v < length ?asg" and s: "?s < pi_parts inp" using I(4,5) v by auto
  note ws = node_weights_shape [OF I(1) v]
  have T: "length (ls_counts st) = pi_parts inp" "\<And>p. p < pi_parts inp \<Longrightarrow> int (ls_counts st ! p) = part_size ?asg p"
    "length (ls_loads st) = pi_parts inp" "\<And>p. p < pi_parts inp \<Longrightarrow> length (ls_loads st ! p) = pi_dimensions inp"
    "\<And>p d. p < pi_parts inp \<Longrightarrow> d < pi_dimensions inp \<Longrightarrow> ls_loads st ! p ! d = part_load inp ?asg p d"
    "length (ls_net_parts st) = length (pi_nets inp)"
    "\<And>i. i < length (pi_nets inp) \<Longrightarrow> net_rep ?asg (net_pins (pi_nets inp ! i)) (ls_net_parts st ! i)"
    using I(3) by (auto simp: tables_ok_def)
  have st: "ls_assignment ?st = ?asg[v := t]"
    "ls_counts ?st = change_row t (\<lambda>c. c + 1) (change_row ?s (\<lambda>c. c - 1) (ls_counts st))"
    "ls_loads ?st = change_row t (\<lambda>l. map2 (+) l ?ws) (change_row ?s (\<lambda>l. map2 (-) l ?ws) (ls_loads st))"
    "ls_net_parts ?st = fold (\<lambda>i. change_row i (moved_counts ?s t)) (incident_nets inp ! v) (ls_net_parts st)"
    using m by (simp_all add: apply_move_def Let_def)
  have "part_size ?asg ?s \<noteq> 0" using vl by (auto simp: part_size_zero)
  then have pos: "ls_counts st ! ?s \<noteq> 0" using T(2) [OF s] by simp
  have counts: "int (ls_counts ?st ! p) = part_size (?asg[v := t]) p" if "p < pi_parts inp" for p
    using that T(1,2) s t pos unfolding st part_size_move [OF vl]
    by (auto simp: change_row_nth of_nat_diff)
  have loads: "length (ls_loads ?st ! p) = pi_dimensions inp \<and>
      (\<forall>d < pi_dimensions inp. ls_loads ?st ! p ! d = part_load inp (?asg[v := t]) p d)" if "p < pi_parts inp" for p
    using that T(3-5) s t ws(1) unfolding st part_load_move [OF vl]
    by (auto simp: change_row_nth)
  have nets: "net_rep (?asg[v := t]) (net_pins (pi_nets inp ! i)) (ls_net_parts ?st ! i)"
    if i: "i < length (pi_nets inp)" for i
  proof -
    have "ls_net_parts ?st ! i = (if v \<in> set (net_pins (pi_nets inp ! i)) then moved_counts ?s t (ls_net_parts st ! i)
        else ls_net_parts st ! i)"
      unfolding st incident_nets_nth [OF I(1) v]
      by (subst fold_change_row) (use i T(6) in auto)
    then show ?thesis
      using moved_counts_rep [OF T(7) [OF i] _ vl t(2)] T(7) [OF i] pins_in_other
      by (auto simp: net_rep_def)
  qed
  show ?thesis
    unfolding tables_ok_def using counts loads nets st T(1,3,6) by (simp add: length_fold_change_row)
qed

lemma apply_move_inv:
  assumes inv: "legal_inv inp st" and c: "candidate inp st t v"
    and m: "mv_node m = v" "mv_source m = ls_assignment st ! v" "mv_target m = t"
    and t: "t < pi_parts inp" "ls_counts st ! t = 0"
  shows "legal_inv inp (apply_move inp (incident_nets inp) m st)"
proof -
  let ?asg = "ls_assignment st"
  let ?st = "apply_move inp (incident_nets inp) m st"
  note I = legal_invD [OF inv]
  have v: "v < length (pi_nodes inp)" using c by (simp add: candidate_def)
  then have vl: "v < length ?asg" using I(4) by simp
  have "part_size ?asg t = 0" using I(3) t by (force simp: tables_ok_def)
  then have ne: "t \<noteq> ?asg ! v" using vl by (auto simp: part_size_zero)
  have st: "ls_assignment ?st = ?asg[v := t]" using m by (simp add: apply_move_def Let_def)
  have free: "fixed_part (pi_nodes inp ! v) < 0" using c by (simp add: candidate_def may_leave_def)
  have load: "part_load inp (?asg[v := t]) p d \<le> pi_capacities inp ! p ! d" if p: "p < pi_parts inp" and d: "d < pi_dimensions inp" for p d
  proof -
    have old: "part_load inp ?asg p d \<le> pi_capacities inp ! p ! d" using I(2) p d by (simp add: assignment_legal_def)
    have "ls_loads st ! t ! d + node_weights (pi_nodes inp ! v) ! d \<le> pi_capacities inp ! t ! d"
      using c d by (simp add: candidate_def fits_target_def)
    then have "part_load inp ?asg t d + node_weights (pi_nodes inp ! v) ! d \<le> pi_capacities inp ! t ! d"
      using I(3) t(1) d by (simp add: tables_ok_def)
    then show ?thesis
      unfolding part_load_move [OF vl] using old ne node_weights_shape(2) [OF I(1) v d] by auto
  qed
  have "?asg[v := t] ! w < pi_parts inp \<and> (0 \<le> fixed_part (pi_nodes inp ! w) \<longrightarrow>
      fixed_part (pi_nodes inp ! w) = int (?asg[v := t] ! w))" if "w < length ?asg" for w
    using I(2) t(1) free that by (cases "w = v") (auto simp: assignment_legal_def)
  then have "assignment_legal inp (?asg[v := t])"
    using I(4) load by (simp add: assignment_legal_def)
  moreover have "ls_assignment ?st = replay (pi_assignment inp) (ls_moves ?st)"
    using inv m by (simp add: legal_inv_def replay_def apply_move_def Let_def)
  ultimately show ?thesis
    using I(1) apply_move_tables [OF inv v m t(1) ne] st by (simp add: legal_inv_def)
qed

end
