(* ===== verification/Mfs_Start.thy ===== *)
theory Mfs_Start
  imports Mfs_Moves
begin

text \<open>
  The first pass of \<open>run\<close> of \<open>src/native/mfspart_legalizer.cpp\<close>: it sums up the loads node by node, and
  gives up exactly when the initial assignment overloads a part.
\<close>

section \<open>Loads of a prefix of the nodes\<close>

definition part_numbers_ok :: "'d part_input \<Rightarrow> bool" where
  "part_numbers_ok inp \<longleftrightarrow> (\<forall>row \<in> set (pi_capacities inp). \<forall>c \<in> set row. int64_ok c) \<and>
     (\<forall>node \<in> set (pi_nodes inp). \<forall>w \<in> set (node_weights node). int64_ok w)"

lemma part_size_take:
  "k < length asg \<Longrightarrow> part_size (take (Suc k) asg) p = part_size (take k asg) p + (if asg ! k = p then 1 else 0)"
  by (simp add: part_size_def min_absorb2 Suc_leI)

lemma part_load_take:
  "k < length asg \<Longrightarrow> part_load inp (take (Suc k) asg) p d = part_load inp (take k asg) p d
     + (if asg ! k = p then node_weights (pi_nodes inp ! k) ! d else 0)"
  by (simp add: part_load_def min_absorb2 Suc_leI)

lemma part_load_mono:
  assumes ok: "part_input_ok inp" and d: "d < pi_dimensions inp" and k: "k \<le> length (pi_nodes inp)"
  shows "0 \<le> part_load inp (take k (pi_assignment inp)) p d"
    "part_load inp (take k (pi_assignment inp)) p d \<le> part_load inp (pi_assignment inp) p d"
proof -
  have len: "length (pi_assignment inp) = length (pi_nodes inp)" using ok by (simp add: part_input_ok_def)
  show "0 \<le> part_load inp (take k (pi_assignment inp)) p d"
    unfolding part_load_def using node_weights_shape(2) [OF ok _ d] len by (auto intro!: sum_nonneg)
  have "part_load inp (take k (pi_assignment inp)) p d = (\<Sum>v < k. if pi_assignment inp ! v = p
      then node_weights (pi_nodes inp ! v) ! d else 0)"
    unfolding part_load_def using k len by (intro sum.cong) auto
  also have "\<dots> \<le> part_load inp (pi_assignment inp) p d"
    unfolding part_load_def using k len node_weights_shape(2) [OF ok _ d] by (intro sum_mono2) auto
  finally show "part_load inp (take k (pi_assignment inp)) p d \<le> part_load inp (pi_assignment inp) p d" .
qed

section \<open>One node\<close>

lemma add_load_ok:
  assumes "add_load caps ws ds load = Inr load'" "distinct ds" "\<forall>d \<in> set ds. d < length load"
  shows "length load' = length load \<and> (\<forall>d. load' ! d = (if d \<in> set ds then load ! d + ws ! d else load ! d)) \<and>
    (\<forall>d \<in> set ds. load ! d + ws ! d \<le> caps ! d)"
  using assms
proof (induction ds arbitrary: load)
  case (Cons d ds)
  let ?x = "load ! d + ws ! d"
  from Cons.prems(1) have x: "?x \<le> caps ! d" and r: "add_load caps ws ds (load[d := ?x]) = Inr load'"
    by (auto simp: Let_def split: if_splits)
  have IH: "length load' = length load" "\<And>e. load' ! e = (if e \<in> set ds then load[d := ?x] ! e + ws ! e else load[d := ?x] ! e)"
    "\<And>e. e \<in> set ds \<Longrightarrow> load[d := ?x] ! e + ws ! e \<le> caps ! e"
    using Cons.IH [OF r] Cons.prems(2,3) by auto
  have ne: "load[d := ?x] ! e = load ! e" if "e \<in> set ds" for e
    using that Cons.prems(2) by (metis distinct.simps(2) nth_list_update_neq)
  have "load' ! e = (if e \<in> set (d # ds) then load ! e + ws ! e else load ! e)" for e
    using IH(2) [of e] ne [of e] Cons.prems(2,3) by (auto simp: nth_list_update)
  moreover have "\<forall>e \<in> set (d # ds). load ! e + ws ! e \<le> caps ! e" using IH(3) ne x by auto
  ultimately show ?case using IH(1) by blast
qed simp

lemma add_load_error:
  assumes "add_load caps ws ds load = Inl e" "distinct ds"
  shows "\<exists>d \<in> set ds. e = Exceeds_capacity \<and> caps ! d < load ! d + ws ! d \<or> e = Part_overflow \<and> \<not> int64_ok (load ! d + ws ! d)"
  using assms
proof (induction ds arbitrary: load)
  case (Cons d ds)
  let ?x = "load ! d + ws ! d"
  have ne: "load[d := ?x] ! e = load ! e" if "e \<in> set ds" for e
    using that Cons.prems(2) by (metis distinct.simps(2) nth_list_update_neq)
  show ?case
    using Cons.prems Cons.IH [of "load[d := ?x]"] ne by (fastforce simp: Let_def split: if_splits)
qed simp

section \<open>All nodes\<close>

definition loaded :: "'d part_input \<Rightarrow> nat \<Rightarrow> nat list \<Rightarrow> int list list \<Rightarrow> bool" where
  "loaded inp k counts loads \<longleftrightarrow> length counts = pi_parts inp \<and> length loads = pi_parts inp \<and>
     (\<forall>p < pi_parts inp. int (counts ! p) = part_size (take k (pi_assignment inp)) p \<and>
        length (loads ! p) = pi_dimensions inp \<and>
        (\<forall>d < pi_dimensions inp. loads ! p ! d = part_load inp (take k (pi_assignment inp)) p d \<and>
           part_load inp (take k (pi_assignment inp)) p d \<le> pi_capacities inp ! p ! d))"

definition overload :: "'d part_input \<Rightarrow> part_error \<Rightarrow> bool" where
  "overload inp e \<longleftrightarrow> (\<exists>p < pi_parts inp. \<exists>d < pi_dimensions inp.
     e = Exceeds_capacity \<and> pi_capacities inp ! p ! d < part_load inp (pi_assignment inp) p d \<or>
     e = Part_overflow \<and> INT64_MAX < part_load inp (pi_assignment inp) p d)"

lemma load_node:
  assumes ok: "part_input_ok inp" and k: "k < length (pi_nodes inp)" and l: "loaded inp k counts loads"
    and p: "p = pi_assignment inp ! k"
  shows "case add_load (pi_capacities inp ! p) (node_weights (pi_nodes inp ! k)) [0..<pi_dimensions inp] (loads ! p) of
      Inl e \<Rightarrow> overload inp e
    | Inr load \<Rightarrow> loaded inp (Suc k) (counts[p := counts ! p + 1]) (loads[p := load])"
proof -
  have ka: "k < length (pi_assignment inp)" and pp: "p < pi_parts inp"
    using ok k p by (auto simp: part_input_ok_def)
  have sum: "part_load inp (take (Suc k) (pi_assignment inp)) p d = loads ! p ! d + node_weights (pi_nodes inp ! k) ! d"
    if "d < pi_dimensions inp" for d
    using l that pp p by (simp add: part_load_take [OF ka] loaded_def)
  have Suck: "Suc k \<le> length (pi_nodes inp)" using k by simp
  show ?thesis
  proof (cases "add_load (pi_capacities inp ! p) (node_weights (pi_nodes inp ! k)) [0..<pi_dimensions inp] (loads ! p)")
    case (Inl e)
    then obtain d where d: "d < pi_dimensions inp"
      and e: "e = Exceeds_capacity \<and> pi_capacities inp ! p ! d < part_load inp (take (Suc k) (pi_assignment inp)) p d \<or>
        e = Part_overflow \<and> \<not> int64_ok (part_load inp (take (Suc k) (pi_assignment inp)) p d)"
      using sum by (auto dest!: add_load_error)
    have "overload inp e"
      unfolding overload_def using part_load_mono [OF ok d Suck, of p] e d pp
      by (intro exI [of _ p] conjI exI [of _ d]) (auto simp: int64_ok_def INT64_MAX_def)
    then show ?thesis using Inl by simp
  next
    case (Inr load)
    have len: "length (loads ! p) = pi_dimensions inp" using l pp by (simp add: loaded_def)
    have A: "length load = pi_dimensions inp" "\<And>d. d < pi_dimensions inp \<Longrightarrow> load ! d = loads ! p ! d + node_weights (pi_nodes inp ! k) ! d"
      "\<And>d. d < pi_dimensions inp \<Longrightarrow> load ! d \<le> pi_capacities inp ! p ! d"
      using add_load_ok [OF Inr] len by auto
    have "loaded inp (Suc k) (counts[p := counts ! p + 1]) (loads[p := load])"
      unfolding loaded_def
    proof (intro conjI allI impI)
      fix q d assume q: "q < pi_parts inp"
      have L: "length counts = pi_parts inp" "length loads = pi_parts inp" using l by (auto simp: loaded_def)
      show "int (counts[p := counts ! p + 1] ! q) = part_size (take (Suc k) (pi_assignment inp)) q"
        using l q L p pp by (cases "q = p") (auto simp: loaded_def part_size_take [OF ka])
      show "length (loads[p := load] ! q) = pi_dimensions inp"
        using l q L A(1) by (cases "q = p") (auto simp: loaded_def)
      assume d: "d < pi_dimensions inp"
      show "loads[p := load] ! q ! d = part_load inp (take (Suc k) (pi_assignment inp)) q d"
        using l q L d A(2) sum p by (cases "q = p") (auto simp: loaded_def part_load_take [OF ka])
      show "part_load inp (take (Suc k) (pi_assignment inp)) q d \<le> pi_capacities inp ! q ! d"
        using l q d A(2,3) sum p by (cases "q = p") (auto simp: loaded_def part_load_take [OF ka])
    qed (use l in \<open>auto simp: loaded_def\<close>)
    then show ?thesis using Inr by simp
  qed
qed

lemma load_nodes_exact:
  assumes ok: "part_input_ok inp"
  shows "k \<le> length (pi_nodes inp) \<Longrightarrow> loaded inp k counts loads \<Longrightarrow>
    (case load_nodes inp [k..<length (pi_nodes inp)] (counts, loads) of Inl e \<Rightarrow> overload inp e
     | Inr (counts', loads') \<Rightarrow> loaded inp (length (pi_nodes inp)) counts' loads')"
proof (induction "length (pi_nodes inp) - k" arbitrary: k counts loads)
  case 0
  then show ?case by simp
next
  case (Suc n)
  then have k: "k < length (pi_nodes inp)" by simp
  let ?p = "pi_assignment inp ! k"
  note node = load_node [OF ok k Suc.prems(2) refl]
  show ?case
  proof (cases "add_load (pi_capacities inp ! ?p) (node_weights (pi_nodes inp ! k)) [0..<pi_dimensions inp] (loads ! ?p)")
    case (Inl e)
    then show ?thesis using node k by (simp add: upt_conv_Cons Let_def)
  next
    case (Inr load)
    with node have "loaded inp (Suc k) (counts[?p := counts ! ?p + 1]) (loads[?p := load])" by simp
    from Suc.hyps(1) [OF _ _ this] Suc.hyps(2) k Inr show ?thesis by (simp add: upt_conv_Cons Let_def)
  qed
qed

lemma loaded_start:
  assumes "part_input_ok inp"
  shows "loaded inp 0 (replicate (pi_parts inp) 0) (replicate (pi_parts inp) (replicate (pi_dimensions inp) 0))"
  using assms by (auto simp: loaded_def part_size_def part_load_def part_input_ok_def less_imp_le)

lemma legal_start_cases:
  assumes ok: "part_input_ok inp"
  shows "case legal_start inp of Inl e \<Rightarrow> overload inp e
    | Inr st \<Rightarrow> legal_inv inp st \<and> ls_assignment st = pi_assignment inp \<and> ls_moves st = []"
proof (cases "load_nodes inp [0..<length (pi_nodes inp)]
    (replicate (pi_parts inp) 0, replicate (pi_parts inp) (replicate (pi_dimensions inp) 0))")
  case (Inl e)
  then show ?thesis using load_nodes_exact [OF ok _ loaded_start [OF ok]] by (simp add: legal_start_def)
next
  case (Inr cl)
  obtain counts loads where cl: "cl = (counts, loads)" by (cases cl)
  have len: "length (pi_assignment inp) = length (pi_nodes inp)" using ok by (simp add: part_input_ok_def)
  have l: "loaded inp (length (pi_nodes inp)) counts loads"
    using load_nodes_exact [OF ok _ loaded_start [OF ok]] Inr cl by simp
  have dist: "distinct (net_pins (pi_nets inp ! i))" if "i < length (pi_nets inp)" for i
    using ok that by (auto simp: part_input_ok_def net_ok_def)
  have A: "assignment_legal inp (pi_assignment inp)"
    using l ok len by (simp add: assignment_legal_def loaded_def part_input_ok_def)
  show ?thesis
    using l ok len count_net_rep [OF dist] A
    by (simp add: legal_start_def Inr cl legal_inv_def tables_ok_def loaded_def replay_def)
qed

lemma overload_illegal:
  assumes ok: "part_input_ok inp" and num: "part_numbers_ok inp" and e: "overload inp e"
  shows "\<not> assignment_legal inp (pi_assignment inp)"
proof -
  from e obtain p d where pd: "p < pi_parts inp" "d < pi_dimensions inp"
    and gt: "pi_capacities inp ! p ! d < part_load inp (pi_assignment inp) p d \<or> INT64_MAX < part_load inp (pi_assignment inp) p d"
    by (auto simp: overload_def)
  have "pi_capacities inp ! p \<in> set (pi_capacities inp)" "pi_capacities inp ! p ! d \<in> set (pi_capacities inp ! p)"
    using ok pd by (auto simp: part_input_ok_def)
  then have "int64_ok (pi_capacities inp ! p ! d)" using num unfolding part_numbers_ok_def by blast
  with gt have "pi_capacities inp ! p ! d < part_load inp (pi_assignment inp) p d" by (auto simp: int64_ok_def)
  then show ?thesis using pd by (auto simp: assignment_legal_def not_le)
qed

end
