(* ===== verification/Mfs_Costs.thy ===== *)
theory Mfs_Costs
  imports Mfs_Moves
begin

text \<open>
  The cost of a move in the legalizer (\<open>deltas\<close> of \<open>src/native/mfspart_legalizer.cpp\<close>). Where the numbers of
  the program are exact, the two accumulated deltas are the changes of the two objectives of a partition: the
  weight of the pairs of source and sink in different parts, and the weighted number of parts of the nets.
\<close>

section \<open>The objectives\<close>

definition cut_pairs :: "nat list \<Rightarrow> 'd part_net \<Rightarrow> int" where
  "cut_pairs asg net = (\<Sum>s \<leftarrow> pn_sinks net. bool_int (asg ! pn_source net \<noteq> asg ! s))"

definition net_spread :: "nat list \<Rightarrow> 'd part_net \<Rightarrow> int" where
  "net_spread asg net = int (card ((!) asg ` set (net_pins net)))"

definition pair_cost :: "('d \<Rightarrow> 'a::linordered_idom) \<Rightarrow> 'd part_input \<Rightarrow> nat list \<Rightarrow> 'a" where
  "pair_cost val inp asg = (\<Sum>net \<leftarrow> pi_nets inp. val (pn_weight net) * of_int (cut_pairs asg net))"

definition connectivity_cost :: "('d \<Rightarrow> 'a::linordered_idom) \<Rightarrow> 'd part_input \<Rightarrow> nat list \<Rightarrow> 'a" where
  "connectivity_cost val inp asg = (\<Sum>net \<leftarrow> pi_nets inp. val (pn_weight net) * of_int (net_spread asg net))"

section \<open>One net\<close>

lemma net_rep_keys: "net_rep asg vs m \<Longrightarrow> int (length m) = int (card ((!) asg ` set vs))"
proof -
  assume rep: "net_rep asg vs m"
  have "fst ` set m = {p. map_of m p \<noteq> None}" by (auto simp: map_of_eq_None_iff)
  also have "\<dots> = (!) asg ` set vs"
  proof -
    have "map_of m p \<noteq> None \<longleftrightarrow> pins_in asg vs p \<noteq> 0" for p using rep by (simp add: net_rep_def)
    moreover have "pins_in asg vs p \<noteq> 0 \<longleftrightarrow> p \<in> (!) asg ` set vs" for p
      unfolding pins_in_def by (subst sum_nonneg_eq_0_iff) auto
    ultimately show ?thesis by blast
  qed
  finally have "card (set (map fst m)) = card ((!) asg ` set vs)" by simp
  moreover have "card (set (map fst m)) = length (map fst m)" using rep unfolding net_rep_def by (intro distinct_card) simp
  ultimately show ?thesis by simp
qed

lemma of_int_sum_list: "of_int (\<Sum>x \<leftarrow> xs. f x) = (\<Sum>x \<leftarrow> xs. of_int (f x) :: 'a::linordered_idom)"
  by (induction xs) auto

lemma val_fold_add:
  assumes "\<And>x s. val (fp_add F x (g s)) = val x + (h s :: 'a::linordered_idom)"
  shows "val (fold (\<lambda>s pd. fp_add F pd (g s)) xs x) = val x + (\<Sum>s \<leftarrow> xs. h s)"
  using assms by (induction xs arbitrary: x) auto

lemma net_delta_val:
  assumes F: "exact_numbers F val" and rep: "net_rep (ls_assignment st) (net_pins net) (ls_net_parts st ! i)"
    and net: "net = pi_nets inp ! i" "v \<in> set (net_pins net)" "v < length (ls_assignment st)"
    and s: "source = ls_assignment st ! v" "target \<noteq> source"
    and r: "net_delta F inp st v source target i (pd, cd) = (pd', cd')"
  shows "val pd' = val pd + val (pn_weight net) * of_int (cut_pairs ((ls_assignment st)[v := target]) net - cut_pairs (ls_assignment st) net)"
    "val cd' = val cd + val (pn_weight net) * of_int (net_spread ((ls_assignment st)[v := target]) net - net_spread (ls_assignment st) net)"
proof -
  let ?asg = "ls_assignment st" and ?m = "ls_net_parts st ! i"
  note E = exact_numbersD [OF F]
  have upd: "?asg[v := target] ! x = (if x = v then target else ?asg ! x)" for x
    using net(3) by (simp add: nth_list_update)
  have rep': "net_rep (?asg[v := target]) (net_pins net) (moved_counts source target ?m)"
    using moved_counts_rep [OF rep net(2,3)] s by simp
  have "cd' = fp_add F cd (fp_mul F (pn_weight net) (fp_of_int F (int (length (moved_counts source target ?m)) - int (length ?m))))"
    using r by (simp add: net_delta_def Let_def net)
  then show "val cd' = val cd + val (pn_weight net) * of_int (net_spread (?asg[v := target]) net - net_spread ?asg net)"
    by (simp add: E net_spread_def net_rep_keys [OF rep] net_rep_keys [OF rep'])
  let ?g = "\<lambda>x. fp_mul F (pn_weight net) (fp_of_int F (bool_int (?asg[v := target] ! pn_source net \<noteq> ?asg[v := target] ! x)
    - bool_int (?asg ! pn_source net \<noteq> ?asg ! x)))"
  have "pd' = fold (\<lambda>x pd. fp_add F pd (?g x)) (pn_sinks net) pd"
    using r by (simp add: net_delta_def Let_def net upd)
  then have "val pd' = val pd + (\<Sum>x \<leftarrow> pn_sinks net. val (pn_weight net) * of_int (bool_int (?asg[v := target] ! pn_source net \<noteq> ?asg[v := target] ! x)
    - bool_int (?asg ! pn_source net \<noteq> ?asg ! x)))"
    by (simp add: val_fold_add [where val = val] E)
  then show "val pd' = val pd + val (pn_weight net) * of_int (cut_pairs (?asg[v := target]) net - cut_pairs ?asg net)"
    by (simp add: cut_pairs_def of_int_sum_list sum_list_const_mult sum_list_subtractf right_diff_distrib)
qed

section \<open>All nets of the node\<close>

lemma cut_pairs_other:
  "v \<notin> set (net_pins net) \<Longrightarrow> cut_pairs (asg[v := t]) net = cut_pairs asg net"
  unfolding cut_pairs_def net_pins_def
  by (rule arg_cong [where f = sum_list], rule map_cong, rule refl) (metis list.set_intros nth_list_update_neq)

lemma net_spread_other:
  "v \<notin> set (net_pins net) \<Longrightarrow> net_spread (asg[v := t]) net = net_spread asg net"
  unfolding net_spread_def by (metis (mono_tags, lifting) image_cong nth_list_update_neq)

lemma sum_list_filter_zero:
  fixes f :: "'b \<Rightarrow> 'a::linordered_idom"
  shows "(\<And>x. x \<in> set xs \<Longrightarrow> \<not> P x \<Longrightarrow> f x = 0) \<Longrightarrow> (\<Sum>x \<leftarrow> filter P xs. f x) = (\<Sum>x \<leftarrow> xs. f x)"
  by (induction xs) auto

lemma fold_net_delta:
  assumes "\<And>i pd cd pd' cd'. i \<in> set is' \<Longrightarrow> f i (pd, cd) = (pd', cd') \<Longrightarrow> val pd' = val pd + a i \<and> val cd' = val cd + (b i :: 'a::linordered_idom)"
    and "fold f is' (pd, cd) = (pd', cd')"
  shows "val pd' = val pd + (\<Sum>i \<leftarrow> is'. a i) \<and> val cd' = val cd + (\<Sum>i \<leftarrow> is'. b i)"
  using assms
proof (induction is' arbitrary: pd cd)
  case (Cons i is')
  obtain p c where pc: "f i (pd, cd) = (p, c)" by (cases "f i (pd, cd)")
  with Cons.prems(1) [of i pd cd p c] Cons.IH [of p c] Cons.prems show ?case by fastforce
qed simp

lemma nets_as_indices: "(\<Sum>net \<leftarrow> pi_nets inp. f net) = (\<Sum>i \<leftarrow> [0..<length (pi_nets inp)]. f (pi_nets inp ! i))"
  by (rule arg_cong [where f = sum_list], rule nth_equalityI) auto

theorem move_deltas_val:
  assumes F: "exact_numbers F val" and inv: "legal_inv inp st" and v: "v < length (pi_nodes inp)"
    and t: "t \<noteq> ls_assignment st ! v"
    and r: "move_deltas F inp (incident_nets inp) st v (ls_assignment st ! v) t = (pd, cd)"
  shows "val pd = pair_cost val inp ((ls_assignment st)[v := t]) - pair_cost val inp (ls_assignment st)"
    "val cd = connectivity_cost val inp ((ls_assignment st)[v := t]) - connectivity_cost val inp (ls_assignment st)"
proof -
  let ?asg = "ls_assignment st" and ?w = "\<lambda>i. val (pn_weight (pi_nets inp ! i))"
  let ?nets = "[0..<length (pi_nets inp)]" and ?at = "\<lambda>i. v \<in> set (net_pins (pi_nets inp ! i))"
  let ?a = "\<lambda>i. ?w i * of_int (cut_pairs (?asg[v := t]) (pi_nets inp ! i) - cut_pairs ?asg (pi_nets inp ! i))"
  let ?b = "\<lambda>i. ?w i * of_int (net_spread (?asg[v := t]) (pi_nets inp ! i) - net_spread ?asg (pi_nets inp ! i))"
  note I = legal_invD [OF inv]
  have vl: "v < length ?asg" using v I(4) by simp
  have rep: "net_rep ?asg (net_pins (pi_nets inp ! i)) (ls_net_parts st ! i)" if "i < length (pi_nets inp)" for i
    using I(3) that by (simp add: tables_ok_def)
  have inc: "incident_nets inp ! v = filter ?at ?nets" using incident_nets_nth [OF I(1) v] .
  have step: "val pd' = val pd + ?a i \<and> val cd' = val cd + ?b i"
    if "i \<in> set (filter ?at ?nets)" "net_delta F inp st v (?asg ! v) t i (pd, cd) = (pd', cd')" for i pd cd pd' cd'
    using that net_delta_val [OF F rep refl _ vl refl t that(2)] by auto
  have "val pd = (\<Sum>i \<leftarrow> filter ?at ?nets. ?a i) \<and> val cd = (\<Sum>i \<leftarrow> filter ?at ?nets. ?b i)"
    using fold_net_delta [of "filter ?at ?nets" "net_delta F inp st v (?asg ! v) t" val ?a ?b, OF step] r
    by (simp add: move_deltas_def inc exact_numbersD [OF F])
  moreover have "(\<Sum>i \<leftarrow> filter ?at ?nets. ?a i) = (\<Sum>i \<leftarrow> ?nets. ?a i)"
    by (rule sum_list_filter_zero) (simp add: cut_pairs_other)
  moreover have "(\<Sum>i \<leftarrow> filter ?at ?nets. ?b i) = (\<Sum>i \<leftarrow> ?nets. ?b i)"
    by (rule sum_list_filter_zero) (simp add: net_spread_other)
  ultimately show "val pd = pair_cost val inp (?asg[v := t]) - pair_cost val inp ?asg"
    "val cd = connectivity_cost val inp (?asg[v := t]) - connectivity_cost val inp ?asg"
    by (simp_all add: pair_cost_def connectivity_cost_def nets_as_indices right_diff_distrib sum_list_subtractf)
qed

end
