(* ===== verification/Mfs_Legal.thy ===== *)
theory Mfs_Legal
  imports Mfs_Start Mfs_Costs
begin

text \<open>
  The loop of the legalizer (\<open>run\<close> of \<open>src/native/mfspart_legalizer.cpp\<close>) refines a greedy step relation on
  assignments: it returns, every state it passes is a legal partition, and it makes as many moves as parts
  are missing.
\<close>

section \<open>The abstract step\<close>

definition lowest_empty :: "'d part_input \<Rightarrow> nat list \<Rightarrow> nat \<Rightarrow> bool" where
  "lowest_empty inp asg t \<longleftrightarrow> t < pi_parts inp \<and> t \<notin> set asg \<and> (\<forall>p < t. p \<in> set asg)"

definition movable :: "'d part_input \<Rightarrow> nat list \<Rightarrow> nat \<Rightarrow> nat \<Rightarrow> bool" where
  "movable inp asg t v \<longleftrightarrow> v < length asg \<and> fixed_part (pi_nodes inp ! v) < 0 \<and> 1 < part_size asg (asg ! v) \<and>
     (\<forall>d < pi_dimensions inp. part_load inp asg t d + node_weights (pi_nodes inp ! v) ! d \<le> pi_capacities inp ! t ! d)"

definition move_cost :: "('d \<Rightarrow> 'a::linordered_idom) \<Rightarrow> 'd part_input \<Rightarrow> nat list \<Rightarrow> nat \<Rightarrow> nat \<Rightarrow> 'a \<times> 'a \<times> int \<times> nat \<times> nat" where
  "move_cost val inp asg t v =
    (pair_cost val inp (asg[v := t]) - pair_cost val inp asg,
     connectivity_cost val inp (asg[v := t]) - connectivity_cost val inp asg,
     hd (node_weights (pi_nodes inp ! v)), v, asg ! v)"

inductive greedy_step :: "('d \<Rightarrow> 'a::linordered_idom) \<Rightarrow> 'd part_input \<Rightarrow> nat list \<Rightarrow> nat list \<Rightarrow> bool" for val inp where
  cheapest: "\<lbrakk>lowest_empty inp asg t; movable inp asg t v;
      \<forall>w. movable inp asg t w \<longrightarrow> move_cost val inp asg t v \<le> move_cost val inp asg t w\<rbrakk>
    \<Longrightarrow> greedy_step val inp asg (asg[v := t])"

inductive_cases greedy_stepE: "greedy_step val inp asg asg'"

lemma lowest_empty_unique: "lowest_empty inp asg t \<Longrightarrow> lowest_empty inp asg t' \<Longrightarrow> t = t'"
  unfolding lowest_empty_def by (metis linorder_neqE_nat)

lemma greedy_step_deterministic:
  assumes "greedy_step val inp asg a" "greedy_step val inp asg b"
  shows "a = b"
proof -
  from assms(1) obtain t v where a: "a = asg[v := t]" "lowest_empty inp asg t" "movable inp asg t v"
    "\<forall>w. movable inp asg t w \<longrightarrow> move_cost val inp asg t v \<le> move_cost val inp asg t w" by (rule greedy_stepE)
  from assms(2) obtain t' w where b: "b = asg[w := t']" "lowest_empty inp asg t'" "movable inp asg t' w"
    "\<forall>v. movable inp asg t' v \<longrightarrow> move_cost val inp asg t' w \<le> move_cost val inp asg t' v" by (rule greedy_stepE)
  have t: "t' = t" using lowest_empty_unique a(2) b(2) by blast
  have "move_cost val inp asg t v \<le> move_cost val inp asg t w" using a(4) b(3) t by blast
  moreover have "move_cost val inp asg t w \<le> move_cost val inp asg t v" using b(4) a(3) t by blast
  ultimately have "move_cost val inp asg t v = move_cost val inp asg t w" by (rule antisym)
  then have "v = w" by (simp add: move_cost_def)
  then show ?thesis using a(1) b(1) t by simp
qed

section \<open>Used parts\<close>

lemma part_size_set: "part_size asg p = 0 \<longleftrightarrow> p \<notin> set asg"
  unfolding part_size_zero by (auto simp: in_set_conv_nth)

lemma part_size_nonneg: "0 \<le> part_size asg p"
  by (auto simp: part_size_def intro!: sum_nonneg)

lemma counts_pos:
  assumes "legal_inv inp st" "p < pi_parts inp"
  shows "0 < ls_counts st ! p \<longleftrightarrow> p \<in> set (ls_assignment st)"
proof -
  have "int (ls_counts st ! p) = part_size (ls_assignment st) p"
    using legal_invD(3) [OF assms(1)] assms(2) by (simp add: tables_ok_def)
  then show ?thesis using part_size_set [of "ls_assignment st" p] by auto
qed

lemma length_counts: "legal_inv inp st \<Longrightarrow> length (ls_counts st) = pi_parts inp"
  by (simp add: legal_inv_def tables_ok_def)

lemma assigned_parts: "legal_inv inp st \<Longrightarrow> set (ls_assignment st) \<subseteq> {..<pi_parts inp}"
  by (auto simp: in_set_conv_nth legal_invD(4) intro: legal_invD(5))

lemma used_parts_set: "legal_inv inp st \<Longrightarrow> used_parts st = card (set (ls_assignment st))"
proof -
  assume inv: "legal_inv inp st"
  have "{p. p < length (ls_counts st) \<and> 0 < ls_counts st ! p} = set (ls_assignment st)"
    using counts_pos [OF inv] assigned_parts [OF inv] by (auto simp: length_counts [OF inv])
  then show ?thesis by (simp add: used_parts_def length_filter_conv_card)
qed

lemma first_empty_lowest:
  assumes inv: "legal_inv inp st" and less: "used_parts st < pi_parts inp"
  shows "lowest_empty inp (ls_assignment st) (first_empty st)" "ls_counts st ! first_empty st = 0"
    "first_empty st < pi_parts inp"
proof -
  have "\<exists>c \<in> set (ls_counts st). c = 0"
  proof (rule ccontr)
    assume "\<not> ?thesis"
    then have "filter (\<lambda>c. c > 0) (ls_counts st) = ls_counts st" by (intro filter_True) (metis gr0I)
    then show False using less by (simp add: used_parts_def length_counts [OF inv])
  qed
  then have lt: "first_empty st < length (ls_counts st)"
    unfolding first_empty_def by (metis (mono_tags, lifting) length_takeWhile_le nat_less_le takeWhile_eq_all_conv takeWhile_eq_take take_all_iff order_refl)
  show empty: "ls_counts st ! first_empty st = 0"
    using nth_length_takeWhile [of "\<lambda>c. c \<noteq> 0" "ls_counts st"] lt by (simp add: first_empty_def)
  show t: "first_empty st < pi_parts inp" using lt by (simp add: length_counts [OF inv])
  have "p \<in> set (ls_assignment st)" if "p < first_empty st" for p
  proof -
    have "ls_counts st ! p \<noteq> 0"
      using that unfolding first_empty_def by (metis (mono_tags, lifting) nth_mem set_takeWhileD takeWhile_nth)
    then show ?thesis using counts_pos [OF inv, of p] that t by simp
  qed
  then show "lowest_empty inp (ls_assignment st) (first_empty st)"
    using counts_pos [OF inv t] empty t by (simp add: lowest_empty_def)
qed

lemma candidate_movable:
  assumes "legal_inv inp st" "t < pi_parts inp"
  shows "candidate inp st t v \<longleftrightarrow> movable inp (ls_assignment st) t v"
proof -
  note I = legal_invD [OF assms(1)]
  have "int (ls_counts st ! (ls_assignment st ! v)) = part_size (ls_assignment st) (ls_assignment st ! v)"
    if "v < length (pi_nodes inp)"
    using I(3) I(5) [OF that] by (simp add: tables_ok_def)
  then show ?thesis
    using I(3,4) assms(2) by (auto simp: candidate_def movable_def may_leave_def fits_target_def tables_ok_def)
qed

section \<open>The choice of the move\<close>

lemma sums_ok_empty:
  assumes inv: "legal_inv inp st" and num: "part_numbers_ok inp" and t: "t < pi_parts inp" "ls_counts st ! t = 0"
    and v: "v < length (pi_nodes inp)"
  shows "sums_ok inp st t v"
proof -
  note I = legal_invD [OF inv]
  have "part_size (ls_assignment st) t = 0" using I(3) t by (force simp: tables_ok_def)
  then have "ls_loads st ! t ! d = 0" if "d < pi_dimensions inp" for d
    using I(3) t that part_load_empty [of "ls_assignment st" t inp d] by (simp add: tables_ok_def)
  moreover have "int64_ok (node_weights (pi_nodes inp ! v) ! d)" if "d < pi_dimensions inp" for d
    using num v that node_weights_shape(1) [OF I(1) v] unfolding part_numbers_ok_def by (metis nth_mem)
  ultimately show ?thesis by (simp add: sums_ok_def)
qed

lemma best_move_cases:
  assumes "\<And>v. v \<in> set vs \<Longrightarrow> sums_ok inp st t v"
  shows "\<exists>r. best_move F inp inc st t vs best = Inr r \<and>
    (r = None \<longleftrightarrow> best = None \<and> (\<forall>v \<in> set vs. \<not> (may_leave inp st v \<and> fits_target inp st t v))) \<and>
    (\<forall>m. r = Some m \<longrightarrow> best = Some m \<or> (\<exists>v \<in> set vs. may_leave inp st v \<and> fits_target inp st t v \<and> m = move_of F inp inc st t v))"
  using assms
proof (induction vs arbitrary: best)
  case (Cons v vs)
  have IH: "\<exists>r. best_move F inp inc st t vs b = Inr r \<and>
    (r = None \<longleftrightarrow> b = None \<and> (\<forall>v \<in> set vs. \<not> (may_leave inp st v \<and> fits_target inp st t v))) \<and>
    (\<forall>m. r = Some m \<longrightarrow> b = Some m \<or> (\<exists>v \<in> set vs. may_leave inp st v \<and> fits_target inp st t v \<and> m = move_of F inp inc st t v))" for b
    using Cons.IH Cons.prems by simp
  show ?case
  proof (cases "may_leave inp st v \<and> fits_target inp st t v")
    case False
    then show ?thesis using IH [of best] Cons.prems [of v] by auto
  next
    case True
    then show ?thesis
      using IH [of "case best of None \<Rightarrow> Some (move_of F inp inc st t v) | Some b \<Rightarrow>
          if key_less F (move_key inp (move_of F inp inc st t v)) (move_key inp b) then Some (move_of F inp inc st t v) else Some b"]
        Cons.prems [of v]
      by (auto simp: Let_def split: option.splits if_splits)
  qed
qed simp

definition key_val :: "('d \<Rightarrow> 'a::linordered_idom) \<Rightarrow> 'd cost_key \<Rightarrow> 'a \<times> 'a \<times> int \<times> nat \<times> nat" where
  "key_val val = (\<lambda>(p, c, k). (val p, val c, k))"

lemma key_less_val: "exact_numbers F val \<Longrightarrow> key_less F k k' \<longleftrightarrow> key_val val k < key_val val k'"
  by (cases k; cases k') (auto simp: key_less_def key_val_def exact_numbersD)

lemma best_move_least:
  assumes F: "exact_numbers F val" and r: "best_move F inp inc st t vs best = Inr (Some m)"
  shows "(\<forall>b. best = Some b \<longrightarrow> key_val val (move_key inp m) \<le> key_val val (move_key inp b)) \<and>
    (\<forall>v \<in> set vs. may_leave inp st v \<and> fits_target inp st t v \<longrightarrow>
       key_val val (move_key inp m) \<le> key_val val (move_key inp (move_of F inp inc st t v)))"
  using r
proof (induction vs arbitrary: best)
  case (Cons v vs)
  show ?case
  proof (cases "may_leave inp st v \<and> fits_target inp st t v")
    case False
    then show ?thesis using Cons by (auto split: if_splits)
  next
    case True
    let ?m = "move_of F inp inc st t v"
    let ?b = "case best of None \<Rightarrow> Some ?m | Some b \<Rightarrow> if key_less F (move_key inp ?m) (move_key inp b) then Some ?m else Some b"
    have "best_move F inp inc st t vs ?b = Inr (Some m)"
      using Cons.prems True by (auto simp: Let_def split: if_splits)
    from Cons.IH [OF this] show ?thesis
      by (auto simp: key_less_val [OF F] split: option.splits if_splits dest: order_trans [OF _ less_imp_le])
  qed
qed auto

section \<open>One round\<close>

text \<open>The deltas reported with the moves add up to the change of the two objectives.\<close>

definition accounted :: "('d \<Rightarrow> 'a::linordered_idom) \<Rightarrow> 'd part_input \<Rightarrow> 'd legal_state \<Rightarrow> bool" where
  "accounted val inp st \<longleftrightarrow>
     pair_cost val inp (ls_assignment st) = pair_cost val inp (pi_assignment inp) + (\<Sum>m \<leftarrow> ls_moves st. val (mv_pair_delta m)) \<and>
     connectivity_cost val inp (ls_assignment st) =
       connectivity_cost val inp (pi_assignment inp) + (\<Sum>m \<leftarrow> ls_moves st. val (mv_connectivity_delta m))"

lemma move_of_fields:
  "mv_node (move_of F inp inc st t v) = v" "mv_source (move_of F inp inc st t v) = ls_assignment st ! v"
  "mv_target (move_of F inp inc st t v) = t"
  by (simp_all add: move_of_def split: prod.split)

lemma move_of_cost:
  assumes F: "exact_numbers F val" and inv: "legal_inv inp st" and v: "v < length (pi_nodes inp)"
    and t: "t \<notin> set (ls_assignment st)"
  shows "key_val val (move_key inp (move_of F inp (incident_nets inp) st t v)) = move_cost val inp (ls_assignment st) t v"
proof -
  obtain pd cd where r: "move_deltas F inp (incident_nets inp) st v (ls_assignment st ! v) t = (pd, cd)"
    by (cases "move_deltas F inp (incident_nets inp) st v (ls_assignment st ! v) t")
  have ne: "t \<noteq> ls_assignment st ! v" using t v legal_invD(4) [OF inv] by (metis nth_mem)
  show ?thesis
    using move_deltas_val [OF F inv v ne r] by (simp add: move_of_def r key_val_def move_key_def move_cost_def)
qed

lemma apply_move_used:
  assumes inv: "legal_inv inp st" and inv': "legal_inv inp (apply_move inp inc m st)"
    and c: "movable inp (ls_assignment st) t (mv_node m)" and t: "mv_target m = t" "t \<notin> set (ls_assignment st)"
  shows "used_parts (apply_move inp inc m st) = Suc (used_parts st)"
proof -
  let ?asg = "ls_assignment st" and ?v = "mv_node m"
  have vl: "?v < length ?asg" and two: "1 < part_size ?asg (?asg ! ?v)" using c by (auto simp: movable_def)
  have "t \<noteq> ?asg ! ?v" using t(2) vl nth_mem by fast
  then have "part_size (?asg[?v := t]) (?asg ! ?v) \<noteq> 0" using two by (simp add: part_size_move [OF vl])
  then have "?asg ! ?v \<in> set (?asg[?v := t])" by (simp add: part_size_set)
  moreover have "p \<in> set (?asg[?v := t]) \<longleftrightarrow> p \<in> set ?asg" if "p \<noteq> t" "p \<noteq> ?asg ! ?v" for p
    using that part_size_move [OF vl, of t p] part_size_set [of ?asg p] part_size_set [of "?asg[?v := t]" p] by simp
  ultimately have "p \<in> set (?asg[?v := t]) \<longleftrightarrow> p \<in> insert t (set ?asg)" for p
    using set_update_memI [OF vl, of t] nth_mem [OF vl] by (cases "p = t"; cases "p = ?asg ! ?v") simp_all
  then have "set (?asg[?v := t]) = insert t (set ?asg)" by (rule set_eqI)
  moreover have "ls_assignment (apply_move inp inc m st) = ?asg[?v := t]" using t(1) by (simp add: apply_move_def Let_def)
  ultimately show ?thesis using t(2) by (simp add: used_parts_set [OF inv] used_parts_set [OF inv'])
qed

lemma move_round_cases:
  assumes inv: "legal_inv inp st" and num: "part_numbers_ok inp" and less: "used_parts st < pi_min_used inp"
  shows "best_move F inp (incident_nets inp) st (first_empty st) [0..<length (pi_nodes inp)] None = Inr None \<and>
      (\<nexists>v. movable inp (ls_assignment st) (first_empty st) v) \<or>
    (\<exists>v m. best_move F inp (incident_nets inp) st (first_empty st) [0..<length (pi_nodes inp)] None = Inr (Some m) \<and>
      m = move_of F inp (incident_nets inp) st (first_empty st) v \<and> movable inp (ls_assignment st) (first_empty st) v)"
proof -
  let ?t = "first_empty st"
  have "used_parts st < pi_parts inp" using less legal_invD(1) [OF inv] by (simp add: part_input_ok_def)
  note t = first_empty_lowest [OF inv this]
  have cand: "may_leave inp st v \<and> fits_target inp st ?t v \<longleftrightarrow> movable inp (ls_assignment st) ?t v"
    if "v < length (pi_nodes inp)" for v
    using candidate_movable [OF inv t(3), of v] that by (simp add: candidate_def)
  have "sums_ok inp st ?t v" if "v \<in> set [0..<length (pi_nodes inp)]" for v
    using sums_ok_empty [OF inv num t(3,2)] that by simp
  from best_move_cases [of "[0..<length (pi_nodes inp)]" inp st ?t F "incident_nets inp" None, OF this] obtain r
    where r: "best_move F inp (incident_nets inp) st ?t [0..<length (pi_nodes inp)] None = Inr r"
      "r = None \<longleftrightarrow> (\<forall>v < length (pi_nodes inp). \<not> movable inp (ls_assignment st) ?t v)"
      "\<And>m. r = Some m \<Longrightarrow> \<exists>v < length (pi_nodes inp). movable inp (ls_assignment st) ?t v \<and>
        m = move_of F inp (incident_nets inp) st ?t v"
    using cand by fastforce
  show ?thesis
  proof (cases r)
    case None
    then show ?thesis using r legal_invD(4) [OF inv] by (auto simp: movable_def)
  next
    case (Some m)
    then show ?thesis using r(1) r(3) [OF Some] by auto
  qed
qed

lemma move_round_step:
  assumes inv: "legal_inv inp st" and less: "used_parts st < pi_min_used inp"
    and c: "movable inp (ls_assignment st) (first_empty st) v"
    and m: "m = move_of F inp (incident_nets inp) st (first_empty st) v"
  shows "legal_inv inp (apply_move inp (incident_nets inp) m st)"
    "used_parts (apply_move inp (incident_nets inp) m st) = Suc (used_parts st)"
    "ls_moves (apply_move inp (incident_nets inp) m st) = ls_moves st @ [m]"
proof -
  have "used_parts st < pi_parts inp" using less legal_invD(1) [OF inv] by (simp add: part_input_ok_def)
  note t = first_empty_lowest [OF inv this]
  have "candidate inp st (first_empty st) v" using candidate_movable [OF inv t(3)] c by simp
  from apply_move_inv [OF inv this _ _ _ t(3,2)] show inv': "legal_inv inp (apply_move inp (incident_nets inp) m st)"
    by (simp add: m move_of_fields)
  show "used_parts (apply_move inp (incident_nets inp) m st) = Suc (used_parts st)"
    using apply_move_used [OF inv inv', of "first_empty st"] c t(1) by (simp add: m move_of_fields lowest_empty_def)
  show "ls_moves (apply_move inp (incident_nets inp) m st) = ls_moves st @ [m]"
    by (simp add: apply_move_def Let_def)
qed

lemma move_round_greedy:
  assumes F: "exact_numbers F val" and inv: "legal_inv inp st" and less: "used_parts st < pi_min_used inp"
    and b: "best_move F inp (incident_nets inp) st (first_empty st) [0..<length (pi_nodes inp)] None = Inr (Some m)"
    and c: "movable inp (ls_assignment st) (first_empty st) v" and m: "m = move_of F inp (incident_nets inp) st (first_empty st) v"
  shows "greedy_step val inp (ls_assignment st) (ls_assignment (apply_move inp (incident_nets inp) m st))"
    "accounted val inp st \<Longrightarrow> accounted val inp (apply_move inp (incident_nets inp) m st)"
proof -
  let ?t = "first_empty st" and ?asg = "ls_assignment st"
  have "used_parts st < pi_parts inp" using less legal_invD(1) [OF inv] by (simp add: part_input_ok_def)
  note t = first_empty_lowest [OF inv this]
  have fresh: "?t \<notin> set ?asg" using t(1) by (simp add: lowest_empty_def)
  have cost: "key_val val (move_key inp (move_of F inp (incident_nets inp) st ?t w)) = move_cost val inp ?asg ?t w"
    if "movable inp ?asg ?t w" for w
    using move_of_cost [OF F inv _ fresh] that legal_invD(4) [OF inv] by (simp add: movable_def)
  have "move_cost val inp ?asg ?t v \<le> move_cost val inp ?asg ?t w" if w: "movable inp ?asg ?t w" for w
  proof -
    have "candidate inp st ?t w" using candidate_movable [OF inv t(3)] w by simp
    then show ?thesis
      using best_move_least [OF F b] cost [OF w] cost [OF c] m by (fastforce simp: candidate_def)
  qed
  moreover have asg: "ls_assignment (apply_move inp (incident_nets inp) m st) = ?asg[v := ?t]"
    by (simp add: m move_of_fields apply_move_def Let_def)
  ultimately show "greedy_step val inp ?asg (ls_assignment (apply_move inp (incident_nets inp) m st))"
    using greedy_step.cheapest [OF t(1) c, of val] by simp
  show "accounted val inp (apply_move inp (incident_nets inp) m st)" if "accounted val inp st"
    using that cost [OF c] asg m by (simp add: accounted_def move_cost_def key_val_def move_key_def apply_move_def Let_def)
qed

section \<open>The loop\<close>

abbreviation missing :: "'d part_input \<Rightarrow> 'd legal_state \<Rightarrow> nat" where
  "missing inp st \<equiv> pi_min_used inp - used_parts st"

definition stuck :: "'d part_input \<Rightarrow> nat list \<Rightarrow> bool" where
  "stuck inp asg \<longleftrightarrow> card (set asg) < pi_min_used inp \<and> (\<forall>t v. lowest_empty inp asg t \<longrightarrow> \<not> movable inp asg t v)"

lemma loop_induct [consumes 3, case_names enough blocked step]:
  assumes inv: "legal_inv inp st" and num: "part_numbers_ok inp" and P: "P st"
    and enough: "\<And>st. legal_inv inp st \<Longrightarrow> pi_min_used inp \<le> used_parts st \<Longrightarrow> P st \<Longrightarrow> Q (Inr st)"
    and blocked: "\<And>st. legal_inv inp st \<Longrightarrow> stuck inp (ls_assignment st) \<Longrightarrow> P st \<Longrightarrow> Q (Inl No_legal_move)"
    and step: "\<And>st v m. legal_inv inp st \<Longrightarrow> used_parts st < pi_min_used inp \<Longrightarrow> P st \<Longrightarrow>
      best_move F inp (incident_nets inp) st (first_empty st) [0..<length (pi_nodes inp)] None = Inr (Some m) \<Longrightarrow>
      movable inp (ls_assignment st) (first_empty st) v \<Longrightarrow> m = move_of F inp (incident_nets inp) st (first_empty st) v \<Longrightarrow>
      P (apply_move inp (incident_nets inp) m st)"
  shows "\<exists>r. legalize_loop F inp (incident_nets inp) st = Some r \<and> Q r"
  using inv P
proof (induction "missing inp st" arbitrary: st rule: less_induct)
  case less
  show ?case
  proof (cases "pi_min_used inp \<le> used_parts st")
    case True
    then show ?thesis using enough [OF less.prems(1) True less.prems(2)] by (simp add: legalize_loop.simps)
  next
    case False
    then have few: "used_parts st < pi_min_used inp" by simp
    then have "used_parts st < pi_parts inp" using legal_invD(1) [OF less.prems(1)] by (simp add: part_input_ok_def)
    note t = first_empty_lowest [OF less.prems(1) this]
    from move_round_cases [OF less.prems(1) num few, of F] show ?thesis
    proof (elim disjE exE conjE)
      assume none: "best_move F inp (incident_nets inp) st (first_empty st) [0..<length (pi_nodes inp)] None = Inr None"
        and no: "\<nexists>v. movable inp (ls_assignment st) (first_empty st) v"
      have "stuck inp (ls_assignment st)"
        using no few t(1) lowest_empty_unique [OF _ t(1)] used_parts_set [OF less.prems(1)] unfolding stuck_def by metis
      from blocked [OF less.prems(1) this less.prems(2)] show ?thesis
        using none False by (simp add: legalize_loop.simps)
    next
      fix v m assume b: "best_move F inp (incident_nets inp) st (first_empty st) [0..<length (pi_nodes inp)] None = Inr (Some m)"
        and m: "m = move_of F inp (incident_nets inp) st (first_empty st) v" and c: "movable inp (ls_assignment st) (first_empty st) v"
      note r = move_round_step [OF less.prems(1) few c m]
      have "missing inp (apply_move inp (incident_nets inp) m st) < missing inp st" using r(2) few by simp
      from less.hyps [OF this r(1) step [OF less.prems(1) few less.prems(2) b c m]] show ?thesis
        using b False by (simp add: legalize_loop.simps)
    qed
  qed
qed

text \<open>
  An assignment that is not legal is never accepted: the program rejects it, or the load of a part leaves 64 bits
  while it is summed up, which is undefined behaviour (\<open>overload\<close> tells the two apart).
\<close>

definition legal_result :: "'d part_input \<Rightarrow> part_error + 'd legal_state \<Rightarrow> bool" where
  "legal_result inp r = (case r of
     Inl e \<Rightarrow> (if assignment_legal inp (pi_assignment inp) then e = No_legal_move else overload inp e)
   | Inr st \<Rightarrow> assignment_legal inp (pi_assignment inp) \<and> assignment_legal inp (ls_assignment st) \<and>
       ls_assignment st = replay (pi_assignment inp) (ls_moves st) \<and>
       card (set (ls_assignment st)) = max (pi_min_used inp) (card (set (pi_assignment inp))) \<and>
       length (ls_moves st) = pi_min_used inp - card (set (pi_assignment inp)))"

theorem legalize_total:
  assumes ok: "part_input_ok inp" and num: "part_numbers_ok inp"
  shows "\<exists>r. legalize F inp = Some r \<and> legal_result inp r"
proof (cases "legal_start inp")
  case (Inl e)
  then show ?thesis
    using legal_start_cases [OF ok] overload_illegal [OF ok num, of e] by (auto simp: legalize_def legal_result_def)
next
  case (Inr st0)
  then have inv: "legal_inv inp st0" and st0: "ls_assignment st0 = pi_assignment inp" "ls_moves st0 = []"
    using legal_start_cases [OF ok] by auto
  have legal: "assignment_legal inp (pi_assignment inp)" using inv st0 by (simp add: legal_inv_def)
  let ?P = "\<lambda>st. used_parts st = card (set (pi_assignment inp)) + length (ls_moves st) \<and> (ls_moves st \<noteq> [] \<longrightarrow> used_parts st \<le> pi_min_used inp)"
  have "?P st0" using st0 used_parts_set [OF inv] by simp
  with inv num have "\<exists>r. legalize_loop F inp (incident_nets inp) st0 = Some r \<and> legal_result inp r"
  proof (induction rule: loop_induct)
    case (enough st)
    then show ?case
      using legal used_parts_set [OF enough(1)]
      by (cases "ls_moves st = []") (auto simp: legal_result_def legal_inv_def replay_def)
  next
    case (blocked st)
    then show ?case using legal by (simp add: legal_result_def)
  next
    case (step st v m)
    then show ?case using move_round_step [OF step(1,2,5,6)] by simp
  qed
  then show ?thesis by (simp add: legalize_def Inr)
qed

definition greedy_result :: "('d \<Rightarrow> 'a::linordered_idom) \<Rightarrow> 'd part_input \<Rightarrow> part_error + 'd legal_state \<Rightarrow> bool" where
  "greedy_result val inp r = (case r of
     Inl e \<Rightarrow> (\<exists>asg. (greedy_step val inp)\<^sup>*\<^sup>* (pi_assignment inp) asg \<and> stuck inp asg)
   | Inr st \<Rightarrow> (greedy_step val inp ^^ length (ls_moves st)) (pi_assignment inp) (ls_assignment st) \<and> accounted val inp st)"

theorem legalize_greedy:
  assumes ok: "part_input_ok inp" and num: "part_numbers_ok inp" and legal: "assignment_legal inp (pi_assignment inp)"
    and F: "exact_numbers F val"
  shows "\<exists>r. legalize F inp = Some r \<and> greedy_result val inp r"
proof (cases "legal_start inp")
  case (Inl e)
  then show ?thesis using legal_start_cases [OF ok] overload_illegal [OF ok num] legal by auto
next
  case (Inr st0)
  then have inv: "legal_inv inp st0" and st0: "ls_assignment st0 = pi_assignment inp" "ls_moves st0 = []"
    using legal_start_cases [OF ok] by auto
  let ?P = "\<lambda>st. (greedy_step val inp ^^ length (ls_moves st)) (pi_assignment inp) (ls_assignment st) \<and> accounted val inp st"
  have "?P st0" using st0 by (simp add: accounted_def)
  with inv num have "\<exists>r. legalize_loop F inp (incident_nets inp) st0 = Some r \<and> greedy_result val inp r"
  proof (induction rule: loop_induct)
    case (enough st)
    then show ?case by (simp add: greedy_result_def)
  next
    case (blocked st)
    then show ?case by (auto simp: greedy_result_def dest: relpowp_imp_rtranclp)
  next
    case (step st v m)
    then show ?case
      using move_round_step(3) [OF step(1,2,5,6)] move_round_greedy [OF F step(1,2,4,5,6)] by (auto simp: relpowp_Suc_I)
  qed
  then show ?thesis by (simp add: legalize_def Inr)
qed

end
