(* ===== verification/Channel_Flow.thy ===== *)
theory Channel_Flow
  imports Bsp_Flow
begin

text \<open>
  The minimum-cost flow of the bank and channel assigner (\<open>src/native/chimew_bank_channel_assigner.cpp\<close>,
  class \<open>MinCostFlow\<close>). Its edges, \<open>add_edge\<close> and the pushing of a unit are text the package-pin solver has
  too and are taken from \<open>Bsp_Flow\<close>; modelled here are its search, which also skips nodes that carry the
  sentinel label, its augmenting loop, and \<open>certificate_potentials\<close>, a label-correcting search from all nodes
  at once that counts the edges of each label's path to detect negative cycles. A sum outside the 64-bit
  range is the outcome \<open>Channel_undefined\<close>; loops without a bound are partial functions.
\<close>

datatype channel_error =
    Broken_channel_path
  | Negative_residual_cycle
  | Invalid_certificate
  | No_channel_assignment
  | Ambiguous_channel
  | Incomplete_channels
  | Total_out_of_range
  | Cost_out_of_range
  | Channel_undefined

section \<open>Successive shortest paths\<close>

definition channel_relax :: "network \<Rightarrow> nat \<Rightarrow> nat \<Rightarrow> labels \<Rightarrow> labels option" where
  "channel_relax g node i t =
    (let edge = g ! node ! i; v = to_node edge in
     if capacity edge \<le> 0 \<or> distance t ! node = flow_infinity then Some t
     else let candidate = distance t ! node + cost edge in
       if \<not> int64_ok candidate then None
       else if candidate < distance t ! v then
         (let t = t\<lparr>distance := (distance t)[v := candidate],
                    previous_node := (previous_node t)[v := int node],
                    previous_edge := (previous_edge t)[v := int i]\<rparr>
          in Some (if in_queue t ! v then t
                   else t\<lparr>in_queue := (in_queue t)[v := True], queue := queue t @ [v]\<rparr>))
       else Some t)"

fun channel_relax_all :: "network \<Rightarrow> nat \<Rightarrow> nat list \<Rightarrow> labels \<Rightarrow> labels option" where
  "channel_relax_all g node [] t = Some t"
| "channel_relax_all g node (i # js) t =
    (case channel_relax g node i t of None \<Rightarrow> None | Some t' \<Rightarrow> channel_relax_all g node js t')"

definition channel_visit :: "network \<Rightarrow> labels \<Rightarrow> labels option" where
  "channel_visit g t =
    (let node = hd (queue t) in
     channel_relax_all g node [0..<length (g ! node)]
       (t\<lparr>queue := tl (queue t), in_queue := (in_queue t)[node := False]\<rparr>))"

partial_function (option) channel_search :: "network \<Rightarrow> labels \<Rightarrow> (channel_error + labels) option" where
  "channel_search g t =
    (if queue t = [] then Some (Inr t)
     else case channel_visit g t of None \<Rightarrow> Some (Inl Channel_undefined) | Some t' \<Rightarrow> channel_search g t')"

partial_function (option) channel_augment ::
    "labels \<Rightarrow> nat \<Rightarrow> nat \<Rightarrow> network \<Rightarrow> (channel_error + network) option" where
  "channel_augment t source node g =
    (if node = source then Some (Inr g)
     else if previous_node t ! node < 0 then Some (Inl Broken_channel_path)
     else let u = nat (previous_node t ! node); i = nat (previous_edge t ! node)
       in channel_augment t source u (push_unit g u i node))"

partial_function (option) channel_flow_loop ::
    "nat \<Rightarrow> nat \<Rightarrow> nat \<Rightarrow> nat \<Rightarrow> int \<Rightarrow> network \<Rightarrow> (channel_error + (nat \<times> int \<times> network)) option" where
  "channel_flow_loop source sink target flow spent g =
    (if flow < target then
       Option.bind (channel_search g (labels_start (length g) source)) (\<lambda>r. case r of
         Inl e \<Rightarrow> Some (Inl e)
       | Inr t \<Rightarrow>
         if distance t ! sink = flow_infinity then Some (Inr (flow, spent, g))
         else Option.bind (channel_augment t source sink g) (\<lambda>r. case r of
           Inl e \<Rightarrow> Some (Inl e)
         | Inr g' \<Rightarrow>
           if \<not> int64_ok (spent + distance t ! sink) then Some (Inl Channel_undefined)
           else channel_flow_loop source sink target (flow + 1) (spent + distance t ! sink) g'))
     else Some (Inr (flow, spent, g)))"

definition channel_solve ::
    "nat \<Rightarrow> nat \<Rightarrow> nat \<Rightarrow> network \<Rightarrow> (channel_error + (nat \<times> int \<times> network)) option" where
  "channel_solve source sink target g = channel_flow_loop source sink target 0 0 g"

section \<open>The certificate\<close>

record certificate =
  cert_distance :: "int list"
  path_length :: "nat list"
  cert_queued :: "bool list"
  cert_queue :: "nat list"

definition certificate_start :: "nat \<Rightarrow> certificate" where
  "certificate_start nodes =
    \<lparr>cert_distance = replicate nodes 0, path_length = replicate nodes 0,
     cert_queued = replicate nodes True, cert_queue = [0..<nodes]\<rparr>"

text \<open>The body of the loop over the edges of \<open>node\<close>.\<close>

definition certificate_edge :: "nat \<Rightarrow> nat \<Rightarrow> flow_edge \<Rightarrow> certificate \<Rightarrow> channel_error + certificate" where
  "certificate_edge nodes node edge t =
    (if capacity edge \<le> 0 then Inr t
     else let candidate = cert_distance t ! node + cost edge; v = to_node edge in
       if \<not> int64_ok candidate then Inl Channel_undefined
       else if cert_distance t ! v \<le> candidate then Inr t
       else
         (let t = t\<lparr>cert_distance := (cert_distance t)[v := candidate],
                    path_length := (path_length t)[v := path_length t ! node + 1]\<rparr> in
          if path_length t ! v \<ge> nodes then Inl Negative_residual_cycle
          else Inr (if cert_queued t ! v then t
                    else t\<lparr>cert_queued := (cert_queued t)[v := True], cert_queue := cert_queue t @ [v]\<rparr>)))"

fun certificate_edges :: "nat \<Rightarrow> nat \<Rightarrow> flow_edge list \<Rightarrow> certificate \<Rightarrow> channel_error + certificate" where
  "certificate_edges nodes node [] t = Inr t"
| "certificate_edges nodes node (edge # edges) t =
    (case certificate_edge nodes node edge t of Inl e \<Rightarrow> Inl e
     | Inr t' \<Rightarrow> certificate_edges nodes node edges t')"

definition certificate_visit :: "network \<Rightarrow> certificate \<Rightarrow> channel_error + certificate" where
  "certificate_visit g t =
    (let node = hd (cert_queue t) in
     certificate_edges (length g) node (g ! node)
       (t\<lparr>cert_queue := tl (cert_queue t), cert_queued := (cert_queued t)[node := False]\<rparr>))"

partial_function (option) certificate_loop :: "network \<Rightarrow> certificate \<Rightarrow> (channel_error + certificate) option" where
  "certificate_loop g t =
    (if cert_queue t = [] then Some (Inr t)
     else case certificate_visit g t of Inl e \<Rightarrow> Some (Inl e) | Inr t' \<Rightarrow> certificate_loop g t')"

text \<open>The loops that check the reduced costs of all residual edges.\<close>

fun certificate_check_edges :: "int list \<Rightarrow> (nat \<times> flow_edge) list \<Rightarrow> channel_error option" where
  "certificate_check_edges d [] = None"
| "certificate_check_edges d ((node, edge) # edges) =
    (if 0 < capacity edge then
       (if \<not> int64_ok (cost edge + d ! node) \<or> \<not> int64_ok (cost edge + d ! node - d ! to_node edge) then Some Channel_undefined
        else if cost edge + d ! node - d ! to_node edge < 0 then Some Invalid_certificate
        else certificate_check_edges d edges)
     else certificate_check_edges d edges)"

definition certificate_potentials :: "network \<Rightarrow> (channel_error + int list) option" where
  "certificate_potentials g =
    Option.bind (certificate_loop g (certificate_start (length g))) (\<lambda>r. Some (case r of
      Inl e \<Rightarrow> Inl e
    | Inr t \<Rightarrow>
      case certificate_check_edges (cert_distance t)
        (concat (map (\<lambda>node. map (Pair node) (g ! node)) [0..<length g])) of
        Some e \<Rightarrow> Inl e
      | None \<Rightarrow> Inr (cert_distance t)))"

declare channel_search.simps [code] channel_augment.simps [code] channel_flow_loop.simps [code]
  certificate_loop.simps [code]

end
