(* ===== verification/Flow_Arcs.thy ===== *)
theory Flow_Arcs
  imports Bsp_Network
begin

text \<open>
  Networks given by a list of arcs, and the flow a residual network carries. Both minimum-cost-flow kernels
  (\<open>src/native/bsp_pin_solver.cpp\<close>, \<open>src/native/chimew_bank_channel_assigner.cpp\<close>) build their networks with
  \<open>add_edge\<close>; here an arc keeps its number, its forward edge and its reverse edge are found at fixed
  positions, and a residual network of the same shape is read as a flow on the arcs: conservation, value and
  cost from \<open>flow_state\<close>, optimality from a potential, and the cut that bounds every flow.
\<close>

section \<open>Arcs and their positions\<close>

record arc =
  arc_from :: nat
  arc_to :: nat
  arc_capacity :: int
  arc_cost :: int

definition add_arc :: "arc \<Rightarrow> network \<Rightarrow> network" where
  "add_arc a g = add_edge (arc_from a) (arc_to a) (arc_capacity a) (arc_cost a) g"

definition arc_network :: "nat \<Rightarrow> arc list \<Rightarrow> network" where
  "arc_network n as = fold add_arc as (replicate n [])"

definition arcs_ok :: "nat \<Rightarrow> arc list \<Rightarrow> bool" where
  "arcs_ok n as \<longleftrightarrow> (\<forall>a \<in> set as. arc_from a < n \<and> arc_to a < n \<and> arc_from a \<noteq> arc_to a \<and> 0 \<le> arc_capacity a)"

definition forward_at :: "nat \<Rightarrow> arc list \<Rightarrow> nat \<Rightarrow> nat" where
  "forward_at n as k = length (arc_network n (take k as) ! arc_from (as ! k))"

definition reverse_at :: "nat \<Rightarrow> arc list \<Rightarrow> nat \<Rightarrow> nat" where
  "reverse_at n as k = length (arc_network n (take k as) ! arc_to (as ! k))"

lemma length_add_arc [simp]: "length (add_arc a g) = length g"
  by (simp add: add_arc_def)

lemma length_arc_network [simp]: "length (arc_network n as) = n"
proof -
  have "length (fold add_arc as g) = length g" for g by (induction as arbitrary: g) auto
  then show ?thesis by (simp add: arc_network_def)
qed

lemma arc_network_Nil [simp]: "arc_network n [] = replicate n []"
  by (simp add: arc_network_def)

lemma arc_network_snoc: "arc_network n (as @ [a]) = add_arc a (arc_network n as)"
  by (simp add: arc_network_def)

lemma arcs_ok_snoc: "arcs_ok n (as @ [a]) \<longleftrightarrow> arcs_ok n as \<and>
    arc_from a < n \<and> arc_to a < n \<and> arc_from a \<noteq> arc_to a \<and> 0 \<le> arc_capacity a"
  by (auto simp: arcs_ok_def)

lemma arcs_okD:
  assumes "arcs_ok n as" "k < length as"
  shows "arc_from (as ! k) < n" "arc_to (as ! k) < n" "arc_from (as ! k) \<noteq> arc_to (as ! k)" "0 \<le> arc_capacity (as ! k)"
  using assms by (auto simp: arcs_ok_def)

lemma positions_snoc:
  "k < length as \<Longrightarrow> forward_at n (as @ [a]) k = forward_at n as k"
  "k < length as \<Longrightarrow> reverse_at n (as @ [a]) k = reverse_at n as k"
  "forward_at n (as @ [a]) (length as) = length (arc_network n as ! arc_from a)"
  "reverse_at n (as @ [a]) (length as) = length (arc_network n as ! arc_to a)"
  by (simp_all add: forward_at_def reverse_at_def nth_append)

lemma arc_network_ok: "arcs_ok n as \<Longrightarrow> network_ok (arc_network n as)"
proof (induction as rule: rev_induct)
  case Nil
  then show ?case using network_ok_empty by simp
next
  case (snoc a as)
  then show ?case by (simp add: arcs_ok_snoc arc_network_snoc add_arc_def add_edge_network_ok)
qed

text \<open>Where the two edges of an arc are, and what they hold when the network is built.\<close>

lemma arc_edges:
  assumes "arcs_ok n as" "k < length as"
  shows "arc_network n as ! arc_from (as ! k) ! forward_at n as k =
      \<lparr>to_node = arc_to (as ! k), reverse_edge = reverse_at n as k, capacity = arc_capacity (as ! k), cost = arc_cost (as ! k)\<rparr> \<and>
    arc_network n as ! arc_to (as ! k) ! reverse_at n as k =
      \<lparr>to_node = arc_from (as ! k), reverse_edge = forward_at n as k, capacity = 0, cost = - arc_cost (as ! k)\<rparr> \<and>
    edge_at (arc_network n as) (arc_from (as ! k)) (forward_at n as k) \<and>
    edge_at (arc_network n as) (arc_to (as ! k)) (reverse_at n as k)"
  using assms
proof (induction as arbitrary: k rule: rev_induct)
  case (snoc a as)
  have a: "arcs_ok n as" "arc_from a < length (arc_network n as)" "arc_to a < length (arc_network n as)" "arc_from a \<noteq> arc_to a"
    using snoc.prems by (auto simp: arcs_ok_snoc)
  note nth = add_edge_nth [OF a(2-4), where c = "arc_capacity a" and w = "arc_cost a"]
  show ?case
  proof (cases "k < length as")
    case True
    then show ?thesis using snoc.IH [OF a(1) True] nth(1,4)
      by (simp add: positions_snoc nth_append arc_network_snoc add_arc_def)
  next
    case False
    then have "k = length as" using snoc.prems by simp
    then show ?thesis using nth(2-4) by (simp add: positions_snoc arc_network_snoc add_arc_def)
  qed
qed simp

text \<open>Every edge belongs to an arc, and a sum over a row is a sum over the arcs at its node.\<close>

lemma row_sum_arcs:
  fixes F :: "nat \<Rightarrow> int"
  assumes "arcs_ok n as" "x < n"
  shows "(\<Sum>j < length (arc_network n as ! x). F j) =
    (\<Sum>k < length as. (if arc_from (as ! k) = x then F (forward_at n as k) else 0) +
      (if arc_to (as ! k) = x then F (reverse_at n as k) else 0))"
  using assms(1)
proof (induction as rule: rev_induct)
  case Nil
  then show ?case using assms(2) by simp
next
  case (snoc a as)
  have a: "arcs_ok n as" "arc_from a < n" "arc_to a < n" "arc_from a \<noteq> arc_to a"
    using snoc.prems by (auto simp: arcs_ok_snoc)
  have len: "length (add_arc a (arc_network n as) ! x) = length (arc_network n as ! x) +
      (if arc_from a = x then 1 else 0) + (if arc_to a = x then 1 else 0)"
    using a by (auto simp: add_arc_def add_edge_def Let_def)
  have old: "(\<Sum>k < length as. (if arc_from ((as @ [a]) ! k) = x then F (forward_at n (as @ [a]) k) else 0) +
      (if arc_to ((as @ [a]) ! k) = x then F (reverse_at n (as @ [a]) k) else 0)) =
     (\<Sum>j < length (arc_network n as ! x). F j)"
    unfolding snoc.IH [OF a(1)] by (intro sum.cong) (auto simp: positions_snoc nth_append)
  show ?case
    using a(4) unfolding arc_network_snoc len by (simp add: old positions_snoc)
qed

lemma edge_is_arc:
  assumes "arcs_ok n as" "edge_at (arc_network n as) x j"
  obtains k where "k < length as" "x = arc_from (as ! k)" "j = forward_at n as k"
  | k where "k < length as" "x = arc_to (as ! k)" "j = reverse_at n as k"
proof -
  let ?F = "\<lambda>i. if i = j then 1 else (0::int)"
  have x: "x < n" and j: "j < length (arc_network n as ! x)" using assms(2) by (auto simp: edge_at_def)
  have "(\<Sum>k < length as. (if arc_from (as ! k) = x then ?F (forward_at n as k) else 0) +
      (if arc_to (as ! k) = x then ?F (reverse_at n as k) else 0)) = 1"
    unfolding row_sum_arcs [OF assms(1) x, of ?F, symmetric] using j by simp
  then obtain k where "k < length as" "(if arc_from (as ! k) = x then ?F (forward_at n as k) else 0) +
      (if arc_to (as ! k) = x then ?F (reverse_at n as k) else 0) \<noteq> 0"
    by (metis (no_types, lifting) lessThan_iff sum.neutral zero_neq_one)
  then show ?thesis using that by (auto split: if_splits)
qed

section \<open>Residual networks as flows\<close>

definition arc_state :: "nat \<Rightarrow> arc list \<Rightarrow> network \<Rightarrow> bool" where
  "arc_state n as g \<longleftrightarrow> arcs_ok n as \<and> network_ok g \<and> shape g = shape (arc_network n as) \<and>
     same_pairs (arc_network n as) g"

definition carried :: "nat \<Rightarrow> arc list \<Rightarrow> network \<Rightarrow> nat \<Rightarrow> int" where
  "carried n as g k = capacity (g ! arc_to (as ! k) ! reverse_at n as k)"

lemma arc_state_edges:
  assumes st: "arc_state n as g" and k: "k < length as"
  shows "edge_at g (arc_from (as ! k)) (forward_at n as k)" "target g (arc_from (as ! k)) (forward_at n as k) = arc_to (as ! k)"
    "weight g (arc_from (as ! k)) (forward_at n as k) = arc_cost (as ! k)"
    "capacity (g ! arc_from (as ! k) ! forward_at n as k) = arc_capacity (as ! k) - carried n as g k"
    "edge_at g (arc_to (as ! k)) (reverse_at n as k)" "target g (arc_to (as ! k)) (reverse_at n as k) = arc_from (as ! k)"
    "weight g (arc_to (as ! k)) (reverse_at n as k) = - arc_cost (as ! k)"
    "0 \<le> carried n as g k" "carried n as g k \<le> arc_capacity (as ! k)"
proof -
  have ok: "arcs_ok n as" "network_ok g" "shape g = shape (arc_network n as)" "same_pairs (arc_network n as) g"
    using st by (auto simp: arc_state_def)
  note e = arc_edges [OF ok(1) k] and sh = shape_eqD [OF ok(3)]
  show f: "edge_at g (arc_from (as ! k)) (forward_at n as k)" "edge_at g (arc_to (as ! k)) (reverse_at n as k)"
    using e sh(3) by auto
  show tf: "target g (arc_from (as ! k)) (forward_at n as k) = arc_to (as ! k)"
    "weight g (arc_from (as ! k)) (forward_at n as k) = arc_cost (as ! k)"
    "target g (arc_to (as ! k)) (reverse_at n as k) = arc_from (as ! k)"
    "weight g (arc_to (as ! k)) (reverse_at n as k) = - arc_cost (as ! k)"
    using e sh(4) [OF f(1)] sh(4) [OF f(2)] sh(6) [OF f(1)] sh(6) [OF f(2)] by auto
  have p: "partner g (arc_from (as ! k)) (forward_at n as k) = reverse_at n as k"
    using e sh(5) [OF f(1)] by auto
  have "pair_capacity g (arc_from (as ! k)) (forward_at n as k) =
      pair_capacity (arc_network n as) (arc_from (as ! k)) (forward_at n as k)"
    using ok(4) e by (simp add: same_pairs_def)
  then show c: "capacity (g ! arc_from (as ! k) ! forward_at n as k) = arc_capacity (as ! k) - carried n as g k"
    using e tf p by (simp add: pair_capacity_def carried_def)
  show "0 \<le> carried n as g k" using network_okD(6) [OF ok(2) f(2)] by (simp add: carried_def)
  show "carried n as g k \<le> arc_capacity (as ! k)" using network_okD(6) [OF ok(2) f(1)] c by simp
qed

lemma arc_residual:
  assumes st: "arc_state n as g" and k: "k < length as"
  shows "residual g (arc_from (as ! k)) (forward_at n as k) \<longleftrightarrow> carried n as g k < arc_capacity (as ! k)"
    "residual g (arc_to (as ! k)) (reverse_at n as k) \<longleftrightarrow> 0 < carried n as g k"
  using arc_state_edges [OF assms] by (auto simp: residual_def carried_def)

lemma cap_out_arcs:
  assumes st: "arc_state n as g" and x: "x < n"
  shows "cap_out g x = (\<Sum>k < length as. (if arc_from (as ! k) = x then arc_capacity (as ! k) - carried n as g k else 0) +
    (if arc_to (as ! k) = x then carried n as g k else 0))"
proof -
  have ok: "arcs_ok n as" "shape g = shape (arc_network n as)" using st by (auto simp: arc_state_def)
  have len: "length (g ! x) = length (arc_network n as ! x)" using shape_eqD(1,2) [OF ok(2)] x by simp
  show ?thesis unfolding cap_out_def len row_sum_arcs [OF ok(1) x]
    using arc_state_edges(4) [OF st] by (intro sum.cong) (auto simp: carried_def)
qed

lemma sum_at_node:
  fixes F :: "nat \<Rightarrow> int"
  shows "y < n \<Longrightarrow> (\<Sum>x < n. if y = x then F x else 0) = F y"
  by simp

lemma residual_cost_arcs:
  assumes st: "arc_state n as g"
  shows "residual_cost g = (\<Sum>k < length as. (arc_capacity (as ! k) - carried n as g k) * arc_cost (as ! k) -
    carried n as g k * arc_cost (as ! k))"
proof -
  have ok: "arcs_ok n as" "shape g = shape (arc_network n as)" using st by (auto simp: arc_state_def)
  have n: "length g = n" using shape_eqD(1) [OF ok(2)] by simp
  have len: "x < n \<Longrightarrow> length (g ! x) = length (arc_network n as ! x)" for x using shape_eqD(2) [OF ok(2)] n by simp
  let ?F = "\<lambda>x j. capacity (g ! x ! j) * weight g x j"
  have "residual_cost g = (\<Sum>x < n. \<Sum>k < length as. (if arc_from (as ! k) = x then ?F x (forward_at n as k) else 0) +
      (if arc_to (as ! k) = x then ?F x (reverse_at n as k) else 0))"
    unfolding residual_cost_def n by (rule sum.cong) (auto simp: len row_sum_arcs [OF ok(1)])
  also have "\<dots> = (\<Sum>k < length as. (\<Sum>x < n. if arc_from (as ! k) = x then ?F x (forward_at n as k) else 0) +
      (\<Sum>x < n. if arc_to (as ! k) = x then ?F x (reverse_at n as k) else 0))"
    by (subst sum.swap) (simp only: sum.distrib)
  also have "\<dots> = (\<Sum>k < length as. ?F (arc_from (as ! k)) (forward_at n as k) + ?F (arc_to (as ! k)) (reverse_at n as k))"
    using arcs_okD(1,2) [OF ok(1)] by (intro sum.cong refl arg_cong2 [where f = "(+)"] sum_at_node) auto
  also have "\<dots> = (\<Sum>k < length as. (arc_capacity (as ! k) - carried n as g k) * arc_cost (as ! k) -
      carried n as g k * arc_cost (as ! k))"
    using arc_state_edges(3,4,7) [OF st] by (intro sum.cong) (auto simp: carried_def)
  finally show ?thesis .
qed

section \<open>Flows on arcs\<close>

definition net_out :: "arc list \<Rightarrow> (nat \<Rightarrow> int) \<Rightarrow> nat \<Rightarrow> int" where
  "net_out as f x = (\<Sum>k < length as. (if arc_from (as ! k) = x then f k else 0) - (if arc_to (as ! k) = x then f k else 0))"

definition arc_flow :: "nat \<Rightarrow> arc list \<Rightarrow> nat \<Rightarrow> nat \<Rightarrow> int \<Rightarrow> (nat \<Rightarrow> int) \<Rightarrow> bool" where
  "arc_flow n as s t amount f \<longleftrightarrow> (\<forall>k < length as. 0 \<le> f k \<and> f k \<le> arc_capacity (as ! k)) \<and>
     (\<forall>x < n. net_out as f x = (if x = s then amount else 0) - (if x = t then amount else 0))"

definition flow_cost :: "arc list \<Rightarrow> (nat \<Rightarrow> int) \<Rightarrow> int" where
  "flow_cost as f = (\<Sum>k < length as. f k * arc_cost (as ! k))"

lemma arc_state_start: "arcs_ok n as \<Longrightarrow> arc_state n as (arc_network n as)"
  by (simp add: arc_state_def arc_network_ok same_pairs_def)

lemma carried_start: "arcs_ok n as \<Longrightarrow> k < length as \<Longrightarrow> carried n as (arc_network n as) k = 0"
  using arc_edges [of n as k] by (simp add: carried_def)

lemma flow_state_arcs: "arcs_ok n as \<Longrightarrow> flow_state (arc_network n as) s t C flow spent g \<Longrightarrow> arc_state n as g"
  by (auto simp: arc_state_def flow_state_def search_pre_def)

text \<open>The outer loop keeps a flow: its value is the number of rounds and its cost the sum of the distances.\<close>

lemma flow_state_flow:
  assumes ok: "arcs_ok n as" and fs: "flow_state (arc_network n as) s t C flow spent g"
  shows "arc_flow n as s t (int flow) (carried n as g)" "flow_cost as (carried n as g) = spent"
proof -
  let ?g0 = "arc_network n as" and ?f = "carried n as g"
  note st = flow_state_arcs [OF ok fs] and st0 = arc_state_start [OF ok]
  have "net_out as ?f x = (if x = s then int flow else 0) - (if x = t then int flow else 0)" if x: "x < n" for x
  proof -
    have "cap_out ?g0 x - cap_out g x = net_out as ?f x"
      unfolding cap_out_arcs [OF st x] cap_out_arcs [OF st0 x] net_out_def sum_subtractf [symmetric]
      by (intro sum.cong) (auto simp: carried_start [OF ok])
    moreover have "cap_out g x = cap_out ?g0 x - (if x = s then int flow else 0) + (if x = t then int flow else 0)"
      using fs x by (simp add: flow_state_def)
    ultimately show ?thesis by simp
  qed
  then show "arc_flow n as s t (int flow) ?f"
    using arc_state_edges(8,9) [OF st] by (simp add: arc_flow_def)
  have "residual_cost ?g0 - residual_cost g = 2 * flow_cost as ?f"
    unfolding residual_cost_arcs [OF st] residual_cost_arcs [OF st0] flow_cost_def sum_subtractf [symmetric] sum_distrib_left
    by (intro sum.cong) (auto simp: carried_start [OF ok] algebra_simps)
  moreover have "residual_cost g = residual_cost ?g0 - 2 * spent" using fs by (simp add: flow_state_def)
  ultimately show "flow_cost as ?f = spent" by simp
qed

lemma potential_net_out:
  assumes "arcs_ok n as"
  shows "(\<Sum>x < n. p x * net_out as f x) = (\<Sum>k < length as. f k * (p (arc_from (as ! k)) - p (arc_to (as ! k))))"
proof -
  have "(\<Sum>x < n. p x * net_out as f x) = (\<Sum>x < n. \<Sum>k < length as.
      (if arc_from (as ! k) = x then p x * f k else 0) - (if arc_to (as ! k) = x then p x * f k else 0))"
    unfolding net_out_def sum_distrib_left by (intro sum.cong) (auto simp: algebra_simps)
  also have "\<dots> = (\<Sum>k < length as. (\<Sum>x < n. if arc_from (as ! k) = x then p x * f k else 0) -
      (\<Sum>x < n. if arc_to (as ! k) = x then p x * f k else 0))"
    by (subst sum.swap) (simp only: sum_subtractf)
  also have "\<dots> = (\<Sum>k < length as. p (arc_from (as ! k)) * f k - p (arc_to (as ! k)) * f k)"
    using arcs_okD(1,2) [OF assms] by (intro sum.cong refl arg_cong2 [where f = "(-)"] sum_at_node) auto
  finally show ?thesis by (simp add: algebra_simps)
qed

lemma flow_value_sum:
  assumes "arcs_ok n as" "arc_flow n as s t amount f" "s < n" "t < n"
  shows "(\<Sum>k < length as. f k * (p (arc_from (as ! k)) - p (arc_to (as ! k)))) = amount * (p s - p t)"
proof -
  have "(\<Sum>x < n. p x * net_out as f x) = (\<Sum>x < n. (if s = x then p x * amount else 0) - (if t = x then p x * amount else 0))"
    using assms(2) by (intro sum.cong) (auto simp: arc_flow_def)
  also have "\<dots> = p s * amount - p t * amount"
    using assms(3,4) by (simp add: sum_subtractf)
  finally show ?thesis by (simp add: potential_net_out [OF assms(1)] algebra_simps)
qed

text \<open>With a potential that is feasible on the residual edges, no flow of the same value is cheaper.\<close>

lemma flow_optimal:
  assumes st: "arc_state n as g" and pot: "potential g p" and nodes: "s < n" "t < n"
    and flow: "arc_flow n as s t amount (carried n as g)" "arc_flow n as s t amount f"
  shows "flow_cost as (carried n as g) \<le> flow_cost as f"
proof -
  have ok: "arcs_ok n as" using st by (simp add: arc_state_def)
  let ?x = "carried n as g"
  let ?r = "\<lambda>k. arc_cost (as ! k) + p (arc_from (as ! k)) - p (arc_to (as ! k))"
  have split: "flow_cost as h = (\<Sum>k < length as. h k * ?r k) - amount * (p s - p t)"
    if "arc_flow n as s t amount h" for h
    unfolding flow_cost_def flow_value_sum [OF ok that nodes, symmetric] sum_subtractf [symmetric]
    by (intro sum.cong) (auto simp: algebra_simps)
  have "?x k * ?r k \<le> f k * ?r k" if k: "k < length as" for k
  proof -
    note e = arc_state_edges [OF st k]
    have up: "0 \<le> ?r k" if "?x k < arc_capacity (as ! k)"
      using potentialD [OF pot arc_residual(1) [OF st k, THEN iffD2, OF that]] e by simp
    have down: "?r k \<le> 0" if "0 < ?x k"
      using potentialD [OF pot arc_residual(2) [OF st k, THEN iffD2, OF that]] e by simp
    have f: "0 \<le> f k" "f k \<le> arc_capacity (as ! k)" using flow(2) k by (auto simp: arc_flow_def)
    consider "?x k < f k" | "?x k = f k" | "f k < ?x k" by linarith
    then show ?thesis
    proof cases
      case 1
      then show ?thesis using up f by (intro mult_right_mono) auto
    next
      case 3
      then show ?thesis using down f by (intro mult_right_mono_neg) auto
    qed simp
  qed
  then show ?thesis unfolding split [OF flow(1)] split [OF flow(2)]
    by (intro diff_right_mono sum_mono) simp
qed

text \<open>A set of nodes that no residual edge leaves bounds the value of every flow.\<close>

lemma flow_cut:
  assumes st: "arc_state n as g" and nodes: "s < n" "t < n"
    and flow: "arc_flow n as s t amount (carried n as g)" "arc_flow n as s t amount' f"
    and closed: "\<And>u i. residual g u i \<Longrightarrow> u \<in> S \<Longrightarrow> target g u i \<in> S" and ends: "s \<in> S" "t \<notin> S"
  shows "amount' \<le> amount"
proof -
  have ok: "arcs_ok n as" using st by (simp add: arc_state_def)
  let ?p = "\<lambda>x. if x \<in> S then 1 else (0::int)" and ?x = "carried n as g"
  have "f k * (?p (arc_from (as ! k)) - ?p (arc_to (as ! k))) \<le> ?x k * (?p (arc_from (as ! k)) - ?p (arc_to (as ! k)))"
    if k: "k < length as" for k
  proof -
    note e = arc_state_edges [OF st k] and res = arc_residual [OF st k]
    have f: "0 \<le> f k" "f k \<le> arc_capacity (as ! k)" using flow(2) k by (auto simp: arc_flow_def)
    have "?x k = arc_capacity (as ! k)" if "arc_from (as ! k) \<in> S" "arc_to (as ! k) \<notin> S"
      using closed [OF res(1) [THEN iffD2]] that e by (metis order_le_less)
    moreover have "?x k = 0" if "arc_from (as ! k) \<notin> S" "arc_to (as ! k) \<in> S"
      using closed [OF res(2) [THEN iffD2]] that e by (metis order_le_less)
    ultimately show ?thesis using f by simp
  qed
  then have "(\<Sum>k < length as. f k * (?p (arc_from (as ! k)) - ?p (arc_to (as ! k)))) \<le>
      (\<Sum>k < length as. ?x k * (?p (arc_from (as ! k)) - ?p (arc_to (as ! k))))"
    by (intro sum_mono) simp
  then have "amount' * (?p s - ?p t) \<le> amount * (?p s - ?p t)"
    unfolding flow_value_sum [OF ok flow(1) nodes, of ?p] flow_value_sum [OF ok flow(2) nodes, of ?p] .
  then show ?thesis using ends by simp
qed

end
