(* ===== verification/Channel_Search.thy ===== *)
theory Channel_Search
  imports Channel_Flow Flow_Arcs
begin

text \<open>
  The flow of the bank and channel assigner (\<open>src/native/chimew_bank_channel_assigner.cpp\<close>) computes what
  the flow of the package-pin solver computes: on the states a search passes through no node of the queue
  carries the sentinel, so the extra test never fires, and the search provides the contract \<open>path_search\<close>.
\<close>

lemma channel_relax_eq: "distance t ! u \<noteq> flow_infinity \<Longrightarrow> channel_relax g u i t = relax g u i t"
  by (simp add: channel_relax_def relax_def Let_def)

lemma channel_relax_all_eq:
  assumes pre: "search_pre g p s C" and "scan_post g p s C u t t" "\<forall>i \<in> set js. edge_at g u i"
  shows "channel_relax_all g u js t = relax_all g u js t"
  using assms(2,3)
proof (induction js arbitrary: t)
  case (Cons i js)
  obtain t1 where t1: "relax g u i t = Some t1" "scan_post g p s C u t t1"
    using relax_step [OF pre Cons.prems(1), of i] Cons.prems(2) by auto
  have "scan_post g p s C u t1 t1" using t1(2) by (auto simp: scan_post_def)
  moreover have "distance t ! u \<noteq> flow_infinity"
    using Cons.prems(1) by (auto simp: scan_post_def reached_def)
  ultimately show ?case using t1(1) Cons.IH Cons.prems(2) by (simp add: channel_relax_eq)
qed simp

lemma channel_visit_eq:
  assumes pre: "search_pre g p s C" and st: "loop_state g p s C t" and q: "queue t \<noteq> []"
  shows "channel_visit g t = visit_front g t"
proof -
  obtain u r where ur: "queue t = u # r" using q by (cases "queue t") auto
  have "\<forall>i \<in> set [0..<length (g ! u)]. edge_at g u i" using front_scan(1) [OF st ur] by (simp add: edge_at_def)
  from channel_relax_all_eq [OF pre front_scan(2) [OF st ur] this] show ?thesis
    using ur by (simp add: channel_visit_def visit_front_def)
qed

lemma channel_search_eq:
  assumes pre: "search_pre g p s C" and "loop_state g p s C t"
  shows "\<exists>t'. channel_search g t = Some (Inr t') \<and> search_loop g t = Some (Inr t')"
  using assms(2)
proof (induction t rule: wf_induct_rule [OF wf_measures, of "[slack_sum (length g) p, \<lambda>t. length (queue t)]"])
  case (1 t)
  show ?case
  proof (cases "queue t = []")
    case True
    then show ?thesis by (subst channel_search.simps, subst search_loop.simps) simp
  next
    case False
    obtain t' where t': "visit_front g t = Some t'" "loop_state g p s C t'"
      "(t', t) \<in> measures [slack_sum (length g) p, \<lambda>t. length (queue t)]"
      using visit_front_step [OF pre 1(2) False] by blast
    with 1(1) [OF t'(3,2)] False channel_visit_eq [OF pre 1(2) False] show ?thesis
      by (subst channel_search.simps, subst search_loop.simps) simp
  qed
qed

interpretation channel_correcting: path_search "\<lambda>s g. channel_search g (labels_start (length g) s)"
proof
  fix g p s C
  assume pre: "search_pre g p s C"
  then show "\<exists>t. channel_search g (labels_start (length g) s) = Some (Inr t) \<and> shortest_tree g p s C t"
    using channel_search_eq [OF pre labels_start_state [OF pre]] shortest_paths_correct [OF pre]
    by (auto simp: shortest_paths_def)
qed

lemma channel_augment_eq: "augment t s v g = Some r \<Longrightarrow> r = Inr h \<Longrightarrow> channel_augment t s v g = Some (Inr h)"
proof (induction rule: augment.raw_induct [rotated, consumes 1])
  case (1 f t s v g r)
  then show ?case
    by (subst channel_augment.simps) (auto simp: Let_def split: if_splits)
qed

lemma channel_flow_ends:
  assumes "flow_state g0 s k C flow spent g" "k < length g0" "flow \<le> goal"
    "int goal * (int (length g0) * C) \<le> INT64_MAX"
  shows "\<exists>flow' spent' h. channel_flow_loop s k goal flow spent g = Some (Inr (flow', spent', h)) \<and>
    flow_state g0 s k C flow' spent' h \<and> flow' \<le> goal \<and> (flow' = goal \<or> cut_off h s k C)"
  using assms(1,3)
proof (induction "goal - flow" arbitrary: flow spent g)
  case 0
  then show ?case by (subst channel_flow_loop.simps) auto
next
  case (Suc m)
  then have lt: "flow < goal" by simp
  obtain t where t: "channel_search g (labels_start (length g) s) = Some (Inr t)"
    and step: "if distance t ! k = flow_infinity then cut_off g s k C
     else int64_ok (spent + distance t ! k) \<and> (\<exists>h. augment t s k g = Some (Inr h) \<and>
       flow_state g0 s k C (flow + 1) (spent + distance t ! k) h)"
    using channel_correcting.flow_round_step [OF Suc.prems(1) assms(2) lt assms(4)] by blast
  show ?case
  proof (cases "distance t ! k = flow_infinity")
    case True
    then have "channel_flow_loop s k goal flow spent g = Some (Inr (flow, spent, g))"
      using t lt by (subst channel_flow_loop.simps) simp
    then show ?thesis using Suc.prems lt True step by auto
  next
    case False
    then obtain h where h: "augment t s k g = Some (Inr h)" "flow_state g0 s k C (flow + 1) (spent + distance t ! k) h"
      "int64_ok (spent + distance t ! k)" using step by auto
    note channel_augment_eq [OF h(1) refl]
    then have "channel_flow_loop s k goal flow spent g = channel_flow_loop s k goal (flow + 1) (spent + distance t ! k) h"
      using False t lt h(3) by (subst channel_flow_loop.simps) simp
    then show ?thesis using Suc.hyps(1) [of "flow + 1", OF _ h(2)] Suc.hyps(2) lt by auto
  qed
qed

end
