(* ===== verification/Channel_Certificate.thy ===== *)
theory Channel_Certificate
  imports Channel_Search
begin

text \<open>
  The certificate of the bank and channel assigner (\<open>certificate_potentials\<close> in
  \<open>src/native/chimew_bank_channel_assigner.cpp\<close>) is exact: it ends, it returns a feasible potential when the
  residual network has no cycle of negative cost, and reports a negative cycle when there is one. Every
  label has a chain of nodes behind it whose recorded labels are at least the current ones; without a
  negative cycle the nodes of a chain are distinct, so that a path of as many edges as there are nodes is
  the proof of one.
\<close>

definition negative_cycle :: "network \<Rightarrow> bool" where
  "negative_cycle g \<longleftrightarrow> (\<exists>v c. walk g v v c \<and> c < 0)"

lemma walk_potential: "walk g s v c \<Longrightarrow> potential g p \<Longrightarrow> p v \<le> p s + c"
proof (induction rule: walk.induct)
  case (extend u c i)
  then show ?case using potentialD [OF extend.prems, of u i] by simp
qed simp

lemma potential_no_negative_cycle: "potential g p \<Longrightarrow> \<not> negative_cycle g"
  using walk_potential by (force simp: negative_cycle_def)

section \<open>Chains of labels\<close>

fun label_chain :: "network \<Rightarrow> int list \<Rightarrow> (nat \<times> int) list \<Rightarrow> bool" where
  "label_chain g d [] \<longleftrightarrow> False"
| "label_chain g d [(x, a)] \<longleftrightarrow> x < length g \<and> d ! x \<le> a"
| "label_chain g d ((y, b) # (x, a) # r) \<longleftrightarrow> y < length g \<and> d ! y \<le> b \<and>
     (\<exists>i. residual g x i \<and> target g x i = y \<and> b = a + weight g x i) \<and> label_chain g d ((x, a) # r)"

lemma label_chain_Cons:
  "label_chain g d ((y, b) # r) \<Longrightarrow> y < length g \<and> d ! y \<le> b"
  by (cases "(g, d, (y, b) # r)" rule: label_chain.cases) auto

lemma label_chain_extend:
  "label_chain g d ((x, a) # r) \<Longrightarrow> residual g x i \<Longrightarrow> target g x i = y \<Longrightarrow> y < length g \<Longrightarrow> d ! y \<le> a + weight g x i \<Longrightarrow>
    label_chain g d ((y, a + weight g x i) # (x, a) # r)"
  by auto

lemma label_chain_mono:
  "label_chain g d xs \<Longrightarrow> \<forall>v < length g. d' ! v \<le> d ! v \<Longrightarrow> label_chain g d' xs"
  by (induction g d xs rule: label_chain.induct) (auto intro: order_trans)

lemma label_chain_nodes: "label_chain g d xs \<Longrightarrow> (x, a) \<in> set xs \<Longrightarrow> x < length g \<and> d ! x \<le> a"
  by (induction g d xs rule: label_chain.induct) auto

lemma label_chain_walk:
  "label_chain g d xs \<Longrightarrow> (x, a) \<in> set xs \<Longrightarrow> walk g x (fst (hd xs)) (snd (hd xs) - a)"
proof (induction g d xs rule: label_chain.induct)
  case (2 g d y b)
  then show ?case using walk.stay by simp
next
  case (3 g d y b z c r)
  show ?case
  proof (cases "(x, a) = (y, b)")
    case True
    then show ?thesis using walk.stay by simp
  next
    case False
    obtain i where i: "residual g z i" "target g z i = y" "b = c + weight g z i" using 3(2) by auto
    have "walk g x z (c - a)" using 3(1) [OF _ ] 3(2,3) False by auto
    from walk.extend [OF this i(1)] show ?thesis using i by (simp add: algebra_simps)
  qed
qed simp

text \<open>A new label below a recorded one closes a negative cycle.\<close>

lemma label_chain_fresh:
  assumes chain: "label_chain g d ((u, a) # r)" and e: "residual g u i"
    and less: "a + weight g u i < d ! target g u i" and none: "\<not> negative_cycle g"
  shows "target g u i \<notin> fst ` set ((u, a) # r)"
proof
  assume "target g u i \<in> fst ` set ((u, a) # r)"
  then obtain z where z: "z \<in> set ((u, a) # r)" "fst z = target g u i" by (metis imageE)
  define b where "b = snd z"
  have b: "(target g u i, b) \<in> set ((u, a) # r)" using z(1) unfolding z(2) [symmetric] b_def by simp
  have "walk g (target g u i) u (a - b)" using label_chain_walk [OF chain b] by simp
  from walk.extend [OF this e] have "walk g (target g u i) (target g u i) (a - b + weight g u i)" .
  moreover have "a - b + weight g u i < 0" using label_chain_nodes [OF chain b] less by simp
  ultimately show False using none by (auto simp: negative_cycle_def)
qed

section \<open>The invariant of the loop\<close>

definition chained :: "network \<Rightarrow> certificate \<Rightarrow> nat \<Rightarrow> bool" where
  "chained g t v \<longleftrightarrow> (\<exists>r. label_chain g (cert_distance t) ((v, cert_distance t ! v) # r) \<and>
     distinct (map fst ((v, cert_distance t ! v) # r)) \<and> length r = path_length t ! v)"

definition cert_shape :: "nat \<Rightarrow> certificate \<Rightarrow> bool" where
  "cert_shape n t \<longleftrightarrow> length (cert_distance t) = n \<and> length (path_length t) = n \<and> length (cert_queued t) = n \<and>
     distinct (cert_queue t) \<and> (\<forall>v. v \<in> set (cert_queue t) \<longleftrightarrow> v < n \<and> cert_queued t ! v)"

definition cert_inv :: "network \<Rightarrow> int \<Rightarrow> certificate \<Rightarrow> bool" where
  "cert_inv g C t \<longleftrightarrow> cert_shape (length g) t \<and>
     (\<forall>v < length g. path_length t ! v < length g \<and> cert_distance t ! v \<le> 0 \<and>
        - (int (path_length t ! v) * C) \<le> cert_distance t ! v) \<and>
     (\<not> negative_cycle g \<longrightarrow> (\<forall>v < length g. chained g t v))"

definition cert_relaxed :: "network \<Rightarrow> certificate \<Rightarrow> nat \<Rightarrow> nat \<Rightarrow> bool" where
  "cert_relaxed g t u i \<longleftrightarrow>
     (residual g u i \<longrightarrow> cert_distance t ! target g u i \<le> cert_distance t ! u + weight g u i)"

definition cert_settled :: "network \<Rightarrow> nat set \<Rightarrow> certificate \<Rightarrow> bool" where
  "cert_settled g X t \<longleftrightarrow>
     (\<forall>u < length g. u \<notin> X \<longrightarrow> u \<notin> set (cert_queue t) \<longrightarrow> (\<forall>i. cert_relaxed g t u i))"

definition cert_slack :: "nat \<Rightarrow> int \<Rightarrow> certificate \<Rightarrow> nat" where
  "cert_slack n C t = (\<Sum>v < n. nat (cert_distance t ! v + int n * C))"

definition cert_pre :: "network \<Rightarrow> int \<Rightarrow> bool" where
  "cert_pre g C \<longleftrightarrow> network_ok g \<and> cost_bound g C \<and> int (length g) * C < flow_infinity"

definition cert_lowered :: "certificate \<Rightarrow> nat \<Rightarrow> nat \<Rightarrow> int \<Rightarrow> certificate" where
  "cert_lowered t u v c =
    (let t = t\<lparr>cert_distance := (cert_distance t)[v := c], path_length := (path_length t)[v := path_length t ! u + 1]\<rparr>
     in if cert_queued t ! v then t
        else t\<lparr>cert_queued := (cert_queued t)[v := True], cert_queue := cert_queue t @ [v]\<rparr>)"

lemma cert_lowered_simps [simp]:
  "cert_distance (cert_lowered t u v c) = (cert_distance t)[v := c]"
  "path_length (cert_lowered t u v c) = (path_length t)[v := path_length t ! u + 1]"
  by (simp_all add: cert_lowered_def Let_def)

lemma cert_lowered_shape:
  assumes "cert_shape n t" "v < n"
  shows "cert_shape n (cert_lowered t u v c)" "set (cert_queue (cert_lowered t u v c)) = insert v (set (cert_queue t))"
  using assms by (auto simp: cert_shape_def cert_lowered_def Let_def nth_list_update)

lemma cert_invD:
  assumes "cert_inv g C t" "v < length g"
  shows "path_length t ! v < length g" "cert_distance t ! v \<le> 0" "- (int (path_length t ! v) * C) \<le> cert_distance t ! v"
    "\<not> negative_cycle g \<Longrightarrow> chained g t v"
  using assms by (auto simp: cert_inv_def)

lemma cert_shapeD: "cert_inv g C t \<Longrightarrow> cert_shape (length g) t"
  by (simp add: cert_inv_def)

lemma cert_edge_bounds:
  assumes pre: "cert_pre g C" and inv: "cert_inv g C t" and e: "edge_at g u i"
  shows "int64_ok (cert_distance t ! u + weight g u i)"
    "- (int (path_length t ! u + 1) * C) \<le> cert_distance t ! u + weight g u i"
    "- (int (length g) * C) \<le> cert_distance t ! u"
proof -
  have u: "u < length g" using e by (simp add: edge_at_def)
  have C: "0 \<le> C" "int (length g) * C < flow_infinity" "cost_bound g C"
    using pre by (auto simp: cert_pre_def cost_bound_def)
  note b = cert_invD [OF inv u] and w = cost_boundD [OF C(3) e]
  show low: "- (int (path_length t ! u + 1) * C) \<le> cert_distance t ! u + weight g u i"
    using b(3) w by (simp add: algebra_simps)
  have "int (path_length t ! u + 1) * C \<le> int (length g) * C" "int (path_length t ! u) * C \<le> int (length g) * C"
    using b(1) C(1) by (intro mult_right_mono; simp)+
  then show "- (int (length g) * C) \<le> cert_distance t ! u" using b(3) by linarith
  have "C \<le> int (length g) * C" using u C(1) by (simp add: mult_le_cancel_right1)
  then show "int64_ok (cert_distance t ! u + weight g u i)"
    using low b(2) w C(2) \<open>int (path_length t ! u + 1) * C \<le> int (length g) * C\<close>
    by (simp add: int64_ok_def flow_infinity_def INT64_MAX_def)
qed

lemma chained_keep:
  assumes "chained g t v" "\<forall>x < length g. cert_distance t' ! x \<le> cert_distance t ! x"
    "cert_distance t' ! v = cert_distance t ! v" "path_length t' ! v = path_length t ! v"
  shows "chained g t' v"
proof -
  obtain r where r: "label_chain g (cert_distance t) ((v, cert_distance t ! v) # r)"
    "distinct (map fst ((v, cert_distance t ! v) # r))" "length r = path_length t ! v"
    using assms(1) by (auto simp: chained_def)
  have "label_chain g (cert_distance t') ((v, cert_distance t' ! v) # r)"
    unfolding assms(3) by (rule label_chain_mono [OF r(1) assms(2)])
  moreover have "distinct (map fst ((v, cert_distance t' ! v) # r))" using r(2) by simp
  moreover have "length r = path_length t' ! v" using r(3) assms(4) by simp
  ultimately show ?thesis unfolding chained_def by (intro exI [of _ r] conjI)
qed

lemma chain_length:
  assumes "label_chain g d xs" "distinct (map fst xs)"
  shows "length xs \<le> length g"
proof -
  have "fst ` set xs \<subseteq> {..<length g}" using label_chain_nodes [OF assms(1)] by auto
  then have "card (fst ` set xs) \<le> card {..<length g}" by (intro card_mono) simp_all
  then show ?thesis using distinct_card [OF assms(2)] by simp
qed

text \<open>Lowering a label: the chain of the new label is that of the scanned node with one node more.\<close>

lemma lowered_chained:
  assumes pre: "cert_pre g C" and inv: "cert_inv g C t" and e: "residual g u i"
    and less: "cert_distance t ! u + weight g u i < cert_distance t ! target g u i" and none: "\<not> negative_cycle g"
  shows "chained g (cert_lowered t u (target g u i) (cert_distance t ! u + weight g u i)) (target g u i)"
    "path_length t ! u + 1 < length g"
proof -
  let ?v = "target g u i" and ?d = "cert_distance t"
  let ?c = "?d ! u + weight g u i"
  have ok: "network_ok g" using pre by (simp add: cert_pre_def)
  note at = residual_edge [OF e] and tgt = network_okD [OF ok residual_edge [OF e]]
  have u: "u < length g" using at by (simp add: edge_at_def)
  obtain r where r: "label_chain g ?d ((u, ?d ! u) # r)" "distinct (map fst ((u, ?d ! u) # r))"
    "length r = path_length t ! u" using cert_invD(4) [OF inv u none] by (auto simp: chained_def)
  have len: "length ?d = length g" "length (path_length t) = length g"
    using cert_shapeD [OF inv] by (auto simp: cert_shape_def)
  let ?d' = "?d[?v := ?c]"
  have le: "\<forall>x < length g. ?d' ! x \<le> ?d ! x" using less len tgt(7) by (simp add: nth_list_update)
  have fresh: "?v \<notin> fst ` set ((u, ?d ! u) # r)" by (rule label_chain_fresh [OF r(1) e less none])
  have "label_chain g ?d' ((?v, ?c) # (u, ?d ! u) # r)"
    using label_chain_extend [OF label_chain_mono [OF r(1) le] e refl tgt(7)] tgt(7) len by simp
  moreover have "distinct (map fst ((?v, ?c) # (u, ?d ! u) # r))" using fresh r(2) by simp
  moreover have "length ((u, ?d ! u) # r) = path_length t ! u + 1" using r(3) by simp
  moreover have "?d' ! ?v = ?c" "path_length (cert_lowered t u ?v ?c) ! ?v = path_length t ! u + 1"
    using tgt(7) len by simp_all
  ultimately show "chained g (cert_lowered t u ?v ?c) ?v"
    unfolding chained_def cert_lowered_simps(1) by metis
  have "length ((?v, ?c) # (u, ?d ! u) # r) \<le> length g" by (rule chain_length) fact+
  then show "path_length t ! u + 1 < length g" using r(3) by simp
qed

lemma cert_lowered_inv:
  assumes pre: "cert_pre g C" and inv: "cert_inv g C t" and e: "residual g u i"
    and less: "cert_distance t ! u + weight g u i < cert_distance t ! target g u i"
    and short: "path_length t ! u + 1 < length g"
  shows "cert_inv g C (cert_lowered t u (target g u i) (cert_distance t ! u + weight g u i))"
proof -
  let ?v = "target g u i" and ?d = "cert_distance t"
  let ?c = "?d ! u + weight g u i"
  let ?t = "cert_lowered t u ?v ?c"
  have ok: "network_ok g" using pre by (simp add: cert_pre_def)
  note tgt = network_okD [OF ok residual_edge [OF e]] and sh = cert_shapeD [OF inv]
  have len: "length ?d = length g" "length (path_length t) = length g" using sh by (auto simp: cert_shape_def)
  have le: "\<forall>x < length g. ?d[?v := ?c] ! x \<le> ?d ! x" using less len tgt(7) by (simp add: nth_list_update)
  have "path_length ?t ! x < length g \<and> cert_distance ?t ! x \<le> 0 \<and>
      - (int (path_length ?t ! x) * C) \<le> cert_distance ?t ! x" if x: "x < length g" for x
    using cert_invD(1-3) [OF inv x] cert_invD(2) [OF inv tgt(7)] short less len x
      cert_edge_bounds(2) [OF pre inv residual_edge [OF e]]
    by (cases "x = ?v") auto
  moreover have "chained g ?t x" if x: "x < length g" and none: "\<not> negative_cycle g" for x
  proof (cases "x = ?v")
    case True
    then show ?thesis using lowered_chained(1) [OF pre inv e less none] by simp
  next
    case False
    then show ?thesis
      using chained_keep [OF cert_invD(4) [OF inv x none], of ?t] le by simp
  qed
  ultimately show ?thesis using cert_lowered_shape(1) [OF sh tgt(7)] by (simp add: cert_inv_def)
qed

lemma cert_lowered_slack:
  assumes "length (cert_distance t) = n" "v < n" "- (int n * C) \<le> c" "c < cert_distance t ! v"
  shows "cert_slack n C (cert_lowered t u v c) < cert_slack n C t"
  unfolding cert_slack_def using assms
  by (intro sum_strict_mono_ex1) (auto simp: nth_list_update)

section \<open>Scanning a node\<close>

definition cert_post :: "network \<Rightarrow> int \<Rightarrow> nat \<Rightarrow> certificate \<Rightarrow> certificate \<Rightarrow> bool" where
  "cert_post g C u t t' \<longleftrightarrow>
     cert_inv g C t' \<and> u \<notin> set (cert_queue t') \<and> cert_settled g {u} t' \<and>
     (\<forall>i. cert_relaxed g t u i \<longrightarrow> cert_relaxed g t' u i) \<and>
     (t' = t \<or> cert_slack (length g) C t' < cert_slack (length g) C t)"

lemma cert_post_trans: "cert_post g C u t t' \<Longrightarrow> cert_post g C u t' t'' \<Longrightarrow> cert_post g C u t t''"
  by (auto simp: cert_post_def)

lemma certificate_edge_cases:
  assumes "cert_shape n t" "to_node e < n" "int64_ok (cert_distance t ! u + cost e)"
  shows "certificate_edge n u e t =
    (if capacity e \<le> 0 \<or> cert_distance t ! to_node e \<le> cert_distance t ! u + cost e then Inr t
     else if path_length t ! u + 1 \<ge> n then Inl Negative_residual_cycle
     else Inr (cert_lowered t u (to_node e) (cert_distance t ! u + cost e)))"
  using assms by (simp add: certificate_edge_def cert_lowered_def Let_def cert_shape_def)

lemma cert_lowered_relaxed:
  assumes "length (cert_distance t) = length g" "c \<le> cert_distance t ! v" "u \<noteq> v" "cert_relaxed g t u j"
  shows "cert_relaxed g (cert_lowered t x v c) u j"
  using assms by (cases "target g u j = v"; cases "v < length (cert_distance t)")
    (auto simp: cert_relaxed_def not_less list_update_beyond)

lemma certificate_edge_step:
  assumes pre: "cert_pre g C" and post: "cert_post g C u t t" and e: "edge_at g u i"
  shows "(certificate_edge (length g) u (g ! u ! i) t = Inl Negative_residual_cycle \<and> negative_cycle g) \<or>
    (\<exists>t'. certificate_edge (length g) u (g ! u ! i) t = Inr t' \<and> cert_post g C u t t' \<and> cert_relaxed g t' u i)"
proof -
  let ?v = "target g u i" and ?c = "cert_distance t ! u + weight g u i"
  let ?t = "cert_lowered t u ?v ?c"
  have inv: "cert_inv g C t" and q: "u \<notin> set (cert_queue t)" and settled: "cert_settled g {u} t"
    using post by (auto simp: cert_post_def)
  have ok: "network_ok g" using pre by (simp add: cert_pre_def)
  note tgt = network_okD [OF ok e] and sh = cert_shapeD [OF inv] and b = cert_edge_bounds [OF pre inv e]
  have u: "u < length g" using e by (simp add: edge_at_def)
  have len: "length (cert_distance t) = length g" using sh by (simp add: cert_shape_def)
  note eq = certificate_edge_cases [OF sh tgt(7) b(1)]
  show ?thesis
  proof (cases "residual g u i \<and> ?c < cert_distance t ! ?v")
    case False
    then have "cert_relaxed g t u i" by (auto simp: cert_relaxed_def)
    moreover have "certificate_edge (length g) u (g ! u ! i) t = Inr t"
      using False eq e by (auto simp: residual_def)
    ultimately show ?thesis using post by blast
  next
    case True
    then have r: "residual g u i" and less: "?c < cert_distance t ! ?v" by auto
    have cap: "\<not> (capacity (g ! u ! i) \<le> 0 \<or> cert_distance t ! ?v \<le> ?c)"
      using r less by (simp add: residual_def)
    show ?thesis
    proof (cases "path_length t ! u + 1 < length g")
      case False
      then have "negative_cycle g" using lowered_chained(2) [OF pre inv r less] by blast
      then show ?thesis using eq cap False by simp
    next
      case short: True
      have inv2: "cert_inv g C ?t" by (rule cert_lowered_inv [OF pre inv r less short])
      have queue: "set (cert_queue ?t) = insert ?v (set (cert_queue t))" by (rule cert_lowered_shape(2) [OF sh tgt(7)])
      have keep: "cert_relaxed g ?t y j" if "y \<noteq> ?v" "cert_relaxed g t y j" for y j
        by (rule cert_lowered_relaxed) (use that less len in auto)
      have "cert_settled g {u} ?t"
        using settled queue keep by (auto simp: cert_settled_def)
      moreover have "cert_slack (length g) C ?t < cert_slack (length g) C t"
      proof (rule cert_lowered_slack [OF len tgt(7) _ less])
        have "int (path_length t ! u + 1) * C \<le> int (length g) * C"
          using short pre by (intro mult_right_mono) (auto simp: cert_pre_def cost_bound_def)
        then show "- (int (length g) * C) \<le> ?c" using b(2) by linarith
      qed
      ultimately have "cert_post g C u t ?t"
        using inv2 q tgt(2) queue keep by (auto simp: cert_post_def)
      moreover have "cert_relaxed g ?t u i" using tgt(2,7) len by (simp add: cert_relaxed_def)
      ultimately show ?thesis using eq cap short by simp
    qed
  qed
qed

lemma certificate_edges_step:
  assumes pre: "cert_pre g C" and "cert_post g C u t t" "\<forall>i \<in> set js. edge_at g u i"
  shows "(certificate_edges (length g) u (map ((!) (g ! u)) js) t = Inl Negative_residual_cycle \<and> negative_cycle g) \<or>
    (\<exists>t'. certificate_edges (length g) u (map ((!) (g ! u)) js) t = Inr t' \<and> cert_post g C u t t' \<and>
      (\<forall>i \<in> set js. cert_relaxed g t' u i))"
  using assms(2,3)
proof (induction js arbitrary: t)
  case (Cons i js)
  from certificate_edge_step [OF pre Cons.prems(1), of i] Cons.prems(2)
  consider "certificate_edge (length g) u (g ! u ! i) t = Inl Negative_residual_cycle" "negative_cycle g"
    | t1 where "certificate_edge (length g) u (g ! u ! i) t = Inr t1" "cert_post g C u t t1" "cert_relaxed g t1 u i" by auto
  then show ?case
  proof cases
    case 2
    have "cert_post g C u t1 t1" using 2(2) by (auto simp: cert_post_def)
    note IH = Cons.IH [OF this]
    show ?thesis
    proof (cases "certificate_edges (length g) u (map ((!) (g ! u)) js) t1")
      case (Inl err)
      then show ?thesis using IH 2(1) Cons.prems(2) by simp
    next
      case (Inr t2)
      then have t2: "cert_post g C u t1 t2" "\<forall>i \<in> set js. cert_relaxed g t2 u i" using IH Cons.prems(2) by auto
      have "cert_relaxed g t2 u i" using 2(3) t2(1) by (simp add: cert_post_def)
      then show ?thesis using Inr 2(1) t2 cert_post_trans [OF 2(2) t2(1)] by simp
    qed
  qed simp
qed simp

section \<open>The loop\<close>

definition cert_state :: "network \<Rightarrow> int \<Rightarrow> certificate \<Rightarrow> bool" where
  "cert_state g C t \<longleftrightarrow> cert_inv g C t \<and> cert_settled g {} t"

lemma certificate_visit_step:
  assumes pre: "cert_pre g C" and st: "cert_state g C t" and q: "cert_queue t \<noteq> []"
  shows "(certificate_visit g t = Inl Negative_residual_cycle \<and> negative_cycle g) \<or>
    (\<exists>t'. certificate_visit g t = Inr t' \<and> cert_state g C t' \<and>
     (t', t) \<in> measures [cert_slack (length g) C, \<lambda>t. length (cert_queue t)])"
proof -
  obtain u r where ur: "cert_queue t = u # r" using q by (cases "cert_queue t") auto
  let ?t = "t\<lparr>cert_queue := r, cert_queued := (cert_queued t)[u := False]\<rparr>"
  have inv: "cert_inv g C t" and settled: "cert_settled g {} t" using st by (auto simp: cert_state_def)
  have sh: "cert_shape (length g) t" by (rule cert_shapeD [OF inv])
  have qs: "v \<in> set (cert_queue t) \<longleftrightarrow> v < length g \<and> cert_queued t ! v" for v
    using sh unfolding cert_shape_def by blast
  have dq: "distinct (u # r)" using sh unfolding cert_shape_def ur by blast
  have u: "u < length g" "u \<notin> set r" using qs [of u] dq ur by auto
  have len: "length (cert_queued t) = length g" using sh by (simp add: cert_shape_def)
  have "v \<in> set r \<longleftrightarrow> v < length g \<and> (cert_queued t)[u := False] ! v" for v
    using qs [of v] dq ur u len by (cases "v = u") auto
  then have "cert_shape (length g) ?t" using sh dq unfolding cert_shape_def by simp
  moreover have "chained g ?t v = chained g t v" for v by (simp add: chained_def)
  ultimately have "cert_inv g C ?t" using inv by (simp add: cert_inv_def)
  moreover have "cert_settled g {u} ?t" using settled ur by (auto simp: cert_settled_def cert_relaxed_def)
  ultimately have post: "cert_post g C u ?t ?t" using u by (simp add: cert_post_def)
  have row: "map ((!) (g ! u)) [0..<length (g ! u)] = g ! u" by (rule map_nth)
  have "certificate_visit g t = certificate_edges (length g) u (g ! u) ?t"
    using ur by (simp add: certificate_visit_def)
  with certificate_edges_step [OF pre post, of "[0..<length (g ! u)]", unfolded row] u
  consider "certificate_visit g t = Inl Negative_residual_cycle" "negative_cycle g"
    | t' where "certificate_visit g t = Inr t'" "cert_post g C u ?t t'" "\<forall>i < length (g ! u). cert_relaxed g t' u i"
    by (auto simp: edge_at_def)
  then show ?thesis
  proof cases
    case 2
    have "cert_relaxed g t' u i" for i
      using 2(3) by (cases "i < length (g ! u)") (auto simp: cert_relaxed_def residual_def edge_at_def)
    then have "cert_settled g {} t'" using 2(2) unfolding cert_post_def cert_settled_def by (metis singletonD)
    then have "cert_state g C t'" using 2(2) by (simp add: cert_state_def cert_post_def)
    moreover have "cert_slack (length g) C ?t = cert_slack (length g) C t" by (simp add: cert_slack_def)
    ultimately show ?thesis using 2(1,2) ur by (auto simp: cert_post_def)
  qed simp
qed

lemma certificate_loop_ends:
  assumes pre: "cert_pre g C" and "cert_state g C t"
  shows "(certificate_loop g t = Some (Inl Negative_residual_cycle) \<and> negative_cycle g) \<or>
    (\<exists>t'. certificate_loop g t = Some (Inr t') \<and> cert_state g C t' \<and> cert_queue t' = [])"
  using assms(2)
proof (induction t rule: wf_induct_rule [OF wf_measures, of "[cert_slack (length g) C, \<lambda>t. length (cert_queue t)]"])
  case (1 t)
  show ?case
  proof (cases "cert_queue t = []")
    case True
    then show ?thesis using 1(2) by (subst (1 2) certificate_loop.simps) simp
  next
    case False
    from certificate_visit_step [OF pre 1(2) False]
    consider "certificate_visit g t = Inl Negative_residual_cycle" "negative_cycle g"
      | t' where "certificate_visit g t = Inr t'" "cert_state g C t'"
        "(t', t) \<in> measures [cert_slack (length g) C, \<lambda>t. length (cert_queue t)]" by blast
    then show ?thesis
    proof cases
      case 1
      then show ?thesis using False by (subst (1) certificate_loop.simps) simp
    next
      case 2
      then have "certificate_loop g t = certificate_loop g t'" using False by (subst certificate_loop.simps) simp
      with 1(1) [OF 2(3,2)] show ?thesis by simp
    qed
  qed
qed

lemma certificate_start_state: "cert_state g C (certificate_start (length g))"
proof -
  let ?t = "certificate_start (length g)"
  have "chained g ?t v" if "v < length g" for v
    using that by (auto simp: chained_def certificate_start_def intro: exI [of _ "[]"])
  then show ?thesis
    by (auto simp: cert_state_def cert_inv_def cert_shape_def cert_settled_def certificate_start_def)
qed

lemma certificate_check_edges_None:
  assumes "\<forall>(u, e) \<in> set es. 0 < capacity e \<longrightarrow> int64_ok (cost e + d ! u) \<and>
    int64_ok (cost e + d ! u - d ! to_node e) \<and> 0 \<le> cost e + d ! u - d ! to_node e"
  shows "certificate_check_edges d es = None"
  using assms by (induction d es rule: certificate_check_edges.induct) auto

text \<open>Whatever the network, the potentials a certificate consists of are feasible: the final loop checks it.\<close>

lemma certificate_check_edges_sound:
  "certificate_check_edges d es = None \<Longrightarrow> (u, e) \<in> set es \<Longrightarrow> 0 < capacity e \<Longrightarrow> d ! to_node e \<le> d ! u + cost e"
  by (induction d es rule: certificate_check_edges.induct) (auto split: if_splits)

lemma certificate_sound:
  assumes "certificate_potentials g = Some (Inr d)"
  shows "potential g ((!) d)"
proof -
  have t: "certificate_check_edges d (concat (map (\<lambda>node. map (Pair node) (g ! node)) [0..<length g])) = None"
  proof (cases "certificate_loop g (certificate_start (length g))")
    case (Some r)
    with assms show ?thesis
      by (cases r; simp add: certificate_potentials_def split: option.splits)
  qed (use assms in \<open>simp add: certificate_potentials_def\<close>)
  show ?thesis unfolding potential_def
  proof (intro allI impI)
    fix u i
    assume r: "residual g u i"
    then have "(u, g ! u ! i) \<in> set (concat (map (\<lambda>node. map (Pair node) (g ! node)) [0..<length g]))"
      by (auto simp: residual_def edge_at_def intro!: bexI [of _ u])
    from certificate_check_edges_sound [OF t this] r show "d ! target g u i \<le> d ! u + weight g u i"
      by (simp add: residual_def)
  qed
qed

lemma certificate_exact:
  assumes pre: "cert_pre g C"
  shows "(negative_cycle g \<longrightarrow> certificate_potentials g = Some (Inl Negative_residual_cycle)) \<and>
    (\<not> negative_cycle g \<longrightarrow> (\<exists>d. certificate_potentials g = Some (Inr d) \<and> length d = length g \<and>
      (\<forall>v < length g. int64_ok (d ! v)) \<and> potential g ((!) d)))"
proof -
  from certificate_loop_ends [OF pre certificate_start_state]
  consider "certificate_loop g (certificate_start (length g)) = Some (Inl Negative_residual_cycle)" "negative_cycle g"
    | t where "certificate_loop g (certificate_start (length g)) = Some (Inr t)" "cert_state g C t" "cert_queue t = []"
    by blast
  then show ?thesis
  proof cases
    case 1
    then show ?thesis by (simp add: certificate_potentials_def)
  next
    case 2
    have inv: "cert_inv g C t" and settled: "cert_settled g {} t" using 2(2) by (auto simp: cert_state_def)
    let ?d = "cert_distance t" and ?es = "concat (map (\<lambda>node. map (Pair node) (g ! node)) [0..<length g])"
    have pre': "network_ok g" "cost_bound g C" "int (length g) * C < flow_infinity" "0 \<le> C"
      using pre by (auto simp: cert_pre_def cost_bound_def)
    have "certificate_check_edges ?d ?es = None"
    proof (rule certificate_check_edges_None, clarify)
      fix u e
      assume "(u, e) \<in> set ?es" and cap: "0 < capacity e"
      then obtain i where ui: "u < length g" "i < length (g ! u)" "e = g ! u ! i" by (auto simp: in_set_conv_nth)
      then have at: "edge_at g u i" and r: "residual g u i" using cap by (auto simp: edge_at_def residual_def)
      have rel: "?d ! target g u i \<le> ?d ! u + weight g u i"
        using settled r ui 2(3) by (auto simp: cert_settled_def cert_relaxed_def)
      note tgt = network_okD(7) [OF pre'(1) at]
      have "- (int (path_length t ! target g u i) * C) \<le> ?d ! target g u i" "?d ! target g u i \<le> 0"
        using cert_invD [OF inv tgt] by auto
      moreover have "int (path_length t ! target g u i) * C \<le> int (length g) * C"
        using cert_invD(1) [OF inv tgt] pre'(4) by (intro mult_right_mono) auto
      moreover have "C \<le> int (length g) * C" using ui(1) pre'(4) by (simp add: mult_le_cancel_right1)
      moreover note cost_boundD [OF pre'(2) at] cert_edge_bounds(1,3) [OF pre inv at] cert_invD(2) [OF inv ui(1)]
      ultimately show "int64_ok (cost e + ?d ! u) \<and> int64_ok (cost e + ?d ! u - ?d ! to_node e) \<and>
          0 \<le> cost e + ?d ! u - ?d ! to_node e"
        using rel pre'(3) unfolding ui(3) by (simp add: int64_ok_def flow_infinity_def INT64_MAX_def add.commute)
    qed
    then have res: "certificate_potentials g = Some (Inr ?d)" using 2(1) by (simp add: certificate_potentials_def)
    have "length ?d = length g" using cert_shapeD [OF inv] by (simp add: cert_shape_def)
    moreover have "int64_ok (?d ! v)" if v: "v < length g" for v
    proof -
      have "int (path_length t ! v) * C \<le> int (length g) * C"
        using cert_invD(1) [OF inv v] pre'(4) by (intro mult_right_mono) auto
      then show ?thesis using cert_invD(2,3) [OF inv v] pre'(3)
        by (simp add: int64_ok_def flow_infinity_def INT64_MAX_def)
    qed
    ultimately show ?thesis using res certificate_sound [OF res] potential_no_negative_cycle by blast
  qed
qed

end
