(* ===== verification/Channel_Exact.thy ===== *)
theory Channel_Exact
  imports Native_Numbers "HOL-Library.Word"
begin

text \<open>
  The exact sign of a sum of 64-bit integers (class \<open>ExactSignedSum\<close> in
  \<open>src/native/chimew_bank_channel_assigner.cpp\<close>): sign and magnitude in two unsigned limbs, with the carry
  and the borrow written out. For fewer than \<open>2 ^ 64\<close> terms the object denotes the sum of what was added,
  and \<open>negative\<close> is its sign.
\<close>

record exact_sum =
  is_negative :: bool
  high_limb :: "64 word"
  low_limb :: "64 word"

definition exact_zero :: exact_sum where
  "exact_zero = \<lparr>is_negative = False, high_limb = 0, low_limb = 0\<rparr>"

text \<open>The conversion of the absolute value, written so that the smallest integer is not negated.\<close>

definition magnitude :: "int \<Rightarrow> 64 word" where
  "magnitude v = (if v < 0 then word_of_int (- (v + 1)) + 1 else word_of_int v)"

definition exact_add :: "int \<Rightarrow> bool \<Rightarrow> exact_sum \<Rightarrow> exact_sum" where
  "exact_add v negate s =
    (let term_negative = ((v < 0) \<noteq> negate); m = magnitude v in
     if m = 0 then s
     else if high_limb s = 0 \<and> low_limb s = 0 then s\<lparr>is_negative := term_negative, low_limb := m\<rparr>
     else if is_negative s = term_negative then
       (let previous = low_limb s; s = s\<lparr>low_limb := low_limb s + m\<rparr>
        in if low_limb s < previous then s\<lparr>high_limb := high_limb s + 1\<rparr> else s)
     else if high_limb s \<noteq> 0 \<or> m \<le> low_limb s then
       (let s = (if low_limb s < m then s\<lparr>high_limb := high_limb s - 1\<rparr> else s);
            s = s\<lparr>low_limb := low_limb s - m\<rparr>
        in if high_limb s = 0 \<and> low_limb s = 0 then s\<lparr>is_negative := False\<rparr> else s)
     else s\<lparr>low_limb := m - low_limb s, is_negative := term_negative\<rparr>)"

definition exact_size :: "exact_sum \<Rightarrow> int" where
  "exact_size s = uint (high_limb s) * 2 ^ 64 + uint (low_limb s)"

definition exact_value :: "exact_sum \<Rightarrow> int" where
  "exact_value s = (if is_negative s then - exact_size s else exact_size s)"

definition exact_ok :: "exact_sum \<Rightarrow> bool" where
  "exact_ok s \<longleftrightarrow> (is_negative s \<longrightarrow> exact_size s \<noteq> 0)"

lemma uint_magnitude: "int64_ok v \<Longrightarrow> uint (magnitude v) = \<bar>v\<bar>"
proof -
  assume v: "int64_ok v"
  show ?thesis
  proof (cases "v < 0")
    case True
    have "magnitude v = (word_of_int (- v) :: 64 word)"
      using True by (simp add: magnitude_def)
    then have "uint (magnitude v) = (- v) mod 2 ^ 64" by (simp only: uint_word_of_int len_num1 len_bit0) simp
    then show ?thesis using True v by (simp add: int64_ok_def INT64_MAX_def)
  next
    case False
    then show ?thesis using v by (simp add: magnitude_def uint_word_of_int int64_ok_def INT64_MAX_def)
  qed
qed

lemma word64_bounds: "0 \<le> uint (w :: 64 word)" "uint w < 18446744073709551616"
  using uint_lt2p [of w] by simp_all

lemma uint_pos: "uint (w :: 64 word) = 0 \<or> 1 \<le> uint w"
  using word64_bounds(1) [of w] by linarith

lemma exact_size_0: "exact_size s = 0 \<longleftrightarrow> high_limb s = 0 \<and> low_limb s = 0"
proof -
  have "exact_size s = 0 \<longleftrightarrow> uint (high_limb s) = 0 \<and> uint (low_limb s) = 0"
    using uint_pos [of "high_limb s"] uint_pos [of "low_limb s"] unfolding exact_size_def by auto
  then show ?thesis by (simp add: word_uint_eq_iff)
qed

lemma exact_size_num: "exact_size s = uint (high_limb s) * 18446744073709551616 + uint (low_limb s)"
  by (simp add: exact_size_def)

lemma exact_size_nonneg: "0 \<le> exact_size s"
  unfolding exact_size_def by simp

lemma uint_add_carry:
  fixes a b :: "64 word"
  shows "uint (a + b) + (if a + b < a then 18446744073709551616 else 0) = uint a + uint b"
  using word64_bounds [of a] word64_bounds [of b]
  by (auto simp: word_less_def uint_plus_if' split: if_splits)

lemma uint_sub_borrow:
  fixes a b :: "64 word"
  shows "uint (a - b) = uint a - uint b + (if a < b then 18446744073709551616 else 0)"
  using word64_bounds [of a] word64_bounds [of b]
  by (auto simp: word_less_def uint_sub_if' split: if_splits)

lemma high_limb_step:
  fixes h :: "64 word"
  shows "uint h + 1 < 18446744073709551616 \<Longrightarrow> uint (h + 1) = uint h + 1" "h \<noteq> 0 \<Longrightarrow> uint (h - 1) = uint h - 1"
  using word64_bounds [of h] uint_pos [of h] by (auto simp: uint_plus_if' uint_sub_if' word_uint_eq_iff)

text \<open>One term: the value changes by the term while the magnitude stays below \<open>2 ^ 128\<close>.\<close>

lemma exact_add_value:
  assumes ok: "exact_ok s" and v: "int64_ok v" and room: "exact_size s + \<bar>v\<bar> < 340282366920938463463374607431768211456"
  shows "exact_value (exact_add v negate s) = exact_value s + (if negate then - v else v) \<and>
    exact_ok (exact_add v negate s) \<and> exact_size (exact_add v negate s) \<le> exact_size s + \<bar>v\<bar>"
proof -
  define m tn where "m = magnitude v" and "tn = ((v < 0) \<noteq> negate)"
  have m: "uint m = \<bar>v\<bar>" unfolding m_def by (rule uint_magnitude [OF v])
  have tm: "(if negate then - v else v) = (if tn then - uint m else uint m)" by (auto simp: tn_def m)
  note hb = word64_bounds [of "high_limb s"] and lb = word64_bounds [of "low_limb s"]
  note add = exact_add_def [of v negate s, folded m_def tn_def]
  note vals = exact_value_def exact_size_def exact_ok_def Let_def
  note ok' = ok [unfolded exact_ok_def exact_size_0]
  consider "m = 0" | "m \<noteq> 0" "high_limb s = 0" "low_limb s = 0"
    | "m \<noteq> 0" "\<not> (high_limb s = 0 \<and> low_limb s = 0)" "is_negative s = tn"
    | "m \<noteq> 0" "is_negative s \<noteq> tn" "high_limb s \<noteq> 0 \<or> m \<le> low_limb s" "\<not> (high_limb s = 0 \<and> low_limb s = 0)"
    | "m \<noteq> 0" "is_negative s \<noteq> tn" "high_limb s = 0" "low_limb s < m" "low_limb s \<noteq> 0"
    by (cases "m = 0"; cases "high_limb s = 0"; cases "low_limb s = 0"; cases "m \<le> low_limb s"; auto simp: not_le)
  then show ?thesis
  proof cases
    case 1
    then show ?thesis unfolding tm add Let_def using ok m by simp
  next
    case 2
    then have neg: "\<not> is_negative s" using ok' by blast
    have "1 \<le> uint m" using 2(1) uint_pos [of m] by (auto simp: word_uint_eq_iff)
    then show ?thesis unfolding tm add using 2 neg m by (auto simp: vals)
  next
    case 3
    have pos: "0 < uint m" using 3(1) uint_pos [of m] by (auto simp: word_uint_eq_iff)
    note carry = uint_add_carry [of "low_limb s" m]
    have size: "exact_size (exact_add v negate s) = exact_size s + uint m"
    proof (cases "low_limb s + m < low_limb s")
      case True
      have "0 \<le> uint (low_limb s + m)" by simp
      then have "18446744073709551616 \<le> uint (low_limb s) + \<bar>v\<bar>" using carry [unfolded if_P [OF True]] m by linarith
      then have "uint (high_limb s) + 1 < 18446744073709551616"
        using room unfolding exact_size_def by simp
      then show ?thesis using 3 True carry high_limb_step(1) [of "high_limb s"]
        by (simp add: add exact_size_def Let_def)
    next
      case False
      then show ?thesis using 3 carry by (simp add: add exact_size_def Let_def)
    qed
    have sign: "is_negative (exact_add v negate s) = tn" using 3 by (simp add: add Let_def)
    have "0 \<le> exact_size s" using hb lb by (simp add: exact_size_def)
    then show ?thesis unfolding tm using size sign pos m 3(3) by (auto simp: exact_value_def exact_ok_def)
  next
    case 4
    note borrow = uint_sub_borrow [of "low_limb s" m]
    have mle: "uint m \<le> exact_size s"
    proof (cases "high_limb s = 0")
      case True
      then show ?thesis using 4(3) by (simp add: exact_size_def word_le_def)
    next
      case False
      then have "1 \<le> uint (high_limb s)" using uint_pos [of "high_limb s"] by (auto simp: word_uint_eq_iff)
      then show ?thesis using word64_bounds(2) [of m] lb unfolding exact_size_num by linarith
    qed
    have h: "high_limb s \<noteq> 0" if "low_limb s < m" using 4(3) that by auto
    have size: "exact_size (exact_add v negate s) = exact_size s - uint m"
      using 4 borrow h high_limb_step(2) [of "high_limb s"]
      by (cases "low_limb s < m") (auto simp: add exact_size_def Let_def)
    have sign: "is_negative (exact_add v negate s) = (is_negative s \<and> exact_size (exact_add v negate s) \<noteq> 0)"
      using 4 unfolding exact_size_0 by (auto simp: add Let_def)
    have "is_negative s = (\<not> tn)" using 4(2) by blast
    then show ?thesis unfolding tm using size sign mle m by (auto simp: exact_value_def exact_ok_def)
  next
    case 5
    note borrow = uint_sub_borrow [of m "low_limb s"]
    have lt: "uint (low_limb s) < uint m" using 5(4) by (simp add: word_less_def)
    then have size: "exact_size (exact_add v negate s) = uint m - exact_size s"
      using 5 borrow by (simp add: add exact_size_def Let_def word_le_def word_less_def not_le)
    have sign: "is_negative (exact_add v negate s) = tn"
      using 5 lt by (simp add: add Let_def word_le_def not_le)
    have "exact_size s = uint (low_limb s)" using 5(3) by (simp add: exact_size_def)
    moreover have "is_negative s = (\<not> tn)" using 5(2) by blast
    ultimately show ?thesis unfolding tm using size sign lt lb m by (auto simp: exact_value_def exact_ok_def)
  qed
qed

definition exact_sum_of :: "(int \<times> bool) list \<Rightarrow> exact_sum" where
  "exact_sum_of ts = fold (\<lambda>(v, negate). exact_add v negate) ts exact_zero"

lemma exact_sum_of_value:
  assumes "\<forall>(v, negate) \<in> set ts. int64_ok v" "length ts < 2 ^ 64"
  shows "exact_value (exact_sum_of ts) = (\<Sum>(v, negate) \<leftarrow> ts. if negate then - v else v)"
    "exact_ok (exact_sum_of ts)"
proof -
  have "exact_value (exact_sum_of ts) = (\<Sum>(v, negate) \<leftarrow> ts. if negate then - v else v) \<and>
      exact_ok (exact_sum_of ts) \<and> exact_size (exact_sum_of ts) \<le> int (length ts) * 2 ^ 63"
    using assms
  proof (induction ts rule: rev_induct)
    case Nil
    then show ?case by (simp add: exact_sum_of_def exact_zero_def exact_value_def exact_size_def exact_ok_def)
  next
    case (snoc t ts)
    obtain v negate where t: "t = (v, negate)" by (cases t)
    let ?s = "exact_sum_of ts"
    have IH: "exact_value ?s = (\<Sum>(v, negate) \<leftarrow> ts. if negate then - v else v)" "exact_ok ?s"
      "exact_size ?s \<le> int (length ts) * 2 ^ 63" using snoc by auto
    have v: "int64_ok v" "\<bar>v\<bar> \<le> 2 ^ 63" using snoc.prems(1) t by (auto simp: int64_ok_def INT64_MAX_def)
    have "int (length ts) + 1 < 2 ^ 64" using snoc.prems(2) by simp
    then have room: "exact_size ?s + \<bar>v\<bar> < 340282366920938463463374607431768211456" using IH(3) v(2) by simp
    have "exact_sum_of (ts @ [t]) = exact_add v negate ?s" by (simp add: exact_sum_of_def t)
    then show ?case using exact_add_value [OF IH(2) v(1) room, of negate] IH v(2) t by (auto simp: algebra_simps)
  qed
  then show "exact_value (exact_sum_of ts) = (\<Sum>(v, negate) \<leftarrow> ts. if negate then - v else v)"
    "exact_ok (exact_sum_of ts)" by auto
qed

lemma exact_sign: "exact_ok s \<Longrightarrow> is_negative s \<longleftrightarrow> exact_value s < 0"
  using exact_size_nonneg [of s] by (auto simp: exact_value_def exact_ok_def)

end
