(* ===== verification/Channel_Assign.thy ===== *)
theory Channel_Assign
  imports Channel_Flow Channel_Exact
begin

text \<open>
  The function \<open>assign\<close> of the bank and channel assigner (\<open>src/native/chimew_bank_channel_assigner.cpp\<close>): a
  capacitated assignment of lefts (signal groups) to rights (banks or channels) at least cost, by one of
  three ways: directly when every left has one candidate, over a network in which lefts with the same row
  of costs are one node when that shrinks the problem, and over the full network otherwise. Each way leaves
  potentials that certify optimality; the compressed way is taken only when its expanded potentials pass
  the checks on the original edges. \<open>Some None\<close> of the compressed way is \<open>std::nullopt\<close>.
\<close>

record candidate_edge =
  cand_right :: int
  cand_left :: int
  cand_cost :: int

record assignment_result =
  right_for_left :: "int list"
  cost_for_left :: "int list"
  total_cost :: int
  potentials :: "int list"

definition candidate_in_range :: "nat \<Rightarrow> nat \<Rightarrow> candidate_edge \<Rightarrow> bool" where
  "candidate_in_range rights lefts c \<longleftrightarrow>
    \<not> (cand_left c < 0 \<or> cand_left c \<ge> int lefts \<or> cand_right c < 0 \<or> cand_right c \<ge> int rights)"

section \<open>One candidate for every left\<close>

fun unique_scan :: "nat \<Rightarrow> nat \<Rightarrow> candidate_edge list \<Rightarrow> int list \<Rightarrow> int list \<Rightarrow> (int list \<times> int list) option" where
  "unique_scan rights lefts [] ur uc = Some (ur, uc)"
| "unique_scan rights lefts (c # cs) ur uc =
    (if \<not> candidate_in_range rights lefts c \<or> ur ! nat (cand_left c) \<ge> 0 then None
     else unique_scan rights lefts cs (ur[nat (cand_left c) := cand_right c]) (uc[nat (cand_left c) := cand_cost c]))"

fun unique_bind :: "int list \<Rightarrow> nat \<Rightarrow> nat \<Rightarrow> nat list \<Rightarrow> int list \<Rightarrow> assignment_result \<Rightarrow> channel_error + assignment_result" where
  "unique_bind capacities first_left sink [] used result = Inr result"
| "unique_bind capacities first_left sink (left # lefts) used result =
    (let right = nat (right_for_left result ! left);
         cost = cost_for_left result ! left;
         used = used[right := used ! right + 1] in
     if used ! right > capacities ! right then Inl No_channel_assignment
     else if \<not> int64_ok (INT64_MAX - total_cost result) then Inl Channel_undefined
     else if cost > INT64_MAX - total_cost result then Inl Total_out_of_range
     else if \<not> int64_ok (total_cost result + cost) then Inl Channel_undefined
     else
       (let p = (potentials result)[first_left + left := cost];
            p = p[sink := max (p ! sink) cost]
        in unique_bind capacities first_left sink lefts used
             (result\<lparr>total_cost := total_cost result + cost, potentials := p\<rparr>)))"

definition assign_unique ::
    "nat \<Rightarrow> int list \<Rightarrow> nat \<Rightarrow> candidate_edge list \<Rightarrow> (channel_error + assignment_result) option" where
  "assign_unique rights capacities lefts candidates =
    (case unique_scan rights lefts candidates (replicate lefts (- 1)) (replicate lefts 0) of
       None \<Rightarrow> None
     | Some (ur, uc) \<Rightarrow>
       if - 1 \<in> set ur then None
       else Some (unique_bind capacities (1 + rights) (1 + rights + lefts) [0..<lefts] (replicate rights 0)
         \<lparr>right_for_left = ur, cost_for_left = uc, total_cost = 0, potentials = replicate (1 + rights + lefts + 1) 0\<rparr>))"

section \<open>The compressed network\<close>

type_synonym cost_row = "(int \<times> int) list"

fun cost_rows :: "nat \<Rightarrow> nat \<Rightarrow> candidate_edge list \<Rightarrow> cost_row list \<Rightarrow> cost_row list option" where
  "cost_rows rights lefts [] rows = Some rows"
| "cost_rows rights lefts (c # cs) rows =
    (if \<not> candidate_in_range rights lefts c then None
     else cost_rows rights lefts cs
       (rows[nat (cand_left c) := rows ! nat (cand_left c) @ [(cand_right c, cand_cost c)]]))"

fun adjacent_rights :: "cost_row \<Rightarrow> bool" where
  "adjacent_rights ((a, c) # (b, d) # r) \<longleftrightarrow> a = b \<or> adjacent_rights ((b, d) # r)"
| "adjacent_rights _ \<longleftrightarrow> False"

record row_types =
  type_by_row :: "cost_row \<rightharpoonup> nat"
  type_rows :: "cost_row list"
  members_by_type :: "nat list list"

fun classify_rows :: "(nat \<times> cost_row) list \<Rightarrow> row_types \<Rightarrow> row_types option" where
  "classify_rows [] ts = Some ts"
| "classify_rows ((left, r) # rows) ts =
    (let row = sort r in
     if row = [] \<or> adjacent_rights row then None
     else
       (let ts = (case type_by_row ts row of
             Some _ \<Rightarrow> ts
           | None \<Rightarrow> ts\<lparr>type_by_row := (type_by_row ts)(row \<mapsto> length (type_rows ts)),
               type_rows := type_rows ts @ [row], members_by_type := members_by_type ts @ [[]]\<rparr>);
            t = the (type_by_row ts row)
        in classify_rows rows (ts\<lparr>members_by_type := (members_by_type ts)[t := members_by_type ts ! t @ [left]]\<rparr>)))"

record link_reference =
  ref_right :: nat
  ref_type :: nat
  ref_cost :: int
  ref_index :: nat

text \<open>\<open>add_edge\<close> with the index it returns, kept in a list of references.\<close>

definition add_link :: "nat \<Rightarrow> nat \<Rightarrow> nat \<Rightarrow> int \<Rightarrow> network \<times> link_reference list \<Rightarrow> network \<times> link_reference list" where
  "add_link first_type right t c = (\<lambda>(g, refs).
    (add_edge (1 + right) (first_type + t) 1 c g,
     refs @ [\<lparr>ref_right = right, ref_type = t, ref_cost = c, ref_index = length (g ! (1 + right))\<rparr>]))"

definition add_type ::
    "nat \<Rightarrow> nat \<Rightarrow> nat \<times> cost_row \<times> nat list \<Rightarrow> network \<times> link_reference list \<Rightarrow> network \<times> link_reference list" where
  "add_type first_type sink = (\<lambda>(t, row, members) (g, refs).
    (let (g, refs) = fold (\<lambda>(right, c). add_link first_type (nat right) t c) row (g, refs)
     in (add_edge (first_type + t) sink (int (length members)) 0 g, refs)))"

definition compressed_network :: "nat \<Rightarrow> row_types \<Rightarrow> network \<times> link_reference list" where
  "compressed_network rights ts =
    (let types = length (type_rows ts); first_type = 1 + rights; sink = first_type + types;
         g = fold (\<lambda>right. add_edge 0 (1 + right) 1 0) [0..<rights] (replicate (sink + 1) [])
     in fold (add_type first_type sink) (zip [0..<types] (zip (type_rows ts) (members_by_type ts))) (g, []))"

definition selected_links :: "network \<Rightarrow> link_reference list \<Rightarrow> nat \<Rightarrow> cost_row" where
  "selected_links g refs t =
    map (\<lambda>ref. (int (ref_right ref), ref_cost ref))
      (filter (\<lambda>ref. capacity (g ! (1 + ref_right ref) ! ref_index ref) = 0 \<and> ref_type ref = t) refs)"

fun expand_members ::
    "nat \<Rightarrow> int \<Rightarrow> (nat \<times> int \<times> int) list \<Rightarrow> assignment_result \<Rightarrow> assignment_result" where
  "expand_members first_left p [] result = result"
| "expand_members first_left p ((left, right, c) # ms) result = expand_members first_left p ms
    (result\<lparr>right_for_left := (right_for_left result)[left := right],
            cost_for_left := (cost_for_left result)[left := c],
            potentials := (potentials result)[first_left + left := p]\<rparr>)"

fun expand_types ::
    "network \<Rightarrow> link_reference list \<Rightarrow> nat \<Rightarrow> nat \<Rightarrow> int list \<Rightarrow> (nat \<times> nat list) list \<Rightarrow> assignment_result \<Rightarrow>
     assignment_result option" where
  "expand_types g refs first_left first_type d [] result = Some result"
| "expand_types g refs first_left first_type d ((t, members) # ts) result =
    (let selected = sort (selected_links g refs t) in
     if length selected \<noteq> length members then None
     else expand_types g refs first_left first_type d ts
       (expand_members first_left (d ! (first_type + t)) (zip members selected) result))"

subsection \<open>The checks of the expanded certificate\<close>

definition reverse_reduced :: "nat \<Rightarrow> nat \<Rightarrow> assignment_result \<Rightarrow> nat \<Rightarrow> exact_sum" where
  "reverse_reduced first_right first_left result left =
    exact_add (potentials result ! (first_right + nat (right_for_left result ! left))) True
      (exact_add (potentials result ! (first_left + left)) False
        (exact_add (cost_for_left result ! left) True exact_zero))"

fun check_lefts :: "nat \<Rightarrow> nat \<Rightarrow> assignment_result \<Rightarrow> nat list \<Rightarrow> bool list \<Rightarrow> bool list option" where
  "check_lefts first_right first_left result [] used = Some used"
| "check_lefts first_right first_left result (left # lefts) used =
    (let right = right_for_left result ! left in
     if right < 0 \<or> used ! nat right then None
     else if is_negative (reverse_reduced first_right first_left result left) then None
     else check_lefts first_right first_left result lefts (used[nat right := True]))"

definition forward_reduced :: "nat \<Rightarrow> nat \<Rightarrow> assignment_result \<Rightarrow> candidate_edge \<Rightarrow> exact_sum" where
  "forward_reduced first_right first_left result c =
    exact_add (potentials result ! (first_left + nat (cand_left c))) True
      (exact_add (potentials result ! (first_right + nat (cand_right c))) False
        (exact_add (cand_cost c) False exact_zero))"

definition candidates_certified :: "nat \<Rightarrow> nat \<Rightarrow> assignment_result \<Rightarrow> candidate_edge list \<Rightarrow> bool" where
  "candidates_certified first_right first_left result candidates \<longleftrightarrow>
    (\<forall>c \<in> set candidates. right_for_left result ! nat (cand_left c) = cand_right c \<or>
       \<not> is_negative (forward_reduced first_right first_left result c))"

definition rights_certified :: "nat \<Rightarrow> nat \<Rightarrow> assignment_result \<Rightarrow> bool list \<Rightarrow> bool" where
  "rights_certified rights first_right result used \<longleftrightarrow>
    (\<forall>right \<in> set [0..<rights].
       \<not> (used ! right \<and> potentials result ! (first_right + right) < potentials result ! 0 \<or>
          \<not> used ! right \<and> potentials result ! 0 < potentials result ! (first_right + right)))"

definition lefts_certified :: "nat \<Rightarrow> nat \<Rightarrow> nat \<Rightarrow> assignment_result \<Rightarrow> bool" where
  "lefts_certified lefts first_left sink result \<longleftrightarrow>
    (\<forall>left \<in> set [0..<lefts]. \<not> potentials result ! sink < potentials result ! (first_left + left))"

definition expanded_certified ::
    "nat \<Rightarrow> nat \<Rightarrow> candidate_edge list \<Rightarrow> assignment_result \<Rightarrow> bool" where
  "expanded_certified rights lefts candidates result \<longleftrightarrow>
    (case check_lefts 1 (1 + rights) result [0..<lefts] (replicate rights False) of
       None \<Rightarrow> False
     | Some used \<Rightarrow> candidates_certified 1 (1 + rights) result candidates \<and>
         rights_certified rights 1 result used \<and> lefts_certified lefts (1 + rights) (1 + rights + lefts) result)"

definition row_types_of :: "nat \<Rightarrow> nat \<Rightarrow> candidate_edge list \<Rightarrow> row_types option" where
  "row_types_of rights lefts candidates =
    (case cost_rows rights lefts candidates (replicate lefts []) of
       None \<Rightarrow> None
     | Some rows \<Rightarrow> classify_rows (zip [0..<lefts] rows)
         \<lparr>type_by_row = Map.empty, type_rows = [], members_by_type = []\<rparr>)"

definition expanded_start :: "nat \<Rightarrow> nat \<Rightarrow> int \<Rightarrow> int list \<Rightarrow> assignment_result" where
  "expanded_start rights lefts spent d =
    \<lparr>right_for_left = replicate lefts (- 1), cost_for_left = replicate lefts 0, total_cost = spent,
     potentials = take (1 + rights) d @ replicate (lefts + 1) 0\<rparr>"

definition assign_compressed ::
    "nat \<Rightarrow> int list \<Rightarrow> nat \<Rightarrow> candidate_edge list \<Rightarrow> (channel_error + assignment_result option) option" where
  "assign_compressed rights capacities lefts candidates =
    (if \<not> (\<forall>c \<in> set capacities. c = 1) then Some (Inr None)
     else case row_types_of rights lefts candidates of
       None \<Rightarrow> Some (Inr None)
     | Some ts \<Rightarrow>
       (let types = length (type_rows ts); sink = 1 + rights + types in
        if types = 0 \<or> types > lefts div 4 then Some (Inr None)
        else (let (g0, refs) = compressed_network rights ts in
          Option.bind (channel_solve 0 sink lefts g0) (\<lambda>r. case r of
            Inl e \<Rightarrow> Some (Inl e)
          | Inr (assigned, spent, g) \<Rightarrow>
            if assigned \<noteq> lefts then Some (Inl No_channel_assignment)
            else Option.bind (certificate_potentials g) (\<lambda>r. case r of
              Inl e \<Rightarrow> Some (Inl e)
            | Inr d \<Rightarrow>
              Some (Inr (case expand_types g refs (1 + rights) (1 + rights) d
                    (zip [0..<types] (members_by_type ts)) (expanded_start rights lefts spent d) of
                  None \<Rightarrow> None
                | Some result \<Rightarrow>
                  (let result = result\<lparr>potentials := (potentials result)[1 + rights + lefts := d ! sink]\<rparr>
                   in if expanded_certified rights lefts candidates result then Some result else None))))))))"

section \<open>The full network\<close>

definition full_network :: "nat \<Rightarrow> int list \<Rightarrow> nat \<Rightarrow> candidate_edge list \<Rightarrow> network \<times> link_reference list" where
  "full_network rights capacities lefts candidates =
    (let first_left = 1 + rights; sink = first_left + lefts;
         g = fold (\<lambda>right. add_edge 0 (1 + right) (capacities ! right) 0) [0..<rights] (replicate (sink + 1) []);
         (g, refs) = fold (\<lambda>c. add_link first_left (nat (cand_right c)) (nat (cand_left c)) (cand_cost c))
           candidates (g, [])
     in (fold (\<lambda>left. add_edge (first_left + left) sink 1 0) [0..<lefts] g, refs))"

text \<open>The loop over the references; a left may be bound once only.\<close>

fun collect_links :: "network \<Rightarrow> link_reference list \<Rightarrow> int list \<Rightarrow> int list \<Rightarrow> channel_error + int list \<times> int list" where
  "collect_links g [] rs cs = Inr (rs, cs)"
| "collect_links g (ref # refs) rs cs =
    (if capacity (g ! (1 + ref_right ref) ! ref_index ref) \<noteq> 0 then collect_links g refs rs cs
     else if rs ! ref_type ref \<ge> 0 then Inl Ambiguous_channel
     else collect_links g refs (rs[ref_type ref := int (ref_right ref)]) (cs[ref_type ref := ref_cost ref]))"

definition assign_full ::
    "nat \<Rightarrow> int list \<Rightarrow> nat \<Rightarrow> candidate_edge list \<Rightarrow> (channel_error + assignment_result) option" where
  "assign_full rights capacities lefts candidates =
    (if length capacities < rights \<or> \<not> (\<forall>c \<in> set candidates. candidate_in_range rights lefts c)
     then Some (Inl Channel_undefined)
     else (let (g0, refs) = full_network rights capacities lefts candidates in
       Option.bind (channel_solve 0 (1 + rights + lefts) lefts g0) (\<lambda>r. case r of
         Inl e \<Rightarrow> Some (Inl e)
       | Inr (assigned, spent, g) \<Rightarrow>
         if assigned \<noteq> lefts then Some (Inl No_channel_assignment)
         else (case collect_links g refs (replicate lefts (- 1)) (replicate lefts 0) of
           Inl e \<Rightarrow> Some (Inl e)
         | Inr (rs, cs) \<Rightarrow>
           if - 1 \<in> set rs then Some (Inl Incomplete_channels)
           else Option.bind (certificate_potentials g) (\<lambda>r. Some (case r of
             Inl e \<Rightarrow> Inl e
           | Inr d \<Rightarrow> Inr \<lparr>right_for_left = rs, cost_for_left = cs, total_cost = spent, potentials = d\<rparr>))))))"

definition assign ::
    "nat \<Rightarrow> int list \<Rightarrow> nat \<Rightarrow> candidate_edge list \<Rightarrow> (channel_error + assignment_result) option" where
  "assign rights capacities lefts candidates =
    (case assign_unique rights capacities lefts candidates of
       Some r \<Rightarrow> Some r
     | None \<Rightarrow>
       Option.bind (assign_compressed rights capacities lefts candidates) (\<lambda>r. case r of
         Inl e \<Rightarrow> Some (Inl e)
       | Inr (Some result) \<Rightarrow> Some (Inr result)
       | Inr None \<Rightarrow> assign_full rights capacities lefts candidates))"

end
