(* ===== verification/Channel_Choice.thy ===== *)
theory Channel_Choice
  imports Channel_Assign
begin

text \<open>
  What \<open>assign\<close> promises (\<open>src/native/chimew_bank_channel_assigner.cpp\<close>): a legal choice of one candidate for
  every left, and potentials that certify that no legal choice is cheaper. The direct way, for inputs with
  one candidate for every left, keeps this promise.
\<close>

section \<open>Legal choices and certificates\<close>

definition right_load :: "candidate_edge list \<Rightarrow> nat \<Rightarrow> int" where
  "right_load A r = (\<Sum>c \<leftarrow> A. if cand_right c = int r then 1 else 0)"

definition choice_cost :: "candidate_edge list \<Rightarrow> int" where
  "choice_cost A = (\<Sum>c \<leftarrow> A. cand_cost c)"

definition legal_choice :: "nat \<Rightarrow> int list \<Rightarrow> nat \<Rightarrow> candidate_edge list \<Rightarrow> candidate_edge list \<Rightarrow> bool" where
  "legal_choice rights capacities lefts candidates A \<longleftrightarrow> length A = lefts \<and>
     (\<forall>l < lefts. A ! l \<in> set candidates \<and> cand_left (A ! l) = int l) \<and>
     (\<forall>r < rights. right_load A r \<le> capacities ! r)"

definition reduced_cost :: "nat \<Rightarrow> int list \<Rightarrow> candidate_edge \<Rightarrow> int" where
  "reduced_cost rights p c = cand_cost c + p ! (1 + nat (cand_right c)) - p ! (1 + rights + nat (cand_left c))"

definition certified :: "nat \<Rightarrow> int list \<Rightarrow> nat \<Rightarrow> candidate_edge list \<Rightarrow> candidate_edge list \<Rightarrow> int list \<Rightarrow> bool" where
  "certified rights capacities lefts candidates A p \<longleftrightarrow>
     (\<forall>c \<in> set candidates. c = A ! nat (cand_left c) \<or> 0 \<le> reduced_cost rights p c) \<and>
     (\<forall>l < lefts. reduced_cost rights p (A ! l) \<le> 0) \<and>
     (\<forall>r < rights. (right_load A r < capacities ! r \<longrightarrow> p ! (1 + r) \<le> p ! 0) \<and>
        (0 < right_load A r \<longrightarrow> p ! 0 \<le> p ! (1 + r)))"

definition result_choice :: "nat \<Rightarrow> assignment_result \<Rightarrow> candidate_edge list" where
  "result_choice lefts res = map (\<lambda>l. \<lparr>cand_right = right_for_left res ! l, cand_left = int l, cand_cost = cost_for_left res ! l\<rparr>) [0..<lefts]"

definition assignment_ok :: "nat \<Rightarrow> int list \<Rightarrow> nat \<Rightarrow> candidate_edge list \<Rightarrow> assignment_result \<Rightarrow> bool" where
  "assignment_ok rights capacities lefts candidates res \<longleftrightarrow>
     length (right_for_left res) = lefts \<and> length (cost_for_left res) = lefts \<and> length (potentials res) = rights + lefts + 2 \<and>
     legal_choice rights capacities lefts candidates (result_choice lefts res) \<and>
     total_cost res = choice_cost (result_choice lefts res) \<and>
     certified rights capacities lefts candidates (result_choice lefts res) (potentials res)"

text \<open>Exact on both sides: a certified result, or an error only when there is no legal choice.\<close>

definition assign_contract ::
    "nat \<Rightarrow> int list \<Rightarrow> nat \<Rightarrow> candidate_edge list \<Rightarrow> channel_error + assignment_result \<Rightarrow> bool" where
  "assign_contract rights capacities lefts candidates r \<longleftrightarrow> (case r of
      Inr res \<Rightarrow> assignment_ok rights capacities lefts candidates res
    | Inl e \<Rightarrow> e = No_channel_assignment \<and> \<not> (\<exists>A. legal_choice rights capacities lefts candidates A))"

text \<open>
  The range of costs in which no sum leaves 64 bits and no distance reaches the sentinel of the search.
\<close>

definition assign_pre :: "nat \<Rightarrow> int list \<Rightarrow> nat \<Rightarrow> candidate_edge list \<Rightarrow> int \<Rightarrow> bool" where
  "assign_pre rights capacities lefts candidates C \<longleftrightarrow> length capacities = rights \<and> (\<forall>c \<in> set capacities. 0 \<le> c) \<and>
     (\<forall>c \<in> set candidates. candidate_in_range rights lefts c \<and> 0 \<le> cand_cost c \<and> cand_cost c \<le> C) \<and> 0 \<le> C \<and>
     int (lefts + 1) * (int (rights + lefts + 2) * C) < flow_infinity"

lemma assign_preD:
  assumes "assign_pre rights capacities lefts candidates C"
  shows "length capacities = rights" "r < rights \<Longrightarrow> 0 \<le> capacities ! r"
    "c \<in> set candidates \<Longrightarrow> candidate_in_range rights lefts c" "c \<in> set candidates \<Longrightarrow> 0 \<le> cand_cost c"
    "c \<in> set candidates \<Longrightarrow> cand_cost c \<le> C" "0 \<le> C"
    "int (lefts + 1) * (int (rights + lefts + 2) * C) < flow_infinity"
  using assms by (auto simp: assign_pre_def)

lemma in_rangeD:
  assumes "candidate_in_range rights lefts c"
  shows "0 \<le> cand_left c" "nat (cand_left c) < lefts" "0 \<le> cand_right c" "nat (cand_right c) < rights"
  using assms by (auto simp: candidate_in_range_def)

lemma right_load_Nil [simp]: "right_load [] r = 0"
  and right_load_Cons [simp]: "right_load (c # A) r = (if cand_right c = int r then 1 else 0) + right_load A r"
  by (simp_all add: right_load_def)

lemma right_load_nonneg [simp]: "0 \<le> right_load A r"
  by (induction A) auto

lemma load_sum:
  assumes "\<forall>c \<in> set A. 0 \<le> cand_right c \<and> nat (cand_right c) < rights"
  shows "(\<Sum>c \<leftarrow> A. q (nat (cand_right c))) = (\<Sum>r < rights. right_load A r * (q r :: int))"
  using assms
proof (induction A)
  case (Cons c A)
  have "(\<Sum>r < rights. (if cand_right c = int r then 1 else 0) * q r) = (\<Sum>r < rights. if nat (cand_right c) = r then q r else 0)"
    using Cons.prems by (intro sum.cong) auto
  also have "\<dots> = q (nat (cand_right c))" using Cons.prems by simp
  finally show ?case using Cons by (simp add: distrib_right sum.distrib)
qed simp

lemma legal_choice_set: "legal_choice rights capacities lefts candidates A \<Longrightarrow> c \<in> set A \<Longrightarrow> c \<in> set candidates"
  by (auto simp: legal_choice_def in_set_conv_nth)

text \<open>A certificate proves optimality.\<close>

lemma certified_optimal:
  assumes pre: "assign_pre rights capacities lefts candidates C"
    and A: "legal_choice rights capacities lefts candidates A" and B: "legal_choice rights capacities lefts candidates B"
    and cert: "certified rights capacities lefts candidates A p"
  shows "choice_cost A \<le> choice_cost B"
proof -
  have len: "length A = lefts" "length B = lefts" using A B by (auto simp: legal_choice_def)
  let ?q = "\<lambda>r. p ! (1 + r) - p ! 0" and ?s = "\<Sum>l < lefts. p ! (1 + rights + l)"
  have split: "choice_cost D = (\<Sum>l < lefts. reduced_cost rights p (D ! l)) -
      (\<Sum>r < rights. right_load D r * ?q r) - int lefts * p ! 0 + ?s"
    if D: "legal_choice rights capacities lefts candidates D" for D
  proof -
    have lenD: "length D = lefts" using D by (simp add: legal_choice_def)
    have range: "\<forall>c \<in> set D. 0 \<le> cand_right c \<and> nat (cand_right c) < rights"
      using legal_choice_set [OF D] assign_preD(3) [OF pre] in_rangeD by blast
    have "(\<Sum>r < rights. right_load D r * ?q r) = (\<Sum>l < lefts. ?q (nat (cand_right (D ! l))))"
      unfolding load_sum [OF range, symmetric] using lenD by (simp add: sum_list_sum_nth atLeast0LessThan)
    moreover have "choice_cost D = (\<Sum>l < lefts. cand_cost (D ! l))"
      using lenD by (simp add: choice_cost_def sum_list_sum_nth atLeast0LessThan)
    moreover have "(\<Sum>l < lefts. reduced_cost rights p (D ! l)) =
        (\<Sum>l < lefts. cand_cost (D ! l) + ?q (nat (cand_right (D ! l))) + p ! 0 - p ! (1 + rights + l))"
      using D by (intro sum.cong) (auto simp: reduced_cost_def legal_choice_def)
    ultimately show ?thesis by (simp add: sum.distrib sum_subtractf)
  qed
  have "reduced_cost rights p (A ! l) \<le> reduced_cost rights p (B ! l)" if l: "l < lefts" for l
  proof (cases "B ! l = A ! l")
    case False
    have "B ! l \<in> set candidates" "nat (cand_left (B ! l)) = l" using B l by (auto simp: legal_choice_def)
    then have "0 \<le> reduced_cost rights p (B ! l)" using cert False unfolding certified_def by metis
    moreover have "reduced_cost rights p (A ! l) \<le> 0" using cert l by (simp add: certified_def)
    ultimately show ?thesis by linarith
  qed simp
  then have red: "(\<Sum>l < lefts. reduced_cost rights p (A ! l)) \<le> (\<Sum>l < lefts. reduced_cost rights p (B ! l))"
    by (intro sum_mono) simp
  have "right_load B r * ?q r \<le> right_load A r * ?q r" if r: "r < rights" for r
  proof -
    have capB: "right_load B r \<le> capacities ! r" using B r by (simp add: legal_choice_def)
    consider "right_load B r < right_load A r" | "right_load B r = right_load A r" | "right_load A r < right_load B r" by linarith
    then show ?thesis
    proof cases
      case 1
      then have "0 < right_load A r" using right_load_nonneg [of B r] by linarith
      then have "0 \<le> ?q r" using cert r by (simp add: certified_def)
      then show ?thesis using 1 by (intro mult_right_mono) auto
    next
      case 3
      then have "?q r \<le> 0" using cert r capB by (simp add: certified_def)
      then show ?thesis using 3 by (intro mult_right_mono_neg) auto
    qed simp
  qed
  then have "(\<Sum>r < rights. right_load B r * ?q r) \<le> (\<Sum>r < rights. right_load A r * ?q r)"
    by (intro sum_mono) simp
  then show ?thesis using red unfolding split [OF A] split [OF B] by linarith
qed

section \<open>One candidate for every left\<close>

lemma unique_scan_spec:
  assumes "unique_scan rights lefts cs ur uc = Some (ur', uc')" "length ur = lefts" "length uc = lefts"
  shows "length ur' = lefts \<and> length uc' = lefts \<and>
    (\<forall>c \<in> set cs. candidate_in_range rights lefts c \<and> ur ! nat (cand_left c) < 0 \<and>
       ur' ! nat (cand_left c) = cand_right c \<and> uc' ! nat (cand_left c) = cand_cost c) \<and>
    (\<forall>l < lefts. 0 \<le> ur ! l \<longrightarrow> ur' ! l = ur ! l \<and> uc' ! l = uc ! l) \<and>
    (\<forall>l < lefts. ur' ! l \<noteq> ur ! l \<longrightarrow> (\<exists>c \<in> set cs. cand_left c = int l))"
  using assms
proof (induction rights lefts cs ur uc rule: unique_scan.induct)
  case (2 rights lefts c cs ur uc)
  let ?l = "nat (cand_left c)"
  have c: "candidate_in_range rights lefts c" "ur ! ?l < 0"
    and rest: "unique_scan rights lefts cs (ur[?l := cand_right c]) (uc[?l := cand_cost c]) = Some (ur', uc')"
    using 2(2) by (auto split: if_splits)
  note r = in_rangeD [OF c(1)]
  have IH: "length ur' = lefts" "length uc' = lefts"
    "\<forall>d \<in> set cs. candidate_in_range rights lefts d \<and> ur[?l := cand_right c] ! nat (cand_left d) < 0 \<and>
       ur' ! nat (cand_left d) = cand_right d \<and> uc' ! nat (cand_left d) = cand_cost d"
    "\<forall>l < lefts. 0 \<le> ur[?l := cand_right c] ! l \<longrightarrow> ur' ! l = ur[?l := cand_right c] ! l \<and> uc' ! l = uc[?l := cand_cost c] ! l"
    "\<forall>l < lefts. ur' ! l \<noteq> ur[?l := cand_right c] ! l \<longrightarrow> (\<exists>d \<in> set cs. cand_left d = int l)"
    using 2(1) [OF _ rest] c 2(3,4) by auto
  have at: "ur' ! ?l = cand_right c" "uc' ! ?l = cand_cost c"
    using IH(4) r 2(3,4) by auto
  have "ur ! nat (cand_left d) < 0" if "d \<in> set cs" for d
    using IH(3) that c(2) r 2(3) by (cases "nat (cand_left d) = ?l") auto
  moreover have "ur' ! l = ur ! l \<and> uc' ! l = uc ! l" if "l < lefts" "0 \<le> ur ! l" for l
    using IH(4) that c(2) 2(3,4) by (cases "l = ?l") auto
  moreover have "\<exists>d \<in> set (c # cs). cand_left d = int l" if "l < lefts" "ur' ! l \<noteq> ur ! l" for l
    using IH(5) that r(1) by (cases "l = ?l") auto
  ultimately show ?case using IH(1-3) at c by auto
qed simp

definition unique_choice :: "nat \<Rightarrow> int list \<Rightarrow> int list \<Rightarrow> candidate_edge list" where
  "unique_choice lefts ur uc = map (\<lambda>l. \<lparr>cand_right = ur ! l, cand_left = int l, cand_cost = uc ! l\<rparr>) [0..<lefts]"

lemma unique_choice_is:
  assumes "unique_scan rights lefts candidates (replicate lefts (- 1)) (replicate lefts 0) = Some (ur, uc)" "- 1 \<notin> set ur"
  shows "length ur = lefts" "length uc = lefts"
    "l < lefts \<Longrightarrow> unique_choice lefts ur uc ! l \<in> set candidates"
    "c \<in> set candidates \<Longrightarrow> nat (cand_left c) < lefts \<and> unique_choice lefts ur uc ! nat (cand_left c) = c"
    "l < lefts \<Longrightarrow> candidate_in_range rights lefts (unique_choice lefts ur uc ! l)"
proof -
  note spec = unique_scan_spec [OF assms(1)]
  show len: "length ur = lefts" "length uc = lefts" using spec by auto
  show all: "c \<in> set candidates \<Longrightarrow> nat (cand_left c) < lefts \<and> unique_choice lefts ur uc ! nat (cand_left c) = c" for c
    using spec in_rangeD [of rights lefts c] by (auto simp: unique_choice_def)
  show mem: "unique_choice lefts ur uc ! l \<in> set candidates" if "l < lefts" for l
  proof -
    have "ur ! l \<noteq> - 1" using assms(2) that len by (metis nth_mem)
    then have "\<exists>c \<in> set candidates. cand_left c = int l" using spec that by simp
    then obtain c where "c \<in> set candidates" "cand_left c = int l" by blast
    then show ?thesis using all [of c] by simp
  qed
  show "candidate_in_range rights lefts (unique_choice lefts ur uc ! l)" if "l < lefts"
    using mem [OF that] spec by auto
qed

lemma unique_bind_spec:
  fixes used :: "int list"
  assumes "\<forall>l \<in> set ls. l < lefts \<and> 0 \<le> rs ! l \<and> nat (rs ! l) < rights \<and> 0 \<le> cs ! l"
    and "length used = rights" "length p = rights + lefts + 2" "0 \<le> tot" "tot + (\<Sum>l \<leftarrow> ls. cs ! l) \<le> INT64_MAX"
    and "\<forall>r < rights. used ! r \<le> capacities ! r"
  shows "case unique_bind capacities (1 + rights) (1 + rights + lefts) ls used
        \<lparr>right_for_left = rs, cost_for_left = cs, total_cost = tot, potentials = p\<rparr> of
      Inl e \<Rightarrow> e = No_channel_assignment \<and>
        (\<exists>r < rights. capacities ! r < used ! r + (\<Sum>l \<leftarrow> ls. if rs ! l = int r then 1 else 0))
    | Inr res \<Rightarrow> right_for_left res = rs \<and> cost_for_left res = cs \<and> total_cost res = tot + (\<Sum>l \<leftarrow> ls. cs ! l) \<and>
        length (potentials res) = rights + lefts + 2 \<and>
        (\<forall>j < 1 + rights. potentials res ! j = p ! j) \<and>
        (\<forall>l < lefts. potentials res ! (1 + rights + l) = (if l \<in> set ls then cs ! l else p ! (1 + rights + l))) \<and>
        (\<forall>r < rights. used ! r + (\<Sum>l \<leftarrow> ls. if rs ! l = int r then 1 else 0) \<le> capacities ! r)"
  using assms
proof (induction ls arbitrary: used p tot)
  case Nil
  then show ?case by simp
next
  case (Cons l ls)
  let ?r = "nat (rs ! l)"
  let ?used = "used[?r := used ! ?r + 1]"
  let ?p = "p[1 + rights + l := cs ! l]"
  let ?p' = "?p[1 + rights + lefts := max (?p ! (1 + rights + lefts)) (cs ! l)]"
  have l: "l < lefts" "0 \<le> rs ! l" "?r < rights" "0 \<le> cs ! l" using Cons.prems(1) by auto
  have nonneg: "0 \<le> (\<Sum>l \<leftarrow> ls. cs ! l)" using Cons.prems(1) by (intro sum_list_nonneg) auto
  have loads: "0 \<le> (\<Sum>l \<leftarrow> ls. if rs ! l = int r then 1 else 0 :: int)" for r by (intro sum_list_nonneg) auto
  show ?case
  proof (cases "?used ! ?r > capacities ! ?r")
    case True
    have "capacities ! ?r < used ! ?r + (\<Sum>l \<leftarrow> l # ls. if rs ! l = int ?r then 1 else 0)"
      using True l loads [of ?r] Cons.prems(2) by simp
    then have "\<exists>r < rights. capacities ! r < used ! r + (\<Sum>l \<leftarrow> l # ls. if rs ! l = int r then 1 else 0)"
      using l(3) by blast
    moreover have "unique_bind capacities (1 + rights) (1 + rights + lefts) (l # ls) used
        \<lparr>right_for_left = rs, cost_for_left = cs, total_cost = tot, potentials = p\<rparr> = Inl No_channel_assignment"
      using True by (simp add: Let_def)
    ultimately show ?thesis by simp
  next
    case False
    have fits: "int64_ok (INT64_MAX - tot)" "\<not> cs ! l > INT64_MAX - tot" "int64_ok (tot + cs ! l)"
      using Cons.prems(4,5) l(4) nonneg by (auto simp: int64_ok_def INT64_MAX_def)
    have step: "unique_bind capacities (1 + rights) (1 + rights + lefts) (l # ls) used
          \<lparr>right_for_left = rs, cost_for_left = cs, total_cost = tot, potentials = p\<rparr> =
        unique_bind capacities (1 + rights) (1 + rights + lefts) ls ?used
          \<lparr>right_for_left = rs, cost_for_left = cs, total_cost = tot + cs ! l, potentials = ?p'\<rparr>"
      using False fits by (simp add: Let_def)
    have pre: "\<forall>l \<in> set ls. l < lefts \<and> 0 \<le> rs ! l \<and> nat (rs ! l) < rights \<and> 0 \<le> cs ! l"
      "length ?used = rights" "length ?p' = rights + lefts + 2" "0 \<le> tot + cs ! l"
      "(tot + cs ! l) + (\<Sum>l \<leftarrow> ls. cs ! l) \<le> INT64_MAX" "\<forall>r < rights. ?used ! r \<le> capacities ! r"
      using Cons.prems l False by (auto simp: nth_list_update)
    have used: "r < rights \<Longrightarrow> ?used ! r = used ! r + (if rs ! l = int r then 1 else 0)" for r
      using l(2) Cons.prems(2) by (auto simp: nth_list_update)
    have pot: "j < 1 + rights \<Longrightarrow> ?p' ! j = p ! j" for j by simp
    have pot2: "j < lefts \<Longrightarrow> ?p' ! (1 + rights + j) = (if j = l then cs ! l else p ! (1 + rights + j))" for j
      using Cons.prems(3) by (simp add: nth_list_update)
    note IH = Cons.IH [OF pre]
    show ?thesis
    proof (cases "unique_bind capacities (1 + rights) (1 + rights + lefts) ls ?used
          \<lparr>right_for_left = rs, cost_for_left = cs, total_cost = tot + cs ! l, potentials = ?p'\<rparr>")
      case (Inl e)
      then show ?thesis unfolding step using IH used by (auto simp: add.assoc)
    next
      case (Inr res)
      have "right_for_left res = rs \<and> cost_for_left res = cs \<and> total_cost res = tot + cs ! l + (\<Sum>l \<leftarrow> ls. cs ! l)"
        "length (potentials res) = rights + lefts + 2" "\<forall>j < 1 + rights. potentials res ! j = ?p' ! j"
        "\<forall>j < lefts. potentials res ! (1 + rights + j) = (if j \<in> set ls then cs ! j else ?p' ! (1 + rights + j))"
        "\<forall>r < rights. ?used ! r + (\<Sum>l \<leftarrow> ls. if rs ! l = int r then 1 else 0) \<le> capacities ! r"
        using IH unfolding Inr by simp_all
      then show ?thesis unfolding step Inr using used pot pot2 by (auto simp: add.assoc)
    qed
  qed
qed

text \<open>There is no other choice than the direct one.\<close>

lemma unique_only:
  assumes scan: "unique_scan rights lefts candidates (replicate lefts (- 1)) (replicate lefts 0) = Some (ur, uc)"
    and full: "- 1 \<notin> set ur" and B: "legal_choice rights capacities lefts candidates B"
  shows "B = unique_choice lefts ur uc"
proof (rule nth_equalityI)
  show len: "length B = length (unique_choice lefts ur uc)" using B by (simp add: legal_choice_def unique_choice_def)
  fix l assume "l < length B"
  then have l: "l < lefts" using len by (simp add: unique_choice_def)
  have "B ! l \<in> set candidates" "nat (cand_left (B ! l)) = l" using B l by (auto simp: legal_choice_def)
  then show "B ! l = unique_choice lefts ur uc ! l" using unique_choice_is(4) [OF scan full, of "B ! l"] by simp
qed

lemma sum_list_bound: "\<forall>x \<in> set xs. f x \<le> (C::int) \<Longrightarrow> (\<Sum>x \<leftarrow> xs. f x) \<le> int (length xs) * C"
  by (induction xs) (auto simp: algebra_simps)

lemma assign_unique_contract:
  assumes pre: "assign_pre rights capacities lefts candidates C" and some: "assign_unique rights capacities lefts candidates = Some r"
  shows "assign_contract rights capacities lefts candidates r"
proof -
  obtain ur uc where scan: "unique_scan rights lefts candidates (replicate lefts (- 1)) (replicate lefts 0) = Some (ur, uc)"
    and full: "- 1 \<notin> set ur"
    and r: "r = unique_bind capacities (1 + rights) (1 + rights + lefts) [0..<lefts] (replicate rights 0)
         \<lparr>right_for_left = ur, cost_for_left = uc, total_cost = 0, potentials = replicate (rights + lefts + 2) 0\<rparr>"
    using some by (auto simp: assign_unique_def split: option.splits if_splits)
  let ?A = "unique_choice lefts ur uc"
  note uniq = unique_choice_is [OF scan full]
  have A: "?A ! l = \<lparr>cand_right = ur ! l, cand_left = int l, cand_cost = uc ! l\<rparr>" if "l < lefts" for l
    using that by (simp add: unique_choice_def)
  have range: "0 \<le> ur ! l \<and> nat (ur ! l) < rights \<and> 0 \<le> uc ! l \<and> uc ! l \<le> C" if "l < lefts" for l
    using in_rangeD(3,4) [OF uniq(5) [OF that]] assign_preD(4,5) [OF pre uniq(3) [OF that]] A [OF that] by simp
  have load: "right_load ?A j = (\<Sum>l \<leftarrow> [0..<lefts]. if ur ! l = int j then 1 else 0)" for j
    by (simp add: right_load_def unique_choice_def comp_def)
  have cost: "choice_cost ?A = (\<Sum>l \<leftarrow> [0..<lefts]. uc ! l)"
    by (simp add: choice_cost_def unique_choice_def comp_def)
  have "(\<Sum>l \<leftarrow> [0..<lefts]. uc ! l) \<le> int lefts * C"
    using sum_list_bound [of "[0..<lefts]" "\<lambda>l. uc ! l" C] range by simp
  moreover have "int lefts * C \<le> int (lefts + 1) * (int (rights + lefts + 2) * C)"
    using assign_preD(6) [OF pre] by (intro mult_mono) (auto simp: mult_le_cancel_right1)
  ultimately have small: "0 + (\<Sum>l \<leftarrow> [0..<lefts]. uc ! l) \<le> INT64_MAX"
    using assign_preD(7) [OF pre] by (simp add: flow_infinity_def INT64_MAX_def)
  have z: "j < 1 + rights \<Longrightarrow> replicate (rights + lefts + 2) (0::int) ! j = 0" for j by (simp only: nth_replicate)
  have "\<forall>l \<in> set [0..<lefts]. l < lefts \<and> 0 \<le> ur ! l \<and> nat (ur ! l) < rights \<and> 0 \<le> uc ! l" using range by simp
  note spec = unique_bind_spec [OF this, of "replicate rights 0" "replicate (rights + lefts + 2) 0" 0 capacities, OF _ _ _ small,
    folded r load cost]
  have spec: "case r of Inl e \<Rightarrow> e = No_channel_assignment \<and> (\<exists>j < rights. capacities ! j < right_load ?A j)
    | Inr res \<Rightarrow> right_for_left res = ur \<and> cost_for_left res = uc \<and> total_cost res = choice_cost ?A \<and>
        length (potentials res) = rights + lefts + 2 \<and> (\<forall>j < 1 + rights. potentials res ! j = 0) \<and>
        (\<forall>l < lefts. potentials res ! (1 + rights + l) = uc ! l) \<and> (\<forall>j < rights. right_load ?A j \<le> capacities ! j)"
    using spec assign_preD(2) [OF pre] z by (cases r) (auto simp del: replicate_Suc)
  show ?thesis
  proof (cases r)
    case (Inl e)
    then obtain j where j: "j < rights" "\<not> right_load ?A j \<le> capacities ! j" using spec by auto
    have "\<not> legal_choice rights capacities lefts candidates B" for B
    proof
      assume B: "legal_choice rights capacities lefts candidates B"
      then show False using j unfolding legal_choice_def unique_only [OF scan full B] by blast
    qed
    then show ?thesis using Inl spec by (simp add: assign_contract_def)
  next
    case (Inr res)
    note s = spec [unfolded Inr sum.case]
    have choice: "result_choice lefts res = ?A" using s by (simp add: result_choice_def unique_choice_def)
    have legal: "legal_choice rights capacities lefts candidates ?A"
      using uniq(3) A s by (simp add: legal_choice_def unique_choice_def)
    have red: "reduced_cost rights (potentials res) (?A ! l) = 0" if "l < lefts" for l
      using A [OF that] range [OF that] s that by (simp add: reduced_cost_def)
    have "certified rights capacities lefts candidates ?A (potentials res)"
      using uniq(4) red s by (auto simp: certified_def)
    then show ?thesis using Inr s legal choice uniq(1,2) by (simp add: assign_contract_def assignment_ok_def)
  qed
qed

end
