(* ===== verification/Flow_Layers.thy ===== *)
theory Flow_Layers
  imports Flow_Arcs
begin

text \<open>
  Networks of an assignment: a source, a layer of rights with capacities, a layer of types with demands, a
  sink, and links of capacity one from rights to types. The arcs may be in any order, as long as the source
  arcs and the sink arcs come in the order of their nodes. A flow that serves all demands is a choice of links
  that respects the capacities, and every such choice is a flow.
\<close>

definition source_arc :: "(nat \<Rightarrow> int) \<Rightarrow> nat \<Rightarrow> arc" where
  "source_arc caps r = \<lparr>arc_from = 0, arc_to = 1 + r, arc_capacity = caps r, arc_cost = 0\<rparr>"

definition sink_arc :: "nat \<Rightarrow> nat \<Rightarrow> (nat \<Rightarrow> int) \<Rightarrow> nat \<Rightarrow> arc" where
  "sink_arc rc tc dem t = \<lparr>arc_from = 1 + rc + t, arc_to = 1 + rc + tc, arc_capacity = dem t, arc_cost = 0\<rparr>"

definition link_arc :: "nat \<Rightarrow> nat \<Rightarrow> nat \<Rightarrow> int \<Rightarrow> arc" where
  "link_arc rc r t c = \<lparr>arc_from = 1 + r, arc_to = 1 + rc + t, arc_capacity = 1, arc_cost = c\<rparr>"

definition is_link :: "nat \<Rightarrow> arc \<Rightarrow> bool" where
  "is_link sink a \<longleftrightarrow> arc_from a \<noteq> 0 \<and> arc_to a \<noteq> sink"

definition layered :: "nat \<Rightarrow> nat \<Rightarrow> (nat \<Rightarrow> int) \<Rightarrow> (nat \<Rightarrow> int) \<Rightarrow> arc list \<Rightarrow> bool" where
  "layered rc tc caps dem as \<longleftrightarrow>
     filter (\<lambda>a. arc_from a = 0) as = map (source_arc caps) [0..<rc] \<and>
     filter (\<lambda>a. arc_from a \<noteq> 0 \<and> arc_to a = 1 + rc + tc) as = map (sink_arc rc tc dem) [0..<tc] \<and>
     (\<forall>a \<in> set as. is_link (1 + rc + tc) a \<longrightarrow> (\<exists>r < rc. \<exists>t < tc. \<exists>c. a = link_arc rc r t c)) \<and>
     (\<forall>r < rc. 0 \<le> caps r) \<and> (\<forall>t < tc. 0 \<le> dem t)"

text \<open>The positions of the arcs of each kind.\<close>

definition positions :: "(arc \<Rightarrow> bool) \<Rightarrow> arc list \<Rightarrow> nat list" where
  "positions P as = filter (\<lambda>k. P (as ! k)) [0..<length as]"

definition source_positions :: "arc list \<Rightarrow> nat list" where
  "source_positions as = positions (\<lambda>a. arc_from a = 0) as"

definition sink_positions :: "nat \<Rightarrow> arc list \<Rightarrow> nat list" where
  "sink_positions sink as = positions (\<lambda>a. arc_from a \<noteq> 0 \<and> arc_to a = sink) as"

definition link_positions :: "nat \<Rightarrow> arc list \<Rightarrow> nat list" where
  "link_positions sink as = positions (is_link sink) as"

lemma set_positions: "k \<in> set (positions P as) \<longleftrightarrow> k < length as \<and> P (as ! k)"
  by (auto simp: positions_def)

lemma distinct_positions [simp]: "distinct (positions P as)"
  by (simp add: positions_def)

lemma map_positions: "map ((!) as) (positions P as) = filter P as"
proof -
  have "map ((!) as) (positions P as) = filter P (map ((!) as) [0..<length as])"
    by (simp add: positions_def filter_map comp_def)
  then show ?thesis by (simp add: map_nth)
qed

lemma positions_snoc_arc:
  "positions P (as @ [a]) = positions P as @ (if P a then [length as] else [])"
  by (auto simp: positions_def nth_append intro!: filter_cong)

lemma positions_nth:
  assumes "filter P as = map h [0..<m]"
  shows "length (positions P as) = m" "i < m \<Longrightarrow> as ! (positions P as ! i) = h i" "i < m \<Longrightarrow> positions P as ! i < length as"
proof -
  have m: "map ((!) as) (positions P as) = map h [0..<m]" using assms map_positions by metis
  then have "length (map ((!) as) (positions P as)) = length (map h [0..<m])" by simp
  then show l: "length (positions P as) = m" by simp
  show "as ! (positions P as ! i) = h i" if "i < m"
    using arg_cong [OF m, of "\<lambda>xs. xs ! i"] l that by simp
  show "positions P as ! i < length as" if "i < m"
    using nth_mem [of i "positions P as"] l that by (simp add: set_positions)
qed

lemma sum_list_length:
  fixes F :: "nat \<Rightarrow> int"
  shows "length ks = m \<Longrightarrow> (\<Sum>k \<leftarrow> ks. F k) = (\<Sum>i < m. F (ks ! i))"
  by (simp add: sum_list_sum_nth atLeast0LessThan)

lemma set_link_positions: "k \<in> set (link_positions sink as) \<longleftrightarrow> k < length as \<and> is_link sink (as ! k)"
  by (simp add: link_positions_def set_positions)

lemma sum_layers:
  fixes F :: "nat \<Rightarrow> int"
  shows "(\<Sum>k < length as. F k) = (\<Sum>k \<leftarrow> source_positions as. F k) +
    (\<Sum>k \<leftarrow> link_positions sink as. F k) + (\<Sum>k \<leftarrow> sink_positions sink as. F k)"
proof (induction as rule: rev_induct)
  case (snoc a as)
  then show ?case
    by (auto simp: source_positions_def sink_positions_def link_positions_def positions_snoc_arc is_link_def)
qed (simp add: source_positions_def sink_positions_def link_positions_def positions_def)

section \<open>Flows of a layered network\<close>

definition link_out :: "nat \<Rightarrow> arc list \<Rightarrow> (nat \<Rightarrow> int) \<Rightarrow> nat \<Rightarrow> int" where
  "link_out sink as f x = (\<Sum>k \<leftarrow> link_positions sink as. if arc_from (as ! k) = x then f k else 0)"

definition link_in :: "nat \<Rightarrow> arc list \<Rightarrow> (nat \<Rightarrow> int) \<Rightarrow> nat \<Rightarrow> int" where
  "link_in sink as f x = (\<Sum>k \<leftarrow> link_positions sink as. if arc_to (as ! k) = x then f k else 0)"

lemma layeredD:
  assumes "layered rc tc caps dem as"
  shows "filter (\<lambda>a. arc_from a = 0) as = map (source_arc caps) [0..<rc]"
    "filter (\<lambda>a. arc_from a \<noteq> 0 \<and> arc_to a = 1 + rc + tc) as = map (sink_arc rc tc dem) [0..<tc]"
    "k \<in> set (link_positions (1 + rc + tc) as) \<Longrightarrow> \<exists>r < rc. \<exists>t < tc. \<exists>c. as ! k = link_arc rc r t c"
    "r < rc \<Longrightarrow> 0 \<le> caps r" "t < tc \<Longrightarrow> 0 \<le> dem t"
  using assms by (auto simp: layered_def set_link_positions)

lemma layered_positions:
  assumes "layered rc tc caps dem as"
  shows "length (source_positions as) = rc" "r < rc \<Longrightarrow> as ! (source_positions as ! r) = source_arc caps r"
    "r < rc \<Longrightarrow> source_positions as ! r < length as"
    "length (sink_positions (1 + rc + tc) as) = tc"
    "t < tc \<Longrightarrow> as ! (sink_positions (1 + rc + tc) as ! t) = sink_arc rc tc dem t"
    "t < tc \<Longrightarrow> sink_positions (1 + rc + tc) as ! t < length as"
  unfolding source_positions_def sink_positions_def
  using positions_nth [OF layeredD(1) [OF assms]] positions_nth [OF layeredD(2) [OF assms]] by blast+

lemma layered_arc_cases:
  assumes "layered rc tc caps dem as" "a \<in> set as"
  obtains r where "r < rc" "a = source_arc caps r" | t where "t < tc" "a = sink_arc rc tc dem t"
    | r t c where "r < rc" "t < tc" "a = link_arc rc r t c" "is_link (1 + rc + tc) a"
proof -
  note lay = layeredD [OF assms(1)]
  consider "arc_from a = 0" | "arc_from a \<noteq> 0" "arc_to a = 1 + rc + tc" | "is_link (1 + rc + tc) a"
    by (auto simp: is_link_def)
  then show ?thesis
  proof cases
    case 1
    then have "a \<in> set (map (source_arc caps) [0..<rc])" using assms(2) unfolding lay(1) [symmetric] by simp
    then show ?thesis using that(1) by auto
  next
    case 2
    then have "a \<in> set (map (sink_arc rc tc dem) [0..<tc])" using assms(2) unfolding lay(2) [symmetric] by simp
    then show ?thesis using that(2) by auto
  next
    case 3
    then show ?thesis using assms that(3) by (auto simp: layered_def)
  qed
qed

lemma layered_arcs_ok:
  assumes "layered rc tc caps dem as"
  shows "arcs_ok (rc + tc + 2) as"
  unfolding arcs_ok_def
proof
  fix a
  assume "a \<in> set as"
  with assms show "arc_from a < rc + tc + 2 \<and> arc_to a < rc + tc + 2 \<and> arc_from a \<noteq> arc_to a \<and> 0 \<le> arc_capacity a"
    by (cases rule: layered_arc_cases) (auto simp: source_arc_def sink_arc_def link_arc_def layeredD(4,5) [OF assms])
qed

lemma sum_list_cong_set: "(\<And>k. k \<in> set ks \<Longrightarrow> F k = G k) \<Longrightarrow> (\<Sum>k \<leftarrow> ks. F k) = (\<Sum>k \<leftarrow> ks. G k :: int)"
  by (rule arg_cong [where f = sum_list]) simp

text \<open>What leaves a node of each layer.\<close>

lemma layered_net_out:
  assumes lay: "layered rc tc caps dem as"
  shows "net_out as f 0 = (\<Sum>r < rc. f (source_positions as ! r))"
    "r < rc \<Longrightarrow> net_out as f (1 + r) = link_out (1 + rc + tc) as f (1 + r) - f (source_positions as ! r)"
    "t < tc \<Longrightarrow> net_out as f (1 + rc + t) = f (sink_positions (1 + rc + tc) as ! t) - link_in (1 + rc + tc) as f (1 + rc + t)"
    "net_out as f (1 + rc + tc) = - (\<Sum>t < tc. f (sink_positions (1 + rc + tc) as ! t))"
proof -
  note l = layeredD [OF lay] and s = layered_positions(1-3) [OF lay] and e = layered_positions(4-6) [OF lay]
  let ?S = "source_positions as" and ?L = "link_positions (1 + rc + tc) as" and ?E = "sink_positions (1 + rc + tc) as"
  let ?F = "\<lambda>x k. (if arc_from (as ! k) = x then f k else 0) - (if arc_to (as ! k) = x then f k else 0)"
  have split: "net_out as f x = (\<Sum>r < rc. ?F x (?S ! r)) + (\<Sum>k \<leftarrow> ?L. ?F x k) + (\<Sum>t < tc. ?F x (?E ! t))" for x
    unfolding net_out_def sum_layers [of _ as "1 + rc + tc"] sum_list_length [OF s(1)] sum_list_length [OF e(1)] ..
  have src: "(\<Sum>r < rc. ?F x (?S ! r)) = (\<Sum>r < rc. (if x = 0 then f (?S ! r) else 0) - (if x = 1 + r then f (?S ! r) else 0))" for x
    by (intro sum.cong) (auto simp: s(2) source_arc_def)
  have snk: "(\<Sum>t < tc. ?F x (?E ! t)) = (\<Sum>t < tc. (if x = 1 + rc + t then f (?E ! t) else 0) - (if x = 1 + rc + tc then f (?E ! t) else 0))" for x
    by (intro sum.cong) (auto simp: e(2) [simplified] sink_arc_def)
  have lnk: "(\<Sum>k \<leftarrow> ?L. ?F x k) = link_out (1 + rc + tc) as f x - link_in (1 + rc + tc) as f x" for x
    by (simp add: link_out_def link_in_def sum_list_subtractf)
  have out0: "link_out (1 + rc + tc) as f x = 0" if "x = 0 \<or> rc < x" for x
  proof -
    have "link_out (1 + rc + tc) as f x = (\<Sum>k \<leftarrow> ?L. 0)" unfolding link_out_def
      by (rule sum_list_cong_set) (use l(3) that in \<open>force simp: link_arc_def\<close>)
    then show ?thesis by simp
  qed
  have in0: "link_in (1 + rc + tc) as f x = 0" if "x \<le> rc \<or> x = 1 + rc + tc" for x
  proof -
    have "link_in (1 + rc + tc) as f x = (\<Sum>k \<leftarrow> ?L. 0)" unfolding link_in_def
      by (rule sum_list_cong_set) (use l(3) that in \<open>force simp: link_arc_def\<close>)
    then show ?thesis by simp
  qed
  have pick: "m < n \<Longrightarrow> (\<Sum>i < n. if c + m = c + i then F i else 0) = F m" for c m n :: nat and F :: "nat \<Rightarrow> int"
    by simp
  show "net_out as f 0 = (\<Sum>r < rc. f (?S ! r))"
    unfolding split src snk lnk using out0 [of 0] in0 [of 0] by simp
  show "net_out as f (1 + r) = link_out (1 + rc + tc) as f (1 + r) - f (?S ! r)" if "r < rc"
    unfolding split src snk lnk using in0 [of "1 + r"] that by (simp add: sum_subtractf sum_negf)
  show "net_out as f (1 + rc + t) = f (?E ! t) - link_in (1 + rc + tc) as f (1 + rc + t)" if "t < tc"
    unfolding split src snk lnk using out0 [of "1 + rc + t"] that by (simp add: sum_subtractf sum.neutral)
  show "net_out as f (1 + rc + tc) = - (\<Sum>t < tc. f (?E ! t))"
    unfolding split src snk lnk using out0 [of "1 + rc + tc"] in0 [of "1 + rc + tc"] by (simp add: sum_negf)
qed

text \<open>A flow of the value of all demands serves each of them.\<close>

lemma layered_flow:
  assumes lay: "layered rc tc caps dem as"
    and flow: "arc_flow (rc + tc + 2) as 0 (1 + rc + tc) (\<Sum>t < tc. dem t) f"
  shows "r < rc \<Longrightarrow> f (source_positions as ! r) = link_out (1 + rc + tc) as f (1 + r)"
    "r < rc \<Longrightarrow> link_out (1 + rc + tc) as f (1 + r) \<le> caps r"
    "t < tc \<Longrightarrow> link_in (1 + rc + tc) as f (1 + rc + t) = dem t"
    "k \<in> set (link_positions (1 + rc + tc) as) \<Longrightarrow> f k = 0 \<or> f k = 1"
proof -
  note l = layeredD [OF lay] and s = layered_positions(1-3) [OF lay] and e = layered_positions(4-6) [OF lay]
    and out = layered_net_out [OF lay]
  let ?S = "source_positions as" and ?E = "sink_positions (1 + rc + tc) as"
  have cap: "k < length as \<Longrightarrow> 0 \<le> f k \<and> f k \<le> arc_capacity (as ! k)" for k using flow by (simp add: arc_flow_def)
  have node: "x < rc + tc + 2 \<Longrightarrow> net_out as f x = (if x = 0 then \<Sum>t < tc. dem t else 0) -
      (if x = 1 + rc + tc then \<Sum>t < tc. dem t else 0)" for x
    using flow by (simp add: arc_flow_def)
  show src: "f (source_positions as ! r) = link_out (1 + rc + tc) as f (1 + r)" if "r < rc" for r
    using out(2) [OF that, of f] node [of "1 + r"] that by simp
  show "link_out (1 + rc + tc) as f (1 + r) \<le> caps r" if "r < rc"
    using src [OF that] cap [OF s(3) [OF that]] s(2) [OF that] by (simp add: source_arc_def)
  have full: "f (?E ! t) \<le> dem t" if "t < tc" for t
    using cap [OF e(3) [OF that]] e(2) [OF that] by (simp add: sink_arc_def)
  have "(\<Sum>t < tc. dem t - f (?E ! t)) = 0"
    using out(4) [of f] node [of "1 + rc + tc"] by (simp add: sum_subtractf)
  then have "f (?E ! t) = dem t" if "t < tc" for t
    using that full sum_nonneg_eq_0_iff [of "{..<tc}" "\<lambda>t. dem t - f (?E ! t)"] by force
  then show "link_in (1 + rc + tc) as f (1 + rc + t) = dem t" if "t < tc"
    using out(3) [OF that, of f] node [of "1 + rc + t"] that by simp
  show "f k = 0 \<or> f k = 1" if "k \<in> set (link_positions (1 + rc + tc) as)"
    using l(3) [OF that] cap [of k] that by (auto simp: set_link_positions link_arc_def)
qed

definition choice_flow :: "nat \<Rightarrow> nat \<Rightarrow> (nat \<Rightarrow> int) \<Rightarrow> arc list \<Rightarrow> (nat \<Rightarrow> int) \<Rightarrow> nat \<Rightarrow> int" where
  "choice_flow rc tc dem as h k =
    (if arc_from (as ! k) = 0 then link_out (1 + rc + tc) as h (arc_to (as ! k))
     else if arc_to (as ! k) = 1 + rc + tc then dem (arc_from (as ! k) - (1 + rc)) else h k)"

lemma choice_flow_link:
  "k \<in> set (link_positions (1 + rc + tc) as) \<Longrightarrow> choice_flow rc tc dem as h k = h k"
  by (simp add: choice_flow_def set_link_positions is_link_def)

lemma link_sum_exchange:
  assumes lay: "layered rc tc caps dem as"
  shows "(\<Sum>r < rc. link_out (1 + rc + tc) as h (1 + r)) = (\<Sum>t < tc. link_in (1 + rc + tc) as h (1 + rc + t))"
proof -
  let ?L = "link_positions (1 + rc + tc) as"
  have swap: "(\<Sum>i < n. \<Sum>k \<leftarrow> ks. H i k) = (\<Sum>k \<leftarrow> ks. \<Sum>i < n. H i k)" for n ks and H :: "nat \<Rightarrow> nat \<Rightarrow> int"
    by (induction ks) (simp_all add: sum.distrib)
  have "(\<Sum>r < rc. if arc_from (as ! k) = 1 + r then h k else 0) = (\<Sum>t < tc. if arc_to (as ! k) = 1 + rc + t then h k else 0)"
    if "k \<in> set ?L" for k
    using layeredD(3) [OF lay that] by (auto simp: link_arc_def)
  then show ?thesis unfolding link_out_def link_in_def swap by (rule sum_list_cong_set)
qed

lemma layered_choice:
  assumes lay: "layered rc tc caps dem as"
    and h: "\<And>k. k \<in> set (link_positions (1 + rc + tc) as) \<Longrightarrow> h k = 0 \<or> h k = 1"
    and rights: "\<And>r. r < rc \<Longrightarrow> link_out (1 + rc + tc) as h (1 + r) \<le> caps r"
    and types: "\<And>t. t < tc \<Longrightarrow> link_in (1 + rc + tc) as h (1 + rc + t) = dem t"
  shows "arc_flow (rc + tc + 2) as 0 (1 + rc + tc) (\<Sum>t < tc. dem t) (choice_flow rc tc dem as h)"
proof -
  let ?f = "choice_flow rc tc dem as h"
  note l = layeredD [OF lay] and s = layered_positions(1-3) [OF lay] and e = layered_positions(4-6) [OF lay]
    and out = layered_net_out [OF lay]
  let ?S = "source_positions as" and ?E = "sink_positions (1 + rc + tc) as" and ?L = "link_positions (1 + rc + tc) as"
  have src: "?f (?S ! r) = link_out (1 + rc + tc) as h (1 + r)" if "r < rc" for r
    using s(2) [OF that] by (simp add: choice_flow_def source_arc_def)
  have snk: "?f (?E ! t) = dem t" if "t < tc" for t
    using e(2) [OF that] by (simp add: choice_flow_def sink_arc_def)
  have lo: "link_out (1 + rc + tc) as ?f x = link_out (1 + rc + tc) as h x" for x
    unfolding link_out_def by (rule sum_list_cong_set) (simp add: choice_flow_link)
  have li: "link_in (1 + rc + tc) as ?f x = link_in (1 + rc + tc) as h x" for x
    unfolding link_in_def by (rule sum_list_cong_set) (simp add: choice_flow_link)
  have nonneg: "0 \<le> link_out (1 + rc + tc) as h x" for x
    unfolding link_out_def by (intro sum_list_nonneg) (use h in force)
  have total: "(\<Sum>r < rc. link_out (1 + rc + tc) as h (1 + r)) = (\<Sum>t < tc. dem t)"
    unfolding link_sum_exchange [OF lay] using types by simp
  have "0 \<le> ?f k \<and> ?f k \<le> arc_capacity (as ! k)" if k: "k < length as" for k
  proof -
    have a: "as ! k \<in> set as" using k by simp
    show ?thesis using lay a
    proof (cases rule: layered_arc_cases)
      case (1 r)
      then show ?thesis using nonneg rights [OF 1(1)] by (simp add: choice_flow_def source_arc_def)
    next
      case (2 t)
      then show ?thesis using l(5) [OF 2(1)] by (simp add: choice_flow_def sink_arc_def)
    next
      case (3 r t c)
      then have kL: "k \<in> set ?L" using k by (simp add: set_link_positions)
      then show ?thesis using h [OF kL] choice_flow_link [OF kL, of dem h] 3(3) by (auto simp: link_arc_def)
    qed
  qed
  moreover have "net_out as ?f x = (if x = 0 then \<Sum>t < tc. dem t else 0) - (if x = 1 + rc + tc then \<Sum>t < tc. dem t else 0)"
    if x: "x < rc + tc + 2" for x
  proof -
    consider "x = 0" | r where "r < rc" "x = 1 + r" | t where "t < tc" "x = 1 + rc + t" | "x = 1 + rc + tc"
    proof -
      have "x = 0 \<or> x - 1 < rc \<and> x = 1 + (x - 1) \<or> x - (1 + rc) < tc \<and> x = 1 + rc + (x - (1 + rc)) \<or> x = 1 + rc + tc"
        using x by linarith
      then show ?thesis using that by blast
    qed
    then show ?thesis
    proof cases
      case 1
      have "net_out as ?f 0 = (\<Sum>r < rc. link_out (1 + rc + tc) as h (1 + r))" unfolding out(1) by (simp add: src)
      then show ?thesis using 1 total by simp
    next
      case 2
      then show ?thesis using out(2) [OF 2(1), of ?f] lo src by simp
    next
      case 3
      then show ?thesis using out(3) [OF 3(1), of ?f] li snk types by simp
    next
      case 4
      then show ?thesis using out(4) [of ?f] snk by simp
    qed
  qed
  ultimately show ?thesis by (simp add: arc_flow_def)
qed

text \<open>Links with flow one, counted.\<close>

definition used_links :: "nat \<Rightarrow> arc list \<Rightarrow> (nat \<Rightarrow> int) \<Rightarrow> nat set" where
  "used_links sink as f = {k. k < length as \<and> is_link sink (as ! k) \<and> f k = 1}"

lemma sum_list_01:
  assumes "distinct ks" "\<And>k. k \<in> set ks \<Longrightarrow> f k = 0 \<or> f k = (1::int)"
  shows "(\<Sum>k \<leftarrow> ks. if P k then f k else 0) = int (card {k \<in> set ks. f k = 1 \<and> P k})"
proof -
  have "(\<Sum>k \<leftarrow> ks. if P k then f k else 0) = (\<Sum>k \<in> set ks. if P k then f k else 0)"
    by (rule sum_list_distinct_conv_sum_set [OF assms(1)])
  also have "\<dots> = (\<Sum>k \<in> set ks. if f k = 1 \<and> P k then 1 else 0)"
    using assms(2) by (intro sum.cong) auto
  also have "\<dots> = int (card {k \<in> set ks. f k = 1 \<and> P k})"
    by (subst sum.inter_filter [symmetric]) simp_all
  finally show ?thesis .
qed

lemma link_card:
  assumes "\<And>k. k \<in> set (link_positions sink as) \<Longrightarrow> f k = 0 \<or> f k = 1"
  shows "link_out sink as f x = int (card {k \<in> used_links sink as f. arc_from (as ! k) = x})"
    "link_in sink as f x = int (card {k \<in> used_links sink as f. arc_to (as ! k) = x})"
proof -
  have d: "distinct (link_positions sink as)" by (simp add: link_positions_def)
  have eq: "{k \<in> set (link_positions sink as). f k = 1 \<and> P k} = {k \<in> used_links sink as f. P k}" for P
    by (auto simp: used_links_def set_link_positions)
  show "link_out sink as f x = int (card {k \<in> used_links sink as f. arc_from (as ! k) = x})"
    "link_in sink as f x = int (card {k \<in> used_links sink as f. arc_to (as ! k) = x})"
    unfolding link_out_def link_in_def eq [symmetric] by (rule sum_list_01 [OF d]; use assms in blast)+
qed

text \<open>A family of distinct links that meets the demands within the capacities is a flow.\<close>

lemma layered_family:
  assumes lay: "layered rc tc caps dem as"
    and K: "\<And>l. l < m \<Longrightarrow> K l < length as \<and> as ! K l = link_arc rc (R l) (T l) (W l) \<and> R l < rc \<and> T l < tc"
    and inj: "inj_on K {..<m}"
    and rights: "\<And>r. r < rc \<Longrightarrow> int (card {l. l < m \<and> R l = r}) \<le> caps r"
    and types: "\<And>t. t < tc \<Longrightarrow> int (card {l. l < m \<and> T l = t}) = dem t"
  shows "\<exists>f. arc_flow (rc + tc + 2) as 0 (1 + rc + tc) (\<Sum>t < tc. dem t) f"
proof -
  let ?h = "\<lambda>k. if k \<in> K ` {..<m} then 1 else (0::int)"
  have lk: "K l < length as \<and> is_link (1 + rc + tc) (as ! K l)" if "l < m" for l
    using K [OF that] by (auto simp: is_link_def link_arc_def)
  have used: "used_links (1 + rc + tc) as ?h = K ` {..<m}"
    using lk by (auto simp: used_links_def split: if_splits)
  have sub: "{k \<in> K ` {..<m}. P k} = K ` {l. l < m \<and> P (K l)}" for P by auto
  have card: "card (K ` {l. l < m \<and> P (K l)}) = card {l. l < m \<and> P (K l)}" for P
    by (rule card_image, rule inj_on_subset [OF inj]) auto
  have ends: "arc_from (as ! K l) = 1 + R l \<and> arc_to (as ! K l) = 1 + rc + T l" if "l < m" for l
    using K [OF that] by (simp add: link_arc_def)
  have h01: "?h k = 0 \<or> ?h k = 1" for k by simp
  have out: "link_out (1 + rc + tc) as ?h (1 + r) = int (card {l. l < m \<and> R l = r})" for r
  proof -
    have "{l. l < m \<and> arc_from (as ! K l) = 1 + r} = {l. l < m \<and> R l = r}" by (rule Collect_cong) (simp add: ends cong: conj_cong)
    then show ?thesis unfolding link_card(1) [OF h01] used sub using card [of "\<lambda>k. arc_from (as ! k) = 1 + r"] by simp
  qed
  have "link_in (1 + rc + tc) as ?h (1 + rc + t) = int (card {l. l < m \<and> T l = t})" for t
  proof -
    have "{l. l < m \<and> arc_to (as ! K l) = 1 + rc + t} = {l. l < m \<and> T l = t}" by (rule Collect_cong) (simp add: ends cong: conj_cong)
    then show ?thesis unfolding link_card(2) [OF h01] used sub using card [of "\<lambda>k. arc_to (as ! k) = 1 + rc + t"] by simp
  qed
  with layered_choice [OF lay, of ?h] out rights types show ?thesis by (metis (no_types, lifting))
qed

text \<open>The cost of a flow is the cost of its links.\<close>

lemma layered_cost:
  assumes lay: "layered rc tc caps dem as"
    and f: "\<And>k. k \<in> set (link_positions (1 + rc + tc) as) \<Longrightarrow> f k = 0 \<or> f k = 1"
  shows "flow_cost as f = (\<Sum>k \<in> used_links (1 + rc + tc) as f. arc_cost (as ! k))"
proof -
  let ?U = "used_links (1 + rc + tc) as f"
  have "f k * arc_cost (as ! k) = (if k \<in> ?U then arc_cost (as ! k) else 0)" if k: "k < length as" for k
  proof -
    have "as ! k \<in> set as" using k by simp
    with lay show ?thesis
    proof (cases rule: layered_arc_cases)
      case (3 r t c)
      then have "k \<in> set (link_positions (1 + rc + tc) as)" using k by (simp add: set_link_positions)
      then show ?thesis using f 3(4) k by (auto simp: used_links_def)
    qed (simp_all add: source_arc_def sink_arc_def)
  qed
  then have "flow_cost as f = (\<Sum>k < length as. if k \<in> ?U then arc_cost (as ! k) else 0)"
    by (simp add: flow_cost_def)
  also have "\<dots> = (\<Sum>k \<in> {..<length as} \<inter> ?U. arc_cost (as ! k))" by (simp add: sum.inter_restrict)
  also have "{..<length as} \<inter> ?U = ?U" by (auto simp: used_links_def)
  finally show ?thesis .
qed

text \<open>The search may start on a layered network whose links have costs between \<open>0\<close> and \<open>C\<close>.\<close>

lemma arc_network_search_pre:
  assumes ok: "arcs_ok n as" and cost: "\<forall>a \<in> set as. 0 \<le> arc_cost a \<and> arc_cost a \<le> C" and C: "0 \<le> C"
    and s: "s < n" and range: "int n * C < flow_infinity"
  shows "search_pre (arc_network n as) (\<lambda>_. 0) s C"
proof -
  let ?g = "arc_network n as"
  have bounds: "\<bar>weight ?g x j\<bar> \<le> C \<and> (residual ?g x j \<longrightarrow> 0 \<le> weight ?g x j)" if e: "edge_at ?g x j" for x j
    using edge_is_arc [OF ok e]
  proof cases
    case (1 k)
    have "0 \<le> arc_cost (as ! k) \<and> arc_cost (as ! k) \<le> C" using cost 1(1) by simp
    then show ?thesis using arc_edges [OF ok 1(1)] 1(2,3) by simp
  next
    case (2 k)
    have "0 \<le> arc_cost (as ! k) \<and> arc_cost (as ! k) \<le> C" using cost 2(1) by simp
    then show ?thesis using arc_edges [OF ok 2(1)] 2(2,3) by (simp add: residual_def)
  qed
  then show ?thesis
    using arc_network_ok [OF ok] s range C residual_edge
    by (fastforce simp: search_pre_def potential_def cost_bound_def)
qed

end
