(* ===== verification/Channel_Links.thy ===== *)
theory Channel_Links
  imports Channel_Choice Channel_Certificate Flow_Layers
begin

text \<open>
  The networks \<open>assign\<close> builds (\<open>src/native/chimew_bank_channel_assigner.cpp\<close>) as layered networks: the
  recorded indices are the positions of the links, \<open>solve\<close> finds a flow that serves all demands when there
  is one, the edges of capacity zero are the links it uses, and the certificate of the final network always
  exists.
\<close>

section \<open>Recorded links\<close>

definition ref_at :: "nat \<Rightarrow> nat \<Rightarrow> arc list \<Rightarrow> nat \<Rightarrow> link_reference" where
  "ref_at n rc as k = \<lparr>ref_right = arc_from (as ! k) - 1, ref_type = arc_to (as ! k) - (1 + rc),
     ref_cost = arc_cost (as ! k), ref_index = forward_at n as k\<rparr>"

definition built :: "nat \<Rightarrow> nat \<Rightarrow> arc list \<Rightarrow> network \<times> link_reference list \<Rightarrow> bool" where
  "built rc tc as gr \<longleftrightarrow> fst gr = arc_network (rc + tc + 2) as \<and>
     snd gr = map (ref_at (rc + tc + 2) rc as) (link_positions (1 + rc + tc) as)"

lemma ref_at_snoc: "k < length as \<Longrightarrow> ref_at n rc (as @ [a]) k = ref_at n rc as k"
  by (simp add: ref_at_def positions_snoc nth_append)

lemma built_snoc:
  assumes "built rc tc as (g, refs)"
  shows "\<not> is_link (1 + rc + tc) a \<Longrightarrow> built rc tc (as @ [a]) (add_arc a g, refs)"
    "is_link (1 + rc + tc) a \<Longrightarrow> built rc tc (as @ [a]) (add_arc a g, refs @
      [\<lparr>ref_right = arc_from a - 1, ref_type = arc_to a - (1 + rc), ref_cost = arc_cost a, ref_index = length (g ! arc_from a)\<rparr>])"
proof -
  let ?L = "link_positions (1 + rc + tc) as"
  have old: "map (ref_at (rc + tc + 2) rc (as @ [a])) ?L = map (ref_at (rc + tc + 2) rc as) ?L"
    by (rule map_cong) (simp_all add: set_link_positions ref_at_snoc)
  have new: "ref_at (rc + tc + 2) rc (as @ [a]) (length as) =
      \<lparr>ref_right = arc_from a - 1, ref_type = arc_to a - (1 + rc), ref_cost = arc_cost a, ref_index = length (g ! arc_from a)\<rparr>"
    using assms by (simp add: ref_at_def positions_snoc built_def)
  show "\<not> is_link (1 + rc + tc) a \<Longrightarrow> built rc tc (as @ [a]) (add_arc a g, refs)"
    using assms old by (simp add: built_def arc_network_snoc link_positions_def positions_snoc_arc)
  show "is_link (1 + rc + tc) a \<Longrightarrow> built rc tc (as @ [a]) (add_arc a g, refs @
      [\<lparr>ref_right = arc_from a - 1, ref_type = arc_to a - (1 + rc), ref_cost = arc_cost a, ref_index = length (g ! arc_from a)\<rparr>])"
    using assms old new by (simp add: built_def arc_network_snoc link_positions_def positions_snoc_arc)
qed

lemma built_plain:
  "built rc tc as (g, refs) \<Longrightarrow> u = 0 \<or> v = 1 + rc + tc \<Longrightarrow>
    built rc tc (as @ [\<lparr>arc_from = u, arc_to = v, arc_capacity = c, arc_cost = w\<rparr>]) (add_edge u v c w g, refs)"
  using built_snoc(1) [of rc tc as g refs "\<lparr>arc_from = u, arc_to = v, arc_capacity = c, arc_cost = w\<rparr>"]
  by (auto simp: is_link_def add_arc_def)

lemma built_link:
  assumes "built rc tc as gr" "t < tc"
  shows "built rc tc (as @ [link_arc rc r t c]) (add_link (1 + rc) r t c gr)"
proof (cases gr)
  case (Pair g refs)
  then show ?thesis
    using built_snoc(2) [of rc tc as g refs "link_arc rc r t c"] assms
    by (simp add: is_link_def add_arc_def add_link_def link_arc_def)
qed

lemma built_sources:
  "built rc tc as (g, refs) \<Longrightarrow>
    built rc tc (as @ map (source_arc caps) rs) (fold (\<lambda>r. add_edge 0 (1 + r) (caps r) 0) rs g, refs)"
proof (induction rs arbitrary: as g)
  case (Cons r rs)
  then show ?case using Cons.IH [OF built_plain [OF Cons.prems, of 0 "1 + r" "caps r" 0]]
    by (simp add: source_arc_def)
qed simp

lemma built_sinks:
  "built rc tc as (g, refs) \<Longrightarrow>
    built rc tc (as @ map (sink_arc rc tc dem) ts) (fold (\<lambda>t. add_edge (1 + rc + t) (1 + rc + tc) (dem t) 0) ts g, refs)"
proof (induction ts arbitrary: as g)
  case (Cons t ts)
  then show ?case using Cons.IH [OF built_plain [OF Cons.prems, of "1 + rc + t" "1 + rc + tc" "dem t" 0]]
    by (simp add: sink_arc_def)
qed simp

lemma built_links:
  "built rc tc as gr \<Longrightarrow> \<forall>x \<in> set xs. T x < tc \<Longrightarrow>
    built rc tc (as @ map (\<lambda>x. link_arc rc (R x) (T x) (W x)) xs) (fold (\<lambda>x. add_link (1 + rc) (R x) (T x) (W x)) xs gr)"
proof (induction xs arbitrary: as gr)
  case (Cons x xs)
  then show ?case using Cons.IH [OF built_link [OF Cons.prems(1), of "T x" "R x" "W x"]] by simp
qed simp

lemma built_start: "built rc tc [] (replicate (rc + tc + 2) [], [])"
  by (simp add: built_def link_positions_def positions_def)

section \<open>Solving a layered network\<close>

definition served :: "nat \<Rightarrow> nat \<Rightarrow> (nat \<Rightarrow> int) \<Rightarrow> arc list \<Rightarrow> (nat \<Rightarrow> int) \<Rightarrow> bool" where
  "served rc tc dem as f \<longleftrightarrow> arc_flow (rc + tc + 2) as 0 (1 + rc + tc) (\<Sum>t < tc. dem t) f"

text \<open>A state from which the certificate exists.\<close>

definition final_network :: "nat \<Rightarrow> nat \<Rightarrow> arc list \<Rightarrow> int \<Rightarrow> network \<Rightarrow> bool" where
  "final_network rc tc as C g \<longleftrightarrow> arc_state (rc + tc + 2) as g \<and> (\<exists>p. search_pre g p 0 C)"

lemma layered_solve:
  assumes lay: "layered rc tc caps dem as" and cost: "\<forall>a \<in> set as. 0 \<le> arc_cost a \<and> arc_cost a \<le> C" and C: "0 \<le> C"
    and range: "int (rc + tc + 2) * C < flow_infinity" "int goal * (int (rc + tc + 2) * C) \<le> INT64_MAX"
    and goal: "int goal = (\<Sum>t < tc. dem t)"
  shows "\<exists>flow spent g. channel_solve 0 (1 + rc + tc) goal (arc_network (rc + tc + 2) as) = Some (Inr (flow, spent, g)) \<and>
    final_network rc tc as C g \<and> flow_cost as (carried (rc + tc + 2) as g) = spent \<and>
    (if flow = goal then served rc tc dem as (carried (rc + tc + 2) as g) else \<not> (\<exists>f. served rc tc dem as f))"
proof -
  let ?n = "rc + tc + 2" and ?k = "1 + rc + tc"
  let ?g0 = "arc_network ?n as"
  have ok: "arcs_ok ?n as" by (rule layered_arcs_ok [OF lay])
  have pre: "search_pre ?g0 (\<lambda>_. 0) 0 C"
    by (rule arc_network_search_pre [OF ok cost C _ range(1)]) simp
  have st: "flow_state ?g0 0 ?k C 0 0 ?g0" using pre by (auto simp: flow_state_def same_pairs_def)
  have k: "?k < length ?g0" by simp
  obtain flow spent g where run: "channel_flow_loop 0 ?k goal 0 0 ?g0 = Some (Inr (flow, spent, g))"
    and fin: "flow_state ?g0 0 ?k C flow spent g" "flow \<le> goal" "flow = goal \<or> cut_off g 0 ?k C"
    using channel_flow_ends [OF st k _ _, of goal] range(2) by auto
  note fl = flow_state_flow [OF ok fin(1)]
  have ast: "arc_state ?n as g" by (rule flow_state_arcs [OF ok fin(1)])
  have "final_network rc tc as C g" using ast fin(1) by (auto simp: final_network_def flow_state_def)
  moreover have "served rc tc dem as (carried ?n as g)" if "flow = goal"
    using fl(1) goal that by (simp add: served_def)
  moreover have "\<not> served rc tc dem as f" if lt: "flow \<noteq> goal" for f
  proof
    assume f: "served rc tc dem as f"
    obtain p t where pre': "search_pre g p 0 C" and tree: "shortest_tree g p 0 C t" and cut: "\<not> reached t ?k"
      using fin(3) lt by (auto simp: cut_off_def)
    have "reached t 0" using shortest_treeD(2) [OF tree] flow_infinity_pos by (simp add: reached_def)
    then have "(\<Sum>t < tc. dem t) \<le> int flow"
      using flow_cut [OF ast _ _ fl(1) f [unfolded served_def], of "{v. reached t v}"] shortest_treeD(6) [OF tree] cut by auto
    then show False using goal lt fin(2) by simp
  qed
  ultimately show ?thesis using run fl(2) by (auto simp: channel_solve_def)
qed

lemma final_certificate:
  assumes "final_network rc tc as C g"
  shows "\<exists>d. certificate_potentials g = Some (Inr d) \<and> length d = rc + tc + 2 \<and>
    (\<forall>v < rc + tc + 2. int64_ok (d ! v)) \<and> potential g ((!) d)"
proof -
  obtain p where pre: "search_pre g p 0 C" using assms by (auto simp: final_network_def)
  have "cert_pre g C" "\<not> negative_cycle g"
    using pre potential_no_negative_cycle by (auto simp: cert_pre_def search_pre_def)
  moreover have "length g = rc + tc + 2"
    using assms shape_eqD(1) [of g "arc_network (rc + tc + 2) as"] by (simp add: final_network_def arc_state_def)
  ultimately show ?thesis using certificate_exact [of g C] by auto
qed

section \<open>Links in use\<close>

lemma used_ref:
  assumes lay: "layered rc tc caps dem as" and st: "arc_state (rc + tc + 2) as g" and k: "k \<in> set (link_positions (1 + rc + tc) as)"
  shows "capacity (g ! (1 + ref_right (ref_at (rc + tc + 2) rc as k)) ! ref_index (ref_at (rc + tc + 2) rc as k)) = 0 \<longleftrightarrow>
    carried (rc + tc + 2) as g k = 1"
proof -
  obtain r t c where a: "as ! k = link_arc rc r t c" using layeredD(3) [OF lay k] by blast
  have "k < length as" using k by (simp add: set_link_positions)
  from arc_state_edges(4) [OF st this] show ?thesis by (simp add: a link_arc_def ref_at_def)
qed

lemma used_refs:
  assumes "layered rc tc caps dem as" "arc_state (rc + tc + 2) as g"
  shows "filter (\<lambda>ref. capacity (g ! (1 + ref_right ref) ! ref_index ref) = 0)
      (map (ref_at (rc + tc + 2) rc as) (link_positions (1 + rc + tc) as)) =
    map (ref_at (rc + tc + 2) rc as) (filter (\<lambda>k. carried (rc + tc + 2) as g k = 1) (link_positions (1 + rc + tc) as))"
proof -
  have "filter ((\<lambda>ref. capacity (g ! (1 + ref_right ref) ! ref_index ref) = 0) \<circ> ref_at (rc + tc + 2) rc as)
      (link_positions (1 + rc + tc) as) = filter (\<lambda>k. carried (rc + tc + 2) as g k = 1) (link_positions (1 + rc + tc) as)"
    by (rule filter_cong [OF refl]) (simp add: used_ref [OF assms, simplified])
  then show ?thesis unfolding filter_map by (rule arg_cong)
qed

text \<open>The potential on the edges of a link and of a source arc.\<close>

lemma link_potential:
  assumes st: "arc_state n as g" and pot: "potential g ((!) d)" and k: "k < length as"
  shows "carried n as g k < arc_capacity (as ! k) \<Longrightarrow> d ! arc_to (as ! k) \<le> d ! arc_from (as ! k) + arc_cost (as ! k)"
    "0 < carried n as g k \<Longrightarrow> d ! arc_from (as ! k) \<le> d ! arc_to (as ! k) - arc_cost (as ! k)"
  using potentialD [OF pot, of "arc_from (as ! k)" "forward_at n as k"] potentialD [OF pot, of "arc_to (as ! k)" "reverse_at n as k"]
    arc_residual [OF st k] arc_state_edges [OF st k] by auto

end
