(* ===== verification/Channel_Full.thy ===== *)
theory Channel_Full
  imports Channel_Links
begin

text \<open>
  The general way of \<open>assign\<close> (\<open>src/native/chimew_bank_channel_assigner.cpp\<close>) keeps its promise: the links of
  the final flow bind every left once, their cost is the total, the certificate is feasible on the residual
  network and therefore certifies the binding; without a complete flow there is no legal choice.
\<close>

definition full_arcs :: "nat \<Rightarrow> int list \<Rightarrow> nat \<Rightarrow> candidate_edge list \<Rightarrow> arc list" where
  "full_arcs rights capacities lefts candidates =
    map (source_arc ((!) capacities)) [0..<rights] @
    map (\<lambda>c. link_arc rights (nat (cand_right c)) (nat (cand_left c)) (cand_cost c)) candidates @
    map (sink_arc rights lefts (\<lambda>_. 1)) [0..<lefts]"

lemma full_network_built:
  assumes "\<forall>c \<in> set candidates. candidate_in_range rights lefts c"
  shows "built rights lefts (full_arcs rights capacities lefts candidates) (full_network rights capacities lefts candidates)"
proof -
  let ?g1 = "fold (\<lambda>right. add_edge 0 (1 + right) (capacities ! right) 0) [0..<rights] (replicate (1 + rights + lefts + 1) [])"
  let ?gr = "fold (\<lambda>c. add_link (1 + rights) (nat (cand_right c)) (nat (cand_left c)) (cand_cost c)) candidates (?g1, [])"
  let ?as = "map (source_arc ((!) capacities)) [0..<rights] @
    map (\<lambda>c. link_arc rights (nat (cand_right c)) (nat (cand_left c)) (cand_cost c)) candidates"
  have start: "built rights lefts [] (replicate (1 + rights + lefts + 1) [], [])"
    using built_start [of rights lefts] by (simp del: replicate_Suc add: numeral_2_eq_2)
  have "built rights lefts (map (source_arc ((!) capacities)) [0..<rights]) (?g1, [])"
    using built_sources [OF start, of "(!) capacities" "[0..<rights]"] by simp
  then have links: "built rights lefts ?as ?gr"
    by (rule built_links) (use assms in_rangeD(2) in blast)
  obtain g refs where gr: "?gr = (g, refs)" by (cases ?gr)
  have "built rights lefts (?as @ map (sink_arc rights lefts (\<lambda>_. 1)) [0..<lefts])
      (fold (\<lambda>t. add_edge (1 + rights + t) (1 + rights + lefts) 1 0) [0..<lefts] g, refs)"
    by (rule built_sinks) (use links gr in simp)
  then show ?thesis unfolding full_network_def Let_def gr by (simp add: full_arcs_def)
qed

lemma full_arcs_layered:
  assumes "assign_pre rights capacities lefts candidates C"
  shows "layered rights lefts ((!) capacities) (\<lambda>_. 1) (full_arcs rights capacities lefts candidates)"
    "\<forall>a \<in> set (full_arcs rights capacities lefts candidates). 0 \<le> arc_cost a \<and> arc_cost a \<le> C"
proof -
  let ?link = "\<lambda>c. link_arc rights (nat (cand_right c)) (nat (cand_left c)) (cand_cost c)"
  note pre = assign_preD [OF assms]
  have none: "filter P (map f xs) = []" if "\<And>x. x \<in> set xs \<Longrightarrow> \<not> P (f x)" for P :: "arc \<Rightarrow> bool" and f and xs :: "'x list"
    using that by (simp add: filter_empty_conv)
  have all: "filter P (map f xs) = map f xs" if "\<And>x. x \<in> set xs \<Longrightarrow> P (f x)" for P :: "arc \<Rightarrow> bool" and f and xs :: "'x list"
    using that by (simp add: filter_id_conv)
  have lt: "c \<in> set candidates \<Longrightarrow> nat (cand_left c) < lefts" "c \<in> set candidates \<Longrightarrow> nat (cand_right c) < rights" for c
    using in_rangeD [OF pre(3), of c] by auto
  have "filter (\<lambda>a. arc_from a = 0) (full_arcs rights capacities lefts candidates) = map (source_arc ((!) capacities)) [0..<rights]"
    unfolding full_arcs_def filter_append
    by (subst all, simp add: source_arc_def, subst none, simp add: link_arc_def, subst none, simp add: sink_arc_def, simp)
  moreover have "filter (\<lambda>a. arc_from a \<noteq> 0 \<and> arc_to a = 1 + rights + lefts) (full_arcs rights capacities lefts candidates) =
      map (sink_arc rights lefts (\<lambda>_. 1)) [0..<lefts]"
    unfolding full_arcs_def filter_append
    by (subst none, simp add: source_arc_def, subst none, use lt in \<open>force simp: link_arc_def\<close>,
        subst all, simp add: sink_arc_def, simp)
  moreover have "\<forall>a \<in> set (full_arcs rights capacities lefts candidates). is_link (1 + rights + lefts) a \<longrightarrow>
      (\<exists>r < rights. \<exists>t < lefts. \<exists>c. a = link_arc rights r t c)"
    using lt by (fastforce simp: full_arcs_def is_link_def source_arc_def sink_arc_def)
  ultimately show "layered rights lefts ((!) capacities) (\<lambda>_. 1) (full_arcs rights capacities lefts candidates)"
    using pre(1,2) by (simp add: layered_def)
  show "\<forall>a \<in> set (full_arcs rights capacities lefts candidates). 0 \<le> arc_cost a \<and> arc_cost a \<le> C"
    using pre(4-6) by (auto simp: full_arcs_def source_arc_def sink_arc_def link_arc_def)
qed

text \<open>The links of the network are the candidates.\<close>

lemma full_link:
  assumes pre: "assign_pre rights capacities lefts candidates C"
    and k: "k < length (full_arcs rights capacities lefts candidates)" "is_link (1 + rights + lefts) (full_arcs rights capacities lefts candidates ! k)"
  obtains c where "c \<in> set candidates" "full_arcs rights capacities lefts candidates ! k =
    link_arc rights (nat (cand_right c)) (nat (cand_left c)) (cand_cost c)"
proof -
  have "full_arcs rights capacities lefts candidates ! k \<in> set (full_arcs rights capacities lefts candidates)" using k(1) by simp
  with k(2) show ?thesis using that by (auto simp: full_arcs_def is_link_def source_arc_def sink_arc_def)
qed

lemma candidate_link:
  assumes "c \<in> set candidates"
  obtains i where "i < length candidates" "candidates ! i = c"
    "full_arcs rights capacities lefts candidates ! (rights + i) = link_arc rights (nat (cand_right c)) (nat (cand_left c)) (cand_cost c)"
    "rights + i < length (full_arcs rights capacities lefts candidates)"
proof -
  obtain i where "i < length candidates" "candidates ! i = c" using assms by (auto simp: in_set_conv_nth)
  then show ?thesis using that by (simp add: full_arcs_def nth_append)
qed

lemma right_load_card: "right_load A r = int (card {l. l < length A \<and> cand_right (A ! l) = int r})"
proof -
  have "right_load A r = (\<Sum>l < length A. if cand_right (A ! l) = int r then 1 else 0)"
    by (simp add: right_load_def sum_list_sum_nth atLeast0LessThan)
  also have "\<dots> = int (card {l \<in> {..<length A}. cand_right (A ! l) = int r})"
    by (subst sum.inter_filter [symmetric]) simp_all
  finally show ?thesis by simp
qed

text \<open>A legal choice is a flow.\<close>

lemma legal_served:
  assumes pre: "assign_pre rights capacities lefts candidates C" and B: "legal_choice rights capacities lefts candidates B"
  shows "\<exists>f. served rights lefts (\<lambda>_. 1) (full_arcs rights capacities lefts candidates) f"
proof -
  let ?as = "full_arcs rights capacities lefts candidates"
  have lenB: "length B = lefts" using B by (simp add: legal_choice_def)
  have "\<exists>k < length ?as. ?as ! k = link_arc rights (nat (cand_right (B ! l))) l (cand_cost (B ! l))" if "l < lefts" for l
  proof -
    have c: "B ! l \<in> set candidates" "nat (cand_left (B ! l)) = l" using B that by (auto simp: legal_choice_def)
    show ?thesis using candidate_link [OF c(1), of rights capacities lefts] c(2) by metis
  qed
  then obtain K where K: "\<And>l. l < lefts \<Longrightarrow> K l < length ?as \<and> ?as ! K l = link_arc rights (nat (cand_right (B ! l))) l (cand_cost (B ! l))"
    by metis
  have range: "0 \<le> cand_right (B ! l) \<and> nat (cand_right (B ! l)) < rights" if "l < lefts" for l
    using in_rangeD(3,4) [OF assign_preD(3) [OF pre]] B that by (auto simp: legal_choice_def)
  have "inj_on K {..<lefts}"
  proof (rule inj_onI)
    fix l l' assume l: "l \<in> {..<lefts}" "l' \<in> {..<lefts}" "K l = K l'"
    then have "link_arc rights (nat (cand_right (B ! l))) l (cand_cost (B ! l)) = link_arc rights (nat (cand_right (B ! l'))) l' (cand_cost (B ! l'))"
      using K by (metis lessThan_iff)
    then show "l = l'" by (simp add: link_arc_def)
  qed
  moreover have "int (card {l. l < lefts \<and> nat (cand_right (B ! l)) = r}) \<le> capacities ! r" if "r < rights" for r
  proof -
    have "{l. l < lefts \<and> nat (cand_right (B ! l)) = r} = {l. l < length B \<and> cand_right (B ! l) = int r}"
      using range lenB by auto
    moreover have "right_load B r \<le> capacities ! r" using B that by (simp add: legal_choice_def)
    ultimately show ?thesis unfolding right_load_card by simp
  qed
  moreover have "{l. l < lefts \<and> l = t} = {t}" if "t < lefts" for t using that by auto
  ultimately show ?thesis
    using layered_family [OF full_arcs_layered(1) [OF pre], of lefts K "\<lambda>l. nat (cand_right (B ! l))" "\<lambda>l. l" "\<lambda>l. cand_cost (B ! l)"]
      K range by (simp add: served_def)
qed

section \<open>The binding of a flow\<close>

text \<open>The loop over the references succeeds when every left has at most one link in use.\<close>

lemma collect_links_spec:
  assumes "distinct (map ref_type (filter (\<lambda>ref. capacity (g ! (1 + ref_right ref) ! ref_index ref) = 0) refs))"
    and "\<forall>ref \<in> set refs. ref_type ref < length rs" "length cs = length rs"
    and "\<forall>ref \<in> set refs. capacity (g ! (1 + ref_right ref) ! ref_index ref) = 0 \<longrightarrow> rs ! ref_type ref < 0"
  shows "\<exists>rs' cs'. collect_links g refs rs cs = Inr (rs', cs') \<and> length rs' = length rs \<and> length cs' = length rs \<and>
    (\<forall>ref \<in> set refs. capacity (g ! (1 + ref_right ref) ! ref_index ref) = 0 \<longrightarrow>
      rs' ! ref_type ref = int (ref_right ref) \<and> cs' ! ref_type ref = ref_cost ref) \<and>
    (\<forall>l < length rs. (\<forall>ref \<in> set refs. capacity (g ! (1 + ref_right ref) ! ref_index ref) = 0 \<longrightarrow> ref_type ref \<noteq> l) \<longrightarrow>
      rs' ! l = rs ! l \<and> cs' ! l = cs ! l)"
  using assms
proof (induction refs arbitrary: rs cs)
  case (Cons ref refs)
  let ?free = "\<lambda>ref. capacity (g ! (1 + ref_right ref) ! ref_index ref) = 0"
  show ?case
  proof (cases "?free ref")
    case False
    then have step: "collect_links g (ref # refs) rs cs = collect_links g refs rs cs" by simp
    show ?thesis unfolding step using Cons.IH [of rs cs] Cons.prems False by simp
  next
    case True
    let ?rs = "rs[ref_type ref := int (ref_right ref)]" and ?cs = "cs[ref_type ref := ref_cost ref]"
    have fresh: "\<forall>r \<in> set refs. ?free r \<longrightarrow> ref_type r \<noteq> ref_type ref"
    proof (intro ballI impI notI)
      fix r assume r: "r \<in> set refs" "?free r" "ref_type r = ref_type ref"
      then have "ref_type ref \<in> ref_type ` set (filter ?free refs)" by (intro image_eqI [of _ _ r]) simp_all
      then show False using Cons.prems(1) True by simp
    qed
    have lt: "ref_type ref < length rs" using Cons.prems(2) by simp
    have step: "collect_links g (ref # refs) rs cs = collect_links g refs ?rs ?cs"
      using True Cons.prems(4) by (simp add: not_le)
    have d: "distinct (map ref_type (filter ?free refs))" using Cons.prems(1) True by simp
    have p: "\<forall>r \<in> set refs. ref_type r < length ?rs" "length ?cs = length ?rs" using Cons.prems(2,3) by simp_all
    have q: "\<forall>r \<in> set refs. ?free r \<longrightarrow> ?rs ! ref_type r < 0"
    proof (intro ballI impI)
      fix r assume r: "r \<in> set refs" "?free r"
      then have "ref_type ref \<noteq> ref_type r" using fresh by metis
      then show "?rs ! ref_type r < 0" using Cons.prems(4) r by simp
    qed
    obtain rs' cs' where IH: "collect_links g refs ?rs ?cs = Inr (rs', cs')" "length rs' = length rs" "length cs' = length rs"
      "\<forall>r \<in> set refs. ?free r \<longrightarrow> rs' ! ref_type r = int (ref_right r) \<and> cs' ! ref_type r = ref_cost r"
      "\<forall>l < length rs. (\<forall>r \<in> set refs. ?free r \<longrightarrow> ref_type r \<noteq> l) \<longrightarrow> rs' ! l = ?rs ! l \<and> cs' ! l = ?cs ! l"
      using Cons.IH [OF d p q] unfolding length_list_update by blast
    have "rs' ! ref_type ref = int (ref_right ref) \<and> cs' ! ref_type ref = ref_cost ref"
      using IH(5) lt fresh Cons.prems(3) by simp
    moreover have "rs' ! l = rs ! l \<and> cs' ! l = cs ! l"
      if "l < length rs" "\<forall>r \<in> set (ref # refs). ?free r \<longrightarrow> ref_type r \<noteq> l" for l
      using IH(5) that True by auto
    ultimately show ?thesis unfolding step using IH by auto
  qed
qed simp

text \<open>In a flow that serves every left exactly one used link leads to each left.\<close>

lemma served_binding:
  assumes lay: "layered rc tc caps (\<lambda>_. 1) as" and f: "served rc tc (\<lambda>_. 1) as f"
  shows "t < tc \<Longrightarrow> \<exists>!k. k \<in> used_links (1 + rc + tc) as f \<and> arc_to (as ! k) = 1 + rc + t"
    "k \<in> used_links (1 + rc + tc) as f \<Longrightarrow> \<exists>r < rc. \<exists>t < tc. \<exists>c. as ! k = link_arc rc r t c"
proof -
  note lf = layered_flow [OF lay f [unfolded served_def]]
  show "\<exists>!k. k \<in> used_links (1 + rc + tc) as f \<and> arc_to (as ! k) = 1 + rc + t" if "t < tc"
  proof -
    have "int (card {k \<in> used_links (1 + rc + tc) as f. arc_to (as ! k) = 1 + rc + t}) = 1"
      using lf(3) [OF that] link_card(2) [OF lf(4)] by simp
    then have "card {k \<in> used_links (1 + rc + tc) as f. arc_to (as ! k) = 1 + rc + t} = 1" by simp
    then obtain k where single: "{k \<in> used_links (1 + rc + tc) as f. arc_to (as ! k) = 1 + rc + t} = {k}" by (rule card_1_singletonE)
    have iff: "(x \<in> used_links (1 + rc + tc) as f \<and> arc_to (as ! x) = 1 + rc + t) = (x \<in> {k})" for x
      unfolding single [symmetric] by simp
    show ?thesis by (simp only: iff singleton_iff ex1_eq)
  qed
  show "\<exists>r < rc. \<exists>t < tc. \<exists>c. as ! k = link_arc rc r t c" if "k \<in> used_links (1 + rc + tc) as f"
    using layeredD(3) [OF lay, of k] that by (auto simp: used_links_def set_link_positions)
qed

lemma full_binding:
  fixes rights lefts :: nat and capacities :: "int list" and candidates :: "candidate_edge list"
  defines "as \<equiv> full_arcs rights capacities lefts candidates"
  assumes pre: "assign_pre rights capacities lefts candidates C" and f: "served rights lefts (\<lambda>_. 1) as f"
  shows "\<exists>K A. bij_betw K {..<lefts} (used_links (1 + rights + lefts) as f) \<and> legal_choice rights capacities lefts candidates A \<and>
    choice_cost A = flow_cost as f \<and> (\<forall>r < rights. right_load A r = link_out (1 + rights + lefts) as f (1 + r)) \<and>
    (\<forall>l < lefts. as ! K l = link_arc rights (nat (cand_right (A ! l))) l (cand_cost (A ! l)))"
proof -
  let ?U = "used_links (1 + rights + lefts) as f"
  have lay: "layered rights lefts ((!) capacities) (\<lambda>_. 1) as" unfolding as_def by (rule full_arcs_layered(1) [OF pre])
  note bind = served_binding [OF lay f] and lf = layered_flow [OF lay f [unfolded served_def]]
  define K where "K l = (THE k. k \<in> ?U \<and> arc_to (as ! k) = 1 + rights + l)" for l
  have K: "K l \<in> ?U \<and> arc_to (as ! K l) = 1 + rights + l" if "l < lefts" for l
    unfolding K_def by (rule theI' [OF bind(1) [OF that]])
  have bij: "bij_betw K {..<lefts} ?U"
  proof (rule bij_betw_imageI)
    show "inj_on K {..<lefts}"
    proof (rule inj_onI)
      fix l l' assume l: "l \<in> {..<lefts}" "l' \<in> {..<lefts}" "K l = K l'"
      then have "1 + rights + l = 1 + rights + l'" using K [of l] K [of l'] by (metis lessThan_iff)
      then show "l = l'" by simp
    qed
    have "k \<in> K ` {..<lefts}" if k: "k \<in> ?U" for k
    proof -
      obtain t where t: "t < lefts" "arc_to (as ! k) = 1 + rights + t"
        using bind(2) [OF k] by (auto simp: link_arc_def)
      then have "k = K t" using bind(1) [OF t(1)] K [OF t(1)] k by blast
      then show ?thesis using t(1) by simp
    qed
    then show "K ` {..<lefts} = ?U" using K by blast
  qed
  have "\<exists>c. c \<in> set candidates \<and> as ! K l = link_arc rights (nat (cand_right c)) (nat (cand_left c)) (cand_cost c)"
    if "l < lefts" for l
    using full_link [OF pre, of "K l"] K [OF that] unfolding as_def used_links_def by blast
  then obtain c where c: "\<And>l. l < lefts \<Longrightarrow> c l \<in> set candidates \<and>
      as ! K l = link_arc rights (nat (cand_right (c l))) (nat (cand_left (c l))) (cand_cost (c l))" by metis
  let ?A = "map c [0..<lefts]"
  have left: "nat (cand_left (c l)) = l \<and> cand_left (c l) = int l" if l: "l < lefts" for l
    using c [OF l] K [OF l] in_rangeD(1) [OF assign_preD(3) [OF pre], of "c l"] by (auto simp: link_arc_def)
  have range: "0 \<le> cand_right (c l)" if l: "l < lefts" for l
    using c [OF l] in_rangeD(3) [OF assign_preD(3) [OF pre], of "c l"] by blast
  have load: "right_load ?A r = link_out (1 + rights + lefts) as f (1 + r)" for r
  proof -
    have "{k \<in> ?U. arc_from (as ! k) = 1 + r} = K ` {l. l < lefts \<and> cand_right (c l) = int r}"
    proof (intro set_eqI iffI)
      fix k assume k: "k \<in> {k \<in> ?U. arc_from (as ! k) = 1 + r}"
      then have "k \<in> K ` {..<lefts}" using bij by (simp add: bij_betw_def)
      then obtain l where l: "l < lefts" "k = K l" by auto
      then have "nat (cand_right (c l)) = r" using k c [OF l(1)] by (simp add: link_arc_def)
      then show "k \<in> K ` {l. l < lefts \<and> cand_right (c l) = int r}" using l range [OF l(1)] by auto
    next
      fix k assume "k \<in> K ` {l. l < lefts \<and> cand_right (c l) = int r}"
      then obtain l where l: "l < lefts" "cand_right (c l) = int r" "k = K l" by auto
      then show "k \<in> {k \<in> ?U. arc_from (as ! k) = 1 + r}" using c [OF l(1)] K [OF l(1)] by (simp add: link_arc_def)
    qed
    moreover have "card (K ` {l. l < lefts \<and> cand_right (c l) = int r}) = card {l. l < lefts \<and> cand_right (c l) = int r}"
      by (rule card_image, rule inj_on_subset [OF bij_betw_imp_inj_on [OF bij]]) auto
    moreover have "{l. l < length ?A \<and> cand_right (?A ! l) = int r} = {l. l < lefts \<and> cand_right (c l) = int r}" by auto
    ultimately have "right_load ?A r = int (card {k \<in> ?U. arc_from (as ! k) = 1 + r})"
      unfolding right_load_card by simp
    also have "\<dots> = link_out (1 + rights + lefts) as f (1 + r)" by (rule link_card(1) [OF lf(4), symmetric])
    finally show ?thesis .
  qed
  have "legal_choice rights capacities lefts candidates ?A"
    using c left load lf(2) by (simp add: legal_choice_def)
  moreover have "choice_cost ?A = flow_cost as f"
  proof -
    have "choice_cost ?A = (\<Sum>l < lefts. arc_cost (as ! K l))"
      using c by (simp add: choice_cost_def sum_list_sum_nth atLeast0LessThan link_arc_def)
    also have "\<dots> = (\<Sum>k \<in> ?U. arc_cost (as ! k))" by (rule sum.reindex_bij_betw [OF bij])
    finally show ?thesis by (simp only: layered_cost [OF lay lf(4)])
  qed
  ultimately show ?thesis using bij load c left by (intro exI [of _ K] exI [of _ ?A]) auto
qed

text \<open>A potential of the final network certifies the binding.\<close>

lemma full_certified:
  fixes rights lefts :: nat and capacities :: "int list" and candidates :: "candidate_edge list"
  defines "as \<equiv> full_arcs rights capacities lefts candidates"
  assumes pre: "assign_pre rights capacities lefts candidates C" and st: "arc_state (rights + lefts + 2) as g"
    and f: "served rights lefts (\<lambda>_. 1) as (carried (rights + lefts + 2) as g)" and pot: "potential g ((!) d)"
    and A: "length A = lefts" "\<And>r. r < rights \<Longrightarrow> right_load A r = link_out (1 + rights + lefts) as (carried (rights + lefts + 2) as g) (1 + r)"
    and K: "bij_betw K {..<lefts} (used_links (1 + rights + lefts) as (carried (rights + lefts + 2) as g))"
      "\<And>l. l < lefts \<Longrightarrow> as ! K l = link_arc rights (nat (cand_right (A ! l))) l (cand_cost (A ! l))"
    and legal: "legal_choice rights capacities lefts candidates A"
  shows "certified rights capacities lefts candidates A d"
proof -
  let ?f = "carried (rights + lefts + 2) as g" and ?n = "rights + lefts + 2"
  let ?U = "used_links (1 + rights + lefts) as ?f"
  have lay: "layered rights lefts ((!) capacities) (\<lambda>_. 1) as" unfolding as_def by (rule full_arcs_layered(1) [OF pre])
  note lf = layered_flow [OF lay f [unfolded served_def]] and pos = layered_positions [OF lay]
  have red: "reduced_cost rights d (A ! l) \<le> 0" if l: "l < lefts" for l
  proof -
    have k: "K l < length as" "?f (K l) = 1" using bij_betwE [OF K(1)] l by (auto simp: used_links_def)
    have "nat (cand_left (A ! l)) = l" using legal l by (simp add: legal_choice_def)
    then show ?thesis using link_potential(2) [OF st pot k(1)] k(2) K(2) [OF l] by (simp add: reduced_cost_def link_arc_def)
  qed
  have "c = A ! nat (cand_left c) \<or> 0 \<le> reduced_cost rights d c" if c: "c \<in> set candidates" for c
  proof -
    obtain i where k: "as ! (rights + i) = link_arc rights (nat (cand_right c)) (nat (cand_left c)) (cand_cost c)" "rights + i < length as"
      using candidate_link [OF c, of rights capacities lefts] unfolding as_def by metis
    note r = in_rangeD [OF assign_preD(3) [OF pre c]]
    have link: "is_link (1 + rights + lefts) (as ! (rights + i))" using k(1) r by (simp add: is_link_def link_arc_def)
    show ?thesis
    proof (cases "?f (rights + i) = 1")
      case True
      then have "rights + i \<in> K ` {..<lefts}" using k(2) link K(1) by (simp add: bij_betw_def used_links_def)
      then obtain l where l: "l < lefts" "rights + i = K l" by auto
      have al: "cand_left (A ! l) = int l" "A ! l \<in> set candidates" using legal l by (auto simp: legal_choice_def)
      have "nat (cand_left c) = l" "nat (cand_right c) = nat (cand_right (A ! l))" "cand_cost c = cand_cost (A ! l)"
        using K(2) [OF l(1)] k(1) l(2) by (auto simp: link_arc_def)
      moreover have "0 \<le> cand_right (A ! l)" using in_rangeD(3) [OF assign_preD(3) [OF pre al(2)]] .
      ultimately have "c = A ! nat (cand_left c)" using r al(1) by simp
      then show ?thesis by blast
    next
      case False
      then have "?f (rights + i) = 0" using lf(4) [of "rights + i"] k(2) link by (simp add: set_link_positions)
      then show ?thesis using link_potential(1) [OF st pot k(2)] k(1) by (simp add: reduced_cost_def link_arc_def)
    qed
  qed
  moreover have "(right_load A r < capacities ! r \<longrightarrow> d ! (1 + r) \<le> d ! 0) \<and> (0 < right_load A r \<longrightarrow> d ! 0 \<le> d ! (1 + r))"
    if r: "r < rights" for r
    using link_potential [OF st pot pos(3) [OF r]] pos(2) [OF r] lf(1) [OF r] A(2) [OF r] by (simp add: source_arc_def)
  ultimately show ?thesis using red by (simp add: certified_def)
qed

lemma assign_full_contract:
  assumes pre: "assign_pre rights capacities lefts candidates C"
  shows "\<exists>r. assign_full rights capacities lefts candidates = Some r \<and> assign_contract rights capacities lefts candidates r"
proof -
  let ?as = "full_arcs rights capacities lefts candidates" and ?n = "rights + lefts + 2"
  note pre' = assign_preD [OF pre]
  have lay: "layered rights lefts ((!) capacities) (\<lambda>_. 1) ?as" by (rule full_arcs_layered(1) [OF pre])
  have built: "full_network rights capacities lefts candidates =
      (arc_network ?n ?as, map (ref_at ?n rights ?as) (link_positions (1 + rights + lefts) ?as))"
    using full_network_built [of candidates rights lefts capacities] pre'(3) by (auto simp: built_def intro: prod_eqI)
  define N where "N = int ?n * C"
  have N: "0 \<le> N" "int (lefts + 1) * N < flow_infinity" using pre'(6,7) by (auto simp: N_def)
  have "1 * N \<le> int (lefts + 1) * N" "int lefts * N \<le> int (lefts + 1) * N"
    by (rule mult_right_mono; use N(1) in simp)+
  then have range: "int ?n * C < flow_infinity" "int lefts * (int ?n * C) \<le> INT64_MAX"
    unfolding N_def [symmetric] using N(2) by (simp_all add: flow_infinity_def INT64_MAX_def)
  obtain flow spent g where run: "channel_solve 0 (1 + rights + lefts) lefts (arc_network ?n ?as) = Some (Inr (flow, spent, g))"
    and fin: "final_network rights lefts ?as C g" and cost: "flow_cost ?as (carried ?n ?as g) = spent"
    and res: "if flow = lefts then served rights lefts (\<lambda>_. 1) ?as (carried ?n ?as g)
      else \<not> (\<exists>f. served rights lefts (\<lambda>_. 1) ?as f)"
    using layered_solve [OF lay full_arcs_layered(2) [OF pre] pre'(6) range] by auto
  have st: "arc_state ?n ?as g" using fin by (simp add: final_network_def)
  have unfold: "assign_full rights capacities lefts candidates = (if flow \<noteq> lefts then Some (Inl No_channel_assignment)
      else case collect_links g (map (ref_at ?n rights ?as) (link_positions (1 + rights + lefts) ?as)) (replicate lefts (- 1)) (replicate lefts 0) of
        Inl e \<Rightarrow> Some (Inl e)
      | Inr (rs, cs) \<Rightarrow>
        if - 1 \<in> set rs then Some (Inl Incomplete_channels)
        else Option.bind (certificate_potentials g) (\<lambda>r. Some (case r of Inl e \<Rightarrow> Inl e
        | Inr d \<Rightarrow> Inr \<lparr>right_for_left = rs, cost_for_left = cs, total_cost = spent, potentials = d\<rparr>)))"
    using pre'(1,3) run [simplified] by (simp add: assign_full_def built)
  show ?thesis
  proof (cases "flow = lefts")
    case False
    then have "\<not> legal_choice rights capacities lefts candidates B" for B
      using res legal_served [OF pre, of B] by auto
    then show ?thesis unfolding unfold using False by (simp add: assign_contract_def)
  next
    case True
    then have f: "served rights lefts (\<lambda>_. 1) ?as (carried ?n ?as g)" using res by simp
    obtain K A where K: "bij_betw K {..<lefts} (used_links (1 + rights + lefts) ?as (carried ?n ?as g))"
      and A: "legal_choice rights capacities lefts candidates A" "choice_cost A = flow_cost ?as (carried ?n ?as g)"
        "\<And>r. r < rights \<Longrightarrow> right_load A r = link_out (1 + rights + lefts) ?as (carried ?n ?as g) (1 + r)"
        "\<And>l. l < lefts \<Longrightarrow> ?as ! K l = link_arc rights (nat (cand_right (A ! l))) l (cand_cost (A ! l))"
      using full_binding [OF pre f] by auto
    obtain d where d: "certificate_potentials g = Some (Inr d)" "length d = ?n" "potential g ((!) d)"
      using final_certificate [OF fin] by blast
    have lenA: "length A = lefts" using A(1) by (simp add: legal_choice_def)
    have cert: "certified rights capacities lefts candidates A d"
      by (rule full_certified [OF pre st f d(3) lenA A(3) K A(4) A(1)])
    let ?refs = "map (ref_at ?n rights ?as) (link_positions (1 + rights + lefts) ?as)"
    let ?free = "\<lambda>ref. capacity (g ! (1 + ref_right ref) ! ref_index ref) = 0"
    let ?L1 = "filter (\<lambda>k. carried ?n ?as g k = 1) (link_positions (1 + rights + lefts) ?as)"
    have U: "set ?L1 = used_links (1 + rights + lefts) ?as (carried ?n ?as g)"
      by (auto simp: used_links_def set_link_positions)
    have free: "filter ?free ?refs = map (ref_at ?n rights ?as) ?L1" by (rule used_refs [OF lay st])
    have refK: "ref_at ?n rights ?as (K l) = \<lparr>ref_right = nat (cand_right (A ! l)), ref_type = l, ref_cost = cand_cost (A ! l),
        ref_index = forward_at ?n ?as (K l)\<rparr>" if "l < lefts" for l
      using A(4) [OF that] by (simp add: ref_at_def link_arc_def)
    have usedK: "k \<in> set ?L1 \<Longrightarrow> \<exists>l < lefts. k = K l" for k
      using K unfolding U by (auto simp: bij_betw_def)
    have "inj_on (ref_type \<circ> ref_at ?n rights ?as) (set ?L1)"
    proof (rule inj_onI)
      fix x y
      assume xy: "x \<in> set ?L1" "y \<in> set ?L1" "(ref_type \<circ> ref_at ?n rights ?as) x = (ref_type \<circ> ref_at ?n rights ?as) y"
      obtain i j where ij: "i < lefts" "x = K i" "j < lefts" "y = K j" using usedK [OF xy(1)] usedK [OF xy(2)] by blast
      have "i = j" using xy(3) refK [OF ij(1)] refK [OF ij(3)] unfolding ij(2,4) comp_apply by simp
      then show "x = y" using ij by simp
    qed
    then have dist: "distinct (map ref_type (filter ?free ?refs))"
      unfolding free map_map by (simp add: distinct_map link_positions_def)
    have types: "\<forall>ref \<in> set ?refs. ref_type ref < lefts"
      using layeredD(3) [OF lay] by (fastforce simp: ref_at_def link_arc_def)
    obtain rs cs where coll: "collect_links g ?refs (replicate lefts (- 1)) (replicate lefts 0) = Inr (rs, cs)"
      "length rs = lefts" "length cs = lefts"
      "\<forall>ref \<in> set ?refs. ?free ref \<longrightarrow> rs ! ref_type ref = int (ref_right ref) \<and> cs ! ref_type ref = ref_cost ref"
      using collect_links_spec [OF dist, of "replicate lefts (- 1)" "replicate lefts 0"] types by auto
    have at: "rs ! l = cand_right (A ! l) \<and> cs ! l = cand_cost (A ! l)" if l: "l < lefts" for l
    proof -
      have "K l \<in> set ?L1" using K l unfolding U by (auto simp: bij_betw_def)
      then have "ref_at ?n rights ?as (K l) \<in> set (filter ?free ?refs)" unfolding free by simp
      then have "ref_at ?n rights ?as (K l) \<in> set ?refs" "?free (ref_at ?n rights ?as (K l))" by (simp_all only: set_filter mem_Collect_eq)
      then have "rs ! l = int (nat (cand_right (A ! l)))" "cs ! l = cand_cost (A ! l)"
        using coll(4) [rule_format, of "ref_at ?n rights ?as (K l)"] unfolding refK [OF l] by simp_all
      moreover have "0 \<le> cand_right (A ! l)"
        using in_rangeD(3) [OF pre'(3)] A(1) l by (auto simp: legal_choice_def)
      ultimately show ?thesis by simp
    qed
    have "- 1 \<notin> set rs"
    proof
      assume "- 1 \<in> set rs"
      then obtain l where "l < lefts" "rs ! l = - 1" using coll(2) by (auto simp: in_set_conv_nth)
      moreover have "0 \<le> cand_right (A ! l)" if "l < lefts" for l
        using in_rangeD(3) [OF pre'(3)] A(1) that by (auto simp: legal_choice_def)
      ultimately show False using at by fastforce
    qed
    then have out: "assign_full rights capacities lefts candidates =
        Some (Inr \<lparr>right_for_left = rs, cost_for_left = cs, total_cost = spent, potentials = d\<rparr>)"
      unfolding unfold using True coll(1) d(1) by simp
    have "result_choice lefts \<lparr>right_for_left = rs, cost_for_left = cs, total_cost = spent, potentials = d\<rparr> = A"
      using at lenA A(1) by (intro nth_equalityI) (auto simp: result_choice_def legal_choice_def)
    then show ?thesis using out A(1,2) cert coll(2,3) d(2) cost by (simp add: assign_contract_def assignment_ok_def)
  qed
qed

end
