(* ===== verification/Channel_Rows.thy ===== *)
theory Channel_Rows
  imports Channel_Choice
begin

text \<open>
  Rows of costs and their types (\<open>assign\<close> in \<open>src/native/chimew_bank_channel_assigner.cpp\<close>): the row of a
  left lists its candidates, two lefts have the same type exactly when their sorted rows agree, and the
  members of a type are the lefts of that row in increasing order.
\<close>

definition row_of :: "candidate_edge list \<Rightarrow> nat \<Rightarrow> cost_row" where
  "row_of candidates l = map (\<lambda>c. (cand_right c, cand_cost c)) (filter (\<lambda>c. cand_left c = int l) candidates)"

lemma cost_rows_spec:
  assumes "cost_rows rights lefts cs rows = Some rows'" "length rows = lefts"
  shows "length rows' = lefts \<and> (\<forall>l < lefts. rows' ! l = rows ! l @ row_of cs l) \<and>
    (\<forall>c \<in> set cs. candidate_in_range rights lefts c)"
  using assms
proof (induction rights lefts cs rows rule: cost_rows.induct)
  case (2 rights lefts c cs rows)
  then have c: "candidate_in_range rights lefts c" by (auto split: if_splits)
  note r = in_rangeD [OF c]
  have "nat (cand_left c) = l \<longleftrightarrow> cand_left c = int l" for l using r by auto
  then show ?case using 2 c r by (auto simp: row_of_def nth_list_update split: if_splits)
qed (simp add: row_of_def)

lemma cost_rows_total:
  assumes "\<forall>c \<in> set cs. candidate_in_range rights lefts c"
  shows "\<exists>rows'. cost_rows rights lefts cs rows = Some rows'"
  using assms by (induction cs arbitrary: rows) auto

section \<open>Types\<close>

definition types_inv :: "(nat \<Rightarrow> cost_row) \<Rightarrow> nat list \<Rightarrow> row_types \<Rightarrow> bool" where
  "types_inv R ls ts \<longleftrightarrow> length (members_by_type ts) = length (type_rows ts) \<and>
     (\<forall>row t. type_by_row ts row = Some t \<longleftrightarrow> t < length (type_rows ts) \<and> type_rows ts ! t = row) \<and>
     (\<forall>t < length (type_rows ts). members_by_type ts ! t = filter (\<lambda>l. R l = type_rows ts ! t) ls) \<and>
     (\<forall>l \<in> set ls. (\<exists>t < length (type_rows ts). type_rows ts ! t = R l) \<and> R l \<noteq> [] \<and> \<not> adjacent_rights (R l)) \<and>
     (\<forall>t < length (type_rows ts). \<exists>l \<in> set ls. R l = type_rows ts ! t)"

lemma types_invD:
  assumes "types_inv R ls ts"
  shows "length (members_by_type ts) = length (type_rows ts)"
    "type_by_row ts row = Some t \<longleftrightarrow> t < length (type_rows ts) \<and> type_rows ts ! t = row"
    "t < length (type_rows ts) \<Longrightarrow> members_by_type ts ! t = filter (\<lambda>l. R l = type_rows ts ! t) ls"
    "l \<in> set ls \<Longrightarrow> \<exists>t < length (type_rows ts). type_rows ts ! t = R l" "l \<in> set ls \<Longrightarrow> R l \<noteq> []"
    "l \<in> set ls \<Longrightarrow> \<not> adjacent_rights (R l)"
    "t < length (type_rows ts) \<Longrightarrow> \<exists>l \<in> set ls. R l = type_rows ts ! t"
  using assms by (auto simp: types_inv_def)

text \<open>One left: a new type when its row is new, then the left joins the type of its row.\<close>

lemma types_inv_join:
  assumes inv: "types_inv R ls ts" and t: "type_by_row ts (R l) = Some t" and row: "R l \<noteq> []" "\<not> adjacent_rights (R l)"
  shows "types_inv R (ls @ [l]) (ts\<lparr>members_by_type := (members_by_type ts)[t := members_by_type ts ! t @ [l]]\<rparr>)"
proof -
  note i = types_invD [OF inv]
  have tl: "t < length (type_rows ts)" "type_rows ts ! t = R l" using t i(2) by auto
  have ne: "R l \<noteq> type_rows ts ! s" if "s < length (type_rows ts)" "s \<noteq> t" for s
    using i(2) [of "R l" s] t that by auto
  have "(members_by_type ts)[t := members_by_type ts ! t @ [l]] ! s = filter (\<lambda>l. R l = type_rows ts ! s) (ls @ [l])"
    if s: "s < length (type_rows ts)" for s
  proof (cases "s = t")
    case True
    then show ?thesis using i(1) i(3) [OF s] tl by simp
  next
    case False
    then show ?thesis using i(3) [OF s] ne [OF s] by simp
  qed
  moreover have "\<exists>l' \<in> set (ls @ [l]). R l' = type_rows ts ! s" if "s < length (type_rows ts)" for s
    using i(7) [OF that] by auto
  ultimately show ?thesis using i(1,2,4-6) tl row unfolding types_inv_def by auto
qed

lemma types_inv_new:
  assumes inv: "types_inv R ls ts" and new: "type_by_row ts row = None"
  shows "type_by_row ts r = Some s \<Longrightarrow> r \<noteq> row"
    "(if r = row then Some (length (type_rows ts)) else type_by_row ts r) = Some t \<longleftrightarrow>
      t < length (type_rows ts @ [row]) \<and> (type_rows ts @ [row]) ! t = r"
    "l \<in> set ls \<Longrightarrow> R l \<noteq> row"
proof -
  note i = types_invD [OF inv]
  show "type_by_row ts r = Some s \<Longrightarrow> r \<noteq> row" using new by auto
  have ne: "type_rows ts ! s \<noteq> row" if "s < length (type_rows ts)" for s using i(2) [of row s] new that by simp
  show "(if r = row then Some (length (type_rows ts)) else type_by_row ts r) = Some t \<longleftrightarrow>
      t < length (type_rows ts @ [row]) \<and> (type_rows ts @ [row]) ! t = r"
  proof (cases "r = row")
    case True
    then show ?thesis using ne [of t] by (cases "t < length (type_rows ts)") (auto simp: nth_append less_Suc_eq)
  next
    case False
    then show ?thesis using i(2) [of r t] by (cases "t < length (type_rows ts)") (auto simp: nth_append less_Suc_eq)
  qed
  show "R l \<noteq> row" if l: "l \<in> set ls"
  proof -
    obtain t where "t < length (type_rows ts)" "type_rows ts ! t = R l" using i(4) [OF l] by blast
    then show ?thesis using ne [of t] by simp
  qed
qed

lemma types_inv_step:
  assumes inv: "types_inv R ls ts" and row: "R l = sort r" "R l \<noteq> []" "\<not> adjacent_rights (R l)"
  shows "\<exists>ts'. classify_rows ((l, r) # rows) ts = classify_rows rows ts' \<and> types_inv R (ls @ [l]) ts'"
proof (cases "type_by_row ts (R l)")
  case (Some t)
  show ?thesis using types_inv_join [OF inv Some row(2,3)] row Some by (auto simp: Let_def)
next
  case None
  note i = types_invD [OF inv] and n = types_inv_new [OF inv None]
  let ?k = "length (type_rows ts)"
  let ?ts = "ts\<lparr>type_by_row := (type_by_row ts)(R l \<mapsto> ?k), type_rows := type_rows ts @ [R l],
    members_by_type := members_by_type ts @ [[]]\<rparr>"
  let ?ts' = "?ts\<lparr>members_by_type := (members_by_type ?ts)[?k := members_by_type ?ts ! ?k @ [l]]\<rparr>"
  have old: "filter (\<lambda>l'. R l' = R l) ls = []" using n(3) by (auto simp: filter_empty_conv)
  have other: "s < ?k \<Longrightarrow> R l \<noteq> type_rows ts ! s" for s using i(2) [of "R l" s] None by auto
  have "types_inv R (ls @ [l]) ?ts'"
    unfolding types_inv_def
  proof (intro conjI allI impI ballI)
    show "length (members_by_type ?ts') = length (type_rows ?ts')" using i(1) by simp
    show "(type_by_row ?ts' row = Some t) = (t < length (type_rows ?ts') \<and> type_rows ?ts' ! t = row)" for row t
      using n(2) [of row t] by auto
    show "members_by_type ?ts' ! t = filter (\<lambda>l. R l = type_rows ?ts' ! t) (ls @ [l])" if "t < length (type_rows ?ts')" for t
      using that i(1,3) old other by (auto simp: nth_append less_Suc_eq)
    show "\<exists>t < length (type_rows ?ts'). type_rows ?ts' ! t = R l'" if "l' \<in> set (ls @ [l])" for l'
      using that i(4) [of l'] by (fastforce simp: nth_append less_Suc_eq)
    show "R l' \<noteq> []" "\<not> adjacent_rights (R l')" if "l' \<in> set (ls @ [l])" for l'
      using that i(5,6) row by auto
    show "\<exists>l' \<in> set (ls @ [l]). R l' = type_rows ?ts' ! t" if "t < length (type_rows ?ts')" for t
      using that i(7) by (auto simp: nth_append less_Suc_eq)
  qed
  moreover have "classify_rows ((l, r) # rows) ts = classify_rows rows ?ts'"
    using None row by (simp add: Let_def)
  ultimately show ?thesis by blast
qed

lemma classify_rows_spec:
  assumes "types_inv R done ts" "\<forall>(l, r) \<in> set lr. R l = sort r" "classify_rows lr ts = Some ts'"
  shows "types_inv R (done @ map fst lr) ts'"
  using assms
proof (induction lr arbitrary: "done" ts)
  case (Cons x lr)
  obtain l r where x: "x = (l, r)" by (cases x)
  have row: "R l = sort r" "R l \<noteq> []" "\<not> adjacent_rights (R l)"
    using Cons.prems(2,3) x by (auto simp: Let_def split: if_splits)
  obtain ts1 where "classify_rows (x # lr) ts = classify_rows lr ts1" "types_inv R (done @ [l]) ts1"
    using types_inv_step [OF Cons.prems(1) row] x by blast
  with Cons.IH [of "done @ [l]" ts1] Cons.prems(2,3) show ?case using x by simp
qed simp

lemma row_types_of_spec:
  assumes "row_types_of rights lefts candidates = Some ts"
  shows "types_inv (\<lambda>l. sort (row_of candidates l)) [0..<lefts] ts"
proof -
  obtain rows where rows: "cost_rows rights lefts candidates (replicate lefts []) = Some rows"
    and cl: "classify_rows (zip [0..<lefts] rows) \<lparr>type_by_row = Map.empty, type_rows = [], members_by_type = []\<rparr> = Some ts"
    using assms by (auto simp: row_types_of_def split: option.splits)
  note spec = cost_rows_spec [OF rows]
  have "types_inv (\<lambda>l. sort (row_of candidates l)) [] \<lparr>type_by_row = Map.empty, type_rows = [], members_by_type = []\<rparr>"
    by (simp add: types_inv_def)
  moreover have "\<forall>(l, r) \<in> set (zip [0..<lefts] rows). sort (row_of candidates l) = sort r"
    using spec by (auto simp: set_zip)
  ultimately show ?thesis using classify_rows_spec [OF _ _ cl, of "\<lambda>l. sort (row_of candidates l)" "[]"] spec by simp
qed

lemma sorted_rights_distinct:
  assumes "sorted row" "\<not> adjacent_rights row"
  shows "distinct (map fst row)"
  using assms
proof (induction row rule: adjacent_rights.induct)
  case (1 a c b d r)
  have "a \<noteq> fst x" if "x \<in> set ((b, d) # r)" for x
  proof -
    have "a \<le> b" "b \<le> fst x" using 1(2) that by (auto simp: less_eq_prod_def)
    then show ?thesis using 1(3) by auto
  qed
  then show ?case using 1 by force
qed simp_all

end
