(* ===== verification/Channel_Compressed.thy ===== *)
theory Channel_Compressed
  imports Channel_Full Channel_Rows
begin

text \<open>
  The compressed way of \<open>assign\<close> (\<open>src/native/chimew_bank_channel_assigner.cpp\<close>): its network is layered, a
  legal choice of the original problem is a flow of it, so that reporting an infeasible network is right, and
  a result that passes the checks is a legal choice whose cost is the total and whose potentials certify it.
\<close>

section \<open>The network of types\<close>

definition type_demand :: "row_types \<Rightarrow> nat \<Rightarrow> int" where
  "type_demand ts t = int (length (members_by_type ts ! t))"

definition type_block :: "nat \<Rightarrow> row_types \<Rightarrow> nat \<Rightarrow> arc list" where
  "type_block rights ts t = map (\<lambda>x. link_arc rights (nat (fst x)) t (snd x)) (type_rows ts ! t) @
    [sink_arc rights (length (type_rows ts)) (type_demand ts) t]"

definition compressed_arcs :: "nat \<Rightarrow> row_types \<Rightarrow> arc list" where
  "compressed_arcs rights ts = map (source_arc (\<lambda>_. 1)) [0..<rights] @
    concat (map (type_block rights ts) [0..<length (type_rows ts)])"

lemma built_type:
  assumes "built rc (length (type_rows ts)) as gr" "t < length (type_rows ts)"
  shows "built rc (length (type_rows ts)) (as @ type_block rc ts t)
    (add_type (1 + rc) (1 + rc + length (type_rows ts)) (t, type_rows ts ! t, members_by_type ts ! t) gr)"
proof -
  let ?tc = "length (type_rows ts)"
  let ?gr = "fold (\<lambda>x. add_link (1 + rc) (nat (fst x)) t (snd x)) (type_rows ts ! t) gr"
  obtain g refs where gr: "?gr = (g, refs)" by (cases ?gr)
  have "built rc ?tc (as @ map (\<lambda>x. link_arc rc (nat (fst x)) t (snd x)) (type_rows ts ! t)) ?gr"
    by (rule built_links [OF assms(1)]) (use assms(2) in simp)
  then have "built rc ?tc ((as @ map (\<lambda>x. link_arc rc (nat (fst x)) t (snd x)) (type_rows ts ! t)) @ [sink_arc rc ?tc (type_demand ts) t])
      (add_edge (1 + rc + t) (1 + rc + ?tc) (type_demand ts t) 0 g, refs)"
    unfolding gr sink_arc_def by (rule built_plain) simp
  moreover have "add_type (1 + rc) (1 + rc + ?tc) (t, type_rows ts ! t, members_by_type ts ! t) gr =
      (add_edge (1 + rc + t) (1 + rc + ?tc) (type_demand ts t) 0 g, refs)"
    using gr by (cases gr) (simp add: add_type_def type_demand_def split_beta')
  ultimately show ?thesis by (simp add: type_block_def)
qed

lemma built_types:
  assumes "built rc (length (type_rows ts)) as gr" "\<forall>t \<in> set us. t < length (type_rows ts)"
  shows "built rc (length (type_rows ts)) (as @ concat (map (type_block rc ts) us))
    (fold (add_type (1 + rc) (1 + rc + length (type_rows ts)))
      (map (\<lambda>t. (t, type_rows ts ! t, members_by_type ts ! t)) us) gr)"
  using assms
proof (induction us arbitrary: as gr)
  case (Cons t us)
  have "built rc (length (type_rows ts)) (as @ type_block rc ts t)
    (add_type (1 + rc) (1 + rc + length (type_rows ts)) (t, type_rows ts ! t, members_by_type ts ! t) gr)"
    by (rule built_type) (use Cons.prems in simp_all)
  from Cons.IH [OF this] Cons.prems(2) show ?case by simp
qed simp

lemma compressed_network_built:
  assumes "length (members_by_type ts) = length (type_rows ts)"
  shows "built rights (length (type_rows ts)) (compressed_arcs rights ts) (compressed_network rights ts)"
proof -
  let ?tc = "length (type_rows ts)"
  let ?g1 = "fold (\<lambda>right. add_edge 0 (1 + right) 1 0) [0..<rights] (replicate (1 + rights + ?tc + 1) [])"
  have "built rights ?tc [] (replicate (1 + rights + ?tc + 1) [], [])"
    using built_start [of rights ?tc] by (simp del: replicate_Suc add: numeral_2_eq_2)
  then have start: "built rights ?tc (map (source_arc (\<lambda>_. 1)) [0..<rights]) (?g1, [])"
    using built_sources [of rights ?tc "[]" _ "[]" "\<lambda>_. 1" "[0..<rights]"] by simp
  have "zip [0..<?tc] (zip (type_rows ts) (members_by_type ts)) = map (\<lambda>t. (t, type_rows ts ! t, members_by_type ts ! t)) [0..<?tc]"
    using assms by (intro nth_equalityI) auto
  then show ?thesis using built_types [OF start, of "[0..<?tc]"]
    by (simp add: compressed_network_def compressed_arcs_def Let_def)
qed

section \<open>Types of an accepted problem\<close>

definition typed :: "nat \<Rightarrow> int list \<Rightarrow> nat \<Rightarrow> candidate_edge list \<Rightarrow> int \<Rightarrow> row_types \<Rightarrow> bool" where
  "typed rights capacities lefts candidates C ts \<longleftrightarrow> assign_pre rights capacities lefts candidates C \<and>
     (\<forall>c \<in> set capacities. c = 1) \<and> types_inv (\<lambda>l. sort (row_of candidates l)) [0..<lefts] ts"

lemma typedD:
  assumes "typed rights capacities lefts candidates C ts"
  shows "assign_pre rights capacities lefts candidates C" "r < rights \<Longrightarrow> capacities ! r = 1"
    "types_inv (\<lambda>l. sort (row_of candidates l)) [0..<lefts] ts"
  using assms assign_preD(1) [of rights capacities lefts candidates C] by (auto simp: typed_def)

lemma row_of_mem:
  "(r, w) \<in> set (row_of candidates l) \<longleftrightarrow> \<lparr>cand_right = r, cand_left = int l, cand_cost = w\<rparr> \<in> set candidates"
proof -
  have "(r, w) \<in> set (row_of candidates l) \<longleftrightarrow> (\<exists>c \<in> set candidates. cand_left c = int l \<and> cand_right c = r \<and> cand_cost c = w)"
    by (auto simp: row_of_def)
  also have "\<dots> \<longleftrightarrow> \<lparr>cand_right = r, cand_left = int l, cand_cost = w\<rparr> \<in> set candidates"
  proof
    assume "\<exists>c \<in> set candidates. cand_left c = int l \<and> cand_right c = r \<and> cand_cost c = w"
    then obtain c where "c \<in> set candidates" "c = \<lparr>cand_right = r, cand_left = int l, cand_cost = w\<rparr>" by fastforce
    then show "\<lparr>cand_right = r, cand_left = int l, cand_cost = w\<rparr> \<in> set candidates" by simp
  qed force
  finally show ?thesis .
qed

lemma type_row_range:
  assumes T: "typed rights capacities lefts candidates C ts" and t: "t < length (type_rows ts)" and x: "x \<in> set (type_rows ts ! t)"
  shows "0 \<le> fst x" "nat (fst x) < rights" "0 \<le> snd x" "snd x \<le> C"
proof -
  note D = typedD [OF T]
  obtain l where "l \<in> set [0..<lefts]" "sort (row_of candidates l) = type_rows ts ! t" using types_invD(7) [OF D(3) t] by blast
  then have "x \<in> set (row_of candidates l)" using x by (metis set_sort)
  then have c: "\<lparr>cand_right = fst x, cand_left = int l, cand_cost = snd x\<rparr> \<in> set candidates"
    using row_of_mem [of "fst x" "snd x"] by simp
  show "0 \<le> fst x" "nat (fst x) < rights" "0 \<le> snd x" "snd x \<le> C"
    using in_rangeD(3,4) [OF assign_preD(3) [OF D(1) c]] assign_preD(4,5) [OF D(1) c] by auto
qed

lemma compressed_layered:
  assumes T: "typed rights capacities lefts candidates C ts"
  shows "layered rights (length (type_rows ts)) (\<lambda>_. 1) (type_demand ts) (compressed_arcs rights ts)"
    "\<forall>a \<in> set (compressed_arcs rights ts). 0 \<le> arc_cost a \<and> arc_cost a \<le> C"
proof -
  let ?tc = "length (type_rows ts)"
  let ?src = "\<lambda>a. arc_from a = 0" and ?snk = "\<lambda>a. arc_from a \<noteq> 0 \<and> arc_to a = 1 + rights + ?tc"
  have s: "filter ?src (map (source_arc (\<lambda>_. 1)) [0..<rights]) = map (source_arc (\<lambda>_. 1)) [0..<rights]"
    "filter ?snk (map (source_arc (\<lambda>_. 1)) [0..<rights]) = []"
    by (simp_all add: filter_id_conv filter_empty_conv source_arc_def)
  have b: "filter ?src (type_block rights ts t) = []" for t
    by (auto simp: type_block_def filter_empty_conv link_arc_def sink_arc_def)
  have e: "filter ?snk (type_block rights ts t) = [sink_arc rights ?tc (type_demand ts) t]" if "t < ?tc" for t
    using that by (simp add: type_block_def filter_empty_conv link_arc_def sink_arc_def)
  have "filter ?src (concat (map (type_block rights ts) [0..<?tc])) = []"
    using b by (simp add: filter_concat comp_def)
  moreover have "filter ?snk (concat (map (type_block rights ts) us)) = map (sink_arc rights ?tc (type_demand ts)) us"
    if "\<forall>t \<in> set us. t < ?tc" for us
    using that e by (induction us) simp_all
  moreover have "\<exists>r < rights. \<exists>t < ?tc. \<exists>c. a = link_arc rights r t c"
    if a: "a \<in> set (compressed_arcs rights ts)" "is_link (1 + rights + ?tc) a" for a
  proof -
    obtain t x where "t < ?tc" "x \<in> set (type_rows ts ! t)" "a = link_arc rights (nat (fst x)) t (snd x)"
      using a by (auto simp: compressed_arcs_def type_block_def is_link_def source_arc_def sink_arc_def)
    then show ?thesis using type_row_range [OF T] by blast
  qed
  ultimately show "layered rights ?tc (\<lambda>_. 1) (type_demand ts) (compressed_arcs rights ts)"
    using s by (simp add: layered_def compressed_arcs_def type_demand_def)
  show "\<forall>a \<in> set (compressed_arcs rights ts). 0 \<le> arc_cost a \<and> arc_cost a \<le> C"
    using type_row_range(3,4) [OF T] assign_preD(6) [OF typedD(1) [OF T]]
    by (auto simp: compressed_arcs_def type_block_def source_arc_def sink_arc_def link_arc_def)
qed

lemma type_sum:
  fixes f :: "nat \<Rightarrow> nat"
  assumes "\<forall>l \<in> set ls. f l < n"
  shows "(\<Sum>t < n. int (length (filter (\<lambda>l. f l = t) ls))) = int (length ls)"
  using assms
proof (induction ls)
  case (Cons l ls)
  have "(\<Sum>t < n. int (length (filter (\<lambda>l. f l = t) (l # ls)))) =
      (\<Sum>t < n. (if f l = t then 1 else 0) + int (length (filter (\<lambda>l. f l = t) ls)))"
    by (intro sum.cong) auto
  moreover have "(\<Sum>t < n. if f l = t then 1 else 0) = (1::int)" using Cons.prems by (subst sum.delta') simp_all
  ultimately show ?case using Cons by (simp add: sum.distrib)
qed simp

text \<open>The type of a left.\<close>

definition type_of :: "row_types \<Rightarrow> candidate_edge list \<Rightarrow> nat \<Rightarrow> nat" where
  "type_of ts candidates l = the (type_by_row ts (sort (row_of candidates l)))"

lemma type_of_spec:
  assumes T: "typed rights capacities lefts candidates C ts" and l: "l < lefts"
  shows "type_of ts candidates l < length (type_rows ts)" "type_rows ts ! type_of ts candidates l = sort (row_of candidates l)"
proof -
  note inv = types_invD [OF typedD(3) [OF T]]
  obtain t where t: "t < length (type_rows ts)" "type_rows ts ! t = sort (row_of candidates l)" using inv(4) [of l] l by auto
  then have "type_by_row ts (sort (row_of candidates l)) = Some t" using inv(2) by simp
  then show "type_of ts candidates l < length (type_rows ts)" "type_rows ts ! type_of ts candidates l = sort (row_of candidates l)"
    using t by (simp_all add: type_of_def)
qed

lemma members_type:
  assumes T: "typed rights capacities lefts candidates C ts" and t: "t < length (type_rows ts)"
  shows "members_by_type ts ! t = filter (\<lambda>l. type_of ts candidates l = t) [0..<lefts]"
proof -
  note inv = types_invD [OF typedD(3) [OF T]]
  have "(sort (row_of candidates l) = type_rows ts ! t) = (type_of ts candidates l = t)" if "l \<in> set [0..<lefts]" for l
  proof
    assume "sort (row_of candidates l) = type_rows ts ! t"
    then have "type_by_row ts (sort (row_of candidates l)) = Some t" using inv(2) t by metis
    then show "type_of ts candidates l = t" by (simp add: type_of_def)
  next
    assume "type_of ts candidates l = t"
    then show "sort (row_of candidates l) = type_rows ts ! t" using type_of_spec(2) [OF T, of l] that by simp
  qed
  then show ?thesis unfolding inv(3) [OF t] by (intro filter_cong) auto
qed

lemma demand_total:
  assumes T: "typed rights capacities lefts candidates C ts"
  shows "(\<Sum>t < length (type_rows ts). type_demand ts t) = int lefts"
proof -
  have "(\<Sum>t < length (type_rows ts). type_demand ts t) =
      (\<Sum>t < length (type_rows ts). int (length (filter (\<lambda>l. type_of ts candidates l = t) [0..<lefts])))"
    using members_type [OF T] by (intro sum.cong) (simp_all add: type_demand_def)
  also have "\<dots> = int (length [0..<lefts])" by (rule type_sum) (use type_of_spec(1) [OF T] in simp)
  finally show ?thesis by simp
qed

text \<open>A legal choice is a flow of the network of types.\<close>

lemma legal_served_types:
  assumes T: "typed rights capacities lefts candidates C ts" and B: "legal_choice rights capacities lefts candidates B"
  shows "\<exists>f. served rights (length (type_rows ts)) (type_demand ts) (compressed_arcs rights ts) f"
proof -
  let ?as = "compressed_arcs rights ts" and ?T = "type_of ts candidates"
  note D = typedD [OF T]
  have lenB: "length B = lefts" using B by (simp add: legal_choice_def)
  have mem: "B ! l \<in> set candidates \<and> cand_left (B ! l) = int l" if "l < lefts" for l using B that by (simp add: legal_choice_def)
  have range: "0 \<le> cand_right (B ! l) \<and> nat (cand_right (B ! l)) < rights" if "l < lefts" for l
    using in_rangeD(3,4) [OF assign_preD(3) [OF D(1)]] mem [OF that] by blast
  have "\<exists>k < length ?as. ?as ! k = link_arc rights (nat (cand_right (B ! l))) (?T l) (cand_cost (B ! l))" if l: "l < lefts" for l
  proof -
    note t = type_of_spec [OF T l]
    have "B ! l = \<lparr>cand_right = cand_right (B ! l), cand_left = int l, cand_cost = cand_cost (B ! l)\<rparr>"
      using mem [OF l] by simp
    then have "(cand_right (B ! l), cand_cost (B ! l)) \<in> set (row_of candidates l)"
      unfolding row_of_mem using mem [OF l] by metis
    then have "(cand_right (B ! l), cand_cost (B ! l)) \<in> set (type_rows ts ! ?T l)" unfolding t(2) by simp
    then have "link_arc rights (nat (cand_right (B ! l))) (?T l) (cand_cost (B ! l)) \<in> set (type_block rights ts (?T l))"
      by (force simp: type_block_def)
    then have "link_arc rights (nat (cand_right (B ! l))) (?T l) (cand_cost (B ! l)) \<in> set ?as"
      using t(1) by (auto simp: compressed_arcs_def)
    then show ?thesis by (auto simp: in_set_conv_nth)
  qed
  then obtain K where K: "\<And>l. l < lefts \<Longrightarrow> K l < length ?as \<and>
      ?as ! K l = link_arc rights (nat (cand_right (B ! l))) (?T l) (cand_cost (B ! l))" by metis
  have load: "card {l. l < lefts \<and> nat (cand_right (B ! l)) = r} \<le> 1" if r: "r < rights" for r
  proof -
    have "{l. l < lefts \<and> nat (cand_right (B ! l)) = r} = {l. l < length B \<and> cand_right (B ! l) = int r}"
      using range lenB by auto
    moreover have "right_load B r \<le> capacities ! r" using B r by (simp add: legal_choice_def)
    then have "right_load B r \<le> 1" unfolding D(2) [OF r] .
    ultimately show ?thesis unfolding right_load_card by simp
  qed
  have "inj_on K {..<lefts}"
  proof (rule inj_onI)
    fix l l' assume l: "l \<in> {..<lefts}" "l' \<in> {..<lefts}" "K l = K l'"
    then have "nat (cand_right (B ! l)) = nat (cand_right (B ! l'))"
      using K [of l] K [of l'] by (simp add: link_arc_def)
    then have "{l, l'} \<subseteq> {x. x < lefts \<and> nat (cand_right (B ! x)) = nat (cand_right (B ! l))}" using l by auto
    then have "card {l, l'} \<le> card {x. x < lefts \<and> nat (cand_right (B ! x)) = nat (cand_right (B ! l))}"
      by (intro card_mono) simp_all
    also have "\<dots> \<le> 1" using load range l(1) by simp
    finally have "card {l, l'} \<le> 1" .
    then show "l = l'" by (cases "l = l'") auto
  qed
  moreover have "int (card {l. l < lefts \<and> ?T l = t}) = type_demand ts t" if "t < length (type_rows ts)" for t
  proof -
    have "{l. l < lefts \<and> ?T l = t} = set (members_by_type ts ! t)" unfolding members_type [OF T that] by auto
    moreover have "distinct (members_by_type ts ! t)" unfolding members_type [OF T that] by simp
    ultimately show ?thesis by (simp add: type_demand_def distinct_card)
  qed
  ultimately show ?thesis
    using layered_family [OF compressed_layered(1) [OF T], of lefts K "\<lambda>l. nat (cand_right (B ! l))" ?T "\<lambda>l. cand_cost (B ! l)"]
      K range load type_of_spec(1) [OF T] by (simp add: served_def)
qed

end
