(* ===== verification/Channel_Expand.thy ===== *)
theory Channel_Expand
  imports Channel_Compressed
begin

text \<open>
  Expanding a solution of the compressed network and checking it (\<open>assign\<close> in
  \<open>src/native/chimew_bank_channel_assigner.cpp\<close>): what the expansion writes, what the checks establish with
  exact sums, and the promise of the whole of \<open>assign\<close>.
\<close>

section \<open>Expansion\<close>

definition expand_entry :: "nat \<Rightarrow> nat \<times> int \<times> int \<times> int \<Rightarrow> assignment_result \<Rightarrow> assignment_result" where
  "expand_entry first_left = (\<lambda>(l, right, c, p) result.
    result\<lparr>right_for_left := (right_for_left result)[l := right],
           cost_for_left := (cost_for_left result)[l := c],
           potentials := (potentials result)[first_left + l := p]\<rparr>)"

definition type_entries :: "network \<Rightarrow> link_reference list \<Rightarrow> nat \<Rightarrow> int list \<Rightarrow> nat \<times> nat list \<Rightarrow> (nat \<times> int \<times> int \<times> int) list" where
  "type_entries g refs first_type d = (\<lambda>(t, members).
    map (\<lambda>(l, right, c). (l, right, c, d ! (first_type + t))) (zip members (sort (selected_links g refs t))))"

lemma expand_members_fold:
  "expand_members first_left p ms result = fold (expand_entry first_left) (map (\<lambda>(l, right, c). (l, right, c, p)) ms) result"
  by (induction first_left p ms result rule: expand_members.induct) (simp_all add: expand_entry_def)

lemma expand_types_fold:
  assumes "expand_types g refs first_left first_type d tms result = Some result'"
  shows "result' = fold (expand_entry first_left) (concat (map (type_entries g refs first_type d) tms)) result"
    "\<forall>(t, members) \<in> set tms. length (selected_links g refs t) = length members"
proof -
  have "result' = fold (expand_entry first_left) (concat (map (type_entries g refs first_type d) tms)) result \<and>
    (\<forall>(t, members) \<in> set tms. length (selected_links g refs t) = length members)"
    using assms
    by (induction g refs first_left first_type d tms result rule: expand_types.induct)
      (auto simp: Let_def expand_members_fold type_entries_def split: if_splits)
  then show "result' = fold (expand_entry first_left) (concat (map (type_entries g refs first_type d) tms)) result"
    "\<forall>(t, members) \<in> set tms. length (selected_links g refs t) = length members" by auto
qed

lemma expand_fold_spec:
  assumes "distinct (map fst es)" "\<forall>e \<in> set es. fst e < lefts" "length (right_for_left res) = lefts" "length (cost_for_left res) = lefts"
    "length (potentials res) = first_left + lefts + 1"
  shows "let res' = fold (expand_entry first_left) es res in
    length (right_for_left res') = lefts \<and> length (cost_for_left res') = lefts \<and>
    length (potentials res') = first_left + lefts + 1 \<and> total_cost res' = total_cost res \<and>
    (\<forall>(l, right, c, p) \<in> set es. right_for_left res' ! l = right \<and> cost_for_left res' ! l = c \<and> potentials res' ! (first_left + l) = p) \<and>
    (\<forall>l < lefts. l \<notin> fst ` set es \<longrightarrow> right_for_left res' ! l = right_for_left res ! l \<and> cost_for_left res' ! l = cost_for_left res ! l \<and>
       potentials res' ! (first_left + l) = potentials res ! (first_left + l)) \<and>
    (\<forall>j < first_left. potentials res' ! j = potentials res ! j)"
  using assms
proof (induction es arbitrary: res)
  case (Cons e es)
  obtain l right c p where e: "e = (l, right, c, p)" by (cases e)
  let ?res = "expand_entry first_left e res" and ?res' = "fold (expand_entry first_left) (e # es) res"
  have l: "l < lefts" "l \<notin> fst ` set es" using Cons.prems(1,2) e by auto
  have fields: "right_for_left ?res = (right_for_left res)[l := right]" "cost_for_left ?res = (cost_for_left res)[l := c]"
    "potentials ?res = (potentials res)[first_left + l := p]" "total_cost ?res = total_cost res"
    by (simp_all add: expand_entry_def e)
  have len: "length (right_for_left ?res) = lefts" "length (cost_for_left ?res) = lefts" "length (potentials ?res) = first_left + lefts + 1"
    using Cons.prems(3-5) by (simp_all add: fields)
  have d: "distinct (map fst es)" "\<forall>e \<in> set es. fst e < lefts" using Cons.prems(1,2) by auto
  from Cons.IH [OF d len] have IH: "length (right_for_left ?res') = lefts" "length (cost_for_left ?res') = lefts"
    "length (potentials ?res') = first_left + lefts + 1" "total_cost ?res' = total_cost ?res"
    "\<forall>(l, right, c, p) \<in> set es. right_for_left ?res' ! l = right \<and> cost_for_left ?res' ! l = c \<and> potentials ?res' ! (first_left + l) = p"
    "\<And>j. j < lefts \<Longrightarrow> j \<notin> fst ` set es \<Longrightarrow> right_for_left ?res' ! j = right_for_left ?res ! j \<and>
       cost_for_left ?res' ! j = cost_for_left ?res ! j \<and> potentials ?res' ! (first_left + j) = potentials ?res ! (first_left + j)"
    "\<And>j. j < first_left \<Longrightarrow> potentials ?res' ! j = potentials ?res ! j"
    by (auto simp: Let_def)
  have "right_for_left ?res' ! l = right \<and> cost_for_left ?res' ! l = c \<and> potentials ?res' ! (first_left + l) = p"
    using IH(6) [OF l] l(1) Cons.prems(3-5) by (simp add: fields)
  then have own: "\<forall>(l, right, c, p) \<in> set (e # es). right_for_left ?res' ! l = right \<and> cost_for_left ?res' ! l = c \<and>
      potentials ?res' ! (first_left + l) = p"
    using IH(5) by (simp add: e)
  have rest: "right_for_left ?res' ! j = right_for_left res ! j \<and> cost_for_left ?res' ! j = cost_for_left res ! j \<and>
      potentials ?res' ! (first_left + j) = potentials res ! (first_left + j)" if "j < lefts" "j \<notin> fst ` set (e # es)" for j
    using IH(6) [OF that(1)] that(2) fields [unfolded e] by (simp add: e)
  have low: "potentials ?res' ! j = potentials res ! j" if "j < first_left" for j
    using IH(7) [OF that] that fields(3) by simp
  have tot: "total_cost ?res' = total_cost res" using IH(4) fields(4) by (rule trans)
  show ?case unfolding Let_def
  proof (intro conjI)
    show "\<forall>j < lefts. j \<notin> fst ` set (e # es) \<longrightarrow> right_for_left ?res' ! j = right_for_left res ! j \<and>
        cost_for_left ?res' ! j = cost_for_left res ! j \<and> potentials ?res' ! (first_left + j) = potentials res ! (first_left + j)"
      using rest by (intro allI impI)
    show "\<forall>j < first_left. potentials ?res' ! j = potentials res ! j" using low by (intro allI impI)
  qed (fact IH(1-3) tot own)+
qed (simp add: Let_def)

section \<open>The checks\<close>

lemma exact_three:
  assumes "int64_ok a" "int64_ok b" "int64_ok c"
  shows "is_negative (exact_add c n3 (exact_add b n2 (exact_add a n1 exact_zero))) \<longleftrightarrow>
    (if n1 then - a else a) + (if n2 then - b else b) + (if n3 then - c else c) < 0"
proof -
  have s: "exact_sum_of [(a, n1), (b, n2), (c, n3)] = exact_add c n3 (exact_add b n2 (exact_add a n1 exact_zero))"
    by (simp add: exact_sum_of_def)
  have "\<forall>(v, n) \<in> set [(a, n1), (b, n2), (c, n3)]. int64_ok v" using assms by simp
  from exact_sum_of_value [OF this] show ?thesis unfolding s by (simp add: exact_sign add.assoc)
qed

lemma check_lefts_spec:
  assumes "check_lefts first_right first_left res ls used = Some used'"
    and "\<forall>l \<in> set ls. nat (right_for_left res ! l) < length used"
  shows "length used' = length used \<and> distinct (map (\<lambda>l. nat (right_for_left res ! l)) ls) \<and>
    (\<forall>l \<in> set ls. 0 \<le> right_for_left res ! l \<and> \<not> used ! nat (right_for_left res ! l) \<and>
      \<not> is_negative (reverse_reduced first_right first_left res l)) \<and>
    (\<forall>r < length used. used' ! r \<longleftrightarrow> used ! r \<or> (\<exists>l \<in> set ls. nat (right_for_left res ! l) = r))"
  using assms
proof (induction ls arbitrary: used)
  case (Cons l ls)
  let ?r = "nat (right_for_left res ! l)"
  have l: "0 \<le> right_for_left res ! l" "\<not> used ! ?r" "\<not> is_negative (reverse_reduced first_right first_left res l)"
    and rest: "check_lefts first_right first_left res ls (used[?r := True]) = Some used'"
    using Cons.prems by (auto simp: Let_def split: if_splits)
  have lt: "?r < length used" using Cons.prems(2) by simp
  have "\<forall>l \<in> set ls. nat (right_for_left res ! l) < length (used[?r := True])" using Cons.prems(2) by simp
  from Cons.IH [OF rest this] have IH: "length used' = length used" "distinct (map (\<lambda>l. nat (right_for_left res ! l)) ls)"
    "\<And>l. l \<in> set ls \<Longrightarrow> 0 \<le> right_for_left res ! l \<and> \<not> used[?r := True] ! nat (right_for_left res ! l) \<and>
      \<not> is_negative (reverse_reduced first_right first_left res l)"
    "\<And>r. r < length used \<Longrightarrow> used' ! r \<longleftrightarrow> used[?r := True] ! r \<or> (\<exists>l \<in> set ls. nat (right_for_left res ! l) = r)"
    by auto
  have ne: "nat (right_for_left res ! l') \<noteq> ?r" if "l' \<in> set ls" for l'
  proof
    assume "nat (right_for_left res ! l') = ?r"
    then show False using IH(3) [OF that] lt by simp
  qed
  then have dist: "distinct (map (\<lambda>l. nat (right_for_left res ! l)) (l # ls))" using IH(2) by fastforce
  have old: "\<not> used ! nat (right_for_left res ! l')" if "l' \<in> set ls" for l' using IH(3) [OF that] ne [OF that] by simp
  have upd: "used' ! r \<longleftrightarrow> used ! r \<or> (\<exists>l' \<in> set (l # ls). nat (right_for_left res ! l') = r)" if "r < length used" for r
    using IH(4) [OF that] lt by (cases "r = ?r") auto
  show ?case using IH(1) IH(3) l dist old upd by auto
qed simp

section \<open>The expanded flow\<close>

abbreviation types_of :: "row_types \<Rightarrow> nat" where
  "types_of ts \<equiv> length (type_rows ts)"

abbreviation type_refs :: "nat \<Rightarrow> row_types \<Rightarrow> link_reference list" where
  "type_refs rights ts \<equiv> map (ref_at (rights + types_of ts + 2) rights (compressed_arcs rights ts))
     (link_positions (1 + rights + types_of ts) (compressed_arcs rights ts))"

definition used_positions :: "nat \<Rightarrow> row_types \<Rightarrow> network \<Rightarrow> nat list" where
  "used_positions rights ts g = filter (\<lambda>k. carried (rights + types_of ts + 2) (compressed_arcs rights ts) g k = 1)
     (link_positions (1 + rights + types_of ts) (compressed_arcs rights ts))"

lemma selected_links_eq:
  assumes T: "typed rights capacities lefts candidates C ts"
    and st: "arc_state (rights + types_of ts + 2) (compressed_arcs rights ts) g"
  shows "selected_links g (type_refs rights ts) t =
    map (\<lambda>k. (int (arc_from (compressed_arcs rights ts ! k) - 1), arc_cost (compressed_arcs rights ts ! k)))
      (filter (\<lambda>k. arc_to (compressed_arcs rights ts ! k) - (1 + rights) = t) (used_positions rights ts g))"
proof -
  let ?free = "\<lambda>ref. capacity (g ! (1 + ref_right ref) ! ref_index ref) = 0"
  have "filter (\<lambda>ref. ?free ref \<and> ref_type ref = t) (type_refs rights ts) =
      filter (\<lambda>ref. ref_type ref = t) (filter ?free (type_refs rights ts))" by (simp add: conj_commute)
  also have "\<dots> = filter (\<lambda>ref. ref_type ref = t) (map (ref_at (rights + types_of ts + 2) rights (compressed_arcs rights ts)) (used_positions rights ts g))"
    unfolding used_positions_def by (simp only: used_refs [OF compressed_layered(1) [OF T] st])
  finally show ?thesis by (simp add: selected_links_def filter_map comp_def ref_at_def)
qed

lemma used_position_row:
  assumes T: "typed rights capacities lefts candidates C ts" and k: "k \<in> set (used_positions rights ts g)"
  shows "arc_to (compressed_arcs rights ts ! k) - (1 + rights) < types_of ts"
    "(int (arc_from (compressed_arcs rights ts ! k) - 1), arc_cost (compressed_arcs rights ts ! k)) \<in>
      set (type_rows ts ! (arc_to (compressed_arcs rights ts ! k) - (1 + rights)))"
proof -
  let ?as = "compressed_arcs rights ts"
  have lk: "k < length ?as" "is_link (1 + rights + types_of ts) (?as ! k)"
    using k by (auto simp: used_positions_def set_link_positions)
  then have "?as ! k \<in> set ?as" by simp
  with lk(2) obtain t x where x: "t < types_of ts" "x \<in> set (type_rows ts ! t)" "?as ! k = link_arc rights (nat (fst x)) t (snd x)"
    by (auto simp: compressed_arcs_def type_block_def is_link_def source_arc_def sink_arc_def)
  have "0 \<le> fst x" by (rule type_row_range(1) [OF T x(1,2)])
  then show "arc_to (?as ! k) - (1 + rights) < types_of ts"
    "(int (arc_from (?as ! k) - 1), arc_cost (?as ! k)) \<in> set (type_rows ts ! (arc_to (?as ! k) - (1 + rights)))"
    using x by (simp_all add: link_arc_def)
qed

lemma sum_list_types:
  fixes F :: "nat \<Rightarrow> int" and ty :: "nat \<Rightarrow> nat"
  assumes "\<forall>k \<in> set ks. ty k < n"
  shows "(\<Sum>t < n. \<Sum>k \<leftarrow> filter (\<lambda>k. ty k = t) ks. F k) = (\<Sum>k \<leftarrow> ks. F k)"
  using assms
proof (induction ks)
  case (Cons k ks)
  have "(\<Sum>t < n. \<Sum>k \<leftarrow> filter (\<lambda>k. ty k = t) (k # ks). F k) =
      (\<Sum>t < n. (if ty k = t then F k else 0) + (\<Sum>k \<leftarrow> filter (\<lambda>k. ty k = t) ks. F k))"
    by (intro sum.cong) auto
  moreover have "(\<Sum>t < n. if ty k = t then F k else 0) = F k" using Cons.prems by (subst sum.delta') simp_all
  ultimately show ?case using Cons by (simp add: sum.distrib)
qed simp

lemma selected_cost:
  assumes T: "typed rights capacities lefts candidates C ts" and st: "arc_state (rights + types_of ts + 2) (compressed_arcs rights ts) g"
    and f: "served rights (types_of ts) (type_demand ts) (compressed_arcs rights ts) (carried (rights + types_of ts + 2) (compressed_arcs rights ts) g)"
  shows "(\<Sum>t < types_of ts. \<Sum>x \<leftarrow> selected_links g (type_refs rights ts) t. snd x) =
    flow_cost (compressed_arcs rights ts) (carried (rights + types_of ts + 2) (compressed_arcs rights ts) g)"
proof -
  let ?as = "compressed_arcs rights ts" and ?f = "carried (rights + types_of ts + 2) (compressed_arcs rights ts) g"
  note lay = compressed_layered(1) [OF T]
  have "(\<Sum>t < types_of ts. \<Sum>x \<leftarrow> selected_links g (type_refs rights ts) t. snd x) =
      (\<Sum>t < types_of ts. \<Sum>k \<leftarrow> filter (\<lambda>k. arc_to (?as ! k) - (1 + rights) = t) (used_positions rights ts g). arc_cost (?as ! k))"
    unfolding selected_links_eq [OF T st] by (simp add: comp_def)
  also have "\<dots> = (\<Sum>k \<leftarrow> used_positions rights ts g. arc_cost (?as ! k))"
    by (rule sum_list_types) (use used_position_row(1) [OF T] in blast)
  also have "\<dots> = (\<Sum>k \<in> set (used_positions rights ts g). arc_cost (?as ! k))"
    by (rule sum_list_distinct_conv_sum_set) (simp add: used_positions_def link_positions_def)
  also have "set (used_positions rights ts g) = used_links (1 + rights + types_of ts) ?as ?f"
    by (auto simp: used_positions_def used_links_def set_link_positions)
  also have "(\<Sum>k \<in> used_links (1 + rights + types_of ts) ?as ?f. arc_cost (?as ! k)) = flow_cost ?as ?f"
    by (rule layered_cost [OF lay, symmetric]) (rule layered_flow(4) [OF lay f [unfolded served_def]])
  finally show ?thesis .
qed

text \<open>The entries of the expansion: one for every left, with a candidate of its row.\<close>

abbreviation all_entries :: "nat \<Rightarrow> row_types \<Rightarrow> network \<Rightarrow> int list \<Rightarrow> (nat \<times> int \<times> int \<times> int) list" where
  "all_entries rights ts g d \<equiv> concat (map (type_entries g (type_refs rights ts) (1 + rights) d) (zip [0..<types_of ts] (members_by_type ts)))"

lemma zip_members:
  "length ms = n \<Longrightarrow> zip [0..<n] ms = map (\<lambda>t. (t, ms ! t)) [0..<n]"
  by (intro nth_equalityI) auto

lemma entries_keys:
  assumes T: "typed rights capacities lefts candidates C ts"
    and len: "\<forall>t < types_of ts. length (selected_links g (type_refs rights ts) t) = length (members_by_type ts ! t)"
  shows "distinct (map fst (all_entries rights ts g d))" "fst ` set (all_entries rights ts g d) = {..<lefts}"
proof -
  let ?n = "types_of ts"
  have z: "zip [0..<?n] (members_by_type ts) = map (\<lambda>t. (t, members_by_type ts ! t)) [0..<?n]"
    by (rule zip_members) (rule types_invD(1) [OF typedD(3) [OF T]])
  have keys: "map fst (type_entries g (type_refs rights ts) (1 + rights) d (t, members_by_type ts ! t)) = members_by_type ts ! t"
    if "t < ?n" for t
    using len that by (simp add: type_entries_def split_def comp_def)
  have all: "map fst (all_entries rights ts g d) = concat (map (\<lambda>t. members_by_type ts ! t) [0..<?n])"
    unfolding z map_concat map_map comp_def
    by (rule arg_cong [where f = concat], rule map_cong [OF refl], rule keys) simp
  have ms: "members_by_type ts ! t = filter (\<lambda>l. type_of ts candidates l = t) [0..<lefts]" if "t < ?n" for t
    by (rule members_type [OF T that])
  have "distinct (concat (map (\<lambda>t. members_by_type ts ! t) us))" if "distinct us" "\<forall>t \<in> set us. t < ?n" for us
    using that
  proof (induction us)
    case (Cons t us)
    have "set (members_by_type ts ! t) \<inter> set (members_by_type ts ! s) = {}" if "s \<in> set us" for s
      using ms [of t] ms [of s] Cons.prems that by auto
    then show ?case using Cons ms [of t] by auto
  qed simp
  then show "distinct (map fst (all_entries rights ts g d))" unfolding all by simp
  have "fst ` set (all_entries rights ts g d) = set (map fst (all_entries rights ts g d))" by (rule set_map [symmetric])
  also have "\<dots> = {..<lefts}" unfolding all using ms type_of_spec(1) [OF T] by auto
  finally show "fst ` set (all_entries rights ts g d) = {..<lefts}" .
qed

lemma entry_row:
  assumes T: "typed rights capacities lefts candidates C ts" and st: "arc_state (rights + types_of ts + 2) (compressed_arcs rights ts) g"
    and e: "(l, right, c, p) \<in> set (all_entries rights ts g d)"
  shows "l < lefts" "(right, c) \<in> set (row_of candidates l)" "p = d ! (1 + rights + type_of ts candidates l)"
proof -
  have z: "zip [0..<types_of ts] (members_by_type ts) = map (\<lambda>t. (t, members_by_type ts ! t)) [0..<types_of ts]"
    by (rule zip_members) (rule types_invD(1) [OF typedD(3) [OF T]])
  obtain t where t: "t < types_of ts" "(l, right, c) \<in> set (zip (members_by_type ts ! t) (sort (selected_links g (type_refs rights ts) t)))"
    and p: "p = d ! (1 + rights + t)"
    using e unfolding z by (auto simp: type_entries_def)
  have l: "l \<in> set (members_by_type ts ! t)" and x: "(right, c) \<in> set (selected_links g (type_refs rights ts) t)"
    using set_zip_leftD [OF t(2)] set_zip_rightD [OF t(2)] by auto
  have lt: "l < lefts" "type_of ts candidates l = t" using l unfolding members_type [OF T t(1)] by auto
  obtain k where k: "k \<in> set (used_positions rights ts g)" "arc_to (compressed_arcs rights ts ! k) - (1 + rights) = t"
    "(right, c) = (int (arc_from (compressed_arcs rights ts ! k) - 1), arc_cost (compressed_arcs rights ts ! k))"
    using x unfolding selected_links_eq [OF T st] by auto
  have "(right, c) \<in> set (type_rows ts ! t)" using used_position_row(2) [OF T k(1)] k(2,3) by metis
  then show "(right, c) \<in> set (row_of candidates l)" using type_of_spec(2) [OF T lt(1)] lt(2) by (metis set_sort)
  show "l < lefts" "p = d ! (1 + rights + type_of ts candidates l)" using lt p by auto
qed

lemma entries_cost:
  assumes T: "typed rights capacities lefts candidates C ts" and st: "arc_state (rights + types_of ts + 2) (compressed_arcs rights ts) g"
    and f: "served rights (types_of ts) (type_demand ts) (compressed_arcs rights ts) (carried (rights + types_of ts + 2) (compressed_arcs rights ts) g)"
    and len: "\<forall>t < types_of ts. length (selected_links g (type_refs rights ts) t) = length (members_by_type ts ! t)"
  shows "(\<Sum>(l, right, c, p) \<leftarrow> all_entries rights ts g d. c) =
    flow_cost (compressed_arcs rights ts) (carried (rights + types_of ts + 2) (compressed_arcs rights ts) g)"
proof -
  let ?n = "types_of ts" and ?sel = "\<lambda>t. selected_links g (type_refs rights ts) t"
  have z: "zip [0..<?n] (members_by_type ts) = map (\<lambda>t. (t, members_by_type ts ! t)) [0..<?n]"
    by (rule zip_members) (rule types_invD(1) [OF typedD(3) [OF T]])
  have block: "(\<Sum>(l, right, c, p) \<leftarrow> type_entries g (type_refs rights ts) (1 + rights) d (t, members_by_type ts ! t). c) =
      (\<Sum>x \<leftarrow> ?sel t. snd x)" if "t < ?n" for t
  proof -
    have "(\<Sum>(l, right, c, p) \<leftarrow> type_entries g (type_refs rights ts) (1 + rights) d (t, members_by_type ts ! t). c) =
        sum_list (map (snd \<circ> snd) (zip (members_by_type ts ! t) (sort (?sel t))))"
      by (simp add: type_entries_def split_def comp_def)
    also have "map (snd \<circ> snd) (zip (members_by_type ts ! t) (sort (?sel t))) = map snd (sort (?sel t))"
      using len that by (simp add: map_map [symmetric])
    also have "sum_list (map snd (sort (?sel t))) = sum_list (map snd (?sel t))"
      by (metis mset_map mset_sort sum_mset_sum_list)
    finally show ?thesis .
  qed
  have "(\<Sum>(l, right, c, p) \<leftarrow> concat (map (\<lambda>t. type_entries g (type_refs rights ts) (1 + rights) d (t, members_by_type ts ! t)) [0..<m]). c) =
      (\<Sum>t < m. \<Sum>x \<leftarrow> ?sel t. snd x)" if "m \<le> ?n" for m
    using that
  proof (induction m)
    case (Suc m)
    then show ?case using block [of m] by simp
  qed simp
  from this [of ?n] show ?thesis unfolding z map_map comp_def using selected_cost [OF T st f] by simp
qed

end
