(* ===== verification/Channel_Contract.thy ===== *)
theory Channel_Contract
  imports Channel_Expand
begin

text \<open>
  The promise of \<open>assign\<close> (\<open>src/native/chimew_bank_channel_assigner.cpp\<close>): whichever of its three ways it
  takes, it returns a certified legal choice of least cost, or reports that there is none.
\<close>

lemma keyed_entry: "l \<in> fst ` S \<Longrightarrow> \<exists>right c p. (l, right, c, p) \<in> S"
  by force

lemma expanded_fields:
  assumes T: "typed rights capacities lefts candidates C ts"
    and st: "arc_state (rights + types_of ts + 2) (compressed_arcs rights ts) g"
    and f: "served rights (types_of ts) (type_demand ts) (compressed_arcs rights ts) (carried (rights + types_of ts + 2) (compressed_arcs rights ts) g)"
    and len: "\<forall>t < types_of ts. length (selected_links g (type_refs rights ts) t) = length (members_by_type ts ! t)"
    and d: "length d = rights + types_of ts + 2"
    and res: "res = fold (expand_entry (1 + rights)) (all_entries rights ts g d) (expanded_start rights lefts spent d)"
  shows "length (right_for_left res) = lefts" "length (cost_for_left res) = lefts" "length (potentials res) = rights + lefts + 2"
    "total_cost res = spent"
    "l < lefts \<Longrightarrow> (right_for_left res ! l, cost_for_left res ! l) \<in> set (row_of candidates l)"
    "l < lefts \<Longrightarrow> potentials res ! (1 + rights + l) = d ! (1 + rights + type_of ts candidates l)"
    "j < 1 + rights \<Longrightarrow> potentials res ! j = d ! j"
    "choice_cost (result_choice lefts res) = flow_cost (compressed_arcs rights ts) (carried (rights + types_of ts + 2) (compressed_arcs rights ts) g)"
proof -
  let ?E = "all_entries rights ts g d" and ?start = "expanded_start rights lefts spent d"
  note keys = entries_keys [OF T len, of d]
  have bound: "\<forall>e \<in> set ?E. fst e < lefts" using keys(2) by auto
  have start: "length (right_for_left ?start) = lefts" "length (cost_for_left ?start) = lefts"
    "length (potentials ?start) = 1 + rights + lefts + 1" "total_cost ?start = spent"
    using d by (simp_all add: expanded_start_def)
  from expand_fold_spec [OF keys(1) bound start(1-3)]
  have spec: "length (right_for_left res) = lefts" "length (cost_for_left res) = lefts"
    "length (potentials res) = 1 + rights + lefts + 1" "total_cost res = total_cost ?start"
    "\<And>l right c p. (l, right, c, p) \<in> set ?E \<Longrightarrow>
       right_for_left res ! l = right \<and> cost_for_left res ! l = c \<and> potentials res ! (1 + rights + l) = p"
    "\<And>j. j < 1 + rights \<Longrightarrow> potentials res ! j = potentials ?start ! j"
    unfolding res Let_def by blast+
  show "length (right_for_left res) = lefts" "length (cost_for_left res) = lefts" "length (potentials res) = rights + lefts + 2"
    "total_cost res = spent" using spec(1-4) start(4) by simp_all
  have entry: "\<exists>right c p. (l, right, c, p) \<in> set ?E" if "l < lefts" for l
  proof -
    have "l \<in> fst ` set ?E" using that keys(2) by simp
    then show ?thesis by (rule keyed_entry)
  qed
  show "(right_for_left res ! l, cost_for_left res ! l) \<in> set (row_of candidates l)"
    "potentials res ! (1 + rights + l) = d ! (1 + rights + type_of ts candidates l)" if l: "l < lefts"
  proof -
    obtain right c p where e: "(l, right, c, p) \<in> set ?E" using entry [OF l] by blast
    show "(right_for_left res ! l, cost_for_left res ! l) \<in> set (row_of candidates l)"
      "potentials res ! (1 + rights + l) = d ! (1 + rights + type_of ts candidates l)"
      using spec(5) [OF e] entry_row(2,3) [OF T st e] by simp_all
  qed
  show "potentials res ! j = d ! j" if "j < 1 + rights"
    using spec(6) [OF that] that d by (simp add: expanded_start_def nth_append)
  have "(\<Sum>l \<leftarrow> map fst ?E. cost_for_left res ! l) = (\<Sum>l \<in> set (map fst ?E). cost_for_left res ! l)"
    by (rule sum_list_distinct_conv_sum_set [OF keys(1)])
  also have "set (map fst ?E) = {..<lefts}" using keys(2) by simp
  also have "(\<Sum>l \<in> {..<lefts}. cost_for_left res ! l) = choice_cost (result_choice lefts res)"
    by (simp add: choice_cost_def result_choice_def comp_def interv_sum_list_conv_sum_set_nat atLeast0LessThan)
  finally have total: "choice_cost (result_choice lefts res) = (\<Sum>e \<leftarrow> ?E. cost_for_left res ! fst e)" by (simp add: comp_def)
  have "(\<Sum>e \<leftarrow> ?E. cost_for_left res ! fst e) = (\<Sum>(l, right, c, p) \<leftarrow> ?E. c)"
  proof (rule arg_cong [where f = sum_list], rule map_cong [OF refl], clarsimp simp only: split_def)
    fix e assume "e \<in> set ?E"
    then have "(fst e, fst (snd e), fst (snd (snd e)), snd (snd (snd e))) \<in> set ?E" by (simp only: prod.collapse)
    then show "cost_for_left res ! fst e = fst (snd (snd e))" using spec(5) by blast
  qed
  with total entries_cost [OF T st f len, of d]
  show "choice_cost (result_choice lefts res) = flow_cost (compressed_arcs rights ts) (carried (rights + types_of ts + 2) (compressed_arcs rights ts) g)"
    by simp
qed

lemma row_rights_unique:
  assumes T: "typed rights capacities lefts candidates C ts" and l: "l < lefts"
    and "(r, c) \<in> set (row_of candidates l)" "(r, c') \<in> set (row_of candidates l)"
  shows "c = c'"
proof -
  have "\<not> adjacent_rights (sort (row_of candidates l))" by (rule types_invD(6) [OF typedD(3) [OF T]]) (use l in simp)
  then have "distinct (map fst (sort (row_of candidates l)))" by (intro sorted_rights_distinct) simp_all
  then have "inj_on fst (set (row_of candidates l))" by (simp add: distinct_map)
  from inj_onD [OF this _ assms(3,4)] show ?thesis by simp
qed

lemma expanded_ok:
  assumes T: "typed rights capacities lefts candidates C ts"
    and st: "arc_state (rights + types_of ts + 2) (compressed_arcs rights ts) g"
    and f: "served rights (types_of ts) (type_demand ts) (compressed_arcs rights ts) (carried (rights + types_of ts + 2) (compressed_arcs rights ts) g)"
    and len: "\<forall>t < types_of ts. length (selected_links g (type_refs rights ts) t) = length (members_by_type ts ! t)"
    and d: "length d = rights + types_of ts + 2" "\<forall>v < rights + types_of ts + 2. int64_ok (d ! v)"
    and spent: "spent = flow_cost (compressed_arcs rights ts) (carried (rights + types_of ts + 2) (compressed_arcs rights ts) g)"
    and res0: "res0 = fold (expand_entry (1 + rights)) (all_entries rights ts g d) (expanded_start rights lefts spent d)"
    and res: "res = res0\<lparr>potentials := (potentials res0)[1 + rights + lefts := p]\<rparr>"
    and cert: "expanded_certified rights lefts candidates res"
  shows "assignment_ok rights capacities lefts candidates res"
proof -
  note D = typedD [OF T] and e = expanded_fields [OF T st f len d(1) res0]
  have same: "right_for_left res = right_for_left res0" "cost_for_left res = cost_for_left res0" "total_cost res = total_cost res0"
    "length (potentials res) = length (potentials res0)" by (simp_all add: res)
  have pot: "potentials res ! j = potentials res0 ! j" if "j < 1 + rights + lefts" for j using that by (simp add: res)
  have choice: "result_choice lefts res = result_choice lefts res0" by (simp add: result_choice_def same)
  let ?A = "result_choice lefts res"
  have A: "?A ! l = \<lparr>cand_right = right_for_left res ! l, cand_left = int l, cand_cost = cost_for_left res ! l\<rparr>" "length ?A = lefts" if "l < lefts" for l
    using that by (simp_all add: result_choice_def)
  have mem: "?A ! l \<in> set candidates" if l: "l < lefts" for l
    using e(5) [OF l] A(1) [OF l] unfolding same row_of_mem by simp
  have range: "0 \<le> right_for_left res ! l" "nat (right_for_left res ! l) < rights" "0 \<le> cost_for_left res ! l" "cost_for_left res ! l \<le> C" if l: "l < lefts" for l
    using in_rangeD(3,4) [OF assign_preD(3) [OF D(1) mem [OF l]]] assign_preD(4,5) [OF D(1) mem [OF l]] A(1) [OF l] by simp_all
  have C: "int64_ok c" if "0 \<le> c" "c \<le> C" for c
  proof -
    have "C \<le> int (lefts + 1) * (int (rights + lefts + 2) * C)"
    proof -
      have "1 * C \<le> int (rights + lefts + 2) * C" by (rule mult_right_mono) (use assign_preD(6) [OF D(1)] in simp_all)
      moreover have "1 * (int (rights + lefts + 2) * C) \<le> int (lefts + 1) * (int (rights + lefts + 2) * C)"
        by (rule mult_right_mono) (use assign_preD(6) [OF D(1)] in simp_all)
      ultimately show ?thesis by linarith
    qed
    then show ?thesis using that assign_preD(7) [OF D(1)] by (simp add: int64_ok_def flow_infinity_def INT64_MAX_def)
  qed
  have pr: "int64_ok (potentials res ! (1 + r))" if "r < rights" for r
    using that e(7) [of "1 + r"] pot [of "1 + r"] d(2) by simp
  have pl: "int64_ok (potentials res ! (1 + rights + l))" if "l < lefts" for l
    using that e(6) [OF that] pot [of "1 + rights + l"] d(2) type_of_spec(1) [OF T that] by simp
  obtain used where used: "check_lefts 1 (1 + rights) res [0..<lefts] (replicate rights False) = Some used"
    and cands: "candidates_certified 1 (1 + rights) res candidates" and rights: "rights_certified rights 1 res used"
    using cert by (auto simp: expanded_certified_def split: option.splits)
  from check_lefts_spec [OF used] range(2)
  have ck: "distinct (map (\<lambda>l. nat (right_for_left res ! l)) [0..<lefts])"
    "\<And>l. l < lefts \<Longrightarrow> \<not> is_negative (reverse_reduced 1 (1 + rights) res l)"
    "\<And>r. r < rights \<Longrightarrow> used ! r \<longleftrightarrow> (\<exists>l < lefts. nat (right_for_left res ! l) = r)"
    by (auto simp: atLeast0LessThan Bex_def)
  have loadset: "right_load ?A r = int (card {l. l < lefts \<and> nat (right_for_left res ! l) = r})" for r
  proof -
    have "{l. l < length ?A \<and> cand_right (?A ! l) = int r} = {l. l < lefts \<and> nat (right_for_left res ! l) = r}"
      using A range(1) by (force simp: result_choice_def)
    then show ?thesis unfolding right_load_card by simp
  qed
  have load1: "right_load ?A r \<le> 1" for r
  proof -
    have inj: "inj_on (\<lambda>l. nat (right_for_left res ! l)) {..<lefts}" using ck(1) by (simp add: distinct_map atLeast0LessThan)
    have "card {l. l < lefts \<and> nat (right_for_left res ! l) = r} \<le> 1"
    proof (rule card_le_Suc0_iff_eq [THEN iffD2, unfolded One_nat_def [symmetric]])
      show "finite {l. l < lefts \<and> nat (right_for_left res ! l) = r}" by simp
      show "\<forall>x \<in> {l. l < lefts \<and> nat (right_for_left res ! l) = r}. \<forall>y \<in> {l. l < lefts \<and> nat (right_for_left res ! l) = r}. x = y"
        using inj by (auto simp: inj_on_def)
    qed
    then show ?thesis unfolding loadset by simp
  qed
  have legal: "legal_choice rights capacities lefts candidates ?A"
    using mem A(1) load1 D(2) by (simp add: legal_choice_def result_choice_def)
  have red: "reduced_cost rights (potentials res) (?A ! l) \<le> 0" if l: "l < lefts" for l
    using ck(2) [OF l] unfolding reverse_reduced_def
    by (subst (asm) exact_three) (use C range [OF l] pr pl l A(1) [OF l] in \<open>simp_all add: reduced_cost_def\<close>)
  have "c = ?A ! nat (cand_left c) \<or> 0 \<le> reduced_cost rights (potentials res) c" if c: "c \<in> set candidates" for c
  proof -
    note r = in_rangeD [OF assign_preD(3) [OF D(1) c]] and w = assign_preD(4,5) [OF D(1) c]
    let ?l = "nat (cand_left c)"
    show ?thesis
    proof (cases "right_for_left res ! ?l = cand_right c")
      case True
      have "c = \<lparr>cand_right = cand_right c, cand_left = int ?l, cand_cost = cand_cost c\<rparr>" using r(1) by simp
      then have "(cand_right c, cand_cost c) \<in> set (row_of candidates ?l)" unfolding row_of_mem using c by metis
      moreover have "(cand_right c, cost_for_left res ! ?l) \<in> set (row_of candidates ?l)"
        using e(5) [OF r(2)] True by (simp add: same)
      ultimately have "cand_cost c = cost_for_left res ! ?l" by (rule row_rights_unique [OF T r(2)])
      then show ?thesis using A(1) [OF r(2)] True r(1) by simp
    next
      case False
      then have "\<not> is_negative (forward_reduced 1 (1 + rights) res c)" using cands c by (auto simp: candidates_certified_def)
      then have "0 \<le> reduced_cost rights (potentials res) c" unfolding forward_reduced_def
        by (subst (asm) exact_three) (use C [OF w] pr [OF r(4)] pl [OF r(2)] in \<open>simp_all add: reduced_cost_def\<close>)
      then show ?thesis by blast
    qed
  qed
  moreover have "(right_load ?A r < capacities ! r \<longrightarrow> potentials res ! (1 + r) \<le> potentials res ! 0) \<and>
      (0 < right_load ?A r \<longrightarrow> potentials res ! 0 \<le> potentials res ! (1 + r))" if r: "r < rights" for r
  proof -
    have "0 < right_load ?A r \<longleftrightarrow> used ! r" unfolding loadset ck(3) [OF r] by (auto simp: card_gt_0_iff)
    moreover have "right_load ?A r < capacities ! r \<longleftrightarrow> \<not> 0 < right_load ?A r" using D(2) [OF r] right_load_nonneg [of ?A r] load1 [of r] by linarith
    moreover have "(used ! r \<longrightarrow> potentials res ! 0 \<le> potentials res ! (1 + r)) \<and>
        (\<not> used ! r \<longrightarrow> potentials res ! (1 + r) \<le> potentials res ! 0)"
      using rights r unfolding rights_certified_def by (auto simp: not_less)
    ultimately show ?thesis by blast
  qed
  ultimately have "certified rights capacities lefts candidates ?A (potentials res)" using red by (simp add: certified_def)
  then show ?thesis using legal e(1-4,8) spent by (simp add: assignment_ok_def same choice)
qed

definition compressed_contract :: "nat \<Rightarrow> int list \<Rightarrow> nat \<Rightarrow> candidate_edge list \<Rightarrow> channel_error + assignment_result option \<Rightarrow> bool" where
  "compressed_contract rights capacities lefts candidates r \<longleftrightarrow> (case r of
      Inl e \<Rightarrow> e = No_channel_assignment \<and> \<not> (\<exists>A. legal_choice rights capacities lefts candidates A)
    | Inr None \<Rightarrow> True
    | Inr (Some res) \<Rightarrow> assignment_ok rights capacities lefts candidates res)"

lemma assign_compressed_contract:
  assumes pre: "assign_pre rights capacities lefts candidates C"
  shows "\<exists>r. assign_compressed rights capacities lefts candidates = Some r \<and> compressed_contract rights capacities lefts candidates r"
proof (cases "(\<forall>c \<in> set capacities. c = 1) \<and> (\<exists>ts. row_types_of rights lefts candidates = Some ts \<and> types_of ts \<noteq> 0 \<and> \<not> types_of ts > lefts div 4)")
  case False
  then have "assign_compressed rights capacities lefts candidates = Some (Inr None)"
    by (auto simp: assign_compressed_def Let_def split: option.splits)
  then show ?thesis by (simp add: compressed_contract_def)
next
  case True
  then obtain ts where ones: "\<forall>c \<in> set capacities. c = 1" and ts: "row_types_of rights lefts candidates = Some ts"
    and n: "types_of ts \<noteq> 0" "types_of ts \<le> lefts div 4" by auto
  have T: "typed rights capacities lefts candidates C ts"
    using pre ones row_types_of_spec [OF ts] by (simp add: typed_def)
  let ?as = "compressed_arcs rights ts" and ?n = "rights + types_of ts + 2"
  have built: "compressed_network rights ts = (arc_network ?n ?as, type_refs rights ts)"
    using compressed_network_built [of ts rights] types_invD(1) [OF typedD(3) [OF T]] by (auto simp: built_def intro: prod_eqI)
  note pre' = assign_preD [OF pre]
  define N where "N = int (rights + lefts + 2) * C"
  have N: "0 \<le> N" "int (lefts + 1) * N < flow_infinity" using pre'(6,7) by (auto simp: N_def)
  have "1 * N \<le> int (lefts + 1) * N" "int lefts * N \<le> int (lefts + 1) * N" by (rule mult_right_mono; use N(1) in simp)+
  moreover have nN: "int ?n * C \<le> N" unfolding N_def by (rule mult_right_mono) (use n(2) pre'(6) in auto)
  moreover have "int lefts * (int ?n * C) \<le> int lefts * N" by (rule mult_left_mono [OF nN]) simp
  ultimately have range: "int ?n * C < flow_infinity" "int lefts * (int ?n * C) \<le> INT64_MAX"
    using N(2) unfolding flow_infinity_def INT64_MAX_def by linarith+
  obtain flow spent g where run: "channel_solve 0 (1 + rights + types_of ts) lefts (arc_network ?n ?as) = Some (Inr (flow, spent, g))"
    and fin: "final_network rights (types_of ts) ?as C g" and cost: "flow_cost ?as (carried ?n ?as g) = spent"
    and out: "if flow = lefts then served rights (types_of ts) (type_demand ts) ?as (carried ?n ?as g)
      else \<not> (\<exists>f. served rights (types_of ts) (type_demand ts) ?as f)"
    using layered_solve [OF compressed_layered [OF T] pre'(6) range demand_total [OF T, symmetric]] by auto
  have st: "arc_state ?n ?as g" using fin by (simp add: final_network_def)
  obtain d where d: "certificate_potentials g = Some (Inr d)" "length d = ?n" "\<forall>v < ?n. int64_ok (d ! v)"
    using final_certificate [OF fin] by blast
  let ?exp = "expand_types g (type_refs rights ts) (1 + rights) (1 + rights) d (zip [0..<types_of ts] (members_by_type ts)) (expanded_start rights lefts spent d)"
  have unfold: "assign_compressed rights capacities lefts candidates =
      (if flow \<noteq> lefts then Some (Inl No_channel_assignment)
       else Some (Inr (case ?exp of None \<Rightarrow> None
         | Some result \<Rightarrow> (let result = result\<lparr>potentials := (potentials result)[1 + rights + lefts := d ! (1 + rights + types_of ts)]\<rparr>
             in if expanded_certified rights lefts candidates result then Some result else None))))"
    using ones ts n run [simplified] d(1) by (simp add: assign_compressed_def built Let_def cong: option.case_cong)
  show ?thesis
  proof (cases "flow = lefts")
    case False
    then have "\<not> legal_choice rights capacities lefts candidates B" for B
      using out legal_served_types [OF T, of B] by auto
    then show ?thesis unfolding unfold using False by (simp add: compressed_contract_def)
  next
    case full: True
    then have f: "served rights (types_of ts) (type_demand ts) ?as (carried ?n ?as g)" using out by simp
    show ?thesis
    proof (cases ?exp)
      case None
      then show ?thesis unfolding unfold using full by (simp add: compressed_contract_def)
    next
      case (Some res0)
      define res where "res = res0\<lparr>potentials := (potentials res0)[1 + rights + lefts := d ! (1 + rights + types_of ts)]\<rparr>"
      have un: "assign_compressed rights capacities lefts candidates =
          Some (Inr (if expanded_certified rights lefts candidates res then Some res else None))"
        unfolding unfold using full Some by (simp add: res_def Let_def)
      note ex = expand_types_fold [OF Some]
      have z: "zip [0..<types_of ts] (members_by_type ts) = map (\<lambda>t. (t, members_by_type ts ! t)) [0..<types_of ts]"
        by (rule zip_members) (rule types_invD(1) [OF typedD(3) [OF T]])
      have len: "\<forall>t < types_of ts. length (selected_links g (type_refs rights ts) t) = length (members_by_type ts ! t)"
        using ex(2) unfolding z by auto
      show ?thesis
      proof (cases "expanded_certified rights lefts candidates res")
        case True
        have "assignment_ok rights capacities lefts candidates res"
          by (rule expanded_ok [OF T st f len d(2,3) cost [symmetric] ex(1) res_def True])
        then show ?thesis using un True by (simp add: compressed_contract_def)
      qed (use un in \<open>simp add: compressed_contract_def\<close>)
    qed
  qed
qed

text \<open>The three ways together.\<close>

lemma assign_meets_contract:
  assumes pre: "assign_pre rights capacities lefts candidates C"
  shows "\<exists>r. assign rights capacities lefts candidates = Some r \<and> assign_contract rights capacities lefts candidates r"
proof (cases "assign_unique rights capacities lefts candidates")
  case (Some r)
  then show ?thesis using assign_unique_contract [OF pre Some] by (simp add: assign_def)
next
  case None
  obtain r where r: "assign_compressed rights capacities lefts candidates = Some r"
    "compressed_contract rights capacities lefts candidates r" using assign_compressed_contract [OF pre] by blast
  show ?thesis
  proof (cases r)
    case (Inl e)
    then show ?thesis using None r by (simp add: assign_def assign_contract_def compressed_contract_def)
  next
    case (Inr out)
    then show ?thesis
    proof (cases out)
      case None
      then show ?thesis using \<open>assign_unique rights capacities lefts candidates = None\<close> r(1) Inr assign_full_contract [OF pre]
        by (simp add: assign_def)
    next
      case (Some res)
      then show ?thesis using None r Inr by (simp add: assign_def assign_contract_def compressed_contract_def)
    qed
  qed
qed

lemma assign_contract_optimal:
  assumes "assign_pre rights capacities lefts candidates C" "assign_contract rights capacities lefts candidates (Inr res)"
    "legal_choice rights capacities lefts candidates B"
  shows "total_cost res \<le> choice_cost B"
proof -
  have ok: "legal_choice rights capacities lefts candidates (result_choice lefts res)"
    "total_cost res = choice_cost (result_choice lefts res)"
    "certified rights capacities lefts candidates (result_choice lefts res) (potentials res)"
    using assms(2) by (simp_all add: assign_contract_def assignment_ok_def)
  show ?thesis unfolding ok(2) by (rule certified_optimal [OF assms(1) ok(1) assms(3) ok(3)])
qed

end
