(* ===== verification/Channel_Bank.thy ===== *)
theory Channel_Bank
  imports Channel_Assign
begin

text \<open>
  The two stages of the bank and channel assigner (\<open>src/native/chimew_bank_channel_assigner.cpp\<close>): signal
  groups are assigned to bank pairs of their domain, then in every bank to channels, once with the TDM groups
  of direction A to B on the first channels and once with those of direction B to A; the cheaper order is kept.
  Modelled from the records of the input on, checks included. Doubles are the type \<open>'d\<close> with the operations
  \<open>F\<close>; \<open>std::abs\<close> and \<open>std::llround\<close> are further operations, and \<open>llround\<close> may leave the 64-bit range, which is
  \<open>Channel_undefined\<close>.
\<close>

section \<open>Input\<close>

record 'd fp_round = "'d fp" +
  fp_abs :: "'d \<Rightarrow> 'd"
  fp_llround :: "'d \<Rightarrow> int"

record 'd point =
  pt_x :: 'd
  pt_y :: 'd

record 'd bank_member =
  bm_direction :: int
  bm_timing_weight :: 'd
  bm_fanout :: "'d point"
  bm_fanins :: "'d point list"

record 'd bank_group =
  bg_index :: int
  bg_domain :: int
  bg_kind :: int
  bg_direction :: int
  bg_expected_members :: int
  bg_members :: "'d bank_member list"

record 'd bank_channel =
  bc_index :: int
  bc_bank :: int
  bc_order :: int
  bc_pin_a :: "'d point"
  bc_pin_b :: "'d point"

record 'd bank_pair =
  bp_index :: int
  bp_domain :: int
  bp_bank_a :: "'d point"
  bp_bank_b :: "'d point"
  bp_channels :: "nat list"

record 'd bank_input =
  bi_cost_scale :: 'd
  bi_banks :: "'d bank_pair list"
  bi_channels :: "'d bank_channel list"
  bi_groups :: "'d bank_group list"

datatype bank_error =
    Invalid_cost_scale
  | Invalid_bank_pair
  | Invalid_channel
  | Invalid_signal_group
  | Invalid_signal_member
  | Invalid_member_direction
  | Invalid_fanin
  | Invalid_bank_record
  | Incomplete_bank_input
  | Bank_without_channels
  | Channel_order_gap
  | Member_count_differs
  | Bundle_lacks_direction
  | Assignment_error channel_error

text \<open>
  A record of the file. The tokens of a member have a direction in the second version of the format only; a
  record whose tokens cannot be read is the one the code reports for it.
\<close>

datatype 'd bank_record =
    PARAM 'd
  | BANK int int "'d point" "'d point"
  | BANK_CHANNEL int int int "'d point" "'d point"
  | GROUP int int int int int
  | MEMBER int int int 'd "'d point" "'d point list"
  | Unreadable bank_error

definition finite_point :: "'d fp_round \<Rightarrow> 'd point \<Rightarrow> bool" where
  "finite_point F p \<longleftrightarrow> fp_isfinite F (pt_x p) \<and> fp_isfinite F (pt_y p)"

fun read_bank_record :: "'d fp_round \<Rightarrow> bool \<Rightarrow> 'd bank_record \<Rightarrow> 'd bank_input \<Rightarrow> bank_error + 'd bank_input" where
  "read_bank_record F v2 (PARAM scale) inp =
    (if \<not> fp_isfinite F scale \<or> fp_le F scale (fp_of_int F 0) then Inl Invalid_cost_scale
     else Inr (inp\<lparr>bi_cost_scale := scale\<rparr>))"
| "read_bank_record F v2 (BANK index dmn a b) inp =
    (if index \<noteq> int (length (bi_banks inp)) \<or> dmn < 0 \<or> \<not> finite_point F a \<or> \<not> finite_point F b then Inl Invalid_bank_pair
     else Inr (inp\<lparr>bi_banks := bi_banks inp @
       [\<lparr>bp_index = index, bp_domain = dmn, bp_bank_a = a, bp_bank_b = b, bp_channels = []\<rparr>]\<rparr>))"
| "read_bank_record F v2 (BANK_CHANNEL index bank order a b) inp =
    (if index \<noteq> int (length (bi_channels inp)) \<or> bank < 0 \<or> bank \<ge> int (length (bi_banks inp)) \<or> order < 0 \<or>
        \<not> finite_point F a \<or> \<not> finite_point F b then Inl Invalid_channel
     else
       (let old = bi_banks inp ! nat bank
        in Inr (inp\<lparr>bi_banks := (bi_banks inp)[nat bank := old\<lparr>bp_channels := bp_channels old @ [nat index]\<rparr>],
                    bi_channels := bi_channels inp @
                      [\<lparr>bc_index = index, bc_bank = bank, bc_order = order, bc_pin_a = a, bc_pin_b = b\<rparr>]\<rparr>)))"
| "read_bank_record F v2 (GROUP index dmn kind direction expected) inp =
    (if index \<noteq> int (length (bi_groups inp)) \<or> dmn < 0 \<or> (kind \<noteq> 0 \<and> kind \<noteq> 1) \<or>
        (direction \<noteq> 0 \<and> direction \<noteq> 1 \<and> (\<not> v2 \<or> direction \<noteq> 2)) \<or> expected \<le> 0 \<or> (kind = 1 \<and> expected \<noteq> 1)
     then Inl Invalid_signal_group
     else Inr (inp\<lparr>bi_groups := bi_groups inp @
       [\<lparr>bg_index = index, bg_domain = dmn, bg_kind = kind, bg_direction = direction, bg_expected_members = expected,
         bg_members = []\<rparr>]\<rparr>))"
| "read_bank_record F v2 (MEMBER grp member direction weight fanout fanins) inp =
    (if grp < 0 \<or> grp \<ge> int (length (bi_groups inp)) \<or> member \<noteq> int (length (bg_members (bi_groups inp ! nat grp))) \<or>
        fanins = [] \<or> \<not> fp_isfinite F weight \<or> fp_le F weight (fp_of_int F 0) \<or> \<not> finite_point F fanout
     then Inl Invalid_signal_member
     else
       (let old = bi_groups inp ! nat grp; direction = (if v2 then direction else bg_direction old) in
        if (direction \<noteq> 0 \<and> direction \<noteq> 1) \<or> (bg_direction old \<noteq> 2 \<and> direction \<noteq> bg_direction old)
        then Inl Invalid_member_direction
        else if \<exists>p \<in> set fanins. \<not> finite_point F p then Inl Invalid_fanin
        else Inr (inp\<lparr>bi_groups := (bi_groups inp)[nat grp := old\<lparr>bg_members := bg_members old @
          [\<lparr>bm_direction = direction, bm_timing_weight = weight, bm_fanout = fanout, bm_fanins = fanins\<rparr>]\<rparr>]\<rparr>)))"
| "read_bank_record F v2 (Unreadable e) inp = Inl e"

fun read_bank_records :: "'d fp_round \<Rightarrow> bool \<Rightarrow> 'd bank_record list \<Rightarrow> 'd bank_input \<Rightarrow> bank_error + 'd bank_input" where
  "read_bank_records F v2 [] inp = Inr inp"
| "read_bank_records F v2 (r # rs) inp =
    (case read_bank_record F v2 r inp of Inl e \<Rightarrow> Inl e | Inr inp' \<Rightarrow> read_bank_records F v2 rs inp')"

definition sort_channels :: "'d bank_channel list \<Rightarrow> nat list \<Rightarrow> nat list" where
  "sort_channels channels = sort_key (\<lambda>c. (bc_order (channels ! c), c))"

fun check_banks :: "'d bank_channel list \<Rightarrow> 'd bank_pair list \<Rightarrow> bank_error + 'd bank_pair list" where
  "check_banks channels [] = Inr []"
| "check_banks channels (bank # banks) =
    (if bp_channels bank = [] then Inl Bank_without_channels
     else
       (let cs = sort_channels channels (bp_channels bank) in
        if \<exists>order \<in> set [0..<length cs]. bc_order (channels ! (cs ! order)) \<noteq> int order then Inl Channel_order_gap
        else (case check_banks channels banks of Inl e \<Rightarrow> Inl e | Inr bs \<Rightarrow> Inr (bank\<lparr>bp_channels := cs\<rparr> # bs))))"

fun check_groups :: "'d bank_group list \<Rightarrow> bank_error option" where
  "check_groups [] = None"
| "check_groups (g # gs) =
    (if int (length (bg_members g)) \<noteq> bg_expected_members g then Some Member_count_differs
     else if bg_direction g = 2 \<and> \<not> ((\<exists>m \<in> set (bg_members g). bm_direction m = 0) \<and> (\<exists>m \<in> set (bg_members g). bm_direction m = 1))
     then Some Bundle_lacks_direction
     else check_groups gs)"

definition read_banks :: "'d fp_round \<Rightarrow> bool \<Rightarrow> 'd bank_record list \<Rightarrow> bank_error + 'd bank_input" where
  "read_banks F v2 rs =
    (case read_bank_records F v2 rs \<lparr>bi_cost_scale = fp_of_int F 0, bi_banks = [], bi_channels = [], bi_groups = []\<rparr> of
       Inl e \<Rightarrow> Inl e
     | Inr inp \<Rightarrow>
       if \<not> fp_lt F (fp_of_int F 0) (bi_cost_scale inp) \<or> bi_banks inp = [] \<or> bi_channels inp = [] \<or> bi_groups inp = []
       then Inl Incomplete_bank_input
       else (case check_banks (bi_channels inp) (bi_banks inp) of
         Inl e \<Rightarrow> Inl e
       | Inr banks \<Rightarrow>
         (case check_groups (bi_groups inp) of Some e \<Rightarrow> Inl e | None \<Rightarrow> Inr (inp\<lparr>bi_banks := banks\<rparr>))))"

section \<open>Costs\<close>

definition manhattan :: "'d fp_round \<Rightarrow> 'd point \<Rightarrow> 'd point \<Rightarrow> 'd" where
  "manhattan F a b = fp_add F (fp_abs F (fp_sub F (pt_x a) (pt_x b))) (fp_abs F (fp_sub F (pt_y a) (pt_y b)))"

definition member_cost :: "'d fp_round \<Rightarrow> 'd point \<Rightarrow> 'd point \<Rightarrow> 'd bank_member \<Rightarrow> 'd" where
  "member_cost F endpoint_a endpoint_b m =
    (let out = (if bm_direction m = 0 then endpoint_a else endpoint_b);
         inn = (if bm_direction m = 0 then endpoint_b else endpoint_a);
         fanin_distance = fold (\<lambda>fanin d. fp_add F d (manhattan F fanin inn)) (bm_fanins m) (fp_of_int F 0)
     in fp_add F (manhattan F (bm_fanout m) out) (fp_div F fanin_distance (fp_of_int F (int (length (bm_fanins m))))))"

definition raw_cost :: "'d fp_round \<Rightarrow> 'd bank_group \<Rightarrow> 'd point \<Rightarrow> 'd point \<Rightarrow> 'd" where
  "raw_cost F g endpoint_a endpoint_b =
    fold (\<lambda>m acc. fp_add F acc (fp_mul F (bm_timing_weight m) (member_cost F endpoint_a endpoint_b m))) (bg_members g) (fp_of_int F 0)"

definition ranked_cost :: "'d fp_round \<Rightarrow> 'd \<Rightarrow> 'd \<Rightarrow> channel_error + int" where
  "ranked_cost F raw scale =
    (if \<not> fp_isfinite F raw \<or> fp_lt F raw (fp_of_int F 0) \<or> fp_lt F (fp_div F (fp_of_int F INT64_MAX) scale) raw
     then Inl Cost_out_of_range
     else let r = fp_llround F (fp_mul F raw scale) in if \<not> int64_ok r then Inl Channel_undefined else Inr r)"

fun rank_candidates :: "(nat \<times> nat \<Rightarrow> channel_error + int) \<Rightarrow> (nat \<times> nat) list \<Rightarrow> channel_error + candidate_edge list" where
  "rank_candidates price [] = Inr []"
| "rank_candidates price ((right, left) # ps) =
    (case price (right, left) of
       Inl e \<Rightarrow> Inl e
     | Inr c \<Rightarrow>
       (case rank_candidates price ps of
         Inl e \<Rightarrow> Inl e
       | Inr cs \<Rightarrow> Inr (\<lparr>cand_right = int right, cand_left = int left, cand_cost = c\<rparr> # cs)))"

section \<open>One bank\<close>

record stage_result =
  st_priority :: nat
  st_groups :: "nat list"
  st_assignment :: assignment_result

definition direction_count :: "'d bank_input \<Rightarrow> nat list \<Rightarrow> nat \<Rightarrow> nat" where
  "direction_count inp groups direction =
    length (filter (\<lambda>g. bg_kind (bi_groups inp ! g) = 0 \<and> bg_direction (bi_groups inp ! g) = int direction) groups)"

definition common_count :: "'d bank_input \<Rightarrow> nat list \<Rightarrow> nat" where
  "common_count inp groups = length (filter (\<lambda>g. bg_kind (bi_groups inp ! g) \<noteq> 0) groups)"

definition dedicated_direction :: "'d bank_input \<Rightarrow> nat list \<Rightarrow> int" where
  "dedicated_direction inp groups =
    (let count = direction_count inp groups in
     if common_count inp groups \<noteq> 0 then - 1
     else if count 0 > 0 \<and> count 1 = 0 \<and> count 2 = 0 then 0
     else if count 1 > 0 \<and> count 0 = 0 \<and> count 2 = 0 then 1
     else if count 2 > 0 \<and> count 0 = 0 \<and> count 1 = 0 then 2
     else - 1)"

text \<open>The kind and the direction of the groups that may use the channel at position \<open>right\<close>.\<close>

definition required_class :: "'d bank_input \<Rightarrow> nat list \<Rightarrow> nat \<Rightarrow> nat \<Rightarrow> int \<times> int" where
  "required_class inp groups priority right =
    (let count = direction_count inp groups; first = priority; second = 1 - priority in
     if right < count first then (0, int first)
     else if right < count first + count second then (0, int second)
     else if right < count first + count second + count 2 then (0, 2)
     else (1, - 1))"

definition eligible :: "'d bank_input \<Rightarrow> nat list \<Rightarrow> nat \<Rightarrow> nat \<times> nat \<Rightarrow> bool" where
  "eligible inp groups priority = (\<lambda>(right, left).
    (let g = bi_groups inp ! (groups ! left); dedicated = dedicated_direction inp groups;
         (kind, direction) = required_class inp groups priority right
     in if dedicated \<ge> 0 then bg_kind g = 0 \<and> bg_direction g = dedicated
        else if kind = 0 then bg_kind g = 0 \<and> bg_direction g = direction
        else bg_kind g = 1))"

definition channel_cost :: "'d fp_round \<Rightarrow> 'd bank_input \<Rightarrow> nat \<Rightarrow> nat list \<Rightarrow> nat \<times> nat \<Rightarrow> channel_error + int" where
  "channel_cost F inp bank groups = (\<lambda>(right, left).
    (let channel = bi_channels inp ! (bp_channels (bi_banks inp ! bank) ! right)
     in ranked_cost F (raw_cost F (bi_groups inp ! (groups ! left)) (bc_pin_a channel) (bc_pin_b channel)) (bi_cost_scale inp)))"

definition solve_bank :: "'d fp_round \<Rightarrow> 'd bank_input \<Rightarrow> nat \<Rightarrow> nat list \<Rightarrow> nat \<Rightarrow> (channel_error + stage_result) option" where
  "solve_bank F inp bank groups priority =
    (let rights = length (bp_channels (bi_banks inp ! bank)); lefts = length groups in
     case rank_candidates (channel_cost F inp bank groups)
         (filter (eligible inp groups priority) (List.product [0..<rights] [0..<lefts])) of
       Inl e \<Rightarrow> Some (Inl e)
     | Inr candidates \<Rightarrow>
       Option.bind (assign rights (replicate rights 1) lefts candidates) (\<lambda>r. Some (case r of
         Inl e \<Rightarrow> Inl e
       | Inr a \<Rightarrow> Inr \<lparr>st_priority = priority, st_groups = groups, st_assignment = a\<rparr>)))"

section \<open>Both stages\<close>

definition bank_cost :: "'d fp_round \<Rightarrow> 'd bank_input \<Rightarrow> nat \<times> nat \<Rightarrow> channel_error + int" where
  "bank_cost F inp = (\<lambda>(bank, g).
    ranked_cost F (raw_cost F (bi_groups inp ! g) (bp_bank_a (bi_banks inp ! bank)) (bp_bank_b (bi_banks inp ! bank))) (bi_cost_scale inp))"

definition bank_pairs :: "'d bank_input \<Rightarrow> (nat \<times> nat) list" where
  "bank_pairs inp = filter (\<lambda>(bank, g). bp_domain (bi_banks inp ! bank) = bg_domain (bi_groups inp ! g))
    (List.product [0..<length (bi_banks inp)] [0..<length (bi_groups inp)])"

definition stage1 :: "'d fp_round \<Rightarrow> 'd bank_input \<Rightarrow> (channel_error + assignment_result) option" where
  "stage1 F inp =
    (case rank_candidates (bank_cost F inp) (bank_pairs inp) of
       Inl e \<Rightarrow> Some (Inl e)
     | Inr candidates \<Rightarrow>
       assign (length (bi_banks inp)) (map (\<lambda>b. int (length (bp_channels b))) (bi_banks inp)) (length (bi_groups inp)) candidates)"

definition groups_of_bank :: "'d bank_input \<Rightarrow> assignment_result \<Rightarrow> nat \<Rightarrow> nat list" where
  "groups_of_bank inp s1 bank = filter (\<lambda>g. right_for_left s1 ! g = int bank) [0..<length (bi_groups inp)]"

definition active_banks :: "'d bank_input \<Rightarrow> assignment_result \<Rightarrow> nat list" where
  "active_banks inp s1 = filter (\<lambda>bank. groups_of_bank inp s1 bank \<noteq> []) [0..<length (bi_banks inp)]"

text \<open>The body of the loop of a worker: one bank, both orders.\<close>

definition bank_job :: "'d fp_round \<Rightarrow> 'd bank_input \<Rightarrow> assignment_result \<Rightarrow> nat \<Rightarrow> (channel_error + stage_result \<times> stage_result \<times> nat \<times> int) option" where
  "bank_job F inp s1 bank =
    Option.bind (solve_bank F inp bank (groups_of_bank inp s1 bank) 0) (\<lambda>r. case r of
      Inl e \<Rightarrow> Some (Inl e)
    | Inr first \<Rightarrow>
      Option.bind (solve_bank F inp bank (groups_of_bank inp s1 bank) 1) (\<lambda>r. Some (case r of
        Inl e \<Rightarrow> Inl e
      | Inr second \<Rightarrow>
        (let priority = (if total_cost (st_assignment second) < total_cost (st_assignment first) then 1 else 0)
         in Inr (first, second, priority,
              if priority = 0 then total_cost (st_assignment first) else total_cost (st_assignment second))))))"

text \<open>The jobs in the order of the banks; the workers take them in any order, see \<open>Channel_Workers\<close>.\<close>

fun all_jobs :: "(nat \<Rightarrow> (channel_error + 'r) option) \<Rightarrow> nat list \<Rightarrow> (channel_error + 'r list) option" where
  "all_jobs job [] = Some (Inr [])"
| "all_jobs job (b # bs) =
    Option.bind (job b) (\<lambda>r. case r of
      Inl e \<Rightarrow> Some (Inl e)
    | Inr x \<Rightarrow> Option.bind (all_jobs job bs) (\<lambda>r. Some (case r of Inl e \<Rightarrow> Inl e | Inr xs \<Rightarrow> Inr (x # xs))))"

fun sum_selected :: "int list \<Rightarrow> int \<Rightarrow> channel_error + int" where
  "sum_selected [] acc = Inr acc"
| "sum_selected (c # cs) acc =
    (if \<not> int64_ok (INT64_MAX - acc) then Inl Channel_undefined
     else if c > INT64_MAX - acc then Inl Total_out_of_range
     else if \<not> int64_ok (acc + c) then Inl Channel_undefined
     else sum_selected cs (acc + c))"

record bank_result =
  br_stage1 :: assignment_result
  br_active :: "nat list"
  br_alternatives :: "(stage_result \<times> stage_result \<times> nat \<times> int) list"
  br_stage2_total :: int

definition assign_banks :: "'d fp_round \<Rightarrow> 'd bank_input \<Rightarrow> (channel_error + bank_result) option" where
  "assign_banks F inp =
    Option.bind (stage1 F inp) (\<lambda>r. case r of
      Inl e \<Rightarrow> Some (Inl e)
    | Inr s1 \<Rightarrow>
      Option.bind (all_jobs (bank_job F inp s1) (active_banks inp s1)) (\<lambda>r. Some (case r of
        Inl e \<Rightarrow> Inl e
      | Inr alternatives \<Rightarrow>
        (case sum_selected (map (\<lambda>(first, second, priority, selected). selected) alternatives) 0 of
          Inl e \<Rightarrow> Inl e
        | Inr acc \<Rightarrow> Inr \<lparr>br_stage1 = s1, br_active = active_banks inp s1, br_alternatives = alternatives,
            br_stage2_total = acc\<rparr>))))"

definition run_banks :: "'d fp_round \<Rightarrow> bool \<Rightarrow> 'd bank_record list \<Rightarrow> (bank_error + bank_result) option" where
  "run_banks F v2 rs =
    (case read_banks F v2 rs of
       Inl e \<Rightarrow> Some (Inl e)
     | Inr inp \<Rightarrow> Option.bind (assign_banks F inp) (\<lambda>r. Some (case r of Inl e \<Rightarrow> Inl (Assignment_error e) | Inr b \<Rightarrow> Inr b)))"

end
