(* ===== verification/Channel_Workers.thy ===== *)
theory Channel_Workers
  imports Channel_Bank
begin

text \<open>
  The pool of workers of the bank and channel assigner (\<open>run\<close> and \<open>bank_worker_count\<close> of
  \<open>src/native/chimew_bank_channel_assigner.cpp\<close>) as a step relation: any worker may make the next step. The
  atomic counter hands every job to one worker; a worker that throws stops, the others go on; the errors
  are rethrown in the order of the pool_threads. Every schedule ends with the results of \<open>all_jobs\<close>, or with the
  error of a job when there is one.
\<close>

section \<open>Steps\<close>

text \<open>
  The limits of the host: \<open>hardware\<close> is \<open>hardware_concurrency\<close>; the variable of the environment is unset,
  not a number or a number.
\<close>

datatype worker_override = Unset | Not_a_number | Number int

definition bank_worker_count :: "nat \<Rightarrow> worker_override \<Rightarrow> nat \<Rightarrow> nat option" where
  "bank_worker_count hardware override jobs =
    (if jobs = 0 then Some 0
     else
       (let requested = (if hardware = 0 then 1 else hardware) in
        case override of
          Unset \<Rightarrow> Some (min jobs (min requested 8))
        | Not_a_number \<Rightarrow> None
        | Number parsed \<Rightarrow> if parsed \<le> 0 \<or> parsed > 256 then None else Some (min jobs (nat parsed))))"

datatype 'r worker = Fetch | Solve nat | Store nat 'r | Returned | Threw channel_error

record 'r pool =
  next_bank :: nat
  pool_threads :: "'r worker list"
  pool_slots :: "nat \<rightharpoonup> 'r"

definition pool_start :: "nat \<Rightarrow> 'r pool" where
  "pool_start worker_count = \<lparr>next_bank = 0, pool_threads = replicate worker_count Fetch, pool_slots = Map.empty\<rparr>"

definition set_worker :: "nat \<Rightarrow> 'r worker \<Rightarrow> 'r pool \<Rightarrow> 'r pool" where
  "set_worker i w p = p\<lparr>pool_threads := (pool_threads p)[i := w]\<rparr>"

inductive worker_step :: "(nat \<Rightarrow> (channel_error + 'r) option) \<Rightarrow> nat list \<Rightarrow> 'r pool \<Rightarrow> 'r pool \<Rightarrow> bool"
  for job :: "nat \<Rightarrow> (channel_error + 'r) option" and active :: "nat list" where
  fetch_job: "i < length (pool_threads p) \<Longrightarrow> pool_threads p ! i = Fetch \<Longrightarrow> next_bank p < length active \<Longrightarrow>
    worker_step job active p (set_worker i (Solve (active ! next_bank p)) (p\<lparr>next_bank := next_bank p + 1\<rparr>))"
| fetch_none: "i < length (pool_threads p) \<Longrightarrow> pool_threads p ! i = Fetch \<Longrightarrow> length active \<le> next_bank p \<Longrightarrow>
    worker_step job active p (set_worker i Returned (p\<lparr>next_bank := next_bank p + 1\<rparr>))"
| solve_job: "i < length (pool_threads p) \<Longrightarrow> pool_threads p ! i = Solve b \<Longrightarrow> job b = Some (Inr r) \<Longrightarrow>
    worker_step job active p (set_worker i (Store b r) p)"
| throw_job: "i < length (pool_threads p) \<Longrightarrow> pool_threads p ! i = Solve b \<Longrightarrow> job b = Some (Inl e) \<Longrightarrow>
    worker_step job active p (set_worker i (Threw e) p)"
| store_job: "i < length (pool_threads p) \<Longrightarrow> pool_threads p ! i = Store b r \<Longrightarrow>
    worker_step job active p (set_worker i Fetch (p\<lparr>pool_slots := (pool_slots p)(b \<mapsto> r)\<rparr>))"

fun join_workers :: "'r worker list \<Rightarrow> channel_error option" where
  "join_workers [] = None"
| "join_workers (Threw e # ws) = Some e"
| "join_workers (_ # ws) = join_workers ws"

definition finished :: "'r pool \<Rightarrow> bool" where
  "finished p \<longleftrightarrow> (\<forall>w \<in> set (pool_threads p). w = Returned \<or> (\<exists>e. w = Threw e))"

definition pool_result :: "nat list \<Rightarrow> 'r pool \<Rightarrow> channel_error + 'r list" where
  "pool_result active p =
    (case join_workers (pool_threads p) of Some e \<Rightarrow> Inl e | None \<Rightarrow> Inr (map (\<lambda>b. the (pool_slots p b)) active))"

section \<open>The invariant\<close>

definition on_job :: "nat \<Rightarrow> 'r worker \<Rightarrow> bool" where
  "on_job b w \<longleftrightarrow> w = Solve b \<or> (\<exists>r. w = Store b r)"

lemma on_job_simps [simp]:
  "on_job b (Solve c) \<longleftrightarrow> c = b" "on_job b (Store c r) \<longleftrightarrow> c = b" "\<not> on_job b Fetch" "\<not> on_job b Returned"
  "\<not> on_job b (Threw e)"
  by (auto simp: on_job_def)

definition worker_ok :: "(nat \<Rightarrow> (channel_error + 'r) option) \<Rightarrow> nat list \<Rightarrow> 'r pool \<Rightarrow> 'r worker \<Rightarrow> bool" where
  "worker_ok job active p w \<longleftrightarrow>
    (\<forall>b. on_job b w \<longrightarrow> b \<in> set (take (next_bank p) active) \<and> pool_slots p b = None) \<and>
    (\<forall>b r. w = Store b r \<longrightarrow> job b = Some (Inr r)) \<and>
    (w = Returned \<longrightarrow> length active \<le> next_bank p) \<and>
    (\<forall>e. w = Threw e \<longrightarrow> (\<exists>b \<in> set active. job b = Some (Inl e)))"

definition job_accounted :: "(nat \<Rightarrow> (channel_error + 'r) option) \<Rightarrow> 'r pool \<Rightarrow> nat \<Rightarrow> bool" where
  "job_accounted job p b \<longleftrightarrow> pool_slots p b \<noteq> None \<or> (\<exists>w \<in> set (pool_threads p). on_job b w) \<or>
    (\<exists>e. Threw e \<in> set (pool_threads p) \<and> job b = Some (Inl e))"

text \<open>No two workers have the same job, so no slot is written by two of them.\<close>

definition exclusive :: "'r worker list \<Rightarrow> bool" where
  "exclusive ws \<longleftrightarrow> (\<forall>i < length ws. \<forall>j < length ws. \<forall>b. on_job b (ws ! i) \<longrightarrow> on_job b (ws ! j) \<longrightarrow> i = j)"

definition pool_ok :: "(nat \<Rightarrow> (channel_error + 'r) option) \<Rightarrow> nat list \<Rightarrow> 'r pool \<Rightarrow> bool" where
  "pool_ok job active p \<longleftrightarrow>
    (\<forall>w \<in> set (pool_threads p). worker_ok job active p w) \<and> exclusive (pool_threads p) \<and>
    (\<forall>b \<in> set (take (next_bank p) active). job_accounted job p b) \<and>
    (\<forall>b r. pool_slots p b = Some r \<longrightarrow> job b = Some (Inr r) \<and> b \<in> set (take (next_bank p) active))"

lemma set_worker_simps [simp]:
  "pool_threads (set_worker i w p) = (pool_threads p)[i := w]" "next_bank (set_worker i w p) = next_bank p"
  "pool_slots (set_worker i w p) = pool_slots p"
  by (simp_all add: set_worker_def)

lemma exclusive_update:
  assumes "exclusive ws" "i < length ws"
    "\<And>b j. on_job b w \<Longrightarrow> j < length ws \<Longrightarrow> j \<noteq> i \<Longrightarrow> \<not> on_job b (ws ! j)"
  shows "exclusive (ws[i := w])"
  unfolding exclusive_def
proof (intro allI impI)
  fix a c b
  assume ac: "a < length (ws[i := w])" "c < length (ws[i := w])" "on_job b (ws[i := w] ! a)" "on_job b (ws[i := w] ! c)"
  then show "a = c"
    using assms(3) [of b a] assms(3) [of b c] assms(1) unfolding exclusive_def by (cases "a = i"; cases "c = i") auto
qed

lemma exclusiveD: "exclusive ws \<Longrightarrow> i < length ws \<Longrightarrow> j < length ws \<Longrightarrow> on_job b (ws ! i) \<Longrightarrow> j \<noteq> i \<Longrightarrow> \<not> on_job b (ws ! j)"
  unfolding exclusive_def by blast

lemma pool_okD:
  assumes "pool_ok job active p"
  shows "i < length (pool_threads p) \<Longrightarrow> worker_ok job active p (pool_threads p ! i)" "exclusive (pool_threads p)"
    "b \<in> set (take (next_bank p) active) \<Longrightarrow> job_accounted job p b"
    "pool_slots p b = Some r \<Longrightarrow> job b = Some (Inr r)" "pool_slots p b = Some r \<Longrightarrow> b \<in> set (take (next_bank p) active)"
  using assms by (auto simp: pool_ok_def)

lemma pool_start_ok: "pool_ok job active (pool_start k)"
  by (auto simp: pool_ok_def pool_start_def worker_ok_def exclusive_def)

text \<open>Replacing one worker keeps what is said of the others.\<close>

lemma workers_update_ok:
  assumes ok: "pool_ok job active p" and i: "i < length (pool_threads p)"
    and new: "worker_ok job active q w" and pool_threads: "pool_threads q = (pool_threads p)[i := w]"
    and grow: "next_bank p \<le> next_bank q"
    and pool_slots: "\<And>j b. j < length (pool_threads p) \<Longrightarrow> j \<noteq> i \<Longrightarrow> on_job b (pool_threads p ! j) \<Longrightarrow> pool_slots q b = pool_slots p b"
  shows "\<forall>v \<in> set (pool_threads q). worker_ok job active q v"
proof -
  have "worker_ok job active q ((pool_threads p)[i := w] ! j)" if j: "j < length (pool_threads p)" for j
  proof (cases "j = i")
    case False
    have old: "worker_ok job active p (pool_threads p ! j)" using pool_okD(1) [OF ok] j by blast
    have sub: "set (take (next_bank p) active) \<subseteq> set (take (next_bank q) active)" using grow by (rule set_take_subset_set_take)
    have "worker_ok job active q (pool_threads p ! j)"
      using old sub pool_slots [OF j False] grow unfolding worker_ok_def by fastforce
    then show ?thesis using False by simp
  qed (use new i in simp)
  then show ?thesis unfolding pool_threads by (auto simp: in_set_conv_nth)
qed

text \<open>A job stays accounted for when the worker that had it is replaced by one that has it.\<close>

lemma accounted_update:
  assumes "job_accounted job p b" "i < length (pool_threads p)" "pool_threads q = (pool_threads p)[i := w]"
    "pool_slots p b \<noteq> None \<Longrightarrow> pool_slots q b \<noteq> None" "on_job b (pool_threads p ! i) \<Longrightarrow> job_accounted job q b"
    "\<And>e. pool_threads p ! i \<noteq> Threw e"
  shows "job_accounted job q b"
proof -
  consider (slot) "pool_slots p b \<noteq> None" | (worker) j where "j < length (pool_threads p)" "on_job b (pool_threads p ! j)"
    | (threw) j e where "j < length (pool_threads p)" "pool_threads p ! j = Threw e" "job b = Some (Inl e)"
    using assms(1) unfolding job_accounted_def Bex_def in_set_conv_nth by blast
  then show ?thesis
  proof cases
    case slot
    then show ?thesis using assms(4) by (simp add: job_accounted_def)
  next
    case worker
    show ?thesis
    proof (cases "j = i")
      case False
      then have "pool_threads q ! j = pool_threads p ! j" "j < length (pool_threads q)" using worker assms(3) by simp_all
      then have "on_job b (pool_threads q ! j)" "pool_threads q ! j \<in> set (pool_threads q)" using worker(2) by (metis nth_mem)+
      then show ?thesis unfolding job_accounted_def by blast
    qed (use assms(5) worker in simp)
  next
    case threw
    then have "j \<noteq> i" using assms(6) by auto
    then have "pool_threads q ! j = Threw e" "j < length (pool_threads q)" using threw assms(3) by simp_all
    then have "Threw e \<in> set (pool_threads q)" using nth_mem by metis
    then show ?thesis using threw(3) unfolding job_accounted_def by blast
  qed
qed

lemma worker_step_ok:
  assumes "worker_step job active p q" and dist: "distinct active" and ok: "pool_ok job active p"
  shows "pool_ok job active q"
  using assms(1)
proof cases
  case (fetch_job i)
  let ?b = "active ! next_bank p"
  have take: "set (take (next_bank p + 1) active) = insert ?b (set (take (next_bank p) active))"
    using fetch_job(4) by (simp add: take_Suc_conv_app_nth)
  have new: "?b \<notin> set (take (next_bank p) active)"
    using dist fetch_job(4) by (auto simp: in_set_conv_nth nth_eq_iff_index_eq)
  have free: "pool_slots p ?b = None" using pool_okD(5) [OF ok] new by (cases "pool_slots p ?b") auto
  have idle: "\<not> on_job ?b (pool_threads p ! j)" if "j < length (pool_threads p)" for j
    using pool_okD(1) [OF ok that] new unfolding worker_ok_def by blast
  have "worker_ok job active q (Solve ?b)" using fetch_job(1) free take by (auto simp: worker_ok_def)
  then have 1: "\<forall>v \<in> set (pool_threads q). worker_ok job active q v"
    by (rule workers_update_ok [OF ok fetch_job(2)]) (simp_all add: fetch_job(1))
  have 2: "exclusive (pool_threads q)"
    unfolding fetch_job(1) by (simp, rule exclusive_update [OF pool_okD(2) [OF ok] fetch_job(2)]) (use idle in auto)
  have acc: "job_accounted job q b" if "b \<in> set (take (next_bank p) active)" for b
    by (rule accounted_update [OF pool_okD(3) [OF ok that] fetch_job(2)]) (use fetch_job in auto)
  have "Solve ?b \<in> set (pool_threads q)" using fetch_job(1,2) by (simp add: set_update_memI)
  then have "job_accounted job q ?b" unfolding job_accounted_def by force
  then have 3: "\<forall>b \<in> set (take (next_bank q) active). job_accounted job q b" using acc take fetch_job(1) by auto
  show ?thesis unfolding pool_ok_def using 1 2 3 pool_okD(4,5) [OF ok] fetch_job(1) take by auto
next
  case (fetch_none i)
  have take: "take (next_bank q) active = take (next_bank p) active" using fetch_none by simp
  have "worker_ok job active q Returned" using fetch_none by (simp add: worker_ok_def)
  then have 1: "\<forall>v \<in> set (pool_threads q). worker_ok job active q v"
    by (rule workers_update_ok [OF ok fetch_none(2)]) (simp_all add: fetch_none(1))
  have 2: "exclusive (pool_threads q)"
    unfolding fetch_none(1) by (simp, rule exclusive_update [OF pool_okD(2) [OF ok] fetch_none(2)]) auto
  have 3: "job_accounted job q b" if "b \<in> set (take (next_bank p) active)" for b
    by (rule accounted_update [OF pool_okD(3) [OF ok that] fetch_none(2)]) (use fetch_none in auto)
  show ?thesis unfolding pool_ok_def take using 1 2 3 pool_okD(4,5) [OF ok] fetch_none(1) by auto
next
  case (solve_job i b r)
  have had: "b \<in> set (take (next_bank p) active)" "pool_slots p b = None"
    using pool_okD(1) [OF ok solve_job(2)] solve_job(3) by (simp_all add: worker_ok_def)
  have "worker_ok job active q (Store b r)" using solve_job had by (simp add: worker_ok_def)
  then have 1: "\<forall>v \<in> set (pool_threads q). worker_ok job active q v"
    by (rule workers_update_ok [OF ok solve_job(2)]) (simp_all add: solve_job(1))
  have 2: "exclusive (pool_threads q)"
    unfolding solve_job(1)
    by (simp, rule exclusive_update [OF pool_okD(2) [OF ok] solve_job(2)])
      (use solve_job(3) exclusiveD [OF pool_okD(2) [OF ok] solve_job(2), of _ b] in auto)
  have "Store b r \<in> set (pool_threads q)" using solve_job(1,2) by (simp add: set_update_memI)
  then have acc: "job_accounted job q b" unfolding job_accounted_def by force
  have 3: "job_accounted job q c" if "c \<in> set (take (next_bank p) active)" for c
    by (rule accounted_update [OF pool_okD(3) [OF ok that] solve_job(2)]) (use solve_job acc in auto)
  show ?thesis unfolding pool_ok_def using 1 2 3 pool_okD(4,5) [OF ok] solve_job(1) by auto
next
  case (throw_job i b e)
  have had: "b \<in> set (take (next_bank p) active)"
    using pool_okD(1) [OF ok throw_job(2)] throw_job(3) by (simp add: worker_ok_def)
  have "worker_ok job active q (Threw e)"
    using throw_job set_take_subset [of "next_bank p" active] had by (auto simp: worker_ok_def)
  then have 1: "\<forall>v \<in> set (pool_threads q). worker_ok job active q v"
    by (rule workers_update_ok [OF ok throw_job(2)]) (simp_all add: throw_job(1))
  have 2: "exclusive (pool_threads q)"
    unfolding throw_job(1) by (simp, rule exclusive_update [OF pool_okD(2) [OF ok] throw_job(2)]) auto
  have "Threw e \<in> set (pool_threads q)" using throw_job(1,2) by (simp add: set_update_memI)
  then have acc: "job_accounted job q b" unfolding job_accounted_def using throw_job(4) by blast
  have 3: "job_accounted job q c" if "c \<in> set (take (next_bank p) active)" for c
    by (rule accounted_update [OF pool_okD(3) [OF ok that] throw_job(2)]) (use throw_job acc in auto)
  show ?thesis unfolding pool_ok_def using 1 2 3 pool_okD(4,5) [OF ok] throw_job(1) by auto
next
  case (store_job i b r)
  have had: "b \<in> set (take (next_bank p) active)" "job b = Some (Inr r)"
    using pool_okD(1) [OF ok store_job(2)] store_job(3) by (simp_all add: worker_ok_def)
  have other: "\<not> on_job b (pool_threads p ! j)" if "j < length (pool_threads p)" "j \<noteq> i" for j
    using exclusiveD [OF pool_okD(2) [OF ok] store_job(2) that(1), of b] that(2) store_job(3) by simp
  have "worker_ok job active q Fetch" by (simp add: worker_ok_def)
  then have 1: "\<forall>v \<in> set (pool_threads q). worker_ok job active q v"
    by (rule workers_update_ok [OF ok store_job(2)]) (use store_job(1) other in auto)
  have 2: "exclusive (pool_threads q)"
    unfolding store_job(1) by (simp, rule exclusive_update [OF pool_okD(2) [OF ok] store_job(2)]) auto
  have acc: "job_accounted job q b" by (simp add: store_job(1) job_accounted_def)
  have 3: "job_accounted job q c" if "c \<in> set (take (next_bank p) active)" for c
    by (rule accounted_update [OF pool_okD(3) [OF ok that] store_job(2)]) (use store_job acc in auto)
  show ?thesis unfolding pool_ok_def using 1 2 3 pool_okD(4,5) [OF ok] store_job(1) had by (auto split: if_splits)
qed

lemma pool_reachable_ok: "(worker_step job active)\<^sup>*\<^sup>* (pool_start k) p \<Longrightarrow> distinct active \<Longrightarrow> pool_ok job active p"
  by (induction rule: rtranclp_induct) (auto intro: pool_start_ok worker_step_ok)

section \<open>The end of every schedule\<close>

lemma join_None: "join_workers ws = None \<longleftrightarrow> (\<forall>e. Threw e \<notin> set ws)"
  by (induction ws rule: join_workers.induct) auto

lemma join_Some: "join_workers ws = Some e \<Longrightarrow> Threw e \<in> set ws"
  by (induction ws rule: join_workers.induct) auto

lemma worker_step_workers: "worker_step job active p q \<Longrightarrow> length (pool_threads q) = length (pool_threads p)"
  by (induction rule: worker_step.induct) auto

lemma pool_workers: "(worker_step job active)\<^sup>*\<^sup>* p q \<Longrightarrow> length (pool_threads q) = length (pool_threads p)"
  by (induction rule: rtranclp_induct) (auto dest: worker_step_workers)

lemma finished_without_error:
  assumes ok: "pool_ok job active p" and fin: "finished p" and some: "pool_threads p \<noteq> []"
    and none: "join_workers (pool_threads p) = None" and b: "b \<in> set active"
  shows "\<exists>r. pool_slots p b = Some r \<and> job b = Some (Inr r)"
proof -
  have returned: "w = Returned" if "w \<in> set (pool_threads p)" for w
    using that fin none unfolding finished_def join_None by blast
  then have "Returned \<in> set (pool_threads p)" using some by (cases "pool_threads p") auto
  then have "length active \<le> next_bank p" using ok unfolding pool_ok_def worker_ok_def by blast
  then have "job_accounted job p b" using pool_okD(3) [OF ok] b by simp
  then have "pool_slots p b \<noteq> None" using returned unfolding job_accounted_def by fastforce
  then show ?thesis using pool_okD(4) [OF ok] by blast
qed

lemma finished_with_error:
  assumes ok: "pool_ok job active p" and join: "join_workers (pool_threads p) = Some e"
  shows "\<exists>b \<in> set active. job b = Some (Inl e)"
  using ok join_Some [OF join] unfolding pool_ok_def worker_ok_def by blast

lemma all_jobs_Inr: "(\<And>b. b \<in> set bs \<Longrightarrow> job b = Some (Inr (f b))) \<Longrightarrow> all_jobs job bs = Some (Inr (map f bs))"
  by (induction bs) auto

lemma all_jobs_Inl: "all_jobs job bs = Some (Inl e) \<Longrightarrow> \<exists>b \<in> set bs. job b = Some (Inl e)"
  by (induction bs) (auto split: bind_split_asm sum.split_asm)

lemma all_jobs_Inr_iff:
  "all_jobs job bs = Some (Inr xs) \<longleftrightarrow> length xs = length bs \<and> (\<forall>i < length bs. job (bs ! i) = Some (Inr (xs ! i)))"
proof (induction bs arbitrary: xs)
  case (Cons b bs)
  show ?case
  proof (cases xs)
    case (Cons y ys)
    have "all_jobs job (b # bs) = Some (Inr (y # ys)) \<longleftrightarrow> job b = Some (Inr y) \<and> all_jobs job bs = Some (Inr ys)"
      by (auto split: bind_split bind_split_asm sum.split sum.split_asm)
    then show ?thesis using Cons.IH [of ys] Cons by (auto simp: All_less_Suc2 less_Suc_eq_0_disj)
  qed (auto split: bind_split_asm sum.split_asm)
qed auto

lemma pool_result_jobs:
  assumes run: "(worker_step job active)\<^sup>*\<^sup>* (pool_start k) p" and fin: "finished p" and k: "0 < k" and dist: "distinct active"
  shows "case pool_result active p of
      Inr rs \<Rightarrow> all_jobs job active = Some (Inr rs)
    | Inl e \<Rightarrow> \<exists>b \<in> set active. job b = Some (Inl e)"
proof -
  have ok: "pool_ok job active p" by (rule pool_reachable_ok [OF run dist])
  have ne: "pool_threads p \<noteq> []" using pool_workers [OF run] k by (auto simp: pool_start_def)
  show ?thesis
  proof (cases "join_workers (pool_threads p)")
    case None
    have "all_jobs job active = Some (Inr (map (\<lambda>b. the (pool_slots p b)) active))"
      by (rule all_jobs_Inr) (use finished_without_error [OF ok fin ne None] in fastforce)
    then show ?thesis using None by (simp add: pool_result_def)
  next
    case (Some e)
    then show ?thesis using finished_with_error [OF ok Some] by (simp add: pool_result_def)
  qed
qed

section \<open>Every schedule ends\<close>

fun worker_weight :: "'r worker \<Rightarrow> nat" where
  "worker_weight (Solve b) = 3"
| "worker_weight (Store b r) = 2"
| "worker_weight Fetch = 1"
| "worker_weight _ = 0"

definition pool_weight :: "nat list \<Rightarrow> 'r pool \<Rightarrow> nat" where
  "pool_weight active p = 3 * (length active - next_bank p) + sum_list (map worker_weight (pool_threads p))"

lemma weight_update:
  assumes "i < length ws"
  shows "sum_list (map worker_weight (ws[i := w])) + worker_weight (ws ! i) = sum_list (map worker_weight ws) + worker_weight w"
  using assms by (simp add: map_update sum_list_update) (metis (no_types, lifting) elem_le_sum_list
      add.commute add.left_commute le_add_diff_inverse2 length_map nth_map trans_le_add1)

lemma worker_step_weight: "worker_step job active p q \<Longrightarrow> pool_weight active q < pool_weight active p"
proof (induction rule: worker_step.induct)
  case (fetch_job i p)
  then show ?case using weight_update [OF fetch_job(1), of "Solve (active ! next_bank p)"] by (simp add: pool_weight_def)
next
  case (fetch_none i p)
  then show ?case using weight_update [OF fetch_none(1), of Returned] by (simp add: pool_weight_def)
next
  case (solve_job i p b r)
  then show ?case using weight_update [OF solve_job(1), of "Store b r"] by (simp add: pool_weight_def)
next
  case (throw_job i p b e)
  then show ?case using weight_update [OF throw_job(1), of "Threw e"] by (simp add: pool_weight_def)
next
  case (store_job i p b r)
  then show ?case using weight_update [OF store_job(1), of Fetch] by (simp add: pool_weight_def)
qed

lemma worker_progress:
  assumes "pool_ok job active p" "\<not> finished p" "\<And>b. b \<in> set active \<Longrightarrow> job b \<noteq> None"
  shows "\<exists>q. worker_step job active p q"
proof -
  obtain i where i: "i < length (pool_threads p)" "pool_threads p ! i \<noteq> Returned" "\<And>e. pool_threads p ! i \<noteq> Threw e"
    using assms(2) unfolding finished_def Ball_def in_set_conv_nth by blast
  show ?thesis
  proof (cases "pool_threads p ! i")
    case Fetch
    show ?thesis
    proof (cases "next_bank p < length active")
      case True
      show ?thesis by (rule exI, rule fetch_job [OF i(1) Fetch True])
    next
      case False
      then have "length active \<le> next_bank p" by simp
      then show ?thesis using fetch_none [OF i(1) Fetch] by blast
    qed
  next
    case (Solve b)
    then have "b \<in> set active" using pool_okD(1) [OF assms(1) i(1)] set_take_subset unfolding worker_ok_def by fastforce
    then obtain r where "job b = Some r" using assms(3) by blast
    then show ?thesis using solve_job [OF i(1) Solve] throw_job [OF i(1) Solve] by (cases r) blast+
  next
    case (Store b r)
    then show ?thesis using store_job [OF i(1)] by blast
  qed (use i in auto)
qed

text \<open>From every reachable state the pool can finish, and it does after at most \<open>pool_weight\<close> steps.\<close>

lemma pool_finishes:
  assumes "pool_ok job active p" "distinct active" "\<And>b. b \<in> set active \<Longrightarrow> job b \<noteq> None"
  shows "\<exists>q. (worker_step job active)\<^sup>*\<^sup>* p q \<and> finished q"
  using assms(1)
proof (induction "pool_weight active p" arbitrary: p rule: less_induct)
  case less
  show ?case
  proof (cases "finished p")
    case False
    obtain q where q: "worker_step job active p q" using worker_progress [OF less.prems False assms(3)] by blast
    then show ?thesis
      using less.hyps [OF worker_step_weight [OF q] worker_step_ok [OF q assms(2) less.prems]] by (blast intro: converse_rtranclp_into_rtranclp)
  qed auto
qed

lemma pool_steps_bound:
  assumes "(worker_step job active ^^ n) p q"
  shows "n + pool_weight active q \<le> pool_weight active p"
  using assms
proof (induction n arbitrary: q)
  case (Suc n)
  then obtain m where m: "(worker_step job active ^^ n) p m" "worker_step job active m q" by auto
  show ?case using Suc.IH [OF m(1)] worker_step_weight [OF m(2)] by simp
qed auto

lemma pool_start_weight: "pool_weight active (pool_start k) = 3 * length active + k"
  by (simp add: pool_weight_def pool_start_def sum_list_replicate)

lemma bank_worker_count_pos: "bank_worker_count hardware override jobs = Some k \<Longrightarrow> 0 < jobs \<Longrightarrow> 0 < k \<and> k \<le> jobs"
  by (auto simp: bank_worker_count_def Let_def split: if_splits worker_override.splits)

end
