(* ===== verification/Channel_Stages.thy ===== *)
theory Channel_Stages
  imports Channel_Contract Channel_Workers
begin

text \<open>
  What the two stages of the bank and channel assigner give (\<open>src/native/chimew_bank_channel_assigner.cpp\<close>).
  When the prices are in range, the run ends with an optimal assignment of the groups to banks of their
  domain, and for every bank in use with an optimal assignment to its channels in both orders of the
  directions; it fails only when no assignment to banks exists, never in the second stage.
\<close>

section \<open>Inputs\<close>

text \<open>What the checks of the reader establish of groups and banks.\<close>

definition group_wf :: "'d bank_group \<Rightarrow> bool" where
  "group_wf g \<longleftrightarrow> (bg_kind g = 0 \<or> bg_kind g = 1) \<and> (bg_direction g = 0 \<or> bg_direction g = 1 \<or> bg_direction g = 2) \<and>
     (bg_kind g = 1 \<longrightarrow> bg_expected_members g = 1) \<and>
     (\<forall>m \<in> set (bg_members g). bm_fanins m \<noteq> [] \<and> (bm_direction m = 0 \<or> bm_direction m = 1) \<and>
        (bg_direction g \<noteq> 2 \<longrightarrow> bm_direction m = bg_direction g))"

definition bank_input_wf :: "'d bank_input \<Rightarrow> bool" where
  "bank_input_wf inp \<longleftrightarrow>
     (\<forall>i < length (bi_groups inp). bg_index (bi_groups inp ! i) = int i \<and> group_wf (bi_groups inp ! i)) \<and>
     (\<forall>c < length (bi_channels inp). bc_index (bi_channels inp ! c) = int c \<and> 0 \<le> bc_bank (bi_channels inp ! c) \<and>
        bc_bank (bi_channels inp ! c) < int (length (bi_banks inp)) \<and> 0 \<le> bc_order (bi_channels inp ! c)) \<and>
     (\<forall>b < length (bi_banks inp). bp_index (bi_banks inp ! b) = int b \<and> distinct (bp_channels (bi_banks inp ! b)) \<and>
        set (bp_channels (bi_banks inp ! b)) = {c. c < length (bi_channels inp) \<and> bc_bank (bi_channels inp ! c) = int b})"

text \<open>The channels of a bank are numbered without gaps in their order.\<close>

definition channels_in_order :: "'d bank_input \<Rightarrow> bool" where
  "channels_in_order inp \<longleftrightarrow> (\<forall>b < length (bi_banks inp). bp_channels (bi_banks inp ! b) \<noteq> [] \<and>
     (\<forall>i < length (bp_channels (bi_banks inp ! b)). bc_order (bi_channels inp ! (bp_channels (bi_banks inp ! b) ! i)) = int i))"

definition groups_complete :: "'d bank_input \<Rightarrow> bool" where
  "groups_complete inp \<longleftrightarrow> (\<forall>g \<in> set (bi_groups inp). int (length (bg_members g)) = bg_expected_members g \<and>
     (bg_direction g = 2 \<longrightarrow> (\<exists>m \<in> set (bg_members g). bm_direction m = 0) \<and> (\<exists>m \<in> set (bg_members g). bm_direction m = 1)))"

lemma snoc_positions:
  "{c. c < length (xs @ [x]) \<and> Q ((xs @ [x]) ! c)} = {c. c < length xs \<and> Q (xs ! c)} \<union> (if Q x then {length xs} else {})"
  by (auto simp: nth_append less_Suc_eq)

lemma read_bank_record_wf:
  assumes "read_bank_record F v2 r inp = Inr inp'" "bank_input_wf inp"
  shows "bank_input_wf inp'"
proof (cases r)
  case (PARAM x1)
  then show ?thesis using assms by (auto simp: bank_input_wf_def split: if_splits)
next
  case (BANK index dmn a b)
  then have inp': "inp' = inp\<lparr>bi_banks := bi_banks inp @ [\<lparr>bp_index = index, bp_domain = dmn, bp_bank_a = a, bp_bank_b = b,
      bp_channels = []\<rparr>]\<rparr>" "index = int (length (bi_banks inp))"
    using assms(1) by (auto split: if_splits)
  show ?thesis unfolding bank_input_wf_def inp'(1)
  proof (intro conjI allI impI)
    fix c
    assume "c < length (bi_channels (inp\<lparr>bi_banks := bi_banks inp @ [\<lparr>bp_index = index, bp_domain = dmn, bp_bank_a = a, bp_bank_b = b,
      bp_channels = []\<rparr>]\<rparr>))"
    then have "bc_bank (bi_channels inp ! c) < int (length (bi_banks inp))" using assms(2) by (simp add: bank_input_wf_def)
    then show "bc_bank (bi_channels (inp\<lparr>bi_banks := bi_banks inp @ [\<lparr>bp_index = index, bp_domain = dmn, bp_bank_a = a,
      bp_bank_b = b, bp_channels = []\<rparr>]\<rparr>) ! c)
      < int (length (bi_banks (inp\<lparr>bi_banks := bi_banks inp @ [\<lparr>bp_index = index, bp_domain = dmn, bp_bank_a = a,
      bp_bank_b = b, bp_channels = []\<rparr>]\<rparr>)))" by simp
  qed (use assms(2) inp'(2) in \<open>auto simp: bank_input_wf_def nth_append less_Suc_eq\<close>)
next
  case (BANK_CHANNEL index bank order a b)
  let ?new = "\<lparr>bc_index = index, bc_bank = bank, bc_order = order, bc_pin_a = a, bc_pin_b = b\<rparr>"
  let ?old = "bi_banks inp ! nat bank"
  have ok: "index = int (length (bi_channels inp))" "0 \<le> bank" "bank < int (length (bi_banks inp))" "0 \<le> order"
    and inp': "inp' = inp\<lparr>bi_banks := (bi_banks inp)[nat bank := ?old\<lparr>bp_channels := bp_channels ?old @ [nat index]\<rparr>],
      bi_channels := bi_channels inp @ [?new]\<rparr>"
    using assms(1) BANK_CHANNEL by (auto simp: Let_def split: if_splits)
  have groups: "\<forall>i < length (bi_groups inp). bg_index (bi_groups inp ! i) = int i \<and> group_wf (bi_groups inp ! i)"
    and channels: "\<And>c. c < length (bi_channels inp) \<Longrightarrow> bc_index (bi_channels inp ! c) = int c \<and>
      0 \<le> bc_bank (bi_channels inp ! c) \<and> bc_bank (bi_channels inp ! c) < int (length (bi_banks inp)) \<and> 0 \<le> bc_order (bi_channels inp ! c)"
    and banks: "\<And>b. b < length (bi_banks inp) \<Longrightarrow> bp_index (bi_banks inp ! b) = int b \<and> distinct (bp_channels (bi_banks inp ! b)) \<and>
        set (bp_channels (bi_banks inp ! b)) = {c. c < length (bi_channels inp) \<and> bc_bank (bi_channels inp ! c) = int b}"
    using assms(2) by (auto simp: bank_input_wf_def)
  have "bp_index (bi_banks inp' ! b') = int b' \<and> distinct (bp_channels (bi_banks inp' ! b')) \<and>
      set (bp_channels (bi_banks inp' ! b')) = {c. c < length (bi_channels inp') \<and> bc_bank (bi_channels inp' ! c) = int b'}"
    if b': "b' < length (bi_banks inp)" for b'
  proof -
    have set: "{c. c < length (bi_channels inp') \<and> bc_bank (bi_channels inp' ! c) = int b'} =
        set (bp_channels (bi_banks inp ! b')) \<union> (if bank = int b' then {length (bi_channels inp)} else {})"
      using snoc_positions [of "bi_channels inp" ?new "\<lambda>c. bc_bank c = int b'"] banks [OF b'] by (simp add: inp')
    have fresh: "length (bi_channels inp) \<notin> set (bp_channels (bi_banks inp ! b'))" using banks [OF b'] by simp
    show ?thesis
    proof (cases "b' = nat bank")
      case True
      then have here: "bi_banks inp' ! b' = ?old\<lparr>bp_channels := bp_channels ?old @ [nat index]\<rparr>" "bank = int b'" "?old = bi_banks inp ! b'"
        using b' ok by (simp_all add: inp')
      show ?thesis unfolding set unfolding here using banks [OF b'] fresh ok(1) by simp
    next
      case False
      then have "bank \<noteq> int b'" "bi_banks inp' ! b' = bi_banks inp ! b'" by (auto simp: inp')
      then show ?thesis unfolding set using banks [OF b'] by simp
    qed
  qed
  moreover have "bc_index (bi_channels inp' ! c) = int c \<and> 0 \<le> bc_bank (bi_channels inp' ! c) \<and>
      bc_bank (bi_channels inp' ! c) < int (length (bi_banks inp)) \<and> 0 \<le> bc_order (bi_channels inp' ! c)"
    if "c < length (bi_channels inp')" for c
    using that channels [of c] ok by (auto simp: inp' nth_append less_Suc_eq)
  moreover have "length (bi_banks inp') = length (bi_banks inp)" "bi_groups inp' = bi_groups inp" by (simp_all add: inp')
  ultimately show ?thesis using groups by (simp add: bank_input_wf_def)
next
  case (GROUP index dmn kind direction expected)
  let ?new = "\<lparr>bg_index = index, bg_domain = dmn, bg_kind = kind, bg_direction = direction, bg_expected_members = expected,
    bg_members = []\<rparr>"
  have inp': "inp' = inp\<lparr>bi_groups := bi_groups inp @ [?new]\<rparr>" and ok: "index = int (length (bi_groups inp))" "kind = 0 \<or> kind = 1"
      "direction = 0 \<or> direction = 1 \<or> direction = 2" "kind = 1 \<longrightarrow> expected = 1"
    using assms(1) unfolding GROUP read_bank_record.simps by (auto split: if_split_asm)
  have new: "group_wf ?new" using ok(2-4) by (simp add: group_wf_def)
  have "bg_index (bi_groups inp' ! i) = int i \<and> group_wf (bi_groups inp' ! i)" if "i < length (bi_groups inp')" for i
  proof (cases "i = length (bi_groups inp)")
    case True
    then show ?thesis using new ok(1) by (simp add: inp')
  next
    case False
    then show ?thesis using assms(2) that by (simp add: inp' bank_input_wf_def nth_append)
  qed
  then show ?thesis using assms(2) by (simp add: inp' bank_input_wf_def)
next
  case (MEMBER g member direction weight fanout fanins)
  let ?old = "bi_groups inp ! nat g" and ?dir = "if v2 then direction else bg_direction (bi_groups inp ! nat g)"
  let ?new = "\<lparr>bm_direction = ?dir, bm_timing_weight = weight, bm_fanout = fanout, bm_fanins = fanins\<rparr>"
  have ok: "0 \<le> g" "nat g < length (bi_groups inp)" "fanins \<noteq> []" "?dir = 0 \<or> ?dir = 1"
      "bg_direction ?old = 2 \<or> ?dir = bg_direction ?old"
    and inp': "inp' = inp\<lparr>bi_groups := (bi_groups inp)[nat g := ?old\<lparr>bg_members := bg_members ?old @ [?new]\<rparr>]\<rparr>"
    using assms(1) unfolding MEMBER read_bank_record.simps Let_def by (simp_all split: if_split_asm)
  have old: "group_wf ?old" "bg_index ?old = int (nat g)" using assms(2) ok(2) by (simp_all add: bank_input_wf_def)
  have new: "group_wf (?old\<lparr>bg_members := bg_members ?old @ [?new]\<rparr>)"
    using old(1) ok(3,4,5) unfolding group_wf_def by auto
  have "bg_index (bi_groups inp' ! i) = int i \<and> group_wf (bi_groups inp' ! i)" if "i < length (bi_groups inp)" for i
  proof (cases "i = nat g")
    case True
    then show ?thesis using new old(2) ok(2) by (simp add: inp')
  next
    case False
    then show ?thesis using assms(2) that by (simp add: inp' bank_input_wf_def)
  qed
  then show ?thesis using assms(2) by (simp add: inp' bank_input_wf_def)
qed (use assms in simp)

lemma read_bank_records_wf: "read_bank_records F v2 rs inp = Inr inp' \<Longrightarrow> bank_input_wf inp \<Longrightarrow> bank_input_wf inp'"
  by (induction rs arbitrary: inp) (auto split: sum.splits intro: read_bank_record_wf)

lemma sort_channels_set [simp]: "set (sort_channels channels cs) = set cs" "distinct (sort_channels channels cs) = distinct cs"
    "length (sort_channels channels cs) = length cs"
  by (simp_all add: sort_channels_def)

lemma check_banks_spec:
  assumes "check_banks channels banks = Inr banks'"
  shows "length banks' = length banks"
    "b < length banks \<Longrightarrow> banks' ! b = (banks ! b)\<lparr>bp_channels := sort_channels channels (bp_channels (banks ! b))\<rparr>"
    "b < length banks \<Longrightarrow> bp_channels (banks' ! b) \<noteq> []"
    "b < length banks \<Longrightarrow> i < length (bp_channels (banks' ! b)) \<Longrightarrow> bc_order (channels ! (bp_channels (banks' ! b) ! i)) = int i"
proof -
  have "length banks' = length banks \<and> (\<forall>b < length banks.
      banks' ! b = (banks ! b)\<lparr>bp_channels := sort_channels channels (bp_channels (banks ! b))\<rparr> \<and> bp_channels (banks' ! b) \<noteq> [] \<and>
      (\<forall>i < length (bp_channels (banks' ! b)). bc_order (channels ! (bp_channels (banks' ! b) ! i)) = int i))"
    using assms
  proof (induction banks arbitrary: banks')
    case (Cons bank banks)
    let ?cs = "sort_channels channels (bp_channels bank)"
    obtain bs where bs: "check_banks channels banks = Inr bs" "banks' = bank\<lparr>bp_channels := ?cs\<rparr> # bs"
      and bank: "bp_channels bank \<noteq> []" "\<forall>i < length ?cs. bc_order (channels ! (?cs ! i)) = int i"
      using Cons.prems by (auto simp: Let_def split: if_splits sum.splits)
    have "?cs \<noteq> []" using bank(1) sort_channels_set(3) [of channels "bp_channels bank"] by (metis length_0_conv)
    then show ?case using Cons.IH [OF bs(1)] bank(2) by (auto simp: bs(2) nth_Cons less_Suc_eq_0_disj split: nat.split)
  qed simp
  then show "length banks' = length banks"
    "b < length banks \<Longrightarrow> banks' ! b = (banks ! b)\<lparr>bp_channels := sort_channels channels (bp_channels (banks ! b))\<rparr>"
    "b < length banks \<Longrightarrow> bp_channels (banks' ! b) \<noteq> []"
    "b < length banks \<Longrightarrow> i < length (bp_channels (banks' ! b)) \<Longrightarrow> bc_order (channels ! (bp_channels (banks' ! b) ! i)) = int i"
    by auto
qed

lemma check_groups_None: "check_groups gs = None \<Longrightarrow> g \<in> set gs \<Longrightarrow> int (length (bg_members g)) = bg_expected_members g \<and>
     (bg_direction g = 2 \<longrightarrow> (\<exists>m \<in> set (bg_members g). bm_direction m = 0) \<and> (\<exists>m \<in> set (bg_members g). bm_direction m = 1))"
  by (induction gs) (auto split: if_splits)

lemma read_banks_wf:
  assumes "read_banks F v2 rs = Inr inp"
  shows "bank_input_wf inp \<and> channels_in_order inp \<and> groups_complete inp"
proof -
  let ?start = "\<lparr>bi_cost_scale = fp_of_int F 0, bi_banks = [], bi_channels = [], bi_groups = []\<rparr>"
  obtain raw banks where raw: "read_bank_records F v2 rs ?start = Inr raw" "check_banks (bi_channels raw) (bi_banks raw) = Inr banks"
      "check_groups (bi_groups raw) = None" "inp = raw\<lparr>bi_banks := banks\<rparr>"
    using assms by (auto simp: read_banks_def split: sum.splits if_splits option.splits)
  have wf: "bank_input_wf raw" by (rule read_bank_records_wf [OF raw(1)]) (simp add: bank_input_wf_def)
  have "bank_input_wf inp" using wf check_banks_spec(1,2) [OF raw(2)] by (simp add: bank_input_wf_def raw(4))
  moreover have "channels_in_order inp"
    using check_banks_spec(1,3,4) [OF raw(2)] by (simp add: channels_in_order_def raw(4))
  moreover have "groups_complete inp" using check_groups_None [OF raw(3)] by (simp add: groups_complete_def raw(4))
  ultimately show ?thesis by simp
qed

end
