(* ===== verification/Channel_Plan.thy ===== *)
theory Channel_Plan
  imports Channel_Stages
begin

text \<open>
  The two stages together (\<open>solve_bank\<close> and \<open>run\<close> of \<open>src/native/chimew_bank_channel_assigner.cpp\<close>): with prices in
  range, every call of \<open>assign\<close> meets its contract, the groups of a bank always have a legal assignment to its
  channels, and the totals are sums that fit.
\<close>

section \<open>Prices\<close>

definition priced :: "(nat \<times> nat \<Rightarrow> channel_error + int) \<Rightarrow> (nat \<times> nat) list \<Rightarrow> candidate_edge list" where
  "priced price ps = map (\<lambda>(right, left). \<lparr>cand_right = int right, cand_left = int left, cand_cost = projr (price (right, left))\<rparr>) ps"

definition price_ok :: "int \<Rightarrow> channel_error + int \<Rightarrow> bool" where
  "price_ok C r \<longleftrightarrow> (case r of Inl e \<Rightarrow> False | Inr c \<Rightarrow> 0 \<le> c \<and> c \<le> C)"

lemma rank_candidates_priced: "\<forall>p \<in> set ps. price_ok C (price p) \<Longrightarrow> rank_candidates price ps = Inr (priced price ps)"
proof (induction ps)
  case (Cons p ps)
  then show ?case by (cases p; cases "price p") (auto simp: price_ok_def priced_def)
qed (simp add: priced_def)

lemma priced_mem:
  assumes "c \<in> set (priced price ps)"
  obtains right left where "(right, left) \<in> set ps" "c = \<lparr>cand_right = int right, cand_left = int left, cand_cost = projr (price (right, left))\<rparr>"
  using assms by (auto simp: priced_def)

lemma priced_pre:
  assumes price: "\<forall>p \<in> set ps. price_ok C (price p)" and range: "set ps \<subseteq> {..<rights} \<times> {..<lefts}"
    and caps: "length capacities = rights" "\<forall>c \<in> set capacities. 0 \<le> c" and C: "0 \<le> C"
    and size: "int (lefts + 1) * (int (rights + lefts + 2) * C) < flow_infinity"
  shows "assign_pre rights capacities lefts (priced price ps) C"
proof -
  have "candidate_in_range rights lefts c \<and> 0 \<le> cand_cost c \<and> cand_cost c \<le> C" if mem: "c \<in> set (priced price ps)" for c
  proof -
    obtain right left where p: "(right, left) \<in> set ps"
      and c: "c = \<lparr>cand_right = int right, cand_left = int left, cand_cost = projr (price (right, left))\<rparr>"
      using priced_mem [OF mem] by blast
    have "price_ok C (price (right, left))" "right < rights" "left < lefts" using price range p by auto
    then show ?thesis unfolding c by (auto simp: candidate_in_range_def price_ok_def split: sum.splits)
  qed
  then show ?thesis using caps C size by (simp add: assign_pre_def)
qed

section \<open>A legal assignment to the channels of a bank\<close>

definition in_class :: "'d bank_group \<Rightarrow> int \<times> int \<Rightarrow> bool" where
  "in_class g c \<longleftrightarrow> bg_kind g = fst c \<and> (fst c = 0 \<longrightarrow> bg_direction g = snd c)"

definition class_list :: "'d bank_input \<Rightarrow> nat list \<Rightarrow> int \<times> int \<Rightarrow> nat list" where
  "class_list inp groups c = filter (\<lambda>l. in_class (bi_groups inp ! (groups ! l)) c) [0..<length groups]"

text \<open>The groups of a bank in the order of the classes of the channels.\<close>

definition class_order :: "'d bank_input \<Rightarrow> nat list \<Rightarrow> nat \<Rightarrow> nat list" where
  "class_order inp groups priority = class_list inp groups (0, int priority) @ class_list inp groups (0, int (1 - priority)) @
     class_list inp groups (0, 2) @ class_list inp groups (1, - 1)"

lemma class_list_length:
  "length (class_list inp groups c) = length (filter (\<lambda>g. in_class (bi_groups inp ! g) c) groups)"
proof -
  have "filter (\<lambda>g. in_class (bi_groups inp ! g) c) groups = map ((!) groups) (class_list inp groups c)"
    unfolding class_list_def by (subst map_nth [symmetric], subst filter_map) (simp add: comp_def)
  then show ?thesis by simp
qed

lemma direction_count_class: "direction_count inp groups d = length (class_list inp groups (0, int d))"
  by (simp add: class_list_length direction_count_def in_class_def)

lemma class_list_mem: "l \<in> set (class_list inp groups c) \<longleftrightarrow> l < length groups \<and> in_class (bi_groups inp ! (groups ! l)) c"
  by (auto simp: class_list_def)

lemma class_order_class:
  assumes "r < length (class_order inp groups priority)"
  shows "in_class (bi_groups inp ! (groups ! (class_order inp groups priority ! r))) (required_class inp groups priority r)"
proof -
  let ?a = "class_list inp groups (0, int priority)" and ?b = "class_list inp groups (0, int (1 - priority))"
  let ?c = "class_list inp groups (0, 2)" and ?d = "class_list inp groups (1, - 1)"
  have two: "direction_count inp groups 2 = length ?c" using direction_count_class [of inp groups 2] by simp
  have in_nth: "in_class (bi_groups inp ! (groups ! (class_list inp groups k ! i))) k" if "i < length (class_list inp groups k)" for k i
    using that class_list_mem nth_mem by blast
  consider (a) "r < length ?a" | (b) "length ?a \<le> r" "r < length ?a + length ?b"
    | (c) "length ?a + length ?b \<le> r" "r < length ?a + length ?b + length ?c"
    | (d) "length ?a + length ?b + length ?c \<le> r" by linarith
  then show ?thesis
  proof cases
    case a
    then show ?thesis using in_nth [of r "(0, int priority)"]
      by (simp add: class_order_def required_class_def Let_def direction_count_class nth_append)
  next
    case b
    then have "r - length ?a < length ?b" by linarith
    with b show ?thesis using in_nth [of "r - length ?a" "(0, int (1 - priority))"]
      by (simp add: class_order_def required_class_def Let_def direction_count_class nth_append)
  next
    case c
    then have "\<not> r < length ?a" "\<not> r - length ?a < length ?b" "r - length ?a - length ?b < length ?c" by linarith+
    with c show ?thesis using in_nth [of "r - length ?a - length ?b" "(0, 2)"]
      by (simp add: class_order_def required_class_def Let_def direction_count_class two nth_append)
  next
    case d
    have n: "\<not> r < length ?a" "\<not> r - length ?a < length ?b" "\<not> r - length ?a - length ?b < length ?c" using d by linarith+
    have "r - length ?a - length ?b - length ?c < length ?d" using assms n by (simp add: class_order_def)
    with d n show ?thesis using in_nth [of "r - length ?a - length ?b - length ?c" "(1, - 1)"]
      by (simp add: class_order_def required_class_def Let_def direction_count_class two nth_append)
  qed
qed

definition groups_wf :: "'d bank_input \<Rightarrow> nat list \<Rightarrow> bool" where
  "groups_wf inp groups \<longleftrightarrow> (\<forall>g \<in> set groups. group_wf (bi_groups inp ! g))"

lemma class_order_all:
  assumes wf: "groups_wf inp groups" and p: "priority < 2"
  shows "set (class_order inp groups priority) = {..<length groups}" "distinct (class_order inp groups priority)"
    "length (class_order inp groups priority) = length groups"
proof -
  have p01: "priority = 0 \<or> priority = 1" using p by auto
  have "l \<in> set (class_order inp groups priority) \<longleftrightarrow> l < length groups" for l
  proof
    assume l: "l < length groups"
    then have "group_wf (bi_groups inp ! (groups ! l))" using wf by (simp add: groups_wf_def)
    then show "l \<in> set (class_order inp groups priority)"
      using p01 l by (auto simp: class_order_def class_list_mem in_class_def group_wf_def)
  qed (auto simp: class_order_def class_list_mem)
  then show set: "set (class_order inp groups priority) = {..<length groups}" by auto
  have "distinct (class_list inp groups c)" for c by (simp add: class_list_def)
  then show d: "distinct (class_order inp groups priority)"
    using p01 by (auto simp: class_order_def class_list_mem in_class_def)
  show "length (class_order inp groups priority) = length groups" using distinct_card [OF d] set by simp
qed

text \<open>A bank whose groups are all of one direction takes them on any channel.\<close>

lemma dedicated_all:
  assumes wf: "groups_wf inp groups" and d: "0 \<le> dedicated_direction inp groups" and g: "g \<in> set groups"
  shows "bg_kind (bi_groups inp ! g) = 0 \<and> bg_direction (bi_groups inp ! g) = dedicated_direction inp groups"
proof -
  let ?g = "bi_groups inp ! g"
  have w: "group_wf ?g" using wf g by (simp add: groups_wf_def)
  have none: "\<not> (bg_kind ?g = 0 \<and> bg_direction ?g = int k)" if "direction_count inp groups k = 0" for k
    using that g by (auto simp: direction_count_def filter_empty_conv)
  have common: "common_count inp groups = 0 \<Longrightarrow> bg_kind ?g = 0"
    using g by (auto simp: common_count_def filter_empty_conv)
  show ?thesis
    using d w common none [of 0] none [of 1] none [of 2]
    by (auto simp: dedicated_direction_def Let_def group_wf_def split: if_split_asm)
qed

lemma eligible_order:
  assumes wf: "groups_wf inp groups" and p: "priority < 2" and r: "r < length groups"
  shows "eligible inp groups priority (r, class_order inp groups priority ! r)"
proof -
  let ?l = "class_order inp groups priority ! r"
  note order = class_order_all [OF wf p]
  have "?l < length groups" using order r nth_mem [of r "class_order inp groups priority"] by auto
  then have mem: "groups ! ?l \<in> set groups" by simp
  have c: "in_class (bi_groups inp ! (groups ! ?l)) (required_class inp groups priority r)"
    using class_order_class order(3) r by metis
  obtain k d where kd: "required_class inp groups priority r = (k, d)" by (cases "required_class inp groups priority r")
  have "k = 0 \<or> k = 1" using kd by (auto simp: required_class_def Let_def split: if_splits)
  then show ?thesis
    using c dedicated_all [OF wf _ mem] by (auto simp: eligible_def Let_def kd in_class_def)
qed

definition bank_candidates :: "'d fp_round \<Rightarrow> 'd bank_input \<Rightarrow> nat \<Rightarrow> nat list \<Rightarrow> nat \<Rightarrow> candidate_edge list" where
  "bank_candidates F inp bank groups priority = priced (channel_cost F inp bank groups)
     (filter (eligible inp groups priority) (List.product [0..<length (bp_channels (bi_banks inp ! bank))] [0..<length groups]))"

lemma indicator_sum_le: "inj_on f {..<n} \<Longrightarrow> (\<Sum>l \<leftarrow> [0..<n]. if f l = r then 1 else 0 :: int) \<le> 1"
proof -
  assume inj: "inj_on f {..<n}"
  have "(\<Sum>l \<leftarrow> [0..<n]. if f l = r then 1 else 0 :: int) = (\<Sum>l < n. if f l = r then 1 else 0)"
    by (simp add: sum_list_distinct_conv_sum_set atLeast0LessThan)
  also have "\<dots> = int (card ({..<n} \<inter> {l. f l = r}))" by (simp add: sum.If_cases)
  also have "card ({..<n} \<inter> {l. f l = r}) \<le> 1"
    using inj by (auto simp: card_le_Suc0_iff_eq inj_on_def)
  finally show ?thesis by simp
qed

lemma bank_choice:
  assumes wf: "groups_wf inp groups" and p: "priority < 2"
    and room: "length groups \<le> length (bp_channels (bi_banks inp ! bank))"
  shows "\<exists>A. legal_choice (length (bp_channels (bi_banks inp ! bank))) (replicate (length (bp_channels (bi_banks inp ! bank))) 1)
    (length groups) (bank_candidates F inp bank groups priority) A"
proof -
  let ?o = "class_order inp groups priority" and ?n = "length groups" and ?m = "length (bp_channels (bi_banks inp ! bank))"
  note order = class_order_all [OF wf p]
  have "\<forall>l < ?n. \<exists>r. r < ?n \<and> ?o ! r = l" using order by (metis in_set_conv_nth lessThan_iff)
  then obtain f where f: "\<And>l. l < ?n \<Longrightarrow> f l < ?n \<and> ?o ! f l = l" by metis
  have inj: "inj_on f {..<?n}" using f by (metis inj_onI lessThan_iff)
  let ?c = "\<lambda>l. \<lparr>cand_right = int (f l), cand_left = int l, cand_cost = projr (channel_cost F inp bank groups (f l, l))\<rparr>"
  let ?A = "map ?c [0..<?n]"
  have "?c l \<in> set (bank_candidates F inp bank groups priority)" if l: "l < ?n" for l
  proof -
    have "eligible inp groups priority (f l, l)" using eligible_order [OF wf p, of "f l"] f [OF l] by simp
    moreover have "f l < ?m" using f [OF l] room by simp
    ultimately show ?thesis using l unfolding bank_candidates_def priced_def by force
  qed
  moreover have "right_load ?A r \<le> 1" for r
    using indicator_sum_le [OF inj, of r] by (simp add: right_load_def comp_def)
  ultimately have "legal_choice ?m (replicate ?m 1) ?n (bank_candidates F inp bank groups priority) ?A"
    by (simp add: legal_choice_def)
  then show ?thesis by blast
qed

section \<open>One bank\<close>

text \<open>
  The range of the prices: every group has a price at most \<open>C\<close> at the banks of its domain and at the channels of
  these banks, and \<open>M\<close> bounds the numbers of banks and of channels of a bank.
\<close>

definition prices_in_range :: "'d fp_round \<Rightarrow> 'd bank_input \<Rightarrow> int \<Rightarrow> nat \<Rightarrow> bool" where
  "prices_in_range F inp C M \<longleftrightarrow> 0 \<le> C \<and> length (bi_banks inp) \<le> M \<and>
     int (length (bi_groups inp) + 1) * (int (M + length (bi_groups inp) + 2) * C) < flow_infinity \<and>
     (\<forall>b < length (bi_banks inp). length (bp_channels (bi_banks inp ! b)) \<le> M \<and>
        (\<forall>g < length (bi_groups inp). bp_domain (bi_banks inp ! b) = bg_domain (bi_groups inp ! g) \<longrightarrow>
           price_ok C (bank_cost F inp (b, g)) \<and>
           (\<forall>r < length (bp_channels (bi_banks inp ! b)). price_ok C (channel_cost F inp b [g] (r, 0)))))"

lemma size_mono:
  assumes "int (n + 1) * (int (M + n + 2) * C) < flow_infinity" "lefts \<le> n" "rights \<le> M" "0 \<le> C"
  shows "int (lefts + 1) * (int (rights + lefts + 2) * C) < flow_infinity"
proof -
  have "int (lefts + 1) * (int (rights + lefts + 2) * C) \<le> int (n + 1) * (int (M + n + 2) * C)"
    using assms(2-) by (intro mult_mono mult_right_mono mult_nonneg_nonneg) auto
  then show ?thesis using assms(1) by linarith
qed

text \<open>A certified assignment than which no legal choice is cheaper.\<close>

definition optimal_assignment :: "nat \<Rightarrow> int list \<Rightarrow> nat \<Rightarrow> candidate_edge list \<Rightarrow> assignment_result \<Rightarrow> bool" where
  "optimal_assignment rights capacities lefts candidates res \<longleftrightarrow> assignment_ok rights capacities lefts candidates res \<and>
     (\<forall>B. legal_choice rights capacities lefts candidates B \<longrightarrow> total_cost res \<le> choice_cost B)"

lemma assign_returns_optimal:
  assumes pre: "assign_pre rights capacities lefts candidates C"
  shows "\<exists>r. assign rights capacities lefts candidates = Some r \<and> (case r of
      Inr res \<Rightarrow> optimal_assignment rights capacities lefts candidates res
    | Inl e \<Rightarrow> e = No_channel_assignment \<and> \<not> (\<exists>A. legal_choice rights capacities lefts candidates A))"
proof -
  obtain r where r: "assign rights capacities lefts candidates = Some r" "assign_contract rights capacities lefts candidates r"
    using assign_meets_contract [OF pre] by blast
  show ?thesis
  proof (cases r)
    case (Inr res)
    then have "optimal_assignment rights capacities lefts candidates res"
      using r(2) assign_contract_optimal [OF pre] unfolding optimal_assignment_def by (simp add: assign_contract_def)
    then show ?thesis using r(1) Inr by simp
  qed (use r in \<open>simp add: assign_contract_def\<close>)
qed

definition stage_ok :: "'d fp_round \<Rightarrow> 'd bank_input \<Rightarrow> nat \<Rightarrow> nat list \<Rightarrow> nat \<Rightarrow> stage_result \<Rightarrow> bool" where
  "stage_ok F inp bank groups priority st \<longleftrightarrow> st_priority st = priority \<and> st_groups st = groups \<and>
     optimal_assignment (length (bp_channels (bi_banks inp ! bank))) (replicate (length (bp_channels (bi_banks inp ! bank))) 1)
       (length groups) (bank_candidates F inp bank groups priority) (st_assignment st)"

lemma choice_cost_bound:
  assumes pre: "assign_pre rights capacities lefts candidates C" and ok: "assignment_ok rights capacities lefts candidates res"
  shows "0 \<le> total_cost res" "total_cost res \<le> int lefts * C"
proof -
  let ?A = "result_choice lefts res"
  have A: "legal_choice rights capacities lefts candidates ?A" "total_cost res = choice_cost ?A" "length ?A = lefts"
    using ok by (auto simp: assignment_ok_def legal_choice_def)
  have "0 \<le> cand_cost c \<and> cand_cost c \<le> C" if "c \<in> set ?A" for c
    using legal_choice_set [OF A(1) that] assign_preD(4,5) [OF pre] by blast
  then show "0 \<le> total_cost res" "total_cost res \<le> int lefts * C"
    using sum_list_bound [of ?A cand_cost C] A(2,3) by (auto simp: choice_cost_def intro!: sum_list_nonneg)
qed

lemma solve_bank_ok:
  assumes range: "prices_in_range F inp C M" and b: "bank < length (bi_banks inp)"
    and groups: "\<forall>g \<in> set groups. g < length (bi_groups inp) \<and> bp_domain (bi_banks inp ! bank) = bg_domain (bi_groups inp ! g)"
    and wf: "groups_wf inp groups" and p: "priority < 2"
    and room: "length groups \<le> length (bp_channels (bi_banks inp ! bank))" and few: "length groups \<le> length (bi_groups inp)"
  shows "\<exists>st. solve_bank F inp bank groups priority = Some (Inr st) \<and> stage_ok F inp bank groups priority st \<and>
    0 \<le> total_cost (st_assignment st) \<and> total_cost (st_assignment st) \<le> int (length (bi_groups inp)) * C"
proof -
  let ?m = "length (bp_channels (bi_banks inp ! bank))" and ?n = "length groups" and ?price = "channel_cost F inp bank groups"
  let ?ps = "filter (eligible inp groups priority) (List.product [0..<?m] [0..<?n])"
  let ?cs = "bank_candidates F inp bank groups priority"
  have m: "?m \<le> M" and C: "0 \<le> C" using range b by (simp_all add: prices_in_range_def)
  have price: "price_ok C (?price (r, l))" if "r < ?m" "l < ?n" for r l
  proof -
    have "?price (r, l) = channel_cost F inp bank [groups ! l] (r, 0)" by (simp add: channel_cost_def)
    moreover have "groups ! l \<in> set groups" using that by simp
    ultimately show ?thesis using range b groups that(1) by (simp add: prices_in_range_def)
  qed
  then have prices: "\<forall>q \<in> set ?ps. price_ok C (?price q)" by auto
  have size: "int (?n + 1) * (int (?m + ?n + 2) * C) < flow_infinity"
    using range size_mono [OF _ few m C] by (simp add: prices_in_range_def)
  have pre: "assign_pre ?m (replicate ?m 1) ?n ?cs C"
    unfolding bank_candidates_def by (rule priced_pre [OF prices]) (use C size in auto)
  obtain a where a: "assign ?m (replicate ?m 1) ?n ?cs = Some (Inr a)" "optimal_assignment ?m (replicate ?m 1) ?n ?cs a"
  proof -
    obtain r where r: "assign ?m (replicate ?m 1) ?n ?cs = Some r" "case r of Inr res \<Rightarrow> optimal_assignment ?m (replicate ?m 1) ?n ?cs res
        | Inl e \<Rightarrow> e = No_channel_assignment \<and> \<not> (\<exists>A. legal_choice ?m (replicate ?m 1) ?n ?cs A)"
      using assign_returns_optimal [OF pre] by blast
    then show thesis using that bank_choice [OF wf p room, of F] by (cases r) auto
  qed
  have run: "solve_bank F inp bank groups priority = Some (Inr \<lparr>st_priority = priority, st_groups = groups, st_assignment = a\<rparr>)"
    using a(1) rank_candidates_priced [OF prices] by (simp add: solve_bank_def Let_def bank_candidates_def)
  have "int ?n * C \<le> int (length (bi_groups inp)) * C" using few C by (intro mult_right_mono) auto
  then show ?thesis using run a(2) choice_cost_bound [OF pre, of a] by (simp add: stage_ok_def optimal_assignment_def)
qed

section \<open>Both stages\<close>

definition stage1_candidates :: "'d fp_round \<Rightarrow> 'd bank_input \<Rightarrow> candidate_edge list" where
  "stage1_candidates F inp = priced (bank_cost F inp) (bank_pairs inp)"

definition bank_capacities :: "'d bank_input \<Rightarrow> int list" where
  "bank_capacities inp = map (\<lambda>b. int (length (bp_channels b))) (bi_banks inp)"

definition alternative_ok :: "'d fp_round \<Rightarrow> 'd bank_input \<Rightarrow> nat \<Rightarrow> nat list \<Rightarrow> stage_result \<times> stage_result \<times> nat \<times> int \<Rightarrow> bool" where
  "alternative_ok F inp bank groups = (\<lambda>(first, second, priority, selected).
     stage_ok F inp bank groups 0 first \<and> stage_ok F inp bank groups 1 second \<and>
     priority = (if total_cost (st_assignment second) < total_cost (st_assignment first) then 1 else 0) \<and>
     selected = min (total_cost (st_assignment first)) (total_cost (st_assignment second)))"

definition banks_ok :: "'d fp_round \<Rightarrow> 'd bank_input \<Rightarrow> bank_result \<Rightarrow> bool" where
  "banks_ok F inp res \<longleftrightarrow>
     optimal_assignment (length (bi_banks inp)) (bank_capacities inp) (length (bi_groups inp)) (stage1_candidates F inp) (br_stage1 res) \<and>
     br_active res = active_banks inp (br_stage1 res) \<and>
     list_all2 (\<lambda>bank. alternative_ok F inp bank (groups_of_bank inp (br_stage1 res) bank)) (br_active res) (br_alternatives res) \<and>
     br_stage2_total res = (\<Sum>(first, second, priority, selected) \<leftarrow> br_alternatives res. selected)"

lemma stage1_pre:
  assumes "prices_in_range F inp C M"
  shows "assign_pre (length (bi_banks inp)) (bank_capacities inp) (length (bi_groups inp)) (stage1_candidates F inp) C"
    "stage1 F inp = assign (length (bi_banks inp)) (bank_capacities inp) (length (bi_groups inp)) (stage1_candidates F inp)"
proof -
  have prices: "\<forall>p \<in> set (bank_pairs inp). price_ok C (bank_cost F inp p)"
    using assms by (auto simp: prices_in_range_def bank_pairs_def)
  have C: "0 \<le> C" and M: "length (bi_banks inp) \<le> M" using assms by (simp_all add: prices_in_range_def)
  have size: "int (length (bi_groups inp) + 1) * (int (length (bi_banks inp) + length (bi_groups inp) + 2) * C) < flow_infinity"
    using assms size_mono [OF _ order_refl M C] by (simp add: prices_in_range_def)
  show "assign_pre (length (bi_banks inp)) (bank_capacities inp) (length (bi_groups inp)) (stage1_candidates F inp) C"
    unfolding stage1_candidates_def
    by (rule priced_pre [OF prices]) (use C size in \<open>auto simp: bank_pairs_def bank_capacities_def\<close>)
  show "stage1 F inp = assign (length (bi_banks inp)) (bank_capacities inp) (length (bi_groups inp)) (stage1_candidates F inp)"
    by (simp add: stage1_def rank_candidates_priced [OF prices] stage1_candidates_def bank_capacities_def)
qed

text \<open>The groups of a bank are of its domain, and the bank has channels for them.\<close>

lemma groups_of_bank_props:
  assumes ok: "assignment_ok (length (bi_banks inp)) (bank_capacities inp) (length (bi_groups inp)) (stage1_candidates F inp) s1"
    and b: "bank < length (bi_banks inp)"
  shows "\<forall>g \<in> set (groups_of_bank inp s1 bank). g < length (bi_groups inp) \<and> bp_domain (bi_banks inp ! bank) = bg_domain (bi_groups inp ! g)"
    "length (groups_of_bank inp s1 bank) \<le> length (bp_channels (bi_banks inp ! bank))"
    "length (groups_of_bank inp s1 bank) \<le> length (bi_groups inp)"
proof -
  let ?n = "length (bi_groups inp)" and ?A = "result_choice (length (bi_groups inp)) s1"
  have A: "legal_choice (length (bi_banks inp)) (bank_capacities inp) ?n (stage1_candidates F inp) ?A" using ok by (simp add: assignment_ok_def)
  show "\<forall>g \<in> set (groups_of_bank inp s1 bank). g < ?n \<and> bp_domain (bi_banks inp ! bank) = bg_domain (bi_groups inp ! g)"
  proof
    fix g assume "g \<in> set (groups_of_bank inp s1 bank)"
    then have g: "g < ?n" "right_for_left s1 ! g = int bank" by (auto simp: groups_of_bank_def)
    then have "?A ! g \<in> set (stage1_candidates F inp)" using A by (simp add: legal_choice_def)
    then obtain right left where p: "(right, left) \<in> set (bank_pairs inp)"
      "?A ! g = \<lparr>cand_right = int right, cand_left = int left, cand_cost = projr (bank_cost F inp (right, left))\<rparr>"
      using priced_mem unfolding stage1_candidates_def by metis
    have "right = bank" "left = g" using p(2) g by (simp_all add: result_choice_def)
    then show "g < ?n \<and> bp_domain (bi_banks inp ! bank) = bg_domain (bi_groups inp ! g)" using p(1) g(1) by (simp add: bank_pairs_def)
  qed
  have "right_load ?A bank = int (length (groups_of_bank inp s1 bank))"
  proof -
    have "(\<Sum>l \<leftarrow> ls. if right_for_left s1 ! l = int bank then 1 else 0 :: int) = int (length (filter (\<lambda>g. right_for_left s1 ! g = int bank) ls))" for ls
      by (induction ls) auto
    then show ?thesis by (simp add: right_load_def result_choice_def groups_of_bank_def comp_def)
  qed
  moreover have "right_load ?A bank \<le> bank_capacities inp ! bank" using A b by (simp add: legal_choice_def)
  ultimately show "length (groups_of_bank inp s1 bank) \<le> length (bp_channels (bi_banks inp ! bank))"
    using b by (simp add: bank_capacities_def)
  show "length (groups_of_bank inp s1 bank) \<le> ?n" unfolding groups_of_bank_def by (metis diff_zero length_filter_le length_upt)
qed

lemma bank_job_ok:
  assumes wf: "bank_input_wf inp" and range: "prices_in_range F inp C M"
    and ok: "assignment_ok (length (bi_banks inp)) (bank_capacities inp) (length (bi_groups inp)) (stage1_candidates F inp) s1"
    and b: "bank < length (bi_banks inp)"
  shows "\<exists>alt. bank_job F inp s1 bank = Some (Inr alt) \<and> alternative_ok F inp bank (groups_of_bank inp s1 bank) alt \<and>
    (case alt of (first, second, priority, selected) \<Rightarrow> 0 \<le> selected \<and> selected \<le> int (length (bi_groups inp)) * C)"
proof -
  let ?gs = "groups_of_bank inp s1 bank"
  note gs = groups_of_bank_props [OF ok b]
  have gwf: "groups_wf inp ?gs" using gs(1) wf by (auto simp: groups_wf_def bank_input_wf_def)
  obtain first where first: "solve_bank F inp bank ?gs 0 = Some (Inr first)" "stage_ok F inp bank ?gs 0 first"
      "0 \<le> total_cost (st_assignment first)" "total_cost (st_assignment first) \<le> int (length (bi_groups inp)) * C"
    using solve_bank_ok [OF range b gs(1) gwf, of 0] gs(2,3) by auto
  obtain second where second: "solve_bank F inp bank ?gs 1 = Some (Inr second)" "stage_ok F inp bank ?gs 1 second"
      "0 \<le> total_cost (st_assignment second)"
    using solve_bank_ok [OF range b gs(1) gwf, of 1] gs(2,3) by auto
  show ?thesis
    using first second by (simp add: bank_job_def Let_def alternative_ok_def min_def)
qed

lemma sum_selected_Inr:
  "\<forall>c \<in> set cs. 0 \<le> c \<Longrightarrow> 0 \<le> acc \<Longrightarrow> acc + sum_list cs \<le> INT64_MAX \<Longrightarrow> sum_selected cs acc = Inr (acc + sum_list cs)"
proof (induction cs arbitrary: acc)
  case (Cons c cs)
  have rest: "0 \<le> sum_list cs" using Cons.prems(1) by (simp add: sum_list_nonneg)
  have le: "acc + c \<le> INT64_MAX" using Cons.prems(3) rest by simp
  have big: "0 \<le> INT64_MAX" by (simp add: INT64_MAX_def)
  have ok: "int64_ok (INT64_MAX - acc)" "int64_ok (acc + c)" "\<not> c > INT64_MAX - acc"
    using le big Cons.prems(1,2) by (auto simp: int64_ok_def)
  have "sum_selected cs (acc + c) = Inr (acc + c + sum_list cs)" using Cons.prems by (intro Cons.IH) auto
  then show ?case using ok by (simp add: add.assoc)
qed simp

lemma assign_banks_ok:
  assumes wf: "bank_input_wf inp" and range: "prices_in_range F inp C M"
  shows "\<exists>r. assign_banks F inp = Some r \<and> (case r of
      Inr res \<Rightarrow> banks_ok F inp res
    | Inl e \<Rightarrow> e = No_channel_assignment \<and> \<not> (\<exists>A. legal_choice (length (bi_banks inp)) (bank_capacities inp)
        (length (bi_groups inp)) (stage1_candidates F inp) A))"
proof -
  note s1 = assign_returns_optimal [OF stage1_pre(1) [OF range], folded stage1_pre(2) [OF range]]
  then obtain r1 where r1: "stage1 F inp = Some r1" "case r1 of
      Inr res \<Rightarrow> optimal_assignment (length (bi_banks inp)) (bank_capacities inp) (length (bi_groups inp)) (stage1_candidates F inp) res
    | Inl e \<Rightarrow> e = No_channel_assignment \<and> \<not> (\<exists>A. legal_choice (length (bi_banks inp)) (bank_capacities inp)
        (length (bi_groups inp)) (stage1_candidates F inp) A)" by blast
  show ?thesis
  proof (cases r1)
    case (Inl e)
    then show ?thesis using r1 by (simp add: assign_banks_def)
  next
    case (Inr s1)
    let ?active = "active_banks inp s1" and ?n = "length (bi_groups inp)"
    have opt: "optimal_assignment (length (bi_banks inp)) (bank_capacities inp) ?n (stage1_candidates F inp) s1" using r1(2) Inr by simp
    then have ok: "assignment_ok (length (bi_banks inp)) (bank_capacities inp) ?n (stage1_candidates F inp) s1"
      by (simp add: optimal_assignment_def)
    have active: "b < length (bi_banks inp)" if "b \<in> set ?active" for b using that by (simp add: active_banks_def)
    define alt where "alt b = projr (the (bank_job F inp s1 b))" for b
    have alt: "bank_job F inp s1 b = Some (Inr (alt b))" "alternative_ok F inp b (groups_of_bank inp s1 b) (alt b)"
        "case alt b of (first, second, priority, selected) \<Rightarrow> 0 \<le> selected \<and> selected \<le> int ?n * C" if "b \<in> set ?active" for b
      using bank_job_ok [OF wf range ok active [OF that]] by (auto simp: alt_def)
    let ?sel = "\<lambda>(first :: stage_result, second :: stage_result, priority :: nat, selected :: int). selected"
    have jobs: "all_jobs (bank_job F inp s1) ?active = Some (Inr (map alt ?active))" by (rule all_jobs_Inr) (rule alt(1))
    have pos: "\<forall>c \<in> set (map ?sel (map alt ?active)). 0 \<le> c"
      and le: "\<forall>c \<in> set (map ?sel (map alt ?active)). c \<le> int ?n * C" using alt(3) by fastforce+
    have C: "0 \<le> C" and M: "length (bi_banks inp) \<le> M"
      and size: "int (?n + 1) * (int (M + ?n + 2) * C) < flow_infinity" using range by (simp_all add: prices_in_range_def)
    have "length ?active \<le> length (bi_banks inp)" unfolding active_banks_def by (metis diff_zero length_filter_le length_upt)
    then have "int (length ?active) * (int ?n * C) \<le> int (M + ?n + 2) * (int (?n + 1) * C)"
      using M C by (intro mult_mono mult_right_mono) auto
    then have total: "sum_list (map ?sel (map alt ?active)) \<le> INT64_MAX"
      using sum_list_bound [of "map ?sel (map alt ?active)" "\<lambda>x. x" "int ?n * C"] le size by (simp add: flow_infinity_def INT64_MAX_def algebra_simps)
    have "sum_selected (map ?sel (map alt ?active)) 0 = Inr (sum_list (map ?sel (map alt ?active)))"
      using sum_selected_Inr [OF pos, of 0] total by simp
    then have run: "assign_banks F inp = Some (Inr \<lparr>br_stage1 = s1, br_active = ?active, br_alternatives = map alt ?active,
        br_stage2_total = sum_list (map ?sel (map alt ?active))\<rparr>)"
      using r1(1) Inr jobs by (simp add: assign_banks_def)
    have "list_all2 (\<lambda>bank. alternative_ok F inp bank (groups_of_bank inp s1 bank)) ?active (map alt ?active)"
      using alt(2) by (simp add: list_all2_conv_all_nth)
    then show ?thesis using run opt by (simp add: banks_ok_def)
  qed
qed

section \<open>Every schedule of the workers\<close>

lemma assign_banks_Inr:
  assumes "assign_banks F inp = Some (Inr res)"
  shows "all_jobs (bank_job F inp (br_stage1 res)) (br_active res) = Some (Inr (br_alternatives res))" "distinct (br_active res)"
  using assms by (auto simp: assign_banks_def active_banks_def split: bind_split_asm sum.split_asm)

lemma every_schedule:
  assumes run: "assign_banks F inp = Some (Inr res)"
    and count: "bank_worker_count hardware override (length (br_active res)) = Some k"
  shows "\<exists>p. (worker_step (bank_job F inp (br_stage1 res)) (br_active res))\<^sup>*\<^sup>* (pool_start k) p \<and> finished p"
    "(worker_step (bank_job F inp (br_stage1 res)) (br_active res))\<^sup>*\<^sup>* (pool_start k) p \<Longrightarrow> finished p \<Longrightarrow>
      pool_result (br_active res) p = Inr (br_alternatives res)"
    "(worker_step (bank_job F inp (br_stage1 res)) (br_active res) ^^ n) (pool_start k) p \<Longrightarrow> n \<le> 3 * length (br_active res) + k"
proof -
  let ?job = "bank_job F inp (br_stage1 res)" and ?active = "br_active res"
  note jobs = assign_banks_Inr [OF run]
  have fine: "\<exists>r. ?job b = Some (Inr r)" if "b \<in> set ?active" for b
    using that jobs(1) unfolding all_jobs_Inr_iff in_set_conv_nth by metis
  show "\<exists>p. (worker_step ?job ?active)\<^sup>*\<^sup>* (pool_start k) p \<and> finished p"
    by (rule pool_finishes [OF pool_start_ok jobs(2)]) (use fine in force)
  show "pool_result ?active p = Inr (br_alternatives res)"
    if p: "(worker_step ?job ?active)\<^sup>*\<^sup>* (pool_start k) p" "finished p"
  proof (cases "?active = []")
    case True
    then have "pool_threads p = []" using pool_workers [OF p(1)] count by (simp add: bank_worker_count_def pool_start_def)
    then show ?thesis using True jobs(1) by (simp add: pool_result_def)
  next
    case False
    then have "0 < k" using bank_worker_count_pos [OF count] by simp
    from pool_result_jobs [OF p this jobs(2)] show ?thesis
      using jobs(1) fine by (cases "pool_result ?active p") fastforce+
  qed
  show "n \<le> 3 * length ?active + k" if "(worker_step ?job ?active ^^ n) (pool_start k) p"
    using pool_steps_bound [OF that] by (simp add: pool_start_weight)
qed

end
