(* ===== verification/Channel_Placed.thy ===== *)
theory Channel_Placed
  imports Channel_Plan
begin

text \<open>
  What a run of the bank and channel assigner means for the groups, without the candidates of the code: every
  group has a bank of its domain, no bank has more groups than channels, the groups of a bank have different
  channels, and the channels follow the order of the classes of groups (TDM groups of the first direction,
  of the other direction, of both, then common signals). And there is an assignment to banks exactly if the
  groups can be placed at all.
\<close>

section \<open>The first stage\<close>

definition legal_banks :: "'d bank_input \<Rightarrow> (nat \<Rightarrow> nat) \<Rightarrow> bool" where
  "legal_banks inp f \<longleftrightarrow>
     (\<forall>g < length (bi_groups inp). f g < length (bi_banks inp) \<and> bp_domain (bi_banks inp ! f g) = bg_domain (bi_groups inp ! g)) \<and>
     (\<forall>b < length (bi_banks inp). card {g. g < length (bi_groups inp) \<and> f g = b} \<le> length (bp_channels (bi_banks inp ! b)))"

lemma load_card_placed: "right_load (map (\<lambda>g. c g) [0..<n]) r = int (card {g. g < n \<and> cand_right (c g) = int r})"
proof -
  have "right_load (map c [0..<n]) r = (\<Sum>g < n. if cand_right (c g) = int r then 1 else 0)"
    by (simp add: right_load_def comp_def sum_list_distinct_conv_sum_set atLeast0LessThan)
  also have "\<dots> = int (card ({..<n} \<inter> {g. cand_right (c g) = int r}))" by (simp add: sum.If_cases)
  also have "{..<n} \<inter> {g. cand_right (c g) = int r} = {g. g < n \<and> cand_right (c g) = int r}" by auto
  finally show ?thesis .
qed

lemma stage1_candidates_mem:
  "c \<in> set (stage1_candidates F inp) \<longleftrightarrow> (\<exists>b < length (bi_banks inp). \<exists>g < length (bi_groups inp).
     bp_domain (bi_banks inp ! b) = bg_domain (bi_groups inp ! g) \<and>
     c = \<lparr>cand_right = int b, cand_left = int g, cand_cost = projr (bank_cost F inp (b, g))\<rparr>)"
  by (force simp: stage1_candidates_def priced_def bank_pairs_def)

lemma legal_choice_banks:
  assumes A: "legal_choice (length (bi_banks inp)) (bank_capacities inp) (length (bi_groups inp)) (stage1_candidates F inp) A"
  shows "legal_banks inp (\<lambda>g. nat (cand_right (A ! g)))"
proof -
  let ?n = "length (bi_groups inp)"
  have len: "length A = ?n" using A by (simp add: legal_choice_def)
  have mem: "\<exists>b < length (bi_banks inp). bp_domain (bi_banks inp ! b) = bg_domain (bi_groups inp ! g) \<and> cand_right (A ! g) = int b"
    if g: "g < ?n" for g
  proof -
    have "A ! g \<in> set (stage1_candidates F inp)" "cand_left (A ! g) = int g" using A g by (auto simp: legal_choice_def)
    then show ?thesis unfolding stage1_candidates_mem by auto
  qed
  have load: "card {g. g < ?n \<and> nat (cand_right (A ! g)) = b} \<le> length (bp_channels (bi_banks inp ! b))" if b: "b < length (bi_banks inp)" for b
  proof -
    have "right_load A b = int (card {g. g < ?n \<and> cand_right (A ! g) = int b})"
      using load_card_placed [of "(!) A" ?n b] len by (metis map_nth)
    moreover have "{g. g < ?n \<and> cand_right (A ! g) = int b} = {g. g < ?n \<and> nat (cand_right (A ! g)) = b}" using mem by fastforce
    moreover have "right_load A b \<le> int (length (bp_channels (bi_banks inp ! b)))"
      using A b by (simp add: legal_choice_def bank_capacities_def)
    ultimately show ?thesis by simp
  qed
  show ?thesis unfolding legal_banks_def using mem load by fastforce
qed

lemma legal_banks_choice:
  assumes f: "legal_banks inp f"
  shows "\<exists>A. legal_choice (length (bi_banks inp)) (bank_capacities inp) (length (bi_groups inp)) (stage1_candidates F inp) A"
proof -
  let ?c = "\<lambda>g. \<lparr>cand_right = int (f g), cand_left = int g, cand_cost = projr (bank_cost F inp (f g, g))\<rparr>"
  let ?A = "map ?c [0..<length (bi_groups inp)]"
  have "?c g \<in> set (stage1_candidates F inp)" if "g < length (bi_groups inp)" for g
    using f that unfolding stage1_candidates_mem legal_banks_def by blast
  then have "legal_choice (length (bi_banks inp)) (bank_capacities inp) (length (bi_groups inp)) (stage1_candidates F inp) ?A"
    using f by (simp add: legal_choice_def load_card_placed bank_capacities_def legal_banks_def)
  then show ?thesis by blast
qed

section \<open>The second stage\<close>

definition class_rank :: "'d bank_input \<Rightarrow> nat \<Rightarrow> nat \<Rightarrow> nat" where
  "class_rank inp priority g =
    (if bg_kind (bi_groups inp ! g) = 1 then 3
     else if bg_direction (bi_groups inp ! g) = int priority then 0
     else if bg_direction (bi_groups inp ! g) = 1 - int priority then 1 else 2)"

definition legal_channels :: "'d bank_input \<Rightarrow> nat \<Rightarrow> nat list \<Rightarrow> nat \<Rightarrow> stage_result \<Rightarrow> bool" where
  "legal_channels inp bank groups priority st \<longleftrightarrow>
    (let rs = right_for_left (st_assignment st) in length rs = length groups \<and> distinct rs \<and>
       (\<forall>l < length groups. 0 \<le> rs ! l \<and> rs ! l < int (length (bp_channels (bi_banks inp ! bank)))) \<and>
       (\<forall>k < length groups. \<forall>l < length groups.
          class_rank inp priority (groups ! k) < class_rank inp priority (groups ! l) \<longrightarrow> rs ! k < rs ! l))"

lemma right_load_mem: "c \<in> set A \<Longrightarrow> cand_right c = int r \<Longrightarrow> 1 \<le> right_load A r"
  by (induction A) auto

lemma unit_loads_distinct:
  assumes "\<forall>c \<in> set A. \<exists>r < m. cand_right c = int r" "\<forall>r < m. right_load A r \<le> 1"
  shows "distinct (map cand_right A)"
  using assms
proof (induction A)
  case (Cons c A)
  obtain r where r: "r < m" "cand_right c = int r" using Cons.prems(1) by auto
  have less: "right_load A k \<le> 1" if "k < m" for k
  proof -
    have "right_load A k \<le> right_load (c # A) k" by simp
    then show ?thesis using Cons.prems(2) that by (meson order_trans)
  qed
  have "cand_right c \<notin> cand_right ` set A"
  proof
    assume "cand_right c \<in> cand_right ` set A"
    then have "1 \<le> right_load A r" using right_load_mem r(2) by fastforce
    then show False using Cons.prems(2) r by fastforce
  qed
  then show ?case using Cons less by simp
qed simp

definition channel_rank :: "'d bank_input \<Rightarrow> nat list \<Rightarrow> nat \<Rightarrow> nat \<Rightarrow> nat" where
  "channel_rank inp groups priority r =
    (let count = direction_count inp groups in
     if r < count priority then 0 else if r < count priority + count (1 - priority) then 1
     else if r < count priority + count (1 - priority) + count 2 then 2 else 3)"

lemma channel_rank_mono: "r \<le> s \<Longrightarrow> channel_rank inp groups priority r \<le> channel_rank inp groups priority s"
  by (simp add: channel_rank_def Let_def)

lemma eligible_rank:
  assumes "eligible inp groups priority (r, l)" "\<not> 0 \<le> dedicated_direction inp groups" "priority < 2" "group_wf (bi_groups inp ! (groups ! l))"
  shows "channel_rank inp groups priority r = class_rank inp priority (groups ! l)"
proof -
  have p: "priority = 0 \<or> priority = 1" using assms(3) by auto
  show ?thesis
    using assms(1,2,4) p
    by (auto simp: eligible_def required_class_def channel_rank_def class_rank_def group_wf_def Let_def split: if_splits)
qed

lemma stage_legal:
  assumes ok: "stage_ok F inp bank groups priority st" and wf: "groups_wf inp groups" and p: "priority < 2"
  shows "legal_channels inp bank groups priority st"
proof -
  let ?m = "length (bp_channels (bi_banks inp ! bank))" and ?n = "length groups" and ?a = "st_assignment st"
  let ?A = "result_choice ?n ?a"
  have len: "length (right_for_left ?a) = ?n"
    and A: "legal_choice ?m (replicate ?m 1) ?n (bank_candidates F inp bank groups priority) ?A"
    using ok by (auto simp: stage_ok_def optimal_assignment_def assignment_ok_def)
  have nth: "cand_right (?A ! l) = right_for_left ?a ! l" if "l < ?n" for l using that by (simp add: result_choice_def)
  have mem: "\<exists>r < ?m. right_for_left ?a ! l = int r \<and> eligible inp groups priority (r, l)" if l: "l < ?n" for l
  proof -
    have "?A ! l \<in> set (bank_candidates F inp bank groups priority)" "cand_left (?A ! l) = int l" using A l by (auto simp: legal_choice_def)
    then show ?thesis using nth [OF l] by (force simp: bank_candidates_def priced_def)
  qed
  have rights: "map cand_right ?A = right_for_left ?a" using map_nth [of "right_for_left ?a"] len by (simp add: result_choice_def comp_def)
  have "\<exists>r < ?m. cand_right c = int r" if "c \<in> set ?A" for c
    using that mem by (fastforce simp: result_choice_def)
  moreover have "\<forall>r < ?m. right_load ?A r \<le> 1" using A by (simp add: legal_choice_def)
  ultimately have dist: "distinct (right_for_left ?a)" using unit_loads_distinct [of ?A ?m] rights by metis
  have order: "right_for_left ?a ! k < right_for_left ?a ! l"
    if kl: "k < ?n" "l < ?n" and less: "class_rank inp priority (groups ! k) < class_rank inp priority (groups ! l)" for k l
  proof (cases "0 \<le> dedicated_direction inp groups")
    case True
    then have "class_rank inp priority (groups ! k) = class_rank inp priority (groups ! l)"
      using dedicated_all [OF wf True] kl by (simp add: class_rank_def)
    then show ?thesis using less by simp
  next
    case False
    obtain r s where rs: "right_for_left ?a ! k = int r" "eligible inp groups priority (r, k)"
      "right_for_left ?a ! l = int s" "eligible inp groups priority (s, l)" using mem kl by meson
    have "group_wf (bi_groups inp ! (groups ! i))" if "i < ?n" for i using wf that by (simp add: groups_wf_def)
    then have "channel_rank inp groups priority r < channel_rank inp groups priority s"
      using eligible_rank [OF rs(2) False p] eligible_rank [OF rs(4) False p] kl less by simp
    then have "\<not> s \<le> r" using channel_rank_mono [of s r] by (metis leD)
    then show ?thesis using rs by simp
  qed
  have "0 \<le> right_for_left ?a ! l \<and> right_for_left ?a ! l < int ?m" if "l < ?n" for l using mem [OF that] by auto
  then show ?thesis unfolding legal_channels_def Let_def using len dist order by blast
qed

section \<open>The whole run\<close>

definition plan_legal :: "'d bank_input \<Rightarrow> bank_result \<Rightarrow> bool" where
  "plan_legal inp res \<longleftrightarrow> legal_banks inp (\<lambda>g. nat (right_for_left (br_stage1 res) ! g)) \<and>
     list_all2 (\<lambda>bank (first, second, priority, selected).
         legal_channels inp bank (groups_of_bank inp (br_stage1 res) bank) 0 first \<and>
         legal_channels inp bank (groups_of_bank inp (br_stage1 res) bank) 1 second)
       (br_active res) (br_alternatives res)"

lemma banks_ok_legal:
  assumes wf: "bank_input_wf inp" and ok: "banks_ok F inp res"
  shows "plan_legal inp res"
proof -
  let ?n = "length (bi_groups inp)" and ?s1 = "br_stage1 res"
  have s1: "assignment_ok (length (bi_banks inp)) (bank_capacities inp) ?n (stage1_candidates F inp) ?s1"
    and act: "br_active res = active_banks inp ?s1"
    and alts: "list_all2 (\<lambda>bank. alternative_ok F inp bank (groups_of_bank inp ?s1 bank)) (br_active res) (br_alternatives res)"
    using ok unfolding banks_ok_def optimal_assignment_def by blast+
  have A: "legal_choice (length (bi_banks inp)) (bank_capacities inp) ?n (stage1_candidates F inp) (result_choice ?n ?s1)"
    using s1 by (simp add: assignment_ok_def)
  have "cand_right (result_choice ?n ?s1 ! g) = right_for_left ?s1 ! g" if "g < ?n" for g using that by (simp add: result_choice_def)
  moreover have "legal_banks inp f \<longleftrightarrow> legal_banks inp h" if "\<And>g. g < ?n \<Longrightarrow> f g = h g" for f h
    using that by (simp add: legal_banks_def cong: conj_cong)
  ultimately have "legal_banks inp (\<lambda>g. nat (right_for_left ?s1 ! g))" using legal_choice_banks [OF A] by metis
  moreover have "groups_wf inp (groups_of_bank inp ?s1 bank)" for bank
    using wf by (auto simp: groups_wf_def bank_input_wf_def groups_of_bank_def)
  ultimately show ?thesis
    unfolding plan_legal_def
    by (auto intro!: list_all2_mono [OF alts] intro: stage_legal simp: alternative_ok_def)
qed

lemma assign_banks_legal:
  assumes wf: "bank_input_wf inp" and range: "prices_in_range F inp C M"
  shows "\<exists>r. assign_banks F inp = Some r \<and> (case r of
      Inr res \<Rightarrow> banks_ok F inp res \<and> plan_legal inp res
    | Inl e \<Rightarrow> e = No_channel_assignment \<and> \<not> (\<exists>f. legal_banks inp f))"
proof -
  obtain r where r: "assign_banks F inp = Some r" "case r of
      Inr res \<Rightarrow> banks_ok F inp res
    | Inl e \<Rightarrow> e = No_channel_assignment \<and> \<not> (\<exists>A. legal_choice (length (bi_banks inp)) (bank_capacities inp)
        (length (bi_groups inp)) (stage1_candidates F inp) A)"
    using assign_banks_ok [OF assms] by blast
  then show ?thesis using banks_ok_legal [OF wf] legal_banks_choice by (cases r) (auto, blast+)
qed

end
