(* ===== verification/Spec2Isabelle.thy ===== *)
theory Spec2Isabelle
  imports Kit_Permute Kit_FactorProofs Tdm_Sinks Chimew_Spread Chimew_Compose Bsp_Assign Route_Legal Mfs_Legal
    Channel_Certificate Channel_Placed Complex_Main
begin

text \<open>
  Verification development for EmuFlow, a flow that emulates a large design on several FPGAs.

  \<^bold>\<open>The program.\<close> The repository has a Python control plane (\<open>src/src/emuflow\<close>), EmuFlow's own native
  kernels, one C++ program per optimization step (\<open>src/src/native\<close>), and vendored engines
  (\<open>src/engines\<close>: Yosys with ABC, OpenROAD, OpenSTA, VTR, OpenPARF, RePart, CUDD, Cap'n Proto). The control
  plane writes the input of a kernel to a text file, runs the kernel and reads its output. The modelled parts
  are seven of the kernels and the computation kit of ABC (\<open>src/engines/yosys/abc/src/bool/kit\<close>), the Boolean
  core of logic synthesis. The kernels are, in the order of the flow: the legalizer of the partition, the
  signal grouper and the position refiner, which choose the signals that share a lane, the slot optimizer,
  which schedules the lanes, the bank and channel assigner and the package-pin solver, which bind groups to
  channels and signals to pins, and the checker of a finished routing. Grouper and refiner are composed in
  \<open>Chimew_Compose\<close>, as the control plane composes them.

  \<^bold>\<open>Conventions.\<close> A model starts from the parsed records of the input and ends with the values the printer
  writes. A C++ \<open>int\<close> or \<open>int64_t\<close> is an \<^typ>\<open>int\<close> with the bounds checked where a sum may leave them; such a
  sum, an access outside a vector and the like are an explicit outcome (\<open>Undefined\<close>, \<open>Part_overflow\<close>,
  \<open>Channel_undefined\<close>). A loop without a bound is a partial function into an option or has an explicit fuel, and
  is proved to end. Doubles are a parameter: a type with the operations of the record \<open>fp\<close>. Most theorems
  assume nothing of them and so hold for IEEE arithmetic; where a theorem needs more, its statement says so
  (\<open>exact_numbers\<close>; \<open>grid_exact\<close>, which holds for doubles on a grid). Bounds on the numbers of an input that a
  kernel needs and does not check are hypotheses with names: \<open>in_range\<close>, \<open>search_fits\<close>, \<open>costs_in_range\<close>,
  \<open>assign_pre\<close>, \<open>prices_in_range\<close>, \<open>part_numbers_ok\<close>; examples at the end of the sections show what happens
  outside some of them.

  \<^bold>\<open>Slot optimizer\<close> (\<open>tdm_slot_optimizer.cpp\<close>). Every hop of a route has a lane; a lane carries one hop per
  time slot of a frame. \<open>Tdm_Occupancy\<close>: the open-addressed table of occupied cells that \<open>build_schedule\<close>
  keeps (\<open>occupancy_index\<close>, \<open>is_occupied\<close>, \<open>occupy\<close>), the interface \<open>cell_table\<close> its client relies on, and
  the proof that the table provides it while a cell is free; the table has at least twice as many cells as
  there are hops. \<open>Tdm_Slot\<close>: the records, the checks of \<open>read_model\<close> (\<open>check_model\<close>), the list scheduler
  (\<open>schedule_hop\<close> is the body of its inner loop, \<open>run_round\<close> the loop over the queue, \<open>build_round\<close> the body
  of the loop over the rounds, \<open>build_schedule\<close> the function), the timing metrics (\<open>finish_schedule\<close>), the
  order on schedules (\<open>better\<close>) and the local search (\<open>optimize\<close>) with its counters, which are checked to be
  values of an \<open>int\<close>. \<open>Tdm_SlotProofs\<close>: accepted inputs are well-formed (\<open>model_wf\<close>), and the invariant of a
  partial schedule (\<open>slots_inv\<close>). \<open>Tdm_Rounds\<close>: a round ends and places exactly its hops, complete schedules
  are feasible, and \<open>in_range\<close> (numbers at most \<open>2 ^ 29\<close>, sinks that exist) excludes undefined behaviour.
  \<open>Tdm_Search\<close>: rearranged priorities, neighborhoods, the counters (\<open>search_fits\<close>), and the search only moves
  between feasible schedules, each better than the last. \<open>Tdm_Sinks\<close>: what a sink that names no hop does,
  which the reader does not reject. The keys of the table are \<open>64 word\<close>s, with the wrap-around of the code.

  \<^bold>\<open>Signal grouper and position refiner\<close> (\<open>chimew_signal_grouper.cpp\<close>, \<open>chimew_position_refiner.cpp\<close>).
  \<open>Chimew_Grouper\<close>: the checks on signals, the map of queues by encoding, the inner loop that fills a group
  (\<open>grow\<close>), the outer loop (\<open>group_loop\<close>, a partial function that is proved to end), the numbering of all
  groups (\<open>run\<close>). \<open>Chimew_GrouperProofs\<close>: groups are a partition, respect ratio and slots, are packed greedily,
  and the reported metric is exact. \<open>Chimew_Refiner\<close>: the exchange of groups inside a bucket, with the revision
  when the objective grows. \<open>Chimew_Exchange\<close>: what an exchange keeps, for any arithmetic. \<open>Chimew_Spread\<close>: the
  running sums of the objective are exact on a grid. \<open>Chimew_Compose\<close>: the refined groups keep the guarantees of
  the grouper.

  \<^bold>\<open>Package-pin solver\<close> (\<open>bsp_pin_solver.cpp\<close>). \<open>Native_Numbers\<close>: the operations on numbers the kernels share.
  \<open>Bsp_Flow\<close>: the reader, the residual network (\<open>add_edge\<close>), the label-correcting search (\<open>shortest_paths\<close>), the
  augmentation and the outer loop (\<open>solve\<close>), the binding (\<open>pin_solver\<close>). \<open>Bsp_Search\<close>: with a feasible potential the
  search ends with the costs of cheapest walks. \<open>Bsp_Augment\<close>: an augmentation keeps the pairing of edges and a
  potential and moves one unit. \<open>Bsp_Network\<close> and \<open>Bsp_Assign\<close>: the network of an input, its flows as assignments,
  optimality and denial. The sentinel for unreached nodes is a quarter of the 64-bit range; \<open>costs_in_range\<close>
  keeps labels below it, and \<open>sentinel_cost\<close> shows that the solver errs without that bound.

  \<^bold>\<open>Bank and channel assigner\<close> (\<open>chimew_bank_channel_assigner.cpp\<close>). \<open>Channel_Flow\<close>: its search and augmentation
  on the same networks, and the search for a certificate. \<open>Channel_Exact\<close>: sums of 64-bit numbers with two
  limbs. \<open>Channel_Assign\<close>: the function \<open>assign\<close> with its three ways. \<open>Channel_Bank\<close>: the reader, the prices,
  \<open>solve_bank\<close> and both stages (\<open>run_banks\<close>). \<open>Channel_Workers\<close>: the pool of threads as a step relation, in which
  any thread may make the next step. \<open>Flow_Arcs\<close> and \<open>Flow_Layers\<close>: networks as lists of arcs, what a flow
  carries, and networks of three layers. \<open>Channel_Search\<close> and \<open>Channel_Certificate\<close>: both searches are exact.
  \<open>Channel_Choice\<close>: the contract of \<open>assign\<close>, and that certified choices are cheapest; \<open>Channel_Links\<close>,
  \<open>Channel_Full\<close>, \<open>Channel_Rows\<close>, \<open>Channel_Compressed\<close>, \<open>Channel_Expand\<close>, \<open>Channel_Contract\<close>: each way keeps it.
  \<open>Channel_Stages\<close>: what the reader establishes. \<open>Channel_Plan\<close> and \<open>Channel_Placed\<close>: both stages, every schedule
  of the threads, and what the result means for groups, banks and channels.

  \<^bold>\<open>Route checker\<close> (\<open>vpr_route_checker.cpp\<close>). \<open>Route_Check\<close>: the reader of the routing-resource graph and the
  checker of a route file as a state machine over classified lines, with all counters. \<open>Route_Legal\<close>:
  acceptance is legality of the net blocks, and the counters are those of the blocks.

  \<^bold>\<open>Partition legalizer\<close> (\<open>mfspart_legalizer.cpp\<close>). \<open>Mfs_Legalizer\<close>: the reader, the tables of loads, counts and
  parts per net, the cost of a move, the choice of the cheapest and the loop. The other \<open>Mfs\<close> theories: the tables
  describe the assignment, the deltas are differences of the objectives, the loop ends after one move per
  missing part, and its moves are greedy steps. An assignment whose loads do not fit 64 bits overflows before
  it can be rejected, which is the outcome \<open>Part_overflow\<close>.

  \<^bold>\<open>Truth tables\<close> (\<open>kitTruth.c\<close>, \<open>kit.h\<close>). \<open>Kit_Prelude\<close> has the loop combinators for C loops and the lemmas
  on lists and bits that all components share; \<open>Kit_Bits\<close> the meaning of a table (\<open>tt_bit\<close>, \<open>tt_fun\<close>);
  \<open>Kit_Word\<close> the inline operations of \<open>kit.h\<close>; \<open>Kit_Var\<close> the contract of the loops over pairs of words (locale
  \<open>pair_loop\<close>, interpreted for each operation); \<open>Kit_Truth\<close> cofactors, quantifiers, multiplexers, phases;
  \<open>Kit_Support\<close> support, sets of variables, symmetries, the best cofactoring variable; \<open>Kit_Swap\<close> and
  \<open>Kit_Permute\<close> swaps, stretching, shrinking and permutation; \<open>Kit_Count\<close> counting. Each operation is proved
  to do at every minterm what its name says, for every number of variables unless the code bounds it.

  \<^bold>\<open>Sums of products\<close> (\<open>kitIsop.c\<close>). \<open>Kit_Cover\<close> states what an irredundant sum of products is; \<open>Kit_Isop\<close> models
  the two recursive procedures and the entry points with the fill level of the memory manager, and proves
  that they return exact irredundant covers and, up to eleven variables, do not run out of memory. The tables
  the assertions compare are those of the returned covers (\<open>Isop_assertion\<close>).

  \<^bold>\<open>Factored forms\<close> (\<open>kitGraph.c\<close>, \<open>kitSop.c\<close>, \<open>kitFactor.c\<close>). \<open>Kit_Graph\<close>: AND graphs with complemented edges,
  their functions and their evaluation; \<open>Kit_Sop\<close>: algebraic division, common cubes, choice of literals,
  level-zero kernels; \<open>Kit_Factor\<close>: factoring with fuel and the path from tables to graphs; \<open>Kit_FactorProofs\<close>:
  the graph computes the table, and it has at most the literals of the cover. The assertions of the division
  and of the factoring are modelled: a violated one is \<open>None\<close>, as is memory that runs out. The recursion of the
  factoring is given twice as much fuel as the cover has literals, plus one: the two functions call each other
  on the same cover at most once before they reach covers with fewer literals, so this is enough, and
  \<open>factored_form_returns\<close> proves it.

  \<^bold>\<open>Properties.\<close> The theorems named C1 to C40 below state what holds of the whole: safety, termination and
  optimality of the kernels, correctness of the synthesis path from table to factored form and of its parts.
  Each one with a hypothesis has a witness at a concrete input. Theorems without a number are further results
  and examples of inputs the code treats wrongly.

  \<^bold>\<open>Not modelled.\<close> The text parsers and printers of the kernels; the regular expressions that classify the lines of
  a route file; hashing, semi-canonical forms, minterm tables and printing of \<open>kitTruth.c\<close>; decomposition, BDD
  and AIG clients of the kit; the other kernels, which are separate programs with mostly floating-point
  objectives; the Python control plane; the vendored engines apart from the kit, which are third-party systems.
\<close>

section \<open>The TDM slot optimizer\<close>

text \<open>A small input, with integers for the doubles: four hops on two lanes in two rounds. The argument is the hop of the first sink.\<close>

definition integer_fp :: "int fp" where
  "integer_fp = \<lparr>fp_of_int = id, fp_add = (+), fp_sub = (-), fp_mul = (*), fp_div = (div), fp_lt = (<), fp_le = (\<le>),
     fp_isfinite = (\<lambda>_. True), fp_infinity = 1000000, fp_epsilon = 0\<rparr>"

definition demo_hop :: "int \<Rightarrow> int \<Rightarrow> int \<Rightarrow> int \<Rightarrow> int hop" where
  "demo_hop index rnd lane priority = \<lparr>h_index = index, h_round = rnd, h_domain = 5, h_lane = lane, h_ratio = 4, h_latency = 1,
     h_release = 0, h_priority = priority, h_base_ns = 1, h_beta_ns = 1, h_slot_period_ns = 2, h_ratio_delay_model = False,
     h_lane_resource = -1\<rparr>"

definition demo_input :: "int \<Rightarrow> int model" where
  "demo_input hop = \<lparr>m_frame_slots = 32, m_runtime_barrier_slots = 1, m_settle_slots = 1, m_max_iterations = 4,
     m_planned_round_one_ready = -1, m_positive_scale_ns = 1, m_negative_scale_ns = 1, m_maximum_period_ns = 100,
     m_hops = [demo_hop 1 0 7 1, demo_hop 0 0 7 0, demo_hop 2 0 9 2, demo_hop 3 1 7 3],
     m_dependencies = [\<lparr>d_parent = 1, d_child = 2, d_delay = 2\<rparr>],
     m_sinks = [\<lparr>s_route = 0, s_round = 0, s_hop = hop\<rparr>, \<lparr>s_route = 1, s_round = 1, s_hop = 3\<rparr>],
     m_paths = [\<lparr>p_index = 0, p_period_ns = 100, p_required_time_ns = 10, p_fixed_ns = 1, p_hops = [1, 2]\<rparr>],
     m_lane_resource_count = 0\<rparr>"

definition demo_model :: "int model" where
  "demo_model = projr (check_model integer_fp True (demo_input 2))"

lemma demo_checked: "check_model integer_fp True (demo_input 2) = Inr demo_model"
  unfolding demo_model_def by code_simp

lemma demo_in_range: "in_range demo_model"
  by code_simp

lemma demo_fits: "fits demo_model"
  by (rule in_range_fits [OF demo_in_range])

lemma demo_scheduled: "build_schedule integer_fp demo_model [0, 1, 2, 3] = Inr (projr (build_schedule integer_fp demo_model [0, 1, 2, 3]))"
  by code_simp

text \<open>
  C1. Every schedule that \<open>build_schedule\<close> returns for an accepted input is feasible, whatever the
  priorities: each hop starts after its round, its release slot and the arrivals of its parents, within its
  ratio and before the barrier of the frame; no two hops use the same lane of a domain in the same slot;
  and each round starts \<open>settle_slots\<close> after the sinks of the earlier rounds. The only bounds are that frame
  length and number of hops are values of an \<open>int\<close>.
\<close>

theorem schedule_feasible:
  assumes "check_model F have_parameters raw = Inr model" and "fits model" and "build_schedule F model priority = Inr s"
  shows "feasible model s"
  by (rule build_schedule_sound [OF check_model_wf [OF assms(1)] assms(2,3)])

theorem schedule_feasible_witness:
  "feasible demo_model (projr (build_schedule integer_fp demo_model [0, 1, 2, 3]))"
  by (rule schedule_feasible [OF demo_checked demo_fits demo_scheduled])

text \<open>
  C2. For an accepted input whose numbers are at most \<open>2 ^ 29\<close> and whose sinks name existing hops and
  routes, \<open>build_schedule\<close> ends with a feasible schedule or reports that there is none: no loop runs
  forever (neither the probing of the occupancy table nor the queue), no index is out of range and no sum
  overflows an \<open>int\<close>.
\<close>

theorem schedule_returns:
  assumes "check_model F have_parameters raw = Inr model" and "in_range model"
  shows "build_schedule F model priority = Inl Infeasible \<or> (\<exists>s. build_schedule F model priority = Inr s \<and> feasible model s)"
proof (cases "build_schedule F model priority")
  case (Inl e)
  then show ?thesis using build_schedule_defined [OF check_model_wf [OF assms(1)] assms(2), of F priority] by (cases e) auto
next
  case (Inr s)
  then show ?thesis using build_schedule_sound [OF check_model_wf [OF assms(1)] in_range_fits [OF assms(2)]] by blast
qed

theorem schedule_returns_witness:
  "build_schedule integer_fp demo_model [3, 1, 2, 0] = Inl Infeasible \<or>
    (\<exists>s. build_schedule integer_fp demo_model [3, 1, 2, 0] = Inr s \<and> feasible demo_model s)"
  by (rule schedule_returns [OF demo_checked demo_in_range])

lemma demo_search_fits: "search_fits demo_model"
proof -
  have "m_max_iterations demo_model \<le> 100" and "list_all (\<lambda>path. length (p_hops path) \<le> 10) (m_paths demo_model)" by code_simp+
  then show ?thesis
    unfolding search_fits_def list_all_iff
    by (auto intro!: order_trans [OF mult_le_mono [of "nat (m_max_iterations demo_model)" 100 _ "25 * 10"]])
qed

text \<open>
  C3. For an accepted input whose numbers are at most \<open>2 ^ 29\<close> and whose sinks name existing hops and routes
  (\<open>in_range\<close>), and whose paths are short enough for the counters of the search to stay in an \<open>int\<close>
  (\<open>search_fits\<close>: 25 times the hops of a path times the limit of iterations), the optimizer behaves as
  follows. It returns a feasible schedule if the initial list schedule exists, and fails with its error message
  otherwise; nothing is undefined and no counter overflows. The result is built by the list scheduler from a
  rearrangement of the given priorities, it is the initial schedule or reached from it by a chain of schedules
  each better than the one before, and the search respects the limit of iterations.
\<close>

theorem optimizer_improves:
  assumes "check_model F have_parameters raw = Inr model" and "in_range model" and "search_fits model"
  shows "case build_schedule F model (map h_priority (m_hops model)) of
      Inl e \<Rightarrow> optimize F model = Some (Inl ''initial list schedule is infeasible'')
    | Inr s \<Rightarrow> \<exists>res priority. optimize F model = Some (Inr res) \<and> feasible model (o_schedule res) \<and>
        (improves F)\<^sup>*\<^sup>* s (o_schedule res) \<and> mset priority = mset (map h_priority (m_hops model)) \<and>
        build_schedule F model priority = Inr (o_schedule res) \<and> int (o_iterations res) \<le> m_max_iterations model \<and>
        o_accepted_moves res \<le> o_iterations res"
  by (rule optimize_sound [OF check_model_wf [OF assms(1)] assms(2,3)])

theorem optimizer_improves_witness:
  "\<exists>s res. build_schedule integer_fp demo_model (map h_priority (m_hops demo_model)) = Inr s \<and>
    optimize integer_fp demo_model = Some (Inr res) \<and> feasible demo_model (o_schedule res) \<and>
    (improves integer_fp)\<^sup>*\<^sup>* s (o_schedule res) \<and> o_accepted_moves res \<le> o_iterations res"
proof -
  obtain s where s: "build_schedule integer_fp demo_model (map h_priority (m_hops demo_model)) = Inr s"
  proof
    show "build_schedule integer_fp demo_model (map h_priority (m_hops demo_model)) =
        Inr (projr (build_schedule integer_fp demo_model (map h_priority (m_hops demo_model))))" by code_simp
  qed
  from optimizer_improves [OF demo_checked demo_in_range demo_search_fits] show ?thesis unfolding s sum.case by blast
qed

text \<open>
  C26. The list scheduler wastes no slot: between the moment a hop is ready and the slot it gets, every slot
  of its lane is taken by another hop.
\<close>

theorem schedule_earliest:
  assumes "check_model F have_parameters raw = Inr model" and "fits model" and "build_schedule F model priority = Inr s"
    and "i < length (m_hops model)" and "sc_ready s ! i \<le> t" and "t < sc_slots s ! i"
  shows "\<exists>j < length (m_hops model). h_domain (m_hops model ! j) = h_domain (m_hops model ! i) \<and>
    h_lane (m_hops model ! j) = h_lane (m_hops model ! i) \<and> sc_slots s ! j = t"
  by (rule build_schedule_earliest [OF check_model_wf [OF assms(1)] assms(2-6)])

theorem schedule_earliest_witness:
  "let s = projr (build_schedule integer_fp demo_model [0, 1, 2, 3]) in sc_ready s ! 1 = 0 \<and> sc_slots s ! 1 = 1 \<and>
    (\<exists>j < length (m_hops demo_model). h_domain (m_hops demo_model ! j) = h_domain (m_hops demo_model ! 1) \<and>
      h_lane (m_hops demo_model ! j) = h_lane (m_hops demo_model ! 1) \<and> sc_slots s ! j = 0)"
proof -
  let ?s = "projr (build_schedule integer_fp demo_model [0, 1, 2, 3])"
  have r: "sc_ready ?s ! 1 = 0" by code_simp
  have s: "sc_slots ?s ! 1 = 1" by code_simp
  have n: "1 < length (m_hops demo_model)" by code_simp
  show ?thesis unfolding Let_def
    using r s schedule_earliest [OF demo_checked demo_fits demo_scheduled n, of 0] by (simp add: r s)
qed

text \<open>
  C29. What \<open>read_model\<close> accepts is well-formed: hops carry their position and non-negative times, the
  dependencies are distinct pairs of different hops of one round, priorities are distinct, paths name
  existing hops, and the compacted resource numbers are below their count and identify lanes exactly.
\<close>

theorem accepted_input_wf:
  assumes "check_model F have_parameters raw = Inr model"
  shows "model_wf model"
  by (rule check_model_wf [OF assms])

theorem accepted_input_wf_witness: "model_wf demo_model"
  by (rule accepted_input_wf [OF demo_checked])

text \<open>
  C31. The check of \<open>read_model\<close> does not look at the sinks, which the scheduler needs: if a sink of an existing
  round that names no hop is added to any accepted input, the input is still accepted, but the scheduler
  returns no schedule, whatever the priorities, and the optimizer no result. The two ways in which it stops
  are the report that there is no schedule and, as in the witness, the access outside the slots.
\<close>

theorem unchecked_sink:
  assumes "check_model F have_parameters raw = Inr model" and "0 \<le> s_round s" and "s_round s \<le> maximum_round model"
    and "s_hop s < 0 \<or> int (length (m_hops model)) \<le> s_hop s"
  shows "check_model F have_parameters (raw\<lparr>m_sinks := m_sinks raw @ [s]\<rparr>) = Inr (model\<lparr>m_sinks := m_sinks raw @ [s]\<rparr>) \<and>
    (\<forall>priority sched. build_schedule F (model\<lparr>m_sinks := m_sinks raw @ [s]\<rparr>) priority \<noteq> Inr sched) \<and>
    (\<forall>res. optimize F (model\<lparr>m_sinks := m_sinks raw @ [s]\<rparr>) \<noteq> Some (Inr res))"
  by (intro conjI allI; rule bad_sink_stops [OF assms])

theorem unchecked_sink_witness:
  "let s = \<lparr>s_route = 0, s_round = 0, s_hop = 4\<rparr>; model = demo_model\<lparr>m_sinks := m_sinks (demo_input 2) @ [s]\<rparr> in
    (\<forall>priority sched. build_schedule integer_fp model priority \<noteq> Inr sched) \<and>
    build_schedule integer_fp model [0, 1, 2, 3] = Inl Undefined"
proof -
  let ?s = "\<lparr>s_route = 0, s_round = 0, s_hop = 4\<rparr>"
  have sink: "0 \<le> s_round ?s" "s_round ?s \<le> maximum_round demo_model" "s_hop ?s < 0 \<or> int (length (m_hops demo_model)) \<le> s_hop ?s"
    by code_simp+
  have run: "build_schedule integer_fp (demo_model\<lparr>m_sinks := m_sinks (demo_input 2) @ [?s]\<rparr>) [0, 1, 2, 3] = Inl Undefined"
    by code_simp
  show ?thesis unfolding Let_def using unchecked_sink [OF demo_checked sink] run by blast
qed

text \<open>
  C27. The open-addressed occupancy table of a schedule with \<open>n\<close> hops implements a set of up to \<open>n\<close> keys:
  inserting never loops, and a membership query ends with the right answer for every key but the empty mark.
\<close>

theorem occupancy_is_set:
  assumes "0 < n" and "length keys \<le> n" and "empty_occupancy \<notin> set keys"
  shows "\<exists>t. occupy_all (replicate (occupancy_capacity n 2) empty_occupancy) keys = Some t \<and>
    (\<forall>k. k \<noteq> empty_occupancy \<longrightarrow> is_occupied t k = Some (k \<in> set keys))"
  by (rule occupy_all_set [OF assms])

theorem occupancy_is_set_witness:
  "\<exists>t. occupy_all (replicate (occupancy_capacity 3 2) empty_occupancy) [7, 32, 7] = Some t \<and>
    is_occupied t 32 = Some True \<and> is_occupied t 8 = Some False"
proof -
  obtain t where "occupy_all (replicate (occupancy_capacity 3 2) empty_occupancy) [7, 32, 7] = Some t"
      "\<forall>k. k \<noteq> empty_occupancy \<longrightarrow> is_occupied t k = Some (k \<in> set [7, 32, 7])"
    using occupancy_is_set [of 3 "[7, 32, 7]"] by (auto simp: empty_occupancy_def)
  then show ?thesis by (auto simp: empty_occupancy_def)
qed

text \<open>
  A neighborhood of the search has at most four hops, and the orders it tries for them are exactly the
  given priorities with the ranks of these hops rearranged in every way, at most \<open>4!\<close> of them.
\<close>

theorem neighborhood_orders:
  assumes "c < length (m_hops model)" and "length p = length (m_hops model)"
  shows "length (neighborhood model slots c) \<le> 4 \<and> length (lns_orders p (neighborhood model slots c)) \<le> 24 \<and>
    (\<forall>q \<in> set (lns_orders p (neighborhood model slots c)). mset q = mset p) \<and>
    (\<forall>perm. mset perm = mset (neighborhood model slots c) \<longrightarrow>
       map (\<lambda>h. p ! h) perm = sort (map (\<lambda>h. p ! h) perm) \<or>
       assign_ranks perm (sort (map (\<lambda>h. p ! h) perm)) p \<in> set (lns_orders p (neighborhood model slots c)))"
  by (rule lns_orders_exact [OF assms])

theorem neighborhood_orders_witness:
  "length (neighborhood demo_model [0, 1, 4, 7] 1) \<le> 4 \<and> mset (hd (lns_orders [0, 1, 2, 3] (neighborhood demo_model [0, 1, 4, 7] 1))) = mset [0, 1, 2, 3]"
proof -
  have n: "length (m_hops demo_model) = 4" by code_simp
  have "lns_orders [0, 1, 2, 3] (neighborhood demo_model [0, 1, 4, 7] 1) \<noteq> []" by code_simp
  then have "hd (lns_orders [0, 1, 2, 3] (neighborhood demo_model [0, 1, 4, 7] 1)) \<in>
      set (lns_orders [0, 1, 2, 3] (neighborhood demo_model [0, 1, 4, 7] 1))" by (rule hd_in_set)
  then show ?thesis using neighborhood_orders [of 1 demo_model "[0, 1, 2, 3]" "[0, 1, 4, 7]"] by (simp add: n)
qed

section \<open>The signal grouper\<close>

definition demo_signals :: "signal list" where
  "demo_signals = [\<lparr>sg_index = 0, sg_domain = 0, sg_ratio = 2, sg_slot = 0, sg_encoding = 6\<rparr>,
     \<lparr>sg_index = 1, sg_domain = 0, sg_ratio = 2, sg_slot = 0, sg_encoding = 7\<rparr>,
     \<lparr>sg_index = 2, sg_domain = 0, sg_ratio = 2, sg_slot = 1, sg_encoding = 2\<rparr>,
     \<lparr>sg_index = 3, sg_domain = 1, sg_ratio = 1, sg_slot = 1, sg_encoding = 8\<rparr>]"

lemma demo_signals_checked: "check_signals demo_signals = Inr demo_signals"
  by code_simp

lemma demo_signals_negatable: "\<forall>s \<in> set demo_signals. negatable (sg_encoding s)"
  by (simp add: demo_signals_def negatable_def)

text \<open>
  C11. The grouper ends for every accepted input (no encoding being \<open>2 ^ 63\<close>, whose negation overflows) and
  gives each signal a group; signals of one group agree in domain and ratio, have different slots, and are
  at most as many as the ratio.
\<close>

theorem grouping_correct:
  assumes "check_signals raw = Inr signals" and "\<forall>s \<in> set signals. negatable (sg_encoding s)"
  shows "\<exists>r. run signals = Some r \<and> length (gr_assignment r) = length signals \<and>
    (\<forall>i < length signals. 0 \<le> gr_assignment r ! i \<and> gr_assignment r ! i < gr_group_id r \<and>
       int (card {j. j < length signals \<and> gr_assignment r ! j = gr_assignment r ! i}) \<le> sg_ratio (signals ! i) \<and>
       (\<forall>j < length signals. i \<noteq> j \<and> gr_assignment r ! i = gr_assignment r ! j \<longrightarrow>
          sg_domain (signals ! i) = sg_domain (signals ! j) \<and> sg_ratio (signals ! i) = sg_ratio (signals ! j) \<and>
          sg_slot (signals ! i) \<noteq> sg_slot (signals ! j)))"
  by (rule run_assignment [OF assms])

theorem grouping_correct_witness: "\<exists>r. run demo_signals = Some r \<and> length (gr_assignment r) = length demo_signals"
  using grouping_correct [OF demo_signals_checked demo_signals_negatable] by blast

text \<open>
  C28. The groups of a bucket partition it; each is non-empty, within the ratio and free of slot conflicts;
  and the packing is greedy: no signal of a later group has a slot that was still free in an earlier group
  with room left.
\<close>

theorem bucket_partition:
  assumes "0 < ratio" and "\<forall>i \<in> set remaining. negatable (sg_encoding (signals ! i))"
  shows "\<exists>groups. group_bucket signals remaining ratio = Some groups \<and> mset (concat groups) = mset remaining \<and>
    (\<forall>g \<in> set groups. group_ok signals ratio g) \<and> packed signals ratio groups"
  by (rule group_bucket_props [OF assms])

theorem bucket_partition_witness:
  "\<exists>groups. group_bucket demo_signals [0, 1, 2] 2 = Some groups \<and> mset (concat groups) = mset [0, 1, 2] \<and>
    packed demo_signals 2 groups"
proof -
  have "\<forall>i \<in> set [0, 1, 2]. negatable (sg_encoding (demo_signals ! i))" by (simp add: demo_signals_def negatable_def)
  then show ?thesis using bucket_partition [of 2 "[0, 1, 2]" demo_signals] by (simp, blast)
qed

text \<open>
  C30. The reported number of crossing bits is the sum, over the groups of the assignment, of the bits in the
  union of the encodings of the group.
\<close>

theorem crossing_bits_exact:
  assumes "check_signals raw = Inr signals" and "\<forall>s \<in> set signals. negatable (sg_encoding s)" and "run signals = Some r"
  shows "gr_crossing_bits r = (\<Sum>k < nat (gr_group_id r).
    popcount (group_encoding signals (filter (\<lambda>i. gr_assignment r ! i = int k) [0..<length signals])))"
  by (rule run_crossing_bits [OF assms])

theorem crossing_bits_exact_witness:
  "\<exists>r. run demo_signals = Some r \<and> gr_crossing_bits r = (\<Sum>k < nat (gr_group_id r).
    popcount (group_encoding demo_signals (filter (\<lambda>i. gr_assignment r ! i = int k) [0..<length demo_signals])))"
proof -
  obtain r where "run demo_signals = Some r" using run_assignment [OF demo_signals_checked demo_signals_negatable] by blast
  then show ?thesis using crossing_bits_exact [OF demo_signals_checked demo_signals_negatable] by blast
qed

section \<open>The position refiner\<close>


text \<open>The demo signals with coordinates, numbers for domain and slot, and the groups the grouper gives them.\<close>

definition demo_place :: "int \<Rightarrow> int \<Rightarrow> int \<Rightarrow> 64 word \<Rightarrow> int \<Rightarrow> 'd \<Rightarrow> 'd place_signal" where
  "demo_place index domain ratio encoding g y = \<lparr>pg_index = index, pg_domain = domain, pg_ratio = ratio,
     pg_encoding = encoding, pg_group = g, pg_y = y\<rparr>"

definition demo_places :: "int place_signal list" where
  "demo_places = [demo_place 0 0 4 3 0 10, demo_place 1 0 4 3 1 2, demo_place 2 0 4 5 0 1, demo_place 3 0 4 5 1 9]"

definition demo_handed :: "int place_signal list" where
  "demo_handed = (let a = gr_assignment (the (run demo_signals)) in
     [demo_place 0 0 2 6 (a ! 0) 4, demo_place 1 0 2 7 (a ! 1) 1, demo_place 2 1 2 2 (a ! 2) 5, demo_place 3 2 1 8 (a ! 3) 3])"

text \<open>
  C5. The position refiner changes nothing but groups, and of each domain, ratio and encoding every group keeps
  as many signals as it had; the numbers it reports are those of the signals that changed their group and of
  the buckets that have such signals. This holds whatever the arithmetic.
\<close>

theorem refiner_conserves:
  assumes "refine_places F input = Inr r"
  shows "same_but_group input (rp_signals r) \<and> (\<forall>k g. class_size (rp_signals r) k g = class_size input k g) \<and>
    rp_moved r = int (card (changed input (rp_signals r) {..<length input})) \<and>
    rp_accepted r = int (card ((\<lambda>i. place_key (input ! i)) ` changed input (rp_signals r) {..<length input}))"
  using refine_places_conserves [OF assms] by blast

lemma demo_places_refined: "refine_places integer_fp demo_places = Inr (projr (refine_places integer_fp demo_places))"
  by code_simp

theorem refiner_conserves_witness:
  "class_size (rp_signals (projr (refine_places integer_fp demo_places))) (0, 4, 3) 1 = class_size demo_places (0, 4, 3) 1"
  using refiner_conserves [OF demo_places_refined] by blast

text \<open>
  C4. Grouper and refiner in sequence: if the grouper's groups are handed over with numbers that determine
  domain and slot, the refined groups satisfy what the grouper guarantees: signals of one group agree in domain
  and ratio, have different slots, and are at most as many as the ratio.
\<close>

theorem refined_groups:
  assumes "check_signals raw = Inr signals" "\<forall>s \<in> set signals. negatable (sg_encoding s)" "run signals = Some g"
    and "handed_over signals (gr_assignment g) places" "refine_places F places = Inr r"
  shows "groups_legal signals (map pg_group (rp_signals r))"
  by (rule refined_groups_legal [OF run_groups_legal [OF assms(1-3)] assms(4,5)])

lemma demo_handed_over: "handed_over demo_signals (gr_assignment (the (run demo_signals))) demo_handed"
  by code_simp

lemma demo_handed_refined: "refine_places integer_fp demo_handed = Inr (projr (refine_places integer_fp demo_handed))"
  by code_simp

lemma demo_run: "run demo_signals = Some (the (run demo_signals))"
  by code_simp

theorem refined_groups_witness:
  "groups_legal demo_signals (map pg_group (rp_signals (projr (refine_places integer_fp demo_handed))))"
  by (rule refined_groups [OF demo_signals_checked demo_signals_negatable demo_run demo_handed_over demo_handed_refined])

text \<open>
  Numbers that are exact only up to \<open>2 ^ 53\<close>, like doubles: a result beyond is rounded to an even number.
\<close>

definition round_even :: "int \<Rightarrow> int" where
  "round_even x = (if \<bar>x\<bar> \<le> 2 ^ 53 then x else 2 * (x div 2))"

definition rounding_fp :: "int fp" where
  "rounding_fp = \<lparr>fp_of_int = round_even, fp_add = (\<lambda>x y. round_even (x + y)), fp_sub = (\<lambda>x y. round_even (x - y)),
     fp_mul = (\<lambda>x y. round_even (x * y)), fp_div = (\<lambda>x y. round_even (x div y)), fp_lt = (<), fp_le = (\<le>),
     fp_isfinite = (\<lambda>_. True), fp_infinity = 2 ^ 1024, fp_epsilon = 0\<rparr>"

definition small_int :: "int \<Rightarrow> int option" where
  "small_int x = (if \<bar>x\<bar> \<le> 2 ^ 53 then Some x else None)"

lemma small_int_Some: "small_int x = Some a \<longleftrightarrow> a = x \<and> \<bar>x\<bar> \<le> 2 ^ 53"
  by (auto simp: small_int_def)

lemma rounding_grid: "grid_exact rounding_fp small_int (2 ^ 53)"
  unfolding grid_exact_def small_int_Some tolerance_def by (auto simp: rounding_fp_def round_even_def)

text \<open>
  C6. If the coordinates are on a grid and there are few enough of them (\<open>places_fit\<close>: the square of their number
  times twice the largest coordinate is at most \<open>L\<close>), in an arithmetic that is exact on the grid up to \<open>L\<close>
  (\<open>grid_exact\<close>; doubles are, with \<open>L = 2 ^ 53\<close> and any step \<open>2 ^ -k\<close> with \<open>k\<close> up to 38), then the refiner does not
  fail, the objectives it reports are exactly the sums of the distances of all pairs of signals in a group,
  before and after, and the objective does not grow.
\<close>

theorem refiner_objective:
  assumes "grid_exact F num L" and "check_places F input = Inr input" and "places_fit num L Y input"
  shows "\<exists>r. refine_places F input = Inr r \<and> num (rp_before r) = Some (objective (grid_value num) input) \<and>
    num (rp_after r) = Some (objective (grid_value num) (rp_signals r)) \<and>
    objective (grid_value num) (rp_signals r) \<le> objective (grid_value num) input"
  by (rule refine_places_objective [OF assms])

theorem refiner_objective_witness:
  "\<exists>r. refine_places rounding_fp demo_places = Inr r \<and> rp_before r = 16 \<and> rp_after r = 2 \<and>
    objective (grid_value small_int) (rp_signals r) = 2 \<and> objective (grid_value small_int) demo_places = 16"
proof -
  have "check_places rounding_fp demo_places = Inr demo_places" and "places_fit small_int (2 ^ 53) 10 demo_places"
    and run: "map_option (\<lambda>r. (rp_before r, rp_after r)) (case refine_places rounding_fp demo_places of Inl e \<Rightarrow> None | Inr r \<Rightarrow> Some r) = Some (16, 2)"
    by code_simp+
  from refiner_objective [OF rounding_grid this(1,2)] run show ?thesis
    by (auto simp: small_int_Some)
qed

section \<open>The package-pin solver\<close>

text \<open>Two demands and two channels: the cheapest edge of the first demand is not part of the best assignment.\<close>

definition demo_pins :: "pin_record list" where
  "demo_pins = [DEMAND 0 7, DEMAND 1 7, CHANNEL 0 7, CHANNEL 1 7,
     EDGE 1 0 2, EDGE 0 0 1, EDGE 1 1 100, EDGE 0 1 5]"

definition demo_pin_input :: pin_input where
  "demo_pin_input = projr (read_input demo_pins)"

lemma demo_pins_read: "read_input demo_pins = Inr demo_pin_input"
  unfolding demo_pin_input_def by code_simp

lemma demo_pins_range: "costs_in_range demo_pin_input"
  by code_simp

text \<open>
  C7. For an accepted input whose costs are in range (\<open>costs_in_range\<close>: the number of demands times the number of
  nodes times the largest cost is below a quarter of the largest 64-bit number, which \<open>read_input\<close> does not
  check), the pin solver ends, without overflow. If the input has a complete assignment of demands to
  compatible channels, each channel used at most once, it returns one, together with its cost, and no
  complete assignment is cheaper; otherwise it reports that there is none. The example \<open>sentinel_cost\<close> below
  shows that the range cannot be dropped.
\<close>

theorem pin_binding_optimal:
  assumes "read_input rs = Inr inp" and "costs_in_range inp"
  shows "(\<exists>spent A. pin_solver rs = Some (Inr (spent, A)) \<and> complete_assignment inp A \<and> spent = assignment_cost A \<and>
      (\<forall>B. complete_assignment inp B \<longrightarrow> spent \<le> assignment_cost B)) \<or>
    pin_solver rs = Some (Inl No_assignment) \<and> (\<forall>B. \<not> complete_assignment inp B)"
proof -
  obtain r where "bind_pins inp = Some r" "solver_contract inp r"
    using bind_pins_contract [OF read_input_ok [OF assms(1)] assms(2)] by blast
  then show ?thesis
    using assms(1) by (auto simp: pin_solver_def solver_contract_def split: sum.splits)
qed

theorem pin_binding_optimal_witness:
  "(\<exists>spent A. pin_solver demo_pins = Some (Inr (spent, A)) \<and> complete_assignment demo_pin_input A \<and> spent = assignment_cost A \<and>
      (\<forall>B. complete_assignment demo_pin_input B \<longrightarrow> spent \<le> assignment_cost B)) \<and>
    pin_solver demo_pins = Some (Inr (7, [(0, 1, 5), (1, 0, 2)]))"
proof
  show run: "pin_solver demo_pins = Some (Inr (7, [(0, 1, 5), (1, 0, 2)]))" by code_simp
  show "\<exists>spent A. pin_solver demo_pins = Some (Inr (spent, A)) \<and> complete_assignment demo_pin_input A \<and> spent = assignment_cost A \<and>
      (\<forall>B. complete_assignment demo_pin_input B \<longrightarrow> spent \<le> assignment_cost B)"
    using pin_binding_optimal [OF demo_pins_read demo_pins_range] run by simp
qed

text \<open>
  C12. The search of the solver ends on every residual network with a feasible potential that is zero at the
  source, and its labels are exact: a node is reached exactly if there is a walk of residual edges to it, and
  then its label is the cost of a walk and no walk costs less.
\<close>

theorem shortest_paths_exact:
  assumes "search_pre g p s C"
  shows "\<exists>t. shortest_paths s g = Some (Inr t) \<and>
    (\<forall>v < length g. reached t v = (\<exists>c. walk g s v c) \<and>
      (reached t v \<longrightarrow> walk g s v (distance t ! v) \<and> (\<forall>c. walk g s v c \<longrightarrow> distance t ! v \<le> c)))"
proof -
  obtain t where t: "shortest_paths s g = Some (Inr t)" "shortest_tree g p s C t"
    using shortest_paths_correct [OF assms] by blast
  then show ?thesis using tree_walk [OF assms t(2)] walk_reached [OF t(2)] by blast
qed

theorem shortest_paths_exact_witness:
  "\<exists>t. shortest_paths 0 (build_network demo_pin_input) = Some (Inr t) \<and>
    reached t 5 \<and> (\<forall>c. walk (build_network demo_pin_input) 0 5 c \<longrightarrow> distance t ! 5 \<le> c) \<and> distance t ! 5 = 1"
proof -
  let ?g = "build_network demo_pin_input"
  have run: "projr (the (shortest_paths 0 ?g)) = projr (the (shortest_paths 0 ?g))" ..
  have d: "distance (projr (the (shortest_paths 0 ?g))) ! 5 = 1" and n: "5 < length ?g" by code_simp+
  obtain t where t: "shortest_paths 0 ?g = Some (Inr t)"
    "\<forall>v < length ?g. reached t v = (\<exists>c. walk ?g 0 v c) \<and>
      (reached t v \<longrightarrow> walk ?g 0 v (distance t ! v) \<and> (\<forall>c. walk ?g 0 v c \<longrightarrow> distance t ! v \<le> c))"
    using shortest_paths_exact [OF build_search_pre [OF read_input_ok [OF demo_pins_read] demo_pins_range]] by blast
  have five: "distance t ! 5 = 1" using d t(1) by simp
  then have "reached t 5" by (simp add: reached_def flow_infinity_def INT64_MAX_def)
  then show ?thesis using t n five by blast
qed

text \<open>
  C13. A round of successive shortest paths keeps what it relies on: if the sink is reached, pushing one unit
  back along the tree of previous edges ends, leaves the pairs of opposite edges complementary, moves one
  unit of capacity from the source to the sink and none elsewhere, and lowers the cost of the residual
  network by twice the distance of the sink; and the new network has a feasible potential again.
\<close>

theorem flow_round:
  assumes "search_pre g p s C" and "k < length g" and "shortest_paths s g = Some (Inr t)" and "distance t ! k \<noteq> flow_infinity"
  shows "\<exists>h q. augment t s k g = Some (Inr h) \<and> search_pre h q s C \<and> shape h = shape g \<and>
    residual_cost h = residual_cost g - 2 * distance t ! k \<and>
    (\<forall>x < length g. cap_out h x = cap_out g x - (if x = s then 1 else 0) + (if x = k then 1 else 0))"
  using label_correcting.search_round [OF assms(1,2)] assms(3,4) by (auto simp: moved_unit_def)

theorem flow_round_witness:
  "let g = build_network demo_pin_input; t = projr (the (shortest_paths 0 g)) in
    \<exists>h. augment t 0 5 g = Some (Inr h) \<and> residual_cost h = residual_cost g - 2 * distance t ! 5 \<and>
      cap_out h 0 = cap_out g 0 - 1 \<and> cap_out h 5 = cap_out g 5 + 1 \<and> cap_out h 3 = cap_out g 3"
proof -
  let ?g = "build_network demo_pin_input"
  let ?t = "projr (the (shortest_paths 0 ?g))"
  have n: "5 < length ?g" and d: "distance ?t ! 5 \<noteq> flow_infinity"
    and run: "shortest_paths 0 ?g = Some (Inr ?t)" by code_simp+
  note pre = build_search_pre [OF read_input_ok [OF demo_pins_read] demo_pins_range]
  obtain h where "augment ?t 0 5 ?g = Some (Inr h)" "residual_cost h = residual_cost ?g - 2 * distance ?t ! 5"
    "\<forall>x < length ?g. cap_out h x = cap_out ?g x - (if x = 0 then 1 else 0) + (if x = 5 then 1 else 0)"
    using flow_round [OF pre n run d] by blast
  then show ?thesis using n by (auto simp: Let_def)
qed

text \<open>
  An input outside the range: \<open>read_input\<close> accepts it, but its only edge costs a quarter of the largest value, the
  mark of unreached nodes, and the solver reports that there is no complete assignment although there is one.
\<close>

theorem sentinel_cost:
  "\<exists>inp. read_input [DEMAND 0 7, CHANNEL 0 7, EDGE 0 0 2305843009213693951] = Inr inp \<and>
    pin_solver [DEMAND 0 7, CHANNEL 0 7, EDGE 0 0 2305843009213693951] = Some (Inl No_assignment) \<and>
    complete_assignment inp [(0, 0, 2305843009213693951)]"
proof (intro exI conjI)
  let ?rs = "[DEMAND 0 7, CHANNEL 0 7, EDGE 0 0 2305843009213693951]"
  show "read_input ?rs = Inr (projr (read_input ?rs))" by code_simp
  show "pin_solver ?rs = Some (Inl No_assignment)" by code_simp
  show "complete_assignment (projr (read_input ?rs)) [(0, 0, 2305843009213693951)]" by code_simp
qed

section \<open>The bank and channel assigner\<close>

text \<open>Two banks with two channels each, three groups; the first bank is cheap for the second group.\<close>

definition demo_edge :: "int \<Rightarrow> int \<Rightarrow> int \<Rightarrow> candidate_edge" where
  "demo_edge right left c = \<lparr>cand_right = right, cand_left = left, cand_cost = c\<rparr>"

definition demo_edges :: "candidate_edge list" where
  "demo_edges = [demo_edge 0 0 5, demo_edge 1 0 3, demo_edge 0 1 2, demo_edge 1 1 1, demo_edge 1 2 4]"

lemma demo_edges_pre: "assign_pre 2 [2, 2] 3 demo_edges 5"
  by code_simp

text \<open>
  C17. The assignment of lefts to rights, by whichever of the three ways the code takes (one candidate per left,
  the compressed network with its check of the expanded certificate, the full network), is exact for costs in
  range (\<open>assign_pre\<close>: \<open>(lefts + 1) * (rights + lefts + 2)\<close> times the largest cost is below a quarter of the largest
  64-bit number, and the candidates name existing lefts and rights). The function returns; if there is a legal
  choice of one candidate for every left within the capacities, the result is one, with its cost as the total and
  with potentials that certify it, and no legal choice is cheaper; otherwise it reports that there is none.
\<close>

theorem assign_correct:
  assumes "assign_pre rights capacities lefts candidates C"
  shows "\<exists>r. assign rights capacities lefts candidates = Some r \<and> (case r of
      Inr res \<Rightarrow> assignment_ok rights capacities lefts candidates res \<and>
        (\<forall>B. legal_choice rights capacities lefts candidates B \<longrightarrow> total_cost res \<le> choice_cost B)
    | Inl e \<Rightarrow> e = No_channel_assignment \<and> \<not> (\<exists>A. legal_choice rights capacities lefts candidates A))"
  using assign_returns_optimal [OF assms] by (simp add: optimal_assignment_def cong: sum.case_cong)

theorem assign_correct_witness:
  "\<exists>res. assign 2 [2, 2] 3 demo_edges = Some (Inr res) \<and> right_for_left res = [1, 0, 1] \<and> total_cost res = 9 \<and>
    assignment_ok 2 [2, 2] 3 demo_edges res \<and>
    (\<forall>B. legal_choice 2 [2, 2] 3 demo_edges B \<longrightarrow> 9 \<le> choice_cost B)"
proof -
  let ?run = "assign 2 [2, 2] 3 demo_edges"
  have "?run = Some (Inr (projr (the ?run)))" "right_for_left (projr (the ?run)) = [1, 0, 1]" "total_cost (projr (the ?run)) = 9"
    by code_simp+
  then obtain res where run: "?run = Some (Inr res)" and res: "right_for_left res = [1, 0, 1]" "total_cost res = 9" by blast
  from assign_correct [OF demo_edges_pre] show ?thesis using run res by simp
qed

text \<open>
  C18. The certificate of an assignment is computed by a search from all nodes that stops at a path as long as
  there are nodes. On a residual network whose edges come in pairs and whose costs are in range
  (\<open>cert_pre\<close>: the number of nodes times the largest absolute cost is below a quarter of the largest 64-bit number)
  the search ends and its answer is exact: it reports a negative cycle exactly if the network has one, and otherwise returns one 64-bit potential for
  every node, under which no residual edge has a negative reduced cost.
\<close>

theorem certificate_decides:
  assumes "cert_pre g C"
  shows "(negative_cycle g \<longrightarrow> certificate_potentials g = Some (Inl Negative_residual_cycle)) \<and>
    (\<not> negative_cycle g \<longrightarrow> (\<exists>d. certificate_potentials g = Some (Inr d) \<and> length d = length g \<and>
      (\<forall>v < length g. int64_ok (d ! v)) \<and> potential g ((!) d)))"
  by (rule certificate_exact [OF assms])

definition demo_cycle :: "int \<Rightarrow> network" where
  "demo_cycle c = add_edge 1 0 1 c (add_edge 0 1 1 2 [[], []])"

lemma demo_cycle_pre: "2 \<le> C \<Longrightarrow> \<bar>c\<bar> \<le> C \<Longrightarrow> C < 100 \<Longrightarrow> cert_pre (demo_cycle c) C"
proof -
  assume C: "2 \<le> C" "\<bar>c\<bar> \<le> C" "C < 100"
  have "network_ok [[], []]" using network_ok_empty [of 2] by (simp add: numeral_2_eq_2)
  then have "network_ok (demo_cycle c)" unfolding demo_cycle_def by (intro add_edge_network_ok) simp_all
  moreover have "cost_bound (demo_cycle c) C"
    unfolding cost_bound_def edge_at_def using C
    by (auto simp: demo_cycle_def add_edge_def Let_def less_Suc_eq nth_Cons')
  ultimately show ?thesis using C by (simp add: cert_pre_def demo_cycle_def flow_infinity_def INT64_MAX_def)
qed

theorem certificate_decides_witness:
  "negative_cycle (demo_cycle (- 3)) \<and> \<not> negative_cycle (demo_cycle 4) \<and> certificate_potentials (demo_cycle 4) = Some (Inr [0, 0])"
proof -
  have neg: "certificate_potentials (demo_cycle (- 3)) = Some (Inl Negative_residual_cycle)"
    and pos: "certificate_potentials (demo_cycle 4) = Some (Inr [0, 0])" by code_simp+
  show ?thesis
    using certificate_decides [OF demo_cycle_pre [of 3 "- 3"]] certificate_decides [OF demo_cycle_pre [of 4 4]] neg pos by auto
qed













section \<open>The route checker\<close>

text \<open>A source, a wire and two sinks; a net that branches at the wire.\<close>

definition demo_rr :: "string \<Rightarrow> int \<Rightarrow> rr_node" where
  "demo_rr t ptc = \<lparr>rr_capacity = 1, rr_type = t, rr_xlow = 0, rr_ylow = 0, rr_xhigh = 0, rr_yhigh = 0,
     rr_layer_low = 0, rr_layer_high = 0, rr_ptc = ptc\<rparr>"

definition demo_rr_lines :: "rr_line list" where
  "demo_rr_lines = [Rr_grid 2 1, Rr_node 0 (demo_rr ''SOURCE'' 0), Rr_node 1 (demo_rr ''CHANX'' 1),
     Rr_node 2 (demo_rr ''SINK'' 2), Rr_node 3 (demo_rr ''SINK'' 3), Rr_other,
     Rr_edge \<lparr>rr_src = 0, rr_sink = 1, rr_switch = 4\<rparr>, Rr_edge \<lparr>rr_src = 1, rr_sink = 2, rr_switch = 5\<rparr>,
     Rr_edge \<lparr>rr_src = 1, rr_sink = 3, rr_switch = 5\<rparr>]"

definition demo_rr_graph :: rr_graph where
  "demo_rr_graph = projr (read_rr_graph demo_rr_lines)"

definition demo_node :: "nat \<Rightarrow> string \<Rightarrow> int \<Rightarrow> int \<Rightarrow> route_line" where
  "demo_node i t switch pin = Node_line \<lparr>pn_id = i, pn_type = t, pn_xlow = 0, pn_ylow = 0, pn_layer_low = 0,
     pn_xhigh = 0, pn_yhigh = 0, pn_layer_high = 0, pn_ptc = int i, pn_switch = switch, pn_pin = pin\<rparr>"

definition demo_route :: "route_line list" where
  "demo_route = [Comment_line, Net_header 0 ''n'' False, demo_node 0 ''SOURCE'' 4 (-1), demo_node 1 ''CHANX'' 5 (-1),
     demo_node 2 ''SINK'' (-1) 1, demo_node 1 ''CHANX'' 5 (-1), demo_node 3 ''SINK'' (-1) 2,
     Net_header 1 ''clk'' True, Block_line, Net_header 2 ''m'' False, Local_line]"

definition demo_file :: "route_line list" where
  "demo_file = Placement_header ''p'' ''id'' # Array_header 3 2 # demo_route"

definition demo_report :: "string \<times> string \<times> nat \<times> nat \<times> checker" where
  "demo_report = projr (check_route demo_rr_graph demo_file)"

lemma demo_rr_read: "read_rr_graph demo_rr_lines = Inr demo_rr_graph"
  unfolding demo_rr_graph_def by code_simp

lemma demo_route_checked: "check_route demo_rr_graph demo_file = Inr demo_report"
  unfolding demo_report_def by code_simp

text \<open>
  C8. The line-by-line check of a route file against a graph decides legality: a file with the two headers is
  accepted exactly if the array size is that of the grid and the net blocks are legal. That is: only comments
  stand before the first net, net numbers differ, nodes are those of the graph, each net starts at a source,
  goes on over existing edges with the given switch or restarts at a node of its own after a sink, ends at a
  sink unless it is global or local, has pin numbers exactly at sinks and no pin twice, and no node is used
  by more nets than its capacity.
\<close>

theorem route_check_exact:
  "(\<exists>s. check_route g (Placement_header file place # Array_header w h # ls) = Inr (file, place, w, h, s)) =
    (fits_u32 w \<and> fits_u32 h \<and> grid_width g \<in> {0, w} \<and> grid_height g \<in> {0, h} \<and> route_legal g ls)"
  using check_body_exact [of g ls] by (auto simp: check_route_def split: if_splits)

text \<open>
  C15. What the checker reports about an accepted file is true: the nets with their numbers of nodes, sinks and
  endpoints in the order of the file, the totals over all nets, the number of nets through each node, its
  maximum, and the largest capacity of a used node.
\<close>

theorem route_report_exact:
  assumes "check_route g route = Inr (file, place, w, h, s)"
  shows "nets s = map net_of (blocks_of (drop 2 route)) \<and>
    route_nodes s = (\<Sum>b \<leftarrow> blocks_of (drop 2 route). length (block_nodes b)) \<and>
    route_edges s = (\<Sum>b \<leftarrow> blocks_of (drop 2 route). edges_in (block_nodes b)) \<and>
    branch_restarts s = (\<Sum>b \<leftarrow> blocks_of (drop 2 route). restarts_in (block_nodes b)) \<and>
    occupancy s = map (load (blocks_of (drop 2 route))) [0..<length (rr_nodes g)] \<and>
    max_occupancy s = Max (insert 0 (load (blocks_of (drop 2 route)) ` {..<length (rr_nodes g)})) \<and>
    max_capacity s = Max (insert 0 ((\<lambda>v. rr_capacity (the (rr_nodes g ! v))) ` used_ids (blocks_of (drop 2 route))))"
proof -
  from assms obtain a b ls where "route = a # b # ls" "check_body g ls = Inr s"
    by (auto simp: check_route_def split: list.splits route_line.splits if_splits sum.splits)
  then show ?thesis using check_body_exact [of g ls] by (auto simp: counters_of_def split: if_splits)
qed

theorem route_report_exact_witness:
  "let (file, place, w, h, s) = demo_report in
    route_nodes s = 5 \<and> route_edges s = 3 \<and> branch_restarts s = 1 \<and> max_occupancy s = 1 \<and>
    nets s = map net_of (blocks_of demo_route) \<and>
    occupancy s = map (load (blocks_of demo_route)) [0..<length (rr_nodes demo_rr_graph)]"
proof -
  obtain f place w h s where r: "demo_report = (f, place, w, h, s)" by (metis prod_cases5)
  have d: "drop 2 demo_file = demo_route" by (simp add: demo_file_def)
  have nums: "let (file, place, w, h, s) = demo_report in
      route_nodes s = 5 \<and> route_edges s = 3 \<and> branch_restarts s = 1 \<and> max_occupancy s = 1"
    by code_simp
  show ?thesis
    using nums route_report_exact [OF demo_route_checked [unfolded r]] unfolding r d by simp
qed

text \<open>
  C14. In an accepted file every net is connected: it has a source at its start, and each of its nodes is
  reached from that source over edges of the graph between nodes of the net.
\<close>

theorem route_connected:
  assumes "check_route g route = Inr r" and "b \<in> set (blocks_of (drop 2 route))" and "n \<in> set (block_nodes b)"
  shows "pn_type (hd (block_nodes b)) = ''SOURCE'' \<and>
    (pn_id (hd (block_nodes b)), pn_id n) \<in> (net_rel g (block_ids b))\<^sup>*"
proof -
  from assms(1) obtain x y ls s where "route = x # y # ls" "check_body g ls = Inr s"
    by (auto simp: check_route_def split: list.splits route_line.splits if_splits sum.splits)
  then have "route_legal g ls" and ls: "drop 2 route = ls" using check_body_exact [of g ls] by (auto split: if_splits)
  then have legal: "legal_nodes g (block_nodes b)"
    using assms(2) by (auto simp: route_legal_def legal_blocks_def block_legal_def)
  obtain i where "i < length (block_nodes b)" "n = block_nodes b ! i" using assms(3) by (auto simp: in_set_conv_nth)
  moreover have "block_nodes b \<noteq> []" using assms(3) by auto
  ultimately show ?thesis
    using legal_nodes_connected [OF legal] legal_nodes_start [OF legal] by (auto simp: block_ids_def)
qed

theorem route_connected_witness:
  "(0, 3) \<in> (net_rel demo_rr_graph {0, 1, 2, 3})\<^sup>*"
proof -
  let ?b = "hd (blocks_of demo_route)" and ?n = "last (block_nodes (hd (blocks_of demo_route)))"
  have d: "drop 2 demo_file = demo_route" by (simp add: demo_file_def)
  have m: "?b \<in> set (blocks_of (drop 2 demo_file))" "?n \<in> set (block_nodes ?b)" unfolding d by code_simp+
  have i: "pn_id (hd (block_nodes ?b)) = 0" "pn_id ?n = 3" "block_ids ?b = {0, 1, 2, 3}"
    by code_simp+
  show ?thesis using route_connected [OF demo_route_checked m] unfolding i by blast
qed

text \<open>
  C16. What \<open>read_rr_graph\<close> accepts is a graph: nodes with the numbers from zero on, each with a capacity above
  zero, and distinct edges between existing nodes.
\<close>

theorem rr_graph_wf:
  assumes "read_rr_graph ls = Inr g"
  shows "rr_nodes g \<noteq> [] \<and> distinct (rr_edges g) \<and>
    (\<forall>v < length (rr_nodes g). \<exists>rr. rr_nodes g ! v = Some rr \<and> 0 < rr_capacity rr) \<and>
    (\<forall>e \<in> set (rr_edges g). rr_src e < length (rr_nodes g) \<and> rr_sink e < length (rr_nodes g))"
  using read_rr_graph_ok [OF assms] by (auto simp: rr_graph_ok_def)

theorem rr_graph_wf_witness:
  "rr_nodes demo_rr_graph \<noteq> [] \<and> distinct (rr_edges demo_rr_graph) \<and>
    (\<exists>rr. rr_nodes demo_rr_graph ! 3 = Some rr \<and> 0 < rr_capacity rr)"
proof -
  have "3 < length (rr_nodes demo_rr_graph)" by code_simp
  then show ?thesis using rr_graph_wf [OF demo_rr_read] by blast
qed

text \<open>
  Two gaps of the checks. A node with the largest 32-bit number makes the table of nodes shrink to no
  elements (\<open>id + 1\<close> wraps), and the access that follows is out of range. And the message "used in local
  cluster only" switches off the checks at the end of a net even if the net has nodes: a net that stops at a
  wire is accepted.
\<close>

theorem route_check_gaps:
  "read_rr_graph [Rr_node 4294967295 (demo_rr ''SOURCE'' 0)] = Inl (In_line 1 Undefined_behaviour) \<and>
   (\<exists>s. check_body demo_rr_graph [Net_header 0 ''n'' False, demo_node 0 ''SOURCE'' 4 (-1),
      demo_node 1 ''CHANX'' 5 (-1), Local_line] = Inr s \<and> map net_sinks (nets s) = [0] \<and> map net_nodes (nets s) = [2])"
proof
  show "read_rr_graph [Rr_node 4294967295 (demo_rr ''SOURCE'' 0)] = Inl (In_line 1 Undefined_behaviour)"
    by (simp add: read_rr_graph_def empty_rr_graph_def rr_add_node_def resize_def next_size_def)
  let ?r = "check_body demo_rr_graph [Net_header 0 ''n'' False, demo_node 0 ''SOURCE'' 4 (-1),
      demo_node 1 ''CHANX'' 5 (-1), Local_line]"
  show "\<exists>s. ?r = Inr s \<and> map net_sinks (nets s) = [0] \<and> map net_nodes (nets s) = [2]"
  proof (intro exI conjI)
    show "?r = Inr (projr ?r)" by code_simp
    show "map net_sinks (nets (projr ?r)) = [0]" by code_simp
    show "map net_nodes (nets (projr ?r)) = [2]" by code_simp
  qed
qed

section \<open>The legalizer of the partitioner\<close>


definition part_narrow :: "int part_record list" where
  "part_narrow = [part_record.PARAM 3 2 1 0 2, CAP 0 0 9, CAP 1 0 1, CAP 2 0 9, NODE 0 (-1) [5], NODE 1 (-1) [3], ASSIGN 0 0, ASSIGN 1 0]"

definition part_of :: "int part_record list \<Rightarrow> int part_input" where
  "part_of rs = projr (read_partition integer_fp rs)"




definition part_heavy :: "int part_record list" where
  "part_heavy = [part_record.PARAM 1 2 1 0 1, CAP 0 0 INT64_MAX, NODE 0 (-1) [2 ^ 62], NODE 1 (-1) [2 ^ 62], ASSIGN 0 0, ASSIGN 1 0]"

text \<open>The sum of the loads is formed in 64 bits before it is compared with the capacity.\<close>

theorem load_sum_overflows:
  "read_partition integer_fp part_heavy = Inr (part_of part_heavy) \<and> part_numbers_ok (part_of part_heavy) \<and>
    legalize integer_fp (part_of part_heavy) = Some (Inl Part_overflow)"
  unfolding part_of_def part_numbers_ok_def by (intro conjI; code_simp)





text \<open>
  An example: "no legal move can satisfy min_used" is not what the program has decided: it only tries the lowest empty
  part. Here that part is too small for both nodes, and a legal assignment with the required number of parts
  is one move away.
\<close>

theorem legalizer_gives_up:
  "legalize integer_fp (part_of part_narrow) = Some (Inl No_legal_move) \<and>
    read_partition integer_fp part_narrow = Inr (part_of part_narrow) \<and>
    assignment_legal (part_of part_narrow) ((pi_assignment (part_of part_narrow))[0 := 2]) \<and>
    card (set ((pi_assignment (part_of part_narrow))[0 := 2])) = pi_min_used (part_of part_narrow)"
  unfolding part_of_def by (intro conjI; code_simp)

section \<open>From truth tables to factored forms\<close>

text \<open>
  C21. For up to seven variables \<open>Kit_TruthToGraph\<close> always returns a graph, and the graph computes the
  function of the table: neither ISOP nor factoring runs out of memory, no assertion of the factoring fails, no
  null pointer is used. The hypothesis on the table is the one the code has in a comment: with fewer than
  five variables, the word repeats.
\<close>

theorem factored_form_returns:
  assumes "n \<le> 7" and "tt_wf n p" and "dep_below n (tt_fun n p)"
  shows "\<exists>g. Kit_TruthToGraph p n nCap = Some (Some g) \<and> (\<forall>m. graph_val g (bit m) = tt_fun n p m)"
proof -
  obtain g where g: "Kit_TruthToGraph p n nCap = Some (Some g)" using Kit_TruthToGraph_total [OF assms] by blast
  have "n \<le> 15" using assms(1) by simp
  then show ?thesis using Kit_TruthToGraph_factored [OF _ assms(2,3) g] g by (auto simp: factored_def)
qed

lemma dep_below_full: "5 \<le> n \<Longrightarrow> dep_below n (tt_fun n p)"
  by (simp add: dep_below_def tt_fun_def max_def)

theorem factored_form_returns_witness:
  "\<exists>g. Kit_TruthToGraph [0xE8E8E8E8, 0x12345678] 6 0 = Some (Some g) \<and>
    (\<forall>m. graph_val g (bit m) = tt_fun 6 [0xE8E8E8E8, 0x12345678] m)"
  by (rule factored_form_returns) (simp_all add: tt_wf_def Kit_TruthWordNum_def dep_below_full)

text \<open>
  C22. Whenever \<open>Kit_TruthToGraph\<close> returns a graph for a table of at most 15 variables, the graph computes
  the function of the table, its fanins precede their nodes and its root is a leaf or the last node.
\<close>

theorem factored_form_correct:
  assumes "n \<le> 15" and "tt_wf n p" and "dep_below n (tt_fun n p)" and "Kit_TruthToGraph p n nCap = Some (Some g)"
  shows "(\<forall>m. graph_val g (bit m) = tt_fun n p m) \<and> (g_fConst g \<or> graph_wf g \<and> leaf_or_last g (g_eRoot g))"
  using Kit_TruthToGraph_factored [OF assms] by (auto simp: factored_def)

theorem factored_form_correct_witness:
  "\<exists>g. Kit_TruthToGraph [0xCAFE1234] 5 0 = Some (Some g) \<and>
    (\<forall>m. graph_val g (bit m) = tt_fun 5 [0xCAFE1234] m) \<and> (g_fConst g \<or> graph_wf g \<and> leaf_or_last g (g_eRoot g))"
proof -
  have wf: "tt_wf 5 [0xCAFE1234]" by (simp add: tt_wf_def Kit_TruthWordNum_def)
  obtain g where g: "Kit_TruthToGraph [0xCAFE1234] 5 0 = Some (Some g)"
    using Kit_TruthToGraph_total [of 5, OF _ wf dep_below_full] by auto
  then show ?thesis using factored_form_correct [of 5, OF _ wf dep_below_full g] by auto
qed

text \<open>
  C23. Round trip for up to five variables: \<open>Kit_GraphToTruth\<close> of the factored form of a one-word table is
  that word (the verification that \<open>Kit_FactorTest\<close> has in a comment).
\<close>

theorem truth_graph_truth:
  assumes "n \<le> 5" and "tt_wf n p" and "dep_below n (tt_fun n p)"
  shows "\<exists>g. Kit_TruthToGraph p n nCap = Some (Some g) \<and> fst (Kit_GraphToTruth g) = p ! 0"
proof -
  have n: "n \<le> 7" "n \<le> 15" using assms(1) by simp_all
  obtain g where g: "Kit_TruthToGraph p n nCap = Some (Some g)" using Kit_TruthToGraph_total [OF n(1) assms(2,3)] by blast
  then show ?thesis using Kit_TruthToGraph_factored [OF n(2) assms(2,3) g] factored_GraphToTruth [OF _ assms(1,2)] by blast
qed

theorem truth_graph_truth_witness:
  "\<exists>g. Kit_TruthToGraph [0xCAFE1234] 5 0 = Some (Some g) \<and> fst (Kit_GraphToTruth g) = 0xCAFE1234"
  using truth_graph_truth [of 5 "[0xCAFE1234]" 0, OF _ _ dep_below_full]
  by (simp add: tt_wf_def Kit_TruthWordNum_def)

text \<open>
  C24. The factored form is never larger than the cover it is made from: the literal count that
  \<open>Kit_TruthLitNum\<close> reports is at most the number of literals of the sum of products (1 for a constant).
\<close>

theorem factored_literals:
  assumes n: "n \<le> 15" and wf: "tt_wf n p" and dep: "dep_below n (tt_fun n p)"
    and isop: "Kit_TruthIsop p n nCap True = (RetValue, Some cs, p')" and k: "Kit_TruthLitNum p n nCap = Some k"
  shows "k = -1 \<or> 1 \<le> k \<and> k \<le> max 1 (int (lit_weight cs))"
proof (cases "length cs > 2 ^ 16")
  case True
  then show ?thesis using isop k by (simp add: Kit_TruthLitNum_def)
next
  case False
  then obtain g s s' where g: "Kit_SopFactor cs (RetValue = 1) n s = Some (g, s')" and k': "k = 1 + int (Kit_GraphNodeNum g)"
    using isop k by (auto simp: Kit_TruthLitNum_def bind_eq_Some_conv)
  have n16: "n \<le> 16" using n by simp
  have "RetValue \<noteq> 1" if "cs = [] \<or> cs = [0]"
    using Isop_flip_nontrivial [OF n16 wf dep, of nCap True cs p'] isop that by auto
  then have "factored n (\<lambda>m. (tt_fun n p m \<noteq> (RetValue = 1)) \<noteq> (RetValue = 1)) (lit_weight cs) g"
    using SopFactor_isop [of n _ _ _ cs "RetValue = 1" s g s'] Kit_TruthIsop_ok [OF n16 wf dep isop] n g by auto
  then show ?thesis unfolding k' factored_def by linarith
qed

theorem factored_literals_witness:
  "\<exists>RetValue cs p' k. Kit_TruthIsop [0xCAFE1234] 5 0 True = (RetValue, Some cs, p') \<and>
    Kit_TruthLitNum [0xCAFE1234] 5 0 = Some k \<and> (k = -1 \<or> 1 \<le> k \<and> k \<le> max 1 (int (lit_weight cs)))"
proof -
  let ?p = "[0xCAFE1234] :: truth"
  have wf: "tt_wf 5 ?p" and dep: "dep_below 5 (tt_fun 5 ?p)"
    by (simp_all add: tt_wf_def Kit_TruthWordNum_def dep_below_full)
  obtain g where g: "Kit_TruthToGraph ?p 5 0 = Some (Some g)" using Kit_TruthToGraph_total [OF _ wf dep, of 0] by auto
  then obtain RetValue cs p' where i: "Kit_TruthIsop ?p 5 0 True = (RetValue, Some cs, p')"
    by (auto simp: Kit_TruthToGraph_def split: prod.splits option.splits)
  show ?thesis
    using i Kit_TruthLitNum_factored [OF g] factored_literals [OF _ wf dep i Kit_TruthLitNum_factored [OF g]] by auto
qed

text \<open>
  C25. With don't-cares: for disjoint offset and onset of up to seven variables \<open>Kit_TruthToGraph2\<close> returns a
  graph that is true on the onset and false on the offset.
\<close>

theorem factored_form_dont_cares:
  assumes "n \<le> 7" and "tt_wf n t0" "tt_wf n t1" and "dep_below n (tt_fun n t0)" "dep_below n (tt_fun n t1)"
    and "\<forall>m. \<not> (tt_fun n t0 m \<and> tt_fun n t1 m)"
  shows "\<exists>g. Kit_TruthToGraph2 t0 t1 n nCap = Some (Some g) \<and>
    (\<forall>m. (tt_fun n t1 m \<longrightarrow> graph_val g (bit m)) \<and> (tt_fun n t0 m \<longrightarrow> \<not> graph_val g (bit m)))"
proof -
  obtain g where g: "Kit_TruthToGraph2 t0 t1 n nCap = Some (Some g)" using Kit_TruthToGraph2_total [OF assms] by blast
  have "n \<le> 15" using assms(1) by simp
  then show ?thesis using Kit_TruthToGraph2_factored [OF _ assms(2-6) g] g by blast
qed

theorem factored_form_dont_cares_witness:
  "\<exists>g. Kit_TruthToGraph2 [0x00110011] [0x88008800] 5 0 = Some (Some g) \<and>
    (\<forall>m. (tt_fun 5 [0x88008800] m \<longrightarrow> graph_val g (bit m)) \<and> (tt_fun 5 [0x00110011] m \<longrightarrow> \<not> graph_val g (bit m)))"
proof (rule factored_form_dont_cares)
  have "(0x00110011 :: u32) AND 0x88008800 = 0" by code_simp
  then have "\<not> (bit (0x00110011 :: u32) i \<and> bit (0x88008800 :: u32) i)" for i by (metis bit_0_eq bit_and_iff bot_apply bot_bool_def)
  then show "\<forall>m. \<not> (tt_fun 5 [0x00110011] m \<and> tt_fun 5 [0x88008800] m)" by (simp only: word_fun_tt word_fun_def) blast
qed (simp_all add: tt_wf_def Kit_TruthWordNum_def dep_below_full)

text \<open>
  C32. \<open>Kit_TruthIsop\<close> leaves the table unchanged and, unless it reports that memory ran out, returns a
  cover that is exactly the function (or its complement, as the return value says), uses only the
  given variables and is irredundant: every cube is needed for some minterm.
\<close>

theorem isop_correct:
  assumes "n \<le> 16" and "tt_wf n p" and "dep_below n (tt_fun n p)"
    and "Kit_TruthIsop p n nCap fTryBoth = (RetValue, cov, p')"
  shows "p' = p \<and> (case cov of None \<Rightarrow> RetValue = -1
    | Some cs \<Rightarrow> RetValue \<in> {0, 1} \<and> (\<forall>m. cover_holds cs m \<longleftrightarrow> tt_fun n p m \<noteq> (RetValue = 1)) \<and>
        list_all (cube_below n) cs \<and> irredundant (\<lambda>m. tt_fun n p m \<noteq> (RetValue = 1)) cs)"
  using Kit_TruthIsop_ok [OF assms] by (auto simp: isop_spec_def split: option.splits)

theorem isop_correct_witness:
  "\<exists>RetValue cs. Kit_TruthIsop [0xE8E8E8E8, 0x12345678] 6 0 True = (RetValue, Some cs, [0xE8E8E8E8, 0x12345678]) \<and>
    (\<forall>m. cover_holds cs m \<longleftrightarrow> tt_fun 6 [0xE8E8E8E8, 0x12345678] m \<noteq> (RetValue = 1)) \<and>
    list_all (cube_below 6) cs \<and> irredundant (\<lambda>m. tt_fun 6 [0xE8E8E8E8, 0x12345678] m \<noteq> (RetValue = 1)) cs"
proof -
  let ?p = "[0xE8E8E8E8, 0x12345678] :: truth"
  have wf: "tt_wf 6 ?p" and dep: "dep_below 6 (tt_fun 6 ?p)"
    by (simp_all add: tt_wf_def Kit_TruthWordNum_def dep_below_full)
  obtain RetValue cov p' where i: "Kit_TruthIsop ?p 6 0 True = (RetValue, cov, p')" by (metis prod_cases3)
  have "isop_mem 6 \<le> max 0 KIT_ISOP_MEM_LIMIT" using Isop_mem_limit [of 6] by simp
  then have "RetValue \<noteq> -1" using Kit_TruthIsop_succeeds [OF _ wf dep, of 0 True] i by simp
  then show ?thesis using isop_correct [OF _ wf dep i] i by (cases cov) auto
qed

text \<open>
  C33. Up to eleven variables the memory limit of \<open>Kit_TruthIsop\<close> is never reached.
\<close>

theorem isop_returns:
  assumes "n \<le> 11" and "tt_wf n p" and "dep_below n (tt_fun n p)"
  shows "\<exists>RetValue cs p'. Kit_TruthIsop p n nCap fTryBoth = (RetValue, Some cs, p') \<and> RetValue \<in> {0, 1}"
proof -
  have n: "n \<le> 16" using assms(1) by simp
  have "isop_mem n \<le> max nCap KIT_ISOP_MEM_LIMIT" using Isop_mem_limit [OF assms(1)] by simp
  then have ok: "fst (Kit_TruthIsop p n nCap fTryBoth) \<noteq> -1" by (rule Kit_TruthIsop_succeeds [OF n assms(2,3)])
  obtain RetValue cov p' where i: "Kit_TruthIsop p n nCap fTryBoth = (RetValue, cov, p')" by (metis prod_cases3)
  then show ?thesis using ok Kit_TruthIsop_ok [OF n assms(2,3) i] by (cases cov) auto
qed

theorem isop_returns_witness:
  "\<exists>RetValue cs p'. Kit_TruthIsop [0xE8E8E8E8, 0x12345678] 6 0 True = (RetValue, Some cs, p') \<and> RetValue \<in> {0, 1}"
  by (rule isop_returns) (simp_all add: tt_wf_def Kit_TruthWordNum_def dep_below_full)

section \<open>Algebraic division and kernels\<close>

text \<open>
  C34. \<open>Kit_SopDivideInternal\<close> restores the cover it marks, and quotient and remainder rebuild it: its cubes
  are exactly the products of divisor and quotient cubes, without common literals, and the remainder.
  The quotient fits the words allocated for it.
\<close>

theorem division_rebuilds:
  assumes "plain S" and "distinct D" and "0 \<notin> set D" and "D \<noteq> []" and "Kit_SopDivideInternal S D s = Some (S', Q, R, s')"
  shows "S' = S \<and> mset S = mset (products D Q) + mset R \<and> (\<forall>d \<in> set D. \<forall>q \<in> set Q. d AND q = 0) \<and>
    length Q \<le> length S div length D"
proof -
  note d = DivideInternal_divides [OF assms]
  have "length Q * length D \<le> length S" using d by simp
  then have "length Q \<le> length S div length D" using assms(4) by (simp add: less_eq_div_iff_mult_less_eq)
  then show ?thesis using d by (simp add: divides_def)
qed

theorem division_rebuilds_witness:
  "Kit_SopDivideInternal [0x5, 0x9, 0x6, 0xA, 0x40] [0x4, 0x8] \<lparr>mem_nSize = 0, mem_nCap = 9\<rparr> =
      Some ([0x5, 0x9, 0x6, 0xA, 0x40], [0x1, 0x2], [0x40], \<lparr>mem_nSize = 3, mem_nCap = 9\<rparr>) \<and>
    mset [0x5, 0x9, 0x6, 0xA, 0x40] = mset (products [0x4, 0x8] [0x1, 0x2]) + mset [0x40 :: u32]"
proof -
  have r: "Kit_SopDivideInternal [0x5, 0x9, 0x6, 0xA, 0x40] [0x4, 0x8] \<lparr>mem_nSize = 0, mem_nCap = 9\<rparr> =
      Some ([0x5, 0x9, 0x6, 0xA, 0x40], [0x1, 0x2], [0x40], \<lparr>mem_nSize = 3, mem_nCap = 9\<rparr>)"
    by code_simp
  have "plain [0x5, 0x9, 0x6, 0xA, 0x40]" by (simp add: plain_def)
  then show ?thesis using division_rebuilds [OF _ _ _ _ r] r by simp
qed

text \<open>
  C35. Division finds a quotient whenever there is one: if the products of the divisor with some cube are
  in a cover in which no cube contains another, the quotient is not empty. The assertion of
  \<open>Kit_SopFactor_rec\<close> after its first division rests on this.
\<close>

theorem division_complete:
  assumes "plain S" and "antichain S" and "2 \<le> length D" and "kernel_of q D S"
    and "Kit_SopDivideInternal S D s = Some (S', Q, R, s')"
  shows "Q \<noteq> []"
  by (rule DivideInternal_nonempty [OF assms])

lemma antichain_iff:
  "antichain cs \<longleftrightarrow> list_all (\<lambda>i. list_all (\<lambda>j. i \<noteq> j \<longrightarrow> cs ! i AND cs ! j \<noteq> cs ! i) [0..<length cs]) [0..<length cs]"
proof -
  have "antichain cs \<longleftrightarrow> (\<forall>i < length cs. \<forall>j < length cs. i \<noteq> j \<longrightarrow> cs ! i AND cs ! j \<noteq> cs ! i)"
  proof (intro iffI allI impI)
    fix i j assume "antichain cs" "i < length cs" "j < length cs" "i \<noteq> j"
    then show "cs ! i AND cs ! j \<noteq> cs ! i" using antichainD two_sub_mset by blast
  next
    assume a: "\<forall>i < length cs. \<forall>j < length cs. i \<noteq> j \<longrightarrow> cs ! i AND cs ! j \<noteq> cs ! i"
    show "antichain cs" unfolding antichain_def
    proof (intro allI impI)
      fix c d assume "{#c, d#} \<subseteq># mset cs"
      from pair_sub_mset [OF this] a show "c AND d \<noteq> c" by blast
    qed
  qed
  then show ?thesis by (auto simp: list_all_iff)
qed

lemma example_cover: "plain [0x5, 0x9, 0x6, 0xA]" "antichain [0x5, 0x9, 0x6, 0xA]"
  by (simp add: plain_def) (simp only: antichain_iff, code_simp)

theorem division_complete_witness:
  "\<exists>S' Q R s'. Kit_SopDivideInternal [0x5, 0x9, 0x6, 0xA] [0x4, 0x8] \<lparr>mem_nSize = 0, mem_nCap = 9\<rparr> = Some (S', Q, R, s') \<and> Q \<noteq> []"
proof -
  have r: "Kit_SopDivideInternal [0x5, 0x9, 0x6, 0xA] [0x4, 0x8] \<lparr>mem_nSize = 0, mem_nCap = 9\<rparr> =
      Some ([0x5, 0x9, 0x6, 0xA], [0x1, 0x2], [], \<lparr>mem_nSize = 2, mem_nCap = 9\<rparr>)"
    by code_simp
  have "kernel_of 1 [0x4, 0x8] [0x5, 0x9, 0x6, 0xA]" by (simp add: kernel_of_def)
  then show ?thesis using division_complete [OF example_cover _ _ r] r by blast
qed

text \<open>
  C36. \<open>Kit_SopDivisor\<close> finds a divisor exactly when some literal occurs twice, and the divisor is a
  level-zero kernel: it has at least two cubes, its products with a nonempty co-kernel cube are
  cubes of the cover, and no literal occurs in it twice.
\<close>

theorem divisor_is_kernel:
  assumes "plain S" and "antichain S" and "length S < 1000000" and "n \<le> 32" and "Kit_SopDivisor S n s = Some (res, s')"
  shows "case res of
      None \<Rightarrow> length S \<le> 1 \<or> (\<forall>i < n. lit_occ S i \<le> 1)
    | Some D \<Rightarrow> 2 \<le> length D \<and> (\<exists>i < n. 2 \<le> lit_occ S i) \<and> (\<exists>ck. ck \<noteq> 0 \<and> kernel_of ck D S) \<and> (\<forall>i < n. lit_occ D i \<le> 1)"
  using Divisor_ok [OF assms] by (auto split: option.splits)

theorem divisor_is_kernel_witness:
  "\<exists>D s'. Kit_SopDivisor [0x5, 0x9, 0x6, 0xA] 4 \<lparr>mem_nSize = 0, mem_nCap = 9\<rparr> = Some (Some D, s') \<and>
    (\<exists>ck. ck \<noteq> 0 \<and> kernel_of ck D [0x5, 0x9, 0x6, 0xA]) \<and> (\<forall>i < 4. lit_occ D i \<le> 1)"
proof -
  obtain res s' where r: "Kit_SopDivisor [0x5, 0x9, 0x6, 0xA] 4 \<lparr>mem_nSize = 0, mem_nCap = 9\<rparr> = Some (res, s')"
    using Divisor_fits [of "\<lparr>mem_nSize = 0, mem_nCap = 9\<rparr>" "[0x5, 0x9, 0x6, 0xA]" 4] by auto
  have "lit_occ [0x5, 0x9, 0x6, 0xA] 0 = 2" by code_simp
  then have "\<not> (\<forall>i < 4. lit_occ [0x5, 0x9, 0x6, 0xA] i \<le> 1)" by (auto intro: exI [of _ 0])
  then show ?thesis using divisor_is_kernel [OF example_cover _ _ r] r by (cases res) auto
qed

text \<open>
  \<open>Kit_SopBestLiteral\<close> returns the most frequent literal of the mask among those that occur at least
  twice in the cover, and -1 if there is none.
\<close>

theorem best_literal:
  "if Kit_SopBestLiteral cs n u = -1 then \<forall>i < n. bit u i \<longrightarrow> lit_occ cs i \<le> 1
   else \<exists>i < n. Kit_SopBestLiteral cs n u = int i \<and> bit u i \<and> 2 \<le> lit_occ cs i \<and>
     (\<forall>j < n. bit u j \<longrightarrow> 2 \<le> lit_occ cs j \<longrightarrow> lit_occ cs j \<le> lit_occ cs i)"
  using BestLiteral_spec [of cs n u] by (auto intro: exI [of _ "nat (Kit_SopBestLiteral cs n u)"])


theorem best_literal_witness:
  "Kit_SopBestLiteral [0x5, 0x9, 0x6, 0xA] 4 0xF \<noteq> -1 \<and>
    (\<exists>i < 4. Kit_SopBestLiteral [0x5, 0x9, 0x6, 0xA] 4 0xF = int i \<and> 2 \<le> lit_occ [0x5, 0x9, 0x6, 0xA] i)"
proof -
  have "Kit_SopBestLiteral [0x5, 0x9, 0x6, 0xA] 4 0xF \<noteq> -1" by code_simp
  then show ?thesis using best_literal [of "[0x5, 0x9, 0x6, 0xA]" 4 "0xF"] by auto
qed


section \<open>Truth tables\<close>

text \<open>
  C37. \<open>Kit_TruthCofactor0\<close> and \<open>Kit_TruthCofactor1\<close> compute, at every minterm, the value of the
  table with the variable forced to 0 or to 1, for variables inside a word and across words.
\<close>

theorem cofactors_correct:
  assumes "tt_wf n p" and "v < n" and "m < tt_size n"
  shows "tt_bit (Kit_TruthCofactor0 p n v) m = tt_bit p (unset_bit v m) \<and>
    tt_bit (Kit_TruthCofactor1 p n v) m = tt_bit p (set_bit v m)"
  using assms by (simp add: tt_bit_Cofactor0 tt_bit_Cofactor1)

theorem cofactors_correct_witness:
  "tt_bit (Kit_TruthCofactor0 [0xE8E8E8E8, 0x12345678] 6 5) 40 = tt_bit [0xE8E8E8E8, 0x12345678] 8 \<and>
    tt_bit (Kit_TruthCofactor1 [0xE8E8E8E8, 0x12345678] 6 5) 40 = tt_bit [0xE8E8E8E8, 0x12345678] 40"
proof -
  have "unset_bit 5 (40::nat) = 8" "set_bit 5 (40::nat) = 40" by code_simp+
  moreover have "tt_wf 6 [0xE8E8E8E8, 0x12345678]" "(40::nat) < tt_size 6"
    by (simp_all add: tt_wf_def tt_size_def Kit_TruthWordNum_def)
  ultimately show ?thesis using cofactors_correct [of 6 "[0xE8E8E8E8, 0x12345678]" 5 40] by simp
qed

text \<open>
  Shannon expansion: \<open>Kit_TruthMuxVar\<close> applied to the two cofactors of a table gives the table back.
\<close>

theorem shannon_expansion:
  assumes "tt_wf n p" and "tt_wf n q" and "v < n"
  shows "Kit_TruthMuxVar q (Kit_TruthCofactor0 p n v) (Kit_TruthCofactor1 p n v) n v = p"
  using assms by (intro tt_eqI [of n]) (auto simp: tt_simps)

theorem shannon_expansion_witness:
  "Kit_TruthMuxVar [0, 0] (Kit_TruthCofactor0 [0xE8E8E8E8, 0x12345678] 6 2)
    (Kit_TruthCofactor1 [0xE8E8E8E8, 0x12345678] 6 2) 6 2 = [0xE8E8E8E8, 0x12345678]"
  by (rule shannon_expansion) (simp_all add: tt_wf_def Kit_TruthWordNum_def)

text \<open>
  Quantification over a set of variables: \<open>Kit_TruthExistSet\<close> and \<open>Kit_TruthForallSet\<close> are, at every
  minterm, the disjunction and the conjunction of the table over all minterms that agree outside
  the set.
\<close>

theorem set_quantification:
  assumes "tt_wf n pRes" and "m < tt_size n"
  shows "tt_bit (Kit_TruthExistSet pRes p n uMask) m =
      (\<exists>m' < tt_size n. agree_off {v. v < n \<and> bit uMask v} m m' \<and> tt_bit p m') \<and>
    tt_bit (Kit_TruthForallSet pRes p n uMask) m =
      (\<forall>m' < tt_size n. agree_off {v. v < n \<and> bit uMask v} m m' \<longrightarrow> tt_bit p m')"
  using tt_bit_ExistSet [OF assms] tt_bit_ForallSet [OF assms] by blast

theorem set_quantification_witness:
  "tt_bit (Kit_TruthExistSet [0] [0xE8E8E8E8] 5 3) 4 =
      (\<exists>m' < tt_size 5. agree_off {v. v < 5 \<and> bit (3 :: u32) v} 4 m' \<and> tt_bit [0xE8E8E8E8] m')"
  using set_quantification [of 5 "[0]" 4 "[0xE8E8E8E8]" 3] by (simp add: tt_wf_def tt_size_def Kit_TruthWordNum_def)

text \<open>
  C38. \<open>Kit_TruthSupport\<close> is the set of variables the function depends on, as a bit mask, and
  \<open>Kit_TruthSupportSize\<close> is its size.
\<close>

theorem support_exact:
  assumes "n \<le> 32"
  shows "(\<forall>v. bit (Kit_TruthSupport p n) v \<longleftrightarrow> v < n \<and> depends n p v) \<and>
    Kit_TruthSupportSize p n = card {v. v < n \<and> depends n p v}"
  using bit_Kit_TruthSupport [OF assms] Kit_TruthSupportSize_card by blast

theorem support_exact_witness:
  "(\<forall>v. bit (Kit_TruthSupport [0xE8E8E8E8] 5) v \<longleftrightarrow> v < 5 \<and> depends 5 [0xE8E8E8E8] v) \<and>
    Kit_TruthSupportSize [0xE8E8E8E8] 5 = card {v. v < 5 \<and> depends 5 [0xE8E8E8E8] v}"
  by (rule support_exact) simp

text \<open>
  \<open>Kit_TruthVarsSymm\<close> holds exactly when exchanging the two variables leaves the function as it is,
  \<open>Kit_TruthVarsAntiSymm\<close> when exchanging one with the complement of the other does.
\<close>

theorem symmetries:
  assumes "tt_wf n c0" "tt_wf n c1" "i < n" "j < n"
  shows "fst (Kit_TruthVarsSymm p n i j c0 c1) =
      (\<forall>m < tt_size n. tt_bit p (unset_bit i (set_bit j m)) = tt_bit p (set_bit i (unset_bit j m))) \<and>
    fst (Kit_TruthVarsAntiSymm p n i j c0 c1) =
      (\<forall>m < tt_size n. tt_bit p (unset_bit i (unset_bit j m)) = tt_bit p (set_bit i (set_bit j m)))"
  using VarsSymm_iff [OF assms] VarsAntiSymm_iff [OF assms] by blast

theorem symmetries_witness:
  "fst (Kit_TruthVarsSymm [0xE8E8E8E8] 5 0 2 [0] [0]) =
      (\<forall>m < tt_size 5. tt_bit [0xE8E8E8E8] (unset_bit 0 (set_bit 2 m)) = tt_bit [0xE8E8E8E8] (set_bit 0 (unset_bit 2 m)))"
  using symmetries [of 5 "[0]" "[0]" 0 2 "[0xE8E8E8E8]"] by (simp add: tt_wf_def Kit_TruthWordNum_def)

text \<open>
  For a table that is not constant \<open>Kit_TruthBestCofVar\<close> returns a variable whose cofactors have the
  smallest total support, and leaves these cofactors in the two output tables.
\<close>

theorem best_cofactoring_variable:
  assumes "tt_wf n p" "tt_wf n c0" "tt_wf n c1" and "0 < n" "2 * int n < KIT_INFINITY"
    and "\<not> Kit_TruthIsConst0 p n" "\<not> Kit_TruthIsConst1 p n"
  shows "\<exists>i < n. Kit_TruthBestCofVar p n c0 c1 = (int i, Kit_TruthCofactor0 p n i, Kit_TruthCofactor1 p n i) \<and>
    (\<forall>j < n. cof_cost p n i \<le> cof_cost p n j)"
  by (rule Kit_TruthBestCofVar_minimal [OF assms])

theorem best_cofactoring_variable_witness:
  "\<exists>i < 5. Kit_TruthBestCofVar [0xE8E8E8E8] 5 [0] [0] =
      (int i, Kit_TruthCofactor0 [0xE8E8E8E8] 5 i, Kit_TruthCofactor1 [0xE8E8E8E8] 5 i) \<and>
    (\<forall>j < 5. cof_cost [0xE8E8E8E8] 5 i \<le> cof_cost [0xE8E8E8E8] 5 j)"
  by (rule best_cofactoring_variable)
    (simp_all add: tt_wf_def Kit_TruthWordNum_def KIT_INFINITY_def Kit_TruthIsConst0_def Kit_TruthIsConst1_def)

text \<open>
  Swapping adjacent variables, in the three ways the code has for variables inside a word, across
  the word boundary and across words; the second implementation gives the same table.
\<close>

theorem swap_adjacent:
  assumes "tt_wf n p" "Suc v < n" "m < tt_size n"
  shows "tt_bit (Kit_TruthSwapAdjacentVars p q n v) m = tt_bit q (swap_adj v m) \<and>
    Kit_TruthSwapAdjacentVars2 q p n v = Kit_TruthSwapAdjacentVars p q n v"
  using tt_bit_Swap [OF assms] Swap2_eq by simp

theorem swap_adjacent_witness:
  "tt_bit (Kit_TruthSwapAdjacentVars [0, 0] [0xE8E8E8E8, 0x12345678] 6 4) 16 =
    tt_bit [0xE8E8E8E8, 0x12345678] (swap_adj 4 16)"
  using swap_adjacent [of 6 "[0, 0]" 4 16 "[0xE8E8E8E8, 0x12345678]"] by (simp add: tt_wf_def tt_size_def Kit_TruthWordNum_def)

text \<open>
  C39. Round trip: stretching a shrunk table with the same set of variables gives the table back.
\<close>

theorem stretch_shrink:
  assumes "tt_wf n p" "tt_wf n a" "tt_wf n b"
    and "Kit_TruthShrink a p (rank Phase n) n Phase False = (q, q')"
    and "Kit_TruthStretch b q (rank Phase n) n Phase False = (r, r')"
  shows "r = p"
proof (rule tt_eqI [of n])
  have q: "tt_wf n q" using Kit_TruthShrink_moves [OF assms(2,1,4), of 0] by (simp add: tt_size_eq)
  note st = Kit_TruthStretch_moves [OF assms(3) q refl assms(5)]
  show "tt_wf n r" "tt_wf n p" using st [of 0] assms(1) by (simp_all add: tt_size_eq)
  let ?f = "remap n (shrink_pos Phase n)"
  fix m assume m: "m < tt_size n"
  have "inj_on ?f {..<tt_size n}" by (rule inj_onI) (metis lessThan_iff shrink_remap_inverse)
  then have "?f ` {..<tt_size n} = {..<tt_size n}" by (intro endo_inj_surj) (auto simp: remap_less)
  then obtain m' where m': "m' < tt_size n" "m = ?f m'" using m by (metis imageE lessThan_iff)
  show "tt_bit r m = tt_bit p m"
    using st [OF m'(1)] Kit_TruthShrink_moves [OF assms(2,1,4) m'(1)] m'(2) by simp
qed


theorem stretch_shrink_witness:
  "fst (Kit_TruthStretch [0] (fst (Kit_TruthShrink [0] [0xAA00AA00] (rank 9 5) 5 9 False)) (rank 9 5) 5 9 False) = [0xAA00AA00]"
  using stretch_shrink [of 5 "[0xAA00AA00]" "[0]" "[0]" 9, OF _ _ _ prod.collapse [symmetric] prod.collapse [symmetric]]
  by (simp add: tt_wf_def Kit_TruthWordNum_def)

text \<open>
  C40. \<open>Kit_TruthPermute\<close> sorts the given permutation by adjacent swaps. The loop ends for every
  permutation, the result is the table with its variables permuted, and the caller's array is left
  sorted.
\<close>

theorem permute_returns:
  assumes "tt_wf n pOut" "tt_wf n pIn" and "mset pPerm = mset (map int [0..<n])"
  shows "\<exists>out inn. Kit_TruthPermute pOut pIn n pPerm fReturnIn = Some ((out, inn), map int [0..<n]) \<and>
    (\<forall>m < tt_size n. tt_bit (if fReturnIn then inn else out) m = tt_bit pIn (remap n (perm_pos n pPerm) m))"
  using Kit_TruthPermute_moves [OF assms] by blast

theorem permute_returns_witness:
  "\<exists>out inn. Kit_TruthPermute [0] [0xAA00AA00] 5 [2, 0, 4, 1, 3] False = Some ((out, inn), map int [0..<5]) \<and>
    (\<forall>m < tt_size 5. tt_bit out m = tt_bit [0xAA00AA00] (remap 5 (perm_pos 5 [2, 0, 4, 1, 3]) m))"
proof -
  have "mset [2, 0, 4, 1, 3] = mset (map int [0..<5])" by (simp add: eval_nat_numeral)
  then show ?thesis using permute_returns [of 5 "[0]" "[0xAA00AA00]" "[2, 0, 4, 1, 3]" False]
    by (simp add: tt_wf_def Kit_TruthWordNum_def)
qed

text \<open>
  \<open>Kit_WordCountOnes\<close>, with its five rounds of masked additions in 32 bits, is the number of ones.
\<close>

theorem word_count_ones: "Kit_WordCountOnes x = card {i. i < 32 \<and> bit x i}"
  using Kit_WordCountOnes_popcount by (simp add: word_ones_def)

text \<open>
  The fast count of minterms in all cofactors, which works on pairs of words in parallel, equals
  the slow one, which computes the cofactors.
\<close>

theorem cofactor_counts:
  assumes "tt_wf n p" "tt_wf n aux" "length s = 2 * n" "length s' = 2 * n"
  shows "Kit_TruthCountOnesInCofs p n s = fst (Kit_TruthCountOnesInCofsSlow p n s' aux)"
  by (rule CountOnesInCofs_slow [OF assms])

theorem cofactor_counts_witness:
  "Kit_TruthCountOnesInCofs [0xE8E8E8E8, 0x12345678] 6 (replicate 12 0) =
    fst (Kit_TruthCountOnesInCofsSlow [0xE8E8E8E8, 0x12345678] 6 (replicate 12 7) [0, 0])"
  by (rule cofactor_counts) (simp_all add: tt_wf_def Kit_TruthWordNum_def)

text \<open>
  \<open>Kit_TruthCountOnesInCofs0\<close> fills its array with the sizes of all negative cofactors, the numbers
  \<open>Kit_TruthCofactor0Count\<close> computes one at a time.
\<close>

theorem negative_cofactor_counts:
  assumes "n \<le> length s" and "j < n"
  shows "Kit_TruthCountOnesInCofs0 p n s ! j = card {m. m < tt_size n \<and> tt_bit p m \<and> \<not> bit m j} \<and>
    Kit_TruthCountOnesInCofs0 p n s ! j = Kit_TruthCofactor0Count p n j"
  using CountOnesInCofs0_count [OF assms] Kit_TruthCofactor0Count_count [OF assms(2)] by (simp add: minterm_count_def)

theorem negative_cofactor_counts_witness:
  "Kit_TruthCountOnesInCofs0 [0xE8E8E8E8, 0x12345678] 6 (replicate 6 0) ! 5 =
    Kit_TruthCofactor0Count [0xE8E8E8E8, 0x12345678] 6 5"
  using negative_cofactor_counts [of 6 "replicate 6 0" 5 "[0xE8E8E8E8, 0x12345678]"] by simp

text \<open>
  \<open>Kit_TruthBooleanDiffCount\<close> counts the pairs of minterms that differ in the variable only and in
  the value of the function.
\<close>

theorem boolean_difference_count:
  assumes "v < n"
  shows "Kit_TruthBooleanDiffCount p n v = card {m. m < tt_size n \<and> \<not> bit m v \<and> tt_bit p m \<noteq> tt_bit p (set_bit v m)}"
  using Kit_TruthBooleanDiffCount_count [OF assms] by (simp add: minterm_count_def)

theorem boolean_difference_count_witness:
  "Kit_TruthBooleanDiffCount [0xE8E8E8E8] 5 1 =
    card {m. m < tt_size 5 \<and> \<not> bit m 1 \<and> tt_bit [0xE8E8E8E8] m \<noteq> tt_bit [0xE8E8E8E8] (set_bit 1 m)}"
  by (rule boolean_difference_count) simp

section \<open>Decomposition graphs\<close>

text \<open>
  Adding an AND or an OR node extends the graph: it stays well-formed, all edges keep their
  functions, and the new edge computes the conjunction or disjunction.
\<close>

theorem graph_add_nodes:
  assumes "graph_wf g" "edge_ok g a" "edge_ok g b" "Kit_GraphAddNodeAnd g a b = (g1, e1)" "Kit_GraphAddNodeOr g a b = (g2, e2)"
  shows "extends g g1 \<and> edge_ok g1 e1 \<and> edge_val g1 env e1 = (edge_val g env a \<and> edge_val g env b) \<and>
    extends g g2 \<and> edge_ok g2 e2 \<and> edge_val g2 env e2 = (edge_val g env a \<or> edge_val g env b)"
  using add_and [OF assms(1-4)] add_or [OF assms(1-3,5)] by blast

theorem graph_add_nodes_witness:
  "let g = Kit_GraphCreate 2; a = Kit_EdgeCreate 0 True; b = Kit_EdgeCreate 1 False;
       (g1, e1) = Kit_GraphAddNodeAnd g a b; (g2, e2) = Kit_GraphAddNodeOr g a b
   in edge_val g1 (\<lambda>_. True) e1 = (edge_val g (\<lambda>_. True) a \<and> edge_val g (\<lambda>_. True) b) \<and> extends g g2"
  using graph_add_nodes [OF graph_create_wf [of 2], of "Kit_EdgeCreate 0 True" "Kit_EdgeCreate 1 False"
      "fst (Kit_GraphAddNodeAnd (Kit_GraphCreate 2) (Kit_EdgeCreate 0 True) (Kit_EdgeCreate 1 False))"
      "snd (Kit_GraphAddNodeAnd (Kit_GraphCreate 2) (Kit_EdgeCreate 0 True) (Kit_EdgeCreate 1 False))"
      "fst (Kit_GraphAddNodeOr (Kit_GraphCreate 2) (Kit_EdgeCreate 0 True) (Kit_EdgeCreate 1 False))"
      "snd (Kit_GraphAddNodeOr (Kit_GraphCreate 2) (Kit_EdgeCreate 0 True) (Kit_EdgeCreate 1 False))"]
  by (simp add: edge_ok_def Kit_EdgeCreate_def Kit_GraphCreate_def Let_def split_beta)

text \<open>
  The exclusive-or and the multiplexer are built from AND and OR nodes with the right edge
  complements, in both variants the code has.
\<close>

theorem graph_xor_mux:
  assumes "graph_wf g" "edge_ok g c" "edge_ok g a" "edge_ok g b"
    and "Kit_GraphAddNodeXor g a b t = (g1, e1)" "Kit_GraphAddNodeMux g c a b t = (g2, e2)"
  shows "extends g g1 \<and> edge_val g1 env e1 = (edge_val g env a \<noteq> edge_val g env b) \<and>
    extends g g2 \<and> edge_val g2 env e2 = (if edge_val g env c then edge_val g env a else edge_val g env b)"
  using add_xor [OF assms(1,3,4,5)] add_mux [OF assms(1-4,6)] by blast

theorem graph_xor_mux_witness:
  "let g = Kit_GraphCreate 3; c = Kit_EdgeCreate 2 False; a = Kit_EdgeCreate 0 True; b = Kit_EdgeCreate 1 False;
       (g1, e1) = Kit_GraphAddNodeXor g a b 0; (g2, e2) = Kit_GraphAddNodeMux g c a b 0
   in edge_val g1 (\<lambda>_. True) e1 = (edge_val g (\<lambda>_. True) a \<noteq> edge_val g (\<lambda>_. True) b) \<and> extends g g2"
  using graph_xor_mux [OF graph_create_wf [of 3], of "Kit_EdgeCreate 2 False" "Kit_EdgeCreate 0 True" "Kit_EdgeCreate 1 False" 0
      "fst (Kit_GraphAddNodeXor (Kit_GraphCreate 3) (Kit_EdgeCreate 0 True) (Kit_EdgeCreate 1 False) 0)"
      "snd (Kit_GraphAddNodeXor (Kit_GraphCreate 3) (Kit_EdgeCreate 0 True) (Kit_EdgeCreate 1 False) 0)"
      "fst (Kit_GraphAddNodeMux (Kit_GraphCreate 3) (Kit_EdgeCreate 2 False) (Kit_EdgeCreate 0 True) (Kit_EdgeCreate 1 False) 0)"
      "snd (Kit_GraphAddNodeMux (Kit_GraphCreate 3) (Kit_EdgeCreate 2 False) (Kit_EdgeCreate 0 True) (Kit_EdgeCreate 1 False) 0)"]
  by (simp add: edge_ok_def Kit_EdgeCreate_def Kit_GraphCreate_def Let_def split_beta)

text \<open>
  \<open>Kit_GraphLeafDepth_rec\<close> is the length of the longest path from the node down to the given leaf, or
  -100 if there is no path.
\<close>

theorem leaf_depth:
  assumes "graph_wf g" and "i < g_nSize g"
  shows "longest_path (g_nLeaves g) (g_pNodes g) t i (Kit_GraphLeafDepth_rec (g_nLeaves g) (g_pNodes g) i t)"
  using assms by (intro Kit_GraphLeafDepth_longest [where n = i]) (auto simp: graph_wf_def fanins_below_def)

theorem leaf_depth_witness:
  "longest_path 2 (replicate 2 zero_node) 1 0 (Kit_GraphLeafDepth_rec 2 (replicate 2 zero_node) 0 1)"
  using leaf_depth [OF graph_create_wf [of 2], of 0 1] by (simp add: Kit_GraphCreate_def)

text \<open>
  Edges and integers: the conversions are inverse to each other.
\<close>

theorem edge_roundtrip: "Kit_IntToEdge (Kit_EdgeToInt e) = e \<and> Kit_EdgeToInt (Kit_IntToEdge x) = x"
  using edge_int_roundtrip by blast

end
